(* ===== verification/Tiovx_Prelude.thy ===== *)
theory Tiovx_Prelude
  imports Main "HOL-Library.Word" "HOL-Library.Multiset"
begin

unbundle bit_operations_syntax

text \<open>
  Shared ground of the development: the machine types and status codes of
  \<open>include/VX/vx_types.h\<close>, the constants of the configuration headers, the flag helpers of
  \<open>include/TI/tivx_target_kernel.h\<close>, and the generic lemmas on flags and on circular buffers
  that every queue of the program rests on.
\<close>

named_theorems ring_simps \<open>facts about the list held by a circular buffer\<close>
named_theorems flag_simps \<open>facts about setting, clearing and testing flag bits\<close>

section \<open>Machine types and status codes\<close>

type_synonym uint8 = "8 word"
type_synonym uint16 = "16 word"
type_synonym uint32 = "32 word"
type_synonym uint64 = "64 word"
type_synonym uintptr = "64 word"

text \<open>\<open>vx_status\<close> is a 32-bit \<open>vx_enum\<close>: the code casts it to \<open>uint32_t\<close> and
  combines it with bitwise or, so it is kept as a word; \<open>VX_FAILURE\<close> is \<open>-1\<close>.\<close>

type_synonym vx_status = "32 word"
type_synonym vx_enum = "32 word"

abbreviation (input) VX_SUCCESS :: vx_status where "VX_SUCCESS \<equiv> 0"
abbreviation (input) VX_FAILURE :: vx_status where "VX_FAILURE \<equiv> - 1"
abbreviation (input) VX_ERROR_NOT_SUPPORTED :: vx_status where "VX_ERROR_NOT_SUPPORTED \<equiv> - 3"
abbreviation (input) VX_ERROR_NO_RESOURCES :: vx_status where "VX_ERROR_NO_RESOURCES \<equiv> - 7"
abbreviation (input) VX_ERROR_NO_MEMORY :: vx_status where "VX_ERROR_NO_MEMORY \<equiv> - 8"
abbreviation (input) VX_ERROR_INVALID_PARAMETERS :: vx_status
  where "VX_ERROR_INVALID_PARAMETERS \<equiv> - 10"
abbreviation (input) VX_ERROR_INVALID_REFERENCE :: vx_status
  where "VX_ERROR_INVALID_REFERENCE \<equiv> - 12"
abbreviation (input) VX_ERROR_INVALID_VALUE :: vx_status where "VX_ERROR_INVALID_VALUE \<equiv> - 16"
abbreviation (input) VX_ERROR_INVALID_TYPE :: vx_status where "VX_ERROR_INVALID_TYPE \<equiv> - 17"
abbreviation (input) VX_ERROR_TIMEOUT :: vx_status where "VX_ERROR_TIMEOUT \<equiv> - 25"

abbreviation (input) TIVX_EVENT_TIMEOUT_NO_WAIT :: uint32 where "TIVX_EVENT_TIMEOUT_NO_WAIT \<equiv> 0"
abbreviation (input) VX_TIMEOUT_WAIT_FOREVER :: uint32 where "VX_TIMEOUT_WAIT_FOREVER \<equiv> 0xFFFFFFFF"

section \<open>Flags\<close>

definition tivxFlagIsBitSet :: "uint32 \<Rightarrow> uint32 \<Rightarrow> bool" where
  "tivxFlagIsBitSet flag_var flag_val \<longleftrightarrow> (flag_var AND flag_val) = flag_val"

definition tivxFlagBitSet :: "uint32 \<Rightarrow> uint32 \<Rightarrow> uint32" where
  "tivxFlagBitSet flag_var flag_val = (flag_var OR flag_val)"

definition tivxFlagBitClear :: "uint32 \<Rightarrow> uint32 \<Rightarrow> uint32" where
  "tivxFlagBitClear flag_var flag_val = (flag_var AND NOT flag_val)"

lemma flag_set_same [simp, flag_simps]: "tivxFlagIsBitSet (tivxFlagBitSet f v) v"
  unfolding tivxFlagIsBitSet_def tivxFlagBitSet_def by (rule bit_eqI) (auto simp: bit_simps)

lemma flag_clear_same [simp, flag_simps]: "tivxFlagIsBitSet (tivxFlagBitClear f v) v \<longleftrightarrow> v = 0"
proof -
  have "tivxFlagBitClear f v AND v = 0"
    unfolding tivxFlagBitClear_def by (rule bit_eqI) (auto simp: bit_simps)
  then show ?thesis by (auto simp: tivxFlagIsBitSet_def)
qed

lemma flag_set_other [flag_simps]:
  assumes "v AND w = 0"
  shows "tivxFlagIsBitSet (tivxFlagBitSet f w) v \<longleftrightarrow> tivxFlagIsBitSet f v"
proof -
  have "(f OR w) AND v = (f AND v) OR (v AND w)"
    by (rule bit_eqI) (auto simp: bit_simps)
  with assms show ?thesis by (simp add: tivxFlagIsBitSet_def tivxFlagBitSet_def)
qed

lemma flag_clear_other [flag_simps]:
  assumes "v AND w = 0"
  shows "tivxFlagIsBitSet (tivxFlagBitClear f w) v \<longleftrightarrow> tivxFlagIsBitSet f v"
proof -
  have "(f AND NOT w) AND v = f AND v"
  proof (rule bit_word_eqI)
    fix n assume "n < LENGTH(32)"
    moreover have "\<not> (bit v n \<and> bit w n)"
      using arg_cong [OF assms, where f = "\<lambda>x. bit x n"] by (simp add: bit_simps)
    ultimately show "bit ((f AND NOT w) AND v) n = bit (f AND v) n"
      by (auto simp: bit_simps)
  qed
  then show ?thesis by (simp add: tivxFlagIsBitSet_def tivxFlagBitClear_def)
qed

text \<open>The test for parameter \<open>i\<close> of the bit masks of a node: \<open>tivxFlagIsBitSet(mask, 1U<<i)\<close>
  and \<open>(mask & (1U<<i)) != 0U\<close> are the same test.\<close>

definition prm_bit :: "uint32 \<Rightarrow> nat \<Rightarrow> bool" where
  "prm_bit m i \<longleftrightarrow> tivxFlagIsBitSet m (push_bit i 1)"

section \<open>Splitting a 64-bit time into two words\<close>

definition tivx_uint64_to_uint32 :: "uint64 \<Rightarrow> uint32 \<times> uint32" where
  "tivx_uint64_to_uint32 val = (ucast (drop_bit 32 val), ucast (drop_bit 0 val))"

definition tivx_uint32_to_uint64 :: "uint32 \<Rightarrow> uint32 \<Rightarrow> uint64" where
  "tivx_uint32_to_uint64 h l = (push_bit 32 (ucast h) OR ucast l)"

lemma uint64_split_join:
  "(case tivx_uint64_to_uint32 t of (h, l) \<Rightarrow> tivx_uint32_to_uint64 h l) = t"
proof -
  have "push_bit 32 (ucast (ucast (drop_bit 32 t) :: uint32)) OR ucast (ucast t :: uint32) = t"
    by (rule bit_eqI) (auto simp: bit_simps bit_ucast_iff not_less le_add_diff_inverse2)
  then show ?thesis by (simp add: tivx_uint64_to_uint32_def tivx_uint32_to_uint64_def)
qed

section \<open>Searching a table\<close>

text \<open>The search loops of the program: the first entry of a table that passes a test.\<close>

fun first_index :: "('a \<Rightarrow> bool) \<Rightarrow> 'a list \<Rightarrow> nat option" where
  "first_index P [] = None"
| "first_index P (x # xs) = (if P x then Some 0 else map_option Suc (first_index P xs))"

lemma first_index_none: "first_index P xs = None \<longleftrightarrow> (\<forall>x \<in> set xs. \<not> P x)"
  by (induction xs) auto

lemma first_index_some:
  "first_index P xs = Some i \<longleftrightarrow> i < length xs \<and> P (xs ! i) \<and> (\<forall>j < i. \<not> P (xs ! j))"
proof (induction xs arbitrary: i)
  case Nil
  then show ?case by simp
next
  case (Cons x xs)
  show ?case
  proof (cases i)
    case 0
    then show ?thesis by auto
  next
    case (Suc k)
    with Cons show ?thesis by (auto simp: less_Suc_eq_0_disj)
  qed
qed

lemma length_filter_update:
  assumes "i < length xs" "P (xs ! i)" "\<not> P y"
  shows "length (filter P xs) = Suc (length (filter P (xs[i := y])))"
proof -
  have "xs = take i xs @ xs ! i # drop (Suc i) xs"
    using assms(1) by (simp add: id_take_nth_drop)
  then have "length (filter P xs) = length (filter P (take i xs)) + 1 + length (filter P (drop (Suc i) xs))"
    using assms(2) by (metis (no_types, lifting) One_nat_def add.assoc filter.simps(2) filter_append
        length_Cons length_append plus_1_eq_Suc)
  moreover have "length (filter P (xs[i := y]))
      = length (filter P (take i xs)) + length (filter P (drop (Suc i) xs))"
    using assms(1,3) by (simp add: upd_conv_take_nth_drop)
  ultimately show ?thesis by simp
qed

section \<open>Circular buffers\<close>

text \<open>The \<open>n\<close> elements of the circular buffer \<open>mem\<close> that start at index \<open>rd\<close>.\<close>

definition ring_list :: "'a list \<Rightarrow> nat \<Rightarrow> nat \<Rightarrow> 'a list" where
  "ring_list mem rd n = map (\<lambda>i. mem ! ((rd + i) mod length mem)) [0..<n]"

lemma length_ring_list [simp]: "length (ring_list mem rd n) = n"
  by (simp add: ring_list_def)

lemma ring_list_0 [simp]: "ring_list mem rd 0 = []"
  by (simp add: ring_list_def)

lemma mod_add_inj:
  fixes a b r m :: nat
  assumes "a < m" "b < m" "(r + a) mod m = (r + b) mod m"
  shows "a = b"
proof -
  have *: "m dvd y - x" if "(r + x) mod m = (r + y) mod m" "x \<le> y" for x y
    using that mod_eq_dvd_iff_nat [of "r + x" "r + y" m] by simp
  show ?thesis
  proof (cases "a \<le> b")
    case True
    with * [OF assms(3)] assms(2) show ?thesis by (auto dest: dvd_imp_le)
  next
    case False
    with * [OF assms(3) [symmetric]] assms(1) show ?thesis by (auto dest: dvd_imp_le)
  qed
qed

lemma ring_list_snoc [ring_simps]:
  assumes "n < length mem"
  shows "ring_list (mem[(rd + n) mod length mem := x]) rd (Suc n) = ring_list mem rd n @ [x]"
proof -
  have "(rd + i) mod length mem \<noteq> (rd + n) mod length mem" if "i < n" for i
    using mod_add_inj [of i "length mem" n rd] that assms by auto
  moreover have "(rd + n) mod length mem < length mem"
    using assms by (intro mod_less_divisor) auto
  ultimately show ?thesis
    by (auto simp: ring_list_def nth_list_update) metis
qed

lemma ring_list_Cons [ring_simps]:
  assumes "0 < n" "rd < length mem"
  shows "ring_list mem rd n = mem ! rd # ring_list mem ((rd + 1) mod length mem) (n - 1)"
proof -
  obtain k where k: "n = Suc k" using assms(1) by (cases n) auto
  have "[0..<Suc k] = 0 # map Suc [0..<k]"
    by (metis map_Suc_upt upt_conv_Cons zero_less_Suc)
  with k assms(2) show ?thesis
    by (simp add: ring_list_def mod_add_left_eq o_def)
qed

text \<open>The step of an index of a circular buffer, on machine words.\<close>

lemma unat_suc_bound:
  fixes w m :: "'w::len word"
  assumes "w < m"
  shows "unat w + 1 < 2 ^ LENGTH('w)"
proof -
  have "unat w < unat m" using assms by (simp add: word_less_nat_alt)
  moreover have "unat m < 2 ^ LENGTH('w)" by (rule unsigned_less)
  ultimately show ?thesis by linarith
qed

lemma unat_ring_next [ring_simps]:
  fixes w m :: "'w::len word"
  assumes "w < m"
  shows "unat ((w + 1) mod m) = (unat w + 1) mod unat m"
proof -
  have "unat w + 1 < 2 ^ LENGTH('w)" by (rule unat_suc_bound [OF assms])
  then have "unat (w + 1) = unat w + 1"
    by (simp add: unat_word_ariths unat_of_nat)
  then show ?thesis by (simp add: unat_mod)
qed

lemma unat_inc_below [ring_simps]:
  fixes w m :: "'w::len word"
  assumes "w < m"
  shows "unat (w + 1) = unat w + 1"
proof -
  have "unat w + 1 < 2 ^ LENGTH('w)" by (rule unat_suc_bound [OF assms])
  then show ?thesis by (simp add: unat_word_ariths unat_of_nat)
qed

lemma unat_dec_pos [ring_simps]:
  fixes w :: "'w::len word"
  assumes "0 < w"
  shows "unat (w - 1) = unat w - 1"
  using assms by (simp add: unat_minus_one word_gt_0)

section \<open>Arrays of pointers\<close>

text \<open>The entries of an array of pointers that are not null, and what writing to one place does to them.\<close>

definition somes :: "'a option list \<Rightarrow> 'a list" where
  "somes l = concat (map (\<lambda>x. case x of None \<Rightarrow> [] | Some i \<Rightarrow> [i]) l)"

lemma somes_simps [simp]: "somes [] = []" "somes (None # l) = somes l" "somes (Some i # l) = i # somes l"
  "somes (l @ m) = somes l @ somes m" "somes (replicate n None) = []"
  by (simp_all add: somes_def)

lemma set_somes: "set (somes l) = {i. Some i \<in> set l}"
  by (induction l) (auto simp: somes_def split: option.splits)

lemma somes_put: "k < length l \<Longrightarrow> l ! k = None \<Longrightarrow> mset (somes (l[k := Some i])) = add_mset i (mset (somes l))"
proof (induction l arbitrary: k)
  case (Cons a l)
  then show ?case by (cases k; cases a) auto
qed simp

lemma somes_take:
  assumes "k < length l" "l ! k = Some i"
  shows "mset (somes l) = add_mset i (mset (somes (l[k := None])))"
  using somes_put [of k "l[k := None]" i] assms by (simp add: list_update_same_conv [THEN iffD2, OF assms(1)])

end
