(* ===== verification/Bounded_Fifo.thy ===== *)
theory Bounded_Fifo
  imports Tiovx_Prelude "HOL-Library.Multiset"
begin

text \<open>
  The contract that the program's bounded queues offer to their clients: a client puts without
  waiting and gets without waiting, a put on a full queue and a get on an empty one answer
  \<open>VX_FAILURE\<close> and change nothing. The contract is the locale \<open>bounded_fifo\<close>; the operating
  system queue of \<open>source/platform/common/os/posix/tivx_queue.c\<close>, the one of
  \<open>source/platform/board/rtos/tivx_queue.c\<close> and the shared-memory queue of
  \<open>source/framework/vx_obj_desc_queue.c\<close> interpret it in their own theories. A list with a
  capacity (\<open>fifo_spec\<close>) is the abstract specification they all refine.
\<close>

section \<open>The abstract queue: a list with a capacity\<close>

datatype 'a fifo_op = Put 'a | Get

datatype 'a fifo_out = Put_Done bool | Got "'a option"

fun fifo_spec_step :: "nat \<Rightarrow> 'a list \<Rightarrow> 'a fifo_op \<Rightarrow> 'a list \<times> 'a fifo_out" where
  "fifo_spec_step n xs (Put x) =
     (if length xs < n then (xs @ [x], Put_Done True) else (xs, Put_Done False))"
| "fifo_spec_step n [] Get = ([], Got None)"
| "fifo_spec_step n (x # xs) Get = (xs, Got (Some x))"

fun fifo_spec :: "nat \<Rightarrow> 'a list \<Rightarrow> 'a fifo_op list \<Rightarrow> 'a list \<times> 'a fifo_out list" where
  "fifo_spec n xs [] = (xs, [])"
| "fifo_spec n xs (p # ps) =
     (let (xs', r) = fifo_spec_step n xs p; (xs'', rs) = fifo_spec n xs' ps in (xs'', r # rs))"

text \<open>What a client put in with success, and what it got out, in order.\<close>

fun accepted :: "'a fifo_op list \<Rightarrow> 'a fifo_out list \<Rightarrow> 'a list" where
  "accepted (Put x # ps) (Put_Done True # rs) = x # accepted ps rs"
| "accepted (p # ps) (r # rs) = accepted ps rs"
| "accepted _ _ = []"

fun delivered :: "'a fifo_out list \<Rightarrow> 'a list" where
  "delivered [] = []"
| "delivered (Got (Some x) # rs) = x # delivered rs"
| "delivered (r # rs) = delivered rs"

lemma fifo_spec_conserves:
  "fifo_spec n xs ps = (ys, rs) \<Longrightarrow> xs @ accepted ps rs = delivered rs @ ys"
proof (induction ps arbitrary: xs ys rs)
  case Nil
  then show ?case by simp
next
  case (Cons p ps)
  obtain xs' r where step: "fifo_spec_step n xs p = (xs', r)" by fastforce
  obtain rs' where rest: "fifo_spec n xs' ps = (ys, rs')" and rs: "rs = r # rs'"
    using Cons.prems step by (auto split: prod.splits)
  have IH: "xs' @ accepted ps rs' = delivered rs' @ ys" using Cons.IH [OF rest] .
  show ?case
  proof (cases p)
    case (Put x)
    with step IH rs show ?thesis by (auto split: if_splits)
  next
    case Get
    with step IH rs show ?thesis by (cases xs) auto
  qed
qed

lemma fifo_spec_within_cap:
  "length xs \<le> n \<Longrightarrow> fifo_spec n xs ps = (ys, rs) \<Longrightarrow> length ys \<le> n"
proof (induction ps arbitrary: xs ys rs)
  case Nil
  then show ?case by simp
next
  case (Cons p ps)
  obtain xs' r where step: "fifo_spec_step n xs p = (xs', r)" by fastforce
  with Cons.prems have "length xs' \<le> n"
    by (cases p; cases xs) (auto split: if_splits)
  with Cons step show ?case by (auto split: prod.splits)
qed

section \<open>Running a client's operations on an implementation\<close>

fun fifo_exec ::
  "('q \<Rightarrow> 'a \<Rightarrow> 'q \<times> vx_status) \<Rightarrow> ('q \<Rightarrow> 'q \<times> 'a option \<times> vx_status) \<Rightarrow>
   'q \<Rightarrow> 'a fifo_op list \<Rightarrow> 'q \<times> 'a fifo_out list" where
  "fifo_exec put get q [] = (q, [])"
| "fifo_exec put get q (Put x # ps) =
     (let (q', s) = put q x; (q'', rs) = fifo_exec put get q' ps
      in (q'', Put_Done (s = VX_SUCCESS) # rs))"
| "fifo_exec put get q (Get # ps) =
     (let (q', r, s) = get q; (q'', rs) = fifo_exec put get q' ps
      in (q'', Got (if s = VX_SUCCESS then r else None) # rs))"

section \<open>The contract\<close>

locale bounded_fifo =
  fixes inv :: "'q \<Rightarrow> bool"
    and elems :: "'q \<Rightarrow> 'a list"
    and cap :: "'q \<Rightarrow> nat"
    and put :: "'q \<Rightarrow> 'a \<Rightarrow> 'q \<times> vx_status"
    and get :: "'q \<Rightarrow> 'q \<times> 'a option \<times> vx_status"
  assumes within_cap: "inv q \<Longrightarrow> length (elems q) \<le> cap q"
    and put_ok: "\<lbrakk>inv q; length (elems q) < cap q\<rbrakk> \<Longrightarrow>
      \<exists>q'. put q x = (q', VX_SUCCESS) \<and> inv q' \<and> elems q' = elems q @ [x] \<and> cap q' = cap q"
    and put_full: "\<lbrakk>inv q; length (elems q) = cap q\<rbrakk> \<Longrightarrow> put q x = (q, VX_FAILURE)"
    and get_ok: "\<lbrakk>inv q; elems q = x # xs\<rbrakk> \<Longrightarrow>
      \<exists>q'. get q = (q', Some x, VX_SUCCESS) \<and> inv q' \<and> elems q' = xs \<and> cap q' = cap q"
    and get_empty: "\<lbrakk>inv q; elems q = []\<rbrakk> \<Longrightarrow> get q = (q, None, VX_FAILURE)"
begin

lemma put_cases:
  assumes "inv q"
  obtains (full) "length (elems q) = cap q" "put q x = (q, VX_FAILURE)"
  | (room) q' where "length (elems q) < cap q" "put q x = (q', VX_SUCCESS)" "inv q'"
      "elems q' = elems q @ [x]" "cap q' = cap q"
  using within_cap [OF assms] put_ok [OF assms, of x] put_full [OF assms, of x]
  by (cases "length (elems q) = cap q") auto

lemma get_cases:
  assumes "inv q"
  obtains (empty) "elems q = []" "get q = (q, None, VX_FAILURE)"
  | (some) q' x xs where "elems q = x # xs" "get q = (q', Some x, VX_SUCCESS)" "inv q'"
      "elems q' = xs" "cap q' = cap q"
  using get_ok [OF assms] get_empty [OF assms] by (cases "elems q") auto

lemma exec_refines:
  "\<lbrakk>inv q; fifo_exec put get q ps = (q', rs)\<rbrakk> \<Longrightarrow>
   inv q' \<and> cap q' = cap q \<and> fifo_spec (cap q) (elems q) ps = (elems q', rs)"
proof (induction ps arbitrary: q q' rs)
  case Nil
  then show ?case by simp
next
  case (Cons p ps)
  show ?case
  proof (cases p)
    case (Put x)
    from \<open>inv q\<close> show ?thesis
    proof (cases rule: put_cases [where x = x])
      case full
      then show ?thesis using Cons.prems Put Cons.IH [OF \<open>inv q\<close>]
        by (auto split: prod.splits)
    next
      case (room q1)
      then show ?thesis using Cons.prems Put Cons.IH [OF \<open>inv q1\<close>]
        by (auto split: prod.splits)
    qed
  next
    case Get
    from \<open>inv q\<close> show ?thesis
    proof (cases rule: get_cases)
      case empty
      then show ?thesis using Cons.prems Get Cons.IH [OF \<open>inv q\<close>]
        by (auto split: prod.splits)
    next
      case (some q1 x xs)
      then show ?thesis using Cons.prems Get Cons.IH [OF \<open>inv q1\<close>]
        by (auto split: prod.splits)
    qed
  qed
qed

text \<open>First in, first out, nothing lost and nothing invented, over any run of a client.\<close>

lemma exec_conserves:
  assumes "inv q" "fifo_exec put get q ps = (q', rs)"
  shows "elems q @ accepted ps rs = delivered rs @ elems q'"
  using exec_refines [OF assms] by (auto dest: fifo_spec_conserves)

text \<open>Filling a queue with as many elements as it has room for.\<close>

lemma put_all:
  "\<lbrakk>inv q; length (elems q) + length xs \<le> cap q\<rbrakk> \<Longrightarrow>
   inv (foldl (\<lambda>q x. fst (put q x)) q xs) \<and> cap (foldl (\<lambda>q x. fst (put q x)) q xs) = cap q
   \<and> elems (foldl (\<lambda>q x. fst (put q x)) q xs) = elems q @ xs"
proof (induction xs arbitrary: q)
  case Nil
  then show ?case by simp
next
  case (Cons x xs)
  then obtain q' where "put q x = (q', VX_SUCCESS)" "inv q'" "elems q' = elems q @ [x]"
    "cap q' = cap q"
    using put_ok [of q x] by auto
  with Cons show ?case by simp
qed

text \<open>Moving one token from a queue to another keeps the tokens of the two together.\<close>

lemma transfer_conserves:
  assumes "inv a" "inv b" "get a = (a', Some x, VX_SUCCESS)" "put b x = (b', s)"
    and "length (elems b) < cap b"
  shows "s = VX_SUCCESS \<and> inv a' \<and> inv b' \<and> elems a = x # elems a' \<and> elems b' = elems b @ [x]
    \<and> cap a' = cap a \<and> cap b' = cap b
    \<and> mset (elems a') + mset (elems b') = mset (elems a) + mset (elems b)"
proof -
  from \<open>inv a\<close> have a: "inv a' \<and> elems a = x # elems a' \<and> cap a' = cap a"
    by (cases rule: get_cases) (use assms(3) in auto)
  moreover have "s = VX_SUCCESS \<and> inv b' \<and> elems b' = elems b @ [x] \<and> cap b' = cap b"
    using put_ok [OF \<open>inv b\<close> assms(5), of x] assms(4) by auto
  ultimately show ?thesis by simp
qed

end

end
