(* ===== verification/Posix_Objects.thy ===== *)
theory Posix_Objects
  imports Tiovx_Prelude
begin

text \<open>
  The static pools of operating system objects of
  \<open>source/platform/common/os/posix/tivx_posix_objects.c\<close> and the mutex of
  \<open>source/platform/common/os/posix/tivx_mutex.c\<close>. An object of a pool is named by its index in
  the pool's array, a pointer of the code by \<open>nat option\<close> with \<open>None\<close> for \<open>NULL\<close>. The POSIX
  calls are not part of the repository: their return codes are the fields of \<open>posix_rc\<close>.
\<close>

section \<open>Return codes of the POSIX calls\<close>

record posix_rc =
  rc_mutexattr_init :: uint32
  rc_mutex_init :: uint32
  rc_condattr_init :: uint32
  rc_cond_init_get :: uint32
  rc_cond_init_put :: uint32
  rc_mutex_lock :: uint32
  rc_mutex_unlock :: uint32

definition posix_ok :: posix_rc where
  "posix_ok = \<lparr>rc_mutexattr_init = 0, rc_mutex_init = 0, rc_condattr_init = 0,
     rc_cond_init_get = 0, rc_cond_init_put = 0, rc_mutex_lock = 0, rc_mutex_unlock = 0\<rparr>"

section \<open>Use flags\<close>

definition ownInitUseFlag :: "bool list \<Rightarrow> bool list" where
  "ownInitUseFlag inUse = map (\<lambda>_. False) inUse"

fun ownCheckUseFlag_from :: "nat \<Rightarrow> bool list \<Rightarrow> vx_status \<times> nat" where
  "ownCheckUseFlag_from i [] = (VX_SUCCESS, i)"
| "ownCheckUseFlag_from i (u # us) =
     (if u then (VX_FAILURE, i) else ownCheckUseFlag_from (Suc i) us)"

definition ownCheckUseFlag :: "bool list \<Rightarrow> vx_status \<times> nat" where
  "ownCheckUseFlag inUse = ownCheckUseFlag_from 0 inUse"

text \<open>The search loop of \<open>ownAllocPosixObject\<close>: the first free index, marked as used.\<close>

fun ownAllocPosixObject_from :: "nat \<Rightarrow> bool list \<Rightarrow> bool list \<times> nat option" where
  "ownAllocPosixObject_from i [] = ([], None)"
| "ownAllocPosixObject_from i (u # us) =
     (if \<not> u then (True # us, Some i)
      else (case ownAllocPosixObject_from (Suc i) us of (us', r) \<Rightarrow> (u # us', r)))"

definition ownAllocPosixObject :: "bool list \<Rightarrow> bool list \<times> nat option" where
  "ownAllocPosixObject inUse = ownAllocPosixObject_from 0 inUse"

definition ownFreePosixObject :: "nat \<Rightarrow> bool list \<Rightarrow> bool list \<times> vx_status" where
  "ownFreePosixObject obj inUse =
     (if obj < length inUse \<and> inUse ! obj then (inUse[obj := False], VX_SUCCESS)
      else (inUse, VX_FAILURE))"

lemma alloc_from_cases:
  "(\<exists>k. k < length us \<and> \<not> us ! k \<and> (\<forall>j < k. us ! j)
      \<and> ownAllocPosixObject_from i us = (us[k := True], Some (i + k)))
   \<or> ((\<forall>j < length us. us ! j) \<and> ownAllocPosixObject_from i us = (us, None))"
proof (induction us arbitrary: i)
  case Nil
  then show ?case by simp
next
  case (Cons u us)
  show ?case
  proof (cases u)
    case False
    then show ?thesis by (intro disjI1 exI [of _ 0]) simp
  next
    case True
    from Cons.IH [of "Suc i"] show ?thesis
    proof
      assume "\<exists>k. k < length us \<and> \<not> us ! k \<and> (\<forall>j < k. us ! j)
        \<and> ownAllocPosixObject_from (Suc i) us = (us[k := True], Some (Suc i + k))"
      then obtain k where k: "k < length us" "\<not> us ! k" "\<forall>j < k. us ! j"
        "ownAllocPosixObject_from (Suc i) us = (us[k := True], Some (Suc i + k))" by blast
      have "\<forall>j < Suc k. (u # us) ! j"
        using True k(3) by (auto simp: nth_Cons split: nat.splits)
      with True k show ?thesis by (intro disjI1 exI [of _ "Suc k"]) simp
    next
      assume "(\<forall>j < length us. us ! j) \<and> ownAllocPosixObject_from (Suc i) us = (us, None)"
      with True show ?thesis by (intro disjI2) (auto simp: nth_Cons split: nat.splits)
    qed
  qed
qed

lemma alloc_cases:
  obtains (found) k where "k < length us" "\<not> us ! k" "\<forall>j < k. us ! j"
    "ownAllocPosixObject us = (us[k := True], Some k)"
  | (full) "\<forall>j < length us. us ! j" "ownAllocPosixObject us = (us, None)"
  using alloc_from_cases [of us 0] by (auto simp: ownAllocPosixObject_def)

section \<open>The pools\<close>

datatype posix_type = TYPE_EVENT | TYPE_MUTEX | TYPE_QUEUE | TYPE_TASK | TYPE_OTHER

record posix_objects =
  isEventUse :: "bool list"
  isMutexUse :: "bool list"
  isQueueUse :: "bool list"
  isTaskUse :: "bool list"
  objects_lock :: "nat option"

text \<open>\<open>tivxMutexLock\<close> and \<open>tivxMutexUnlock\<close> on a handle that may be \<open>NULL\<close>.\<close>

definition tivxMutexLock :: "uint32 \<Rightarrow> nat option \<Rightarrow> vx_status" where
  "tivxMutexLock rc m = (case m of None \<Rightarrow> VX_ERROR_INVALID_PARAMETERS
     | Some _ \<Rightarrow> if rc \<noteq> 0 then VX_FAILURE else rc)"

definition tivxMutexUnlock :: "uint32 \<Rightarrow> nat option \<Rightarrow> vx_status" where
  "tivxMutexUnlock rc m = (case m of None \<Rightarrow> VX_ERROR_INVALID_PARAMETERS
     | Some _ \<Rightarrow> if rc \<noteq> 0 then VX_FAILURE else rc)"

definition ownPosixObjectAlloc ::
  "posix_rc \<Rightarrow> posix_objects \<Rightarrow> posix_type \<Rightarrow> posix_objects \<times> nat option" where
  "ownPosixObjectAlloc rc po t =
     (if tivxMutexLock (rc_mutex_lock rc) (objects_lock po) = VX_SUCCESS then
       (case t of
          TYPE_EVENT \<Rightarrow> (case ownAllocPosixObject (isEventUse po) of
             (u, r) \<Rightarrow> (po\<lparr>isEventUse := u\<rparr>, r))
        | TYPE_MUTEX \<Rightarrow> (case ownAllocPosixObject (isMutexUse po) of
             (u, r) \<Rightarrow> (po\<lparr>isMutexUse := u\<rparr>, r))
        | TYPE_QUEUE \<Rightarrow> (case ownAllocPosixObject (isQueueUse po) of
             (u, r) \<Rightarrow> (po\<lparr>isQueueUse := u\<rparr>, r))
        | TYPE_TASK \<Rightarrow> (case ownAllocPosixObject (isTaskUse po) of
             (u, r) \<Rightarrow> (po\<lparr>isTaskUse := u\<rparr>, r))
        | TYPE_OTHER \<Rightarrow> (po, None))
      else (po, None))"

definition ownPosixObjectFree ::
  "posix_rc \<Rightarrow> posix_objects \<Rightarrow> nat option \<Rightarrow> posix_type \<Rightarrow> posix_objects \<times> vx_status" where
  "ownPosixObjectFree rc po obj t =
     (case obj of None \<Rightarrow> (po, VX_ERROR_INVALID_PARAMETERS)
      | Some i \<Rightarrow>
       (let status = tivxMutexLock (rc_mutex_lock rc) (objects_lock po) in
        if status = VX_SUCCESS then
         (case t of
            TYPE_EVENT \<Rightarrow> (case ownFreePosixObject i (isEventUse po) of
               (u, s) \<Rightarrow> (po\<lparr>isEventUse := u\<rparr>, s))
          | TYPE_MUTEX \<Rightarrow> (case ownFreePosixObject i (isMutexUse po) of
               (u, s) \<Rightarrow> (po\<lparr>isMutexUse := u\<rparr>, s))
          | TYPE_QUEUE \<Rightarrow> (case ownFreePosixObject i (isQueueUse po) of
               (u, s) \<Rightarrow> (po\<lparr>isQueueUse := u\<rparr>, s))
          | TYPE_TASK \<Rightarrow> (case ownFreePosixObject i (isTaskUse po) of
               (u, s) \<Rightarrow> (po\<lparr>isTaskUse := u\<rparr>, s))
          | TYPE_OTHER \<Rightarrow> (po, VX_ERROR_INVALID_REFERENCE))
        else (po, status)))"

text \<open>Initialisation takes one mutex object for the lock of the pools themselves.\<close>

definition ownPosixObjectInit :: "posix_objects \<Rightarrow> posix_objects \<times> vx_status" where
  "ownPosixObjectInit po =
     (let po1 = po\<lparr>isEventUse := ownInitUseFlag (isEventUse po),
                   isMutexUse := ownInitUseFlag (isMutexUse po),
                   isQueueUse := ownInitUseFlag (isQueueUse po),
                   isTaskUse := ownInitUseFlag (isTaskUse po)\<rparr>
      in (case ownAllocPosixObject (isMutexUse po1) of
            (u, r) \<Rightarrow> (po1\<lparr>isMutexUse := u, objects_lock := r\<rparr>,
                       if r = None then VX_FAILURE else VX_SUCCESS)))"

text \<open>Each of the four checks overwrites the status of the one before.\<close>

definition ownPosixObjectDeInit :: "posix_objects \<Rightarrow> posix_objects \<times> vx_status" where
  "ownPosixObjectDeInit po =
     (case (case objects_lock po of None \<Rightarrow> (isMutexUse po, VX_FAILURE)
            | Some i \<Rightarrow> ownFreePosixObject i (isMutexUse po)) of
       (u, status) \<Rightarrow>
        (let po1 = po\<lparr>isMutexUse := u\<rparr> in
         if status = VX_SUCCESS then
          (let po2 = po1\<lparr>objects_lock := None\<rparr>;
               s1 = fst (ownCheckUseFlag (isEventUse po2));
               s2 = fst (ownCheckUseFlag (isQueueUse po2));
               s3 = fst (ownCheckUseFlag (isTaskUse po2));
               s4 = fst (ownCheckUseFlag (isMutexUse po2))
           in (po2, s4))
         else (po1, status)))"

section \<open>The mutex\<close>

definition tivxMutexCreate ::
  "posix_rc \<Rightarrow> posix_objects \<Rightarrow> posix_objects \<times> nat option \<times> vx_status" where
  "tivxMutexCreate rc po =
     (case ownPosixObjectAlloc rc po TYPE_MUTEX of
        (po1, None) \<Rightarrow> (po1, None, VX_ERROR_NO_MEMORY)
      | (po1, Some m) \<Rightarrow>
         (let status = (VX_SUCCESS OR rc_mutexattr_init rc) OR rc_mutex_init rc in
          if status \<noteq> 0 then
            (fst (ownPosixObjectFree rc po1 (Some m) TYPE_MUTEX), None, VX_ERROR_NO_MEMORY)
          else (po1, Some m, status)))"

definition tivxMutexDelete ::
  "posix_rc \<Rightarrow> posix_objects \<Rightarrow> nat option \<Rightarrow> posix_objects \<times> nat option \<times> vx_status" where
  "tivxMutexDelete rc po m =
     (case m of None \<Rightarrow> (po, m, VX_FAILURE)
      | Some i \<Rightarrow> (fst (ownPosixObjectFree rc po m TYPE_MUTEX), None, VX_SUCCESS))"

section \<open>Properties\<close>

lemma check_use_flag_ok: "fst (ownCheckUseFlag_from i us) = VX_SUCCESS \<longleftrightarrow> (\<forall>u \<in> set us. \<not> u)"
  by (induction us arbitrary: i) auto

lemma mutex_lock_ok [simp]:
  "tivxMutexLock rc m = VX_SUCCESS \<longleftrightarrow> rc = 0 \<and> m \<noteq> None"
  by (auto simp: tivxMutexLock_def split: option.splits)

lemma update_true_false: "k < length us \<Longrightarrow> \<not> us ! k \<Longrightarrow> us[k := False] = us"
  by (metis list_update_id)

lemma alloc_free_pool:
  assumes "ownAllocPosixObject us = (us', Some k)"
  shows "ownFreePosixObject k us' = (us, VX_SUCCESS)"
  using assms
  by (cases us rule: alloc_cases) (auto simp: ownFreePosixObject_def update_true_false)

end
