(* ===== verification/Os_Queue.thy ===== *)
theory Os_Queue
  imports Bounded_Fifo Posix_Objects
begin

text \<open>
  The operating system queue, \<open>source/platform/common/os/posix/tivx_queue.c\<close>: a circular buffer
  of \<open>uintptr_t\<close> values with optional blocking on an empty or on a full queue. The record
  mirrors \<open>tivx_queue\<close> of \<open>include/TI/tivx_queue.h\<close>; the memory that the caller hands over is
  the list \<open>q_queue\<close>. Signals on the two condition variables are counted in the context, and
  everything that happens while a thread sleeps on a condition variable is an explicit
  argument (\<open>wait_env\<close>), so that a thread which sleeps for ever is the result \<open>None\<close>.
\<close>

section \<open>State\<close>

abbreviation (input) TIVX_QUEUE_FLAG_BLOCK_ON_PUT :: uint32
  where "TIVX_QUEUE_FLAG_BLOCK_ON_PUT \<equiv> 1"
abbreviation (input) TIVX_QUEUE_FLAG_BLOCK_ON_GET :: uint32
  where "TIVX_QUEUE_FLAG_BLOCK_ON_GET \<equiv> 2"

record tivx_queue_context =
  ctx_object :: nat
  condGet_signals :: nat
  condPut_signals :: nat

record tivx_queue =
  q_cur_rd :: uint32
  q_cur_wr :: uint32
  q_count :: uint32
  q_max_ele :: uint32
  q_queue :: "uintptr list"
  q_context :: "tivx_queue_context option"
  q_flags :: uint32
  q_blockedOnGet :: bool
  q_blockedOnPut :: bool

definition init_queue :: tivx_queue where
  "init_queue = \<lparr>q_cur_rd = 0, q_cur_wr = 0, q_count = 0, q_max_ele = 0, q_queue = [],
     q_context = None, q_flags = 0, q_blockedOnGet = False, q_blockedOnPut = False\<rparr>"

definition block_on_get :: "tivx_queue \<Rightarrow> bool" where
  "block_on_get q \<longleftrightarrow> (q_flags q AND TIVX_QUEUE_FLAG_BLOCK_ON_GET) \<noteq> 0"

definition block_on_put :: "tivx_queue \<Rightarrow> bool" where
  "block_on_put q \<longleftrightarrow> (q_flags q AND TIVX_QUEUE_FLAG_BLOCK_ON_PUT) \<noteq> 0"

section \<open>Create and delete\<close>

definition tivxQueueCreate ::
  "posix_rc \<Rightarrow> posix_objects \<Rightarrow> tivx_queue \<Rightarrow> uint32 \<Rightarrow> uintptr list option \<Rightarrow> uint32 \<Rightarrow>
   posix_objects \<times> tivx_queue \<times> vx_status" where
  "tivxQueueCreate rc po queue max_elements queue_memory flags =
     (case queue_memory of
        None \<Rightarrow> (po, queue, VX_FAILURE)
      | Some m \<Rightarrow>
        if max_elements = 0 then (po, queue, VX_FAILURE)
        else
         (let q = init_queue\<lparr>q_max_ele := max_elements, q_flags := flags, q_queue := m\<rparr> in
          case ownPosixObjectAlloc rc po TYPE_QUEUE of
            (po1, None) \<Rightarrow> (po1, q, VX_ERROR_NO_MEMORY)
          | (po1, Some i) \<Rightarrow>
             (let q1 = q\<lparr>q_context :=
                    Some \<lparr>ctx_object = i, condGet_signals = 0, condPut_signals = 0\<rparr>\<rparr>;
                  s0 = (VX_SUCCESS OR rc_mutexattr_init rc) OR rc_mutex_init rc;
                  s1 = (if s0 = 0 \<and> block_on_get q1
                        then (s0 OR rc_condattr_init rc) OR rc_cond_init_get rc else s0);
                  s2 = (if s0 = 0 \<and> block_on_put q1
                        then (s1 OR rc_condattr_init rc) OR rc_cond_init_put rc else s1)
              in if s2 = VX_SUCCESS
                 then (po1, q1\<lparr>q_blockedOnGet := False, q_blockedOnPut := False\<rparr>, s2)
                 else (fst (ownPosixObjectFree rc po1 (Some i) TYPE_QUEUE),
                       q1\<lparr>q_context := None\<rparr>, s2))))"

definition tivxQueueDelete ::
  "posix_rc \<Rightarrow> posix_objects \<Rightarrow> tivx_queue \<Rightarrow> posix_objects \<times> tivx_queue \<times> vx_status" where
  "tivxQueueDelete rc po q =
     (case q_context q of
        None \<Rightarrow> (po, q, VX_FAILURE)
      | Some c \<Rightarrow>
         (case ownPosixObjectFree rc po (Some (ctx_object c)) TYPE_QUEUE of
            (po1, status) \<Rightarrow> (po1, q\<lparr>q_context := None\<rparr>, status)))"

section \<open>Waiting\<close>

text \<open>The absolute deadline that \<open>tivxQueueGet\<close> computes from \<open>gettimeofday\<close> and the timeout in
  milliseconds: seconds and nanoseconds, with the casts of the code.\<close>

definition get_deadline :: "uint64 \<Rightarrow> uint64 \<Rightarrow> uint32 \<Rightarrow> uint64 \<times> uint64" where
  "get_deadline tv_sec tv_usec timeout =
     (let micro = tv_usec + ucast timeout * 1000;
          sec = (ucast tv_sec :: uint32)
      in if micro \<ge> 1000000
         then (ucast (sec + (ucast micro :: uint32) div 1000000), (micro mod 1000000) * 1000)
         else (ucast sec, micro * 1000))"

text \<open>What the environment does while a thread sleeps on a condition variable: the clock read
  before (\<open>None\<close> when \<open>gettimeofday\<close> fails), whether a wait with a deadline times out, and what
  the other threads do to the queue before the sleeper has the lock again.\<close>

record wait_env =
  we_time :: "(uint64 \<times> uint64) option"
  we_timedout :: "uint64 \<times> uint64 \<Rightarrow> bool"
  we_others :: "tivx_queue \<Rightarrow> tivx_queue"

section \<open>Put\<close>

definition signal_condGet :: "tivx_queue \<Rightarrow> tivx_queue" where
  "signal_condGet q = q\<lparr>q_context := map_option
     (\<lambda>c. c\<lparr>condGet_signals := Suc (condGet_signals c)\<rparr>) (q_context q)\<rparr>"

definition signal_condPut :: "tivx_queue \<Rightarrow> tivx_queue" where
  "signal_condPut q = q\<lparr>q_context := map_option
     (\<lambda>c. c\<lparr>condPut_signals := Suc (condPut_signals c)\<rparr>) (q_context q)\<rparr>"

definition put_element :: "tivx_queue \<Rightarrow> uintptr \<Rightarrow> tivx_queue" where
  "put_element q data =
     q\<lparr>q_queue := (q_queue q)[unat (q_cur_wr q) := data],
       q_cur_wr := (q_cur_wr q + 1) mod q_max_ele q,
       q_count := q_count q + 1\<rparr>"

fun tivxQueuePut_loop ::
  "wait_env list \<Rightarrow> tivx_queue \<Rightarrow> uintptr \<Rightarrow> uint32 \<Rightarrow> (tivx_queue \<times> vx_status) option" where
  "tivxQueuePut_loop ws q data timeout =
     (if q_count q < q_max_ele q then
        (let q1 = put_element q data
         in Some (if block_on_get q1 then signal_condGet q1 else q1, VX_SUCCESS))
      else if timeout = TIVX_EVENT_TIMEOUT_NO_WAIT then Some (q, VX_FAILURE)
      else if block_on_put q then
        (case ws of [] \<Rightarrow> None
         | w # ws' \<Rightarrow>
            tivxQueuePut_loop ws'
              ((we_others w (q\<lparr>q_blockedOnPut := True\<rparr>))\<lparr>q_blockedOnPut := False\<rparr>) data timeout)
      else Some (q, VX_FAILURE))"

declare tivxQueuePut_loop.simps [simp del]

definition tivxQueuePut ::
  "posix_rc \<Rightarrow> wait_env list \<Rightarrow> tivx_queue \<Rightarrow> uintptr \<Rightarrow> uint32 \<Rightarrow>
   (tivx_queue \<times> vx_status) option" where
  "tivxQueuePut rc ws q data timeout =
     (if q_context q = None then Some (q, VX_FAILURE)
      else if rc_mutex_lock rc = 0 then
        map_option (\<lambda>(q', status). (q', status OR rc_mutex_unlock rc))
          (tivxQueuePut_loop ws q data timeout)
      else Some (q, rc_mutex_lock rc))"

section \<open>Get\<close>

definition get_element :: "tivx_queue \<Rightarrow> tivx_queue" where
  "get_element q =
     q\<lparr>q_cur_rd := (q_cur_rd q + 1) mod q_max_ele q, q_count := q_count q - 1\<rparr>"

fun tivxQueueGet_loop ::
  "wait_env list \<Rightarrow> tivx_queue \<Rightarrow> uint32 \<Rightarrow> (tivx_queue \<times> uintptr option \<times> vx_status) option"
where
  "tivxQueueGet_loop ws q timeout =
     (if q_count q > 0 then
        (let q1 = get_element q
         in Some (if block_on_put q1 then signal_condPut q1 else q1,
                  Some (q_queue q ! unat (q_cur_rd q)), VX_SUCCESS))
      else if timeout = TIVX_EVENT_TIMEOUT_NO_WAIT then Some (q, None, VX_FAILURE)
      else if block_on_get q then
        (case ws of [] \<Rightarrow> None
         | w # ws' \<Rightarrow>
            (let q1 = q\<lparr>q_blockedOnGet := True\<rparr> in
             if timeout = VX_TIMEOUT_WAIT_FOREVER then
               tivxQueueGet_loop ws' ((we_others w q1)\<lparr>q_blockedOnGet := False\<rparr>) timeout
             else
               (case we_time w of
                  None \<Rightarrow> tivxQueueGet_loop ws' q1 timeout
                | Some (tv_sec, tv_usec) \<Rightarrow>
                    if we_timedout w (get_deadline tv_sec tv_usec timeout)
                    then Some (we_others w q1, None, VX_ERROR_TIMEOUT)
                    else tivxQueueGet_loop ws'
                           ((we_others w q1)\<lparr>q_blockedOnGet := False\<rparr>) timeout)))
      else Some (q, None, VX_FAILURE))"

declare tivxQueueGet_loop.simps [simp del]

definition tivxQueueGet ::
  "posix_rc \<Rightarrow> wait_env list \<Rightarrow> tivx_queue \<Rightarrow> uint32 \<Rightarrow>
   (tivx_queue \<times> uintptr option \<times> vx_status) option" where
  "tivxQueueGet rc ws q timeout =
     (if q_context q = None then Some (q, None, VX_FAILURE)
      else if rc_mutex_lock rc = 0 then
        map_option (\<lambda>(q', d, status). (q', d, status OR rc_mutex_unlock rc))
          (tivxQueueGet_loop ws q timeout)
      else Some (q, None, rc_mutex_lock rc))"

section \<open>IsEmpty and Peek\<close>

definition tivxQueueIsEmpty :: "posix_rc \<Rightarrow> tivx_queue \<Rightarrow> bool" where
  "tivxQueueIsEmpty rc q =
     (if q_context q \<noteq> None \<and> rc_mutex_lock rc = 0 then q_count q = 0 else True)"

definition tivxQueuePeek :: "tivx_queue \<Rightarrow> uintptr option \<times> vx_status" where
  "tivxQueuePeek q =
     (if q_context q \<noteq> None \<and> q_count q > 0
      then (Some (q_queue q ! unat (q_cur_rd q)), VX_SUCCESS) else (None, VX_FAILURE))"

section \<open>Invariant and abstraction\<close>

definition queue_inv :: "tivx_queue \<Rightarrow> bool" where
  "queue_inv q \<longleftrightarrow> q_context q \<noteq> None \<and> 0 < q_max_ele q
     \<and> length (q_queue q) = unat (q_max_ele q) \<and> q_count q \<le> q_max_ele q
     \<and> q_cur_rd q < q_max_ele q
     \<and> unat (q_cur_wr q) = (unat (q_cur_rd q) + unat (q_count q)) mod unat (q_max_ele q)"

definition queue_elems :: "tivx_queue \<Rightarrow> uintptr list" where
  "queue_elems q = ring_list (q_queue q) (unat (q_cur_rd q)) (unat (q_count q))"

definition queue_cap :: "tivx_queue \<Rightarrow> nat" where
  "queue_cap q = unat (q_max_ele q)"

lemma length_queue_elems: "length (queue_elems q) = unat (q_count q)"
  by (simp add: queue_elems_def)

lemma signal_frame [simp]:
  "queue_inv (signal_condGet q) = queue_inv q" "queue_inv (signal_condPut q) = queue_inv q"
  "queue_elems (signal_condGet q) = queue_elems q"
  "queue_elems (signal_condPut q) = queue_elems q"
  "queue_cap (signal_condGet q) = queue_cap q" "queue_cap (signal_condPut q) = queue_cap q"
  by (auto simp: signal_condGet_def signal_condPut_def queue_inv_def queue_elems_def queue_cap_def)

lemma signal_fields [simp]:
  "q_blockedOnGet (signal_condGet q) = q_blockedOnGet q"
  "q_blockedOnGet (signal_condPut q) = q_blockedOnGet q"
  "map_option condGet_signals (q_context (signal_condPut q)) =
    map_option condGet_signals (q_context q)"
  "map_option condGet_signals (q_context (signal_condGet q)) =
    map_option (\<lambda>c. Suc (condGet_signals c)) (q_context q)"
  by (simp_all add: signal_condGet_def signal_condPut_def option.map_comp o_def)

lemma put_element_refines:
  assumes "queue_inv q" "q_count q < q_max_ele q"
  shows "queue_inv (put_element q x)" "queue_elems (put_element q x) = queue_elems q @ [x]"
    "queue_cap (put_element q x) = queue_cap q"
proof -
  let ?n = "unat (q_max_ele q)"
  have wr: "unat (q_cur_wr q) = (unat (q_cur_rd q) + unat (q_count q)) mod ?n"
    and pos: "0 < ?n" and len: "length (q_queue q) = ?n"
    using assms(1) by (auto simp: queue_inv_def word_less_nat_alt)
  have lt: "unat (q_count q) < ?n" using assms(2) by (simp add: word_less_nat_alt)
  have wr_lt: "q_cur_wr q < q_max_ele q"
    using wr pos by (simp add: word_less_nat_alt)
  have cnt: "unat (q_count q + 1) = unat (q_count q) + 1"
    using unat_inc_below [OF assms(2)] .
  have wr': "unat ((q_cur_wr q + 1) mod q_max_ele q)
      = (unat (q_cur_rd q) + unat (q_count q + 1)) mod ?n"
    using unat_ring_next [OF wr_lt] wr cnt by (simp add: mod_Suc_eq)
  show "queue_inv (put_element q x)"
    using assms(1) wr' cnt lt by (auto simp: queue_inv_def put_element_def word_le_nat_alt)
  show "queue_elems (put_element q x) = queue_elems q @ [x]"
    using ring_list_snoc [of "unat (q_count q)" "q_queue q" "unat (q_cur_rd q)" x] wr cnt lt len
    by (simp add: queue_elems_def put_element_def)
  show "queue_cap (put_element q x) = queue_cap q"
    by (simp add: queue_cap_def put_element_def)
qed

lemma get_element_refines:
  assumes "queue_inv q" "0 < q_count q"
  shows "queue_inv (get_element q)"
    "queue_elems q = q_queue q ! unat (q_cur_rd q) # queue_elems (get_element q)"
    "queue_cap (get_element q) = queue_cap q"
proof -
  let ?n = "unat (q_max_ele q)"
  have wr: "unat (q_cur_wr q) = (unat (q_cur_rd q) + unat (q_count q)) mod ?n"
    and rd: "q_cur_rd q < q_max_ele q" and le: "unat (q_count q) \<le> ?n"
    and len: "length (q_queue q) = ?n"
    using assms(1) by (auto simp: queue_inv_def word_le_nat_alt)
  have cnt: "unat (q_count q - 1) = unat (q_count q) - 1" and pos: "0 < unat (q_count q)"
    using unat_dec_pos [OF assms(2)] assms(2) by (auto simp: word_less_nat_alt)
  have rd': "unat ((q_cur_rd q + 1) mod q_max_ele q) = (unat (q_cur_rd q) + 1) mod ?n"
    using unat_ring_next [OF rd] .
  have "unat (q_cur_wr q) = (unat ((q_cur_rd q + 1) mod q_max_ele q)
      + unat (q_count q - 1)) mod ?n"
    unfolding rd' cnt wr mod_add_left_eq using pos by (intro arg_cong [where f = "\<lambda>k. k mod _"]) simp
  moreover have "(q_cur_rd q + 1) mod q_max_ele q < q_max_ele q"
    using rd by (simp add: word_less_nat_alt unat_mod)
  ultimately show "queue_inv (get_element q)"
    using assms(1) cnt le by (auto simp: queue_inv_def get_element_def word_le_nat_alt)
  show "queue_elems q = q_queue q ! unat (q_cur_rd q) # queue_elems (get_element q)"
    using ring_list_Cons [of "unat (q_count q)" "unat (q_cur_rd q)" "q_queue q"] rd rd' cnt pos len
    by (simp add: queue_elems_def get_element_def word_less_nat_alt)
  show "queue_cap (get_element q) = queue_cap q"
    by (simp add: queue_cap_def get_element_def)
qed

lemma get_element_signal [simp]:
  "q_context (put_element q x) = q_context q" "q_flags (put_element q x) = q_flags q"
  "q_context (get_element q) = q_context q" "q_flags (get_element q) = q_flags q"
  by (simp_all add: put_element_def get_element_def)

lemma get_element_blocked: "q_blockedOnGet (get_element q) = q_blockedOnGet q"
  by (simp add: get_element_def)

lemma blocked_frame [simp]:
  "queue_inv (q\<lparr>q_blockedOnGet := b\<rparr>) = queue_inv q"
  "queue_inv (q\<lparr>q_blockedOnPut := b\<rparr>) = queue_inv q"
  "queue_elems (q\<lparr>q_blockedOnGet := b\<rparr>) = queue_elems q"
  "queue_elems (q\<lparr>q_blockedOnPut := b\<rparr>) = queue_elems q"
  "queue_cap (q\<lparr>q_blockedOnGet := b\<rparr>) = queue_cap q"
  "queue_cap (q\<lparr>q_blockedOnPut := b\<rparr>) = queue_cap q"
  by (auto simp: queue_inv_def queue_elems_def queue_cap_def)

section \<open>The queue is a bounded FIFO\<close>

text \<open>What a client that never waits sees: the two operations with working POSIX calls and the
  timeout \<open>TIVX_EVENT_TIMEOUT_NO_WAIT\<close>. Such a call never sleeps, so no environment is given.\<close>

definition osq_put :: "tivx_queue \<Rightarrow> uintptr \<Rightarrow> tivx_queue \<times> vx_status" where
  "osq_put q x = the (tivxQueuePut posix_ok [] q x TIVX_EVENT_TIMEOUT_NO_WAIT)"

definition osq_get :: "tivx_queue \<Rightarrow> tivx_queue \<times> uintptr option \<times> vx_status" where
  "osq_get q = the (tivxQueueGet posix_ok [] q TIVX_EVENT_TIMEOUT_NO_WAIT)"

lemma queue_inv_context: "queue_inv q \<Longrightarrow> q_context q \<noteq> None"
  by (simp add: queue_inv_def)

lemma queue_room: "length (queue_elems q) < queue_cap q \<longleftrightarrow> q_count q < q_max_ele q"
  by (simp add: queue_cap_def length_queue_elems word_less_nat_alt)

lemma queue_nonempty: "queue_elems q = [] \<longleftrightarrow> \<not> 0 < q_count q"
  using length_queue_elems [of q]
  by (metis length_0_conv unat_eq_0 word_gt_0)

lemma put_loop_room:
  "q_count q < q_max_ele q \<Longrightarrow> tivxQueuePut_loop ws q x t =
     Some (if block_on_get q then signal_condGet (put_element q x) else put_element q x, VX_SUCCESS)"
  by (subst tivxQueuePut_loop.simps) (simp add: Let_def block_on_get_def)

lemma get_loop_some:
  "0 < q_count q \<Longrightarrow> tivxQueueGet_loop ws q t =
     Some (if block_on_put q then signal_condPut (get_element q) else get_element q,
       Some (q_queue q ! unat (q_cur_rd q)), VX_SUCCESS)"
  by (subst tivxQueueGet_loop.simps) (simp add: Let_def block_on_put_def)

lemma put_loop_no_wait:
  "\<not> q_count q < q_max_ele q \<Longrightarrow>
   tivxQueuePut_loop ws q x TIVX_EVENT_TIMEOUT_NO_WAIT = Some (q, VX_FAILURE)"
  by (subst tivxQueuePut_loop.simps) simp

lemma get_loop_no_wait:
  "\<not> 0 < q_count q \<Longrightarrow>
   tivxQueueGet_loop ws q TIVX_EVENT_TIMEOUT_NO_WAIT = Some (q, None, VX_FAILURE)"
  by (subst tivxQueueGet_loop.simps) simp

lemma osq_put_eq:
  "queue_inv q \<Longrightarrow> osq_put q x =
     (if q_count q < q_max_ele q
      then (if block_on_get q then signal_condGet (put_element q x) else put_element q x, VX_SUCCESS)
      else (q, VX_FAILURE))"
  using queue_inv_context [of q]
  by (auto simp: osq_put_def tivxQueuePut_def posix_ok_def put_loop_room put_loop_no_wait)

lemma osq_get_eq:
  "queue_inv q \<Longrightarrow> osq_get q =
     (if 0 < q_count q
      then (if block_on_put q then signal_condPut (get_element q) else get_element q,
            Some (q_queue q ! unat (q_cur_rd q)), VX_SUCCESS)
      else (q, None, VX_FAILURE))"
  using queue_inv_context [of q]
  by (auto simp: osq_get_def tivxQueueGet_def posix_ok_def get_loop_some get_loop_no_wait)

interpretation osq: bounded_fifo queue_inv queue_elems queue_cap osq_put osq_get
proof unfold_locales
  fix q :: tivx_queue and x :: uintptr
  assume inv: "queue_inv q"
  show "length (queue_elems q) \<le> queue_cap q"
    using inv by (simp add: queue_inv_def queue_cap_def length_queue_elems word_le_nat_alt)
  show "\<exists>q'. osq_put q x = (q', VX_SUCCESS) \<and> queue_inv q' \<and>
      queue_elems q' = queue_elems q @ [x] \<and> queue_cap q' = queue_cap q"
    if "length (queue_elems q) < queue_cap q"
    using inv that put_element_refines [OF inv]
    by (simp add: osq_put_eq queue_room)
  show "osq_put q x = (q, VX_FAILURE)" if "length (queue_elems q) = queue_cap q"
    using inv that queue_room [of q] by (simp add: osq_put_eq)
  show "\<exists>q'. osq_get q = (q', Some x, VX_SUCCESS) \<and> queue_inv q' \<and>
      queue_elems q' = xs \<and> queue_cap q' = queue_cap q" if "queue_elems q = x # xs" for xs
    using inv that get_element_refines [OF inv] queue_nonempty [of q]
    by (simp add: osq_get_eq)
  show "osq_get q = (q, None, VX_FAILURE)" if "queue_elems q = []"
    using inv that queue_nonempty [of q] by (simp add: osq_get_eq)
qed

section \<open>Correctness properties\<close>

definition sample_queue :: tivx_queue where
  "sample_queue = init_queue\<lparr>q_max_ele := 2, q_queue := [7, 8], q_cur_rd := 1, q_count := 0,
     q_cur_wr := 1, q_flags := TIVX_QUEUE_FLAG_BLOCK_ON_GET,
     q_context := Some \<lparr>ctx_object = 0, condGet_signals = 0, condPut_signals = 0\<rparr>\<rparr>"

lemma sample_queue_inv: "queue_inv sample_queue"
  by (simp add: sample_queue_def init_queue_def queue_inv_def)

text \<open>C18: every run of non-waiting puts and gets on the POSIX queue, whatever its indices, gives
  the results of a list of bounded length used first in, first out, keeps the queue's invariant,
  and loses and invents no element.\<close>

theorem tivxQueue_fifo:
  assumes "queue_inv q" "fifo_exec osq_put osq_get q ps = (q', rs)"
  shows "queue_inv q' \<and> queue_cap q' = queue_cap q
    \<and> fifo_spec (queue_cap q) (queue_elems q) ps = (queue_elems q', rs)
    \<and> queue_elems q @ accepted ps rs = delivered rs @ queue_elems q'"
  using osq.exec_refines [OF assms] osq.exec_conserves [OF assms] by blast

theorem tivxQueue_fifo_witness:
  "\<exists>q'. fifo_exec osq_put osq_get sample_queue [Put 5, Put 6, Put 7, Get]
      = (q', [Put_Done True, Put_Done True, Put_Done False, Got (Some 5)])
    \<and> queue_elems q' = [6]"
proof -
  obtain q' rs where run: "fifo_exec osq_put osq_get sample_queue [Put 5, Put 6, Put 7, Get]
    = (q', rs)" by fastforce
  have "queue_cap sample_queue = 2" "queue_elems sample_queue = []"
    by (simp_all add: sample_queue_def init_queue_def queue_cap_def queue_elems_def)
  with tivxQueue_fifo [OF sample_queue_inv run] run show ?thesis by auto
qed

text \<open>A blocking call keeps the invariant, whatever the other threads do while it sleeps, as long
  as they keep it too.\<close>

lemma put_loop_inv:
  "\<lbrakk>queue_inv q; \<forall>w \<in> set ws. \<forall>q. queue_inv q \<longrightarrow> queue_inv (we_others w q);
    tivxQueuePut_loop ws q x t = Some (q', s)\<rbrakk> \<Longrightarrow> queue_inv q'"
proof (induction ws arbitrary: q)
  case Nil
  then show ?case
    using put_element_refines(1) [OF Nil.prems(1)]
    by (subst (asm) tivxQueuePut_loop.simps) (auto simp: Let_def split: if_splits)
next
  case (Cons w ws)
  then show ?case
    using put_element_refines(1) [OF Cons.prems(1)]
    by (subst (asm) tivxQueuePut_loop.simps)
      (auto simp: Let_def simp del: tivxQueuePut_loop.simps split: if_splits
        intro!: Cons.IH [of "(we_others w (q\<lparr>q_blockedOnPut := True\<rparr>))\<lparr>q_blockedOnPut := False\<rparr>"])
qed

lemma get_loop_inv:
  "\<lbrakk>queue_inv q; \<forall>w \<in> set ws. \<forall>q. queue_inv q \<longrightarrow> queue_inv (we_others w q);
    tivxQueueGet_loop ws q t = Some (q', d, s)\<rbrakk> \<Longrightarrow>
   queue_inv q' \<and> (s = VX_SUCCESS \<longrightarrow> d \<noteq> None)"
proof (induction ws arbitrary: q)
  case Nil
  then show ?case
    using get_element_refines(1) [OF Nil.prems(1)]
    by (subst (asm) tivxQueueGet_loop.simps) (auto simp: Let_def split: if_splits)
next
  case (Cons w ws)
  have others: "queue_inv (we_others w (q\<lparr>q_blockedOnGet := True\<rparr>))"
    using Cons.prems(1,2) by simp
  note unf = Cons.prems(3) [unfolded tivxQueueGet_loop.simps [of "w # ws" q t]]
  show ?case
    using Cons.prems(1,2) unf others get_element_refines(1) [OF Cons.prems(1)]
      Cons.IH [of "(we_others w (q\<lparr>q_blockedOnGet := True\<rparr>))\<lparr>q_blockedOnGet := False\<rparr>"]
      Cons.IH [of "q\<lparr>q_blockedOnGet := True\<rparr>"]
    by (auto simp: Let_def split: if_splits option.splits prod.splits)
qed

text \<open>C33: a thread that finds the queue empty and may block goes to sleep and marks the queue as
  blocked; when the next thing to happen is a put of another thread, that put signals the sleeper
  and the get returns exactly the element put, leaving a well formed empty queue with the
  blocked mark cleared.\<close>

theorem tivxQueueGet_handover:
  assumes "queue_inv q" "q_count q = 0" "block_on_get q"
    and "timeout = VX_TIMEOUT_WAIT_FOREVER"
    and "we_others w = (\<lambda>p. fst (osq_put p x))"
  shows "\<exists>q' c. tivxQueueGet posix_ok (w # ws) q timeout = Some (q', Some x, VX_SUCCESS)
    \<and> queue_inv q' \<and> queue_elems q' = [] \<and> \<not> q_blockedOnGet q'
    \<and> q_context q = Some c \<and> map_option condGet_signals (q_context q') = Some (Suc (condGet_signals c))"
proof -
  let ?q1 = "q\<lparr>q_blockedOnGet := True\<rparr>"
  let ?p = "put_element ?q1 x"
  let ?q2 = "(signal_condGet ?p)\<lparr>q_blockedOnGet := False\<rparr>"
  have inv1: "queue_inv ?q1" using assms(1) by simp
  have room: "q_count ?q1 < q_max_ele ?q1"
    using assms(1,2) by (simp add: queue_inv_def)
  obtain c where c: "q_context q = Some c" using queue_inv_context [OF assms(1)] by auto
  have others: "we_others w ?q1 = signal_condGet ?p"
    using assms(3,5) osq_put_eq [OF inv1] room by (simp add: block_on_get_def)
  have inv2: "queue_inv ?q2" using put_element_refines(1) [OF inv1 room] by simp
  have elems2: "queue_elems ?q2 = [x]"
    using put_element_refines(2) [OF inv1 room] assms(2) queue_nonempty [of q] by simp
  have cnt2: "0 < q_count ?q2" using elems2 queue_nonempty [of ?q2] by simp
  have g: "queue_inv (get_element ?q2)" "q_queue ?q2 ! unat (q_cur_rd ?q2) = x"
    "queue_elems (get_element ?q2) = []"
    using get_element_refines [OF inv2 cnt2] elems2 by auto
  have "tivxQueueGet_loop (w # ws) q timeout = tivxQueueGet_loop ws ?q2 timeout"
    using assms(2,3,4) others by (subst tivxQueueGet_loop.simps) simp
  also have "\<dots> = Some (if block_on_put ?q2 then signal_condPut (get_element ?q2)
      else get_element ?q2, Some x, VX_SUCCESS)"
    using get_loop_some [OF cnt2] g(2) by simp
  finally have "tivxQueueGet posix_ok (w # ws) q timeout =
      Some (if block_on_put ?q2 then signal_condPut (get_element ?q2) else get_element ?q2,
        Some x, VX_SUCCESS)"
    using c by (simp add: tivxQueueGet_def posix_ok_def)
  then show ?thesis using c g by (auto simp: get_element_blocked simp del: map_option_eq_Some)
qed

theorem tivxQueueGet_handover_witness:
  "\<exists>q'. tivxQueueGet posix_ok
      [\<lparr>we_time = None, we_timedout = \<lambda>_. False, we_others = \<lambda>p. fst (osq_put p 42)\<rparr>]
      sample_queue VX_TIMEOUT_WAIT_FOREVER = Some (q', Some 42, VX_SUCCESS)"
  using tivxQueueGet_handover [OF sample_queue_inv, of VX_TIMEOUT_WAIT_FOREVER
      "\<lparr>we_time = None, we_timedout = \<lambda>_. False, we_others = \<lambda>p. fst (osq_put p 42)\<rparr>" 42 "[]"]
  by (auto simp: sample_queue_def init_queue_def block_on_get_def)

text \<open>C40: while the whole wait fits in 32 bits of microseconds, the deadline handed to
  \<open>pthread_cond_timedwait\<close> is a valid \<open>timespec\<close> that lies exactly \<open>timeout\<close> milliseconds after the
  clock that was read.\<close>

theorem get_deadline_exact:
  assumes usec: "unat tv_usec < 1000000"
    and fits: "unat tv_usec + unat timeout * 1000 < 2 ^ 32"
    and year: "unat tv_sec + 4295 < 2 ^ 32"
    and deadline: "get_deadline tv_sec tv_usec timeout = (sec, nsec)"
  shows "unat nsec < 1000000000
    \<and> unat sec * 1000000000 + unat nsec
      = unat tv_sec * 1000000000 + unat tv_usec * 1000 + unat timeout * 1000000"
proof -
  define m where "m = unat tv_usec + unat timeout * 1000"
  let ?micro = "tv_usec + ucast timeout * 1000 :: uint64"
  have micro: "unat ?micro = m"
    using fits by (simp add: m_def unat_word_ariths unsigned_ucast_eq take_bit_nat_eq_self)
  have m32: "m < 2 ^ 32" using fits by (simp add: m_def)
  have low: "unat (ucast ?micro :: uint32) = m"
    using micro m32 by (simp add: unsigned_ucast_eq take_bit_nat_eq_self)
  have s32: "unat (ucast tv_sec :: uint32) = unat tv_sec"
    using year by (simp add: unsigned_ucast_eq take_bit_nat_eq_self)
  have q: "m div 1000000 < 4295" using m32 by simp
  have sum: "unat ((ucast tv_sec :: uint32) + (ucast ?micro :: uint32) div 1000000)
      = unat tv_sec + m div 1000000"
    using q year s32 low by (simp add: unat_word_ariths unat_div)
  have up: "unat (ucast x :: uint64) = unat x" for x :: uint32
    using unsigned_less [of x, where ?'a = nat] by (simp add: unsigned_ucast_eq take_bit_nat_eq_self)
  have rem: "unat ((?micro mod 1000000) * 1000) = m mod 1000000 * 1000"
    using micro by (simp add: unat_word_ariths unat_mod)
  have ge: "?micro \<ge> 1000000 \<longleftrightarrow> m \<ge> 1000000" using micro by (simp add: word_le_nat_alt)
  have target: "(unat tv_sec + m div 1000000) * 1000000000 + m mod 1000000 * 1000
      = unat tv_sec * 1000000000 + m * 1000"
  proof -
    obtain a b where ab: "a = m div 1000000" "b = m mod 1000000" by simp
    then have "m = a * 1000000 + b" by simp
    then show ?thesis unfolding ab [symmetric] by simp
  qed
  show ?thesis
  proof (cases "m \<ge> 1000000")
    case True
    then have "unat sec = unat tv_sec + m div 1000000" "unat nsec = m mod 1000000 * 1000"
      using deadline ge sum rem by (auto simp: get_deadline_def Let_def up)
    then show ?thesis using target by (simp add: m_def)
  next
    case False
    have small: "unat (z * 1000) = unat z * 1000" if "unat z < 1000000" for z :: uint64
      using that by (simp add: unat_word_ariths)
    define z where "z = ?micro"
    have "sec = ucast (ucast tv_sec :: uint32)" "nsec = z * 1000"
      using deadline False ge unfolding get_deadline_def Let_def z_def [symmetric] by auto
    then have "unat sec = unat tv_sec" "unat nsec = m * 1000"
      using False s32 micro small [of z] by (auto simp: up z_def)
    then show ?thesis using False by (simp add: m_def)
  qed
qed

theorem get_deadline_exact_witness:
  "get_deadline 1700000000 999000 250 = (1700000001, 249000000)
   \<and> unat (1700000001 :: uint64) * 1000000000 + unat (249000000 :: uint64)
     = unat (1700000000 :: uint64) * 1000000000 + unat (999000 :: uint64) * 1000
       + unat (250 :: uint32) * 1000000"
proof -
  have "get_deadline 1700000000 999000 250 = (1700000001, 249000000)"
    by (simp add: get_deadline_def)
  then show ?thesis
    using get_deadline_exact [of 999000 250 1700000000 1700000001 249000000] by simp
qed

text \<open>Beyond that bound the cast of the 64-bit number of microseconds to 32 bits cuts the wait:
  a timeout of 4294968 ms read at time 0 has its deadline within the first second.\<close>

lemma get_deadline_truncated:
  "get_deadline 0 0 4294968 = (0, 968000000)"
  by (simp add: get_deadline_def)

section \<open>Create and delete keep the pool of queue objects\<close>

lemma posix_free_queue:
  assumes "ownPosixObjectAlloc rc po TYPE_QUEUE = (po1, Some i)"
  shows "ownPosixObjectFree rc po1 (Some i) TYPE_QUEUE = (po, VX_SUCCESS)"
proof -
  from assms have lock: "tivxMutexLock (rc_mutex_lock rc) (objects_lock po) = VX_SUCCESS"
    by (simp add: ownPosixObjectAlloc_def split: if_splits)
  obtain u where u: "ownAllocPosixObject (isQueueUse po) = (u, Some i)"
    and po1: "po1 = po\<lparr>isQueueUse := u\<rparr>"
    using assms lock by (auto simp: ownPosixObjectAlloc_def split: prod.splits)
  show ?thesis
    using alloc_free_pool [OF u] lock po1 by (auto simp: ownPosixObjectFree_def Let_def)
qed

lemma queue_create_cases:
  assumes "tivxQueueCreate rc po q0 n (Some m) flags = (po', q, s)"
    and "length m = unat n" "0 < n"
  shows "(s = VX_SUCCESS \<and> queue_inv q \<and> queue_elems q = [] \<and> queue_cap q = unat n
      \<and> fst (tivxQueueDelete rc po' q) = po \<and> snd (snd (tivxQueueDelete rc po' q)) = VX_SUCCESS)
    \<or> (s \<noteq> VX_SUCCESS \<and> q_context q = None \<and> po' = po)"
proof (cases "ownPosixObjectAlloc rc po TYPE_QUEUE")
  case (Pair po1 r)
  show ?thesis
  proof (cases r)
    case None
    then have "po1 = po"
      using Pair
      by (cases "isQueueUse po" rule: alloc_cases)
        (auto simp: ownPosixObjectAlloc_def split: if_splits prod.splits)
    then show ?thesis using assms Pair None
      by (auto simp: tivxQueueCreate_def init_queue_def Let_def split: if_splits)
  next
    case (Some i)
    note free = posix_free_queue [OF Pair [unfolded Some]]
    show ?thesis
    proof (cases "s = VX_SUCCESS")
      case True
      then show ?thesis
        using assms Pair Some free
        by (auto simp: tivxQueueCreate_def tivxQueueDelete_def Let_def init_queue_def queue_inv_def
            queue_elems_def queue_cap_def split: if_splits)
    next
      case False
      then show ?thesis
        using assms Pair Some free
        by (auto simp: tivxQueueCreate_def Let_def init_queue_def split: if_splits)
    qed
  qed
qed

text \<open>C36: creating a queue either gives a well formed empty queue of the capacity asked for, whose
  pool object \<open>tivxQueueDelete\<close> gives back, or reports an error and leaves the pools and
  the queue's context as if nothing had been taken; no path leaks a pool object.\<close>

theorem tivxQueueCreate_no_leak:
  assumes "tivxQueueCreate rc po q0 n (Some m) flags = (po', q, s)"
    and "length m = unat n" "0 < n"
  shows "(s = VX_SUCCESS \<and> queue_inv q \<and> queue_elems q = [] \<and> queue_cap q = unat n
      \<and> fst (tivxQueueDelete rc po' q) = po \<and> snd (snd (tivxQueueDelete rc po' q)) = VX_SUCCESS)
    \<or> (s \<noteq> VX_SUCCESS \<and> q_context q = None \<and> po' = po)"
  by (rule queue_create_cases [OF assms])

theorem tivxQueueCreate_no_leak_witness:
  "\<exists>po' q. tivxQueueCreate posix_ok
      \<lparr>isEventUse = [], isMutexUse = [True], isQueueUse = [True, False], isTaskUse = [],
       objects_lock = Some 0\<rparr> init_queue 2 (Some [0, 0]) TIVX_QUEUE_FLAG_BLOCK_ON_GET
      = (po', q, VX_SUCCESS) \<and> queue_inv q \<and> queue_cap q = 2"
proof -
  let ?po = "\<lparr>isEventUse = [], isMutexUse = [True], isQueueUse = [True, False], isTaskUse = [],
       objects_lock = Some 0\<rparr> :: posix_objects"
  obtain po' q s where run: "tivxQueueCreate posix_ok ?po init_queue 2 (Some [0, 0])
    TIVX_QUEUE_FLAG_BLOCK_ON_GET = (po', q, s)" by (metis prod_cases3)
  then have "s = VX_SUCCESS"
    by (auto simp: tivxQueueCreate_def posix_ok_def ownPosixObjectAlloc_def
        ownAllocPosixObject_def tivxMutexLock_def Let_def split: if_splits)
  with run tivxQueueCreate_no_leak [OF run] show ?thesis by auto
qed

end
