(* ===== verification/Event_Queue.thy ===== *)
theory Event_Queue
  imports Os_Queue
begin

text \<open>
  The event queues of a context and of a graph, \<open>source/framework/vx_event_queue.c\<close>: an array of
  event elements (\<open>eq_list\<close>), a queue of the indices that are free and a queue of the indices
  that hold an event. The structures are those of \<open>source/include/tivx_event_queue.h\<close>. The mutex
  calls inside the queue operations are taken to succeed (\<open>osq_put\<close>, \<open>osq_get\<close>).
\<close>

section \<open>State\<close>

abbreviation (input) TIVX_EVENT_QUEUE_MAX_SIZE :: "'a::numeral"
  where "TIVX_EVENT_QUEUE_MAX_SIZE \<equiv> 256"

abbreviation (input) VX_EVENT_GRAPH_PARAMETER_CONSUMED :: vx_enum
  where "VX_EVENT_GRAPH_PARAMETER_CONSUMED \<equiv> 0x22000"
abbreviation (input) VX_EVENT_GRAPH_COMPLETED :: vx_enum
  where "VX_EVENT_GRAPH_COMPLETED \<equiv> 0x22001"
abbreviation (input) VX_EVENT_NODE_COMPLETED :: vx_enum where "VX_EVENT_NODE_COMPLETED \<equiv> 0x22002"
abbreviation (input) VX_EVENT_NODE_ERROR :: vx_enum where "VX_EVENT_NODE_ERROR \<equiv> 0x22003"
abbreviation (input) VX_EVENT_USER :: vx_enum where "VX_EVENT_USER \<equiv> 0x22004"

record tivx_event_queue_elem =
  eqe_event_id :: vx_enum
  eqe_timestamp :: uint64
  eqe_app_value :: uint32
  eqe_param1 :: uintptr
  eqe_param2 :: uintptr
  eqe_param3 :: uintptr
  eqe_param4 :: uint64

record tivx_event_queue =
  eq_enable :: bool
  eq_list :: "tivx_event_queue_elem list"
  eq_free :: tivx_queue
  eq_ready :: tivx_queue

text \<open>\<open>vx_event_t\<close> of \<open>include/VX/vx_khr_pipelining.h\<close>, its union as a datatype.\<close>

datatype vx_event_info =
    graph_parameter_consumed uintptr uint32
  | graph_completed uintptr
  | node_completed uintptr uintptr
  | node_error uintptr uintptr vx_status uint64
  | user_event uintptr

record vx_event =
  ev_type :: vx_enum
  ev_timestamp :: uint64
  ev_app_value :: uint32
  ev_info :: vx_event_info

section \<open>Create and delete\<close>

definition ownEventQueueCreate ::
  "posix_rc \<Rightarrow> posix_rc \<Rightarrow> posix_objects \<Rightarrow> tivx_event_queue \<Rightarrow> uintptr list \<Rightarrow> uintptr list \<Rightarrow>
   posix_objects \<times> tivx_event_queue \<times> vx_status" where
  "ownEventQueueCreate rc1 rc2 po eq free_mem ready_mem =
     (let eq0 = eq\<lparr>eq_enable := True\<rparr> in
      case tivxQueueCreate rc1 po (eq_free eq0) TIVX_EVENT_QUEUE_MAX_SIZE (Some free_mem) 0 of
        (po1, f, s1) \<Rightarrow>
          if s1 = VX_SUCCESS then
           (case tivxQueueCreate rc2 po1 (eq_ready eq0) TIVX_EVENT_QUEUE_MAX_SIZE (Some ready_mem)
                   TIVX_QUEUE_FLAG_BLOCK_ON_GET of
              (po2, r, s2) \<Rightarrow>
                if s2 \<noteq> VX_SUCCESS then
                 (case tivxQueueDelete rc1 po2 f of
                    (po3, f', _) \<Rightarrow> (po3, eq0\<lparr>eq_free := f', eq_ready := r\<rparr>, s2))
                else
                 (po2,
                  eq0\<lparr>eq_free := foldl (\<lambda>f i. fst (osq_put f i)) f
                          (map of_nat [0..<TIVX_EVENT_QUEUE_MAX_SIZE]),
                      eq_ready := r\<rparr>, s2))
          else (po1, eq0\<lparr>eq_free := f\<rparr>, s1))"

definition ownEventQueueDelete ::
  "posix_rc \<Rightarrow> posix_objects \<Rightarrow> tivx_event_queue \<Rightarrow> posix_objects \<times> tivx_event_queue \<times> vx_status"
where
  "ownEventQueueDelete rc po eq =
     (case tivxQueueDelete rc po (eq_free eq) of
        (po1, f, s) \<Rightarrow>
          (case tivxQueueDelete rc po1 (eq_ready eq) of
             (po2, r, s1) \<Rightarrow>
               (po2, eq\<lparr>eq_enable := False, eq_free := f, eq_ready := r\<rparr>,
                if s1 \<noteq> VX_SUCCESS then s1 else s)))"

definition ownEventQueueEnableEvents :: "tivx_event_queue \<Rightarrow> bool \<Rightarrow> tivx_event_queue" where
  "ownEventQueueEnableEvents eq enable = eq\<lparr>eq_enable := enable\<rparr>"

section \<open>Adding an event\<close>

definition ownEventQueueAddEvent ::
  "tivx_event_queue \<Rightarrow> tivx_event_queue_elem \<Rightarrow> tivx_event_queue \<times> vx_status" where
  "ownEventQueueAddEvent eq elem =
     (if eq_enable eq then
        (case osq_get (eq_free eq) of
           (f, d, s) \<Rightarrow>
             (let eq1 = eq\<lparr>eq_free := f\<rparr> in
              case d of
                Some idx \<Rightarrow>
                  if s = VX_SUCCESS \<and> idx < TIVX_EVENT_QUEUE_MAX_SIZE then
                    (case osq_put (eq_ready eq1) idx of
                       (r, s') \<Rightarrow>
                         (eq1\<lparr>eq_list := (eq_list eq1)[unat idx := elem], eq_ready := r\<rparr>, s'))
                  else (eq1, s)
              | None \<Rightarrow> (eq1, s)))
      else (eq, VX_FAILURE))"

section \<open>Waiting for an event\<close>

text \<open>The copy of an internal event to the user's structure, branch by branch; an unknown
  event type leaves the union as it was.\<close>

definition event_to_user :: "tivx_event_queue_elem \<Rightarrow> vx_event \<Rightarrow> vx_event" where
  "event_to_user elem ev0 =
     (let ev = ev0\<lparr>ev_type := eqe_event_id elem, ev_timestamp := eqe_timestamp elem,
                   ev_app_value := eqe_app_value elem\<rparr> in
      if eqe_event_id elem = VX_EVENT_GRAPH_PARAMETER_CONSUMED then
        ev\<lparr>ev_info := graph_parameter_consumed (eqe_param1 elem) (ucast (eqe_param2 elem))\<rparr>
      else if eqe_event_id elem = VX_EVENT_GRAPH_COMPLETED then
        ev\<lparr>ev_info := graph_completed (eqe_param1 elem)\<rparr>
      else if eqe_event_id elem = VX_EVENT_NODE_COMPLETED then
        ev\<lparr>ev_info := node_completed (eqe_param1 elem) (eqe_param2 elem)\<rparr>
      else if eqe_event_id elem = VX_EVENT_NODE_ERROR then
        ev\<lparr>ev_info := node_error (eqe_param1 elem) (eqe_param2 elem) (ucast (eqe_param3 elem))
                        (eqe_param4 elem)\<rparr>
      else if eqe_event_id elem = VX_EVENT_USER then
        ev\<lparr>ev_app_value := ucast (eqe_param1 elem), ev_info := user_event (eqe_param2 elem)\<rparr>
      else ev)"

text \<open>What happens while the waiting thread sleeps: the clock, whether the wait times out, and
  what the other threads do to the whole event queue. One sleep is modelled: a thread woken
  with nothing to read sleeps again, for ever (\<open>None\<close>).\<close>

record event_wait_env =
  eqw_time :: "(uint64 \<times> uint64) option"
  eqw_timedout :: "uint64 \<times> uint64 \<Rightarrow> bool"
  eqw_others :: "tivx_event_queue \<Rightarrow> tivx_event_queue"

definition ready_env :: "event_wait_env option \<Rightarrow> tivx_event_queue \<Rightarrow> wait_env list" where
  "ready_env w eq = (case w of None \<Rightarrow> []
     | Some e \<Rightarrow> [\<lparr>we_time = eqw_time e, we_timedout = eqw_timedout e,
                  we_others = (\<lambda>r. eq_ready (eqw_others e (eq\<lparr>eq_ready := r\<rparr>)))\<rparr>])"

definition while_asleep ::
  "event_wait_env option \<Rightarrow> tivx_event_queue \<Rightarrow> uint32 \<Rightarrow> tivx_event_queue" where
  "while_asleep w eq timeout = (case w of None \<Rightarrow> eq
     | Some e \<Rightarrow>
         if q_count (eq_ready eq) = 0 \<and> timeout \<noteq> TIVX_EVENT_TIMEOUT_NO_WAIT
           \<and> block_on_get (eq_ready eq) \<and> q_context (eq_ready eq) \<noteq> None
           \<and> (timeout = VX_TIMEOUT_WAIT_FOREVER \<or> eqw_time e \<noteq> None)
         then eqw_others e (eq\<lparr>eq_ready := (eq_ready eq)\<lparr>q_blockedOnGet := True\<rparr>\<rparr>)
         else eq)"

definition ownWaitEventQueue ::
  "event_wait_env option \<Rightarrow> tivx_event_queue \<Rightarrow> vx_event option \<Rightarrow> uint32 \<Rightarrow>
   (tivx_event_queue \<times> vx_event option \<times> vx_status) option" where
  "ownWaitEventQueue w eq event timeout =
     (case tivxQueueGet posix_ok (ready_env w eq) (eq_ready eq) timeout of
        None \<Rightarrow> None
      | Some (r, d, s) \<Rightarrow>
         (let eq1 = (while_asleep w eq timeout)\<lparr>eq_ready := r\<rparr> in
          case d of
            Some idx \<Rightarrow>
              if s = VX_SUCCESS \<and> idx < TIVX_EVENT_QUEUE_MAX_SIZE then
                map_option
                  (\<lambda>(f, _). (eq1\<lparr>eq_free := f\<rparr>,
                     map_option (event_to_user (eq_list eq1 ! unat idx)) event, s))
                  (tivxQueuePut posix_ok [] (eq_free eq1) idx timeout)
              else Some (eq1, event, s)
          | None \<Rightarrow> Some (eq1, event, s)))"

section \<open>Invariant: every index is free or ready, once\<close>

definition eq_inv :: "tivx_event_queue \<Rightarrow> bool" where
  "eq_inv eq \<longleftrightarrow> queue_inv (eq_free eq) \<and> queue_inv (eq_ready eq)
     \<and> queue_cap (eq_free eq) = TIVX_EVENT_QUEUE_MAX_SIZE
     \<and> queue_cap (eq_ready eq) = TIVX_EVENT_QUEUE_MAX_SIZE
     \<and> length (eq_list eq) = TIVX_EVENT_QUEUE_MAX_SIZE
     \<and> mset (map unat (queue_elems (eq_free eq))) + mset (map unat (queue_elems (eq_ready eq)))
       = mset [0..<TIVX_EVENT_QUEUE_MAX_SIZE]"

text \<open>The events that wait to be read, oldest first.\<close>

definition eq_events :: "tivx_event_queue \<Rightarrow> tivx_event_queue_elem list" where
  "eq_events eq = map (\<lambda>i. eq_list eq ! unat i) (queue_elems (eq_ready eq))"

lemma length_eq_events [simp]: "length (eq_events eq) = length (queue_elems (eq_ready eq))"
  by (simp add: eq_events_def)

lemma eq_inv_distinct:
  assumes "eq_inv eq"
  shows "distinct (map unat (queue_elems (eq_free eq)) @ map unat (queue_elems (eq_ready eq)))"
proof -
  have "mset (map unat (queue_elems (eq_free eq)) @ map unat (queue_elems (eq_ready eq)))
      = mset [0..<TIVX_EVENT_QUEUE_MAX_SIZE]"
    using assms by (simp add: eq_inv_def)
  then show ?thesis by (metis distinct_upt mset_eq_imp_distinct_iff)
qed

lemma eq_inv_index:
  assumes "eq_inv eq" "i \<in> set (queue_elems (eq_free eq)) \<union> set (queue_elems (eq_ready eq))"
  shows "unat i < TIVX_EVENT_QUEUE_MAX_SIZE"
proof -
  have "unat i \<in> set (map unat (queue_elems (eq_free eq)) @ map unat (queue_elems (eq_ready eq)))"
    using assms(2) by auto
  also have "\<dots> = set [0..<TIVX_EVENT_QUEUE_MAX_SIZE]"
    using assms(1) by (intro mset_eq_setD) (simp add: eq_inv_def)
  finally show ?thesis by simp
qed

lemma eq_inv_length:
  assumes "eq_inv eq"
  shows "length (queue_elems (eq_free eq)) + length (queue_elems (eq_ready eq))
    = TIVX_EVENT_QUEUE_MAX_SIZE"
proof -
  have "size (mset (map unat (queue_elems (eq_free eq)))
      + mset (map unat (queue_elems (eq_ready eq)))) = size (mset [0..<TIVX_EVENT_QUEUE_MAX_SIZE])"
    using assms by (simp only: eq_inv_def)
  then show ?thesis by (simp only: size_union size_mset length_map length_upt diff_zero)
qed

section \<open>The three operations on the list of events\<close>

lemma add_event_room:
  assumes "eq_inv eq" "eq_enable eq" "length (eq_events eq) < TIVX_EVENT_QUEUE_MAX_SIZE"
  shows "\<exists>eq'. ownEventQueueAddEvent eq elem = (eq', VX_SUCCESS) \<and> eq_inv eq' \<and> eq_enable eq'
    \<and> eq_events eq' = eq_events eq @ [elem]"
proof -
  have inv: "queue_inv (eq_free eq)" "queue_inv (eq_ready eq)"
    "queue_cap (eq_ready eq) = TIVX_EVENT_QUEUE_MAX_SIZE"
    "length (eq_list eq) = TIVX_EVENT_QUEUE_MAX_SIZE"
    using assms(1) by (auto simp: eq_inv_def)
  have "queue_elems (eq_free eq) \<noteq> []"
    using eq_inv_length [OF assms(1)] assms(3) by auto
  then obtain idx rest where free: "queue_elems (eq_free eq) = idx # rest"
    by (cases "queue_elems (eq_free eq)") auto
  obtain f where get: "osq_get (eq_free eq) = (f, Some idx, VX_SUCCESS)" "queue_inv f"
    "queue_elems f = rest" "queue_cap f = queue_cap (eq_free eq)"
    using osq.get_ok [OF inv(1) free] by blast
  obtain r where put: "osq_put (eq_ready eq) idx = (r, VX_SUCCESS)" "queue_inv r"
    "queue_elems r = queue_elems (eq_ready eq) @ [idx]" "queue_cap r = queue_cap (eq_ready eq)"
    using osq.put_ok [OF inv(2), of idx] assms(3) inv(3) by auto
  have idx: "unat idx < TIVX_EVENT_QUEUE_MAX_SIZE"
    using eq_inv_index [OF assms(1)] free by simp
  then have idx': "idx < TIVX_EVENT_QUEUE_MAX_SIZE" by (simp add: word_less_nat_alt)
  let ?eq = "eq\<lparr>eq_free := f, eq_list := (eq_list eq)[unat idx := elem], eq_ready := r\<rparr>"
  have run: "ownEventQueueAddEvent eq elem = (?eq, VX_SUCCESS)"
    using assms(2) get(1) put(1) idx' by (simp add: ownEventQueueAddEvent_def)
  have "eq_inv ?eq"
    using assms(1) get put free by (simp add: eq_inv_def)
  moreover have "eq_events ?eq = eq_events eq @ [elem]"
    using eq_inv_distinct [OF assms(1)] free put(3) idx inv(4)
    by (auto simp: eq_events_def nth_list_update)
  ultimately show ?thesis using run assms(2) by auto
qed

lemma add_event_full:
  assumes "eq_inv eq" "length (eq_events eq) = TIVX_EVENT_QUEUE_MAX_SIZE"
  shows "ownEventQueueAddEvent eq elem = (eq, VX_FAILURE)"
proof -
  have "queue_elems (eq_free eq) = []"
    using eq_inv_length [OF assms(1)] assms(2) by simp
  then have "osq_get (eq_free eq) = (eq_free eq, None, VX_FAILURE)"
    using osq.get_empty assms(1) by (simp add: eq_inv_def)
  then show ?thesis by (simp add: ownEventQueueAddEvent_def)
qed

lemma osq_get_ready: "queue_inv q \<Longrightarrow>
    tivxQueueGet posix_ok ws q TIVX_EVENT_TIMEOUT_NO_WAIT = Some (osq_get q)"
  using queue_inv_context [of q]
  by (cases "0 < q_count q")
    (auto simp: osq_get_def tivxQueueGet_def posix_ok_def get_loop_some get_loop_no_wait)

lemma osq_put_free: "queue_inv q \<Longrightarrow>
    tivxQueuePut posix_ok ws q x TIVX_EVENT_TIMEOUT_NO_WAIT = Some (osq_put q x)"
  using queue_inv_context [of q]
  by (cases "q_count q < q_max_ele q")
    (auto simp: osq_put_def tivxQueuePut_def posix_ok_def put_loop_room put_loop_no_wait)

lemma wait_event_some:
  assumes "eq_inv eq" "eq_events eq = elem # es"
  shows "\<exists>eq'. ownWaitEventQueue w eq ev TIVX_EVENT_TIMEOUT_NO_WAIT
      = Some (eq', map_option (event_to_user elem) ev, VX_SUCCESS)
    \<and> eq_inv eq' \<and> eq_enable eq' = eq_enable eq \<and> eq_events eq' = es"
proof -
  have inv: "queue_inv (eq_free eq)" "queue_inv (eq_ready eq)"
    "queue_cap (eq_free eq) = TIVX_EVENT_QUEUE_MAX_SIZE"
    using assms(1) by (auto simp: eq_inv_def)
  obtain idx rest where ready: "queue_elems (eq_ready eq) = idx # rest"
    and elem: "elem = eq_list eq ! unat idx" and es: "es = map (\<lambda>i. eq_list eq ! unat i) rest"
    using assms(2) by (auto simp: eq_events_def)
  obtain r where get: "osq_get (eq_ready eq) = (r, Some idx, VX_SUCCESS)" "queue_inv r"
    "queue_elems r = rest" "queue_cap r = queue_cap (eq_ready eq)"
    using osq.get_ok [OF inv(2) ready] by blast
  have "length (queue_elems (eq_free eq)) < queue_cap (eq_free eq)"
    using eq_inv_length [OF assms(1)] ready inv(3) by simp
  then obtain f where put: "osq_put (eq_free eq) idx = (f, VX_SUCCESS)" "queue_inv f"
    "queue_elems f = queue_elems (eq_free eq) @ [idx]" "queue_cap f = queue_cap (eq_free eq)"
    using osq.put_ok [OF inv(1)] by blast
  have "unat idx < TIVX_EVENT_QUEUE_MAX_SIZE"
    using eq_inv_index [OF assms(1)] ready by simp
  then have idx': "idx < TIVX_EVENT_QUEUE_MAX_SIZE" by (simp add: word_less_nat_alt)
  let ?eq = "eq\<lparr>eq_ready := r, eq_free := f\<rparr>"
  have awake: "while_asleep w eq TIVX_EVENT_TIMEOUT_NO_WAIT = eq"
    by (simp add: while_asleep_def split: option.splits)
  have "ownWaitEventQueue w eq ev TIVX_EVENT_TIMEOUT_NO_WAIT
      = Some (?eq, map_option (event_to_user elem) ev, VX_SUCCESS)"
    using osq_get_ready [OF inv(2)] osq_put_free [OF inv(1)] get(1) put(1) idx' awake elem
    by (simp add: ownWaitEventQueue_def)
  moreover have "eq_inv ?eq"
    using assms(1) get put ready by (simp add: eq_inv_def)
  moreover have "eq_events ?eq = es"
    using get(3) es by (simp add: eq_events_def)
  ultimately show ?thesis by auto
qed

lemma wait_event_none:
  assumes "eq_inv eq" "eq_events eq = []"
  shows "ownWaitEventQueue w eq ev TIVX_EVENT_TIMEOUT_NO_WAIT = Some (eq, ev, VX_FAILURE)"
proof -
  have "queue_inv (eq_ready eq)" "queue_elems (eq_ready eq) = []"
    using assms by (auto simp: eq_inv_def eq_events_def)
  then show ?thesis
    using osq_get_ready osq.get_empty
    by (simp add: ownWaitEventQueue_def while_asleep_def split: option.splits)
qed

section \<open>The event queue is a bounded FIFO of events\<close>

text \<open>Reading without blocking, and the internal event that was at the head.\<close>

definition eqf_get ::
  "tivx_event_queue \<Rightarrow> tivx_event_queue \<times> tivx_event_queue_elem option \<times> vx_status" where
  "eqf_get eq = (case ownWaitEventQueue None eq None TIVX_EVENT_TIMEOUT_NO_WAIT of
     Some (eq', _, s) \<Rightarrow> (eq', if s = VX_SUCCESS then Some (hd (eq_events eq)) else None, s)
   | None \<Rightarrow> (eq, None, VX_FAILURE))"

definition eq_cap :: "tivx_event_queue \<Rightarrow> nat" where
  "eq_cap eq = TIVX_EVENT_QUEUE_MAX_SIZE"

definition eq_on :: "tivx_event_queue \<Rightarrow> bool" where
  "eq_on eq \<longleftrightarrow> eq_inv eq \<and> eq_enable eq"

interpretation evq: bounded_fifo eq_on eq_events eq_cap ownEventQueueAddEvent eqf_get
proof unfold_locales
  fix eq :: tivx_event_queue and e :: tivx_event_queue_elem
  assume on: "eq_on eq"
  then have inv: "eq_inv eq" and enable: "eq_enable eq" by (auto simp: eq_on_def)
  show "length (eq_events eq) \<le> eq_cap eq"
    using eq_inv_length [OF inv] by (simp add: eq_cap_def)
  show "\<exists>eq'. ownEventQueueAddEvent eq e = (eq', VX_SUCCESS) \<and> eq_on eq' \<and>
      eq_events eq' = eq_events eq @ [e] \<and> eq_cap eq' = eq_cap eq"
    if "length (eq_events eq) < eq_cap eq"
    using add_event_room [OF inv enable] that by (simp add: eq_cap_def eq_on_def)
  show "ownEventQueueAddEvent eq e = (eq, VX_FAILURE)" if "length (eq_events eq) = eq_cap eq"
    using add_event_full [OF inv] that by (simp add: eq_cap_def)
  show "\<exists>eq'. eqf_get eq = (eq', Some e, VX_SUCCESS) \<and> eq_on eq' \<and>
      eq_events eq' = es \<and> eq_cap eq' = eq_cap eq" if "eq_events eq = e # es" for es
    using wait_event_some [OF inv that, of None None] that enable
    by (auto simp: eqf_get_def eq_cap_def eq_on_def)
  show "eqf_get eq = (eq, None, VX_FAILURE)" if "eq_events eq = []"
    using wait_event_none [OF inv that, of None None] by (simp add: eqf_get_def)
qed

section \<open>Creation\<close>

lemma event_queue_create_ok:
  assumes "ownEventQueueCreate rc1 rc2 po eq0 fm rm = (po', eq, s)"
    and "length fm = TIVX_EVENT_QUEUE_MAX_SIZE" "length rm = TIVX_EVENT_QUEUE_MAX_SIZE"
    and "length (eq_list eq0) = TIVX_EVENT_QUEUE_MAX_SIZE"
  shows "(s = VX_SUCCESS \<and> eq_on eq \<and> eq_events eq = []) \<or> (s \<noteq> VX_SUCCESS \<and> po' = po)"
proof -
  let ?n = "TIVX_EVENT_QUEUE_MAX_SIZE :: uint32"
  let ?idx = "map of_nat [0..<TIVX_EVENT_QUEUE_MAX_SIZE] :: uintptr list"
  let ?fill = "foldl (\<lambda>f i. fst (osq_put f i))"
  obtain po1 f s1 where c1: "tivxQueueCreate rc1 po (eq_free eq0) ?n (Some fm) 0 = (po1, f, s1)"
    by (metis prod_cases3)
  obtain po2 r s2 where c2: "tivxQueueCreate rc2 po1 (eq_ready eq0) ?n (Some rm)
    TIVX_QUEUE_FLAG_BLOCK_ON_GET = (po2, r, s2)" by (metis prod_cases3)
  note f = queue_create_cases [OF c1] and r = queue_create_cases [OF c2]
  show ?thesis
  proof (cases "s1 = VX_SUCCESS")
    case False
    with assms(1) c1 f assms(2) show ?thesis by (auto simp: ownEventQueueCreate_def)
  next
    case s1: True
    show ?thesis
    proof (cases "s2 = VX_SUCCESS")
      case False
      with s1 assms c1 c2 f r show ?thesis
        by (auto simp: ownEventQueueCreate_def split: prod.splits)
    next
      case s2: True
      have fill: "queue_inv (?fill f ?idx)" "queue_cap (?fill f ?idx) = 256"
        "queue_elems (?fill f ?idx) = ?idx"
        using osq.put_all [of f ?idx] f s1 assms(2) by auto
      have "map unat ?idx = [0..<TIVX_EVENT_QUEUE_MAX_SIZE]"
        by (rule nth_equalityI) (simp_all add: unat_of_nat)
      moreover have "eq = eq0\<lparr>eq_enable := True, eq_free := ?fill f ?idx, eq_ready := r\<rparr>" "s = 0"
        using s1 s2 assms(1) c1 c2 by (auto simp: ownEventQueueCreate_def)
      ultimately show ?thesis
        using fill r s2 assms(3,4) by (simp add: eq_on_def eq_inv_def eq_events_def)
    qed
  qed
qed

section \<open>Correctness properties\<close>

definition sample_elem :: "uint32 \<Rightarrow> tivx_event_queue_elem" where
  "sample_elem v = \<lparr>eqe_event_id = VX_EVENT_USER, eqe_timestamp = 0, eqe_app_value = v,
     eqe_param1 = ucast v, eqe_param2 = 0, eqe_param3 = 0, eqe_param4 = 0\<rparr>"

definition sample_pools :: posix_objects where
  "sample_pools = \<lparr>isEventUse = [], isMutexUse = [True], isQueueUse = [False, False],
     isTaskUse = [], objects_lock = Some 0\<rparr>"

definition sample_eq_create :: "posix_objects \<times> tivx_event_queue \<times> vx_status" where
  "sample_eq_create = ownEventQueueCreate posix_ok posix_ok sample_pools
     \<lparr>eq_enable = False, eq_list = replicate 256 (sample_elem 0), eq_free = init_queue,
      eq_ready = init_queue\<rparr> (replicate 256 0) (replicate 256 0)"

definition sample_eq :: tivx_event_queue where
  "sample_eq = fst (snd sample_eq_create)"

lemma posix_ok_rcs [simp]:
  "rc_mutexattr_init posix_ok = 0" "rc_mutex_init posix_ok = 0" "rc_condattr_init posix_ok = 0"
  "rc_cond_init_get posix_ok = 0" "rc_cond_init_put posix_ok = 0" "rc_mutex_lock posix_ok = 0"
  "rc_mutex_unlock posix_ok = 0"
  by (simp_all add: posix_ok_def)

lemma sample_eq_status: "snd (snd sample_eq_create) = VX_SUCCESS"
  by (simp add: sample_eq_create_def ownEventQueueCreate_def tivxQueueCreate_def Let_def
      ownPosixObjectAlloc_def sample_pools_def ownAllocPosixObject_def tivxMutexLock_def)

lemma sample_eq_on: "eq_on sample_eq \<and> eq_events sample_eq = []"
proof -
  obtain po' eq s where run: "sample_eq_create = (po', eq, s)" by (metis prod_cases3)
  from event_queue_create_ok [OF run [unfolded sample_eq_create_def]] sample_eq_status
  show ?thesis unfolding sample_eq_def run by auto
qed



text \<open>C38: a reader that does not wait is handed the oldest event in the user's structure, its
  index goes back to the free ones, and the next event becomes the oldest; with no event the
  reader gets \<open>VX_FAILURE\<close> and neither the queue nor the user's structure changes.\<close>

theorem ownWaitEventQueue_oldest:
  assumes "eq_inv eq"
  shows "(case eq_events eq of
       [] \<Rightarrow> ownWaitEventQueue w eq ev TIVX_EVENT_TIMEOUT_NO_WAIT = Some (eq, ev, VX_FAILURE)
     | e # es \<Rightarrow> (\<exists>eq'. ownWaitEventQueue w eq ev TIVX_EVENT_TIMEOUT_NO_WAIT
           = Some (eq', map_option (event_to_user e) ev, VX_SUCCESS)
         \<and> eq_inv eq' \<and> eq_enable eq' = eq_enable eq \<and> eq_events eq' = es))"
  using wait_event_some [OF assms] wait_event_none [OF assms] by (auto split: list.splits)

theorem ownWaitEventQueue_oldest_witness:
  "ownWaitEventQueue None sample_eq None TIVX_EVENT_TIMEOUT_NO_WAIT
    = Some (sample_eq, None, VX_FAILURE)"
  using ownWaitEventQueue_oldest [of sample_eq None None] sample_eq_on
  by (simp add: eq_on_def)

text \<open>C37: creating an event queue gives an enabled, empty one in which all 256 indices are free
  and every later addition and read is covered by the FIFO property; when one of the two
  queues cannot be created the error is reported and no pool object stays taken.\<close>

theorem ownEventQueueCreate_correct:
  assumes "ownEventQueueCreate rc1 rc2 po eq0 fm rm = (po', eq, s)"
    and "length fm = 256" "length rm = 256" "length (eq_list eq0) = 256"
  shows "(s = VX_SUCCESS \<and> eq_on eq \<and> eq_events eq = []) \<or> (s \<noteq> VX_SUCCESS \<and> po' = po)"
  by (rule event_queue_create_ok [OF assms])

theorem ownEventQueueCreate_correct_witness:
  "snd (snd sample_eq_create) = VX_SUCCESS \<and> eq_on (fst (snd sample_eq_create))"
proof -
  obtain po' eq s where run: "sample_eq_create = (po', eq, s)" by (metis prod_cases3)
  from ownEventQueueCreate_correct [OF run [unfolded sample_eq_create_def]] sample_eq_status
  show ?thesis unfolding run by auto
qed

end
