(* ===== verification/Obj_Desc.thy ===== *)
theory Obj_Desc
  imports Tiovx_Prelude "HOL-Library.Sublist"
begin

text \<open>
  Object descriptors in shared memory and their table: the structures of
  \<open>include/TI/tivx_obj_desc.h\<close> and \<open>source/include/tivx_obj_desc_priv.h\<close>, the table operations,
  the IPC payload and the byte routines of \<open>source/framework/vx_obj_desc.c\<close>. The table entry is a
  union: its common part \<open>tivx_obj_desc_t\<close> is a record and the part that depends on the type is
  a datatype with a constructor per member of the union that the modelled code reads. A pointer
  to a descriptor is its index in the table, \<open>None\<close> for \<open>NULL\<close>.
\<close>

section \<open>Constants\<close>

abbreviation (input) TIVX_OBJ_DESC_IMAGE :: uint16 where "TIVX_OBJ_DESC_IMAGE \<equiv> 0x0"
abbreviation (input) TIVX_OBJ_DESC_NODE :: uint16 where "TIVX_OBJ_DESC_NODE \<equiv> 0x3"
abbreviation (input) TIVX_OBJ_DESC_CMD :: uint16 where "TIVX_OBJ_DESC_CMD \<equiv> 0x4"
abbreviation (input) TIVX_OBJ_DESC_PYRAMID :: uint16 where "TIVX_OBJ_DESC_PYRAMID \<equiv> 0xB"
abbreviation (input) TIVX_OBJ_DESC_OBJARRAY :: uint16 where "TIVX_OBJ_DESC_OBJARRAY \<equiv> 0xC"
abbreviation (input) TIVX_OBJ_DESC_KERNEL_NAME :: uint16 where "TIVX_OBJ_DESC_KERNEL_NAME \<equiv> 0xD"
abbreviation (input) TIVX_OBJ_DESC_QUEUE :: uint16 where "TIVX_OBJ_DESC_QUEUE \<equiv> 0xE"
abbreviation (input) TIVX_OBJ_DESC_DATA_REF_Q :: uint16 where "TIVX_OBJ_DESC_DATA_REF_Q \<equiv> 0xF"
abbreviation (input) TIVX_OBJ_DESC_GRAPH :: uint16 where "TIVX_OBJ_DESC_GRAPH \<equiv> 0x10"
abbreviation (input) TIVX_OBJ_DESC_USER_DATA_OBJECT :: uint16
  where "TIVX_OBJ_DESC_USER_DATA_OBJECT \<equiv> 0x12"
abbreviation (input) TIVX_OBJ_DESC_INVALID :: uint16 where "TIVX_OBJ_DESC_INVALID \<equiv> 0xFFFF"

abbreviation (input) TIVX_OBJ_DESC_QUEUE_MAX_DEPTH :: "'a::numeral"
  where "TIVX_OBJ_DESC_QUEUE_MAX_DEPTH \<equiv> 32"
abbreviation (input) TIVX_OBJ_DESC_QUEUE_MAX_BLOCKED_NODES :: "'a::numeral"
  where "TIVX_OBJ_DESC_QUEUE_MAX_BLOCKED_NODES \<equiv> 8"

section \<open>Descriptors\<close>

record tivx_obj_desc_queue_blocked_nodes =
  bn_num_nodes :: uint16
  bn_node_id :: "uint16 list"

record tivx_obj_desc_queue =
  odq_cur_rd :: uint16
  odq_cur_wr :: uint16
  odq_count :: uint16
  odq_queue_mem :: "uint16 list"
  odq_blocked_nodes :: tivx_obj_desc_queue_blocked_nodes

record tivx_obj_desc_data_ref_q =
  drq_flags :: uint32
  drq_ref_consumed_cmd_obj_desc_id :: uint16
  drq_acquire_q_obj_desc_id :: uint16
  drq_release_q_obj_desc_id :: uint16
  drq_ref_obj_desc_id :: uint16
  drq_in_node_done_cnt :: uint16
  drq_num_in_nodes :: uint16
  drq_next_obj_desc_id_in_delay :: uint16
  drq_delay_slot_index :: uint16
  drq_delay_slots :: uint16

record tivx_obj_desc_node =
  nd_flags :: uint32
  nd_kernel_id :: uint32
  nd_kernel_name_obj_desc_id :: uint32
  nd_target_id :: uint32
  nd_node_complete_cmd_obj_desc_id :: uint32
  nd_target_kernel_index :: "uint32 list"
  nd_exe_status :: uint32
  nd_exe_time_beg :: "uint32 \<times> uint32"
  nd_exe_time_end :: "uint32 \<times> uint32"
  nd_num_params :: uint32
  nd_num_out_nodes :: uint32
  nd_num_in_nodes :: uint32
  nd_is_prm_replicated :: uint32
  nd_num_of_replicas :: uint32
  nd_data_id :: "uint16 list"
  nd_data_ref_q_id :: "uint16 list"
  nd_out_node_id :: "uint16 list"
  nd_in_node_id :: "uint16 list"
  nd_state :: uint16
  nd_blocked_node_id :: uint16
  nd_pipeline_id :: uint16
  nd_prev_pipe_node_id :: uint16
  nd_is_prm_input :: uint32
  nd_is_prm_bidi :: uint32
  nd_is_prm_data_ref_q :: uint32
  nd_is_prm_array_element :: uint32
  nd_source_state :: uint32
  nd_num_pipeup_bufs :: uint32
  nd_pipeup_buf_idx :: uint32
  nd_block_width :: uint32
  nd_block_height :: uint32
  nd_border_mode :: "uint8 list"
  nd_debug_zonemask :: uint32
  nd_error_info :: uint64

record tivx_obj_desc_cmd =
  cmd_ack_event_handle :: uint64
  cmd_cmd_id :: uint32
  cmd_cmd_params_desc_id :: "uint16 list"
  cmd_num_cmd_params :: uint32
  cmd_node_cmd_id :: uint32
  cmd_replicated_node_idx :: "32 word"
  cmd_flags :: uint32
  cmd_dst_target_id :: uint32
  cmd_src_target_id :: uint32
  cmd_num_obj_desc :: uint32
  cmd_obj_desc_id :: "uint16 list"
  cmd_cmd_status :: uint32
  cmd_timestamp :: "uint32 \<times> uint32"

record tivx_obj_desc_graph =
  gd_pipeline_id :: uint32
  gd_state :: uint32
  gd_complete_leaf_nodes :: uint32
  gd_exe_time_beg :: "uint32 \<times> uint32"
  gd_exe_time_end :: "uint32 \<times> uint32"

datatype od_body =
    B_Raw
  | B_Node (the_node: tivx_obj_desc_node)
  | B_Cmd (the_cmd: tivx_obj_desc_cmd)
  | B_Graph (the_graph: tivx_obj_desc_graph)
  | B_Queue (the_queue: tivx_obj_desc_queue)
  | B_Data_Ref_Q (the_data_ref_q: tivx_obj_desc_data_ref_q)
  | B_Obj_Array (oa_num_items: uint32) (oa_obj_desc_id: "uint16 list")
  | B_Pyramid (py_num_levels: uint32) (py_obj_desc_id: "uint16 list")
  | B_Image (im_parent_id: uint16) (im_create_type: uint32)
  | B_User_Data (ud_type_name: "uint8 list") (ud_mem_size: uint32) (ud_valid_mem_size: uint32)
  | B_Kernel_Name (kn_kernel_name: "uint8 list") (kn_num_pipeup_bufs: uint32)

record tivx_obj_desc =
  od_obj_desc_id :: uint16
  od_type :: uint16
  od_scope_obj_desc_id :: uint16
  od_in_node_done_cnt :: uint16
  od_host_ref :: uint64
  od_flags :: uint32
  od_element_idx :: uint32
  od_timestamp :: uint64
  od_host_cpu_id :: uint32
  od_num_enqueues :: uint16
  od_supp_data_id :: uint16
  od_host_port_id :: "uint16 list"
  od_body :: od_body

record tivx_obj_desc_table_info =
  odt_table_base :: "tivx_obj_desc list"
  odt_last_alloc_index :: nat

abbreviation (input) num_entries :: "tivx_obj_desc_table_info \<Rightarrow> nat" where
  "num_entries t \<equiv> length (odt_table_base t)"

abbreviation (input) desc_at :: "tivx_obj_desc_table_info \<Rightarrow> nat \<Rightarrow> tivx_obj_desc" where
  "desc_at t i \<equiv> odt_table_base t ! i"

text \<open>Writing through a pointer to a descriptor.\<close>

definition upd_desc ::
  "nat \<Rightarrow> (tivx_obj_desc \<Rightarrow> tivx_obj_desc) \<Rightarrow> tivx_obj_desc_table_info \<Rightarrow>
   tivx_obj_desc_table_info" where
  "upd_desc i f t = t\<lparr>odt_table_base := (odt_table_base t)[i := f (odt_table_base t ! i)]\<rparr>"

section \<open>A descriptor of each type with all bytes zero\<close>

definition zero_queue :: tivx_obj_desc_queue where
  "zero_queue = \<lparr>odq_cur_rd = 0, odq_cur_wr = 0, odq_count = 0,
     odq_queue_mem = replicate TIVX_OBJ_DESC_QUEUE_MAX_DEPTH 0,
     odq_blocked_nodes = \<lparr>bn_num_nodes = 0,
       bn_node_id = replicate TIVX_OBJ_DESC_QUEUE_MAX_BLOCKED_NODES 0\<rparr>\<rparr>"

definition zero_data_ref_q :: tivx_obj_desc_data_ref_q where
  "zero_data_ref_q = \<lparr>drq_flags = 0, drq_ref_consumed_cmd_obj_desc_id = 0,
     drq_acquire_q_obj_desc_id = 0, drq_release_q_obj_desc_id = 0, drq_ref_obj_desc_id = 0,
     drq_in_node_done_cnt = 0, drq_num_in_nodes = 0, drq_next_obj_desc_id_in_delay = 0,
     drq_delay_slot_index = 0, drq_delay_slots = 0\<rparr>"

text \<open>The array lengths are those of \<open>include/TI/soc/tivx_config_j721e.h\<close>.\<close>

definition zero_node :: tivx_obj_desc_node where
  "zero_node = \<lparr>nd_flags = 0, nd_kernel_id = 0, nd_kernel_name_obj_desc_id = 0,
     nd_target_id = 0, nd_node_complete_cmd_obj_desc_id = 0,
     nd_target_kernel_index = replicate 64 0, nd_exe_status = 0, nd_exe_time_beg = (0, 0),
     nd_exe_time_end = (0, 0), nd_num_params = 0, nd_num_out_nodes = 0, nd_num_in_nodes = 0,
     nd_is_prm_replicated = 0, nd_num_of_replicas = 0, nd_data_id = replicate 32 0,
     nd_data_ref_q_id = replicate 32 0, nd_out_node_id = replicate 8 0,
     nd_in_node_id = replicate 8 0, nd_state = 0, nd_blocked_node_id = 0, nd_pipeline_id = 0,
     nd_prev_pipe_node_id = 0, nd_is_prm_input = 0, nd_is_prm_bidi = 0,
     nd_is_prm_data_ref_q = 0, nd_is_prm_array_element = 0, nd_source_state = 0,
     nd_num_pipeup_bufs = 0, nd_pipeup_buf_idx = 0, nd_block_width = 0, nd_block_height = 0,
     nd_border_mode = replicate 20 0, nd_debug_zonemask = 0, nd_error_info = 0\<rparr>"

definition zero_cmd :: tivx_obj_desc_cmd where
  "zero_cmd = \<lparr>cmd_ack_event_handle = 0, cmd_cmd_id = 0, cmd_cmd_params_desc_id = replicate 32 0,
     cmd_num_cmd_params = 0, cmd_node_cmd_id = 0, cmd_replicated_node_idx = 0, cmd_flags = 0,
     cmd_dst_target_id = 0, cmd_src_target_id = 0, cmd_num_obj_desc = 0,
     cmd_obj_desc_id = replicate 16 0, cmd_cmd_status = 0, cmd_timestamp = (0, 0)\<rparr>"

definition zero_graph_desc :: tivx_obj_desc_graph where
  "zero_graph_desc = \<lparr>gd_pipeline_id = 0, gd_state = 0, gd_complete_leaf_nodes = 0,
     gd_exe_time_beg = (0, 0), gd_exe_time_end = (0, 0)\<rparr>"

definition zero_body :: "uint16 \<Rightarrow> od_body" where
  "zero_body ty =
     (if ty = TIVX_OBJ_DESC_NODE then B_Node zero_node
      else if ty = TIVX_OBJ_DESC_CMD then B_Cmd zero_cmd
      else if ty = TIVX_OBJ_DESC_GRAPH then B_Graph zero_graph_desc
      else if ty = TIVX_OBJ_DESC_QUEUE then B_Queue zero_queue
      else if ty = TIVX_OBJ_DESC_DATA_REF_Q then B_Data_Ref_Q zero_data_ref_q
      else if ty = TIVX_OBJ_DESC_OBJARRAY then B_Obj_Array 0 (replicate 32 0)
      else if ty = TIVX_OBJ_DESC_PYRAMID then B_Pyramid 0 (replicate 64 0)
      else if ty = TIVX_OBJ_DESC_IMAGE then B_Image 0 0
      else if ty = TIVX_OBJ_DESC_USER_DATA_OBJECT then B_User_Data (replicate 64 0) 0 0
      else if ty = TIVX_OBJ_DESC_KERNEL_NAME then B_Kernel_Name (replicate 256 0) 0
      else B_Raw)"

text \<open>The body is the one that the type announces.\<close>

definition body_ok :: "tivx_obj_desc \<Rightarrow> bool" where
  "body_ok d \<longleftrightarrow>
     (od_type d = TIVX_OBJ_DESC_NODE \<longrightarrow> (\<exists>b. od_body d = B_Node b))
   \<and> (od_type d = TIVX_OBJ_DESC_CMD \<longrightarrow> (\<exists>b. od_body d = B_Cmd b))
   \<and> (od_type d = TIVX_OBJ_DESC_GRAPH \<longrightarrow> (\<exists>b. od_body d = B_Graph b))
   \<and> (od_type d = TIVX_OBJ_DESC_QUEUE \<longrightarrow> (\<exists>b. od_body d = B_Queue b))
   \<and> (od_type d = TIVX_OBJ_DESC_DATA_REF_Q \<longrightarrow> (\<exists>b. od_body d = B_Data_Ref_Q b))
   \<and> (od_type d = TIVX_OBJ_DESC_OBJARRAY \<longrightarrow> (\<exists>n b. od_body d = B_Obj_Array n b))
   \<and> (od_type d = TIVX_OBJ_DESC_PYRAMID \<longrightarrow> (\<exists>n b. od_body d = B_Pyramid n b))
   \<and> (od_type d = TIVX_OBJ_DESC_IMAGE \<longrightarrow> (\<exists>b c. od_body d = B_Image b c))
   \<and> (od_type d = TIVX_OBJ_DESC_USER_DATA_OBJECT \<longrightarrow> (\<exists>n m v. od_body d = B_User_Data n m v))
   \<and> (od_type d = TIVX_OBJ_DESC_KERNEL_NAME \<longrightarrow> (\<exists>n p. od_body d = B_Kernel_Name n p))"

section \<open>Looking up a descriptor\<close>

definition ownObjDescGet :: "tivx_obj_desc_table_info \<Rightarrow> uint16 \<Rightarrow> nat option" where
  "ownObjDescGet t obj_desc_id =
     (if unat obj_desc_id < num_entries t then Some (unat obj_desc_id) else None)"

definition ownObjDescIsValidType ::
  "tivx_obj_desc_table_info \<Rightarrow> nat option \<Rightarrow> uint16 \<Rightarrow> bool" where
  "ownObjDescIsValidType t obj_desc obj_type =
     (case obj_desc of None \<Rightarrow> False
      | Some i \<Rightarrow> od_type (desc_at t i) = obj_type
           \<and> unat (od_obj_desc_id (desc_at t i)) < num_entries t)"

section \<open>Allocation and release\<close>

text \<open>What the platform tells a descriptor at its allocation.\<close>

record platform_ids =
  pf_host_port_id :: "nat \<Rightarrow> uint16"
  pf_self_cpu_id :: "32 word"

text \<open>The search loop of \<open>ownObjDescAlloc\<close>: \<open>i\<close> entries are left to look at, from \<open>idx\<close>.\<close>

fun alloc_search :: "nat \<Rightarrow> nat \<Rightarrow> tivx_obj_desc list \<Rightarrow> nat option" where
  "alloc_search 0 idx ds = None"
| "alloc_search (Suc i) idx ds =
     (if od_type (ds ! idx) = TIVX_OBJ_DESC_INVALID then Some idx
      else alloc_search i ((idx + 1) mod length ds) ds)"

definition init_desc :: "platform_ids \<Rightarrow> nat \<Rightarrow> uint16 \<Rightarrow> uint64 \<Rightarrow> tivx_obj_desc" where
  "init_desc pf idx ref_type ref =
     \<lparr>od_obj_desc_id = of_nat idx, od_type = ref_type,
      od_scope_obj_desc_id = TIVX_OBJ_DESC_INVALID, od_in_node_done_cnt = 0, od_host_ref = ref,
      od_flags = 0, od_element_idx = 0, od_timestamp = 0, od_host_cpu_id = pf_self_cpu_id pf,
      od_num_enqueues = 0, od_supp_data_id = TIVX_OBJ_DESC_INVALID,
      od_host_port_id = map (pf_host_port_id pf) [0..<16], od_body = zero_body ref_type\<rparr>"

definition ownObjDescAlloc ::
  "platform_ids \<Rightarrow> tivx_obj_desc_table_info \<Rightarrow> uint16 \<Rightarrow> uint64 \<Rightarrow>
   tivx_obj_desc_table_info \<times> nat option" where
  "ownObjDescAlloc pf t ref_type ref =
     (case alloc_search (num_entries t) (odt_last_alloc_index t) (odt_table_base t) of
        None \<Rightarrow> (t, None)
      | Some idx \<Rightarrow>
          (t\<lparr>odt_table_base := (odt_table_base t)[idx := init_desc pf idx ref_type ref],
             odt_last_alloc_index := (idx + 1) mod num_entries t\<rparr>, Some idx))"

text \<open>The caller's pointer is cleared when the descriptor is freed.\<close>

definition ownObjDescFree ::
  "tivx_obj_desc_table_info \<Rightarrow> nat option \<Rightarrow> tivx_obj_desc_table_info \<times> nat option \<times> vx_status"
where
  "ownObjDescFree t obj_desc =
     (case obj_desc of None \<Rightarrow> (t, None, VX_ERROR_INVALID_PARAMETERS)
      | Some i \<Rightarrow>
          if unat (od_obj_desc_id (desc_at t i)) < num_entries t
          then (upd_desc i (\<lambda>d. d\<lparr>od_type := TIVX_OBJ_DESC_INVALID\<rparr>) t, None, VX_SUCCESS)
          else (t, Some i, VX_ERROR_INVALID_PARAMETERS))"

section \<open>IPC payload\<close>

text \<open>A message between CPUs is one word: the descriptor id above bit 12 (\<open>TIVX_OBJ_DESC_ID_SHIFT\<close>)
  and the target id, 4 bits of CPU and 8 bits of target instance (\<open>TIVX_TARGET_ID_MASK\<close>), below.\<close>

abbreviation (input) TIVX_OBJ_DESC_ID_MASK :: uint32 where "TIVX_OBJ_DESC_ID_MASK \<equiv> 0xFFFF"
abbreviation (input) TIVX_TARGET_ID_MASK :: uint32 where "TIVX_TARGET_ID_MASK \<equiv> 0xFFF"

definition ownIpcPayloadMake :: "uint32 \<Rightarrow> uint16 \<Rightarrow> uint32" where
  "ownIpcPayloadMake dst_target_id obj_desc_id =
     (push_bit 12 ((ucast obj_desc_id :: uint32) AND TIVX_OBJ_DESC_ID_MASK)
      OR push_bit 0 (dst_target_id AND TIVX_TARGET_ID_MASK))"

definition ownIpcPayloadGetObjDescId :: "uint32 \<Rightarrow> uint16" where
  "ownIpcPayloadGetObjDescId payload = ucast (drop_bit 12 payload AND TIVX_OBJ_DESC_ID_MASK)"

definition ownIpcPayloadGetTargetId :: "uint32 \<Rightarrow> uint32" where
  "ownIpcPayloadGetTargetId payload = (drop_bit 0 payload AND TIVX_TARGET_ID_MASK)"

section \<open>Lists and elements of descriptors\<close>

definition tivxGetObjDescList ::
  "tivx_obj_desc_table_info \<Rightarrow> uint16 list \<Rightarrow> nat option list \<Rightarrow> nat option list" where
  "tivxGetObjDescList t obj_desc_id obj_desc =
     map2 (\<lambda>i p. if unat i < num_entries t then Some (unat i) else p) obj_desc_id obj_desc"

text \<open>\<open>tivxGetObjDescElement\<close>: the outer option is \<open>None\<close> when the code reads the element ids of an
  object array out of a descriptor that is of another type, or beyond the array.\<close>

definition tivxGetObjDescElement ::
  "tivx_obj_desc_table_info \<Rightarrow> nat \<Rightarrow> uint16 \<Rightarrow> nat option option" where
  "tivxGetObjDescElement t i elem_idx =
     (let d = desc_at t i in
      if od_type d = TIVX_OBJ_DESC_OBJARRAY then
        (case od_body d of
           B_Obj_Array n ids \<Rightarrow>
             if unat elem_idx < unat n then
               (if unat elem_idx < length ids
                then Some (hd (tivxGetObjDescList t [ids ! unat elem_idx] [None])) else None)
             else Some None
         | _ \<Rightarrow> None)
      else if od_scope_obj_desc_id d \<noteq> TIVX_OBJ_DESC_INVALID then
        (case hd (tivxGetObjDescList t [od_scope_obj_desc_id d] [None]) of
           None \<Rightarrow> Some None
         | Some p \<Rightarrow>
             (case od_body (desc_at t p) of
                B_Obj_Array n ids \<Rightarrow>
                  if unat elem_idx < length ids
                  then Some (hd (tivxGetObjDescList t [ids ! unat elem_idx] [None])) else None
              | _ \<Rightarrow> None))
      else Some (Some i))"

section \<open>Byte routines\<close>

text \<open>The loop of \<open>tivx_obj_desc_strncpy\<close>: \<open>k\<close> bytes may still be copied, from index \<open>i\<close>.\<close>

fun strncpy_loop :: "nat \<Rightarrow> nat \<Rightarrow> uint8 list \<Rightarrow> uint8 list \<Rightarrow> uint8 list" where
  "strncpy_loop 0 i d s = d[i := 0]"
| "strncpy_loop (Suc k) i d s =
     (let d1 = d[i := s ! i] in
      if s ! i = 0 then d1[i := 0] else strncpy_loop k (Suc i) d1 s)"

definition tivx_obj_desc_strncpy :: "uint8 list \<Rightarrow> uint8 list \<Rightarrow> uint32 \<Rightarrow> uint8 list" where
  "tivx_obj_desc_strncpy dst src sz = strncpy_loop (unat (sz - 1)) 0 dst src"

fun memcpy_loop :: "nat \<Rightarrow> nat \<Rightarrow> uint8 list \<Rightarrow> uint8 list \<Rightarrow> uint8 list" where
  "memcpy_loop 0 i d s = d"
| "memcpy_loop (Suc k) i d s = memcpy_loop k (Suc i) (d[i := s ! i]) s"

definition tivx_obj_desc_memcpy :: "uint8 list \<Rightarrow> uint8 list \<Rightarrow> uint32 \<Rightarrow> uint8 list" where
  "tivx_obj_desc_memcpy dst src sz = memcpy_loop (unat sz) 0 dst src"

fun memset_loop :: "nat \<Rightarrow> nat \<Rightarrow> uint8 list \<Rightarrow> uint8 \<Rightarrow> uint8 list" where
  "memset_loop 0 i d v = d"
| "memset_loop (Suc k) i d v = memset_loop k (Suc i) (d[i := v]) v"

definition tivx_obj_desc_memset :: "uint8 list \<Rightarrow> uint8 \<Rightarrow> uint32 \<Rightarrow> uint8 list" where
  "tivx_obj_desc_memset dst val sz = memset_loop (unat sz) 0 dst val"

fun strncmp_loop :: "nat \<Rightarrow> nat \<Rightarrow> uint8 list \<Rightarrow> uint8 list \<Rightarrow> int" where
  "strncmp_loop 0 i d s = 0"
| "strncmp_loop (Suc k) i d s =
     (if d ! i \<noteq> s ! i \<or> d ! i = 0 \<or> s ! i = 0 then uint (d ! i) - uint (s ! i)
      else strncmp_loop k (Suc i) d s)"

definition tivx_obj_desc_strncmp :: "uint8 list \<Rightarrow> uint8 list \<Rightarrow> uint32 \<Rightarrow> int" where
  "tivx_obj_desc_strncmp dst src sz = strncmp_loop (unat sz) 0 dst src"

fun strncmp_delim_loop :: "nat \<Rightarrow> nat \<Rightarrow> uint8 list \<Rightarrow> uint8 list \<Rightarrow> uint8 \<Rightarrow> int" where
  "strncmp_delim_loop 0 i d s delim = 0"
| "strncmp_delim_loop (Suc k) i d s delim =
     (if d ! i \<noteq> s ! i \<or> d ! i = 0 \<or> s ! i = 0 \<or> d ! i = delim \<or> s ! i = delim then
        (if d ! i \<noteq> delim \<and> s ! i \<noteq> delim then uint (d ! i) - uint (s ! i) else 0)
      else strncmp_delim_loop k (Suc i) d s delim)"

definition tivx_obj_desc_strncmp_delim ::
  "uint8 list \<Rightarrow> uint8 list \<Rightarrow> uint32 \<Rightarrow> uint8 \<Rightarrow> int" where
  "tivx_obj_desc_strncmp_delim dst src sz delim =
     strncmp_delim_loop (unat sz) 0 dst src delim"

section \<open>Supplementary data\<close>

text \<open>For an image without supplementary data of its own, that of its parent or grandparent: the
  loop goes up at most two levels. The parent of an image is an image.\<close>

fun supp_parent :: "nat \<Rightarrow> tivx_obj_desc_table_info \<Rightarrow> nat \<Rightarrow> nat" where
  "supp_parent 0 t i = i"
| "supp_parent (Suc depth) t i =
     (if od_supp_data_id (desc_at t i) = TIVX_OBJ_DESC_INVALID then
        (case od_body (desc_at t i) of
           B_Image parent_id _ \<Rightarrow>
             (case ownObjDescGet t parent_id of
                Some p \<Rightarrow> supp_parent depth t p
              | None \<Rightarrow> i)
         | _ \<Rightarrow> i)
      else i)"

definition tivxGetSupplementaryDataObjDesc ::
  "tivx_obj_desc_table_info \<Rightarrow> nat option \<Rightarrow> uint8 list option \<Rightarrow> nat option" where
  "tivxGetSupplementaryDataObjDesc t obj_desc type_name =
     (case obj_desc of None \<Rightarrow> None
      | Some i \<Rightarrow>
         (let j = (if od_type (desc_at t i) = TIVX_OBJ_DESC_IMAGE then supp_parent 2 t i else i) in
          case ownObjDescGet t (od_supp_data_id (desc_at t j)) of
            None \<Rightarrow> None
          | Some r \<Rightarrow>
              (case type_name of
                 Some nm \<Rightarrow>
                   if tivx_obj_desc_strncmp (ud_type_name (od_body (desc_at t r))) nm 64 \<noteq> 0
                   then None else Some r
               | None \<Rightarrow> Some r)))"

section \<open>Well formed tables\<close>

definition table_wf :: "tivx_obj_desc_table_info \<Rightarrow> bool" where
  "table_wf t \<longleftrightarrow> num_entries t \<le> 0xFFFF \<and> odt_last_alloc_index t < num_entries t
     \<and> (\<forall>i < num_entries t. od_type (desc_at t i) \<noteq> TIVX_OBJ_DESC_INVALID \<longrightarrow>
          od_obj_desc_id (desc_at t i) = of_nat i \<and> body_ok (desc_at t i))"

lemma body_ok_zero [simp]:
  "od_type d = ty \<Longrightarrow> od_body d = zero_body ty \<Longrightarrow> body_ok d"
  by (auto simp: body_ok_def zero_body_def)

lemma upd_desc_simps [simp]:
  "num_entries (upd_desc i f t) = num_entries t"
  "odt_last_alloc_index (upd_desc i f t) = odt_last_alloc_index t"
  "j < num_entries t \<Longrightarrow>
     desc_at (upd_desc i f t) j = (if i = j then f (desc_at t j) else desc_at t j)"
  by (auto simp: upd_desc_def nth_list_update)

lemma get_some: "ownObjDescGet t k = Some i \<longleftrightarrow> i = unat k \<and> i < num_entries t"
  by (auto simp: ownObjDescGet_def)

lemma get_upd [simp]: "ownObjDescGet (upd_desc i f t) = ownObjDescGet t"
  by (auto simp: ownObjDescGet_def fun_eq_iff)

lemma table_wf_upd:
  assumes "table_wf t" "i < num_entries t"
    and "od_type (f (desc_at t i)) \<noteq> TIVX_OBJ_DESC_INVALID \<Longrightarrow>
      od_obj_desc_id (f (desc_at t i)) = of_nat i \<and> body_ok (f (desc_at t i))"
  shows "table_wf (upd_desc i f t)"
  using assms by (auto simp: table_wf_def)

lemma alloc_search_some:
  "\<lbrakk>alloc_search k idx ds = Some j; idx < length ds\<rbrakk> \<Longrightarrow>
   j < length ds \<and> od_type (ds ! j) = TIVX_OBJ_DESC_INVALID"
proof (induction k arbitrary: idx)
  case 0
  then show ?case by simp
next
  case (Suc k)
  have "(idx + 1) mod length ds < length ds"
    using Suc.prems(2) by (intro mod_less_divisor) auto
  with Suc show ?case by (auto split: if_splits)
qed

lemma alloc_search_none:
  "\<lbrakk>alloc_search k idx ds = None; i < k; idx < length ds\<rbrakk> \<Longrightarrow>
   od_type (ds ! ((idx + i) mod length ds)) \<noteq> TIVX_OBJ_DESC_INVALID"
proof (induction k arbitrary: idx i)
  case 0
  then show ?case by simp
next
  case (Suc k)
  show ?case
  proof (cases i)
    case 0
    with Suc.prems show ?thesis by (auto split: if_splits)
  next
    case (Suc i')
    have "(idx + 1) mod length ds < length ds"
      using Suc.prems(3) by (intro mod_less_divisor) auto
    moreover have "alloc_search k ((idx + 1) mod length ds) ds = None"
      using Suc.prems(1) by (auto split: if_splits)
    ultimately have "od_type (ds ! (((idx + 1) mod length ds + i') mod length ds))
        \<noteq> TIVX_OBJ_DESC_INVALID"
      using Suc.IH Suc Suc.prems(2) by simp
    then show ?thesis using Suc by (simp add: mod_add_left_eq)
  qed
qed

text \<open>Starting anywhere, a search over as many steps as there are entries looks at every entry.\<close>

lemma ring_covers:
  fixes j idx n :: nat
  assumes "j < n" "idx < n"
  obtains i where "i < n" "(idx + i) mod n = j"
proof
  show "(j + n - idx) mod n < n" using assms by simp
  have "(idx + (j + n - idx) mod n) mod n = (idx + (j + n - idx)) mod n"
    by (simp add: mod_add_right_eq)
  also have "\<dots> = j" using assms by simp
  finally show "(idx + (j + n - idx) mod n) mod n = j" .
qed

lemma alloc_search_complete:
  assumes "alloc_search (length ds) idx ds = None" "idx < length ds" "j < length ds"
  shows "od_type (ds ! j) \<noteq> TIVX_OBJ_DESC_INVALID"
  using ring_covers [OF assms(3,2)] alloc_search_none [OF assms(1) _ assms(2)] by metis

section \<open>Correctness of the table\<close>

definition sample_ids :: platform_ids where
  "sample_ids = \<lparr>pf_host_port_id = (\<lambda>_. 0), pf_self_cpu_id = 0\<rparr>"

definition free_desc :: tivx_obj_desc where
  "free_desc = init_desc sample_ids 0 TIVX_OBJ_DESC_INVALID 0"

definition sample_table :: tivx_obj_desc_table_info where
  "sample_table = \<lparr>odt_table_base =
     [free_desc, init_desc sample_ids 1 TIVX_OBJ_DESC_CMD 0, init_desc sample_ids 2 TIVX_OBJ_DESC_NODE 0],
     odt_last_alloc_index = 1\<rparr>"

lemma init_desc_ok [simp]:
  "od_type (init_desc pf i ty ref) = ty" "od_obj_desc_id (init_desc pf i ty ref) = of_nat i"
  "body_ok (init_desc pf i ty ref)"
  "od_body (init_desc pf i ty ref) = zero_body ty"
  by (simp_all add: init_desc_def)

lemma sample_table_wf: "table_wf sample_table"
  by (simp add: table_wf_def sample_table_def free_desc_def less_Suc_eq numeral_3_eq_3)

lemma unat_index:
  "i < num_entries t \<Longrightarrow> num_entries t \<le> 0xFFFF \<Longrightarrow> unat (of_nat i :: uint16) = i"
  by (simp add: unat_of_nat)

lemma alloc_desc:
  assumes wf: "table_wf t" and ty: "ref_type \<noteq> TIVX_OBJ_DESC_INVALID"
    and run: "ownObjDescAlloc pf t ref_type ref = (t', r)"
  shows "table_wf t' \<and> (case r of
      None \<Rightarrow> t' = t \<and> (\<forall>i < num_entries t. od_type (desc_at t i) \<noteq> TIVX_OBJ_DESC_INVALID)
    | Some i \<Rightarrow> i < num_entries t \<and> od_type (desc_at t i) = TIVX_OBJ_DESC_INVALID
        \<and> odt_table_base t' = (odt_table_base t)[i := init_desc pf i ref_type ref]
        \<and> ownObjDescGet t' (od_obj_desc_id (desc_at t' i)) = Some i
        \<and> ownObjDescIsValidType t' (Some i) ref_type)"
proof (cases "alloc_search (num_entries t) (odt_last_alloc_index t) (odt_table_base t)")
  case None
  then have "\<forall>i < num_entries t. od_type (desc_at t i) \<noteq> TIVX_OBJ_DESC_INVALID"
    using alloc_search_complete wf by (simp add: table_wf_def)
  with None run wf show ?thesis by (auto simp: ownObjDescAlloc_def)
next
  case (Some i)
  have i: "i < num_entries t" "od_type (desc_at t i) = TIVX_OBJ_DESC_INVALID"
    using alloc_search_some [OF Some] wf by (auto simp: table_wf_def)
  have u: "unat (of_nat i :: uint16) = i"
    using unat_index [OF i(1)] wf by (simp add: table_wf_def)
  have res: "r = Some i" "odt_table_base t' = (odt_table_base t)[i := init_desc pf i ref_type ref]"
    "odt_last_alloc_index t' = (i + 1) mod num_entries t"
    using run Some by (auto simp: ownObjDescAlloc_def)
  have "0 < num_entries t" using i(1) by linarith
  then have last: "odt_last_alloc_index t' < num_entries t'" using res(2,3) by simp
  have "od_obj_desc_id (desc_at t' j) = of_nat j \<and> body_ok (desc_at t' j)"
    if "j < num_entries t'" "od_type (desc_at t' j) \<noteq> TIVX_OBJ_DESC_INVALID" for j
    using that wf res(2) i(1) by (cases "j = i") (auto simp: table_wf_def)
  with last have "table_wf t'" using wf res(2) by (simp add: table_wf_def)
  then show ?thesis
    using res i u by (auto simp: ownObjDescGet_def ownObjDescIsValidType_def)
qed

text \<open>C32: an allocation takes a slot exactly when some slot of the table is free, wherever the
  search starts; the slot it takes was free, is initialised with its own index as the id, is
  what \<open>ownObjDescGet\<close> then finds under that id, and every other slot is untouched.\<close>

theorem ownObjDescAlloc_correct:
  assumes wf: "table_wf t" and ty: "ref_type \<noteq> TIVX_OBJ_DESC_INVALID"
    and run: "ownObjDescAlloc pf t ref_type ref = (t', r)"
  shows "table_wf t' \<and> (case r of
      None \<Rightarrow> t' = t \<and> (\<forall>i < num_entries t. od_type (desc_at t i) \<noteq> TIVX_OBJ_DESC_INVALID)
    | Some i \<Rightarrow> i < num_entries t \<and> od_type (desc_at t i) = TIVX_OBJ_DESC_INVALID
        \<and> odt_table_base t' = (odt_table_base t)[i := init_desc pf i ref_type ref]
        \<and> ownObjDescGet t' (od_obj_desc_id (desc_at t' i)) = Some i
        \<and> ownObjDescIsValidType t' (Some i) ref_type)"
  by (rule alloc_desc [OF assms])

theorem ownObjDescAlloc_correct_witness:
  "\<exists>t'. ownObjDescAlloc sample_ids sample_table TIVX_OBJ_DESC_QUEUE 7 = (t', Some 0)
    \<and> ownObjDescIsValidType t' (Some 0) TIVX_OBJ_DESC_QUEUE"
proof -
  obtain t' r where run: "ownObjDescAlloc sample_ids sample_table TIVX_OBJ_DESC_QUEUE 7 = (t', r)"
    by fastforce
  have "alloc_search (num_entries sample_table) (odt_last_alloc_index sample_table)
      (odt_table_base sample_table) = Some 0"
    by (simp add: sample_table_def free_desc_def)
  with run have "r = Some 0" by (auto simp: ownObjDescAlloc_def)
  with run ownObjDescAlloc_correct [OF sample_table_wf _ run] show ?thesis by auto
qed

text \<open>Freeing an allocated descriptor succeeds, clears the caller's pointer, frees that slot
  only, keeps the table well formed, and the next allocation of any type finds a slot.\<close>

theorem ownObjDescFree_correct:
  assumes wf: "table_wf t" and i: "i < num_entries t"
    and used: "od_type (desc_at t i) \<noteq> TIVX_OBJ_DESC_INVALID"
  shows "\<exists>t'. ownObjDescFree t (Some i) = (t', None, VX_SUCCESS) \<and> table_wf t'
    \<and> od_type (desc_at t' i) = TIVX_OBJ_DESC_INVALID
    \<and> (\<forall>j < num_entries t. j \<noteq> i \<longrightarrow> desc_at t' j = desc_at t j)
    \<and> snd (ownObjDescAlloc pf t' ty ref) \<noteq> None"
proof -
  let ?t = "upd_desc i (\<lambda>d. d\<lparr>od_type := TIVX_OBJ_DESC_INVALID\<rparr>) t"
  have u: "unat (of_nat i :: uint16) = i"
    using unat_index [OF i] wf by (simp add: table_wf_def)
  have id: "od_obj_desc_id (desc_at t i) = of_nat i" using wf i used by (simp add: table_wf_def)
  have free: "ownObjDescFree t (Some i) = (?t, None, VX_SUCCESS)"
    using i u id by (simp add: ownObjDescFree_def)
  have wf': "table_wf ?t" using wf i by (intro table_wf_upd) auto
  have "alloc_search (num_entries ?t) (odt_last_alloc_index ?t) (odt_table_base ?t) \<noteq> None"
    using alloc_search_complete [of "odt_table_base ?t" "odt_last_alloc_index ?t" i] wf' i
    by (auto simp: table_wf_def)
  then have "snd (ownObjDescAlloc pf ?t ty ref) \<noteq> None"
    by (auto simp: ownObjDescAlloc_def)
  with free wf' i show ?thesis by auto
qed

theorem ownObjDescFree_correct_witness:
  "snd (snd (ownObjDescFree sample_table (Some 2))) = VX_SUCCESS"
  using ownObjDescFree_correct [OF sample_table_wf, of 2 sample_ids 0 0]
  by (auto simp: sample_table_def)

section \<open>Correctness of the payload\<close>

lemma payload_get:
  "ownIpcPayloadGetObjDescId (ownIpcPayloadMake dst_target_id obj_desc_id) = obj_desc_id
   \<and> ownIpcPayloadGetTargetId (ownIpcPayloadMake dst_target_id obj_desc_id)
     = dst_target_id AND TIVX_TARGET_ID_MASK"
proof
  have m16: "(0xFFFF :: uint32) = Bit_Operations.mask 16"
    and m12: "(0xFFF :: uint32) = Bit_Operations.mask 12"
    by (simp_all add: mask_eq_exp_minus_1)
  show "ownIpcPayloadGetObjDescId (ownIpcPayloadMake dst_target_id obj_desc_id) = obj_desc_id"
    unfolding ownIpcPayloadGetObjDescId_def ownIpcPayloadMake_def m16 m12
    by (rule bit_word_eqI) (auto simp: bit_simps)
  show "ownIpcPayloadGetTargetId (ownIpcPayloadMake dst_target_id obj_desc_id)
     = dst_target_id AND TIVX_TARGET_ID_MASK"
    unfolding ownIpcPayloadGetTargetId_def ownIpcPayloadMake_def m16 m12
    by (rule bit_word_eqI) (auto simp: bit_simps)
qed

text \<open>The payload of an IPC message carries any descriptor id and any target id of 12 bits
  unchanged: the receiver reads back exactly what the sender put in.\<close>

theorem ownIpcPayload_roundtrip:
  "ownIpcPayloadGetObjDescId (ownIpcPayloadMake dst_target_id obj_desc_id) = obj_desc_id
   \<and> ownIpcPayloadGetTargetId (ownIpcPayloadMake dst_target_id obj_desc_id)
     = dst_target_id AND TIVX_TARGET_ID_MASK"
  by (rule payload_get)

section \<open>Correctness of the byte routines\<close>

text \<open>The bytes of a C string in its first \<open>n\<close> bytes, and those before a delimiter.\<close>

definition c_string :: "nat \<Rightarrow> uint8 list \<Rightarrow> uint8 list" where
  "c_string n s = takeWhile (\<lambda>b. b \<noteq> 0) (take n s)"

definition c_cut :: "uint8 \<Rightarrow> nat \<Rightarrow> uint8 list \<Rightarrow> uint8 list" where
  "c_cut delim n s = takeWhile (\<lambda>b. b \<noteq> 0 \<and> b \<noteq> delim) (take n s)"

lemma strncpy_loop_eq:
  "\<lbrakk>i + k < length d; i + k \<le> length s\<rbrakk> \<Longrightarrow>
   strncpy_loop k i d s = take i d @ c_string k (drop i s) @ [0]
     @ drop (i + length (c_string k (drop i s)) + 1) d"
proof (induction k arbitrary: i d)
  case 0
  then show ?case by (simp add: c_string_def upd_conv_take_nth_drop)
next
  case (Suc k)
  have s: "drop i s = s ! i # drop (Suc i) s" using Suc.prems by (simp add: Cons_nth_drop_Suc)
  show ?case
  proof (cases "s ! i = 0")
    case True
    with s Suc.prems show ?thesis by (simp add: c_string_def upd_conv_take_nth_drop)
  next
    case False
    have "take (Suc i) (d[i := s ! i]) = take i d @ [s ! i]"
      using Suc.prems by (simp add: take_Suc_conv_app_nth)
    with False s Suc.prems Suc.IH [of "Suc i" "d[i := s ! i]"] show ?thesis
      by (simp add: c_string_def)
  qed
qed

lemma memcpy_loop_eq:
  "\<lbrakk>i + k \<le> length d; i + k \<le> length s\<rbrakk> \<Longrightarrow>
   memcpy_loop k i d s = take i d @ take k (drop i s) @ drop (i + k) d"
proof (induction k arbitrary: i d)
  case 0
  then show ?case by simp
next
  case (Suc k)
  have s: "drop i s = s ! i # drop (Suc i) s" using Suc.prems by (simp add: Cons_nth_drop_Suc)
  have "take (Suc i) (d[i := s ! i]) = take i d @ [s ! i]"
    using Suc.prems by (simp add: take_Suc_conv_app_nth)
  with s Suc.prems Suc.IH [of "Suc i" "d[i := s ! i]"] show ?case by simp
qed

lemma strncmp_loop_eq:
  "\<lbrakk>i + k \<le> length d; i + k \<le> length s\<rbrakk> \<Longrightarrow>
   strncmp_loop k i d s = 0 \<longleftrightarrow> c_string k (drop i d) = c_string k (drop i s)"
proof (induction k arbitrary: i)
  case 0
  then show ?case by (simp add: c_string_def)
next
  case (Suc k)
  have "drop i s = s ! i # drop (Suc i) s" "drop i d = d ! i # drop (Suc i) d"
    using Suc.prems by (simp_all add: Cons_nth_drop_Suc)
  with Suc.prems Suc.IH [of "Suc i"] show ?case
    by (auto simp: c_string_def word_uint_eq_iff [symmetric] unsigned_eq_0_iff)
qed

lemma strncmp_delim_loop_eq:
  "\<lbrakk>i + k \<le> length d; i + k \<le> length s\<rbrakk> \<Longrightarrow>
   strncmp_delim_loop k i d s delim = 0 \<longleftrightarrow>
     (let a = c_cut delim k (drop i d); b = c_cut delim k (drop i s) in
      a = b
      \<or> (prefix a b \<and> length a < k \<and> d ! (i + length a) = delim)
      \<or> (prefix b a \<and> length b < k \<and> s ! (i + length b) = delim))"
proof (induction k arbitrary: i)
  case 0
  then show ?case by (simp add: c_cut_def)
next
  case (Suc k)
  have "drop i s = s ! i # drop (Suc i) s" "drop i d = d ! i # drop (Suc i) d"
    using Suc.prems by (simp_all add: Cons_nth_drop_Suc)
  with Suc.prems Suc.IH [of "Suc i"] show ?case
    by (auto simp: c_cut_def Let_def word_uint_eq_iff [symmetric] unsigned_eq_0_iff)
qed

text \<open>\<open>tivx_obj_desc_strncpy\<close> leaves the string of the source, cut to \<open>size - 1\<close> bytes, in the
  destination, always terminated, and writes nothing after the terminator.\<close>

theorem strncpy_correct:
  assumes "0 < sz" "unat sz \<le> length dst" "unat sz \<le> length src"
  shows "tivx_obj_desc_strncpy dst src sz
    = c_string (unat sz - 1) src @ [0] @ drop (length (c_string (unat sz - 1) src) + 1) dst"
proof -
  have "unat (sz - 1) = unat sz - 1" "0 < unat sz"
    using unat_dec_pos [OF assms(1)] assms(1) by (auto simp: word_less_nat_alt)
  then show ?thesis
    using strncpy_loop_eq [of 0 "unat sz - 1" dst src] assms(2,3)
    by (simp add: tivx_obj_desc_strncpy_def)
qed

theorem strncpy_correct_witness:
  "tivx_obj_desc_strncpy [9, 9, 9, 9] [65, 66, 67, 68] 3 = [65, 66, 0, 9]"
  using strncpy_correct [of 3 "[9, 9, 9, 9]" "[65, 66, 67, 68]"]
  by (simp add: c_string_def)

text \<open>\<open>tivx_obj_desc_strncmp\<close> answers 0 exactly when the two buffers hold the same string in
  their first \<open>size\<close> bytes.\<close>

theorem strncmp_correct:
  assumes "unat sz \<le> length dst" "unat sz \<le> length src"
  shows "tivx_obj_desc_strncmp dst src sz = 0 \<longleftrightarrow> c_string (unat sz) dst = c_string (unat sz) src"
  using strncmp_loop_eq [of 0 "unat sz" dst src] assms by (simp add: tivx_obj_desc_strncmp_def)

theorem strncmp_correct_witness:
  "tivx_obj_desc_strncmp [65, 0, 1] [65, 0, 2] 3 = 0"
  using strncmp_correct [of 3 "[65, 0, 1]" "[65, 0, 2]"] by (simp add: c_string_def)

text \<open>what \<open>tivx_obj_desc_strncmp_delim\<close> takes for equal, in full: the parts before the
  delimiter agree, or one of them is a prefix of the other and is followed by the delimiter.
  The second case lets a longer name that only begins the same way pass for equal.\<close>

theorem strncmp_delim_correct:
  assumes "unat sz \<le> length dst" "unat sz \<le> length src"
  shows "tivx_obj_desc_strncmp_delim dst src sz delim = 0 \<longleftrightarrow>
     (let a = c_cut delim (unat sz) dst; b = c_cut delim (unat sz) src in
      a = b
      \<or> (prefix a b \<and> length a < unat sz \<and> dst ! length a = delim)
      \<or> (prefix b a \<and> length b < unat sz \<and> src ! length b = delim))"
  using strncmp_delim_loop_eq [of 0 "unat sz" dst src delim] assms
  by (simp add: tivx_obj_desc_strncmp_delim_def)

theorem strncmp_delim_correct_witness:
  "tivx_obj_desc_strncmp_delim [97, 98, 58] [97, 98, 0] 3 58 = 0"
  using strncmp_delim_correct [of 3 "[97, 98, 58]" "[97, 98, 0]" 58] by (simp add: c_cut_def)

text \<open>\<open>ab:\<close> and \<open>abX\<close> compare equal with the delimiter \<open>:\<close> although neither name is the other.\<close>

lemma strncmp_delim_prefix_confusion:
  "tivx_obj_desc_strncmp_delim [97, 98, 58, 0] [97, 98, 88, 0] 4 58 = 0
   \<and> c_cut 58 4 [97, 98, 58, 0] \<noteq> c_cut 58 4 [97, 98, 88, 0]"
  by code_simp

end
