(* ===== verification/Obj_Desc_Queue.thy ===== *)
theory Obj_Desc_Queue
  imports Bounded_Fifo Obj_Desc
begin

text \<open>
  The queues of object descriptors that live in shared memory, with the list of nodes that are
  blocked on the queue: \<open>source/framework/vx_obj_desc_queue.c\<close>. An operation names the queue by
  its descriptor id, looks it up in the table and checks its type. The second implementation
  of the contract \<open>bounded_fifo\<close>, of depth 32.
\<close>

section \<open>Access to a queue of the table\<close>

text \<open>The test that every operation starts with.\<close>

definition queue_at :: "tivx_obj_desc_table_info \<Rightarrow> uint16 \<Rightarrow> nat option" where
  "queue_at t qid = (case ownObjDescGet t qid of None \<Rightarrow> None
     | Some i \<Rightarrow> if od_type (desc_at t i) = TIVX_OBJ_DESC_QUEUE then Some i else None)"

abbreviation (input) queue_of :: "tivx_obj_desc_table_info \<Rightarrow> nat \<Rightarrow> tivx_obj_desc_queue" where
  "queue_of t i \<equiv> the_queue (od_body (desc_at t i))"

definition upd_queue ::
  "nat \<Rightarrow> (tivx_obj_desc_queue \<Rightarrow> tivx_obj_desc_queue) \<Rightarrow> tivx_obj_desc_table_info \<Rightarrow>
   tivx_obj_desc_table_info" where
  "upd_queue i f t = upd_desc i (\<lambda>d. d\<lparr>od_body := B_Queue (f (the_queue (od_body d)))\<rparr>) t"

section \<open>Operations\<close>

definition ownObjDescQueueReset :: "tivx_obj_desc_queue \<Rightarrow> tivx_obj_desc_queue" where
  "ownObjDescQueueReset q = q\<lparr>odq_cur_rd := 0, odq_cur_wr := 0, odq_count := 0,
     odq_blocked_nodes := (odq_blocked_nodes q)\<lparr>bn_num_nodes := 0\<rparr>\<rparr>"

definition ownObjDescQueueCreate ::
  "platform_ids \<Rightarrow> tivx_obj_desc_table_info \<Rightarrow> tivx_obj_desc_table_info \<times> uint16 \<times> vx_status"
where
  "ownObjDescQueueCreate pf t =
     (case ownObjDescAlloc pf t TIVX_OBJ_DESC_QUEUE 0 of
        (t1, None) \<Rightarrow> (t1, TIVX_OBJ_DESC_INVALID, VX_FAILURE)
      | (t1, Some i) \<Rightarrow>
          (upd_queue i ownObjDescQueueReset t1, od_obj_desc_id (desc_at t1 i), VX_SUCCESS))"

definition ownObjDescQueueRelease ::
  "tivx_obj_desc_table_info \<Rightarrow> uint16 \<Rightarrow> tivx_obj_desc_table_info \<times> uint16 \<times> vx_status" where
  "ownObjDescQueueRelease t obj_desc_id =
     (if obj_desc_id \<noteq> TIVX_OBJ_DESC_INVALID then
        (case queue_at t obj_desc_id of
           None \<Rightarrow> (t, obj_desc_id, VX_FAILURE)
         | Some i \<Rightarrow>
             (case ownObjDescFree t (Some i) of
                (t1, _, s) \<Rightarrow>
                  if s = VX_SUCCESS then (t1, TIVX_OBJ_DESC_INVALID, VX_SUCCESS)
                  else (t1, obj_desc_id, VX_FAILURE)))
      else (t, obj_desc_id, VX_FAILURE))"

text \<open>The index arithmetic is done in 32 bits and stored in 16; as 32 divides \<open>2 ^ 16\<close> the 16-bit
  sum has the same remainder.\<close>

definition enqueue_elem :: "uint16 \<Rightarrow> tivx_obj_desc_queue \<Rightarrow> tivx_obj_desc_queue" where
  "enqueue_elem obj_desc_id q =
     q\<lparr>odq_queue_mem := (odq_queue_mem q)[unat (odq_cur_wr q) := obj_desc_id],
       odq_cur_wr := (odq_cur_wr q + 1) mod TIVX_OBJ_DESC_QUEUE_MAX_DEPTH,
       odq_count := odq_count q + 1\<rparr>"

definition ownObjDescQueueEnqueue ::
  "tivx_obj_desc_table_info \<Rightarrow> uint16 \<Rightarrow> uint16 \<Rightarrow> tivx_obj_desc_table_info \<times> vx_status" where
  "ownObjDescQueueEnqueue t obj_desc_q_id obj_desc_id =
     (case queue_at t obj_desc_q_id of
        None \<Rightarrow> (t, VX_FAILURE)
      | Some i \<Rightarrow>
          if odq_count (queue_of t i) < TIVX_OBJ_DESC_QUEUE_MAX_DEPTH
          then (upd_queue i (enqueue_elem obj_desc_id) t, VX_SUCCESS)
          else (t, VX_FAILURE))"

definition ownObjDescQueueGetCount ::
  "tivx_obj_desc_table_info \<Rightarrow> uint16 \<Rightarrow> uint32 option \<times> vx_status" where
  "ownObjDescQueueGetCount t obj_desc_q_id =
     (case queue_at t obj_desc_q_id of
        None \<Rightarrow> (None, VX_FAILURE)
      | Some i \<Rightarrow> (Some (ucast (odq_count (queue_of t i))), VX_SUCCESS))"

definition dequeue_elem :: "tivx_obj_desc_queue \<Rightarrow> tivx_obj_desc_queue" where
  "dequeue_elem q = q\<lparr>odq_cur_rd := (odq_cur_rd q + 1) mod TIVX_OBJ_DESC_QUEUE_MAX_DEPTH,
     odq_count := odq_count q - 1\<rparr>"

definition ownObjDescQueueDequeue ::
  "tivx_obj_desc_table_info \<Rightarrow> uint16 \<Rightarrow> tivx_obj_desc_table_info \<times> uint16 \<times> vx_status" where
  "ownObjDescQueueDequeue t obj_desc_q_id =
     (case queue_at t obj_desc_q_id of
        None \<Rightarrow> (t, TIVX_OBJ_DESC_INVALID, VX_FAILURE)
      | Some i \<Rightarrow>
          (let q = queue_of t i in
           if odq_count q > 0
           then (upd_queue i dequeue_elem t, odq_queue_mem q ! unat (odq_cur_rd q), VX_SUCCESS)
           else (t, TIVX_OBJ_DESC_INVALID, VX_FAILURE)))"

definition add_blocked :: "uint16 \<Rightarrow> tivx_obj_desc_queue \<Rightarrow> tivx_obj_desc_queue" where
  "add_blocked node_id q =
     (let b = odq_blocked_nodes q in
      q\<lparr>odq_blocked_nodes := b\<lparr>bn_node_id := (bn_node_id b)[unat (bn_num_nodes b) := node_id],
                               bn_num_nodes := bn_num_nodes b + 1\<rparr>\<rparr>)"

definition ownObjDescQueueAddBlockedNode ::
  "tivx_obj_desc_table_info \<Rightarrow> uint16 \<Rightarrow> uint16 \<Rightarrow> tivx_obj_desc_table_info \<times> vx_status" where
  "ownObjDescQueueAddBlockedNode t obj_desc_q_id node_id =
     (case queue_at t obj_desc_q_id of
        None \<Rightarrow> (t, VX_FAILURE)
      | Some i \<Rightarrow>
          if bn_num_nodes (odq_blocked_nodes (queue_of t i))
             < TIVX_OBJ_DESC_QUEUE_MAX_BLOCKED_NODES
          then (upd_queue i (add_blocked node_id) t, VX_SUCCESS)
          else (t, VX_FAILURE))"

text \<open>A write into the caller's array of eight node ids. The code does not check the index: a list
  that grows beyond eight entries is a write past the end of that array.\<close>

definition write_at :: "nat \<Rightarrow> 'a \<Rightarrow> 'a list \<Rightarrow> 'a list" where
  "write_at i x xs = (if i < length xs then xs[i := x]
     else xs @ replicate (i - length xs) x @ [x])"

fun extract_loop ::
  "nat \<Rightarrow> nat \<Rightarrow> tivx_obj_desc_queue_blocked_nodes \<Rightarrow> tivx_obj_desc_queue_blocked_nodes \<Rightarrow>
   tivx_obj_desc_queue_blocked_nodes" where
  "extract_loop 0 k b out = out"
| "extract_loop (Suc n) k b out =
     extract_loop n (Suc k) b
       (out\<lparr>bn_node_id := write_at (unat (bn_num_nodes out) + k) (bn_node_id b ! k)
                            (bn_node_id out)\<rparr>)"

definition ownObjDescQueueExtractBlockedNodes ::
  "tivx_obj_desc_table_info \<Rightarrow> uint16 \<Rightarrow> tivx_obj_desc_queue_blocked_nodes \<Rightarrow>
   tivx_obj_desc_table_info \<times> tivx_obj_desc_queue_blocked_nodes \<times> vx_status" where
  "ownObjDescQueueExtractBlockedNodes t obj_desc_q_id out =
     (case queue_at t obj_desc_q_id of
        None \<Rightarrow> (t, out, VX_FAILURE)
      | Some i \<Rightarrow>
          (let b = odq_blocked_nodes (queue_of t i);
               out1 = extract_loop (unat (bn_num_nodes b)) 0 b out
           in (upd_queue i (\<lambda>q. q\<lparr>odq_blocked_nodes :=
                     (odq_blocked_nodes q)\<lparr>bn_num_nodes := 0\<rparr>\<rparr>) t,
               out1\<lparr>bn_num_nodes := bn_num_nodes out1 + bn_num_nodes b\<rparr>, VX_SUCCESS)))"

section \<open>Invariant and abstraction\<close>

definition odq_ok :: "tivx_obj_desc_queue \<Rightarrow> bool" where
  "odq_ok q \<longleftrightarrow> length (odq_queue_mem q) = TIVX_OBJ_DESC_QUEUE_MAX_DEPTH
     \<and> odq_count q \<le> TIVX_OBJ_DESC_QUEUE_MAX_DEPTH
     \<and> odq_cur_rd q < TIVX_OBJ_DESC_QUEUE_MAX_DEPTH
     \<and> unat (odq_cur_wr q)
       = (unat (odq_cur_rd q) + unat (odq_count q)) mod TIVX_OBJ_DESC_QUEUE_MAX_DEPTH
     \<and> length (bn_node_id (odq_blocked_nodes q)) = TIVX_OBJ_DESC_QUEUE_MAX_BLOCKED_NODES
     \<and> bn_num_nodes (odq_blocked_nodes q) \<le> TIVX_OBJ_DESC_QUEUE_MAX_BLOCKED_NODES"

definition odq_list :: "tivx_obj_desc_queue \<Rightarrow> uint16 list" where
  "odq_list q = ring_list (odq_queue_mem q) (unat (odq_cur_rd q)) (unat (odq_count q))"

definition odq_blocked_list :: "tivx_obj_desc_queue \<Rightarrow> uint16 list" where
  "odq_blocked_list q =
     take (unat (bn_num_nodes (odq_blocked_nodes q))) (bn_node_id (odq_blocked_nodes q))"

definition odq_inv :: "uint16 \<Rightarrow> tivx_obj_desc_table_info \<Rightarrow> bool" where
  "odq_inv qid t \<longleftrightarrow> (\<exists>i q. queue_at t qid = Some i \<and> od_body (desc_at t i) = B_Queue q \<and> odq_ok q)"

definition odq_elems :: "uint16 \<Rightarrow> tivx_obj_desc_table_info \<Rightarrow> uint16 list" where
  "odq_elems qid t = odq_list (queue_of t (unat qid))"

definition odq_blocked :: "uint16 \<Rightarrow> tivx_obj_desc_table_info \<Rightarrow> uint16 list" where
  "odq_blocked qid t = odq_blocked_list (queue_of t (unat qid))"

lemma length_odq_list: "length (odq_list q) = unat (odq_count q)"
  by (simp add: odq_list_def)

lemma enqueue_elem_refines:
  assumes "odq_ok q" "odq_count q < TIVX_OBJ_DESC_QUEUE_MAX_DEPTH"
  shows "odq_ok (enqueue_elem x q)" "odq_list (enqueue_elem x q) = odq_list q @ [x]"
    "odq_blocked_list (enqueue_elem x q) = odq_blocked_list q"
proof -
  have wr: "unat (odq_cur_wr q) = (unat (odq_cur_rd q) + unat (odq_count q)) mod 32"
    and len: "length (odq_queue_mem q) = 32"
    using assms(1) by (auto simp: odq_ok_def)
  have lt: "unat (odq_count q) < 32" using assms(2) by (simp add: word_less_nat_alt)
  have wr_lt: "odq_cur_wr q < 32" using wr by (simp add: word_less_nat_alt)
  have cnt: "unat (odq_count q + 1) = unat (odq_count q) + 1"
    using unat_inc_below [OF assms(2)] .
  have wr': "unat ((odq_cur_wr q + 1) mod 32) = (unat (odq_cur_rd q) + unat (odq_count q + 1)) mod 32"
    using unat_ring_next [OF wr_lt] wr cnt by (simp add: mod_Suc_eq)
  show "odq_ok (enqueue_elem x q)"
    using assms(1) wr' cnt lt by (auto simp: odq_ok_def enqueue_elem_def word_le_nat_alt)
  show "odq_list (enqueue_elem x q) = odq_list q @ [x]"
    using ring_list_snoc [of "unat (odq_count q)" "odq_queue_mem q" "unat (odq_cur_rd q)" x]
      wr cnt lt len
    by (simp add: odq_list_def enqueue_elem_def)
  show "odq_blocked_list (enqueue_elem x q) = odq_blocked_list q"
    by (simp add: odq_blocked_list_def enqueue_elem_def)
qed

lemma dequeue_elem_refines:
  assumes "odq_ok q" "0 < odq_count q"
  shows "odq_ok (dequeue_elem q)"
    "odq_list q = odq_queue_mem q ! unat (odq_cur_rd q) # odq_list (dequeue_elem q)"
    "odq_blocked_list (dequeue_elem q) = odq_blocked_list q"
proof -
  have wr: "unat (odq_cur_wr q) = (unat (odq_cur_rd q) + unat (odq_count q)) mod 32"
    and rd: "odq_cur_rd q < 32" and le: "unat (odq_count q) \<le> 32"
    and len: "length (odq_queue_mem q) = 32"
    using assms(1) by (auto simp: odq_ok_def word_le_nat_alt)
  have cnt: "unat (odq_count q - 1) = unat (odq_count q) - 1" and pos: "0 < unat (odq_count q)"
    using unat_dec_pos [OF assms(2)] assms(2) by (auto simp: word_less_nat_alt)
  have rd': "unat ((odq_cur_rd q + 1) mod 32) = (unat (odq_cur_rd q) + 1) mod 32"
    using unat_ring_next [OF rd] by simp
  have "unat (odq_cur_wr q) = (unat ((odq_cur_rd q + 1) mod 32) + unat (odq_count q - 1)) mod 32"
    unfolding rd' cnt wr mod_add_left_eq
    using pos by (intro arg_cong [where f = "\<lambda>k. k mod _"]) simp
  moreover have "(odq_cur_rd q + 1) mod 32 < 32"
    by (simp add: word_less_nat_alt unat_mod)
  ultimately show "odq_ok (dequeue_elem q)"
    using assms(1) cnt le by (auto simp: odq_ok_def dequeue_elem_def word_le_nat_alt)
  show "odq_list q = odq_queue_mem q ! unat (odq_cur_rd q) # odq_list (dequeue_elem q)"
    using ring_list_Cons [of "unat (odq_count q)" "unat (odq_cur_rd q)" "odq_queue_mem q"]
      rd rd' cnt pos len
    by (simp add: odq_list_def dequeue_elem_def word_less_nat_alt)
  show "odq_blocked_list (dequeue_elem q) = odq_blocked_list q"
    by (simp add: odq_blocked_list_def dequeue_elem_def)
qed

section \<open>Frame lemmas\<close>

lemma queue_at_some:
  "queue_at t qid = Some i \<longleftrightarrow>
   i = unat qid \<and> i < num_entries t \<and> od_type (desc_at t i) = TIVX_OBJ_DESC_QUEUE"
  by (auto simp: queue_at_def ownObjDescGet_def)

lemma upd_queue_simps [simp]:
  "num_entries (upd_queue i f t) = num_entries t"
  "odt_last_alloc_index (upd_queue i f t) = odt_last_alloc_index t"
  "ownObjDescGet (upd_queue i f t) = ownObjDescGet t"
  "j < num_entries t \<Longrightarrow> j \<noteq> i \<Longrightarrow> desc_at (upd_queue i f t) j = desc_at t j"
  "i < num_entries t \<Longrightarrow> desc_at (upd_queue i f t) i =
     (desc_at t i)\<lparr>od_body := B_Queue (f (queue_of t i))\<rparr>"
  by (simp_all add: upd_queue_def)

lemma upd_queue_type [simp]:
  "j < num_entries t \<Longrightarrow> od_type (desc_at (upd_queue i f t) j) = od_type (desc_at t j)"
  "j < num_entries t \<Longrightarrow>
     od_obj_desc_id (desc_at (upd_queue i f t) j) = od_obj_desc_id (desc_at t j)"
  by (cases "j = i"; simp)+

lemma upd_queue_at [simp]: "queue_at (upd_queue i f t) qid = queue_at t qid"
  by (auto simp: queue_at_def ownObjDescGet_def)

lemma upd_queue_wf:
  "table_wf t \<Longrightarrow> queue_at t qid = Some i \<Longrightarrow> table_wf (upd_queue i f t)"
  unfolding upd_queue_def
  by (rule table_wf_upd) (auto simp: queue_at_some table_wf_def body_ok_def)

lemma odq_inv_at:
  "odq_inv qid t \<longleftrightarrow> (\<exists>q. queue_at t qid = Some (unat qid)
     \<and> od_body (desc_at t (unat qid)) = B_Queue q \<and> odq_ok q)"
  by (auto simp: odq_inv_def queue_at_some)

lemma odq_inv_queue:
  assumes "odq_inv qid t"
  shows "queue_at t qid = Some (unat qid)" "odq_ok (queue_of t (unat qid))"
    "unat qid < num_entries t"
  using assms by (auto simp: odq_inv_def queue_at_some)

lemma upd_queue_same:
  assumes "odq_inv qid t" "odq_ok (f (queue_of t (unat qid)))"
  shows "odq_inv qid (upd_queue (unat qid) f t)"
    "odq_elems qid (upd_queue (unat qid) f t) = odq_list (f (queue_of t (unat qid)))"
    "odq_blocked qid (upd_queue (unat qid) f t) = odq_blocked_list (f (queue_of t (unat qid)))"
  using assms odq_inv_queue [OF assms(1)] by (auto simp: odq_inv_at odq_elems_def odq_blocked_def)

lemma upd_queue_other:
  assumes "q2 \<noteq> unat qid"
  shows "odq_inv qid (upd_queue q2 f t) = odq_inv qid t"
    "unat qid < num_entries t \<Longrightarrow> odq_elems qid (upd_queue q2 f t) = odq_elems qid t"
    "unat qid < num_entries t \<Longrightarrow> odq_blocked qid (upd_queue q2 f t) = odq_blocked qid t"
  using assms
  by (auto simp: odq_inv_at odq_elems_def odq_blocked_def queue_at_some)

section \<open>The descriptor queue is a bounded FIFO\<close>

definition odq_get ::
  "uint16 \<Rightarrow> tivx_obj_desc_table_info \<Rightarrow> tivx_obj_desc_table_info \<times> uint16 option \<times> vx_status"
where
  "odq_get qid t = (case ownObjDescQueueDequeue t qid of
     (t', x, s) \<Rightarrow> (t', if s = VX_SUCCESS then Some x else None, s))"

definition odq_cap :: "tivx_obj_desc_table_info \<Rightarrow> nat" where
  "odq_cap t = TIVX_OBJ_DESC_QUEUE_MAX_DEPTH"

lemma odq_count:
  "length (odq_elems qid t) = unat (odq_count (queue_of t (unat qid)))"
  by (simp add: odq_elems_def length_odq_list)

interpretation odq: bounded_fifo "odq_inv qid" "odq_elems qid" odq_cap
    "\<lambda>t x. ownObjDescQueueEnqueue t qid x" "odq_get qid"
  for qid :: uint16
proof unfold_locales
  fix t :: tivx_obj_desc_table_info and x :: uint16
  assume inv: "odq_inv qid t"
  note q = odq_inv_queue [OF inv]
  let ?q = "queue_of t (unat qid)"
  show "length (odq_elems qid t) \<le> odq_cap t"
    using q(2) by (simp add: odq_count odq_cap_def odq_ok_def word_le_nat_alt)
  show "\<exists>t'. ownObjDescQueueEnqueue t qid x = (t', VX_SUCCESS) \<and> odq_inv qid t' \<and>
      odq_elems qid t' = odq_elems qid t @ [x] \<and> odq_cap t' = odq_cap t"
    if "length (odq_elems qid t) < odq_cap t"
  proof -
    have lt: "odq_count ?q < TIVX_OBJ_DESC_QUEUE_MAX_DEPTH"
      using that by (simp add: odq_count odq_cap_def word_less_nat_alt)
    then show ?thesis
      using upd_queue_same [OF inv, of "enqueue_elem x"] enqueue_elem_refines [OF q(2) lt] q(1)
      by (simp add: ownObjDescQueueEnqueue_def odq_cap_def odq_elems_def)
  qed
  show "ownObjDescQueueEnqueue t qid x = (t, VX_FAILURE)"
    if "length (odq_elems qid t) = odq_cap t"
    using that q(1)
    by (simp add: ownObjDescQueueEnqueue_def odq_count odq_cap_def word_less_nat_alt)
  show "\<exists>t'. odq_get qid t = (t', Some x, VX_SUCCESS) \<and> odq_inv qid t' \<and>
      odq_elems qid t' = xs \<and> odq_cap t' = odq_cap t" if "odq_elems qid t = x # xs" for xs
  proof -
    have pos: "0 < odq_count ?q"
      using that odq_count [of qid t] by (auto simp: word_less_nat_alt)
    then show ?thesis
      using upd_queue_same [OF inv, of dequeue_elem] dequeue_elem_refines [OF q(2) pos] q(1) that
      by (simp add: odq_get_def ownObjDescQueueDequeue_def Let_def odq_cap_def odq_elems_def)
  qed
  show "odq_get qid t = (t, None, VX_FAILURE)" if "odq_elems qid t = []"
  proof -
    have "odq_count ?q = 0" using that odq_count [of qid t] by (simp add: unat_eq_0)
    then show ?thesis using q(1) by (simp add: odq_get_def ownObjDescQueueDequeue_def Let_def)
  qed
qed

section \<open>Blocked nodes\<close>

lemma write_at_eq: "i \<le> length xs \<Longrightarrow> write_at i x xs = take i xs @ [x] @ drop (Suc i) xs"
  by (auto simp: write_at_def upd_conv_take_nth_drop)

lemma extract_loop_eq:
  "\<lbrakk>unat (bn_num_nodes out) + k \<le> length (bn_node_id out); k + n \<le> length (bn_node_id b)\<rbrakk> \<Longrightarrow>
   extract_loop n k b out = out\<lparr>bn_node_id :=
     take (unat (bn_num_nodes out) + k) (bn_node_id out) @ take n (drop k (bn_node_id b))
     @ drop (unat (bn_num_nodes out) + k + n) (bn_node_id out)\<rparr>"
proof (induction n arbitrary: k out)
  case 0
  then show ?case by simp
next
  case (Suc n)
  let ?m = "unat (bn_num_nodes out)"
  let ?out = "out\<lparr>bn_node_id := write_at (?m + k) (bn_node_id b ! k) (bn_node_id out)\<rparr>"
  have w: "bn_node_id ?out = take (?m + k) (bn_node_id out) @ [bn_node_id b ! k]
      @ drop (Suc (?m + k)) (bn_node_id out)"
    using write_at_eq Suc.prems(1) by simp
  then have "?m + Suc k \<le> length (bn_node_id ?out)" using Suc.prems(1) by simp
  then have "extract_loop n (Suc k) b ?out = ?out\<lparr>bn_node_id :=
      take (?m + Suc k) (bn_node_id ?out) @ take n (drop (Suc k) (bn_node_id b))
      @ drop (?m + Suc k + n) (bn_node_id ?out)\<rparr>"
    using Suc.IH [of ?out "Suc k"] Suc.prems(2) by simp
  moreover have "take (Suc n) (drop k (bn_node_id b))
      = bn_node_id b ! k # take n (drop (Suc k) (bn_node_id b))"
    using Suc.prems(2) by (simp add: Cons_nth_drop_Suc [symmetric])
  ultimately show ?case using w Suc.prems(1) by (simp add: min_def ac_simps)
qed

lemma extract_loop_num [simp]: "bn_num_nodes (extract_loop n k b out) = bn_num_nodes out"
  by (induction n arbitrary: k out) auto

definition bn_list :: "tivx_obj_desc_queue_blocked_nodes \<Rightarrow> uint16 list" where
  "bn_list b = take (unat (bn_num_nodes b)) (bn_node_id b)"

definition bn_ok :: "tivx_obj_desc_queue_blocked_nodes \<Rightarrow> bool" where
  "bn_ok b \<longleftrightarrow> unat (bn_num_nodes b) \<le> length (bn_node_id b)
     \<and> TIVX_OBJ_DESC_QUEUE_MAX_BLOCKED_NODES \<le> length (bn_node_id b)
     \<and> length (bn_node_id b) \<le> 1024"

lemma extract_blocked:
  assumes "odq_inv qid t" "bn_ok out"
  shows "\<exists>t' out'. ownObjDescQueueExtractBlockedNodes t qid out = (t', out', VX_SUCCESS)
    \<and> odq_inv qid t' \<and> odq_elems qid t' = odq_elems qid t \<and> odq_blocked qid t' = []
    \<and> bn_list out' = bn_list out @ odq_blocked qid t
    \<and> length (bn_node_id out')
      = max (length (bn_node_id out)) (length (bn_list out) + length (odq_blocked qid t))"
proof -
  note q = odq_inv_queue [OF assms(1)]
  let ?b = "odq_blocked_nodes (queue_of t (unat qid))"
  let ?n = "unat (bn_num_nodes ?b)" and ?m = "unat (bn_num_nodes out)"
  let ?f = "\<lambda>q. q\<lparr>odq_blocked_nodes := (odq_blocked_nodes q)\<lparr>bn_num_nodes := 0\<rparr>\<rparr>"
  have n: "?n \<le> 8" "length (bn_node_id ?b) = 8"
    using q(2) by (auto simp: odq_ok_def word_le_nat_alt)
  have m: "?m \<le> length (bn_node_id out)" "?m \<le> 1024" "8 \<le> length (bn_node_id out)"
    using assms(2) by (auto simp: bn_ok_def)
  have sum: "unat (bn_num_nodes out + bn_num_nodes ?b) = ?m + ?n"
    using n(1) m(2) by (simp add: unat_word_ariths)
  have loop: "extract_loop ?n 0 ?b out = out\<lparr>bn_node_id :=
      take ?m (bn_node_id out) @ take ?n (bn_node_id ?b) @ drop (?m + ?n) (bn_node_id out)\<rparr>"
    using extract_loop_eq [of out 0 ?n ?b] n m by simp
  have f: "odq_ok (?f (queue_of t (unat qid)))"
    using q(2) by (simp add: odq_ok_def)
  have run: "ownObjDescQueueExtractBlockedNodes t qid out = (upd_queue (unat qid) ?f t,
      out\<lparr>bn_node_id := take ?m (bn_node_id out) @ take ?n (bn_node_id ?b)
          @ drop (?m + ?n) (bn_node_id out),
        bn_num_nodes := bn_num_nodes out + bn_num_nodes ?b\<rparr>, VX_SUCCESS)"
    using q(1) loop by (simp add: ownObjDescQueueExtractBlockedNodes_def Let_def)
  show ?thesis
    unfolding run using upd_queue_same [OF assms(1), of ?f] f n m sum
    by (simp add: odq_elems_def odq_list_def odq_blocked_def odq_blocked_list_def bn_list_def)
qed

lemma add_blocked_node:
  assumes "odq_inv qid t"
  shows "if length (odq_blocked qid t) < TIVX_OBJ_DESC_QUEUE_MAX_BLOCKED_NODES
    then (\<exists>t'. ownObjDescQueueAddBlockedNode t qid node = (t', VX_SUCCESS) \<and> odq_inv qid t'
      \<and> odq_elems qid t' = odq_elems qid t \<and> odq_blocked qid t' = odq_blocked qid t @ [node])
    else ownObjDescQueueAddBlockedNode t qid node = (t, VX_FAILURE)"
proof -
  note q = odq_inv_queue [OF assms]
  let ?q = "queue_of t (unat qid)"
  let ?b = "odq_blocked_nodes ?q"
  have n: "unat (bn_num_nodes ?b) \<le> 8" "length (bn_node_id ?b) = 8"
    using q(2) by (auto simp: odq_ok_def word_le_nat_alt)
  then have len: "length (odq_blocked qid t) = unat (bn_num_nodes ?b)"
    by (simp add: odq_blocked_def odq_blocked_list_def)
  show ?thesis
  proof (cases "bn_num_nodes ?b < 8")
    case True
    have inc: "unat (bn_num_nodes ?b + 1) = unat (bn_num_nodes ?b) + 1"
      using unat_inc_below [OF True] .
    have lt: "unat (bn_num_nodes ?b) < 8" using True by (simp add: word_less_nat_alt)
    have "odq_ok (add_blocked node ?q)"
      using q(2) inc lt by (auto simp: odq_ok_def add_blocked_def Let_def word_le_nat_alt)
    moreover have "odq_blocked_list (add_blocked node ?q) = odq_blocked_list ?q @ [node]"
      using inc lt n(2)
      by (simp add: odq_blocked_list_def add_blocked_def Let_def take_Suc_conv_app_nth)
    moreover have "odq_list (add_blocked node ?q) = odq_list ?q"
      by (simp add: odq_list_def add_blocked_def Let_def)
    ultimately show ?thesis
      using upd_queue_same [OF assms, of "add_blocked node"] q(1) True len lt
      by (simp add: ownObjDescQueueAddBlockedNode_def odq_elems_def odq_blocked_def)
  next
    case False
    with q(1) len show ?thesis
      by (simp add: ownObjDescQueueAddBlockedNode_def word_less_nat_alt)
  qed
qed

section \<open>Other descriptors are left alone\<close>

lemma enqueue_frame:
  assumes "ownObjDescQueueEnqueue t qid x = (t', s)"
  shows "num_entries t' = num_entries t"
    "j < num_entries t \<Longrightarrow> j \<noteq> unat qid \<Longrightarrow> desc_at t' j = desc_at t j"
  using assms
  by (auto simp: ownObjDescQueueEnqueue_def queue_at_some split: option.splits if_splits)

lemma dequeue_frame:
  assumes "ownObjDescQueueDequeue t qid = (t', x, s)"
  shows "num_entries t' = num_entries t"
    "j < num_entries t \<Longrightarrow> j \<noteq> unat qid \<Longrightarrow> desc_at t' j = desc_at t j"
  using assms
  by (auto simp: ownObjDescQueueDequeue_def Let_def queue_at_some split: option.splits if_splits)

lemma exec_frame:
  "fifo_exec (\<lambda>t x. ownObjDescQueueEnqueue t qid x) (odq_get qid) t ps = (t', rs) \<Longrightarrow>
   num_entries t' = num_entries t
   \<and> (\<forall>j < num_entries t. j \<noteq> unat qid \<longrightarrow> desc_at t' j = desc_at t j)"
proof (induction ps arbitrary: t rs)
  case Nil
  then show ?case by simp
next
  case (Cons p ps)
  show ?case
  proof (cases p)
    case (Put x)
    obtain t1 s where "ownObjDescQueueEnqueue t qid x = (t1, s)" by fastforce
    with Cons Put enqueue_frame [OF this] show ?thesis
      by (auto split: prod.splits)
  next
    case Get
    obtain t1 x s where d: "ownObjDescQueueDequeue t qid = (t1, x, s)" by (metis prod_cases3)
    then have "odq_get qid t = (t1, if s = VX_SUCCESS then Some x else None, s)"
      by (simp add: odq_get_def)
    with Cons Get dequeue_frame [OF d] show ?thesis
      by (auto split: prod.splits)
  qed
qed

section \<open>Creation\<close>

lemma zero_queue_ok: "odq_ok (ownObjDescQueueReset zero_queue)"
  "odq_list (ownObjDescQueueReset zero_queue) = []"
  "odq_blocked_list (ownObjDescQueueReset zero_queue) = []"
  by (simp_all add: odq_ok_def odq_list_def odq_blocked_list_def ownObjDescQueueReset_def
      zero_queue_def)

lemma queue_create:
  assumes wf: "table_wf t"
    and run: "ownObjDescQueueCreate pf t = (t', qid, s)"
  shows "(s = VX_SUCCESS \<and> table_wf t' \<and> odq_inv qid t' \<and> odq_elems qid t' = []
      \<and> odq_blocked qid t' = [] \<and> od_type (desc_at t (unat qid)) = TIVX_OBJ_DESC_INVALID
      \<and> num_entries t' = num_entries t
      \<and> (\<forall>j < num_entries t. j \<noteq> unat qid \<longrightarrow> desc_at t' j = desc_at t j))
    \<or> (s = VX_FAILURE \<and> t' = t \<and> qid = TIVX_OBJ_DESC_INVALID
      \<and> (\<forall>j < num_entries t. od_type (desc_at t j) \<noteq> TIVX_OBJ_DESC_INVALID))"
proof -
  obtain t1 r where alloc: "ownObjDescAlloc pf t TIVX_OBJ_DESC_QUEUE 0 = (t1, r)" by fastforce
  note a = alloc_desc [OF wf _ alloc]
  show ?thesis
  proof (cases r)
    case None
    with a run alloc show ?thesis by (auto simp: ownObjDescQueueCreate_def)
  next
    case (Some i)
    with a have i: "i < num_entries t" "od_type (desc_at t i) = TIVX_OBJ_DESC_INVALID"
      "odt_table_base t1 = (odt_table_base t)[i := init_desc pf i TIVX_OBJ_DESC_QUEUE 0]"
      "ownObjDescGet t1 (od_obj_desc_id (desc_at t1 i)) = Some i" "table_wf t1" by auto
    let ?t = "upd_queue i ownObjDescQueueReset t1"
    have res: "t' = ?t" "qid = od_obj_desc_id (desc_at t1 i)" "s = VX_SUCCESS"
      using run alloc Some by (auto simp: ownObjDescQueueCreate_def)
    have u: "unat qid = i" using i(4) res(2) by (simp add: get_some)
    have at: "queue_at t1 qid = Some i"
      using i(1,3,4) res(2) by (simp add: queue_at_def)
    have inv: "odq_inv qid ?t"
      using at u zero_queue_ok(1) i(1,3)
      by (auto simp: odq_inv_at zero_body_def)
    moreover have "odq_elems qid ?t = []" "odq_blocked qid ?t = []"
      using u i(1,3) zero_queue_ok(2,3)
      by (auto simp: odq_elems_def odq_blocked_def zero_body_def)
    moreover have "desc_at ?t j = desc_at t j" if "j < num_entries t" "j \<noteq> i" for j
      using that i(1,3) by simp
    ultimately show ?thesis
      using upd_queue_wf [OF i(5) at] res u i by auto
  qed
qed

section \<open>Correctness properties\<close>

definition sample_q_create :: "tivx_obj_desc_table_info \<times> uint16 \<times> vx_status" where
  "sample_q_create = ownObjDescQueueCreate sample_ids sample_table"

definition sample_q :: tivx_obj_desc_table_info where
  "sample_q = fst sample_q_create"

lemma sample_q_facts:
  "ownObjDescQueueCreate sample_ids sample_table = (sample_q, 0, VX_SUCCESS)"
  "odq_inv 0 sample_q" "odq_elems 0 sample_q = []" "odq_blocked 0 sample_q = []"
  "num_entries sample_q = 3"
proof -
  obtain t' qid s where run: "ownObjDescQueueCreate sample_ids sample_table = (t', qid, s)"
    by (metis prod_cases3)
  have "alloc_search (num_entries sample_table) (odt_last_alloc_index sample_table)
      (odt_table_base sample_table) = Some 0"
    by (simp add: sample_table_def free_desc_def)
  then have alloc: "ownObjDescAlloc sample_ids sample_table TIVX_OBJ_DESC_QUEUE 0
    = (sample_table\<lparr>odt_table_base := (odt_table_base sample_table)
         [0 := init_desc sample_ids 0 TIVX_OBJ_DESC_QUEUE 0],
       odt_last_alloc_index := (0 + 1) mod num_entries sample_table\<rparr>, Some 0)"
    by (simp add: ownObjDescAlloc_def)
  have sq: "qid = 0 \<and> s = VX_SUCCESS"
    using run unfolding ownObjDescQueueCreate_def alloc by (auto simp: sample_table_def)
  then have "sample_q = t'" using run by (simp add: sample_q_def sample_q_create_def)
  then show "ownObjDescQueueCreate sample_ids sample_table = (sample_q, 0, VX_SUCCESS)"
    using run sq by simp
  from queue_create [OF sample_table_wf run] sq \<open>sample_q = t'\<close>
  show "odq_inv 0 sample_q" "odq_elems 0 sample_q = []" "odq_blocked 0 sample_q = []"
    "num_entries sample_q = 3"
    by (auto simp: sample_table_def)
qed

text \<open>C20: every run of enqueues and dequeues on a queue in shared memory behaves as a list of at
  most 32 ids used first in, first out, with nothing lost or invented, and changes no other
  descriptor of the table.\<close>

theorem objDescQueue_fifo:
  assumes "odq_inv qid t"
    and "fifo_exec (\<lambda>t x. ownObjDescQueueEnqueue t qid x) (odq_get qid) t ps = (t', rs)"
  shows "odq_inv qid t' \<and> fifo_spec 32 (odq_elems qid t) ps = (odq_elems qid t', rs)
    \<and> odq_elems qid t @ accepted ps rs = delivered rs @ odq_elems qid t'
    \<and> (\<forall>j < num_entries t. j \<noteq> unat qid \<longrightarrow> desc_at t' j = desc_at t j)"
  using odq.exec_refines [OF assms] odq.exec_conserves [OF assms] exec_frame [OF assms(2)]
  by (simp add: odq_cap_def)

theorem objDescQueue_fifo_witness:
  "\<exists>t'. fifo_exec (\<lambda>t x. ownObjDescQueueEnqueue t 0 x) (odq_get 0) sample_q [Put 4, Put 9, Get]
    = (t', [Put_Done True, Put_Done True, Got (Some 4)])
    \<and> odq_elems 0 t' = [9] \<and> desc_at t' 1 = desc_at sample_q 1"
proof -
  obtain t' rs where run: "fifo_exec (\<lambda>t x. ownObjDescQueueEnqueue t 0 x) (odq_get 0) sample_q
    [Put 4, Put 9, Get] = (t', rs)" by fastforce
  from objDescQueue_fifo [OF sample_q_facts(2) run] run sample_q_facts(3,5) show ?thesis by auto
qed

text \<open>Creating a queue takes a free descriptor and gives an empty queue with no blocked node,
  leaving every other descriptor as it was, or fails, with no free descriptor in the table and
  the table unchanged.\<close>

theorem objDescQueueCreate_correct:
  assumes "table_wf t" "ownObjDescQueueCreate pf t = (t', qid, s)"
  shows "(s = VX_SUCCESS \<and> table_wf t' \<and> odq_inv qid t' \<and> odq_elems qid t' = []
      \<and> odq_blocked qid t' = [] \<and> od_type (desc_at t (unat qid)) = TIVX_OBJ_DESC_INVALID
      \<and> (\<forall>j < num_entries t. j \<noteq> unat qid \<longrightarrow> desc_at t' j = desc_at t j))
    \<or> (s = VX_FAILURE \<and> t' = t \<and> qid = TIVX_OBJ_DESC_INVALID
      \<and> (\<forall>j < num_entries t. od_type (desc_at t j) \<noteq> TIVX_OBJ_DESC_INVALID))"
  using queue_create [OF assms] by blast

theorem objDescQueueCreate_correct_witness:
  "odq_inv 0 sample_q \<and> desc_at sample_q 1 = desc_at sample_table 1"
  using objDescQueueCreate_correct [OF sample_table_wf sample_q_facts(1)]
  by (auto simp: sample_table_def)

text \<open>C28: a node that is added to the blocked nodes of a queue is handed out by the next
  extraction, after those that were there before and after what the caller had already
  collected, and then the queue has no blocked node; an addition is refused exactly when eight
  nodes are blocked. The ids in the queue itself are not touched.\<close>

theorem objDescQueue_blocked_nodes:
  assumes "odq_inv qid t" "bn_ok out"
    and "ownObjDescQueueAddBlockedNode t qid node = (t1, s1)"
  shows "\<exists>t2 out'. ownObjDescQueueExtractBlockedNodes t1 qid out = (t2, out', VX_SUCCESS)
    \<and> bn_list out' = bn_list out @ odq_blocked qid t
        @ (if length (odq_blocked qid t) < 8 then [node] else [])
    \<and> (s1 = VX_SUCCESS \<longleftrightarrow> length (odq_blocked qid t) < 8)
    \<and> odq_blocked qid t2 = [] \<and> odq_elems qid t2 = odq_elems qid t"
proof (cases "length (odq_blocked qid t) < 8")
  case True
  with add_blocked_node [OF assms(1), of node] assms(3) have "s1 = VX_SUCCESS" "odq_inv qid t1"
    "odq_elems qid t1 = odq_elems qid t" "odq_blocked qid t1 = odq_blocked qid t @ [node]"
    by auto
  with True extract_blocked [OF this(2) assms(2)] show ?thesis by auto
next
  case False
  with add_blocked_node [OF assms(1), of node] assms(3) have "s1 = VX_FAILURE" "t1 = t" by auto
  with False extract_blocked [OF assms(1,2)] show ?thesis by auto
qed

definition no_blocked :: tivx_obj_desc_queue_blocked_nodes where
  "no_blocked = \<lparr>bn_num_nodes = 0, bn_node_id = replicate 8 0\<rparr>"

lemma no_blocked_ok: "bn_ok no_blocked" "bn_list no_blocked = []"
  by (simp_all add: no_blocked_def bn_ok_def bn_list_def)

theorem objDescQueue_blocked_nodes_witness:
  "\<exists>t1 t2 out'. ownObjDescQueueAddBlockedNode sample_q 0 77 = (t1, VX_SUCCESS)
    \<and> ownObjDescQueueExtractBlockedNodes t1 0 no_blocked = (t2, out', VX_SUCCESS)
    \<and> bn_list out' = [77]"
proof -
  obtain t1 s1 where "ownObjDescQueueAddBlockedNode sample_q 0 77 = (t1, s1)" by fastforce
  with objDescQueue_blocked_nodes [OF sample_q_facts(2) no_blocked_ok(1) this]
    sample_q_facts(4) no_blocked_ok(2)
  show ?thesis by auto
qed

text \<open>A second extraction into the same array, as the release in a delay makes it, may leave more
  than the eight node ids that the array holds.\<close>

lemma extract_twice_overflows:
  assumes "odq_inv q1 t" "odq_inv q2 t" "q1 \<noteq> q2"
    and "length (odq_blocked q1 t) + length (odq_blocked q2 t) > 8"
  shows "\<exists>t1 o1 t2 o2. ownObjDescQueueExtractBlockedNodes t q1 no_blocked = (t1, o1, VX_SUCCESS)
    \<and> ownObjDescQueueExtractBlockedNodes t1 q2 o1 = (t2, o2, VX_SUCCESS)
    \<and> 8 < length (bn_node_id o2)"
proof -
  have small: "length (odq_blocked q t) \<le> 8" if "odq_inv q t" for q
    using odq_inv_queue(2) [OF that]
    by (simp add: odq_blocked_def odq_blocked_list_def odq_ok_def)
  obtain t1 o1 where e1: "ownObjDescQueueExtractBlockedNodes t q1 no_blocked = (t1, o1, VX_SUCCESS)"
    "bn_list o1 = odq_blocked q1 t" "length (bn_node_id o1) = 8"
    using extract_blocked [OF assms(1) no_blocked_ok(1)] no_blocked_ok(2) small [OF assms(1)]
    by (auto simp: no_blocked_def)
  have at: "queue_at t q1 = Some (unat q1)" using odq_inv_queue [OF assms(1)] by simp
  then have t1: "\<exists>f. t1 = upd_queue (unat q1) f t"
    using e1(1) by (auto simp: ownObjDescQueueExtractBlockedNodes_def Let_def)
  have ne: "unat q1 \<noteq> unat q2" using assms(3) by (metis word_unat_eq_iff)
  have inv2: "odq_inv q2 t1" "odq_blocked q2 t1 = odq_blocked q2 t"
    using t1 upd_queue_other [of "unat q1" q2] ne odq_inv_queue(3) [OF assms(2)] assms(2) by auto
  have "unat (bn_num_nodes o1) \<le> 8"
    using e1(1) at odq_inv_queue(2) [OF assms(1)]
    by (auto simp: ownObjDescQueueExtractBlockedNodes_def Let_def no_blocked_def odq_ok_def
        word_le_nat_alt)
  then have "bn_ok o1" using e1(3) by (simp add: bn_ok_def)
  from extract_blocked [OF inv2(1) this] e1 inv2(2) assms(4) show ?thesis by auto
qed

end
