(* ===== verification/Target_Kernel.thy ===== *)
theory Target_Kernel
  imports Obj_Desc
begin

text \<open>
  The table of the kernels that are registered on a target CPU,
  \<open>source/framework/vx_target_kernel.c\<close>, the table of their instances,
  \<open>source/framework/vx_target_kernel_instance.c\<close>, and the table of target names of
  \<open>source/platform/common/targets/tivx_target_config.c\<close>. A pointer into a table is an index; the
  callbacks of a kernel are the addresses that the user registered, 0 for \<open>NULL\<close>. The result
  of locking a table's mutex is an argument.
\<close>

section \<open>Target names\<close>

abbreviation (input) TIVX_TARGET_ID_INVALID :: uint32 where "TIVX_TARGET_ID_INVALID \<equiv> 0xFFFFFFFF"
abbreviation (input) TIVX_TARGET_MAX_NAME :: nat where "TIVX_TARGET_MAX_NAME \<equiv> 64"

record tivx_target_info =
  ti_target_name :: "uint8 list"
  ti_target_id :: vx_enum

text \<open>\<open>strncmp (a, b, n) == 0\<close> of the C library.\<close>

definition str_eq :: "nat \<Rightarrow> uint8 list \<Rightarrow> uint8 list \<Rightarrow> bool" where
  "str_eq n a b \<longleftrightarrow> c_string n a = c_string n b"

definition ownPlatformGetTargetId :: "tivx_target_info list \<Rightarrow> uint8 list option \<Rightarrow> vx_enum" where
  "ownPlatformGetTargetId info target_name =
     (case target_name of None \<Rightarrow> TIVX_TARGET_ID_INVALID
      | Some nm \<Rightarrow>
          (case first_index (\<lambda>e. str_eq TIVX_TARGET_MAX_NAME (ti_target_name e) nm) info of
             None \<Rightarrow> TIVX_TARGET_ID_INVALID
           | Some i \<Rightarrow> ti_target_id (info ! i)))"

section \<open>The kernel table\<close>

abbreviation (input) TIVX_TARGET_KERNEL_ID_INVALID :: vx_enum
  where "TIVX_TARGET_KERNEL_ID_INVALID \<equiv> 0xFFFF"
abbreviation (input) TIVX_TARGET_KERNEL_ID_NOT_USED :: vx_enum
  where "TIVX_TARGET_KERNEL_ID_NOT_USED \<equiv> 0xFFFE"
abbreviation (input) VX_MAX_KERNEL_NAME :: "'a::numeral" where "VX_MAX_KERNEL_NAME \<equiv> 256"

record tivx_target_kernel =
  tk_kernel_id :: vx_enum
  tk_target_id :: vx_enum
  tk_kernel_name :: "uint8 list"
  tk_process_func :: uintptr
  tk_create_func :: uintptr
  tk_delete_func :: uintptr
  tk_control_func :: uintptr
  tk_caller_priv_arg :: uintptr
  tk_num_pipeup_bufs :: uint32

record target_kernels =
  g_target_kernel_table :: "tivx_target_kernel list"
  g_num_target_kernel :: uint32

definition ownTargetKernelInit :: "target_kernels \<Rightarrow> target_kernels" where
  "ownTargetKernelInit g = g\<lparr>g_target_kernel_table :=
       map (\<lambda>k. k\<lparr>tk_kernel_id := TIVX_TARGET_KERNEL_ID_INVALID,
                  tk_target_id := TIVX_TARGET_KERNEL_ID_INVALID\<rparr>) (g_target_kernel_table g),
     g_num_target_kernel := 0\<rparr>"

definition ownRemoveKernelIndex :: "nat \<Rightarrow> target_kernels \<Rightarrow> target_kernels" where
  "ownRemoveKernelIndex i g = g\<lparr>g_target_kernel_table := (g_target_kernel_table g)
       [i := (g_target_kernel_table g ! i)\<lparr>tk_kernel_id := TIVX_TARGET_KERNEL_ID_INVALID,
          tk_target_id := TIVX_TARGET_KERNEL_ID_INVALID, tk_process_func := 0,
          tk_create_func := 0, tk_delete_func := 0, tk_control_func := 0\<rparr>],
     g_num_target_kernel := g_num_target_kernel g - 1\<rparr>"

text \<open>The name field after \<open>kernel_name[0] = 0\<close> and, for a name, \<open>strncpy\<close> of 255 bytes, which
  pads with zeros, and the terminator.\<close>

definition kernel_name_field :: "uint8 list option \<Rightarrow> uint8 list \<Rightarrow> uint8 list" where
  "kernel_name_field kernel_name old =
     (case kernel_name of None \<Rightarrow> old[0 := 0]
      | Some nm \<Rightarrow> (let c = c_string (VX_MAX_KERNEL_NAME - 1) nm
                   in c @ replicate (VX_MAX_KERNEL_NAME - length c) 0))"

definition ownAddTargetKernelInternal ::
  "tivx_target_info list \<Rightarrow> vx_status \<Rightarrow> target_kernels \<Rightarrow> vx_enum \<Rightarrow> uint8 list option \<Rightarrow>
   uint8 list option \<Rightarrow> uintptr \<Rightarrow> uintptr \<Rightarrow> uintptr \<Rightarrow> uintptr \<Rightarrow> uintptr \<Rightarrow>
   target_kernels \<times> nat option" where
  "ownAddTargetKernelInternal info lk g kernel_id kernel_name target_name process_func create_func
     delete_func control_func priv_arg =
     (if target_name \<noteq> None \<and> process_func \<noteq> 0 \<and> create_func \<noteq> 0 then
       (if lk = VX_SUCCESS then
         (case first_index (\<lambda>k. tk_kernel_id k = TIVX_TARGET_KERNEL_ID_INVALID)
                 (g_target_kernel_table g) of
            None \<Rightarrow> (g, None)
          | Some i \<Rightarrow>
              (g\<lparr>g_target_kernel_table := (g_target_kernel_table g)
                   [i := \<lparr>tk_kernel_id = kernel_id,
                      tk_target_id = ownPlatformGetTargetId info target_name,
                      tk_kernel_name = kernel_name_field kernel_name
                        (tk_kernel_name (g_target_kernel_table g ! i)),
                      tk_process_func = process_func, tk_create_func = create_func,
                      tk_delete_func = delete_func, tk_control_func = control_func,
                      tk_caller_priv_arg = priv_arg, tk_num_pipeup_bufs = 1\<rparr>],
                 g_num_target_kernel := g_num_target_kernel g + 1\<rparr>, Some i))
        else (g, None))
      else (g, None))"

definition tivxAddTargetKernelByName ::
  "tivx_target_info list \<Rightarrow> vx_status \<Rightarrow> target_kernels \<Rightarrow> uint8 list option \<Rightarrow>
   uint8 list option \<Rightarrow> uintptr \<Rightarrow> uintptr \<Rightarrow> uintptr \<Rightarrow> uintptr \<Rightarrow> uintptr \<Rightarrow>
   target_kernels \<times> nat option" where
  "tivxAddTargetKernelByName info lk g kernel_name =
     ownAddTargetKernelInternal info lk g TIVX_TARGET_KERNEL_ID_NOT_USED kernel_name"

definition tivxAddTargetKernel ::
  "tivx_target_info list \<Rightarrow> vx_status \<Rightarrow> target_kernels \<Rightarrow> vx_enum \<Rightarrow>
   uint8 list option \<Rightarrow> uintptr \<Rightarrow> uintptr \<Rightarrow> uintptr \<Rightarrow> uintptr \<Rightarrow> uintptr \<Rightarrow>
   target_kernels \<times> nat option" where
  "tivxAddTargetKernel info lk g kernel_id = ownAddTargetKernelInternal info lk g kernel_id None"

definition tivxRemoveTargetKernelByName ::
  "tivx_target_info list \<Rightarrow> vx_status \<Rightarrow> target_kernels \<Rightarrow> uint8 list option \<Rightarrow>
   uint8 list option \<Rightarrow> target_kernels \<times> vx_status" where
  "tivxRemoveTargetKernelByName info lk g kernel_name target_name =
     (case (kernel_name, target_name) of
        (Some nm, Some tn) \<Rightarrow>
          if lk = VX_SUCCESS then
            (case first_index (\<lambda>k. ownPlatformGetTargetId info target_name = tk_target_id k
                    \<and> str_eq (VX_MAX_KERNEL_NAME - 1) (tk_kernel_name k) nm)
                  (g_target_kernel_table g) of
               None \<Rightarrow> (g, VX_FAILURE)
             | Some i \<Rightarrow> (ownRemoveKernelIndex i g, VX_SUCCESS))
          else (g, VX_FAILURE)
      | _ \<Rightarrow> (g, VX_FAILURE))"

definition tivxRemoveTargetKernel ::
  "vx_status \<Rightarrow> target_kernels \<Rightarrow> nat option \<Rightarrow> target_kernels \<times> vx_status" where
  "tivxRemoveTargetKernel lk g target_kernel =
     (case target_kernel of None \<Rightarrow> (g, VX_FAILURE)
      | Some i \<Rightarrow>
          if lk = VX_SUCCESS \<and> i < length (g_target_kernel_table g)
          then (ownRemoveKernelIndex i g, VX_SUCCESS) else (g, VX_FAILURE))"

text \<open>The test of \<open>ownTargetKernelGet\<close> on an entry: by id for a kernel without a name, by name up
  to the delimiter \<open>:\<close> for the others.\<close>

definition kernel_matches ::
  "vx_enum \<Rightarrow> uint8 list option \<Rightarrow> vx_enum \<Rightarrow> tivx_target_kernel \<Rightarrow> bool" where
  "kernel_matches kernel_id kernel_name target_id k =
     (if tk_kernel_name k ! 0 = 0
      then kernel_id = tk_kernel_id k \<and> target_id = tk_target_id k
      else (case kernel_name of None \<Rightarrow> False
            | Some nm \<Rightarrow> tivx_obj_desc_strncmp_delim nm (tk_kernel_name k) VX_MAX_KERNEL_NAME 58 = 0
                \<and> target_id = tk_target_id k))"

definition ownTargetKernelGet ::
  "vx_status \<Rightarrow> target_kernels \<Rightarrow> vx_enum \<Rightarrow> uint8 list option \<Rightarrow> vx_enum \<Rightarrow>
   target_kernels \<times> nat option" where
  "ownTargetKernelGet lk g kernel_id kernel_name target_id =
     (if lk = VX_SUCCESS then
       (case first_index (kernel_matches kernel_id kernel_name target_id)
               (g_target_kernel_table g) of
          None \<Rightarrow> (g, None)
        | Some i \<Rightarrow>
            (let k = g_target_kernel_table g ! i in
             if tk_kernel_name k ! 0 = 0 then (g, Some i)
             else (g\<lparr>g_target_kernel_table :=
                     (g_target_kernel_table g)[i := k\<lparr>tk_kernel_id := kernel_id\<rparr>]\<rparr>, Some i)))
      else (g, None))"

definition tivxQueryNumTargetKernel :: "target_kernels \<Rightarrow> uint32" where
  "tivxQueryNumTargetKernel g = g_num_target_kernel g"

section \<open>The instance table\<close>

abbreviation (input) VX_NODE_STATE_STEADY :: vx_enum where "VX_NODE_STATE_STEADY \<equiv> 0x23000"
abbreviation (input) VX_NODE_STATE_PIPEUP :: vx_enum where "VX_NODE_STATE_PIPEUP \<equiv> 0x23001"

record tivx_target_kernel_instance =
  ki_kernel :: "nat option"
  ki_kernel_id :: vx_enum
  ki_index :: uint32
  ki_kernel_context :: uintptr
  ki_kernel_context_size :: uint32
  ki_state :: vx_enum
  ki_block_width :: uint32
  ki_block_height :: uint32
  ki_is_replicated :: bool
  ki_node_obj_desc :: "nat option"

type_synonym kernel_instances = "tivx_target_kernel_instance list"

definition ownTargetKernelInstanceInit :: "kernel_instances \<Rightarrow> kernel_instances" where
  "ownTargetKernelInstanceInit tab =
     map2 (\<lambda>i k. k\<lparr>ki_kernel_id := TIVX_TARGET_KERNEL_ID_INVALID, ki_index := of_nat i,
                   ki_state := VX_NODE_STATE_STEADY, ki_is_replicated := False,
                   ki_node_obj_desc := None\<rparr>) [0..<length tab] tab"

definition ownTargetKernelInstanceAlloc ::
  "vx_status \<Rightarrow> vx_status \<Rightarrow> target_kernels \<Rightarrow> kernel_instances \<Rightarrow> vx_enum \<Rightarrow>
   uint8 list option \<Rightarrow> vx_enum \<Rightarrow> target_kernels \<times> kernel_instances \<times> nat option" where
  "ownTargetKernelInstanceAlloc lk lki g tab kernel_id kernel_name target_id =
     (case ownTargetKernelGet lk g kernel_id kernel_name target_id of
        (g1, None) \<Rightarrow> (g1, tab, None)
      | (g1, Some k) \<Rightarrow>
          if lki = VX_SUCCESS then
            (case first_index (\<lambda>e. ki_kernel_id e = TIVX_TARGET_KERNEL_ID_INVALID) tab of
               None \<Rightarrow> (g1, tab, None)
             | Some i \<Rightarrow>
                 (g1, tab[i := (tab ! i)\<lparr>ki_kernel_id := kernel_id, ki_index := of_nat i,
                      ki_kernel_context := 0, ki_kernel_context_size := 0, ki_kernel := Some k,
                      ki_is_replicated := False, ki_node_obj_desc := None,
                      ki_state := (if tk_num_pipeup_bufs (g_target_kernel_table g1 ! k) > 1
                                   then VX_NODE_STATE_PIPEUP else VX_NODE_STATE_STEADY)\<rparr>],
                  Some i))
          else (g1, tab, None))"

definition ownTargetKernelInstanceFree ::
  "kernel_instances \<Rightarrow> nat option \<Rightarrow> kernel_instances \<times> nat option \<times> vx_status" where
  "ownTargetKernelInstanceFree tab inst =
     (case inst of None \<Rightarrow> (tab, None, VX_ERROR_INVALID_PARAMETERS)
      | Some i \<Rightarrow> (tab[i := (tab ! i)\<lparr>ki_kernel_id := TIVX_TARGET_KERNEL_ID_INVALID\<rparr>], None,
                  VX_SUCCESS))"

definition ownTargetKernelInstanceGetIndex :: "kernel_instances \<Rightarrow> nat option \<Rightarrow> uint32" where
  "ownTargetKernelInstanceGetIndex tab inst =
     (case inst of None \<Rightarrow> of_nat (length tab)
      | Some i \<Rightarrow> if unat (ki_index (tab ! i)) < length tab then ki_index (tab ! i)
                  else of_nat (length tab))"

definition tivxTargetKernelInstanceGetKernel :: "kernel_instances \<Rightarrow> nat option \<Rightarrow> nat option" where
  "tivxTargetKernelInstanceGetKernel tab inst =
     (case inst of None \<Rightarrow> None
      | Some i \<Rightarrow> if ki_kernel_id (tab ! i) \<noteq> TIVX_TARGET_KERNEL_ID_INVALID
                  then ki_kernel (tab ! i) else None)"

definition ownTargetKernelInstanceGet ::
  "kernel_instances \<Rightarrow> uint16 \<Rightarrow> vx_enum \<Rightarrow> nat option" where
  "ownTargetKernelInstanceGet tab target_kernel_index kernel_id =
     (if unat target_kernel_index < length tab
        \<and> ki_kernel_id (tab ! unat target_kernel_index) = kernel_id
      then Some (unat target_kernel_index) else None)"

definition tivxSetTargetKernelInstanceContext ::
  "kernel_instances \<Rightarrow> nat option \<Rightarrow> uintptr \<Rightarrow> uint32 \<Rightarrow> kernel_instances \<times> vx_status" where
  "tivxSetTargetKernelInstanceContext tab inst ctx ctx_size =
     (case inst of None \<Rightarrow> (tab, VX_ERROR_INVALID_PARAMETERS)
      | Some i \<Rightarrow> (tab[i := (tab ! i)\<lparr>ki_kernel_context := ctx,
                                      ki_kernel_context_size := ctx_size\<rparr>], VX_SUCCESS))"

definition tivxGetTargetKernelInstanceContext ::
  "kernel_instances \<Rightarrow> nat option \<Rightarrow> (uintptr \<times> uint32) option \<times> vx_status" where
  "tivxGetTargetKernelInstanceContext tab inst =
     (case inst of None \<Rightarrow> (None, VX_ERROR_INVALID_PARAMETERS)
      | Some i \<Rightarrow> (Some (ki_kernel_context (tab ! i), ki_kernel_context_size (tab ! i)),
                  VX_SUCCESS))"

definition tivxGetTargetKernelInstanceState ::
  "kernel_instances \<Rightarrow> nat option \<Rightarrow> vx_enum option \<times> vx_status" where
  "tivxGetTargetKernelInstanceState tab inst =
     (case inst of None \<Rightarrow> (None, VX_ERROR_INVALID_PARAMETERS)
      | Some i \<Rightarrow> (Some (ki_state (tab ! i)), VX_SUCCESS))"

definition tivxIsTargetKernelInstanceReplicated :: "kernel_instances \<Rightarrow> nat option \<Rightarrow> bool" where
  "tivxIsTargetKernelInstanceReplicated tab inst =
     (case inst of None \<Rightarrow> False | Some i \<Rightarrow> ki_is_replicated (tab ! i))"

section \<open>The number of registered kernels\<close>

definition kernel_used :: "tivx_target_kernel \<Rightarrow> bool" where
  "kernel_used k \<longleftrightarrow> tk_kernel_id k \<noteq> TIVX_TARGET_KERNEL_ID_INVALID"

text \<open>The states that registrations, look-ups and removals lead to. The table has at least one
  entry and less than \<open>2 ^ 32\<close>, real ids are not the invalid one, and a kernel is removed by its
  handle only while it is registered.\<close>

inductive kernels_reach :: "tivx_target_info list \<Rightarrow> target_kernels \<Rightarrow> bool"
  for info :: "tivx_target_info list" where
  init: "\<lbrakk>length (g_target_kernel_table g) < 2 ^ 32;
      \<forall>k \<in> set (g_target_kernel_table g). length (tk_kernel_name k) = VX_MAX_KERNEL_NAME\<rbrakk> \<Longrightarrow>
    kernels_reach info (ownTargetKernelInit g)"
| add: "\<lbrakk>kernels_reach info g; kernel_id \<noteq> TIVX_TARGET_KERNEL_ID_INVALID;
      ownAddTargetKernelInternal info lk g kernel_id nm tn pf cf df ctf arg = (g', r)\<rbrakk> \<Longrightarrow>
    kernels_reach info g'"
| lookup: "\<lbrakk>kernels_reach info g; kernel_id \<noteq> TIVX_TARGET_KERNEL_ID_INVALID;
      tid \<noteq> TIVX_TARGET_KERNEL_ID_INVALID;
      ownTargetKernelGet lk g kernel_id nm tid = (g', r)\<rbrakk> \<Longrightarrow> kernels_reach info g'"
| remove_name: "\<lbrakk>kernels_reach info g;
      ownPlatformGetTargetId info tn \<noteq> TIVX_TARGET_KERNEL_ID_INVALID;
      tivxRemoveTargetKernelByName info lk g nm tn = (g', s)\<rbrakk> \<Longrightarrow> kernels_reach info g'"
| remove: "\<lbrakk>kernels_reach info g; i < length (g_target_kernel_table g);
      kernel_used (g_target_kernel_table g ! i);
      tivxRemoveTargetKernel lk g (Some i) = (g', s)\<rbrakk> \<Longrightarrow> kernels_reach info g'"

inductive_cases kernels_reachE: "kernels_reach info g"

definition kernels_ok :: "target_kernels \<Rightarrow> bool" where
  "kernels_ok g \<longleftrightarrow> length (g_target_kernel_table g) < 2 ^ 32
     \<and> unat (g_num_target_kernel g) = length (filter kernel_used (g_target_kernel_table g))
     \<and> (\<forall>k \<in> set (g_target_kernel_table g). length (tk_kernel_name k) = VX_MAX_KERNEL_NAME
          \<and> (\<not> kernel_used k \<longrightarrow> tk_target_id k = TIVX_TARGET_KERNEL_ID_INVALID))"

lemma length_c_string: "length (c_string n s) \<le> n"
  using length_takeWhile_le [of "\<lambda>b. b \<noteq> 0" "take n s"] by (simp add: c_string_def)

lemma length_kernel_name_field:
  "length old = VX_MAX_KERNEL_NAME \<Longrightarrow> length (kernel_name_field nm old) = VX_MAX_KERNEL_NAME"
  using length_c_string [of 255 "the nm"]
  by (cases nm) (simp_all add: kernel_name_field_def Let_def)

lemma set_update_ball:
  "\<lbrakk>\<forall>x \<in> set xs. P x; P y\<rbrakk> \<Longrightarrow> \<forall>x \<in> set (xs[i := y]). P x"
  by (auto dest!: subsetD [OF set_update_subset_insert])

lemma length_filter_set:
  assumes "i < length xs" "\<not> P (xs ! i)" "P y"
  shows "length (filter P (xs[i := y])) = Suc (length (filter P xs))"
  using length_filter_update [of i "xs[i := y]" P "xs ! i"] assms by simp

lemma kernels_ok_remove:
  assumes "kernels_ok g" "i < length (g_target_kernel_table g)"
    and "kernel_used (g_target_kernel_table g ! i)"
  shows "kernels_ok (ownRemoveKernelIndex i g)"
proof -
  let ?t = "g_target_kernel_table g"
  let ?k = "(?t ! i)\<lparr>tk_kernel_id := TIVX_TARGET_KERNEL_ID_INVALID,
          tk_target_id := TIVX_TARGET_KERNEL_ID_INVALID, tk_process_func := 0,
          tk_create_func := 0, tk_delete_func := 0, tk_control_func := 0\<rparr>"
  have cnt: "unat (g_num_target_kernel g) = Suc (length (filter kernel_used (?t[i := ?k])))"
    using length_filter_update [of i ?t kernel_used ?k] assms
    by (simp add: kernels_ok_def kernel_used_def)
  then have "0 < g_num_target_kernel g" by (simp add: word_less_nat_alt)
  from unat_dec_pos [OF this] cnt
  have "unat (g_num_target_kernel g - 1) = length (filter kernel_used (?t[i := ?k]))" by simp
  moreover have "\<forall>k \<in> set (?t[i := ?k]). length (tk_kernel_name k) = VX_MAX_KERNEL_NAME
      \<and> (\<not> kernel_used k \<longrightarrow> tk_target_id k = TIVX_TARGET_KERNEL_ID_INVALID)"
    using assms by (intro set_update_ball) (auto simp: kernels_ok_def)
  ultimately show ?thesis using assms(1) by (simp add: kernels_ok_def ownRemoveKernelIndex_def)
qed

lemma kernels_ok_add:
  assumes "kernels_ok g" "kernel_id \<noteq> TIVX_TARGET_KERNEL_ID_INVALID"
    and "ownAddTargetKernelInternal info lk g kernel_id nm tn pf cf df ctf arg = (g', r)"
  shows "kernels_ok g'"
proof (cases r)
  case None
  then show ?thesis using assms
    by (auto simp: ownAddTargetKernelInternal_def split: if_splits option.splits)
next
  case (Some i)
  let ?t = "g_target_kernel_table g"
  obtain k where i: "i < length ?t" "\<not> kernel_used (?t ! i)"
    and g': "g' = g\<lparr>g_target_kernel_table := ?t[i := k],
        g_num_target_kernel := g_num_target_kernel g + 1\<rparr>"
    and k: "kernel_used k"
      "tk_kernel_name k = kernel_name_field nm (tk_kernel_name (?t ! i))"
    using assms(2,3) Some
    by (auto simp: ownAddTargetKernelInternal_def kernel_used_def first_index_some
        split: if_splits option.splits)
  have cnt: "length (filter kernel_used (?t[i := k])) = unat (g_num_target_kernel g) + 1"
    using length_filter_set [OF i k(1)] assms(1) by (simp add: kernels_ok_def)
  have "length (filter kernel_used (?t[i := k])) < 2 ^ 32"
    using length_filter_le [of kernel_used "?t[i := k]"] assms(1) by (simp add: kernels_ok_def)
  then have "unat (g_num_target_kernel g + 1) = unat (g_num_target_kernel g) + 1"
    using cnt by (simp add: unat_word_ariths)
  moreover have "\<forall>k \<in> set (?t[i := k]). length (tk_kernel_name k) = VX_MAX_KERNEL_NAME
      \<and> (\<not> kernel_used k \<longrightarrow> tk_target_id k = TIVX_TARGET_KERNEL_ID_INVALID)"
    using assms(1) k i(1) length_kernel_name_field
    by (intro set_update_ball) (auto simp: kernels_ok_def)
  ultimately show ?thesis using assms(1) g' cnt by (simp add: kernels_ok_def)
qed

lemma kernels_ok_lookup:
  assumes "kernels_ok g" "kernel_id \<noteq> TIVX_TARGET_KERNEL_ID_INVALID"
    and "tid \<noteq> TIVX_TARGET_KERNEL_ID_INVALID"
    and "ownTargetKernelGet lk g kernel_id nm tid = (g', r)"
  shows "kernels_ok g'"
proof -
  let ?t = "g_target_kernel_table g"
  consider "g' = g" | i where "first_index (kernel_matches kernel_id nm tid) ?t = Some i"
    "g' = g\<lparr>g_target_kernel_table := ?t[i := (?t ! i)\<lparr>tk_kernel_id := kernel_id\<rparr>]\<rparr>"
    "tk_kernel_name (?t ! i) ! 0 \<noteq> 0"
    using assms(4) unfolding ownTargetKernelGet_def Let_def
    by (cases "first_index (kernel_matches kernel_id nm tid) ?t") (auto split: if_splits)
  then show ?thesis
  proof cases
    case 1
    with assms show ?thesis by simp
  next
    case (2 i)
    then have i: "i < length ?t" "kernel_matches kernel_id nm tid (?t ! i)"
      by (simp_all add: first_index_some)
    let ?k = "(?t ! i)\<lparr>tk_kernel_id := kernel_id\<rparr>"
    have old: "kernel_used (?t ! i)"
      using 2(3) i assms(1,3)
      by (auto simp: kernels_ok_def kernel_matches_def split: option.splits)
    have new: "kernel_used ?k" using assms(2) by (simp add: kernel_used_def)
    define z where "z = (?t ! i)\<lparr>tk_kernel_id := TIVX_TARGET_KERNEL_ID_INVALID\<rparr>"
    have z: "\<not> kernel_used z" by (simp add: kernel_used_def z_def)
    have "length (filter kernel_used (?t[i := ?k]))
        = Suc (length (filter kernel_used (?t[i := ?k, i := z])))"
      using i(1) new z by (intro length_filter_update) auto
    then have "length (filter kernel_used (?t[i := ?k])) = length (filter kernel_used ?t)"
      using length_filter_update [of i ?t kernel_used z, OF i(1) old z] by simp
    moreover have "\<forall>k \<in> set (?t[i := ?k]). length (tk_kernel_name k) = VX_MAX_KERNEL_NAME
      \<and> (\<not> kernel_used k \<longrightarrow> tk_target_id k = TIVX_TARGET_KERNEL_ID_INVALID)"
      using assms(1) new i(1) by (intro set_update_ball) (auto simp: kernels_ok_def)
    ultimately show ?thesis using assms(1) 2(2) by (simp add: kernels_ok_def)
  qed
qed

lemma kernels_reach_ok: "kernels_reach info g \<Longrightarrow> kernels_ok g"
proof (induction rule: kernels_reach.induct)
  case (init g)
  then show ?case
    by (auto simp: kernels_ok_def ownTargetKernelInit_def kernel_used_def filter_empty_conv)
next
  case (add g kernel_id lk nm tn pf cf df ctf arg g' r)
  then show ?case using kernels_ok_add by blast
next
  case (lookup g kernel_id tid lk nm g' r)
  then show ?case using kernels_ok_lookup by blast
next
  case (remove_name g tn lk nm g' s)
  show ?case
  proof (cases "s = VX_SUCCESS")
    case True
    then obtain i where "i < length (g_target_kernel_table g)"
      "tk_target_id (g_target_kernel_table g ! i) \<noteq> TIVX_TARGET_KERNEL_ID_INVALID"
      "g' = ownRemoveKernelIndex i g"
      using remove_name.hyps
      by (auto simp: tivxRemoveTargetKernelByName_def first_index_some
          split: option.splits if_splits)
    moreover from this remove_name.IH have "kernel_used (g_target_kernel_table g ! i)"
      by (auto simp: kernels_ok_def)
    ultimately show ?thesis using remove_name.IH kernels_ok_remove [of g i] by blast
  next
    case False
    with remove_name show ?thesis
      by (auto simp: tivxRemoveTargetKernelByName_def split: option.splits if_splits)
  qed
next
  case (remove g i lk g' s)
  then show ?case
    using kernels_ok_remove by (auto simp: tivxRemoveTargetKernel_def split: if_splits)
qed

section \<open>Correctness properties\<close>

definition sample_kernel :: tivx_target_kernel where
  "sample_kernel = \<lparr>tk_kernel_id = 5, tk_target_id = 7, tk_kernel_name = replicate 256 0,
     tk_process_func = 1, tk_create_func = 1, tk_delete_func = 1, tk_control_func = 1,
     tk_caller_priv_arg = 0, tk_num_pipeup_bufs = 1\<rparr>"

definition sample_kernels :: target_kernels where
  "sample_kernels = ownTargetKernelInit
     \<lparr>g_target_kernel_table = [sample_kernel, sample_kernel], g_num_target_kernel = 9\<rparr>"

definition sample_info :: "tivx_target_info list" where
  "sample_info = [\<lparr>ti_target_name = [65, 0], ti_target_id = 0x102\<rparr>]"

lemma sample_kernels_reach: "kernels_reach sample_info sample_kernels"
  unfolding sample_kernels_def
  by (rule kernels_reach.init) (simp_all add: sample_kernel_def)



text \<open>Removing by handle a kernel that is not registered any more counts it twice.\<close>

lemma remove_twice_miscounts:
  "unat (tivxQueryNumTargetKernel (fst (tivxRemoveTargetKernel 0 sample_kernels (Some 0))))
    = 2 ^ 32 - 1"
proof -
  have "unat (- 1 :: uint32) = 2 ^ 32 - 1" by (simp add: unsigned_minus_1_eq_mask mask_eq_exp_minus_1)
  then show ?thesis
    by (simp add: tivxRemoveTargetKernel_def sample_kernels_def ownTargetKernelInit_def
        ownRemoveKernelIndex_def tivxQueryNumTargetKernel_def)
qed

text \<open>C35: a kernel that has been registered by id for a target is the one that a look-up of the
  same id and target finds, unless an entry of the table already answered to that look-up.\<close>

theorem target_kernel_add_get:
  assumes "kernels_reach info g"
    and "tivxAddTargetKernel info VX_SUCCESS g kernel_id tn pf cf df ctf arg = (g', Some i)"
    and "\<forall>k \<in> set (g_target_kernel_table g).
      \<not> kernel_matches kernel_id nm (ownPlatformGetTargetId info tn) k"
  shows "ownTargetKernelGet VX_SUCCESS g' kernel_id nm (ownPlatformGetTargetId info tn)
      = (g', Some i)
    \<and> tk_process_func (g_target_kernel_table g' ! i) = pf
    \<and> tk_create_func (g_target_kernel_table g' ! i) = cf"
proof -
  let ?t = "g_target_kernel_table g"
  obtain k where i: "i < length ?t"
    and g': "g_target_kernel_table g' = ?t[i := k]"
    and k: "tk_kernel_id k = kernel_id" "tk_target_id k = ownPlatformGetTargetId info tn"
      "tk_kernel_name k = (tk_kernel_name (?t ! i))[0 := 0]" "tk_process_func k = pf"
      "tk_create_func k = cf"
    using assms(2)
    by (auto simp: tivxAddTargetKernel_def ownAddTargetKernelInternal_def first_index_some
        kernel_name_field_def split: if_splits option.splits)
  have "length (tk_kernel_name (?t ! i)) = 256"
    using kernels_reach_ok [OF assms(1)] i by (simp add: kernels_ok_def)
  then have name: "tk_kernel_name k ! 0 = 0" using k(3) by simp
  then have "kernel_matches kernel_id nm (ownPlatformGetTargetId info tn) k"
    using k by (simp add: kernel_matches_def)
  moreover have "\<forall>j < i. \<not> kernel_matches kernel_id nm (ownPlatformGetTargetId info tn) (?t ! j)"
    using assms(3) i by (meson nth_mem order.strict_trans)
  ultimately have "first_index (kernel_matches kernel_id nm (ownPlatformGetTargetId info tn))
      (g_target_kernel_table g') = Some i"
    using i g' by (simp add: first_index_some)
  then show ?thesis using name g' i k by (simp add: ownTargetKernelGet_def)
qed

theorem target_kernel_add_get_witness:
  "snd (ownTargetKernelGet 0 (fst (tivxAddTargetKernel sample_info 0 sample_kernels 5
      (Some [65, 0]) 1 1 1 1 0)) 5 None (ownPlatformGetTargetId sample_info (Some [65, 0])))
    = Some 0"
proof -
  have tid: "ownPlatformGetTargetId sample_info (Some [65, 0]) = 0x102"
    by (simp add: ownPlatformGetTargetId_def sample_info_def str_eq_def c_string_def)
  obtain g' r where run: "tivxAddTargetKernel sample_info 0 sample_kernels 5 (Some [65, 0])
      1 1 1 1 0 = (g', r)" by fastforce
  then have "r = Some 0"
    by (auto simp: tivxAddTargetKernel_def ownAddTargetKernelInternal_def sample_kernels_def
        ownTargetKernelInit_def)
  with target_kernel_add_get [OF sample_kernels_reach, of 5 "Some [65, 0]" 1 1 1 1 0 g' 0 None] run
  show ?thesis unfolding tid
    by (auto simp: sample_kernels_def ownTargetKernelInit_def kernel_matches_def sample_kernel_def)
qed

text \<open>An instance that is allocated for a kernel takes a free slot and leaves the other slots
  alone; its index, kept in the node, gives back that instance and no other kernel's, and once
  it is freed the same index and kernel id find nothing.\<close>

theorem kernel_instance_alloc_get:
  assumes "ownTargetKernelInstanceAlloc lk lki g tab kernel_id nm tid = (g', tab', Some i)"
    and "kernel_id \<noteq> TIVX_TARGET_KERNEL_ID_INVALID" "length tab \<le> 64"
  shows "i < length tab \<and> ki_kernel_id (tab ! i) = TIVX_TARGET_KERNEL_ID_INVALID
    \<and> tab' = tab[i := tab' ! i]
    \<and> ownTargetKernelInstanceGetIndex tab' (Some i) = of_nat i
    \<and> ownTargetKernelInstanceGet tab' (ucast (ownTargetKernelInstanceGetIndex tab' (Some i)))
        kernel_id = Some i
    \<and> tivxTargetKernelInstanceGetKernel tab' (Some i)
        = snd (ownTargetKernelGet lk g kernel_id nm tid)
    \<and> ownTargetKernelInstanceGet (fst (ownTargetKernelInstanceFree tab' (Some i)))
        (of_nat i) kernel_id = None"
proof -
  obtain e k where i: "i < length tab" "ki_kernel_id (tab ! i) = TIVX_TARGET_KERNEL_ID_INVALID"
    and tab': "tab' = tab[i := e]"
    and e: "ki_kernel_id e = kernel_id" "ki_index e = of_nat i" "ki_kernel e = Some k"
    and k: "snd (ownTargetKernelGet lk g kernel_id nm tid) = Some k"
    using assms(1)
    by (auto simp: ownTargetKernelInstanceAlloc_def first_index_some
        split: if_splits option.splits prod.splits)
  have u: "unat (of_nat i :: uint32) = i" "unat (of_nat i :: uint16) = i"
    using i(1) assms(3) by (simp_all add: unat_of_nat)
  have c: "(ucast (of_nat i :: uint32) :: uint16) = of_nat i"
    using u i(1) assms(3) by (intro word_unat_eq_iff [THEN iffD2])
      (simp add: unsigned_ucast_eq take_bit_nat_eq_self)
  show ?thesis
    using i tab' e u c k assms(2)
    by (simp add: ownTargetKernelInstanceGetIndex_def ownTargetKernelInstanceGet_def
        tivxTargetKernelInstanceGetKernel_def ownTargetKernelInstanceFree_def)
qed

definition sample_instances :: kernel_instances where
  "sample_instances = ownTargetKernelInstanceInit
     (replicate 2 \<lparr>ki_kernel = None, ki_kernel_id = 0, ki_index = 0, ki_kernel_context = 0,
        ki_kernel_context_size = 0, ki_state = 0, ki_block_width = 0, ki_block_height = 0,
        ki_is_replicated = True, ki_node_obj_desc = None\<rparr>)"

theorem kernel_instance_alloc_get_witness:
  "\<exists>g' tab'. ownTargetKernelInstanceAlloc 0 0
      \<lparr>g_target_kernel_table = [sample_kernel], g_num_target_kernel = 1\<rparr> sample_instances 5 None 7
    = (g', tab', Some 0) \<and> ownTargetKernelInstanceGet tab' 0 5 = Some 0"
proof -
  let ?g = "\<lparr>g_target_kernel_table = [sample_kernel], g_num_target_kernel = 1\<rparr>"
  obtain g' tab' r where run: "ownTargetKernelInstanceAlloc 0 0 ?g sample_instances 5 None 7
      = (g', tab', r)" by (metis prod_cases3)
  then have r: "r = Some 0"
    by (auto simp: ownTargetKernelInstanceAlloc_def ownTargetKernelGet_def kernel_matches_def
        sample_kernel_def sample_instances_def ownTargetKernelInstanceInit_def numeral_2_eq_2)
  have "length sample_instances = 2"
    by (simp add: sample_instances_def ownTargetKernelInstanceInit_def)
  with kernel_instance_alloc_get [OF run [unfolded r]] run r show ?thesis by auto
qed

end
