(* ===== verification/Target_Core.thy ===== *)
theory Target_Core
  imports Os_Queue Obj_Desc_Queue Target_Kernel
begin

text \<open>
  The targets of a CPU and the sending of object descriptors to them: the handle table and the
  job queues of \<open>source/framework/vx_target.c\<close> and \<open>ownObjDescSend\<close> of
  \<open>source/framework/vx_obj_desc.c\<close>. The record \<open>sys\<close> gathers the global variables of one CPU:
  the shared descriptor table, the targets, the kernels and their instances, the IPC messages
  sent so far and the acknowledgement events posted so far. What the code gets from outside the
  repository (the clock, the result of an IPC send, the behaviour of the user's kernels) is the
  record \<open>platform\<close>.
\<close>

section \<open>State\<close>

record tivx_target =
  tgt_target_id :: vx_enum
  tgt_job_queue :: tivx_queue
  tgt_exit_request :: bool
  tgt_exit_done :: bool

text \<open>A message handed to \<open>ownIpcSendMsg\<close>: CPU, payload, host CPU and host port.\<close>

record ipc_msg =
  ipc_cpu_id :: uint32
  ipc_payload :: uint32
  ipc_host_cpu_id :: uint32
  ipc_host_port_id :: uint16

record sys =
  sys_tbl :: tivx_obj_desc_table_info
  sys_targets :: "tivx_target list"
  sys_kernels :: target_kernels
  sys_instances :: kernel_instances
  sys_ipc :: "ipc_msg list"
  sys_events :: "uint64 list"
  sys_clock_reads :: nat

text \<open>The clock \<open>tivxPlatformGetTimeInUsecs\<close> as the sequence of the values it returns, and the
  result of the n-th IPC send.\<close>

record platform = platform_ids +
  pl_time_in_usecs :: "nat \<Rightarrow> uint64"
  pl_ipc_send :: "nat \<Rightarrow> vx_status"

definition read_clock :: "platform \<Rightarrow> sys \<Rightarrow> sys \<times> uint64" where
  "read_clock pl s =
     (s\<lparr>sys_clock_reads := Suc (sys_clock_reads s)\<rparr>, pl_time_in_usecs pl (sys_clock_reads s))"

abbreviation (input) sys_desc :: "sys \<Rightarrow> nat \<Rightarrow> tivx_obj_desc" where
  "sys_desc s i \<equiv> desc_at (sys_tbl s) i"

abbreviation (input) node_of :: "sys \<Rightarrow> nat \<Rightarrow> tivx_obj_desc_node" where
  "node_of s i \<equiv> the_node (od_body (sys_desc s i))"

abbreviation (input) cmd_of :: "sys \<Rightarrow> nat \<Rightarrow> tivx_obj_desc_cmd" where
  "cmd_of s i \<equiv> the_cmd (od_body (sys_desc s i))"

abbreviation (input) drq_of :: "sys \<Rightarrow> nat \<Rightarrow> tivx_obj_desc_data_ref_q" where
  "drq_of s i \<equiv> the_data_ref_q (od_body (sys_desc s i))"

definition upd_node :: "nat \<Rightarrow> (tivx_obj_desc_node \<Rightarrow> tivx_obj_desc_node) \<Rightarrow> sys \<Rightarrow> sys" where
  "upd_node i f s = s\<lparr>sys_tbl :=
     upd_desc i (\<lambda>d. d\<lparr>od_body := B_Node (f (the_node (od_body d)))\<rparr>) (sys_tbl s)\<rparr>"

definition upd_cmd :: "nat \<Rightarrow> (tivx_obj_desc_cmd \<Rightarrow> tivx_obj_desc_cmd) \<Rightarrow> sys \<Rightarrow> sys" where
  "upd_cmd i f s = s\<lparr>sys_tbl :=
     upd_desc i (\<lambda>d. d\<lparr>od_body := B_Cmd (f (the_cmd (od_body d)))\<rparr>) (sys_tbl s)\<rparr>"

definition upd_drq ::
  "nat \<Rightarrow> (tivx_obj_desc_data_ref_q \<Rightarrow> tivx_obj_desc_data_ref_q) \<Rightarrow> sys \<Rightarrow> sys" where
  "upd_drq i f s = s\<lparr>sys_tbl :=
     upd_desc i (\<lambda>d. d\<lparr>od_body := B_Data_Ref_Q (f (the_data_ref_q (od_body d)))\<rparr>) (sys_tbl s)\<rparr>"

definition upd_base :: "nat \<Rightarrow> (tivx_obj_desc \<Rightarrow> tivx_obj_desc) \<Rightarrow> sys \<Rightarrow> sys" where
  "upd_base i f s = s\<lparr>sys_tbl := upd_desc i f (sys_tbl s)\<rparr>"

section \<open>Target handles\<close>

abbreviation (input) TIVX_TARGET_MAX_JOB_QUEUE_DEPTH :: "'a::numeral"
  where "TIVX_TARGET_MAX_JOB_QUEUE_DEPTH \<equiv> 96"

text \<open>\<open>TIVX_GET_TARGET_INST\<close> and \<open>TIVX_GET_CPU_ID\<close> of \<open>source/include/tivx_target.h\<close>.\<close>

definition TIVX_GET_TARGET_INST :: "vx_enum \<Rightarrow> uint16" where
  "TIVX_GET_TARGET_INST target = (drop_bit 0 (ucast target) AND 0xFF)"

definition TIVX_GET_CPU_ID :: "vx_enum \<Rightarrow> uint32" where
  "TIVX_GET_CPU_ID target = (drop_bit 8 target AND 0xF)"

definition TIVX_MAKE_TARGET_ID :: "uint32 \<Rightarrow> uint32 \<Rightarrow> uint32" where
  "TIVX_MAKE_TARGET_ID cpu inst = (push_bit 8 (cpu AND 0xF) OR push_bit 0 (inst AND 0xFF))"

definition ownTargetGetCpuId :: "vx_enum \<Rightarrow> vx_enum" where
  "ownTargetGetCpuId target_id = TIVX_GET_CPU_ID target_id"

text \<open>A build for a device has one target table (\<open>ownTargetGetSubTableId\<close> is 0).\<close>

definition ownTargetAllocHandle :: "sys \<Rightarrow> vx_enum \<Rightarrow> sys \<times> nat option" where
  "ownTargetAllocHandle s target_id =
     (let inst = unat (TIVX_GET_TARGET_INST target_id) in
      if inst < length (sys_targets s) then
        (if tgt_target_id (sys_targets s ! inst) = target_id then (s, None)
         else (s\<lparr>sys_targets := (sys_targets s)
                   [inst := (sys_targets s ! inst)\<lparr>tgt_target_id := target_id\<rparr>]\<rparr>, Some inst))
      else (s, None))"

definition ownTargetFreeHandle :: "sys \<Rightarrow> nat option \<Rightarrow> sys \<times> nat option" where
  "ownTargetFreeHandle s h =
     (case h of None \<Rightarrow> (s, None)
      | Some i \<Rightarrow> (s\<lparr>sys_targets := (sys_targets s)
                     [i := (sys_targets s ! i)\<lparr>tgt_target_id := TIVX_TARGET_ID_INVALID\<rparr>]\<rparr>, None))"

definition ownTargetGetHandle :: "sys \<Rightarrow> vx_enum \<Rightarrow> nat option" where
  "ownTargetGetHandle s target_id =
     (let inst = unat (TIVX_GET_TARGET_INST target_id) in
      if inst < length (sys_targets s) \<and> tgt_target_id (sys_targets s ! inst) = target_id
      then Some inst else None)"

section \<open>Job queues and sending\<close>

definition ownTargetQueueObjDesc :: "sys \<Rightarrow> vx_enum \<Rightarrow> uint16 \<Rightarrow> sys \<times> vx_status" where
  "ownTargetQueueObjDesc s target_id obj_desc_id =
     (case ownTargetGetHandle s target_id of
        None \<Rightarrow> (s, VX_ERROR_INVALID_PARAMETERS)
      | Some h \<Rightarrow>
          (case osq_put (tgt_job_queue (sys_targets s ! h)) (ucast obj_desc_id) of
             (q, status) \<Rightarrow>
               (s\<lparr>sys_targets := (sys_targets s)
                   [h := (sys_targets s ! h)\<lparr>tgt_job_queue := q\<rparr>]\<rparr>, status)))"

text \<open>\<open>ownTargetDequeueObjDesc\<close> in the task of target \<open>h\<close>; \<open>None\<close> when it sleeps for ever.\<close>

definition ownTargetDequeueObjDesc ::
  "wait_env list \<Rightarrow> sys \<Rightarrow> nat \<Rightarrow> uint32 \<Rightarrow> (sys \<times> uint16 \<times> vx_status) option" where
  "ownTargetDequeueObjDesc ws s h timeout =
     map_option
       (\<lambda>(q, d, status). (s\<lparr>sys_targets := (sys_targets s)
            [h := (sys_targets s ! h)\<lparr>tgt_job_queue := q\<rparr>]\<rparr>,
          if status = VX_SUCCESS
          then (case d of Some v \<Rightarrow> ucast v | None \<Rightarrow> TIVX_OBJ_DESC_INVALID)
          else TIVX_OBJ_DESC_INVALID, status))
       (tivxQueueGet posix_ok ws (tgt_job_queue (sys_targets s ! h)) timeout)"

text \<open>\<open>ownIpcSendMsg\<close> belongs to the platform: the message is recorded and the platform gives the
  status.\<close>

definition ipc_send ::
  "platform \<Rightarrow> sys \<Rightarrow> uint32 \<Rightarrow> uint32 \<Rightarrow> uint32 \<Rightarrow> uint16 \<Rightarrow> sys \<times> vx_status" where
  "ipc_send pl s cpu payload host_cpu host_port =
     (s\<lparr>sys_ipc := sys_ipc s @ [\<lparr>ipc_cpu_id = cpu, ipc_payload = payload,
          ipc_host_cpu_id = host_cpu, ipc_host_port_id = host_port\<rparr>]\<rparr>,
      pl_ipc_send pl (length (sys_ipc s)))"

definition ownObjDescSend :: "platform \<Rightarrow> sys \<Rightarrow> uint32 \<Rightarrow> uint16 \<Rightarrow> sys \<times> vx_status" where
  "ownObjDescSend pl s dst_target_id obj_desc_id =
     (let cpu_id = ownTargetGetCpuId dst_target_id; self_cpu_id = pf_self_cpu_id pl in
      if cpu_id = self_cpu_id then ownTargetQueueObjDesc s dst_target_id obj_desc_id
      else
       (case ownObjDescGet (sys_tbl s) obj_desc_id of
          None \<Rightarrow> (s, VX_FAILURE)
        | Some i \<Rightarrow>
            if sint self_cpu_id < 16 \<and> self_cpu_id \<noteq> - 1
            then ipc_send pl s cpu_id (ownIpcPayloadMake dst_target_id obj_desc_id)
                   (od_host_cpu_id (sys_desc s i))
                   (od_host_port_id (sys_desc s i) ! unat self_cpu_id)
            else (s, VX_FAILURE)))"

text \<open>\<open>ownObjDescIpcHandler\<close>, on the receiving CPU.\<close>

definition ownObjDescIpcHandler :: "sys \<Rightarrow> uint32 \<Rightarrow> sys" where
  "ownObjDescIpcHandler s payload =
     fst (ownTargetQueueObjDesc s (ownIpcPayloadGetTargetId payload)
            (ownIpcPayloadGetObjDescId payload))"

definition ownTargetTriggerNode :: "platform \<Rightarrow> sys \<Rightarrow> uint16 \<Rightarrow> sys" where
  "ownTargetTriggerNode pl s node_obj_desc_id =
     (let n = ownObjDescGet (sys_tbl s) node_obj_desc_id in
      if ownObjDescIsValidType (sys_tbl s) n TIVX_OBJ_DESC_NODE
      then fst (ownObjDescSend pl s (nd_target_id (node_of s (the n))) node_obj_desc_id)
      else s)"

section \<open>Creating a target\<close>

text \<open>The memory of the job queue is zero; the result of \<open>tivxTaskCreate\<close> is an argument. The
  parameters of the task itself (stack, priority, name) are not part of the model.\<close>

definition ownTargetCreate ::
  "posix_rc \<Rightarrow> vx_status \<Rightarrow> posix_objects \<Rightarrow> sys \<Rightarrow> vx_enum \<Rightarrow> posix_objects \<times> sys \<times> vx_status"
where
  "ownTargetCreate rc task_create po s target_id =
     (case ownTargetAllocHandle s target_id of
        (s1, None) \<Rightarrow> (po, s1, VX_ERROR_NO_RESOURCES)
      | (s1, Some h) \<Rightarrow>
          (let t = (sys_targets s1 ! h)\<lparr>tgt_target_id := target_id, tgt_exit_request := False,
                                         tgt_exit_done := False\<rparr> in
           case tivxQueueCreate rc po (tgt_job_queue t) TIVX_TARGET_MAX_JOB_QUEUE_DEPTH
                  (Some (replicate TIVX_TARGET_MAX_JOB_QUEUE_DEPTH 0))
                  TIVX_QUEUE_FLAG_BLOCK_ON_GET of
             (po1, q, status) \<Rightarrow>
               if status = VX_SUCCESS then
                 (if task_create = VX_SUCCESS
                  then (po1, s1\<lparr>sys_targets := (sys_targets s1)[h := t\<lparr>tgt_job_queue := q\<rparr>]\<rparr>,
                        task_create)
                  else
                   (case tivxQueueDelete rc po1 q of
                      (po2, q1, _) \<Rightarrow>
                        (po2, fst (ownTargetFreeHandle (s1\<lparr>sys_targets := (sys_targets s1)
                           [h := t\<lparr>tgt_job_queue := q1\<rparr>]\<rparr>) (Some h)), task_create)))
               else (po1, fst (ownTargetFreeHandle (s1\<lparr>sys_targets := (sys_targets s1)
                           [h := t\<lparr>tgt_job_queue := q\<rparr>]\<rparr>) (Some h)), status)))"

definition ownTargetInit :: "sys \<Rightarrow> sys" where
  "ownTargetInit s = s\<lparr>sys_targets :=
       map (\<lambda>t. t\<lparr>tgt_target_id := TIVX_TARGET_ID_INVALID\<rparr>) (sys_targets s),
     sys_kernels := ownTargetKernelInit (sys_kernels s),
     sys_instances := ownTargetKernelInstanceInit (sys_instances s)\<rparr>"

section \<open>Frame lemmas\<close>

lemma queue_obj_desc_tbl [simp]: "sys_tbl (fst (ownTargetQueueObjDesc s t i)) = sys_tbl s"
  by (simp add: ownTargetQueueObjDesc_def split: option.splits prod.splits)

lemma ipc_send_tbl [simp]: "sys_tbl (fst (ipc_send pl s a b c d)) = sys_tbl s"
  by (simp add: ipc_send_def)

lemma obj_desc_send_tbl [simp]: "sys_tbl (fst (ownObjDescSend pl s t i)) = sys_tbl s"
  by (simp add: ownObjDescSend_def Let_def split: option.splits)

lemma trigger_node_tbl [simp]: "sys_tbl (ownTargetTriggerNode pl s i) = sys_tbl s"
  by (simp add: ownTargetTriggerNode_def Let_def)

text \<open>Sending is all that the code below does with the targets: a client that sends in any order
  leaves the descriptor table as it is. The contract that the pipeline code uses.\<close>

locale messenger =
  fixes send :: "'s \<Rightarrow> uint32 \<Rightarrow> uint16 \<Rightarrow> 's \<times> vx_status"
    and trigger :: "'s \<Rightarrow> uint16 \<Rightarrow> 's"
    and tbl :: "'s \<Rightarrow> tivx_obj_desc_table_info"
  assumes send_tbl: "tbl (fst (send s d i)) = tbl s"
    and trigger_sends: "trigger s i = s \<or> (\<exists>d. trigger s i = fst (send s d i))"
begin

lemma trigger_tbl: "tbl (trigger s i) = tbl s"
  using trigger_sends [of s i] send_tbl by auto

lemma triggers_tbl: "tbl (foldl trigger s ids) = tbl s"
  by (induction ids arbitrary: s) (simp_all add: trigger_tbl)

end

interpretation target_messenger: messenger "ownObjDescSend pl" "ownTargetTriggerNode pl" sys_tbl
  for pl
  by unfold_locales (auto simp: ownTargetTriggerNode_def Let_def)

section \<open>Correctness properties\<close>

text \<open>The jobs that wait in the queue of target \<open>h\<close>.\<close>

definition jobs :: "sys \<Rightarrow> nat \<Rightarrow> uintptr list" where
  "jobs s h = queue_elems (tgt_job_queue (sys_targets s ! h))"

definition target_ready :: "sys \<Rightarrow> vx_enum \<Rightarrow> nat \<Rightarrow> bool" where
  "target_ready s target_id h \<longleftrightarrow> ownTargetGetHandle s target_id = Some h
     \<and> queue_inv (tgt_job_queue (sys_targets s ! h))
     \<and> length (jobs s h) < queue_cap (tgt_job_queue (sys_targets s ! h))"

lemma get_handle_some:
  "ownTargetGetHandle s tid = Some h \<longleftrightarrow> h = unat (TIVX_GET_TARGET_INST tid)
    \<and> h < length (sys_targets s) \<and> tgt_target_id (sys_targets s ! h) = tid"
  by (auto simp: ownTargetGetHandle_def Let_def)

lemma queue_obj_desc_ready:
  assumes "target_ready s tid h"
  shows "\<exists>s'. ownTargetQueueObjDesc s tid i = (s', VX_SUCCESS)
    \<and> jobs s' h = jobs s h @ [ucast i] \<and> sys_ipc s' = sys_ipc s
    \<and> (\<forall>k. k \<noteq> h \<longrightarrow> jobs s' k = jobs s k)"
proof -
  let ?q = "tgt_job_queue (sys_targets s ! h)"
  have h: "ownTargetGetHandle s tid = Some h" "h < length (sys_targets s)"
    using assms by (auto simp: target_ready_def get_handle_some)
  obtain q' where "osq_put ?q (ucast i) = (q', VX_SUCCESS)"
    "queue_elems q' = queue_elems ?q @ [ucast i]"
    using osq.put_ok [of ?q "ucast i"] assms by (auto simp: target_ready_def jobs_def)
  with h show ?thesis
    by (simp add: ownTargetQueueObjDesc_def jobs_def)
qed

lemma ipc_handler_ready:
  assumes "target_ready r tid h" "tid AND TIVX_TARGET_ID_MASK = tid"
  shows "jobs (ownObjDescIpcHandler r (ownIpcPayloadMake tid i)) h = jobs r h @ [ucast i]"
proof -
  have "ownIpcPayloadGetTargetId (ownIpcPayloadMake tid i) = tid"
    "ownIpcPayloadGetObjDescId (ownIpcPayloadMake tid i) = i"
    using payload_get [of tid i] assms(2) by auto
  with queue_obj_desc_ready [OF assms(1), of i] show ?thesis
    by (auto simp: ownObjDescIpcHandler_def)
qed

text \<open>C17: a successful \<open>ownObjDescSend\<close> puts the id of the descriptor in the queue of the target it
  is for: at once when the target is on this CPU, and otherwise when the CPU that the message
  goes to handles the one message that was sent. Nothing else is queued or sent, and the
  descriptor table does not change.\<close>

theorem ownObjDescSend_delivers:
  assumes "ownObjDescSend pl s tid i = (s', VX_SUCCESS)"
    and "tid AND TIVX_TARGET_ID_MASK = tid"
    and "ownTargetGetCpuId tid = pf_self_cpu_id pl \<longrightarrow> target_ready s tid h"
    and "target_ready r tid hr"
  shows "sys_tbl s' = sys_tbl s
    \<and> (if ownTargetGetCpuId tid = pf_self_cpu_id pl
       then jobs s' h = jobs s h @ [ucast i] \<and> sys_ipc s' = sys_ipc s
         \<and> (\<forall>k. k \<noteq> h \<longrightarrow> jobs s' k = jobs s k)
       else (\<exists>m. sys_ipc s' = sys_ipc s @ [m] \<and> ipc_cpu_id m = ownTargetGetCpuId tid
         \<and> sys_targets s' = sys_targets s
         \<and> jobs (ownObjDescIpcHandler r (ipc_payload m)) hr = jobs r hr @ [ucast i]))"
proof -
  have tbl: "sys_tbl s' = sys_tbl s"
    using obj_desc_send_tbl [of pl s tid i] assms(1) by simp
  show ?thesis
  proof (cases "ownTargetGetCpuId tid = pf_self_cpu_id pl")
    case True
    with queue_obj_desc_ready [of s tid h i] assms(1,3) tbl show ?thesis
      by (auto simp: ownObjDescSend_def)
  next
    case False
    with assms(1) obtain m where "sys_ipc s' = sys_ipc s @ [m]"
      "ipc_cpu_id m = ownTargetGetCpuId tid" "sys_targets s' = sys_targets s"
      "ipc_payload m = ownIpcPayloadMake tid i"
      by (auto simp: ownObjDescSend_def Let_def ipc_send_def split: option.splits if_splits)
    with False tbl ipc_handler_ready [OF assms(4,2), of i] show ?thesis by auto
  qed
qed

definition sample_platform :: platform where
  "sample_platform = \<lparr>pf_host_port_id = (\<lambda>_. 0), pf_self_cpu_id = 1,
     pl_time_in_usecs = of_nat, pl_ipc_send = (\<lambda>_. VX_SUCCESS)\<rparr>"

definition sample_sys :: "vx_enum \<Rightarrow> sys" where
  "sample_sys tid = \<lparr>sys_tbl = sample_table,
     sys_targets = [\<lparr>tgt_target_id = tid, tgt_job_queue = sample_queue,
                     tgt_exit_request = False, tgt_exit_done = False\<rparr>],
     sys_kernels = sample_kernels, sys_instances = [], sys_ipc = [], sys_events = [],
     sys_clock_reads = 0\<rparr>"

lemma sample_sys_ready: "target_ready (sample_sys 0x200) 0x200 0"
  using sample_queue_inv
  by (simp add: target_ready_def sample_sys_def ownTargetGetHandle_def TIVX_GET_TARGET_INST_def
      jobs_def queue_elems_def queue_cap_def sample_queue_def init_queue_def)

theorem ownObjDescSend_delivers_witness:
  "\<exists>s' m. ownObjDescSend sample_platform (sample_sys 0x100) 0x200 2 = (s', VX_SUCCESS)
    \<and> sys_ipc s' = [m] \<and> ipc_cpu_id m = 2
    \<and> jobs (ownObjDescIpcHandler (sample_sys 0x200) (ipc_payload m)) 0 = [2]"
proof -
  obtain s' st where run: "ownObjDescSend sample_platform (sample_sys 0x100) 0x200 2 = (s', st)"
    by fastforce
  have "st = VX_SUCCESS"
    using run by (auto simp: ownObjDescSend_def Let_def ownTargetGetCpuId_def TIVX_GET_CPU_ID_def
        sample_platform_def ownObjDescGet_def sample_sys_def sample_table_def ipc_send_def)
  moreover have "jobs (sample_sys 0x200) 0 = []"
    by (simp add: jobs_def sample_sys_def queue_elems_def sample_queue_def init_queue_def)
  ultimately show ?thesis
    using ownObjDescSend_delivers [of sample_platform "sample_sys 0x100" "0x200" 2 s' 0
        "sample_sys 0x200" 0] run sample_sys_ready
    by (auto simp: ownTargetGetCpuId_def TIVX_GET_CPU_ID_def sample_platform_def sample_sys_def)
qed

text \<open>A target id made from a CPU and a target instance gives both back, cut to their 4 and 8
  bits, and survives the 12-bit mask of the IPC payload.\<close>

theorem target_id_roundtrip:
  "TIVX_GET_CPU_ID (TIVX_MAKE_TARGET_ID cpu inst) = cpu AND 0xF
   \<and> TIVX_GET_TARGET_INST (TIVX_MAKE_TARGET_ID cpu inst) = ucast (inst AND 0xFF)
   \<and> TIVX_MAKE_TARGET_ID cpu inst AND TIVX_TARGET_ID_MASK = TIVX_MAKE_TARGET_ID cpu inst"
proof -
  have m: "(0xF :: uint32) = Bit_Operations.mask 4" "(0xFF :: uint32) = Bit_Operations.mask 8"
    "(0xFFF :: uint32) = Bit_Operations.mask 12" "(0xFF :: uint16) = Bit_Operations.mask 8"
    by (simp_all add: mask_eq_exp_minus_1)
  show ?thesis
    unfolding TIVX_GET_CPU_ID_def TIVX_GET_TARGET_INST_def TIVX_MAKE_TARGET_ID_def m
    by (intro conjI; rule bit_word_eqI) (auto simp: bit_simps)
qed

text \<open>C39: creating a target makes it reachable by its id with an empty job queue of 96 entries;
  when the queue or the task cannot be created, or the id is taken, an error is reported and the
  pools are unchanged.\<close>

theorem ownTargetCreate_correct:
  assumes "ownTargetCreate rc task_create po s tid = (po', s', st)"
    and "tid \<noteq> TIVX_TARGET_ID_INVALID"
  shows "sys_tbl s' = sys_tbl s \<and>
    (st = VX_SUCCESS \<and> (\<exists>h. ownTargetGetHandle s' tid = Some h
        \<and> queue_inv (tgt_job_queue (sys_targets s' ! h)) \<and> jobs s' h = []
        \<and> queue_cap (tgt_job_queue (sys_targets s' ! h)) = 96
        \<and> \<not> tgt_exit_request (sys_targets s' ! h))
     \<or> st \<noteq> VX_SUCCESS \<and> po' = po)"
proof (cases "snd (ownTargetAllocHandle s tid)")
  case None
  then show ?thesis
    using assms
    by (auto simp: ownTargetCreate_def ownTargetAllocHandle_def Let_def split: if_splits)
next
  case (Some h)
  let ?t = "(sys_targets s ! h)\<lparr>tgt_target_id := tid, tgt_exit_request := False,
      tgt_exit_done := False\<rparr>"
  have h: "h = unat (TIVX_GET_TARGET_INST tid)" "h < length (sys_targets s)"
    "ownTargetAllocHandle s tid = (s\<lparr>sys_targets := (sys_targets s)
       [h := (sys_targets s ! h)\<lparr>tgt_target_id := tid\<rparr>]\<rparr>, Some h)"
    using Some by (auto simp: ownTargetAllocHandle_def Let_def split: if_splits)
  obtain po1 q s1 where c: "tivxQueueCreate rc po (tgt_job_queue ?t) 96 (Some (replicate 96 0))
      TIVX_QUEUE_FLAG_BLOCK_ON_GET = (po1, q, s1)" by (metis prod_cases3)
  note qc = queue_create_cases [OF c]
  consider (no_queue) "s1 \<noteq> VX_SUCCESS" | (no_task) "s1 = VX_SUCCESS" "task_create \<noteq> VX_SUCCESS"
    | (ok) "s1 = VX_SUCCESS" "task_create = VX_SUCCESS" by blast
  then show ?thesis
  proof cases
    case no_queue
    with assms h c qc show ?thesis
      by (auto simp: ownTargetCreate_def ownTargetFreeHandle_def)
  next
    case no_task
    with assms h c qc show ?thesis
      by (auto simp: ownTargetCreate_def ownTargetFreeHandle_def split: prod.splits)
  next
    case ok
    then have "st = VX_SUCCESS" "s' = s\<lparr>sys_targets := (sys_targets s)
        [h := ?t\<lparr>tgt_job_queue := q\<rparr>]\<rparr>"
      using assms(1) h c by (auto simp: ownTargetCreate_def Let_def)
    with ok qc h show ?thesis by (auto simp: get_handle_some jobs_def)
  qed
qed

theorem ownTargetCreate_correct_witness:
  "\<exists>po' s' h. ownTargetCreate posix_ok VX_SUCCESS
      \<lparr>isEventUse = [], isMutexUse = [True], isQueueUse = [False], isTaskUse = [],
       objects_lock = Some 0\<rparr> (sample_sys 0) 0x100 = (po', s', VX_SUCCESS)
    \<and> ownTargetGetHandle s' 0x100 = Some h \<and> jobs s' h = []"
proof -
  let ?po = "\<lparr>isEventUse = [], isMutexUse = [True], isQueueUse = [False], isTaskUse = [],
       objects_lock = Some 0\<rparr> :: posix_objects"
  obtain po' s' st where run: "ownTargetCreate posix_ok VX_SUCCESS ?po (sample_sys 0) 0x100
      = (po', s', st)" by (metis prod_cases3)
  then have "st = VX_SUCCESS"
    by (auto simp: ownTargetCreate_def ownTargetAllocHandle_def TIVX_GET_TARGET_INST_def
        sample_sys_def Let_def tivxQueueCreate_def posix_ok_def ownPosixObjectAlloc_def
        ownAllocPosixObject_def tivxMutexLock_def split: if_splits)
  with ownTargetCreate_correct [OF run] run show ?thesis by auto
qed

end
