(* ===== verification/Target_Params.thy ===== *)
theory Target_Params
  imports Target_Core
begin

text \<open>
  Acquiring and releasing the parameters of a node in a pipelined graph,
  \<open>source/framework/vx_target_acquire_parameters.c\<close>. A parameter that is a data reference queue
  takes a buffer from its acquire queue for the first node that wants it, lends the same buffer
  to every other input node, and gives it to its release queue when the last one is done. A
  node that finds no buffer is put on the queue's list of blocked nodes and triggered again by
  the release. A node and a data reference queue are given by their index in the table.
\<close>

section \<open>Flags and states\<close>

abbreviation (input) DATA_REF_Q_FLAG_IS_ENABLE_REF_CONSUMED_EVENT :: uint32
  where "DATA_REF_Q_FLAG_IS_ENABLE_REF_CONSUMED_EVENT \<equiv> 1"
abbreviation (input) DATA_REF_Q_FLAG_IS_REF_ACQUIRED :: uint32
  where "DATA_REF_Q_FLAG_IS_REF_ACQUIRED \<equiv> 2"
abbreviation (input) DATA_REF_Q_FLAG_IS_IN_DELAY :: uint32
  where "DATA_REF_Q_FLAG_IS_IN_DELAY \<equiv> 4"
abbreviation (input) DATA_REF_Q_FLAG_DELAY_SLOT_AUTO_AGE :: uint32
  where "DATA_REF_Q_FLAG_DELAY_SLOT_AUTO_AGE \<equiv> 8"
abbreviation (input) TIVX_NODE_OBJ_DESC_STATE_IDLE :: uint16
  where "TIVX_NODE_OBJ_DESC_STATE_IDLE \<equiv> 0"
abbreviation (input) TIVX_NODE_OBJ_DESC_STATE_BLOCKED :: uint16
  where "TIVX_NODE_OBJ_DESC_STATE_BLOCKED \<equiv> 1"

section \<open>The queue operations on the state of a CPU\<close>

definition sys_enqueue :: "sys \<Rightarrow> uint16 \<Rightarrow> uint16 \<Rightarrow> sys \<times> vx_status" where
  "sys_enqueue s qid x = (case ownObjDescQueueEnqueue (sys_tbl s) qid x of
     (t, st) \<Rightarrow> (s\<lparr>sys_tbl := t\<rparr>, st))"

definition sys_dequeue :: "sys \<Rightarrow> uint16 \<Rightarrow> sys \<times> uint16 \<times> vx_status" where
  "sys_dequeue s qid = (case ownObjDescQueueDequeue (sys_tbl s) qid of
     (t, x, st) \<Rightarrow> (s\<lparr>sys_tbl := t\<rparr>, x, st))"

definition sys_add_blocked :: "sys \<Rightarrow> uint16 \<Rightarrow> uint16 \<Rightarrow> sys \<times> vx_status" where
  "sys_add_blocked s qid node = (case ownObjDescQueueAddBlockedNode (sys_tbl s) qid node of
     (t, st) \<Rightarrow> (s\<lparr>sys_tbl := t\<rparr>, st))"

definition sys_extract_blocked ::
  "sys \<Rightarrow> uint16 \<Rightarrow> tivx_obj_desc_queue_blocked_nodes \<Rightarrow>
   sys \<times> tivx_obj_desc_queue_blocked_nodes" where
  "sys_extract_blocked s qid out = (case ownObjDescQueueExtractBlockedNodes (sys_tbl s) qid out of
     (t, out', _) \<Rightarrow> (s\<lparr>sys_tbl := t\<rparr>, out'))"

section \<open>The reference consumed event\<close>

definition ownTargetObjDescSendRefConsumed :: "platform \<Rightarrow> sys \<Rightarrow> nat \<Rightarrow> sys" where
  "ownTargetObjDescSendRefConsumed pl s d =
     (let q = drq_of s d in
      if tivxFlagIsBitSet (drq_flags q) DATA_REF_Q_FLAG_IS_ENABLE_REF_CONSUMED_EVENT then
       (let cmd_id = drq_ref_consumed_cmd_obj_desc_id q in
        if cmd_id \<noteq> TIVX_OBJ_DESC_INVALID then
         (let c = ownObjDescGet (sys_tbl s) cmd_id in
          if ownObjDescIsValidType (sys_tbl s) c TIVX_OBJ_DESC_CMD then
           (case read_clock pl s of
              (s1, us) \<Rightarrow>
               (let s2 = upd_cmd (the c)
                      (\<lambda>k. k\<lparr>cmd_timestamp := tivx_uint64_to_uint32 (us * 1000)\<rparr>) s1
                in fst (ownObjDescSend pl s2 (cmd_dst_target_id (cmd_of s2 (the c))) cmd_id)))
          else s)
        else s)
      else s)"

section \<open>Acquire one parameter\<close>

definition ownTargetNodeDescAcquireParameter ::
  "sys \<Rightarrow> nat \<Rightarrow> nat \<Rightarrow> bool \<Rightarrow> bool \<Rightarrow> sys \<times> uint16 \<times> bool" where
  "ownTargetNodeDescAcquireParameter s n d is_node_blocked is_pipeup =
     (let flags = drq_flags (drq_of s d) in
      if \<not> tivxFlagIsBitSet flags DATA_REF_Q_FLAG_IS_REF_ACQUIRED then
       (let qid = drq_acquire_q_obj_desc_id (drq_of s d) in
        case sys_dequeue s qid of
          (s1, ref, _) \<Rightarrow>
            if ref = TIVX_OBJ_DESC_INVALID then
              (if \<not> is_pipeup then
                (case sys_add_blocked s1 qid (od_obj_desc_id (sys_desc s1 n)) of
                   (s2, st) \<Rightarrow>
                     if st = VX_SUCCESS
                     then (upd_node n (\<lambda>k. k\<lparr>nd_state := TIVX_NODE_OBJ_DESC_STATE_BLOCKED\<rparr>) s2,
                           TIVX_OBJ_DESC_INVALID, True)
                     else (s2, TIVX_OBJ_DESC_INVALID, is_node_blocked))
               else (s1, TIVX_OBJ_DESC_INVALID, is_node_blocked))
            else
              (let s2 = (if \<not> is_pipeup
                         then upd_drq d (\<lambda>q. q\<lparr>drq_ref_obj_desc_id := ref,
                                drq_in_node_done_cnt := 0,
                                drq_flags := tivxFlagBitSet flags
                                  DATA_REF_Q_FLAG_IS_REF_ACQUIRED\<rparr>) s1
                         else s1);
                   s3 = (case ownObjDescGet (sys_tbl s2) ref of
                           Some p \<Rightarrow> upd_base p (\<lambda>b. b\<lparr>od_in_node_done_cnt := 0\<rparr>) s2
                         | None \<Rightarrow> s2)
               in (s3, ref, is_node_blocked)))
      else (s, drq_ref_obj_desc_id (drq_of s d), is_node_blocked))"

section \<open>Release one parameter\<close>

text \<open>The walk over the other slots of a delay, \<open>k\<close> of them left. Only a build with \<open>HOST_ONLY\<close>
  rotates the buffers of the slots that age automatically. \<open>delay_slots\<close> is at least 1; the
  code computes \<open>delay_slots - 1\<close> on 32 bits.\<close>

fun release_in_delay_loop ::
  "bool \<Rightarrow> nat \<Rightarrow> sys \<Rightarrow> nat \<Rightarrow> tivx_obj_desc_queue_blocked_nodes \<Rightarrow>
   sys \<times> tivx_obj_desc_queue_blocked_nodes" where
  "release_in_delay_loop host_only 0 s cur bn = (s, bn)"
| "release_in_delay_loop host_only (Suc k) s cur bn =
     (case ownObjDescGet (sys_tbl s) (drq_next_obj_desc_id_in_delay (drq_of s cur)) of
        None \<Rightarrow> (s, bn)
      | Some nxt \<Rightarrow>
         (if host_only \<and> tivxFlagIsBitSet (drq_flags (drq_of s nxt))
                            DATA_REF_Q_FLAG_DELAY_SLOT_AUTO_AGE then
           (case sys_dequeue s (drq_acquire_q_obj_desc_id (drq_of s nxt)) of
              (s1, ref, _) \<Rightarrow>
                if ref \<noteq> TIVX_OBJ_DESC_INVALID then
                 (let qid = drq_release_q_obj_desc_id (drq_of s1 nxt) in
                  case sys_enqueue s1 qid ref of
                    (s2, st) \<Rightarrow>
                      if st = VX_SUCCESS then
                       (case sys_extract_blocked s2 qid bn of
                          (s3, bn') \<Rightarrow> release_in_delay_loop host_only k s3 nxt bn')
                      else release_in_delay_loop host_only k s2 nxt bn)
                else release_in_delay_loop host_only k s1 nxt bn)
          else release_in_delay_loop host_only k s nxt bn))"

definition ownTargetNodeDescReleaseParameterInDelay ::
  "bool \<Rightarrow> sys \<Rightarrow> nat \<Rightarrow> tivx_obj_desc_queue_blocked_nodes \<Rightarrow>
   sys \<times> tivx_obj_desc_queue_blocked_nodes" where
  "ownTargetNodeDescReleaseParameterInDelay host_only s d bn =
     release_in_delay_loop host_only
       (unat ((ucast (drq_delay_slots (drq_of s d)) :: uint32) - 1)) s d bn"

text \<open>The first half of the release: counts the node as done and decides whether the buffer goes
  back (\<open>do_release_ref\<close>, \<open>do_release_ref_to_queue\<close>).\<close>

definition release_count :: "sys \<Rightarrow> nat \<Rightarrow> uint16 \<Rightarrow> bool \<Rightarrow> sys \<times> bool \<times> bool" where
  "release_count s d ref is_prm_input =
     (let p = ownObjDescGet (sys_tbl s) ref in
      if is_prm_input then
       (let s1 = upd_drq d (\<lambda>q. q\<lparr>drq_in_node_done_cnt := drq_in_node_done_cnt q + 1\<rparr>) s;
            do_release_ref = (drq_in_node_done_cnt (drq_of s1 d) = drq_num_in_nodes (drq_of s1 d))
        in case p of
             None \<Rightarrow> (s1, do_release_ref, False)
           | Some i \<Rightarrow>
               (upd_base i (\<lambda>b. b\<lparr>od_in_node_done_cnt :=
                    if do_release_ref then 0 else od_in_node_done_cnt b + 1\<rparr>) s1,
                do_release_ref, do_release_ref))
      else if drq_num_in_nodes (drq_of s d) = 0 then (s, True, p \<noteq> None)
      else (upd_drq d (\<lambda>q. q\<lparr>drq_ref_obj_desc_id := ref\<rparr>) s, False, False))"

text \<open>The second half: the buffer goes to the release queue, and the nodes blocked there come out.\<close>

definition release_to_queue ::
  "bool \<Rightarrow> sys \<Rightarrow> nat \<Rightarrow> uint16 \<Rightarrow> sys \<times> tivx_obj_desc_queue_blocked_nodes" where
  "release_to_queue host_only s d ref =
     (let qid = drq_release_q_obj_desc_id (drq_of s d) in
      case sys_enqueue s qid ref of
        (s1, st) \<Rightarrow>
         (case (if st = VX_SUCCESS then sys_extract_blocked s1 qid no_blocked
                else (s1, no_blocked)) of
            (s2, bn) \<Rightarrow>
              if tivxFlagIsBitSet (drq_flags (drq_of s2 d)) DATA_REF_Q_FLAG_IS_IN_DELAY
              then ownTargetNodeDescReleaseParameterInDelay host_only s2 d bn
              else (s2, bn)))"

definition ownTargetNodeDescReleaseParameter ::
  "platform \<Rightarrow> bool \<Rightarrow> sys \<Rightarrow> nat \<Rightarrow> nat \<Rightarrow> uint16 \<Rightarrow> bool \<Rightarrow> sys \<times> bool" where
  "ownTargetNodeDescReleaseParameter pl host_only s n d ref is_prm_input =
     (let flags = drq_flags (drq_of s d) in
      case release_count s d ref is_prm_input of
        (s1, do_release_ref, do_release_ref_to_queue) \<Rightarrow>
         (case (if do_release_ref_to_queue then release_to_queue host_only s1 d ref
                else (s1, no_blocked)) of
            (s2, bn) \<Rightarrow>
             (let s3 = (if do_release_ref
                        then upd_drq d (\<lambda>q. q\<lparr>drq_flags := tivxFlagBitClear flags
                               DATA_REF_Q_FLAG_IS_REF_ACQUIRED\<rparr>) s2
                        else s2)
              in (foldl (ownTargetTriggerNode pl) s3 (bn_list bn), do_release_ref_to_queue))))"

section \<open>All the parameters of a node\<close>

text \<open>The loop over the parameters, \<open>k\<close> of them left from \<open>prm_id\<close>; \<open>prm\<close> is the caller's array
  and \<open>all_invalid\<close> the variable \<open>are_all_prm_invalid\<close>.\<close>

fun acquire_all_loop ::
  "nat \<Rightarrow> nat \<Rightarrow> sys \<Rightarrow> nat \<Rightarrow> uint16 list \<Rightarrow> bool \<Rightarrow> bool \<Rightarrow> bool \<Rightarrow>
   sys \<times> uint16 list \<times> bool \<times> bool" where
  "acquire_all_loop 0 prm_id s n prm blocked all_invalid is_pipeup = (s, prm, blocked, all_invalid)"
| "acquire_all_loop (Suc k) prm_id s n prm blocked all_invalid is_pipeup =
     (let nd = node_of s n in
      case (if \<not> prm_bit (nd_is_prm_data_ref_q nd) prm_id
            then (s, nd_data_id nd ! prm_id, blocked, False)
            else
             (let d = ownObjDescGet (sys_tbl s) (nd_data_ref_q_id nd ! prm_id) in
              if ownObjDescIsValidType (sys_tbl s) d TIVX_OBJ_DESC_DATA_REF_Q then
               (case ownTargetNodeDescAcquireParameter s n (the d) blocked is_pipeup of
                  (s1, ref, b) \<Rightarrow> (s1, ref, b, False))
              else (s, TIVX_OBJ_DESC_INVALID, blocked, all_invalid))) of
        (s1, ref, b, a) \<Rightarrow>
          if b \<and> \<not> is_pipeup then (s1, prm[prm_id := ref], b, a)
          else acquire_all_loop k (Suc prm_id) s1 n (prm[prm_id := ref]) b a is_pipeup)"

definition ownTargetNodeDescAcquireAllParameters ::
  "sys \<Rightarrow> nat \<Rightarrow> uint16 list \<Rightarrow> bool \<Rightarrow> sys \<times> uint16 list \<times> bool" where
  "ownTargetNodeDescAcquireAllParameters s n prm is_pipeup =
     (case acquire_all_loop (unat (nd_num_params (node_of s n))) 0 s n prm False True is_pipeup of
        (s1, prm1, blocked, all_invalid) \<Rightarrow>
          if all_invalid
          then (upd_node n (\<lambda>k. k\<lparr>nd_state := TIVX_NODE_OBJ_DESC_STATE_BLOCKED\<rparr>) s1, prm1, True)
          else (s1, prm1, blocked))"

fun release_all_loop ::
  "platform \<Rightarrow> bool \<Rightarrow> nat \<Rightarrow> nat \<Rightarrow> sys \<Rightarrow> nat \<Rightarrow> uint16 list \<Rightarrow> tivx_obj_desc_node \<Rightarrow> sys" where
  "release_all_loop pl host_only 0 prm_id s n prm nd = s"
| "release_all_loop pl host_only (Suc k) prm_id s n prm nd =
     (let s1 =
       (if \<not> prm_bit (nd_is_prm_data_ref_q nd) prm_id then s
        else
         (let d = ownObjDescGet (sys_tbl s) (nd_data_ref_q_id nd ! prm_id) in
          if ownObjDescIsValidType (sys_tbl s) d TIVX_OBJ_DESC_DATA_REF_Q then
           (let is_input = (prm_bit (nd_is_prm_input nd) prm_id \<or> prm_bit (nd_is_prm_bidi nd) prm_id)
            in case ownTargetNodeDescReleaseParameter pl host_only s n (the d) (prm ! prm_id)
                      is_input of
                 (s', released) \<Rightarrow>
                   if released then ownTargetObjDescSendRefConsumed pl s' (the d) else s')
          else s))
      in release_all_loop pl host_only k (Suc prm_id) s1 n prm nd)"

text \<open>The masks, the number of parameters and the ids of a node are set by the host before and do
  not change during the call.\<close>

definition ownTargetNodeDescReleaseAllParameters ::
  "platform \<Rightarrow> bool \<Rightarrow> sys \<Rightarrow> nat \<Rightarrow> uint16 list \<Rightarrow> sys" where
  "ownTargetNodeDescReleaseAllParameters pl host_only s n prm =
     release_all_loop pl host_only (unat (nd_num_params (node_of s n))) 0 s n prm (node_of s n)"

section \<open>Operations as updates of one queue\<close>

lemma dequeue_some:
  assumes "odq_inv qid t" "odq_elems qid t = x # xs"
  shows "ownObjDescQueueDequeue t qid = (upd_queue (unat qid) dequeue_elem t, x, VX_SUCCESS)"
    "odq_inv qid (upd_queue (unat qid) dequeue_elem t)"
    "odq_elems qid (upd_queue (unat qid) dequeue_elem t) = xs"
    "odq_blocked qid (upd_queue (unat qid) dequeue_elem t) = odq_blocked qid t"
proof -
  note q = odq_inv_queue [OF assms(1)]
  have pos: "0 < odq_count (queue_of t (unat qid))"
    using assms(2) odq_count [of qid t] by (auto simp: word_less_nat_alt)
  note r = dequeue_elem_refines [OF q(2) pos] and u = upd_queue_same [OF assms(1), of dequeue_elem]
  show "ownObjDescQueueDequeue t qid = (upd_queue (unat qid) dequeue_elem t, x, VX_SUCCESS)"
    using pos r(2) q(1) assms(2) by (simp add: ownObjDescQueueDequeue_def Let_def odq_elems_def)
  show "odq_inv qid (upd_queue (unat qid) dequeue_elem t)" using u(1) r(1) by simp
  show "odq_elems qid (upd_queue (unat qid) dequeue_elem t) = xs"
    using u(2) r assms(2) by (simp add: odq_elems_def)
  show "odq_blocked qid (upd_queue (unat qid) dequeue_elem t) = odq_blocked qid t"
    using u(3) r by (simp add: odq_blocked_def)
qed

lemma dequeue_none:
  assumes "odq_inv qid t" "odq_elems qid t = []"
  shows "ownObjDescQueueDequeue t qid = (t, TIVX_OBJ_DESC_INVALID, VX_FAILURE)"
proof -
  have "odq_count (queue_of t (unat qid)) = 0"
    using assms(2) odq_count [of qid t] by (simp add: unat_eq_0)
  then show ?thesis
    using odq_inv_queue(1) [OF assms(1)] by (simp add: ownObjDescQueueDequeue_def Let_def)
qed

lemma enqueue_room:
  assumes "odq_inv qid t" "length (odq_elems qid t) < 32"
  shows "ownObjDescQueueEnqueue t qid x = (upd_queue (unat qid) (enqueue_elem x) t, VX_SUCCESS)"
    "odq_inv qid (upd_queue (unat qid) (enqueue_elem x) t)"
    "odq_elems qid (upd_queue (unat qid) (enqueue_elem x) t) = odq_elems qid t @ [x]"
    "odq_blocked qid (upd_queue (unat qid) (enqueue_elem x) t) = odq_blocked qid t"
proof -
  note q = odq_inv_queue [OF assms(1)]
  have lt: "odq_count (queue_of t (unat qid)) < 32"
    using assms(2) by (simp add: odq_count word_less_nat_alt)
  note r = enqueue_elem_refines [OF q(2) lt, of x]
    and u = upd_queue_same [OF assms(1), of "enqueue_elem x"]
  show "ownObjDescQueueEnqueue t qid x = (upd_queue (unat qid) (enqueue_elem x) t, VX_SUCCESS)"
    using lt q(1) by (simp add: ownObjDescQueueEnqueue_def)
  show "odq_inv qid (upd_queue (unat qid) (enqueue_elem x) t)" using u(1) r(1) by simp
  show "odq_elems qid (upd_queue (unat qid) (enqueue_elem x) t) = odq_elems qid t @ [x]"
    using u(2) r by (simp add: odq_elems_def)
  show "odq_blocked qid (upd_queue (unat qid) (enqueue_elem x) t) = odq_blocked qid t"
    using u(3) r by (simp add: odq_blocked_def)
qed

section \<open>Frame lemmas\<close>

lemma odq_frame:
  assumes "odq_inv qid t" "i \<noteq> unat qid"
  shows "odq_inv qid (upd_desc i f t)" "odq_elems qid (upd_desc i f t) = odq_elems qid t"
    "odq_blocked qid (upd_desc i f t) = odq_blocked qid t"
  using assms odq_inv_queue(3) [OF assms(1)]
  by (auto simp: odq_inv_at odq_elems_def odq_blocked_def queue_at_some)

lemma odq_frame_base:
  assumes "odq_inv qid t" "\<And>d. od_type (f d) = od_type d" "\<And>d. od_body (f d) = od_body d"
  shows "odq_inv qid (upd_desc i f t)" "odq_elems qid (upd_desc i f t) = odq_elems qid t"
    "odq_blocked qid (upd_desc i f t) = odq_blocked qid t"
  using assms odq_inv_queue(3) [OF assms(1)]
  by (auto simp: odq_inv_at odq_elems_def odq_blocked_def queue_at_some)

lemma upd_sys_simps [simp]:
  "sys_tbl (upd_base i f s) = upd_desc i f (sys_tbl s)"
  "sys_tbl (upd_node i g s)
    = upd_desc i (\<lambda>d. d\<lparr>od_body := B_Node (g (the_node (od_body d)))\<rparr>) (sys_tbl s)"
  "sys_tbl (upd_drq i h s)
    = upd_desc i (\<lambda>d. d\<lparr>od_body := B_Data_Ref_Q (h (the_data_ref_q (od_body d)))\<rparr>) (sys_tbl s)"
  "sys_targets (upd_base i f s) = sys_targets s" "sys_targets (upd_node i g s) = sys_targets s"
  "sys_targets (upd_drq i h s) = sys_targets s"
  "sys_ipc (upd_base i f s) = sys_ipc s" "sys_ipc (upd_node i g s) = sys_ipc s"
  "sys_ipc (upd_drq i h s) = sys_ipc s"
  by (simp_all add: upd_base_def upd_node_def upd_drq_def)

section \<open>Well formed data reference queues\<close>

abbreviation (input) acq_q :: "sys \<Rightarrow> nat \<Rightarrow> uint16" where
  "acq_q s d \<equiv> drq_acquire_q_obj_desc_id (drq_of s d)"

abbreviation (input) rel_q :: "sys \<Rightarrow> nat \<Rightarrow> uint16" where
  "rel_q s d \<equiv> drq_release_q_obj_desc_id (drq_of s d)"

abbreviation (input) acquired :: "sys \<Rightarrow> nat \<Rightarrow> bool" where
  "acquired s d \<equiv> tivxFlagIsBitSet (drq_flags (drq_of s d)) DATA_REF_Q_FLAG_IS_REF_ACQUIRED"

definition drq_ok :: "sys \<Rightarrow> nat \<Rightarrow> bool" where
  "drq_ok s d \<longleftrightarrow> d < num_entries (sys_tbl s)
     \<and> od_type (sys_desc s d) = TIVX_OBJ_DESC_DATA_REF_Q
     \<and> (\<exists>q. od_body (sys_desc s d) = B_Data_Ref_Q q)
     \<and> odq_inv (acq_q s d) (sys_tbl s) \<and> odq_inv (rel_q s d) (sys_tbl s)
     \<and> acq_q s d \<noteq> rel_q s d
     \<and> TIVX_OBJ_DESC_INVALID \<notin> set (odq_elems (acq_q s d) (sys_tbl s))"

lemma drq_okD:
  assumes "drq_ok s d"
  shows "d < num_entries (sys_tbl s)" "od_type (sys_desc s d) = TIVX_OBJ_DESC_DATA_REF_Q"
    "od_body (sys_desc s d) = B_Data_Ref_Q (drq_of s d)"
    "odq_inv (acq_q s d) (sys_tbl s)" "odq_inv (rel_q s d) (sys_tbl s)"
    "unat (acq_q s d) \<noteq> unat (rel_q s d)" "d \<noteq> unat (acq_q s d)" "d \<noteq> unat (rel_q s d)"
    "TIVX_OBJ_DESC_INVALID \<notin> set (odq_elems (acq_q s d) (sys_tbl s))"
proof -
  have type: "od_type (sys_desc s (unat q)) = TIVX_OBJ_DESC_QUEUE" if "odq_inv q (sys_tbl s)" for q
    using that by (auto simp: odq_inv_def queue_at_some)
  show "d < num_entries (sys_tbl s)" "od_type (sys_desc s d) = TIVX_OBJ_DESC_DATA_REF_Q"
    "odq_inv (acq_q s d) (sys_tbl s)" "odq_inv (rel_q s d) (sys_tbl s)"
    "TIVX_OBJ_DESC_INVALID \<notin> set (odq_elems (acq_q s d) (sys_tbl s))"
    using assms by (auto simp: drq_ok_def)
  then show "d \<noteq> unat (acq_q s d)" "d \<noteq> unat (rel_q s d)" using type by force+
  show "od_body (sys_desc s d) = B_Data_Ref_Q (drq_of s d)"
    using assms by (auto simp: drq_ok_def)
  show "unat (acq_q s d) \<noteq> unat (rel_q s d)"
    using assms by (simp add: drq_ok_def word_unat_eq_iff [symmetric])
qed

section \<open>The abstract data reference queue\<close>

text \<open>What a data reference queue promises: the buffers that wait, those given back, the buffer
  on loan and the number of nodes that are done with it.\<close>

record ref_q =
  rq_acq :: "uint16 list"
  rq_rel :: "uint16 list"
  rq_held :: "uint16 option"
  rq_done :: uint16

definition drq_abs :: "sys \<Rightarrow> nat \<Rightarrow> ref_q" where
  "drq_abs s d = \<lparr>rq_acq = odq_elems (acq_q s d) (sys_tbl s),
     rq_rel = odq_elems (rel_q s d) (sys_tbl s),
     rq_held = (if acquired s d then Some (drq_ref_obj_desc_id (drq_of s d)) else None),
     rq_done = drq_in_node_done_cnt (drq_of s d)\<rparr>"

definition rq_acquire :: "ref_q \<Rightarrow> ref_q \<times> uint16 option" where
  "rq_acquire a = (case rq_held a of Some r \<Rightarrow> (a, Some r)
     | None \<Rightarrow> (case rq_acq a of [] \<Rightarrow> (a, None)
         | x # xs \<Rightarrow> (a\<lparr>rq_acq := xs, rq_held := Some x, rq_done := 0\<rparr>, Some x)))"

definition rq_release :: "uint16 \<Rightarrow> uint16 \<Rightarrow> ref_q \<Rightarrow> ref_q \<times> bool" where
  "rq_release num_in r a = (if rq_done a + 1 = num_in
     then (a\<lparr>rq_rel := rq_rel a @ [r], rq_held := None, rq_done := rq_done a + 1\<rparr>, True)
     else (a\<lparr>rq_done := rq_done a + 1\<rparr>, False))"

definition node_ok :: "sys \<Rightarrow> nat \<Rightarrow> bool" where
  "node_ok s n \<longleftrightarrow> n < num_entries (sys_tbl s) \<and> od_type (sys_desc s n) = TIVX_OBJ_DESC_NODE
     \<and> (\<exists>k. od_body (sys_desc s n) = B_Node k)"

lemma node_ok_not_queue:
  assumes "node_ok s n"
  shows "odq_inv q (sys_tbl s) \<Longrightarrow> n \<noteq> unat q" "drq_ok s d \<Longrightarrow> n \<noteq> d"
  using assms by (auto simp: node_ok_def odq_inv_def queue_at_some drq_ok_def)

text \<open>Setting the count of a data descriptor changes nothing that the queues and nodes see.\<close>

lemma base_cnt_frame:
  fixes s :: sys and p :: nat and k :: "tivx_obj_desc \<Rightarrow> uint16"
  defines "s' \<equiv> upd_base p (\<lambda>b. b\<lparr>od_in_node_done_cnt := k b\<rparr>) s"
  shows "odq_inv q (sys_tbl s) \<Longrightarrow> odq_inv q (sys_tbl s')"
    "odq_inv q (sys_tbl s) \<Longrightarrow> odq_elems q (sys_tbl s') = odq_elems q (sys_tbl s)"
    "odq_inv q (sys_tbl s) \<Longrightarrow> odq_blocked q (sys_tbl s') = odq_blocked q (sys_tbl s)"
    "num_entries (sys_tbl s') = num_entries (sys_tbl s)"
    "i < num_entries (sys_tbl s) \<Longrightarrow> od_body (sys_desc s' i) = od_body (sys_desc s i)"
    "i < num_entries (sys_tbl s) \<Longrightarrow> od_type (sys_desc s' i) = od_type (sys_desc s i)"
    "i < num_entries (sys_tbl s) \<Longrightarrow> od_obj_desc_id (sys_desc s' i) = od_obj_desc_id (sys_desc s i)"
    "drq_ok s d \<Longrightarrow> drq_ok s' d" "drq_ok s d \<Longrightarrow> drq_abs s' d = drq_abs s d"
    "node_ok s n \<Longrightarrow> node_ok s' n"
proof -
  let ?f = "\<lambda>b. b\<lparr>od_in_node_done_cnt := k b\<rparr>"
  show fr: "odq_inv q (sys_tbl s')" "odq_elems q (sys_tbl s') = odq_elems q (sys_tbl s)"
    "odq_blocked q (sys_tbl s') = odq_blocked q (sys_tbl s)" if "odq_inv q (sys_tbl s)" for q
    using odq_frame_base [of q "sys_tbl s" ?f p] that by (simp_all add: s'_def)
  show n: "num_entries (sys_tbl s') = num_entries (sys_tbl s)" by (simp add: s'_def)
  show b: "od_body (sys_desc s' i) = od_body (sys_desc s i)"
    "od_type (sys_desc s' i) = od_type (sys_desc s i)"
    "od_obj_desc_id (sys_desc s' i) = od_obj_desc_id (sys_desc s i)"
    if "i < num_entries (sys_tbl s)" for i
    using that by (simp_all add: s'_def)
  show "drq_ok s' d" if "drq_ok s d"
    using that n b fr by (auto simp: drq_ok_def)
  show "drq_abs s' d = drq_abs s d" if "drq_ok s d"
    using that b fr by (auto simp: drq_abs_def drq_ok_def)
  show "node_ok s' n" if "node_ok s n"
    using that n b by (auto simp: node_ok_def)
qed

section \<open>Acquire implements the abstract acquire\<close>

lemma acquire_held:
  assumes "acquired s d"
  shows "ownTargetNodeDescAcquireParameter s n d b pipeup
    = (s, drq_ref_obj_desc_id (drq_of s d), b)"
  using assms by (simp add: ownTargetNodeDescAcquireParameter_def Let_def)

lemma acquire_first:
  assumes ok: "drq_ok s d" and "\<not> acquired s d"
    and el: "odq_elems (acq_q s d) (sys_tbl s) = x # xs"
  shows "\<exists>s'. ownTargetNodeDescAcquireParameter s n d b False = (s', x, b)
    \<and> drq_ok s' d \<and> drq_abs s' d = (drq_abs s d)\<lparr>rq_acq := xs, rq_held := Some x, rq_done := 0\<rparr>
    \<and> acq_q s' d = acq_q s d \<and> rel_q s' d = rel_q s d
    \<and> drq_num_in_nodes (drq_of s' d) = drq_num_in_nodes (drq_of s d)
    \<and> tivxFlagIsBitSet (drq_flags (drq_of s' d)) DATA_REF_Q_FLAG_IS_IN_DELAY
      = tivxFlagIsBitSet (drq_flags (drq_of s d)) DATA_REF_Q_FLAG_IS_IN_DELAY
    \<and> num_entries (sys_tbl s') = num_entries (sys_tbl s)
    \<and> (node_ok s n \<longrightarrow> node_ok s' n)"
proof -
  note D = drq_okD [OF ok]
  let ?t = "sys_tbl s" and ?a = "acq_q s d" and ?r = "rel_q s d"
  let ?t1 = "upd_queue (unat ?a) dequeue_elem ?t"
  let ?s1 = "s\<lparr>sys_tbl := ?t1\<rparr>"
  let ?flags = "tivxFlagBitSet (drq_flags (drq_of s d)) DATA_REF_Q_FLAG_IS_REF_ACQUIRED"
  let ?g = "\<lambda>q. q\<lparr>drq_ref_obj_desc_id := x, drq_in_node_done_cnt := 0, drq_flags := ?flags\<rparr>"
  let ?s2 = "upd_drq d ?g ?s1"
  let ?s3 = "case ownObjDescGet (sys_tbl ?s2) x of
      Some p \<Rightarrow> upd_base p (\<lambda>b. b\<lparr>od_in_node_done_cnt := 0\<rparr>) ?s2 | None \<Rightarrow> ?s2"
  have x: "x \<noteq> TIVX_OBJ_DESC_INVALID" using D(9) el by auto
  note deq = dequeue_some [OF D(4) el]
  have run: "ownTargetNodeDescAcquireParameter s n d b False = (?s3, x, b)"
    using assms(2) deq(1) x
    by (simp add: ownTargetNodeDescAcquireParameter_def Let_def sys_dequeue_def)
  have other: "odq_inv ?r ?t1" "odq_elems ?r ?t1 = odq_elems ?r ?t"
    using upd_queue_other [OF D(6)] odq_inv_queue(3) [OF D(5)] D(5) by auto
  have d1: "desc_at ?t1 d = desc_at ?t d" using D(1,7) by simp
  have d2: "sys_desc ?s2 d = (sys_desc s d)\<lparr>od_body := B_Data_Ref_Q (?g (drq_of s d))\<rparr>"
    using D(1) d1 by simp
  have q2: "odq_inv ?a (sys_tbl ?s2)" "odq_inv ?r (sys_tbl ?s2)"
    "odq_elems ?a (sys_tbl ?s2) = xs" "odq_elems ?r (sys_tbl ?s2) = odq_elems ?r ?t"
    using odq_frame [OF deq(2) D(7)] odq_frame [OF other(1) D(8)] deq(3) other(2) by auto
  have delay: "tivxFlagIsBitSet ?flags DATA_REF_Q_FLAG_IS_IN_DELAY
      = tivxFlagIsBitSet (drq_flags (drq_of s d)) DATA_REF_Q_FLAG_IS_IN_DELAY"
    by (rule flag_set_other) simp
  have ok2: "drq_ok ?s2 d"
    using q2 d2 D(1,2,3,6,9) el by (auto simp: drq_ok_def)
  have abs2: "drq_abs ?s2 d = (drq_abs s d)\<lparr>rq_acq := xs, rq_held := Some x, rq_done := 0\<rparr>"
    using q2 d2 by (simp add: drq_abs_def)
  have node2: "node_ok s n \<longrightarrow> node_ok ?s2 n"
    using node_ok_not_queue [of s n] D(4) ok by (auto simp: node_ok_def)
  show ?thesis
  proof (cases "ownObjDescGet (sys_tbl ?s2) x")
    case None
    with run ok2 abs2 d2 delay node2 show ?thesis by simp
  next
    case (Some p)
    note fr = base_cnt_frame [where p = p and k = "\<lambda>_. 0" and s = ?s2]
    have s3: "?s3 = upd_base p (\<lambda>b. b\<lparr>od_in_node_done_cnt := 0\<rparr>) ?s2" using Some by simp
    have "od_body (sys_desc (upd_base p (\<lambda>b. b\<lparr>od_in_node_done_cnt := 0\<rparr>) ?s2) d)
        = od_body (sys_desc ?s2 d)"
      by (rule fr(5)) (use D(1) in simp)
    also have "\<dots> = B_Data_Ref_Q (?g (drq_of s d))" by (subst d2) simp
    finally have "od_body (sys_desc ?s3 d) = B_Data_Ref_Q (?g (drq_of s d))" unfolding s3 .
    with Some run fr(8) [OF ok2] fr(9) [OF ok2] fr(4) fr(10) [of n] node2 abs2 delay show ?thesis
      by simp
  qed
qed

lemma acquire_empty:
  assumes ok: "drq_ok s d" and nacq: "\<not> acquired s d" and node: "node_ok s n"
    and el: "odq_elems (acq_q s d) (sys_tbl s) = []"
  shows "if length (odq_blocked (acq_q s d) (sys_tbl s)) < 8
    then (\<exists>s'. ownTargetNodeDescAcquireParameter s n d b False = (s', TIVX_OBJ_DESC_INVALID, True)
      \<and> nd_state (node_of s' n) = TIVX_NODE_OBJ_DESC_STATE_BLOCKED
      \<and> odq_blocked (acq_q s d) (sys_tbl s')
        = odq_blocked (acq_q s d) (sys_tbl s) @ [od_obj_desc_id (sys_desc s n)]
      \<and> drq_ok s' d \<and> drq_abs s' d = drq_abs s d)
    else ownTargetNodeDescAcquireParameter s n d b False = (s, TIVX_OBJ_DESC_INVALID, b)"
proof -
  note D = drq_okD [OF ok]
  let ?t = "sys_tbl s" and ?a = "acq_q s d" and ?r = "rel_q s d"
  let ?id = "od_obj_desc_id (sys_desc s n)"
  note deq = dequeue_none [OF D(4) el] and add = add_blocked_node [OF D(4), of ?id]
  show ?thesis
  proof (cases "length (odq_blocked ?a ?t) < 8")
    case False
    with add nacq deq show ?thesis
      by (simp add: ownTargetNodeDescAcquireParameter_def Let_def sys_dequeue_def sys_add_blocked_def)
  next
    case True
    let ?t1 = "upd_queue (unat ?a) (add_blocked ?id) ?t"
    have t1: "ownObjDescQueueAddBlockedNode ?t ?a ?id = (?t1, VX_SUCCESS)"
      using add True odq_inv_queue(1) [OF D(4)]
      by (auto simp: ownObjDescQueueAddBlockedNode_def split: if_splits)
    with add True have a1: "odq_inv ?a ?t1" "odq_elems ?a ?t1 = odq_elems ?a ?t"
      "odq_blocked ?a ?t1 = odq_blocked ?a ?t @ [?id]" by auto
    have r1: "odq_inv ?r ?t1" "odq_elems ?r ?t1 = odq_elems ?r ?t"
      using upd_queue_other [OF D(6)] odq_inv_queue(3) [OF D(5)] D(5) by auto
    let ?s1 = "s\<lparr>sys_tbl := ?t1\<rparr>"
    let ?s' = "upd_node n (\<lambda>k. k\<lparr>nd_state := TIVX_NODE_OBJ_DESC_STATE_BLOCKED\<rparr>) ?s1"
    have n: "n \<noteq> unat ?a" "n \<noteq> unat ?r" "n \<noteq> d" "n < num_entries ?t"
      using node_ok_not_queue [OF node] D ok node by (auto simp: node_ok_def)
    have run: "ownTargetNodeDescAcquireParameter s n d b False = (?s', TIVX_OBJ_DESC_INVALID, True)"
      using nacq deq t1
      by (simp add: ownTargetNodeDescAcquireParameter_def Let_def sys_dequeue_def
          sys_add_blocked_def)
    note fa = odq_frame [OF a1(1) n(1)] and fr = odq_frame [OF r1(1) n(2)]
    have d: "sys_desc ?s' d = sys_desc s d" using D(1,7) n(3) by simp
    have ok': "drq_ok ?s' d"
      using D ok fa(1,2) fr(1) a1(2) unfolding drq_ok_def d by simp
    have abs': "drq_abs ?s' d = drq_abs s d"
      unfolding drq_abs_def d using fa(2) fr(2) a1(2) r1(2) by simp
    have "nd_state (node_of ?s' n) = TIVX_NODE_OBJ_DESC_STATE_BLOCKED" using n(4) by simp
    then show ?thesis using True run ok' abs' fa(3) a1(3) by auto
  qed
qed

section \<open>Release implements the abstract release\<close>

lemma drq_update:
  assumes ok: "drq_ok s d"
    and f: "\<And>q. drq_acquire_q_obj_desc_id (f q) = drq_acquire_q_obj_desc_id q"
      "\<And>q. drq_release_q_obj_desc_id (f q) = drq_release_q_obj_desc_id q"
  shows "drq_ok (upd_drq d f s) d" "drq_of (upd_drq d f s) d = f (drq_of s d)"
    "odq_elems (acq_q s d) (sys_tbl (upd_drq d f s)) = odq_elems (acq_q s d) (sys_tbl s)"
    "odq_elems (rel_q s d) (sys_tbl (upd_drq d f s)) = odq_elems (rel_q s d) (sys_tbl s)"
    "odq_blocked (rel_q s d) (sys_tbl (upd_drq d f s)) = odq_blocked (rel_q s d) (sys_tbl s)"
    "node_ok s n \<Longrightarrow> node_ok (upd_drq d f s) n"
proof -
  note D = drq_okD [OF ok]
  note fa = odq_frame [OF D(4,7)] and fr = odq_frame [OF D(5,8)]
  show "drq_of (upd_drq d f s) d = f (drq_of s d)" using D(1) by simp
  show "odq_elems (acq_q s d) (sys_tbl (upd_drq d f s)) = odq_elems (acq_q s d) (sys_tbl s)"
    "odq_elems (rel_q s d) (sys_tbl (upd_drq d f s)) = odq_elems (rel_q s d) (sys_tbl s)"
    "odq_blocked (rel_q s d) (sys_tbl (upd_drq d f s)) = odq_blocked (rel_q s d) (sys_tbl s)"
    using fa fr by auto
  show "drq_ok (upd_drq d f s) d"
    using D ok fa fr f by (auto simp: drq_ok_def)
  show "node_ok (upd_drq d f s) n" if "node_ok s n"
    using that node_ok_not_queue(2) [OF that ok] by (auto simp: node_ok_def)
qed

lemma release_to_queue_room:
  assumes ok: "drq_ok s d" and room: "length (odq_elems (rel_q s d) (sys_tbl s)) < 32"
    and nodelay: "\<not> tivxFlagIsBitSet (drq_flags (drq_of s d)) DATA_REF_Q_FLAG_IS_IN_DELAY"
  shows "\<exists>s2 bn. release_to_queue ho s d ref = (s2, bn)
    \<and> bn_list bn = odq_blocked (rel_q s d) (sys_tbl s)
    \<and> drq_ok s2 d \<and> drq_of s2 d = drq_of s d
    \<and> odq_elems (acq_q s d) (sys_tbl s2) = odq_elems (acq_q s d) (sys_tbl s)
    \<and> odq_elems (rel_q s d) (sys_tbl s2) = odq_elems (rel_q s d) (sys_tbl s) @ [ref]
    \<and> odq_blocked (rel_q s d) (sys_tbl s2) = []
    \<and> sys_targets s2 = sys_targets s \<and> sys_ipc s2 = sys_ipc s
    \<and> (node_ok s n \<longrightarrow> node_ok s2 n)"
proof -
  note D = drq_okD [OF ok]
  let ?t = "sys_tbl s" and ?a = "acq_q s d" and ?r = "rel_q s d"
  let ?t1 = "upd_queue (unat ?r) (enqueue_elem ref) ?t"
  let ?f = "\<lambda>q. q\<lparr>odq_blocked_nodes := (odq_blocked_nodes q)\<lparr>bn_num_nodes := 0\<rparr>\<rparr>"
  note enq = enqueue_room [OF D(5) room, of ref]
  obtain t2 bn where ex: "ownObjDescQueueExtractBlockedNodes ?t1 ?r no_blocked = (t2, bn, VX_SUCCESS)"
    "odq_inv ?r t2" "odq_elems ?r t2 = odq_elems ?r ?t1" "odq_blocked ?r t2 = []"
    "bn_list bn = odq_blocked ?r ?t1"
    using extract_blocked [OF enq(2) no_blocked_ok(1)] no_blocked_ok(2) by auto
  then have t2: "t2 = upd_queue (unat ?r) ?f ?t1"
    using odq_inv_queue(1) [OF enq(2)]
    by (auto simp: ownObjDescQueueExtractBlockedNodes_def Let_def)
  let ?s2 = "s\<lparr>sys_tbl := t2\<rparr>"
  have d: "sys_desc ?s2 d = sys_desc s d" using t2 D(1,8) by simp
  have ne: "unat ?r \<noteq> unat ?a" using D(6) by simp
  have a: "odq_inv ?a t2" "odq_elems ?a t2 = odq_elems ?a ?t"
    unfolding t2 using upd_queue_other [OF ne] odq_inv_queue(3) [OF D(4)] D(4) by auto
  have num: "num_entries t2 = num_entries ?t" using t2 by simp
  have run: "release_to_queue ho s d ref = (?s2, bn)"
    using enq(1) ex(1) d nodelay
    by (simp add: release_to_queue_def Let_def sys_enqueue_def sys_extract_blocked_def)
  have "drq_ok ?s2 d" using ok a ex(2) num unfolding drq_ok_def d by simp
  moreover have "node_ok ?s2 n" if "node_ok s n"
    using that node_ok_not_queue(1) [OF that D(5)] t2 by (simp add: node_ok_def)
  ultimately show ?thesis using run d a ex enq by simp
qed

lemma drq_tbl_cong:
  assumes "sys_tbl s' = sys_tbl s"
  shows "drq_ok s' d = drq_ok s d" "drq_abs s' d = drq_abs s d" "node_ok s' n = node_ok s n"
  unfolding drq_ok_def drq_abs_def node_ok_def assms by simp_all

lemma release_flags:
  "\<not> tivxFlagIsBitSet (tivxFlagBitClear f DATA_REF_Q_FLAG_IS_REF_ACQUIRED)
      DATA_REF_Q_FLAG_IS_REF_ACQUIRED"
  "tivxFlagIsBitSet (tivxFlagBitClear f DATA_REF_Q_FLAG_IS_REF_ACQUIRED) DATA_REF_Q_FLAG_IS_IN_DELAY
    = tivxFlagIsBitSet f DATA_REF_Q_FLAG_IS_IN_DELAY"
  by simp (rule flag_clear_other, simp)

text \<open>A node that is not the last one to be done: only the count changes.\<close>

lemma release_not_last:
  assumes ok: "drq_ok s d"
    and more: "drq_in_node_done_cnt (drq_of s d) + 1 \<noteq> drq_num_in_nodes (drq_of s d)"
  shows "\<exists>s'. ownTargetNodeDescReleaseParameter pl ho s n d ref True = (s', False)
    \<and> drq_ok s' d \<and> drq_abs s' d = (drq_abs s d)\<lparr>rq_done := rq_done (drq_abs s d) + 1\<rparr>
    \<and> drq_of s' d = (drq_of s d)\<lparr>drq_in_node_done_cnt := drq_in_node_done_cnt (drq_of s d) + 1\<rparr>
    \<and> sys_targets s' = sys_targets s \<and> sys_ipc s' = sys_ipc s
    \<and> num_entries (sys_tbl s') = num_entries (sys_tbl s)
    \<and> odq_blocked (rel_q s d) (sys_tbl s') = odq_blocked (rel_q s d) (sys_tbl s)"
proof -
  let ?f = "\<lambda>q. q\<lparr>drq_in_node_done_cnt := drq_in_node_done_cnt q + 1\<rparr>"
  let ?s1 = "upd_drq d ?f s"
  note u = drq_update [OF ok, of ?f, simplified]
  have num: "drq_num_in_nodes (drq_of ?s1 d) = drq_num_in_nodes (drq_of s d)"
    "drq_in_node_done_cnt (drq_of ?s1 d) = drq_in_node_done_cnt (drq_of s d) + 1"
    using drq_okD(1) [OF ok] by simp_all
  have abs1: "drq_abs ?s1 d = (drq_abs s d)\<lparr>rq_done := rq_done (drq_abs s d) + 1\<rparr>"
    using u drq_okD(1) [OF ok] by (simp add: drq_abs_def)
  have drq1: "drq_of ?s1 d = ?f (drq_of s d)" using drq_okD(1) [OF ok] by simp
  show ?thesis
  proof (cases "ownObjDescGet (sys_tbl s) ref")
    case None
    then have "ownTargetNodeDescReleaseParameter pl ho s n d ref True = (?s1, False)"
      using more num by (simp add: ownTargetNodeDescReleaseParameter_def release_count_def Let_def
          bn_list_def no_blocked_def)
    then show ?thesis using u abs1 drq1 by auto
  next
    case (Some p)
    let ?s2 = "upd_base p (\<lambda>b. b\<lparr>od_in_node_done_cnt := od_in_node_done_cnt b + 1\<rparr>) ?s1"
    note fr = base_cnt_frame [where p = p and k = "\<lambda>b. od_in_node_done_cnt b + 1" and s = ?s1]
    have run: "ownTargetNodeDescReleaseParameter pl ho s n d ref True = (?s2, False)"
      using more num Some
      by (simp add: ownTargetNodeDescReleaseParameter_def release_count_def Let_def bn_list_def
          no_blocked_def)
    have ok1: "drq_ok ?s1 d" using u(1) .
    have "odq_inv (rel_q ?s1 d) (sys_tbl ?s1)" using drq_okD(5) [OF ok1] .
    then have "odq_blocked (rel_q s d) (sys_tbl ?s2) = odq_blocked (rel_q s d) (sys_tbl s)"
      using fr(3) [of "rel_q s d"] u(5) drq1 by simp
    moreover have "od_body (sys_desc ?s2 d) = od_body (sys_desc ?s1 d)"
      by (rule fr(5)) (rule drq_okD(1) [OF ok1])
    then have "drq_of ?s2 d = ?f (drq_of s d)" using drq1 by simp
    ultimately show ?thesis
      using run fr(8) [OF ok1] fr(9) [OF ok1] abs1 by auto
  qed
qed

text \<open>The last node: the buffer goes to the end of the release queue, the loan ends, and the nodes
  that were blocked on the release queue are triggered in order.\<close>

lemma release_last:
  assumes ok: "drq_ok s d"
    and last: "drq_in_node_done_cnt (drq_of s d) + 1 = drq_num_in_nodes (drq_of s d)"
    and valid: "ownObjDescGet (sys_tbl s) ref \<noteq> None"
    and room: "length (odq_elems (rel_q s d) (sys_tbl s)) < 32"
    and nodelay: "\<not> tivxFlagIsBitSet (drq_flags (drq_of s d)) DATA_REF_Q_FLAG_IS_IN_DELAY"
  shows "\<exists>s3. ownTargetNodeDescReleaseParameter pl ho s n d ref True
      = (foldl (ownTargetTriggerNode pl) s3 (odq_blocked (rel_q s d) (sys_tbl s)), True)
    \<and> drq_ok s3 d
    \<and> drq_abs s3 d = (drq_abs s d)\<lparr>rq_rel := rq_rel (drq_abs s d) @ [ref], rq_held := None,
        rq_done := rq_done (drq_abs s d) + 1\<rparr>
    \<and> odq_blocked (rel_q s d) (sys_tbl s3) = []
    \<and> sys_targets s3 = sys_targets s \<and> sys_ipc s3 = sys_ipc s"
proof -
  obtain p where p: "ownObjDescGet (sys_tbl s) ref = Some p" using valid by auto
  let ?f = "\<lambda>q. q\<lparr>drq_in_node_done_cnt := drq_in_node_done_cnt q + 1\<rparr>"
  let ?s1 = "upd_drq d ?f s"
  let ?s2 = "upd_base p (\<lambda>b. b\<lparr>od_in_node_done_cnt := 0\<rparr>) ?s1"
  let ?g = "\<lambda>q. q\<lparr>drq_flags := tivxFlagBitClear (drq_flags (drq_of s d))
      DATA_REF_Q_FLAG_IS_REF_ACQUIRED\<rparr>"
  note u = drq_update [OF ok, of ?f, simplified]
  note fr = base_cnt_frame [where p = p and k = "\<lambda>b. 0" and s = ?s1]
  have drq1: "drq_of ?s1 d = ?f (drq_of s d)" using drq_okD(1) [OF ok] by simp
  have ok1: "drq_ok ?s1 d" using u(1) .
  have ok2: "drq_ok ?s2 d" using fr(8) [OF ok1] .
  have "od_body (sys_desc ?s2 d) = od_body (sys_desc ?s1 d)"
    by (rule fr(5)) (rule drq_okD(1) [OF ok1])
  then have drq2: "drq_of ?s2 d = ?f (drq_of s d)" using drq1 by simp
  have qs1: "odq_inv (acq_q s d) (sys_tbl ?s1)" "odq_inv (rel_q s d) (sys_tbl ?s1)"
    using drq_okD(4,5) [OF ok1] drq1 by auto
  have el2: "odq_elems (acq_q s d) (sys_tbl ?s2) = odq_elems (acq_q s d) (sys_tbl s)"
    "odq_elems (rel_q s d) (sys_tbl ?s2) = odq_elems (rel_q s d) (sys_tbl s)"
    "odq_blocked (rel_q s d) (sys_tbl ?s2) = odq_blocked (rel_q s d) (sys_tbl s)"
    using fr(2) [OF qs1(1)] fr(2) [OF qs1(2)] fr(3) [OF qs1(2)] u(3,4,5) by auto
  have cnt: "release_count s d ref True = (?s2, True, True)"
    using p last drq1 by (simp add: release_count_def Let_def del: upd_sys_simps)
  define s2 where "s2 = ?s2"
  note s2 = s2_def [symmetric]
  have frame: "sys_targets s2 = sys_targets s" "sys_ipc s2 = sys_ipc s" by (simp_all add: s2_def)
  obtain s3 bn where q3: "release_to_queue ho s2 d ref = (s3, bn)"
    "bn_list bn = odq_blocked (rel_q s d) (sys_tbl s)" "drq_ok s3 d" "drq_of s3 d = ?f (drq_of s d)"
    "odq_elems (acq_q s d) (sys_tbl s3) = odq_elems (acq_q s d) (sys_tbl s)"
    "odq_elems (rel_q s d) (sys_tbl s3) = odq_elems (rel_q s d) (sys_tbl s) @ [ref]"
    "odq_blocked (rel_q s d) (sys_tbl s3) = []" "sys_targets s3 = sys_targets s"
    "sys_ipc s3 = sys_ipc s"
    using release_to_queue_room [of s2 d ho ref n, OF ok2 [unfolded s2]] room nodelay
      drq2 [unfolded s2] el2 [unfolded s2] frame by auto
  let ?s4 = "upd_drq d ?g s3"
  have run: "ownTargetNodeDescReleaseParameter pl ho s n d ref True
      = (foldl (ownTargetTriggerNode pl) ?s4 (odq_blocked (rel_q s d) (sys_tbl s)), True)"
    using cnt [unfolded s2] q3(1,2) by (auto simp: ownTargetNodeDescReleaseParameter_def Let_def)
  note v = drq_update [OF q3(3), of ?g, simplified]
  have drq4: "drq_of ?s4 d = ?g (?f (drq_of s d))"
    using drq_okD(1) [OF q3(3)] q3(4) by simp
  have qs4: "odq_elems (acq_q s d) (sys_tbl ?s4) = odq_elems (acq_q s d) (sys_tbl s)"
    "odq_elems (rel_q s d) (sys_tbl ?s4) = odq_elems (rel_q s d) (sys_tbl s) @ [ref]"
    "odq_blocked (rel_q s d) (sys_tbl ?s4) = []"
    using v(3,4,5) q3(4,5,6,7) by auto
  have "drq_abs ?s4 d = (drq_abs s d)\<lparr>rq_rel := rq_rel (drq_abs s d) @ [ref], rq_held := None,
        rq_done := rq_done (drq_abs s d) + 1\<rparr>"
    unfolding drq_abs_def drq4 using qs4 release_flags(1) by simp
  then show ?thesis using run v(1) qs4(3) q3(8,9) by auto
qed

section \<open>The life of a loan\<close>

lemma of_nat_inj16:
  assumes "a < 2 ^ 16" "b < 2 ^ 16"
  shows "(of_nat a :: uint16) = of_nat b \<longleftrightarrow> a = b"
proof
  assume "(of_nat a :: uint16) = of_nat b"
  then have "unat (of_nat a :: uint16) = unat (of_nat b :: uint16)" by (rule arg_cong)
  then show "a = b" using assms by (simp add: unat_of_nat)
qed simp

text \<open>The nodes \<open>ns\<close> take the buffer of \<open>d\<close> as input and give it back one after the other; the
  result lists what each of them was lent.\<close>

fun consume :: "platform \<Rightarrow> bool \<Rightarrow> nat \<Rightarrow> sys \<Rightarrow> nat list \<Rightarrow> sys \<times> uint16 list" where
  "consume pl ho d s [] = (s, [])"
| "consume pl ho d s (n # ns) =
     (case ownTargetNodeDescAcquireParameter s n d False False of
        (s1, r, _) \<Rightarrow>
          (case ownTargetNodeDescReleaseParameter pl ho s1 n d r True of
             (s2, _) \<Rightarrow> (case consume pl ho d s2 ns of (s3, rs) \<Rightarrow> (s3, r # rs))))"

definition no_delay :: "sys \<Rightarrow> nat \<Rightarrow> bool" where
  "no_delay s d \<longleftrightarrow> \<not> tivxFlagIsBitSet (drq_flags (drq_of s d)) DATA_REF_Q_FLAG_IS_IN_DELAY"

lemma consume_held:
  "\<lbrakk>drq_ok s d; acquired s d; drq_ref_obj_desc_id (drq_of s d) = x; ns \<noteq> [];
    drq_in_node_done_cnt (drq_of s d) = of_nat k;
    drq_num_in_nodes (drq_of s d) = of_nat (k + length ns); k + length ns < 2 ^ 16;
    unat x < num_entries (sys_tbl s); length (odq_elems (rel_q s d) (sys_tbl s)) < 32;
    no_delay s d\<rbrakk> \<Longrightarrow>
   \<exists>s'. consume pl ho d s ns = (s', replicate (length ns) x) \<and> drq_ok s' d
     \<and> rq_acq (drq_abs s' d) = rq_acq (drq_abs s d)
     \<and> rq_rel (drq_abs s' d) = rq_rel (drq_abs s d) @ [x] \<and> rq_held (drq_abs s' d) = None"
proof (induction ns arbitrary: s k)
  case Nil
  then show ?case by simp
next
  case (Cons n ns)
  note acq = acquire_held [OF Cons.prems(2), of n False False, unfolded Cons.prems(3)]
  let ?c = "drq_in_node_done_cnt (drq_of s d)" and ?m = "drq_num_in_nodes (drq_of s d)"
  have dist: "(of_nat (Suc k) :: uint16) = of_nat (k + length (n # ns)) \<longleftrightarrow> ns = []"
    using Cons.prems(7) by (subst of_nat_inj16) auto
  show ?case
  proof (cases "ns = []")
    case True
    have last: "?c + 1 = ?m" using Cons.prems(5,6) True by simp
    have valid: "ownObjDescGet (sys_tbl s) x \<noteq> None"
      using Cons.prems(8) by (simp add: ownObjDescGet_def)
    obtain s3 where r: "ownTargetNodeDescReleaseParameter pl ho s n d x True
        = (foldl (ownTargetTriggerNode pl) s3 (odq_blocked (rel_q s d) (sys_tbl s)), True)"
      "drq_ok s3 d" "drq_abs s3 d = (drq_abs s d)\<lparr>rq_rel := rq_rel (drq_abs s d) @ [x],
        rq_held := None, rq_done := rq_done (drq_abs s d) + 1\<rparr>"
      using release_last [OF Cons.prems(1) last valid Cons.prems(9)
          Cons.prems(10) [unfolded no_delay_def], of pl ho n] by blast
    let ?s' = "foldl (ownTargetTriggerNode pl) s3 (odq_blocked (rel_q s d) (sys_tbl s))"
    have "sys_tbl ?s' = sys_tbl s3" by (rule target_messenger.triggers_tbl)
    note same = drq_tbl_cong [OF this]
    show ?thesis using True acq r same by simp
  next
    case False
    have more: "?c + 1 \<noteq> ?m" using Cons.prems(5,6) dist False by (simp add: add.commute)
    obtain s1 where r: "ownTargetNodeDescReleaseParameter pl ho s n d x True = (s1, False)"
      "drq_ok s1 d" "drq_abs s1 d = (drq_abs s d)\<lparr>rq_done := rq_done (drq_abs s d) + 1\<rparr>"
      "drq_of s1 d = (drq_of s d)\<lparr>drq_in_node_done_cnt := ?c + 1\<rparr>"
      "num_entries (sys_tbl s1) = num_entries (sys_tbl s)"
      using release_not_last [OF Cons.prems(1) more, of pl ho n x] by blast
    have "odq_elems (rel_q s1 d) (sys_tbl s1) = odq_elems (rel_q s d) (sys_tbl s)"
      using arg_cong [OF r(3), of rq_rel] by (simp add: drq_abs_def)
    with Cons.IH [OF r(2), of "Suc k"] Cons.prems r(4,5) False
    obtain s' where "consume pl ho d s1 ns = (s', replicate (length ns) x)" "drq_ok s' d"
      "rq_acq (drq_abs s' d) = rq_acq (drq_abs s1 d)"
      "rq_rel (drq_abs s' d) = rq_rel (drq_abs s1 d) @ [x]" "rq_held (drq_abs s' d) = None"
      by (auto simp: no_delay_def add.commute)
    then show ?thesis using acq r by simp
  qed
qed

section \<open>Correctness properties\<close>

text \<open>A small system: queue 0 holds the buffer 3, queue 1 is empty, descriptor 2 is a data
  reference queue with two input nodes that takes from 0 and gives to 1, and 4 is a node.\<close>

definition pipe_desc :: "nat \<Rightarrow> uint16 \<Rightarrow> od_body \<Rightarrow> tivx_obj_desc" where
  "pipe_desc i ty b = (init_desc sample_ids i ty 0)\<lparr>od_body := b\<rparr>"

definition pipe_drq :: tivx_obj_desc_data_ref_q where
  "pipe_drq = zero_data_ref_q\<lparr>drq_acquire_q_obj_desc_id := 0, drq_release_q_obj_desc_id := 1,
     drq_num_in_nodes := 2\<rparr>"

definition pipe_sys :: sys where
  "pipe_sys = (sample_sys 0x100)\<lparr>sys_tbl := \<lparr>odt_table_base =
     [pipe_desc 0 TIVX_OBJ_DESC_QUEUE (B_Queue (zero_queue\<lparr>odq_queue_mem := (replicate 32 0)[0 := 3],
        odq_count := 1, odq_cur_wr := 1\<rparr>)),
      pipe_desc 1 TIVX_OBJ_DESC_QUEUE (B_Queue zero_queue),
      pipe_desc 2 TIVX_OBJ_DESC_DATA_REF_Q (B_Data_Ref_Q pipe_drq),
      pipe_desc 3 TIVX_OBJ_DESC_IMAGE (B_Image TIVX_OBJ_DESC_INVALID 0),
      pipe_desc 4 TIVX_OBJ_DESC_NODE (B_Node zero_node)],
     odt_last_alloc_index = 0\<rparr>\<rparr>"

lemma pipe_desc_simps [simp]:
  "od_type (pipe_desc i ty b) = ty" "od_body (pipe_desc i ty b) = b"
  by (simp_all add: pipe_desc_def)

lemma pipe_sys_at:
  "num_entries (sys_tbl pipe_sys) = 5"
  "drq_of pipe_sys 2 = pipe_drq"
  "odq_elems 0 (sys_tbl pipe_sys) = [3]" "odq_elems 1 (sys_tbl pipe_sys) = []"
  "odq_inv 0 (sys_tbl pipe_sys)" "odq_inv 1 (sys_tbl pipe_sys)"
  "odq_blocked 0 (sys_tbl pipe_sys) = []" "odq_blocked 1 (sys_tbl pipe_sys) = []"
  by (simp_all add: pipe_sys_def odq_elems_def odq_list_def ring_list_def zero_queue_def
      odq_inv_at queue_at_some odq_ok_def odq_blocked_def odq_blocked_list_def)

lemma pipe_sys_ok: "drq_ok pipe_sys 2" "node_ok pipe_sys 4" "\<not> acquired pipe_sys 2"
  "no_delay pipe_sys 2"
  using pipe_sys_at
  by (simp_all add: drq_ok_def node_ok_def no_delay_def pipe_drq_def zero_data_ref_q_def
      tivxFlagIsBitSet_def) (simp_all add: pipe_sys_def)

text \<open>C3: acquiring a parameter does to a data reference queue exactly what the abstract queue
  does: it lends the buffer already on loan, or takes the oldest waiting buffer, or finds none.
  In the last case nothing is lent and, unless eight nodes are already blocked there, the node
  is put on the blocked list of the queue and marked as blocked.\<close>

theorem acquire_refines:
  assumes ok: "drq_ok s d" and node: "node_ok s n"
    and run: "ownTargetNodeDescAcquireParameter s n d False False = (s', r, blocked)"
  shows "drq_ok s' d \<and> drq_abs s' d = fst (rq_acquire (drq_abs s d))
    \<and> (case snd (rq_acquire (drq_abs s d)) of
         Some x \<Rightarrow> r = x \<and> \<not> blocked
       | None \<Rightarrow> r = TIVX_OBJ_DESC_INVALID
           \<and> (blocked \<longleftrightarrow> length (odq_blocked (acq_q s d) (sys_tbl s)) < 8)
           \<and> (blocked \<longrightarrow> nd_state (node_of s' n) = TIVX_NODE_OBJ_DESC_STATE_BLOCKED
               \<and> odq_blocked (acq_q s d) (sys_tbl s')
                 = odq_blocked (acq_q s d) (sys_tbl s) @ [od_obj_desc_id (sys_desc s n)]))"
proof (cases "acquired s d")
  case True
  with acquire_held [OF True, of n False False] run ok show ?thesis
    by (simp add: rq_acquire_def drq_abs_def)
next
  case False
  then have held: "rq_held (drq_abs s d) = None" by (simp add: drq_abs_def)
  have acq: "rq_acq (drq_abs s d) = odq_elems (acq_q s d) (sys_tbl s)" by (simp add: drq_abs_def)
  show ?thesis
  proof (cases "odq_elems (acq_q s d) (sys_tbl s)")
    case Nil
    with acquire_empty [OF ok False node Nil, of False] run held acq ok show ?thesis
      by (cases "length (odq_blocked (acq_q s d) (sys_tbl s)) < 8") (auto simp: rq_acquire_def)
  next
    case (Cons x xs)
    with acquire_first [OF ok False Cons, of n False] run held acq show ?thesis
      by (auto simp: rq_acquire_def)
  qed
qed

theorem acquire_refines_witness:
  "\<exists>s'. ownTargetNodeDescAcquireParameter pipe_sys 4 2 False False = (s', 3, False)
    \<and> rq_held (drq_abs s' 2) = Some 3 \<and> rq_acq (drq_abs s' 2) = []"
proof -
  obtain s' r b where run: "ownTargetNodeDescAcquireParameter pipe_sys 4 2 False False = (s', r, b)"
    by (metis prod_cases3)
  have "rq_acquire (drq_abs pipe_sys 2)
      = ((drq_abs pipe_sys 2)\<lparr>rq_acq := [], rq_held := Some 3, rq_done := 0\<rparr>, Some 3)"
    using pipe_sys_at pipe_sys_ok(3)
    by (simp add: rq_acquire_def drq_abs_def pipe_drq_def zero_data_ref_q_def)
  with acquire_refines [OF pipe_sys_ok(1,2) run] run show ?thesis by auto
qed

text \<open>C4: releasing a parameter by an input node does what the abstract queue does: the count of
  nodes that are done goes up, and exactly the last of them ends the loan and puts the buffer at
  the end of the release queue; then every node that was blocked on that queue is triggered, in
  the order in which they blocked, and none stays on the list.\<close>

theorem release_refines:
  assumes ok: "drq_ok s d" and nodelay: "no_delay s d"
    and valid: "ownObjDescGet (sys_tbl s) ref \<noteq> None"
    and room: "length (odq_elems (rel_q s d) (sys_tbl s)) < 32"
    and run: "ownTargetNodeDescReleaseParameter pl ho s n d ref True = (s', released)"
  shows "drq_ok s' d
    \<and> (drq_abs s' d, released)
      = rq_release (drq_num_in_nodes (drq_of s d)) ref (drq_abs s d)
    \<and> (if released
       then odq_blocked (rel_q s d) (sys_tbl s') = []
         \<and> (\<exists>s1. sys_targets s1 = sys_targets s \<and> sys_ipc s1 = sys_ipc s
              \<and> sys_tbl s1 = sys_tbl s'
              \<and> s' = foldl (ownTargetTriggerNode pl) s1 (odq_blocked (rel_q s d) (sys_tbl s)))
       else odq_blocked (rel_q s d) (sys_tbl s') = odq_blocked (rel_q s d) (sys_tbl s)
         \<and> sys_targets s' = sys_targets s \<and> sys_ipc s' = sys_ipc s)"
proof (cases "drq_in_node_done_cnt (drq_of s d) + 1 = drq_num_in_nodes (drq_of s d)")
  case True
  obtain s3 where r: "ownTargetNodeDescReleaseParameter pl ho s n d ref True
      = (foldl (ownTargetTriggerNode pl) s3 (odq_blocked (rel_q s d) (sys_tbl s)), True)"
    "drq_ok s3 d" "drq_abs s3 d = (drq_abs s d)\<lparr>rq_rel := rq_rel (drq_abs s d) @ [ref],
      rq_held := None, rq_done := rq_done (drq_abs s d) + 1\<rparr>"
    "odq_blocked (rel_q s d) (sys_tbl s3) = []" "sys_targets s3 = sys_targets s"
    "sys_ipc s3 = sys_ipc s"
    using release_last [OF ok True valid room nodelay [unfolded no_delay_def], of pl ho n] by blast
  have tbl: "sys_tbl s' = sys_tbl s3"
    using r(1) run target_messenger.triggers_tbl by (metis fst_conv)
  have "rq_done (drq_abs s d) = drq_in_node_done_cnt (drq_of s d)" by (simp add: drq_abs_def)
  with True r run drq_tbl_cong [OF tbl] tbl show ?thesis
    by (auto simp: rq_release_def intro!: exI [of _ s3])
next
  case False
  have "rq_done (drq_abs s d) = drq_in_node_done_cnt (drq_of s d)" by (simp add: drq_abs_def)
  with False release_not_last [OF ok False, of pl ho n ref] run show ?thesis
    by (auto simp: rq_release_def)
qed

theorem release_refines_witness:
  "\<exists>s'. ownTargetNodeDescReleaseParameter sample_platform False pipe_sys 4 2 3 True = (s', False)
    \<and> rq_done (drq_abs s' 2) = 1 \<and> rq_rel (drq_abs s' 2) = []"
proof -
  obtain s' b where run: "ownTargetNodeDescReleaseParameter sample_platform False pipe_sys 4 2 3 True
      = (s', b)" by fastforce
  have "ownObjDescGet (sys_tbl pipe_sys) 3 \<noteq> None" "rel_q pipe_sys 2 = 1"
    using pipe_sys_at(1,2) by (simp_all add: ownObjDescGet_def pipe_drq_def)
  with release_refines [OF pipe_sys_ok(1,4) _ _ run] run pipe_sys_at show ?thesis
    by (auto simp: rq_release_def drq_abs_def pipe_drq_def zero_data_ref_q_def)
qed

text \<open>C2: over a whole loan, all the input nodes of a data reference queue are lent the same
  buffer, the oldest that waited; when the last of them has released it, it is at the end of the
  release queue, once, no other buffer has moved and the queue is ready for the next loan.\<close>

theorem loan_returns_buffer:
  assumes ok: "drq_ok s d" "\<not> acquired s d" "no_delay s d"
    and wait: "odq_elems (acq_q s d) (sys_tbl s) = x # xs"
    and nodes: "ns \<noteq> []" "drq_num_in_nodes (drq_of s d) = of_nat (length ns)" "length ns < 2 ^ 16"
    and valid: "unat x < num_entries (sys_tbl s)"
    and room: "length (odq_elems (rel_q s d) (sys_tbl s)) < 32"
  shows "\<exists>s'. consume pl ho d s ns = (s', replicate (length ns) x) \<and> drq_ok s' d
    \<and> rq_acq (drq_abs s' d) = xs \<and> rq_rel (drq_abs s' d) = rq_rel (drq_abs s d) @ [x]
    \<and> rq_held (drq_abs s' d) = None"
proof -
  obtain n ms where ns: "ns = n # ms" using nodes(1) by (cases ns) auto
  obtain s1 where a: "ownTargetNodeDescAcquireParameter s n d False False = (s1, x, False)"
    "drq_ok s1 d" "drq_abs s1 d = (drq_abs s d)\<lparr>rq_acq := xs, rq_held := Some x, rq_done := 0\<rparr>"
    "rel_q s1 d = rel_q s d" "drq_num_in_nodes (drq_of s1 d) = drq_num_in_nodes (drq_of s d)"
    "no_delay s1 d" "num_entries (sys_tbl s1) = num_entries (sys_tbl s)"
    using acquire_first [OF ok(1,2) wait, of n False] ok(3) by (auto simp: no_delay_def)
  have v: "acquired s1 d" "drq_ref_obj_desc_id (drq_of s1 d) = x"
    "drq_in_node_done_cnt (drq_of s1 d) = of_nat 0"
    "odq_elems (rel_q s1 d) (sys_tbl s1) = odq_elems (rel_q s d) (sys_tbl s)"
    using arg_cong [OF a(3), of rq_held] arg_cong [OF a(3), of rq_done]
      arg_cong [OF a(3), of rq_rel]
    by (auto simp: drq_abs_def split: if_splits)
  have "\<exists>s'. consume pl ho d s1 ns = (s', replicate (length ns) x) \<and> drq_ok s' d
     \<and> rq_acq (drq_abs s' d) = rq_acq (drq_abs s1 d)
     \<and> rq_rel (drq_abs s' d) = rq_rel (drq_abs s1 d) @ [x] \<and> rq_held (drq_abs s' d) = None"
    using consume_held [OF a(2) v(1,2) nodes(1) v(3)] a(5,6,7) v(4) nodes(2,3) valid room by simp
  moreover have "consume pl ho d s ns = consume pl ho d s1 ns"
    using a(1) acquire_held [OF v(1), of n False False] v(2) by (simp add: ns)
  ultimately show ?thesis using a(3) by auto
qed

theorem loan_returns_buffer_witness:
  "\<exists>s'. consume sample_platform False 2 pipe_sys [4, 4] = (s', [3, 3])
    \<and> rq_rel (drq_abs s' 2) = [3] \<and> rq_acq (drq_abs s' 2) = []"
proof -
  have q: "acq_q pipe_sys 2 = 0" "rel_q pipe_sys 2 = 1" "drq_num_in_nodes (drq_of pipe_sys 2) = 2"
    using pipe_sys_at(2) by (simp_all add: pipe_drq_def zero_data_ref_q_def)
  have "\<exists>s'. consume sample_platform False 2 pipe_sys [4, 4] = (s', replicate (length [4, 4 :: nat]) 3)
      \<and> drq_ok s' 2 \<and> rq_acq (drq_abs s' 2) = []
      \<and> rq_rel (drq_abs s' 2) = rq_rel (drq_abs pipe_sys 2) @ [3] \<and> rq_held (drq_abs s' 2) = None"
    by (rule loan_returns_buffer [OF pipe_sys_ok(1,3,4)]) (use q pipe_sys_at in simp_all)
  moreover have "rq_rel (drq_abs pipe_sys 2) = []"
    using q(2) pipe_sys_at(4) by (simp add: drq_abs_def)
  ultimately show ?thesis by (auto simp: numeral_2_eq_2)
qed

text \<open>With eight nodes blocked on the queue, a ninth is neither blocked nor given a buffer: the
  result tells its caller to go on with the invalid descriptor.\<close>

lemma acquire_ninth_not_blocked:
  assumes "drq_ok s d" "\<not> acquired s d" "node_ok s n"
    and "odq_elems (acq_q s d) (sys_tbl s) = []"
    and "length (odq_blocked (acq_q s d) (sys_tbl s)) = 8"
  shows "ownTargetNodeDescAcquireParameter s n d False False = (s, TIVX_OBJ_DESC_INVALID, False)"
  using acquire_empty [OF assms(1-4), of False] assms(5) by simp

end
