(* ===== verification/Target_Node.thy ===== *)
theory Target_Node
  imports Target_Params
begin

text \<open>
  The execution of a node by a target's task: \<open>source/framework/vx_target.c\<close> from
  \<open>ownTargetNodeDescSendComplete\<close> to \<open>ownTargetNodeDescNodeExecute\<close> with
  \<open>ownTargetSetTimestamp\<close>, and the calls of the kernels' functions of
  \<open>source/framework/vx_target_kernel.c\<close>. A build without \<open>BUILD_BAM\<close> is modelled. The functions
  that a kernel registers are outside the repository's framework: they are the record
  \<open>callbacks\<close>, indexed by the function pointers kept in the kernel table.
\<close>

section \<open>Flags and callbacks\<close>

abbreviation (input) TIVX_NODE_FLAG_IS_REPLICATED :: uint32
  where "TIVX_NODE_FLAG_IS_REPLICATED \<equiv> 0x1"
abbreviation (input) TIVX_NODE_FLAG_IS_EXECUTED :: uint32
  where "TIVX_NODE_FLAG_IS_EXECUTED \<equiv> 0x2"
abbreviation (input) TIVX_NODE_FLAG_IS_USER_CALLBACK :: uint32
  where "TIVX_NODE_FLAG_IS_USER_CALLBACK \<equiv> 0x4"
abbreviation (input) TIVX_NODE_FLAG_IS_TARGET_KERNEL :: uint32
  where "TIVX_NODE_FLAG_IS_TARGET_KERNEL \<equiv> 0x8"
abbreviation (input) TIVX_CMD_FLAG_SEND_ACK :: uint32 where "TIVX_CMD_FLAG_SEND_ACK \<equiv> 0x1"
abbreviation (input) TIVX_CMD_FLAG_IS_ACK :: uint32 where "TIVX_CMD_FLAG_IS_ACK \<equiv> 0x2"
abbreviation (input) TIVX_CMD_NODE_CREATE :: uint32 where "TIVX_CMD_NODE_CREATE \<equiv> 1"
abbreviation (input) TIVX_CMD_NODE_DELETE :: uint32 where "TIVX_CMD_NODE_DELETE \<equiv> 2"
abbreviation (input) TIVX_CMD_NODE_CONTROL :: uint32 where "TIVX_CMD_NODE_CONTROL \<equiv> 3"
abbreviation (input) TIVX_CMD_NODE_USER_CALLBACK :: uint32
  where "TIVX_CMD_NODE_USER_CALLBACK \<equiv> 4"
abbreviation (input) TIVX_CMD_DATA_REF_CONSUMED :: uint32
  where "TIVX_CMD_DATA_REF_CONSUMED \<equiv> 5"
abbreviation (input) SEND_TO_ALL_REPLICATED_NODES :: "32 word"
  where "SEND_TO_ALL_REPLICATED_NODES \<equiv> - 1"
abbreviation (input) TIVX_KERNEL_MAX_PARAMS :: "'a::numeral"
  where "TIVX_KERNEL_MAX_PARAMS \<equiv> 32"

text \<open>A kernel function gets its instance, the array of parameter pointers (the process function may
  write to it) and the private argument of the kernel. The host's user kernels and the host's
  handler of completion commands are reached through two global function pointers, \<open>None\<close> when
  they were not registered.\<close>

record callbacks =
  cb_process :: "uintptr \<Rightarrow> nat \<Rightarrow> nat option list \<Rightarrow> uint16 \<Rightarrow> uintptr \<Rightarrow> sys \<Rightarrow>
    sys \<times> nat option list \<times> vx_status"
  cb_create :: "uintptr \<Rightarrow> nat \<Rightarrow> nat option list \<Rightarrow> uint16 \<Rightarrow> uintptr \<Rightarrow> sys \<Rightarrow> sys \<times> vx_status"
  cb_delete :: "uintptr \<Rightarrow> nat \<Rightarrow> nat option list \<Rightarrow> uint16 \<Rightarrow> uintptr \<Rightarrow> sys \<Rightarrow> sys \<times> vx_status"
  cb_control :: "uintptr \<Rightarrow> nat \<Rightarrow> uint32 \<Rightarrow> nat option list \<Rightarrow> uint16 \<Rightarrow> uintptr \<Rightarrow> sys \<Rightarrow>
    sys \<times> vx_status"
  cb_user_kernel :: "(nat \<Rightarrow> uint16 list \<Rightarrow> sys \<Rightarrow> sys \<times> uint16 list) option"
  cb_host_cmd :: "(nat \<Rightarrow> sys \<Rightarrow> sys) option"

section \<open>Calling the functions of a kernel\<close>

text \<open>The kernel of an instance, with the entry of the kernel table it points to.\<close>

definition instance_kernel :: "sys \<Rightarrow> nat option \<Rightarrow> tivx_target_kernel option" where
  "instance_kernel s inst =
     map_option (\<lambda>k. g_target_kernel_table (sys_kernels s) ! k)
       (tivxTargetKernelInstanceGetKernel (sys_instances s) inst)"

definition ownTargetKernelCreate ::
  "callbacks \<Rightarrow> sys \<Rightarrow> nat option \<Rightarrow> nat option list \<Rightarrow> uint16 \<Rightarrow> sys \<times> vx_status" where
  "ownTargetKernelCreate cb s inst params num_params =
     (case (inst, instance_kernel s inst) of
        (Some i, Some knl) \<Rightarrow>
          if tk_create_func knl \<noteq> 0
          then cb_create cb (tk_create_func knl) i params num_params (tk_caller_priv_arg knl) s
          else (s, VX_FAILURE)
      | _ \<Rightarrow> (s, VX_FAILURE))"

definition ownTargetKernelDelete ::
  "callbacks \<Rightarrow> sys \<Rightarrow> nat option \<Rightarrow> nat option list \<Rightarrow> uint16 \<Rightarrow> sys \<times> vx_status" where
  "ownTargetKernelDelete cb s inst params num_params =
     (case (inst, instance_kernel s inst) of
        (Some i, Some knl) \<Rightarrow>
          if tk_delete_func knl \<noteq> 0
          then cb_delete cb (tk_delete_func knl) i params num_params (tk_caller_priv_arg knl) s
          else (s, VX_FAILURE)
      | _ \<Rightarrow> (s, VX_FAILURE))"

definition ownTargetKernelExecute ::
  "callbacks \<Rightarrow> sys \<Rightarrow> nat option \<Rightarrow> nat option list \<Rightarrow> uint16 \<Rightarrow>
   sys \<times> nat option list \<times> vx_status" where
  "ownTargetKernelExecute cb s inst params num_params =
     (case (inst, instance_kernel s inst) of
        (Some i, Some knl) \<Rightarrow>
          if tk_process_func knl \<noteq> 0
          then cb_process cb (tk_process_func knl) i params num_params (tk_caller_priv_arg knl) s
          else (s, params, VX_FAILURE)
      | _ \<Rightarrow> (s, params, VX_FAILURE))"

definition ownTargetKernelControl ::
  "callbacks \<Rightarrow> sys \<Rightarrow> nat option \<Rightarrow> uint32 \<Rightarrow> nat option list \<Rightarrow> uint16 \<Rightarrow> sys \<times> vx_status" where
  "ownTargetKernelControl cb s inst node_cmd_id params num_params =
     (case (inst, instance_kernel s inst) of
        (Some i, Some knl) \<Rightarrow>
          if tk_control_func knl \<noteq> 0
          then cb_control cb (tk_control_func knl) i node_cmd_id params num_params
                 (tk_caller_priv_arg knl) s
          else (s, VX_FAILURE)
      | _ \<Rightarrow> (s, VX_FAILURE))"

section \<open>Completion of a node and its successors\<close>

definition ownTargetNodeDescSendComplete :: "platform \<Rightarrow> sys \<Rightarrow> nat \<Rightarrow> sys" where
  "ownTargetNodeDescSendComplete pl s n =
     (let nd = node_of s n in
      if tivxFlagIsBitSet (nd_flags nd) TIVX_NODE_FLAG_IS_USER_CALLBACK \<or> nd_num_out_nodes nd = 0
      then
       (let cmd_id = (ucast (nd_node_complete_cmd_obj_desc_id nd) :: uint16) in
        if cmd_id \<noteq> TIVX_OBJ_DESC_INVALID then
         (let c = ownObjDescGet (sys_tbl s) cmd_id in
          if ownObjDescIsValidType (sys_tbl s) c TIVX_OBJ_DESC_CMD then
           (case read_clock pl s of
              (s1, us) \<Rightarrow>
               (let s2 = upd_cmd (the c)
                      (\<lambda>k. k\<lparr>cmd_timestamp := tivx_uint64_to_uint32 (us * 1000)\<rparr>) s1
                in fst (ownObjDescSend pl s2 (cmd_dst_target_id (cmd_of s2 (the c))) cmd_id)))
          else s)
        else s)
      else s)"

text \<open>The loop of \<open>ownTargetNodeDescCanNodeExecute\<close> over the predecessors that are left.\<close>

fun can_execute_loop :: "tivx_obj_desc_table_info \<Rightarrow> uint16 list \<Rightarrow> bool" where
  "can_execute_loop t [] = True"
| "can_execute_loop t (p # ps) =
     (let d = ownObjDescGet t p in
      if ownObjDescIsValidType t d TIVX_OBJ_DESC_NODE
         \<and> \<not> tivxFlagIsBitSet (nd_flags (the_node (od_body (desc_at t (the d)))))
               TIVX_NODE_FLAG_IS_EXECUTED
      then False else can_execute_loop t ps)"

definition ownTargetNodeDescCanNodeExecute :: "sys \<Rightarrow> nat \<Rightarrow> bool" where
  "ownTargetNodeDescCanNodeExecute s n =
     can_execute_loop (sys_tbl s) (take (unat (nd_num_in_nodes (node_of s n)))
       (nd_in_node_id (node_of s n)))"

fun trigger_next_loop :: "platform \<Rightarrow> sys \<Rightarrow> uint16 list \<Rightarrow> sys" where
  "trigger_next_loop pl s [] = s"
| "trigger_next_loop pl s (x # xs) =
     (let d = ownObjDescGet (sys_tbl s) x;
          s1 = (if ownObjDescIsValidType (sys_tbl s) d TIVX_OBJ_DESC_NODE then
                 (if ownTargetNodeDescCanNodeExecute s (the d)
                  then fst (ownObjDescSend pl s (nd_target_id (node_of s (the d))) x) else s)
                else s)
      in trigger_next_loop pl s1 xs)"

definition ownTargetNodeDescTriggerNextNodes :: "platform \<Rightarrow> sys \<Rightarrow> nat \<Rightarrow> sys" where
  "ownTargetNodeDescTriggerNextNodes pl s n =
     trigger_next_loop pl s (take (unat (nd_num_out_nodes (node_of s n)))
       (nd_out_node_id (node_of s n)))"

section \<open>Time stamps\<close>

definition input_timestamp ::
  "tivx_obj_desc_table_info \<Rightarrow> tivx_obj_desc_node \<Rightarrow> nat option list \<Rightarrow> uint64" where
  "input_timestamp t nd params =
     foldl (\<lambda>ts i. case params ! i of None \<Rightarrow> ts
         | Some p \<Rightarrow>
             if (prm_bit (nd_is_prm_input nd) i \<or> prm_bit (nd_is_prm_bidi nd) i)
                \<and> od_timestamp (desc_at t p) > ts
             then od_timestamp (desc_at t p) else ts)
       0 [0..<unat (nd_num_params nd)]"

definition stamp_output ::
  "uint64 \<Rightarrow> tivx_obj_desc_node \<Rightarrow> nat option list \<Rightarrow> sys \<Rightarrow> nat \<Rightarrow> sys" where
  "stamp_output ts nd params s i =
     (case params ! i of None \<Rightarrow> s
      | Some p \<Rightarrow>
          if \<not> prm_bit (nd_is_prm_input nd) i then
           (let s1 = upd_base p (\<lambda>b. b\<lparr>od_timestamp := ts\<rparr>) s
            in case ownObjDescGet (sys_tbl s1) (od_scope_obj_desc_id (sys_desc s1 p)) of
                 None \<Rightarrow> s1
               | Some q \<Rightarrow> upd_base q (\<lambda>b. b\<lparr>od_timestamp := ts\<rparr>) s1)
          else s)"

definition ownTargetSetTimestamp :: "sys \<Rightarrow> nat \<Rightarrow> nat option list \<Rightarrow> sys" where
  "ownTargetSetTimestamp s n params =
     (let nd = node_of s n; ts = input_timestamp (sys_tbl s) nd params
      in foldl (stamp_output ts nd params) s [0..<unat (nd_num_params nd)])"

section \<open>Executing a target kernel\<close>

text \<open>The element ids of an object array or of a pyramid.\<close>

definition element_ids :: "od_body \<Rightarrow> uint16 list" where
  "element_ids b = (case b of B_Obj_Array _ ids \<Rightarrow> ids | B_Pyramid _ ids \<Rightarrow> ids | _ \<Rightarrow> [])"

definition is_container :: "tivx_obj_desc_table_info \<Rightarrow> nat \<Rightarrow> bool" where
  "is_container t p \<longleftrightarrow> od_type (desc_at t p) = TIVX_OBJ_DESC_OBJARRAY
     \<or> od_type (desc_at t p) = TIVX_OBJ_DESC_PYRAMID"

definition container_elem :: "tivx_obj_desc_table_info \<Rightarrow> nat \<Rightarrow> nat \<Rightarrow> nat option" where
  "container_elem t p k = ownObjDescGet t (element_ids (od_body (desc_at t p)) ! k)"

text \<open>The parameter of replica \<open>cnt\<close>: the element of the container \<open>parent\<close>.\<close>

definition replica_param ::
  "tivx_obj_desc_table_info \<Rightarrow> nat option \<Rightarrow> nat \<Rightarrow> nat option" where
  "replica_param t parent cnt =
     (case parent of None \<Rightarrow> None
      | Some p \<Rightarrow> if is_container t p then container_elem t p cnt else None)"

text \<open>The parent of a replicated parameter, the parameter itself when it has none.\<close>

definition replica_parent :: "tivx_obj_desc_table_info \<Rightarrow> uint16 \<Rightarrow> nat option" where
  "replica_parent t prm =
     (case ownObjDescGet t prm of None \<Rightarrow> None
      | Some p \<Rightarrow> (case ownObjDescGet t (od_scope_obj_desc_id (desc_at t p)) of
            Some q \<Rightarrow> Some q | None \<Rightarrow> Some p))"

text \<open>The pointer for parameter \<open>i\<close> and the new value of \<open>is_prm_array_element\<close>; \<open>nd0\<close> is the node
  when the call began, whose masks were copied.\<close>

definition exec_param ::
  "tivx_obj_desc_table_info \<Rightarrow> tivx_obj_desc_node \<Rightarrow> tivx_obj_desc_node \<Rightarrow> uint16 list \<Rightarrow> nat \<Rightarrow>
   uint32 \<Rightarrow> nat \<Rightarrow> nat option \<times> uint32" where
  "exec_param t nd0 nd prm cnt array_mask i =
     (if prm_bit (nd_is_prm_replicated nd0) i
      then (replica_param t (replica_parent t (prm ! i)) cnt, array_mask)
      else if prm_bit array_mask i then
       (if prm_bit (nd_is_prm_data_ref_q nd0) i then
         (case ownObjDescGet t (prm ! i) of
            None \<Rightarrow> (None, array_mask)
          | Some p \<Rightarrow>
              if is_container t p then
                (case ownObjDescGet t (nd_data_id nd ! i) of
                   None \<Rightarrow> (None, array_mask)
                 | Some q \<Rightarrow> (container_elem t p (unat (od_element_idx (desc_at t q))), array_mask))
              else (Some p, tivxFlagBitClear array_mask (push_bit i 1)))
        else (ownObjDescGet t (nd_data_id nd ! i), array_mask))
      else
       ((case ownObjDescGet t (prm ! i) of
           None \<Rightarrow> None
         | Some p \<Rightarrow>
             if prm_bit (nd_is_prm_data_ref_q nd0) i then
               (case (ownObjDescGet t (od_scope_obj_desc_id (desc_at t p)),
                      ownObjDescGet t (nd_data_id nd ! i)) of
                  (Some q, Some r) \<Rightarrow>
                    if od_type (desc_at t q) = od_type (desc_at t r) then Some q else Some p
                | _ \<Rightarrow> Some p)
             else Some p), array_mask))"

definition exec_params ::
  "tivx_obj_desc_table_info \<Rightarrow> tivx_obj_desc_node \<Rightarrow> tivx_obj_desc_node \<Rightarrow> uint16 list \<Rightarrow> nat \<Rightarrow>
   nat option list \<Rightarrow> uint32 \<Rightarrow> nat option list \<times> uint32" where
  "exec_params t nd0 nd prm cnt params array_mask =
     foldl (\<lambda>(ps, m) i. case exec_param t nd0 nd prm cnt m i of (p, m') \<Rightarrow> (ps[i := p], m'))
       (params, array_mask) [0..<unat (nd_num_params nd)]"

fun exec_replicas ::
  "callbacks \<Rightarrow> tivx_obj_desc_node \<Rightarrow> nat \<Rightarrow> nat \<Rightarrow> sys \<Rightarrow> nat \<Rightarrow> uint16 list \<Rightarrow>
   nat option list \<Rightarrow> uint32 \<Rightarrow> sys \<times> nat option list \<times> uint32" where
  "exec_replicas cb nd0 0 cnt s n prm params m = (s, params, m)"
| "exec_replicas cb nd0 (Suc k) cnt s n prm params m =
     (let nd = node_of s n;
          inst = ownTargetKernelInstanceGet (sys_instances s)
                   (ucast (nd_target_kernel_index nd ! cnt)) (nd_kernel_id nd)
      in case exec_params (sys_tbl s) nd0 nd prm cnt params m of
           (params1, m1) \<Rightarrow>
             (let s1 = ownTargetSetTimestamp s n params1
              in case ownTargetKernelExecute cb s1 inst params1
                        (ucast (nd_num_params (node_of s1 n))) of
                   (s2, params2, status) \<Rightarrow>
                     exec_replicas cb nd0 k (Suc cnt)
                       (upd_node n (\<lambda>d. d\<lparr>nd_exe_status := (nd_exe_status d OR status)\<rparr>) s2)
                       n prm params2 m1))"

text \<open>The id given back for a data reference queue parameter that is not replicated.\<close>

definition result_param ::
  "tivx_obj_desc_table_info \<Rightarrow> uint32 \<Rightarrow> nat option list \<Rightarrow> nat \<Rightarrow> uint16" where
  "result_param t array_mask params i =
     (case params ! i of None \<Rightarrow> TIVX_OBJ_DESC_INVALID
      | Some p \<Rightarrow>
          if prm_bit array_mask i then
            (case ownObjDescGet t (od_obj_desc_id (desc_at t p)) of
               None \<Rightarrow> TIVX_OBJ_DESC_INVALID
             | Some q \<Rightarrow> (case ownObjDescGet t (od_scope_obj_desc_id (desc_at t q)) of
                   None \<Rightarrow> TIVX_OBJ_DESC_INVALID
                 | Some r \<Rightarrow> od_obj_desc_id (desc_at t r)))
          else od_obj_desc_id (desc_at t p))"

definition replica_count :: "tivx_obj_desc_node \<Rightarrow> nat" where
  "replica_count nd = (if tivxFlagIsBitSet (nd_flags nd) TIVX_NODE_FLAG_IS_REPLICATED
     then unat (nd_num_of_replicas nd) else 1)"

definition ownTargetNodeDescNodeExecuteTargetKernel ::
  "callbacks \<Rightarrow> sys \<Rightarrow> nat \<Rightarrow> uint16 list \<Rightarrow> sys \<times> uint16 list" where
  "ownTargetNodeDescNodeExecuteTargetKernel cb s n prm =
     (let nd0 = node_of s n in
      case exec_replicas cb nd0 (replica_count nd0) 0 s n prm
             (replicate TIVX_KERNEL_MAX_PARAMS None) (nd_is_prm_array_element nd0) of
        (s1, params, m) \<Rightarrow>
          (s1, foldl (\<lambda>ids i.
                 if prm_bit (nd_is_prm_data_ref_q nd0) i \<and> \<not> prm_bit (nd_is_prm_replicated nd0) i
                 then ids[i := result_param (sys_tbl s1) m params i] else ids)
               prm [0..<unat (nd_num_params (node_of s1 n))]))"

definition ownTargetNodeDescNodeExecuteKernel ::
  "callbacks \<Rightarrow> sys \<Rightarrow> nat \<Rightarrow> uint16 list \<Rightarrow> sys \<times> uint16 list" where
  "ownTargetNodeDescNodeExecuteKernel cb s n prm =
     (if tivxFlagIsBitSet (nd_flags (node_of s n)) TIVX_NODE_FLAG_IS_TARGET_KERNEL
      then ownTargetNodeDescNodeExecuteTargetKernel cb s n prm
      else (case cb_user_kernel cb of None \<Rightarrow> (s, prm) | Some f \<Rightarrow> f n prm s))"

section \<open>Executing a node\<close>

definition ownTargetNodeDescIsPrevPipeNodeBlocked :: "sys \<Rightarrow> nat \<Rightarrow> sys \<times> bool" where
  "ownTargetNodeDescIsPrevPipeNodeBlocked s n =
     (case ownObjDescGet (sys_tbl s) (nd_prev_pipe_node_id (node_of s n)) of
        None \<Rightarrow> (s, False)
      | Some p \<Rightarrow>
          if nd_state (node_of s n) = TIVX_NODE_OBJ_DESC_STATE_IDLE then
           (if nd_state (node_of s p) \<noteq> TIVX_NODE_OBJ_DESC_STATE_IDLE
            then (upd_node p (\<lambda>d. d\<lparr>nd_blocked_node_id := od_obj_desc_id (sys_desc s n)\<rparr>)
                   (upd_node n (\<lambda>d. d\<lparr>nd_state := TIVX_NODE_OBJ_DESC_STATE_BLOCKED\<rparr>) s), True)
            else (s, False))
          else if nd_state (node_of s n) = TIVX_NODE_OBJ_DESC_STATE_BLOCKED
          then (upd_node n (\<lambda>d. d\<lparr>nd_state := TIVX_NODE_OBJ_DESC_STATE_IDLE\<rparr>) s, False)
          else (s, False))"

definition ownTargetNodeDescNodeMarkComplete :: "sys \<Rightarrow> nat \<Rightarrow> sys \<times> uint16" where
  "ownTargetNodeDescNodeMarkComplete s n =
     (upd_node n (\<lambda>d. d\<lparr>nd_blocked_node_id := TIVX_OBJ_DESC_INVALID,
                        nd_state := TIVX_NODE_OBJ_DESC_STATE_IDLE,
                        nd_flags := tivxFlagBitSet (nd_flags d) TIVX_NODE_FLAG_IS_EXECUTED\<rparr>) s,
      nd_blocked_node_id (node_of s n))"

text \<open>The rounds in which a kernel is filled with buffers before its first real execution.\<close>

fun pipeup_loop ::
  "callbacks \<Rightarrow> nat \<Rightarrow> sys \<Rightarrow> nat \<Rightarrow> uint16 list \<Rightarrow> sys \<times> uint16 list" where
  "pipeup_loop cb 0 s n prm = (s, prm)"
| "pipeup_loop cb (Suc k) s n prm =
     (case ownTargetNodeDescAcquireAllParameters s n prm True of
        (s1, prm1, _) \<Rightarrow>
          (case ownTargetNodeDescNodeExecuteKernel cb s1 n prm1 of
             (s2, prm2) \<Rightarrow> pipeup_loop cb k s2 n prm2))"

definition upd_instance_state :: "nat option \<Rightarrow> vx_enum \<Rightarrow> sys \<Rightarrow> sys" where
  "upd_instance_state inst st s = (case inst of None \<Rightarrow> s
     | Some i \<Rightarrow> s\<lparr>sys_instances := (sys_instances s)
         [i := (sys_instances s ! i)\<lparr>ki_state := st\<rparr>]\<rparr>)"

text \<open>The kernel's state and number of pipe-up buffers, from its instance or, for a user kernel, from
  the node.\<close>

definition pipeup_info :: "sys \<Rightarrow> nat \<Rightarrow> nat option \<Rightarrow> vx_enum \<times> uint32" where
  "pipeup_info s n inst =
     (let nd = node_of s n in
      if tivxFlagIsBitSet (nd_flags nd) TIVX_NODE_FLAG_IS_TARGET_KERNEL then
        (case inst of None \<Rightarrow> (VX_NODE_STATE_STEADY, 1)
         | Some i \<Rightarrow> (ki_state (sys_instances s ! i),
             tk_num_pipeup_bufs (g_target_kernel_table (sys_kernels s)
               ! the (ki_kernel (sys_instances s ! i)))))
      else (nd_source_state nd, nd_num_pipeup_bufs nd))"

definition node_pipeup :: "callbacks \<Rightarrow> sys \<Rightarrow> nat \<Rightarrow> uint16 list \<Rightarrow> sys \<times> uint16 list" where
  "node_pipeup cb s n prm =
     (let inst = ownTargetKernelInstanceGet (sys_instances s)
                   (ucast (nd_target_kernel_index (node_of s n) ! 0)) (nd_kernel_id (node_of s n))
      in case pipeup_info s n inst of
           (st, num_bufs) \<Rightarrow>
             if st = VX_NODE_STATE_PIPEUP \<and> num_bufs > 1 then
               (case pipeup_loop cb (nat (sint num_bufs - 1)) s n prm of
                  (s1, prm1) \<Rightarrow>
                    (let s2 = upd_node n (\<lambda>d. d\<lparr>nd_source_state := VX_NODE_STATE_STEADY\<rparr>) s1
                     in ((if tivxFlagIsBitSet (nd_flags (node_of s2 n))
                               TIVX_NODE_FLAG_IS_TARGET_KERNEL
                          then upd_instance_state inst VX_NODE_STATE_STEADY s2 else s2), prm1)))
             else (s, prm))"

text \<open>What follows a successful acquisition: run the kernel, mark the node as complete, give its
  parameters back, notify, and trigger its successors and the node that waits for it.\<close>

definition node_run ::
  "platform \<Rightarrow> callbacks \<Rightarrow> bool \<Rightarrow> sys \<Rightarrow> nat \<Rightarrow> uint16 list \<Rightarrow> sys" where
  "node_run pl cb host_only s n prm =
     (case read_clock pl s of
        (s1, beg_time) \<Rightarrow>
       (case ownTargetNodeDescNodeExecuteKernel cb s1 n prm of
          (s2, prm2) \<Rightarrow>
         (case read_clock pl s2 of
            (s3, end_time) \<Rightarrow>
           (let s4 = upd_node n (\<lambda>d. d\<lparr>nd_exe_time_beg := tivx_uint64_to_uint32 beg_time,
                                       nd_exe_time_end := tivx_uint64_to_uint32 end_time\<rparr>) s3
            in case ownTargetNodeDescNodeMarkComplete s4 n of
                 (s5, blocked_node_id) \<Rightarrow>
                  (let s6 = ownTargetNodeDescReleaseAllParameters pl host_only s5 n prm2;
                       s7 = ownTargetNodeDescSendComplete pl s6 n;
                       s8 = ownTargetNodeDescTriggerNextNodes pl s7 n
                   in if blocked_node_id \<noteq> TIVX_OBJ_DESC_INVALID
                      then ownTargetTriggerNode pl s8 blocked_node_id else s8)))))"

text \<open>The array \<open>prm_obj_desc_id\<close> is not initialised by the code; every entry is written before it is
  read.\<close>

definition ownTargetNodeDescNodeExecute ::
  "platform \<Rightarrow> callbacks \<Rightarrow> bool \<Rightarrow> sys \<Rightarrow> nat \<Rightarrow> sys" where
  "ownTargetNodeDescNodeExecute pl cb host_only s n =
     (if tivxFlagIsBitSet (nd_flags (node_of s n)) TIVX_NODE_FLAG_IS_EXECUTED then s
      else
       (case ownTargetNodeDescIsPrevPipeNodeBlocked s n of
          (s1, True) \<Rightarrow> s1
        | (s1, False) \<Rightarrow>
            (case node_pipeup cb s1 n (replicate TIVX_KERNEL_MAX_PARAMS 0) of
               (s2, prm) \<Rightarrow>
                 (case ownTargetNodeDescAcquireAllParameters s2 n prm False of
                    (s3, prm3, is_node_blocked) \<Rightarrow>
                      if \<not> is_node_blocked then node_run pl cb host_only s3 n prm3 else s3))))"

section \<open>Triggering the successors\<close>

text \<open>A successor is ready when every predecessor that is a node has been executed.\<close>

definition preds_executed :: "tivx_obj_desc_table_info \<Rightarrow> tivx_obj_desc_node \<Rightarrow> bool" where
  "preds_executed t nd \<longleftrightarrow>
     (\<forall>p \<in> set (take (unat (nd_num_in_nodes nd)) (nd_in_node_id nd)).
        ownObjDescIsValidType t (ownObjDescGet t p) TIVX_OBJ_DESC_NODE \<longrightarrow>
        tivxFlagIsBitSet (nd_flags (the_node (od_body (desc_at t (unat p)))))
          TIVX_NODE_FLAG_IS_EXECUTED)"

definition out_nodes :: "sys \<Rightarrow> nat \<Rightarrow> uint16 list" where
  "out_nodes s n = take (unat (nd_num_out_nodes (node_of s n))) (nd_out_node_id (node_of s n))"

lemma valid_type_some:
  "ownObjDescIsValidType t (ownObjDescGet t i) ty \<longleftrightarrow> unat i < num_entries t
     \<and> od_type (desc_at t (unat i)) = ty
     \<and> unat (od_obj_desc_id (desc_at t (unat i))) < num_entries t"
  by (auto simp: ownObjDescIsValidType_def ownObjDescGet_def)

lemma get_valid:
  assumes "ownObjDescIsValidType t (ownObjDescGet t i) ty"
  shows "ownObjDescGet t i = Some (unat i)"
  using assms unfolding valid_type_some by (simp add: ownObjDescGet_def)

lemma can_execute_loop_iff:
  "can_execute_loop t ps \<longleftrightarrow>
     (\<forall>p \<in> set ps. ownObjDescIsValidType t (ownObjDescGet t p) TIVX_OBJ_DESC_NODE \<longrightarrow>
        tivxFlagIsBitSet (nd_flags (the_node (od_body (desc_at t (unat p)))))
          TIVX_NODE_FLAG_IS_EXECUTED)"
proof (induction ps)
  case Nil
  then show ?case by simp
next
  case (Cons p ps)
  show ?case
    by (cases "ownObjDescIsValidType t (ownObjDescGet t p) TIVX_OBJ_DESC_NODE")
      (simp_all add: Cons.IH Let_def get_valid)
qed

lemma can_node_execute_iff:
  "ownTargetNodeDescCanNodeExecute s n \<longleftrightarrow> preds_executed (sys_tbl s) (node_of s n)"
  by (simp add: ownTargetNodeDescCanNodeExecute_def can_execute_loop_iff preds_executed_def)

text \<open>The test that a successor passes before it is triggered.\<close>

definition next_ready :: "tivx_obj_desc_table_info \<Rightarrow> uint16 \<Rightarrow> bool" where
  "next_ready t x \<longleftrightarrow> ownObjDescIsValidType t (ownObjDescGet t x) TIVX_OBJ_DESC_NODE
     \<and> preds_executed t (the_node (od_body (desc_at t (unat x))))"

lemma trigger_next_loop_filter:
  "trigger_next_loop pl s xs
     = foldl (ownTargetTriggerNode pl) s (filter (next_ready (sys_tbl s)) xs)"
proof (induction xs arbitrary: s)
  case Nil
  then show ?case by simp
next
  case (Cons x xs)
  let ?d = "ownObjDescGet (sys_tbl s) x"
  show ?case
  proof (cases "next_ready (sys_tbl s) x")
    case True
    then have v: "ownObjDescIsValidType (sys_tbl s) ?d TIVX_OBJ_DESC_NODE"
      and p: "preds_executed (sys_tbl s) (node_of s (unat x))"
      by (simp_all add: next_ready_def)
    note g = get_valid [OF v]
    have "trigger_next_loop pl s (x # xs) = trigger_next_loop pl (ownTargetTriggerNode pl s x) xs"
      using v p by (simp add: Let_def g can_node_execute_iff ownTargetTriggerNode_def)
    with True show ?thesis by (simp add: Cons.IH)
  next
    case False
    then have "trigger_next_loop pl s (x # xs) = trigger_next_loop pl s xs"
      by (auto simp: Let_def can_node_execute_iff next_ready_def get_valid)
    with False show ?thesis by (simp add: Cons.IH)
  qed
qed

lemma trigger_next_tbl [simp]: "sys_tbl (ownTargetNodeDescTriggerNextNodes pl s n) = sys_tbl s"
  by (simp add: ownTargetNodeDescTriggerNextNodes_def trigger_next_loop_filter
      target_messenger.triggers_tbl)

section \<open>Updates of node descriptors\<close>

lemma node_of_upd_node:
  assumes "n < num_entries (sys_tbl s)"
  shows "node_of (upd_node n f s) n = f (node_of s n)"
    "i \<noteq> n \<Longrightarrow> sys_desc (upd_node n f s) i = sys_desc s i"
    "od_obj_desc_id (sys_desc (upd_node n f s) i) = od_obj_desc_id (sys_desc s i)"
    "od_type (sys_desc (upd_node n f s) i) = od_type (sys_desc s i)"
  using assms by (auto simp: upd_node_def upd_desc_def nth_list_update)

lemma upd_node_frame [simp]:
  "num_entries (sys_tbl (upd_node n f s)) = num_entries (sys_tbl s)"
  "sys_targets (upd_node n f s) = sys_targets s" "sys_ipc (upd_node n f s) = sys_ipc s"
  "sys_instances (upd_node n f s) = sys_instances s"
  "sys_kernels (upd_node n f s) = sys_kernels s"
  "sys_events (upd_node n f s) = sys_events s"
  by (simp_all add: upd_node_def upd_desc_def)

section \<open>Acquisition leaves the rest of the CPU alone\<close>

definition same_env :: "sys \<Rightarrow> sys \<Rightarrow> bool" where
  "same_env s s' \<longleftrightarrow> sys_targets s' = sys_targets s \<and> sys_ipc s' = sys_ipc s
     \<and> sys_kernels s' = sys_kernels s \<and> sys_instances s' = sys_instances s
     \<and> sys_events s' = sys_events s \<and> sys_clock_reads s' = sys_clock_reads s"

lemma same_env_simps [simp]:
  "same_env s s" "same_env s (s'\<lparr>sys_tbl := t\<rparr>) = same_env s s'"
  "same_env s (upd_node n f s') = same_env s s'" "same_env s (upd_drq n g s') = same_env s s'"
  "same_env s (upd_base n h s') = same_env s s'"
  by (simp_all add: same_env_def upd_node_def upd_drq_def upd_base_def)

lemma same_env_trans: "same_env s s1 \<Longrightarrow> same_env s1 s2 \<Longrightarrow> same_env s s2"
  by (simp add: same_env_def)

lemma acquire_parameter_env:
  "same_env s (fst (ownTargetNodeDescAcquireParameter s n d b p))"
  by (simp add: ownTargetNodeDescAcquireParameter_def Let_def sys_dequeue_def sys_add_blocked_def
      case_prod_unfold split: option.splits)

lemma acquire_all_loop_env: "same_env s (fst (acquire_all_loop k i s n prm b a p))"
proof (induction k arbitrary: i s prm b a)
  case 0
  then show ?case by simp
next
  case (Suc k)
  let ?d = "ownObjDescGet (sys_tbl s) (nd_data_ref_q_id (node_of s n) ! i)"
  show ?case
  proof (cases "prm_bit (nd_is_prm_data_ref_q (node_of s n)) i
      \<and> ownObjDescIsValidType (sys_tbl s) ?d TIVX_OBJ_DESC_DATA_REF_Q")
    case True
    obtain s1 r b1 where run: "ownTargetNodeDescAcquireParameter s n (the ?d) b p = (s1, r, b1)"
      by (metis prod_cases3)
    then have "same_env s s1" using acquire_parameter_env [of s n "the ?d" b p] by simp
    with True run Suc [where s = s1] show ?thesis
      by (auto simp: Let_def intro: same_env_trans)
  next
    case False
    with Suc [where s = s] show ?thesis by (auto simp: Let_def)
  qed
qed

lemma acquire_all_env: "same_env s (fst (ownTargetNodeDescAcquireAllParameters s n prm p))"
  using acquire_all_loop_env [of s "unat (nd_num_params (node_of s n))" 0 n prm False True p]
  by (auto simp: ownTargetNodeDescAcquireAllParameters_def split: prod.splits)

section \<open>Time stamps are the latest of the inputs\<close>

definition stamp_inputs ::
  "tivx_obj_desc_table_info \<Rightarrow> tivx_obj_desc_node \<Rightarrow> nat option list \<Rightarrow> uint64 set" where
  "stamp_inputs t nd params = {od_timestamp (desc_at t p) | i p. i < unat (nd_num_params nd)
     \<and> params ! i = Some p \<and> (prm_bit (nd_is_prm_input nd) i \<or> prm_bit (nd_is_prm_bidi nd) i)}"

definition stamp_outputs ::
  "tivx_obj_desc_table_info \<Rightarrow> tivx_obj_desc_node \<Rightarrow> nat option list \<Rightarrow> nat \<Rightarrow> nat set" where
  "stamp_outputs t nd params k = {q. \<exists>i p. i < k \<and> params ! i = Some p
     \<and> \<not> prm_bit (nd_is_prm_input nd) i
     \<and> (q = p \<or> ownObjDescGet t (od_scope_obj_desc_id (desc_at t p)) = Some q)}"

lemma input_timestamp_fold:
  fixes t nd params
  defines "step \<equiv> \<lambda>ts i. case params ! i of None \<Rightarrow> ts
         | Some p \<Rightarrow>
             if (prm_bit (nd_is_prm_input nd) i \<or> prm_bit (nd_is_prm_bidi nd) i)
                \<and> od_timestamp (desc_at t p) > ts
             then od_timestamp (desc_at t p) else (ts :: uint64)"
    and "vals \<equiv> \<lambda>k. {od_timestamp (desc_at t p) | i p. i < k \<and> params ! i = Some p
         \<and> (prm_bit (nd_is_prm_input nd) i \<or> prm_bit (nd_is_prm_bidi nd) i)}"
  shows "foldl step 0 [0..<k] \<in> insert 0 (vals k) \<and> (\<forall>v \<in> insert 0 (vals k). v \<le> foldl step 0 [0..<k])"
proof (induction k)
  case 0
  then show ?case by (simp add: vals_def)
next
  case (Suc k)
  let ?ts = "foldl step 0 [0..<k]"
  have v: "vals (Suc k) = (case params ! k of None \<Rightarrow> vals k
      | Some p \<Rightarrow> if prm_bit (nd_is_prm_input nd) k \<or> prm_bit (nd_is_prm_bidi nd) k
          then insert (od_timestamp (desc_at t p)) (vals k) else vals k)"
    unfolding vals_def by (auto simp: less_Suc_eq split: option.splits)
  have f: "foldl step 0 [0..<Suc k] = step ?ts k" by simp
  show ?case unfolding v f using Suc
    by (auto simp: step_def word_gt_0 split: option.splits)
qed

lemma input_timestamp_max:
  "input_timestamp t nd params \<in> insert 0 (stamp_inputs t nd params)
   \<and> (\<forall>v \<in> insert 0 (stamp_inputs t nd params). v \<le> input_timestamp t nd params)"
  unfolding input_timestamp_def stamp_inputs_def by (rule input_timestamp_fold)

definition restamp :: "uint64 \<Rightarrow> nat set \<Rightarrow> sys \<Rightarrow> sys" where
  "restamp ts S s = s\<lparr>sys_tbl := (sys_tbl s)\<lparr>odt_table_base :=
     map2 (\<lambda>j d. if j \<in> S then d\<lparr>od_timestamp := ts\<rparr> else d)
       [0..<num_entries (sys_tbl s)] (odt_table_base (sys_tbl s))\<rparr>\<rparr>"

lemma restamp_empty [simp]: "restamp ts {} s = s"
proof -
  have "map2 (\<lambda>j d. d) [0..<length xs] xs = xs" for xs :: "tivx_obj_desc list"
    by (rule nth_equalityI) auto
  then show ?thesis by (simp add: restamp_def)
qed

lemma restamp_simps [simp]:
  "num_entries (sys_tbl (restamp ts S s)) = num_entries (sys_tbl s)"
  "j < num_entries (sys_tbl s) \<Longrightarrow> sys_desc (restamp ts S s) j
    = (if j \<in> S then (sys_desc s j)\<lparr>od_timestamp := ts\<rparr> else sys_desc s j)"
  by (simp_all add: restamp_def)

lemma restamp_insert:
  assumes "j < num_entries (sys_tbl s)"
  shows "upd_base j (\<lambda>b. b\<lparr>od_timestamp := ts\<rparr>) (restamp ts S s) = restamp ts (insert j S) s"
proof -
  let ?b = "odt_table_base (sys_tbl s)"
  have "(map2 (\<lambda>j d. if j \<in> S then d\<lparr>od_timestamp := ts\<rparr> else d) [0..<length ?b] ?b)
      [j := (?b ! j)\<lparr>od_timestamp := ts\<rparr>]
    = map2 (\<lambda>i d. if i \<in> insert j S then d\<lparr>od_timestamp := ts\<rparr> else d) [0..<length ?b] ?b"
    using assms by (intro nth_equalityI) (auto simp: nth_list_update)
  with assms show ?thesis
    by (cases "j \<in> S") (simp_all add: restamp_def upd_base_def upd_desc_def)
qed

lemma stamp_output_restamp:
  assumes "case params ! i of None \<Rightarrow> True | Some p \<Rightarrow> p < num_entries (sys_tbl s)"
  shows "stamp_output ts nd params (restamp ts S s) i
    = restamp ts (S \<union> {q. \<exists>p. params ! i = Some p \<and> \<not> prm_bit (nd_is_prm_input nd) i
     \<and> (q = p \<or> ownObjDescGet (sys_tbl s) (od_scope_obj_desc_id (sys_desc s p)) = Some q)}) s"
proof (cases "params ! i")
  case None
  then show ?thesis by (simp add: stamp_output_def)
next
  case (Some p)
  then have p: "p < num_entries (sys_tbl s)" using assms by simp
  show ?thesis
  proof (cases "prm_bit (nd_is_prm_input nd) i")
    case True
    then show ?thesis using Some by (simp add: stamp_output_def)
  next
    case False
    let ?s1 = "restamp ts (insert p S) s"
    let ?g = "ownObjDescGet (sys_tbl s) (od_scope_obj_desc_id (sys_desc s p))"
    have u: "upd_base p (\<lambda>b. b\<lparr>od_timestamp := ts\<rparr>) (restamp ts S s) = ?s1"
      by (rule restamp_insert [OF p])
    have g: "ownObjDescGet (sys_tbl ?s1) (od_scope_obj_desc_id (sys_desc ?s1 p)) = ?g"
      using p by (simp add: ownObjDescGet_def)
    have so: "stamp_output ts nd params (restamp ts S s) i
        = (case ?g of None \<Rightarrow> ?s1 | Some q \<Rightarrow> upd_base q (\<lambda>b. b\<lparr>od_timestamp := ts\<rparr>) ?s1)"
      by (simp only: stamp_output_def Some option.case False if_True not_False_eq_True Let_def u g)
    show ?thesis
    proof (cases ?g)
      case None
      with so Some False show ?thesis by simp
    next
      case (Some q)
      then have "q < num_entries (sys_tbl s)" by (auto simp: ownObjDescGet_def split: if_splits)
      then have "upd_base q (\<lambda>b. b\<lparr>od_timestamp := ts\<rparr>) ?s1 = restamp ts (insert q (insert p S)) s"
        by (rule restamp_insert)
      moreover have "S \<union> {x. \<exists>p. params ! i = Some p \<and> \<not> prm_bit (nd_is_prm_input nd) i
          \<and> (x = p \<or> ownObjDescGet (sys_tbl s) (od_scope_obj_desc_id (sys_desc s p)) = Some x)}
          = insert q (insert p S)"
        using Some \<open>params ! i = Some p\<close> False by auto
      ultimately show ?thesis unfolding so using Some by simp
    qed
  qed
qed

definition params_ok :: "sys \<Rightarrow> nat option list \<Rightarrow> nat \<Rightarrow> bool" where
  "params_ok s params k \<longleftrightarrow>
     (\<forall>i < k. case params ! i of None \<Rightarrow> True | Some p \<Rightarrow> p < num_entries (sys_tbl s))"

lemma stamp_outputs_fold:
  assumes "params_ok s params k"
  shows "foldl (stamp_output ts nd params) s [0..<k]
    = restamp ts (stamp_outputs (sys_tbl s) nd params k) s"
  using assms
proof (induction k)
  case 0
  then show ?case by (simp add: stamp_outputs_def)
next
  case (Suc k)
  then have IH: "foldl (stamp_output ts nd params) s [0..<k]
      = restamp ts (stamp_outputs (sys_tbl s) nd params k) s"
    by (simp add: params_ok_def)
  have k: "case params ! k of None \<Rightarrow> True | Some p \<Rightarrow> p < num_entries (sys_tbl s)"
    using Suc.prems by (simp add: params_ok_def)
  have S: "stamp_outputs (sys_tbl s) nd params (Suc k) = stamp_outputs (sys_tbl s) nd params k
      \<union> {q. \<exists>p. params ! k = Some p \<and> \<not> prm_bit (nd_is_prm_input nd) k
        \<and> (q = p \<or> ownObjDescGet (sys_tbl s) (od_scope_obj_desc_id (sys_desc s p)) = Some q)}"
    by (auto simp: stamp_outputs_def less_Suc_eq)
  show ?case unfolding S using IH stamp_output_restamp [OF k] by simp
qed

section \<open>Correctness properties\<close>

text \<open>C24: after a node has run, exactly those of its successors are triggered whose predecessors
  have all been executed, in the order of the node's list of successors.\<close>

theorem trigger_next_exact:
  "ownTargetNodeDescTriggerNextNodes pl s n
     = foldl (ownTargetTriggerNode pl) s (filter (next_ready (sys_tbl s)) (out_nodes s n))"
  by (simp add: ownTargetNodeDescTriggerNextNodes_def out_nodes_def trigger_next_loop_filter)

text \<open>The time stamp that the outputs of a node and their parents get is the latest of its
  inputs' (0 when none has one), and no other field and no other descriptor changes.\<close>

theorem set_timestamp_correct:
  assumes "params_ok s params (unat (nd_num_params (node_of s n)))"
  shows "\<exists>ts. ts \<in> insert 0 (stamp_inputs (sys_tbl s) (node_of s n) params)
    \<and> (\<forall>v \<in> stamp_inputs (sys_tbl s) (node_of s n) params. v \<le> ts)
    \<and> same_env s (ownTargetSetTimestamp s n params)
    \<and> (\<forall>j < num_entries (sys_tbl s). sys_desc (ownTargetSetTimestamp s n params) j
        = (if j \<in> stamp_outputs (sys_tbl s) (node_of s n) params
                    (unat (nd_num_params (node_of s n)))
           then (sys_desc s j)\<lparr>od_timestamp := ts\<rparr> else sys_desc s j))"
proof -
  let ?ts = "input_timestamp (sys_tbl s) (node_of s n) params"
  have "ownTargetSetTimestamp s n params = restamp ?ts (stamp_outputs (sys_tbl s) (node_of s n)
      params (unat (nd_num_params (node_of s n)))) s"
    using stamp_outputs_fold [OF assms] by (simp add: ownTargetSetTimestamp_def Let_def)
  then show ?thesis
    using input_timestamp_max [of "sys_tbl s" "node_of s n" params]
    by (intro exI [of _ ?ts]) (simp add: restamp_def [of _ _ s] same_env_def)
qed

text \<open>A node with an input (buffer 3, stamped 7) and an output (queue descriptor 1).\<close>

definition stamp_sys :: sys where
  "stamp_sys = upd_base 3 (\<lambda>b. b\<lparr>od_timestamp := 7\<rparr>)
     (upd_node 4 (\<lambda>d. d\<lparr>nd_num_params := 2, nd_is_prm_input := 1\<rparr>) pipe_sys)"

theorem set_timestamp_correct_witness:
  "od_timestamp (sys_desc (ownTargetSetTimestamp stamp_sys 4 [Some 3, Some 1]) 1) = 7"
proof -
  have n: "num_entries (sys_tbl stamp_sys) = 5"
    and nd: "nd_num_params (node_of stamp_sys 4) = 2" "nd_is_prm_input (node_of stamp_sys 4) = 1"
      "nd_is_prm_bidi (node_of stamp_sys 4) = 0"
    and t3: "od_timestamp (sys_desc stamp_sys 3) = 7"
    by (simp_all add: stamp_sys_def pipe_sys_def upd_base_def upd_node_def upd_desc_def zero_node_def)
  have bits: "prm_bit 1 0" "\<not> prm_bit 1 (Suc 0)" "\<not> prm_bit 0 0" "\<not> prm_bit 0 (Suc 0)"
    by (simp_all add: prm_bit_def tivxFlagIsBitSet_def)
  have inp: "stamp_inputs (sys_tbl stamp_sys) (node_of stamp_sys 4) [Some 3, Some 1] = {7}"
    using nd t3 bits by (force simp: stamp_inputs_def less_2_cases_iff)
  have out: "1 \<in> stamp_outputs (sys_tbl stamp_sys) (node_of stamp_sys 4) [Some 3, Some 1] 2"
    using nd bits by (auto simp: stamp_outputs_def intro!: exI [of _ "1::nat"])
  have ok: "params_ok stamp_sys [Some 3, Some 1] (unat (nd_num_params (node_of stamp_sys 4)))"
    using n nd by (auto simp: params_ok_def less_2_cases_iff)
  obtain ts where "ts \<in> {0, 7}" "7 \<le> ts"
    "od_timestamp (sys_desc (ownTargetSetTimestamp stamp_sys 4 [Some 3, Some 1]) 1) = ts"
    using set_timestamp_correct [OF ok] inp out nd n by auto
  then show ?thesis by auto
qed

text \<open>C11: the instances of a node in successive pipeline stages run in order. An instance that
  finds the one before it waiting is itself put to wait and nothing else happens; when the one
  before completes, it hands back the waiting instance to be triggered, and when triggered that
  instance no longer waits.\<close>

theorem pipeline_order:
  assumes "node_ok s n" "node_ok s p" "n \<noteq> p"
    and "ownObjDescGet (sys_tbl s) (nd_prev_pipe_node_id (node_of s n)) = Some p"
    and "\<not> tivxFlagIsBitSet (nd_flags (node_of s n)) TIVX_NODE_FLAG_IS_EXECUTED"
    and "nd_state (node_of s n) = TIVX_NODE_OBJ_DESC_STATE_IDLE"
    and "nd_state (node_of s p) = TIVX_NODE_OBJ_DESC_STATE_BLOCKED"
  shows "\<exists>s1 s2. ownTargetNodeDescNodeExecute pl cb ho s n = s1
    \<and> same_env s s1 \<and> nd_state (node_of s1 n) = TIVX_NODE_OBJ_DESC_STATE_BLOCKED
    \<and> (\<forall>i. i \<noteq> n \<longrightarrow> i \<noteq> p \<longrightarrow> sys_desc s1 i = sys_desc s i)
    \<and> ownTargetNodeDescNodeMarkComplete s1 p = (s2, od_obj_desc_id (sys_desc s n))
    \<and> nd_blocked_node_id (node_of s2 p) = TIVX_OBJ_DESC_INVALID
    \<and> tivxFlagIsBitSet (nd_flags (node_of s2 p)) TIVX_NODE_FLAG_IS_EXECUTED
    \<and> snd (ownTargetNodeDescIsPrevPipeNodeBlocked s2 n) = False
    \<and> nd_state (node_of (fst (ownTargetNodeDescIsPrevPipeNodeBlocked s2 n)) n)
        = TIVX_NODE_OBJ_DESC_STATE_IDLE"
proof -
  let ?s0 = "upd_node n (\<lambda>d. d\<lparr>nd_state := TIVX_NODE_OBJ_DESC_STATE_BLOCKED\<rparr>) s"
  let ?s1 = "upd_node p (\<lambda>d. d\<lparr>nd_blocked_node_id := od_obj_desc_id (sys_desc s n)\<rparr>) ?s0"
  let ?c = "\<lambda>d. d\<lparr>nd_blocked_node_id := TIVX_OBJ_DESC_INVALID,
      nd_state := TIVX_NODE_OBJ_DESC_STATE_IDLE,
      nd_flags := tivxFlagBitSet (nd_flags d) TIVX_NODE_FLAG_IS_EXECUTED\<rparr>"
  let ?s2 = "upd_node p ?c ?s1"
  have lt: "n < num_entries (sys_tbl s)" "p < num_entries (sys_tbl s)"
    using assms(1,2) by (simp_all add: node_ok_def)
  have run: "ownTargetNodeDescNodeExecute pl cb ho s n = ?s1"
    using assms by (simp add: ownTargetNodeDescNodeExecute_def
        ownTargetNodeDescIsPrevPipeNodeBlocked_def)
  have n1: "node_of ?s1 n = (node_of s n)\<lparr>nd_state := TIVX_NODE_OBJ_DESC_STATE_BLOCKED\<rparr>"
    "node_of ?s1 p = (node_of s p)\<lparr>nd_blocked_node_id := od_obj_desc_id (sys_desc s n)\<rparr>"
    using lt assms(3) by simp_all
  have n2: "node_of ?s2 n = node_of ?s1 n" "node_of ?s2 p = ?c (node_of ?s1 p)"
    "ownObjDescGet (sys_tbl ?s2) x = ownObjDescGet (sys_tbl s) x" for x
    using lt assms(3) by (simp_all add: ownObjDescGet_def)
  have fin: "ownTargetNodeDescIsPrevPipeNodeBlocked ?s2 n
      = (upd_node n (\<lambda>d. d\<lparr>nd_state := TIVX_NODE_OBJ_DESC_STATE_IDLE\<rparr>) ?s2, False)"
    unfolding ownTargetNodeDescIsPrevPipeNodeBlocked_def n2 n1 using assms(4) by simp
  have "node_of (upd_node n (\<lambda>d. d\<lparr>nd_state := TIVX_NODE_OBJ_DESC_STATE_IDLE\<rparr>) ?s2) n
      = (node_of ?s2 n)\<lparr>nd_state := TIVX_NODE_OBJ_DESC_STATE_IDLE\<rparr>"
    using lt by simp
  then have idle: "nd_state (node_of (fst (ownTargetNodeDescIsPrevPipeNodeBlocked ?s2 n)) n)
      = TIVX_NODE_OBJ_DESC_STATE_IDLE" unfolding fin by simp
  have mark: "ownTargetNodeDescNodeMarkComplete ?s1 p = (?s2, od_obj_desc_id (sys_desc s n))"
    unfolding ownTargetNodeDescNodeMarkComplete_def n1 by simp
  have other: "\<forall>i. i \<noteq> n \<longrightarrow> i \<noteq> p \<longrightarrow> sys_desc ?s1 i = sys_desc s i"
    by (simp add: upd_node_def upd_desc_def)
  have "nd_blocked_node_id (node_of ?s2 p) = TIVX_OBJ_DESC_INVALID"
    "tivxFlagIsBitSet (nd_flags (node_of ?s2 p)) TIVX_NODE_FLAG_IS_EXECUTED"
    unfolding n2 by simp_all
  with run mark other idle fin n1(1) show ?thesis
    by (intro exI [of _ ?s1] exI [of _ ?s2]) simp
qed

text \<open>Node 4 waits for a buffer, node 5 is the same node one pipeline stage later.\<close>

definition duo_sys :: sys where
  "duo_sys = (sample_sys 0x100)\<lparr>sys_tbl := \<lparr>odt_table_base =
     [free_desc, free_desc, free_desc, free_desc,
      pipe_desc 4 TIVX_OBJ_DESC_NODE (B_Node (zero_node\<lparr>nd_state := TIVX_NODE_OBJ_DESC_STATE_BLOCKED\<rparr>)),
      pipe_desc 5 TIVX_OBJ_DESC_NODE (B_Node (zero_node\<lparr>nd_prev_pipe_node_id := 4\<rparr>))],
     odt_last_alloc_index = 0\<rparr>\<rparr>"

lemma duo_sys_at:
  "num_entries (sys_tbl duo_sys) = 6" "od_type (sys_desc duo_sys 4) = TIVX_OBJ_DESC_NODE"
  "od_type (sys_desc duo_sys 5) = TIVX_OBJ_DESC_NODE"
  "od_body (sys_desc duo_sys 4) = B_Node (zero_node\<lparr>nd_state := TIVX_NODE_OBJ_DESC_STATE_BLOCKED\<rparr>)"
  "od_body (sys_desc duo_sys 5) = B_Node (zero_node\<lparr>nd_prev_pipe_node_id := 4\<rparr>)"
  "od_obj_desc_id (sys_desc duo_sys 5) = 5"
  by (simp_all add: duo_sys_def pipe_desc_def init_desc_def)

text \<open>Kernels that do nothing.\<close>

definition cb_none :: callbacks where
  "cb_none = \<lparr>cb_process = (\<lambda>f i ps np pa s. (s, ps, VX_SUCCESS)),
     cb_create = (\<lambda>f i ps np pa s. (s, VX_SUCCESS)), cb_delete = (\<lambda>f i ps np pa s. (s, VX_SUCCESS)),
     cb_control = (\<lambda>f i c ps np pa s. (s, VX_SUCCESS)), cb_user_kernel = None,
     cb_host_cmd = None\<rparr>"

theorem pipeline_order_witness:
  "\<exists>s1 s2. nd_state (node_of s1 5) = TIVX_NODE_OBJ_DESC_STATE_BLOCKED
    \<and> ownTargetNodeDescNodeExecute sample_platform cb_none True duo_sys 5 = s1
    \<and> ownTargetNodeDescNodeMarkComplete s1 4 = (s2, 5)"
proof -
  have ok: "node_ok duo_sys 5" "node_ok duo_sys 4"
    and get: "ownObjDescGet (sys_tbl duo_sys) (nd_prev_pipe_node_id (node_of duo_sys 5)) = Some 4"
    and st: "\<not> tivxFlagIsBitSet (nd_flags (node_of duo_sys 5)) TIVX_NODE_FLAG_IS_EXECUTED"
      "nd_state (node_of duo_sys 5) = TIVX_NODE_OBJ_DESC_STATE_IDLE"
      "nd_state (node_of duo_sys 4) = TIVX_NODE_OBJ_DESC_STATE_BLOCKED"
    using duo_sys_at
    by (simp_all add: node_ok_def ownObjDescGet_def zero_node_def tivxFlagIsBitSet_def)
  show ?thesis
    using pipeline_order [OF ok _ get st, of sample_platform cb_none True] duo_sys_at(6) by auto
qed

section \<open>What a running node leaves alone\<close>

text \<open>Nothing is created or freed, and the node descriptors outside \<open>N\<close> are as they were.\<close>

definition nodes_kept :: "nat set \<Rightarrow> sys \<Rightarrow> sys \<Rightarrow> bool" where
  "nodes_kept N s s' \<longleftrightarrow> num_entries (sys_tbl s') = num_entries (sys_tbl s)
     \<and> (\<forall>i < num_entries (sys_tbl s). od_type (sys_desc s' i) = od_type (sys_desc s i)
          \<and> od_obj_desc_id (sys_desc s' i) = od_obj_desc_id (sys_desc s i)
          \<and> (od_type (sys_desc s i) = TIVX_OBJ_DESC_NODE \<and> i \<notin> N \<longrightarrow>
               od_body (sys_desc s' i) = od_body (sys_desc s i)))"

named_theorems kept_intros \<open>operations that keep the node descriptors\<close>

lemma nodes_kept_refl [simp, kept_intros]: "nodes_kept N s s"
  by (simp add: nodes_kept_def)

lemma nodes_kept_trans: "nodes_kept N s s1 \<Longrightarrow> nodes_kept N s1 s2 \<Longrightarrow> nodes_kept N s s2"
  unfolding nodes_kept_def by simp

lemma kept_if_tbl: "sys_tbl s' = sys_tbl s \<Longrightarrow> nodes_kept N s s'"
  by (simp add: nodes_kept_def)

lemma nodes_kept_mono: "nodes_kept M s s' \<Longrightarrow> M \<subseteq> N \<Longrightarrow> nodes_kept N s s'"
  unfolding nodes_kept_def by blast

lemma kept_upd:
  "n \<in> N \<Longrightarrow> nodes_kept N s (upd_node n f s)"
  "(\<And>b. od_type (h b) = od_type b \<and> od_obj_desc_id (h b) = od_obj_desc_id b
      \<and> od_body (h b) = od_body b) \<Longrightarrow> nodes_kept N s (upd_base n h s)"
  "od_type (sys_desc s n) = TIVX_OBJ_DESC_DATA_REF_Q \<Longrightarrow> nodes_kept N s (upd_drq n g s)"
  "od_type (sys_desc s n) = TIVX_OBJ_DESC_CMD \<Longrightarrow> nodes_kept N s (upd_cmd n k s)"
  by (auto simp: nodes_kept_def upd_node_def upd_base_def upd_drq_def upd_cmd_def)

lemma kept_upd_queue:
  assumes "queue_at (sys_tbl s) q = Some i"
  shows "nodes_kept N s (s\<lparr>sys_tbl := upd_queue i f (sys_tbl s)\<rparr>)"
proof -
  have "od_type (sys_desc s i) = TIVX_OBJ_DESC_QUEUE"
    using assms by (auto simp: queue_at_def split: option.splits if_splits)
  then show ?thesis by (auto simp: nodes_kept_def upd_queue_def)
qed

lemma kept_same_tbl [simp]: "nodes_kept N s (s\<lparr>sys_tbl := sys_tbl s\<rparr>)"
  by (simp add: nodes_kept_def)

lemma kept_queue_ops [kept_intros]:
  "nodes_kept N s (fst (sys_enqueue s q x))" "nodes_kept N s (fst (sys_dequeue s q))"
  "nodes_kept N s (fst (sys_add_blocked s q y))" "nodes_kept N s (fst (sys_extract_blocked s q out))"
proof -
  show "nodes_kept N s (fst (sys_enqueue s q x))"
    by (cases "queue_at (sys_tbl s) q")
      (simp_all add: sys_enqueue_def ownObjDescQueueEnqueue_def kept_upd_queue)
  show "nodes_kept N s (fst (sys_dequeue s q))"
    by (cases "queue_at (sys_tbl s) q")
      (simp_all add: sys_dequeue_def ownObjDescQueueDequeue_def Let_def kept_upd_queue)
  show "nodes_kept N s (fst (sys_add_blocked s q y))"
    by (cases "queue_at (sys_tbl s) q")
      (simp_all add: sys_add_blocked_def ownObjDescQueueAddBlockedNode_def kept_upd_queue)
  show "nodes_kept N s (fst (sys_extract_blocked s q out))"
    by (cases "queue_at (sys_tbl s) q")
      (simp_all add: sys_extract_blocked_def ownObjDescQueueExtractBlockedNodes_def Let_def
        kept_upd_queue)
qed

lemma kept_tbl_eq [kept_intros]:
  "nodes_kept N s (fst (ownObjDescSend pl s t i))" "nodes_kept N s (fst (read_clock pl s))"
  "nodes_kept N s (ownTargetTriggerNode pl s i)"
  "nodes_kept N s (foldl (ownTargetTriggerNode pl) s ids)"
  "nodes_kept N s (ownTargetNodeDescTriggerNextNodes pl s n)"
  by (rule kept_if_tbl, simp add: target_messenger.triggers_tbl read_clock_def)+

text \<open>The completion and the reference consumed messages write a time stamp into a command and send
  it.\<close>

lemma kept_stamp_and_send:
  assumes "ownObjDescIsValidType (sys_tbl s) c TIVX_OBJ_DESC_CMD"
  shows "nodes_kept N s (case read_clock pl s of (s1, us) \<Rightarrow>
     (let s2 = upd_cmd (the c) (k us) s1
      in fst (ownObjDescSend pl s2 (cmd_dst_target_id (cmd_of s2 (the c))) i)))"
proof -
  obtain d where d: "c = Some d" "od_type (sys_desc s d) = TIVX_OBJ_DESC_CMD"
    using assms by (auto simp: ownObjDescIsValidType_def split: option.splits)
  then have "nodes_kept N (s\<lparr>sys_clock_reads := Suc (sys_clock_reads s)\<rparr>)
      (upd_cmd (the c) (k us) (s\<lparr>sys_clock_reads := Suc (sys_clock_reads s)\<rparr>))" for us
    by (intro kept_upd) simp
  then show ?thesis
    by (auto simp: read_clock_def Let_def nodes_kept_def)
qed

lemma kept_send_ref_consumed [kept_intros]:
  "nodes_kept N s (ownTargetObjDescSendRefConsumed pl s d)"
  using kept_stamp_and_send [where s = s and N = N and pl = pl]
  by (simp add: ownTargetObjDescSendRefConsumed_def Let_def)

lemma kept_send_complete [kept_intros]:
  "nodes_kept N s (ownTargetNodeDescSendComplete pl s n)"
  using kept_stamp_and_send [where s = s and N = N and pl = pl]
  by (simp add: ownTargetNodeDescSendComplete_def Let_def)

lemma kept_release_in_delay: "nodes_kept N s (fst (release_in_delay_loop ho k s cur bn))"
proof (induction k arbitrary: s cur bn)
  case 0
  then show ?case by simp
next
  case (Suc k)
  show ?case
  proof (cases "ownObjDescGet (sys_tbl s) (drq_next_obj_desc_id_in_delay (drq_of s cur))")
    case None
    then show ?thesis by simp
  next
    case (Some nxt)
    obtain s1 ref st where deq: "sys_dequeue s (drq_acquire_q_obj_desc_id (drq_of s nxt))
        = (s1, ref, st)" by (metis prod_cases3)
    obtain s2 st2 where enq: "sys_enqueue s1 (drq_release_q_obj_desc_id (drq_of s1 nxt)) ref
        = (s2, st2)" by fastforce
    obtain s3 bn' where ex: "sys_extract_blocked s2 (drq_release_q_obj_desc_id (drq_of s1 nxt)) bn
        = (s3, bn')" by fastforce
    have "nodes_kept N s s1" using kept_queue_ops(2) [of N s] deq by (metis fst_conv)
    moreover have "nodes_kept N s1 s2" using kept_queue_ops(1) [of N s1] enq by (metis fst_conv)
    moreover have "nodes_kept N s2 s3" using kept_queue_ops(4) [of N s2] ex by (metis fst_conv)
    ultimately have "nodes_kept N s s1" "nodes_kept N s s2" "nodes_kept N s s3"
      by (blast intro: nodes_kept_trans)+
    then have "nodes_kept N s (fst (release_in_delay_loop ho k s1 nxt bn))"
      "nodes_kept N s (fst (release_in_delay_loop ho k s2 nxt bn))"
      "nodes_kept N s (fst (release_in_delay_loop ho k s3 nxt bn'))"
      using Suc by (blast intro: nodes_kept_trans)+
    with Some deq enq ex Suc [of s nxt bn] show ?thesis by (cases ho) (simp_all add: Let_def)
  qed
qed

lemma kept_release_count:
  assumes "od_type (sys_desc s d) = TIVX_OBJ_DESC_DATA_REF_Q"
  shows "nodes_kept N s (fst (release_count s d ref is_input))"
proof -
  have u: "nodes_kept N s (upd_drq d f s)" for f by (rule kept_upd) (rule assms)
  have "nodes_kept N s' (upd_base i (\<lambda>b. b\<lparr>od_in_node_done_cnt := k b\<rparr>) s')" for i k s'
    by (rule kept_upd) simp
  note b = nodes_kept_trans [OF u this]
  show ?thesis
    unfolding release_count_def Let_def using u b by (simp split: option.splits del: upd_sys_simps)
qed

lemma kept_release_to_queue: "nodes_kept N s (fst (release_to_queue ho s d ref))"
proof -
  obtain s1 st where enq: "sys_enqueue s (drq_release_q_obj_desc_id (drq_of s d)) ref = (s1, st)"
    by fastforce
  obtain s2 bn where ex: "(if st = VX_SUCCESS
      then sys_extract_blocked s1 (drq_release_q_obj_desc_id (drq_of s d)) no_blocked
      else (s1, no_blocked)) = (s2, bn)" by fastforce
  have "nodes_kept N s s1" using kept_queue_ops(1) [of N s] enq by (metis fst_conv)
  moreover have "nodes_kept N s1 s2" using kept_queue_ops(4) [of N s1] ex
    by (metis fst_conv nodes_kept_refl)
  ultimately have "nodes_kept N s s2" by (rule nodes_kept_trans)
  moreover from this have "nodes_kept N s (fst (release_in_delay_loop ho k s2 d bn))" for k
    using kept_release_in_delay by (rule nodes_kept_trans)
  ultimately show ?thesis using enq ex
    by (simp add: release_to_queue_def Let_def ownTargetNodeDescReleaseParameterInDelay_def)
qed

lemma kept_fst: "f s = (s', r) \<Longrightarrow> nodes_kept N s (fst (f s)) \<Longrightarrow> nodes_kept N s s'"
  by simp

lemma kept_release_parameter:
  assumes "od_type (sys_desc s d) = TIVX_OBJ_DESC_DATA_REF_Q" "d < num_entries (sys_tbl s)"
  shows "nodes_kept N s (fst (ownTargetNodeDescReleaseParameter pl ho s n d ref is_input))"
proof -
  obtain s1 a b where cnt: "release_count s d ref is_input = (s1, a, b)" by (metis prod_cases3)
  obtain s2 bn where rel: "(if b then release_to_queue ho s1 d ref else (s1, no_blocked)) = (s2, bn)"
    by fastforce
  have 1: "nodes_kept N s s1" using kept_release_count [OF assms(1), of N ref is_input] cnt by simp
  have "nodes_kept N s1 s2" using kept_release_to_queue [of N s1 ho d ref] rel
    by (cases b) auto
  with 1 have 2: "nodes_kept N s s2" by (rule nodes_kept_trans)
  then have "od_type (sys_desc s2 d) = TIVX_OBJ_DESC_DATA_REF_Q"
    using assms by (simp add: nodes_kept_def)
  then have "nodes_kept N s2 (upd_drq d f s2)" for f by (rule kept_upd)
  with 2 have "nodes_kept N s (upd_drq d f s2)" for f by (rule nodes_kept_trans)
  with 2 have "nodes_kept N s (foldl (ownTargetTriggerNode pl) (if a then upd_drq d f s2 else s2) ids)"
    for f ids by (cases a) (auto intro: nodes_kept_trans kept_tbl_eq)
  with cnt rel show ?thesis by (simp add: ownTargetNodeDescReleaseParameter_def Let_def)
qed

lemma kept_release_all_loop:
  "nodes_kept N s (release_all_loop pl ho k i s n prm nd)"
proof (induction k arbitrary: i s)
  case 0
  then show ?case by simp
next
  case (Suc k)
  let ?d = "ownObjDescGet (sys_tbl s) (nd_data_ref_q_id nd ! i)"
  show ?case
  proof (cases "prm_bit (nd_is_prm_data_ref_q nd) i
      \<and> ownObjDescIsValidType (sys_tbl s) ?d TIVX_OBJ_DESC_DATA_REF_Q")
    case True
    then have v: "ownObjDescIsValidType (sys_tbl s) ?d TIVX_OBJ_DESC_DATA_REF_Q" by simp
    let ?i = "prm_bit (nd_is_prm_input nd) i \<or> prm_bit (nd_is_prm_bidi nd) i"
    obtain s1 r where rel: "ownTargetNodeDescReleaseParameter pl ho s n (the ?d) (prm ! i) ?i
        = (s1, r)" by fastforce
    have "od_type (sys_desc s (the ?d)) = TIVX_OBJ_DESC_DATA_REF_Q"
      "the ?d < num_entries (sys_tbl s)"
      using v unfolding get_valid [OF v] by (simp_all add: v [unfolded valid_type_some])
    from kept_release_parameter [OF this, of N pl ho n "prm ! i" ?i] rel
    have 1: "nodes_kept N s s1" by simp
    then have 2: "nodes_kept N s (ownTargetObjDescSendRefConsumed pl s1 (the ?d))"
      by (rule nodes_kept_trans) (rule kept_send_ref_consumed)
    from 1 2 have "nodes_kept N s (if r then ownTargetObjDescSendRefConsumed pl s1 (the ?d) else s1)"
      by simp
    from nodes_kept_trans [OF this Suc] True rel show ?thesis by (simp add: Let_def)
  next
    case False
    with Suc show ?thesis by (auto simp: Let_def)
  qed
qed

lemma kept_release_all [kept_intros]:
  "nodes_kept N s (ownTargetNodeDescReleaseAllParameters pl ho s n prm)"
  by (simp add: ownTargetNodeDescReleaseAllParameters_def kept_release_all_loop)

lemma kept_acquire_parameter:
  assumes "od_type (sys_desc s d) = TIVX_OBJ_DESC_DATA_REF_Q" "d < num_entries (sys_tbl s)"
  shows "nodes_kept {n} s (fst (ownTargetNodeDescAcquireParameter s n d b p))"
proof -
  let ?q = "drq_acquire_q_obj_desc_id (drq_of s d)"
  obtain s1 ref st where deq: "sys_dequeue s ?q = (s1, ref, st)" by (metis prod_cases3)
  obtain s2 st2 where add: "sys_add_blocked s1 ?q (od_obj_desc_id (sys_desc s1 n)) = (s2, st2)"
    by fastforce
  have 1: "nodes_kept {n} s s1" using kept_queue_ops(2) [of "{n}" s ?q] deq by simp
  have "nodes_kept {n} s1 s2" using kept_queue_ops(3) [of "{n}" s1 ?q] add by (metis fst_conv)
  with 1 have 2: "nodes_kept {n} s s2" by (rule nodes_kept_trans)
  then have 3: "nodes_kept {n} s (upd_node n f s2)" for f
    by (rule nodes_kept_trans) (rule kept_upd, simp)
  have "od_type (sys_desc s1 d) = TIVX_OBJ_DESC_DATA_REF_Q"
    using 1 assms by (simp add: nodes_kept_def)
  then have "nodes_kept {n} s1 (upd_drq d f s1)" for f by (rule kept_upd)
  with 1 have 4: "nodes_kept {n} s (upd_drq d f s1)" for f by (rule nodes_kept_trans)
  have "nodes_kept {n} s' (upd_base i (\<lambda>b. b\<lparr>od_in_node_done_cnt := 0\<rparr>) s')" for i s'
    by (rule kept_upd) simp
  note 5 = nodes_kept_trans [OF 4 this] nodes_kept_trans [OF 1 this]
  show ?thesis
    using 1 2 3 4 5 deq add
    by (simp add: ownTargetNodeDescAcquireParameter_def Let_def split: option.splits
        del: upd_sys_simps)
qed

lemma kept_acquire_all_loop: "nodes_kept {n} s (fst (acquire_all_loop k i s n prm b a p))"
proof (induction k arbitrary: i s prm b a)
  case 0
  then show ?case by simp
next
  case (Suc k)
  let ?d = "ownObjDescGet (sys_tbl s) (nd_data_ref_q_id (node_of s n) ! i)"
  show ?case
  proof (cases "prm_bit (nd_is_prm_data_ref_q (node_of s n)) i
      \<and> ownObjDescIsValidType (sys_tbl s) ?d TIVX_OBJ_DESC_DATA_REF_Q")
    case True
    then have v: "ownObjDescIsValidType (sys_tbl s) ?d TIVX_OBJ_DESC_DATA_REF_Q" by simp
    obtain s1 r b1 where run: "ownTargetNodeDescAcquireParameter s n (the ?d) b p = (s1, r, b1)"
      by (metis prod_cases3)
    have "od_type (sys_desc s (the ?d)) = TIVX_OBJ_DESC_DATA_REF_Q"
      "the ?d < num_entries (sys_tbl s)"
      using v unfolding get_valid [OF v] by (simp_all add: v [unfolded valid_type_some])
    from kept_acquire_parameter [OF this, of n b p] run have "nodes_kept {n} s s1" by simp
    from this nodes_kept_trans [OF this Suc] True run show ?thesis by (simp add: Let_def)
  next
    case False
    with Suc [where s = s] show ?thesis by (auto simp: Let_def)
  qed
qed

lemma kept_acquire_all: "nodes_kept {n} s (fst (ownTargetNodeDescAcquireAllParameters s n prm p))"
proof -
  obtain s1 prm1 b a where run: "acquire_all_loop (unat (nd_num_params (node_of s n))) 0 s n prm
      False True p = (s1, prm1, b, a)" by (metis prod_cases4)
  have 1: "nodes_kept {n} s s1" using kept_acquire_all_loop [of n s] run by (metis fst_conv)
  have "nodes_kept {n} s (upd_node n f s1)" for f
    using 1 by (rule nodes_kept_trans) (rule kept_upd, simp)
  with 1 run show ?thesis by (simp add: ownTargetNodeDescAcquireAllParameters_def)
qed

text \<open>A kernel's process function works on data: it leaves the node descriptors alone and frees no
  descriptor.\<close>

definition kernels_keep_nodes :: "callbacks \<Rightarrow> bool" where
  "kernels_keep_nodes cb \<longleftrightarrow>
     (\<forall>f i ps np pa s. nodes_kept {} s (fst (cb_process cb f i ps np pa s)))
   \<and> (\<forall>g. cb_user_kernel cb = Some g \<longrightarrow> (\<forall>n prm s. nodes_kept {} s (fst (g n prm s))))"

lemma nodes_kept_any: "nodes_kept {} s s' \<Longrightarrow> nodes_kept N s s'"
  by (rule nodes_kept_mono) auto

lemma kept_execute:
  assumes "kernels_keep_nodes cb"
  shows "nodes_kept N s (fst (ownTargetKernelExecute cb s inst params k))"
  using assms
  by (auto simp: ownTargetKernelExecute_def kernels_keep_nodes_def split: option.splits
      intro: nodes_kept_any)

lemma kept_set_timestamp: "nodes_kept N s (ownTargetSetTimestamp s n params)"
proof -
  have out: "nodes_kept N s (stamp_output ts nd params s i)" for ts nd i s
  proof -
    have "nodes_kept N s' (upd_base j (\<lambda>b. b\<lparr>od_timestamp := ts\<rparr>) s')" for j s'
      by (rule kept_upd) simp
    note this nodes_kept_trans [OF this this]
    then show ?thesis
      by (simp add: stamp_output_def Let_def split: option.splits del: upd_sys_simps)
  qed
  have "nodes_kept N s (foldl (stamp_output ts nd params) s is)" for ts nd "is" s
    by (induction "is" arbitrary: s) (auto intro: nodes_kept_trans [OF out])
  then show ?thesis by (simp add: ownTargetSetTimestamp_def Let_def)
qed

lemma kept_exec_replicas:
  assumes "kernels_keep_nodes cb"
  shows "nodes_kept {n} s (fst (exec_replicas cb nd0 k cnt s n prm params m))"
proof (induction k arbitrary: cnt s params m)
  case 0
  then show ?case by simp
next
  case (Suc k)
  obtain p1 m1 where ps: "exec_params (sys_tbl s) nd0 (node_of s n) prm cnt params m = (p1, m1)"
    by fastforce
  let ?s1 = "ownTargetSetTimestamp s n p1"
  let ?inst = "ownTargetKernelInstanceGet (sys_instances s)
      (ucast (nd_target_kernel_index (node_of s n) ! cnt)) (nd_kernel_id (node_of s n))"
  let ?k = "ucast (nd_num_params (node_of ?s1 n)) :: uint16"
  obtain s2 p2 st where ex: "ownTargetKernelExecute cb ?s1 ?inst p1 ?k = (s2, p2, st)"
    by (metis prod_cases3)
  have "nodes_kept {n} ?s1 s2"
    using kept_execute [OF assms, of "{n}" ?s1 ?inst p1 ?k] ex by simp
  then have "nodes_kept {n} s s2" by (rule nodes_kept_trans [OF kept_set_timestamp])
  moreover have "nodes_kept {n} s2 (upd_node n f s2)" for f by (rule kept_upd) simp
  ultimately have "nodes_kept {n} s (upd_node n f s2)" for f by (rule nodes_kept_trans)
  from nodes_kept_trans [OF this Suc] ps ex show ?case by (simp add: Let_def)
qed

lemma kept_execute_kernel:
  assumes "kernels_keep_nodes cb"
  shows "nodes_kept {n} s (fst (ownTargetNodeDescNodeExecuteKernel cb s n prm))"
proof (cases "tivxFlagIsBitSet (nd_flags (node_of s n)) TIVX_NODE_FLAG_IS_TARGET_KERNEL")
  case True
  with kept_exec_replicas [OF assms, where n = n and s = s] show ?thesis
    by (simp add: ownTargetNodeDescNodeExecuteKernel_def
        ownTargetNodeDescNodeExecuteTargetKernel_def Let_def case_prod_unfold)
next
  case False
  with assms show ?thesis
    by (auto simp: ownTargetNodeDescNodeExecuteKernel_def kernels_keep_nodes_def
        split: option.splits intro: nodes_kept_any)
qed

text \<open>The state of a node that has just completed.\<close>

definition node_done :: "sys \<Rightarrow> nat \<Rightarrow> bool" where
  "node_done s n \<longleftrightarrow> tivxFlagIsBitSet (nd_flags (node_of s n)) TIVX_NODE_FLAG_IS_EXECUTED
     \<and> nd_state (node_of s n) = TIVX_NODE_OBJ_DESC_STATE_IDLE
     \<and> nd_blocked_node_id (node_of s n) = TIVX_OBJ_DESC_INVALID"

lemma node_type_kept: "nodes_kept N s s' \<Longrightarrow> n < num_entries (sys_tbl s)
    \<Longrightarrow> od_type (sys_desc s n) = TIVX_OBJ_DESC_NODE \<Longrightarrow> n < num_entries (sys_tbl s')
    \<and> od_type (sys_desc s' n) = TIVX_OBJ_DESC_NODE"
  by (simp add: nodes_kept_def)

lemma node_ok_kept: "nodes_kept N s s' \<Longrightarrow> node_ok s n \<Longrightarrow> n < num_entries (sys_tbl s')
    \<and> od_type (sys_desc s' n) = TIVX_OBJ_DESC_NODE"
  by (simp add: nodes_kept_def node_ok_def)

lemma node_run_done:
  assumes cb: "kernels_keep_nodes cb"
    and ok: "n < num_entries (sys_tbl s)" "od_type (sys_desc s n) = TIVX_OBJ_DESC_NODE"
  shows "nodes_kept {n} s (node_run pl cb ho s n prm) \<and> node_done (node_run pl cb ho s n prm) n"
proof -
  obtain s1 t1 where r1: "read_clock pl s = (s1, t1)" by fastforce
  obtain s2 prm2 where ex: "ownTargetNodeDescNodeExecuteKernel cb s1 n prm = (s2, prm2)"
    by fastforce
  obtain s3 t3 where r3: "read_clock pl s2 = (s3, t3)" by fastforce
  let ?s4 = "upd_node n (\<lambda>d. d\<lparr>nd_exe_time_beg := tivx_uint64_to_uint32 t1,
      nd_exe_time_end := tivx_uint64_to_uint32 t3\<rparr>) s3"
  let ?c = "\<lambda>d. d\<lparr>nd_blocked_node_id := TIVX_OBJ_DESC_INVALID,
      nd_state := TIVX_NODE_OBJ_DESC_STATE_IDLE,
      nd_flags := tivxFlagBitSet (nd_flags d) TIVX_NODE_FLAG_IS_EXECUTED\<rparr>"
  define s5 where "s5 = upd_node n ?c ?s4"
  have mark: "ownTargetNodeDescNodeMarkComplete ?s4 n = (s5, nd_blocked_node_id (node_of ?s4 n))"
    by (simp add: ownTargetNodeDescNodeMarkComplete_def s5_def)
  let ?b = "nd_blocked_node_id (node_of ?s4 n)"
  let ?s8 = "ownTargetNodeDescTriggerNextNodes pl (ownTargetNodeDescSendComplete pl
      (ownTargetNodeDescReleaseAllParameters pl ho s5 n prm2) n) n"
  have run: "node_run pl cb ho s n prm
      = (if ?b \<noteq> TIVX_OBJ_DESC_INVALID then ownTargetTriggerNode pl ?s8 ?b else ?s8)"
    using r1 ex r3 mark by (simp add: node_run_def Let_def del: upd_sys_simps)
  have "nodes_kept {n} s s1" using kept_tbl_eq(2) [where N = "{n}" and pl = pl and s = s] r1 by simp
  moreover have "nodes_kept {n} s1 s2" using kept_execute_kernel [OF cb, of n s1 prm] ex by simp
  moreover have "nodes_kept {n} s2 s3" using kept_tbl_eq(2) [where N = "{n}" and pl = pl and s = s2] r3 by simp
  moreover have "nodes_kept {n} s3 ?s4" "nodes_kept {n} ?s4 s5"
    unfolding s5_def by (rule kept_upd, simp)+
  ultimately have a: "nodes_kept {n} s ?s4" "nodes_kept {n} s s5"
    by (meson nodes_kept_trans)+
  have n4: "n < num_entries (sys_tbl ?s4)" using node_type_kept [OF a(1) ok] by simp
  have dn: "node_done s5 n"
    unfolding node_done_def s5_def node_of_upd_node(1) [OF n4] by simp
  have b8: "nodes_kept {} s5 ?s8"
    by (rule nodes_kept_trans [OF nodes_kept_trans [OF kept_release_all kept_send_complete]
          kept_tbl_eq(5)])
  then have b: "nodes_kept {} s5 (node_run pl cb ho s n prm)"
    unfolding run by (simp add: nodes_kept_trans [OF b8 kept_tbl_eq(3)])
  have "od_body (sys_desc (node_run pl cb ho s n prm) n) = od_body (sys_desc s5 n)"
    using b node_type_kept [OF a(2) ok] by (simp add: nodes_kept_def)
  with dn a(2) nodes_kept_mono [OF b, of "{n}"] show ?thesis
    unfolding node_done_def by (simp add: nodes_kept_trans [OF a(2)])
qed

lemma kept_pipeup:
  assumes "kernels_keep_nodes cb"
  shows "nodes_kept {n} s (fst (node_pipeup cb s n prm))"
proof -
  have loop: "nodes_kept {n} s (fst (pipeup_loop cb k s n prm))" for k s prm
  proof (induction k arbitrary: s prm)
    case 0
    then show ?case by simp
  next
    case (Suc k)
    obtain s1 p1 b where acq: "ownTargetNodeDescAcquireAllParameters s n prm True = (s1, p1, b)"
      by (metis prod_cases3)
    obtain s2 p2 where ex: "ownTargetNodeDescNodeExecuteKernel cb s1 n p1 = (s2, p2)" by fastforce
    have "nodes_kept {n} s s1" using kept_acquire_all [of n s prm True] acq by simp
    moreover have "nodes_kept {n} s1 s2" using kept_execute_kernel [OF assms, of n s1 p1] ex by simp
    ultimately have "nodes_kept {n} s s2" by (rule nodes_kept_trans)
    from nodes_kept_trans [OF this Suc] acq ex show ?case by simp
  qed
  have "nodes_kept {n} s' (upd_instance_state i st s')" for i st s'
    by (rule kept_if_tbl) (simp add: upd_instance_state_def split: option.splits)
  moreover have "nodes_kept {n} s' (upd_node n f s')" for f s' by (rule kept_upd) simp
  ultimately have "nodes_kept {n} s (upd_node n f (fst (pipeup_loop cb k s n prm)))"
    "nodes_kept {n} s (upd_instance_state i st (upd_node n f (fst (pipeup_loop cb k s n prm))))"
    for f k i st
    using loop by (blast intro: nodes_kept_trans)+
  then show ?thesis
    by (simp add: node_pipeup_def Let_def case_prod_unfold del: upd_sys_simps)
qed

lemma acquire_parameter_blocks:
  assumes "ownTargetNodeDescAcquireParameter s n d False p = (s', r, True)"
    and "n < num_entries (sys_tbl s)"
  shows "nd_state (node_of s' n) = TIVX_NODE_OBJ_DESC_STATE_BLOCKED"
proof -
  let ?q = "drq_acquire_q_obj_desc_id (drq_of s d)"
  obtain s1 ref st where deq: "sys_dequeue s ?q = (s1, ref, st)" by (metis prod_cases3)
  obtain s2 st2 where add: "sys_add_blocked s1 ?q (od_obj_desc_id (sys_desc s1 n)) = (s2, st2)"
    by fastforce
  have "nodes_kept {} s s1" using kept_queue_ops(2) [of "{}" s ?q] deq by simp
  moreover have "nodes_kept {} s1 s2" using kept_queue_ops(3) [of "{}" s1 ?q] add
    by (metis fst_conv)
  ultimately have "nodes_kept {} s s2" by (rule nodes_kept_trans)
  with assms(2) have n: "n < num_entries (sys_tbl s2)" by (simp add: nodes_kept_def)
  have "s' = upd_node n (\<lambda>k. k\<lparr>nd_state := TIVX_NODE_OBJ_DESC_STATE_BLOCKED\<rparr>) s2"
    using assms(1) deq add
    by (auto simp: ownTargetNodeDescAcquireParameter_def Let_def split: if_splits)
  then show ?thesis using node_of_upd_node(1) [OF n] by simp
qed

lemma acquire_all_loop_blocks:
  assumes "acquire_all_loop k i s n prm False a False = (s', prm', True, a')" "n < num_entries (sys_tbl s)"
  shows "nd_state (node_of s' n) = TIVX_NODE_OBJ_DESC_STATE_BLOCKED"
  using assms
proof (induction k arbitrary: i s prm a)
  case 0
  then show ?case by simp
next
  case (Suc k)
  let ?d = "ownObjDescGet (sys_tbl s) (nd_data_ref_q_id (node_of s n) ! i)"
  show ?case
  proof (cases "prm_bit (nd_is_prm_data_ref_q (node_of s n)) i
      \<and> ownObjDescIsValidType (sys_tbl s) ?d TIVX_OBJ_DESC_DATA_REF_Q")
    case True
    then have v: "ownObjDescIsValidType (sys_tbl s) ?d TIVX_OBJ_DESC_DATA_REF_Q" by simp
    obtain s1 r b1 where run: "ownTargetNodeDescAcquireParameter s n (the ?d) False False
        = (s1, r, b1)" by (metis prod_cases3)
    have "od_type (sys_desc s (the ?d)) = TIVX_OBJ_DESC_DATA_REF_Q"
      "the ?d < num_entries (sys_tbl s)"
      using v unfolding get_valid [OF v] by (simp_all add: v [unfolded valid_type_some])
    from kept_acquire_parameter [OF this, of n False False] run have kept: "nodes_kept {n} s s1"
      by simp
    show ?thesis
    proof (cases b1)
      case b: True
      then have "s' = s1" using Suc.prems(1) True run by (simp add: Let_def)
      with acquire_parameter_blocks [of s n "the ?d" False s1 r] run b Suc.prems(2) show ?thesis
        by simp
    next
      case b: False
      have "n < num_entries (sys_tbl s1)" using kept Suc.prems(2) by (simp add: nodes_kept_def)
      with Suc b True run show ?thesis by (simp add: Let_def)
    qed
  next
    case False
    with Suc show ?thesis by (auto simp: Let_def split: if_splits)
  qed
qed

lemma acquire_all_blocks:
  assumes "ownTargetNodeDescAcquireAllParameters s n prm False = (s', prm', True)"
    and "n < num_entries (sys_tbl s)"
  shows "nd_state (node_of s' n) = TIVX_NODE_OBJ_DESC_STATE_BLOCKED"
proof -
  obtain s1 prm1 b a where run: "acquire_all_loop (unat (nd_num_params (node_of s n))) 0 s n prm
      False True False = (s1, prm1, b, a)" by (metis prod_cases4)
  have "nodes_kept {n} s s1" using kept_acquire_all_loop [of n s] run by (metis fst_conv)
  then have n: "n < num_entries (sys_tbl s1)" using assms(2) by (simp add: nodes_kept_def)
  show ?thesis
  proof (cases a)
    case True
    with assms(1) run have "s' = upd_node n (\<lambda>k. k\<lparr>nd_state := TIVX_NODE_OBJ_DESC_STATE_BLOCKED\<rparr>) s1"
      by (simp add: ownTargetNodeDescAcquireAllParameters_def)
    then show ?thesis using node_of_upd_node(1) [OF n] by simp
  next
    case False
    with assms(1) run have "s' = s1" "b = True"
      by (simp_all add: ownTargetNodeDescAcquireAllParameters_def)
    with acquire_all_loop_blocks [OF run [unfolded \<open>b = True\<close>] assms(2)] show ?thesis by simp
  qed
qed


text \<open>A node with one parameter, buffer 3, that does not come from a data reference queue.\<close>

definition run_sys :: sys where
  "run_sys = upd_node 4 (\<lambda>d. d\<lparr>nd_num_params := 1, nd_data_id := replicate 32 3,
     nd_prev_pipe_node_id := TIVX_OBJ_DESC_INVALID,
     nd_node_complete_cmd_obj_desc_id := ucast TIVX_OBJ_DESC_INVALID\<rparr>) pipe_sys"

lemma run_sys_node:
  "node_of run_sys 4 = zero_node\<lparr>nd_num_params := 1, nd_data_id := replicate 32 3,
     nd_prev_pipe_node_id := TIVX_OBJ_DESC_INVALID,
     nd_node_complete_cmd_obj_desc_id := ucast TIVX_OBJ_DESC_INVALID\<rparr>"
  "node_ok run_sys 4" "num_entries (sys_tbl run_sys) = 5"
  using pipe_sys_at(1) pipe_sys_ok(2)
  by (simp_all add: run_sys_def node_ok_def) (simp add: pipe_sys_def)


end
