(* ===== verification/Target_Command.thy ===== *)
theory Target_Command
  imports Target_Node
begin

text \<open>
  What a target's task does with a command descriptor, and its main loop: the creation, deletion
  and control of nodes, the acknowledgement of commands, \<open>ownTargetTaskMain\<close> and
  \<open>ownTargetDelete\<close> of \<open>source/framework/vx_target.c\<close>.
\<close>

section \<open>Creating, deleting and controlling a node\<close>

text \<open>The parameters handed to the create function of replica \<open>cnt\<close>. Unlike at execution, a
  replicated parameter without a parent has no element.\<close>

definition create_param ::
  "tivx_obj_desc_table_info \<Rightarrow> uint32 \<Rightarrow> tivx_obj_desc_node \<Rightarrow> nat \<Rightarrow> nat \<Rightarrow> nat option" where
  "create_param t replicated_mask nd cnt i =
     (if prm_bit replicated_mask i then
       replica_param t (case ownObjDescGet t (nd_data_id nd ! i) of None \<Rightarrow> None
           | Some p \<Rightarrow> ownObjDescGet t (od_scope_obj_desc_id (desc_at t p))) cnt
      else ownObjDescGet t (nd_data_id nd ! i))"

definition fill_params :: "nat \<Rightarrow> (nat \<Rightarrow> nat option) \<Rightarrow> nat option list" where
  "fill_params num f = map (\<lambda>i. if i < num then f i else None) [0..<TIVX_KERNEL_MAX_PARAMS]"

text \<open>Create, delete and control cut the number of replicas to 16 bits.\<close>

definition replica_count16 :: "tivx_obj_desc_node \<Rightarrow> nat" where
  "replica_count16 nd = (if tivxFlagIsBitSet (nd_flags nd) TIVX_NODE_FLAG_IS_REPLICATED
     then unat (ucast (nd_num_of_replicas nd) :: uint16) else 1)"

text \<open>What the loop body does between the allocation of instance \<open>i\<close> of kernel \<open>k\<close> and the call of
  the create function.\<close>

definition setup_instance :: "tivx_obj_desc_node \<Rightarrow> nat \<Rightarrow> nat \<Rightarrow> nat \<Rightarrow> nat \<Rightarrow> sys \<Rightarrow> sys" where
  "setup_instance nd n cnt i k s =
     (let tab = (g_target_kernel_table (sys_kernels s))
            [k := (g_target_kernel_table (sys_kernels s) ! k)
                    \<lparr>tk_num_pipeup_bufs := nd_num_pipeup_bufs nd\<rparr>];
          e = (sys_instances s ! i)
                \<lparr>ki_state := (if nd_num_pipeup_bufs nd > 1 then VX_NODE_STATE_PIPEUP
                              else VX_NODE_STATE_STEADY),
                 ki_block_width := nd_block_width nd, ki_block_height := nd_block_height nd,
                 ki_is_replicated :=
                   (if tivxFlagIsBitSet (nd_flags nd) TIVX_NODE_FLAG_IS_REPLICATED then True
                    else ki_is_replicated (sys_instances s ! i)),
                 ki_node_obj_desc := Some n\<rparr>
      in upd_node n (\<lambda>d. d\<lparr>nd_target_kernel_index := (nd_target_kernel_index d)
              [cnt := ownTargetKernelInstanceGetIndex (sys_instances s) (Some i)]\<rparr>)
           (s\<lparr>sys_kernels := (sys_kernels s)\<lparr>g_target_kernel_table := tab\<rparr>,
              sys_instances := (sys_instances s)[i := e]\<rparr>))"

definition free_instance :: "sys \<Rightarrow> nat option \<Rightarrow> sys" where
  "free_instance s inst =
     s\<lparr>sys_instances := fst (ownTargetKernelInstanceFree (sys_instances s) inst)\<rparr>"

definition node_instance :: "sys \<Rightarrow> nat \<Rightarrow> nat \<Rightarrow> nat option" where
  "node_instance s n cnt = ownTargetKernelInstanceGet (sys_instances s)
     (ucast (nd_target_kernel_index (node_of s n) ! cnt)) (nd_kernel_id (node_of s n))"

text \<open>The creation of one replica. The locks of the two tables are taken to succeed.\<close>

definition create_replica ::
  "callbacks \<Rightarrow> sys \<Rightarrow> nat \<Rightarrow> uint32 \<Rightarrow> uint8 list option \<Rightarrow> nat \<Rightarrow> sys \<times> vx_status" where
  "create_replica cb s n replicated_mask kernel_name cnt =
     (let nd = node_of s n in
      case ownTargetKernelInstanceAlloc VX_SUCCESS VX_SUCCESS (sys_kernels s) (sys_instances s)
             (nd_kernel_id nd) kernel_name (nd_target_id nd) of
        (g, tab, None) \<Rightarrow>
          (s\<lparr>sys_kernels := g, sys_instances := tab\<rparr>, VX_ERROR_NO_RESOURCES)
      | (g, tab, Some i) \<Rightarrow>
          (let s1 = setup_instance nd n cnt i (the (ki_kernel (tab ! i)))
                      (s\<lparr>sys_kernels := g, sys_instances := tab\<rparr>);
               nd1 = node_of s1 n;
               params = fill_params (unat (nd_num_params nd1))
                          (create_param (sys_tbl s1) replicated_mask nd1 cnt)
           in case ownTargetKernelCreate cb s1 (Some i) params (ucast (nd_num_params nd1)) of
                (s2, status) \<Rightarrow>
                  if status = VX_SUCCESS then (s2, status)
                  else (free_instance s2 (Some i), status)))"

text \<open>The loop over the replicas, \<open>k\<close> of them left; the result has the value of \<open>cnt\<close> when it
  ends.\<close>

fun create_loop ::
  "callbacks \<Rightarrow> nat \<Rightarrow> nat \<Rightarrow> sys \<Rightarrow> nat \<Rightarrow> uint32 \<Rightarrow> uint8 list option \<Rightarrow>
   sys \<times> nat \<times> vx_status" where
  "create_loop cb 0 cnt s n msk nm = (s, cnt, VX_SUCCESS)"
| "create_loop cb (Suc k) cnt s n msk nm =
     (case create_replica cb s n msk nm cnt of
        (s1, status) \<Rightarrow>
          if status = VX_SUCCESS then create_loop cb k (Suc cnt) s1 n msk nm
          else (s1, Suc cnt, status))"

definition ownTargetNodeDescNodeCreate :: "callbacks \<Rightarrow> sys \<Rightarrow> nat \<Rightarrow> sys \<times> vx_status" where
  "ownTargetNodeDescNodeCreate cb s n =
     (let nd = node_of s n;
          nm = (case ownObjDescGet (sys_tbl s) (ucast (nd_kernel_name_obj_desc_id nd)) of
                  None \<Rightarrow> None | Some d \<Rightarrow> Some (kn_kernel_name (od_body (sys_desc s d))))
      in case create_loop cb (replica_count16 nd) 0 s n (nd_is_prm_replicated nd) nm of
           (s1, cnt, status) \<Rightarrow>
             if status \<noteq> VX_SUCCESS
             then (foldl (\<lambda>s i. case node_instance s n i of None \<Rightarrow> s
                        | Some j \<Rightarrow> free_instance s (Some j)) s1 [0..<cnt], status)
             else (s1, status))"

text \<open>\<open>tivxCheckStatus\<close> of \<open>kernels/include/tivx_kernels_common_utils.h\<close> keeps the last error.\<close>

definition tivxCheckStatus :: "vx_status \<Rightarrow> vx_status \<Rightarrow> vx_status" where
  "tivxCheckStatus status status_temp = (if status_temp \<noteq> VX_SUCCESS then status_temp else status)"

fun delete_loop ::
  "callbacks \<Rightarrow> nat \<Rightarrow> nat \<Rightarrow> sys \<Rightarrow> nat \<Rightarrow> vx_status \<Rightarrow> sys \<times> vx_status" where
  "delete_loop cb 0 cnt s n status = (s, status)"
| "delete_loop cb (Suc k) cnt s n status =
     (case node_instance s n cnt of
        None \<Rightarrow> delete_loop cb k (Suc cnt) s n VX_ERROR_INVALID_PARAMETERS
      | Some i \<Rightarrow>
          (let nd = node_of s n;
               params = fill_params (unat (nd_num_params nd))
                          (\<lambda>i. ownObjDescGet (sys_tbl s) (nd_data_id nd ! i))
           in case ownTargetKernelDelete cb s (Some i) params (ucast (nd_num_params nd)) of
                (s1, st) \<Rightarrow>
                  delete_loop cb k (Suc cnt) (free_instance s1 (Some i)) n
                    (tivxCheckStatus status st)))"

definition ownTargetNodeDescNodeDelete :: "callbacks \<Rightarrow> sys \<Rightarrow> nat \<Rightarrow> sys \<times> vx_status" where
  "ownTargetNodeDescNodeDelete cb s n =
     delete_loop cb (replica_count16 (node_of s n)) 0 s n VX_SUCCESS"

definition ownTargetNodeSendCommand ::
  "callbacks \<Rightarrow> sys \<Rightarrow> nat \<Rightarrow> nat \<Rightarrow> nat \<Rightarrow> sys \<times> vx_status" where
  "ownTargetNodeSendCommand cb s c node_id n =
     (case node_instance s n node_id of
        None \<Rightarrow> (s, VX_ERROR_INVALID_PARAMETERS)
      | Some i \<Rightarrow>
          (let k = cmd_of s c;
               params = map (\<lambda>id. ownObjDescGet (sys_tbl s) id)
                          (take (unat (cmd_num_cmd_params k)) (cmd_cmd_params_desc_id k))
           in ownTargetKernelControl cb s (Some i) (cmd_node_cmd_id k) params
                (ucast (cmd_num_cmd_params k))))"

fun control_loop ::
  "callbacks \<Rightarrow> nat \<Rightarrow> nat \<Rightarrow> sys \<Rightarrow> nat \<Rightarrow> nat \<Rightarrow> vx_status \<Rightarrow> sys \<times> vx_status" where
  "control_loop cb 0 cnt s c n status = (s, status)"
| "control_loop cb (Suc k) cnt s c n status =
     (case ownTargetNodeSendCommand cb s c cnt n of
        (s1, st) \<Rightarrow> if st \<noteq> VX_SUCCESS then (s1, st) else control_loop cb k (Suc cnt) s1 c n st)"

definition ownTargetNodeDescNodeControl ::
  "callbacks \<Rightarrow> sys \<Rightarrow> nat \<Rightarrow> nat \<Rightarrow> sys \<times> vx_status" where
  "ownTargetNodeDescNodeControl cb s c n =
     (let nd = node_of s n; idx = cmd_replicated_node_idx (cmd_of s c) in
      if tivxFlagIsBitSet (nd_flags nd) TIVX_NODE_FLAG_IS_REPLICATED then
       (if idx = SEND_TO_ALL_REPLICATED_NODES
        then control_loop cb (replica_count16 nd) 0 s c n VX_SUCCESS
        else if sint idx < uint (ucast (nd_num_of_replicas nd) :: uint16)
        then ownTargetNodeSendCommand cb s c (unat idx) n
        else (s, VX_FAILURE))
      else ownTargetNodeSendCommand cb s c 0 n)"

section \<open>Commands\<close>

definition ownTargetCmdDescHandleAck :: "sys \<Rightarrow> nat \<Rightarrow> sys" where
  "ownTargetCmdDescHandleAck s c =
     (if tivxFlagIsBitSet (cmd_flags (cmd_of s c)) TIVX_CMD_FLAG_IS_ACK then
       (let s1 = upd_cmd c (\<lambda>k. k\<lparr>cmd_flags :=
                   tivxFlagBitClear (cmd_flags k) TIVX_CMD_FLAG_IS_ACK\<rparr>) s
        in s1\<lparr>sys_events := sys_events s1 @ [cmd_ack_event_handle (cmd_of s1 c)]\<rparr>)
      else s)"

definition ownTargetCmdDescSendAck :: "platform \<Rightarrow> sys \<Rightarrow> nat \<Rightarrow> vx_status \<Rightarrow> sys" where
  "ownTargetCmdDescSendAck pl s c status =
     (if tivxFlagIsBitSet (cmd_flags (cmd_of s c)) TIVX_CMD_FLAG_SEND_ACK then
       (let s1 = upd_cmd c (\<lambda>k. k\<lparr>cmd_flags := tivxFlagBitSet (cmd_flags k) TIVX_CMD_FLAG_IS_ACK,
                                  cmd_cmd_status := status\<rparr>) s
        in fst (ownObjDescSend pl s1 (cmd_src_target_id (cmd_of s1 c))
                  (od_obj_desc_id (sys_desc s1 c))))
      else s)"

text \<open>What the handler does with the node named by a command of the host.\<close>

definition node_command :: "callbacks \<Rightarrow> sys \<Rightarrow> nat \<Rightarrow> sys \<times> vx_status" where
  "node_command cb s c =
     (let k = cmd_of s c; cmd_id = cmd_cmd_id k;
          d = ownObjDescGet (sys_tbl s) (cmd_obj_desc_id k ! 0) in
      if ownObjDescIsValidType (sys_tbl s) d TIVX_OBJ_DESC_NODE then
       (if tivxFlagIsBitSet (nd_flags (node_of s (the d))) TIVX_NODE_FLAG_IS_TARGET_KERNEL
        then (if cmd_id = TIVX_CMD_NODE_CREATE then ownTargetNodeDescNodeCreate cb s (the d)
              else if cmd_id = TIVX_CMD_NODE_DELETE then ownTargetNodeDescNodeDelete cb s (the d)
              else ownTargetNodeDescNodeControl cb s c (the d))
        else (s, VX_SUCCESS))
      else (s, VX_ERROR_INVALID_PARAMETERS))"

definition ownTargetCmdDescHandler :: "platform \<Rightarrow> callbacks \<Rightarrow> bool \<Rightarrow> sys \<Rightarrow> nat \<Rightarrow> sys" where
  "ownTargetCmdDescHandler pl cb host_only s c =
     (let k = cmd_of s c; cmd_id = cmd_cmd_id k in
      if cmd_id = TIVX_CMD_NODE_CREATE \<or> cmd_id = TIVX_CMD_NODE_DELETE
         \<or> cmd_id = TIVX_CMD_NODE_CONTROL then
       (if \<not> tivxFlagIsBitSet (cmd_flags k) TIVX_CMD_FLAG_IS_ACK
        then (case node_command cb s c of (s1, status) \<Rightarrow> ownTargetCmdDescSendAck pl s1 c status)
        else ownTargetCmdDescHandleAck s c)
      else if host_only \<and> (cmd_id = TIVX_CMD_NODE_USER_CALLBACK
                            \<or> cmd_id = TIVX_CMD_DATA_REF_CONSUMED)
      then (case cb_host_cmd cb of None \<Rightarrow> s | Some f \<Rightarrow> f c s)
      else s)"

section \<open>The main loop of a target's task\<close>

text \<open>The work on one descriptor taken from the job queue.\<close>

definition task_job :: "platform \<Rightarrow> callbacks \<Rightarrow> bool \<Rightarrow> sys \<Rightarrow> uint16 \<Rightarrow> vx_status \<Rightarrow> sys" where
  "task_job pl cb host_only s obj_desc_id status =
     (if host_only \<and> (status \<noteq> VX_SUCCESS \<or> obj_desc_id = TIVX_OBJ_DESC_INVALID) then s
      else
       (case ownObjDescGet (sys_tbl s) obj_desc_id of
          None \<Rightarrow> s
        | Some d \<Rightarrow>
            if od_type (sys_desc s d) = TIVX_OBJ_DESC_CMD then
             (if ownObjDescIsValidType (sys_tbl s) (Some d) TIVX_OBJ_DESC_CMD
              then ownTargetCmdDescHandler pl cb host_only s d else s)
            else if od_type (sys_desc s d) = TIVX_OBJ_DESC_NODE then
             (if ownObjDescIsValidType (sys_tbl s) (Some d) TIVX_OBJ_DESC_NODE
              then ownTargetNodeDescNodeExecute pl cb host_only s d else s)
            else s))"

text \<open>One turn of the loop in the task of target \<open>h\<close>: the task leaves when it was asked to, and works
  on the next job otherwise; \<open>None\<close> when it sleeps for ever. \<open>ws\<close> is what happens while it waits.\<close>

definition task_turn ::
  "platform \<Rightarrow> callbacks \<Rightarrow> bool \<Rightarrow> wait_env list \<Rightarrow> sys \<Rightarrow> nat \<Rightarrow> sys option" where
  "task_turn pl cb host_only ws s h =
     (if tgt_exit_request (sys_targets s ! h)
      then Some (s\<lparr>sys_targets := (sys_targets s)
             [h := (sys_targets s ! h)\<lparr>tgt_exit_done := True\<rparr>]\<rparr>)
      else map_option (\<lambda>(s', i, st). task_job pl cb host_only s' i st)
             (ownTargetDequeueObjDesc ws s h VX_TIMEOUT_WAIT_FOREVER))"

text \<open>The loop, one list of events for each wait; it returns when the task has left.\<close>

fun ownTargetTaskMain ::
  "platform \<Rightarrow> callbacks \<Rightarrow> bool \<Rightarrow> wait_env list list \<Rightarrow> sys \<Rightarrow> nat \<Rightarrow> sys option" where
  "ownTargetTaskMain pl cb host_only [] s h =
     (if tgt_exit_request (sys_targets s ! h) then task_turn pl cb host_only [] s h else None)"
| "ownTargetTaskMain pl cb host_only (ws # wss) s h =
     (if tgt_exit_request (sys_targets s ! h) then task_turn pl cb host_only [] s h
      else Option.bind (task_turn pl cb host_only ws s h)
             (\<lambda>s1. ownTargetTaskMain pl cb host_only wss s1 h))"

text \<open>\<open>ownTargetDelete\<close> up to the wait for the task, and after it.\<close>

definition delete_request :: "sys \<Rightarrow> vx_enum \<Rightarrow> sys \<times> vx_status" where
  "delete_request s target_id =
     (case ownTargetGetHandle s target_id of
        None \<Rightarrow> (s, VX_ERROR_INVALID_VALUE)
      | Some h \<Rightarrow> ownTargetQueueObjDesc (s\<lparr>sys_targets := (sys_targets s)
             [h := (sys_targets s ! h)\<lparr>tgt_exit_request := True\<rparr>]\<rparr>)
           target_id TIVX_OBJ_DESC_INVALID)"

definition delete_finish ::
  "posix_rc \<Rightarrow> posix_objects \<Rightarrow> sys \<Rightarrow> nat \<Rightarrow> posix_objects \<times> sys" where
  "delete_finish rc po s h =
     (case tivxQueueDelete rc po (tgt_job_queue (sys_targets s ! h)) of
        (po1, q, _) \<Rightarrow> (po1, fst (ownTargetFreeHandle (s\<lparr>sys_targets := (sys_targets s)
             [h := (sys_targets s ! h)\<lparr>tgt_job_queue := q\<rparr>]\<rparr>) (Some h))))"

text \<open>The task from the moment of the request: \<open>asleep\<close> when it was inside the wait for a job, so
  that it takes one more job before it looks at the request.\<close>

definition task_rest ::
  "platform \<Rightarrow> callbacks \<Rightarrow> bool \<Rightarrow> bool \<Rightarrow> wait_env list list \<Rightarrow> sys \<Rightarrow> nat \<Rightarrow> sys option" where
  "task_rest pl cb host_only asleep wss s h =
     (if asleep
      then Option.bind (ownTargetDequeueObjDesc [] s h VX_TIMEOUT_WAIT_FOREVER)
             (\<lambda>(s', i, st). ownTargetTaskMain pl cb host_only wss
                 (task_job pl cb host_only s' i st) h)
      else ownTargetTaskMain pl cb host_only wss s h)"

text \<open>The whole of \<open>ownTargetDelete\<close>, the task running from the request until it is done; \<open>None\<close>
  when the task does not come to its end.\<close>

definition ownTargetDelete ::
  "posix_rc \<Rightarrow> platform \<Rightarrow> callbacks \<Rightarrow> bool \<Rightarrow> bool \<Rightarrow> wait_env list list \<Rightarrow> posix_objects \<Rightarrow> sys \<Rightarrow>
   vx_enum \<Rightarrow> (posix_objects \<times> sys \<times> vx_status) option" where
  "ownTargetDelete rc pl cb host_only asleep wss po s target_id =
     (case ownTargetGetHandle s target_id of
        None \<Rightarrow> Some (po, s, VX_ERROR_INVALID_VALUE)
      | Some h \<Rightarrow>
          (case delete_request s target_id of
             (s1, status) \<Rightarrow>
               if status = VX_SUCCESS then
                 map_option (\<lambda>s2. case delete_finish rc po s2 h of
                     (po1, s3) \<Rightarrow> (po1, s3, status))
                   (task_rest pl cb host_only asleep wss s1 h)
               else Some (po, s1, status)))"

section \<open>The instances that a node holds\<close>

definition inst_ids :: "sys \<Rightarrow> vx_enum list" where
  "inst_ids s = map ki_kernel_id (sys_instances s)"

text \<open>The slot that entry \<open>i\<close> of the node's index array names.\<close>

definition inst_slot :: "sys \<Rightarrow> nat \<Rightarrow> nat \<Rightarrow> nat" where
  "inst_slot s n i = unat (ucast (nd_target_kernel_index (node_of s n) ! i) :: uint16)"

text \<open>A kernel's create, delete and control functions work on the context of their instance: they leave
  the descriptor table and the kernel ids of the instances alone.\<close>

definition kernels_keep_tables :: "callbacks \<Rightarrow> bool" where
  "kernels_keep_tables cb \<longleftrightarrow>
     (\<forall>f i ps np pa s. sys_tbl (fst (cb_create cb f i ps np pa s)) = sys_tbl s
        \<and> inst_ids (fst (cb_create cb f i ps np pa s)) = inst_ids s
        \<and> sys_targets (fst (cb_create cb f i ps np pa s)) = sys_targets s)
   \<and> (\<forall>f i ps np pa s. sys_tbl (fst (cb_delete cb f i ps np pa s)) = sys_tbl s
        \<and> inst_ids (fst (cb_delete cb f i ps np pa s)) = inst_ids s
        \<and> sys_targets (fst (cb_delete cb f i ps np pa s)) = sys_targets s)
   \<and> (\<forall>f i c ps np pa s. sys_tbl (fst (cb_control cb f i c ps np pa s)) = sys_tbl s
        \<and> sys_targets (fst (cb_control cb f i c ps np pa s)) = sys_targets s)"

lemma length_inst_ids [simp]: "length (inst_ids s) = length (sys_instances s)"
  by (simp add: inst_ids_def)

lemma kernel_create_frame:
  assumes "kernels_keep_tables cb" "ownTargetKernelCreate cb s inst params k = (s', st)"
  shows "sys_tbl s' = sys_tbl s" "inst_ids s' = inst_ids s" "sys_targets s' = sys_targets s"
  using assms
  by (auto simp: ownTargetKernelCreate_def kernels_keep_tables_def
      split: option.splits if_splits) (metis fst_conv)+

lemma kernel_delete_frame:
  assumes "kernels_keep_tables cb" "ownTargetKernelDelete cb s inst params k = (s', st)"
  shows "sys_tbl s' = sys_tbl s" "inst_ids s' = inst_ids s" "sys_targets s' = sys_targets s"
  using assms
  by (auto simp: ownTargetKernelDelete_def kernels_keep_tables_def
      split: option.splits if_splits) (metis fst_conv)+

lemma free_instance_frame [simp]:
  "sys_tbl (free_instance s i) = sys_tbl s" "sys_targets (free_instance s i) = sys_targets s"
  "length (sys_instances (free_instance s i)) = length (sys_instances s)"
  "inst_ids (free_instance s (Some j)) = (inst_ids s)[j := TIVX_TARGET_KERNEL_ID_INVALID]"
  by (simp_all add: free_instance_def ownTargetKernelInstanceFree_def inst_ids_def map_update
      split: option.splits)

lemma node_instance_slot:
  "node_instance s n i = (if inst_slot s n i < length (inst_ids s)
       \<and> inst_ids s ! inst_slot s n i = nd_kernel_id (node_of s n)
     then Some (inst_slot s n i) else None)"
  by (auto simp: node_instance_def ownTargetKernelInstanceGet_def inst_slot_def inst_ids_def)

lemma inst_slot_tbl: "sys_tbl s' = sys_tbl s \<Longrightarrow> inst_slot s' n i = inst_slot s n i"
  by (simp add: inst_slot_def)

text \<open>What freeing the instances of the entries \<open>I\<close> of the index array leaves of the ids.\<close>

definition ids_freed :: "vx_enum \<Rightarrow> nat set \<Rightarrow> vx_enum list \<Rightarrow> vx_enum list \<Rightarrow> bool" where
  "ids_freed kid J ids ids' \<longleftrightarrow> length ids' = length ids
     \<and> (\<forall>j < length ids. ids' ! j =
          (if ids ! j = kid \<and> j \<in> J then TIVX_TARGET_KERNEL_ID_INVALID else ids ! j))"

lemma ids_freed_step:
  assumes "kid \<noteq> TIVX_TARGET_KERNEL_ID_INVALID"
    and "ids1 = (if j < length ids \<and> ids ! j = kid then ids[j := TIVX_TARGET_KERNEL_ID_INVALID]
                 else ids)"
    and "ids_freed kid J ids1 ids2"
  shows "ids_freed kid (insert j J) ids ids2"
  using assms by (auto simp: ids_freed_def nth_list_update)

lemma cleanup_frees:
  assumes "nd_kernel_id (node_of s n) \<noteq> TIVX_TARGET_KERNEL_ID_INVALID"
  shows "ids_freed (nd_kernel_id (node_of s n)) (inst_slot s n ` set js) (inst_ids s)
      (inst_ids (foldl (\<lambda>s i. case node_instance s n i of None \<Rightarrow> s
                        | Some j \<Rightarrow> free_instance s (Some j)) s js))
    \<and> sys_tbl (foldl (\<lambda>s i. case node_instance s n i of None \<Rightarrow> s
                        | Some j \<Rightarrow> free_instance s (Some j)) s js) = sys_tbl s
    \<and> sys_targets (foldl (\<lambda>s i. case node_instance s n i of None \<Rightarrow> s
                        | Some j \<Rightarrow> free_instance s (Some j)) s js) = sys_targets s"
  using assms
proof (induction js arbitrary: s)
  case Nil
  then show ?case by (simp add: ids_freed_def)
next
  case (Cons i js)
  let ?s1 = "case node_instance s n i of None \<Rightarrow> s | Some j \<Rightarrow> free_instance s (Some j)"
  have t: "sys_tbl ?s1 = sys_tbl s" "sys_targets ?s1 = sys_targets s"
    by (simp_all split: option.splits)
  have ids: "inst_ids ?s1 = (if inst_slot s n i < length (inst_ids s)
        \<and> inst_ids s ! inst_slot s n i = nd_kernel_id (node_of s n)
      then (inst_ids s)[inst_slot s n i := TIVX_TARGET_KERNEL_ID_INVALID] else inst_ids s)"
    by (simp add: node_instance_slot)
  have im: "inst_slot s n ` set (i # js) = insert (inst_slot s n i) (inst_slot s n ` set js)"
    by simp
  have sl: "inst_slot ?s1 n ` X = inst_slot s n ` X" for X
    by (simp add: inst_slot_tbl [OF t(1)])
  note IH = Cons.IH [of ?s1, unfolded t sl, OF Cons.prems]
  from ids_freed_step [OF Cons.prems ids conjunct1 [OF IH]] IH show ?case
    unfolding im by simp
qed

lemma delete_loop_frees:
  assumes cb: "kernels_keep_tables cb"
    and "nd_kernel_id (node_of s n) \<noteq> TIVX_TARGET_KERNEL_ID_INVALID"
  shows "ids_freed (nd_kernel_id (node_of s n)) (inst_slot s n ` {cnt..<cnt + k}) (inst_ids s)
      (inst_ids (fst (delete_loop cb k cnt s n st)))
    \<and> sys_tbl (fst (delete_loop cb k cnt s n st)) = sys_tbl s
    \<and> sys_targets (fst (delete_loop cb k cnt s n st)) = sys_targets s"
  using assms(2)
proof (induction k arbitrary: cnt s st)
  case 0
  then show ?case by (simp add: ids_freed_def)
next
  case (Suc k)
  have im: "inst_slot s n ` {cnt..<cnt + Suc k}
      = insert (inst_slot s n cnt) (inst_slot s n ` {Suc cnt..<Suc cnt + k})"
  proof -
    have "{cnt..<cnt + Suc k} = insert cnt {Suc cnt..<Suc cnt + k}" by auto
    then show ?thesis by simp
  qed
  show ?case
  proof (cases "node_instance s n cnt")
    case None
    then have ids: "inst_ids s = (if inst_slot s n cnt < length (inst_ids s)
        \<and> inst_ids s ! inst_slot s n cnt = nd_kernel_id (node_of s n)
      then (inst_ids s)[inst_slot s n cnt := TIVX_TARGET_KERNEL_ID_INVALID] else inst_ids s)"
      by (auto simp: node_instance_slot split: if_splits)
    note IH = Suc.IH [OF Suc.prems, of "Suc cnt" VX_ERROR_INVALID_PARAMETERS]
    from ids_freed_step [OF Suc.prems ids conjunct1 [OF IH]] IH None show ?thesis
      unfolding im by simp
  next
    case (Some i)
    let ?np = "ucast (nd_num_params (node_of s n)) :: uint16"
    let ?ps = "fill_params (unat (nd_num_params (node_of s n)))
        (\<lambda>i. ownObjDescGet (sys_tbl s) (nd_data_id (node_of s n) ! i))"
    obtain s1 st1 where del: "ownTargetKernelDelete cb s (Some i) ?ps ?np = (s1, st1)" by fastforce
    note fr = kernel_delete_frame [OF cb del]
    let ?s1 = "free_instance s1 (Some i)"
    have i: "i = inst_slot s n cnt" "inst_slot s n cnt < length (inst_ids s)"
      "inst_ids s ! inst_slot s n cnt = nd_kernel_id (node_of s n)"
      using Some by (auto simp: node_instance_slot split: if_splits)
    have t: "sys_tbl ?s1 = sys_tbl s" "sys_targets ?s1 = sys_targets s" using fr by simp_all
    have ids: "inst_ids ?s1 = (if inst_slot s n cnt < length (inst_ids s)
        \<and> inst_ids s ! inst_slot s n cnt = nd_kernel_id (node_of s n)
      then (inst_ids s)[inst_slot s n cnt := TIVX_TARGET_KERNEL_ID_INVALID] else inst_ids s)"
      using i fr by simp
    have sl: "inst_slot ?s1 n ` X = inst_slot s n ` X" for X
      by (simp add: inst_slot_tbl [OF t(1)])
    have run: "delete_loop cb (Suc k) cnt s n st
        = delete_loop cb k (Suc cnt) ?s1 n (tivxCheckStatus st st1)"
      using Some del by (simp add: Let_def)
    note IH = Suc.IH [of ?s1 "Suc cnt" "tivxCheckStatus st st1", unfolded t sl, OF Suc.prems]
    from ids_freed_step [OF Suc.prems ids conjunct1 [OF IH]] IH show ?thesis
      unfolding im run by simp
  qed
qed

lemma instance_alloc_cases:
  assumes "ownTargetKernelInstanceAlloc lk lki g tab kid nm tid = (g', tab', r)"
  shows "case r of None \<Rightarrow> tab' = tab
    | Some i \<Rightarrow> i < length tab \<and> ki_kernel_id (tab ! i) = TIVX_TARGET_KERNEL_ID_INVALID
        \<and> map ki_kernel_id tab' = (map ki_kernel_id tab)[i := kid]
        \<and> ki_index (tab' ! i) = of_nat i"
  using assms
  by (auto simp: ownTargetKernelInstanceAlloc_def first_index_some map_update
      split: prod.splits option.splits if_splits)

lemma setup_instance_frame:
  assumes "i < length (sys_instances s)"
  shows "inst_ids (setup_instance nd n cnt i k s) = inst_ids s"
    "sys_targets (setup_instance nd n cnt i k s) = sys_targets s"
    "sys_tbl (setup_instance nd n cnt i k s) = sys_tbl (upd_node n (\<lambda>d. d\<lparr>nd_target_kernel_index :=
        (nd_target_kernel_index d)
          [cnt := ownTargetKernelInstanceGetIndex (sys_instances s) (Some i)]\<rparr>) s)"
proof -
  have "map ki_kernel_id ((sys_instances s)[i := e]) = map ki_kernel_id (sys_instances s)"
    if "ki_kernel_id e = ki_kernel_id (sys_instances s ! i)" for e
    using that assms by (simp add: map_update list_update_same_conv)
  then show "inst_ids (setup_instance nd n cnt i k s) = inst_ids s"
    by (simp add: setup_instance_def Let_def inst_ids_def)
qed (simp_all add: setup_instance_def Let_def)

text \<open>One replica: on success a free slot is taken and named by the entry; on an error no slot is
  taken, and the entry is as before or names a free slot.\<close>

lemma create_replica_cases:
  assumes cb: "kernels_keep_tables cb" and n: "n < num_entries (sys_tbl s)"
    and len: "cnt < length (nd_target_kernel_index (node_of s n))"
      "length (sys_instances s) \<le> 2 ^ 16"
    and run: "create_replica cb s n msk nm cnt = (s', st)"
  shows "num_entries (sys_tbl s') = num_entries (sys_tbl s) \<and> sys_targets s' = sys_targets s
    \<and> (\<forall>i. i \<noteq> n \<longrightarrow> sys_desc s' i = sys_desc s i)
    \<and> (\<exists>x. node_of s' n = (node_of s n)\<lparr>nd_target_kernel_index :=
          (nd_target_kernel_index (node_of s n))[cnt := x]\<rparr>)
    \<and> (if st = VX_SUCCESS
       then \<exists>i < length (inst_ids s). inst_ids s ! i = TIVX_TARGET_KERNEL_ID_INVALID
          \<and> inst_ids s' = (inst_ids s)[i := nd_kernel_id (node_of s n)] \<and> inst_slot s' n cnt = i
       else inst_ids s' = inst_ids s \<and> (inst_slot s' n cnt = inst_slot s n cnt
          \<or> inst_slot s' n cnt < length (inst_ids s)
            \<and> inst_ids s ! inst_slot s' n cnt = TIVX_TARGET_KERNEL_ID_INVALID))"
proof -
  let ?nd = "node_of s n"
  obtain g tab r where al: "ownTargetKernelInstanceAlloc VX_SUCCESS VX_SUCCESS (sys_kernels s)
      (sys_instances s) (nd_kernel_id ?nd) nm (nd_target_id ?nd) = (g, tab, r)"
    by (metis prod_cases3)
  note ac = instance_alloc_cases [OF al]
  show ?thesis
  proof (cases r)
    case None
    with run al ac show ?thesis
      by (auto simp: create_replica_def Let_def inst_ids_def inst_slot_def
          intro!: exI [of _ "nd_target_kernel_index ?nd ! cnt"])
  next
    case (Some i)
    with ac have i: "i < length (sys_instances s)"
      "inst_ids s ! i = TIVX_TARGET_KERNEL_ID_INVALID"
      "map ki_kernel_id tab = (inst_ids s)[i := nd_kernel_id ?nd]" "ki_index (tab ! i) = of_nat i"
      by (simp_all add: inst_ids_def)
    have ltab: "length tab = length (sys_instances s)"
      using arg_cong [OF i(3), of length] by simp
    let ?s0 = "s\<lparr>sys_kernels := g, sys_instances := tab\<rparr>"
    let ?s1 = "setup_instance ?nd n cnt i (the (ki_kernel (tab ! i))) ?s0"
    have "i < length (sys_instances ?s0)" using i ltab by simp
    note su = setup_instance_frame [OF this, of ?nd n cnt "the (ki_kernel (tab ! i))"]
    have "unat (of_nat i :: uint32) = i"
      using i(1) len(2) by (simp add: unat_of_nat)
    then have idx: "ownTargetKernelInstanceGetIndex tab (Some i) = of_nat i"
      using i(1,4) ltab by (simp add: ownTargetKernelInstanceGetIndex_def)
    have node1: "node_of ?s1 n = ?nd\<lparr>nd_target_kernel_index :=
        (nd_target_kernel_index ?nd)[cnt := of_nat i]\<rparr>"
      unfolding su(3) using n idx by simp
    have other: "sys_desc ?s1 j = sys_desc s j" if "j \<noteq> n" for j
      unfolding su(3) using that n by (simp add: upd_node_def upd_desc_def)
    have num: "num_entries (sys_tbl ?s1) = num_entries (sys_tbl s)" unfolding su(3) by simp
    have "unat (ucast (of_nat i :: uint32) :: uint16) = i"
      using i(1) len(2) by (simp add: unat_of_nat unsigned_ucast_eq take_bit_nat_eq_self)
    then have slot: "inst_slot ?s1 n cnt = i"
      unfolding inst_slot_def node1 using len(1) by simp
    have ids1: "inst_ids ?s1 = (inst_ids s)[i := nd_kernel_id ?nd]"
      using su(1) i(3) by (simp add: inst_ids_def)
    let ?ps = "fill_params (unat (nd_num_params (node_of ?s1 n)))
        (create_param (sys_tbl ?s1) msk (node_of ?s1 n) cnt)"
    let ?k = "ucast (nd_num_params (node_of ?s1 n)) :: uint16"
    obtain s2 st2 where cr: "ownTargetKernelCreate cb ?s1 (Some i) ?ps ?k = (s2, st2)" by fastforce
    note fr = kernel_create_frame [OF cb cr]
    have res: "(s', st) = (if st2 = VX_SUCCESS then (s2, st2) else (free_instance s2 (Some i), st2))"
      using run al Some cr by (simp add: create_replica_def Let_def)
    have tbl: "sys_tbl s' = sys_tbl ?s1" "sys_targets s' = sys_targets s"
      using res fr su(2) by (auto split: if_splits)
    have ids: "inst_ids s' = (if st = VX_SUCCESS then (inst_ids s)[i := nd_kernel_id ?nd]
        else inst_ids s)"
      using res fr ids1 i(1,2) by (auto split: if_splits) (metis i(2) list_update_id)
    have "inst_slot s' n cnt = i" using inst_slot_tbl [OF tbl(1)] slot by simp
    with tbl ids node1 other num i show ?thesis
      by (auto intro!: exI [of _ "of_nat i"])
  qed
qed

text \<open>The loop over the replicas takes slots that were free, and the entries it has filled name them.\<close>

lemma create_loop_slots:
  assumes cb: "kernels_keep_tables cb"
    and "create_loop cb k cnt s n msk nm = (s', cnt', st)"
    and "n < num_entries (sys_tbl s)"
    and "cnt + k \<le> length (nd_target_kernel_index (node_of s n))"
    and "length (sys_instances s) \<le> 2 ^ 16"
    and "nd_kernel_id (node_of s n) \<noteq> TIVX_TARGET_KERNEL_ID_INVALID"
  shows "\<exists>ss. length (inst_ids s') = length (inst_ids s) \<and> sys_targets s' = sys_targets s
    \<and> num_entries (sys_tbl s') = num_entries (sys_tbl s)
    \<and> (\<forall>i. i \<noteq> n \<longrightarrow> sys_desc s' i = sys_desc s i)
    \<and> (\<exists>xs. node_of s' n = (node_of s n)\<lparr>nd_target_kernel_index := xs\<rparr>)
    \<and> length ss \<le> k \<and> (st = VX_SUCCESS \<longrightarrow> length ss = k \<and> cnt' = cnt + k)
    \<and> (st \<noteq> VX_SUCCESS \<longrightarrow> length ss < k \<and> cnt' = Suc (cnt + length ss)
        \<and> (inst_slot s' n (cnt + length ss) = inst_slot s n (cnt + length ss)
           \<or> inst_slot s' n (cnt + length ss) \<in> set ss
           \<or> inst_slot s' n (cnt + length ss) < length (inst_ids s)
             \<and> inst_ids s ! inst_slot s' n (cnt + length ss) = TIVX_TARGET_KERNEL_ID_INVALID))
    \<and> (\<forall>j \<in> set ss. j < length (inst_ids s) \<and> inst_ids s ! j = TIVX_TARGET_KERNEL_ID_INVALID)
    \<and> distinct ss
    \<and> (\<forall>j < length (inst_ids s). inst_ids s' ! j
         = (if j \<in> set ss then nd_kernel_id (node_of s n) else inst_ids s ! j))
    \<and> (\<forall>m < length ss. inst_slot s' n (cnt + m) = ss ! m)
    \<and> (\<forall>m < cnt. inst_slot s' n m = inst_slot s n m)"
  using assms(2-6)
proof (induction k arbitrary: cnt s)
  case 0
  then show ?case
    by (intro exI [of _ "[]"]) (auto intro: exI [of _ "nd_target_kernel_index (node_of s n)"])
next
  case (Suc k)
  let ?kid = "nd_kernel_id (node_of s n)"
  obtain s1 st1 where cr: "create_replica cb s n msk nm cnt = (s1, st1)" by fastforce
  have lt: "cnt < length (nd_target_kernel_index (node_of s n))" using Suc.prems(3) by simp
  note c = create_replica_cases [OF cb Suc.prems(2) lt Suc.prems(4) cr]
  obtain x where x: "node_of s1 n = (node_of s n)\<lparr>nd_target_kernel_index :=
      (nd_target_kernel_index (node_of s n))[cnt := x]\<rparr>"
    using c by blast
  have keep: "inst_slot s1 n m = inst_slot s n m" if "m \<noteq> cnt" for m
    unfolding inst_slot_def x using that by simp
  show ?case
  proof (cases "st1 = VX_SUCCESS")
    case False
    then have res: "s' = s1" "cnt' = Suc cnt" "st = st1"
      using Suc.prems(1) cr by auto
    have ids: "inst_ids s1 = inst_ids s" using c False by auto
    show ?thesis
      unfolding res
      using False c keep x ids by (intro exI [of _ "[]"]) (auto simp: ids)
  next
    case True
    obtain i where i: "i < length (inst_ids s)" "inst_ids s ! i = TIVX_TARGET_KERNEL_ID_INVALID"
      "inst_ids s1 = (inst_ids s)[i := ?kid]" "inst_slot s1 n cnt = i"
      using c True by auto
    have len1: "length (inst_ids s1) = length (inst_ids s)" using i(3) by simp
    have run: "create_loop cb k (Suc cnt) s1 n msk nm = (s', cnt', st)"
      using Suc.prems(1) cr True by simp
    have pre: "n < num_entries (sys_tbl s1)"
      "Suc cnt + k \<le> length (nd_target_kernel_index (node_of s1 n))"
      "length (sys_instances s1) \<le> 2 ^ 16" "nd_kernel_id (node_of s1 n) = ?kid"
      using c Suc.prems(2,3,4) len1 unfolding x by simp_all
    obtain ss where IH: "length (inst_ids s') = length (inst_ids s1)"
      "sys_targets s' = sys_targets s1" "num_entries (sys_tbl s') = num_entries (sys_tbl s1)"
      "\<forall>i. i \<noteq> n \<longrightarrow> sys_desc s' i = sys_desc s1 i"
      "\<exists>xs. node_of s' n = (node_of s1 n)\<lparr>nd_target_kernel_index := xs\<rparr>"
      "length ss \<le> k" "st = VX_SUCCESS \<longrightarrow> length ss = k \<and> cnt' = Suc cnt + k"
      "st \<noteq> VX_SUCCESS \<longrightarrow> length ss < k \<and> cnt' = Suc (Suc cnt + length ss)
        \<and> (inst_slot s' n (Suc cnt + length ss) = inst_slot s1 n (Suc cnt + length ss)
           \<or> inst_slot s' n (Suc cnt + length ss) \<in> set ss
           \<or> inst_slot s' n (Suc cnt + length ss) < length (inst_ids s1)
             \<and> inst_ids s1 ! inst_slot s' n (Suc cnt + length ss)
               = TIVX_TARGET_KERNEL_ID_INVALID)"
      "\<forall>j \<in> set ss. j < length (inst_ids s1) \<and> inst_ids s1 ! j = TIVX_TARGET_KERNEL_ID_INVALID"
      "distinct ss"
      "\<forall>j < length (inst_ids s1). inst_ids s' ! j
         = (if j \<in> set ss then nd_kernel_id (node_of s1 n) else inst_ids s1 ! j)"
      "\<forall>m < length ss. inst_slot s' n (Suc cnt + m) = ss ! m"
      "\<forall>m < Suc cnt. inst_slot s' n m = inst_slot s1 n m"
      using Suc.IH [OF run pre(1,2,3)] pre(4) Suc.prems(5) by auto
    have kid: "?kid \<noteq> TIVX_TARGET_KERNEL_ID_INVALID" by (rule Suc.prems(5))
    have notin: "i \<notin> set ss" using IH(9) i(1,3) kid by auto
    have free: "inst_ids s ! j = TIVX_TARGET_KERNEL_ID_INVALID \<and> j < length (inst_ids s)"
      if "j \<in> set (i # ss)" for j
      using that IH(9) i notin len1 by (cases "j = i") auto
    have ids: "inst_ids s' ! j = (if j \<in> set (i # ss) then ?kid else inst_ids s ! j)"
      if "j < length (inst_ids s)" for j
      using that IH(11) i notin len1 pre(4) by (cases "j = i") auto
    have slots: "inst_slot s' n (cnt + m) = (i # ss) ! m" if "m < length (i # ss)" for m
      using that IH(12,13) i(4) by (cases m) auto
    have before: "inst_slot s' n m = inst_slot s n m" if "m < cnt" for m
      using that IH(13) keep by simp
    have stale: "inst_slot s1 n (Suc cnt + length ss) = inst_slot s n (Suc cnt + length ss)"
      by (rule keep) simp
    have fail: "length (i # ss) < Suc k \<and> cnt' = Suc (cnt + length (i # ss))
        \<and> (inst_slot s' n (cnt + length (i # ss)) = inst_slot s n (cnt + length (i # ss))
           \<or> inst_slot s' n (cnt + length (i # ss)) \<in> set (i # ss)
           \<or> inst_slot s' n (cnt + length (i # ss)) < length (inst_ids s)
             \<and> inst_ids s ! inst_slot s' n (cnt + length (i # ss))
               = TIVX_TARGET_KERNEL_ID_INVALID)" if "st \<noteq> VX_SUCCESS"
      using IH(8) that stale i(3) len1 kid by (auto simp: nth_list_update split: if_splits)
    obtain xs where "node_of s' n = (node_of s1 n)\<lparr>nd_target_kernel_index := xs\<rparr>"
      using IH(5) by blast
    then have nd: "node_of s' n = (node_of s n)\<lparr>nd_target_kernel_index := xs\<rparr>"
      unfolding x by simp
    have rest: "num_entries (sys_tbl s') = num_entries (sys_tbl s)" "sys_targets s' = sys_targets s"
      "\<forall>i. i \<noteq> n \<longrightarrow> sys_desc s' i = sys_desc s i" "length (inst_ids s') = length (inst_ids s)"
      using IH(1,2,3,4) c len1 by auto
    show ?thesis
      by (intro exI [of _ "i # ss"] conjI allI ballI impI)
        (use rest nd IH(6,7,10) notin free ids slots before fail in auto)
  qed
qed

section \<open>Correctness of creation and deletion\<close>

text \<open>A node that can be created: its descriptor is in the table, its index array has room for all
  replicas, and its kernel id is not the mark of a free instance.\<close>

definition creatable :: "sys \<Rightarrow> nat \<Rightarrow> bool" where
  "creatable s n \<longleftrightarrow> n < num_entries (sys_tbl s)
     \<and> replica_count16 (node_of s n) \<le> length (nd_target_kernel_index (node_of s n))
     \<and> length (sys_instances s) \<le> 2 ^ 16
     \<and> nd_kernel_id (node_of s n) \<noteq> TIVX_TARGET_KERNEL_ID_INVALID"

lemma node_create_split:
  obtains s1 cnt st nm where
    "create_loop cb (replica_count16 (node_of s n)) 0 s n (nd_is_prm_replicated (node_of s n)) nm
       = (s1, cnt, st)"
    "ownTargetNodeDescNodeCreate cb s n = (if st \<noteq> VX_SUCCESS
       then (foldl (\<lambda>s i. case node_instance s n i of None \<Rightarrow> s
                        | Some j \<Rightarrow> free_instance s (Some j)) s1 [0..<cnt], st)
       else (s1, st))"
proof -
  let ?nm = "case ownObjDescGet (sys_tbl s) (ucast (nd_kernel_name_obj_desc_id (node_of s n))) of
      None \<Rightarrow> None | Some d \<Rightarrow> Some (kn_kernel_name (od_body (sys_desc s d)))"
  obtain s1 cnt st where "create_loop cb (replica_count16 (node_of s n)) 0 s n
      (nd_is_prm_replicated (node_of s n)) ?nm = (s1, cnt, st)" by (metis prod_cases3)
  then show ?thesis by (intro that) (auto simp: ownTargetNodeDescNodeCreate_def Let_def)
qed

text \<open>C16: creating a node takes one free kernel instance for each replica, and the node finds each of
  them again; deleting the node, in any later state in which its descriptor and the instance ids
  are the same, gives all of them back and no other.\<close>

theorem node_create_then_delete:
  assumes cb: "kernels_keep_tables cb" and s: "creatable s n"
    and create: "ownTargetNodeDescNodeCreate cb s n = (s1, VX_SUCCESS)"
    and later: "node_of s2 n = node_of s1 n" "inst_ids s2 = inst_ids s1"
  shows "(\<exists>ss. length ss = replica_count16 (node_of s n) \<and> distinct ss
       \<and> (\<forall>j \<in> set ss. j < length (inst_ids s) \<and> inst_ids s ! j = TIVX_TARGET_KERNEL_ID_INVALID)
       \<and> (\<forall>m < length ss. node_instance s1 n m = Some (ss ! m)))
    \<and> inst_ids (fst (ownTargetNodeDescNodeDelete cb s2 n)) = inst_ids s"
proof -
  let ?kid = "nd_kernel_id (node_of s n)" and ?k = "replica_count16 (node_of s n)"
  obtain cnt nm where loop: "create_loop cb ?k 0 s n (nd_is_prm_replicated (node_of s n)) nm
      = (s1, cnt, VX_SUCCESS)"
    using create by (rule_tac node_create_split [of cb s n]) (auto split: if_splits)
  have pre: "n < num_entries (sys_tbl s)" "0 + ?k \<le> length (nd_target_kernel_index (node_of s n))"
    "length (sys_instances s) \<le> 2 ^ 16" "?kid \<noteq> TIVX_TARGET_KERNEL_ID_INVALID"
    using s by (simp_all add: creatable_def)
  obtain ss xs where c: "length (inst_ids s1) = length (inst_ids s)"
    "node_of s1 n = (node_of s n)\<lparr>nd_target_kernel_index := xs\<rparr>" "length ss = ?k"
    "\<forall>j \<in> set ss. j < length (inst_ids s) \<and> inst_ids s ! j = TIVX_TARGET_KERNEL_ID_INVALID"
    "distinct ss" "\<forall>j < length (inst_ids s). inst_ids s1 ! j
         = (if j \<in> set ss then ?kid else inst_ids s ! j)"
    "\<forall>m < length ss. inst_slot s1 n (0 + m) = ss ! m"
    using create_loop_slots [OF cb loop pre] by auto
  have kid1: "nd_kernel_id (node_of s1 n) = ?kid" "replica_count16 (node_of s1 n) = ?k"
    unfolding c(2) by (simp_all add: replica_count16_def)
  have found: "\<forall>m < length ss. node_instance s1 n m = Some (ss ! m)"
    using c(1,4,6,7) kid1(1) by (simp add: node_instance_slot)
  have del: "ownTargetNodeDescNodeDelete cb s2 n = delete_loop cb ?k 0 s2 n VX_SUCCESS"
    unfolding ownTargetNodeDescNodeDelete_def later kid1 ..
  have "inst_slot s2 n ` {0..<0 + ?k} = set ss"
  proof -
    have "inst_slot s2 n m = inst_slot s1 n m" for m by (simp add: inst_slot_def later)
    then have "inst_slot s2 n ` {0..<0 + ?k} = (!) ss ` {0..<length ss}"
      using c(3,7) by (intro image_cong) auto
    then show ?thesis by (simp add: nth_image)
  qed
  moreover have "nd_kernel_id (node_of s2 n) = ?kid" unfolding later kid1 ..
  ultimately have "ids_freed ?kid (set ss) (inst_ids s1)
      (inst_ids (fst (ownTargetNodeDescNodeDelete cb s2 n)))"
    using delete_loop_frees [OF cb, of s2 n 0 ?k VX_SUCCESS] pre(4) later(2) del by simp
  then have "inst_ids (fst (ownTargetNodeDescNodeDelete cb s2 n)) = inst_ids s"
    using c(1,4,6) by (intro nth_equalityI) (auto simp: ids_freed_def)
  with c(3,4,5) found show ?thesis by blast
qed

text \<open>C25: when the creation of a node fails, for want of an instance or because a kernel's create
  function fails, it gives back every instance it took, provided that no entry left over in the
  node's index array names an instance of the same kernel.\<close>

theorem node_create_fails_clean:
  assumes cb: "kernels_keep_tables cb" and s: "creatable s n"
    and stale: "\<forall>i < replica_count16 (node_of s n). node_instance s n i = None"
    and create: "ownTargetNodeDescNodeCreate cb s n = (s', st)" "st \<noteq> VX_SUCCESS"
  shows "inst_ids s' = inst_ids s \<and> sys_targets s' = sys_targets s"
proof -
  let ?kid = "nd_kernel_id (node_of s n)" and ?k = "replica_count16 (node_of s n)"
  let ?clean = "\<lambda>s1 cnt. foldl (\<lambda>s i. case node_instance s n i of None \<Rightarrow> s
                        | Some j \<Rightarrow> free_instance s (Some j)) s1 [0..<cnt]"
  obtain s1 cnt nm where loop: "create_loop cb ?k 0 s n (nd_is_prm_replicated (node_of s n)) nm
      = (s1, cnt, st)" and s': "s' = ?clean s1 cnt"
    using create by (rule_tac node_create_split [of cb s n]) (auto split: if_splits)
  have pre: "n < num_entries (sys_tbl s)" "0 + ?k \<le> length (nd_target_kernel_index (node_of s n))"
    "length (sys_instances s) \<le> 2 ^ 16" "?kid \<noteq> TIVX_TARGET_KERNEL_ID_INVALID"
    using s by (simp_all add: creatable_def)
  obtain ss xs where c: "length (inst_ids s1) = length (inst_ids s)" "sys_targets s1 = sys_targets s"
    "node_of s1 n = (node_of s n)\<lparr>nd_target_kernel_index := xs\<rparr>" "length ss < ?k"
    "cnt = Suc (length ss)"
    "inst_slot s1 n (length ss) = inst_slot s n (length ss)
     \<or> inst_slot s1 n (length ss) \<in> set ss
     \<or> inst_slot s1 n (length ss) < length (inst_ids s)
       \<and> inst_ids s ! inst_slot s1 n (length ss) = TIVX_TARGET_KERNEL_ID_INVALID"
    "\<forall>j \<in> set ss. j < length (inst_ids s) \<and> inst_ids s ! j = TIVX_TARGET_KERNEL_ID_INVALID"
    "\<forall>j < length (inst_ids s). inst_ids s1 ! j
         = (if j \<in> set ss then ?kid else inst_ids s ! j)"
    "\<forall>m < length ss. inst_slot s1 n (0 + m) = ss ! m"
    using create_loop_slots [OF cb loop pre] create(2) by auto
  have kid1: "nd_kernel_id (node_of s1 n) = ?kid" unfolding c(3) by simp
  note fr = cleanup_frees [of s1 n "[0..<cnt]", unfolded kid1, OF pre(4)]
  have slots: "inst_slot s1 n ` set [0..<cnt] = insert (inst_slot s1 n (length ss)) (set ss)"
  proof -
    have "inst_slot s1 n ` {0..<length ss} = (!) ss ` {0..<length ss}"
      using c(9) by (intro image_cong) auto
    then have "inst_slot s1 n ` {0..<length ss} = set ss" by (simp add: nth_image)
    moreover have "set [0..<cnt] = insert (length ss) {0..<length ss}" using c(5) by auto
    ultimately show ?thesis by simp
  qed
  have last: "inst_ids s ! j \<noteq> ?kid"
    if "j < length (inst_ids s)" "j = inst_slot s1 n (length ss)" "j \<notin> set ss" for j
    using c(6) that stale c(4) pre(4) by (auto simp: node_instance_slot split: if_splits)
  have "ids_freed ?kid (insert (inst_slot s1 n (length ss)) (set ss)) (inst_ids s1) (inst_ids s')"
    using fr unfolding slots s' by simp
  then have "inst_ids s' = inst_ids s"
    using c(1,7,8) last by (intro nth_equalityI) (auto simp: ids_freed_def)
  moreover have "sys_targets s' = sys_targets s" using fr c(2) unfolding s' by simp
  ultimately show ?thesis by simp
qed

text \<open>A CPU with one kernel, on which descriptor 0 is a node of that kernel whose index array is
  filled with \<open>idx\<close>, and 1 is a command to create it.\<close>

definition cmd_sys :: "kernel_instances \<Rightarrow> uint32 \<Rightarrow> sys" where
  "cmd_sys insts idx = (sample_sys 0x100)\<lparr>
     sys_kernels := \<lparr>g_target_kernel_table = [sample_kernel], g_num_target_kernel = 1\<rparr>,
     sys_instances := insts,
     sys_tbl := \<lparr>odt_table_base =
       [pipe_desc 0 TIVX_OBJ_DESC_NODE (B_Node (zero_node\<lparr>nd_flags := 8, nd_kernel_id := 5,
          nd_target_id := 7, nd_kernel_name_obj_desc_id := 0xFFFF,
          nd_target_kernel_index := replicate 64 idx\<rparr>)),
        pipe_desc 1 TIVX_OBJ_DESC_CMD (B_Cmd (zero_cmd\<lparr>cmd_cmd_id := TIVX_CMD_NODE_CREATE,
          cmd_flags := TIVX_CMD_FLAG_SEND_ACK, cmd_src_target_id := 0x100,
          cmd_ack_event_handle := 42\<rparr>))],
       odt_last_alloc_index = 0\<rparr>\<rparr>"

definition busy_instances :: kernel_instances where
  "busy_instances = map (\<lambda>k. k\<lparr>ki_kernel_id := 5\<rparr>) sample_instances"

lemma cb_none_keeps: "kernels_keep_tables cb_none"
  by (simp add: kernels_keep_tables_def cb_none_def)

lemma cmd_sys_node:
  "node_of (cmd_sys insts idx) 0 = zero_node\<lparr>nd_flags := 8, nd_kernel_id := 5,
     nd_target_id := 7, nd_kernel_name_obj_desc_id := 0xFFFF,
     nd_target_kernel_index := replicate 64 idx\<rparr>"
  "num_entries (sys_tbl (cmd_sys insts idx)) = 2"
  "sys_instances (cmd_sys insts idx) = insts"
  "sys_kernels (cmd_sys insts idx)
     = \<lparr>g_target_kernel_table = [sample_kernel], g_num_target_kernel = 1\<rparr>"
  by (simp_all add: cmd_sys_def)

lemma cmd_sys_one: "replica_count16 (node_of (cmd_sys insts idx) 0) = Suc 0"
  unfolding cmd_sys_node replica_count16_def by (simp add: tivxFlagIsBitSet_def)

lemma cmd_sys_creatable: "length insts = 2 \<Longrightarrow> creatable (cmd_sys insts idx) 0"
  using cmd_sys_one [of insts idx] unfolding creatable_def cmd_sys_node by simp

lemma sample_instances_list:
  "length sample_instances = 2" "length busy_instances = 2"
  "map ki_kernel_id sample_instances = [0xFFFF, 0xFFFF]"
  "map ki_kernel_id busy_instances = [5, 5]"
  by (simp_all add: busy_instances_def sample_instances_def ownTargetKernelInstanceInit_def
      numeral_2_eq_2)

lemma sample_instances_nth:
  "i < 2 \<Longrightarrow> ki_kernel_id (sample_instances ! i) = 0xFFFF"
  "e \<in> set busy_instances \<Longrightarrow> ki_kernel_id e = 5"
  by (auto simp: busy_instances_def sample_instances_def ownTargetKernelInstanceInit_def)

lemma sample_kernel_found:
  "ownTargetKernelGet VX_SUCCESS \<lparr>g_target_kernel_table = [sample_kernel], g_num_target_kernel = 1\<rparr>
     5 nm 7 = (\<lparr>g_target_kernel_table = [sample_kernel], g_num_target_kernel = 1\<rparr>, Some 0)"
  by (simp add: ownTargetKernelGet_def kernel_matches_def sample_kernel_def)

lemma free_search:
  "first_index (\<lambda>e. ki_kernel_id e = TIVX_TARGET_KERNEL_ID_INVALID) sample_instances = Some 0"
  "first_index (\<lambda>e. ki_kernel_id e = TIVX_TARGET_KERNEL_ID_INVALID) busy_instances = None"
  by (simp_all add: first_index_some first_index_none sample_instances_nth sample_instances_list(1))

lemma cmd_sys_create_free:
  "snd (create_replica cb_none (cmd_sys sample_instances idx) 0 0 None 0) = VX_SUCCESS"
proof -
  let ?s = "cmd_sys sample_instances idx"
  obtain g tab r where al: "ownTargetKernelInstanceAlloc VX_SUCCESS VX_SUCCESS (sys_kernels ?s)
      (sys_instances ?s) 5 None 7 = (g, tab, r)" by (metis prod_cases3)
  then have al': "r = Some 0" "g = \<lparr>g_target_kernel_table = [sample_kernel], g_num_target_kernel = 1\<rparr>"
    "ki_kernel (tab ! 0) = Some 0" "ki_kernel_id (tab ! 0) = 5" "0 < length tab"
    unfolding cmd_sys_node
    by (auto simp: ownTargetKernelInstanceAlloc_def sample_kernel_found free_search
        sample_instances_list sample_instances_list(1) [THEN arg_cong [where f = "\<lambda>n. 0 < n"],
          unfolded length_greater_0_conv, simplified])
  let ?u = "\<lambda>nd. setup_instance nd 0 0 0 0 (?s\<lparr>sys_kernels := g, sys_instances := tab\<rparr>)"
  have "\<exists>k. instance_kernel (?u nd) (Some 0) = Some k \<and> tk_create_func k = 1" for nd
    using al'
    by (simp add: instance_kernel_def setup_instance_def Let_def
        tivxTargetKernelInstanceGetKernel_def sample_kernel_def)
  then have cr: "ownTargetKernelCreate cb_none (?u nd) (Some 0) ps k = (?u nd, VX_SUCCESS)"
    for nd ps k
    by (fastforce simp: ownTargetKernelCreate_def cb_none_def split: option.splits)
  have ids: "nd_kernel_id (node_of ?s 0) = 5" "nd_target_id (node_of ?s 0) = 7"
    unfolding cmd_sys_node by simp_all
  show ?thesis
    unfolding create_replica_def Let_def ids al by (simp add: al'(1,3) cr)
qed

lemma cmd_sys_name:
  "ownObjDescGet (sys_tbl (cmd_sys insts idx))
     (ucast (nd_kernel_name_obj_desc_id (node_of (cmd_sys insts idx) 0))) = None"
  unfolding cmd_sys_node by (simp add: ownObjDescGet_def cmd_sys_node)

lemma cmd_sys_create:
  "snd (ownTargetNodeDescNodeCreate cb_none (cmd_sys sample_instances idx) 0) = VX_SUCCESS"
  "create_loop cb_none (Suc 0) 0 (cmd_sys busy_instances idx) 0 0 None
     = (cmd_sys busy_instances idx, Suc 0, VX_ERROR_NO_RESOURCES)"
  "snd (ownTargetNodeDescNodeCreate cb_none (cmd_sys busy_instances idx) 0) = VX_ERROR_NO_RESOURCES"
proof -
  have m: "nd_is_prm_replicated (node_of (cmd_sys insts idx) 0) = 0" for insts
    unfolding cmd_sys_node by (simp add: zero_node_def)
  show "snd (ownTargetNodeDescNodeCreate cb_none (cmd_sys sample_instances idx) 0) = VX_SUCCESS"
    using cmd_sys_create_free [of idx]
    unfolding ownTargetNodeDescNodeCreate_def Let_def cmd_sys_one cmd_sys_name m
    by (auto split: prod.splits)
  have "ownTargetKernelInstanceAlloc VX_SUCCESS VX_SUCCESS (sys_kernels (cmd_sys busy_instances idx))
      (sys_instances (cmd_sys busy_instances idx)) 5 None 7
    = (sys_kernels (cmd_sys busy_instances idx), busy_instances, None)"
    unfolding cmd_sys_node
    by (simp add: ownTargetKernelInstanceAlloc_def sample_kernel_found free_search)
  then show loop: "create_loop cb_none (Suc 0) 0 (cmd_sys busy_instances idx) 0 0 None
     = (cmd_sys busy_instances idx, Suc 0, VX_ERROR_NO_RESOURCES)"
    by (simp add: create_replica_def Let_def cmd_sys_node zero_node_def)
  show "snd (ownTargetNodeDescNodeCreate cb_none (cmd_sys busy_instances idx) 0)
      = VX_ERROR_NO_RESOURCES"
    unfolding ownTargetNodeDescNodeCreate_def Let_def cmd_sys_one cmd_sys_name m
    using loop by simp
qed

theorem node_create_then_delete_witness:
  "\<exists>s1. ownTargetNodeDescNodeCreate cb_none (cmd_sys sample_instances 0) 0 = (s1, VX_SUCCESS)
    \<and> node_instance s1 0 0 \<noteq> None
    \<and> inst_ids (fst (ownTargetNodeDescNodeDelete cb_none s1 0)) = [0xFFFF, 0xFFFF]"
proof -
  let ?s = "cmd_sys sample_instances 0"
  obtain s1 where run: "ownTargetNodeDescNodeCreate cb_none ?s 0 = (s1, VX_SUCCESS)"
    using cmd_sys_create(1) by (metis prod.collapse)
  have ids: "inst_ids ?s = [0xFFFF, 0xFFFF]"
    by (simp add: inst_ids_def cmd_sys_node sample_instances_list)
  show ?thesis
    using node_create_then_delete [OF cb_none_keeps cmd_sys_creatable
        [OF sample_instances_list(1)] run refl refl] run ids cmd_sys_one
    by force
qed

theorem node_create_fails_clean_witness:
  "\<exists>s1. ownTargetNodeDescNodeCreate cb_none (cmd_sys busy_instances 0xFFFF) 0
      = (s1, VX_ERROR_NO_RESOURCES) \<and> inst_ids s1 = [5, 5]"
proof -
  let ?s = "cmd_sys busy_instances 0xFFFF"
  obtain s1 where run: "ownTargetNodeDescNodeCreate cb_none ?s 0 = (s1, VX_ERROR_NO_RESOURCES)"
    using cmd_sys_create(3) by (metis prod.collapse)
  have ids: "inst_ids ?s = [5, 5]"
    by (simp add: inst_ids_def cmd_sys_node sample_instances_list)
  have "inst_slot ?s 0 0 = 0xFFFF" unfolding inst_slot_def cmd_sys_node by simp
  then have stale: "\<forall>i < replica_count16 (node_of ?s 0). node_instance ?s 0 i = None"
    unfolding cmd_sys_one by (simp add: node_instance_slot cmd_sys_node sample_instances_list)
  show ?thesis
    using node_create_fails_clean [OF cb_none_keeps cmd_sys_creatable
        [OF sample_instances_list(2)] stale run] run ids
    by simp
qed

text \<open>The host fills the index array with zeros. When both instances are held by other nodes of the
  same kernel, the creation of a further node fails and frees instance 0, which is not its own.\<close>

lemma create_frees_foreign_instance:
  "inst_ids (cmd_sys busy_instances 0) = [5, 5]
   \<and> inst_ids (fst (ownTargetNodeDescNodeCreate cb_none (cmd_sys busy_instances 0) 0))
     = [TIVX_TARGET_KERNEL_ID_INVALID, 5]"
proof -
  let ?s = "cmd_sys busy_instances 0"
  have m: "nd_is_prm_replicated (node_of ?s 0) = 0"
    unfolding cmd_sys_node by (simp add: zero_node_def)
  have ids: "inst_ids ?s = [5, 5]"
    by (simp add: inst_ids_def cmd_sys_node sample_instances_list)
  have slot: "inst_slot ?s 0 0 = 0" "nd_kernel_id (node_of ?s 0) = 5"
    unfolding inst_slot_def cmd_sys_node by simp_all
  have "node_instance ?s 0 0 = Some 0"
    unfolding node_instance_slot slot using ids by simp
  then have "fst (ownTargetNodeDescNodeCreate cb_none ?s 0) = free_instance ?s (Some 0)"
    unfolding ownTargetNodeDescNodeCreate_def Let_def cmd_sys_one cmd_sys_name m
    using cmd_sys_create(2) by simp
  with ids show ?thesis by simp
qed

section \<open>Commands are acknowledged once\<close>

lemma send_command_frame:
  assumes cb: "kernels_keep_tables cb" and run: "ownTargetNodeSendCommand cb s c i n = (s', st)"
  shows "sys_tbl s' = sys_tbl s \<and> sys_targets s' = sys_targets s"
proof -
  have "sys_tbl (fst (cb_control cb f i c ps np pa s)) = sys_tbl s"
    "sys_targets (fst (cb_control cb f i c ps np pa s)) = sys_targets s" for f i c ps np pa s
    using cb unfolding kernels_keep_tables_def by blast+
  then have "sys_tbl (fst (ownTargetKernelControl cb s inst cm ps k)) = sys_tbl s"
    "sys_targets (fst (ownTargetKernelControl cb s inst cm ps k)) = sys_targets s" for inst cm ps k
    by (simp_all add: ownTargetKernelControl_def split: option.splits)
  then have "sys_tbl (fst (ownTargetNodeSendCommand cb s c i n)) = sys_tbl s"
    "sys_targets (fst (ownTargetNodeSendCommand cb s c i n)) = sys_targets s"
    by (simp_all add: ownTargetNodeSendCommand_def Let_def split: option.splits)
  with run show ?thesis by simp
qed

lemma control_loop_frame:
  "kernels_keep_tables cb \<Longrightarrow> control_loop cb k cnt s c n st = (s', st')
     \<Longrightarrow> sys_tbl s' = sys_tbl s \<and> sys_targets s' = sys_targets s"
proof (induction k arbitrary: cnt s st)
  case 0
  then show ?case by simp
next
  case (Suc k)
  obtain s1 st1 where r: "ownTargetNodeSendCommand cb s c cnt n = (s1, st1)" by fastforce
  note f = send_command_frame [OF Suc.prems(1) r]
  show ?case
  proof (cases "st1 = VX_SUCCESS")
    case True
    with Suc.prems r have "control_loop cb k (Suc cnt) s1 c n st1 = (s', st')" by simp
    from Suc.IH [OF Suc.prems(1) this] f show ?thesis by simp
  next
    case False
    with Suc.prems r f show ?thesis by simp
  qed
qed

lemma node_control_frame:
  assumes "kernels_keep_tables cb" "ownTargetNodeDescNodeControl cb s c n = (s', st)"
  shows "sys_tbl s' = sys_tbl s \<and> sys_targets s' = sys_targets s"
  using assms control_loop_frame [OF assms(1)] send_command_frame [OF assms(1)]
  by (auto simp: ownTargetNodeDescNodeControl_def Let_def split: if_splits)

lemma node_create_frame:
  assumes cb: "kernels_keep_tables cb" and s: "creatable s n"
    and create: "ownTargetNodeDescNodeCreate cb s n = (s', st)"
  shows "num_entries (sys_tbl s') = num_entries (sys_tbl s) \<and> sys_targets s' = sys_targets s
    \<and> (\<forall>i. i \<noteq> n \<longrightarrow> sys_desc s' i = sys_desc s i)"
proof -
  let ?kid = "nd_kernel_id (node_of s n)" and ?k = "replica_count16 (node_of s n)"
  have pre: "n < num_entries (sys_tbl s)" "0 + ?k \<le> length (nd_target_kernel_index (node_of s n))"
    "length (sys_instances s) \<le> 2 ^ 16" "?kid \<noteq> TIVX_TARGET_KERNEL_ID_INVALID"
    using s by (simp_all add: creatable_def)
  obtain s1 cnt st1 nm where loop: "create_loop cb ?k 0 s n (nd_is_prm_replicated (node_of s n)) nm
      = (s1, cnt, st1)" and eq: "ownTargetNodeDescNodeCreate cb s n = (if st1 \<noteq> VX_SUCCESS
       then (foldl (\<lambda>s i. case node_instance s n i of None \<Rightarrow> s
                        | Some j \<Rightarrow> free_instance s (Some j)) s1 [0..<cnt], st1)
       else (s1, st1))"
    by (rule node_create_split [of cb s n]) blast
  have "sys_targets s1 = sys_targets s \<and> num_entries (sys_tbl s1) = num_entries (sys_tbl s)
    \<and> (\<forall>i. i \<noteq> n \<longrightarrow> sys_desc s1 i = sys_desc s i) \<and> nd_kernel_id (node_of s1 n) = ?kid"
    using create_loop_slots [OF cb loop pre] by (elim exE conjE) simp
  then have c: "sys_targets s1 = sys_targets s" "num_entries (sys_tbl s1) = num_entries (sys_tbl s)"
    "\<forall>i. i \<noteq> n \<longrightarrow> sys_desc s1 i = sys_desc s i" "nd_kernel_id (node_of s1 n) = ?kid"
    by blast+
  note fr = cleanup_frees [of s1 n "[0..<cnt]", unfolded c(4), OF pre(4)]
  have "sys_tbl s' = sys_tbl s1 \<and> sys_targets s' = sys_targets s1"
    using create eq fr by (cases "st1 = VX_SUCCESS") auto
  with c show ?thesis by simp
qed

lemma node_command_frame:
  assumes cb: "kernels_keep_tables cb" and run: "node_command cb s c = (s', st)"
    and node: "ownObjDescGet (sys_tbl s) (cmd_obj_desc_id (cmd_of s c) ! 0) = Some n"
      "creatable s n" "n \<noteq> c"
  shows "sys_desc s' c = sys_desc s c \<and> num_entries (sys_tbl s') = num_entries (sys_tbl s)
    \<and> sys_targets s' = sys_targets s"
proof -
  have kid: "nd_kernel_id (node_of s n) \<noteq> TIVX_TARGET_KERNEL_ID_INVALID"
    using node(2) by (simp add: creatable_def)
  have del: "sys_tbl s1 = sys_tbl s \<and> sys_targets s1 = sys_targets s"
    if "ownTargetNodeDescNodeDelete cb s n = (s1, st1)" for s1 st1
    using delete_loop_frees [OF cb kid, of 0 "replica_count16 (node_of s n)" VX_SUCCESS] that
    by (simp add: ownTargetNodeDescNodeDelete_def)
  consider (create) "ownTargetNodeDescNodeCreate cb s n = (s', st)"
    | (delete) "ownTargetNodeDescNodeDelete cb s n = (s', st)"
    | (control) "ownTargetNodeDescNodeControl cb s c n = (s', st)" | (none) "s' = s"
    using run unfolding node_command_def Let_def node(1) by (simp split: if_splits)
  then show ?thesis
  proof cases
    case create
    with node_create_frame [OF cb node(2)] node(3) show ?thesis by simp
  next
    case delete
    with del show ?thesis by simp
  next
    case control
    with node_control_frame [OF cb] show ?thesis by simp
  qed simp
qed

text \<open>The host's side of a command: a descriptor that asks for an acknowledgement to a target of this
  CPU whose queue has room.\<close>

definition cmd_ready :: "platform \<Rightarrow> sys \<Rightarrow> nat \<Rightarrow> nat \<Rightarrow> bool" where
  "cmd_ready pl s c h \<longleftrightarrow> c < num_entries (sys_tbl s) \<and> (\<exists>k. od_body (sys_desc s c) = B_Cmd k)
     \<and> cmd_cmd_id (cmd_of s c)
         \<in> {TIVX_CMD_NODE_CREATE, TIVX_CMD_NODE_DELETE, TIVX_CMD_NODE_CONTROL}
     \<and> tivxFlagIsBitSet (cmd_flags (cmd_of s c)) TIVX_CMD_FLAG_SEND_ACK
     \<and> \<not> tivxFlagIsBitSet (cmd_flags (cmd_of s c)) TIVX_CMD_FLAG_IS_ACK
     \<and> ownTargetGetCpuId (cmd_src_target_id (cmd_of s c)) = pf_self_cpu_id pl
     \<and> target_ready s (cmd_src_target_id (cmd_of s c)) h"

lemma upd_cmd_at:
  assumes "c < num_entries (sys_tbl s)"
  shows "cmd_of (upd_cmd c f s) c = f (cmd_of s c)"
    "od_obj_desc_id (sys_desc (upd_cmd c f s) c) = od_obj_desc_id (sys_desc s c)"
    "num_entries (sys_tbl (upd_cmd c f s)) = num_entries (sys_tbl s)"
    "sys_targets (upd_cmd c f s) = sys_targets s" "sys_events (upd_cmd c f s) = sys_events s"
  using assms by (simp_all add: upd_cmd_def)

lemma target_ready_cong:
  "sys_targets s' = sys_targets s \<Longrightarrow> target_ready s' t h = target_ready s t h"
  "sys_targets s' = sys_targets s \<Longrightarrow> jobs s' h = jobs s h"
  by (simp_all add: target_ready_def ownTargetGetHandle_def jobs_def)

lemma queue_obj_desc_events [simp]:
  "sys_events (fst (ownTargetQueueObjDesc s t i)) = sys_events s"
  by (simp add: ownTargetQueueObjDesc_def split: option.splits prod.splits)



section \<open>Stopping a target\<close>

text \<open>With a job waiting the task does not sleep, whatever the time-out.\<close>

lemma queue_get_waiting:
  assumes "queue_inv q" "queue_elems q = x # xs"
  shows "\<exists>q'. tivxQueueGet posix_ok ws q t = Some (q', Some x, VX_SUCCESS) \<and> queue_inv q'
    \<and> queue_elems q' = xs \<and> queue_cap q' = queue_cap q"
proof -
  have pos: "0 < q_count q" using queue_nonempty [of q] assms(2) by simp
  obtain q' where "osq_get q = (q', Some x, VX_SUCCESS)" "queue_inv q'" "queue_elems q' = xs"
    "queue_cap q' = queue_cap q" using osq.get_ok [OF assms] by blast
  moreover have "tivxQueueGet posix_ok ws q t = Some (osq_get q)"
    using assms(1) pos by (simp add: osq_get_eq tivxQueueGet_def get_loop_some posix_ok_def queue_inv_def)
  ultimately show ?thesis by simp
qed

lemma dequeue_obj_desc_waiting:
  assumes "queue_inv (tgt_job_queue (sys_targets s ! h))" "jobs s h = x # xs"
    "h < length (sys_targets s)"
  shows "\<exists>q. ownTargetDequeueObjDesc ws s h t = Some (s\<lparr>sys_targets := (sys_targets s)
       [h := (sys_targets s ! h)\<lparr>tgt_job_queue := q\<rparr>]\<rparr>, ucast x, VX_SUCCESS)
     \<and> queue_inv q \<and> queue_elems q = xs"
  using queue_get_waiting [OF assms(1) assms(2) [unfolded jobs_def], of ws t]
  by (auto simp: ownTargetDequeueObjDesc_def)

lemma task_main_leaves:
  assumes "tgt_exit_request (sys_targets s ! h)"
  shows "ownTargetTaskMain pl cb ho wss s h = Some (s\<lparr>sys_targets := (sys_targets s)
    [h := (sys_targets s ! h)\<lparr>tgt_exit_done := True\<rparr>]\<rparr>)"
  using assms by (cases wss) (simp_all add: task_turn_def)

text \<open>C34: deleting a target whose queue is empty comes to an end, whether its task was asleep or
  about to look for work: the task leaves its loop, the queue is deleted, the target can no longer
  be found, and neither the descriptors nor the other targets change.\<close>

theorem target_delete_stops:
  assumes ready: "target_ready s tid h" and idle: "jobs s h = []"
    and tid: "tid \<noteq> TIVX_TARGET_ID_INVALID" and tbl: "num_entries (sys_tbl s) \<le> 0xFFFF"
  shows "\<exists>po' s'. ownTargetDelete rc pl cb ho asleep wss po s tid = Some (po', s', VX_SUCCESS)
    \<and> ownTargetGetHandle s' tid = None \<and> sys_tbl s' = sys_tbl s
    \<and> tgt_exit_done (sys_targets s' ! h)
    \<and> (\<forall>k. k \<noteq> h \<longrightarrow> sys_targets s' ! k = sys_targets s ! k)"
proof -
  let ?T = "sys_targets s" and ?t = "(sys_targets s ! h)\<lparr>tgt_exit_request := True\<rparr>"
  have h: "ownTargetGetHandle s tid = Some h" "h = unat (TIVX_GET_TARGET_INST tid)"
    "h < length ?T" "tgt_target_id (?T ! h) = tid"
    using ready by (auto simp: target_ready_def get_handle_some)
  obtain q where put: "osq_put (tgt_job_queue (?T ! h)) (ucast TIVX_OBJ_DESC_INVALID)
      = (q, VX_SUCCESS)" "queue_inv q" "queue_elems q = [ucast TIVX_OBJ_DESC_INVALID]"
    using osq.put_ok [of "tgt_job_queue (?T ! h)" "ucast TIVX_OBJ_DESC_INVALID"] ready idle
    by (auto simp: target_ready_def jobs_def)
  let ?s0 = "s\<lparr>sys_targets := ?T[h := ?t]\<rparr>"
  let ?s1 = "s\<lparr>sys_targets := ?T[h := ?t\<lparr>tgt_job_queue := q\<rparr>]\<rparr>"
  have "ownTargetGetHandle ?s0 tid = Some h" using h by (simp add: get_handle_some)
  then have req: "delete_request s tid = (?s1, VX_SUCCESS)"
    using h put(1) by (simp add: delete_request_def ownTargetQueueObjDesc_def)
  have "\<exists>q'. task_rest pl cb ho asleep wss ?s1 h = Some (s\<lparr>sys_targets :=
      ?T[h := ?t\<lparr>tgt_job_queue := q', tgt_exit_done := True\<rparr>]\<rparr>)"
  proof (cases asleep)
    case False
    then show ?thesis
      using task_main_leaves [of ?s1 h pl cb ho wss] h(3) by (auto simp: task_rest_def)
  next
    case True
    have j1: "queue_inv (tgt_job_queue (sys_targets ?s1 ! h))"
      "jobs ?s1 h = [ucast TIVX_OBJ_DESC_INVALID]" "h < length (sys_targets ?s1)"
      using h(3) put by (simp_all add: jobs_def)
    let ?s2 = "\<lambda>q'. s\<lparr>sys_targets := ?T[h := ?t\<lparr>tgt_job_queue := q'\<rparr>]\<rparr>"
    obtain q' where deq: "ownTargetDequeueObjDesc [] ?s1 h VX_TIMEOUT_WAIT_FOREVER
        = Some (?s2 q', TIVX_OBJ_DESC_INVALID, VX_SUCCESS)"
      using dequeue_obj_desc_waiting [OF j1, of "[]" VX_TIMEOUT_WAIT_FOREVER] h(3) by auto
    have "task_job pl cb ho (?s2 q') TIVX_OBJ_DESC_INVALID VX_SUCCESS = ?s2 q'"
      using tbl by (simp add: task_job_def ownObjDescGet_def)
    with deq True task_main_leaves [of "?s2 q'" h pl cb ho wss] h(3) show ?thesis
      by (auto simp: task_rest_def)
  qed
  then obtain q' where rest: "task_rest pl cb ho asleep wss ?s1 h = Some (s\<lparr>sys_targets :=
      ?T[h := ?t\<lparr>tgt_job_queue := q', tgt_exit_done := True\<rparr>]\<rparr>)" by blast
  obtain po1 q2 st2 where del: "tivxQueueDelete rc po q' = (po1, q2, st2)" by (metis prod_cases3)
  let ?s3 = "s\<lparr>sys_targets := ?T[h := ?t\<lparr>tgt_job_queue := q2, tgt_exit_done := True,
      tgt_target_id := TIVX_TARGET_ID_INVALID\<rparr>]\<rparr>"
  have comm: "t\<lparr>tgt_exit_done := True, tgt_job_queue := q2\<rparr>
      = t\<lparr>tgt_job_queue := q2, tgt_exit_done := True\<rparr>" for t :: tivx_target by simp
  have "ownTargetDelete rc pl cb ho asleep wss po s tid = Some (po1, ?s3, VX_SUCCESS)"
    using h(1,3) req rest del
    by (simp add: ownTargetDelete_def delete_finish_def ownTargetFreeHandle_def comm)
  moreover have "ownTargetGetHandle ?s3 tid = None"
    using h(2,3) tid by (simp add: ownTargetGetHandle_def)
  ultimately show ?thesis using h(3) by simp
qed

theorem target_delete_stops_witness:
  "\<exists>po' s'. ownTargetDelete posix_ok sample_platform cb_none True True []
      \<lparr>isEventUse = [], isMutexUse = [], isQueueUse = [True], isTaskUse = [],
       objects_lock = Some 0\<rparr> (sample_sys 0x200) 0x200 = Some (po', s', VX_SUCCESS)
    \<and> ownTargetGetHandle s' 0x200 = None"
proof -
  have "jobs (sample_sys 0x200) 0 = []"
    by (simp add: jobs_def sample_sys_def queue_elems_def sample_queue_def init_queue_def)
  moreover have "num_entries (sys_tbl (sample_sys 0x200)) \<le> 0xFFFF"
    by (simp add: sample_sys_def sample_table_def)
  ultimately show ?thesis
    using target_delete_stops [OF sample_sys_ready, of posix_ok sample_platform cb_none True True
        "[]" "\<lparr>isEventUse = [], isMutexUse = [], isQueueUse = [True], isTaskUse = [],
         objects_lock = Some 0\<rparr>"] by auto
qed

end
