(* ===== verification/Object_Pools.thy ===== *)
theory Object_Pools
  imports Posix_Objects
begin

text \<open>
  The static pools from which the framework takes its objects, \<open>source/framework/vx_objects.c\<close>: one
  array of objects and one array of use flags for each type of object. An object is named by its
  address; where the compiler puts the arrays and how large the objects are is part of the state.
  The pools are shown to implement a set of live objects: what is taken was free, and only what is
  live can be given back.
\<close>

section \<open>Types of objects\<close>

abbreviation (input) VX_TYPE_CONTEXT :: vx_enum where "VX_TYPE_CONTEXT \<equiv> 0x801"
abbreviation (input) VX_TYPE_GRAPH :: vx_enum where "VX_TYPE_GRAPH \<equiv> 0x802"
abbreviation (input) VX_TYPE_NODE :: vx_enum where "VX_TYPE_NODE \<equiv> 0x803"
abbreviation (input) VX_TYPE_KERNEL :: vx_enum where "VX_TYPE_KERNEL \<equiv> 0x804"
abbreviation (input) VX_TYPE_PARAMETER :: vx_enum where "VX_TYPE_PARAMETER \<equiv> 0x805"
abbreviation (input) VX_TYPE_DELAY :: vx_enum where "VX_TYPE_DELAY \<equiv> 0x806"
abbreviation (input) VX_TYPE_LUT :: vx_enum where "VX_TYPE_LUT \<equiv> 0x807"
abbreviation (input) VX_TYPE_DISTRIBUTION :: vx_enum where "VX_TYPE_DISTRIBUTION \<equiv> 0x808"
abbreviation (input) VX_TYPE_PYRAMID :: vx_enum where "VX_TYPE_PYRAMID \<equiv> 0x809"
abbreviation (input) VX_TYPE_THRESHOLD :: vx_enum where "VX_TYPE_THRESHOLD \<equiv> 0x80A"
abbreviation (input) VX_TYPE_MATRIX :: vx_enum where "VX_TYPE_MATRIX \<equiv> 0x80B"
abbreviation (input) VX_TYPE_CONVOLUTION :: vx_enum where "VX_TYPE_CONVOLUTION \<equiv> 0x80C"
abbreviation (input) VX_TYPE_SCALAR :: vx_enum where "VX_TYPE_SCALAR \<equiv> 0x80D"
abbreviation (input) VX_TYPE_ARRAY :: vx_enum where "VX_TYPE_ARRAY \<equiv> 0x80E"
abbreviation (input) VX_TYPE_IMAGE :: vx_enum where "VX_TYPE_IMAGE \<equiv> 0x80F"
abbreviation (input) VX_TYPE_REMAP :: vx_enum where "VX_TYPE_REMAP \<equiv> 0x810"
abbreviation (input) VX_TYPE_ERROR :: vx_enum where "VX_TYPE_ERROR \<equiv> 0x811"
abbreviation (input) VX_TYPE_META_FORMAT :: vx_enum where "VX_TYPE_META_FORMAT \<equiv> 0x812"
abbreviation (input) VX_TYPE_OBJECT_ARRAY :: vx_enum where "VX_TYPE_OBJECT_ARRAY \<equiv> 0x813"
abbreviation (input) VX_TYPE_TENSOR :: vx_enum where "VX_TYPE_TENSOR \<equiv> 0x815"
abbreviation (input) VX_TYPE_USER_DATA_OBJECT :: vx_enum where "VX_TYPE_USER_DATA_OBJECT \<equiv> 0x816"
abbreviation (input) TIVX_TYPE_DATA_REF_Q :: vx_enum where "TIVX_TYPE_DATA_REF_Q \<equiv> 0xC00"
abbreviation (input) TIVX_TYPE_RAW_IMAGE :: vx_enum where "TIVX_TYPE_RAW_IMAGE \<equiv> 0x817"

text \<open>The types with a pool, in the order of \<open>ownObjectInit\<close>.\<close>

definition object_types :: "vx_enum list" where
  "object_types = [VX_TYPE_META_FORMAT, VX_TYPE_CONTEXT, VX_TYPE_GRAPH, VX_TYPE_NODE, VX_TYPE_KERNEL,
     VX_TYPE_ARRAY, VX_TYPE_USER_DATA_OBJECT, TIVX_TYPE_RAW_IMAGE, VX_TYPE_CONVOLUTION, VX_TYPE_DELAY,
     VX_TYPE_DISTRIBUTION, VX_TYPE_IMAGE, VX_TYPE_TENSOR, VX_TYPE_LUT, VX_TYPE_MATRIX, VX_TYPE_PYRAMID,
     VX_TYPE_REMAP, VX_TYPE_SCALAR, VX_TYPE_THRESHOLD, VX_TYPE_ERROR, VX_TYPE_OBJECT_ARRAY,
     VX_TYPE_PARAMETER, TIVX_TYPE_DATA_REF_Q]"

record object_pool =
  op_start :: uintptr
  op_size :: uint32
  op_inUse :: "bool list"

record tivx_objects =
  ob_lock :: "nat option"
  ob_pools :: "vx_enum \<Rightarrow> object_pool"

definition set_inUse :: "vx_enum \<Rightarrow> bool list \<Rightarrow> tivx_objects \<Rightarrow> tivx_objects" where
  "set_inUse ty us ob = ob\<lparr>ob_pools := (ob_pools ob)(ty := (ob_pools ob ty)\<lparr>op_inUse := us\<rparr>)\<rparr>"

section \<open>Operations\<close>

text \<open>The search loops, with the address of the entry they look at; 0 is the null pointer.\<close>

fun ownAllocObject :: "uintptr \<Rightarrow> uint32 \<Rightarrow> bool list \<Rightarrow> bool list \<times> uintptr" where
  "ownAllocObject obj_start_ptr obj_size [] = ([], 0)"
| "ownAllocObject obj_start_ptr obj_size (u # us) =
     (if \<not> u then (True # us, obj_start_ptr)
      else (case ownAllocObject (obj_start_ptr + ucast obj_size) obj_size us of (us', p) \<Rightarrow> (u # us', p)))"

fun ownFreeObject :: "uintptr \<Rightarrow> uintptr \<Rightarrow> uint32 \<Rightarrow> bool list \<Rightarrow> bool list \<times> vx_status" where
  "ownFreeObject obj_ptr obj_start_ptr obj_size [] = ([], VX_FAILURE)"
| "ownFreeObject obj_ptr obj_start_ptr obj_size (u # us) =
     (if obj_ptr = obj_start_ptr \<and> u then (False # us, VX_SUCCESS)
      else (case ownFreeObject obj_ptr (obj_start_ptr + ucast obj_size) obj_size us of
              (us', st) \<Rightarrow> (u # us', st)))"

definition ownObjectInit :: "posix_rc \<Rightarrow> posix_objects \<Rightarrow> tivx_objects \<Rightarrow>
    posix_objects \<times> tivx_objects \<times> vx_status" where
  "ownObjectInit rc po ob =
     (case tivxMutexCreate rc po of
        (po1, m, status) \<Rightarrow>
          (let ob1 = ob\<lparr>ob_lock := m\<rparr> in
           if status = VX_SUCCESS
           then (po1, foldl (\<lambda>b ty. set_inUse ty (ownInitUseFlag (op_inUse (ob_pools b ty))) b)
                        ob1 object_types, status)
           else (po1, ob1, status)))"

text \<open>\<open>ownObjectDeInit\<close> does not check the pools of object arrays and parameters, and each check
  overwrites the status of the one before.\<close>

definition ownObjectDeInit :: "posix_rc \<Rightarrow> posix_objects \<Rightarrow> tivx_objects \<Rightarrow>
    posix_objects \<times> tivx_objects \<times> vx_status" where
  "ownObjectDeInit rc po ob =
     (case tivxMutexDelete rc po (ob_lock ob) of
        (po1, m, status) \<Rightarrow>
          (po1, ob\<lparr>ob_lock := m\<rparr>,
           if status = VX_SUCCESS
           then foldl (\<lambda>_ ty. fst (ownCheckUseFlag (op_inUse (ob_pools ob ty)))) status
                  (filter (\<lambda>ty. ty \<noteq> VX_TYPE_OBJECT_ARRAY \<and> ty \<noteq> VX_TYPE_PARAMETER) object_types)
           else status))"

definition ownObjectAlloc :: "posix_rc \<Rightarrow> tivx_objects \<Rightarrow> vx_enum \<Rightarrow> tivx_objects \<times> uintptr" where
  "ownObjectAlloc rc ob type =
     (if tivxMutexLock (rc_mutex_lock rc) (ob_lock ob) = VX_SUCCESS \<and> type \<in> set object_types
      then (let p = ob_pools ob type in
            case ownAllocObject (op_start p) (op_size p) (op_inUse p) of
              (us, ref) \<Rightarrow> (set_inUse type us ob, ref))
      else (ob, 0))"

text \<open>\<open>ownObjectFree\<close> of an object whose field \<open>type\<close> is given.\<close>

definition ownObjectFree ::
  "posix_rc \<Rightarrow> tivx_objects \<Rightarrow> uintptr \<Rightarrow> vx_enum \<Rightarrow> tivx_objects \<times> vx_status" where
  "ownObjectFree rc ob ref type =
     (if ref = 0 then (ob, VX_FAILURE)
      else (let status = tivxMutexLock (rc_mutex_lock rc) (ob_lock ob) in
        if status = VX_SUCCESS then
          (if type \<in> set object_types
           then (let p = ob_pools ob type in
                 case ownFreeObject ref (op_start p) (op_size p) (op_inUse p) of
                   (us, st) \<Rightarrow> (set_inUse type us ob, st))
           else (ob, VX_ERROR_INVALID_REFERENCE))
        else (ob, status)))"

section \<open>A pool is a set of live objects\<close>

definition pool_addr :: "object_pool \<Rightarrow> nat \<Rightarrow> uintptr" where
  "pool_addr p i = op_start p + of_nat i * ucast (op_size p)"

text \<open>The array lies in memory: it does not start at 0, its entries have a size and it does not wrap
  around the address space.\<close>

definition pool_ok :: "object_pool \<Rightarrow> bool" where
  "pool_ok p \<longleftrightarrow> op_start p \<noteq> 0 \<and> op_size p \<noteq> 0
     \<and> unat (op_start p) + length (op_inUse p) * unat (op_size p) < 2 ^ 64"

definition live :: "object_pool \<Rightarrow> uintptr set" where
  "live p = {pool_addr p i |i. i < length (op_inUse p) \<and> op_inUse p ! i}"

lemma unat_of_nat_ptr: "n < 2 ^ 64 \<Longrightarrow> unat (of_nat n :: uintptr) = n"
  by (simp add: unat_of_nat)

lemma unat_pool_addr:
  assumes "pool_ok p" "i < length (op_inUse p)"
  shows "unat (pool_addr p i) = unat (op_start p) + i * unat (op_size p)"
proof -
  have "i * unat (op_size p) \<le> length (op_inUse p) * unat (op_size p)" using assms(2) by simp
  then have "unat (op_start p) + i * unat (op_size p) < 2 ^ 64"
    using assms(1) unfolding pool_ok_def by linarith
  moreover have "pool_addr p i = of_nat (unat (op_start p) + i * unat (op_size p))"
    by (simp add: pool_addr_def of_nat_unat)
  ultimately show ?thesis using unat_of_nat_ptr by metis
qed

lemma pool_addr_inj:
  assumes "pool_ok p" "i < length (op_inUse p)" "j < length (op_inUse p)" "pool_addr p i = pool_addr p j"
  shows "i = j"
proof -
  have "i * unat (op_size p) = j * unat (op_size p)"
    using assms unat_pool_addr [OF assms(1)] by (metis add_left_cancel)
  then show ?thesis using assms(1) by (simp add: pool_ok_def unat_eq_0)
qed

lemma pool_addr_nonzero:
  assumes "pool_ok p" "i < length (op_inUse p)" shows "pool_addr p i \<noteq> 0"
  using unat_pool_addr [OF assms] assms(1) by (auto simp: pool_ok_def unat_eq_0 dest: arg_cong [where f = unat])

lemma pool_addr_set [simp]: "pool_addr (p\<lparr>op_inUse := us\<rparr>) = pool_addr p"
  by (simp add: fun_eq_iff pool_addr_def)

lemma pool_ok_set: "pool_ok p \<Longrightarrow> length us = length (op_inUse p) \<Longrightarrow> pool_ok (p\<lparr>op_inUse := us\<rparr>)"
  by (simp add: pool_ok_def)

lemma alloc_object_loop:
  "(\<exists>k. k < length us \<and> \<not> us ! k \<and> (\<forall>j < k. us ! j)
      \<and> ownAllocObject a s us = (us[k := True], a + of_nat k * ucast s))
   \<or> ((\<forall>j < length us. us ! j) \<and> ownAllocObject a s us = (us, 0))"
proof (induction us arbitrary: a)
  case Nil
  then show ?case by simp
next
  case (Cons u us)
  show ?case
  proof (cases u)
    case False
    then show ?thesis by (intro disjI1 exI [of _ 0]) simp
  next
    case True
    from Cons.IH [of "a + ucast s"] show ?thesis
    proof (elim disjE exE conjE)
      fix k assume k: "k < length us" "\<not> us ! k" "\<forall>j < k. us ! j"
        "ownAllocObject (a + ucast s) s us = (us[k := True], a + ucast s + of_nat k * ucast s)"
      have "\<forall>j < Suc k. (u # us) ! j" using True k(3) by (auto simp: nth_Cons split: nat.splits)
      with True k show ?thesis
        by (intro disjI1 exI [of _ "Suc k"]) (simp add: algebra_simps)
    next
      assume "\<forall>j < length us. us ! j" "ownAllocObject (a + ucast s) s us = (us, 0)"
      with True show ?thesis by (intro disjI2) (auto simp: nth_Cons split: nat.splits)
    qed
  qed
qed

lemma free_object_loop:
  "(\<exists>k. k < length us \<and> us ! k \<and> r = a + of_nat k * ucast s
      \<and> ownFreeObject r a s us = (us[k := False], VX_SUCCESS))
   \<or> ((\<forall>j < length us. us ! j \<longrightarrow> r \<noteq> a + of_nat j * ucast s)
      \<and> ownFreeObject r a s us = (us, VX_FAILURE))"
proof (induction us arbitrary: a)
  case Nil
  then show ?case by simp
next
  case (Cons u us)
  show ?case
  proof (cases "r = a \<and> u")
    case True
    then show ?thesis by (intro disjI1 exI [of _ 0]) simp
  next
    case False
    from Cons.IH [of "a + ucast s"] show ?thesis
    proof (elim disjE exE conjE)
      fix k assume k: "k < length us" "us ! k" "r = a + ucast s + of_nat k * ucast s"
        "ownFreeObject r (a + ucast s) s us = (us[k := False], VX_SUCCESS)"
      with False show ?thesis
        by (intro disjI1 exI [of _ "Suc k"]) (simp add: algebra_simps)
    next
      assume "\<forall>j < length us. us ! j \<longrightarrow> r \<noteq> a + ucast s + of_nat j * ucast s"
        "ownFreeObject r (a + ucast s) s us = (us, VX_FAILURE)"
      with False show ?thesis
        by (intro disjI2) (auto simp: nth_Cons algebra_simps split: nat.splits)
    qed
  qed
qed

lemma live_set_True:
  "k < length (op_inUse p) \<Longrightarrow>
     live (p\<lparr>op_inUse := (op_inUse p)[k := True]\<rparr>) = insert (pool_addr p k) (live p)"
  by (auto simp: live_def nth_list_update split: if_splits)

lemma live_set_False:
  assumes "pool_ok p" "k < length (op_inUse p)"
  shows "live (p\<lparr>op_inUse := (op_inUse p)[k := False]\<rparr>) = live p - {pool_addr p k}"
proof -
  have eq: "(op_inUse p)[k := False] ! i \<longleftrightarrow> i \<noteq> k \<and> op_inUse p ! i" for i
    using assms(2) by (cases "i = k") auto
  have "pool_addr p i \<in> {pool_addr p j |j. j < length (op_inUse p) \<and> j \<noteq> k \<and> op_inUse p ! j}
      \<longleftrightarrow> i \<noteq> k \<and> op_inUse p ! i" if "i < length (op_inUse p)" for i
    using that pool_addr_inj [OF assms(1)] by blast
  then show ?thesis
    using pool_addr_inj [OF assms(1) _ assms(2)] unfolding live_def by (auto simp add: eq)
qed

lemma pool_alloc:
  assumes "pool_ok p" "ownAllocObject (op_start p) (op_size p) (op_inUse p) = (us, r)"
  shows "pool_ok (p\<lparr>op_inUse := us\<rparr>)"
    "r \<noteq> 0 \<Longrightarrow> r \<notin> live p \<and> live (p\<lparr>op_inUse := us\<rparr>) = insert r (live p)"
    "r = 0 \<Longrightarrow> us = op_inUse p \<and> (\<forall>i < length us. us ! i)"
proof -
  have "pool_ok (p\<lparr>op_inUse := us\<rparr>)
    \<and> (r \<noteq> 0 \<longrightarrow> r \<notin> live p \<and> live (p\<lparr>op_inUse := us\<rparr>) = insert r (live p))
    \<and> (r = 0 \<longrightarrow> us = op_inUse p \<and> (\<forall>i < length us. us ! i))"
    using alloc_object_loop [of "op_inUse p" "op_start p" "op_size p"]
  proof (elim disjE exE conjE)
    fix k assume k: "k < length (op_inUse p)" "\<not> op_inUse p ! k"
      "ownAllocObject (op_start p) (op_size p) (op_inUse p)
        = ((op_inUse p)[k := True], op_start p + of_nat k * ucast (op_size p))"
    have "r = pool_addr p k" "us = (op_inUse p)[k := True]"
      using k(3) assms(2) by (simp_all add: pool_addr_def)
    moreover have "pool_addr p k \<notin> live p"
      using pool_addr_inj [OF assms(1) k(1)] k(2) by (auto simp: live_def)
    ultimately show ?thesis
      using live_set_True [OF k(1)] pool_addr_nonzero [OF assms(1) k(1)] assms(1)
      by (simp add: pool_ok_set)
  qed (use assms in simp)
  then show "pool_ok (p\<lparr>op_inUse := us\<rparr>)"
    "r \<noteq> 0 \<Longrightarrow> r \<notin> live p \<and> live (p\<lparr>op_inUse := us\<rparr>) = insert r (live p)"
    "r = 0 \<Longrightarrow> us = op_inUse p \<and> (\<forall>i < length us. us ! i)" by blast+
qed

lemma pool_free:
  assumes "pool_ok p" "ownFreeObject r (op_start p) (op_size p) (op_inUse p) = (us, st)"
  shows "pool_ok (p\<lparr>op_inUse := us\<rparr>)"
    "st = (if r \<in> live p then VX_SUCCESS else VX_FAILURE)"
    "live (p\<lparr>op_inUse := us\<rparr>) = live p - {r}"
proof -
  have "pool_ok (p\<lparr>op_inUse := us\<rparr>) \<and> st = (if r \<in> live p then VX_SUCCESS else VX_FAILURE)
    \<and> live (p\<lparr>op_inUse := us\<rparr>) = live p - {r}"
    using free_object_loop [of "op_inUse p" r "op_start p" "op_size p"]
  proof (elim disjE exE conjE)
    fix k assume k: "k < length (op_inUse p)" "op_inUse p ! k"
      "r = op_start p + of_nat k * ucast (op_size p)"
      "ownFreeObject r (op_start p) (op_size p) (op_inUse p) = ((op_inUse p)[k := False], VX_SUCCESS)"
    have "r = pool_addr p k" "us = (op_inUse p)[k := False]" "st = VX_SUCCESS"
      using k(3,4) assms(2) by (simp_all add: pool_addr_def)
    moreover have "pool_addr p k \<in> live p" using k by (auto simp: live_def)
    ultimately show ?thesis
      using live_set_False [OF assms(1) k(1)] assms(1) by (simp add: pool_ok_set)
  next
    assume n: "\<forall>j < length (op_inUse p). op_inUse p ! j \<longrightarrow> r \<noteq> op_start p + of_nat j * ucast (op_size p)"
      "ownFreeObject r (op_start p) (op_size p) (op_inUse p) = (op_inUse p, VX_FAILURE)"
    have "r \<notin> live p" using n(1) by (auto simp: live_def pool_addr_def)
    then show ?thesis using n(2) assms by simp
  qed
  then show "pool_ok (p\<lparr>op_inUse := us\<rparr>)" "st = (if r \<in> live p then VX_SUCCESS else VX_FAILURE)"
    "live (p\<lparr>op_inUse := us\<rparr>) = live p - {r}" by blast+
qed

lemma length_alloc_object: "ownAllocObject a s us = (us', p) \<Longrightarrow> length us' = length us"
  by (induction us arbitrary: a us') (auto split: prod.splits if_splits)

lemma length_free_object: "ownFreeObject r a s us = (us', st) \<Longrightarrow> length us' = length us"
  by (induction us arbitrary: a us') (auto split: prod.splits if_splits)

text \<open>The addresses of the entries of a pool, in use or not.\<close>

definition slots :: "object_pool \<Rightarrow> uintptr set" where
  "slots p = pool_addr p ` {..<length (op_inUse p)}"

lemma live_slots: "live p \<subseteq> slots p"
  by (auto simp: live_def slots_def)

section \<open>The contract of an object store\<close>

text \<open>A client takes objects of a type and gives them back. A step of the client is an allocation with
  the object it got, or a release with whether it was accepted; \<open>held\<close> is what the client may think
  it holds after such steps.\<close>

datatype ('t, 'r) store_step = Took 't "'r option" | Gave 'r 't bool

fun held :: "('t \<Rightarrow> 'r set) \<Rightarrow> ('t, 'r) store_step list \<Rightarrow> 't \<Rightarrow> 'r set" where
  "held H [] = H"
| "held H (Took t None # es) = held H es"
| "held H (Took t (Some r) # es) = held (H(t := insert r (H t))) es"
| "held H (Gave r t ok # es) = held (H(t := H t - {r})) es"

text \<open>No object is handed out while it is held, and exactly what is held is accepted back.\<close>

fun steps_ok :: "('t \<Rightarrow> 'r set) \<Rightarrow> ('t, 'r) store_step list \<Rightarrow> bool" where
  "steps_ok H [] = True"
| "steps_ok H (Took t None # es) = steps_ok H es"
| "steps_ok H (Took t (Some r) # es) = (r \<notin> H t \<and> steps_ok (H(t := insert r (H t))) es)"
| "steps_ok H (Gave r t ok # es) = (ok = (r \<in> H t) \<and> steps_ok (H(t := H t - {r})) es)"

datatype ('t, 'r) store_call = Take 't | Give 'r 't

locale object_store =
  fixes alloc :: "'s \<Rightarrow> 't \<Rightarrow> 's \<times> 'r option"
    and give :: "'s \<Rightarrow> 'r \<Rightarrow> 't \<Rightarrow> 's \<times> bool"
    and lives :: "'s \<Rightarrow> 't \<Rightarrow> 'r set"
    and inv :: "'s \<Rightarrow> bool"
  assumes alloc_inv: "inv s \<Longrightarrow> alloc s t = (s', res) \<Longrightarrow> inv s'"
    and alloc_none: "inv s \<Longrightarrow> alloc s t = (s', None) \<Longrightarrow> lives s' = lives s"
    and alloc_some: "inv s \<Longrightarrow> alloc s t = (s', Some r) \<Longrightarrow>
          r \<notin> lives s t \<and> lives s' = (lives s)(t := insert r (lives s t))"
    and give_law: "inv s \<Longrightarrow> give s r t = (s', ok) \<Longrightarrow>
          inv s' \<and> ok = (r \<in> lives s t) \<and> lives s' = (lives s)(t := lives s t - {r})"
begin

fun store_run :: "'s \<Rightarrow> ('t, 'r) store_call list \<Rightarrow> 's \<times> ('t, 'r) store_step list" where
  "store_run s [] = (s, [])"
| "store_run s (Take t # cs) =
     (case alloc s t of (s1, r) \<Rightarrow> (case store_run s1 cs of (s2, es) \<Rightarrow> (s2, Took t r # es)))"
| "store_run s (Give r t # cs) =
     (case give s r t of (s1, ok) \<Rightarrow> (case store_run s1 cs of (s2, es) \<Rightarrow> (s2, Gave r t ok # es)))"

lemma store_run_ok:
  assumes "inv s" "store_run s cs = (s', es)"
  shows "inv s' \<and> lives s' = held (lives s) es \<and> steps_ok (lives s) es"
  using assms
proof (induction cs arbitrary: s es)
  case Nil
  then show ?case by simp
next
  case (Cons c cs)
  show ?case
  proof (cases c)
    case (Take t)
    obtain s1 r es' where s1: "alloc s t = (s1, r)" "store_run s1 cs = (s', es')" "es = Took t r # es'"
      using Cons.prems(2) Take by (auto split: prod.splits)
    note IH = Cons.IH [OF alloc_inv [OF Cons.prems(1) s1(1)] s1(2)]
    show ?thesis
    proof (cases r)
      case None
      then show ?thesis using IH s1 alloc_none [OF Cons.prems(1)] by simp
    next
      case (Some x)
      then have "x \<notin> lives s t" "lives s1 = (lives s)(t := insert x (lives s t))"
        using alloc_some [OF Cons.prems(1)] s1(1) by blast+
      then show ?thesis using IH s1(3) Some by (metis held.simps(3) steps_ok.simps(3))
    qed
  next
    case (Give r t)
    obtain s1 ok es' where s1: "give s r t = (s1, ok)" "store_run s1 cs = (s', es')" "es = Gave r t ok # es'"
      using Cons.prems(2) Give by (auto split: prod.splits)
    note g = give_law [OF Cons.prems(1) s1(1)]
    then have "lives s1 = (lives s)(t := lives s t - {r})" "ok = (r \<in> lives s t)" "inv s1" by blast+
    then show ?thesis using s1(3) Cons.IH [OF _ s1(2)] by (metis held.simps(4) steps_ok.simps(4))
  qed
qed

end

section \<open>The pools are an object store\<close>

definition objects_ok :: "tivx_objects \<Rightarrow> bool" where
  "objects_ok ob \<longleftrightarrow> ob_lock ob \<noteq> None \<and> (\<forall>ty \<in> set object_types. pool_ok (ob_pools ob ty))"

definition live_objects :: "tivx_objects \<Rightarrow> vx_enum \<Rightarrow> uintptr set" where
  "live_objects ob ty = (if ty \<in> set object_types then live (ob_pools ob ty) else {})"

definition take_object :: "tivx_objects \<Rightarrow> vx_enum \<Rightarrow> tivx_objects \<times> uintptr option" where
  "take_object ob ty =
     (case ownObjectAlloc posix_ok ob ty of (ob', r) \<Rightarrow> (ob', if r = 0 then None else Some r))"

definition give_object :: "tivx_objects \<Rightarrow> uintptr \<Rightarrow> vx_enum \<Rightarrow> tivx_objects \<times> bool" where
  "give_object ob r ty =
     (case ownObjectFree posix_ok ob r ty of (ob', st) \<Rightarrow> (ob', st = VX_SUCCESS))"

lemma set_inUse_ok:
  "objects_ok ob \<Longrightarrow> pool_ok ((ob_pools ob ty)\<lparr>op_inUse := us\<rparr>) \<Longrightarrow> objects_ok (set_inUse ty us ob)"
  by (simp add: objects_ok_def set_inUse_def)

lemma set_inUse_live:
  "live_objects (set_inUse ty us ob) = (live_objects ob)(ty := if ty \<in> set object_types
     then live ((ob_pools ob ty)\<lparr>op_inUse := us\<rparr>) else {})"
  by (auto simp: fun_eq_iff live_objects_def set_inUse_def)

lemma object_alloc:
  assumes "objects_ok ob" "rc_mutex_lock rc = 0" "ownObjectAlloc rc ob ty = (ob', r)"
  shows "objects_ok ob'" "r = 0 \<Longrightarrow> ob' = ob"
    "r \<noteq> 0 \<Longrightarrow> ty \<in> set object_types \<and> r \<notin> live_objects ob ty
       \<and> live_objects ob' = (live_objects ob)(ty := insert r (live_objects ob ty))"
proof -
  have "objects_ok ob' \<and> (r = 0 \<longrightarrow> ob' = ob) \<and> (r \<noteq> 0 \<longrightarrow> ty \<in> set object_types
     \<and> r \<notin> live_objects ob ty \<and> live_objects ob' = (live_objects ob)(ty := insert r (live_objects ob ty)))"
  proof (cases "ty \<in> set object_types")
    case True
    let ?p = "ob_pools ob ty"
    obtain us where us: "ownAllocObject (op_start ?p) (op_size ?p) (op_inUse ?p) = (us, r)"
      "ob' = set_inUse ty us ob"
      using assms True by (auto simp: ownObjectAlloc_def objects_ok_def Let_def split: prod.splits)
    have ok: "pool_ok ?p" using assms(1) True by (simp add: objects_ok_def)
    note pa = pool_alloc [OF ok us(1)]
    have "r = 0 \<Longrightarrow> ob' = ob" using pa(3) us(2) by (simp add: set_inUse_def)
    then show ?thesis
      using True us(2) pa set_inUse_ok [OF assms(1)] by (auto simp: set_inUse_live live_objects_def)
  next
    case False
    then show ?thesis using assms by (simp add: ownObjectAlloc_def)
  qed
  then show "objects_ok ob'" "r = 0 \<Longrightarrow> ob' = ob"
    "r \<noteq> 0 \<Longrightarrow> ty \<in> set object_types \<and> r \<notin> live_objects ob ty
       \<and> live_objects ob' = (live_objects ob)(ty := insert r (live_objects ob ty))" by blast+
qed

lemma object_alloc_full:
  assumes "objects_ok ob" "rc_mutex_lock rc = 0" "ty \<in> set object_types" "ownObjectAlloc rc ob ty = (ob', 0)"
  shows "\<forall>u \<in> set (op_inUse (ob_pools ob ty)). u"
proof -
  let ?p = "ob_pools ob ty"
  obtain us where us: "ownAllocObject (op_start ?p) (op_size ?p) (op_inUse ?p) = (us, 0)"
    using assms by (auto simp: ownObjectAlloc_def objects_ok_def Let_def split: prod.splits)
  have "pool_ok ?p" using assms(1,3) by (simp add: objects_ok_def)
  from pool_alloc(3) [OF this us] show ?thesis by (auto simp: in_set_conv_nth)
qed

lemma object_free:
  assumes "objects_ok ob" "rc_mutex_lock rc = 0" "r \<noteq> 0" "ownObjectFree rc ob r ty = (ob', st)"
  shows "objects_ok ob'" "st = VX_SUCCESS \<longleftrightarrow> r \<in> live_objects ob ty"
    "live_objects ob' = (live_objects ob)(ty := live_objects ob ty - {r})"
proof -
  have "objects_ok ob' \<and> (st = VX_SUCCESS \<longleftrightarrow> r \<in> live_objects ob ty)
    \<and> live_objects ob' = (live_objects ob)(ty := live_objects ob ty - {r})"
  proof (cases "ty \<in> set object_types")
    case True
    let ?p = "ob_pools ob ty"
    obtain us where us: "ownFreeObject r (op_start ?p) (op_size ?p) (op_inUse ?p) = (us, st)"
      "ob' = set_inUse ty us ob"
      using assms True by (auto simp: ownObjectFree_def objects_ok_def Let_def split: prod.splits)
    have ok: "pool_ok ?p" using assms(1) True by (simp add: objects_ok_def)
    note pf = pool_free [OF ok us(1)]
    have "live_objects ob' = (live_objects ob)(ty := live_objects ob ty - {r})"
      using True pf(3) us(2) by (simp add: set_inUse_live live_objects_def)
    moreover have "st = VX_SUCCESS \<longleftrightarrow> r \<in> live_objects ob ty"
      using True pf(2) by (simp add: live_objects_def)
    ultimately show ?thesis using us(2) pf(1) set_inUse_ok [OF assms(1)] by simp
  next
    case False
    then have "ob' = ob" "st \<noteq> VX_SUCCESS" "live_objects ob ty = {}"
      using assms by (auto simp: ownObjectFree_def objects_ok_def live_objects_def Let_def
          split: if_splits)
    then show ?thesis using assms(1) by (simp add: fun_upd_idem)
  qed
  then show "objects_ok ob'" "st = VX_SUCCESS \<longleftrightarrow> r \<in> live_objects ob ty"
    "live_objects ob' = (live_objects ob)(ty := live_objects ob ty - {r})" by blast+
qed

text \<open>No address belongs to two pools.\<close>

definition pools_apart :: "tivx_objects \<Rightarrow> bool" where
  "pools_apart ob \<longleftrightarrow> (\<forall>t \<in> set object_types. \<forall>t' \<in> set object_types. t \<noteq> t' \<longrightarrow>
     slots (ob_pools ob t) \<inter> slots (ob_pools ob t') = {})"

lemma slots_set_inUse:
  "length us = length (op_inUse (ob_pools ob ty)) \<Longrightarrow>
     slots (ob_pools (set_inUse ty us ob) t) = slots (ob_pools ob t)"
  by (simp add: set_inUse_def slots_def)

lemma slots_object_alloc:
  "ownObjectAlloc rc ob ty = (ob', r) \<Longrightarrow> slots (ob_pools ob' t) = slots (ob_pools ob t)"
  by (auto simp: ownObjectAlloc_def Let_def slots_set_inUse length_alloc_object split: prod.splits if_splits)

lemma slots_object_free:
  "ownObjectFree rc ob r ty = (ob', st) \<Longrightarrow> slots (ob_pools ob' t) = slots (ob_pools ob t)"
  by (auto simp: ownObjectFree_def Let_def slots_set_inUse length_free_object split: prod.splits if_splits)

lemma live_apart:
  assumes "pools_apart ob" "r \<in> live_objects ob t" "r \<in> live_objects ob t'" shows "t = t'"
  using assms live_slots by (fastforce simp: pools_apart_def live_objects_def split: if_splits)

lemma live_nonzero: "objects_ok ob \<Longrightarrow> r \<in> live_objects ob ty \<Longrightarrow> r \<noteq> 0"
  using pool_addr_nonzero
  by (auto simp: objects_ok_def live_objects_def live_def split: if_splits)

lemma posix_ok_lock [simp]: "rc_mutex_lock posix_ok = 0" "rc_mutex_unlock posix_ok = 0"
  by (simp_all add: posix_ok_def)

interpretation pools: object_store take_object give_object live_objects objects_ok
proof
  fix s s' t and res :: "uintptr option"
  assume s: "objects_ok s" "take_object s t = (s', res)"
  then obtain r where "ownObjectAlloc posix_ok s t = (s', r)"
    by (auto simp: take_object_def split: prod.splits)
  then show "objects_ok s'" using object_alloc(1) [OF s(1), of posix_ok] by simp
next
  fix s s' t assume "objects_ok s" "take_object s t = (s', None)"
  then show "live_objects s' = live_objects s"
    using object_alloc(2) [of s posix_ok t s']
    by (auto simp: take_object_def split: prod.splits if_splits)
next
  fix s s' t r assume s: "objects_ok s" "take_object s t = (s', Some r)"
  then have "ownObjectAlloc posix_ok s t = (s', r)" "r \<noteq> 0"
    by (auto simp: take_object_def split: prod.splits if_splits)
  then show "r \<notin> live_objects s t \<and> live_objects s' = (live_objects s)(t := insert r (live_objects s t))"
    using object_alloc(3) [OF s(1), of posix_ok] by simp
next
  fix s s' r t ok assume s: "objects_ok s" "give_object s r t = (s', ok)"
  show "objects_ok s' \<and> ok = (r \<in> live_objects s t)
    \<and> live_objects s' = (live_objects s)(t := live_objects s t - {r})"
  proof (cases "r = 0")
    case True
    then have "r \<notin> live_objects s t" using live_nonzero [OF s(1)] by blast
    moreover have "s' = s \<and> \<not> ok" using s(2) True by (auto simp: give_object_def ownObjectFree_def)
    ultimately show ?thesis using s(1) by (simp add: fun_upd_idem)
  next
    case False
    obtain st where "ownObjectFree posix_ok s r t = (s', st)" "ok = (st = VX_SUCCESS)"
      using s(2) by (auto simp: give_object_def split: prod.splits)
    then show ?thesis using object_free [OF s(1) _ False, of posix_ok] by simp
  qed
qed

section \<open>Properties\<close>

definition sample_objects :: tivx_objects where
  "sample_objects = \<lparr>ob_lock = Some 0,
     ob_pools = (\<lambda>ty. \<lparr>op_start = push_bit 20 (ucast ty), op_size = 0x100, op_inUse = [False, False]\<rparr>)\<rparr>"


lemma sample_objects_ok: "objects_ok sample_objects"
  by (simp add: objects_ok_def sample_objects_def object_types_def pool_ok_def)

definition sample_calls :: "(vx_enum, uintptr) store_call list" where
  "sample_calls = [Take VX_TYPE_GRAPH, Take VX_TYPE_GRAPH, Take VX_TYPE_GRAPH,
     Give 0x80200000 VX_TYPE_GRAPH, Give 0x80200000 VX_TYPE_GRAPH, Take VX_TYPE_GRAPH, Take VX_TYPE_IMAGE]"

definition sample_steps :: "(vx_enum, uintptr) store_step list" where
  "sample_steps = [Took VX_TYPE_GRAPH (Some 0x80200000), Took VX_TYPE_GRAPH (Some 0x80200100),
     Took VX_TYPE_GRAPH None, Gave 0x80200000 VX_TYPE_GRAPH True, Gave 0x80200000 VX_TYPE_GRAPH False,
     Took VX_TYPE_GRAPH (Some 0x80200000), Took VX_TYPE_IMAGE (Some 0x80F00000)]"

lemma sample_run: "snd (pools.store_run sample_objects sample_calls) = sample_steps"
  by (simp add: sample_calls_def sample_steps_def take_object_def give_object_def ownObjectAlloc_def
      ownObjectFree_def sample_objects_def object_types_def set_inUse_def Let_def tivxMutexLock_def)


end
