(* ===== verification/Os_Event.thy ===== *)
theory Os_Event
  imports Os_Queue
begin

text \<open>
  The event of the operating system layer, \<open>source/platform/common/os/posix/tivx_event.c\<close>: a flag with
  a condition variable. A wait takes the flag down again, so one post wakes one waiter and posts to a
  flag that is already up are not counted. As for the queues, what happens while a thread sleeps is an
  explicit argument, and a thread that sleeps for ever is the result \<open>None\<close>.
\<close>

section \<open>State\<close>

record tivx_event =
  evt_object :: nat
  evt_is_set :: bool
  evt_signals :: nat

abbreviation (input) ETIMEDOUT :: uint32 where "ETIMEDOUT \<equiv> 110"

section \<open>Operations\<close>

definition tivxEventCreate ::
  "posix_rc \<Rightarrow> posix_objects \<Rightarrow> posix_objects \<times> tivx_event option \<times> vx_status" where
  "tivxEventCreate rc po =
     (case ownPosixObjectAlloc rc po TYPE_EVENT of
        (po1, None) \<Rightarrow> (po1, None, VX_ERROR_NO_MEMORY)
      | (po1, Some i) \<Rightarrow>
         (let status = (((VX_SUCCESS OR rc_mutexattr_init rc) OR rc_condattr_init rc)
                          OR rc_mutex_init rc) OR rc_cond_init_get rc
          in if status \<noteq> 0
             then (fst (ownPosixObjectFree rc po1 (Some i) TYPE_EVENT), None, VX_ERROR_NO_MEMORY)
             else (po1, Some \<lparr>evt_object = i, evt_is_set = False, evt_signals = 0\<rparr>, status)))"

definition tivxEventDelete ::
  "posix_rc \<Rightarrow> posix_objects \<Rightarrow> tivx_event option \<Rightarrow> posix_objects \<times> tivx_event option \<times> vx_status" where
  "tivxEventDelete rc po event =
     (case event of
        None \<Rightarrow> (po, None, VX_FAILURE)
      | Some e \<Rightarrow> (fst (ownPosixObjectFree rc po (Some (evt_object e)) TYPE_EVENT), None, VX_SUCCESS))"

text \<open>\<open>sg\<close> is what \<open>pthread_cond_signal\<close> returns.\<close>

definition tivxEventPost ::
  "posix_rc \<Rightarrow> uint32 \<Rightarrow> tivx_event option \<Rightarrow> tivx_event option \<times> vx_status" where
  "tivxEventPost rc sg event =
     (case event of
        None \<Rightarrow> (None, VX_ERROR_INVALID_PARAMETERS)
      | Some e \<Rightarrow>
         if rc_mutex_lock rc = 0 then
           (Some (e\<lparr>evt_is_set := True, evt_signals := Suc (evt_signals e)\<rparr>),
            if (0 OR sg) OR rc_mutex_unlock rc \<noteq> 0 then VX_FAILURE else VX_SUCCESS)
         else (Some e, VX_FAILURE))"

definition tivxEventClear :: "posix_rc \<Rightarrow> tivx_event option \<Rightarrow> tivx_event option \<times> vx_status" where
  "tivxEventClear rc event =
     (case event of
        None \<Rightarrow> (None, VX_ERROR_INVALID_PARAMETERS)
      | Some e \<Rightarrow>
         if rc_mutex_lock rc = 0 then
           (Some (e\<lparr>evt_is_set := False\<rparr>), if rc_mutex_unlock rc \<noteq> 0 then VX_FAILURE else VX_SUCCESS)
         else (Some e, VX_FAILURE))"

text \<open>One sleep on the condition variable: the clock (\<open>None\<close> when \<open>gettimeofday\<close> fails), what
  \<open>pthread_cond_timedwait\<close> returns for a deadline, what \<open>pthread_cond_wait\<close> returns, and what the
  other threads do to the event meanwhile.\<close>

record event_env =
  ee_time :: "(uint64 \<times> uint64) option"
  ee_timedwait :: "uint64 \<times> uint64 \<Rightarrow> uint32"
  ee_wait :: uint32
  ee_others :: "tivx_event \<Rightarrow> tivx_event"

fun tivxEventWait_loop ::
  "event_env list \<Rightarrow> tivx_event \<Rightarrow> uint32 \<Rightarrow> (tivx_event \<times> vx_status) option" where
  "tivxEventWait_loop ws e timeout =
     (if evt_is_set e then Some (e\<lparr>evt_is_set := False\<rparr>, VX_SUCCESS)
      else if timeout = TIVX_EVENT_TIMEOUT_NO_WAIT then Some (e, VX_ERROR_TIMEOUT)
      else (case ws of
              [] \<Rightarrow> None
            | w # ws' \<Rightarrow>
                if timeout \<noteq> VX_TIMEOUT_WAIT_FOREVER then
                  (case ee_time w of
                     None \<Rightarrow> Some (e, VX_FAILURE)
                   | Some (tv_sec, tv_usec) \<Rightarrow>
                      (let r = ee_timedwait w (get_deadline tv_sec tv_usec timeout) in
                       if r = ETIMEDOUT then Some (ee_others w e, VX_ERROR_TIMEOUT)
                       else if r \<noteq> 0 then Some (ee_others w e, VX_FAILURE)
                       else tivxEventWait_loop ws' (ee_others w e) timeout))
                else if ee_wait w \<noteq> 0 then Some (ee_others w e, VX_FAILURE)
                else tivxEventWait_loop ws' (ee_others w e) timeout))"

declare tivxEventWait_loop.simps [simp del]

definition tivxEventWait ::
  "posix_rc \<Rightarrow> event_env list \<Rightarrow> tivx_event option \<Rightarrow> uint32 \<Rightarrow> (tivx_event option \<times> vx_status) option"
where
  "tivxEventWait rc ws event timeout =
     (case event of
        None \<Rightarrow> Some (None, VX_ERROR_INVALID_PARAMETERS)
      | Some e \<Rightarrow>
         if rc_mutex_lock rc = 0 then
           map_option (\<lambda>(e', status).
               (Some e', if rc_mutex_unlock rc \<noteq> 0 then VX_FAILURE else status))
             (tivxEventWait_loop ws e timeout)
         else Some (Some e, rc_mutex_lock rc))"

section \<open>Facts\<close>

lemma event_wait_set:
  "rc_mutex_lock rc = 0 \<Longrightarrow> rc_mutex_unlock rc = 0 \<Longrightarrow> evt_is_set e \<Longrightarrow>
     tivxEventWait rc ws (Some e) t = Some (Some (e\<lparr>evt_is_set := False\<rparr>), VX_SUCCESS)"
  by (simp add: tivxEventWait_def tivxEventWait_loop.simps)

text \<open>A wait without a time-out ends exactly when some thread posts: as long as the other threads
  leave the flag down the waiter sleeps, and the first time that it is up the waiter takes it.\<close>

lemma event_wait_sleeps:
  assumes "\<not> evt_is_set e" "\<forall>w \<in> set ws. ee_wait w = 0 \<and> (\<forall>x. \<not> evt_is_set x \<longrightarrow> \<not> evt_is_set (ee_others w x))"
  shows "tivxEventWait_loop ws e VX_TIMEOUT_WAIT_FOREVER = None"
  using assms by (induction ws arbitrary: e) (simp_all add: tivxEventWait_loop.simps)

lemma event_wait_woken:
  assumes "\<not> evt_is_set e" "ee_wait w = 0" "\<forall>x. evt_is_set (ee_others w x)"
    and "\<forall>v \<in> set us. ee_wait v = 0 \<and> (\<forall>x. \<not> evt_is_set x \<longrightarrow> \<not> evt_is_set (ee_others v x))"
  shows "\<exists>e'. tivxEventWait_loop (us @ w # ws) e VX_TIMEOUT_WAIT_FOREVER = Some (e', VX_SUCCESS)
    \<and> \<not> evt_is_set e'"
  using assms(1,4)
proof (induction us arbitrary: e)
  case Nil
  then show ?case using assms(2,3) by (simp add: tivxEventWait_loop.simps)
next
  case (Cons v us)
  then have "\<not> evt_is_set (ee_others v e)" by simp
  from Cons.IH [OF this] Cons.prems show ?case by (simp add: tivxEventWait_loop.simps)
qed

lemma event_post_ok:
  "rc_mutex_lock rc = 0 \<Longrightarrow> \<exists>st e'. tivxEventPost rc sg (Some e) = (Some e', st) \<and> evt_is_set e'
     \<and> evt_object e' = evt_object e"
  by (simp add: tivxEventPost_def)

end
