(* ===== verification/Host_Graph.thy ===== *)
theory Host_Graph
  imports Target_Core Object_Pools Os_Event
begin

text \<open>
  The host side objects: references, nodes, kernels, graphs, delays and contexts of
  \<open>source/include/vx_reference.h\<close>, \<open>vx_node.h\<close>, \<open>vx_kernel.h\<close>, \<open>vx_graph.h\<close>, \<open>vx_delay.h\<close> and
  \<open>vx_context.h\<close>, and the links between nodes of \<open>source/framework/vx_node.c\<close>. The first member of
  each object is its reference, so both have the same address. A host object lives at an address; the null pointer is 0. The heap of
  each kind of object is a function of the address, so that reading and writing through a pointer are
  application and update. The links themselves are arrays of descriptor ids in the node descriptors
  of the shared table.
\<close>

section \<open>Objects\<close>

abbreviation (input) VX_INPUT :: vx_enum where "VX_INPUT \<equiv> 0"
abbreviation (input) VX_OUTPUT :: vx_enum where "VX_OUTPUT \<equiv> 1"
abbreviation (input) VX_BIDIRECTIONAL :: vx_enum where "VX_BIDIRECTIONAL \<equiv> 2"

abbreviation (input) TIVX_GRAPH_MAX_NODES :: "'a::numeral" where "TIVX_GRAPH_MAX_NODES \<equiv> 128"
abbreviation (input) TIVX_NODE_MAX_OUT_NODES :: "'a::numeral" where "TIVX_NODE_MAX_OUT_NODES \<equiv> 8"
abbreviation (input) TIVX_NODE_MAX_IN_NODES :: "'a::numeral" where "TIVX_NODE_MAX_IN_NODES \<equiv> 8"

text \<open>The fields of a kernel, a reference and a node that the modelled code reads or writes. The
  parent of an image (\<open>image->parent\<close>), the status of an error object (\<open>error->status\<close>), the items
  of an object array or pyramid (\<open>ref\<close>, \<open>img\<close>) and the data type of a scalar stand with their
  reference.\<close>

record vx_kernel_t =
  krn_enumeration :: vx_enum
  krn_num_parameters :: uint32
  krn_directions :: "vx_enum list"
  krn_types :: "vx_enum list"
  krn_states :: "vx_enum list"
  krn_num_pipeup_bufs :: uint32
  krn_num_sink_bufs :: uint32
  krn_connected_sink_bufs :: uint32

record vx_reference_t =
  rf_magic :: uint32
  rf_type :: vx_enum
  rf_context :: uintptr
  rf_scope :: uintptr
  rf_name :: string
  rf_external_count :: uint32
  rf_internal_count :: uint32
  rf_mem_alloc_callback :: uintptr
  rf_destructor_callback :: uintptr
  rf_release_callback :: uintptr
  rf_lock :: "nat option"
  rf_delay :: uintptr
  rf_delay_slot_index :: uint32
  rf_is_virtual :: bool
  rf_is_accessible :: bool
  rf_is_array_element :: bool
  rf_is_allocated :: bool
  rf_obj_desc :: "nat option"
  rf_supplementary_data :: uintptr
  rf_image_parent :: uintptr
  rf_error_status :: vx_status
  rf_items :: "uintptr list"
  rf_scalar_data_type :: vx_enum

record vx_perf_t =
  pe_tmp :: uint64
  pe_beg :: uint64
  pe_end :: uint64
  pe_sum :: uint64
  pe_avg :: uint64
  pe_min :: uint64
  pe_num :: uint64
  pe_max :: uint64

record vx_node_t =
  vn_graph :: uintptr
  vn_kernel :: uintptr
  vn_parameters :: "uintptr list"
  vn_pipeline_depth :: uint32
  vn_obj_desc :: "nat option list"
  vn_incounter :: uint16
  vn_is_super_node :: bool
  vn_super_node :: uintptr
  vn_node_depth :: uint32
  vn_perf :: vx_perf_t
  vn_replicated_flags :: "bool list"
  vn_parameter_index_num_buf :: "uint32 list"

text \<open>A graph parameter, a data reference queue between two nodes, and the host side of a data
  reference queue.\<close>

record tivx_parameters_t =
  gp_node :: uintptr
  gp_index :: uint32
  gp_queue_enable :: bool
  gp_num_buf :: uint32
  gp_data_ref_queue :: uintptr
  gp_refs_list :: "uintptr list"
  gp_is_enable_send_ref_consumed_event :: bool
  gp_is_enable_send_ref_consumed_graph_event :: bool
  gp_type :: vx_enum

record tivx_data_ref_q_list_t =
  qe_node :: uintptr
  qe_index :: uint32
  qe_num_buf :: uint32
  qe_data_ref_queue :: uintptr
  qe_refs_list :: "uintptr list"

record tivx_delay_data_ref_q_list_t =
  de_node :: uintptr
  de_index :: uint32
  de_data_ref_queue :: uintptr
  de_delay_ref :: uintptr
  de_delay_slot_index :: uint32

record tivx_data_ref_queue_t =
  dq_ready_q_obj_desc_id :: uint16
  dq_done_q_obj_desc_id :: uint16
  dq_wait_done_ref_available_event :: "tivx_event option"
  dq_obj_desc :: "nat option list"
  dq_obj_desc_cmd :: "nat option list"
  dq_acquire_q_obj_desc_id :: uint16
  dq_release_q_obj_desc_id :: uint16
  dq_pipeline_depth :: uint32
  dq_is_enable_send_ref_consumed_event :: bool
  dq_is_enable_send_ref_consumed_graph_event :: bool
  dq_enable_user_queueing :: bool
  dq_graph_parameter_index :: uint32
  dq_graph :: uintptr

record vx_graph_t =
  gr_verified :: bool
  gr_reverify :: bool
  gr_nodes :: "uintptr list"
  gr_num_nodes :: uint32
  gr_head_nodes :: "uintptr list"
  gr_num_head_nodes :: uint32
  gr_leaf_nodes :: "uintptr list"
  gr_num_leaf_nodes :: uint32
  gr_parameters :: "tivx_parameters_t list"
  gr_num_params :: uint32
  gr_data_ref_q_list :: "tivx_data_ref_q_list_t list"
  gr_num_data_ref_q :: uint32
  gr_delay_data_ref_q_list :: "tivx_delay_data_ref_q_list_t list"
  gr_num_delay_data_ref_q :: uint32
  gr_state :: vx_enum
  gr_perf :: vx_perf_t
  gr_delays :: "uintptr list"
  gr_pipeline_depth :: uint32
  gr_is_streaming_enabled :: bool
  gr_obj_desc :: "nat option list"
  gr_free_q :: tivx_queue
  gr_schedule_mode :: vx_enum
  gr_is_pipelining_enabled :: bool
  gr_is_pipeline_depth_set :: bool
  gr_schedule_pending_count :: uint32
  gr_all_graph_completed_event :: "tivx_event option"
  gr_submitted_count :: uint32
  gr_num_data_ref :: uint32
  gr_data_ref :: "uintptr list"
  gr_data_ref_num_in_nodes :: "uint8 list"
  gr_data_ref_num_out_nodes :: "uint8 list"
  gr_timeout_val :: uint32

text \<open>A delay. The parameters that follow a slot are a list: the entry in the array \<open>set\<close> and the
  entries of the pool \<open>prm_pool\<close> that hang from it by their \<open>next\<close> pointers. An entry of the pool is
  free when its node is null, that is when it hangs from no slot.\<close>

record vx_delay_t =
  dl_refs :: "uintptr list"
  dl_set :: "(uintptr \<times> uint32) list list"
  dl_index :: uint32
  dl_count :: uint32
  dl_type :: vx_enum
  dl_pyr_delay :: "uintptr list"
  dl_obj_arr_delay :: "uintptr list"
  dl_pyr_num_levels :: uint64
  dl_obj_arr_num_items :: uint64

record vx_context_t =
  cx_reftable :: "uintptr list"
  cx_num_references :: uint32
  cx_lock :: "nat option"

text \<open>The working memory of the sort, in the context.\<close>

record tivx_graph_sort_context =
  sc_sorted_nodes :: "uintptr list"
  sc_stack :: "uintptr list"
  sc_stack_top :: uint16
  sc_stack_max_elems :: uint16

record host =
  ho_sys :: sys
  ho_refs :: "uintptr \<Rightarrow> vx_reference_t"
  ho_kernels :: "uintptr \<Rightarrow> vx_kernel_t"
  ho_nodes :: "uintptr \<Rightarrow> vx_node_t"
  ho_graphs :: "uintptr \<Rightarrow> vx_graph_t"
  ho_sort :: tivx_graph_sort_context
  ho_delays :: "uintptr \<Rightarrow> vx_delay_t"
  ho_contexts :: "uintptr \<Rightarrow> vx_context_t"
  ho_data_ref_queues :: "uintptr \<Rightarrow> tivx_data_ref_queue_t"
  ho_objects :: tivx_objects
  ho_posix :: posix_objects

definition upd_ref :: "uintptr \<Rightarrow> (vx_reference_t \<Rightarrow> vx_reference_t) \<Rightarrow> host \<Rightarrow> host" where
  "upd_ref r f h = h\<lparr>ho_refs := (ho_refs h)(r := f (ho_refs h r))\<rparr>"

definition upd_vnode :: "uintptr \<Rightarrow> (vx_node_t \<Rightarrow> vx_node_t) \<Rightarrow> host \<Rightarrow> host" where
  "upd_vnode n f h = h\<lparr>ho_nodes := (ho_nodes h)(n := f (ho_nodes h n))\<rparr>"

definition upd_graph :: "uintptr \<Rightarrow> (vx_graph_t \<Rightarrow> vx_graph_t) \<Rightarrow> host \<Rightarrow> host" where
  "upd_graph g f h = h\<lparr>ho_graphs := (ho_graphs h)(g := f (ho_graphs h g))\<rparr>"

text \<open>Only descriptors change.\<close>

definition only_sys :: "host \<Rightarrow> host \<Rightarrow> bool" where
  "only_sys h h' \<longleftrightarrow> (\<exists>s. h' = h\<lparr>ho_sys := s\<rparr>)"

lemma only_sys_refl [simp]: "only_sys h h"
  by (auto simp: only_sys_def intro: exI [of _ "ho_sys h"])

lemma only_sys_trans [trans]: "only_sys h h1 \<Longrightarrow> only_sys h1 h2 \<Longrightarrow> only_sys h h2"
  by (auto simp: only_sys_def)

text \<open>\<open>node->obj_desc[0]\<close>, and the node descriptor behind it.\<close>

abbreviation (input) obj_desc0 :: "host \<Rightarrow> uintptr \<Rightarrow> nat option" where
  "obj_desc0 h n \<equiv> vn_obj_desc (ho_nodes h n) ! 0"

abbreviation (input) nd0 :: "host \<Rightarrow> uintptr \<Rightarrow> tivx_obj_desc_node" where
  "nd0 h n \<equiv> node_of (ho_sys h) (the (obj_desc0 h n))"

abbreviation (input) id0 :: "host \<Rightarrow> uintptr \<Rightarrow> uint16" where
  "id0 h n \<equiv> od_obj_desc_id (sys_desc (ho_sys h) (the (obj_desc0 h n)))"

definition upd_nd0 ::
  "uintptr \<Rightarrow> (tivx_obj_desc_node \<Rightarrow> tivx_obj_desc_node) \<Rightarrow> host \<Rightarrow> host" where
  "upd_nd0 n f h = h\<lparr>ho_sys := upd_node (the (obj_desc0 h n)) f (ho_sys h)\<rparr>"

section \<open>Accessors\<close>

definition ownNodeGetNumParameters :: "host \<Rightarrow> uintptr \<Rightarrow> uint32" where
  "ownNodeGetNumParameters h node = krn_num_parameters (ho_kernels h (vn_kernel (ho_nodes h node)))"

definition ownNodeGetParameterDir :: "host \<Rightarrow> uintptr \<Rightarrow> nat \<Rightarrow> vx_enum" where
  "ownNodeGetParameterDir h node prm_index =
     krn_directions (ho_kernels h (vn_kernel (ho_nodes h node))) ! prm_index"

definition ownNodeGetParameterRef :: "host \<Rightarrow> uintptr \<Rightarrow> nat \<Rightarrow> uintptr" where
  "ownNodeGetParameterRef h node prm_index = vn_parameters (ho_nodes h node) ! prm_index"

definition ownNodeGetNumInNodes :: "host \<Rightarrow> uintptr \<Rightarrow> uint32" where
  "ownNodeGetNumInNodes h node = nd_num_in_nodes (nd0 h node)"

definition ownNodeGetNumOutNodes :: "host \<Rightarrow> uintptr \<Rightarrow> uint32" where
  "ownNodeGetNumOutNodes h node = nd_num_out_nodes (nd0 h node)"

text \<open>The node that a descriptor belongs to, from \<open>base.host_ref\<close>.\<close>

definition node_of_id :: "host \<Rightarrow> uint16 \<Rightarrow> uintptr" where
  "node_of_id h obj_desc_id =
     (case ownObjDescGet (sys_tbl (ho_sys h)) obj_desc_id of
        None \<Rightarrow> 0
      | Some d \<Rightarrow> od_host_ref (sys_desc (ho_sys h) d))"

definition ownNodeGetNextNode :: "host \<Rightarrow> uintptr \<Rightarrow> nat \<Rightarrow> uintptr" where
  "ownNodeGetNextNode h node idx =
     (if node \<noteq> 0 \<and> obj_desc0 h node \<noteq> None \<and> idx < unat (nd_num_out_nodes (nd0 h node))
      then node_of_id h (nd_out_node_id (nd0 h node) ! idx) else 0)"

definition ownNodeGetNextInNode :: "host \<Rightarrow> uintptr \<Rightarrow> nat \<Rightarrow> uintptr" where
  "ownNodeGetNextInNode h node idx =
     (if node \<noteq> 0 \<and> obj_desc0 h node \<noteq> None \<and> idx < unat (nd_num_in_nodes (nd0 h node))
      then node_of_id h (nd_in_node_id (nd0 h node) ! idx) else 0)"

section \<open>Links\<close>

text \<open>Adding an id to an array of at most eight ids, and replacing one. The two operations have one
  copy for the output and one for the input side in the code.\<close>

definition add_link :: "uint32 \<Rightarrow> uint16 list \<Rightarrow> uint16 \<Rightarrow> (uint32 \<times> uint16 list) \<times> vx_status" where
  "add_link num ids i =
     (if i \<in> set (take (unat num) ids) then ((num, ids), VX_SUCCESS)
      else if num < TIVX_NODE_MAX_OUT_NODES then ((num + 1, ids[unat num := i]), VX_SUCCESS)
      else ((num, ids), VX_ERROR_NO_RESOURCES))"

definition replace_link ::
  "uint32 \<Rightarrow> uint16 list \<Rightarrow> uint16 \<Rightarrow> uint16 \<Rightarrow> uint32 \<times> uint16 list" where
  "replace_link num ids old_id new_id =
     (let is_present = new_id \<in> set (take (unat num) ids) in
      case first_index (\<lambda>i. i = old_id) (take (unat num) ids) of
        None \<Rightarrow> (num, ids)
      | Some i \<Rightarrow>
          if \<not> is_present then (num, ids[i := new_id])
          else (num - 1, foldl (\<lambda>l j. l[j := l ! (j + 1)]) ids [i..<unat num - 1]))"

definition ownNodeAddOutNode :: "host \<Rightarrow> uintptr \<Rightarrow> uintptr \<Rightarrow> host \<times> vx_status" where
  "ownNodeAddOutNode h node out_node =
     (case add_link (nd_num_out_nodes (nd0 h node)) (nd_out_node_id (nd0 h node)) (id0 h out_node) of
        ((num, ids), status) \<Rightarrow>
          (upd_nd0 node (\<lambda>d. d\<lparr>nd_num_out_nodes := num, nd_out_node_id := ids\<rparr>) h, status))"

definition ownNodeAddInNode :: "host \<Rightarrow> uintptr \<Rightarrow> uintptr \<Rightarrow> host \<times> vx_status" where
  "ownNodeAddInNode h node in_node =
     (case add_link (nd_num_in_nodes (nd0 h node)) (nd_in_node_id (nd0 h node)) (id0 h in_node) of
        ((num, ids), status) \<Rightarrow>
          (upd_nd0 node (\<lambda>d. d\<lparr>nd_num_in_nodes := num, nd_in_node_id := ids\<rparr>) h, status))"

definition ownNodeReplaceOutNode ::
  "host \<Rightarrow> uintptr \<Rightarrow> uintptr \<Rightarrow> uintptr \<Rightarrow> host \<times> vx_status" where
  "ownNodeReplaceOutNode h node old_out_node new_out_node =
     (case replace_link (nd_num_out_nodes (nd0 h node)) (nd_out_node_id (nd0 h node))
             (id0 h old_out_node) (id0 h new_out_node) of
        (num, ids) \<Rightarrow>
          (upd_nd0 node (\<lambda>d. d\<lparr>nd_num_out_nodes := num, nd_out_node_id := ids\<rparr>) h, VX_SUCCESS))"

definition ownNodeReplaceInNode ::
  "host \<Rightarrow> uintptr \<Rightarrow> uintptr \<Rightarrow> uintptr \<Rightarrow> host \<times> vx_status" where
  "ownNodeReplaceInNode h node old_in_node new_in_node =
     (case replace_link (nd_num_in_nodes (nd0 h node)) (nd_in_node_id (nd0 h node))
             (id0 h old_in_node) (id0 h new_in_node) of
        (num, ids) \<Rightarrow>
          (upd_nd0 node (\<lambda>d. d\<lparr>nd_num_in_nodes := num, nd_in_node_id := ids\<rparr>) h, VX_SUCCESS))"

section \<open>Hosts for examples\<close>

text \<open>A host with one node for each pair of predecessor and successor ids; the node with descriptor
  \<open>i\<close> lives at address \<open>i + 1\<close>.\<close>

definition link_desc :: "nat \<Rightarrow> uint16 list \<times> uint16 list \<Rightarrow> tivx_obj_desc" where
  "link_desc i l = (init_desc sample_ids i TIVX_OBJ_DESC_NODE (of_nat (i + 1)))
     \<lparr>od_body := B_Node (zero_node
        \<lparr>nd_num_in_nodes := of_nat (length (fst l)), nd_in_node_id := fst l @ replicate (8 - length (fst l)) 0,
         nd_num_out_nodes := of_nat (length (snd l)), nd_out_node_id := snd l @ replicate (8 - length (snd l)) 0\<rparr>)\<rparr>"

definition zero_perf :: vx_perf_t where
  "zero_perf = \<lparr>pe_tmp = 0, pe_beg = 0, pe_end = 0, pe_sum = 0, pe_avg = 0, pe_min = - 1, pe_num = 0,
     pe_max = 0\<rparr>"

definition zero_vnode :: vx_node_t where
  "zero_vnode = \<lparr>vn_graph = 0, vn_kernel = 0, vn_parameters = [], vn_pipeline_depth = 1, vn_obj_desc = [],
     vn_incounter = 0, vn_is_super_node = False, vn_super_node = 0, vn_node_depth = 1,
     vn_perf = zero_perf, vn_replicated_flags = [],
     vn_parameter_index_num_buf = replicate 32 0\<rparr>"

definition zero_graph :: vx_graph_t where
  "zero_graph = \<lparr>gr_verified = False, gr_reverify = False, gr_nodes = replicate 128 0,
     gr_num_nodes = 0, gr_head_nodes = replicate 8 0,
     gr_num_head_nodes = 0, gr_leaf_nodes = replicate 16 0, gr_num_leaf_nodes = 0, gr_parameters = [], gr_num_params = 0,
     gr_data_ref_q_list = [], gr_num_data_ref_q = 0,
     gr_delay_data_ref_q_list = replicate 96 \<lparr>de_node = 0, de_index = 0, de_data_ref_queue = 0, de_delay_ref = 0,
       de_delay_slot_index = 0\<rparr>, gr_num_delay_data_ref_q = 0,
     gr_state = 0, gr_perf = zero_perf, gr_delays = replicate 8 0, gr_pipeline_depth = 1,
     gr_is_streaming_enabled = False, gr_obj_desc = replicate 16 None, gr_free_q = init_queue,
     gr_schedule_mode = 0, gr_is_pipelining_enabled = False, gr_is_pipeline_depth_set = False, gr_schedule_pending_count = 0,
     gr_all_graph_completed_event = None, gr_submitted_count = 0,
     gr_num_data_ref = 0, gr_data_ref = replicate 512 0,
     gr_data_ref_num_in_nodes = replicate 512 0, gr_data_ref_num_out_nodes = replicate 512 0,
     gr_timeout_val = 0\<rparr>"

definition zero_ref :: vx_reference_t where
  "zero_ref = \<lparr>rf_magic = 0xFACEC0DE, rf_type = 0, rf_context = 0, rf_scope = 0, rf_name = [],
     rf_external_count = 0, rf_internal_count = 0, rf_mem_alloc_callback = 0,
     rf_destructor_callback = 0, rf_release_callback = 0, rf_lock = None, rf_delay = 0,
     rf_delay_slot_index = 0, rf_is_virtual = False, rf_is_accessible = False,
     rf_is_array_element = False, rf_is_allocated = False, rf_obj_desc = None,
     rf_supplementary_data = 0, rf_image_parent = 0, rf_error_status = 0,
     rf_items = [], rf_scalar_data_type = 0\<rparr>"

definition zero_delay :: vx_delay_t where
  "zero_delay = \<lparr>dl_refs = [], dl_set = [], dl_index = 0, dl_count = 0, dl_type = 0, dl_pyr_delay = [],
     dl_obj_arr_delay = [], dl_pyr_num_levels = 0, dl_obj_arr_num_items = 0\<rparr>"

definition zero_context :: vx_context_t where
  "zero_context = \<lparr>cx_reftable = replicate 4 0, cx_num_references = 0, cx_lock = Some 1\<rparr>"

definition sample_posix_objects :: posix_objects where
  "sample_posix_objects = \<lparr>isEventUse = [False, False], isMutexUse = [True, True, False, False],
     isQueueUse = [False, False], isTaskUse = [False], objects_lock = Some 0\<rparr>"

definition zero_data_ref_queue :: tivx_data_ref_queue_t where
  "zero_data_ref_queue = \<lparr>dq_ready_q_obj_desc_id = 0, dq_done_q_obj_desc_id = 0,
     dq_wait_done_ref_available_event = None, dq_obj_desc = replicate 16 None, dq_obj_desc_cmd = replicate 16 None,
     dq_acquire_q_obj_desc_id = 0, dq_release_q_obj_desc_id = 0, dq_pipeline_depth = 0,
     dq_is_enable_send_ref_consumed_event = False, dq_is_enable_send_ref_consumed_graph_event = False,
     dq_enable_user_queueing = False, dq_graph_parameter_index = 0, dq_graph = 0\<rparr>"

definition host_of_links :: "(uint16 list \<times> uint16 list) list \<Rightarrow> host" where
  "host_of_links ls =
     \<lparr>ho_sys = (sample_sys 0)\<lparr>sys_tbl := \<lparr>odt_table_base = map2 link_desc [0..<length ls] ls,
                                          odt_last_alloc_index = 0\<rparr>\<rparr>,
      ho_refs = (\<lambda>_. zero_ref),
      ho_kernels = (\<lambda>_. \<lparr>krn_enumeration = 0, krn_num_parameters = 0, krn_directions = [], krn_types = [], krn_states = [],
                       krn_num_pipeup_bufs = 1, krn_num_sink_bufs = 1, krn_connected_sink_bufs = 1\<rparr>),
      ho_nodes = (\<lambda>a. zero_vnode\<lparr>vn_obj_desc := [Some (unat a - 1)]\<rparr>),
      ho_graphs = (\<lambda>_. zero_graph),
      ho_sort = \<lparr>sc_sorted_nodes = replicate 128 0, sc_stack = replicate 128 0, sc_stack_top = 0,
                 sc_stack_max_elems = 0\<rparr>,
      ho_delays = (\<lambda>_. zero_delay), ho_contexts = (\<lambda>_. zero_context),
      ho_data_ref_queues = (\<lambda>_. zero_data_ref_queue), ho_objects = sample_objects,
      ho_posix = sample_posix_objects\<rparr>"

end
