(* ===== verification/Graph_Sort.thy ===== *)
theory Graph_Sort
  imports Host_Graph
begin

text \<open>
  The topological sort of a graph, \<open>source/framework/vx_graph_sort.c\<close>: the stack, the sort itself and
  the depths that it gives to the nodes. The sort is shown to answer with a topological order exactly
  when the links have no cycle.
\<close>

section \<open>The stack\<close>

definition upd_sort ::
  "(tivx_graph_sort_context \<Rightarrow> tivx_graph_sort_context) \<Rightarrow> host \<Rightarrow> host" where
  "upd_sort f h = h\<lparr>ho_sort := f (ho_sort h)\<rparr>"

definition ownGraphSortStackReset :: "host \<Rightarrow> uint16 \<Rightarrow> host" where
  "ownGraphSortStackReset h max_elems =
     upd_sort (\<lambda>c. c\<lparr>sc_stack_top := 0, sc_stack_max_elems := max_elems\<rparr>) h"

definition ownGraphSortStackPush :: "host \<Rightarrow> uintptr \<Rightarrow> host \<times> bool" where
  "ownGraphSortStackPush h elem =
     (if sc_stack_top (ho_sort h) < sc_stack_max_elems (ho_sort h)
      then (upd_sort (\<lambda>c. c\<lparr>sc_stack := (sc_stack c)[unat (sc_stack_top c) := elem],
                            sc_stack_top := sc_stack_top c + 1\<rparr>) h, True)
      else (h, False))"

definition ownGraphSortStackPop :: "host \<Rightarrow> (host \<times> uintptr) option" where
  "ownGraphSortStackPop h =
     (if sc_stack_top (ho_sort h) > 0 \<and> sc_stack_top (ho_sort h) < TIVX_GRAPH_MAX_NODES
      then Some (upd_sort (\<lambda>c. c\<lparr>sc_stack_top := sc_stack_top c - 1\<rparr>) h,
                 sc_stack (ho_sort h) ! unat (sc_stack_top (ho_sort h) - 1))
      else None)"

section \<open>The sort\<close>

text \<open>The first loop: the counters, and the nodes without predecessors on the stack. Whether a push
  fails is only logged.\<close>

fun sort_init :: "host \<Rightarrow> uintptr list \<Rightarrow> host" where
  "sort_init h [] = h"
| "sort_init h (n # ns) =
     (let h1 = upd_vnode n (\<lambda>v. v\<lparr>vn_incounter := ucast (ownNodeGetNumInNodes h n)\<rparr>) h;
          h2 = (if vn_incounter (ho_nodes h1 n) = 0 \<and> \<not> vn_is_super_node (ho_nodes h1 n)
                then fst (ownGraphSortStackPush h1 n) else h1)
      in sort_init h2 ns)"

text \<open>The depth of a node after its predecessors number \<open>i\<close> and later.\<close>

fun depth_loop :: "host \<Rightarrow> uintptr \<Rightarrow> nat list \<Rightarrow> host" where
  "depth_loop h cur [] = h"
| "depth_loop h cur (i # idxs) =
     (let prev = ownNodeGetNextInNode h cur i;
          h1 = (if prev \<noteq> 0 \<and> vn_node_depth (ho_nodes h cur) \<le> vn_node_depth (ho_nodes h prev)
                then upd_vnode cur (\<lambda>v. v\<lparr>vn_node_depth := vn_node_depth (ho_nodes h prev) + 1\<rparr>) h
                else h)
      in depth_loop h1 cur idxs)"

fun out_loop :: "host \<Rightarrow> uintptr \<Rightarrow> nat list \<Rightarrow> host" where
  "out_loop h cur [] = h"
| "out_loop h cur (i # idxs) =
     (let nxt = ownNodeGetNextNode h cur i;
          h1 = (if nxt \<noteq> 0
                then (let h' = upd_vnode nxt (\<lambda>v. v\<lparr>vn_incounter := vn_incounter v - 1\<rparr>) h
                      in if vn_incounter (ho_nodes h' nxt) = 0
                         then fst (ownGraphSortStackPush h' nxt) else h')
                else h)
      in out_loop h1 cur idxs)"

text \<open>The body of the pop loop, for the node \<open>cur\<close> that has been popped.\<close>

definition sort_visit :: "host \<Rightarrow> uint16 \<Rightarrow> uintptr \<Rightarrow> host" where
  "sort_visit h cur_node_idx cur =
     (let h1 = upd_sort (\<lambda>c. c\<lparr>sc_sorted_nodes := (sc_sorted_nodes c)[unat cur_node_idx := cur]\<rparr>) h;
          num_in_nodes = (ucast (ownNodeGetNumInNodes h1 cur) :: uint16);
          num_out_nodes = (ucast (ownNodeGetNumOutNodes h1 cur) :: uint16);
          h2 = depth_loop h1 cur [0..<unat num_in_nodes]
      in out_loop h2 cur [0..<unat num_out_nodes])"

text \<open>The pop loop; \<open>None\<close> when it does not end.\<close>

partial_function (option) sort_loop :: "host \<Rightarrow> uint16 \<Rightarrow> (host \<times> uint16) option" where
  "sort_loop h cur_node_idx =
     (case ownGraphSortStackPop h of
        None \<Rightarrow> Some (h, cur_node_idx)
      | Some (h1, cur) \<Rightarrow> sort_loop (sort_visit h1 cur_node_idx cur) (cur_node_idx + 1))"

text \<open>\<open>ownGraphTopologicalSort\<close>, with the array of nodes and \<open>has_cycle\<close> as they are on return. A
  graph of \<open>TIVX_GRAPH_MAX_NODES\<close> nodes is not looked at.\<close>

definition ownGraphTopologicalSort ::
  "host \<Rightarrow> uintptr list \<Rightarrow> uint32 \<Rightarrow> bool \<Rightarrow> (host \<times> uintptr list \<times> bool) option" where
  "ownGraphTopologicalSort h nodes num_nodes has_cycle =
     (if num_nodes < TIVX_GRAPH_MAX_NODES
      then (let h1 = sort_init (ownGraphSortStackReset h (ucast num_nodes))
                       (take (unat num_nodes) nodes)
            in case sort_loop h1 0 of
                 None \<Rightarrow> None
               | Some (h2, cur_node_idx) \<Rightarrow>
                   if ucast cur_node_idx = num_nodes
                   then Some (h2, take (unat num_nodes) (sc_sorted_nodes (ho_sort h2))
                                    @ drop (unat num_nodes) nodes, False)
                   else Some (h2, nodes, True))
      else Some (h, nodes, has_cycle))"

section \<open>The links as a directed graph\<close>

definition succs :: "host \<Rightarrow> uintptr \<Rightarrow> uintptr list" where
  "succs h n = map (ownNodeGetNextNode h n) [0..<unat (ownNodeGetNumOutNodes h n)]"

definition preds :: "host \<Rightarrow> uintptr \<Rightarrow> uintptr list" where
  "preds h n = map (ownNodeGetNextInNode h n) [0..<unat (ownNodeGetNumInNodes h n)]"

text \<open>The links of the nodes \<open>ns\<close>: the two directions agree, lead to nodes of \<open>ns\<close>, name each
  neighbour once and fit the arrays.\<close>

definition links_ok :: "host \<Rightarrow> uintptr list \<Rightarrow> bool" where
  "links_ok h ns \<longleftrightarrow> distinct ns \<and>
     (\<forall>n \<in> set ns. n \<noteq> 0 \<and> \<not> vn_is_super_node (ho_nodes h n)
        \<and> ownNodeGetNumInNodes h n \<le> TIVX_NODE_MAX_IN_NODES
        \<and> ownNodeGetNumOutNodes h n \<le> TIVX_NODE_MAX_OUT_NODES
        \<and> set (succs h n) \<subseteq> set ns \<and> set (preds h n) \<subseteq> set ns
        \<and> distinct (succs h n) \<and> distinct (preds h n)
        \<and> (\<forall>m \<in> set ns. m \<in> set (succs h n) \<longleftrightarrow> n \<in> set (preds h m)))"

text \<open>A list of nodes in which every node comes after its predecessors.\<close>

definition topo_sorted :: "('n \<Rightarrow> 'n list) \<Rightarrow> 'n list \<Rightarrow> bool" where
  "topo_sorted pre P \<longleftrightarrow> (\<forall>i < length P. set (pre (P ! i)) \<subseteq> set (take i P))"

lemma topo_sorted_snoc [simp]:
  "topo_sorted pre (P @ [x]) \<longleftrightarrow> topo_sorted pre P \<and> set (pre x) \<subseteq> set P"
  by (auto simp: topo_sorted_def nth_append less_Suc_eq)

lemma topo_sorted_closed:
  assumes "topo_sorted pre P" "m \<in> set P" shows "set (pre m) \<subseteq> set P"
proof -
  obtain i where "i < length P" "P ! i = m" using assms(2) by (auto simp: in_set_conv_nth)
  then have "set (pre m) \<subseteq> set (take i P)" using assms(1) by (auto simp: topo_sorted_def)
  then show ?thesis by (meson set_take_subset subset_trans)
qed

definition link_edges :: "('n \<Rightarrow> 'n list) \<Rightarrow> 'n list \<Rightarrow> ('n \<times> 'n) set" where
  "link_edges pre ns = {(p, n). n \<in> set ns \<and> p \<in> set (pre n)}"

text \<open>What the sort needs to know of the links of a state: the nodes they join and that the two
  directions agree.\<close>

locale node_links =
  fixes ok :: "'s \<Rightarrow> 'n list \<Rightarrow> bool"
    and nexts :: "'s \<Rightarrow> 'n \<Rightarrow> 'n list"
    and prevs :: "'s \<Rightarrow> 'n \<Rightarrow> 'n list"
  assumes nexts_closed: "ok s ns \<Longrightarrow> n \<in> set ns \<Longrightarrow> set (nexts s n) \<subseteq> set ns"
    and prevs_closed: "ok s ns \<Longrightarrow> n \<in> set ns \<Longrightarrow> set (prevs s n) \<subseteq> set ns"
    and agree: "ok s ns \<Longrightarrow> n \<in> set ns \<Longrightarrow> m \<in> set ns \<Longrightarrow>
                  m \<in> set (nexts s n) \<longleftrightarrow> n \<in> set (prevs s m)"
begin

lemma edges_nexts:
  "ok s ns \<Longrightarrow> link_edges (prevs s) ns = {(p, n). p \<in> set ns \<and> n \<in> set (nexts s p)}"
  using nexts_closed prevs_closed agree by (fastforce simp: link_edges_def)

lemma finite_edges: "ok s ns \<Longrightarrow> finite (link_edges (prevs s) ns)"
  using prevs_closed by (intro finite_subset [of "link_edges (prevs s) ns" "set ns \<times> set ns"]) (fastforce simp: link_edges_def)+

lemma topo_acyclic:
  assumes "topo_sorted (prevs s) P" "set ns \<subseteq> set P"
  shows "acyclic (link_edges (prevs s) ns)"
proof -
  define pos where "pos x = (LEAST i. P ! i = x)" for x
  have at: "pos x < length P \<and> P ! pos x = x" if x: "x \<in> set P" for x
  proof -
    obtain j where j: "j < length P" "P ! j = x" using x by (auto simp: in_set_conv_nth)
    have "pos x \<le> j" unfolding pos_def by (rule Least_le) (rule j(2))
    moreover have "P ! pos x = x" unfolding pos_def by (rule LeastI) (rule j(2))
    ultimately show ?thesis using j(1) by simp
  qed
  have before: "pos x < i" if x: "x \<in> set (take i P)" for x i
  proof -
    obtain j where j: "j < i" "P ! j = x" using x by (auto simp: in_set_conv_nth)
    have "pos x \<le> j" unfolding pos_def by (rule Least_le) (rule j(2))
    then show ?thesis using j(1) by simp
  qed
  have "link_edges (prevs s) ns \<subseteq> inv_image less_than pos"
  proof clarify
    fix p n assume "(p, n) \<in> link_edges (prevs s) ns"
    then have n: "n \<in> set P" and p: "p \<in> set (prevs s n)" using assms(2) by (auto simp: link_edges_def)
    then have "p \<in> set (take (pos n) P)"
      using assms(1) at [OF n] unfolding topo_sorted_def by (metis subsetD)
    then show "(p, n) \<in> inv_image less_than pos" using before by simp
  qed
  then show ?thesis
    by (meson wf_acyclic wf_inv_image wf_less_than wf_subset)
qed

lemma stuck_cyclic:
  assumes "ok s ns" "R \<noteq> {}" "R \<subseteq> set ns" "\<And>n. n \<in> R \<Longrightarrow> \<exists>p \<in> R. p \<in> set (prevs s n)"
  shows "\<not> acyclic (link_edges (prevs s) ns)"
proof
  assume "acyclic (link_edges (prevs s) ns)"
  with finite_edges [OF assms(1)] have "wf (link_edges (prevs s) ns)" by (rule finite_acyclic_wf)
  with assms(2) obtain m where "m \<in> R" "\<forall>p. (p, m) \<in> link_edges (prevs s) ns \<longrightarrow> p \<notin> R"
    by (metis wf_eq_minimal all_not_in_conv)
  with assms(3,4) show False by (fastforce simp: link_edges_def)
qed

end

interpretation links: node_links links_ok succs preds
  by unfold_locales (auto simp: links_ok_def)

section \<open>What the sort leaves alone\<close>

text \<open>Only the counters and depths of nodes and the sort's own memory change.\<close>

definition same_links :: "host \<Rightarrow> host \<Rightarrow> bool" where
  "same_links h h' \<longleftrightarrow> ho_sys h' = ho_sys h \<and> ho_refs h' = ho_refs h
     \<and> ho_kernels h' = ho_kernels h \<and> ho_graphs h' = ho_graphs h
     \<and> (\<forall>n. \<exists>c d. ho_nodes h' n = (ho_nodes h n)\<lparr>vn_incounter := c, vn_node_depth := d\<rparr>)"

lemma same_linksI:
  assumes "ho_sys h' = ho_sys h" "ho_refs h' = ho_refs h" "ho_kernels h' = ho_kernels h"
    "ho_graphs h' = ho_graphs h"
    "\<And>n. ho_nodes h' n = (ho_nodes h n)\<lparr>vn_incounter := vn_incounter (ho_nodes h' n),
                                          vn_node_depth := vn_node_depth (ho_nodes h' n)\<rparr>"
  shows "same_links h h'"
  using assms unfolding same_links_def by metis

lemma same_links_refl [simp]: "same_links h h"
  by (rule same_linksI) simp_all

lemma same_links_trans [trans]:
  assumes "same_links h h1" "same_links h1 h2" shows "same_links h h2"
proof (rule same_linksI)
  fix n
  obtain c d c' d' where "ho_nodes h1 n = (ho_nodes h n)\<lparr>vn_incounter := c, vn_node_depth := d\<rparr>"
    "ho_nodes h2 n = (ho_nodes h1 n)\<lparr>vn_incounter := c', vn_node_depth := d'\<rparr>"
    using assms unfolding same_links_def by metis
  then show "ho_nodes h2 n = (ho_nodes h n)\<lparr>vn_incounter := vn_incounter (ho_nodes h2 n),
      vn_node_depth := vn_node_depth (ho_nodes h2 n)\<rparr>" by simp
qed (use assms in \<open>auto simp: same_links_def\<close>)

lemma same_links_upd_sort [simp]: "same_links h (upd_sort f h)"
  by (rule same_linksI) (simp_all add: upd_sort_def)

lemma same_links_incounter [simp]: "same_links h (upd_vnode n (\<lambda>v. v\<lparr>vn_incounter := f v\<rparr>) h)"
  by (rule same_linksI) (simp_all add: upd_vnode_def)

lemma same_links_depth [simp]: "same_links h (upd_vnode n (\<lambda>v. v\<lparr>vn_node_depth := f v\<rparr>) h)"
  by (rule same_linksI) (simp_all add: upd_vnode_def)

lemma same_links_push [simp]: "same_links h (fst (ownGraphSortStackPush h n))"
  by (simp add: ownGraphSortStackPush_def)

lemma same_links_fields:
  assumes "same_links h h'"
  shows "vn_obj_desc (ho_nodes h' n) = vn_obj_desc (ho_nodes h n)"
    "vn_is_super_node (ho_nodes h' n) = vn_is_super_node (ho_nodes h n)"
    "ho_sys h' = ho_sys h"
proof -
  obtain c d where "ho_nodes h' n = (ho_nodes h n)\<lparr>vn_incounter := c, vn_node_depth := d\<rparr>"
    using assms unfolding same_links_def by metis
  then show "vn_obj_desc (ho_nodes h' n) = vn_obj_desc (ho_nodes h n)"
    "vn_is_super_node (ho_nodes h' n) = vn_is_super_node (ho_nodes h n)" by simp_all
qed (use assms in \<open>simp add: same_links_def\<close>)

lemma same_links_get:
  assumes "same_links h h'"
  shows "ownNodeGetNumInNodes h' n = ownNodeGetNumInNodes h n"
    "ownNodeGetNumOutNodes h' n = ownNodeGetNumOutNodes h n"
    "ownNodeGetNextNode h' n i = ownNodeGetNextNode h n i"
    "ownNodeGetNextInNode h' n i = ownNodeGetNextInNode h n i"
    "succs h' n = succs h n" "preds h' n = preds h n"
  using same_links_fields [OF assms]
  by (simp_all add: ownNodeGetNumInNodes_def ownNodeGetNumOutNodes_def ownNodeGetNextNode_def
      ownNodeGetNextInNode_def node_of_id_def succs_def preds_def cong: option.case_cong)

lemma same_links_ok: "same_links h h' \<Longrightarrow> links_ok h' ns = links_ok h ns"
  by (simp add: links_ok_def same_links_get same_links_fields)

section \<open>What the loops do\<close>

text \<open>The contents of the stack, from the bottom.\<close>

definition stack_list :: "host \<Rightarrow> uintptr list" where
  "stack_list h = take (unat (sc_stack_top (ho_sort h))) (sc_stack (ho_sort h))"

definition stack_ok :: "nat \<Rightarrow> host \<Rightarrow> bool" where
  "stack_ok m h \<longleftrightarrow> length (sc_stack (ho_sort h)) = TIVX_GRAPH_MAX_NODES
     \<and> length (sc_sorted_nodes (ho_sort h)) = TIVX_GRAPH_MAX_NODES
     \<and> unat (sc_stack_max_elems (ho_sort h)) = m \<and> m < TIVX_GRAPH_MAX_NODES
     \<and> unat (sc_stack_top (ho_sort h)) \<le> m"

lemma length_stack_list:
  "stack_ok m h \<Longrightarrow> length (stack_list h) = unat (sc_stack_top (ho_sort h))"
  by (simp add: stack_ok_def stack_list_def)

lemma stack_upd_vnode [simp]:
  "stack_list (upd_vnode n f h) = stack_list h" "stack_ok m (upd_vnode n f h) = stack_ok m h"
  "ho_sort (upd_vnode n f h) = ho_sort h"
  by (simp_all add: stack_list_def stack_ok_def upd_vnode_def)

lemma vnode_upd_vnode [simp]:
  "ho_nodes (upd_vnode n f h) m = (if m = n then f (ho_nodes h n) else ho_nodes h m)"
  by (simp add: upd_vnode_def)

lemma push_correct:
  assumes "stack_ok m h" "length (stack_list h) < m"
  shows "snd (ownGraphSortStackPush h n)"
    "stack_ok m (fst (ownGraphSortStackPush h n))"
    "stack_list (fst (ownGraphSortStackPush h n)) = stack_list h @ [n]"
    "ho_nodes (fst (ownGraphSortStackPush h n)) = ho_nodes h"
    "sc_sorted_nodes (ho_sort (fst (ownGraphSortStackPush h n))) = sc_sorted_nodes (ho_sort h)"
proof -
  let ?t = "sc_stack_top (ho_sort h)" and ?x = "sc_stack_max_elems (ho_sort h)"
  have len: "length (stack_list h) = unat ?t" by (rule length_stack_list [OF assms(1)])
  have lt: "?t < ?x" using assms len by (simp add: stack_ok_def word_less_nat_alt)
  have suc: "unat (?t + 1) = Suc (unat ?t)" using unat_inc_below [OF lt] by simp
  show "snd (ownGraphSortStackPush h n)" "ho_nodes (fst (ownGraphSortStackPush h n)) = ho_nodes h"
    "sc_sorted_nodes (ho_sort (fst (ownGraphSortStackPush h n))) = sc_sorted_nodes (ho_sort h)"
    "stack_ok m (fst (ownGraphSortStackPush h n))"
    using lt assms(1) suc by (simp_all add: ownGraphSortStackPush_def upd_sort_def stack_ok_def
        word_less_nat_alt)
  have "unat ?t < length (sc_stack (ho_sort h))" using assms len by (simp add: stack_ok_def)
  then show "stack_list (fst (ownGraphSortStackPush h n)) = stack_list h @ [n]"
    using lt suc by (simp add: ownGraphSortStackPush_def upd_sort_def stack_list_def
        take_Suc_conv_app_nth)
qed

lemma sort_init_correct:
  assumes "distinct ns" "stack_ok m h" "length (stack_list h) + length ns \<le> m"
    "\<And>n. n \<in> set ns \<Longrightarrow> \<not> vn_is_super_node (ho_nodes h n)"
  shows "same_links h (sort_init h ns) \<and> stack_ok m (sort_init h ns)
    \<and> stack_list (sort_init h ns) = stack_list h
        @ filter (\<lambda>n. (ucast (ownNodeGetNumInNodes h n) :: uint16) = 0) ns
    \<and> (\<forall>n. vn_incounter (ho_nodes (sort_init h ns) n)
          = (if n \<in> set ns then ucast (ownNodeGetNumInNodes h n) else vn_incounter (ho_nodes h n)))
    \<and> (\<forall>n. vn_node_depth (ho_nodes (sort_init h ns) n) = vn_node_depth (ho_nodes h n))"
  using assms
proof (induction ns arbitrary: h)
  case Nil
  then show ?case by simp
next
  case (Cons n ns)
  define c :: uint16 where "c = ucast (ownNodeGetNumInNodes h n)"
  define h1 where "h1 = upd_vnode n (\<lambda>v. v\<lparr>vn_incounter := c\<rparr>) h"
  define h2 where "h2 = (if c = 0 then fst (ownGraphSortStackPush h1 n) else h1)"
  have h1: "stack_ok m h1" "stack_list h1 = stack_list h" "length (stack_list h1) < m"
    using Cons.prems by (simp_all add: h1_def)
  note push = push_correct [OF h1(1,3), of n]
  have h2: "stack_ok m h2" "stack_list h2 = stack_list h @ (if c = 0 then [n] else [])"
    "ho_nodes h2 = ho_nodes h1"
    using push h1 by (simp_all add: h2_def)
  have same: "same_links h h2" unfolding h2_def h1_def
    by (simp add: same_links_trans [OF same_links_incounter same_links_push])
  have "sort_init h (n # ns) = sort_init h2 ns"
    using Cons.prems(4) by (simp add: h2_def h1_def c_def Let_def)
  moreover have "same_links h2 (sort_init h2 ns) \<and> stack_ok m (sort_init h2 ns)
    \<and> stack_list (sort_init h2 ns) = stack_list h2
        @ filter (\<lambda>n. (ucast (ownNodeGetNumInNodes h2 n) :: uint16) = 0) ns
    \<and> (\<forall>n. vn_incounter (ho_nodes (sort_init h2 ns) n)
          = (if n \<in> set ns then ucast (ownNodeGetNumInNodes h2 n) else vn_incounter (ho_nodes h2 n)))
    \<and> (\<forall>n. vn_node_depth (ho_nodes (sort_init h2 ns) n) = vn_node_depth (ho_nodes h2 n))"
    using Cons.prems h2 by (intro Cons.IH) (auto simp: h1_def)
  moreover have "ownNodeGetNumInNodes h2 = ownNodeGetNumInNodes h"
    by (rule ext) (rule same_links_get [OF same])
  moreover have "same_links h (sort_init h2 ns)" if "same_links h2 (sort_init h2 ns)"
    using same that by (rule same_links_trans)
  ultimately show ?case
    using h2 Cons.prems(1) by (simp add: c_def h1_def)
qed

lemma out_loop_correct:
  assumes "distinct (map (ownNodeGetNextNode h cur) js)" "stack_ok m h"
    "0 \<notin> set (map (ownNodeGetNextNode h cur) js)"
    "length (stack_list h) + length (filter (\<lambda>x. vn_incounter (ho_nodes h x) = 1)
        (map (ownNodeGetNextNode h cur) js)) \<le> m"
  shows "same_links h (out_loop h cur js) \<and> stack_ok m (out_loop h cur js)
    \<and> stack_list (out_loop h cur js) = stack_list h
        @ filter (\<lambda>x. vn_incounter (ho_nodes h x) = 1) (map (ownNodeGetNextNode h cur) js)
    \<and> (\<forall>x. vn_incounter (ho_nodes (out_loop h cur js) x)
          = (if x \<in> set (map (ownNodeGetNextNode h cur) js) then vn_incounter (ho_nodes h x) - 1
             else vn_incounter (ho_nodes h x)))
    \<and> (\<forall>x. vn_node_depth (ho_nodes (out_loop h cur js) x) = vn_node_depth (ho_nodes h x))
    \<and> sc_sorted_nodes (ho_sort (out_loop h cur js)) = sc_sorted_nodes (ho_sort h)"
  using assms
proof (induction js arbitrary: h)
  case Nil
  then show ?case by simp
next
  case (Cons j js)
  define x where "x = ownNodeGetNextNode h cur j"
  let ?ys = "map (ownNodeGetNextNode h cur) js"
  have x: "x \<noteq> 0" "x \<notin> set ?ys" using Cons.prems by (auto simp: x_def)
  define h1 where "h1 = upd_vnode x (\<lambda>v. v\<lparr>vn_incounter := vn_incounter v - 1\<rparr>) h"
  define h2 where "h2 = (if vn_incounter (ho_nodes h x) = 1 then fst (ownGraphSortStackPush h1 x) else h1)"
  have h1: "stack_ok m h1" "stack_list h1 = stack_list h"
    using Cons.prems by (simp_all add: h1_def)
  have push: "stack_ok m h2 \<and> stack_list h2
      = stack_list h @ (if vn_incounter (ho_nodes h x) = 1 then [x] else [])
    \<and> ho_nodes h2 = ho_nodes h1 \<and> sc_sorted_nodes (ho_sort h2) = sc_sorted_nodes (ho_sort h)"
  proof (cases "vn_incounter (ho_nodes h x) = 1")
    case True
    then have "length (stack_list h1) < m" using Cons.prems(4) h1 by (simp add: x_def)
    from push_correct [OF h1(1) this, of x] True h1 show ?thesis by (simp add: h2_def h1_def)
  next
    case False
    with h1 show ?thesis by (simp add: h2_def h1_def)
  qed
  have same: "same_links h h2" unfolding h2_def h1_def
    by (simp add: same_links_trans [OF same_links_incounter same_links_push])
  have next2: "ownNodeGetNextNode h2 cur = ownNodeGetNextNode h cur"
    by (rule ext) (rule same_links_get [OF same])
  have cnt: "vn_incounter (ho_nodes h2 y)
      = (if y = x then vn_incounter (ho_nodes h x) - 1 else vn_incounter (ho_nodes h y))" for y
    using push by (simp add: h1_def)
  have filt: "filter (\<lambda>y. vn_incounter (ho_nodes h2 y) = 1) ?ys
      = filter (\<lambda>y. vn_incounter (ho_nodes h y) = 1) ?ys"
    using x by (intro filter_cong) (auto simp: cnt)
  have "out_loop h cur (j # js) = out_loop h2 cur js"
    using x by (simp add: h2_def h1_def x_def [symmetric] Let_def)
  moreover have "same_links h2 (out_loop h2 cur js) \<and> stack_ok m (out_loop h2 cur js)
    \<and> stack_list (out_loop h2 cur js) = stack_list h2
        @ filter (\<lambda>x. vn_incounter (ho_nodes h2 x) = 1) (map (ownNodeGetNextNode h2 cur) js)
    \<and> (\<forall>x. vn_incounter (ho_nodes (out_loop h2 cur js) x)
          = (if x \<in> set (map (ownNodeGetNextNode h2 cur) js) then vn_incounter (ho_nodes h2 x) - 1
             else vn_incounter (ho_nodes h2 x)))
    \<and> (\<forall>x. vn_node_depth (ho_nodes (out_loop h2 cur js) x) = vn_node_depth (ho_nodes h2 x))
    \<and> sc_sorted_nodes (ho_sort (out_loop h2 cur js)) = sc_sorted_nodes (ho_sort h2)"
    using Cons.prems push filt by (intro Cons.IH) (simp_all add: next2 x_def [symmetric] filter_map split: if_splits)
  moreover have "same_links h (out_loop h2 cur js)" if "same_links h2 (out_loop h2 cur js)"
    using same that by (rule same_links_trans)
  moreover have "vn_node_depth (ho_nodes h2 y) = vn_node_depth (ho_nodes h y)" for y
    using push by (simp add: h1_def)
  ultimately show ?case
    using push cnt filt x(2) by (simp add: next2 x_def [symmetric])
qed

text \<open>The depth of a node is raised above that of each predecessor, no further.\<close>

lemma depth_loop_correct:
  assumes "cur \<notin> set (map (ownNodeGetNextInNode h cur) js)"
    "0 \<notin> set (map (ownNodeGetNextInNode h cur) js)"
    "\<And>p. p \<in> set (map (ownNodeGetNextInNode h cur) js) \<Longrightarrow>
        unat (vn_node_depth (ho_nodes h p)) + 1 < 2 ^ 32"
  shows "\<exists>d. depth_loop h cur js = upd_vnode cur (\<lambda>v. v\<lparr>vn_node_depth := d\<rparr>) h
    \<and> vn_node_depth (ho_nodes h cur) \<le> d
    \<and> (\<forall>p \<in> set (map (ownNodeGetNextInNode h cur) js). vn_node_depth (ho_nodes h p) < d)
    \<and> (d = vn_node_depth (ho_nodes h cur)
       \<or> (\<exists>p \<in> set (map (ownNodeGetNextInNode h cur) js). d = vn_node_depth (ho_nodes h p) + 1))"
  using assms
proof (induction js arbitrary: h)
  case Nil
  have "upd_vnode cur (\<lambda>v. v\<lparr>vn_node_depth := vn_node_depth (ho_nodes h cur)\<rparr>) h = h"
    by (simp add: upd_vnode_def)
  then show ?case by (intro exI [of _ "vn_node_depth (ho_nodes h cur)"]) simp
next
  case (Cons j js)
  define p where "p = ownNodeGetNextInNode h cur j"
  let ?dp = "vn_node_depth (ho_nodes h p)" and ?dc = "vn_node_depth (ho_nodes h cur)"
  define d1 where "d1 = (if ?dc \<le> ?dp then ?dp + 1 else ?dc)"
  define h1 where "h1 = upd_vnode cur (\<lambda>v. v\<lparr>vn_node_depth := d1\<rparr>) h"
  have same: "same_links h h1" by (simp add: h1_def)
  have next1: "ownNodeGetNextInNode h1 cur = ownNodeGetNextInNode h cur"
    by (rule ext) (rule same_links_get [OF same])
  have p: "p \<noteq> 0" "p \<noteq> cur" "unat ?dp + 1 < 2 ^ 32" using Cons.prems by (auto simp: p_def)
  have suc: "unat (?dp + 1) = unat ?dp + 1" using p(3) by (simp add: unat_word_ariths)
  have d1: "?dc \<le> d1" "?dp < d1" "d1 = ?dc \<or> d1 = ?dp + 1"
    using suc by (auto simp: d1_def word_le_nat_alt word_less_nat_alt)
  have "h1 = (if ?dc \<le> ?dp then upd_vnode cur (\<lambda>v. v\<lparr>vn_node_depth := ?dp + 1\<rparr>) h else h)"
    by (simp add: h1_def d1_def upd_vnode_def)
  then have step: "depth_loop h cur (j # js) = depth_loop h1 cur js"
    using p by (simp add: p_def [symmetric] Let_def)
  have other: "vn_node_depth (ho_nodes h1 q) = vn_node_depth (ho_nodes h q)"
    if q: "q \<in> set (map (ownNodeGetNextInNode h cur) js)" for q
  proof -
    have "q \<noteq> cur" using q Cons.prems(1) by (metis list.set_intros(2) list.simps(9))
    then show ?thesis by (simp add: h1_def)
  qed
  obtain d where d: "depth_loop h1 cur js = upd_vnode cur (\<lambda>v. v\<lparr>vn_node_depth := d\<rparr>) h1"
    "vn_node_depth (ho_nodes h1 cur) \<le> d"
    "\<forall>p \<in> set (map (ownNodeGetNextInNode h1 cur) js). vn_node_depth (ho_nodes h1 p) < d"
    "d = vn_node_depth (ho_nodes h1 cur)
       \<or> (\<exists>p \<in> set (map (ownNodeGetNextInNode h1 cur) js). d = vn_node_depth (ho_nodes h1 p) + 1)"
    using Cons.IH [of h1] Cons.prems other by (auto simp: next1)
  have "upd_vnode cur (\<lambda>v. v\<lparr>vn_node_depth := d\<rparr>) h1 = upd_vnode cur (\<lambda>v. v\<lparr>vn_node_depth := d\<rparr>) h"
    by (simp add: h1_def upd_vnode_def)
  moreover have "vn_node_depth (ho_nodes h1 cur) = d1" by (simp add: h1_def)
  ultimately show ?case
    using d d1 other step
    by (intro exI [of _ d]) (auto simp: next1 p_def [symmetric] intro: order_less_le_trans)
qed

section \<open>The invariant of the sort\<close>

text \<open>The nodes that have been taken off the stack, in that order.\<close>

definition sorted_so_far :: "host \<Rightarrow> uint16 \<Rightarrow> uintptr list" where
  "sorted_so_far h idx = take (unat idx) (sc_sorted_nodes (ho_sort h))"

definition sort_inv :: "host \<Rightarrow> uintptr list \<Rightarrow> host \<Rightarrow> uint16 \<Rightarrow> bool" where
  "sort_inv h0 ns h idx \<longleftrightarrow>
     same_links h0 h \<and> stack_ok (length ns) h \<and> unat idx \<le> length ns
   \<and> distinct (sorted_so_far h idx @ stack_list h)
   \<and> set (sorted_so_far h idx @ stack_list h) \<subseteq> set ns
   \<and> topo_sorted (preds h0) (sorted_so_far h idx)
   \<and> (\<forall>m \<in> set ns. unat (vn_incounter (ho_nodes h m))
         = card (set (preds h0 m) - set (sorted_so_far h idx)))
   \<and> (\<forall>m \<in> set ns. m \<in> set (sorted_so_far h idx @ stack_list h)
         \<longleftrightarrow> set (preds h0 m) \<subseteq> set (sorted_so_far h idx))"

text \<open>The depths: those of the sorted nodes lie above those of their predecessors, the others are
  as they were; none grows by more than one for each sorted node.\<close>

definition depth_inv :: "host \<Rightarrow> uintptr list \<Rightarrow> host \<Rightarrow> uint16 \<Rightarrow> bool" where
  "depth_inv h0 ns h idx \<longleftrightarrow>
     (\<forall>m \<in> set ns. unat (vn_node_depth (ho_nodes h m)) + 128 < 2 ^ 32 + unat idx)
   \<and> (\<forall>m \<in> set ns - set (sorted_so_far h idx).
        vn_node_depth (ho_nodes h m) = vn_node_depth (ho_nodes h0 m))
   \<and> (\<forall>m \<in> set (sorted_so_far h idx).
        (\<forall>p \<in> set (preds h0 m). vn_node_depth (ho_nodes h p) < vn_node_depth (ho_nodes h m))
      \<and> (vn_node_depth (ho_nodes h m) = vn_node_depth (ho_nodes h0 m)
         \<or> (\<exists>p \<in> set (preds h0 m). vn_node_depth (ho_nodes h m) = vn_node_depth (ho_nodes h p) + 1)))"

lemma pop_none: "stack_ok m h \<Longrightarrow> ownGraphSortStackPop h = None \<longleftrightarrow> stack_list h = []"
  by (auto simp: ownGraphSortStackPop_def stack_ok_def stack_list_def word_less_nat_alt
      unat_eq_0 [symmetric])

lemma pop_some:
  assumes "stack_ok m h" "ownGraphSortStackPop h = Some (h1, cur)"
  shows "stack_list h = stack_list h1 @ [cur]" "stack_ok m h1" "ho_nodes h1 = ho_nodes h"
    "sc_sorted_nodes (ho_sort h1) = sc_sorted_nodes (ho_sort h)" "same_links h h1"
proof -
  let ?t = "sc_stack_top (ho_sort h)"
  from assms(2) have t: "0 < ?t" and h1: "h1 = upd_sort (\<lambda>c. c\<lparr>sc_stack_top := sc_stack_top c - 1\<rparr>) h"
    and cur: "cur = sc_stack (ho_sort h) ! unat (?t - 1)"
    by (auto simp: ownGraphSortStackPop_def split: if_splits)
  have pred: "unat (?t - 1) = unat ?t - 1" by (rule unat_dec_pos [OF t])
  have "0 < unat ?t" using t by (simp add: word_less_nat_alt)
  then obtain k where k: "unat ?t = Suc k" by (cases "unat ?t") auto
  have "k < length (sc_stack (ho_sort h))" using k assms(1) by (simp add: stack_ok_def)
  then show "stack_list h = stack_list h1 @ [cur]"
    using pred k by (simp add: stack_list_def h1 cur upd_sort_def take_Suc_conv_app_nth)
  show "stack_ok m h1" "ho_nodes h1 = ho_nodes h"
    "sc_sorted_nodes (ho_sort h1) = sc_sorted_nodes (ho_sort h)" "same_links h h1"
    using assms(1) pred k by (simp_all add: h1 stack_ok_def) (simp_all add: upd_sort_def)
qed

lemma small_ucast:
  fixes w :: uint32
  assumes "w \<le> 8" shows "unat (ucast w :: uint16) = unat w"
proof -
  have "unat w \<le> 8" using assms by (simp add: word_le_nat_alt)
  then show ?thesis by (simp add: unsigned_ucast_eq take_bit_nat_eq_self)
qed

lemma unat_one_iff: "unat w = 1 \<longleftrightarrow> w = 1" for w :: uint16
proof
  assume "unat w = 1"
  then have "unat w = unat (1 :: uint16)" by simp
  then show "w = 1" by (rule unsigned_word_eqI)
qed simp

lemma card_diff_one:
  "finite A \<Longrightarrow> x \<in> A \<Longrightarrow> x \<notin> B \<Longrightarrow> card (A - B) = Suc (card (A - insert x B))"
  by (metis Diff_iff Diff_insert card_Suc_Diff1 finite_Diff)

text \<open>The set of nodes that become ready when \<open>cur\<close> is taken.\<close>

lemma ready_step:
  assumes "\<forall>m \<in> N. finite (pre m)" "\<forall>m \<in> N. c m = card (pre m - P)"
    and "\<forall>m \<in> N. m \<in> P \<union> S \<union> {cur} \<longleftrightarrow> pre m \<subseteq> P" "\<forall>m \<in> N. m \<in> X \<longleftrightarrow> cur \<in> pre m"
    and cur: "cur \<in> N" "cur \<notin> P" and m: "m \<in> N"
  shows "m \<in> P \<union> {cur} \<union> (S \<union> {x \<in> X. c x = 1}) \<longleftrightarrow> pre m \<subseteq> insert cur P"
    and "m \<in> X \<Longrightarrow> c m = Suc (card (pre m - insert cur P))"
    and "m \<notin> X \<Longrightarrow> c m = card (pre m - insert cur P)"
    and "m \<in> X \<Longrightarrow> c m = 1 \<Longrightarrow> m \<notin> P \<union> S \<union> {cur}"
proof -
  have fin: "finite (pre m)" and cnt: "c m = card (pre m - P)"
    and ready: "m \<in> P \<union> S \<union> {cur} \<longleftrightarrow> pre m \<subseteq> P" and suc: "m \<in> X \<longleftrightarrow> cur \<in> pre m"
    using assms(1-4) m by simp_all
  have in_X: "c m = Suc (card (pre m - insert cur P))" if "m \<in> X"
    using that card_diff_one [OF fin, of cur P] cnt suc cur(2) by simp
  show "m \<in> X \<Longrightarrow> c m = Suc (card (pre m - insert cur P))" by (rule in_X)
  show "m \<notin> X \<Longrightarrow> c m = card (pre m - insert cur P)"
    using suc cnt by simp
  show "m \<in> X \<Longrightarrow> c m = 1 \<Longrightarrow> m \<notin> P \<union> S \<union> {cur}"
    using suc cur(2) ready by auto
  have fd: "finite (pre m - insert cur P)" using fin by simp
  show "m \<in> P \<union> {cur} \<union> (S \<union> {x \<in> X. c x = 1}) \<longleftrightarrow> pre m \<subseteq> insert cur P"
  proof (cases "m \<in> X")
    case True
    then have "c m = 1 \<longleftrightarrow> pre m \<subseteq> insert cur P"
      using in_X fd by (auto simp: card_eq_0_iff)
    moreover have "m \<notin> P \<union> S \<union> {cur}" using True suc cur(2) ready by auto
    ultimately show ?thesis using True by auto
  next
    case False
    then have "pre m \<subseteq> insert cur P \<longleftrightarrow> pre m \<subseteq> P" using suc by auto
    with False ready show ?thesis by auto
  qed
qed

lemma links_okD:
  assumes "links_ok h ns" "n \<in> set ns"
  shows "n \<noteq> 0" "\<not> vn_is_super_node (ho_nodes h n)"
    "ownNodeGetNumInNodes h n \<le> 8" "ownNodeGetNumOutNodes h n \<le> 8"
    "set (succs h n) \<subseteq> set ns" "set (preds h n) \<subseteq> set ns" "distinct (succs h n)"
    "distinct (preds h n)" "m \<in> set ns \<Longrightarrow> m \<in> set (succs h n) \<longleftrightarrow> n \<in> set (preds h m)"
    "0 \<notin> set (succs h n)" "0 \<notin> set (preds h n)"
proof -
  have z: "0 \<notin> set ns" using assms(1) by (auto simp: links_ok_def)
  show "0 \<notin> set (succs h n)" "0 \<notin> set (preds h n)"
    using assms z by (simp add: links_ok_def, blast)+
qed (use assms in \<open>simp_all add: links_ok_def\<close>)

text \<open>The whole body of the loop, in terms of the links.\<close>

lemma sort_visit_effect:
  fixes idx :: uint16
  assumes ok: "links_ok h0 ns" and same: "same_links h0 h1" and cur: "cur \<in> set ns"
    and stk: "stack_ok (length ns) h1" and irr: "cur \<notin> set (preds h0 cur)"
    and room: "length (stack_list h1) + length (filter (\<lambda>x. vn_incounter (ho_nodes h1 x) = 1)
                 (succs h0 cur)) \<le> length ns"
    and bound: "\<And>p. p \<in> set (preds h0 cur) \<Longrightarrow> unat (vn_node_depth (ho_nodes h1 p)) + 1 < 2 ^ 32"
    and h': "h' = sort_visit h1 idx cur"
  obtains d where "same_links h0 h'" "stack_ok (length ns) h'"
    "stack_list h' = stack_list h1 @ filter (\<lambda>x. vn_incounter (ho_nodes h1 x) = 1) (succs h0 cur)"
    "\<And>x. vn_incounter (ho_nodes h' x) = (if x \<in> set (succs h0 cur)
        then vn_incounter (ho_nodes h1 x) - 1 else vn_incounter (ho_nodes h1 x))"
    "\<And>x. vn_node_depth (ho_nodes h' x) = (if x = cur then d else vn_node_depth (ho_nodes h1 x))"
    "sc_sorted_nodes (ho_sort h') = (sc_sorted_nodes (ho_sort h1))[unat idx := cur]"
    "vn_node_depth (ho_nodes h1 cur) \<le> d"
    "\<And>p. p \<in> set (preds h0 cur) \<Longrightarrow> vn_node_depth (ho_nodes h1 p) < d"
    "d = vn_node_depth (ho_nodes h1 cur)
      \<or> (\<exists>p \<in> set (preds h0 cur). d = vn_node_depth (ho_nodes h1 p) + 1)"
proof -
  note lk = links_okD(7,10,11,3,4) [OF ok cur]
  define h2 where "h2 = upd_sort (\<lambda>c. c\<lparr>sc_sorted_nodes := (sc_sorted_nodes c)[unat idx := cur]\<rparr>) h1"
  have h2: "same_links h0 h2" "stack_ok (length ns) h2" "stack_list h2 = stack_list h1"
    "ho_nodes h2 = ho_nodes h1"
    "sc_sorted_nodes (ho_sort h2) = (sc_sorted_nodes (ho_sort h1))[unat idx := cur]"
    using stk same_links_trans [OF same same_links_upd_sort]
    by (simp_all add: h2_def stack_ok_def stack_list_def) (simp_all add: upd_sort_def)
  note get2 = same_links_get [OF h2(1)]
  define ins where "ins = [0..<unat (ucast (ownNodeGetNumInNodes h2 cur) :: uint16)]"
  define outs where "outs = [0..<unat (ucast (ownNodeGetNumOutNodes h2 cur) :: uint16)]"
  have ins: "map (ownNodeGetNextInNode h2 cur) ins = preds h0 cur"
    using lk(4) by (simp add: ins_def get2 small_ucast preds_def)
  have outs: "map (ownNodeGetNextNode h0 cur) outs = succs h0 cur"
    using lk(5) by (simp add: outs_def get2 small_ucast succs_def)
  obtain d where d: "depth_loop h2 cur ins = upd_vnode cur (\<lambda>v. v\<lparr>vn_node_depth := d\<rparr>) h2"
    "vn_node_depth (ho_nodes h1 cur) \<le> d"
    "\<And>p. p \<in> set (preds h0 cur) \<Longrightarrow> vn_node_depth (ho_nodes h1 p) < d"
    "d = vn_node_depth (ho_nodes h1 cur)
      \<or> (\<exists>p \<in> set (preds h0 cur). d = vn_node_depth (ho_nodes h1 p) + 1)"
    using depth_loop_correct [of cur h2 ins] irr lk(3) bound unfolding ins h2(4) by metis
  define h3 where "h3 = upd_vnode cur (\<lambda>v. v\<lparr>vn_node_depth := d\<rparr>) h2"
  have h3: "same_links h0 h3" "stack_ok (length ns) h3" "stack_list h3 = stack_list h1"
    "\<And>x. vn_incounter (ho_nodes h3 x) = vn_incounter (ho_nodes h1 x)"
    "\<And>x. vn_node_depth (ho_nodes h3 x) = (if x = cur then d else vn_node_depth (ho_nodes h1 x))"
    "ho_sort h3 = ho_sort h2"
    using h2 same_links_trans [OF h2(1) same_links_depth] by (simp_all add: h3_def)
  have next3: "ownNodeGetNextNode h3 cur = ownNodeGetNextNode h0 cur"
    by (rule ext) (rule same_links_get [OF h3(1)])
  have h'3: "h' = out_loop h3 cur outs"
    by (simp add: h' sort_visit_def Let_def h2_def [symmetric] ins_def [symmetric] outs_def [symmetric]
        d(1) h3_def)
  note out = out_loop_correct [of h3 cur outs "length ns", unfolded next3 outs h3(3,4,5,6) h'3 [symmetric]]
  have "same_links h0 h'" using out lk(1,2) h3(1,2) room by (blast intro: same_links_trans)
  then show ?thesis
    using out lk(1,2) h3(2) room h2(5) d by (intro that [of d]) simp_all
qed

lemma depth_step:
  fixes d :: uint32
  assumes dep: "depth_inv h0 ns h idx" and P': "sorted_so_far h' (idx + 1) = P @ [cur]"
    and P: "P = sorted_so_far h idx" "cur \<notin> set P" "cur \<in> set ns" "topo_sorted (preds h0) P"
    and idx1: "unat (idx + 1) = unat idx + 1" and idx: "unat idx < 127"
    and pre: "set (preds h0 cur) \<subseteq> set P" "set P \<subseteq> set ns"
    and v: "\<And>x. vn_node_depth (ho_nodes h' x) = (if x = cur then d else vn_node_depth (ho_nodes h x))"
    "vn_node_depth (ho_nodes h cur) \<le> d"
    "\<And>p. p \<in> set (preds h0 cur) \<Longrightarrow> vn_node_depth (ho_nodes h p) < d"
    "d = vn_node_depth (ho_nodes h cur)
      \<or> (\<exists>p \<in> set (preds h0 cur). d = vn_node_depth (ho_nodes h p) + 1)"
  shows "depth_inv h0 ns h' (idx + 1)"
  unfolding depth_inv_def P'
proof (intro conjI ballI)
  have dep1: "unat (vn_node_depth (ho_nodes h m)) + 128 < 2 ^ 32 + unat idx" if "m \<in> set ns" for m
    using dep that by (simp add: depth_inv_def)
  have suc: "unat (vn_node_depth (ho_nodes h p) + 1) = unat (vn_node_depth (ho_nodes h p)) + 1"
    if "p \<in> set ns" for p
    using dep1 [OF that] idx by (simp add: unat_word_ariths)
  have ne: "p \<noteq> cur" if "p \<in> set P" for p using that P(2) by auto
  have closed: "p \<in> set P" if "m \<in> set P" "p \<in> set (preds h0 m)" for m p
    using topo_sorted_closed [OF P(4) that(1)] that(2) by auto
  fix m
  show "unat (vn_node_depth (ho_nodes h' m)) + 128 < 2 ^ 32 + unat (idx + 1)" if m: "m \<in> set ns"
  proof (cases "m = cur \<and> d \<noteq> vn_node_depth (ho_nodes h cur)")
    case True
    then obtain p where "p \<in> set ns" "d = vn_node_depth (ho_nodes h p) + 1" using v(4) pre by auto
    then show ?thesis using True dep1 suc idx1 by (simp add: v(1))
  next
    case False
    then show ?thesis using dep1 [OF m] idx1 by (auto simp: v(1))
  qed
  show "vn_node_depth (ho_nodes h' m) = vn_node_depth (ho_nodes h0 m)"
    if "m \<in> set ns - set (P @ [cur])"
    using that dep by (simp add: v(1) depth_inv_def P(1))
  assume m: "m \<in> set (P @ [cur])"
  show "vn_node_depth (ho_nodes h' p) < vn_node_depth (ho_nodes h' m)" if p: "p \<in> set (preds h0 m)" for p
  proof (cases "m = cur")
    case True
    then show ?thesis using p v(3) pre(1) ne by (auto simp: v(1))
  next
    case False
    then have "m \<in> set P" using m by simp
    then have "vn_node_depth (ho_nodes h p) < vn_node_depth (ho_nodes h m)" "p \<in> set P"
      using p dep closed by (simp_all add: depth_inv_def P(1))
    then show ?thesis using False ne by (simp add: v(1))
  qed
  show "vn_node_depth (ho_nodes h' m) = vn_node_depth (ho_nodes h0 m) \<or>
      (\<exists>p\<in>set (preds h0 m). vn_node_depth (ho_nodes h' m) = vn_node_depth (ho_nodes h' p) + 1)"
  proof (cases "m = cur")
    case True
    have "vn_node_depth (ho_nodes h cur) = vn_node_depth (ho_nodes h0 cur)"
      using dep P by (simp add: depth_inv_def)
    then show ?thesis using True v(4) pre(1) ne by (auto simp: v(1))
  next
    case False
    then have mP: "m \<in> set P" using m by simp
    with dep P(1) have "vn_node_depth (ho_nodes h m) = vn_node_depth (ho_nodes h0 m) \<or>
      (\<exists>p\<in>set (preds h0 m). vn_node_depth (ho_nodes h m) = vn_node_depth (ho_nodes h p) + 1)"
      by (simp add: depth_inv_def)
    then show ?thesis using False ne closed [OF mP] by (auto simp: v(1))
  qed
qed

lemma sort_visit_inv:
  assumes ok: "links_ok h0 ns" and inv: "sort_inv h0 ns h idx" and dep: "depth_inv h0 ns h idx"
    and pop: "ownGraphSortStackPop h = Some (h1, cur)"
  shows "sort_inv h0 ns (sort_visit h1 idx cur) (idx + 1)"
    and "depth_inv h0 ns (sort_visit h1 idx cur) (idx + 1)"
proof -
  let ?P = "sorted_so_far h idx" and ?S = "stack_list h1" and ?N = "set ns"
  have stk: "stack_ok (length ns) h" and same: "same_links h0 h"
    using inv by (simp_all add: sort_inv_def)
  note pop = pop_some [OF stk pop]
  have dist: "distinct (?P @ ?S @ [cur])" and sub: "set (?P @ ?S @ [cur]) \<subseteq> ?N"
    and topo: "topo_sorted (preds h0) ?P"
    using inv pop(1) by (simp_all add: sort_inv_def)
  have ready: "m \<in> set ?P \<union> set ?S \<union> {cur} \<longleftrightarrow> set (preds h0 m) \<subseteq> set ?P" if "m \<in> ?N" for m
  proof -
    have "m \<in> set (?P @ stack_list h) \<longleftrightarrow> set (preds h0 m) \<subseteq> set ?P"
      using inv that unfolding sort_inv_def by blast
    then show ?thesis by (simp add: pop(1) disj_ac)
  qed
  have cnt: "unat (vn_incounter (ho_nodes h m)) = card (set (preds h0 m) - set ?P)"
    if "m \<in> ?N" for m using inv that unfolding sort_inv_def by blast
  have cur: "cur \<in> ?N" "cur \<notin> set ?P" "set (preds h0 cur) \<subseteq> set ?P"
    using dist sub ready [of cur] by auto
  note lk = links_okD [OF ok cur(1)]
  define F where "F = filter (\<lambda>x. vn_incounter (ho_nodes h x) = 1) (succs h0 cur)"
  have F: "set F = {x \<in> set (succs h0 cur). unat (vn_incounter (ho_nodes h x)) = 1}"
    by (simp only: F_def set_filter unat_one_iff)
  have X: "m \<in> set (succs h0 cur) \<longleftrightarrow> cur \<in> set (preds h0 m)" if "m \<in> ?N" for m
    using lk(9) [OF that] .
  have B: "\<forall>m \<in> ?N. finite (set (preds h0 m))"
    "\<forall>m \<in> ?N. unat (vn_incounter (ho_nodes h m)) = card (set (preds h0 m) - set ?P)"
    "\<forall>m \<in> ?N. m \<in> set ?P \<union> set ?S \<union> {cur} \<longleftrightarrow> set (preds h0 m) \<subseteq> set ?P"
    "\<forall>m \<in> ?N. m \<in> set (succs h0 cur) \<longleftrightarrow> cur \<in> set (preds h0 m)"
    using cnt ready X by blast+
  note rs = ready_step [of ?N "\<lambda>m. set (preds h0 m)" "\<lambda>m. unat (vn_incounter (ho_nodes h m))"
      "set ?P" "set ?S" cur "set (succs h0 cur)", OF B cur(1,2)]
  have FN: "set F \<subseteq> ?N" using lk(5) F by auto
  have dF: "distinct ((?P @ [cur]) @ ?S @ F)"
  proof -
    have "x \<notin> set (?P @ ?S @ [cur])" if "x \<in> set F" for x
      using rs(4) [of x] that FN F by auto
    moreover have "distinct F" using lk(7) by (simp add: F_def)
    ultimately show ?thesis using dist by auto
  qed
  have sF: "set ((?P @ [cur]) @ ?S @ F) \<subseteq> ?N" using sub FN by auto
  have "card (set ((?P @ [cur]) @ ?S @ F)) \<le> card ?N" using sF by (intro card_mono) auto
  then have room: "length ?P + 1 + length ?S + length F \<le> length ns"
    using distinct_card [OF dF] distinct_card [of ns] ok by (simp add: links_ok_def)
  have idx: "length ?P = unat idx" "unat idx < length ns" "length ns < 128"
    "unat idx < length (sc_sorted_nodes (ho_sort h))"
    using inv room stk by (auto simp: sort_inv_def sorted_so_far_def stack_ok_def)
  have idx1: "unat (idx + 1) = unat idx + 1" using idx(2,3) by (simp add: unat_word_ariths)
  have bound: "unat (vn_node_depth (ho_nodes h p)) + 1 < 2 ^ 32" if "p \<in> ?N" for p
    using dep that idx(2,3) by (auto simp: depth_inv_def)
  define h' where "h' = sort_visit h1 idx cur"
  have "cur \<notin> set (preds h0 cur)" using cur by auto
  moreover have "length ?S + length (filter (\<lambda>x. vn_incounter (ho_nodes h1 x) = 1) (succs h0 cur))
      \<le> length ns" using room by (simp add: F_def pop(3))
  ultimately obtain d where v: "same_links h0 h'" "stack_ok (length ns) h'"
    "stack_list h' = ?S @ F"
    "\<And>x. vn_incounter (ho_nodes h' x) = (if x \<in> set (succs h0 cur)
        then vn_incounter (ho_nodes h x) - 1 else vn_incounter (ho_nodes h x))"
    "\<And>x. vn_node_depth (ho_nodes h' x) = (if x = cur then d else vn_node_depth (ho_nodes h x))"
    "sc_sorted_nodes (ho_sort h') = (sc_sorted_nodes (ho_sort h))[unat idx := cur]"
    "vn_node_depth (ho_nodes h cur) \<le> d"
    "\<And>p. p \<in> set (preds h0 cur) \<Longrightarrow> vn_node_depth (ho_nodes h p) < d"
    "d = vn_node_depth (ho_nodes h cur)
      \<or> (\<exists>p \<in> set (preds h0 cur). d = vn_node_depth (ho_nodes h p) + 1)"
    using sort_visit_effect [OF ok same_links_trans [OF same pop(5)] cur(1) pop(2), of h' idx]
      bound lk(6) unfolding F_def pop(3,4) h'_def by blast
  have P': "sorted_so_far h' (idx + 1) = ?P @ [cur]"
    using idx(4) idx1 by (simp add: sorted_so_far_def v(6) take_Suc_conv_app_nth)
  have cnt': "unat (vn_incounter (ho_nodes h' m)) = card (set (preds h0 m) - set (?P @ [cur]))"
    if m: "m \<in> ?N" for m
  proof (cases "m \<in> set (succs h0 cur)")
    case True
    with rs(2) [OF m] have c: "unat (vn_incounter (ho_nodes h m))
        = Suc (card (set (preds h0 m) - insert cur (set ?P)))" by blast
    then have "0 < vn_incounter (ho_nodes h m)" by (simp add: word_less_nat_alt)
    with c True show ?thesis by (simp add: v(4) unat_dec_pos)
  next
    case False
    with rs(3) [OF m] show ?thesis by (simp add: v(4))
  qed
  have ready': "m \<in> set ((?P @ [cur]) @ ?S @ F) \<longleftrightarrow> set (preds h0 m) \<subseteq> set (?P @ [cur])"
    if m: "m \<in> ?N" for m
    using rs(1) [OF m] by (simp add: F disj_ac)
  show "sort_inv h0 ns (sort_visit h1 idx cur) (idx + 1)"
    unfolding sort_inv_def h'_def [symmetric] P' v(3)
    using v(1,2) idx idx1 dF sF topo cur(3) cnt' ready' by simp
  show "depth_inv h0 ns (sort_visit h1 idx cur) (idx + 1)"
    unfolding h'_def [symmetric] using idx room sub
    by (intro depth_step [OF dep P' refl cur(2,1) topo idx1 _ cur(3) _ v(5,7,8,9)]) auto
qed

lemma sort_loop_correct:
  assumes ok: "links_ok h0 ns" and inv: "sort_inv h0 ns h idx" "depth_inv h0 ns h idx"
  shows "\<exists>h' idx'. sort_loop h idx = Some (h', idx') \<and> sort_inv h0 ns h' idx'
    \<and> depth_inv h0 ns h' idx' \<and> stack_list h' = []"
  using inv
proof (induction "length ns - unat idx" arbitrary: h idx rule: less_induct)
  case less
  have stk: "stack_ok (length ns) h" using less.prems(1) by (simp add: sort_inv_def)
  show ?case
  proof (cases "ownGraphSortStackPop h")
    case None
    then have "sort_loop h idx = Some (h, idx)" by (simp add: sort_loop.simps)
    with less.prems None pop_none [OF stk] show ?thesis by auto
  next
    case (Some hc)
    obtain h1 cur where pop: "ownGraphSortStackPop h = Some (h1, cur)" using Some by (cases hc) auto
    note step = sort_visit_inv [OF ok less.prems pop]
    have "unat idx < 128" "unat (idx + 1) \<le> length ns"
      using less.prems(1) step(1) by (auto simp: sort_inv_def stack_ok_def)
    then have "unat (idx + 1) = unat idx + 1" by (simp add: unat_word_ariths)
    with \<open>unat (idx + 1) \<le> length ns\<close> have "length ns - unat (idx + 1) < length ns - unat idx" by simp
    from less.hyps [OF this step] pop show ?thesis by (simp add: sort_loop.simps [of h])
  qed
qed

definition sort_memory_ok :: "host \<Rightarrow> bool" where
  "sort_memory_ok h \<longleftrightarrow> length (sc_stack (ho_sort h)) = TIVX_GRAPH_MAX_NODES
     \<and> length (sc_sorted_nodes (ho_sort h)) = TIVX_GRAPH_MAX_NODES"

lemma sort_start:
  assumes ok: "links_ok h ns" and mem: "sort_memory_ok h" and n: "length ns < 128"
    and max: "unat max_elems = length ns"
    and dep: "\<forall>m \<in> set ns. unat (vn_node_depth (ho_nodes h m)) + 128 < 2 ^ 32"
    and h1: "h1 = sort_init (ownGraphSortStackReset h max_elems) ns"
  shows "sort_inv h ns h1 0" "depth_inv h ns h1 0"
proof -
  define h0 where "h0 = ownGraphSortStackReset h max_elems"
  have h0: "same_links h h0" "stack_ok (length ns) h0" "stack_list h0 = []" "ho_nodes h0 = ho_nodes h"
    using mem max n by (simp_all add: h0_def ownGraphSortStackReset_def stack_ok_def stack_list_def
        sort_memory_ok_def) (simp_all add: upd_sort_def)
  have dist: "distinct ns" using ok by (simp add: links_ok_def)
  have room: "length (stack_list h0) + length ns \<le> length ns" by (simp add: h0(3))
  have no_super: "\<And>m. m \<in> set ns \<Longrightarrow> \<not> vn_is_super_node (ho_nodes h0 m)"
    using links_okD(2) [OF ok] by (simp add: h0(4))
  have num: "ownNodeGetNumInNodes h0 = ownNodeGetNumInNodes h"
    by (rule ext) (rule same_links_get [OF h0(1)])
  note init = sort_init_correct [OF dist h0(2) room no_super, unfolded h0(3,4) num,
      folded h1 [unfolded h0_def [symmetric]]]
  have cnt: "unat (ucast (ownNodeGetNumInNodes h m) :: uint16) = card (set (preds h m))"
    if "m \<in> set ns" for m
    using small_ucast [OF links_okD(3) [OF ok that]] distinct_card [OF links_okD(8) [OF ok that]]
    by (simp add: preds_def)
  have zero: "(ucast (ownNodeGetNumInNodes h m) :: uint16) = 0 \<longleftrightarrow> preds h m = []" if "m \<in> set ns" for m
    using cnt [OF that] by (auto simp: unat_eq_0 [symmetric])
  have same: "same_links h h1" using same_links_trans [OF h0(1)] init by blast
  have "(m \<in> set (stack_list h1)) = (preds h m = [])" if "m \<in> set ns" for m
    using init zero [OF that] that by simp
  then show "sort_inv h ns h1 0"
    unfolding sort_inv_def using init same dist cnt by (simp add: sorted_so_far_def topo_sorted_def)
  show "depth_inv h ns h1 0"
    using init dep by (simp add: depth_inv_def sorted_so_far_def)
qed

text \<open>What holds when the stack has run empty.\<close>

lemma sort_end:
  assumes ok: "links_ok h ns" and inv: "sort_inv h ns h' idx" and empty: "stack_list h' = []"
  shows "length (sorted_so_far h' idx) = unat idx"
    and "unat idx = length ns \<longleftrightarrow> acyclic (link_edges (preds h) ns)"
    and "unat idx = length ns \<Longrightarrow> mset (sorted_so_far h' idx) = mset ns"
proof -
  let ?P = "sorted_so_far h' idx"
  have P: "distinct ?P" "set ?P \<subseteq> set ns" "topo_sorted (preds h) ?P"
    and ready: "\<And>m. m \<in> set ns \<Longrightarrow> m \<in> set ?P \<longleftrightarrow> set (preds h m) \<subseteq> set ?P"
    using inv empty by (auto simp: sort_inv_def)
  have dist: "distinct ns" using ok by (simp add: links_ok_def)
  show len: "length ?P = unat idx"
    using inv by (auto simp: sort_inv_def sorted_so_far_def stack_ok_def)
  have full: "unat idx = length ns \<longleftrightarrow> set ?P = set ns"
    using distinct_card [OF P(1)] distinct_card [OF dist] len P(2)
    by (metis List.finite_set card_subset_eq)
  show "mset ?P = mset ns" if "unat idx = length ns"
    using that full P(1) dist by (simp add: set_eq_iff_mset_eq_distinct [symmetric])
  have "acyclic (link_edges (preds h) ns)" if "set ?P = set ns"
    using links.topo_acyclic [OF P(3)] that by simp
  moreover have "\<not> acyclic (link_edges (preds h) ns)" if "set ?P \<noteq> set ns"
  proof (rule links.stuck_cyclic [OF ok])
    show "set ns - set ?P \<noteq> {}" using that P(2) by auto
    show "\<exists>p \<in> set ns - set ?P. p \<in> set (preds h n)" if n: "n \<in> set ns - set ?P" for n
      using ready [of n] n links_okD(6) [OF ok, of n] by blast
  qed simp
  ultimately show "unat idx = length ns \<longleftrightarrow> acyclic (link_edges (preds h) ns)" using full by blast
qed

section \<open>The result of the sort\<close>

lemma sort_result:
  assumes n: "num_nodes < TIVX_GRAPH_MAX_NODES" "unat num_nodes \<le> length nodes"
    and ns: "ns = take (unat num_nodes) nodes" and ok: "links_ok h ns" and mem: "sort_memory_ok h"
    and dep: "\<forall>m \<in> set ns. unat (vn_node_depth (ho_nodes h m)) + 128 < 2 ^ 32"
  obtains h' idx where
    "ownGraphTopologicalSort h nodes num_nodes has_cycle =
       Some (h', (if unat idx = length ns then sorted_so_far h' idx else ns)
                   @ drop (unat num_nodes) nodes, unat idx \<noteq> length ns)"
    "sort_inv h ns h' idx" "depth_inv h ns h' idx" "stack_list h' = []"
proof -
  have len: "length ns = unat num_nodes" using n(2) by (simp add: ns)
  have lt: "unat num_nodes < 128" using n(1) by (simp add: word_less_nat_alt)
  then have max: "unat (ucast num_nodes :: uint16) = length ns"
    by (simp add: len unsigned_ucast_eq take_bit_nat_eq_self)
  note start = sort_start [OF ok mem _ max dep refl]
  obtain h' idx where loop: "sort_loop (sort_init (ownGraphSortStackReset h (ucast num_nodes)) ns) 0
      = Some (h', idx)" "sort_inv h ns h' idx" "depth_inv h ns h' idx" "stack_list h' = []"
    using sort_loop_correct [OF ok start] len lt by auto
  have "unat idx \<le> length ns" using loop(2) by (simp add: sort_inv_def)
  then have "(ucast idx = num_nodes) = (unat idx = length ns)"
  proof -
    have "unat (ucast idx :: uint32) = unat idx"
      using \<open>unat idx \<le> length ns\<close> len lt by (simp add: unsigned_ucast_eq take_bit_nat_eq_self)
    then show ?thesis using len by (metis unsigned_word_eqI)
  qed
  moreover have "ns @ drop (unat num_nodes) nodes = nodes" by (simp add: ns)
  ultimately have "ownGraphTopologicalSort h nodes num_nodes has_cycle =
       Some (h', (if unat idx = length ns then sorted_so_far h' idx else ns)
                   @ drop (unat num_nodes) nodes, unat idx \<noteq> length ns)"
    using loop(1) n(1) len
    by (simp add: ownGraphTopologicalSort_def ns [symmetric] sorted_so_far_def Let_def)
  with loop(2-4) show thesis by (intro that)
qed

lemma graph_sort_facts:
  assumes "num_nodes < TIVX_GRAPH_MAX_NODES" "unat num_nodes \<le> length nodes"
    and "ns = take (unat num_nodes) nodes" "links_ok h ns" "sort_memory_ok h"
    and "\<forall>m \<in> set ns. unat (vn_node_depth (ho_nodes h m)) + 128 < 2 ^ 32"
  shows "\<exists>h' ns' cyc. ownGraphTopologicalSort h nodes num_nodes has_cycle
            = Some (h', ns' @ drop (unat num_nodes) nodes, cyc)
    \<and> cyc = (\<not> acyclic (link_edges (preds h) ns))
    \<and> (cyc \<longrightarrow> ns' = ns) \<and> (\<not> cyc \<longrightarrow> mset ns' = mset ns \<and> topo_sorted (preds h) ns')
    \<and> same_links h h'"
proof -
  obtain h' idx where res: "ownGraphTopologicalSort h nodes num_nodes has_cycle =
       Some (h', (if unat idx = length ns then sorted_so_far h' idx else ns)
                   @ drop (unat num_nodes) nodes, unat idx \<noteq> length ns)"
    and inv: "sort_inv h ns h' idx" "stack_list h' = []"
    using sort_result [OF assms] by metis
  note fin = sort_end [OF assms(4) inv]
  show ?thesis using res fin inv(1)
    by (intro exI [of _ h'] exI [of _ "if unat idx = length ns then sorted_so_far h' idx else ns"]
        exI [of _ "unat idx \<noteq> length ns"]) (simp add: sort_inv_def)
qed

text \<open>C22: for a graph with fewer than 128 nodes whose links are consistent, the topological sort ends;
  it reports a cycle exactly when the links have one and then leaves the array of nodes as it was,
  and otherwise it leaves the same nodes in an order in which every node comes after all of its
  predecessors. The links, the descriptors and the other objects are untouched.\<close>

theorem graph_sort_correct:
  assumes "num_nodes < TIVX_GRAPH_MAX_NODES" "unat num_nodes \<le> length nodes"
    and "ns = take (unat num_nodes) nodes" "links_ok h ns" "sort_memory_ok h"
    and "\<forall>m \<in> set ns. unat (vn_node_depth (ho_nodes h m)) + 128 < 2 ^ 32"
  shows "\<exists>h' ns' cyc. ownGraphTopologicalSort h nodes num_nodes has_cycle
            = Some (h', ns' @ drop (unat num_nodes) nodes, cyc)
    \<and> cyc = (\<not> acyclic (link_edges (preds h) ns))
    \<and> (cyc \<longrightarrow> ns' = ns) \<and> (\<not> cyc \<longrightarrow> mset ns' = mset ns \<and> topo_sorted (preds h) ns')
    \<and> same_links h h'"
  by (rule graph_sort_facts [OF assms])

text \<open>Sorting a graph without cycles gives every node a depth greater than that of each of its
  predecessors, and no greater than needed: it is the depth the node had or one more than that of some
  predecessor.\<close>

theorem graph_sort_depth:
  assumes "num_nodes < TIVX_GRAPH_MAX_NODES" "unat num_nodes \<le> length nodes"
    and "ns = take (unat num_nodes) nodes" "links_ok h ns" "sort_memory_ok h"
    and "\<forall>m \<in> set ns. unat (vn_node_depth (ho_nodes h m)) + 128 < 2 ^ 32"
    and "acyclic (link_edges (preds h) ns)"
  shows "\<exists>h' nodes'. ownGraphTopologicalSort h nodes num_nodes has_cycle = Some (h', nodes', False)
    \<and> (\<forall>n \<in> set ns.
          (\<forall>p \<in> set (preds h n). vn_node_depth (ho_nodes h' p) < vn_node_depth (ho_nodes h' n))
        \<and> (vn_node_depth (ho_nodes h' n) = vn_node_depth (ho_nodes h n)
           \<or> (\<exists>p \<in> set (preds h n). vn_node_depth (ho_nodes h' n) = vn_node_depth (ho_nodes h' p) + 1)))"
proof -
  obtain h' idx where res: "ownGraphTopologicalSort h nodes num_nodes has_cycle =
       Some (h', (if unat idx = length ns then sorted_so_far h' idx else ns)
                   @ drop (unat num_nodes) nodes, unat idx \<noteq> length ns)"
    and inv: "sort_inv h ns h' idx" "stack_list h' = []" and dep: "depth_inv h ns h' idx"
    using sort_result [OF assms(1-6)] by metis
  note fin = sort_end [OF assms(4) inv]
  then have "unat idx = length ns" "set (sorted_so_far h' idx) = set ns"
    using assms(7) by (auto dest: mset_eq_setD)
  with res dep show ?thesis by (auto simp: depth_inv_def)
qed

text \<open>Node 1 feeds node 2, which feeds node 3.\<close>

definition chain_host :: host where
  "chain_host = host_of_links [([], [1]), ([0], [2]), ([1], [])]"

lemma chain_links: "links_ok chain_host [3, 1, 2] \<and> preds chain_host 1 = [] \<and> preds chain_host 2 = [1]
  \<and> preds chain_host 3 = [2]"
  by code_simp

lemma chain_memory: "sort_memory_ok chain_host"
  by (simp add: sort_memory_ok_def chain_host_def host_of_links_def)

lemma chain_depth: "vn_node_depth (ho_nodes chain_host n) = 1"
  by (simp add: chain_host_def host_of_links_def zero_vnode_def)

lemma chain_acyclic: "acyclic (link_edges (preds chain_host) [3, 1, 2])"
  using links.topo_acyclic [of chain_host "[1, 2, 3]" "[3, 1, 2]"] chain_links
  by (simp add: topo_sorted_def less_Suc_eq numeral_3_eq_3)

theorem graph_sort_correct_witness:
  "\<exists>h' ns' cyc. ownGraphTopologicalSort chain_host [3, 1, 2] 3 False = Some (h', ns', cyc)
    \<and> \<not> cyc \<and> ns' = [1, 2, 3]"
proof -
  obtain h' ns' cyc where r: "ownGraphTopologicalSort chain_host [3, 1, 2] 3 False = Some (h', ns', cyc)"
    "\<not> cyc" "mset ns' = mset [3, 1, 2]" "topo_sorted (preds chain_host) ns'"
    using graph_sort_correct [of 3 "[3, 1, 2]" "[3, 1, 2]" chain_host False] chain_links
      chain_memory chain_depth chain_acyclic by auto
  have "length ns' = 3" using r(3) by (metis mset_eq_length length_Cons list.size(3) numeral_3_eq_3)
  then obtain a b c where ns': "ns' = [a, b, c]"
    by (auto simp: numeral_3_eq_3 length_Suc_conv)
  have "distinct ns'" using mset_eq_imp_distinct_iff [OF r(3)] by simp
  then have "a \<in> {1, 2, 3}" "b \<in> {1, 2, 3}" "c \<in> {1, 2, 3}" "distinct [a, b, c]"
    using mset_eq_setD [OF r(3)] by (auto simp: ns')
  moreover have "set (preds chain_host a) = {}" "set (preds chain_host b) \<subseteq> {a}"
    using r(4) by (auto simp: topo_sorted_def ns' less_Suc_eq)
  ultimately have "a = 1 \<and> b = 2 \<and> c = 3" using chain_links by auto
  with r ns' show ?thesis by blast
qed

theorem graph_sort_depth_witness:
  "\<exists>h' nodes'. ownGraphTopologicalSort chain_host [3, 1, 2] 3 True = Some (h', nodes', False)
    \<and> vn_node_depth (ho_nodes h' 1) < vn_node_depth (ho_nodes h' 2)
    \<and> vn_node_depth (ho_nodes h' 2) < vn_node_depth (ho_nodes h' 3)"
  using graph_sort_depth [of 3 "[3, 1, 2]" "[3, 1, 2]" chain_host True] chain_links
    chain_memory chain_depth chain_acyclic by auto

end
