(* ===== verification/Graph_Links.thy ===== *)
theory Graph_Links
  imports Graph_Sort
begin

text \<open>
  How the verification of a graph finds its links, in \<open>source/framework/vx_graph_verify.c\<close>: which
  references match, \<open>ownGraphCalcInAndOutNodes\<close>, the head and leaf nodes and the list of data
  references with their numbers of consumers. Without bidirectional parameters the links are shown to
  be exactly the data flow of the parameters, so that the sort that follows orders producers before
  consumers.
\<close>

section \<open>Matching references\<close>

abbreviation (input) VX_KERNEL_MOVE :: vx_enum where "VX_KERNEL_MOVE \<equiv> 0x42"
abbreviation (input) TIVX_IMAGE_UNIFORM :: uint32 where "TIVX_IMAGE_UNIFORM \<equiv> 1"

definition ownGraphIsRefMatch :: "host \<Rightarrow> uintptr \<Rightarrow> uintptr \<Rightarrow> uintptr \<Rightarrow> bool" where
  "ownGraphIsRefMatch h graph ref1 ref2 =
     (if ref1 \<noteq> 0 \<and> ref2 \<noteq> 0 then
        (if ref1 = ref2 then True
         else if graph \<noteq> rf_scope (ho_refs h ref2) \<and> ref1 = rf_scope (ho_refs h ref2) then True
         else if rf_type (ho_refs h ref1) = VX_TYPE_IMAGE \<and> rf_type (ho_refs h ref2) = VX_TYPE_IMAGE then
           (rf_image_parent (ho_refs h ref1) \<noteq> 0 \<and> rf_image_parent (ho_refs h ref1) = ref2)
         \<or> (rf_image_parent (ho_refs h ref2) \<noteq> 0 \<and> rf_image_parent (ho_refs h ref2) = ref1)
         else False)
      else False)"

definition ownGraphCheckIsRefMatch :: "host \<Rightarrow> uintptr \<Rightarrow> uintptr \<Rightarrow> uintptr \<Rightarrow> bool" where
  "ownGraphCheckIsRefMatch h graph ref1 ref2 =
     (let parent_ref_node_cur = (if ref1 \<noteq> 0 \<and> rf_is_array_element (ho_refs h ref1)
                                 then rf_scope (ho_refs h ref1) else 0);
          parent_ref_node_next = (if ref2 \<noteq> 0 \<and> rf_is_array_element (ho_refs h ref2)
                                 then rf_scope (ho_refs h ref2) else 0)
      in ownGraphIsRefMatch h graph ref1 ref2
       \<or> ownGraphIsRefMatch h graph ref1 parent_ref_node_next
       \<or> ownGraphIsRefMatch h graph parent_ref_node_cur ref2)"

section \<open>The links of a graph\<close>

text \<open>The local variables of the loops of \<open>ownGraphCalcInAndOutNodes\<close>.\<close>

record calc_state =
  cs_host :: host
  cs_outputs_attached :: uint32
  cs_inputs_attached :: uint32
  cs_biputs_attached :: uint32
  cs_status :: vx_status

text \<open>The loop that puts the node of a bidirectional parameter before the consumers of the output.
  Replacing inputs leaves the number of outputs alone, so the bound is that of the start.\<close>

fun replace_in_loop :: "host \<Rightarrow> uintptr \<Rightarrow> uintptr \<Rightarrow> nat list \<Rightarrow> host \<times> vx_status" where
  "replace_in_loop h node_cur node_next [] = (h, VX_SUCCESS)"
| "replace_in_loop h node_cur node_next (i # idxs) =
     (let out_node = ownNodeGetNextNode h node_cur i in
      if out_node \<noteq> 0 then
        (case ownNodeReplaceInNode h out_node node_cur node_next of
           (h1, status) \<Rightarrow>
             if status = VX_SUCCESS then replace_in_loop h1 node_cur node_next idxs else (h1, status))
      else (h, VX_FAILURE))"

definition add_both :: "host \<Rightarrow> uintptr \<Rightarrow> uintptr \<Rightarrow> host \<times> vx_status" where
  "add_both h node_cur node_next =
     (case ownNodeAddOutNode h node_cur node_next of
        (h1, status) \<Rightarrow>
          if status = VX_SUCCESS then ownNodeAddInNode h1 node_next node_cur else (h1, status))"

definition link_bidirectional :: "host \<Rightarrow> uintptr \<Rightarrow> uintptr \<Rightarrow> host \<times> vx_status" where
  "link_bidirectional h node_cur node_next =
     (case replace_in_loop h node_cur node_next [0..<unat (ownNodeGetNumOutNodes h node_cur)] of
        (h1, status) \<Rightarrow>
          if status = VX_SUCCESS then
            add_both (upd_nd0 node_next (\<lambda>d. d\<lparr>nd_num_in_nodes := 0\<rparr>)
                       (upd_nd0 node_cur (\<lambda>d. d\<lparr>nd_num_out_nodes := 0\<rparr>) h1)) node_cur node_next
          else (h1, status))"

text \<open>The innermost step: parameter \<open>pn\<close> of node number \<open>nn\<close> against parameter \<open>pc\<close>, of
  direction \<open>prm_cur_dir\<close> and reference \<open>ref1\<close>, of node number \<open>nc\<close>.\<close>

definition link_step ::
  "uintptr \<Rightarrow> nat \<Rightarrow> nat \<Rightarrow> uintptr \<Rightarrow> calc_state \<Rightarrow> nat \<times> nat \<Rightarrow> calc_state" where
  "link_step graph nc pc ref1 c nnpn =
     (let (nn, pn) = nnpn; h = cs_host c;
          node_cur = gr_nodes (ho_graphs h graph) ! nc;
          node_next = gr_nodes (ho_graphs h graph) ! nn;
          prm_cur_dir = ownNodeGetParameterDir h node_cur pc;
          prm_next_dir = ownNodeGetParameterDir h node_next pn;
          ref2 = ownNodeGetParameterRef h node_next pn
      in if cs_status c = VX_SUCCESS \<and> ref2 \<noteq> 0 \<and> ownGraphCheckIsRefMatch h graph ref1 ref2 then
           (if nc = nn then
              (if pc \<noteq> pn then c\<lparr>cs_status := VX_FAILURE\<rparr> else c)
            else if prm_cur_dir = prm_next_dir then c\<lparr>cs_status := VX_FAILURE\<rparr>
            else if prm_next_dir = VX_INPUT then
              (let c1 = c\<lparr>cs_inputs_attached := cs_inputs_attached c + 1\<rparr> in
               if cs_biputs_attached c = 0 then
                 (case add_both h node_cur node_next of
                    (h1, status) \<Rightarrow> c1\<lparr>cs_host := h1, cs_status := status\<rparr>)
               else c1)
            else if prm_next_dir = VX_BIDIRECTIONAL then
              (case link_bidirectional h node_cur node_next of
                 (h1, status) \<Rightarrow>
                   c\<lparr>cs_host := h1, cs_biputs_attached := cs_biputs_attached c + 1, cs_status := status\<rparr>)
            else c\<lparr>cs_outputs_attached := cs_outputs_attached c + 1\<rparr>)
         else c)"

text \<open>All parameters of all nodes, in the order of the loops.\<close>

definition all_params :: "host \<Rightarrow> uintptr \<Rightarrow> (nat \<times> nat) list" where
  "all_params h graph =
     concat (map (\<lambda>n. map (Pair n)
         [0..<unat (ownNodeGetNumParameters h (gr_nodes (ho_graphs h graph) ! n))])
       [0..<unat (gr_num_nodes (ho_graphs h graph))])"

definition is_uniform_image :: "host \<Rightarrow> uintptr \<Rightarrow> bool" where
  "is_uniform_image h ref \<longleftrightarrow> rf_type (ho_refs h ref) = VX_TYPE_IMAGE
     \<and> im_create_type (od_body (sys_desc (ho_sys h) (the (rf_obj_desc (ho_refs h ref))))) = TIVX_IMAGE_UNIFORM"

text \<open>Parameter \<open>pc\<close> of node number \<open>nc\<close> against all parameters.\<close>

definition link_param :: "uintptr \<Rightarrow> host \<Rightarrow> nat \<Rightarrow> nat \<Rightarrow> host \<times> vx_status" where
  "link_param graph h nc pc =
     (let node_cur = gr_nodes (ho_graphs h graph) ! nc;
          prm_cur_dir = ownNodeGetParameterDir h node_cur pc;
          ref1 = ownNodeGetParameterRef h node_cur pc
      in if ref1 \<noteq> 0 \<and> (prm_cur_dir = VX_OUTPUT \<or> prm_cur_dir = VX_BIDIRECTIONAL) then
           (let c0 = \<lparr>cs_host = h, cs_outputs_attached = 0, cs_inputs_attached = 0,
                      cs_biputs_attached = 0,
                      cs_status = (if is_uniform_image h ref1 then VX_FAILURE else VX_SUCCESS)\<rparr>;
                c = foldl (link_step graph nc pc ref1) c0 (all_params h graph)
            in if prm_cur_dir = VX_BIDIRECTIONAL \<and> rf_is_virtual (ho_refs h ref1) then
                 (if cs_outputs_attached c \<noteq> 1 then (cs_host c, VX_FAILURE)
                  else if krn_enumeration (ho_kernels h (vn_kernel (ho_nodes h node_cur))) \<noteq> VX_KERNEL_MOVE
                          \<and> cs_inputs_attached c = 0
                  then (cs_host c, VX_FAILURE) else (cs_host c, cs_status c))
               else (cs_host c, cs_status c))
         else (h, VX_SUCCESS))"

fun link_params :: "uintptr \<Rightarrow> host \<Rightarrow> nat \<Rightarrow> nat list \<Rightarrow> host \<times> vx_status" where
  "link_params graph h nc [] = (h, VX_SUCCESS)"
| "link_params graph h nc (pc # pcs) =
     (case link_param graph h nc pc of
        (h1, status) \<Rightarrow> if status = VX_SUCCESS then link_params graph h1 nc pcs else (h1, status))"

fun link_nodes :: "uintptr \<Rightarrow> host \<Rightarrow> nat list \<Rightarrow> host \<times> vx_status" where
  "link_nodes graph h [] = (h, VX_SUCCESS)"
| "link_nodes graph h (nc # ncs) =
     (let num_node_params = ownNodeGetNumParameters h (gr_nodes (ho_graphs h graph) ! nc) in
      if 32 < num_node_params then (h, VX_ERROR_NO_RESOURCES)
      else (case link_params graph h nc [0..<unat num_node_params] of
              (h1, status) \<Rightarrow> if status = VX_SUCCESS then link_nodes graph h1 ncs else (h1, status)))"

definition ownGraphCalcInAndOutNodes :: "host \<Rightarrow> uintptr \<Rightarrow> host \<times> vx_status" where
  "ownGraphCalcInAndOutNodes h graph =
     link_nodes graph h [0..<unat (gr_num_nodes (ho_graphs h graph))]"

section \<open>Head and leaf nodes\<close>

abbreviation (input) TIVX_GRAPH_MAX_HEAD_NODES :: "'a::numeral" where "TIVX_GRAPH_MAX_HEAD_NODES \<equiv> 8"
abbreviation (input) TIVX_GRAPH_MAX_LEAF_NODES :: "'a::numeral" where "TIVX_GRAPH_MAX_LEAF_NODES \<equiv> 16"

definition add_head :: "uintptr \<Rightarrow> vx_graph_t \<Rightarrow> vx_graph_t \<times> vx_status" where
  "add_head node g =
     (if gr_num_head_nodes g \<ge> TIVX_GRAPH_MAX_HEAD_NODES
      then (g\<lparr>gr_num_head_nodes := TIVX_GRAPH_MAX_HEAD_NODES\<rparr>, VX_ERROR_NO_RESOURCES)
      else (g\<lparr>gr_head_nodes := (gr_head_nodes g)[unat (gr_num_head_nodes g) := node],
              gr_num_head_nodes := gr_num_head_nodes g + 1\<rparr>, VX_SUCCESS))"

definition add_leaf :: "uintptr \<Rightarrow> vx_graph_t \<Rightarrow> vx_graph_t \<times> vx_status" where
  "add_leaf node g =
     (if gr_num_leaf_nodes g \<ge> TIVX_GRAPH_MAX_LEAF_NODES
      then (g\<lparr>gr_num_leaf_nodes := TIVX_GRAPH_MAX_LEAF_NODES\<rparr>, VX_ERROR_NO_RESOURCES)
      else (g\<lparr>gr_leaf_nodes := (gr_leaf_nodes g)[unat (gr_num_leaf_nodes g) := node],
              gr_num_leaf_nodes := gr_num_leaf_nodes g + 1\<rparr>, VX_SUCCESS))"

fun head_leaf_loop :: "host \<Rightarrow> uintptr list \<Rightarrow> vx_graph_t \<Rightarrow> vx_graph_t \<times> vx_status" where
  "head_leaf_loop h [] g = (g, VX_SUCCESS)"
| "head_leaf_loop h (node # ns) g =
     (if vn_super_node (ho_nodes h node) = 0 then
        (let (g1, st1) = (if ownNodeGetNumInNodes h node = 0 then add_head node g else (g, VX_SUCCESS));
             (g2, st2) = (if ownNodeGetNumOutNodes h node = 0 \<and> st1 = VX_SUCCESS then add_leaf node g1
                          else (g1, st1))
         in if st2 = VX_SUCCESS then head_leaf_loop h ns g2 else (g2, st2))
      else head_leaf_loop h ns g)"

definition ownGraphCalcHeadAndLeafNodes :: "host \<Rightarrow> uintptr \<Rightarrow> host \<times> vx_status" where
  "ownGraphCalcHeadAndLeafNodes h graph =
     (let g = ho_graphs h graph in
      case head_leaf_loop h (take (unat (gr_num_nodes g)) (gr_nodes g))
             (g\<lparr>gr_num_head_nodes := 0, gr_num_leaf_nodes := 0\<rparr>) of
        (g1, status) \<Rightarrow> (upd_graph graph (\<lambda>_. g1) h, status))"

section \<open>The links as lists of ids\<close>

definition out_ids :: "host \<Rightarrow> uintptr \<Rightarrow> uint16 list" where
  "out_ids h n = take (unat (nd_num_out_nodes (nd0 h n))) (nd_out_node_id (nd0 h n))"

definition in_ids :: "host \<Rightarrow> uintptr \<Rightarrow> uint16 list" where
  "in_ids h n = take (unat (nd_num_in_nodes (nd0 h n))) (nd_in_node_id (nd0 h n))"

text \<open>Each node has a descriptor of its own, which names it.\<close>

definition node_desc_ok :: "host \<Rightarrow> uintptr \<Rightarrow> bool" where
  "node_desc_ok h n \<longleftrightarrow> n \<noteq> 0 \<and> obj_desc0 h n \<noteq> None
     \<and> the (obj_desc0 h n) < num_entries (sys_tbl (ho_sys h)) \<and> the (obj_desc0 h n) < 2 ^ 16
     \<and> id0 h n = of_nat (the (obj_desc0 h n))
     \<and> od_host_ref (sys_desc (ho_sys h) (the (obj_desc0 h n))) = n
     \<and> length (nd_out_node_id (nd0 h n)) = 8 \<and> length (nd_in_node_id (nd0 h n)) = 8
     \<and> nd_num_out_nodes (nd0 h n) \<le> 8 \<and> nd_num_in_nodes (nd0 h n) \<le> 8"

definition nodes_ok :: "host \<Rightarrow> uintptr list \<Rightarrow> bool" where
  "nodes_ok h ns \<longleftrightarrow> distinct ns
     \<and> (\<forall>n \<in> set ns. node_desc_ok h n \<and> \<not> vn_is_super_node (ho_nodes h n))"

lemma only_sys_upd_nd0 [simp]: "only_sys h (upd_nd0 n f h)"
  by (auto simp: only_sys_def upd_nd0_def)

lemma only_sys_fields:
  assumes "only_sys h h'"
  shows "ho_nodes h' = ho_nodes h" "ho_refs h' = ho_refs h" "ho_kernels h' = ho_kernels h"
    "ho_graphs h' = ho_graphs h" "ho_sort h' = ho_sort h"
    "ownNodeGetNumParameters h' = ownNodeGetNumParameters h"
    "ownNodeGetParameterDir h' = ownNodeGetParameterDir h"
    "ownNodeGetParameterRef h' = ownNodeGetParameterRef h"
    "ownGraphCheckIsRefMatch h' = ownGraphCheckIsRefMatch h"
proof -
  obtain s where h': "h' = h\<lparr>ho_sys := s\<rparr>" using assms by (auto simp: only_sys_def)
  show "ho_nodes h' = ho_nodes h" "ho_refs h' = ho_refs h" "ho_kernels h' = ho_kernels h"
    "ho_graphs h' = ho_graphs h" "ho_sort h' = ho_sort h" by (simp_all add: h')
  show "ownNodeGetNumParameters h' = ownNodeGetNumParameters h"
    "ownNodeGetParameterDir h' = ownNodeGetParameterDir h"
    "ownNodeGetParameterRef h' = ownNodeGetParameterRef h"
    by (simp_all add: h' fun_eq_iff ownNodeGetNumParameters_def ownNodeGetParameterDir_def
        ownNodeGetParameterRef_def)
  have "ownGraphIsRefMatch h' = ownGraphIsRefMatch h"
    by (simp add: h' fun_eq_iff ownGraphIsRefMatch_def)
  then show "ownGraphCheckIsRefMatch h' = ownGraphCheckIsRefMatch h"
    by (simp add: h' fun_eq_iff ownGraphCheckIsRefMatch_def)
qed

lemma desc_of_inj:
  assumes "node_desc_ok h n" "node_desc_ok h m" "the (obj_desc0 h n) = the (obj_desc0 h m)"
  shows "n = m"
  using assms unfolding node_desc_ok_def by metis

lemma nd0_upd_nd0:
  assumes "node_desc_ok h n" "node_desc_ok h m"
  shows "nd0 (upd_nd0 n f h) m = (if m = n then f (nd0 h n) else nd0 h m)"
proof -
  have "the (obj_desc0 h n) = the (obj_desc0 h m) \<longleftrightarrow> n = m" using desc_of_inj [OF assms] by auto
  moreover have "the (obj_desc0 h n) < length (odt_table_base (sys_tbl (ho_sys h)))"
    using assms(1) by (simp add: node_desc_ok_def)
  ultimately show ?thesis
    by (auto simp: upd_nd0_def upd_node_def upd_desc_def nth_list_update)
qed

lemma nth_update: "xs[i := x] ! j = (if i = j \<and> i < length xs then x else xs ! j)"
  by (metis list_update_beyond not_le_imp_less nth_list_update_eq nth_list_update_neq)

lemma base_upd_nd0:
  "od_obj_desc_id (sys_desc (ho_sys (upd_nd0 n f h)) i) = od_obj_desc_id (sys_desc (ho_sys h) i)"
  "od_host_ref (sys_desc (ho_sys (upd_nd0 n f h)) i) = od_host_ref (sys_desc (ho_sys h) i)"
  "num_entries (sys_tbl (ho_sys (upd_nd0 n f h))) = num_entries (sys_tbl (ho_sys h))"
  "ho_nodes (upd_nd0 n f h) = ho_nodes h"
  by (simp_all add: upd_nd0_def upd_node_def upd_desc_def nth_update)

lemma node_of_id_id0:
  assumes "node_desc_ok h m" shows "node_of_id h (id0 h m) = m"
  using assms by (auto simp: node_desc_ok_def node_of_id_def ownObjDescGet_def unat_of_nat)

lemma succs_out_ids:
  assumes "node_desc_ok h n" shows "succs h n = map (node_of_id h) (out_ids h n)"
proof -
  have "unat (nd_num_out_nodes (nd0 h n)) \<le> length (nd_out_node_id (nd0 h n))"
    using assms by (simp add: node_desc_ok_def word_le_nat_alt)
  then show ?thesis
    using assms by (auto simp: succs_def out_ids_def ownNodeGetNumOutNodes_def node_desc_ok_def
        ownNodeGetNextNode_def intro!: nth_equalityI)
qed

lemma preds_in_ids:
  assumes "node_desc_ok h n" shows "preds h n = map (node_of_id h) (in_ids h n)"
proof -
  have "unat (nd_num_in_nodes (nd0 h n)) \<le> length (nd_in_node_id (nd0 h n))"
    using assms by (simp add: node_desc_ok_def word_le_nat_alt)
  then show ?thesis
    using assms by (auto simp: preds_def in_ids_def ownNodeGetNumInNodes_def node_desc_ok_def
        ownNodeGetNextInNode_def intro!: nth_equalityI)
qed

lemma add_link_correct:
  assumes "length ids = 8" "num \<le> 8" "add_link num ids i = ((num', ids'), st)"
  shows "length ids' = 8" "num' \<le> 8"
    "st = VX_SUCCESS \<Longrightarrow> take (unat num') ids' = (if i \<in> set (take (unat num) ids)
       then take (unat num) ids else take (unat num) ids @ [i])"
    "st \<noteq> VX_SUCCESS \<Longrightarrow> num' = num \<and> ids' = ids"
proof -
  have "num' \<le> 8 \<and> length ids' = 8 \<and> (st = VX_SUCCESS \<longrightarrow> take (unat num') ids'
      = (if i \<in> set (take (unat num) ids) then take (unat num) ids else take (unat num) ids @ [i]))
    \<and> (st \<noteq> VX_SUCCESS \<longrightarrow> num' = num \<and> ids' = ids)"
  proof (cases "i \<in> set (take (unat num) ids) \<or> \<not> num < 8")
    case True
    then show ?thesis using assms by (auto simp: add_link_def split: if_splits)
  next
    case False
    then have lt: "num < 8" by simp
    have "unat (num + 1) = Suc (unat num)" using unat_inc_below [OF lt] by simp
    moreover have "unat num < 8" using lt by (simp add: word_less_nat_alt)
    moreover have "num' = num + 1 \<and> ids' = ids[unat num := i] \<and> st = VX_SUCCESS"
      using False lt assms(3) by (auto simp: add_link_def)
    ultimately show ?thesis
      using False assms(1) by (simp add: word_le_nat_alt take_Suc_conv_app_nth)
  qed
  then show "length ids' = 8" "num' \<le> 8"
    "st = VX_SUCCESS \<Longrightarrow> take (unat num') ids' = (if i \<in> set (take (unat num) ids)
       then take (unat num) ids else take (unat num) ids @ [i])"
    "st \<noteq> VX_SUCCESS \<Longrightarrow> num' = num \<and> ids' = ids" by blast+
qed

lemma node_desc_ok_upd_nd0:
  assumes "node_desc_ok h n" "node_desc_ok h m"
    and "length (nd_out_node_id (f (nd0 h n))) = 8" "length (nd_in_node_id (f (nd0 h n))) = 8"
      "nd_num_out_nodes (f (nd0 h n)) \<le> 8" "nd_num_in_nodes (f (nd0 h n)) \<le> 8"
  shows "node_desc_ok (upd_nd0 n f h) m"
proof (cases "m = n")
  case True
  then show ?thesis
    using assms nd0_upd_nd0 [OF assms(1,1), of f] unfolding node_desc_ok_def base_upd_nd0 by simp
next
  case False
  then show ?thesis
    using assms(2) nd0_upd_nd0 [OF assms(1,2), of f] unfolding node_desc_ok_def base_upd_nd0 by simp
qed

lemma id0_upd_nd0: "id0 (upd_nd0 n f h) m = id0 h m"
  by (simp only: base_upd_nd0)

lemma add_out_correct:
  assumes n: "node_desc_ok h n" and m: "node_desc_ok h m"
    and run: "ownNodeAddOutNode h n m = (h', st)"
  shows "only_sys h h'" "\<And>x. id0 h' x = id0 h x" "\<And>x. node_desc_ok h x \<Longrightarrow> node_desc_ok h' x"
    "\<And>x. node_desc_ok h x \<Longrightarrow> in_ids h' x = in_ids h x"
    "\<And>x. node_desc_ok h x \<Longrightarrow> st = VX_SUCCESS \<Longrightarrow> out_ids h' x
       = (if x = n \<and> id0 h m \<notin> set (out_ids h n) then out_ids h n @ [id0 h m] else out_ids h x)"
proof -
  obtain num ids where al: "add_link (nd_num_out_nodes (nd0 h n)) (nd_out_node_id (nd0 h n)) (id0 h m)
      = ((num, ids), st)"
    and h': "h' = upd_nd0 n (\<lambda>d. d\<lparr>nd_num_out_nodes := num, nd_out_node_id := ids\<rparr>) h"
    using run by (auto simp: ownNodeAddOutNode_def split: prod.splits)
  have len: "length (nd_out_node_id (nd0 h n)) = 8" "nd_num_out_nodes (nd0 h n) \<le> 8"
    using n by (simp_all add: node_desc_ok_def)
  note al' = add_link_correct [OF len al]
  show "only_sys h h'" "\<And>x. id0 h' x = id0 h x" by (simp add: h') (simp only: h' id0_upd_nd0)
  show "node_desc_ok h' x" if "node_desc_ok h x" for x
    unfolding h' by (rule node_desc_ok_upd_nd0 [OF n that])
      (use n al' in \<open>simp_all add: node_desc_ok_def\<close>)
  show "in_ids h' x = in_ids h x" if "node_desc_ok h x" for x
    using nd0_upd_nd0 [OF n that] by (simp add: in_ids_def h')
  show "out_ids h' x = (if x = n \<and> id0 h m \<notin> set (out_ids h n) then out_ids h n @ [id0 h m]
      else out_ids h x)" if "node_desc_ok h x" "st = VX_SUCCESS" for x
    using nd0_upd_nd0 [OF n that(1)] al'(3) [OF that(2)] by (simp add: out_ids_def h')
qed

lemma add_in_correct:
  assumes n: "node_desc_ok h n" and m: "node_desc_ok h m"
    and run: "ownNodeAddInNode h n m = (h', st)"
  shows "only_sys h h'" "\<And>x. id0 h' x = id0 h x" "\<And>x. node_desc_ok h x \<Longrightarrow> node_desc_ok h' x"
    "\<And>x. node_desc_ok h x \<Longrightarrow> out_ids h' x = out_ids h x"
    "\<And>x. node_desc_ok h x \<Longrightarrow> st = VX_SUCCESS \<Longrightarrow> in_ids h' x
       = (if x = n \<and> id0 h m \<notin> set (in_ids h n) then in_ids h n @ [id0 h m] else in_ids h x)"
proof -
  obtain num ids where al: "add_link (nd_num_in_nodes (nd0 h n)) (nd_in_node_id (nd0 h n)) (id0 h m)
      = ((num, ids), st)"
    and h': "h' = upd_nd0 n (\<lambda>d. d\<lparr>nd_num_in_nodes := num, nd_in_node_id := ids\<rparr>) h"
    using run by (auto simp: ownNodeAddInNode_def split: prod.splits)
  have len: "length (nd_in_node_id (nd0 h n)) = 8" "nd_num_in_nodes (nd0 h n) \<le> 8"
    using n by (simp_all add: node_desc_ok_def)
  note al' = add_link_correct [OF len al]
  show "only_sys h h'" "\<And>x. id0 h' x = id0 h x" by (simp add: h') (simp only: h' id0_upd_nd0)
  show "node_desc_ok h' x" if "node_desc_ok h x" for x
    unfolding h' by (rule node_desc_ok_upd_nd0 [OF n that])
      (use n al' in \<open>simp_all add: node_desc_ok_def\<close>)
  show "out_ids h' x = out_ids h x" if "node_desc_ok h x" for x
    using nd0_upd_nd0 [OF n that] by (simp add: out_ids_def h')
  show "in_ids h' x = (if x = n \<and> id0 h m \<notin> set (in_ids h n) then in_ids h n @ [id0 h m]
      else in_ids h x)" if "node_desc_ok h x" "st = VX_SUCCESS" for x
    using nd0_upd_nd0 [OF n that(1)] al'(3) [OF that(2)] by (simp add: in_ids_def h')
qed

text \<open>The arrays of the nodes \<open>ns\<close> hold the edges \<open>E\<close>, each once and in both directions.\<close>

definition holds_edges :: "host \<Rightarrow> uintptr list \<Rightarrow> (uintptr \<times> uintptr) set \<Rightarrow> bool" where
  "holds_edges h ns E \<longleftrightarrow> nodes_ok h ns \<and> E \<subseteq> set ns \<times> set ns
     \<and> (\<forall>n \<in> set ns. distinct (out_ids h n) \<and> distinct (in_ids h n)
          \<and> set (out_ids h n) = id0 h ` {m. (n, m) \<in> E}
          \<and> set (in_ids h n) = id0 h ` {p. (p, n) \<in> E})"

lemma add_both_correct:
  assumes inv: "holds_edges h ns E" and n: "n \<in> set ns" and m: "m \<in> set ns"
    and run: "add_both h n m = (h', VX_SUCCESS)"
  shows "only_sys h h' \<and> holds_edges h' ns (insert (n, m) E)"
proof -
  obtain h1 where out: "ownNodeAddOutNode h n m = (h1, VX_SUCCESS)"
    and inn: "ownNodeAddInNode h1 m n = (h', VX_SUCCESS)"
    using run by (auto simp: add_both_def split: prod.splits if_splits)
  have ok: "node_desc_ok h x" if "x \<in> set ns" for x
    using inv that by (simp add: holds_edges_def nodes_ok_def)
  note o = add_out_correct [OF ok [OF n] ok [OF m] out]
  note i = add_in_correct [OF o(3) [OF ok [OF m]] o(3) [OF ok [OF n]] inn]
  have same: "only_sys h h'" using o(1) i(1) by (rule only_sys_trans)
  have ids: "id0 h' x = id0 h x" for x using o(2) i(2) by simp
  have inj: "id0 h x = id0 h y \<Longrightarrow> x = y" if "x \<in> set ns" "y \<in> set ns" for x y
    using node_of_id_id0 [OF ok [OF that(1)]] node_of_id_id0 [OF ok [OF that(2)]] by metis
  have outs: "out_ids h' x = (if x = n \<and> id0 h m \<notin> set (out_ids h n) then out_ids h n @ [id0 h m]
      else out_ids h x)" if "x \<in> set ns" for x
    using o(5) [OF ok [OF that]] i(4) [OF o(3) [OF ok [OF that]]] by simp
  have ins: "in_ids h' x = (if x = m \<and> id0 h n \<notin> set (in_ids h m) then in_ids h m @ [id0 h n]
      else in_ids h x)" if "x \<in> set ns" for x
    using i(5) [OF o(3) [OF ok [OF that]]] o(4) [OF ok [OF that]] o(4) [OF ok [OF m]] o(2) by simp
  have "nodes_ok h' ns"
    using inv o(3) i(3) only_sys_fields(1) [OF same] by (simp add: holds_edges_def nodes_ok_def)
  moreover have "distinct (out_ids h' x) \<and> distinct (in_ids h' x)
      \<and> set (out_ids h' x) = id0 h' ` {y. (x, y) \<in> insert (n, m) E}
      \<and> set (in_ids h' x) = id0 h' ` {y. (y, x) \<in> insert (n, m) E}" if x: "x \<in> set ns" for x
    using inv x unfolding outs [OF x] ins [OF x] ids holds_edges_def by auto
  ultimately show ?thesis using same inv n m by (auto simp: holds_edges_def)
qed

section \<open>The links are the data flow\<close>

abbreviation (input) graph_node :: "host \<Rightarrow> uintptr \<Rightarrow> nat \<Rightarrow> uintptr" where
  "graph_node h g i \<equiv> gr_nodes (ho_graphs h g) ! i"

text \<open>Output parameter \<open>pc\<close> of node number \<open>nc\<close> feeds input parameter \<open>pn\<close> of node number \<open>nn\<close>.\<close>

definition param_flow :: "host \<Rightarrow> uintptr \<Rightarrow> nat \<Rightarrow> nat \<Rightarrow> nat \<Rightarrow> nat \<Rightarrow> bool" where
  "param_flow h g nc pc nn pn \<longleftrightarrow>
     (let ref1 = ownNodeGetParameterRef h (graph_node h g nc) pc;
          ref2 = ownNodeGetParameterRef h (graph_node h g nn) pn
      in ref1 \<noteq> 0 \<and> ref2 \<noteq> 0 \<and> ownGraphCheckIsRefMatch h g ref1 ref2
       \<and> ownNodeGetParameterDir h (graph_node h g nc) pc = VX_OUTPUT
       \<and> ownNodeGetParameterDir h (graph_node h g nn) pn = VX_INPUT)"

definition num_prms :: "host \<Rightarrow> uintptr \<Rightarrow> nat \<Rightarrow> nat" where
  "num_prms h g i = unat (ownNodeGetNumParameters h (graph_node h g i))"

text \<open>Node number \<open>i\<close> feeds node number \<open>j\<close>.\<close>

definition feeds :: "host \<Rightarrow> uintptr \<Rightarrow> nat \<Rightarrow> nat \<Rightarrow> bool" where
  "feeds h g i j \<longleftrightarrow> (\<exists>pc < num_prms h g i. \<exists>pn < num_prms h g j. param_flow h g i pc j pn)"

text \<open>Every parameter is an input or an output.\<close>

definition no_bidirectional :: "host \<Rightarrow> uintptr \<Rightarrow> bool" where
  "no_bidirectional h g \<longleftrightarrow> (\<forall>(n, p) \<in> set (all_params h g).
     ownNodeGetParameterDir h (graph_node h g n) p \<in> {VX_INPUT, VX_OUTPUT})"

lemma all_params_iff:
  "(n, p) \<in> set (all_params h g) \<longleftrightarrow> n < unat (gr_num_nodes (ho_graphs h g)) \<and> p < num_prms h g n"
  by (auto simp: all_params_def num_prms_def image_iff)

lemma only_sys_flow:
  assumes "only_sys h h'"
  shows "param_flow h' = param_flow h" "num_prms h' = num_prms h" "all_params h' = all_params h"
    "feeds h' = feeds h" "no_bidirectional h' = no_bidirectional h"
  using only_sys_fields [OF assms]
  by (simp_all add: fun_eq_iff param_flow_def num_prms_def all_params_def feeds_def no_bidirectional_def)

definition graph_nodes :: "host \<Rightarrow> uintptr \<Rightarrow> uintptr list" where
  "graph_nodes h g = take (unat (gr_num_nodes (ho_graphs h g))) (gr_nodes (ho_graphs h g))"

lemma graph_node_in:
  assumes "i < length (graph_nodes h g)"
  shows "graph_node h g i = graph_nodes h g ! i" "graph_node h g i \<in> set (graph_nodes h g)"
proof -
  show e: "graph_node h g i = graph_nodes h g ! i" using assms by (simp add: graph_nodes_def)
  show "graph_node h g i \<in> set (graph_nodes h g)" unfolding e by (rule nth_mem [OF assms])
qed

lemma link_step_status:
  "cs_status (link_step g nc pc ref1 c x) = VX_SUCCESS \<Longrightarrow> cs_status c = VX_SUCCESS"
  by (cases "cs_status c = VX_SUCCESS") (auto simp: link_step_def Let_def split: prod.splits)

lemma link_step_flow:
  assumes inv: "holds_edges (cs_host c) ns E" "cs_biputs_attached c = 0"
    and ns: "ns = graph_nodes (cs_host c) g" "nc < length ns" "nn < length ns"
    and dir: "ownNodeGetParameterDir (cs_host c) (graph_node (cs_host c) g nn) pn \<in> {VX_INPUT, VX_OUTPUT}"
    and cur: "ownNodeGetParameterDir (cs_host c) (graph_node (cs_host c) g nc) pc = VX_OUTPUT"
      "ref1 = ownNodeGetParameterRef (cs_host c) (graph_node (cs_host c) g nc) pc" "ref1 \<noteq> 0"
    and run: "c' = link_step g nc pc ref1 c (nn, pn)" "cs_status c' = VX_SUCCESS"
  shows "only_sys (cs_host c) (cs_host c')" "cs_biputs_attached c' = 0"
    "holds_edges (cs_host c') ns (E \<union> (if param_flow (cs_host c) g nc pc nn pn
        then {(graph_node (cs_host c) g nc, graph_node (cs_host c) g nn)} else {}))"
proof -
  let ?h = "cs_host c"
  let ?ref2 = "ownNodeGetParameterRef ?h (graph_node ?h g nn) pn"
  have st: "cs_status c = VX_SUCCESS" using link_step_status run by metis
  have "only_sys ?h (cs_host c') \<and> cs_biputs_attached c' = 0
    \<and> holds_edges (cs_host c') ns (E \<union> (if param_flow ?h g nc pc nn pn
        then {(graph_node ?h g nc, graph_node ?h g nn)} else {}))"
  proof (cases "?ref2 \<noteq> 0 \<and> ownGraphCheckIsRefMatch ?h g ref1 ?ref2")
    case False
    then have "c' = c" "\<not> param_flow ?h g nc pc nn pn"
      using cur by (auto simp: run(1) link_step_def param_flow_def Let_def)
    then show ?thesis using inv by simp
  next
    case match: True
    show ?thesis
    proof (cases "nc = nn")
      case True
      then have "c' = c" "pc = pn" using match st run by (auto simp: link_step_def Let_def split: if_splits)
      moreover have "\<not> param_flow ?h g nc pc nn pn"
        using True \<open>pc = pn\<close> cur by (auto simp: param_flow_def Let_def)
      ultimately show ?thesis using inv by simp
    next
      case False
      have inp: "ownNodeGetParameterDir ?h (graph_node ?h g nn) pn = VX_INPUT"
        using dir cur(1) match st False run by (auto simp: link_step_def Let_def)
      then have flow: "param_flow ?h g nc pc nn pn" using match cur by (simp add: param_flow_def Let_def)
      obtain h1 where add: "add_both ?h (graph_node ?h g nc) (graph_node ?h g nn) = (h1, VX_SUCCESS)"
        and c': "cs_host c' = h1" "cs_biputs_attached c' = 0"
        using match st False run inp cur(1) inv(2)
        by (auto simp: link_step_def Let_def split: prod.splits)
      have "only_sys ?h h1 \<and> holds_edges h1 ns (insert (graph_node ?h g nc, graph_node ?h g nn) E)"
        using graph_node_in(2) ns by (intro add_both_correct [OF inv(1) _ _ add]) auto
      then show ?thesis using flow c' by simp
    qed
  qed
  then show "only_sys (cs_host c) (cs_host c')" "cs_biputs_attached c' = 0"
    "holds_edges (cs_host c') ns (E \<union> (if param_flow (cs_host c) g nc pc nn pn
        then {(graph_node (cs_host c) g nc, graph_node (cs_host c) g nn)} else {}))" by blast+
qed

text \<open>The edges that the parameters in \<open>L\<close> add for parameter \<open>pc\<close> of node number \<open>nc\<close>.\<close>

definition flow_edges ::
  "host \<Rightarrow> uintptr \<Rightarrow> nat \<Rightarrow> nat \<Rightarrow> (nat \<times> nat) set \<Rightarrow> (uintptr \<times> uintptr) set" where
  "flow_edges h g nc pc L =
     {(graph_node h g nc, graph_node h g nn) | nn. \<exists>pn. (nn, pn) \<in> L \<and> param_flow h g nc pc nn pn}"

lemma flow_edges_insert:
  "flow_edges h g nc pc (insert (nn, pn) L) = flow_edges h g nc pc L \<union>
     (if param_flow h g nc pc nn pn then {(graph_node h g nc, graph_node h g nn)} else {})"
  by (auto simp: flow_edges_def)

lemma only_sys_nodes:
  assumes "only_sys h h'" shows "graph_nodes h' = graph_nodes h" "flow_edges h' = flow_edges h"
  using only_sys_fields(4) [OF assms] only_sys_flow(1) [OF assms]
  by (simp_all add: fun_eq_iff graph_nodes_def flow_edges_def)

lemma link_fold_flow:
  assumes inv: "holds_edges h ns E" and ns: "ns = graph_nodes h g" "nc < length ns"
    and len: "unat (gr_num_nodes (ho_graphs h g)) \<le> length (gr_nodes (ho_graphs h g))"
    and L: "set L \<subseteq> set (all_params h g)" and bid: "no_bidirectional h g"
    and cur: "ownNodeGetParameterDir h (graph_node h g nc) pc = VX_OUTPUT"
      "ref1 = ownNodeGetParameterRef h (graph_node h g nc) pc" "ref1 \<noteq> 0"
    and c0: "cs_host c0 = h" "cs_biputs_attached c0 = 0"
    and st: "cs_status (foldl (link_step g nc pc ref1) c0 L) = VX_SUCCESS"
  shows "only_sys h (cs_host (foldl (link_step g nc pc ref1) c0 L))
    \<and> cs_biputs_attached (foldl (link_step g nc pc ref1) c0 L) = 0
    \<and> holds_edges (cs_host (foldl (link_step g nc pc ref1) c0 L)) ns (E \<union> flow_edges h g nc pc (set L))"
  using L st
proof (induction L rule: rev_induct)
  case Nil
  then show ?case using inv c0 by (simp add: flow_edges_def)
next
  case (snoc x L)
  define c where "c = foldl (link_step g nc pc ref1) c0 L"
  obtain nn pn where x: "x = (nn, pn)" by (cases x)
  have run: "cs_status (link_step g nc pc ref1 c (nn, pn)) = VX_SUCCESS"
    using snoc.prems(2) by (simp add: c_def x)
  have IH: "only_sys h (cs_host c)" "cs_biputs_attached c = 0"
    "holds_edges (cs_host c) ns (E \<union> flow_edges h g nc pc (set L))"
    using snoc.IH snoc.prems(1) link_step_status [OF run] by (simp_all add: c_def)
  note f = only_sys_fields [OF IH(1)] only_sys_flow [OF IH(1)] only_sys_nodes [OF IH(1)]
  have in_ps: "(nn, pn) \<in> set (all_params h g)" using snoc.prems(1) x by simp
  then have nn: "nn < length (graph_nodes h g)" "ns = graph_nodes (cs_host c) g"
    using ns len by (auto simp: all_params_iff graph_nodes_def f)
  have dir: "ownNodeGetParameterDir (cs_host c) (graph_node (cs_host c) g nn) pn \<in> {VX_INPUT, VX_OUTPUT}"
    using bid in_ps unfolding no_bidirectional_def f by blast
  have cur': "nn < length ns"
    "ownNodeGetParameterDir (cs_host c) (graph_node (cs_host c) g nc) pc = VX_OUTPUT"
    "ref1 = ownNodeGetParameterRef (cs_host c) (graph_node (cs_host c) g nc) pc"
    using cur nn(1) ns(1) by (simp_all only: f)
  note step = link_step_flow [OF IH(3,2) nn(2) ns(2) cur'(1) dir cur'(2,3) cur(3) refl run]
  have "holds_edges (cs_host (link_step g nc pc ref1 c (nn, pn))) ns
      (E \<union> flow_edges h g nc pc (insert (nn, pn) (set L)))"
    using step(3) unfolding f flow_edges_insert Un_assoc .
  then show ?case
    using only_sys_trans [OF IH(1) step(1)] step(2) by (simp add: x c_def [symmetric])
qed

text \<open>What the loops have linked so far: nothing but descriptors changes, and the arrays hold the
  edges of the parameters that have been looked at.\<close>

definition linked :: "host \<Rightarrow> uintptr \<Rightarrow> (uintptr \<times> uintptr) set \<Rightarrow> host \<Rightarrow> bool" where
  "linked h0 g E h \<longleftrightarrow> only_sys h0 h \<and> holds_edges h (graph_nodes h0 g) E"

definition links_input :: "host \<Rightarrow> uintptr \<Rightarrow> bool" where
  "links_input h g \<longleftrightarrow> no_bidirectional h g
     \<and> unat (gr_num_nodes (ho_graphs h g)) \<le> length (gr_nodes (ho_graphs h g))"

lemma link_param_flow:
  assumes ok: "links_input h0 g" and inv: "linked h0 g E h"
    and nc: "nc < length (graph_nodes h0 g)" and pc: "pc < num_prms h0 g nc"
    and run: "link_param g h nc pc = (h', VX_SUCCESS)"
  shows "linked h0 g (E \<union> flow_edges h0 g nc pc (set (all_params h0 g))) h'"
proof -
  have same: "only_sys h0 h" and he: "holds_edges h (graph_nodes h0 g) E"
    using inv by (simp_all add: linked_def)
  note f = only_sys_fields [OF same] only_sys_flow [OF same] only_sys_nodes [OF same]
  let ?dir = "ownNodeGetParameterDir h (graph_node h g nc) pc"
  let ?ref = "ownNodeGetParameterRef h (graph_node h g nc) pc"
  have "(nc, pc) \<in> set (all_params h0 g)" using nc pc by (simp add: all_params_iff graph_nodes_def)
  then have dir: "?dir = VX_INPUT \<or> ?dir = VX_OUTPUT"
    using ok unfolding links_input_def no_bidirectional_def f by blast
  show ?thesis
  proof (cases "?dir = VX_OUTPUT \<and> ?ref \<noteq> 0")
    case False
    then have "\<not> param_flow h0 g nc pc nn pn" for nn pn by (auto simp: param_flow_def Let_def f)
    then have "flow_edges h0 g nc pc (set (all_params h0 g)) = {}" by (simp add: flow_edges_def)
    moreover have "h' = h" using run False dir by (auto simp: link_param_def Let_def)
    ultimately show ?thesis using inv by simp
  next
    case True
    define c0 where "c0 = \<lparr>cs_host = h, cs_outputs_attached = 0, cs_inputs_attached = 0,
      cs_biputs_attached = 0, cs_status = (if is_uniform_image h ?ref then VX_FAILURE else VX_SUCCESS)\<rparr>"
    define c where "c = foldl (link_step g nc pc ?ref) c0 (all_params h g)"
    have c: "h' = cs_host c" "cs_status c = VX_SUCCESS"
      using run True by (auto simp: link_param_def Let_def c_def c0_def)
    have "only_sys h (cs_host c) \<and> cs_biputs_attached c = 0
      \<and> holds_edges (cs_host c) (graph_nodes h0 g) (E \<union> flow_edges h g nc pc (set (all_params h g)))"
      unfolding c_def
      using ok he nc True c(2) by (intro link_fold_flow)
        (auto simp: f c0_def c_def links_input_def)
    then show ?thesis using same c(1) by (auto simp: linked_def f intro: only_sys_trans)
  qed
qed

lemma link_params_flow:
  assumes "links_input h0 g" "linked h0 g E h" "nc < length (graph_nodes h0 g)"
    "set pcs \<subseteq> {..<num_prms h0 g nc}" "link_params g h nc pcs = (h', VX_SUCCESS)"
  shows "linked h0 g (E \<union> (\<Union>pc \<in> set pcs. flow_edges h0 g nc pc (set (all_params h0 g)))) h'"
  using assms
proof (induction pcs arbitrary: h E)
  case Nil
  then show ?case by simp
next
  case (Cons pc pcs)
  obtain h1 where h1: "link_param g h nc pc = (h1, VX_SUCCESS)"
    "link_params g h1 nc pcs = (h', VX_SUCCESS)"
    using Cons.prems(5) by (auto split: prod.splits if_splits)
  have "linked h0 g (E \<union> flow_edges h0 g nc pc (set (all_params h0 g))) h1"
    using Cons.prems(4) by (intro link_param_flow [OF Cons.prems(1,2,3) _ h1(1)]) simp
  from Cons.IH [OF Cons.prems(1) this Cons.prems(3) _ h1(2)] Cons.prems(4) show ?case
    by (simp add: Un_assoc)
qed

lemma link_nodes_flow:
  assumes "links_input h0 g" "linked h0 g E h" "set ncs \<subseteq> {..<length (graph_nodes h0 g)}"
    "link_nodes g h ncs = (h', VX_SUCCESS)"
  shows "linked h0 g (E \<union> (\<Union>nc \<in> set ncs. \<Union>pc \<in> {..<num_prms h0 g nc}.
      flow_edges h0 g nc pc (set (all_params h0 g)))) h'"
  using assms
proof (induction ncs arbitrary: h E)
  case Nil
  then show ?case by simp
next
  case (Cons nc ncs)
  note f = only_sys_fields only_sys_flow
  have same: "only_sys h0 h" using Cons.prems(2) by (simp add: linked_def)
  have n: "unat (ownNodeGetNumParameters h (graph_node h g nc)) = num_prms h0 g nc"
    by (simp add: num_prms_def only_sys_fields [OF same])
  obtain h1 where h1: "link_params g h nc [0..<num_prms h0 g nc] = (h1, VX_SUCCESS)"
    "link_nodes g h1 ncs = (h', VX_SUCCESS)"
    using Cons.prems(4) by (auto simp: n Let_def split: prod.splits if_splits)
  have "linked h0 g (E \<union> (\<Union>pc \<in> set [0..<num_prms h0 g nc].
      flow_edges h0 g nc pc (set (all_params h0 g)))) h1"
    using Cons.prems(3) by (intro link_params_flow [OF Cons.prems(1,2) _ _ h1(1)]) auto
  from Cons.IH [OF Cons.prems(1) this _ h1(2)] Cons.prems(3) show ?case
    by (simp add: Un_assoc lessThan_atLeast0)
qed

lemma flow_edges_feeds:
  assumes "unat (gr_num_nodes (ho_graphs h g)) \<le> length (gr_nodes (ho_graphs h g))"
  shows "(\<Union>nc \<in> {..<length (graph_nodes h g)}. \<Union>pc \<in> {..<num_prms h g nc}.
      flow_edges h g nc pc (set (all_params h g)))
    = {(graph_nodes h g ! i, graph_nodes h g ! j) | i j. i < length (graph_nodes h g)
        \<and> j < length (graph_nodes h g) \<and> feeds h g i j}"
proof -
  have "length (graph_nodes h g) = unat (gr_num_nodes (ho_graphs h g))"
    using assms by (simp add: graph_nodes_def)
  then have ps: "(n, p) \<in> set (all_params h g) \<longleftrightarrow> n < length (graph_nodes h g) \<and> p < num_prms h g n" for n p
    by (simp add: all_params_iff)
  have "(\<Union>nc \<in> {..<length (graph_nodes h g)}. \<Union>pc \<in> {..<num_prms h g nc}.
      flow_edges h g nc pc (set (all_params h g)))
    = {(graph_node h g i, graph_node h g j) | i j. i < length (graph_nodes h g)
        \<and> j < length (graph_nodes h g) \<and> feeds h g i j}"
    unfolding flow_edges_def feeds_def ps by blast
  also have "\<dots> = {(graph_nodes h g ! i, graph_nodes h g ! j) | i j. i < length (graph_nodes h g)
        \<and> j < length (graph_nodes h g) \<and> feeds h g i j}"
    by (intro Collect_cong) (metis graph_node_in(1))
  finally show ?thesis .
qed

lemma holds_edges_links:
  assumes "holds_edges h ns E"
  shows "links_ok h ns"
    and "n \<in> set ns \<Longrightarrow> set (succs h n) = {m. (n, m) \<in> E}"
    and "n \<in> set ns \<Longrightarrow> set (preds h n) = {p. (p, n) \<in> E}"
proof -
  have ok: "node_desc_ok h x" "\<not> vn_is_super_node (ho_nodes h x)" if "x \<in> set ns" for x
    using assms that by (simp_all add: holds_edges_def nodes_ok_def)
  have E: "E \<subseteq> set ns \<times> set ns" "distinct ns" using assms by (simp_all add: holds_edges_def nodes_ok_def)
  have ids: "distinct (out_ids h x)" "distinct (in_ids h x)"
    "set (out_ids h x) = id0 h ` {m. (x, m) \<in> E}" "set (in_ids h x) = id0 h ` {p. (p, x) \<in> E}"
    if "x \<in> set ns" for x
    using assms that by (simp_all add: holds_edges_def)
  have img: "node_of_id h ` id0 h ` M = M" if "M \<subseteq> set ns" for M
    using that node_of_id_id0 [OF ok(1)] by (force simp: image_iff)
  have inj: "inj_on (node_of_id h) (id0 h ` M)" if "M \<subseteq> set ns" for M
    using that node_of_id_id0 [OF ok(1)] by (intro inj_onI) (clarify, metis subsetD)
  have sub: "{m. (x, m) \<in> E} \<subseteq> set ns" "{p. (p, x) \<in> E} \<subseteq> set ns" for x using E by auto
  have su: "set (succs h x) = {m. (x, m) \<in> E}" if "x \<in> set ns" for x
    using ids(3) [OF that] img [OF sub(1)] by (simp add: succs_out_ids [OF ok(1) [OF that]])
  have pr: "set (preds h x) = {p. (p, x) \<in> E}" if "x \<in> set ns" for x
    using ids(4) [OF that] img [OF sub(2)] by (simp add: preds_in_ids [OF ok(1) [OF that]])
  have di: "distinct (succs h x)" "distinct (preds h x)" if "x \<in> set ns" for x
    using ids [OF that] inj [OF sub(1)] inj [OF sub(2)]
    by (simp_all add: succs_out_ids [OF ok(1) [OF that]] preds_in_ids [OF ok(1) [OF that]] distinct_map)
  show "links_ok h ns"
    unfolding links_ok_def ownNodeGetNumInNodes_def ownNodeGetNumOutNodes_def
    using E(2) ok su pr di sub by (simp add: node_desc_ok_def)
  show "n \<in> set ns \<Longrightarrow> set (succs h n) = {m. (n, m) \<in> E}" by (rule su)
  show "n \<in> set ns \<Longrightarrow> set (preds h n) = {p. (p, n) \<in> E}" by (rule pr)
qed

text \<open>A graph whose nodes have not been linked yet.\<close>

definition unlinked :: "host \<Rightarrow> uintptr \<Rightarrow> bool" where
  "unlinked h g \<longleftrightarrow> links_input h g \<and> nodes_ok h (graph_nodes h g)
     \<and> (\<forall>n \<in> set (graph_nodes h g). nd_num_out_nodes (nd0 h n) = 0 \<and> nd_num_in_nodes (nd0 h n) = 0)"

definition data_flow :: "host \<Rightarrow> uintptr \<Rightarrow> (uintptr \<times> uintptr) set" where
  "data_flow h g = {(graph_nodes h g ! i, graph_nodes h g ! j) | i j.
     i < length (graph_nodes h g) \<and> j < length (graph_nodes h g) \<and> feeds h g i j}"

lemma calc_links_holds:
  assumes "unlinked h g" "ownGraphCalcInAndOutNodes h g = (h', VX_SUCCESS)"
  shows "only_sys h h'" "holds_edges h' (graph_nodes h g) (data_flow h g)"
proof -
  have ok: "links_input h g" and len: "length (graph_nodes h g) = unat (gr_num_nodes (ho_graphs h g))"
    using assms(1) by (simp_all add: unlinked_def links_input_def graph_nodes_def)
  have "holds_edges h (graph_nodes h g) {}"
    using assms(1) by (simp add: unlinked_def holds_edges_def out_ids_def in_ids_def)
  then have "linked h g {} h" by (simp add: linked_def)
  from link_nodes_flow [OF ok this _ assms(2) [unfolded ownGraphCalcInAndOutNodes_def]]
  have "linked h g (\<Union>nc \<in> {..<length (graph_nodes h g)}. \<Union>pc \<in> {..<num_prms h g nc}.
      flow_edges h g nc pc (set (all_params h g))) h'"
    by (simp add: len lessThan_atLeast0)
  then show "only_sys h h'" "holds_edges h' (graph_nodes h g) (data_flow h g)"
    using flow_edges_feeds [of h g] ok by (simp_all add: linked_def data_flow_def links_input_def)
qed

text \<open>C23: for a graph without bidirectional parameters, a successful computation of the links gives
  exactly the data flow: a node is listed as a successor of another exactly when some input parameter
  of it matches some output parameter of the other. Both directions agree, no neighbour is listed
  twice, and nothing but node descriptors has changed.\<close>

theorem calc_links_exact:
  assumes "unlinked h g" "ownGraphCalcInAndOutNodes h g = (h', VX_SUCCESS)"
  shows "links_ok h' (graph_nodes h g) \<and> only_sys h h'
    \<and> (\<forall>n \<in> set (graph_nodes h g). set (succs h' n) = {m. (n, m) \<in> data_flow h g}
         \<and> set (preds h' n) = {p. (p, n) \<in> data_flow h g})"
  using calc_links_holds(1) [OF assms] holds_edges_links [OF calc_links_holds(2) [OF assms]] by simp

text \<open>C21: the two steps of \<open>vxVerifyGraph\<close> together. After a successful computation of the links of a
  graph with fewer than 128 nodes, the sort ends; it reports a cycle exactly when the data flow has
  one, and otherwise gives the nodes of the graph in an order in which a node that feeds another
  comes first.\<close>

theorem verify_orders_data_flow:
  assumes "unlinked h g" "ownGraphCalcInAndOutNodes h g = (h', VX_SUCCESS)"
    and "gr_num_nodes (ho_graphs h g) < TIVX_GRAPH_MAX_NODES" "sort_memory_ok h"
    and "\<forall>n \<in> set (graph_nodes h g). unat (vn_node_depth (ho_nodes h n)) + 128 < 2 ^ 32"
  shows "\<exists>h2 nodes' cyc. ownGraphTopologicalSort h' (gr_nodes (ho_graphs h' g))
            (gr_num_nodes (ho_graphs h' g)) False = Some (h2, nodes', cyc)
    \<and> cyc = (\<not> acyclic (data_flow h g))
    \<and> (\<not> cyc \<longrightarrow> (\<exists>ns'. ns' = take (length (graph_nodes h g)) nodes' \<and> mset ns' = mset (graph_nodes h g)
         \<and> (\<forall>k l. k < length ns' \<and> l < length ns' \<and> (ns' ! k, ns' ! l) \<in> data_flow h g \<longrightarrow> k < l)))"
proof -
  let ?ns = "graph_nodes h g" and ?g = "ho_graphs h g"
  note he = calc_links_holds [OF assms(1,2)]
  note f = only_sys_fields [OF he(1)]
  note lk = holds_edges_links [OF he(2)]
  have len: "length ?ns = unat (gr_num_nodes ?g)" "unat (gr_num_nodes ?g) \<le> length (gr_nodes ?g)"
    using assms(1) by (simp_all add: unlinked_def links_input_def graph_nodes_def)
  have mem: "sort_memory_ok h'" "\<forall>n \<in> set ?ns. unat (vn_node_depth (ho_nodes h' n)) + 128 < 2 ^ 32"
    using assms(4,5) by (simp_all add: sort_memory_ok_def f)
  obtain h2 ns' cyc where sort: "ownGraphTopologicalSort h' (gr_nodes ?g) (gr_num_nodes ?g) False
      = Some (h2, ns' @ drop (unat (gr_num_nodes ?g)) (gr_nodes ?g), cyc)"
    "cyc = (\<not> acyclic (link_edges (preds h') ?ns))"
    "\<not> cyc \<Longrightarrow> mset ns' = mset ?ns \<and> topo_sorted (preds h') ns'"
    using graph_sort_facts [OF assms(3) len(2) graph_nodes_def lk(1) mem(1,2), of False] by blast
  have "link_edges (preds h') ?ns = data_flow h g"
    using lk(3) he(2) by (auto simp: link_edges_def holds_edges_def)
  moreover have "k < l" if cyc: "\<not> cyc" and kl: "k < length ns'" "l < length ns'"
    "(ns' ! k, ns' ! l) \<in> data_flow h g" for k l
  proof -
    have perm: "mset ns' = mset ?ns" and topo: "topo_sorted (preds h') ns'" using sort(3) cyc by blast+
    have dist: "distinct ns'"
      using mset_eq_imp_distinct_iff [OF perm] lk(1) by (simp add: links_ok_def)
    have "ns' ! l \<in> set ?ns" using kl(2) mset_eq_setD [OF perm] by (metis nth_mem)
    then have "ns' ! k \<in> set (preds h' (ns' ! l))" using lk(3) kl(3) by simp
    then have "ns' ! k \<in> set (take l ns')" using topo kl(2) by (auto simp: topo_sorted_def)
    then obtain k' where "k' < l" "k' < length ns'" "ns' ! k' = ns' ! k" by (auto simp: in_set_conv_nth)
    then show "k < l" using dist kl(1) nth_eq_iff_index_eq by metis
  qed
  moreover have "length ns' = length ?ns" if "\<not> cyc"
    using sort(3) [OF that] by (metis mset_eq_length)
  ultimately show ?thesis using sort by (auto simp: f)
qed

section \<open>Examples\<close>

text \<open>A host with one graph, at address 0; node \<open>i\<close> has the parameters given by direction and
  reference.\<close>

definition host_of_params :: "(vx_enum \<times> uintptr) list list \<Rightarrow> host" where
  "host_of_params ps =
     (let h = host_of_links (map (\<lambda>_. ([], [])) ps);
          prm = (\<lambda>a :: uintptr. if 0 < a \<and> unat a \<le> length ps then ps ! (unat a - 1) else [])
      in h\<lparr>ho_kernels := (\<lambda>a. (ho_kernels h a)\<lparr>krn_num_parameters := of_nat (length (prm a)),
                                               krn_directions := map fst (prm a)\<rparr>),
           ho_nodes := (\<lambda>a. (ho_nodes h a)\<lparr>vn_kernel := a, vn_parameters := map snd (prm a)\<rparr>),
           ho_graphs := (\<lambda>_. zero_graph\<lparr>gr_num_nodes := of_nat (length ps),
               gr_nodes := map (\<lambda>i. of_nat (i + 1)) [0..<length ps] @ replicate (128 - length ps) 0\<rparr>)\<rparr>)"

text \<open>Node 2 writes 0x60, which node 1 reads; node 1 writes 0x50.\<close>

definition two_nodes :: host where
  "two_nodes = host_of_params [[(VX_INPUT, 0x60), (VX_OUTPUT, 0x50)], [(VX_OUTPUT, 0x60)]]"

lemma two_nodes_fields:
  "ho_graphs two_nodes g = zero_graph\<lparr>gr_num_nodes := 2, gr_nodes := 1 # 2 # replicate 126 0\<rparr>"
  "ho_refs two_nodes r = zero_ref"
  "vn_kernel (ho_nodes two_nodes a) = a" "vn_obj_desc (ho_nodes two_nodes a) = [Some (unat a - 1)]"
  "\<not> vn_is_super_node (ho_nodes two_nodes a)" "vn_node_depth (ho_nodes two_nodes a) = 1"
  "vn_parameters (ho_nodes two_nodes 1) = [0x60, 0x50]" "vn_parameters (ho_nodes two_nodes 2) = [0x60]"
  "krn_num_parameters (ho_kernels two_nodes 1) = 2" "krn_num_parameters (ho_kernels two_nodes 2) = 1"
  "krn_directions (ho_kernels two_nodes 1) = [0, 1]" "krn_directions (ho_kernels two_nodes 2) = [1]"
  "odt_table_base (sys_tbl (ho_sys two_nodes)) = [link_desc 0 ([], []), link_desc 1 ([], [])]"
  by (simp_all add: two_nodes_def host_of_params_def host_of_links_def zero_vnode_def Let_def
      upt_rec)

lemma add_both_room:
  assumes "nd_num_out_nodes (nd0 h n) < 8" "node_desc_ok h n" "node_desc_ok h m"
    "nd_num_in_nodes (nd0 h m) < 8"
  shows "\<exists>h1. add_both h n m = (h1, VX_SUCCESS)"
proof -
  obtain h1 st where out: "ownNodeAddOutNode h n m = (h1, st)" by fastforce
  then have st: "st = VX_SUCCESS" and h1: "\<exists>a b. h1 = upd_nd0 n (\<lambda>d. d\<lparr>nd_num_out_nodes := a, nd_out_node_id := b\<rparr>) h"
    using assms(1) by (auto simp: ownNodeAddOutNode_def add_link_def split: if_splits)
  have "nd_num_in_nodes (nd0 h1 m) < 8"
    using h1 assms(4) nd0_upd_nd0 [OF assms(2,3)] by auto
  then have "\<exists>h2. ownNodeAddInNode h1 m n = (h2, VX_SUCCESS)"
    by (auto simp: ownNodeAddInNode_def add_link_def)
  then show ?thesis using out st by (simp add: add_both_def)
qed

lemma two_nodes_get:
  "all_params two_nodes g = [(0, 0), (0, 1), (1, 0)]"
  "ownNodeGetParameterDir two_nodes 1 0 = 0" "ownNodeGetParameterDir two_nodes 1 (Suc 0) = 1"
  "ownNodeGetParameterDir two_nodes 2 0 = 1"
  "ownNodeGetParameterRef two_nodes 1 0 = 0x60" "ownNodeGetParameterRef two_nodes 1 (Suc 0) = 0x50"
  "ownNodeGetParameterRef two_nodes 2 0 = 0x60"
  "ownNodeGetNumParameters two_nodes 1 = 2" "ownNodeGetNumParameters two_nodes 2 = 1"
  "graph_node two_nodes g 0 = 1" "graph_node two_nodes g (Suc 0) = 2"
  "gr_num_nodes (ho_graphs two_nodes g) = 2" "graph_nodes two_nodes g = [1, 2]"
  "is_uniform_image two_nodes r = False"
  by (simp_all add: ownNodeGetParameterDir_def ownNodeGetParameterRef_def ownNodeGetNumParameters_def
      graph_nodes_def two_nodes_fields all_params_def upt_rec is_uniform_image_def zero_ref_def)

lemma two_nodes_match: "ownGraphCheckIsRefMatch two_nodes g a b \<longleftrightarrow> a = b \<and> a \<noteq> 0"
  by (auto simp: ownGraphCheckIsRefMatch_def ownGraphIsRefMatch_def two_nodes_fields zero_ref_def)

lemma two_nodes_nd0:
  "n \<in> {1, 2} \<Longrightarrow> node_desc_ok two_nodes n \<and> nd_num_out_nodes (nd0 two_nodes n) = 0
     \<and> nd_num_in_nodes (nd0 two_nodes n) = 0"
  by (auto simp: node_desc_ok_def two_nodes_fields link_desc_def init_desc_def zero_node_def)

lemma two_nodes_unlinked: "unlinked two_nodes g"
  using two_nodes_nd0
  by (auto simp: unlinked_def links_input_def no_bidirectional_def nodes_ok_def two_nodes_get
      two_nodes_fields)

lemma two_nodes_run: "\<exists>h'. ownGraphCalcInAndOutNodes two_nodes g = (h', VX_SUCCESS)"
proof -
  obtain h1 where h1: "add_both two_nodes 2 1 = (h1, VX_SUCCESS)"
    using add_both_room [of two_nodes 2 1] two_nodes_nd0 by auto
  have "holds_edges two_nodes [1, 2] {}"
    using two_nodes_unlinked [of 0] two_nodes_nd0
    by (simp add: unlinked_def two_nodes_get holds_edges_def out_ids_def in_ids_def)
  then have "only_sys two_nodes h1" using add_both_correct [OF _ _ _ h1] by auto
  note f = only_sys_fields [OF this]
  have "link_param g two_nodes 0 0 = (two_nodes, VX_SUCCESS)"
    "link_param g two_nodes 0 (Suc 0) = (two_nodes, VX_SUCCESS)"
    by (simp_all add: link_param_def link_step_def two_nodes_get two_nodes_match Let_def)
  moreover have "link_param g two_nodes (Suc 0) 0 = (h1, VX_SUCCESS)"
    by (simp add: link_param_def link_step_def two_nodes_get two_nodes_match f h1 Let_def)
  ultimately show ?thesis
    by (simp add: ownGraphCalcInAndOutNodes_def two_nodes_get upt_rec)
qed

lemma two_nodes_flow: "data_flow two_nodes g = {(2, 1)}"
proof -
  have "feeds two_nodes g i j \<longleftrightarrow> i = Suc 0 \<and> j = 0" if "i < Suc (Suc 0)" "j < Suc (Suc 0)" for i j
    using that
    by (auto simp: feeds_def num_prms_def param_flow_def two_nodes_get two_nodes_match Let_def
        less_Suc_eq less_2_cases_iff) (rule exI [of _ 0], simp add: two_nodes_get)
  then have "data_flow two_nodes g = {([1, 2] ! i, [1, 2] ! j) | i j. i = Suc 0 \<and> j = 0}"
    unfolding data_flow_def two_nodes_get by (intro Collect_cong ex_cong1) auto
  then show ?thesis by auto
qed

theorem calc_links_exact_witness:
  "\<exists>h'. ownGraphCalcInAndOutNodes two_nodes 0x700 = (h', VX_SUCCESS)
    \<and> set (succs h' 2) = {1} \<and> set (preds h' 1) = {2} \<and> links_ok h' [1, 2]"
proof -
  obtain h' where run: "ownGraphCalcInAndOutNodes two_nodes 0x700 = (h', VX_SUCCESS)"
    using two_nodes_run by blast
  show ?thesis
    using calc_links_exact [OF two_nodes_unlinked run] run by (auto simp: two_nodes_get two_nodes_flow)
qed

theorem verify_orders_data_flow_witness:
  "\<exists>h' h2 nodes'. ownGraphCalcInAndOutNodes two_nodes 0x700 = (h', VX_SUCCESS)
    \<and> ownGraphTopologicalSort h' (gr_nodes (ho_graphs h' 0x700)) (gr_num_nodes (ho_graphs h' 0x700)) False
        = Some (h2, nodes', False)
    \<and> take 2 nodes' = [2, 1]"
proof -
  obtain h' where run: "ownGraphCalcInAndOutNodes two_nodes 0x700 = (h', VX_SUCCESS)"
    using two_nodes_run by blast
  have mem: "sort_memory_ok two_nodes"
    by (simp add: sort_memory_ok_def two_nodes_def host_of_params_def host_of_links_def Let_def)
  have "wf {(2 :: uintptr, 1 :: uintptr)}" by (rule wf_subset [OF wf_measure [of "\<lambda>x. if x = 2 then 0 else 1"]]) auto
  then have "acyclic (data_flow two_nodes 0x700)" by (simp add: two_nodes_flow wf_acyclic)
  then obtain h2 nodes' where s: "ownGraphTopologicalSort h' (gr_nodes (ho_graphs h' 0x700))
      (gr_num_nodes (ho_graphs h' 0x700)) False = Some (h2, nodes', False)"
    "mset (take 2 nodes') = mset [1, 2]"
    "\<forall>k l. k < length (take 2 nodes') \<and> l < length (take 2 nodes')
        \<and> (take 2 nodes' ! k, take 2 nodes' ! l) \<in> data_flow two_nodes 0x700 \<longrightarrow> k < l"
    using verify_orders_data_flow [OF two_nodes_unlinked run _ mem]
    by (simp add: two_nodes_get two_nodes_fields numeral_2_eq_2 [symmetric] del: length_take) metis
  define xs where "xs = take 2 nodes'"
  have "length xs = Suc (Suc 0)" using mset_eq_length [OF s(2)] by (simp add: xs_def)
  then obtain a b where "xs = [a, b]" by (auto simp: length_Suc_conv)
  then have ab: "take 2 nodes' = [a, b]" by (simp add: xs_def)
  have "\<not> (a = 1 \<and> b = 2)" using s(3) [rule_format, of 1 0] unfolding ab by (auto simp: two_nodes_flow)
  moreover have "a = 1 \<and> b = 2 \<or> a = 2 \<and> b = 1"
    using mset_eq_setD [OF s(2)] unfolding ab by (simp add: doubleton_eq_iff)
  ultimately show ?thesis using run s(1) ab by auto
qed

section \<open>Head and leaf nodes are what they should be\<close>

definition heads :: "vx_graph_t \<Rightarrow> uintptr list" where
  "heads g = take (unat (gr_num_head_nodes g)) (gr_head_nodes g)"

definition leaves :: "vx_graph_t \<Rightarrow> uintptr list" where
  "leaves g = take (unat (gr_num_leaf_nodes g)) (gr_leaf_nodes g)"

definition ends_ok :: "vx_graph_t \<Rightarrow> bool" where
  "ends_ok g \<longleftrightarrow> length (gr_head_nodes g) = TIVX_GRAPH_MAX_HEAD_NODES
     \<and> length (gr_leaf_nodes g) = TIVX_GRAPH_MAX_LEAF_NODES
     \<and> gr_num_head_nodes g \<le> TIVX_GRAPH_MAX_HEAD_NODES \<and> gr_num_leaf_nodes g \<le> TIVX_GRAPH_MAX_LEAF_NODES"

text \<open>Appending to an array of \<open>m\<close> elements with a counter.\<close>

lemma push_array:
  fixes num m :: uint32
  assumes "num < m" "unat m = length xs"
  shows "take (unat (num + 1)) (xs[unat num := x]) = take (unat num) xs @ [x]" "num + 1 \<le> m"
proof -
  have "unat num < length xs" using assms by (simp add: word_less_nat_alt)
  moreover have "unat (num + 1) = Suc (unat num)" using unat_inc_below [OF assms(1)] by simp
  ultimately show "take (unat (num + 1)) (xs[unat num := x]) = take (unat num) xs @ [x]" "num + 1 \<le> m"
    using assms(2) by (simp_all add: take_Suc_conv_app_nth word_le_nat_alt)
qed

lemma full_array:
  fixes num m :: uint32
  assumes "num \<le> m" "unat m = length xs" "\<not> num < m"
  shows "length (take (unat num) xs) = unat m"
  using assms by (simp add: word_le_nat_alt word_less_nat_alt)

lemma add_head_correct:
  assumes "ends_ok g"
  shows "if length (heads g) < 8
    then \<exists>g'. add_head n g = (g', VX_SUCCESS) \<and> heads g' = heads g @ [n] \<and> leaves g' = leaves g \<and> ends_ok g'
    else \<exists>g'. add_head n g = (g', VX_ERROR_NO_RESOURCES)"
proof (cases "gr_num_head_nodes g < 8")
  case True
  then have "length (heads g) < 8" using assms by (simp add: heads_def ends_ok_def word_less_nat_alt)
  moreover have len: "unat (8 :: uint32) = length (gr_head_nodes g)" using assms by (simp add: ends_ok_def)
  let ?g = "g\<lparr>gr_head_nodes := (gr_head_nodes g)[unat (gr_num_head_nodes g) := n],
      gr_num_head_nodes := gr_num_head_nodes g + 1\<rparr>"
  have "add_head n g = (?g, VX_SUCCESS)" using True by (simp add: add_head_def)
  moreover have "heads ?g = heads g @ [n]" "leaves ?g = leaves g @ []" "ends_ok ?g"
    using push_array [OF True len] assms by (simp_all add: heads_def leaves_def ends_ok_def)
  ultimately show ?thesis by simp
next
  case False
  then have "\<not> length (heads g) < 8"
    using full_array [of "gr_num_head_nodes g" 8 "gr_head_nodes g"] assms
    by (simp add: heads_def ends_ok_def)
  with False show ?thesis by (auto simp: add_head_def)
qed

lemma add_leaf_correct:
  assumes "ends_ok g"
  shows "if length (leaves g) < 16
    then \<exists>g'. add_leaf n g = (g', VX_SUCCESS) \<and> leaves g' = leaves g @ [n] \<and> heads g' = heads g \<and> ends_ok g'
    else \<exists>g'. add_leaf n g = (g', VX_ERROR_NO_RESOURCES)"
proof (cases "gr_num_leaf_nodes g < 16")
  case True
  then have "length (leaves g) < 16" using assms by (simp add: leaves_def ends_ok_def word_less_nat_alt)
  moreover have len: "unat (16 :: uint32) = length (gr_leaf_nodes g)" using assms by (simp add: ends_ok_def)
  let ?g = "g\<lparr>gr_leaf_nodes := (gr_leaf_nodes g)[unat (gr_num_leaf_nodes g) := n],
      gr_num_leaf_nodes := gr_num_leaf_nodes g + 1\<rparr>"
  have "add_leaf n g = (?g, VX_SUCCESS)" using True by (simp add: add_leaf_def)
  moreover have "heads ?g = heads g @ []" "leaves ?g = leaves g @ [n]" "ends_ok ?g"
    using push_array [OF True len] assms by (simp_all add: heads_def leaves_def ends_ok_def)
  ultimately show ?thesis by simp
next
  case False
  then have "\<not> length (leaves g) < 16"
    using full_array [of "gr_num_leaf_nodes g" 16 "gr_leaf_nodes g"] assms
    by (simp add: leaves_def ends_ok_def)
  with False show ?thesis by (auto simp: add_leaf_def)
qed

lemma head_leaf_loop_correct:
  assumes "ends_ok g" "\<And>n. n \<in> set ns \<Longrightarrow> vn_super_node (ho_nodes h n) = 0"
  shows "if length (heads g @ filter (\<lambda>n. ownNodeGetNumInNodes h n = 0) ns) \<le> 8
        \<and> length (leaves g @ filter (\<lambda>n. ownNodeGetNumOutNodes h n = 0) ns) \<le> 16
    then \<exists>g'. head_leaf_loop h ns g = (g', VX_SUCCESS)
        \<and> heads g' = heads g @ filter (\<lambda>n. ownNodeGetNumInNodes h n = 0) ns
        \<and> leaves g' = leaves g @ filter (\<lambda>n. ownNodeGetNumOutNodes h n = 0) ns
    else \<exists>g'. head_leaf_loop h ns g = (g', VX_ERROR_NO_RESOURCES)"
  using assms
proof (induction ns arbitrary: g)
  case Nil
  then show ?case by (auto simp: ends_ok_def heads_def leaves_def word_le_nat_alt)
next
  case (Cons n ns)
  define hd where "hd = (ownNodeGetNumInNodes h n = 0)"
  define lf where "lf = (ownNodeGetNumOutNodes h n = 0)"
  obtain g1 st1 where g1: "(if hd then add_head n g else (g, VX_SUCCESS)) = (g1, st1)" by fastforce
  obtain g2 st2 where g2: "(if lf \<and> st1 = VX_SUCCESS then add_leaf n g1 else (g1, st1)) = (g2, st2)"
    by fastforce
  have run: "head_leaf_loop h (n # ns) g = (if st2 = VX_SUCCESS then head_leaf_loop h ns g2 else (g2, st2))"
    using Cons.prems(2) g1 g2 by (simp add: hd_def lf_def Let_def)
  have IH: "ends_ok g2 \<Longrightarrow> if length (heads g2 @ filter (\<lambda>n. ownNodeGetNumInNodes h n = 0) ns) \<le> 8
        \<and> length (leaves g2 @ filter (\<lambda>n. ownNodeGetNumOutNodes h n = 0) ns) \<le> 16
    then \<exists>g'. head_leaf_loop h ns g2 = (g', VX_SUCCESS)
        \<and> heads g' = heads g2 @ filter (\<lambda>n. ownNodeGetNumInNodes h n = 0) ns
        \<and> leaves g' = leaves g2 @ filter (\<lambda>n. ownNodeGetNumOutNodes h n = 0) ns
    else \<exists>g'. head_leaf_loop h ns g2 = (g', VX_ERROR_NO_RESOURCES)"
    using Cons.prems(2) by (intro Cons.IH) auto
  have one: "if hd \<and> \<not> length (heads g) < 8 then st1 = VX_ERROR_NO_RESOURCES
    else st1 = VX_SUCCESS \<and> heads g1 = heads g @ (if hd then [n] else []) \<and> leaves g1 = leaves g \<and> ends_ok g1"
    using add_head_correct [OF Cons.prems(1), of n] g1 Cons.prems(1) by (auto split: if_splits)
  have two: "if st1 \<noteq> VX_SUCCESS then st2 = st1
    else if lf \<and> \<not> length (leaves g1) < 16 then st2 = VX_ERROR_NO_RESOURCES
    else st2 = VX_SUCCESS \<and> leaves g2 = leaves g1 @ (if lf then [n] else []) \<and> heads g2 = heads g1 \<and> ends_ok g2"
    using add_leaf_correct [of g1 n] g2 one by (auto split: if_splits)
  show ?case
    using one two IH unfolding run by (auto simp: hd_def [symmetric] lf_def [symmetric] split: if_splits)
qed

text \<open>C26: after the computation of the head and leaf nodes the two lists of the graph hold exactly the
  nodes without predecessors and those without successors, in the order of the nodes; the computation
  fails exactly when there are more than 8 of the ones or more than 16 of the others.\<close>

theorem head_leaf_exact:
  assumes "ownGraphCalcHeadAndLeafNodes h g = (h', status)"
    and "length (gr_head_nodes (ho_graphs h g)) = TIVX_GRAPH_MAX_HEAD_NODES"
      "length (gr_leaf_nodes (ho_graphs h g)) = TIVX_GRAPH_MAX_LEAF_NODES"
    and "\<forall>n \<in> set (graph_nodes h g). vn_super_node (ho_nodes h n) = 0"
  shows "(status = VX_SUCCESS \<longleftrightarrow>
        length (filter (\<lambda>n. preds h n = []) (graph_nodes h g)) \<le> TIVX_GRAPH_MAX_HEAD_NODES
      \<and> length (filter (\<lambda>n. succs h n = []) (graph_nodes h g)) \<le> TIVX_GRAPH_MAX_LEAF_NODES)
    \<and> (status \<noteq> VX_SUCCESS \<longrightarrow> status = VX_ERROR_NO_RESOURCES)
    \<and> (status = VX_SUCCESS \<longrightarrow>
        heads (ho_graphs h' g) = filter (\<lambda>n. preds h n = []) (graph_nodes h g)
      \<and> leaves (ho_graphs h' g) = filter (\<lambda>n. succs h n = []) (graph_nodes h g))"
proof -
  define g0 where "g0 = (ho_graphs h g)\<lparr>gr_num_head_nodes := 0, gr_num_leaf_nodes := 0\<rparr>"
  have g0: "ends_ok g0" "heads g0 = []" "leaves g0 = []"
    using assms(2,3) by (simp_all add: g0_def ends_ok_def heads_def leaves_def)
  obtain g1 where g1: "head_leaf_loop h (graph_nodes h g) g0 = (g1, status)" "ho_graphs h' g = g1"
    using assms(1) by (auto simp: ownGraphCalcHeadAndLeafNodes_def g0_def graph_nodes_def upd_graph_def
        Let_def split: prod.splits)
  have "(ownNodeGetNumInNodes h n = 0) = (preds h n = [])"
    "(ownNodeGetNumOutNodes h n = 0) = (succs h n = [])" for n
    by (simp_all add: preds_def succs_def unat_eq_0)
  with head_leaf_loop_correct [OF g0(1), of "graph_nodes h g" h] assms(4) g1 show ?thesis
    by (auto simp: g0 split: if_splits)
qed

theorem head_leaf_exact_witness:
  "\<exists>h'. ownGraphCalcHeadAndLeafNodes two_nodes 0x700 = (h', VX_SUCCESS)
    \<and> heads (ho_graphs h' 0x700) = [1, 2] \<and> leaves (ho_graphs h' 0x700) = [1, 2]"
proof -
  obtain h' st where run: "ownGraphCalcHeadAndLeafNodes two_nodes 0x700 = (h', st)" by fastforce
  have "vn_super_node (ho_nodes two_nodes n) = 0" for n
    by (simp add: two_nodes_def host_of_params_def host_of_links_def zero_vnode_def Let_def)
  moreover have "preds two_nodes n = [] \<and> succs two_nodes n = []" if "n \<in> {1, 2}" for n
    using two_nodes_nd0 [OF that]
    by (simp add: preds_def succs_def ownNodeGetNumInNodes_def ownNodeGetNumOutNodes_def)
  ultimately show ?thesis
    using head_leaf_exact [OF run] run by (auto simp: two_nodes_get two_nodes_fields zero_graph_def)
qed

end
