(* ===== verification/References.thy ===== *)
theory References
  imports Host_Graph
begin

text \<open>
  The life of a reference: \<open>source/framework/vx_reference.c\<close>, the table of references of the context in
  \<open>source/framework/vx_context.c\<close> and the look-up of error objects in \<open>source/framework/vx_error.c\<close>.
  The destructor and release functions that an object registers are function pointers of the reference;
  what they do is the argument \<open>ref_callbacks\<close>. The calls are shown to count holders: a reference is in
  the table and its object is in use exactly as long as somebody holds it.
\<close>

section \<open>Validity\<close>

abbreviation (input) TIVX_MAGIC :: uint32 where "TIVX_MAGIC \<equiv> 0xFACEC0DE"
abbreviation (input) TIVX_BAD_MAGIC :: uint32 where "TIVX_BAD_MAGIC \<equiv> 42"
abbreviation (input) VX_MAX_REFERENCE_NAME :: nat where "VX_MAX_REFERENCE_NAME \<equiv> 64"

datatype tivx_reftype = VX_INTERNAL | VX_EXTERNAL | VX_BOTH

definition ownIsValidContext :: "host \<Rightarrow> uintptr \<Rightarrow> bool" where
  "ownIsValidContext h context \<longleftrightarrow> context \<noteq> 0 \<and> rf_magic (ho_refs h context) = TIVX_MAGIC
     \<and> rf_type (ho_refs h context) = VX_TYPE_CONTEXT \<and> rf_context (ho_refs h context) = 0"

text \<open>The comparisons of \<open>ownIsValidType\<close> are signed: scalars, structures, Khronos objects and TI
  objects.\<close>

definition ownIsValidType :: "vx_enum \<Rightarrow> bool" where
  "ownIsValidType ref_type =
     (let t = sint ref_type in
      if t \<le> 0 then False
      else if 0 < t \<and> t < 0x11 then True
      else if 0x20 \<le> t \<and> t < 0xFF then True
      else if 0x800 \<le> t \<and> t < 0xBFF then True
      else 0xC00 \<le> t \<and> t < 0xFFF)"

definition ownIsValidReference :: "host \<Rightarrow> uintptr \<Rightarrow> bool" where
  "ownIsValidReference h ref \<longleftrightarrow> ref \<noteq> 0 \<and> rf_magic (ho_refs h ref) = TIVX_MAGIC
     \<and> ownIsValidType (rf_type (ho_refs h ref))
     \<and> (rf_type (ho_refs h ref) \<noteq> VX_TYPE_CONTEXT \<and> ownIsValidContext h (rf_context (ho_refs h ref))
        \<or> rf_type (ho_refs h ref) = VX_TYPE_CONTEXT \<and> rf_context (ho_refs h ref) = 0)"

definition ownIsValidSpecificReference :: "host \<Rightarrow> uintptr \<Rightarrow> vx_enum \<Rightarrow> bool" where
  "ownIsValidSpecificReference h ref ref_type \<longleftrightarrow> ref \<noteq> 0 \<and> rf_magic (ho_refs h ref) = TIVX_MAGIC
     \<and> rf_type (ho_refs h ref) = ref_type \<and> ownIsValidContext h (rf_context (ho_refs h ref))"

definition vxGetStatus :: "host \<Rightarrow> uintptr \<Rightarrow> vx_status" where
  "vxGetStatus h ref =
     (if ref = 0 then VX_ERROR_NO_RESOURCES
      else if ownIsValidContext h ref then VX_SUCCESS
      else if ownIsValidReference h ref then
        (if rf_type (ho_refs h ref) = VX_TYPE_ERROR then rf_error_status (ho_refs h ref) else VX_SUCCESS)
      else VX_FAILURE)"

section \<open>Locks and counts\<close>

text \<open>Only contexts and graphs have a lock of their own, the others use that of the context.\<close>

definition ref_mutex :: "host \<Rightarrow> uintptr \<Rightarrow> nat option" where
  "ref_mutex h ref =
     (if rf_lock (ho_refs h ref) \<noteq> None then rf_lock (ho_refs h ref)
      else if rf_context (ho_refs h ref) \<noteq> 0 then rf_lock (ho_refs h (rf_context (ho_refs h ref)))
      else None)"

definition ownReferenceLock :: "posix_rc \<Rightarrow> host \<Rightarrow> uintptr \<Rightarrow> vx_status" where
  "ownReferenceLock rc h ref =
     (if ref \<noteq> 0 \<and> (rf_lock (ho_refs h ref) \<noteq> None \<or> rf_context (ho_refs h ref) \<noteq> 0)
      then tivxMutexLock (rc_mutex_lock rc) (ref_mutex h ref) else VX_ERROR_INVALID_REFERENCE)"

definition ownCreateReferenceLock :: "posix_rc \<Rightarrow> host \<Rightarrow> uintptr \<Rightarrow> host \<times> vx_status" where
  "ownCreateReferenceLock rc h ref =
     (if ref = 0 then (h, VX_ERROR_INVALID_REFERENCE)
      else if rf_type (ho_refs h ref) = VX_TYPE_CONTEXT \<or> rf_type (ho_refs h ref) = VX_TYPE_GRAPH then
        (case tivxMutexCreate rc (ho_posix h) of
           (po, m, status) \<Rightarrow> (upd_ref ref (\<lambda>r. r\<lparr>rf_lock := m\<rparr>) (h\<lparr>ho_posix := po\<rparr>), status))
      else (h, VX_SUCCESS))"

definition ownDeleteReferenceLock :: "posix_rc \<Rightarrow> host \<Rightarrow> uintptr \<Rightarrow> host \<times> vx_status" where
  "ownDeleteReferenceLock rc h ref =
     (if ref = 0 then (h, VX_ERROR_INVALID_REFERENCE)
      else if rf_type (ho_refs h ref) = VX_TYPE_CONTEXT \<or> rf_type (ho_refs h ref) = VX_TYPE_GRAPH then
        (case tivxMutexDelete rc (ho_posix h) (rf_lock (ho_refs h ref)) of
           (po, m, status) \<Rightarrow> (upd_ref ref (\<lambda>r. r\<lparr>rf_lock := m\<rparr>) (h\<lparr>ho_posix := po\<rparr>), status))
      else (h, VX_SUCCESS))"

definition inc_counts :: "tivx_reftype \<Rightarrow> vx_reference_t \<Rightarrow> vx_reference_t" where
  "inc_counts reftype r =
     (let r1 = (if reftype = VX_EXTERNAL \<or> reftype = VX_BOTH
                then r\<lparr>rf_external_count := rf_external_count r + 1\<rparr> else r)
      in if reftype = VX_INTERNAL \<or> reftype = VX_BOTH
         then r1\<lparr>rf_internal_count := rf_internal_count r1 + 1\<rparr> else r1)"

definition dec_counts :: "tivx_reftype \<Rightarrow> vx_reference_t \<Rightarrow> vx_reference_t" where
  "dec_counts reftype r =
     (let r1 = (if (reftype = VX_INTERNAL \<or> reftype = VX_BOTH) \<and> rf_internal_count r \<noteq> 0
                then r\<lparr>rf_internal_count := rf_internal_count r - 1\<rparr> else r)
      in if (reftype = VX_EXTERNAL \<or> reftype = VX_BOTH) \<and> rf_external_count r1 \<noteq> 0
         then r1\<lparr>rf_external_count := rf_external_count r1 - 1\<rparr> else r1)"

definition ownDecrementReference ::
  "posix_rc \<Rightarrow> host \<Rightarrow> uintptr \<Rightarrow> tivx_reftype \<Rightarrow> host \<times> uint32" where
  "ownDecrementReference rc h ref reftype =
     (if ref \<noteq> 0 \<and> ownReferenceLock rc h ref = VX_SUCCESS then
        (let h1 = upd_ref ref (dec_counts reftype) h
         in (h1, rf_internal_count (ho_refs h1 ref) + rf_external_count (ho_refs h1 ref)))
      else (h, - 1))"

definition ownIncrementReference ::
  "posix_rc \<Rightarrow> host \<Rightarrow> uintptr \<Rightarrow> tivx_reftype \<Rightarrow> host \<times> uint32" where
  "ownIncrementReference rc h ref reftype =
     (if ref \<noteq> 0 \<and> ownReferenceLock rc h ref = VX_SUCCESS then
        (let h1 = upd_ref ref (inc_counts reftype) h
         in (h1, rf_internal_count (ho_refs h1 ref) + rf_external_count (ho_refs h1 ref)))
      else (h, 0))"

definition vxRetainReference :: "posix_rc \<Rightarrow> host \<Rightarrow> uintptr \<Rightarrow> host \<times> vx_status" where
  "vxRetainReference rc h ref =
     (if ownIsValidReference h ref then (fst (ownIncrementReference rc h ref VX_EXTERNAL), VX_SUCCESS)
      else (h, VX_ERROR_INVALID_REFERENCE))"

section \<open>The table of the context\<close>

definition upd_context :: "uintptr \<Rightarrow> (vx_context_t \<Rightarrow> vx_context_t) \<Rightarrow> host \<Rightarrow> host" where
  "upd_context c f h = h\<lparr>ho_contexts := (ho_contexts h)(c := f (ho_contexts h c))\<rparr>"

definition ownContextLock :: "posix_rc \<Rightarrow> host \<Rightarrow> uintptr \<Rightarrow> vx_status" where
  "ownContextLock rc h context = tivxMutexLock (rc_mutex_lock rc) (cx_lock (ho_contexts h context))"

text \<open>The name that a new reference gets, after its type and its place in the table.\<close>

fun decimal :: "nat \<Rightarrow> string" where
  "decimal n = (if n < 10 then [char_of (48 + n)] else decimal (n div 10) @ [char_of (48 + n mod 10)])"

declare decimal.simps [simp del]

definition ref_name :: "vx_enum \<Rightarrow> nat \<Rightarrow> string" where
  "ref_name ty ref_idx =
     (if ty = VX_TYPE_DELAY then ''delay_''
      else if ty = VX_TYPE_LUT then ''lut_''
      else if ty = VX_TYPE_DISTRIBUTION then ''distribution_''
      else if ty = VX_TYPE_PYRAMID then ''pyramid_''
      else if ty = VX_TYPE_THRESHOLD then ''threshold_''
      else if ty = VX_TYPE_MATRIX then ''matrix_''
      else if ty = VX_TYPE_CONVOLUTION then ''convolution_''
      else if ty = VX_TYPE_SCALAR then ''scalar_''
      else if ty = VX_TYPE_ARRAY then ''array_''
      else if ty = VX_TYPE_IMAGE then ''image_''
      else if ty = VX_TYPE_REMAP then ''remap_''
      else if ty = VX_TYPE_OBJECT_ARRAY then ''object_array_''
      else if ty = VX_TYPE_NODE then ''node_''
      else if ty = VX_TYPE_GRAPH then ''graph_''
      else if ty = TIVX_TYPE_DATA_REF_Q then ''data_ref_q_''
      else if ty = VX_TYPE_TENSOR then ''tensor_''
      else if ty = VX_TYPE_USER_DATA_OBJECT then ''user_data_object_''
      else if ty = TIVX_TYPE_RAW_IMAGE then ''raw_image_''
      else ''ref_'') @ decimal ref_idx"

definition vxSetReferenceName :: "host \<Rightarrow> uintptr \<Rightarrow> string \<Rightarrow> host \<times> vx_status" where
  "vxSetReferenceName h ref name =
     (if ownIsValidReference h ref
      then (upd_ref ref (\<lambda>r. r\<lparr>rf_name := take (VX_MAX_REFERENCE_NAME - 1) name\<rparr>) h, VX_SUCCESS)
      else (h, VX_ERROR_INVALID_REFERENCE))"

definition ownAddReferenceToContext :: "posix_rc \<Rightarrow> host \<Rightarrow> uintptr \<Rightarrow> uintptr \<Rightarrow> host \<times> bool" where
  "ownAddReferenceToContext rc h context ref =
     (if ownIsValidContext h context \<and> ownContextLock rc h context = VX_SUCCESS then
        (case first_index (\<lambda>r. r = 0) (cx_reftable (ho_contexts h context)) of
           None \<Rightarrow> (h, False)
         | Some ref_idx \<Rightarrow>
            (let h1 = upd_context context (\<lambda>c. c\<lparr>cx_reftable := (cx_reftable c)[ref_idx := ref],
                                                 cx_num_references := cx_num_references c + 1\<rparr>) h
             in case vxSetReferenceName h1 ref
                       (take (VX_MAX_REFERENCE_NAME - 1) (ref_name (rf_type (ho_refs h1 ref)) ref_idx)) of
                  (h2, status) \<Rightarrow>
                    if status = VX_SUCCESS then (h2, True)
                    else (upd_context context (\<lambda>c. c\<lparr>cx_reftable := (cx_reftable c)[ref_idx := 0],
                                                    cx_num_references := cx_num_references c - 1\<rparr>) h2,
                          False)))
      else (h, False))"

definition ownRemoveReferenceFromContext ::
  "posix_rc \<Rightarrow> host \<Rightarrow> uintptr \<Rightarrow> uintptr \<Rightarrow> host \<times> bool" where
  "ownRemoveReferenceFromContext rc h context ref =
     (if ownIsValidContext h context \<and> ownContextLock rc h context = VX_SUCCESS then
        (case first_index (\<lambda>r. r = ref) (cx_reftable (ho_contexts h context)) of
           None \<Rightarrow> (h, False)
         | Some ref_idx \<Rightarrow>
            (upd_context context (\<lambda>c. c\<lparr>cx_reftable := (cx_reftable c)[ref_idx := 0],
                                        cx_num_references := cx_num_references c - 1\<rparr>) h, True))
      else (h, False))"

text \<open>The loop of \<open>ownGetErrorObject\<close>: the first error object with the status.\<close>

definition ownGetErrorObject :: "posix_rc \<Rightarrow> host \<Rightarrow> uintptr \<Rightarrow> vx_status \<Rightarrow> uintptr" where
  "ownGetErrorObject rc h context status =
     (if ownContextLock rc h context = VX_SUCCESS then
        (case find (\<lambda>r. r \<noteq> 0 \<and> rf_type (ho_refs h r) = VX_TYPE_ERROR \<and> rf_error_status (ho_refs h r) = status)
                (cx_reftable (ho_contexts h context)) of
           None \<Rightarrow> 0 | Some r \<Rightarrow> r)
      else 0)"

section \<open>Scope, creation and release\<close>

definition ownReferenceSetScope :: "host \<Rightarrow> uintptr \<Rightarrow> uintptr \<Rightarrow> host" where
  "ownReferenceSetScope h ref scope =
     (if ref = 0 then h
      else (let h1 = upd_ref ref (\<lambda>r. r\<lparr>rf_scope := scope\<rparr>) h in
        case rf_obj_desc (ho_refs h1 ref) of
          None \<Rightarrow> h1
        | Some d \<Rightarrow>
           (let composite = scope \<noteq> 0 \<and> rf_obj_desc (ho_refs h1 scope) \<noteq> None
                  \<and> (ownIsValidSpecificReference h1 scope VX_TYPE_PYRAMID
                     \<or> ownIsValidSpecificReference h1 scope VX_TYPE_OBJECT_ARRAY);
                sid = (if composite
                       then od_obj_desc_id (sys_desc (ho_sys h1) (the (rf_obj_desc (ho_refs h1 scope))))
                       else TIVX_OBJ_DESC_INVALID)
            in h1\<lparr>ho_sys := (ho_sys h1)\<lparr>sys_tbl :=
                  upd_desc d (\<lambda>x. x\<lparr>od_scope_obj_desc_id := sid\<rparr>) (sys_tbl (ho_sys h1))\<rparr>\<rparr>)))"

definition ownReferenceGetObjDescId :: "host \<Rightarrow> uintptr \<Rightarrow> uint16" where
  "ownReferenceGetObjDescId h ref =
     (if ref \<noteq> 0 then od_obj_desc_id (sys_desc (ho_sys h) (the (rf_obj_desc (ho_refs h ref))))
      else TIVX_OBJ_DESC_INVALID)"

definition ownReferenceGetHandleFromObjDescId :: "host \<Rightarrow> uint16 \<Rightarrow> uintptr" where
  "ownReferenceGetHandleFromObjDescId h obj_desc_id =
     (case ownObjDescGet (sys_tbl (ho_sys h)) obj_desc_id of
        None \<Rightarrow> 0 | Some d \<Rightarrow> od_host_ref (sys_desc (ho_sys h) d))"

definition ownInitReferenceForDelay :: "host \<Rightarrow> uintptr \<Rightarrow> uintptr \<Rightarrow> uint32 \<Rightarrow> host" where
  "ownInitReferenceForDelay h ref d idx =
     upd_ref ref (\<lambda>r. r\<lparr>rf_delay := d, rf_delay_slot_index := idx\<rparr>) h"

definition ownInitReference ::
  "posix_rc \<Rightarrow> host \<Rightarrow> uintptr \<Rightarrow> uintptr \<Rightarrow> vx_enum \<Rightarrow> uintptr \<Rightarrow> host \<times> vx_status" where
  "ownInitReference rc h ref context ref_type scope =
     (if ref = 0 then (h, VX_ERROR_INVALID_REFERENCE)
      else
       (let h1 = upd_ref ref (\<lambda>r. r\<lparr>rf_magic := TIVX_MAGIC, rf_type := ref_type, rf_context := context,
                    rf_internal_count := 0, rf_external_count := 0, rf_mem_alloc_callback := 0,
                    rf_destructor_callback := 0, rf_delay := 0, rf_delay_slot_index := 0,
                    rf_is_virtual := False, rf_obj_desc := None, rf_lock := None,
                    rf_is_accessible := False, rf_is_array_element := False, rf_is_allocated := False,
                    rf_supplementary_data := 0\<rparr>) h
        in ownCreateReferenceLock rc (ownReferenceSetScope h1 ref scope) ref))"

text \<open>The functions behind the pointers \<open>destructor_callback\<close> and \<open>release_callback\<close>; the second
  takes the address of a pointer to the reference and gives the pointer's new value.\<close>

record ref_callbacks =
  rcb_destructor :: "uintptr \<Rightarrow> host \<Rightarrow> uintptr \<Rightarrow> host \<times> vx_status"
  rcb_release :: "uintptr \<Rightarrow> host \<Rightarrow> uintptr \<Rightarrow> host \<times> uintptr \<times> vx_status"

definition release_supplementary :: "ref_callbacks \<Rightarrow> host \<Rightarrow> uintptr \<Rightarrow> host" where
  "release_supplementary cb h ref =
     (let d = rf_supplementary_data (ho_refs h ref);
          f = rf_release_callback (ho_refs h d)
      in if d \<noteq> 0 \<and> f \<noteq> 0
         then (case rcb_release cb f h d of
                 (h1, p, _) \<Rightarrow> upd_ref ref (\<lambda>r. r\<lparr>rf_supplementary_data := p\<rparr>) h1)
         else h)"

text \<open>The last holder has gone: the reference leaves the table, the destructor runs, the lock and the
  object are given back.\<close>

definition destroy_reference ::
  "posix_rc \<Rightarrow> ref_callbacks \<Rightarrow> host \<Rightarrow> uintptr \<Rightarrow> uintptr \<Rightarrow> host \<times> vx_status" where
  "destroy_reference rc cb h ref special_destructor =
     (case ownRemoveReferenceFromContext rc h (rf_context (ho_refs h ref)) ref of
        (h1, is_removed) \<Rightarrow>
          if \<not> is_removed then (h1, VX_ERROR_INVALID_REFERENCE)
          else
           (let destructor = (if special_destructor = 0 then rf_destructor_callback (ho_refs h1 ref)
                              else special_destructor)
            in case (if destructor \<noteq> 0 then rcb_destructor cb destructor h1 ref else (h1, VX_SUCCESS)) of
                 (h2, status) \<Rightarrow>
                   (let h3 = upd_ref ref (\<lambda>r. r\<lparr>rf_magic := TIVX_BAD_MAGIC\<rparr>)
                               (fst (ownDeleteReferenceLock rc h2 ref))
                    in (h3\<lparr>ho_objects := fst (ownObjectFree rc (ho_objects h3) ref (rf_type (ho_refs h3 ref)))\<rparr>,
                        status))))"

text \<open>The result is the state, the new value of the caller's pointer and the status.\<close>

definition ownReleaseReferenceInt ::
  "posix_rc \<Rightarrow> ref_callbacks \<Rightarrow> host \<Rightarrow> uintptr \<Rightarrow> vx_enum \<Rightarrow> tivx_reftype \<Rightarrow> uintptr \<Rightarrow>
   host \<times> uintptr \<times> vx_status" where
  "ownReleaseReferenceInt rc cb h ref ref_type reftype special_destructor =
     (if ownIsValidSpecificReference h ref ref_type then
        (case ownDecrementReference rc h ref reftype of
           (h1, cnt) \<Rightarrow>
             if cnt = 0 then
               (case destroy_reference rc cb (release_supplementary cb h1 ref) ref special_destructor of
                  (h2, status) \<Rightarrow> (h2, 0, status))
             else (h1, 0, VX_SUCCESS))
      else (h, ref, VX_ERROR_INVALID_REFERENCE))"

definition ownCreateReference ::
  "posix_rc \<Rightarrow> host \<Rightarrow> uintptr \<Rightarrow> vx_enum \<Rightarrow> tivx_reftype \<Rightarrow> uintptr \<Rightarrow> host \<times> uintptr" where
  "ownCreateReference rc h context ref_type reftype scope =
     (case ownObjectAlloc rc (ho_objects h) ref_type of
        (ob, ref) \<Rightarrow>
          (let h0 = h\<lparr>ho_objects := ob\<rparr> in
           if ref = 0 then (h0, ownGetErrorObject rc h0 context VX_ERROR_NO_RESOURCES)
           else
            (case ownInitReference rc h0 ref context ref_type scope of
               (h1, st1) \<Rightarrow>
                 (case (if st1 = VX_SUCCESS then
                          (case ownAddReferenceToContext rc (fst (ownIncrementReference rc h1 ref reftype))
                                  context ref of
                             (h2, is_add) \<Rightarrow> (h2, if is_add then VX_SUCCESS else VX_ERROR_NO_RESOURCES))
                        else (h1, st1)) of
                    (h3, st) \<Rightarrow>
                      if st \<noteq> VX_SUCCESS then
                        (let h4 = h3\<lparr>ho_objects := fst (ownObjectFree rc (ho_objects h3) ref
                                                          (rf_type (ho_refs h3 ref)))\<rparr>
                         in (h4, ownGetErrorObject rc h4 context VX_ERROR_NO_RESOURCES))
                      else (h3, ref)))))"

text \<open>\<open>vxReleaseReference\<close> goes through the release function that the type registered.\<close>

definition vxReleaseReference ::
  "ref_callbacks \<Rightarrow> host \<Rightarrow> uintptr \<Rightarrow> host \<times> uintptr \<times> vx_status" where
  "vxReleaseReference cb h ref =
     (if ownIsValidReference h ref \<and> rf_release_callback (ho_refs h ref) \<noteq> 0
      then rcb_release cb (rf_release_callback (ho_refs h ref)) h ref
      else (h, ref, VX_ERROR_INVALID_REFERENCE))"

section \<open>The table holds the live references\<close>

definition reftable :: "host \<Rightarrow> uintptr \<Rightarrow> uintptr list" where
  "reftable h c = filter (\<lambda>r. r \<noteq> 0) (cx_reftable (ho_contexts h c))"

definition ref_types :: "vx_enum set" where
  "ref_types = set object_types - {VX_TYPE_CONTEXT}"

text \<open>The numbers of external and of internal holders.\<close>

definition counts :: "vx_reference_t \<Rightarrow> nat \<times> nat" where
  "counts r = (unat (rf_external_count r), unat (rf_internal_count r))"

definition good_ref :: "uintptr \<Rightarrow> vx_reference_t \<Rightarrow> bool" where
  "good_ref c r \<longleftrightarrow> rf_magic r = TIVX_MAGIC \<and> rf_context r = c \<and> rf_type r \<in> ref_types
     \<and> counts r \<noteq> (0, 0) \<and> fst (counts r) + snd (counts r) < 2 ^ 32"

definition refs_ok :: "host \<Rightarrow> uintptr \<Rightarrow> bool" where
  "refs_ok h c \<longleftrightarrow> objects_ok (ho_objects h) \<and> pools_apart (ho_objects h)
     \<and> ownIsValidContext h c \<and> c \<in> live_objects (ho_objects h) VX_TYPE_CONTEXT
     \<and> cx_lock (ho_contexts h c) \<noteq> None \<and> rf_lock (ho_refs h c) \<noteq> None
     \<and> distinct (reftable h c) \<and> cx_num_references (ho_contexts h c) = of_nat (length (reftable h c))
     \<and> (\<forall>r \<in> set (reftable h c). good_ref c (ho_refs h r))
     \<and> (\<forall>ty \<in> ref_types. live_objects (ho_objects h) ty = {r \<in> set (reftable h c). rf_type (ho_refs h r) = ty})"

text \<open>Who holds what, as the client sees it: nobody holds what is not in the table.\<close>

definition holders :: "host \<Rightarrow> uintptr \<Rightarrow> uintptr \<Rightarrow> nat \<times> nat" where
  "holders h c r = (if r \<in> set (reftable h c) then counts (ho_refs h r) else (0, 0))"

definition bump :: "tivx_reftype \<Rightarrow> nat \<times> nat \<Rightarrow> nat \<times> nat" where
  "bump reftype n = (if reftype = VX_INTERNAL then (fst n, snd n + 1)
     else if reftype = VX_EXTERNAL then (fst n + 1, snd n) else (fst n + 1, snd n + 1))"

definition drop_one :: "tivx_reftype \<Rightarrow> nat \<times> nat \<Rightarrow> nat \<times> nat" where
  "drop_one reftype n = (if reftype = VX_INTERNAL then (fst n, snd n - 1)
     else if reftype = VX_EXTERNAL then (fst n - 1, snd n) else (fst n - 1, snd n - 1))"

lemma unat_plus_one: "unat w + 1 < 2 ^ 32 \<Longrightarrow> unat (w + 1 :: uint32) = unat w + 1"
  by (simp add: unat_word_ariths)

lemma counts_inc:
  assumes "fst (bump reftype (counts r)) + snd (bump reftype (counts r)) < 2 ^ 32"
  shows "counts (inc_counts reftype r) = bump reftype (counts r)"
  using assms by (cases reftype) (simp_all add: inc_counts_def bump_def counts_def unat_plus_one)

lemma counts_dec: "counts (dec_counts reftype r) = drop_one reftype (counts r)"
proof -
  have "unat (w - 1 :: uint32) = unat w - 1" if "w \<noteq> 0" for w
    using that unat_dec_pos [of w] by (simp add: word_gt_0)
  then show ?thesis
    by (cases reftype) (auto simp: dec_counts_def drop_one_def counts_def unat_eq_0)
qed

lemma counts_sum:
  "fst (counts r) + snd (counts r) < 2 ^ 32 \<Longrightarrow>
     rf_internal_count r + rf_external_count r = 0 \<longleftrightarrow> counts r = (0, 0)"
proof -
  assume "fst (counts r) + snd (counts r) < 2 ^ 32"
  then have "unat (rf_internal_count r + rf_external_count r) = fst (counts r) + snd (counts r)"
    by (simp add: counts_def unat_word_ariths)
  then show ?thesis by (auto simp: counts_def simp flip: unat_eq_0)
qed

lemma inc_dec_fields [simp]:
  "rf_magic (inc_counts t r) = rf_magic r" "rf_context (inc_counts t r) = rf_context r"
  "rf_type (inc_counts t r) = rf_type r" "rf_lock (inc_counts t r) = rf_lock r"
  "rf_obj_desc (inc_counts t r) = rf_obj_desc r" "rf_supplementary_data (inc_counts t r) = rf_supplementary_data r"
  "rf_magic (dec_counts t r) = rf_magic r" "rf_context (dec_counts t r) = rf_context r"
  "rf_type (dec_counts t r) = rf_type r" "rf_lock (dec_counts t r) = rf_lock r"
  "rf_obj_desc (dec_counts t r) = rf_obj_desc r" "rf_supplementary_data (dec_counts t r) = rf_supplementary_data r"
  "rf_destructor_callback (dec_counts t r) = rf_destructor_callback r"
  by (simp_all add: inc_counts_def dec_counts_def Let_def)

text \<open>Entering a reference into the table and taking one out.\<close>

lemma filter_split:
  "i < length xs \<Longrightarrow> filter P xs = filter P (take i xs) @ filter P [xs ! i] @ filter P (drop (Suc i) xs)"
  by (metis append_Cons append_Nil filter_append id_take_nth_drop)

lemma filter_set_entry:
  assumes "first_index (\<lambda>r. r = 0) xs = Some i" "r \<noteq> (0 :: uintptr)"
  shows "\<exists>A B. filter (\<lambda>r. r \<noteq> 0) xs = A @ B \<and> filter (\<lambda>r. r \<noteq> 0) (xs[i := r]) = A @ r # B"
proof -
  have i: "i < length xs" "xs ! i = 0" using assms(1) by (simp_all add: first_index_some)
  show ?thesis
    using assms(2) i filter_split [OF i(1)]
    by (intro exI [of _ "filter (\<lambda>r. r \<noteq> 0) (take i xs)"] exI [of _ "filter (\<lambda>r. r \<noteq> 0) (drop (Suc i) xs)"])
      (simp add: upd_conv_take_nth_drop)
qed

lemma filter_clear_entry:
  assumes "first_index (\<lambda>x. x = r) xs = Some i" "r \<noteq> (0 :: uintptr)"
  shows "\<exists>A B. filter (\<lambda>r. r \<noteq> 0) xs = A @ r # B \<and> filter (\<lambda>r. r \<noteq> 0) (xs[i := 0]) = A @ B"
proof -
  have i: "i < length xs" "xs ! i = r" using assms(1) by (simp_all add: first_index_some)
  show ?thesis
    using assms(2) i filter_split [OF i(1)]
    by (intro exI [of _ "filter (\<lambda>r. r \<noteq> 0) (take i xs)"] exI [of _ "filter (\<lambda>r. r \<noteq> 0) (drop (Suc i) xs)"])
      (simp add: upd_conv_take_nth_drop)
qed

lemma upd_simps [simp]:
  "ho_refs (upd_ref r f h) = (ho_refs h)(r := f (ho_refs h r))"
  "ho_contexts (upd_ref r f h) = ho_contexts h" "ho_objects (upd_ref r f h) = ho_objects h"
  "ho_posix (upd_ref r f h) = ho_posix h" "ho_sys (upd_ref r f h) = ho_sys h"
  "ho_refs (upd_context c g h) = ho_refs h"
  "ho_contexts (upd_context c g h) = (ho_contexts h)(c := g (ho_contexts h c))"
  "ho_objects (upd_context c g h) = ho_objects h" "ho_posix (upd_context c g h) = ho_posix h"
  "ho_sys (upd_context c g h) = ho_sys h"
  by (simp_all add: upd_ref_def upd_context_def)

lemma reftable_cong: "cx_reftable (ho_contexts h' c) = cx_reftable (ho_contexts h c) \<Longrightarrow> reftable h' c = reftable h c"
  by (simp add: reftable_def)

lemma valid_context_cong:
  "ho_refs h' c = ho_refs h c \<Longrightarrow> ownIsValidContext h' c = ownIsValidContext h c"
  by (simp add: ownIsValidContext_def)

lemma context_lock_ok:
  "rc_mutex_lock rc = 0 \<Longrightarrow> cx_lock (ho_contexts h c) \<noteq> None \<Longrightarrow> ownContextLock rc h c = VX_SUCCESS"
  by (simp add: ownContextLock_def)

lemma add_reference:
  assumes "ownIsValidContext h c" "rc_mutex_lock rc = 0" "cx_lock (ho_contexts h c) \<noteq> None"
    and "ownIsValidReference h ref" "ownAddReferenceToContext rc h c ref = (h', added)"
  shows "\<not> added \<Longrightarrow> h' = h \<and> 0 \<notin> set (cx_reftable (ho_contexts h c))"
    "added \<Longrightarrow> \<exists>A B nm ct. reftable h c = A @ B \<and> filter (\<lambda>r. r \<noteq> 0) (cx_reftable ct) = A @ ref # B
       \<and> cx_num_references ct = cx_num_references (ho_contexts h c) + 1
       \<and> cx_lock ct = cx_lock (ho_contexts h c)
       \<and> h' = upd_ref ref (\<lambda>r. r\<lparr>rf_name := nm\<rparr>) (upd_context c (\<lambda>_. ct) h)"
proof -
  let ?xs = "cx_reftable (ho_contexts h c)"
  have r0: "ref \<noteq> 0" using assms(4) by (simp add: ownIsValidReference_def)
  have lk: "ownContextLock rc h c = VX_SUCCESS" by (rule context_lock_ok [OF assms(2,3)])
  have valid: "ownIsValidReference (upd_context c g h) ref" for g
    using assms(4) by (simp add: ownIsValidReference_def ownIsValidContext_def)
  have "(\<not> added \<longrightarrow> h' = h \<and> 0 \<notin> set ?xs) \<and> (added \<longrightarrow> (\<exists>A B nm ct. reftable h c = A @ B
       \<and> filter (\<lambda>r. r \<noteq> 0) (cx_reftable ct) = A @ ref # B
       \<and> cx_num_references ct = cx_num_references (ho_contexts h c) + 1
       \<and> cx_lock ct = cx_lock (ho_contexts h c)
       \<and> h' = upd_ref ref (\<lambda>r. r\<lparr>rf_name := nm\<rparr>) (upd_context c (\<lambda>_. ct) h)))"
  proof (cases "first_index (\<lambda>r. r = 0) ?xs")
    case None
    then have "ownAddReferenceToContext rc h c ref = (h, False)"
      using assms(1) lk by (simp add: ownAddReferenceToContext_def)
    then show ?thesis using None assms(5) by (auto simp: first_index_none)
  next
    case (Some i)
    define ct where "ct = (ho_contexts h c)\<lparr>cx_reftable := ?xs[i := ref],
        cx_num_references := cx_num_references (ho_contexts h c) + 1\<rparr>"
    have u: "upd_context c (\<lambda>c. c\<lparr>cx_reftable := (cx_reftable c)[i := ref],
        cx_num_references := cx_num_references c + 1\<rparr>) h = upd_context c (\<lambda>_. ct) h"
      by (simp add: upd_context_def ct_def)
    obtain nm where "h' = upd_ref ref (\<lambda>r. r\<lparr>rf_name := nm\<rparr>) (upd_context c (\<lambda>_. ct) h)" "added"
      using assms(1,5) lk Some valid
      by (auto simp: ownAddReferenceToContext_def u Let_def vxSetReferenceName_def)
    moreover obtain A B where "reftable h c = A @ B" "filter (\<lambda>r. r \<noteq> 0) (cx_reftable ct) = A @ ref # B"
      using filter_set_entry [OF Some r0] by (auto simp: reftable_def ct_def)
    moreover have "cx_num_references ct = cx_num_references (ho_contexts h c) + 1"
      "cx_lock ct = cx_lock (ho_contexts h c)" by (simp_all add: ct_def)
    ultimately show ?thesis by blast
  qed
  then show "\<not> added \<Longrightarrow> h' = h \<and> 0 \<notin> set (cx_reftable (ho_contexts h c))"
    "added \<Longrightarrow> \<exists>A B nm ct. reftable h c = A @ B \<and> filter (\<lambda>r. r \<noteq> 0) (cx_reftable ct) = A @ ref # B
       \<and> cx_num_references ct = cx_num_references (ho_contexts h c) + 1
       \<and> cx_lock ct = cx_lock (ho_contexts h c)
       \<and> h' = upd_ref ref (\<lambda>r. r\<lparr>rf_name := nm\<rparr>) (upd_context c (\<lambda>_. ct) h)" by blast+
qed

lemma remove_reference:
  assumes "ownIsValidContext h c" "rc_mutex_lock rc = 0" "cx_lock (ho_contexts h c) \<noteq> None"
    and "ref \<in> set (reftable h c)"
  shows "\<exists>A B ct. reftable h c = A @ ref # B \<and> filter (\<lambda>r. r \<noteq> 0) (cx_reftable ct) = A @ B
       \<and> cx_num_references ct = cx_num_references (ho_contexts h c) - 1
       \<and> cx_lock ct = cx_lock (ho_contexts h c)
       \<and> ownRemoveReferenceFromContext rc h c ref = (upd_context c (\<lambda>_. ct) h, True)"
proof -
  let ?xs = "cx_reftable (ho_contexts h c)"
  have r0: "ref \<noteq> 0" "ref \<in> set ?xs" using assms(4) by (auto simp: reftable_def)
  then obtain i where i: "first_index (\<lambda>x. x = ref) ?xs = Some i"
    by (cases "first_index (\<lambda>x. x = ref) ?xs") (auto simp: first_index_none)
  define ct where "ct = (ho_contexts h c)\<lparr>cx_reftable := ?xs[i := 0],
      cx_num_references := cx_num_references (ho_contexts h c) - 1\<rparr>"
  have "ownRemoveReferenceFromContext rc h c ref = (upd_context c (\<lambda>_. ct) h, True)"
    using assms(1) i context_lock_ok [OF assms(2,3)]
    by (simp add: ownRemoveReferenceFromContext_def upd_context_def ct_def)
  moreover obtain A B where "reftable h c = A @ ref # B" "filter (\<lambda>r. r \<noteq> 0) (cx_reftable ct) = A @ B"
    using filter_clear_entry [OF i r0(1)] by (auto simp: reftable_def ct_def)
  ultimately show ?thesis
    by (intro exI [of _ A] exI [of _ B] exI [of _ ct] conjI) (simp_all add: ct_def)
qed

lemma refs_ok_not_context:
  assumes "refs_ok h c" shows "c \<notin> set (reftable h c)"
proof
  assume c: "c \<in> set (reftable h c)"
  then have "rf_type (ho_refs h c) \<in> ref_types" using assms by (auto simp: refs_ok_def good_ref_def)
  moreover have "rf_type (ho_refs h c) = VX_TYPE_CONTEXT"
    using assms by (simp add: refs_ok_def ownIsValidContext_def)
  ultimately show False by (simp add: ref_types_def)
qed

text \<open>A change of the counts of one reference.\<close>

lemma refs_ok_counts:
  assumes "refs_ok h c" "r \<in> set (reftable h c)" "good_ref c (f (ho_refs h r))"
    and "rf_type (f (ho_refs h r)) = rf_type (ho_refs h r)"
  shows "refs_ok (upd_ref r f h) c" "holders (upd_ref r f h) c = (holders h c)(r := counts (f (ho_refs h r)))"
proof -
  have t: "reftable (upd_ref r f h) c = reftable h c" by (rule reftable_cong) simp
  have ne: "r \<noteq> c" using refs_ok_not_context [OF assms(1)] assms(2) by blast
  have "ownIsValidContext (upd_ref r f h) c = ownIsValidContext h c"
    using ne by (intro valid_context_cong) simp
  then show "refs_ok (upd_ref r f h) c"
    using assms ne unfolding refs_ok_def t by auto
  show "holders (upd_ref r f h) c = (holders h c)(r := counts (f (ho_refs h r)))"
    using assms(2) by (auto simp: holders_def t fun_eq_iff)
qed

lemma refs_ok_good:
  assumes "refs_ok h c" "r \<in> set (reftable h c)"
  shows "r \<noteq> 0" "r \<noteq> c" "good_ref c (ho_refs h r)" "r \<in> live_objects (ho_objects h) (rf_type (ho_refs h r))"
    "ownIsValidSpecificReference h r (rf_type (ho_refs h r))" "ownIsValidReference h r"
proof -
  show g: "good_ref c (ho_refs h r)" using assms by (simp add: refs_ok_def)
  show nz: "r \<noteq> 0" using assms(2) by (simp add: reftable_def)
  show "r \<noteq> c" using refs_ok_not_context [OF assms(1)] assms(2) by blast
  show "r \<in> live_objects (ho_objects h) (rf_type (ho_refs h r))"
    using assms g unfolding refs_ok_def good_ref_def by blast
  have "ownIsValidContext h c" using assms(1) by (simp add: refs_ok_def)
  moreover have "ty \<in> ref_types \<Longrightarrow> ownIsValidType ty \<and> ty \<noteq> VX_TYPE_CONTEXT" for ty
    by (auto simp: ref_types_def object_types_def ownIsValidType_def)
  ultimately show "ownIsValidSpecificReference h r (rf_type (ho_refs h r))" "ownIsValidReference h r"
    using g nz by (auto simp: ownIsValidSpecificReference_def ownIsValidReference_def good_ref_def)
qed

lemma reference_lock_ok:
  assumes "rc_mutex_lock rc = 0" "r \<noteq> 0" "rf_context (ho_refs h r) = c" "c \<noteq> 0" "rf_lock (ho_refs h c) \<noteq> None"
  shows "ownReferenceLock rc h r = VX_SUCCESS"
  using assms by (auto simp: ownReferenceLock_def ref_mutex_def)

lemma table_lock_ok:
  assumes "refs_ok h c" "r \<in> set (reftable h c)" "rc_mutex_lock rc = 0"
  shows "ownReferenceLock rc h r = VX_SUCCESS"
proof (rule reference_lock_ok [where c = c])
  show "rf_context (ho_refs h r) = c" using refs_ok_good(3) [OF assms(1,2)] by (simp add: good_ref_def)
  show "c \<noteq> 0" "rf_lock (ho_refs h c) \<noteq> None"
    using assms(1) by (simp_all add: refs_ok_def ownIsValidContext_def)
qed (use assms refs_ok_good(1) [OF assms(1,2)] in simp_all)

lemma increment_ok:
  assumes "refs_ok h c" "r \<in> set (reftable h c)" "rc_mutex_lock rc = 0"
    and "fst (bump reftype (holders h c r)) + snd (bump reftype (holders h c r)) < 2 ^ 32"
    and "ownIncrementReference rc h r reftype = (h', n)"
  shows "refs_ok h' c" "holders h' c = (holders h c)(r := bump reftype (holders h c r))"
    "h' = upd_ref r (inc_counts reftype) h"
proof -
  have hc: "holders h c r = counts (ho_refs h r)" using assms(2) by (simp add: holders_def)
  have cnt: "counts (inc_counts reftype (ho_refs h r)) = bump reftype (holders h c r)"
    using counts_inc assms(4) hc by simp
  have h': "h' = upd_ref r (inc_counts reftype) h"
    using assms(5) table_lock_ok [OF assms(1-3)] refs_ok_good(1) [OF assms(1,2)]
    by (simp add: ownIncrementReference_def Let_def)
  have "bump reftype n \<noteq> (0, 0)" for n by (cases reftype) (simp_all add: bump_def)
  then have "good_ref c (inc_counts reftype (ho_refs h r))"
    using refs_ok_good(3) [OF assms(1,2)] cnt assms(4) by (simp add: good_ref_def)
  from refs_ok_counts [where f = "inc_counts reftype", OF assms(1,2) this] show "refs_ok h' c"
    "holders h' c = (holders h c)(r := bump reftype (holders h c r))" "h' = upd_ref r (inc_counts reftype) h"
    by (simp_all add: h' cnt)
qed

text \<open>What a destructor may do: change descriptors and the object's own data, as the destructors of data
  objects do, but no references.\<close>

definition same_refs :: "host \<Rightarrow> host \<Rightarrow> bool" where
  "same_refs h h' \<longleftrightarrow> ho_refs h' = ho_refs h \<and> ho_contexts h' = ho_contexts h \<and> ho_objects h' = ho_objects h"

definition callbacks_local :: "ref_callbacks \<Rightarrow> bool" where
  "callbacks_local cb \<longleftrightarrow> (\<forall>f h r. same_refs h (fst (rcb_destructor cb f h r)))"

lemma same_refs_refl [simp]: "same_refs h h"
  by (simp add: same_refs_def)

lemma delete_lock_frame:
  "ho_contexts (fst (ownDeleteReferenceLock rc h r)) = ho_contexts h"
  "ho_objects (fst (ownDeleteReferenceLock rc h r)) = ho_objects h"
  "\<forall>x. x \<noteq> r \<longrightarrow> ho_refs (fst (ownDeleteReferenceLock rc h r)) x = ho_refs h x"
  "rf_type (ho_refs (fst (ownDeleteReferenceLock rc h r)) r) = rf_type (ho_refs h r)"
  by (simp_all add: ownDeleteReferenceLock_def split: prod.splits)

text \<open>A reference without holders leaves the table, and its object goes back to the pool.\<close>

lemma destroy_ok:
  assumes "refs_ok h c" "r \<in> set (reftable h c)" "rc_mutex_lock rc = 0" "callbacks_local cb"
    and "destroy_reference rc cb (upd_ref r f h) r special = (h', st)"
    and "rf_context (f (ho_refs h r)) = c" "rf_type (f (ho_refs h r)) = rf_type (ho_refs h r)"
  shows "refs_ok h' c" "holders h' c = (holders h c)(r := (0, 0))"
    "r \<notin> live_objects (ho_objects h') (rf_type (ho_refs h r))" "rf_magic (ho_refs h' r) = TIVX_BAD_MAGIC"
proof -
  let ?h = "upd_ref r f h" and ?ty = "rf_type (ho_refs h r)"
  note g = refs_ok_good [OF assms(1,2)]
  have ok: "objects_ok (ho_objects h)" "pools_apart (ho_objects h)" "ownIsValidContext h c"
    "c \<in> live_objects (ho_objects h) VX_TYPE_CONTEXT" "cx_lock (ho_contexts h c) \<noteq> None"
    "rf_lock (ho_refs h c) \<noteq> None" "distinct (reftable h c)"
    "cx_num_references (ho_contexts h c) = of_nat (length (reftable h c))"
    "\<forall>r \<in> set (reftable h c). good_ref c (ho_refs h r)"
    "\<forall>ty \<in> ref_types. live_objects (ho_objects h) ty = {r \<in> set (reftable h c). rf_type (ho_refs h r) = ty}"
    using assms(1) by (simp_all add: refs_ok_def)
  have t: "reftable ?h c = reftable h c" by (rule reftable_cong) simp
  have vc: "ownIsValidContext ?h c" using ok(3) g(2) by (simp add: ownIsValidContext_def)
  obtain A B ct where rem: "reftable h c = A @ r # B" "filter (\<lambda>r. r \<noteq> 0) (cx_reftable ct) = A @ B"
    "cx_num_references ct = cx_num_references (ho_contexts h c) - 1" "cx_lock ct = cx_lock (ho_contexts h c)"
    "ownRemoveReferenceFromContext rc ?h c r = (upd_context c (\<lambda>_. ct) ?h, True)"
    using remove_reference [OF vc assms(3), of r] assms(2) ok(5) by (auto simp: t)
  define h1 where "h1 = upd_context c (\<lambda>_. ct) ?h"
  define dt where "dt = (if special = 0 then rf_destructor_callback (ho_refs h1 r) else special)"
  obtain h2 st2 where run: "(if dt \<noteq> 0 then rcb_destructor cb dt h1 r else (h1, VX_SUCCESS)) = (h2, st2)"
    by (cases "if dt \<noteq> 0 then rcb_destructor cb dt h1 r else (h1, VX_SUCCESS)")
  have "same_refs h1 (fst (rcb_destructor cb dt h1 r))" using assms(4) by (simp add: callbacks_local_def)
  then have h2: "same_refs h1 h2" using run by (auto split: if_splits)
  have ctx: "rf_context (ho_refs ?h r) = c" using assms(6) by simp
  have "destroy_reference rc cb ?h r special =
      (let h3 = upd_ref r (\<lambda>r. r\<lparr>rf_magic := TIVX_BAD_MAGIC\<rparr>) (fst (ownDeleteReferenceLock rc h2 r))
       in (h3\<lparr>ho_objects := fst (ownObjectFree rc (ho_objects h3) r (rf_type (ho_refs h3 r)))\<rparr>, st2))"
    unfolding destroy_reference_def ctx rem(5) h1_def [symmetric] by (simp add: run dt_def [symmetric] Let_def)
  then have d: "h' = (let h3 = upd_ref r (\<lambda>r. r\<lparr>rf_magic := TIVX_BAD_MAGIC\<rparr>)
        (fst (ownDeleteReferenceLock rc h2 r))
      in h3\<lparr>ho_objects := fst (ownObjectFree rc (ho_objects h3) r (rf_type (ho_refs h3 r)))\<rparr>)"
    using assms(5) by (simp add: Let_def)
  note o2 = h2 [unfolded same_refs_def]
  define h3 where "h3 = upd_ref r (\<lambda>r. r\<lparr>rf_magic := TIVX_BAD_MAGIC\<rparr>) (fst (ownDeleteReferenceLock rc h2 r))"
  have h3: "ho_contexts h3 = (ho_contexts h)(c := ct)" "ho_objects h3 = ho_objects h"
    "\<forall>x. x \<noteq> r \<longrightarrow> ho_refs h3 x = ho_refs h x" "rf_type (ho_refs h3 r) = ?ty"
    "rf_magic (ho_refs h3 r) = TIVX_BAD_MAGIC"
    using delete_lock_frame [where rc = rc and h = h2 and r = r] assms(7) by (simp_all add: h3_def o2 h1_def)
  obtain ob st' where ob: "ownObjectFree rc (ho_objects h) r ?ty = (ob, st')" by (cases "ownObjectFree rc (ho_objects h) r ?ty")
  have h': "h' = h3\<lparr>ho_objects := ob\<rparr>" using d ob h3 by (simp add: h3_def Let_def)
  note fr = object_free [OF ok(1) assms(3) g(1) ob]
  have t': "reftable h' c = A @ B" by (simp add: reftable_def h' h3(1) rem(2))
  have ty: "?ty \<in> ref_types" using g(3) by (simp add: good_ref_def)
  have rAB: "r \<notin> set A \<union> set B" "distinct (A @ B)" using ok(7) rem(1) by auto
  have refs: "ho_refs h' x = ho_refs h x" if "x \<noteq> r" for x using that h3(3) by (simp add: h')
  have refsAB: "\<forall>x \<in> set (A @ B). ho_refs h' x = ho_refs h x"
  proof
    fix x assume "x \<in> set (A @ B)"
    then have "x \<noteq> r" using rAB(1) by auto
    then show "ho_refs h' x = ho_refs h x" by (rule refs)
  qed
  have "pools_apart ob" using ok(2) slots_object_free [OF ob] by (simp add: pools_apart_def)
  moreover have "c \<in> live_objects ob VX_TYPE_CONTEXT" using ok(4) fr(3) g(2) by auto
  moreover have "ownIsValidContext h' c" using ok(3) refs [OF g(2) [symmetric]] by (simp add: ownIsValidContext_def)
  moreover have "live_objects ob ty' = {x \<in> set (A @ B). rf_type (ho_refs h' x) = ty'}" if "ty' \<in> ref_types" for ty'
  proof -
    have "live_objects ob ty' = live_objects (ho_objects h) ty' - (if ty' = ?ty then {r} else {})"
      using fr(3) by auto
    also have "\<dots> = {x \<in> set (A @ B). rf_type (ho_refs h x) = ty'}"
      using ok(10) that rem(1) rAB(1) by auto
    also have "\<dots> = {x \<in> set (A @ B). rf_type (ho_refs h' x) = ty'}" using refsAB by auto
    finally show ?thesis .
  qed
  moreover have "\<forall>x \<in> set (A @ B). good_ref c (ho_refs h' x)"
    using ok(9) refsAB rem(1) by auto
  ultimately show "refs_ok h' c"
    using ok fr(1) rem rAB(2) refs [OF g(2) [symmetric]] t' by (simp add: refs_ok_def h' h3(1))
  show "holders h' c = (holders h c)(r := (0, 0))"
    using refsAB rAB(1) by (auto simp: holders_def t' rem(1) fun_eq_iff)
  show "r \<notin> live_objects (ho_objects h') ?ty" using fr(3) by (simp add: h')
  show "rf_magic (ho_refs h' r) = TIVX_BAD_MAGIC" using h3(5) by (simp add: h')
qed

lemma release_ok:
  assumes "refs_ok h c" "r \<in> set (reftable h c)" "rc_mutex_lock rc = 0" "callbacks_local cb"
    and "rf_supplementary_data (ho_refs h r) = 0"
    and "ownReleaseReferenceInt rc cb h r (rf_type (ho_refs h r)) reftype special = (h', p, st)"
  shows "refs_ok h' c" "holders h' c = (holders h c)(r := drop_one reftype (holders h c r))" "p = 0"
    "holders h' c r = (0, 0) \<Longrightarrow> r \<notin> live_objects (ho_objects h') (rf_type (ho_refs h r))
       \<and> rf_magic (ho_refs h' r) = TIVX_BAD_MAGIC"
proof -
  let ?d = "dec_counts reftype" and ?ty = "rf_type (ho_refs h r)"
  note g = refs_ok_good [OF assms(1,2)]
  have cnt: "counts (?d (ho_refs h r)) = drop_one reftype (holders h c r)"
    using assms(2) by (simp add: counts_dec holders_def)
  have le: "fst (drop_one t n) + snd (drop_one t n) \<le> fst n + snd n" for t n
    by (cases t) (auto simp: drop_one_def)
  have sum: "fst (counts (?d (ho_refs h r))) + snd (counts (?d (ho_refs h r))) < 2 ^ 32"
    using le [of reftype "counts (ho_refs h r)"] g(3) unfolding counts_dec good_ref_def by linarith
  have dec: "ownDecrementReference rc h r reftype = (upd_ref r ?d h,
      rf_internal_count (?d (ho_refs h r)) + rf_external_count (?d (ho_refs h r)))"
    using table_lock_ok [OF assms(1-3)] g(1) by (simp add: ownDecrementReference_def Let_def)
  have supp: "release_supplementary cb (upd_ref r ?d h) r = upd_ref r ?d h"
    using assms(5) by (simp add: release_supplementary_def)
  note rel = assms(6) [unfolded ownReleaseReferenceInt_def dec]
  show "p = 0" using rel g(5) by (auto split: if_splits prod.splits)
  have "refs_ok h' c \<and> holders h' c = (holders h c)(r := drop_one reftype (holders h c r))
    \<and> (holders h' c r = (0, 0) \<longrightarrow> r \<notin> live_objects (ho_objects h') ?ty
         \<and> rf_magic (ho_refs h' r) = TIVX_BAD_MAGIC)"
  proof (cases "counts (?d (ho_refs h r)) = (0, 0)")
    case True
    then obtain st' where "destroy_reference rc cb (upd_ref r ?d h) r special = (h', st')"
      using rel g(5) counts_sum [OF sum] supp by (auto split: prod.splits)
    from destroy_ok [OF assms(1-4) this] show ?thesis
      using True cnt g(3) by (simp add: good_ref_def)
  next
    case False
    then have h': "h' = upd_ref r ?d h"
      using rel g(5) counts_sum [OF sum] by (auto split: prod.splits)
    have "good_ref c (?d (ho_refs h r))" using False sum g(3) by (simp add: good_ref_def)
    from refs_ok_counts [where f = ?d, OF assms(1,2) this] show ?thesis
      using False cnt by (simp add: h')
  qed
  then show "refs_ok h' c" "holders h' c = (holders h c)(r := drop_one reftype (holders h c r))"
    "holders h' c r = (0, 0) \<Longrightarrow> r \<notin> live_objects (ho_objects h') ?ty
       \<and> rf_magic (ho_refs h' r) = TIVX_BAD_MAGIC" by blast+
qed

lemma refs_ok_outside:
  assumes "refs_ok h c" "r \<notin> set (reftable h c)" "r \<noteq> c"
    and "\<forall>x. x \<noteq> r \<longrightarrow> ho_refs h' x = ho_refs h x" "ho_contexts h' = ho_contexts h"
    and "objects_ok (ho_objects h')" "pools_apart (ho_objects h')"
    and "live_objects (ho_objects h') = live_objects (ho_objects h)"
  shows "refs_ok h' c" "holders h' c = holders h c" "reftable h' c = reftable h c"
proof -
  show t: "reftable h' c = reftable h c" using assms(5) by (simp add: reftable_def)
  have same: "ho_refs h' x = ho_refs h x" if "x \<in> set (reftable h c)" for x
    using that assms(2,4) by metis
  have "ho_refs h' c = ho_refs h c" using assms(3,4) by metis
  moreover have "{x \<in> set (reftable h c). rf_type (ho_refs h' x) = ty}
      = {x \<in> set (reftable h c). rf_type (ho_refs h x) = ty}" for ty
    using same by auto
  ultimately show "refs_ok h' c"
    using assms(1,5-8) same by (auto simp: refs_ok_def t ownIsValidContext_def)
  show "holders h' c = holders h c" using same by (auto simp: holders_def t fun_eq_iff)
qed

lemma refs_ok_insert:
  assumes "refs_ok h c" "r \<notin> set (reftable h c)" "r \<noteq> c" "r \<noteq> 0" "good_ref c (ho_refs h' r)"
    and "\<forall>x. x \<noteq> r \<longrightarrow> ho_refs h' x = ho_refs h x" "ho_contexts h' = (ho_contexts h)(c := ct)"
    and "reftable h c = A @ B" "filter (\<lambda>r. r \<noteq> 0) (cx_reftable ct) = A @ r # B"
    and "cx_num_references ct = cx_num_references (ho_contexts h c) + 1"
      "cx_lock ct = cx_lock (ho_contexts h c)"
    and "objects_ok (ho_objects h')" "pools_apart (ho_objects h')"
    and "live_objects (ho_objects h') = (live_objects (ho_objects h))(rf_type (ho_refs h' r) :=
           insert r (live_objects (ho_objects h) (rf_type (ho_refs h' r))))"
  shows "refs_ok h' c" "holders h' c = (holders h c)(r := counts (ho_refs h' r))"
    "r \<in> set (reftable h' c)"
proof -
  let ?ty = "rf_type (ho_refs h' r)"
  have t: "reftable h' c = A @ r # B" using assms(7,9) by (simp add: reftable_def)
  then show "r \<in> set (reftable h' c)" by simp
  have same: "ho_refs h' x = ho_refs h x" if "x \<in> set (A @ B)" for x
    using that assms(2,6,8) by metis
  have ty: "?ty \<in> ref_types" using assms(5) by (simp add: good_ref_def)
  have "ho_refs h' c = ho_refs h c" using assms(3,6) by metis
  moreover have "live_objects (ho_objects h') ty = {x \<in> set (A @ r # B). rf_type (ho_refs h' x) = ty}"
    if "ty \<in> ref_types" for ty
  proof -
    have "live_objects (ho_objects h') ty
        = {x \<in> set (A @ B). rf_type (ho_refs h x) = ty} \<union> (if ty = ?ty then {r} else {})"
      using assms(1,8,14) that by (auto simp: refs_ok_def)
    also have "{x \<in> set (A @ B). rf_type (ho_refs h x) = ty} = {x \<in> set (A @ B). rf_type (ho_refs h' x) = ty}"
      using same by auto
    finally show ?thesis by auto
  qed
  moreover have "VX_TYPE_CONTEXT \<noteq> ?ty" using ty by (auto simp: ref_types_def)
  moreover have "\<forall>x \<in> set (A @ r # B). good_ref c (ho_refs h' x)"
    using assms(1,5,8) same by (auto simp: refs_ok_def)
  moreover have "distinct (A @ r # B)" using assms(1,2,8) by (auto simp: refs_ok_def)
  ultimately show "refs_ok h' c"
    using assms(1,7-14) by (simp add: refs_ok_def t ownIsValidContext_def)
  show "holders h' c = (holders h c)(r := counts (ho_refs h' r))"
    using same by (auto simp: holders_def t assms(8) fun_eq_iff)
qed

lemma init_reference:
  assumes "r \<noteq> 0" "ownInitReference rc h r c ty scope = (h', st)"
  shows "ho_contexts h' = ho_contexts h" "ho_objects h' = ho_objects h" "ho_sys h' = ho_sys h"
    "\<forall>x. x \<noteq> r \<longrightarrow> ho_refs h' x = ho_refs h x"
    "rf_magic (ho_refs h' r) = TIVX_MAGIC" "rf_type (ho_refs h' r) = ty" "rf_context (ho_refs h' r) = c"
    "counts (ho_refs h' r) = (0, 0)" "rf_scope (ho_refs h' r) = scope" "rf_obj_desc (ho_refs h' r) = None"
    "rf_supplementary_data (ho_refs h' r) = 0" "rf_destructor_callback (ho_refs h' r) = 0"
    "ty \<noteq> VX_TYPE_CONTEXT \<Longrightarrow> ty \<noteq> VX_TYPE_GRAPH \<Longrightarrow> st = VX_SUCCESS \<and> ho_posix h' = ho_posix h"
  using assms
  by (auto simp: ownInitReference_def ownReferenceSetScope_def ownCreateReferenceLock_def counts_def Let_def
      split: prod.splits if_splits)

text \<open>A creation either enters a fresh reference with one holder, or leaves the holders and the pools
  as they were, for want of an object, of room in the table or of a lock, and answers with the error
  object.\<close>

definition create_refused :: "host \<Rightarrow> uintptr \<Rightarrow> vx_enum \<Rightarrow> bool" where
  "create_refused h c ty \<longleftrightarrow> (\<forall>u \<in> set (op_inUse (ob_pools (ho_objects h) ty)). u)
     \<or> 0 \<notin> set (cx_reftable (ho_contexts h c)) \<or> ty = VX_TYPE_GRAPH"

lemma create_ok:
  assumes "refs_ok h c" "rc_mutex_lock rc = 0" "ty \<in> ref_types"
    and "ownCreateReference rc h c ty reftype scope = (h', r)"
  shows "refs_ok h' c"
    "(r \<noteq> 0 \<and> r \<notin> set (reftable h c) \<and> r \<in> set (reftable h' c) \<and> rf_type (ho_refs h' r) = ty
        \<and> rf_supplementary_data (ho_refs h' r) = 0
        \<and> holders h' c = (holders h c)(r := bump reftype (0, 0)))
     \<or> (create_refused h c ty \<and> holders h' c = holders h c
        \<and> live_objects (ho_objects h') = live_objects (ho_objects h)
        \<and> r = ownGetErrorObject rc h' c VX_ERROR_NO_RESOURCES)"
proof -
  have ok: "objects_ok (ho_objects h)" "pools_apart (ho_objects h)" "ownIsValidContext h c"
    "c \<in> live_objects (ho_objects h) VX_TYPE_CONTEXT" "cx_lock (ho_contexts h c) \<noteq> None"
    "rf_lock (ho_refs h c) \<noteq> None" using assms(1) by (simp_all add: refs_ok_def)
  have ty: "ty \<in> set object_types" "ty \<noteq> VX_TYPE_CONTEXT" using assms(3) by (simp_all add: ref_types_def)
  obtain ob a where al: "ownObjectAlloc rc (ho_objects h) ty = (ob, a)"
    by (cases "ownObjectAlloc rc (ho_objects h) ty")
  note oa = object_alloc [OF ok(1) assms(2) al]
  have apart: "pools_apart ob" using ok(2) slots_object_alloc [OF al] by (simp add: pools_apart_def)
  let ?goal = "refs_ok h' c \<and>
    ((r \<noteq> 0 \<and> r \<notin> set (reftable h c) \<and> r \<in> set (reftable h' c) \<and> rf_type (ho_refs h' r) = ty
        \<and> rf_supplementary_data (ho_refs h' r) = 0
        \<and> holders h' c = (holders h c)(r := bump reftype (0, 0)))
     \<or> (create_refused h c ty \<and> holders h' c = holders h c
        \<and> live_objects (ho_objects h') = live_objects (ho_objects h)
        \<and> r = ownGetErrorObject rc h' c VX_ERROR_NO_RESOURCES))"
  have ?goal
  proof (cases "a = 0")
    case True
    then have "h\<lparr>ho_objects := ob\<rparr> = h" using oa(2) by simp
    then have "h' = h \<and> r = ownGetErrorObject rc h' c VX_ERROR_NO_RESOURCES"
      using assms(4) al True by (auto simp: ownCreateReference_def Let_def)
    moreover have "create_refused h c ty"
      using object_alloc_full [OF ok(1) assms(2) ty(1)] al True by (auto simp: create_refused_def)
    ultimately show ?thesis using assms(1) by simp
  next
    case False
    have fresh: "a \<notin> live_objects (ho_objects h) ty" "live_objects ob = (live_objects (ho_objects h))
        (ty := insert a (live_objects (ho_objects h) ty))" using oa(3) False by blast+
    have "a \<in> live_objects ob ty" using fresh(2) by simp
    then have new: "t = ty" if "a \<in> live_objects (ho_objects h) t" for t
      using that live_apart [OF apart, of a t ty] fresh(2) by (cases "t = ty") auto
    have a: "a \<notin> set (reftable h c)" "a \<noteq> c"
      using new refs_ok_good(4) [OF assms(1)] fresh(1) ok(4) ty(2) by metis+
    define h0 where "h0 = h\<lparr>ho_objects := ob\<rparr>"
    obtain h1 st1 where ini: "ownInitReference rc h0 a c ty scope = (h1, st1)"
      by (cases "ownInitReference rc h0 a c ty scope")
    note i = init_reference [OF False ini, unfolded h0_def, simplified]
    text \<open>Giving the object back undoes the allocation.\<close>
    have undo: "?goal" if h3: "ho_contexts h3 = ho_contexts h" "ho_objects h3 = ob"
        "\<forall>x. x \<noteq> a \<longrightarrow> ho_refs h3 x = ho_refs h x" "rf_type (ho_refs h3 a) = ty"
        and h4: "h' = h3\<lparr>ho_objects := fst (ownObjectFree rc ob a ty)\<rparr>"
        and r: "r = ownGetErrorObject rc h' c VX_ERROR_NO_RESOURCES" and why: "create_refused h c ty" for h3
    proof -
      obtain ob' st' where fr: "ownObjectFree rc ob a ty = (ob', st')" by (cases "ownObjectFree rc ob a ty")
      note f = object_free [OF oa(1) assms(2) False fr]
      have "pools_apart ob'" using apart slots_object_free [OF fr] by (simp add: pools_apart_def)
      moreover have "live_objects ob' = live_objects (ho_objects h)"
        using f(3) fresh by (auto simp: fun_eq_iff)
      ultimately show ?thesis
        using refs_ok_outside [OF assms(1) a, of h'] h3 h4 f(1) fr r why by simp
    qed
    show ?thesis
    proof (cases "st1 = VX_SUCCESS")
      case False
      then have "ty = VX_TYPE_GRAPH" using i(13) ty(2) by blast
      moreover have "h' = h1\<lparr>ho_objects := fst (ownObjectFree rc ob a ty)\<rparr>
          \<and> r = ownGetErrorObject rc h' c VX_ERROR_NO_RESOURCES"
        using assms(4) al \<open>a \<noteq> 0\<close> ini False i(2,6) by (auto simp: ownCreateReference_def h0_def Let_def)
      ultimately show ?thesis using undo [of h1] i by (simp add: create_refused_def)
    next
      case True
      have "ho_refs h1 c = ho_refs h c" using i(4) a(2) by metis
      then have vc: "ownIsValidContext h1 c" "rf_lock (ho_refs h1 c) \<noteq> None" "c \<noteq> 0"
        using ok(3,6) by (simp_all add: ownIsValidContext_def)
      have "ownReferenceLock rc h1 a = VX_SUCCESS"
        by (rule reference_lock_ok [OF assms(2) \<open>a \<noteq> 0\<close> i(7) vc(3,2)])
      then have inc: "fst (ownIncrementReference rc h1 a reftype) = upd_ref a (inc_counts reftype) h1"
        using \<open>a \<noteq> 0\<close> by (simp add: ownIncrementReference_def Let_def)
      define h2 where "h2 = upd_ref a (inc_counts reftype) h1"
      have cnt: "counts (ho_refs h2 a) = bump reftype (0, 0)"
        using counts_inc [of reftype "ho_refs h1 a"] i(8) by (cases reftype) (simp_all add: h2_def bump_def)
      have vr: "ownIsValidReference h2 a"
      proof -
        have "ownIsValidType ty" using ty by (auto simp: object_types_def ownIsValidType_def)
        then show ?thesis
          using vc(1) i(5-7) \<open>a \<noteq> 0\<close> a(2) ty(2)
          by (simp add: h2_def ownIsValidReference_def ownIsValidContext_def)
      qed
      have vc2: "ownIsValidContext h2 c" "cx_lock (ho_contexts h2 c) \<noteq> None"
        using vc(1) a(2) ok(5) i(1) by (simp_all add: h2_def ownIsValidContext_def)
      obtain h3 added where add: "ownAddReferenceToContext rc h2 c a = (h3, added)"
        by (cases "ownAddReferenceToContext rc h2 c a")
      note ad = add_reference [OF vc2(1) assms(2) vc2(2) vr add]
      show ?thesis
      proof (cases added)
        case False
        then have "h3 = h2" "0 \<notin> set (cx_reftable (ho_contexts h c))" using ad(1) i(1) by (simp_all add: h2_def)
        moreover have "h' = h3\<lparr>ho_objects := fst (ownObjectFree rc ob a ty)\<rparr>
            \<and> r = ownGetErrorObject rc h' c VX_ERROR_NO_RESOURCES"
          using assms(4) al \<open>a \<noteq> 0\<close> ini True inc add False i(2,6) \<open>h3 = h2\<close>
          by (auto simp: ownCreateReference_def h0_def h2_def Let_def)
        ultimately show ?thesis using undo [of h2] i by (simp add: create_refused_def h2_def)
      next
        case True
        have res: "h' = h3" "r = a"
          using assms(4) al \<open>a \<noteq> 0\<close> ini \<open>st1 = VX_SUCCESS\<close> inc add True
          by (simp_all add: ownCreateReference_def h0_def h2_def Let_def)
        obtain A B nm ct where n: "reftable h2 c = A @ B" "filter (\<lambda>r. r \<noteq> 0) (cx_reftable ct) = A @ a # B"
          "cx_num_references ct = cx_num_references (ho_contexts h2 c) + 1"
          "cx_lock ct = cx_lock (ho_contexts h2 c)"
          "h3 = upd_ref a (\<lambda>r. r\<lparr>rf_name := nm\<rparr>) (upd_context c (\<lambda>_. ct) h2)"
          using ad(2) [OF True] by blast
        have t2: "reftable h2 c = reftable h c" using i(1) by (simp add: reftable_def h2_def)
        have fields: "rf_type (ho_refs h' a) = ty" "rf_supplementary_data (ho_refs h' a) = 0"
          "counts (ho_refs h' a) = bump reftype (0, 0)" "rf_magic (ho_refs h' a) = TIVX_MAGIC"
          "rf_context (ho_refs h' a) = c"
          using cnt i(5-7,11) by (simp_all add: res n(5) h2_def counts_def)
        have "bump reftype (0, 0) \<noteq> (0, 0) \<and> fst (bump reftype (0, 0)) + snd (bump reftype (0, 0)) < 2 ^ 32"
          by (cases reftype) (simp_all add: bump_def)
        then have "good_ref c (ho_refs h' a)" using fields assms(3) by (simp add: good_ref_def)
        from refs_ok_insert [OF assms(1) a \<open>a \<noteq> 0\<close> this, of ct A B] show ?thesis
          using n t2 i(1,2,4) oa(1) apart fresh fields a \<open>a \<noteq> 0\<close> by (simp add: res h2_def)
      qed
    qed
  qed
  then show "refs_ok h' c"
    "(r \<noteq> 0 \<and> r \<notin> set (reftable h c) \<and> r \<in> set (reftable h' c) \<and> rf_type (ho_refs h' r) = ty
        \<and> rf_supplementary_data (ho_refs h' r) = 0
        \<and> holders h' c = (holders h c)(r := bump reftype (0, 0)))
     \<or> (create_refused h c ty \<and> holders h' c = holders h c
        \<and> live_objects (ho_objects h') = live_objects (ho_objects h)
        \<and> r = ownGetErrorObject rc h' c VX_ERROR_NO_RESOURCES)" by blast+
qed

section \<open>Reference counting over any sequence of calls\<close>

lemma error_object:
  "ownGetErrorObject rc h c st = 0 \<or> rf_type (ho_refs h (ownGetErrorObject rc h c st)) = VX_TYPE_ERROR"
  by (auto simp: ownGetErrorObject_def find_Some_iff split: option.splits)

text \<open>What the framework and the application together may do with the references of a context, in any
  order: create some, take more holds on a reference that somebody holds, and give holds back. The
  second argument is the book they keep of their external and internal holds.\<close>

inductive ref_calls ::
  "posix_rc \<Rightarrow> ref_callbacks \<Rightarrow> uintptr \<Rightarrow> host \<Rightarrow> host \<Rightarrow> (uintptr \<Rightarrow> nat \<times> nat) \<Rightarrow> bool"
  for rc :: posix_rc and cb :: ref_callbacks and c :: uintptr and h0 :: host where
  start: "ref_calls rc cb c h0 h0 (holders h0 c)"
| create: "\<lbrakk>ref_calls rc cb c h0 h n; ty \<in> ref_types; ty \<noteq> VX_TYPE_ERROR;
     ownCreateReference rc h c ty reftype scope = (h', r)\<rbrakk> \<Longrightarrow>
   ref_calls rc cb c h0 h' (if r \<noteq> 0 \<and> rf_type (ho_refs h' r) = ty then n(r := bump reftype (0, 0)) else n)"
| hold: "\<lbrakk>ref_calls rc cb c h0 h n; n r \<noteq> (0, 0);
     fst (bump reftype (n r)) + snd (bump reftype (n r)) < 2 ^ 32;
     ownIncrementReference rc h r reftype = (h', k)\<rbrakk> \<Longrightarrow>
   ref_calls rc cb c h0 h' (n(r := bump reftype (n r)))"
| release: "\<lbrakk>ref_calls rc cb c h0 h n; n r \<noteq> (0, 0); rf_supplementary_data (ho_refs h r) = 0;
     ownReleaseReferenceInt rc cb h r (rf_type (ho_refs h r)) reftype special = (h', p, st)\<rbrakk> \<Longrightarrow>
   ref_calls rc cb c h0 h' (n(r := drop_one reftype (n r)))"

lemma ref_calls_counts:
  assumes "ref_calls rc cb c h0 h n" "refs_ok h0 c" "rc_mutex_lock rc = 0" "callbacks_local cb"
  shows "refs_ok h c \<and> holders h c = n"
  using assms(1)
proof (induction rule: ref_calls.induct)
  case start
  then show ?case using assms(2) by simp
next
  case (create h n ty reftype scope h' r)
  then have "refs_ok h c" "holders h c = n" by blast+
  note cr = create_ok [OF this(1) assms(3) create.hyps(2,4)]
  show ?case using cr error_object [of rc h' c VX_ERROR_NO_RESOURCES] create.hyps(3) \<open>holders h c = n\<close>
    by (auto simp: fun_eq_iff)
next
  case (hold h n r reftype h' k)
  then have ok: "refs_ok h c" "holders h c = n" by blast+
  then have "r \<in> set (reftable h c)" using hold.hyps(2) by (auto simp: holders_def split: if_splits)
  from increment_ok [OF ok(1) this assms(3) _ hold.hyps(4)] show ?case using ok(2) hold.hyps(3) by simp
next
  case (release h n r reftype special h' p st)
  then have ok: "refs_ok h c" "holders h c = n" by blast+
  then have "r \<in> set (reftable h c)" using release.hyps(2) by (auto simp: holders_def split: if_splits)
  from release_ok [OF ok(1) this assms(3,4) release.hyps(3,4)] show ?case using ok(2) by simp
qed


section \<open>A context for examples\<close>

text \<open>One context, at the first address of its pool, with an empty table of four entries.\<close>

definition ctx_addr :: uintptr where "ctx_addr = 0x80100000"

definition ref_host :: host where
  "ref_host = (host_of_links [])
     \<lparr>ho_refs := (\<lambda>_. zero_ref)(ctx_addr := zero_ref\<lparr>rf_type := VX_TYPE_CONTEXT, rf_lock := Some 1,
                                                    rf_external_count := 1\<rparr>),
      ho_objects := set_inUse VX_TYPE_CONTEXT [True, False] sample_objects\<rparr>"

definition no_callbacks :: ref_callbacks where
  "no_callbacks = \<lparr>rcb_destructor = (\<lambda>_ h _. (h, VX_SUCCESS)), rcb_release = (\<lambda>_ h _. (h, 0, VX_SUCCESS))\<rparr>"

lemma no_callbacks_local: "callbacks_local no_callbacks"
  by (simp add: callbacks_local_def no_callbacks_def)

lemma sample_slots:
  assumes "ty \<in> set object_types" "x \<in> slots (ob_pools sample_objects ty)"
  shows "drop_bit 20 x = ucast ty"
proof -
  have "\<forall>ty \<in> set object_types. \<forall>i \<in> {0, 1}. drop_bit 20 (pool_addr (ob_pools sample_objects ty) i) = ucast ty"
    by (simp add: object_types_def sample_objects_def pool_addr_def)
  moreover obtain i where "x = pool_addr (ob_pools sample_objects ty) i" "i < 2"
    using assms(2) by (auto simp: slots_def sample_objects_def numeral_2_eq_2)
  moreover from this(2) have "i \<in> {0, 1}" by auto
  ultimately show ?thesis using assms(1) by blast
qed

lemma sample_apart: "pools_apart sample_objects"
proof -
  have "t = t'" if "(ucast t :: uintptr) = ucast t'" for t t' :: vx_enum
  proof -
    have "unat w < 2 ^ 64" for w :: vx_enum using unsigned_less [of w, where 'a = nat] by simp
    then have "unat t = unat (ucast t :: uintptr)" "unat t' = unat (ucast t' :: uintptr)"
      by (simp_all add: unsigned_ucast_eq take_bit_nat_eq_self)
    then show ?thesis using that by (metis unsigned_word_eqI)
  qed
  then show ?thesis
    using sample_slots unfolding pools_apart_def by (metis disjoint_iff)
qed

lemma ref_host_ok: "refs_ok ref_host ctx_addr" "reftable ref_host ctx_addr = []"
proof -
  let ?ob = "set_inUse VX_TYPE_CONTEXT [True, False] sample_objects"
  have inUse: "op_inUse (ob_pools ?ob ty) = (if ty = VX_TYPE_CONTEXT then [True, False] else [False, False])"
    for ty by (simp add: set_inUse_def sample_objects_def)
  have ok: "objects_ok ?ob"
    using sample_objects_ok by (intro set_inUse_ok) (simp_all add: objects_ok_def pool_ok_def
        sample_objects_def object_types_def)
  have apart: "pools_apart ?ob"
    using sample_apart by (simp add: pools_apart_def slots_set_inUse sample_objects_def)
  have empty: "live p = {}" if "op_inUse p = [False, False]" for p
    using that by (auto simp: live_def nth_Cons split: nat.splits)
  have "live (ob_pools ?ob ty) = {}" if "ty \<noteq> VX_TYPE_CONTEXT" for ty
    by (rule empty) (simp only: inUse that if_False)
  then have live: "live_objects ?ob ty = {}" if "ty \<in> ref_types" for ty
    using that by (simp add: live_objects_def ref_types_def)
  have "pool_addr (ob_pools ?ob VX_TYPE_CONTEXT) 0 = ctx_addr"
    by (simp add: pool_addr_def set_inUse_def sample_objects_def ctx_addr_def)
  then have "ctx_addr \<in> live (ob_pools ?ob VX_TYPE_CONTEXT)"
    unfolding live_def by (intro CollectI exI [of _ 0]) (simp add: inUse)
  then have "ctx_addr \<in> live_objects ?ob VX_TYPE_CONTEXT"
    by (simp add: live_objects_def object_types_def)
  moreover show t: "reftable ref_host ctx_addr = []"
    by (simp add: reftable_def ref_host_def host_of_links_def zero_context_def)
  ultimately show "refs_ok ref_host ctx_addr"
    using ok apart live
    by (simp add: refs_ok_def t ownIsValidContext_def)
      (simp add: ref_host_def host_of_links_def zero_context_def zero_ref_def ctx_addr_def)
qed


text \<open>When the table is full, a graph that cannot be entered gives its object back but not its lock.\<close>

lemma create_graph_leaks_lock:
  "isMutexUse (ho_posix (fst (ownCreateReference posix_ok
      (upd_context ctx_addr (\<lambda>c. c\<lparr>cx_reftable := [1, 2, 3, 4]\<rparr>) ref_host)
      ctx_addr VX_TYPE_GRAPH VX_EXTERNAL ctx_addr))) = [True, True, True, False]
   \<and> isMutexUse (ho_posix ref_host) = [True, True, False, False]"
  by code_simp

end
