(* ===== verification/Delays.thy ===== *)
theory Delays
  imports References Graph_Links
begin

text \<open>
  Delays of \<open>source/framework/vx_delay.c\<close>: rings of references of one type. A node whose parameter
  is an element of a delay is associated with the element's slot, and when the delay ages every
  associated parameter is moved on to the reference that is in the slot now. With it come the
  setting of node parameters, \<open>ownNodeSetParameter\<close> of \<open>vx_node.c\<close> and \<open>vxSetParameterByIndex\<close> of
  \<open>vx_parameter.c\<close>.

  An association is a node and the index of a parameter. The entry of the array \<open>set\<close> and the pool
  entries behind it are one list per slot, so that a pool entry is in use exactly when it is in a
  list.
\<close>

section \<open>Parameters of nodes\<close>

definition upd_delay :: "uintptr \<Rightarrow> (vx_delay_t \<Rightarrow> vx_delay_t) \<Rightarrow> host \<Rightarrow> host" where
  "upd_delay d f h = h\<lparr>ho_delays := (ho_delays h)(d := f (ho_delays h d))\<rparr>"

abbreviation (input) set_prm :: "uintptr \<Rightarrow> uint32 \<Rightarrow> uintptr \<Rightarrow> host \<Rightarrow> host" where
  "set_prm n idx v \<equiv> upd_vnode n (\<lambda>x. x\<lparr>vn_parameters := (vn_parameters x)[unat idx := v]\<rparr>)"

abbreviation (input) prm :: "host \<Rightarrow> uintptr \<Rightarrow> uint32 \<Rightarrow> uintptr" where
  "prm h n idx \<equiv> vn_parameters (ho_nodes h n) ! unat idx"

text \<open>\<open>ownReleaseReferenceInt\<close> works on \<open>node->parameters[idx]\<close> itself and clears it.\<close>

definition ownNodeSetParameter ::
  "posix_rc \<Rightarrow> ref_callbacks \<Rightarrow> host \<Rightarrow> uintptr \<Rightarrow> uint32 \<Rightarrow> uintptr \<Rightarrow> host \<times> vx_status" where
  "ownNodeSetParameter rc cb h node idx value =
     (case (if prm h node idx \<noteq> 0
            then (case ownReleaseReferenceInt rc cb h (prm h node idx) (rf_type (ho_refs h (prm h node idx)))
                          VX_INTERNAL 0 of
                    (h1, p, st) \<Rightarrow> (set_prm node idx p h1, st))
            else (h, VX_SUCCESS)) of
        (h1, status) \<Rightarrow>
          if status = VX_SUCCESS then
            (let h2 = set_prm node idx value (fst (ownIncrementReference rc h1 value VX_INTERNAL))
             in (upd_nd0 node (\<lambda>d. d\<lparr>nd_data_id := (nd_data_id d)[unat idx := ownReferenceGetObjDescId h2 value]\<rparr>) h2,
                 status))
          else (h1, status))"

section \<open>Associations\<close>

abbreviation (input) TIVX_DELAY_MAX_PRM_OBJECT :: nat where "TIVX_DELAY_MAX_PRM_OBJECT \<equiv> 16"
abbreviation (input) TIVX_DELAY_MAX_OBJECT :: "'a::numeral" where "TIVX_DELAY_MAX_OBJECT \<equiv> 8"

definition tivxIsValidDelay :: "host \<Rightarrow> uintptr \<Rightarrow> bool" where
  "tivxIsValidDelay h d \<longleftrightarrow> ownIsValidSpecificReference h d VX_TYPE_DELAY"

text \<open>The index of a slot after \<open>i\<close> from the current position: \<open>(index + i) % count\<close> on 32 bits.\<close>

definition delay_slot :: "vx_delay_t \<Rightarrow> uint32 \<Rightarrow> nat" where
  "delay_slot dl i = nat (sint (dl_index dl + i) mod sint (dl_count dl))"

text \<open>Entries of the pool in use: all but the first of each list.\<close>

definition pool_used :: "vx_delay_t \<Rightarrow> nat" where
  "pool_used dl = sum_list (map (\<lambda>l. length l - 1) (dl_set dl))"

definition abs32 :: "uint32 \<Rightarrow> uint32" where
  "abs32 w = (if sint w < 0 then - w else w)"

definition ownAddAssociationToDelay ::
  "posix_rc \<Rightarrow> host \<Rightarrow> uintptr \<Rightarrow> uintptr \<Rightarrow> uint32 \<Rightarrow> host \<times> bool" where
  "ownAddAssociationToDelay rc h value n i =
     (let delay = rf_delay (ho_refs h value);
          dl = ho_delays h delay;
          idx = delay_slot dl (abs32 (rf_delay_slot_index (ho_refs h value)));
          l = dl_set dl ! idx
      in if fst (l ! 0) = 0 then
           (fst (ownIncrementReference rc (upd_delay delay (\<lambda>dl. dl\<lparr>dl_set := (dl_set dl)[idx := l[0 := (n, i)]]\<rparr>) h)
                   delay VX_INTERNAL), True)
         else if pool_used dl < TIVX_DELAY_MAX_PRM_OBJECT then
           (fst (ownIncrementReference rc (upd_delay delay (\<lambda>dl. dl\<lparr>dl_set := (dl_set dl)[idx := l @ [(n, i)]]\<rparr>) h)
                   delay VX_INTERNAL), True)
         else (h, False))"

text \<open>The head of a slot is emptied, any other entry goes back to the pool. The slot is
  \<open>delay_slot_index\<close> itself here.\<close>

definition ownRemoveAssociationToDelay ::
  "posix_rc \<Rightarrow> ref_callbacks \<Rightarrow> host \<Rightarrow> uintptr \<Rightarrow> uintptr \<Rightarrow> uint32 \<Rightarrow> host \<times> bool" where
  "ownRemoveAssociationToDelay rc cb h value n i =
     (let delay = rf_delay (ho_refs h value);
          idx = unat (rf_delay_slot_index (ho_refs h value));
          l = dl_set (ho_delays h delay) ! idx;
          removed = (if l ! 0 = (n, i) then Some (l[0 := (0, 0)])
                     else if (n, i) \<in> set (tl l) then Some (hd l # remove1 (n, i) (tl l))
                     else None)
      in case removed of
           None \<Rightarrow> (h, False)
         | Some l' \<Rightarrow>
            (case ownReleaseReferenceInt rc cb (upd_delay delay (\<lambda>dl. dl\<lparr>dl_set := (dl_set dl)[idx := l']\<rparr>) h)
                    delay VX_TYPE_DELAY VX_INTERNAL 0 of
               (h1, _, status) \<Rightarrow> (h1, status = VX_SUCCESS)))"

section \<open>Setting a parameter\<close>

abbreviation (input) VX_TYPE_REFERENCE :: vx_enum where "VX_TYPE_REFERENCE \<equiv> 0x800"
abbreviation (input) VX_PARAMETER_STATE_OPTIONAL :: vx_enum where "VX_PARAMETER_STATE_OPTIONAL \<equiv> 0x8001"
abbreviation (input) VX_ERROR_INVALID_SCOPE :: vx_status where "VX_ERROR_INVALID_SCOPE \<equiv> - 20"
abbreviation (input) TIVX_KERNEL_MAX_PARAMS :: "'a::numeral" where "TIVX_KERNEL_MAX_PARAMS \<equiv> 32"

definition check_param_type :: "host \<Rightarrow> vx_enum \<Rightarrow> uintptr \<Rightarrow> vx_status" where
  "check_param_type h ty value =
     (if \<not> ownIsValidReference h value then VX_ERROR_INVALID_REFERENCE
      else if ty \<noteq> VX_TYPE_REFERENCE \<and> ty \<noteq> rf_type (ho_refs h value)
           \<and> \<not> (rf_type (ho_refs h value) = VX_TYPE_SCALAR \<and> rf_scalar_data_type (ho_refs h value) = ty)
      then VX_ERROR_INVALID_TYPE else VX_SUCCESS)"

text \<open>A parameter over which a node is replicated must be the first item of an object array or of a
  pyramid.\<close>

definition check_replicated :: "host \<Rightarrow> uintptr \<Rightarrow> bool" where
  "check_replicated h value =
     (let scope = ho_refs h (rf_scope (ho_refs h value))
      in (rf_type scope = VX_TYPE_OBJECT_ARRAY \<or> rf_type scope = VX_TYPE_PYRAMID)
         \<and> rf_items scope ! 0 = value)"

definition vxSetParameterByIndex ::
  "posix_rc \<Rightarrow> ref_callbacks \<Rightarrow> host \<Rightarrow> uintptr \<Rightarrow> uint32 \<Rightarrow> uintptr \<Rightarrow> host \<times> vx_status" where
  "vxSetParameterByIndex rc cb h node index value =
     (if \<not> ownIsValidSpecificReference h node VX_TYPE_NODE then (h, VX_ERROR_INVALID_REFERENCE)
      else
       (let krn = ho_kernels h (vn_kernel (ho_nodes h node)) in
        if index \<ge> krn_num_parameters krn \<or> index \<ge> TIVX_KERNEL_MAX_PARAMS then (h, VX_ERROR_INVALID_VALUE)
        else if value = 0 \<and> krn_states krn ! unat index = VX_PARAMETER_STATE_OPTIONAL then (h, VX_SUCCESS)
        else
         (let status = check_param_type h (krn_types krn ! unat index) value in
          if status \<noteq> VX_SUCCESS then (h, status)
          else
           (case (if prm h node index \<noteq> 0 \<and> rf_delay (ho_refs h (prm h node index)) \<noteq> 0
                  then ownRemoveAssociationToDelay rc cb h (prm h node index) node index
                  else (h, True)) of
              (h1, res) \<Rightarrow>
                if \<not> res then (h1, VX_ERROR_INVALID_REFERENCE)
                else
                 (case (if rf_delay (ho_refs h1 value) \<noteq> 0
                        then ownAddAssociationToDelay rc h1 value node index
                        else (h1, True)) of
                    (h2, res) \<Rightarrow>
                      if \<not> res then (h2, VX_ERROR_INVALID_REFERENCE)
                      else if vn_replicated_flags (ho_nodes h2 node) ! unat index \<and> \<not> check_replicated h2 value
                      then (h2, VX_ERROR_INVALID_SCOPE)
                      else (fst (ownNodeSetParameter rc cb h2 node index value), VX_SUCCESS))))))"

section \<open>Delays\<close>

definition vxGetReferenceFromDelay :: "posix_rc \<Rightarrow> host \<Rightarrow> uintptr \<Rightarrow> uint32 \<Rightarrow> uintptr" where
  "vxGetReferenceFromDelay rc h delay index =
     (if tivxIsValidDelay h delay then
        (let dl = ho_delays h delay in
         if abs32 index < dl_count dl then dl_refs dl ! delay_slot dl (abs32 index)
         else ownGetErrorObject rc h (rf_context (ho_refs h delay)) VX_ERROR_INVALID_PARAMETERS)
      else 0)"

text \<open>The parameters of slot \<open>i\<close> are moved on to the reference \<open>refs[j]\<close>. A kernel or a destructor
  does not change the associations, so that the list of a slot is read once.\<close>

fun age_params ::
  "posix_rc \<Rightarrow> ref_callbacks \<Rightarrow> uintptr \<Rightarrow> uint32 \<Rightarrow> nat \<Rightarrow> host \<Rightarrow> (uintptr \<times> uint32) list \<Rightarrow> vx_status \<Rightarrow>
   host \<times> vx_status" where
  "age_params rc cb delay i j h [] status = (h, status)"
| "age_params rc cb delay i j h ((n, idx) # params) status =
     (if n \<noteq> 0 then
        (let ref = dl_refs (ho_delays h delay) ! j in
         case ownNodeSetParameter rc cb h n idx ref of
           (h1, st) \<Rightarrow> age_params rc cb delay i j (ownInitReferenceForDelay h1 ref delay i) params st)
      else age_params rc cb delay i j h params status)"

fun age_slots ::
  "posix_rc \<Rightarrow> ref_callbacks \<Rightarrow> uintptr \<Rightarrow> host \<Rightarrow> nat list \<Rightarrow> vx_status \<Rightarrow> host \<times> vx_status" where
  "age_slots rc cb delay h [] status = (h, status)"
| "age_slots rc cb delay h (i # is) status =
     (case age_params rc cb delay (of_nat i) (delay_slot (ho_delays h delay) (of_nat i)) h
             (dl_set (ho_delays h delay) ! i) status of
        (h1, st) \<Rightarrow> age_slots rc cb delay h1 is st)"

definition ownAgeDelay :: "posix_rc \<Rightarrow> ref_callbacks \<Rightarrow> host \<Rightarrow> uintptr \<Rightarrow> host \<times> vx_status" where
  "ownAgeDelay rc cb h delay =
     (if tivxIsValidDelay h delay then
        (let h1 = upd_delay delay (\<lambda>dl. dl\<lparr>dl_index := (dl_index dl + 1) mod dl_count dl\<rparr>) h
         in age_slots rc cb delay h1 [0..<unat (dl_count (ho_delays h delay))] VX_SUCCESS)
      else (h, VX_ERROR_INVALID_REFERENCE))"

fun age_list ::
  "posix_rc \<Rightarrow> ref_callbacks \<Rightarrow> host \<Rightarrow> uintptr list \<Rightarrow> vx_status \<Rightarrow> host \<times> vx_status" where
  "age_list rc cb h [] status = (h, status)"
| "age_list rc cb h (d # ds) status = (case ownAgeDelay rc cb h d of (h1, st) \<Rightarrow> age_list rc cb h1 ds st)"

definition vxAgeDelay :: "posix_rc \<Rightarrow> ref_callbacks \<Rightarrow> host \<Rightarrow> uintptr \<Rightarrow> host \<times> vx_status" where
  "vxAgeDelay rc cb h delay =
     (if tivxIsValidDelay h delay then
        (case ownAgeDelay rc cb h delay of
           (h1, status) \<Rightarrow>
             (let dl = ho_delays h1 delay in
              if dl_type dl = VX_TYPE_PYRAMID
              then age_list rc cb h1 (take (unat (dl_pyr_num_levels dl)) (dl_pyr_delay dl)) status
              else if dl_type dl = VX_TYPE_OBJECT_ARRAY
              then age_list rc cb h1 (take (unat (dl_obj_arr_num_items dl)) (dl_obj_arr_delay dl)) status
              else (h1, status)))
      else (h, VX_ERROR_INVALID_REFERENCE))"

definition ownDelayInit :: "host \<Rightarrow> uintptr \<Rightarrow> uint32 \<Rightarrow> vx_enum \<Rightarrow> uintptr \<times> uintptr \<times> uintptr \<Rightarrow> host" where
  "ownDelayInit h delay num ty fns =
     (case fns of
        (destruct, alloc_buffer, release_buffer) \<Rightarrow>
          upd_ref delay (\<lambda>r. r\<lparr>rf_destructor_callback := destruct, rf_mem_alloc_callback := alloc_buffer,
                              rf_release_callback := release_buffer\<rparr>)
            (upd_delay delay (\<lambda>dl. dl\<lparr>dl_type := ty, dl_count := num, dl_pyr_num_levels := 0,
                 dl_obj_arr_num_items := 0, dl_index := 0,
                 dl_set := replicate (unat num) [(0, 0)] @ map (\<lambda>l. [hd l]) (drop (unat num) (dl_set dl))\<rparr>) h))"

definition ownAddRefToDelay :: "posix_rc \<Rightarrow> host \<Rightarrow> uintptr \<Rightarrow> uintptr \<Rightarrow> uint32 \<Rightarrow> host \<times> vx_status" where
  "ownAddRefToDelay rc h delay ref i =
     (let h1 = ownInitReferenceForDelay
                 (upd_delay delay (\<lambda>dl. dl\<lparr>dl_refs := (dl_refs dl)[unat i := ref]\<rparr>) h) ref delay i
      in (fst (ownIncrementReference rc h1 ref VX_INTERNAL), VX_SUCCESS))"

text \<open>Each entry is released as the code does it, which clears the pointer in the array.\<close>

fun release_sub_delays ::
  "posix_rc \<Rightarrow> ref_callbacks \<Rightarrow> host \<Rightarrow> uintptr list \<Rightarrow> vx_status \<Rightarrow> host \<times> uintptr list \<times> vx_status" where
  "release_sub_delays rc cb h [] status = (h, [], status)"
| "release_sub_delays rc cb h (d # ds) status =
     (case ownReleaseReferenceInt rc cb h d VX_TYPE_DELAY VX_INTERNAL 0 of
        (h1, p, st) \<Rightarrow>
          (case release_sub_delays rc cb h1 ds st of (h2, ps, st2) \<Rightarrow> (h2, p # ps, st2)))"

definition release_pyramid_delays ::
  "posix_rc \<Rightarrow> ref_callbacks \<Rightarrow> host \<Rightarrow> uintptr \<Rightarrow> vx_status \<Rightarrow> host \<times> vx_status" where
  "release_pyramid_delays rc cb h delay status =
     (let dl = ho_delays h delay; num = unat (dl_pyr_num_levels dl) in
      if tivxIsValidDelay h delay \<and> dl_type dl = VX_TYPE_PYRAMID \<and> dl_pyr_num_levels dl > 0 then
        (case release_sub_delays rc cb h (take num (dl_pyr_delay dl)) status of
           (h1, ps, st) \<Rightarrow>
             (upd_delay delay (\<lambda>x. x\<lparr>dl_pyr_delay := ps @ drop num (dl_pyr_delay x), dl_pyr_num_levels := 0\<rparr>) h1, st))
      else (h, status))"

definition release_array_delays ::
  "posix_rc \<Rightarrow> ref_callbacks \<Rightarrow> host \<Rightarrow> uintptr \<Rightarrow> vx_status \<Rightarrow> host \<times> vx_status" where
  "release_array_delays rc cb h delay status =
     (let dl = ho_delays h delay; num = unat (dl_obj_arr_num_items dl) in
      if tivxIsValidDelay h delay \<and> dl_type dl = VX_TYPE_OBJECT_ARRAY \<and> dl_obj_arr_num_items dl > 0 then
        (case release_sub_delays rc cb h (take num (dl_obj_arr_delay dl)) status of
           (h1, ps, st) \<Rightarrow>
             (upd_delay delay (\<lambda>x. x\<lparr>dl_obj_arr_delay := ps @ drop num (dl_obj_arr_delay x),
                                     dl_obj_arr_num_items := 0\<rparr>) h1, st))
      else (h, status))"

fun release_slots ::
  "posix_rc \<Rightarrow> ref_callbacks \<Rightarrow> uintptr \<Rightarrow> host \<Rightarrow> nat list \<Rightarrow> vx_status \<Rightarrow> host \<times> vx_status" where
  "release_slots rc cb delay h [] status = (h, status)"
| "release_slots rc cb delay h (i # is) status =
     (let ref = dl_refs (ho_delays h delay) ! i in
      if ref \<noteq> 0 then
        (case vxReleaseReference cb (fst (ownDecrementReference rc h ref VX_INTERNAL)) ref of
           (h1, p, _) \<Rightarrow>
             release_slots rc cb delay (upd_delay delay (\<lambda>x. x\<lparr>dl_refs := (dl_refs x)[i := p]\<rparr>) h1) is VX_SUCCESS)
      else release_slots rc cb delay h is status)"

definition ownReleaseRefFromDelay ::
  "posix_rc \<Rightarrow> ref_callbacks \<Rightarrow> host \<Rightarrow> uintptr \<Rightarrow> uint32 \<Rightarrow> host \<times> vx_status" where
  "ownReleaseRefFromDelay rc cb h delay num_items =
     (case release_pyramid_delays rc cb h delay VX_FAILURE of
        (h1, st1) \<Rightarrow>
          (case release_array_delays rc cb h1 delay st1 of
             (h2, st2) \<Rightarrow> release_slots rc cb delay h2 [0..<unat num_items] st2))"

definition ownDestructDelay :: "posix_rc \<Rightarrow> ref_callbacks \<Rightarrow> host \<Rightarrow> uintptr \<Rightarrow> host \<times> vx_status" where
  "ownDestructDelay rc cb h ref =
     (if rf_type (ho_refs h ref) = VX_TYPE_DELAY
      then ownReleaseRefFromDelay rc cb h ref (dl_count (ho_delays h ref)) else (h, VX_FAILURE))"

text \<open>\<open>alloc f\<close> is the function at the address \<open>f\<close>. A null reference is reported but does not stop the
  loop, so that a later slot overwrites the status.\<close>

fun alloc_slots ::
  "(uintptr \<Rightarrow> host \<Rightarrow> uintptr \<Rightarrow> host \<times> vx_status) \<Rightarrow> uintptr \<Rightarrow> host \<Rightarrow> nat list \<Rightarrow> vx_status \<Rightarrow> host \<times> vx_status"
where
  "alloc_slots alloc delay h [] status = (h, status)"
| "alloc_slots alloc delay h (i # is) status =
     (let ref = dl_refs (ho_delays h delay) ! i in
      if ref = 0 then alloc_slots alloc delay h is VX_ERROR_INVALID_VALUE
      else (case (if rf_mem_alloc_callback (ho_refs h ref) \<noteq> 0
                  then alloc (rf_mem_alloc_callback (ho_refs h ref)) h ref else (h, VX_SUCCESS)) of
              (h1, st) \<Rightarrow> if st \<noteq> VX_SUCCESS then (h1, st) else alloc_slots alloc delay h1 is st))"

definition ownAllocDelayBuffer ::
  "(uintptr \<Rightarrow> host \<Rightarrow> uintptr \<Rightarrow> host \<times> vx_status) \<Rightarrow> host \<Rightarrow> uintptr \<Rightarrow> host \<times> vx_status" where
  "ownAllocDelayBuffer alloc h delay_ref =
     (if rf_type (ho_refs h delay_ref) = VX_TYPE_DELAY
      then alloc_slots alloc delay_ref h [0..<unat (dl_count (ho_delays h delay_ref))] VX_SUCCESS
      else (h, VX_ERROR_INVALID_REFERENCE))"

section \<open>Setting a parameter that others hold as well\<close>

text \<open>Two hosts whose references differ in their counts only.\<close>

definition without_counts :: "vx_reference_t \<Rightarrow> vx_reference_t" where
  "without_counts r = r\<lparr>rf_external_count := 0, rf_internal_count := 0\<rparr>"

definition counts_only :: "host \<Rightarrow> host \<Rightarrow> bool" where
  "counts_only h h' \<longleftrightarrow> (\<forall>r. without_counts (ho_refs h' r) = without_counts (ho_refs h r))"

lemma without_counts_fields:
  "rf_type (without_counts r) = rf_type r" "rf_obj_desc (without_counts r) = rf_obj_desc r"
  "rf_delay (without_counts r) = rf_delay r"
  "rf_delay_slot_index (without_counts r) = rf_delay_slot_index r"
  by (simp_all add: without_counts_def)

lemma counts_only_fields:
  assumes "counts_only h h'"
  shows "rf_type (ho_refs h' r) = rf_type (ho_refs h r)" "rf_obj_desc (ho_refs h' r) = rf_obj_desc (ho_refs h r)"
    "rf_delay (ho_refs h' r) = rf_delay (ho_refs h r)"
    "rf_delay_slot_index (ho_refs h' r) = rf_delay_slot_index (ho_refs h r)"
  using assms unfolding counts_only_def by (metis without_counts_fields)+

lemma counts_only_inc_dec:
  "counts_only h (upd_ref r (inc_counts t) h)" "counts_only h (upd_ref r (dec_counts t) h)"
  by (simp_all add: counts_only_def without_counts_def inc_counts_def dec_counts_def Let_def)

lemma counts_only_trans [trans]: "counts_only h h1 \<Longrightarrow> counts_only h1 h2 \<Longrightarrow> counts_only h h2"
  by (simp add: counts_only_def)

text \<open>A release that is not the last.\<close>

lemma release_keeps:
  assumes "refs_ok h c" "r \<in> set (reftable h c)" "rc_mutex_lock rc = 0"
    and "drop_one t (holders h c r) \<noteq> (0, 0)"
  shows "ownReleaseReferenceInt rc cb h r (rf_type (ho_refs h r)) t special = (upd_ref r (dec_counts t) h, 0, VX_SUCCESS)"
    "refs_ok (upd_ref r (dec_counts t) h) c"
    "holders (upd_ref r (dec_counts t) h) c = (holders h c)(r := drop_one t (holders h c r))"
proof -
  let ?d = "dec_counts t"
  note g = refs_ok_good [OF assms(1,2)]
  have cnt: "counts (?d (ho_refs h r)) = drop_one t (holders h c r)"
    using assms(2) by (simp add: counts_dec holders_def)
  have le: "fst (drop_one t n) + snd (drop_one t n) \<le> fst n + snd n" for n
    by (cases t) (auto simp: drop_one_def)
  have sum: "fst (counts (?d (ho_refs h r))) + snd (counts (?d (ho_refs h r))) < 2 ^ 32"
    using le [of "counts (ho_refs h r)"] g(3) unfolding counts_dec good_ref_def by linarith
  show "ownReleaseReferenceInt rc cb h r (rf_type (ho_refs h r)) t special = (upd_ref r ?d h, 0, VX_SUCCESS)"
    using g(1,5) counts_sum [OF sum] assms(4) cnt table_lock_ok [OF assms(1-3)]
    by (simp add: ownReleaseReferenceInt_def ownDecrementReference_def Let_def)
  have "good_ref c (?d (ho_refs h r))" using assms(4) cnt sum g(3) by (simp add: good_ref_def)
  from refs_ok_counts [where f = ?d, OF assms(1,2) this] cnt
  show "refs_ok (upd_ref r ?d h) c" "holders (upd_ref r ?d h) c = (holders h c)(r := drop_one t (holders h c r))"
    by simp_all
qed

lemma host_frames [simp]:
  "ho_refs (upd_vnode n f h) = ho_refs h" "ho_contexts (upd_vnode n f h) = ho_contexts h"
  "ho_objects (upd_vnode n f h) = ho_objects h" "ho_delays (upd_vnode n f h) = ho_delays h"
  "ho_sys (upd_vnode n f h) = ho_sys h" "ho_nodes (upd_vnode n f h) = (ho_nodes h)(n := f (ho_nodes h n))"
  "ho_refs (upd_nd0 n g h) = ho_refs h" "ho_contexts (upd_nd0 n g h) = ho_contexts h"
  "ho_objects (upd_nd0 n g h) = ho_objects h" "ho_delays (upd_nd0 n g h) = ho_delays h"
  "ho_nodes (upd_nd0 n g h) = ho_nodes h"
  "ho_delays (upd_ref r k h) = ho_delays h" "ho_nodes (upd_ref r k h) = ho_nodes h"
  by (simp_all add: upd_vnode_def upd_nd0_def upd_ref_def)

lemma refs_ok_frame:
  assumes "ho_refs h' = ho_refs h" "ho_contexts h' = ho_contexts h" "ho_objects h' = ho_objects h"
  shows "refs_ok h' c = refs_ok h c" "reftable h' c = reftable h c" "holders h' c = holders h c"
  using assms by (simp_all add: refs_ok_def reftable_def holders_def ownIsValidContext_def fun_eq_iff)

definition takes_over :: "uintptr \<Rightarrow> uintptr \<Rightarrow> (uintptr \<Rightarrow> nat \<times> nat) \<Rightarrow> uintptr \<Rightarrow> nat \<times> nat" where
  "takes_over old v n = (let n1 = n(old := drop_one VX_INTERNAL (n old)) in n1(v := bump VX_INTERNAL (n1 v)))"

lemma desc_id_frame:
  assumes "counts_only h h'" "\<And>i. od_obj_desc_id (sys_desc (ho_sys h') i) = od_obj_desc_id (sys_desc (ho_sys h) i)"
  shows "ownReferenceGetObjDescId h' v = ownReferenceGetObjDescId h v"
  using assms by (simp add: ownReferenceGetObjDescId_def counts_only_fields)

lemma set_parameter_ok:
  assumes "refs_ok h c" "rc_mutex_lock rc = 0" "prm h n k \<in> set (reftable h c)"
    and "1 < snd (holders h c (prm h n k))" "v \<in> set (reftable h c)"
    and "v \<noteq> prm h n k \<longrightarrow> fst (holders h c v) + snd (holders h c v) + 1 < 2 ^ 32"
    and "node_desc_ok h n" "ownNodeSetParameter rc cb h n k v = (h', st)"
  shows "st = VX_SUCCESS" "refs_ok h' c" "reftable h' c = reftable h c"
    "holders h' c = takes_over (prm h n k) v (holders h c)" "counts_only h h'"
    "ho_delays h' = ho_delays h"
    "ho_nodes h' = (ho_nodes h)(n := (ho_nodes h n)\<lparr>vn_parameters := (vn_parameters (ho_nodes h n))[unat k := v]\<rparr>)"
    "\<And>m. node_desc_ok h m \<Longrightarrow> node_desc_ok h' m"
    "\<And>m. node_desc_ok h m \<Longrightarrow> nd0 h' m = (if m = n
       then (nd0 h n)\<lparr>nd_data_id := (nd_data_id (nd0 h n))[unat k := ownReferenceGetObjDescId h v]\<rparr> else nd0 h m)"
    "\<And>i. od_obj_desc_id (sys_desc (ho_sys h') i) = od_obj_desc_id (sys_desc (ho_sys h) i)"
proof -
  let ?o = "prm h n k"
  define h1 where "h1 = upd_ref ?o (dec_counts VX_INTERNAL) h"
  define h2 where "h2 = upd_ref v (inc_counts VX_INTERNAL) (set_prm n k 0 h1)"
  define h3 where "h3 = set_prm n k v h2"
  define i where "i = ownReferenceGetObjDescId h v"
  have "drop_one VX_INTERNAL (holders h c ?o) \<noteq> (0, 0)" using assms(4) by (simp add: drop_one_def)
  note rel = release_keeps [OF assms(1,3,2) this, folded h1_def]
  have o0: "?o \<noteq> 0" using refs_ok_good(1) [OF assms(1,3)] .
  have t1: "reftable h1 c = reftable h c" by (rule reftable_cong) (simp add: h1_def)
  let ?p = "set_prm n k 0 h1"
  have p: "refs_ok ?p c" "reftable ?p c = reftable h c"
    "holders ?p c = (holders h c)(?o := drop_one VX_INTERNAL (holders h c ?o))"
    using rel(2,3) t1 refs_ok_frame [of ?p h1 c] by simp_all
  have vt: "v \<in> set (reftable ?p c)" using assms(5) p(2) by simp
  have "fst (holders h c ?o) + snd (holders h c ?o) < 2 ^ 32"
    using refs_ok_good(3) [OF assms(1,3)] assms(3) by (simp add: good_ref_def holders_def)
  then have bd: "fst (bump VX_INTERNAL (holders ?p c v)) + snd (bump VX_INTERNAL (holders ?p c v)) < 2 ^ 32"
    using assms(4,6) by (cases "v = ?o") (simp_all add: p(3) bump_def drop_one_def)
  obtain h2' k' where inc: "ownIncrementReference rc ?p v VX_INTERNAL = (h2', k')"
    by (cases "ownIncrementReference rc ?p v VX_INTERNAL")
  note in' = increment_ok [OF p(1) vt assms(2) bd inc]
  have h2: "h2' = h2" by (simp add: in'(3) h2_def)
  have t2: "reftable h2 c = reftable h c"
    unfolding p(2) [symmetric] by (rule reftable_cong) (simp add: h2_def)
  have h3: "refs_ok h3 c" "reftable h3 c = reftable h c" "holders h3 c = takes_over ?o v (holders h c)"
    using in'(1,2) t2 refs_ok_frame [of h3 h2 c] p(3) by (simp_all add: h3_def h2 takes_over_def)
  have nodes3: "ho_nodes h3 = (ho_nodes h)(n := (ho_nodes h n)\<lparr>vn_parameters := (vn_parameters (ho_nodes h n))[unat k := v]\<rparr>)"
    by (simp add: h3_def h2_def h1_def)
  have co: "counts_only h h3"
  proof -
    have "counts_only h h1" unfolding h1_def by (rule counts_only_inc_dec)
    also have "counts_only h1 (set_prm n k 0 h1)" by (simp add: counts_only_def)
    also have "counts_only (set_prm n k 0 h1) h2" unfolding h2_def by (rule counts_only_inc_dec)
    also have "counts_only h2 h3" by (simp add: counts_only_def h3_def)
    finally show ?thesis .
  qed
  have sys3: "ho_sys h3 = ho_sys h" by (simp add: h3_def h2_def h1_def)
  have id3: "ownReferenceGetObjDescId h3 v = i"
    unfolding i_def by (rule desc_id_frame [OF co]) (simp add: sys3)
  let ?f = "\<lambda>d. d\<lparr>nd_data_id := (nd_data_id d)[unat k := i]\<rparr>"
  have run: "ownNodeSetParameter rc cb h n k v = (upd_nd0 n ?f h3, VX_SUCCESS)"
    using o0 rel(1) inc by (simp add: ownNodeSetParameter_def h2 h3_def [symmetric] id3 Let_def)
  then have h': "h' = upd_nd0 n ?f h3" and st: "st = VX_SUCCESS" using assms(8) by simp_all
  have od3: "obj_desc0 h3 m = obj_desc0 h m" for m by (simp add: nodes3)
  have nok3: "node_desc_ok h3 m" if "node_desc_ok h m" for m
    using that unfolding node_desc_ok_def od3 sys3 .
  show "st = VX_SUCCESS" by (rule st)
  show "refs_ok h' c" "reftable h' c = reftable h c" "holders h' c = takes_over ?o v (holders h c)"
    using h3 refs_ok_frame [of h' h3 c] by (simp_all add: h')
  show "counts_only h h'" using co by (simp add: counts_only_def h')
  show "ho_delays h' = ho_delays h" by (simp add: h' h3_def h2_def h1_def)
  show "ho_nodes h' = (ho_nodes h)(n := (ho_nodes h n)\<lparr>vn_parameters := (vn_parameters (ho_nodes h n))[unat k := v]\<rparr>)"
    by (simp add: h' nodes3)
  have n3: "node_desc_ok h3 n" by (rule nok3 [OF assms(7)])
  show "node_desc_ok h' m" if "node_desc_ok h m" for m
    unfolding h' by (rule node_desc_ok_upd_nd0 [OF n3 nok3 [OF that]])
      (use n3 in \<open>simp_all add: node_desc_ok_def\<close>)
  show "nd0 h' m = (if m = n then (nd0 h n)\<lparr>nd_data_id := (nd_data_id (nd0 h n))[unat k := ownReferenceGetObjDescId h v]\<rparr>
       else nd0 h m)" if "node_desc_ok h m" for m
    using nd0_upd_nd0 [OF n3 nok3 [OF that], of ?f] unfolding h' od3 sys3 i_def .
  show "od_obj_desc_id (sys_desc (ho_sys h') j) = od_obj_desc_id (sys_desc (ho_sys h) j)" for j
    unfolding h' base_upd_nd0 sys3 ..
qed

section \<open>Moving several parameters\<close>

text \<open>A move \<open>(i, n, k)\<close> sets parameter \<open>k\<close> of the node \<open>n\<close> to the reference \<open>val i\<close> and notes the slot
  \<open>i\<close> in the reference. Each reference must be held once more than by the parameters that leave it.\<close>

definition held_by :: "host \<Rightarrow> (nat \<times> uintptr \<times> uint32) list \<Rightarrow> uintptr \<Rightarrow> nat" where
  "held_by h xs r = length (filter (\<lambda>(i, n, k). prm h n k = r) xs)"

definition wanted_by :: "(nat \<Rightarrow> uintptr) \<Rightarrow> (nat \<times> uintptr \<times> uint32) list \<Rightarrow> uintptr \<Rightarrow> nat" where
  "wanted_by val xs r = length (filter (\<lambda>(i, n, k). val i = r) xs)"

definition moves_ok ::
  "host \<Rightarrow> uintptr \<Rightarrow> (nat \<Rightarrow> uintptr) \<Rightarrow> (nat \<times> uintptr \<times> uint32) list \<Rightarrow> bool" where
  "moves_ok h c val xs \<longleftrightarrow> refs_ok h c \<and> distinct (map snd xs)
     \<and> (\<forall>(i, n, k) \<in> set xs. val i \<in> set (reftable h c) \<and> prm h n k \<in> set (reftable h c) \<and> node_desc_ok h n
          \<and> unat k < length (vn_parameters (ho_nodes h n)) \<and> unat k < length (nd_data_id (nd0 h n)))
     \<and> (\<forall>r. 0 < held_by h xs r \<longrightarrow> held_by h xs r < snd (holders h c r))
     \<and> (\<forall>r. fst (holders h c r) + snd (holders h c r) + length xs < 2 ^ 32 + held_by h xs r)"

definition moved ::
  "host \<Rightarrow> uintptr \<Rightarrow> (nat \<Rightarrow> uintptr) \<Rightarrow> (nat \<times> uintptr \<times> uint32) list \<Rightarrow> host \<Rightarrow> bool" where
  "moved h c val xs h' \<longleftrightarrow> refs_ok h' c \<and> reftable h' c = reftable h c \<and> ho_delays h' = ho_delays h
     \<and> (\<forall>r. rf_type (ho_refs h' r) = rf_type (ho_refs h r))
     \<and> (\<forall>v. ownReferenceGetObjDescId h' v = ownReferenceGetObjDescId h v)
     \<and> (\<forall>m. node_desc_ok h m \<longrightarrow> node_desc_ok h' m \<and> length (nd_data_id (nd0 h' m)) = length (nd_data_id (nd0 h m)))
     \<and> (\<forall>m. length (vn_parameters (ho_nodes h' m)) = length (vn_parameters (ho_nodes h m)))
     \<and> (\<forall>(i, n, k) \<in> set xs. prm h' n k = val i
          \<and> nd_data_id (nd0 h' n) ! unat k = ownReferenceGetObjDescId h (val i))
     \<and> (\<forall>n k. (n, k) \<notin> snd ` set xs \<longrightarrow> prm h' n k = prm h n k
          \<and> (node_desc_ok h n \<longrightarrow> nd_data_id (nd0 h' n) ! unat k = nd_data_id (nd0 h n) ! unat k))
     \<and> (\<forall>r. fst (holders h' c r) = fst (holders h c r)
          \<and> snd (holders h' c r) + held_by h xs r = snd (holders h c r) + wanted_by val xs r)"

definition moves_frame :: "host \<Rightarrow> uintptr \<Rightarrow> host \<Rightarrow> bool" where
  "moves_frame h c h' \<longleftrightarrow> refs_ok h' c \<and> reftable h' c = reftable h c \<and> ho_delays h' = ho_delays h
     \<and> (\<forall>r. rf_type (ho_refs h' r) = rf_type (ho_refs h r))
     \<and> (\<forall>v. ownReferenceGetObjDescId h' v = ownReferenceGetObjDescId h v)
     \<and> (\<forall>m. node_desc_ok h m \<longrightarrow> node_desc_ok h' m \<and> length (nd_data_id (nd0 h' m)) = length (nd_data_id (nd0 h m)))
     \<and> (\<forall>m. length (vn_parameters (ho_nodes h' m)) = length (vn_parameters (ho_nodes h m)))"

lemma moved_frame: "moved h c val xs h' \<Longrightarrow> moves_frame h c h'"
  by (simp add: moved_def moves_frame_def)

lemma moves_frame_trans: "moves_frame h c h1 \<Longrightarrow> moves_frame h1 c h2 \<Longrightarrow> moves_frame h c h2"
  by (simp add: moves_frame_def)

definition move_one ::
  "posix_rc \<Rightarrow> ref_callbacks \<Rightarrow> uintptr \<Rightarrow> (nat \<Rightarrow> uintptr) \<Rightarrow> host \<Rightarrow> nat \<times> uintptr \<times> uint32 \<Rightarrow> host" where
  "move_one rc cb d val h x = (case x of (i, n, k) \<Rightarrow>
     ownInitReferenceForDelay (fst (ownNodeSetParameter rc cb h n k (val i))) (val i) d (of_nat i))"

lemma init_for_delay_ok:
  assumes "refs_ok h c" "r \<in> set (reftable h c)"
  shows "refs_ok (ownInitReferenceForDelay h r d i) c" "holders (ownInitReferenceForDelay h r d i) c = holders h c"
    "reftable (ownInitReferenceForDelay h r d i) c = reftable h c"
proof -
  let ?f = "\<lambda>r. r\<lparr>rf_delay := d, rf_delay_slot_index := i\<rparr>"
  have "good_ref c (?f (ho_refs h r))"
    using refs_ok_good(3) [OF assms] by (simp add: good_ref_def counts_def)
  from refs_ok_counts [where f = ?f, OF assms this]
  show "refs_ok (ownInitReferenceForDelay h r d i) c" "holders (ownInitReferenceForDelay h r d i) c = holders h c"
    using assms(2) by (simp_all add: ownInitReferenceForDelay_def holders_def counts_def fun_eq_iff)
  show "reftable (ownInitReferenceForDelay h r d i) c = reftable h c"
    by (rule reftable_cong) (simp add: ownInitReferenceForDelay_def)
qed

lemma init_for_delay_frame [simp]:
  "ho_nodes (ownInitReferenceForDelay h r d i) = ho_nodes h" "ho_sys (ownInitReferenceForDelay h r d i) = ho_sys h"
  "ho_delays (ownInitReferenceForDelay h r d i) = ho_delays h"
  "ownReferenceGetObjDescId (ownInitReferenceForDelay h r d i) v = ownReferenceGetObjDescId h v"
  "rf_type (ho_refs (ownInitReferenceForDelay h r d i) v) = rf_type (ho_refs h v)"
  "node_desc_ok (ownInitReferenceForDelay h r d i) m = node_desc_ok h m"
  by (simp_all add: ownInitReferenceForDelay_def ownReferenceGetObjDescId_def node_desc_ok_def)

lemma takes_over_counts:
  assumes "1 < snd (n old)"
  shows "fst (takes_over old v n r) = fst (n r)"
    "snd (takes_over old v n r) + (if r = old then 1 else 0) = snd (n r) + (if r = v then 1 else 0)"
  using assms by (simp_all add: takes_over_def bump_def drop_one_def Let_def)

lemma moves_okD:
  assumes "moves_ok h c val ((i, n, k) # xs)"
  shows "refs_ok h c" "val i \<in> set (reftable h c)" "prm h n k \<in> set (reftable h c)" "node_desc_ok h n"
    "unat k < length (vn_parameters (ho_nodes h n))" "unat k < length (nd_data_id (nd0 h n))"
    "1 < snd (holders h c (prm h n k))" "(n, k) \<notin> snd ` set xs" "distinct (map snd xs)"
    "val i \<noteq> prm h n k \<longrightarrow> fst (holders h c (val i)) + snd (holders h c (val i)) + 1 < 2 ^ 32"
proof -
  show "refs_ok h c" "val i \<in> set (reftable h c)" "prm h n k \<in> set (reftable h c)" "node_desc_ok h n"
    "unat k < length (vn_parameters (ho_nodes h n))" "unat k < length (nd_data_id (nd0 h n))"
    "(n, k) \<notin> snd ` set xs" "distinct (map snd xs)"
    using assms by (auto simp: moves_ok_def)
  have "0 < held_by h ((i, n, k) # xs) (prm h n k)" by (simp add: held_by_def)
  moreover from this have "held_by h ((i, n, k) # xs) (prm h n k) < snd (holders h c (prm h n k))"
    using assms unfolding moves_ok_def by blast
  ultimately show "1 < snd (holders h c (prm h n k))" by linarith
  show "val i \<noteq> prm h n k \<longrightarrow> fst (holders h c (val i)) + snd (holders h c (val i)) + 1 < 2 ^ 32"
  proof
  assume "val i \<noteq> prm h n k"
  then have "held_by h ((i, n, k) # xs) (val i) \<le> length xs" by (simp add: held_by_def)
  moreover have "fst (holders h c (val i)) + snd (holders h c (val i)) + length ((i, n, k) # xs)
      < 2 ^ 32 + held_by h ((i, n, k) # xs) (val i)" using assms by (simp add: moves_ok_def)
  ultimately show "fst (holders h c (val i)) + snd (holders h c (val i)) + 1 < 2 ^ 32" by simp
  qed
qed

lemma nth_update_unat:
  "unat k < length xs \<Longrightarrow> xs[unat (k :: uint32) := x] ! unat k' = (if k' = k then x else xs ! unat k')"
  by (auto simp: nth_list_update dest: unsigned_word_eqI)

lemma move_one_ok:
  assumes ok: "moves_ok h c val ((i, n, k) # xs)" and lock: "rc_mutex_lock rc = 0"
  shows "snd (ownNodeSetParameter rc cb h n k (val i)) = VX_SUCCESS"
    "moved h c val [(i, n, k)] (move_one rc cb d val h (i, n, k))"
proof -
  let ?o = "prm h n k" and ?v = "val i" and ?h1 = "move_one rc cb d val h (i, n, k)"
  note m = moves_okD [OF ok]
  obtain h0 st where run: "ownNodeSetParameter rc cb h n k ?v = (h0, st)"
    by (cases "ownNodeSetParameter rc cb h n k ?v")
  note s = set_parameter_ok [OF m(1) lock m(3,7,2,10,4) run]
  show "snd (ownNodeSetParameter rc cb h n k ?v) = VX_SUCCESS" using s(1) run by simp
  have h1: "?h1 = ownInitReferenceForDelay h0 ?v d (of_nat i)" by (simp add: move_one_def run)
  have "?v \<in> set (reftable h0 c)" using m(2) s(3) by simp
  note ini = init_for_delay_ok [OF s(2) this, of d "of_nat i", folded h1]
  have ids: "ownReferenceGetObjDescId h0 v = ownReferenceGetObjDescId h v" for v
    by (rule desc_id_frame [OF s(5) s(10)])
  have prms: "prm h0 n' k' = (if (n', k') = (n, k) then ?v else prm h n' k')" for n' k'
    using nth_update_unat [OF m(5)] by (simp add: s(7))
  have data: "nd_data_id (nd0 h0 n') ! unat k' = (if (n', k') = (n, k)
      then ownReferenceGetObjDescId h ?v else nd_data_id (nd0 h n') ! unat k')" if "node_desc_ok h n'" for n' k'
    using nth_update_unat [OF m(6)] by (simp add: s(9) [OF that])
  have len: "length (nd_data_id (nd0 h0 m)) = length (nd_data_id (nd0 h m))" if "node_desc_ok h m" for m
    by (simp add: s(9) [OF that])
  have "refs_ok ?h1 c \<and> reftable ?h1 c = reftable h c \<and> ho_delays ?h1 = ho_delays h"
    using ini(1,3) s(3,6) by (simp add: h1)
  moreover have "\<forall>r. rf_type (ho_refs ?h1 r) = rf_type (ho_refs h r)"
    by (simp add: h1 counts_only_fields(1) [OF s(5)])
  moreover have "\<forall>v. ownReferenceGetObjDescId ?h1 v = ownReferenceGetObjDescId h v" by (simp add: h1 ids)
  moreover have "\<forall>m. node_desc_ok h m \<longrightarrow> node_desc_ok ?h1 m \<and>
      length (nd_data_id (nd0 ?h1 m)) = length (nd_data_id (nd0 h m))"
    using s(8) len by (simp add: h1)
  moreover have "\<forall>m. length (vn_parameters (ho_nodes ?h1 m)) = length (vn_parameters (ho_nodes h m))"
    by (simp add: h1 s(7))
  moreover have "prm ?h1 n k = ?v \<and> nd_data_id (nd0 ?h1 n) ! unat k = ownReferenceGetObjDescId h ?v"
    using prms data [OF m(4)] by (simp add: h1)
  moreover have "\<forall>n' k'. (n', k') \<notin> snd ` set [(i, n, k)] \<longrightarrow> prm ?h1 n' k' = prm h n' k'
      \<and> (node_desc_ok h n' \<longrightarrow> nd_data_id (nd0 ?h1 n') ! unat k' = nd_data_id (nd0 h n') ! unat k')"
    using prms data by (simp add: h1)
  moreover have "\<forall>r. fst (holders ?h1 c r) = fst (holders h c r)
      \<and> snd (holders ?h1 c r) + held_by h [(i, n, k)] r = snd (holders h c r) + wanted_by val [(i, n, k)] r"
  proof
    fix r
    have "snd (takes_over ?o ?v (holders h c) r) + (if ?o = r then 1 else 0)
        = snd (holders h c r) + (if ?v = r then 1 else 0)"
      using takes_over_counts(2) [where n = "holders h c" and old = ?o and v = ?v and r = r, OF m(7)]
      by (simp add: eq_commute)
    then show "fst (holders ?h1 c r) = fst (holders h c r)
        \<and> snd (holders ?h1 c r) + held_by h [(i, n, k)] r = snd (holders h c r) + wanted_by val [(i, n, k)] r"
      using takes_over_counts(1) [where n = "holders h c" and old = ?o and v = ?v and r = r, OF m(7)]
      unfolding ini(2) s(4) by (simp add: held_by_def wanted_by_def split: if_splits)
  qed
  ultimately show "moved h c val [(i, n, k)] ?h1" unfolding moved_def by simp
qed

lemma moves_ok_step:
  assumes ok: "moves_ok h c val ((i, n, k) # xs)" and mv: "moved h c val [(i, n, k)] h1"
  shows "moves_ok h1 c val xs"
proof -
  note m = moves_okD [OF ok]
  have fr: "refs_ok h1 c" "reftable h1 c = reftable h c"
    "\<And>m. node_desc_ok h m \<Longrightarrow> node_desc_ok h1 m \<and> length (nd_data_id (nd0 h1 m)) = length (nd_data_id (nd0 h m))"
    "\<And>m. length (vn_parameters (ho_nodes h1 m)) = length (vn_parameters (ho_nodes h m))"
    using mv unfolding moved_def by blast+
  have pr: "prm h1 n' k' = prm h n' k'" if "(n', k') \<noteq> (n, k)" for n' k'
    using mv that unfolding moved_def by simp
  have held: "held_by h ((i, n, k) # xs) r = (if prm h n k = r then 1 else 0) + held_by h1 xs r" for r
  proof -
    have "prm h1 n' k' = prm h n' k'" if "(i', n', k') \<in> set xs" for i' n' k'
      using m(8) that by (intro pr) force
    then have "filter (\<lambda>(i, n, k). prm h1 n k = r) xs = filter (\<lambda>(i, n, k). prm h n k = r) xs"
      by (intro filter_cong) auto
    then show ?thesis by (simp add: held_by_def)
  qed
  have cnt: "fst (holders h1 c r) = fst (holders h c r)"
    "snd (holders h1 c r) + (if prm h n k = r then 1 else 0) = snd (holders h c r) + (if val i = r then 1 else 0)" for r
  proof -
    have "fst (holders h1 c r) = fst (holders h c r)
        \<and> snd (holders h1 c r) + held_by h [(i, n, k)] r = snd (holders h c r) + wanted_by val [(i, n, k)] r"
      using mv unfolding moved_def by blast
    then show "fst (holders h1 c r) = fst (holders h c r)"
      "snd (holders h1 c r) + (if prm h n k = r then 1 else 0) = snd (holders h c r) + (if val i = r then 1 else 0)"
      by (simp_all add: held_by_def wanted_by_def split: if_splits)
  qed
  have "held_by h1 xs r < snd (holders h1 c r)" if "0 < held_by h1 xs r" for r
  proof -
    have "0 < held_by h ((i, n, k) # xs) r" using that held [of r] by simp
    then have "held_by h ((i, n, k) # xs) r < snd (holders h c r)" using ok unfolding moves_ok_def by blast
    then show ?thesis using held [of r] cnt(2) [of r] by (simp split: if_splits)
  qed
  moreover have "fst (holders h1 c r) + snd (holders h1 c r) + length xs < 2 ^ 32 + held_by h1 xs r" for r
  proof -
    have "fst (holders h c r) + snd (holders h c r) + length ((i, n, k) # xs) < 2 ^ 32 + held_by h ((i, n, k) # xs) r"
      using ok by (simp add: moves_ok_def)
    then show ?thesis using held [of r] cnt(1) [of r] cnt(2) [of r] by (simp split: if_splits)
  qed
  moreover have "val i' \<in> set (reftable h1 c) \<and> prm h1 n' k' \<in> set (reftable h1 c) \<and> node_desc_ok h1 n'
      \<and> unat k' < length (vn_parameters (ho_nodes h1 n')) \<and> unat k' < length (nd_data_id (nd0 h1 n'))"
    if x: "(i', n', k') \<in> set xs" for i' n' k'
  proof -
    have "(n', k') \<noteq> (n, k)" using m(8) x by force
    note p = pr [OF this]
    have "val i' \<in> set (reftable h c) \<and> prm h n' k' \<in> set (reftable h c) \<and> node_desc_ok h n'
        \<and> unat k' < length (vn_parameters (ho_nodes h n')) \<and> unat k' < length (nd_data_id (nd0 h n'))"
      using ok x unfolding moves_ok_def by auto
    then show ?thesis using fr(3) [of n'] unfolding fr(2,4) p by metis
  qed
  ultimately show ?thesis using fr(1) m(9) unfolding moves_ok_def by blast
qed

lemma moved_Cons:
  assumes ok: "moves_ok h c val ((i, n, k) # xs)" and a: "moved h c val [(i, n, k)] h1" and b: "moved h1 c val xs h2"
  shows "moved h c val ((i, n, k) # xs) h2"
proof -
  note m = moves_okD [OF ok]
  have nok: "node_desc_ok h n \<Longrightarrow> node_desc_ok h1 n" for n using a unfolding moved_def by blast
  have out: "(n', k') \<notin> snd ` set xs \<Longrightarrow> prm h2 n' k' = prm h1 n' k'"
    "(n', k') \<notin> snd ` set xs \<Longrightarrow> node_desc_ok h n' \<Longrightarrow> nd_data_id (nd0 h2 n') ! unat k' = nd_data_id (nd0 h1 n') ! unat k'"
    for n' k' using b nok unfolding moved_def by blast+
  have one: "prm h1 n k = val i" "nd_data_id (nd0 h1 n) ! unat k = ownReferenceGetObjDescId h (val i)"
    using a unfolding moved_def by simp_all
  have ids: "ownReferenceGetObjDescId h1 v = ownReferenceGetObjDescId h v" for v using a unfolding moved_def by blast
  have "\<forall>(i', n', k') \<in> set ((i, n, k) # xs). prm h2 n' k' = val i'
      \<and> nd_data_id (nd0 h2 n') ! unat k' = ownReferenceGetObjDescId h (val i')"
  proof -
    have "prm h2 n k = val i \<and> nd_data_id (nd0 h2 n) ! unat k = ownReferenceGetObjDescId h (val i)"
      using out(1) [OF m(8)] out(2) [OF m(8,4)] one by simp
    moreover have "\<forall>(i', n', k') \<in> set xs. prm h2 n' k' = val i'
        \<and> nd_data_id (nd0 h2 n') ! unat k' = ownReferenceGetObjDescId h1 (val i')"
      using b unfolding moved_def by blast
    ultimately show ?thesis unfolding ids by simp
  qed
  moreover have "prm h2 n' k' = prm h n' k' \<and> (node_desc_ok h n' \<longrightarrow>
      nd_data_id (nd0 h2 n') ! unat k' = nd_data_id (nd0 h n') ! unat k')"
    if "(n', k') \<notin> snd ` set ((i, n, k) # xs)" for n' k'
  proof -
    have "(n', k') \<notin> snd ` set xs" "(n', k') \<notin> snd ` set [(i, n, k)]" using that by auto
    moreover have "\<forall>n' k'. (n', k') \<notin> snd ` set [(i, n, k)] \<longrightarrow> prm h1 n' k' = prm h n' k'
        \<and> (node_desc_ok h n' \<longrightarrow> nd_data_id (nd0 h1 n') ! unat k' = nd_data_id (nd0 h n') ! unat k')"
      using a unfolding moved_def by blast
    ultimately show ?thesis using out [of n' k'] by simp
  qed
  moreover have "fst (holders h2 c r) = fst (holders h c r)
      \<and> snd (holders h2 c r) + held_by h ((i, n, k) # xs) r = snd (holders h c r) + wanted_by val ((i, n, k) # xs) r" for r
  proof -
    have "prm h1 n' k' = prm h n' k'" if "(i', n', k') \<in> set xs" for i' n' k'
    proof -
      have "(n', k') \<notin> snd ` set [(i, n, k)]" using m(8) that by force
      then show ?thesis using a unfolding moved_def by blast
    qed
    then have "filter (\<lambda>(i, n, k). prm h1 n k = r) xs = filter (\<lambda>(i, n, k). prm h n k = r) xs"
      by (intro filter_cong) auto
    then have "held_by h ((i, n, k) # xs) r = held_by h [(i, n, k)] r + held_by h1 xs r"
      "wanted_by val ((i, n, k) # xs) r = wanted_by val [(i, n, k)] r + wanted_by val xs r"
      by (simp_all add: held_by_def wanted_by_def)
    moreover have "fst (holders h1 c r) = fst (holders h c r)"
      "snd (holders h1 c r) + held_by h [(i, n, k)] r = snd (holders h c r) + wanted_by val [(i, n, k)] r"
      "fst (holders h2 c r) = fst (holders h1 c r)"
      "snd (holders h2 c r) + held_by h1 xs r = snd (holders h1 c r) + wanted_by val xs r"
      using a b unfolding moved_def by blast+
    ultimately show ?thesis by linarith
  qed
  moreover have "moves_frame h c h2"
    using moved_frame [OF a] moved_frame [OF b] by (rule moves_frame_trans)
  ultimately show ?thesis unfolding moved_def moves_frame_def by blast
qed

lemma moves_run:
  assumes "moves_ok h c val xs" "rc_mutex_lock rc = 0"
  shows "moved h c val xs (foldl (move_one rc cb d val) h xs)"
  using assms(1)
proof (induction xs arbitrary: h)
  case Nil
  then show ?case by (simp add: moved_def moves_ok_def held_by_def wanted_by_def)
next
  case (Cons x xs)
  obtain i n k where x: "x = (i, n, k)" by (cases x)
  have ok: "moves_ok h c val ((i, n, k) # xs)" using Cons.prems x by simp
  note one = move_one_ok(2) [OF ok assms(2), of cb d]
  from moved_Cons [OF ok one Cons.IH [OF moves_ok_step [OF ok one]]] show ?case by (simp add: x)
qed

section \<open>Aging rotates the slots\<close>

definition slot_assocs :: "vx_delay_t \<Rightarrow> nat \<Rightarrow> (nat \<times> uintptr \<times> uint32) list" where
  "slot_assocs dl i = map (Pair i) (filter (\<lambda>(n, k). n \<noteq> 0) (dl_set dl ! i))"

definition assocs :: "vx_delay_t \<Rightarrow> (nat \<times> uintptr \<times> uint32) list" where
  "assocs dl = concat (map (slot_assocs dl) [0..<unat (dl_count dl)])"

text \<open>The references of a delay in the order of the slots, the current one first.\<close>

definition delay_view :: "vx_delay_t \<Rightarrow> uintptr list" where
  "delay_view dl = map (\<lambda>i. dl_refs dl ! delay_slot dl (of_nat i)) [0..<unat (dl_count dl)]"

lemma moves_ok_append:
  assumes "moves_ok h c val (xs @ ys)" "rc_mutex_lock rc = 0"
  shows "moves_ok (foldl (move_one rc cb d val) h xs) c val ys"
  using assms(1)
proof (induction xs arbitrary: h)
  case Nil
  then show ?case by simp
next
  case (Cons x xs)
  obtain i n k where x: "x = (i, n, k)" by (cases x)
  have ok: "moves_ok h c val ((i, n, k) # xs @ ys)" using Cons.prems x by simp
  from Cons.IH [OF moves_ok_step [OF ok move_one_ok(2) [OF ok assms(2), of cb d]]] show ?case by (simp add: x)
qed

lemma move_one_delays:
  assumes "moves_ok h c val (x # xs)" "rc_mutex_lock rc = 0"
  shows "ho_delays (move_one rc cb d val h x) = ho_delays h"
  using assms move_one_ok(2) [of h c val "fst x" "fst (snd x)" "snd (snd x)" xs rc cb d]
  by (simp add: moved_def)

lemma age_params_moves:
  assumes "moves_ok h c val (map (Pair i) (filter (\<lambda>(n, k). n \<noteq> 0) ps) @ rest)" "rc_mutex_lock rc = 0"
    and "dl_refs (ho_delays h d) ! j = val i"
  shows "age_params rc cb d (of_nat i) j h ps VX_SUCCESS
      = (foldl (move_one rc cb d val) h (map (Pair i) (filter (\<lambda>(n, k). n \<noteq> 0) ps)), VX_SUCCESS)
    \<and> ho_delays (foldl (move_one rc cb d val) h (map (Pair i) (filter (\<lambda>(n, k). n \<noteq> 0) ps))) = ho_delays h"
  using assms(1,3)
proof (induction ps arbitrary: h)
  case Nil
  then show ?case by simp
next
  case (Cons p ps)
  obtain n k where p: "p = (n, k)" by (cases p)
  show ?case
  proof (cases "n = 0")
    case True
    then show ?thesis using Cons p by simp
  next
    case False
    let ?h1 = "move_one rc cb d val h (i, n, k)"
    have ok: "moves_ok h c val ((i, n, k) # map (Pair i) (filter (\<lambda>(n, k). n \<noteq> 0) ps) @ rest)"
      using Cons.prems(1) p False by simp
    note one = move_one_ok [OF ok assms(2)]
    obtain h0 where "ownNodeSetParameter rc cb h n k (val i) = (h0, VX_SUCCESS)"
      using one(1) by (metis prod.collapse)
    then have step: "age_params rc cb d (of_nat i) j h (p # ps) VX_SUCCESS
        = age_params rc cb d (of_nat i) j ?h1 ps VX_SUCCESS"
      using False Cons.prems(2) by (simp add: p move_one_def Let_def)
    have dl: "ho_delays ?h1 = ho_delays h" by (rule move_one_delays [OF ok assms(2)])
    have "dl_refs (ho_delays ?h1 d) ! j = val i" using Cons.prems(2) dl by simp
    from Cons.IH [OF moves_ok_step [OF ok one(2)] this] show ?thesis
      using False step dl by (simp add: p)
  qed
qed

lemma age_slots_moves:
  assumes "moves_ok h c val (concat (map (slot_assocs dl) is))" "rc_mutex_lock rc = 0" "ho_delays h d = dl"
    and "\<forall>i \<in> set is. dl_refs dl ! delay_slot dl (of_nat i) = val i"
  shows "age_slots rc cb d h is VX_SUCCESS
    = (foldl (move_one rc cb d val) h (concat (map (slot_assocs dl) is)), VX_SUCCESS)"
  using assms(1,3,4)
proof (induction "is" arbitrary: h)
  case Nil
  then show ?case by simp
next
  case (Cons i "is")
  let ?h1 = "foldl (move_one rc cb d val) h (slot_assocs dl i)"
  have ok: "moves_ok h c val (slot_assocs dl i @ concat (map (slot_assocs dl) is))" using Cons.prems(1) by simp
  have "age_params rc cb d (of_nat i) (delay_slot dl (of_nat i)) h (dl_set dl ! i) VX_SUCCESS = (?h1, VX_SUCCESS)
      \<and> ho_delays ?h1 = ho_delays h"
    using age_params_moves [where ps = "dl_set dl ! i" and i = i and j = "delay_slot dl (of_nat i)"
        and rest = "concat (map (slot_assocs dl) is)" and h = h and cb = cb and d = d and val = val, OF _ assms(2)]
      ok Cons.prems(2,3) by (simp add: slot_assocs_def)
  then show ?case
    using Cons.IH [OF moves_ok_append [OF ok assms(2)]] Cons.prems(2,3) by simp
qed

definition ring_ok :: "vx_delay_t \<Rightarrow> bool" where
  "ring_ok dl \<longleftrightarrow> 0 < dl_count dl \<and> dl_count dl \<le> TIVX_DELAY_MAX_OBJECT \<and> dl_index dl < dl_count dl"

lemma sint_small: "unat w < 2 ^ 31 \<Longrightarrow> sint (w :: uint32) = int (unat w)"
proof -
  assume "unat w < 2 ^ 31"
  then have "uint w < 2 ^ 31" unfolding uint_nat by (simp only: of_nat_less_numeral_power_cancel_iff)
  then show "sint w = int (unat w)" by (simp add: sint_uint signed_take_bit_int_eq_self order_trans [of _ 0])
qed

lemma abs32_small:
  assumes "i < 2 ^ 31"
  shows "abs32 (of_nat i) = of_nat i" "abs32 (- of_nat i) = of_nat i"
proof -
  have u: "unat (of_nat i :: uint32) = i" using assms by (simp add: unat_of_nat)
  then have s: "sint (of_nat i :: uint32) = int i" using sint_small [of "of_nat i"] assms by simp
  then have "sint (- of_nat i :: uint32) = - int i"
    using assms by (simp add: sint_word_minus signed_take_bit_int_eq_self)
  then show "abs32 (of_nat i) = of_nat i" "abs32 (- of_nat i) = of_nat i"
    using s by (auto simp: abs32_def)
qed

lemma ring_counts:
  assumes "ring_ok dl"
  shows "0 < unat (dl_count dl)" "unat (dl_count dl) \<le> 8" "unat (dl_index dl) < unat (dl_count dl)"
  using assms by (simp_all add: ring_ok_def word_less_nat_alt word_le_nat_alt)

lemma delay_slot_eq:
  assumes "ring_ok dl" "i < unat (dl_count dl)"
  shows "delay_slot dl (of_nat i) = (unat (dl_index dl) + i) mod unat (dl_count dl)"
proof -
  note r = ring_counts [OF assms(1)]
  have "unat (of_nat i :: uint32) = i" using r assms(2) by (simp add: unat_of_nat)
  then have "unat (dl_index dl + of_nat i) = unat (dl_index dl) + i"
    using r assms(2) by (simp add: unat_word_ariths)
  then have "sint (dl_index dl + of_nat i) = int (unat (dl_index dl) + i)"
    using sint_small [of "dl_index dl + of_nat i"] r assms(2) by simp
  moreover have "sint (dl_count dl) = int (unat (dl_count dl))" by (rule sint_small) (use r in simp)
  ultimately show ?thesis unfolding delay_slot_def nat_mod_as_int by (simp only:)
qed

definition next_slot :: "vx_delay_t \<Rightarrow> vx_delay_t" where
  "next_slot dl = dl\<lparr>dl_index := (dl_index dl + 1) mod dl_count dl\<rparr>"

lemma next_slot_ok:
  assumes "ring_ok dl"
  shows "ring_ok (next_slot dl)" "unat (dl_index (next_slot dl)) = (unat (dl_index dl) + 1) mod unat (dl_count dl)"
    "delay_view (next_slot dl) = rotate1 (delay_view dl)" "assocs (next_slot dl) = assocs dl"
proof -
  note r = ring_counts [OF assms]
  have "unat (dl_index dl + 1) = unat (dl_index dl) + 1" using r by (simp add: unat_word_ariths)
  then show idx: "unat (dl_index (next_slot dl)) = (unat (dl_index dl) + 1) mod unat (dl_count dl)"
    by (simp add: next_slot_def unat_mod_distrib)
  show ok: "ring_ok (next_slot dl)"
    using assms by (simp add: ring_ok_def next_slot_def word_mod_less_divisor)
  show "assocs (next_slot dl) = assocs dl" by (simp add: assocs_def slot_assocs_def next_slot_def cong: map_cong)
  have len: "length (delay_view d) = unat (dl_count d)" for d by (simp add: delay_view_def)
  have nth: "delay_view d ! i = dl_refs d ! ((unat (dl_index d) + i) mod unat (dl_count d))"
    if "ring_ok d" "i < unat (dl_count d)" for d i
    using delay_slot_eq [OF that] that(2) by (simp add: delay_view_def)
  have c: "dl_count (next_slot dl) = dl_count dl" "dl_refs (next_slot dl) = dl_refs dl"
    by (simp_all add: next_slot_def)
  show "delay_view (next_slot dl) = rotate1 (delay_view dl)"
  proof (rule nth_equalityI)
    show "length (delay_view (next_slot dl)) = length (rotate1 (delay_view dl))" by (simp add: len c)
    fix i assume "i < length (delay_view (next_slot dl))"
    then have i: "i < unat (dl_count dl)" by (simp add: len c)
    then have "Suc i mod unat (dl_count dl) < unat (dl_count dl)" using r by simp
    from nth [OF assms this] nth [OF ok, of i] i
    show "delay_view (next_slot dl) ! i = rotate1 (delay_view dl) ! i"
      by (simp add: nth_rotate1 len c idx mod_simps)
  qed
qed

text \<open>A delay in order: its references are in the table and held by the delay, apart from the
  parameters that follow its slots; every associated parameter is the reference in its slot, and its
  descriptor id stands in the node's descriptor.\<close>

definition delay_ok :: "host \<Rightarrow> uintptr \<Rightarrow> uintptr \<Rightarrow> bool" where
  "delay_ok h c d \<longleftrightarrow> (let dl = ho_delays h d; view = delay_view dl in
     ring_ok dl \<and> d \<in> set (reftable h c) \<and> rf_type (ho_refs h d) = VX_TYPE_DELAY
     \<and> set view \<subseteq> set (reftable h c) \<and> moves_ok h c (\<lambda>i. view ! i) (assocs dl)
     \<and> (\<forall>r \<in> set view. held_by h (assocs dl) r < snd (holders h c r))
     \<and> (\<forall>(i, n, k) \<in> set (assocs dl). prm h n k = view ! i
          \<and> nd_data_id (nd0 h n) ! unat k = ownReferenceGetObjDescId h (view ! i)))"

lemma assocs_slot: "(i, n, k) \<in> set (assocs dl) \<Longrightarrow> i < unat (dl_count dl)"
  by (auto simp: assocs_def slot_assocs_def)

lemma upd_delay_simps [simp]:
  "ho_refs (upd_delay d f h) = ho_refs h" "ho_nodes (upd_delay d f h) = ho_nodes h"
  "ho_sys (upd_delay d f h) = ho_sys h" "ho_contexts (upd_delay d f h) = ho_contexts h"
  "ho_objects (upd_delay d f h) = ho_objects h" "ho_delays (upd_delay d f h) = (ho_delays h)(d := f (ho_delays h d))"
  "held_by (upd_delay d f h) xs r = held_by h xs r" "node_desc_ok (upd_delay d f h) n = node_desc_ok h n"
  "ownReferenceGetObjDescId (upd_delay d f h) r = ownReferenceGetObjDescId h r"
  by (simp_all add: upd_delay_def held_by_def node_desc_ok_def ownReferenceGetObjDescId_def)

lemma moves_ok_val:
  assumes "moves_ok h c val xs" "\<And>i n k. (i, n, k) \<in> set xs \<Longrightarrow> val' i \<in> set (reftable h c)"
  shows "moves_ok h c val' xs"
  using assms unfolding moves_ok_def by fast

lemma moves_ok_delay: "moves_ok (upd_delay d f h) c val xs = moves_ok h c val xs"
proof -
  have "reftable (upd_delay d f h) c = reftable h c" "refs_ok (upd_delay d f h) c = refs_ok h c"
    "holders (upd_delay d f h) c = holders h c"
    using refs_ok_frame [of "upd_delay d f h" h c] by simp_all
  then show ?thesis by (simp add: moves_ok_def)
qed

lemma delay_okD:
  assumes "delay_ok h c d"
  shows "ring_ok (ho_delays h d)" "d \<in> set (reftable h c)" "rf_type (ho_refs h d) = VX_TYPE_DELAY"
    "set (delay_view (ho_delays h d)) \<subseteq> set (reftable h c)"
    "moves_ok h c (\<lambda>i. delay_view (ho_delays h d) ! i) (assocs (ho_delays h d))"
    "\<And>r. r \<in> set (delay_view (ho_delays h d)) \<Longrightarrow> held_by h (assocs (ho_delays h d)) r < snd (holders h c r)"
    "\<And>i n k. (i, n, k) \<in> set (assocs (ho_delays h d)) \<Longrightarrow> prm h n k = delay_view (ho_delays h d) ! i
       \<and> nd_data_id (nd0 h n) ! unat k = ownReferenceGetObjDescId h (delay_view (ho_delays h d) ! i)"
  using assms unfolding delay_ok_def Let_def by blast+

lemma view_nth_mem: "ring_ok dl \<Longrightarrow> i < unat (dl_count dl) \<Longrightarrow> delay_view dl ! i \<in> set (delay_view dl)"
  by (simp add: delay_view_def)

lemma age_moves:
  assumes ok: "delay_ok h c d" and lock: "rc_mutex_lock rc = 0"
  obtains h' where "ownAgeDelay rc cb h d = (h', VX_SUCCESS)"
    "moved (upd_delay d next_slot h) c (\<lambda>i. rotate1 (delay_view (ho_delays h d)) ! i) (assocs (ho_delays h d)) h'"
proof -
  let ?dl = "ho_delays h d" and ?h1 = "upd_delay d next_slot h"
  let ?val = "\<lambda>i. rotate1 (delay_view ?dl) ! i"
  note k = delay_okD [OF ok]
  note nx = next_slot_ok [OF k(1)]
  have t: "reftable ?h1 c = reftable h c" "refs_ok ?h1 c = refs_ok h c" "holders ?h1 c = holders h c"
    using refs_ok_frame [of ?h1 h c] by simp_all
  have dl1: "ho_delays ?h1 d = next_slot ?dl" by simp
  have len: "length (delay_view ?dl) = unat (dl_count ?dl)" by (simp add: delay_view_def)
  have val: "?val i \<in> set (reftable h c)" if "i < unat (dl_count ?dl)" for i
    using k(4) that nth_mem [of i "rotate1 (delay_view ?dl)"] len by auto
  have "moves_ok ?h1 c ?val (assocs ?dl)"
    unfolding moves_ok_delay by (rule moves_ok_val [OF k(5)]) (use val assocs_slot in blast)
  then have mok: "moves_ok ?h1 c ?val (concat (map (slot_assocs (next_slot ?dl)) [0..<unat (dl_count ?dl)]))"
    using nx(4) by (simp add: assocs_def next_slot_def)
  have refs: "\<forall>i \<in> set [0..<unat (dl_count ?dl)].
      dl_refs (next_slot ?dl) ! delay_slot (next_slot ?dl) (of_nat i) = ?val i"
    unfolding nx(3) [symmetric] by (simp add: delay_view_def next_slot_def)
  have valid: "tivxIsValidDelay h d"
    using refs_ok_good(5) [of h c d] k(2,3,5) by (simp add: tivxIsValidDelay_def moves_ok_def)
  let ?h' = "foldl (move_one rc cb d ?val) ?h1 (concat (map (slot_assocs (next_slot ?dl)) [0..<unat (dl_count ?dl)]))"
  have "ownAgeDelay rc cb h d = (?h', VX_SUCCESS)"
    using valid age_slots_moves [OF mok lock dl1 refs, of cb]
    by (simp add: ownAgeDelay_def next_slot_def [abs_def])
  moreover have "moved ?h1 c ?val (assocs ?dl) ?h'"
    using moves_run [OF mok lock, of cb d] nx(4) by (simp add: assocs_def next_slot_def)
  ultimately show thesis by (rule that)
qed

lemma age_step:
  assumes ok: "delay_ok h c d" and lock: "rc_mutex_lock rc = 0" and run: "ownAgeDelay rc cb h d = (h', st)"
  shows "st = VX_SUCCESS" "delay_ok h' c d" "ho_delays h' d = next_slot (ho_delays h d)"
    "\<And>r. fst (holders h' c r) = fst (holders h c r)
       \<and> snd (holders h' c r) + held_by h (assocs (ho_delays h d)) r
         = snd (holders h c r) + held_by h' (assocs (ho_delays h d)) r"
    "\<And>n k. (n, k) \<notin> snd ` set (assocs (ho_delays h d)) \<Longrightarrow> prm h' n k = prm h n k"
proof -
  let ?dl = "ho_delays h d" and ?h1 = "upd_delay d next_slot h"
  let ?val = "\<lambda>i. rotate1 (delay_view ?dl) ! i" and ?xs = "assocs (ho_delays h d)"
  note k = delay_okD [OF ok]
  note nx = next_slot_ok [OF k(1)]
  have mv: "moved ?h1 c ?val ?xs h'" and st: "st = VX_SUCCESS"
    using age_moves [OF ok lock, of cb] run by auto
  show "st = VX_SUCCESS" by (rule st)
  have t: "reftable ?h1 c = reftable h c" "refs_ok ?h1 c = refs_ok h c" "holders ?h1 c = holders h c"
    using refs_ok_frame [of ?h1 h c] by simp_all
  note fr = moved_frame [OF mv, unfolded moves_frame_def t upd_delay_simps]
  show dl': "ho_delays h' d = next_slot ?dl" using fr by simp
  have new: "prm h' n k = ?val i \<and> nd_data_id (nd0 h' n) ! unat k = ownReferenceGetObjDescId h' (?val i)"
    if "(i, n, k) \<in> set ?xs" for i n k
  proof -
    have "prm h' n k = ?val i \<and> nd_data_id (nd0 h' n) ! unat k = ownReferenceGetObjDescId ?h1 (?val i)"
      using mv that unfolding moved_def by blast
    then show ?thesis using fr by simp
  qed
  have old: "prm h' n k = prm ?h1 n k" if "(n, k) \<notin> snd ` set ?xs" for n k
    using mv that unfolding moved_def by blast
  then show "prm h' n k = prm h n k" if "(n, k) \<notin> snd ` set ?xs" for n k using that by simp
  have want: "wanted_by ?val ?xs r = held_by h' ?xs r" for r
    unfolding wanted_by_def held_by_def using new by (intro arg_cong [of _ _ length] filter_cong) auto
  show cnt: "fst (holders h' c r) = fst (holders h c r)
      \<and> snd (holders h' c r) + held_by h ?xs r = snd (holders h c r) + held_by h' ?xs r" for r
  proof -
    have "fst (holders h' c r) = fst (holders ?h1 c r)
        \<and> snd (holders h' c r) + held_by ?h1 ?xs r = snd (holders ?h1 c r) + wanted_by ?val ?xs r"
      using mv unfolding moved_def by blast
    then show ?thesis unfolding t want by simp
  qed
  have sets: "set (delay_view (next_slot ?dl)) = set (delay_view ?dl)" by (simp add: nx(3))
  have low: "held_by h' ?xs r < snd (holders h' c r)" if "r \<in> set (delay_view ?dl)" for r
    using k(6) [OF that] cnt [of r] by linarith
  have len: "length (delay_view ?dl) = unat (dl_count ?dl)" by (simp add: delay_view_def)
  have valmem: "?val i \<in> set (delay_view ?dl)" if "i < unat (dl_count ?dl)" for i
    using that nth_mem [of i "rotate1 (delay_view ?dl)"] len by simp
  have "moves_ok h' c (\<lambda>i. delay_view (next_slot ?dl) ! i) ?xs"
    unfolding moves_ok_def
  proof (intro conjI)
    show "refs_ok h' c" using fr by simp
    show "distinct (map snd ?xs)" using k(5) by (simp add: moves_ok_def)
    show "\<forall>(i, n, k) \<in> set ?xs. delay_view (next_slot ?dl) ! i \<in> set (reftable h' c) \<and> prm h' n k \<in> set (reftable h' c)
        \<and> node_desc_ok h' n \<and> unat k < length (vn_parameters (ho_nodes h' n)) \<and> unat k < length (nd_data_id (nd0 h' n))"
    proof (clarify, intro conjI)
      fix i n k assume x: "(i, n, k) \<in> set ?xs"
      have v: "?val i \<in> set (reftable h' c)" using valmem [OF assocs_slot [OF x]] k(4) fr by auto
      then show "delay_view (next_slot ?dl) ! i \<in> set (reftable h' c)" by (simp add: nx(3))
      show "prm h' n k \<in> set (reftable h' c)" using v new [OF x] by simp
      have o: "node_desc_ok h n" "unat k < length (vn_parameters (ho_nodes h n))" "unat k < length (nd_data_id (nd0 h n))"
        using k(5) x unfolding moves_ok_def by blast+
      then show "node_desc_ok h' n" "unat k < length (vn_parameters (ho_nodes h' n))"
        "unat k < length (nd_data_id (nd0 h' n))" using fr by simp_all
    qed
    show "\<forall>r. 0 < held_by h' ?xs r \<longrightarrow> held_by h' ?xs r < snd (holders h' c r)"
    proof (intro allI impI)
      fix r assume "0 < held_by h' ?xs r"
      then obtain i n k where "(i, n, k) \<in> set ?xs" "prm h' n k = r"
        by (auto simp: held_by_def filter_empty_conv)
      then show "held_by h' ?xs r < snd (holders h' c r)" using new valmem assocs_slot by (intro low) metis
    qed
    show "\<forall>r. fst (holders h' c r) + snd (holders h' c r) + length ?xs < 2 ^ 32 + held_by h' ?xs r"
    proof
      fix r
      have "fst (holders h c r) + snd (holders h c r) + length ?xs < 2 ^ 32 + held_by h ?xs r"
        using k(5) by (simp add: moves_ok_def)
      then show "fst (holders h' c r) + snd (holders h' c r) + length ?xs < 2 ^ 32 + held_by h' ?xs r"
        using cnt [of r] by linarith
    qed
  qed
  moreover have "d \<in> set (reftable h' c)" "rf_type (ho_refs h' d) = VX_TYPE_DELAY"
    "set (delay_view ?dl) \<subseteq> set (reftable h' c)" using k(2-4) fr by simp_all
  ultimately show "delay_ok h' c d"
    unfolding delay_ok_def Let_def dl' nx(4) sets using nx(1) low new unfolding nx(3) by blast
qed

primrec age_times ::
  "posix_rc \<Rightarrow> ref_callbacks \<Rightarrow> uintptr \<Rightarrow> nat \<Rightarrow> host \<Rightarrow> host \<times> vx_status" where
  "age_times rc cb d 0 h = (h, VX_SUCCESS)"
| "age_times rc cb d (Suc m) h =
     (case age_times rc cb d m h of
        (h1, st) \<Rightarrow> (case vxAgeDelay rc cb h1 d of (h2, st2) \<Rightarrow> (h2, if st = VX_SUCCESS then st2 else st)))"

lemma plain_age:
  assumes "delay_ok h c d" "rc_mutex_lock rc = 0"
    and "dl_type (ho_delays h d) \<notin> {VX_TYPE_PYRAMID, VX_TYPE_OBJECT_ARRAY}"
  shows "vxAgeDelay rc cb h d = ownAgeDelay rc cb h d"
proof -
  obtain h' st where run: "ownAgeDelay rc cb h d = (h', st)" by (cases "ownAgeDelay rc cb h d")
  have "tivxIsValidDelay h d" using run by (auto simp: ownAgeDelay_def age_step(1) [OF assms(1,2) run] split: if_splits)
  moreover have "dl_type (ho_delays h' d) = dl_type (ho_delays h d)"
    using age_step(3) [OF assms(1,2) run] by (simp add: next_slot_def)
  ultimately show ?thesis using run assms(3) by (simp add: vxAgeDelay_def Let_def)
qed

lemma delay_reads:
  assumes "delay_ok h c d" "i < unat (dl_count (ho_delays h d))"
  shows "vxGetReferenceFromDelay rc h d (- of_nat i) = delay_view (ho_delays h d) ! i"
proof -
  let ?dl = "ho_delays h d"
  note k = delay_okD [OF assms(1)]
  have c8: "unat (dl_count ?dl) \<le> 8" using ring_counts [OF k(1)] by blast
  then have a: "abs32 (- of_nat i) = of_nat i" using assms(2) by (intro abs32_small) simp
  have "(of_nat i :: uint32) < dl_count ?dl" using assms(2) c8 by (simp add: word_less_nat_alt unat_of_nat)
  moreover have "tivxIsValidDelay h d"
    using refs_ok_good(5) [of h c d] k(2,3,5) by (simp add: tivxIsValidDelay_def moves_ok_def)
  ultimately show ?thesis using assms(2) by (simp add: vxGetReferenceFromDelay_def a delay_view_def Let_def)
qed


section \<open>A delay of two images\<close>

definition img_a :: uintptr where "img_a = 0x80F00000"
definition img_b :: uintptr where "img_b = 0x80F00100"
definition two_slots :: uintptr where "two_slots = 0x80600000"

definition data_ref :: "vx_enum \<Rightarrow> uint32 \<Rightarrow> nat \<Rightarrow> uint32 \<Rightarrow> vx_reference_t" where
  "data_ref ty internal od slot = zero_ref\<lparr>rf_type := ty, rf_context := ctx_addr, rf_external_count := 1,
     rf_internal_count := internal, rf_obj_desc := Some od, rf_delay := two_slots, rf_delay_slot_index := slot\<rparr>"

text \<open>The node at address 2 has the first image as its parameter 0.\<close>

definition delay_host :: host where
  "delay_host = (host_of_links [([], []), ([], []), ([], [])])
     \<lparr>ho_refs := (\<lambda>_. zero_ref)
        (ctx_addr := zero_ref\<lparr>rf_type := VX_TYPE_CONTEXT, rf_lock := Some 1, rf_external_count := 1\<rparr>,
         img_a := data_ref VX_TYPE_IMAGE 2 0 0, img_b := data_ref VX_TYPE_IMAGE 1 2 1,
         two_slots := (data_ref VX_TYPE_DELAY 1 0 0)\<lparr>rf_delay := 0\<rparr>),
      ho_contexts := (\<lambda>_. zero_context\<lparr>cx_reftable := [two_slots, img_a, img_b, 0], cx_num_references := 3\<rparr>),
      ho_delays := (\<lambda>_. zero_delay\<lparr>dl_refs := [img_a, img_b], dl_set := [[(2, 0)], [(0, 0)]], dl_count := 2,
                                   dl_type := VX_TYPE_IMAGE\<rparr>),
      ho_nodes := (ho_nodes (host_of_links []))(2 := zero_vnode\<lparr>vn_obj_desc := [Some 1], vn_parameters := [img_a]\<rparr>),
      ho_objects := set_inUse VX_TYPE_DELAY [True, False] (set_inUse VX_TYPE_IMAGE [True, True]
                      (set_inUse VX_TYPE_CONTEXT [True, False] sample_objects))\<rparr>"

lemmas delay_host_defs = delay_host_def host_of_links_def zero_context_def zero_delay_def zero_ref_def
  data_ref_def ctx_addr_def img_a_def img_b_def two_slots_def

lemma delay_host_objects:
  "objects_ok (ho_objects delay_host)" "pools_apart (ho_objects delay_host)"
  "live_objects (ho_objects delay_host) ty = (if ty = VX_TYPE_CONTEXT then {ctx_addr}
     else if ty = VX_TYPE_IMAGE then {img_a, img_b} else if ty = VX_TYPE_DELAY then {two_slots} else {})"
proof -
  let ?ob = "ho_objects delay_host"
  have ob: "?ob = set_inUse VX_TYPE_DELAY [True, False] (set_inUse VX_TYPE_IMAGE [True, True]
      (set_inUse VX_TYPE_CONTEXT [True, False] sample_objects))" by (simp add: delay_host_def)
  have pool: "ob_pools ?ob ty = (ob_pools sample_objects ty)\<lparr>op_inUse := (if ty = VX_TYPE_DELAY then [True, False]
      else if ty = VX_TYPE_IMAGE then [True, True] else if ty = VX_TYPE_CONTEXT then [True, False]
      else [False, False])\<rparr>" for ty by (simp add: ob set_inUse_def sample_objects_def)
  show "objects_ok ?ob"
    unfolding objects_ok_def pool using sample_objects_ok
    by (simp add: objects_ok_def pool_ok_def sample_objects_def ob set_inUse_def)
  have "slots (ob_pools ?ob ty) = slots (ob_pools sample_objects ty)" for ty
  proof -
    have "length (op_inUse (ob_pools sample_objects ty)) = Suc (Suc 0)" by (simp add: sample_objects_def)
    then show ?thesis unfolding pool slots_def pool_addr_set by simp
  qed
  then show "pools_apart ?ob" using sample_apart by (simp add: pools_apart_def)
  have live: "live p = {pool_addr p i |i. i < 2 \<and> op_inUse p ! i}" if "length (op_inUse p) = 2" for p
    using that by (auto simp: live_def)
  have two: "{f i |i. i < 2 \<and> P i} = (if P 0 then {f 0} else {}) \<union> (if P 1 then {f 1} else {})"
    for f :: "nat \<Rightarrow> uintptr" and P :: "nat \<Rightarrow> bool"
  proof -
    have "{i. i < 2 \<and> P i} = (if P 0 then {0} else {}) \<union> (if P 1 then {1} else {})"
    proof (rule set_eqI)
      fix i show "i \<in> {i. i < 2 \<and> P i} \<longleftrightarrow> i \<in> (if P 0 then {0} else {}) \<union> (if P 1 then {1} else {})"
        by (cases "i = 0"; cases "i = 1") auto
    qed
    moreover have "{f i |i. i < 2 \<and> P i} = f ` {i. i < 2 \<and> P i}" by blast
    ultimately show ?thesis by simp
  qed
  show "live_objects ?ob ty = (if ty = VX_TYPE_CONTEXT then {ctx_addr}
     else if ty = VX_TYPE_IMAGE then {img_a, img_b} else if ty = VX_TYPE_DELAY then {two_slots} else {})"
    unfolding live_objects_def pool
    by (simp add: live two pool_addr_def sample_objects_def object_types_def ctx_addr_def img_a_def
        img_b_def two_slots_def insert_commute)
qed

lemma delay_host_refs: "refs_ok delay_host ctx_addr" "reftable delay_host ctx_addr = [two_slots, img_a, img_b]"
proof -
  show t: "reftable delay_host ctx_addr = [two_slots, img_a, img_b]"
    by (simp add: reftable_def delay_host_defs)
  have good: "good_ref ctx_addr (ho_refs delay_host r)" if "r \<in> {two_slots, img_a, img_b}" for r
    using that by (auto simp: good_ref_def counts_def delay_host_defs ref_types_def object_types_def)
  have ty: "rf_type (ho_refs delay_host two_slots) = VX_TYPE_DELAY" "rf_type (ho_refs delay_host img_a) = VX_TYPE_IMAGE"
    "rf_type (ho_refs delay_host img_b) = VX_TYPE_IMAGE" by (simp_all add: delay_host_defs)
  have ctx: "ownIsValidContext delay_host ctx_addr" "cx_lock (ho_contexts delay_host ctx_addr) = Some 1"
    "rf_lock (ho_refs delay_host ctx_addr) = Some 1" "cx_num_references (ho_contexts delay_host ctx_addr) = 3"
    by (simp_all add: ownIsValidContext_def delay_host_defs)
  have "distinct [two_slots, img_a, img_b]" by (simp add: img_a_def img_b_def two_slots_def)
  moreover have "live_objects (ho_objects delay_host) ty = {r \<in> {two_slots, img_a, img_b}. rf_type (ho_refs delay_host r) = ty}"
    if "ty \<in> ref_types" for ty
    using that ty unfolding delay_host_objects(3) by (auto simp: ref_types_def)
  ultimately show "refs_ok delay_host ctx_addr"
    using delay_host_objects good ctx by (simp add: refs_ok_def t)
qed

lemma delay_host_ring:
  "dl_count (ho_delays delay_host two_slots) = 2 \<and> dl_index (ho_delays delay_host two_slots) = 0"
  "dl_type (ho_delays delay_host two_slots) = VX_TYPE_IMAGE"
  "assocs (ho_delays delay_host two_slots) = [(0, 2, 0)]"
  "delay_view (ho_delays delay_host two_slots) = [img_a, img_b]"
proof -
  have upt: "[0..<2] = [0, 1 :: nat]" by (simp add: upt_rec)
  show "dl_count (ho_delays delay_host two_slots) = 2 \<and> dl_index (ho_delays delay_host two_slots) = 0"
    "dl_type (ho_delays delay_host two_slots) = VX_TYPE_IMAGE"
    by (simp_all add: delay_host_def zero_delay_def)
  show "assocs (ho_delays delay_host two_slots) = [(0, 2, 0)]"
    unfolding assocs_def by (simp add: delay_host_def upt slot_assocs_def)
  show "delay_view (ho_delays delay_host two_slots) = [img_a, img_b]"
    unfolding delay_view_def by (simp add: delay_host_def upt delay_slot_def zero_delay_def)
qed

lemma delay_host_ok: "delay_ok delay_host ctx_addr two_slots"
proof -
  let ?dl = "ho_delays delay_host two_slots"
  note dl = delay_host_ring
  have prm: "prm delay_host 2 0 = img_a" by (simp add: delay_host_def)
  have hold: "holders delay_host ctx_addr r = (if r = two_slots then (1, 1) else if r = img_a then (1, 2)
      else if r = img_b then (1, 1) else (0, 0))" for r
    by (simp add: holders_def delay_host_refs counts_def) (simp add: delay_host_defs)
  have held: "held_by delay_host [(0, 2, 0)] r = (if r = img_a then 1 else 0)" for r
    using prm by (simp add: held_by_def)
  have ne: "img_a \<noteq> img_b" "img_a \<noteq> two_slots" "img_b \<noteq> two_slots"
    by (simp_all add: img_a_def img_b_def two_slots_def)
  have three: "[0..<length [x, y, z]] = [0, 1, 2]" for x y z :: "uint16 list \<times> uint16 list" by (simp add: upt_rec)
  have node: "node_desc_ok delay_host 2" "length (nd_data_id (nd0 delay_host 2)) = 32"
    "nd_data_id (nd0 delay_host 2) ! 0 = ownReferenceGetObjDescId delay_host img_a"
    unfolding node_desc_ok_def ownReferenceGetObjDescId_def delay_host_defs three
    by (simp_all add: link_desc_def init_desc_def zero_node_def sample_ids_def)
  have "moves_ok delay_host ctx_addr (\<lambda>i. delay_view ?dl ! i) (assocs ?dl)"
    unfolding moves_ok_def dl(3,4) using node prm delay_host_refs hold held ne
    by (simp add: delay_host_def)
  then show ?thesis
    unfolding delay_ok_def Let_def dl(3,4) using delay_host_refs(2) node(3) prm hold held ne
    by (simp add: ring_ok_def dl(1,2)) (simp add: delay_host_defs)
qed


text \<open>Once a delay has been aged, \<open>ownAddAssociationToDelay\<close> no longer enters a node under the slot \<open>i\<close>
  of its reference but under another one, while \<open>ownAgeDelay\<close> and \<open>ownRemoveAssociationToDelay\<close> look
  for it under \<open>i\<close>.\<close>

lemma association_slot_off:
  assumes "ring_ok dl" "dl_index dl \<noteq> 0" "i < unat (dl_count dl)"
  shows "delay_slot dl (of_nat i) \<noteq> i"
proof
  note r = ring_counts [OF assms(1)]
  assume "delay_slot dl (of_nat i) = i"
  then have "(unat (dl_index dl) + i) mod unat (dl_count dl) = i" using delay_slot_eq [OF assms(1,3)] by simp
  then have "unat (dl_index dl) = 0"
    using r(3) assms(3) by (cases "unat (dl_index dl) + i < unat (dl_count dl)") (auto simp: le_mod_geq)
  then show False using assms(2) by (simp add: unat_eq_0)
qed

end
