(* ===== verification/Graph_Schedule.thy ===== *)
theory Graph_Schedule
  imports Delays Target_Node
begin

text \<open>
  The execution of a graph, from \<open>source/framework/vx_graph_pipeline.c\<close> with the parts of \<open>vx_graph.c\<close>
  and \<open>vx_node.c\<close> that it calls. A graph has \<open>pipeline_depth\<close> instances, each with a graph descriptor.
  Scheduling takes an instance out of the queue \<open>free_q\<close> and sends its head nodes to their targets;
  the completion of the last leaf node of the instance puts it back. Requests that find no free
  instance are counted in \<open>schedule_pending_count\<close>.

  The queue and the event are those of the operating system with working POSIX calls (\<open>osq_put\<close>,
  \<open>osq_get\<close>); \<open>now\<close> is the time that \<open>tivxPlatformGetTimeInUsecs\<close> gives.
\<close>

section \<open>Constants and access\<close>

abbreviation (input) TIVX_GRAPH_MAX_PIPELINE_DEPTH :: "'a::numeral" where "TIVX_GRAPH_MAX_PIPELINE_DEPTH \<equiv> 16"
abbreviation (input) TIVX_GRAPH_MAX_DELAYS :: nat where "TIVX_GRAPH_MAX_DELAYS \<equiv> 8"

abbreviation (input) VX_GRAPH_STATE_UNVERIFIED :: vx_enum where "VX_GRAPH_STATE_UNVERIFIED \<equiv> 0x15000"
abbreviation (input) VX_GRAPH_STATE_VERIFIED :: vx_enum where "VX_GRAPH_STATE_VERIFIED \<equiv> 0x15001"
abbreviation (input) VX_GRAPH_STATE_RUNNING :: vx_enum where "VX_GRAPH_STATE_RUNNING \<equiv> 0x15002"
abbreviation (input) VX_GRAPH_STATE_ABANDONED :: vx_enum where "VX_GRAPH_STATE_ABANDONED \<equiv> 0x15003"
abbreviation (input) VX_GRAPH_STATE_COMPLETED :: vx_enum where "VX_GRAPH_STATE_COMPLETED \<equiv> 0x15004"

abbreviation (input) VX_GRAPH_SCHEDULE_MODE_NORMAL :: vx_enum where "VX_GRAPH_SCHEDULE_MODE_NORMAL \<equiv> 0x21000"
abbreviation (input) VX_GRAPH_SCHEDULE_MODE_QUEUE_AUTO :: vx_enum where "VX_GRAPH_SCHEDULE_MODE_QUEUE_AUTO \<equiv> 0x21001"
abbreviation (input) VX_GRAPH_SCHEDULE_MODE_QUEUE_MANUAL :: vx_enum where "VX_GRAPH_SCHEDULE_MODE_QUEUE_MANUAL \<equiv> 0x21002"

definition graph_of :: "sys \<Rightarrow> nat \<Rightarrow> tivx_obj_desc_graph" where
  "graph_of s i = the_graph (od_body (sys_desc s i))"

definition upd_gdesc :: "nat \<Rightarrow> (tivx_obj_desc_graph \<Rightarrow> tivx_obj_desc_graph) \<Rightarrow> host \<Rightarrow> host" where
  "upd_gdesc i f h = h\<lparr>ho_sys := (ho_sys h)\<lparr>sys_tbl :=
     upd_desc i (\<lambda>d. d\<lparr>od_body := B_Graph (f (the_graph (od_body d)))\<rparr>) (sys_tbl (ho_sys h))\<rparr>\<rparr>"

section \<open>Instances\<close>

definition ownGraphDequeueFreeObjDesc :: "posix_rc \<Rightarrow> host \<Rightarrow> uintptr \<Rightarrow> host \<times> nat option" where
  "ownGraphDequeueFreeObjDesc rc h graph =
     (let g = ho_graphs h graph in
      if tivxQueueIsEmpty rc (gr_free_q g) then (h, None)
      else (case osq_get (gr_free_q g) of
              (q, pipeline_id, status) \<Rightarrow>
                (upd_graph graph (\<lambda>x. x\<lparr>gr_free_q := q\<rparr>) h,
                 if status = VX_SUCCESS \<and> the pipeline_id < ucast (gr_pipeline_depth g)
                 then gr_obj_desc g ! unat (the pipeline_id) else None)))"

definition ownGraphEnqueueFreeObjDesc :: "host \<Rightarrow> uintptr \<Rightarrow> nat option \<Rightarrow> host" where
  "ownGraphEnqueueFreeObjDesc h graph obj_desc =
     (case obj_desc of
        None \<Rightarrow> h
      | Some i \<Rightarrow>
         (let pid = gd_pipeline_id (graph_of (ho_sys h) i) in
          if pid < gr_pipeline_depth (ho_graphs h graph)
          then upd_graph graph (\<lambda>x. x\<lparr>gr_free_q := fst (osq_put (gr_free_q x) (ucast pid))\<rparr>) h
          else h))"

definition ownGraphGetObjDesc :: "host \<Rightarrow> uintptr \<Rightarrow> uint32 \<Rightarrow> nat option" where
  "ownGraphGetObjDesc h graph pipeline_id =
     (if pipeline_id < gr_pipeline_depth (ho_graphs h graph)
      then gr_obj_desc (ho_graphs h graph) ! unat pipeline_id else None)"

text \<open>The first loop of \<open>ownGraphAllocAndEnqueueObjDescForPipeline\<close> stops at the first failure, the
  second makes the instances free.\<close>

fun alloc_instances :: "platform_ids \<Rightarrow> host \<Rightarrow> uintptr \<Rightarrow> nat list \<Rightarrow> host \<times> vx_status" where
  "alloc_instances pf h graph [] = (h, VX_SUCCESS)"
| "alloc_instances pf h graph (i # is) =
     (case ownObjDescAlloc pf (sys_tbl (ho_sys h)) TIVX_OBJ_DESC_GRAPH graph of
        (t, od) \<Rightarrow>
          (let h1 = upd_graph graph (\<lambda>x. x\<lparr>gr_obj_desc := (gr_obj_desc x)[i := od]\<rparr>)
                      (h\<lparr>ho_sys := (ho_sys h)\<lparr>sys_tbl := t\<rparr>\<rparr>)
           in if od = None then (h1, VX_ERROR_NO_RESOURCES) else alloc_instances pf h1 graph is))"

definition init_instance :: "uintptr \<Rightarrow> host \<Rightarrow> nat \<Rightarrow> host" where
  "init_instance graph h i =
     (let od = gr_obj_desc (ho_graphs h graph) ! i in
      ownGraphEnqueueFreeObjDesc
        (upd_gdesc (the od) (\<lambda>d. d\<lparr>gd_pipeline_id := of_nat i, gd_state := VX_GRAPH_STATE_VERIFIED,
           gd_complete_leaf_nodes := 0, gd_exe_time_beg := (0, 0), gd_exe_time_end := (0, 0)\<rparr>) h) graph od)"

definition ownGraphAllocAndEnqueueObjDescForPipeline ::
  "platform_ids \<Rightarrow> host \<Rightarrow> uintptr \<Rightarrow> host \<times> vx_status" where
  "ownGraphAllocAndEnqueueObjDescForPipeline pf h graph =
     (let h0 = upd_graph graph (\<lambda>x. x\<lparr>gr_obj_desc := replicate TIVX_GRAPH_MAX_PIPELINE_DEPTH None\<rparr>) h;
          depth = gr_pipeline_depth (ho_graphs h graph)
      in if depth \<ge> TIVX_GRAPH_MAX_PIPELINE_DEPTH then (h0, VX_FAILURE)
         else (case alloc_instances pf h0 graph [0..<unat depth] of
                 (h1, status) \<Rightarrow>
                   (if status = VX_SUCCESS then foldl (init_instance graph) h1 [0..<unat depth] else h1, status)))"

text \<open>The status is that of the last instance.\<close>

fun free_instances :: "host \<Rightarrow> uintptr \<Rightarrow> nat list \<Rightarrow> vx_status \<Rightarrow> host \<times> vx_status" where
  "free_instances h graph [] status = (h, status)"
| "free_instances h graph (i # is) status =
     (case gr_obj_desc (ho_graphs h graph) ! i of
        None \<Rightarrow> free_instances h graph is status
      | Some d \<Rightarrow>
         (case ownObjDescFree (sys_tbl (ho_sys h)) (Some d) of
            (t, od, st) \<Rightarrow>
              free_instances (upd_graph graph (\<lambda>x. x\<lparr>gr_obj_desc := (gr_obj_desc x)[i := od]\<rparr>)
                               (h\<lparr>ho_sys := (ho_sys h)\<lparr>sys_tbl := t\<rparr>\<rparr>)) graph is
                (if st \<noteq> VX_SUCCESS then VX_FAILURE else st)))"

definition ownGraphFreeObjDesc :: "host \<Rightarrow> uintptr \<Rightarrow> host \<times> vx_status" where
  "ownGraphFreeObjDesc h graph =
     free_instances h graph [0..<unat (gr_pipeline_depth (ho_graphs h graph))] VX_SUCCESS"

section \<open>Nodes and times\<close>

definition ownNodeClearExecuteState :: "uint32 \<Rightarrow> host \<Rightarrow> uintptr \<Rightarrow> host" where
  "ownNodeClearExecuteState pipeline_id h node =
     (if node \<noteq> 0 \<and> pipeline_id < TIVX_GRAPH_MAX_PIPELINE_DEPTH then
        (case vn_obj_desc (ho_nodes h node) ! unat pipeline_id of
           None \<Rightarrow> h
         | Some i \<Rightarrow> h\<lparr>ho_sys := upd_node i (\<lambda>d. d\<lparr>nd_flags :=
                         tivxFlagBitClear (nd_flags d) TIVX_NODE_FLAG_IS_EXECUTED\<rparr>) (ho_sys h)\<rparr>)
      else h)"

definition nodes_of_graph :: "vx_graph_t \<Rightarrow> uintptr list" where
  "nodes_of_graph g = take (unat (gr_num_nodes g)) (gr_nodes g)"

definition ownGraphClearState :: "host \<Rightarrow> uintptr \<Rightarrow> uint32 \<Rightarrow> host" where
  "ownGraphClearState h graph pipeline_id =
     foldl (ownNodeClearExecuteState pipeline_id) h (nodes_of_graph (ho_graphs h graph))"

definition ownNodeKernelSchedule :: "platform \<Rightarrow> host \<Rightarrow> uintptr \<Rightarrow> uint32 \<Rightarrow> host \<times> vx_status" where
  "ownNodeKernelSchedule pl h node pipeline_id =
     (let i = the (vn_obj_desc (ho_nodes h node) ! unat pipeline_id) in
      case ownObjDescSend pl (ho_sys h) (nd_target_id (node_of (ho_sys h) i))
             (od_obj_desc_id (sys_desc (ho_sys h) i)) of
        (s, status) \<Rightarrow> (h\<lparr>ho_sys := s\<rparr>, status))"

text \<open>The common part of \<open>ownUpdateNodePerf\<close> and \<open>ownUpdateGraphPerf\<close>, for a measured time in
  nanoseconds.\<close>

definition perf_add :: "uint64 \<Rightarrow> vx_perf_t \<Rightarrow> vx_perf_t" where
  "perf_add tmp p =
     (let sum = pe_sum p + tmp; num = pe_num p + 1
      in p\<lparr>pe_tmp := tmp, pe_sum := sum, pe_num := num,
           pe_min := (if tmp < pe_min p then tmp else pe_min p),
           pe_max := (if tmp > pe_max p then tmp else pe_max p), pe_avg := sum div num\<rparr>)"

abbreviation (input) joined :: "uint32 \<times> uint32 \<Rightarrow> uint64" where
  "joined t \<equiv> tivx_uint32_to_uint64 (fst t) (snd t)"

definition ownUpdateNodePerf :: "uint32 \<Rightarrow> host \<Rightarrow> uintptr \<Rightarrow> host" where
  "ownUpdateNodePerf pipeline_id h node =
     (if ownIsValidSpecificReference h node VX_TYPE_NODE then
        (let d = node_of (ho_sys h) (the (vn_obj_desc (ho_nodes h node) ! unat pipeline_id));
             b = joined (nd_exe_time_beg d); e = joined (nd_exe_time_end d)
         in upd_vnode node (\<lambda>x. x\<lparr>vn_perf := perf_add ((e - b) * 1000) ((vn_perf x)\<lparr>pe_beg := b, pe_end := e\<rparr>)\<rparr>) h)
      else h)"

definition ownUpdateGraphPerf :: "host \<Rightarrow> uintptr \<Rightarrow> uint32 \<Rightarrow> host" where
  "ownUpdateGraphPerf h graph pipeline_id =
     (if ownIsValidSpecificReference h graph VX_TYPE_GRAPH \<and> pipeline_id < gr_pipeline_depth (ho_graphs h graph) then
        (let d = graph_of (ho_sys h) (the (gr_obj_desc (ho_graphs h graph) ! unat pipeline_id));
             b = joined (gd_exe_time_beg d); e = joined (gd_exe_time_end d)
         in upd_graph graph (\<lambda>x. x\<lparr>gr_perf := perf_add ((e - b) * 1000)
                                     ((gr_perf x)\<lparr>pe_beg := b * 1000, pe_end := e * 1000\<rparr>)\<rparr>) h)
      else h)"

section \<open>Scheduling\<close>

fun schedule_heads :: "platform \<Rightarrow> uint32 \<Rightarrow> host \<Rightarrow> uintptr list \<Rightarrow> vx_status \<Rightarrow> host \<times> vx_status" where
  "schedule_heads pl pipeline_id h [] status = (h, status)"
| "schedule_heads pl pipeline_id h (n # ns) status =
     (case ownNodeKernelSchedule pl h n pipeline_id of
        (h1, st) \<Rightarrow> schedule_heads pl pipeline_id h1 ns (if st \<noteq> VX_SUCCESS then st else status))"

text \<open>One instance is started.\<close>

definition schedule_instance ::
  "posix_rc \<Rightarrow> platform \<Rightarrow> uint64 \<Rightarrow> host \<Rightarrow> uintptr \<Rightarrow> nat \<Rightarrow> vx_status \<Rightarrow> host \<times> vx_status" where
  "schedule_instance rc pl now h graph od status =
     (let h1 = upd_gdesc od (\<lambda>d. d\<lparr>gd_exe_time_beg := tivx_uint64_to_uint32 now\<rparr>) h;
          pid = gd_pipeline_id (graph_of (ho_sys h1) od);
          h2 = upd_gdesc od (\<lambda>d. d\<lparr>gd_state := VX_GRAPH_STATE_RUNNING\<rparr>) (ownGraphClearState h1 graph pid);
          h3 = upd_graph graph (\<lambda>g. g\<lparr>gr_state := VX_GRAPH_STATE_RUNNING,
                 gr_all_graph_completed_event := fst (tivxEventClear rc (gr_all_graph_completed_event g)),
                 gr_submitted_count := gr_submitted_count g + 1\<rparr>) h2;
          g = ho_graphs h3 graph
      in schedule_heads pl pid h3 (take (unat (gr_num_head_nodes g)) (gr_head_nodes g)) status)"

text \<open>The loop of \<open>ownGraphScheduleGraph\<close>; \<open>now k\<close> is the time at the \<open>k\<close>-th turn. The result has the
  number of instances that were started.\<close>

fun schedule_loop ::
  "posix_rc \<Rightarrow> platform \<Rightarrow> (nat \<Rightarrow> uint64) \<Rightarrow> uintptr \<Rightarrow> nat \<Rightarrow> host \<Rightarrow> nat \<Rightarrow> vx_status \<Rightarrow> host \<times> nat \<times> vx_status"
where
  "schedule_loop rc pl now graph 0 h schedule_id status = (h, schedule_id, status)"
| "schedule_loop rc pl now graph (Suc k) h schedule_id status =
     (case ownGraphDequeueFreeObjDesc rc h graph of
        (h1, None) \<Rightarrow> (h1, schedule_id, status)
      | (h1, Some od) \<Rightarrow>
         (case schedule_instance rc pl (now schedule_id) h1 graph od status of
            (h2, st) \<Rightarrow> schedule_loop rc pl now graph k h2 (Suc schedule_id) st))"

definition queued_mode :: "vx_graph_t \<Rightarrow> bool" where
  "queued_mode g \<longleftrightarrow> gr_schedule_mode g \<noteq> VX_GRAPH_SCHEDULE_MODE_NORMAL \<or> gr_is_streaming_enabled g"

definition ownGraphScheduleGraph ::
  "posix_rc \<Rightarrow> platform \<Rightarrow> (nat \<Rightarrow> uint64) \<Rightarrow> host \<Rightarrow> uintptr \<Rightarrow> uint32 \<Rightarrow> host \<times> vx_status" where
  "ownGraphScheduleGraph rc pl now h graph num_schedule =
     (if ownReferenceLock rc h graph = VX_SUCCESS then
        (let total = num_schedule + gr_schedule_pending_count (ho_graphs h graph) in
         case schedule_loop rc pl now graph (unat total) h 0 VX_SUCCESS of
           (h1, schedule_id, status) \<Rightarrow>
             if queued_mode (ho_graphs h1 graph)
             then (upd_graph graph (\<lambda>g. g\<lparr>gr_schedule_pending_count := total - of_nat schedule_id\<rparr>) h1, status)
             else (h1, if of_nat schedule_id \<noteq> total then VX_ERROR_NO_RESOURCES else status))
      else (h, VX_FAILURE))"

section \<open>Completion\<close>

definition age_graph_delays :: "posix_rc \<Rightarrow> ref_callbacks \<Rightarrow> host \<Rightarrow> uintptr \<Rightarrow> host" where
  "age_graph_delays rc cb h graph =
     foldl (\<lambda>h d. fst (vxAgeDelay rc cb h d)) h
       (takeWhile (\<lambda>d. d \<noteq> 0) (take TIVX_GRAPH_MAX_DELAYS (gr_delays (ho_graphs h graph))))"

text \<open>The part of \<open>ownCheckGraphCompleted\<close> for an instance whose last leaf node has completed; the
  result has the number of pending requests, which it takes over.\<close>

definition complete_instance ::
  "posix_rc \<Rightarrow> ref_callbacks \<Rightarrow> uint64 \<Rightarrow> host \<Rightarrow> uintptr \<Rightarrow> nat \<Rightarrow> host \<times> uint32" where
  "complete_instance rc cb now h graph od =
     (let h1 = upd_graph graph (\<lambda>g. g\<lparr>gr_submitted_count := gr_submitted_count g - 1\<rparr>) h;
          pid = gd_pipeline_id (graph_of (ho_sys h1) od);
          h2 = foldl (ownUpdateNodePerf pid) h1 (nodes_of_graph (ho_graphs h1 graph));
          h3 = (if gr_schedule_mode (ho_graphs h2 graph) = VX_GRAPH_SCHEDULE_MODE_NORMAL
                then age_graph_delays rc cb h2 graph else h2);
          h4 = upd_gdesc od (\<lambda>d. d\<lparr>gd_state := (if gd_state d = VX_GRAPH_STATE_RUNNING
                                                then VX_GRAPH_STATE_COMPLETED else gd_state d),
                                  gd_exe_time_end := tivx_uint64_to_uint32 now\<rparr>) h3;
          h5 = ownUpdateGraphPerf h4 graph pid;
          h6 = (if gr_submitted_count (ho_graphs h5 graph) = 0
                then upd_graph graph (\<lambda>g. g\<lparr>gr_state := gd_state (graph_of (ho_sys h5) od)\<rparr>) h5 else h5);
          h7 = ownGraphEnqueueFreeObjDesc h6 graph (Some od);
          schedule_count = gr_schedule_pending_count (ho_graphs h7 graph);
          h8 = upd_graph graph (\<lambda>g. g\<lparr>gr_schedule_pending_count := 0\<rparr>) h7
      in (if gr_submitted_count (ho_graphs h8 graph) = 0 \<and> schedule_count = 0
          then upd_graph graph (\<lambda>g. g\<lparr>gr_all_graph_completed_event :=
                 fst (tivxEventPost rc 0 (gr_all_graph_completed_event g))\<rparr>) h8
          else h8, schedule_count))"

text \<open>The critical section of \<open>ownCheckGraphCompleted\<close>: a leaf node has completed.\<close>

definition leaf_completed ::
  "posix_rc \<Rightarrow> ref_callbacks \<Rightarrow> uint64 \<Rightarrow> host \<Rightarrow> uintptr \<Rightarrow> uint32 \<Rightarrow> host \<times> bool \<times> uint32" where
  "leaf_completed rc cb now h graph pipeline_id =
     (if ownReferenceLock rc h graph = VX_SUCCESS then
        (case ownGraphGetObjDesc h graph pipeline_id of
           None \<Rightarrow> (h, False, 0)
         | Some od \<Rightarrow>
            (let h1 = upd_gdesc od (\<lambda>d. d\<lparr>gd_complete_leaf_nodes := gd_complete_leaf_nodes d + 1\<rparr>) h in
             if gd_complete_leaf_nodes (graph_of (ho_sys h1) od) = gr_num_leaf_nodes (ho_graphs h1 graph) then
               (case complete_instance rc cb now
                       (upd_gdesc od (\<lambda>d. d\<lparr>gd_complete_leaf_nodes := 0\<rparr>) h1) graph od of
                  (h2, schedule_count) \<Rightarrow> (h2, True, schedule_count))
             else (h1, False, 0)))
      else (h, False, 0))"

definition ownCheckGraphCompleted ::
  "posix_rc \<Rightarrow> ref_callbacks \<Rightarrow> platform \<Rightarrow> uint64 \<Rightarrow> (nat \<Rightarrow> uint64) \<Rightarrow> host \<Rightarrow> uintptr \<Rightarrow> uint32 \<Rightarrow> host \<times> bool"
where
  "ownCheckGraphCompleted rc cb pl now later h graph pipeline_id =
     (case leaf_completed rc cb now h graph pipeline_id of
        (h1, is_send_graph_complete_event, schedule_count) \<Rightarrow>
          (if schedule_count > 0 then fst (ownGraphScheduleGraph rc pl later h1 graph schedule_count) else h1,
           is_send_graph_complete_event))"

text \<open>The state goes to the descriptor of the instance.\<close>

definition ownSetGraphState :: "host \<Rightarrow> uintptr \<Rightarrow> uint32 \<Rightarrow> vx_enum \<Rightarrow> host" where
  "ownSetGraphState h graph pipeline_id state =
     (if graph \<noteq> 0 \<and> pipeline_id < gr_pipeline_depth (ho_graphs h graph) then
        (case gr_obj_desc (ho_graphs h graph) ! unat pipeline_id of
           None \<Rightarrow> h
         | Some i \<Rightarrow> upd_gdesc i (\<lambda>d. d\<lparr>gd_state := state\<rparr>) h)
      else h)"

section \<open>The application's calls\<close>

abbreviation (input) VX_ERROR_GRAPH_ABANDONED :: vx_status where "VX_ERROR_GRAPH_ABANDONED \<equiv> - 22"

definition vxIsGraphVerified :: "host \<Rightarrow> uintptr \<Rightarrow> bool" where
  "vxIsGraphVerified h graph \<longleftrightarrow> ownIsValidSpecificReference h graph VX_TYPE_GRAPH \<and> gr_verified (ho_graphs h graph)"

definition ownGraphDoScheduleGraphAfterEnqueue :: "host \<Rightarrow> uintptr \<Rightarrow> uint32 \<Rightarrow> bool" where
  "ownGraphDoScheduleGraphAfterEnqueue h graph graph_parameter_index \<longleftrightarrow> graph \<noteq> 0
     \<and> gr_schedule_mode (ho_graphs h graph) = VX_GRAPH_SCHEDULE_MODE_QUEUE_AUTO \<and> graph_parameter_index = 0"

text \<open>\<open>ws\<close> and \<open>others\<close> are what the other threads do to the event and to the rest while the caller
  sleeps (\<open>others\<close> is the identity when it does not). The state of the graph is read again afterwards.\<close>

definition vxWaitGraph ::
  "posix_rc \<Rightarrow> event_env list \<Rightarrow> (host \<Rightarrow> host) \<Rightarrow> host \<Rightarrow> uintptr \<Rightarrow> (host \<times> vx_status) option" where
  "vxWaitGraph rc ws others h graph =
     (let g = ho_graphs h graph in
      if \<not> ownIsValidSpecificReference h graph VX_TYPE_GRAPH then Some (h, VX_ERROR_INVALID_REFERENCE)
      else if gr_state g = VX_GRAPH_STATE_RUNNING \<or> gr_state g = VX_GRAPH_STATE_COMPLETED
              \<or> gr_state g = VX_GRAPH_STATE_ABANDONED then
        map_option (\<lambda>(e, status).
            (let h1 = upd_graph graph (\<lambda>x. x\<lparr>gr_all_graph_completed_event := e\<rparr>) (others h)
             in (h1, if status = VX_SUCCESS \<and> gr_state (ho_graphs h1 graph) = VX_GRAPH_STATE_ABANDONED
                     then VX_ERROR_GRAPH_ABANDONED else status)))
          (tivxEventWait rc ws (gr_all_graph_completed_event g) (gr_timeout_val g))
      else Some (h, VX_ERROR_NOT_SUPPORTED))"

definition ownGraphSetReverify :: "host \<Rightarrow> uintptr \<Rightarrow> host" where
  "ownGraphSetReverify h graph =
     (if graph \<noteq> 0 then upd_graph graph (\<lambda>g. g\<lparr>gr_reverify := gr_verified g, gr_verified := False,
                                            gr_state := VX_GRAPH_STATE_UNVERIFIED\<rparr>) h
      else h)"

section \<open>What the operations leave alone\<close>

abbreviation (input) depth_of :: "host \<Rightarrow> uintptr \<Rightarrow> nat" where
  "depth_of h graph \<equiv> unat (gr_pipeline_depth (ho_graphs h graph))"

definition inst :: "host \<Rightarrow> uintptr \<Rightarrow> nat \<Rightarrow> nat" where
  "inst h graph p = the (gr_obj_desc (ho_graphs h graph) ! p)"

definition leaf_count :: "host \<Rightarrow> uintptr \<Rightarrow> nat \<Rightarrow> uint32" where
  "leaf_count h graph p = gd_complete_leaf_nodes (graph_of (ho_sys h) (inst h graph p))"

text \<open>The descriptors of the instances are distinct, know their place and are not those of a node.\<close>

definition wired :: "host \<Rightarrow> uintptr \<Rightarrow> bool" where
  "wired h graph \<longleftrightarrow> 0 < depth_of h graph \<and> depth_of h graph < TIVX_GRAPH_MAX_PIPELINE_DEPTH
     \<and> (\<forall>p < depth_of h graph. gr_obj_desc (ho_graphs h graph) ! p \<noteq> None
          \<and> inst h graph p < num_entries (sys_tbl (ho_sys h))
          \<and> gd_pipeline_id (graph_of (ho_sys h) (inst h graph p)) = of_nat p)
     \<and> inj_on (inst h graph) {..< depth_of h graph}
     \<and> (\<forall>n \<in> set (nodes_of_graph (ho_graphs h graph)). \<forall>k < 16. \<forall>i.
          vn_obj_desc (ho_nodes h n) ! k = Some i \<longrightarrow> i \<notin> inst h graph ` {..< depth_of h graph})"

definition fixed_fields :: "vx_graph_t \<Rightarrow> _" where
  "fixed_fields g = (gr_pipeline_depth g, gr_obj_desc g, gr_nodes g, gr_num_nodes g, gr_num_leaf_nodes g,
     gr_schedule_mode g, gr_is_streaming_enabled g)"

definition moving_fields :: "vx_graph_t \<Rightarrow> _" where
  "moving_fields g = (gr_free_q g, gr_submitted_count g, gr_schedule_pending_count g, gr_all_graph_completed_event g)"

lemmas field_defs = fixed_fields_def moving_fields_def

definition same_wiring :: "host \<Rightarrow> uintptr \<Rightarrow> host \<Rightarrow> bool" where
  "same_wiring h graph h' \<longleftrightarrow> ho_refs h' = ho_refs h
     \<and> num_entries (sys_tbl (ho_sys h')) = num_entries (sys_tbl (ho_sys h))
     \<and> (\<forall>n. vn_obj_desc (ho_nodes h' n) = vn_obj_desc (ho_nodes h n))
     \<and> fixed_fields (ho_graphs h' graph) = fixed_fields (ho_graphs h graph)
     \<and> (\<forall>p < depth_of h graph. gd_pipeline_id (graph_of (ho_sys h') (inst h graph p))
          = gd_pipeline_id (graph_of (ho_sys h) (inst h graph p)))"

definition kept :: "host \<Rightarrow> uintptr \<Rightarrow> host \<Rightarrow> bool" where
  "kept h graph h' \<longleftrightarrow> same_wiring h graph h'
     \<and> moving_fields (ho_graphs h' graph) = moving_fields (ho_graphs h graph)
     \<and> (\<forall>p < depth_of h graph. leaf_count h' graph p = leaf_count h graph p)"

lemma lock_same: "ho_refs h' = ho_refs h \<Longrightarrow> ownReferenceLock rc h' graph = ownReferenceLock rc h graph"
  by (simp add: ownReferenceLock_def ref_mutex_def)

lemma same_wiring_fields:
  assumes "same_wiring h graph h'"
  shows "gr_pipeline_depth (ho_graphs h' graph) = gr_pipeline_depth (ho_graphs h graph)"
    "gr_obj_desc (ho_graphs h' graph) = gr_obj_desc (ho_graphs h graph)"
    "gr_num_leaf_nodes (ho_graphs h' graph) = gr_num_leaf_nodes (ho_graphs h graph)"
    "gr_schedule_mode (ho_graphs h' graph) = gr_schedule_mode (ho_graphs h graph)"
    "queued_mode (ho_graphs h' graph) = queued_mode (ho_graphs h graph)"
    "nodes_of_graph (ho_graphs h' graph) = nodes_of_graph (ho_graphs h graph)"
    "inst h' graph = inst h graph" "ho_refs h' = ho_refs h"
    "ownReferenceLock rc h' graph = ownReferenceLock rc h graph"
  using assms by (auto simp: same_wiring_def fixed_fields_def queued_mode_def nodes_of_graph_def inst_def fun_eq_iff
      intro: lock_same)

lemma same_wiring_wired: "same_wiring h graph h' \<Longrightarrow> wired h graph \<Longrightarrow> wired h' graph"
  using same_wiring_fields [of h graph h'] unfolding wired_def by (simp add: same_wiring_def)

lemma same_wiring_trans:
  "same_wiring h graph h1 \<Longrightarrow> same_wiring h1 graph h2 \<Longrightarrow> same_wiring h graph h2"
  using same_wiring_fields [of h graph h1] unfolding same_wiring_def by simp

lemma same_wiring_refl [simp]: "same_wiring h graph h"
  by (simp add: same_wiring_def)

lemma kept_refl [simp]: "kept h graph h"
  by (simp add: kept_def)

lemma kept_trans: "kept h graph h1 \<Longrightarrow> kept h1 graph h2 \<Longrightarrow> kept h graph h2"
  using same_wiring_trans same_wiring_fields [of h graph h1] unfolding kept_def by metis

lemma kept_wired: "kept h graph h' \<Longrightarrow> wired h graph \<Longrightarrow> wired h' graph"
  by (auto simp: kept_def intro: same_wiring_wired)

lemma kept_fields:
  assumes "kept h graph h'"
  shows "same_wiring h graph h'" "gr_free_q (ho_graphs h' graph) = gr_free_q (ho_graphs h graph)"
    "gr_submitted_count (ho_graphs h' graph) = gr_submitted_count (ho_graphs h graph)"
    "gr_schedule_pending_count (ho_graphs h' graph) = gr_schedule_pending_count (ho_graphs h graph)"
    "gr_all_graph_completed_event (ho_graphs h' graph) = gr_all_graph_completed_event (ho_graphs h graph)"
    "p < depth_of h graph \<Longrightarrow> leaf_count h' graph p = leaf_count h graph p"
  using assms by (simp_all add: kept_def moving_fields_def)

lemma kept_foldl:
  assumes "\<And>h x. wired h graph \<Longrightarrow> x \<in> set xs \<Longrightarrow> P h \<Longrightarrow> kept h graph (f h x) \<and> P (f h x)"
    and "wired h graph" "P h"
  shows "kept h graph (foldl f h xs)"
  using assms
proof (induction xs arbitrary: h)
  case Nil
  then show ?case by simp
next
  case (Cons x xs)
  have step: "kept h graph (f h x)" "P (f h x)" using Cons.prems by auto
  have "kept (f h x) graph (foldl f (f h x) xs)"
    using Cons.IH [OF Cons.prems(1)] step kept_wired [OF step(1) Cons.prems(2)] by simp
  with step(1) show ?case using kept_trans by simp
qed

text \<open>Writing through a pointer to a descriptor of an instance.\<close>

lemma upd_gdesc_graphs [simp]:
  "ho_graphs (upd_gdesc i f h) = ho_graphs h" "ho_nodes (upd_gdesc i f h) = ho_nodes h"
  "ho_refs (upd_gdesc i f h) = ho_refs h" "inst (upd_gdesc i f h) = inst h"
  by (simp_all add: upd_gdesc_def inst_def fun_eq_iff)

lemma graph_of_upd:
  "j < num_entries (sys_tbl (ho_sys h)) \<Longrightarrow>
     graph_of (ho_sys (upd_gdesc i f h)) j = (if i = j then f (graph_of (ho_sys h) j) else graph_of (ho_sys h) j)"
  by (simp add: upd_gdesc_def graph_of_def)

lemma upd_gdesc_entries [simp]:
  "num_entries (sys_tbl (ho_sys (upd_gdesc i f h))) = num_entries (sys_tbl (ho_sys h))"
  by (simp add: upd_gdesc_def)

lemma wiredD:
  assumes "wired h graph" "p < depth_of h graph"
  shows "inst h graph p < num_entries (sys_tbl (ho_sys h))"
    "gd_pipeline_id (graph_of (ho_sys h) (inst h graph p)) = of_nat p"
    "gr_obj_desc (ho_graphs h graph) ! p = Some (inst h graph p)"
    "q < depth_of h graph \<Longrightarrow> inst h graph q = inst h graph p \<longleftrightarrow> q = p"
    "unat (of_nat p :: uint32) = p" "unat (of_nat p :: uintptr) = p"
  using assms by (auto simp: wired_def inst_def inj_on_def unat_of_nat)

lemma upd_gdesc_instance:
  assumes "wired h graph" "p < depth_of h graph"
    and "\<And>d. gd_pipeline_id (f d) = gd_pipeline_id d"
  shows "same_wiring h graph (upd_gdesc (inst h graph p) f h)"
    and "q < depth_of h graph \<Longrightarrow> leaf_count (upd_gdesc (inst h graph p) f h) graph q =
      (if q = p then gd_complete_leaf_nodes (f (graph_of (ho_sys h) (inst h graph p))) else leaf_count h graph q)"
proof -
  show "same_wiring h graph (upd_gdesc (inst h graph p) f h)"
    using assms(3) wiredD(1) [OF assms(1)] by (simp add: same_wiring_def graph_of_upd)
  assume q: "q < depth_of h graph"
  have "inst h graph p = inst h graph q \<longleftrightarrow> q = p" using wiredD(4) [OF assms(1,2) q] by auto
  then show "leaf_count (upd_gdesc (inst h graph p) f h) graph q =
      (if q = p then gd_complete_leaf_nodes (f (graph_of (ho_sys h) (inst h graph p))) else leaf_count h graph q)"
    using wiredD(1) [OF assms(1) q] by (simp add: leaf_count_def graph_of_upd)
qed

lemma upd_gdesc_kept:
  assumes "wired h graph" "p < depth_of h graph"
    and "\<And>d. gd_pipeline_id (f d) = gd_pipeline_id d"
    and "\<And>d. gd_complete_leaf_nodes (f d) = gd_complete_leaf_nodes d"
  shows "kept h graph (upd_gdesc (inst h graph p) f h)"
  using upd_gdesc_instance [OF assms(1-3)] assms(4) by (simp add: kept_def leaf_count_def)


lemma upd_node_graph_of:
  assumes "i \<noteq> j"
  shows "graph_of (upd_node i f s) j = graph_of s j"
    "num_entries (sys_tbl (upd_node i f s)) = num_entries (sys_tbl s)"
  using assms by (simp_all add: upd_node_def graph_of_def upd_desc_def)

lemma clear_execute_state_kept:
  assumes "wired h graph" "n \<in> set (nodes_of_graph (ho_graphs h graph))"
  shows "kept h graph (ownNodeClearExecuteState pid h n)"
proof -
  have "kept h graph (h\<lparr>ho_sys := upd_node i f (ho_sys h)\<rparr>)"
    if "vn_obj_desc (ho_nodes h n) ! k = Some i" "k < 16" for k i f
  proof -
    have ne: "i \<noteq> inst h graph p" if "p < depth_of h graph" for p
      using assms \<open>vn_obj_desc (ho_nodes h n) ! k = Some i\<close> \<open>k < 16\<close> that unfolding wired_def by blast
    then show ?thesis
      by (simp add: kept_def same_wiring_def leaf_count_def inst_def [abs_def] upd_node_def upd_node_graph_of
          field_defs graph_of_def upd_desc_def)
  qed
  then show ?thesis by (auto simp: ownNodeClearExecuteState_def word_less_nat_alt split: option.split)
qed

lemma clear_state_kept:
  assumes "wired h graph"
  shows "kept h graph (ownGraphClearState h graph pid)"
proof -
  let ?ns = "nodes_of_graph (ho_graphs h graph)"
  have "kept h graph (foldl (ownNodeClearExecuteState pid) h ?ns)"
  proof (rule kept_foldl [where P = "\<lambda>h'. nodes_of_graph (ho_graphs h' graph) = ?ns"])
    fix h' n assume *: "wired h' graph" "n \<in> set ?ns" "nodes_of_graph (ho_graphs h' graph) = ?ns"
    then have "kept h' graph (ownNodeClearExecuteState pid h' n)" by (simp add: clear_execute_state_kept)
    moreover from this have "nodes_of_graph (ho_graphs (ownNodeClearExecuteState pid h' n) graph) = ?ns"
      using same_wiring_fields(6) [OF kept_fields(1)] *(3) by simp
    ultimately show "kept h' graph (ownNodeClearExecuteState pid h' n)
      \<and> nodes_of_graph (ho_graphs (ownNodeClearExecuteState pid h' n) graph) = ?ns" by blast
  qed (use assms in simp_all)
  then show ?thesis by (simp add: ownGraphClearState_def)
qed

lemma sys_only_kept:
  assumes "ho_graphs h' = ho_graphs h" "ho_refs h' = ho_refs h" "ho_nodes h' = ho_nodes h"
    and "sys_tbl (ho_sys h') = sys_tbl (ho_sys h)"
  shows "kept h graph h'"
  using assms by (simp add: kept_def same_wiring_def leaf_count_def inst_def graph_of_def)

lemma schedule_heads_kept: "kept h graph (fst (schedule_heads pl pid h ns status))"
proof (induction ns arbitrary: h status)
  case Nil
  then show ?case by simp
next
  case (Cons n ns)
  obtain h1 st where step: "ownNodeKernelSchedule pl h n pid = (h1, st)" by fastforce
  then have "kept h graph h1"
    by (auto simp: ownNodeKernelSchedule_def Let_def split: prod.splits intro!: sys_only_kept)
      (metis fst_conv obj_desc_send_tbl)
  with Cons.IH [of h1] step show ?case using kept_trans by simp
qed

lemma upd_vnode_kept:
  "(\<And>x. vn_obj_desc (f x) = vn_obj_desc x) \<Longrightarrow> kept h graph (upd_vnode n f h)"
  by (simp add: kept_def same_wiring_def leaf_count_def inst_def upd_vnode_def)

lemma upd_graph_kept:
  assumes "fixed_fields (f (ho_graphs h graph)) = fixed_fields (ho_graphs h graph)"
    and "moving_fields (f (ho_graphs h graph)) = moving_fields (ho_graphs h graph)"
  shows "kept h graph (upd_graph graph f h)"
  using assms by (simp add: kept_def same_wiring_def leaf_count_def inst_def upd_graph_def field_defs)

lemma update_node_perf_kept: "kept h graph (ownUpdateNodePerf pid h n)"
  by (auto simp: ownUpdateNodePerf_def Let_def intro: upd_vnode_kept)

lemma update_graph_perf_kept: "kept h graph (ownUpdateGraphPerf h graph pid)"
  by (auto simp: ownUpdateGraphPerf_def Let_def field_defs intro: upd_graph_kept)

lemma update_nodes_perf_kept: "wired h graph \<Longrightarrow> kept h graph (foldl (ownUpdateNodePerf pid) h ns)"
  by (rule kept_foldl [where P = "\<lambda>_. True"]) (simp_all add: update_node_perf_kept)

text \<open>Changing the moving fields of the graph.\<close>

lemma upd_graph_moves:
  assumes "fixed_fields (f (ho_graphs h graph)) = fixed_fields (ho_graphs h graph)"
  shows "same_wiring h graph (upd_graph graph f h)"
    "leaf_count (upd_graph graph f h) graph p = leaf_count h graph p"
    "ho_graphs (upd_graph graph f h) graph = f (ho_graphs h graph)"
    "graph_of (ho_sys (upd_graph graph f h)) = graph_of (ho_sys h)"
  using assms by (simp_all add: same_wiring_def leaf_count_def inst_def upd_graph_def field_defs)


section \<open>What the operations do\<close>

text \<open>The instances that are free, in the order of the queue.\<close>

definition free_pids :: "host \<Rightarrow> uintptr \<Rightarrow> nat list" where
  "free_pids h graph = map unat (queue_elems (gr_free_q (ho_graphs h graph)))"

definition free_ok :: "host \<Rightarrow> uintptr \<Rightarrow> bool" where
  "free_ok h graph \<longleftrightarrow> queue_inv (gr_free_q (ho_graphs h graph))
     \<and> queue_cap (gr_free_q (ho_graphs h graph)) = TIVX_GRAPH_MAX_PIPELINE_DEPTH
     \<and> distinct (free_pids h graph) \<and> set (free_pids h graph) \<subseteq> {..< depth_of h graph}"

lemma free_same:
  assumes "gr_free_q (ho_graphs h' graph) = gr_free_q (ho_graphs h graph)"
    "gr_pipeline_depth (ho_graphs h' graph) = gr_pipeline_depth (ho_graphs h graph)"
  shows "free_pids h' graph = free_pids h graph" "free_ok h' graph = free_ok h graph"
  using assms by (simp_all add: free_pids_def free_ok_def)

lemma unat_ucast32: "unat (ucast (w :: uint32) :: uintptr) = unat w"
  by (simp add: unsigned_ucast_eq take_bit_nat_eq_self [OF order.strict_trans [OF unsigned_less]])

lemma upd_graph_free_q:
  "fixed_fields (x\<lparr>gr_free_q := q\<rparr>) = fixed_fields x"
  by (simp add: fixed_fields_def)

lemma free_dequeue_none:
  assumes "free_ok h graph" "free_pids h graph = []"
  shows "ownGraphDequeueFreeObjDesc rc h graph = (h, None)"
proof -
  have "q_count (gr_free_q (ho_graphs h graph)) = 0"
    using assms queue_nonempty word_gt_0 by (auto simp: free_pids_def)
  then show ?thesis by (simp add: ownGraphDequeueFreeObjDesc_def tivxQueueIsEmpty_def Let_def)
qed

lemma free_dequeue_some:
  assumes "wired h graph" "free_ok h graph" "free_pids h graph = p # ps" "rc_mutex_lock rc = 0"
  obtains q where "ownGraphDequeueFreeObjDesc rc h graph
      = (upd_graph graph (\<lambda>x. x\<lparr>gr_free_q := q\<rparr>) h, Some (inst h graph p))"
    "free_ok (upd_graph graph (\<lambda>x. x\<lparr>gr_free_q := q\<rparr>) h) graph"
    "free_pids (upd_graph graph (\<lambda>x. x\<lparr>gr_free_q := q\<rparr>) h) graph = ps" "p < depth_of h graph"
proof -
  let ?q = "gr_free_q (ho_graphs h graph)"
  from assms(3) obtain x xs where el: "queue_elems ?q = x # xs" and p: "unat x = p" and ps: "map unat xs = ps"
    by (auto simp: free_pids_def)
  have inv: "queue_inv ?q" using assms(2) by (simp add: free_ok_def)
  obtain q where get: "osq_get ?q = (q, Some x, VX_SUCCESS)" "queue_inv q" "queue_elems q = xs"
    "queue_cap q = queue_cap ?q" using osq.get_ok [OF inv el] by blast
  have less: "p < depth_of h graph" using assms(2,3) by (simp add: free_ok_def)
  then have "x < ucast (gr_pipeline_depth (ho_graphs h graph))"
    by (simp add: word_less_nat_alt unat_ucast32 p)
  moreover have "\<not> tivxQueueIsEmpty rc ?q"
    using el inv queue_nonempty [of ?q] assms(4) queue_inv_context [OF inv]
    by (auto simp: tivxQueueIsEmpty_def word_gt_0)
  ultimately have "ownGraphDequeueFreeObjDesc rc h graph
      = (upd_graph graph (\<lambda>x. x\<lparr>gr_free_q := q\<rparr>) h, Some (inst h graph p))"
    using get(1) wiredD(3) [OF assms(1) less] p by (simp add: ownGraphDequeueFreeObjDesc_def Let_def)
  moreover have "free_pids (upd_graph graph (\<lambda>x. x\<lparr>gr_free_q := q\<rparr>) h) graph = ps"
    using get(3) ps by (simp add: free_pids_def upd_graph_def)
  moreover from this have "free_ok (upd_graph graph (\<lambda>x. x\<lparr>gr_free_q := q\<rparr>) h) graph"
    using get(2,4) assms(2,3) by (simp add: free_ok_def upd_graph_def)
  ultimately show thesis using that less by blast
qed

lemma enqueue_some:
  assumes "wired h graph" "free_ok h graph" "p < depth_of h graph" "p \<notin> set (free_pids h graph)"
  obtains q where "ownGraphEnqueueFreeObjDesc h graph (Some (inst h graph p))
      = upd_graph graph (\<lambda>x. x\<lparr>gr_free_q := q\<rparr>) h"
    "free_ok (upd_graph graph (\<lambda>x. x\<lparr>gr_free_q := q\<rparr>) h) graph"
    "free_pids (upd_graph graph (\<lambda>x. x\<lparr>gr_free_q := q\<rparr>) h) graph = free_pids h graph @ [p]"
proof -
  let ?q = "gr_free_q (ho_graphs h graph)" and ?x = "of_nat p :: uintptr"
  have inv: "queue_inv ?q" and sub: "set (free_pids h graph) \<subseteq> {..< depth_of h graph}"
    and dist: "distinct (free_pids h graph)" using assms(2) by (simp_all add: free_ok_def)
  have "card (set (free_pids h graph)) \<le> card {..< depth_of h graph}" using sub by (intro card_mono) auto
  then have "length (queue_elems ?q) < queue_cap ?q"
    using dist assms(1,2) by (simp add: distinct_card free_ok_def wired_def) (simp add: free_pids_def)
  then obtain q where put: "osq_put ?q ?x = (q, VX_SUCCESS)" "queue_inv q" "queue_elems q = queue_elems ?q @ [?x]"
    "queue_cap q = queue_cap ?q" using osq.put_ok [OF inv] by blast
  have pid: "gd_pipeline_id (graph_of (ho_sys h) (inst h graph p)) = of_nat p" "unat (of_nat p :: uint32) = p"
    "unat ?x = p" using wiredD [OF assms(1,3)] by simp_all
  have cast: "ucast (of_nat p :: uint32) = ?x"
    using pid(2,3) by (intro word_unat_eq_iff [THEN iffD2]) (simp add: unat_ucast32)
  have "ownGraphEnqueueFreeObjDesc h graph (Some (inst h graph p)) = upd_graph graph (\<lambda>x. x\<lparr>gr_free_q := q\<rparr>) h"
    using pid(1,2) assms(3) put(1) cast
    by (simp add: ownGraphEnqueueFreeObjDesc_def Let_def word_less_nat_alt upd_graph_def)
  moreover have fp: "free_pids (upd_graph graph (\<lambda>x. x\<lparr>gr_free_q := q\<rparr>) h) graph = free_pids h graph @ [p]"
    using put(3) pid(3) by (simp add: free_pids_def upd_graph_def)
  moreover have "free_ok (upd_graph graph (\<lambda>x. x\<lparr>gr_free_q := q\<rparr>) h) graph"
    unfolding free_ok_def fp using put(2,4) assms(2-4) dist sub by (simp add: free_ok_def upd_graph_def)
  ultimately show thesis using that by blast
qed

lemma schedule_instance_ok:
  assumes "wired h graph" "p < depth_of h graph"
    and run: "schedule_instance rc pl now h graph (inst h graph p) status = (h', st)"
  shows "same_wiring h graph h'" "\<And>q. q < depth_of h graph \<Longrightarrow> leaf_count h' graph q = leaf_count h graph q"
    "gr_free_q (ho_graphs h' graph) = gr_free_q (ho_graphs h graph)"
    "gr_submitted_count (ho_graphs h' graph) = gr_submitted_count (ho_graphs h graph) + 1"
    "gr_schedule_pending_count (ho_graphs h' graph) = gr_schedule_pending_count (ho_graphs h graph)"
    "gr_all_graph_completed_event (ho_graphs h' graph)
       = fst (tivxEventClear rc (gr_all_graph_completed_event (ho_graphs h graph)))"
proof -
  let ?od = "inst h graph p"
  define h1 where "h1 = upd_gdesc ?od (\<lambda>d. d\<lparr>gd_exe_time_beg := tivx_uint64_to_uint32 now\<rparr>) h"
  define pid where "pid = gd_pipeline_id (graph_of (ho_sys h1) ?od)"
  define h1' where "h1' = ownGraphClearState h1 graph pid"
  define h2 where "h2 = upd_gdesc ?od (\<lambda>d. d\<lparr>gd_state := VX_GRAPH_STATE_RUNNING\<rparr>) h1'"
  let ?f = "\<lambda>g. g\<lparr>gr_state := VX_GRAPH_STATE_RUNNING,
                 gr_all_graph_completed_event := fst (tivxEventClear rc (gr_all_graph_completed_event g)),
                 gr_submitted_count := gr_submitted_count g + 1\<rparr>"
  define h3 where "h3 = upd_graph graph ?f h2"
  have k1: "kept h graph h1" unfolding h1_def by (rule upd_gdesc_kept [OF assms(1,2)]) simp_all
  have w1: "wired h1 graph" using kept_wired [OF k1 assms(1)] .
  have k2: "kept h1 graph h1'" unfolding h1'_def by (rule clear_state_kept [OF w1])
  have k12: "kept h graph h1'" using kept_trans [OF k1 k2] .
  have w2: "wired h1' graph" using kept_wired [OF k2 w1] .
  note s12 = same_wiring_fields [OF kept_fields(1) [OF k12]]
  have od: "?od = inst h1' graph p" "p < depth_of h1' graph" using s12(1,7) assms(2) by simp_all
  have k3: "kept h1' graph h2"
    unfolding h2_def od(1) by (rule upd_gdesc_kept [OF w2 od(2)]) simp_all
  have k: "kept h graph h2" using kept_trans [OF k12 k3] .
  have ff: "fixed_fields (?f x) = fixed_fields x" for x by (simp add: fixed_fields_def)
  note m = upd_graph_moves [of ?f h2 graph, OF ff, folded h3_def]
  define ns where "ns = take (unat (gr_num_head_nodes (ho_graphs h3 graph))) (gr_head_nodes (ho_graphs h3 graph))"
  have "schedule_instance rc pl now h graph ?od status = schedule_heads pl pid h3 ns status"
    unfolding schedule_instance_def Let_def h1_def pid_def h1'_def h2_def h3_def ns_def by (rule refl)
  then have h': "h' = fst (schedule_heads pl pid h3 ns status)" using run by (metis fst_conv)
  have k4: "kept h3 graph h'" unfolding h' by (rule schedule_heads_kept)
  note s = same_wiring_fields [OF kept_fields(1) [OF k]]
  show sw: "same_wiring h graph h'"
    using same_wiring_trans [OF kept_fields(1) [OF k] same_wiring_trans [OF m(1) kept_fields(1) [OF k4]]] .
  show "leaf_count h' graph q = leaf_count h graph q" if "q < depth_of h graph" for q
    using kept_fields(6) [OF k4] kept_fields(6) [OF k that] m(2,3) s(1) that by simp
  show "gr_free_q (ho_graphs h' graph) = gr_free_q (ho_graphs h graph)"
    "gr_submitted_count (ho_graphs h' graph) = gr_submitted_count (ho_graphs h graph) + 1"
    "gr_schedule_pending_count (ho_graphs h' graph) = gr_schedule_pending_count (ho_graphs h graph)"
    "gr_all_graph_completed_event (ho_graphs h' graph)
       = fst (tivxEventClear rc (gr_all_graph_completed_event (ho_graphs h graph)))"
    using kept_fields(2-5) [OF k4] m(3) kept_fields(2-5) [OF k] by simp_all
qed


text \<open>\<open>m\<close> instances have been started.\<close>

definition started :: "posix_rc \<Rightarrow> host \<Rightarrow> uintptr \<Rightarrow> nat \<Rightarrow> host \<Rightarrow> bool" where
  "started rc h graph m h' \<longleftrightarrow> same_wiring h graph h' \<and> free_ok h' graph
     \<and> free_pids h' graph = drop m (free_pids h graph)
     \<and> gr_submitted_count (ho_graphs h' graph) = gr_submitted_count (ho_graphs h graph) + of_nat m
     \<and> gr_schedule_pending_count (ho_graphs h' graph) = gr_schedule_pending_count (ho_graphs h graph)
     \<and> (\<forall>q < depth_of h graph. leaf_count h' graph q = leaf_count h graph q)
     \<and> gr_all_graph_completed_event (ho_graphs h' graph) = (if m = 0 then gr_all_graph_completed_event (ho_graphs h graph)
          else fst (tivxEventClear rc (gr_all_graph_completed_event (ho_graphs h graph))))"

lemma event_clear_twice: "fst (tivxEventClear rc (fst (tivxEventClear rc e))) = fst (tivxEventClear rc e)"
  by (auto simp: tivxEventClear_def split: option.splits)

lemma started_Suc:
  assumes "started rc h graph 1 h1" "started rc h1 graph m h2"
  shows "started rc h graph (Suc m) h2"
  using assms same_wiring_trans [of h graph h1 h2] same_wiring_fields(1) [of h graph h1]
  by (auto simp: started_def event_clear_twice)

lemma schedule_one:
  assumes "wired h graph" "free_ok h graph" "free_pids h graph = p # ps" "rc_mutex_lock rc = 0"
  obtains h1 where "ownGraphDequeueFreeObjDesc rc h graph = (h1, Some (inst h graph p))"
    "\<And>h2 st. schedule_instance rc pl now h1 graph (inst h graph p) status = (h2, st) \<Longrightarrow> started rc h graph 1 h2"
proof -
  obtain q where dq: "ownGraphDequeueFreeObjDesc rc h graph
      = (upd_graph graph (\<lambda>x. x\<lparr>gr_free_q := q\<rparr>) h, Some (inst h graph p))"
    "free_ok (upd_graph graph (\<lambda>x. x\<lparr>gr_free_q := q\<rparr>) h) graph"
    "free_pids (upd_graph graph (\<lambda>x. x\<lparr>gr_free_q := q\<rparr>) h) graph = ps" "p < depth_of h graph"
    using free_dequeue_some [OF assms] by metis
  define h1 where "h1 = upd_graph graph (\<lambda>x. x\<lparr>gr_free_q := q\<rparr>) h"
  note m = upd_graph_moves [of "\<lambda>x. x\<lparr>gr_free_q := q\<rparr>" h graph, OF upd_graph_free_q, folded h1_def]
  note s1 = same_wiring_fields [OF m(1)]
  have w1: "wired h1 graph" using same_wiring_wired [OF m(1) assms(1)] .
  have p1: "p < depth_of h1 graph" using s1(1) dq(4) by simp
  have od: "inst h graph p = inst h1 graph p" by (simp only: s1(7))
  have "started rc h graph 1 h2"
    if "schedule_instance rc pl now h1 graph (inst h graph p) status = (h2, st)" for h2 st
  proof -
    note i = schedule_instance_ok [OF w1 p1 that [unfolded od]]
    note f = free_same [OF i(3) same_wiring_fields(1) [OF i(1)]]
    show ?thesis
      unfolding started_def using same_wiring_trans [OF m(1) i(1)] f dq(2,3) assms(3) i m s1(1)
      by (simp add: h1_def [symmetric])
  qed
  with dq(1) that show thesis by (simp add: h1_def)
qed

lemma schedule_loop_ok:
  assumes "wired h graph" "free_ok h graph" "rc_mutex_lock rc = 0"
    and "schedule_loop rc pl now graph k h n status = (h', n', st)"
  shows "n' = n + min k (length (free_pids h graph)) \<and> started rc h graph (min k (length (free_pids h graph))) h'"
  using assms(1,2,4)
proof (induction k arbitrary: h n status)
  case 0
  then show ?case by (simp add: started_def)
next
  case (Suc k)
  show ?case
  proof (cases "free_pids h graph")
    case Nil
    then show ?thesis using Suc.prems free_dequeue_none [OF Suc.prems(2) Nil] by (simp add: started_def)
  next
    case (Cons p ps)
    obtain h1 where dq: "ownGraphDequeueFreeObjDesc rc h graph = (h1, Some (inst h graph p))"
      and one: "\<And>h2 st. schedule_instance rc pl (now n) h1 graph (inst h graph p) status = (h2, st) \<Longrightarrow>
        started rc h graph 1 h2"
      using schedule_one [OF Suc.prems(1,2) Cons assms(3)] by metis
    obtain h2 st2 where si: "schedule_instance rc pl (now n) h1 graph (inst h graph p) status = (h2, st2)" by fastforce
    have s: "started rc h graph 1 h2" by (rule one [OF si])
    have w2: "wired h2 graph" "free_ok h2 graph" "free_pids h2 graph = ps"
      using s same_wiring_wired Suc.prems(1) Cons by (auto simp: started_def)
    have "schedule_loop rc pl now graph k h2 (Suc n) st2 = (h', n', st)"
      using Suc.prems(3) dq si by simp
    from Suc.IH [OF w2(1,2) this] started_Suc [OF s] show ?thesis by (simp add: w2(3) Cons)
  qed
qed

text \<open>Scheduling starts as many of the requests as there are free instances, and keeps the others
  pending in the queued modes.\<close>

lemma schedule_graph_ok:
  assumes "wired h graph" "free_ok h graph" "rc_mutex_lock rc = 0"
    and "ownReferenceLock rc h graph = VX_SUCCESS" "queued_mode (ho_graphs h graph)"
    and tot: "tot = num_schedule + gr_schedule_pending_count (ho_graphs h graph)"
    and m: "m = min (unat tot) (length (free_pids h graph))"
  shows "\<exists>h1 st. ownGraphScheduleGraph rc pl now h graph num_schedule
      = (upd_graph graph (\<lambda>g. g\<lparr>gr_schedule_pending_count := tot - of_nat m\<rparr>) h1, st) \<and> started rc h graph m h1"
proof -
  obtain h1 n st where loop: "schedule_loop rc pl now graph (unat tot) h 0 VX_SUCCESS = (h1, n, st)"
    by (metis prod_cases3)
  from schedule_loop_ok [OF assms(1-3) this] have "n = m" "started rc h graph m h1" by (simp_all add: m)
  moreover from this have "queued_mode (ho_graphs h1 graph)"
    using same_wiring_fields(5) [of h graph h1] assms(5) by (simp add: started_def)
  ultimately have "ownGraphScheduleGraph rc pl now h graph num_schedule
      = (upd_graph graph (\<lambda>g. g\<lparr>gr_schedule_pending_count := tot - of_nat m\<rparr>) h1, st)"
    using loop assms(4) by (simp add: ownGraphScheduleGraph_def Let_def tot)
  with \<open>started rc h graph m h1\<close> show ?thesis by blast
qed


text \<open>The completion of an instance makes it free again, takes over the pending requests and posts
  the event when nothing is left.\<close>

definition completed ::
  "posix_rc \<Rightarrow> host \<Rightarrow> uintptr \<Rightarrow> nat \<Rightarrow> host \<Rightarrow> uint32 \<Rightarrow> bool" where
  "completed rc h graph p h' c \<longleftrightarrow> same_wiring h graph h' \<and> free_ok h' graph
     \<and> free_pids h' graph = free_pids h graph @ [p] \<and> c = gr_schedule_pending_count (ho_graphs h graph)
     \<and> gr_submitted_count (ho_graphs h' graph) = gr_submitted_count (ho_graphs h graph) - 1
     \<and> gr_schedule_pending_count (ho_graphs h' graph) = 0
     \<and> (\<forall>q < depth_of h graph. leaf_count h' graph q = leaf_count h graph q)
     \<and> gr_all_graph_completed_event (ho_graphs h' graph) =
         (if gr_submitted_count (ho_graphs h' graph) = 0 \<and> c = 0
          then fst (tivxEventPost rc 0 (gr_all_graph_completed_event (ho_graphs h graph)))
          else gr_all_graph_completed_event (ho_graphs h graph))"

lemma complete_instance_ok:
  assumes "wired h graph" "free_ok h graph" "p < depth_of h graph" "p \<notin> set (free_pids h graph)"
    and mode: "gr_schedule_mode (ho_graphs h graph) \<noteq> VX_GRAPH_SCHEDULE_MODE_NORMAL"
    and run: "complete_instance rc cb now h graph (inst h graph p) = (h', c)"
  shows "completed rc h graph p h' c"
proof -
  let ?od = "inst h graph p"
  define h1 where "h1 = upd_graph graph (\<lambda>g. g\<lparr>gr_submitted_count := gr_submitted_count g - 1\<rparr>) h"
  define pid where "pid = gd_pipeline_id (graph_of (ho_sys h1) ?od)"
  define h2 where "h2 = foldl (ownUpdateNodePerf pid) h1 (nodes_of_graph (ho_graphs h1 graph))"
  define h4 where "h4 = upd_gdesc ?od (\<lambda>d. d\<lparr>gd_state := (if gd_state d = VX_GRAPH_STATE_RUNNING
                                                then VX_GRAPH_STATE_COMPLETED else gd_state d),
                                  gd_exe_time_end := tivx_uint64_to_uint32 now\<rparr>) h2"
  define h5 where "h5 = ownUpdateGraphPerf h4 graph pid"
  define h6 where "h6 = (if gr_submitted_count (ho_graphs h5 graph) = 0
                then upd_graph graph (\<lambda>g. g\<lparr>gr_state := gd_state (graph_of (ho_sys h5) ?od)\<rparr>) h5 else h5)"
  define h7 where "h7 = ownGraphEnqueueFreeObjDesc h6 graph (Some ?od)"
  define h8 where "h8 = upd_graph graph (\<lambda>g. g\<lparr>gr_schedule_pending_count := 0\<rparr>) h7"
  have ff: "fixed_fields (x\<lparr>gr_submitted_count := a\<rparr>) = fixed_fields x"
    "fixed_fields (x\<lparr>gr_schedule_pending_count := a\<rparr>) = fixed_fields x"
    "fixed_fields (x\<lparr>gr_state := b\<rparr>) = fixed_fields x"
    "fixed_fields (x\<lparr>gr_all_graph_completed_event := e\<rparr>) = fixed_fields x" for x a b e
    by (simp_all add: fixed_fields_def)
  note m1 = upd_graph_moves [of "\<lambda>g. g\<lparr>gr_submitted_count := gr_submitted_count g - 1\<rparr>" h graph, OF ff(1), folded h1_def]
  have w1: "wired h1 graph" using same_wiring_wired [OF m1(1) assms(1)] .
  have k12: "kept h1 graph h2" unfolding h2_def by (rule update_nodes_perf_kept [OF w1])
  have w2: "wired h2 graph" using kept_wired [OF k12 w1] .
  note s1 = same_wiring_fields [OF m1(1)] and s2 = same_wiring_fields [OF kept_fields(1) [OF k12]]
  have od2: "?od = inst h2 graph p" "p < depth_of h2 graph" using s1(1,7) s2(1,7) assms(3) by simp_all
  have k24: "kept h2 graph h4" unfolding h4_def od2(1) by (rule upd_gdesc_kept [OF w2 od2(2)]) simp_all
  have k45: "kept h4 graph h5" unfolding h5_def by (rule update_graph_perf_kept)
  have k56: "kept h5 graph h6" unfolding h6_def by (auto intro!: upd_graph_kept simp: field_defs)
  have k: "kept h1 graph h6" using kept_trans [OF kept_trans [OF kept_trans [OF k12 k24] k45] k56] .
  note s6 = same_wiring_fields [OF kept_fields(1) [OF k]]
  have w6: "wired h6 graph" using kept_wired [OF k w1] .
  note f6 = free_same [OF kept_fields(2) [OF k] s6(1)]
  note f1 = free_same [of h1 graph h, unfolded m1(3)]
  have fp6: "free_pids h6 graph = free_pids h graph" "free_ok h6 graph" using f6 f1 assms(2) by simp_all
  have od6: "?od = inst h6 graph p" "p < depth_of h6 graph" "p \<notin> set (free_pids h6 graph)"
    using s1(1,7) s6(1,7) assms(3,4) fp6(1) by simp_all
  obtain q where en: "h7 = upd_graph graph (\<lambda>x. x\<lparr>gr_free_q := q\<rparr>) h6"
    "free_ok h7 graph" "free_pids h7 graph = free_pids h graph @ [p]"
    using enqueue_some [OF w6 fp6(2) od6(2,3)] unfolding h7_def od6(1) fp6(1) by metis
  note m7 = upd_graph_moves [of "\<lambda>x. x\<lparr>gr_free_q := q\<rparr>" h6 graph, OF upd_graph_free_q, folded en(1)]
  note m8 = upd_graph_moves [of "\<lambda>g. g\<lparr>gr_schedule_pending_count := 0\<rparr>" h7 graph, OF ff(2), folded h8_def]
  have sw: "same_wiring h graph h8"
    using same_wiring_trans [OF same_wiring_trans [OF same_wiring_trans [OF m1(1) kept_fields(1) [OF k]] m7(1)] m8(1)] .
  have "(if gr_schedule_mode (ho_graphs h2 graph) = VX_GRAPH_SCHEDULE_MODE_NORMAL
      then age_graph_delays rc cb h2 graph else h2) = h2" using mode s1(4) s2(4) by simp
  then have "complete_instance rc cb now h graph ?od = (if gr_submitted_count (ho_graphs h8 graph) = 0
        \<and> gr_schedule_pending_count (ho_graphs h7 graph) = 0
      then upd_graph graph (\<lambda>g. g\<lparr>gr_all_graph_completed_event :=
                 fst (tivxEventPost rc 0 (gr_all_graph_completed_event g))\<rparr>) h8
      else h8, gr_schedule_pending_count (ho_graphs h7 graph))"
    unfolding complete_instance_def Let_def h1_def [symmetric] pid_def [symmetric] h2_def [symmetric]
    by (simp only: h4_def [symmetric] h5_def [symmetric] h6_def [symmetric] h7_def [symmetric] h8_def [symmetric])
  note eq = trans [OF run [symmetric] this]
  have c: "c = gr_schedule_pending_count (ho_graphs h7 graph)" using arg_cong [OF eq, of snd] by simp
  have h': "h' = (if gr_submitted_count (ho_graphs h8 graph) = 0 \<and> c = 0
          then upd_graph graph (\<lambda>g. g\<lparr>gr_all_graph_completed_event :=
                 fst (tivxEventPost rc 0 (gr_all_graph_completed_event g))\<rparr>) h8 else h8)"
    unfolding c using arg_cong [OF eq, of fst] by (simp only: fst_conv)
  note m9 = upd_graph_moves [of "\<lambda>g. g\<lparr>gr_all_graph_completed_event :=
      fst (tivxEventPost rc 0 (gr_all_graph_completed_event g))\<rparr>" h8 graph, OF ff(4)]
  have fields: "gr_submitted_count (ho_graphs h8 graph) = gr_submitted_count (ho_graphs h graph) - 1"
    "gr_schedule_pending_count (ho_graphs h8 graph) = 0"
    "gr_schedule_pending_count (ho_graphs h7 graph) = gr_schedule_pending_count (ho_graphs h graph)"
    "gr_all_graph_completed_event (ho_graphs h8 graph) = gr_all_graph_completed_event (ho_graphs h graph)"
    "gr_free_q (ho_graphs h8 graph) = gr_free_q (ho_graphs h7 graph)"
    using m8(3) m7(3) m1(3) kept_fields(3-5) [OF k] by simp_all
  have leaves: "leaf_count h8 graph r = leaf_count h graph r" if "r < depth_of h graph" for r
    using m8(2) m7(2) m1(2) kept_fields(6) [OF k] that s1(1) by simp
  note f8 = free_same [OF fields(5) same_wiring_fields(1) [OF m8(1)]]
  have done8: "completed rc h graph p h8 c" if "\<not> (gr_submitted_count (ho_graphs h8 graph) = 0 \<and> c = 0)"
    using that sw f8 en(2,3) fields leaves c by (simp add: completed_def) blast
  show ?thesis
  proof (cases "gr_submitted_count (ho_graphs h8 graph) = 0 \<and> c = 0")
    case True
    have "same_wiring h graph h'" using same_wiring_trans [OF sw m9(1)] True h' by simp
    moreover have "gr_free_q (ho_graphs h' graph) = gr_free_q (ho_graphs h8 graph)"
      "gr_pipeline_depth (ho_graphs h' graph) = gr_pipeline_depth (ho_graphs h8 graph)"
      using True h' m9(3) by simp_all
    ultimately show ?thesis
      using True h' m9(2,3) fields leaves c f8 en(2,3) free_same [of h' graph h8] by (simp add: completed_def)
  next
    case False
    then show ?thesis using done8 [OF False] h' by (simp only: if_False)
  qed
qed

text \<open>A leaf node has completed: either the instance still runs, with one more leaf counted, or it is
  completed and its count starts again.\<close>

lemma leaf_completed_ok:
  assumes "wired h graph" "free_ok h graph" "p < depth_of h graph" "p \<notin> set (free_pids h graph)"
    and mode: "gr_schedule_mode (ho_graphs h graph) \<noteq> VX_GRAPH_SCHEDULE_MODE_NORMAL"
    and "ownReferenceLock rc h graph = VX_SUCCESS"
    and run: "leaf_completed rc cb now h graph (of_nat p) = (h', fin, c)"
  shows "if leaf_count h graph p + 1 = gr_num_leaf_nodes (ho_graphs h graph)
    then fin \<and> (\<exists>h1. same_wiring h graph h1 \<and> moving_fields (ho_graphs h1 graph) = moving_fields (ho_graphs h graph)
           \<and> (\<forall>q < depth_of h graph. leaf_count h1 graph q = (if q = p then 0 else leaf_count h graph q))
           \<and> completed rc h1 graph p h' c)
    else \<not> fin \<and> c = 0 \<and> same_wiring h graph h'
       \<and> moving_fields (ho_graphs h' graph) = moving_fields (ho_graphs h graph)
       \<and> (\<forall>q < depth_of h graph. leaf_count h' graph q = (if q = p then leaf_count h graph p + 1 else leaf_count h graph q))"
proof -
  let ?od = "inst h graph p"
  define h1 where "h1 = upd_gdesc ?od (\<lambda>d. d\<lparr>gd_complete_leaf_nodes := gd_complete_leaf_nodes d + 1\<rparr>) h"
  define h2 where "h2 = upd_gdesc ?od (\<lambda>d. d\<lparr>gd_complete_leaf_nodes := 0\<rparr>) h1"
  note d = wiredD [OF assms(1,3)]
  have i1: "same_wiring h graph h1"
    "q < depth_of h graph \<Longrightarrow> leaf_count h1 graph q = (if q = p then leaf_count h graph p + 1 else leaf_count h graph q)"
    for q
    unfolding h1_def using upd_gdesc_instance [OF assms(1,3), of "\<lambda>d. d\<lparr>gd_complete_leaf_nodes := gd_complete_leaf_nodes d + 1\<rparr>"]
    by (simp_all add: leaf_count_def)
  note s1 = same_wiring_fields [OF i1(1)]
  have w1: "wired h1 graph" using same_wiring_wired [OF i1(1) assms(1)] .
  have od1: "?od = inst h1 graph p" "p < depth_of h1 graph" using s1(1,7) assms(3) by simp_all
  have i2: "same_wiring h1 graph h2"
    "q < depth_of h graph \<Longrightarrow> leaf_count h2 graph q = (if q = p then 0 else leaf_count h1 graph q)" for q
    unfolding h2_def od1(1)
    using upd_gdesc_instance [OF w1 od1(2), of "\<lambda>d. d\<lparr>gd_complete_leaf_nodes := 0\<rparr>"] s1(1) by simp_all
  have g: "ho_graphs h1 = ho_graphs h" "ho_graphs h2 = ho_graphs h" by (simp_all add: h1_def h2_def)
  have get: "ownGraphGetObjDesc h graph (of_nat p) = Some ?od"
    using d(3,5) assms(3) by (simp add: ownGraphGetObjDesc_def word_less_nat_alt)
  have lc: "gd_complete_leaf_nodes (graph_of (ho_sys h1) ?od) = leaf_count h graph p + 1"
    using i1(2) [OF assms(3)] s1(7) by (simp add: leaf_count_def)
  show ?thesis
  proof (cases "leaf_count h graph p + 1 = gr_num_leaf_nodes (ho_graphs h graph)")
    case True
    obtain h3 c3 where ci: "complete_instance rc cb now h2 graph ?od = (h3, c3)" by fastforce
    have res: "h' = h3" "fin" "c = c3"
      using run get True lc ci assms(6) g(1) by (simp_all add: leaf_completed_def Let_def h1_def [symmetric] h2_def [symmetric])
    note s2 = same_wiring_fields [OF i2(1)]
    have w2: "wired h2 graph" using same_wiring_wired [OF i2(1) w1] .
    have f2: "free_ok h2 graph" "free_pids h2 graph = free_pids h graph"
      using free_same [of h2 graph h] g(2) assms(2) by simp_all
    have od2: "?od = inst h2 graph p" using s1(7) s2(7) by simp
    have "completed rc h2 graph p h3 c3"
      using complete_instance_ok [OF w2 f2(1)] assms(3,4) f2(2) g(2) mode ci od2 by simp
    then show ?thesis
      using True res same_wiring_trans [OF i1(1) i2(1)] i1(2) i2(2) g(2) by (intro if_P [THEN iffD2] conjI exI [of _ h2]) simp_all
  next
    case False
    have "h' = h1" "\<not> fin" "c = 0"
      using run get False lc assms(6) g(1) by (simp_all add: leaf_completed_def Let_def h1_def [symmetric])
    then show ?thesis using False i1 g(1) by simp
  qed
qed

lemma set_graph_state_kept:
  assumes "wired h graph"
  shows "kept h graph (ownSetGraphState h graph pid state)"
proof (cases "graph \<noteq> 0 \<and> pid < gr_pipeline_depth (ho_graphs h graph)")
  case True
  then have p: "unat pid < depth_of h graph" by (simp add: word_less_nat_alt)
  have "kept h graph (upd_gdesc (inst h graph (unat pid)) (\<lambda>d. d\<lparr>gd_state := state\<rparr>) h)"
    by (rule upd_gdesc_kept [OF assms p]) simp_all
  then show ?thesis using True wiredD(3) [OF assms p] by (simp add: ownSetGraphState_def)
next
  case False
  then show ?thesis by (simp only: ownSetGraphState_def if_False) simp
qed

text \<open>A wait that does not sleep: it answers at once, and takes the event down when it was up.\<close>

lemma wait_graph_at_once:
  assumes "vxWaitGraph rc [] id h graph = Some (h', status)"
    and "rc_mutex_lock rc = 0" "rc_mutex_unlock rc = 0" "gr_all_graph_completed_event (ho_graphs h graph) = Some e"
  shows "h' = h \<or> h' = upd_graph graph (\<lambda>x. x\<lparr>gr_all_graph_completed_event := Some e\<rparr>) h
      \<or> evt_is_set e \<and> h' = upd_graph graph (\<lambda>x. x\<lparr>gr_all_graph_completed_event := Some (e\<lparr>evt_is_set := False\<rparr>)\<rparr>) h"
    and "status = VX_SUCCESS \<Longrightarrow> evt_is_set e"
  using assms
  by (auto simp: vxWaitGraph_def tivxEventWait_def tivxEventWait_loop.simps Let_def split: if_splits)

end
