(* ===== verification/Graph_Run.thy ===== *)
theory Graph_Run
  imports Graph_Schedule
begin

text \<open>
  The executions of a graph in the queued modes, as the steps that the threads of the host take under
  the lock of the graph: the application schedules and waits, the thread of the host target counts
  the leaf nodes that have completed (\<open>leaf_completed\<close>) and then, outside the lock, starts the
  requests that it took over. That thread is the only one that counts leaves (the commands
  \<open>TIVX_CMD_NODE_USER_CALLBACK\<close> all go to \<open>TIVX_TARGET_HOST\<close>), so it has handed back the requests that it
  carries before it counts another leaf. A leaf completes only in an instance that runs.
\<close>

section \<open>Steps\<close>

text \<open>The requests that the host target carries, those made so far, and the executions and leaf nodes
  completed so far.\<close>

record graph_run =
  gn_host :: host
  gn_carried :: uint32
  gn_requested :: nat
  gn_done :: nat
  gn_leaves :: nat

definition runs :: "host \<Rightarrow> uintptr \<Rightarrow> nat \<Rightarrow> bool" where
  "runs h graph p \<longleftrightarrow> p < depth_of h graph \<and> p \<notin> set (free_pids h graph)"

inductive graph_step :: "posix_rc \<Rightarrow> ref_callbacks \<Rightarrow> platform \<Rightarrow> uintptr \<Rightarrow> graph_run \<Rightarrow> graph_run \<Rightarrow> bool"
  for rc cb pl graph
where
  schedule: "ownGraphScheduleGraph rc pl now (gn_host s) graph n = (h', status) \<Longrightarrow>
     graph_step rc cb pl graph s (s\<lparr>gn_host := h', gn_requested := gn_requested s + unat n\<rparr>)"
| leaf: "gn_carried s = 0 \<Longrightarrow> runs (gn_host s) graph p \<Longrightarrow>
     leaf_completed rc cb time (gn_host s) graph (of_nat p) = (h', fin, c) \<Longrightarrow>
     graph_step rc cb pl graph s (s\<lparr>gn_host := h', gn_carried := c,
       gn_done := gn_done s + (if fin then 1 else 0), gn_leaves := Suc (gn_leaves s)\<rparr>)"
| resume: "gn_carried s \<noteq> 0 \<Longrightarrow>
     ownGraphScheduleGraph rc pl now (gn_host s) graph (gn_carried s) = (h', status) \<Longrightarrow>
     graph_step rc cb pl graph s (s\<lparr>gn_host := h', gn_carried := 0\<rparr>)"
| wait: "vxWaitGraph rc [] id (gn_host s) graph = Some (h', status) \<Longrightarrow>
     graph_step rc cb pl graph s (s\<lparr>gn_host := h'\<rparr>)"
| abandon: "graph_step rc cb pl graph s (s\<lparr>gn_host := ownSetGraphState (gn_host s) graph pid VX_GRAPH_STATE_ABANDONED\<rparr>)"
| elsewhere: "kept (gn_host s) graph h' \<Longrightarrow> graph_step rc cb pl graph s (s\<lparr>gn_host := h'\<rparr>)"

inductive_cases graph_step_cases: "graph_step rc cb pl graph s s'"

text \<open>A verified graph before its first execution.\<close>

definition graph_ready :: "posix_rc \<Rightarrow> host \<Rightarrow> uintptr \<Rightarrow> bool" where
  "graph_ready rc h graph \<longleftrightarrow> wired h graph \<and> free_ok h graph \<and> ownReferenceLock rc h graph = VX_SUCCESS
     \<and> gr_schedule_mode (ho_graphs h graph) \<noteq> VX_GRAPH_SCHEDULE_MODE_NORMAL
     \<and> gr_num_leaf_nodes (ho_graphs h graph) \<noteq> 0
     \<and> set (free_pids h graph) = {..< depth_of h graph}
     \<and> gr_submitted_count (ho_graphs h graph) = 0 \<and> gr_schedule_pending_count (ho_graphs h graph) = 0
     \<and> gr_all_graph_completed_event (ho_graphs h graph) \<noteq> None
     \<and> (\<forall>p < depth_of h graph. leaf_count h graph p = 0)"

definition first_run :: "host \<Rightarrow> graph_run" where
  "first_run h = \<lparr>gn_host = h, gn_carried = 0, gn_requested = 0, gn_done = 0, gn_leaves = 0\<rparr>"

section \<open>The invariant\<close>

abbreviation (input) submitted :: "host \<Rightarrow> uintptr \<Rightarrow> nat" where
  "submitted h graph \<equiv> unat (gr_submitted_count (ho_graphs h graph))"

abbreviation (input) pending :: "host \<Rightarrow> uintptr \<Rightarrow> nat" where
  "pending h graph \<equiv> unat (gr_schedule_pending_count (ho_graphs h graph))"

abbreviation (input) event_up :: "host \<Rightarrow> uintptr \<Rightarrow> bool" where
  "event_up h graph \<equiv> evt_is_set (the (gr_all_graph_completed_event (ho_graphs h graph)))"

definition wired_run :: "posix_rc \<Rightarrow> host \<Rightarrow> uintptr \<Rightarrow> bool" where
  "wired_run rc h graph \<longleftrightarrow> wired h graph \<and> free_ok h graph \<and> ownReferenceLock rc h graph = VX_SUCCESS
     \<and> gr_schedule_mode (ho_graphs h graph) \<noteq> VX_GRAPH_SCHEDULE_MODE_NORMAL
     \<and> gr_all_graph_completed_event (ho_graphs h graph) \<noteq> None"

definition counted :: "host \<Rightarrow> uintptr \<Rightarrow> nat \<Rightarrow> bool" where
  "counted h graph m \<longleftrightarrow> submitted h graph + length (free_pids h graph) = depth_of h graph
     \<and> (pending h graph \<noteq> 0 \<longrightarrow> free_pids h graph = [])
     \<and> (event_up h graph \<longrightarrow> submitted h graph = 0 \<and> pending h graph = 0 \<and> m = 0)"

definition leaves_ok :: "host \<Rightarrow> uintptr \<Rightarrow> bool" where
  "leaves_ok h graph \<longleftrightarrow> (\<forall>p < depth_of h graph. leaf_count h graph p < gr_num_leaf_nodes (ho_graphs h graph)
     \<and> (p \<in> set (free_pids h graph) \<longrightarrow> leaf_count h graph p = 0))"

definition leaf_sum :: "host \<Rightarrow> uintptr \<Rightarrow> nat" where
  "leaf_sum h graph = (\<Sum>p < depth_of h graph. unat (leaf_count h graph p))"

definition run_inv :: "posix_rc \<Rightarrow> uintptr \<Rightarrow> graph_run \<Rightarrow> bool" where
  "run_inv rc graph s \<longleftrightarrow> (let h = gn_host s in wired_run rc h graph
     \<and> counted h graph (unat (gn_carried s)) \<and> leaves_ok h graph
     \<and> gn_requested s = gn_done s + submitted h graph + pending h graph + unat (gn_carried s)
     \<and> gn_leaves s = unat (gr_num_leaf_nodes (ho_graphs h graph)) * gn_done s + leaf_sum h graph)"

lemmas run_inv_defs = run_inv_def Let_def

lemma working_posix: "rc_mutex_lock rc = 0 \<Longrightarrow> evt_is_set (the (fst (tivxEventClear rc (Some e)))) = False"
  "fst (tivxEventClear rc ev) \<noteq> None \<longleftrightarrow> ev \<noteq> None" "fst (tivxEventPost rc 0 ev) \<noteq> None \<longleftrightarrow> ev \<noteq> None"
  by (auto simp: tivxEventClear_def tivxEventPost_def split: option.splits)

lemma kept_inv:
  assumes "kept (gn_host s) graph h'" "run_inv rc graph s"
  shows "run_inv rc graph (s\<lparr>gn_host := h'\<rparr>)"
proof -
  note k = kept_fields [OF assms(1)] and s = same_wiring_fields [OF kept_fields(1) [OF assms(1)]]
  note f = free_same [OF k(2) s(1)]
  have "leaf_sum h' graph = leaf_sum (gn_host s) graph"
    using k(6) s(1) by (simp add: leaf_sum_def)
  then show ?thesis
    using assms(2) kept_wired [OF assms(1)] s f k
    by (simp add: run_inv_defs wired_run_def counted_def leaves_ok_def)
qed

lemma event_inv:
  assumes "run_inv rc graph s" "evt_is_set e' \<longrightarrow> event_up (gn_host s) graph"
  shows "run_inv rc graph (s\<lparr>gn_host := upd_graph graph (\<lambda>x. x\<lparr>gr_all_graph_completed_event := Some e'\<rparr>) (gn_host s)\<rparr>)"
proof -
  let ?f = "\<lambda>x. x\<lparr>gr_all_graph_completed_event := Some e'\<rparr>" and ?h = "gn_host s"
  have ff: "fixed_fields (?f x) = fixed_fields x" for x by (simp add: fixed_fields_def)
  note m = upd_graph_moves [of ?f ?h graph, OF ff]
  note s = same_wiring_fields [OF m(1)]
  note f = free_same [of "upd_graph graph ?f ?h" graph ?h]
  have "leaf_sum (upd_graph graph ?f ?h) graph = leaf_sum ?h graph" using m(2,3) by (simp add: leaf_sum_def)
  then show ?thesis
    using assms same_wiring_wired [OF m(1)] s(9) f m(2,3)
    by (simp add: run_inv_defs wired_run_def counted_def leaves_ok_def)
qed

text \<open>Scheduling when \<open>k\<close> of the outstanding requests are not yet with the graph.\<close>

lemma schedule_inv:
  assumes inv: "wired_run rc h graph" "counted h graph c" "leaves_ok h graph"
    and rc: "rc_mutex_lock rc = 0" and le: "unat n + pending h graph < 2 ^ 32"
    and run: "ownGraphScheduleGraph rc pl now h graph n = (h', status)"
    and carried: "c' = 0 \<or> c' = c"
  shows "wired_run rc h' graph \<and> counted h' graph c' \<and> leaves_ok h' graph
    \<and> submitted h' graph + pending h' graph = submitted h graph + pending h graph + unat n
    \<and> leaf_sum h' graph = leaf_sum h graph
    \<and> gr_num_leaf_nodes (ho_graphs h' graph) = gr_num_leaf_nodes (ho_graphs h graph)"
proof -
  define tot where "tot = n + gr_schedule_pending_count (ho_graphs h graph)"
  define m where "m = min (unat tot) (length (free_pids h graph))"
  have tot: "unat tot = unat n + pending h graph"
    unfolding tot_def using le by (simp add: unat_word_ariths)
  have w: "wired h graph" "free_ok h graph" "ownReferenceLock rc h graph = VX_SUCCESS"
    "queued_mode (ho_graphs h graph)"
    using inv(1) by (simp_all add: wired_run_def queued_mode_def)
  obtain h1 st where "ownGraphScheduleGraph rc pl now h graph n
      = (upd_graph graph (\<lambda>g. g\<lparr>gr_schedule_pending_count := tot - of_nat m\<rparr>) h1, st)" and s: "started rc h graph m h1"
    using schedule_graph_ok [OF w(1,2) rc w(3,4) tot_def m_def] by metis
  then have h': "h' = upd_graph graph (\<lambda>g. g\<lparr>gr_schedule_pending_count := tot - of_nat m\<rparr>) h1" using run by simp
  let ?f = "\<lambda>g. g\<lparr>gr_schedule_pending_count := tot - of_nat m\<rparr>"
  have ff: "fixed_fields (?f x) = fixed_fields x" for x by (simp add: fixed_fields_def)
  note u = upd_graph_moves [of ?f h1 graph, OF ff, folded h']
  have s': "same_wiring h graph h1" "free_ok h1 graph" "free_pids h1 graph = drop m (free_pids h graph)"
    "gr_submitted_count (ho_graphs h1 graph) = gr_submitted_count (ho_graphs h graph) + of_nat m"
    "\<And>q. q < depth_of h graph \<Longrightarrow> leaf_count h1 graph q = leaf_count h graph q"
    "gr_all_graph_completed_event (ho_graphs h1 graph) = (if m = 0 then gr_all_graph_completed_event (ho_graphs h graph)
          else fst (tivxEventClear rc (gr_all_graph_completed_event (ho_graphs h graph))))"
    using s by (simp_all add: started_def)
  have sw: "same_wiring h graph h'" using same_wiring_trans [OF s'(1) u(1)] .
  note sf = same_wiring_fields [OF sw] and sf1 = same_wiring_fields [OF s'(1)]
  have fp: "free_pids h' graph = drop m (free_pids h graph)" "free_ok h' graph"
    using free_same [of h' graph h1] u(3) s'(2,3) by simp_all
  have lc: "leaf_count h' graph q = leaf_count h graph q" if "q < depth_of h graph" for q
    using u(2) s'(5) [OF that] by simp
  have sub_le: "submitted h graph + length (free_pids h graph) = depth_of h graph" "depth_of h graph < 16"
    using inv(2) w(1) by (simp_all add: counted_def wired_def)
  have m_le: "m \<le> length (free_pids h graph)" "m \<le> unat tot" by (simp_all add: m_def)
  have sub: "submitted h' graph = submitted h graph + m"
    using u(3) s'(4) m_le sub_le by (simp add: unat_word_ariths unat_of_nat)
  have mm: "unat (of_nat m :: uint32) = m" using m_le sub_le by (simp add: unat_of_nat)
  then have pend: "pending h' graph = unat tot - m"
    using u(3) m_le(2) by (simp add: unat_sub word_le_nat_alt)
  have ev: "gr_all_graph_completed_event (ho_graphs h' graph) = gr_all_graph_completed_event (ho_graphs h1 graph)"
    using u(3) by simp
  have "wired_run rc h' graph"
    using inv(1) same_wiring_wired [OF sw] fp(2) sf(4,9) ev s'(6) working_posix(2)
    by (simp add: wired_run_def)
  moreover have "counted h' graph c'"
  proof -
    have "pending h' graph \<noteq> 0 \<longrightarrow> free_pids h' graph = []" using pend fp(1) by (auto simp: m_def min_def)
    moreover have "submitted h' graph = 0 \<and> pending h' graph = 0 \<and> c' = 0" if "event_up h' graph"
    proof -
      have "m = 0"
        using that ev s'(6) working_posix(1) [OF rc] inv(1) by (auto simp: wired_run_def split: if_splits)
      then have *: "submitted h graph = 0" "pending h graph = 0" "c = 0"
        using that ev s'(6) inv(2) by (simp_all add: counted_def)
      then have "0 < length (free_pids h graph)" using sub_le w(1) by (simp add: wired_def)
      with \<open>m = 0\<close> have "unat tot = 0" unfolding m_def min_def by (simp split: if_splits)
      then show ?thesis using sub pend \<open>m = 0\<close> * carried by auto
    qed
    ultimately show ?thesis using sub sub_le m_le fp(1) sf(1) by (simp add: counted_def)
  qed
  moreover have "leaves_ok h' graph"
    using inv(3) lc fp(1) sf(1,3) by (auto simp: leaves_ok_def dest: in_set_dropD)
  moreover have "leaf_sum h' graph = leaf_sum h graph" using lc sf(1) by (simp add: leaf_sum_def)
  moreover have "submitted h' graph + pending h' graph = submitted h graph + pending h graph + unat n"
    using sub pend m_le(2) tot by simp
  ultimately show ?thesis using sf(3) by blast
qed

lemma leaf_sum_change:
  assumes "p < depth_of h graph" "depth_of h' graph = depth_of h graph"
    and "\<And>q. q < depth_of h graph \<Longrightarrow> q \<noteq> p \<Longrightarrow> leaf_count h' graph q = leaf_count h graph q"
  shows "leaf_sum h' graph + unat (leaf_count h graph p) = leaf_sum h graph + unat (leaf_count h' graph p)"
proof -
  have *: "leaf_sum k graph = unat (leaf_count k graph p) + (\<Sum>q \<in> {..< depth_of h graph} - {p}. unat (leaf_count k graph q))"
    if "depth_of k graph = depth_of h graph" for k
    unfolding leaf_sum_def that using assms(1) by (intro sum.remove) auto
  have "(\<Sum>q \<in> {..< depth_of h graph} - {p}. unat (leaf_count h' graph q))
      = (\<Sum>q \<in> {..< depth_of h graph} - {p}. unat (leaf_count h graph q))"
    using assms(3) by (intro sum.cong) auto
  then show ?thesis using * [OF refl] * [OF assms(2)] by simp
qed

lemma running_submitted:
  assumes "wired_run rc h graph" "counted h graph c" "runs h graph p"
  shows "0 < submitted h graph" "length (free_pids h graph) < 16"
proof -
  have "set (free_pids h graph) \<subset> {..< depth_of h graph}"
    using assms(1,3) by (auto simp: wired_run_def free_ok_def runs_def)
  then have "card (set (free_pids h graph)) < depth_of h graph"
    using psubset_card_mono [of "{..< depth_of h graph}"] by simp
  moreover have "card (set (free_pids h graph)) = length (free_pids h graph)"
    using assms(1) by (intro distinct_card) (simp add: wired_run_def free_ok_def)
  ultimately have *: "length (free_pids h graph) < depth_of h graph" by simp
  then show "0 < submitted h graph" using assms(2) by (simp add: counted_def)
  show "length (free_pids h graph) < 16" using * assms(1) by (simp add: wired_run_def wired_def)
qed

lemma leaf_inv:
  assumes inv: "run_inv rc graph s" and rc: "rc_mutex_lock rc = 0" and c0: "gn_carried s = 0"
    and p: "runs (gn_host s) graph p"
    and run: "leaf_completed rc cb time (gn_host s) graph (of_nat p) = (h', fin, c)"
    and s': "s' = s\<lparr>gn_host := h', gn_carried := c, gn_done := gn_done s + (if fin then 1 else 0), gn_leaves := Suc (gn_leaves s)\<rparr>"
  shows "run_inv rc graph s' \<and> (fin \<and> gn_requested s' = gn_done s' \<longrightarrow> event_up h' graph)"
proof -
  let ?h = "gn_host s"
  have i: "wired_run rc ?h graph" "counted ?h graph 0" "leaves_ok ?h graph"
    "gn_requested s = gn_done s + submitted ?h graph + pending ?h graph"
    "gn_leaves s = unat (gr_num_leaf_nodes (ho_graphs ?h graph)) * gn_done s + leaf_sum ?h graph"
    using inv c0 by (simp_all add: run_inv_defs)
  have p': "p < depth_of ?h graph" "p \<notin> set (free_pids ?h graph)" using p by (simp_all add: runs_def)
  have w: "wired ?h graph" "free_ok ?h graph" "gr_schedule_mode (ho_graphs ?h graph) \<noteq> VX_GRAPH_SCHEDULE_MODE_NORMAL"
    "ownReferenceLock rc ?h graph = VX_SUCCESS" "gr_all_graph_completed_event (ho_graphs ?h graph) \<noteq> None"
    using i(1) by (simp_all add: wired_run_def)
  note sub0 = running_submitted [OF i(1,2) p]
  let ?n = "gr_num_leaf_nodes (ho_graphs ?h graph)"
  have lt: "leaf_count ?h graph p < ?n" using i(3) p'(1) by (simp add: leaves_ok_def)
  have up1: "unat (leaf_count ?h graph p + 1) = unat (leaf_count ?h graph p) + 1" by (rule unat_inc_below [OF lt])
  note lc = leaf_completed_ok [OF w(1,2) p' w(3,4) run]
  show ?thesis
  proof (cases "leaf_count ?h graph p + 1 = ?n")
    case False
    then have r: "\<not> fin" "c = 0" "same_wiring ?h graph h'"
      "moving_fields (ho_graphs h' graph) = moving_fields (ho_graphs ?h graph)"
      "\<And>q. q < depth_of ?h graph \<Longrightarrow> leaf_count h' graph q = (if q = p then leaf_count ?h graph p + 1 else leaf_count ?h graph q)"
      using lc by simp_all
    note sf = same_wiring_fields [OF r(3)]
    have mv: "gr_free_q (ho_graphs h' graph) = gr_free_q (ho_graphs ?h graph)"
      "gr_submitted_count (ho_graphs h' graph) = gr_submitted_count (ho_graphs ?h graph)"
      "gr_schedule_pending_count (ho_graphs h' graph) = gr_schedule_pending_count (ho_graphs ?h graph)"
      "gr_all_graph_completed_event (ho_graphs h' graph) = gr_all_graph_completed_event (ho_graphs ?h graph)"
      using r(4) by (simp_all add: moving_fields_def)
    note f = free_same [OF mv(1) sf(1)]
    have "leaf_sum h' graph = leaf_sum ?h graph + 1"
      using leaf_sum_change [of p ?h graph h'] p'(1) sf(1) r(5) up1 by simp
    moreover have "leaf_count ?h graph p + 1 < ?n"
      using False lt up1 by (simp add: word_less_nat_alt word_unat_eq_iff)
    then have "leaves_ok h' graph" using i(3) r(5) f(1) sf(1,3) p'(2) by (auto simp: leaves_ok_def)
    ultimately show ?thesis
      using i w r(1,2) s' mv f sf same_wiring_wired [OF r(3)] by (simp add: run_inv_defs wired_run_def counted_def)
  next
    case True
    then obtain h1 where r: "fin" "same_wiring ?h graph h1"
      "moving_fields (ho_graphs h1 graph) = moving_fields (ho_graphs ?h graph)"
      "\<And>q. q < depth_of ?h graph \<Longrightarrow> leaf_count h1 graph q = (if q = p then 0 else leaf_count ?h graph q)"
      and cm: "completed rc h1 graph p h' c"
      using lc by auto
    have mv: "gr_free_q (ho_graphs h1 graph) = gr_free_q (ho_graphs ?h graph)"
      "gr_submitted_count (ho_graphs h1 graph) = gr_submitted_count (ho_graphs ?h graph)"
      "gr_schedule_pending_count (ho_graphs h1 graph) = gr_schedule_pending_count (ho_graphs ?h graph)"
      "gr_all_graph_completed_event (ho_graphs h1 graph) = gr_all_graph_completed_event (ho_graphs ?h graph)"
      using r(3) by (simp_all add: moving_fields_def)
    have c: "same_wiring h1 graph h'" "free_ok h' graph" "free_pids h' graph = free_pids h1 graph @ [p]"
      "c = gr_schedule_pending_count (ho_graphs h1 graph)"
      "gr_submitted_count (ho_graphs h' graph) = gr_submitted_count (ho_graphs h1 graph) - 1"
      "gr_schedule_pending_count (ho_graphs h' graph) = 0"
      "\<And>q. q < depth_of h1 graph \<Longrightarrow> leaf_count h' graph q = leaf_count h1 graph q"
      "gr_all_graph_completed_event (ho_graphs h' graph) =
         (if gr_submitted_count (ho_graphs h' graph) = 0 \<and> c = 0
          then fst (tivxEventPost rc 0 (gr_all_graph_completed_event (ho_graphs h1 graph)))
          else gr_all_graph_completed_event (ho_graphs h1 graph))"
      using cm by (simp_all add: completed_def)
    have sw: "same_wiring ?h graph h'" using same_wiring_trans [OF r(2) c(1)] .
    note sf = same_wiring_fields [OF sw] and s1 = same_wiring_fields [OF r(2)]
    have fp: "free_pids h' graph = free_pids ?h graph @ [p]" using c(3) free_same [OF mv(1) s1(1)] by simp
    have leaf': "leaf_count h' graph q = (if q = p then 0 else leaf_count ?h graph q)" if "q < depth_of ?h graph" for q
      using c(7) r(4) s1(1) that by simp
    have sub: "submitted h' graph = submitted ?h graph - 1"
      using c(5) mv(2) sub0(1) unat_dec_pos [of "gr_submitted_count (ho_graphs ?h graph)"] by (simp add: word_less_nat_alt)
    have pend: "pending h' graph = 0" "unat c = pending ?h graph" using c(4,6) mv(3) by simp_all
    have last: "gr_submitted_count (ho_graphs h' graph) = 0 \<and> c = 0 \<Longrightarrow> event_up h' graph"
      using c(8) mv(4) w(5) rc by (auto simp: tivxEventPost_def)
    have up: "submitted h' graph = 0 \<and> c = 0" if "event_up h' graph"
    proof (rule ccontr)
      assume "\<not> (submitted h' graph = 0 \<and> c = 0)"
      then have "\<not> (gr_submitted_count (ho_graphs h' graph) = 0 \<and> c = 0)" by auto
      then have "event_up ?h graph" using that c(8) mv(4) by (simp only: if_False)
      then show False using i(2) sub0(1) by (simp add: counted_def)
    qed
    have "leaf_sum h' graph + unat (leaf_count ?h graph p) = leaf_sum ?h graph"
      using leaf_sum_change [of p ?h graph h'] p'(1) sf(1) leaf' by simp
    then have leaves: "gn_leaves s' = unat ?n * gn_done s' + leaf_sum h' graph"
      using i(5) r(1) s' True up1 by simp
    have "wired_run rc h' graph"
      using w same_wiring_wired [OF sw w(1)] c(2,8) mv(4) sf(4,9) working_posix(3) by (simp add: wired_run_def)
    moreover have "counted h' graph (unat c)"
      using i(2) fp sub sub0 pend(1) sf(1) up by (auto simp: counted_def)
    moreover have "leaves_ok h' graph"
      using i(3) leaf' lt fp sf(1,3) by (auto simp: leaves_ok_def word_gt_0)
    moreover have req: "gn_requested s' = gn_done s' + submitted h' graph + pending h' graph + unat c"
      using i(4) sub sub0(1) pend s' r(1) by simp
    moreover have "event_up h' graph" if "gn_requested s' = gn_done s'"
      using that req last by (simp add: unat_eq_0)
    ultimately show ?thesis using leaves s' sf(3) by (simp add: run_inv_defs)
  qed
qed

lemma ready_inv:
  assumes "graph_ready rc h graph" "\<not> event_up h graph"
  shows "run_inv rc graph (first_run h)"
proof -
  have "distinct (free_pids h graph)" "set (free_pids h graph) = {..< depth_of h graph}"
    using assms(1) by (auto simp: graph_ready_def free_ok_def)
  then have "length (free_pids h graph) = depth_of h graph"
    using distinct_card by fastforce
  then show ?thesis
    using assms by (auto simp: run_inv_defs first_run_def wired_run_def counted_def leaves_ok_def leaf_sum_def
        graph_ready_def word_gt_0)
qed

lemma step_requested: "graph_step rc cb pl graph s s' \<Longrightarrow> gn_requested s \<le> gn_requested s'"
  by (erule graph_step_cases) simp_all

lemma step_inv:
  assumes "graph_step rc cb pl graph s s'" "run_inv rc graph s"
    and rc: "rc_mutex_lock rc = 0" "rc_mutex_unlock rc = 0" and "gn_requested s' < 2 ^ 32"
  shows "run_inv rc graph s'"
  using assms(1)
proof (cases rule: graph_step.cases)
  case (schedule now n h' status)
  have i: "wired_run rc (gn_host s) graph" "counted (gn_host s) graph (unat (gn_carried s))" "leaves_ok (gn_host s) graph"
    using assms(2) by (simp_all add: run_inv_defs)
  have "unat n + pending (gn_host s) graph < 2 ^ 32"
    using assms(2,5) schedule(1) by (simp add: run_inv_defs)
  from schedule_inv [OF i rc(1) this schedule(2) disjI2 [OF refl]] show ?thesis
    using assms(2) schedule(1) by (simp add: run_inv_defs)
next
  case (leaf p time h' fin c)
  from leaf_inv [OF assms(2) rc(1) leaf(2,3,4,1)] show ?thesis by blast
next
  case (resume now h' status)
  have i: "wired_run rc (gn_host s) graph" "counted (gn_host s) graph (unat (gn_carried s))" "leaves_ok (gn_host s) graph"
    using assms(2) by (simp_all add: run_inv_defs)
  have "unat (gn_carried s) + pending (gn_host s) graph < 2 ^ 32"
    using assms(2,5) resume(1) by (simp add: run_inv_defs)
  from schedule_inv [OF i rc(1) this resume(3) disjI1 [OF refl]] show ?thesis
    using assms(2) resume(1) by (simp add: run_inv_defs)
next
  case (wait h' status)
  obtain e where e: "gr_all_graph_completed_event (ho_graphs (gn_host s) graph) = Some e"
    using assms(2) by (auto simp: run_inv_defs wired_run_def)
  note w = wait_graph_at_once(1) [OF wait(2) rc e]
  then show ?thesis
  proof (elim disjE)
    assume "h' = gn_host s" then show ?thesis using wait(1) assms(2) by simp
  next
    assume "h' = upd_graph graph (\<lambda>x. x\<lparr>gr_all_graph_completed_event := Some e\<rparr>) (gn_host s)"
    then show ?thesis using wait(1) event_inv [OF assms(2), of e] e by simp
  next
    assume "evt_is_set e \<and> h' = upd_graph graph (\<lambda>x. x\<lparr>gr_all_graph_completed_event := Some (e\<lparr>evt_is_set := False\<rparr>)\<rparr>) (gn_host s)"
    then show ?thesis using wait(1) event_inv [OF assms(2), of "e\<lparr>evt_is_set := False\<rparr>"] by simp
  qed
next
  case (abandon pid)
  have "wired (gn_host s) graph" using assms(2) by (simp add: run_inv_defs wired_run_def)
  from kept_inv [OF set_graph_state_kept [OF this] assms(2)] show ?thesis using abandon by simp
next
  case (elsewhere h')
  from kept_inv [OF elsewhere(2) assms(2)] show ?thesis using elsewhere(1) by simp
qed

lemma run_inv_reachable:
  assumes "(graph_step rc cb pl graph)\<^sup>*\<^sup>* s0 s" "run_inv rc graph s0"
    and "rc_mutex_lock rc = 0" "rc_mutex_unlock rc = 0" "gn_requested s < 2 ^ 32"
  shows "run_inv rc graph s"
  using assms(1,5)
proof (induction rule: rtranclp_induct)
  case base
  then show ?case using assms(2) by simp
next
  case (step s s')
  then show ?case using step_requested [OF step(2)] step_inv [OF step(2) _ assms(3,4)] by simp
qed


section \<open>Properties\<close>

lemma card_running:
  assumes "wired_run rc h graph" "counted h graph c"
  shows "submitted h graph = card {p. runs h graph p}"
proof -
  have sub: "set (free_pids h graph) \<subseteq> {..< depth_of h graph}" and d: "distinct (free_pids h graph)"
    using assms(1) by (simp_all add: wired_run_def free_ok_def)
  have "{p. runs h graph p} = {..< depth_of h graph} - set (free_pids h graph)" by (auto simp: runs_def)
  then have "card {p. runs h graph p} = depth_of h graph - length (free_pids h graph)"
    using sub d by (simp add: card_Diff_subset distinct_card)
  then show ?thesis using assms(2) by (auto simp: counted_def)
qed

text \<open>C5: from a verified graph in a queued mode, whatever the threads do and in whatever order: every
  execution that was requested is completed, runs in an instance of its own, is pending or is carried
  by the host target; the instances that run are those that are not in the queue of free ones; nothing
  is pending while an instance is free; every completed execution has had as many leaf completions as
  the graph has leaf nodes; and a wait for the graph succeeds only when no requested execution is
  left.\<close>

theorem graph_executions_exact:
  assumes "graph_ready rc h graph" "\<not> event_up h graph"
    and "rc_mutex_lock rc = 0" "rc_mutex_unlock rc = 0"
    and "(graph_step rc cb pl graph)\<^sup>*\<^sup>* (first_run h) s" "gn_requested s < 2 ^ 32"
  shows "gn_requested s = gn_done s + unat (gr_submitted_count (ho_graphs (gn_host s) graph))
      + unat (gr_schedule_pending_count (ho_graphs (gn_host s) graph)) + unat (gn_carried s)
    \<and> unat (gr_submitted_count (ho_graphs (gn_host s) graph)) = card {p. runs (gn_host s) graph p}
    \<and> distinct (free_pids (gn_host s) graph)
    \<and> (gr_schedule_pending_count (ho_graphs (gn_host s) graph) \<noteq> 0 \<longrightarrow>
         (\<forall>p < depth_of (gn_host s) graph. runs (gn_host s) graph p))
    \<and> gn_leaves s = unat (gr_num_leaf_nodes (ho_graphs (gn_host s) graph)) * gn_done s
        + (\<Sum>p < depth_of (gn_host s) graph. unat (leaf_count (gn_host s) graph p))
    \<and> (\<forall>h'. vxWaitGraph rc [] id (gn_host s) graph = Some (h', VX_SUCCESS) \<longrightarrow> gn_requested s = gn_done s)"
proof -
  have inv: "run_inv rc graph s"
    using run_inv_reachable [OF assms(5) ready_inv [OF assms(1,2)] assms(3,4,6)] .
  let ?h = "gn_host s"
  have i: "wired_run rc ?h graph" "counted ?h graph (unat (gn_carried s))"
    "gn_requested s = gn_done s + submitted ?h graph + pending ?h graph + unat (gn_carried s)"
    "gn_leaves s = unat (gr_num_leaf_nodes (ho_graphs ?h graph)) * gn_done s + leaf_sum ?h graph"
    using inv by (simp_all add: run_inv_defs)
  have "distinct (free_pids ?h graph)" using i(1) by (simp add: wired_run_def free_ok_def)
  moreover have "\<forall>p < depth_of ?h graph. runs ?h graph p" if "gr_schedule_pending_count (ho_graphs ?h graph) \<noteq> 0"
    using i(2) that by (simp add: counted_def runs_def unat_eq_0)
  moreover have "gn_requested s = gn_done s" if w: "vxWaitGraph rc [] id ?h graph = Some (h', VX_SUCCESS)" for h'
  proof -
    obtain e where e: "gr_all_graph_completed_event (ho_graphs ?h graph) = Some e"
      using i(1) by (auto simp: wired_run_def)
    have "event_up ?h graph" using wait_graph_at_once(2) [OF w assms(3,4) e] e by simp
    then show ?thesis using i(2,3) by (simp add: counted_def)
  qed
  ultimately show ?thesis using i(3,4) card_running [OF i(1,2)] unfolding leaf_sum_def by blast
qed

text \<open>C6: the completion of the last outstanding execution, and no other step, brings the number of
  completed executions up to that of the requested ones; it posts the event, so that a thread that
  waits for the graph wakes up.\<close>

theorem last_completion_wakes:
  assumes "graph_ready rc h graph" "\<not> event_up h graph"
    and "rc_mutex_lock rc = 0" "rc_mutex_unlock rc = 0"
    and "(graph_step rc cb pl graph)\<^sup>*\<^sup>* (first_run h) s" "gn_requested s < 2 ^ 32"
    and "graph_step rc cb pl graph s s'" "gn_done s < gn_done s'" "gn_requested s' = gn_done s'"
  shows "\<exists>e. tivxEventWait rc ws (gr_all_graph_completed_event (ho_graphs (gn_host s') graph)) timeout
    = Some (Some e, VX_SUCCESS)"
proof -
  have inv: "run_inv rc graph s"
    using run_inv_reachable [OF assms(5) ready_inv [OF assms(1,2)] assms(3,4,6)] .
  from assms(7) have "run_inv rc graph s' \<and> event_up (gn_host s') graph"
  proof (cases rule: graph_step.cases)
    case (leaf p time h' fin c)
    have "fin" using assms(8) leaf(1) by (auto split: if_splits)
    then show ?thesis using leaf_inv [OF inv assms(3) leaf(2,3,4,1)] assms(9) leaf(1) by simp
  qed (use assms(8) in simp_all)
  then obtain e where "gr_all_graph_completed_event (ho_graphs (gn_host s') graph) = Some e" "evt_is_set e"
    by (auto simp: run_inv_defs wired_run_def)
  then show ?thesis using event_wait_set [OF assms(3,4)] by simp
qed

section \<open>A graph with two instances\<close>

definition pipe_graph :: uintptr where "pipe_graph = 0x80200000"

definition pipe_queue :: tivx_queue where
  "pipe_queue = init_queue\<lparr>q_max_ele := 16, q_queue := [0, 1] @ replicate 14 0, q_cur_wr := 2, q_count := 2,
     q_context := Some \<lparr>ctx_object = 0, condGet_signals = 0, condPut_signals = 0\<rparr>\<rparr>"

definition inst_desc :: "nat \<Rightarrow> uint32 \<Rightarrow> tivx_obj_desc" where
  "inst_desc i pid = (init_desc sample_ids i TIVX_OBJ_DESC_GRAPH pipe_graph)
     \<lparr>od_body := B_Graph (zero_graph_desc\<lparr>gd_pipeline_id := pid\<rparr>)\<rparr>"

text \<open>The only node, at address 1, is head and leaf.\<close>

definition pipe_host :: host where
  "pipe_host = (host_of_links [])
     \<lparr>ho_sys := (sample_sys 0)\<lparr>sys_tbl := \<lparr>odt_table_base = [link_desc 0 ([], []), inst_desc 1 0, inst_desc 2 1],
                                           odt_last_alloc_index = 0\<rparr>\<rparr>,
      ho_refs := (\<lambda>_. zero_ref\<lparr>rf_type := VX_TYPE_GRAPH, rf_lock := Some 1\<rparr>),
      ho_graphs := (\<lambda>_. zero_graph\<lparr>gr_verified := True, gr_nodes := 1 # replicate 127 0, gr_num_nodes := 1,
        gr_head_nodes := 1 # replicate 7 0, gr_num_head_nodes := 1, gr_leaf_nodes := 1 # replicate 15 0,
        gr_num_leaf_nodes := 1, gr_state := VX_GRAPH_STATE_VERIFIED, gr_pipeline_depth := 2,
        gr_obj_desc := [Some 1, Some 2] @ replicate 14 None, gr_free_q := pipe_queue,
        gr_schedule_mode := VX_GRAPH_SCHEDULE_MODE_QUEUE_AUTO,
        gr_all_graph_completed_event := Some \<lparr>evt_object = 0, evt_is_set = False, evt_signals = 0\<rparr>\<rparr>),
      ho_nodes := (\<lambda>_. zero_vnode\<lparr>vn_obj_desc := replicate 16 (Some 0)\<rparr>)\<rparr>"

lemma pipe_free: "free_pids pipe_host graph = [0, 1]" "queue_inv pipe_queue"
  by (simp_all add: free_pids_def pipe_host_def pipe_queue_def init_queue_def queue_elems_def ring_list_def
      queue_inv_def upt_rec)

lemma below_two: "p < 2 \<longleftrightarrow> p = 0 \<or> p = (1::nat)"
  by auto

lemma pipe_graph_fields:
  "depth_of pipe_host graph = 2" "inst pipe_host graph 0 = 1" "inst pipe_host graph (Suc 0) = 2"
  "graph_of (ho_sys pipe_host) (Suc 0) = zero_graph_desc" "graph_of (ho_sys pipe_host) 2 = zero_graph_desc\<lparr>gd_pipeline_id := 1\<rparr>"
  "gr_num_leaf_nodes (ho_graphs pipe_host graph) = 1" "nodes_of_graph (ho_graphs pipe_host graph) = [1]"
  "gr_schedule_mode (ho_graphs pipe_host graph) = VX_GRAPH_SCHEDULE_MODE_QUEUE_AUTO"
  "gr_submitted_count (ho_graphs pipe_host graph) = 0" "gr_schedule_pending_count (ho_graphs pipe_host graph) = 0"
  "gr_all_graph_completed_event (ho_graphs pipe_host graph) = Some \<lparr>evt_object = 0, evt_is_set = False, evt_signals = 0\<rparr>"
  "gr_free_q (ho_graphs pipe_host graph) = pipe_queue" "queue_cap pipe_queue = 16"
  "num_entries (sys_tbl (ho_sys pipe_host)) = 3" "gr_obj_desc (ho_graphs pipe_host graph) ! 0 = Some 1"
  "gr_obj_desc (ho_graphs pipe_host graph) ! Suc 0 = Some 2"
  by (simp_all add: pipe_host_def inst_def graph_of_def inst_desc_def zero_graph_desc_def nodes_of_graph_def
      zero_graph_def pipe_queue_def queue_cap_def)

lemma pipe_nodes: "k < 16 \<Longrightarrow> vn_obj_desc (ho_nodes pipe_host n) ! k = Some 0"
  by (simp add: pipe_host_def)

lemma pipe_wired: "wired pipe_host graph"
proof -
  have "{..< 2} = {0, Suc 0}" by auto
  then have "inst pipe_host graph ` {..< 2} = {1, 2}" by (simp add: pipe_graph_fields)
  then show ?thesis
    by (auto simp: wired_def pipe_graph_fields pipe_nodes below_two inj_on_def zero_graph_desc_def)
qed

lemma pipe_ready: "graph_ready posix_ok pipe_host graph" "\<not> event_up pipe_host graph" if "graph \<noteq> 0"
proof -
  have "{..< 2} = {0, Suc 0}" by auto
  then have "free_ok pipe_host graph" "set (free_pids pipe_host graph) = {..< depth_of pipe_host graph}"
    using pipe_free by (simp_all add: free_ok_def pipe_graph_fields)
  moreover have "leaf_count pipe_host graph p = 0" if "p < 2" for p
    using that by (auto simp: leaf_count_def below_two pipe_graph_fields zero_graph_desc_def)
  moreover have "ownReferenceLock posix_ok pipe_host graph = VX_SUCCESS"
    using that by (simp add: ownReferenceLock_def ref_mutex_def tivxMutexLock_def posix_ok_def pipe_host_def)
  ultimately show "graph_ready posix_ok pipe_host graph"
    using pipe_wired by (simp add: graph_ready_def pipe_graph_fields)
  show "\<not> event_up pipe_host graph" by (simp add: pipe_graph_fields)
qed

lemma posix_ok_works: "rc_mutex_lock posix_ok = 0" "rc_mutex_unlock posix_ok = 0"
  by (simp_all add: posix_ok_def)

text \<open>One execution is requested and its leaf completes.\<close>

lemma pipe_schedule:
  obtains h1 where "graph_step posix_ok no_callbacks sample_platform pipe_graph (first_run pipe_host)
      (\<lparr>gn_host = h1, gn_carried = 0, gn_requested = 1, gn_done = 0, gn_leaves = 0\<rparr>)"
    "run_inv posix_ok pipe_graph \<lparr>gn_host = h1, gn_carried = 0, gn_requested = 1, gn_done = 0, gn_leaves = 0\<rparr>"
    "runs h1 pipe_graph 0" "leaf_count h1 pipe_graph 0 = 0" "gr_num_leaf_nodes (ho_graphs h1 pipe_graph) = 1"
proof -
  have nz: "pipe_graph \<noteq> 0" by (simp add: pipe_graph_def)
  obtain h1 st where run: "ownGraphScheduleGraph posix_ok sample_platform (\<lambda>_. 0) pipe_host pipe_graph 1 = (h1, st)"
    by fastforce
  let ?s = "\<lparr>gn_host = h1, gn_carried = 0, gn_requested = 1, gn_done = 0, gn_leaves = 0\<rparr>"
  have step: "graph_step posix_ok no_callbacks sample_platform pipe_graph (first_run pipe_host) ?s"
    using graph_step.schedule [of posix_ok sample_platform _ "first_run pipe_host" pipe_graph 1] run
    by (simp add: first_run_def)
  have inv: "run_inv posix_ok pipe_graph ?s"
    using step_inv [OF step ready_inv [OF pipe_ready [OF nz]] posix_ok_works] by simp
  have r: "wired pipe_host pipe_graph" "free_ok pipe_host pipe_graph" "queued_mode (ho_graphs pipe_host pipe_graph)"
    "ownReferenceLock posix_ok pipe_host pipe_graph = VX_SUCCESS" "gr_schedule_pending_count (ho_graphs pipe_host pipe_graph) = 0"
    using pipe_ready(1) [OF nz] by (simp_all add: graph_ready_def queued_mode_def)
  obtain h2 where h1: "h1 = upd_graph pipe_graph (\<lambda>g. g\<lparr>gr_schedule_pending_count := 1 - of_nat 1\<rparr>) h2"
    and s: "started posix_ok pipe_host pipe_graph 1 h2"
    using schedule_graph_ok [OF r(1,2) posix_ok_works(1) r(4,3), of 1 1 1 sample_platform "\<lambda>_. 0"] r(5) run
    by (auto simp: pipe_free)
  have ff: "fixed_fields (x\<lparr>gr_schedule_pending_count := 1 - of_nat 1\<rparr>) = fixed_fields x" for x
    by (simp add: fixed_fields_def)
  note u = upd_graph_moves [of "\<lambda>g. g\<lparr>gr_schedule_pending_count := 1 - of_nat 1\<rparr>" h2 pipe_graph, OF ff, folded h1]
  have s': "same_wiring pipe_host pipe_graph h2" "free_pids h2 pipe_graph = [1]"
    "leaf_count h2 pipe_graph 0 = leaf_count pipe_host pipe_graph 0"
    using s by (simp_all add: started_def pipe_free pipe_graph_fields)
  note sf = same_wiring_fields [OF same_wiring_trans [OF s'(1) u(1)]]
  have "free_pids h1 pipe_graph = [1]" using free_same [of h1 pipe_graph h2] u(3) s'(2) by simp
  then have "runs h1 pipe_graph 0" using sf(1) pipe_graph_fields(1) [of pipe_graph] by (simp add: runs_def)
  moreover have "leaf_count h1 pipe_graph 0 = 0" using u(2) s'(3) by (simp add: leaf_count_def pipe_graph_fields zero_graph_desc_def)
  moreover have "gr_num_leaf_nodes (ho_graphs h1 pipe_graph) = 1" using sf(3) pipe_graph_fields(6) by simp
  ultimately show thesis using that step inv by blast
qed

theorem graph_executions_exact_witness:
  "\<exists>s. (graph_step posix_ok no_callbacks sample_platform pipe_graph)\<^sup>*\<^sup>* (first_run pipe_host) s \<and> gn_requested s = 1
     \<and> unat (gr_submitted_count (ho_graphs (gn_host s) pipe_graph)) = card {p. runs (gn_host s) pipe_graph p}"
proof -
  have nz: "pipe_graph \<noteq> 0" by (simp add: pipe_graph_def)
  obtain h1 where step: "graph_step posix_ok no_callbacks sample_platform pipe_graph (first_run pipe_host)
      (\<lparr>gn_host = h1, gn_carried = 0, gn_requested = 1, gn_done = 0, gn_leaves = 0\<rparr>)" by (rule pipe_schedule)
  let ?s = "\<lparr>gn_host = h1, gn_carried = 0, gn_requested = 1, gn_done = 0, gn_leaves = 0\<rparr>"
  have reach: "(graph_step posix_ok no_callbacks sample_platform pipe_graph)\<^sup>*\<^sup>* (first_run pipe_host) ?s"
    using step by (rule r_into_rtranclp)
  from graph_executions_exact [OF pipe_ready [OF nz] posix_ok_works this] reach show ?thesis
    by (intro exI [of _ ?s]) simp
qed

theorem last_completion_wakes_witness:
  "\<exists>s e. (graph_step posix_ok no_callbacks sample_platform pipe_graph)\<^sup>*\<^sup>* (first_run pipe_host) s
     \<and> gn_requested s = 1 \<and> gn_done s = 1
     \<and> tivxEventWait posix_ok [] (gr_all_graph_completed_event (ho_graphs (gn_host s) pipe_graph)) VX_TIMEOUT_WAIT_FOREVER
         = Some (Some e, VX_SUCCESS)"
proof -
  have nz: "pipe_graph \<noteq> 0" by (simp add: pipe_graph_def)
  obtain h1 where step: "graph_step posix_ok no_callbacks sample_platform pipe_graph (first_run pipe_host)
      (\<lparr>gn_host = h1, gn_carried = 0, gn_requested = 1, gn_done = 0, gn_leaves = 0\<rparr>)"
    and inv: "run_inv posix_ok pipe_graph \<lparr>gn_host = h1, gn_carried = 0, gn_requested = 1, gn_done = 0, gn_leaves = 0\<rparr>"
    and h1: "runs h1 pipe_graph 0" "leaf_count h1 pipe_graph 0 = 0" "gr_num_leaf_nodes (ho_graphs h1 pipe_graph) = 1"
    by (rule pipe_schedule)
  let ?s = "\<lparr>gn_host = h1, gn_carried = 0, gn_requested = 1, gn_done = 0, gn_leaves = 0\<rparr>"
  have reach: "(graph_step posix_ok no_callbacks sample_platform pipe_graph)\<^sup>*\<^sup>* (first_run pipe_host) ?s"
    using step by (rule r_into_rtranclp)
  obtain h2 fin c where run: "leaf_completed posix_ok no_callbacks 0 h1 pipe_graph (of_nat 0) = (h2, fin, c)"
    by (metis prod_cases3)
  have w: "wired h1 pipe_graph" "free_ok h1 pipe_graph" "ownReferenceLock posix_ok h1 pipe_graph = VX_SUCCESS"
    "gr_schedule_mode (ho_graphs h1 pipe_graph) \<noteq> VX_GRAPH_SCHEDULE_MODE_NORMAL"
    using inv by (simp_all add: run_inv_defs wired_run_def)
  have fin: fin
    using leaf_completed_ok [OF w(1,2) _ _ w(4,3) run] h1 by (simp add: runs_def)
  let ?t = "?s\<lparr>gn_host := h2, gn_carried := c, gn_done := 1, gn_leaves := 1\<rparr>"
  have leaf: "graph_step posix_ok no_callbacks sample_platform pipe_graph ?s ?t"
    using graph_step.leaf [of ?s pipe_graph 0 posix_ok no_callbacks 0 h2 fin c] run h1(1) fin by simp
  have "\<exists>e. tivxEventWait posix_ok [] (gr_all_graph_completed_event (ho_graphs (gn_host ?t) pipe_graph))
      VX_TIMEOUT_WAIT_FOREVER = Some (Some e, VX_SUCCESS)"
    by (rule last_completion_wakes [OF pipe_ready [OF nz] posix_ok_works reach _ leaf]) simp_all
  moreover have "(graph_step posix_ok no_callbacks sample_platform pipe_graph)\<^sup>*\<^sup>* (first_run pipe_host) ?t"
    using reach leaf by (rule rtranclp.rtrancl_into_rtrancl)
  ultimately show ?thesis by (intro exI [of _ ?t]) auto
qed


section \<open>Verification makes the graph ready\<close>

text \<open>The descriptors that the first loop allocates were free before, are apart from each other and
  leave those in use alone.\<close>

definition allocated :: "host \<Rightarrow> uintptr \<Rightarrow> nat list \<Rightarrow> host \<Rightarrow> bool" where
  "allocated h graph ps h' \<longleftrightarrow> table_wf (sys_tbl (ho_sys h')) \<and> ho_refs h' = ho_refs h \<and> ho_nodes h' = ho_nodes h
     \<and> num_entries (sys_tbl (ho_sys h')) = num_entries (sys_tbl (ho_sys h))
     \<and> (\<exists>ods. ho_graphs h' graph = (ho_graphs h graph)\<lparr>gr_obj_desc := ods\<rparr>
          \<and> length ods = length (gr_obj_desc (ho_graphs h graph))
          \<and> (\<forall>p. p \<notin> set ps \<longrightarrow> ods ! p = gr_obj_desc (ho_graphs h graph) ! p)
          \<and> (\<forall>p \<in> set ps. ods ! p \<noteq> None) \<and> inj_on (\<lambda>p. the (ods ! p)) (set ps)
          \<and> (\<forall>p \<in> set ps. the (ods ! p) < num_entries (sys_tbl (ho_sys h))
               \<and> od_type (sys_desc (ho_sys h) (the (ods ! p))) = TIVX_OBJ_DESC_INVALID
               \<and> od_type (sys_desc (ho_sys h') (the (ods ! p))) \<noteq> TIVX_OBJ_DESC_INVALID))
     \<and> (\<forall>j < num_entries (sys_tbl (ho_sys h)). od_type (sys_desc (ho_sys h) j) \<noteq> TIVX_OBJ_DESC_INVALID \<longrightarrow>
          sys_desc (ho_sys h') j = sys_desc (ho_sys h) j)"

lemma alloc_instances_ok:
  assumes "table_wf (sys_tbl (ho_sys h))" "distinct ps" "\<forall>p \<in> set ps. p < length (gr_obj_desc (ho_graphs h graph))"
    and "alloc_instances pf h graph ps = (h', status)"
  shows "if status = VX_SUCCESS then allocated h graph ps h'
    else status = VX_ERROR_NO_RESOURCES
      \<and> (\<forall>j < num_entries (sys_tbl (ho_sys h')). od_type (sys_desc (ho_sys h') j) \<noteq> TIVX_OBJ_DESC_INVALID)"
  using assms
proof (induction ps arbitrary: h)
  case Nil
  have "allocated h graph [] h"
    unfolding allocated_def using Nil.prems(1)
    by (intro conjI exI [of _ "gr_obj_desc (ho_graphs h graph)"]) simp_all
  then show ?case using Nil.prems(4) by simp
next
  case (Cons p ps)
  obtain t od where al: "ownObjDescAlloc pf (sys_tbl (ho_sys h)) TIVX_OBJ_DESC_GRAPH graph = (t, od)" by fastforce
  note a = alloc_desc [OF Cons.prems(1) _ al]
  let ?ods1 = "(gr_obj_desc (ho_graphs h graph))[p := od]"
  define h1 where "h1 = upd_graph graph (\<lambda>x. x\<lparr>gr_obj_desc := (gr_obj_desc x)[p := od]\<rparr>)
      (h\<lparr>ho_sys := (ho_sys h)\<lparr>sys_tbl := t\<rparr>\<rparr>)"
  have h1: "sys_tbl (ho_sys h1) = t" "ho_refs h1 = ho_refs h" "ho_nodes h1 = ho_nodes h"
    "ho_graphs h1 graph = (ho_graphs h graph)\<lparr>gr_obj_desc := ?ods1\<rparr>"
    by (simp_all add: h1_def upd_graph_def)
  show ?case
  proof (cases od)
    case None
    then have "h' = h1" "status = VX_ERROR_NO_RESOURCES"
      using Cons.prems(4) al by (simp_all add: h1_def)
    then show ?thesis using a None h1(1) by simp
  next
    case (Some i)
    have i: "table_wf t" "i < num_entries (sys_tbl (ho_sys h))"
      "od_type (sys_desc (ho_sys h) i) = TIVX_OBJ_DESC_INVALID"
      "odt_table_base t = (odt_table_base (sys_tbl (ho_sys h)))[i := init_desc pf i TIVX_OBJ_DESC_GRAPH graph]"
      using a Some by simp_all
    have rest: "alloc_instances pf h1 graph ps = (h', status)"
      using Cons.prems(4) al Some by (simp add: h1_def)
    have IH: "if status = VX_SUCCESS then allocated h1 graph ps h'
      else status = VX_ERROR_NO_RESOURCES
        \<and> (\<forall>j < num_entries (sys_tbl (ho_sys h')). od_type (sys_desc (ho_sys h') j) \<noteq> TIVX_OBJ_DESC_INVALID)"
      using Cons.IH [OF _ _ _ rest] Cons.prems(2,3) i(1) h1(1,4) by simp
    show ?thesis
    proof (cases "status = VX_SUCCESS")
      case False
      then show ?thesis using IH by simp
    next
      case True
      then have al1: "allocated h1 graph ps h'" using IH by simp
      let ?g1 = "ho_graphs h1 graph"
      obtain ods where r1: "ho_graphs h' graph = ?g1\<lparr>gr_obj_desc := ods\<rparr>" "length ods = length (gr_obj_desc ?g1)"
        "\<forall>q. q \<notin> set ps \<longrightarrow> ods ! q = gr_obj_desc ?g1 ! q" "\<forall>q \<in> set ps. ods ! q \<noteq> None"
        "inj_on (\<lambda>p. the (ods ! p)) (set ps)"
        "\<forall>q \<in> set ps. the (ods ! q) < num_entries (sys_tbl (ho_sys h1))
           \<and> od_type (sys_desc (ho_sys h1) (the (ods ! q))) = TIVX_OBJ_DESC_INVALID
           \<and> od_type (sys_desc (ho_sys h') (the (ods ! q))) \<noteq> TIVX_OBJ_DESC_INVALID"
        using al1 unfolding allocated_def by blast
      have r2: "table_wf (sys_tbl (ho_sys h'))" "ho_refs h' = ho_refs h1" "ho_nodes h' = ho_nodes h1"
        "num_entries (sys_tbl (ho_sys h')) = num_entries (sys_tbl (ho_sys h1))"
        "\<forall>j < num_entries (sys_tbl (ho_sys h1)). od_type (sys_desc (ho_sys h1) j) \<noteq> TIVX_OBJ_DESC_INVALID \<longrightarrow>
          sys_desc (ho_sys h') j = sys_desc (ho_sys h1) j"
        using al1 unfolding allocated_def by blast+
      have r: "table_wf (sys_tbl (ho_sys h'))" "ho_refs h' = ho_refs h" "ho_nodes h' = ho_nodes h"
        "num_entries (sys_tbl (ho_sys h')) = num_entries t"
        "ho_graphs h' graph = (ho_graphs h graph)\<lparr>gr_obj_desc := ods\<rparr>" "length ods = length ?ods1"
        "\<And>q. q \<notin> set ps \<Longrightarrow> ods ! q = ?ods1 ! q" "\<forall>q \<in> set ps. ods ! q \<noteq> None" "inj_on (\<lambda>p. the (ods ! p)) (set ps)"
        "\<And>q. q \<in> set ps \<Longrightarrow> the (ods ! q) < num_entries t \<and> od_type (desc_at t (the (ods ! q))) = TIVX_OBJ_DESC_INVALID
            \<and> od_type (sys_desc (ho_sys h') (the (ods ! q))) \<noteq> TIVX_OBJ_DESC_INVALID"
        "\<And>j. j < num_entries t \<Longrightarrow> od_type (desc_at t j) \<noteq> TIVX_OBJ_DESC_INVALID \<Longrightarrow> sys_desc (ho_sys h') j = desc_at t j"
        using r1 r2 unfolding h1 by simp_all
      have n: "num_entries t = num_entries (sys_tbl (ho_sys h))" using i(4) by simp
      have p: "ods ! p = Some i" using r(7) [of p] Cons.prems(2,3) Some by simp
      have ti: "od_type (desc_at t i) \<noteq> TIVX_OBJ_DESC_INVALID" "desc_at t i = init_desc pf i TIVX_OBJ_DESC_GRAPH graph"
        using i(2,4) by simp_all
      have other: "the (ods ! q) \<noteq> i" if "q \<in> set ps" for q using r(10) [OF that] ti(1) by auto
      have "od_type (sys_desc (ho_sys h) (the (ods ! q))) = TIVX_OBJ_DESC_INVALID" if "q \<in> set ps" for q
        using r(10) [OF that] other [OF that] i(4) by simp
      moreover have "sys_desc (ho_sys h') i = desc_at t i" using r(11) [of i] i(2) n ti(1) by simp
      moreover have "inj_on (\<lambda>q. the (ods ! q)) (set (p # ps))"
        using r(9) other Cons.prems(2) p by (auto simp: inj_on_def)
      moreover have "sys_desc (ho_sys h') j = sys_desc (ho_sys h) j"
        if "j < num_entries (sys_tbl (ho_sys h))" "od_type (sys_desc (ho_sys h) j) \<noteq> TIVX_OBJ_DESC_INVALID" for j
      proof -
        have "j \<noteq> i" using that(2) i(3) by auto
        then have "desc_at t j = sys_desc (ho_sys h) j" using i(4) by simp
        then show ?thesis using r(11) [of j] that n by simp
      qed
      moreover have "ods ! q = gr_obj_desc (ho_graphs h graph) ! q" if "q \<notin> set (p # ps)" for q
        using r(7) [of q] that by simp
      ultimately have "allocated h graph (p # ps) h'"
        unfolding allocated_def using r(1-6,8,10) p i(2,3) ti n by (intro conjI exI [of _ ods]) simp_all
      then show ?thesis using True by simp
    qed
  qed
qed


lemma init_instances_ok:
  assumes "depth_of h graph \<le> 16" "inj_on (inst h graph) {..< depth_of h graph}"
    and "\<forall>p < depth_of h graph. gr_obj_desc (ho_graphs h graph) ! p \<noteq> None \<and> inst h graph p < num_entries (sys_tbl (ho_sys h))"
    and "queue_inv (gr_free_q (ho_graphs h graph))" "queue_elems (gr_free_q (ho_graphs h graph)) = []"
    and "queue_cap (gr_free_q (ho_graphs h graph)) = 16" "k \<le> depth_of h graph"
    and "h' = foldl (init_instance graph) h [0..<k]"
  shows "ho_refs h' = ho_refs h \<and> ho_nodes h' = ho_nodes h
    \<and> num_entries (sys_tbl (ho_sys h')) = num_entries (sys_tbl (ho_sys h))
    \<and> (\<exists>q. ho_graphs h' graph = (ho_graphs h graph)\<lparr>gr_free_q := q\<rparr> \<and> queue_inv q \<and> queue_cap q = 16
         \<and> queue_elems q = map of_nat [0..<k])
    \<and> (\<forall>p < k. gd_pipeline_id (graph_of (ho_sys h') (inst h graph p)) = of_nat p
         \<and> gd_complete_leaf_nodes (graph_of (ho_sys h') (inst h graph p)) = 0)"
  using assms(7,8)
proof (induction k arbitrary: h')
  case 0
  then have "h' = h" by simp
  then show ?case using assms(4-6)
    by (intro conjI exI [of _ "gr_free_q (ho_graphs h graph)"]) simp_all
next
  case (Suc k)
  define h1 where "h1 = foldl (init_instance graph) h [0..<k]"
  have h': "h' = init_instance graph h1 k" using Suc.prems(2) by (simp add: h1_def)
  have k: "k < depth_of h graph" using Suc.prems(1) by simp
  from Suc.IH [of h1] k obtain q where IH: "ho_refs h1 = ho_refs h" "ho_nodes h1 = ho_nodes h"
    "num_entries (sys_tbl (ho_sys h1)) = num_entries (sys_tbl (ho_sys h))"
    "ho_graphs h1 graph = (ho_graphs h graph)\<lparr>gr_free_q := q\<rparr>" "queue_inv q" "queue_cap q = 16"
    "queue_elems q = map of_nat [0..<k]"
    "\<forall>p < k. gd_pipeline_id (graph_of (ho_sys h1) (inst h graph p)) = of_nat p
         \<and> gd_complete_leaf_nodes (graph_of (ho_sys h1) (inst h graph p)) = 0"
    by (force simp: h1_def [symmetric])
  let ?f = "\<lambda>d. d\<lparr>gd_pipeline_id := of_nat k, gd_state := VX_GRAPH_STATE_VERIFIED,
           gd_complete_leaf_nodes := 0, gd_exe_time_beg := (0, 0), gd_exe_time_end := (0, 0)\<rparr>"
  define h2 where "h2 = upd_gdesc (inst h graph k) ?f h1"
  have od: "gr_obj_desc (ho_graphs h1 graph) ! k = Some (inst h graph k)"
    using assms(3) k IH(4) by (auto simp: inst_def)
  have desc: "graph_of (ho_sys h2) (inst h graph p) = (if p = k then ?f (graph_of (ho_sys h1) (inst h graph p))
      else graph_of (ho_sys h1) (inst h graph p))" if "p < depth_of h graph" for p
    using assms(2,3) that k IH(3) unfolding h2_def by (auto simp: graph_of_upd inj_on_def)
  obtain q' where put: "osq_put q (of_nat k) = (q', VX_SUCCESS)" "queue_inv q'"
    "queue_elems q' = queue_elems q @ [of_nat k]" "queue_cap q' = queue_cap q"
    using osq.put_ok [OF IH(5), of "of_nat k"] IH(6,7) k assms(1) by auto
  have small: "unat (of_nat k :: uint32) = k" "unat (of_nat k :: uintptr) = k"
    using k assms(1) by (simp_all add: unat_of_nat)
  then have cast: "ucast (of_nat k :: uint32) = (of_nat k :: uintptr)"
    by (intro word_unat_eq_iff [THEN iffD2]) (simp add: unat_ucast32)
  have "h' = upd_graph graph (\<lambda>x. x\<lparr>gr_free_q := q'\<rparr>) h2"
    using desc [OF k] od put(1) small(1) k cast IH(4)
    by (simp add: h' init_instance_def Let_def h2_def [symmetric] ownGraphEnqueueFreeObjDesc_def word_less_nat_alt
        upd_graph_def) (simp add: h2_def)
  then have "ho_graphs h' graph = (ho_graphs h graph)\<lparr>gr_free_q := q'\<rparr>" "ho_refs h' = ho_refs h"
    "ho_nodes h' = ho_nodes h" "num_entries (sys_tbl (ho_sys h')) = num_entries (sys_tbl (ho_sys h))"
    "graph_of (ho_sys h') = graph_of (ho_sys h2)"
    using IH(1-4) by (simp_all add: upd_graph_def h2_def)
  moreover have "graph_of (ho_sys h2) (inst h graph p) = (if p = k then ?f (graph_of (ho_sys h1) (inst h graph p))
      else graph_of (ho_sys h1) (inst h graph p))" if "p < Suc k" for p
    using desc [of p] that k by simp
  moreover have "queue_elems q' = map of_nat [0..<Suc k]" using put(3) IH(7) by simp
  ultimately show ?case
    using put(2,4) IH(6,8) by (intro conjI exI [of _ q']) (auto simp: less_Suc_eq)
qed

text \<open>C7: when the graph descriptors can be allocated, a graph whose queue of free instances is empty
  becomes ready to be scheduled: distinct instances, not shared with any node, all of them free and
  numbered by their place. The only failures are a depth of 16 or more and a full descriptor table.\<close>

theorem verified_graph_ready:
  assumes "table_wf (sys_tbl (ho_sys h))" "0 < depth_of h graph"
    and "queue_inv (gr_free_q (ho_graphs h graph))" "queue_elems (gr_free_q (ho_graphs h graph)) = []"
    and "queue_cap (gr_free_q (ho_graphs h graph)) = TIVX_GRAPH_MAX_PIPELINE_DEPTH"
    and "\<forall>n \<in> set (nodes_of_graph (ho_graphs h graph)). \<forall>k < 16. \<forall>i. vn_obj_desc (ho_nodes h n) ! k = Some i \<longrightarrow>
      i < num_entries (sys_tbl (ho_sys h)) \<and> od_type (sys_desc (ho_sys h) i) \<noteq> TIVX_OBJ_DESC_INVALID"
    and "ownReferenceLock rc h graph = VX_SUCCESS"
    and "gr_schedule_mode (ho_graphs h graph) \<noteq> VX_GRAPH_SCHEDULE_MODE_NORMAL"
    and "gr_num_leaf_nodes (ho_graphs h graph) \<noteq> 0"
    and "gr_submitted_count (ho_graphs h graph) = 0" "gr_schedule_pending_count (ho_graphs h graph) = 0"
    and "gr_all_graph_completed_event (ho_graphs h graph) \<noteq> None"
    and run: "ownGraphAllocAndEnqueueObjDescForPipeline pf h graph = (h', status)"
  shows "(status = VX_SUCCESS \<longrightarrow> graph_ready rc h' graph \<and> free_pids h' graph = [0..<depth_of h graph]
      \<and> gr_all_graph_completed_event (ho_graphs h' graph) = gr_all_graph_completed_event (ho_graphs h graph))
    \<and> (status \<noteq> VX_SUCCESS \<longrightarrow> status = VX_FAILURE \<and> TIVX_GRAPH_MAX_PIPELINE_DEPTH \<le> depth_of h graph
        \<or> status = VX_ERROR_NO_RESOURCES \<and> (\<forall>j < num_entries (sys_tbl (ho_sys h')).
            od_type (sys_desc (ho_sys h') j) \<noteq> TIVX_OBJ_DESC_INVALID))"
proof (cases "TIVX_GRAPH_MAX_PIPELINE_DEPTH \<le> gr_pipeline_depth (ho_graphs h graph)")
  case True
  then show ?thesis
    using run by (auto simp: ownGraphAllocAndEnqueueObjDescForPipeline_def Let_def word_le_nat_alt)
next
  case False
  then have d: "depth_of h graph < 16" by (simp add: word_le_nat_alt)
  define h0 where "h0 = upd_graph graph (\<lambda>x. x\<lparr>gr_obj_desc := replicate TIVX_GRAPH_MAX_PIPELINE_DEPTH None\<rparr>) h"
  have h0: "ho_sys h0 = ho_sys h" "ho_refs h0 = ho_refs h" "ho_nodes h0 = ho_nodes h"
    "ho_graphs h0 graph = (ho_graphs h graph)\<lparr>gr_obj_desc := replicate 16 None\<rparr>"
    by (simp_all add: h0_def upd_graph_def)
  obtain h1 st where al: "alloc_instances pf h0 graph [0..<depth_of h graph] = (h1, st)" by fastforce
  have res: "(h', status) = (if st = VX_SUCCESS then foldl (init_instance graph) h1 [0..<depth_of h graph] else h1, st)"
    using run False al by (auto simp: ownGraphAllocAndEnqueueObjDescForPipeline_def Let_def h0_def [symmetric])
  have ok: "if st = VX_SUCCESS then allocated h0 graph [0..<depth_of h graph] h1
    else st = VX_ERROR_NO_RESOURCES
      \<and> (\<forall>j < num_entries (sys_tbl (ho_sys h1)). od_type (sys_desc (ho_sys h1) j) \<noteq> TIVX_OBJ_DESC_INVALID)"
    using alloc_instances_ok [OF _ _ _ al] assms(1) h0(1,4) d by simp
  show ?thesis
  proof (cases "st = VX_SUCCESS")
    case False
    then show ?thesis using ok res by simp
  next
    case True
    then have al1: "allocated h0 graph [0..<depth_of h graph] h1" using ok by simp
    obtain ods where r1: "ho_graphs h1 graph = (ho_graphs h graph)\<lparr>gr_obj_desc := ods\<rparr>"
      "\<forall>p < depth_of h graph. ods ! p \<noteq> None" "inj_on (\<lambda>p. the (ods ! p)) {..< depth_of h graph}"
      "\<forall>p < depth_of h graph. the (ods ! p) < num_entries (sys_tbl (ho_sys h))
           \<and> od_type (sys_desc (ho_sys h) (the (ods ! p))) = TIVX_OBJ_DESC_INVALID"
      and r2: "ho_refs h1 = ho_refs h" "ho_nodes h1 = ho_nodes h"
        "num_entries (sys_tbl (ho_sys h1)) = num_entries (sys_tbl (ho_sys h))"
      using al1 unfolding allocated_def h0 by (auto simp: atLeast0LessThan)
    have inst1: "inst h1 graph p = the (ods ! p)" for p using r1(1) by (simp add: inst_def)
    have dep: "depth_of h1 graph = depth_of h graph" using r1(1) by simp
    have h': "h' = foldl (init_instance graph) h1 [0..<depth_of h1 graph]" "status = VX_SUCCESS"
      using res True dep by simp_all
    have inj: "inj_on (inst h1 graph) {..< depth_of h1 graph}" using r1(3) dep inst1 [abs_def] by simp
    obtain q where i: "ho_refs h' = ho_refs h1" "ho_nodes h' = ho_nodes h1"
      "num_entries (sys_tbl (ho_sys h')) = num_entries (sys_tbl (ho_sys h1))"
      "ho_graphs h' graph = (ho_graphs h1 graph)\<lparr>gr_free_q := q\<rparr>" "queue_inv q" "queue_cap q = 16"
      "queue_elems q = map of_nat [0..<depth_of h1 graph]"
      "\<forall>p < depth_of h1 graph. gd_pipeline_id (graph_of (ho_sys h') (inst h1 graph p)) = of_nat p
         \<and> gd_complete_leaf_nodes (graph_of (ho_sys h') (inst h1 graph p)) = 0"
      using init_instances_ok [OF _ inj _ _ _ _ _ h'(1)] d dep inst1 r1 r2(3) assms(3-5) by auto
    have inst': "inst h' graph = inst h1 graph" "depth_of h' graph = depth_of h graph"
      using i(4) dep by (simp_all add: inst_def fun_eq_iff)
    have fp: "free_pids h' graph = [0..<depth_of h graph]"
      using i(4,7) dep d by (simp add: free_pids_def) (rule map_idI, simp add: unat_of_nat)
    have "wired h' graph"
      unfolding wired_def inst' using assms(2,6) d inj dep i(2-4,8) r1 r2 inst1
      by (auto simp: nodes_of_graph_def)
    moreover have "free_ok h' graph" using i(4-6) fp inst'(2) by (simp add: free_ok_def atLeast0LessThan)
    moreover have "ownReferenceLock rc h' graph = VX_SUCCESS"
      using assms(7) i(1) r2(1) lock_same [of h' h] by simp
    moreover have "leaf_count h' graph p = 0" if "p < depth_of h graph" for p
      using i(8) that dep inst'(1) by (simp add: leaf_count_def)
    ultimately show ?thesis
      using h'(2) fp inst'(2) assms(8-12) i(4) r1(1) by (simp add: graph_ready_def atLeast0LessThan)
  qed
qed

definition unverified_host :: host where
  "unverified_host = pipe_host
     \<lparr>ho_sys := (sample_sys 0)\<lparr>sys_tbl := \<lparr>odt_table_base = [link_desc 0 ([], []), free_desc, free_desc],
                                           odt_last_alloc_index = 0\<rparr>\<rparr>,
      ho_graphs := (\<lambda>a. (ho_graphs pipe_host a)\<lparr>gr_obj_desc := replicate 16 None,
        gr_free_q := pipe_queue\<lparr>q_cur_wr := 0, q_count := 0\<rparr>\<rparr>)\<rparr>"

lemma unverified_table: "table_wf (sys_tbl (ho_sys unverified_host))"
  by (auto simp: unverified_host_def table_wf_def link_desc_def free_desc_def less_Suc_eq numeral_3_eq_3 body_ok_def zero_node_def)

theorem verified_graph_ready_witness:
  "\<exists>h'. ownGraphAllocAndEnqueueObjDescForPipeline sample_ids unverified_host pipe_graph = (h', VX_SUCCESS)
     \<and> graph_ready posix_ok h' pipe_graph \<and> free_pids h' pipe_graph = [0, 1]"
proof -
  let ?h = "unverified_host" and ?g = pipe_graph
  obtain h' status where run: "ownGraphAllocAndEnqueueObjDescForPipeline sample_ids ?h ?g = (h', status)" by fastforce
  have g: "depth_of ?h ?g = 2" "gr_free_q (ho_graphs ?h ?g) = pipe_queue\<lparr>q_cur_wr := 0, q_count := 0\<rparr>"
    "nodes_of_graph (ho_graphs ?h ?g) = [1]" "gr_num_leaf_nodes (ho_graphs ?h ?g) = 1"
    "gr_schedule_mode (ho_graphs ?h ?g) = VX_GRAPH_SCHEDULE_MODE_QUEUE_AUTO"
    "gr_submitted_count (ho_graphs ?h ?g) = 0" "gr_schedule_pending_count (ho_graphs ?h ?g) = 0"
    "gr_all_graph_completed_event (ho_graphs ?h ?g) \<noteq> None"
    using pipe_graph_fields by (simp_all add: unverified_host_def nodes_of_graph_def)
  have q: "queue_inv (gr_free_q (ho_graphs ?h ?g))" "queue_elems (gr_free_q (ho_graphs ?h ?g)) = []"
    "queue_cap (gr_free_q (ho_graphs ?h ?g)) = 16"
    by (simp_all add: g(2) pipe_queue_def init_queue_def queue_inv_def queue_elems_def queue_cap_def)
  have "ownReferenceLock posix_ok pipe_host ?g = VX_SUCCESS"
    using pipe_ready(1) [of ?g] by (simp add: graph_ready_def pipe_graph_def)
  then have lock: "ownReferenceLock posix_ok ?h ?g = VX_SUCCESS"
    using lock_same [of ?h pipe_host] by (simp add: unverified_host_def)
  have nodes: "\<forall>n \<in> set (nodes_of_graph (ho_graphs ?h ?g)). \<forall>k < 16. \<forall>i. vn_obj_desc (ho_nodes ?h n) ! k = Some i \<longrightarrow>
      i < num_entries (sys_tbl (ho_sys ?h)) \<and> od_type (sys_desc (ho_sys ?h) i) \<noteq> TIVX_OBJ_DESC_INVALID"
    using pipe_nodes [of _ 1] by (simp add: g(3)) (simp add: unverified_host_def link_desc_def)
  have "snd (alloc_instances sample_ids (upd_graph ?g (\<lambda>x. x\<lparr>gr_obj_desc := replicate 16 None\<rparr>) ?h) ?g [0, 1]) = VX_SUCCESS"
    by (simp add: ownObjDescAlloc_def upd_graph_def unverified_host_def free_desc_def link_desc_def upd_desc_def)
  then obtain h1 where "alloc_instances sample_ids (upd_graph ?g (\<lambda>x. x\<lparr>gr_obj_desc := replicate 16 None\<rparr>) ?h) ?g [0, 1]
      = (h1, VX_SUCCESS)" by (metis prod.collapse)
  moreover have "[0..<2] = [0, 1::nat]" by (simp add: upt_rec)
  moreover have "\<not> 16 \<le> gr_pipeline_depth (ho_graphs ?h ?g)" using g(1) by (simp add: word_le_nat_alt)
  ultimately have "status = VX_SUCCESS"
    using run g(1) by (simp add: ownGraphAllocAndEnqueueObjDescForPipeline_def Let_def)
  with verified_graph_ready [OF unverified_table _ q nodes lock _ _ _ _ _ run] g run show ?thesis
    by (simp add: upt_rec)
qed


text \<open>A second wait for a graph that has completed finds the event taken down by the first one: without
  a time-out, and as long as nobody posts, it sleeps.\<close>

lemma second_wait_sleeps:
  assumes "ownIsValidSpecificReference h graph VX_TYPE_GRAPH" "gr_state (ho_graphs h graph) = VX_GRAPH_STATE_COMPLETED"
    and "gr_timeout_val (ho_graphs h graph) = VX_TIMEOUT_WAIT_FOREVER" "rc_mutex_lock rc = 0" "rc_mutex_unlock rc = 0"
    and "gr_all_graph_completed_event (ho_graphs h graph) = Some e" "evt_is_set e"
    and "\<forall>w \<in> set ws. ee_wait w = 0 \<and> (\<forall>x. \<not> evt_is_set x \<longrightarrow> \<not> evt_is_set (ee_others w x))"
  shows "\<exists>h1. vxWaitGraph rc [] id h graph = Some (h1, VX_SUCCESS) \<and> vxWaitGraph rc ws others h1 graph = None"
proof -
  let ?h1 = "upd_graph graph (\<lambda>x. x\<lparr>gr_all_graph_completed_event := Some (e\<lparr>evt_is_set := False\<rparr>)\<rparr>) h"
  have "vxWaitGraph rc [] id h graph = Some (?h1, VX_SUCCESS)"
    using assms(1-7) event_wait_set [OF assms(4,5,7)] by (simp add: vxWaitGraph_def upd_graph_def Let_def)
  moreover have "ownIsValidSpecificReference ?h1 graph VX_TYPE_GRAPH"
    using assms(1) by (simp add: upd_graph_def ownIsValidSpecificReference_def ownIsValidReference_def ownIsValidContext_def)
  then have "vxWaitGraph rc ws others ?h1 graph = None"
    using assms(2-4) event_wait_sleeps [OF _ assms(8), of "e\<lparr>evt_is_set := False\<rparr>"]
    by (simp add: vxWaitGraph_def tivxEventWait_def Let_def upd_graph_def)
  ultimately show ?thesis by blast
qed

end
