(* ===== verification/Data_Refs.thy ===== *)
theory Data_Refs
  imports Graph_Schedule Graph_Links
begin

text \<open>
  What the verification of a graph decides before it allocates anything, in
  \<open>source/framework/vx_graph_verify.c\<close> and \<open>source/framework/vx_graph_pipeline.c\<close>: the list of the data
  references of a graph with the number of nodes that consume each, the number of buffers of an output
  and the depth of the pipeline. The counts are shown to be exact and the depth to be the length of the
  longest chain of nodes.
\<close>

section \<open>The data references of a graph\<close>

abbreviation (input) TIVX_GRAPH_MAX_DATA_REF :: "'a::numeral" where "TIVX_GRAPH_MAX_DATA_REF \<equiv> 512"

definition ownGraphAddSingleDataReference ::
  "host \<Rightarrow> uintptr \<Rightarrow> uintptr \<Rightarrow> vx_enum \<Rightarrow> bool \<Rightarrow> host \<times> vx_status" where
  "ownGraphAddSingleDataReference h graph ref prm_dir check =
     (let g = ho_graphs h graph; num = unat (gr_num_data_ref g) in
      case first_index (\<lambda>r. check \<and> ownGraphCheckIsRefMatch h graph r ref) (take num (gr_data_ref g)) of
        Some i \<Rightarrow>
          ((if prm_dir \<noteq> VX_OUTPUT
            then upd_graph graph (\<lambda>x. x\<lparr>gr_data_ref_num_in_nodes :=
                   (gr_data_ref_num_in_nodes x)[i := gr_data_ref_num_in_nodes x ! i + 1]\<rparr>) h
            else h), VX_SUCCESS)
      | None \<Rightarrow>
          if gr_num_data_ref g < TIVX_GRAPH_MAX_DATA_REF then
            (upd_graph graph (\<lambda>x. x\<lparr>gr_data_ref := (gr_data_ref x)[num := ref],
               gr_data_ref_num_in_nodes := (gr_data_ref_num_in_nodes x)
                 [num := if prm_dir \<noteq> VX_OUTPUT then 1 else 0],
               gr_data_ref_num_out_nodes := (gr_data_ref_num_out_nodes x)
                 [num := if prm_dir \<noteq> VX_OUTPUT then 0 else 1],
               gr_num_data_ref := gr_num_data_ref x + 1\<rparr>) h, VX_SUCCESS)
          else (h, VX_FAILURE))"

text \<open>The parent of an element of a group is a pyramid or an object array.\<close>

definition group_scope :: "host \<Rightarrow> uintptr \<Rightarrow> bool" where
  "group_scope h ref \<longleftrightarrow> ownIsValidSpecificReference h (rf_scope (ho_refs h ref)) VX_TYPE_PYRAMID
     \<or> ownIsValidSpecificReference h (rf_scope (ho_refs h ref)) VX_TYPE_OBJECT_ARRAY"

definition ownGraphAddDataReference ::
  "host \<Rightarrow> uintptr \<Rightarrow> uintptr \<Rightarrow> vx_enum \<Rightarrow> bool \<Rightarrow> host \<times> vx_status" where
  "ownGraphAddDataReference h graph ref prm_dir check =
     (case ownGraphAddSingleDataReference h graph ref prm_dir check of
        (h1, status) \<Rightarrow>
          if status = VX_SUCCESS \<and> group_scope h1 ref
          then ownGraphAddSingleDataReference h1 graph (rf_scope (ho_refs h1 ref)) prm_dir False
          else (h1, status))"

text \<open>The parameters of one node; a failure ends this loop only.\<close>

fun add_node_refs :: "uintptr \<Rightarrow> uintptr \<Rightarrow> host \<Rightarrow> vx_status \<Rightarrow> nat list \<Rightarrow> host \<times> vx_status" where
  "add_node_refs graph node h status [] = (h, status)"
| "add_node_refs graph node h status (p # ps) =
     (let ref = ownNodeGetParameterRef h node p in
      if ref \<noteq> 0 then
        (case ownGraphAddDataReference h graph ref (ownNodeGetParameterDir h node p) True of
           (h1, st) \<Rightarrow> if st = VX_SUCCESS then add_node_refs graph node h1 st ps else (h1, st))
      else add_node_refs graph node h status ps)"

fun add_graph_refs :: "uintptr \<Rightarrow> host \<Rightarrow> vx_status \<Rightarrow> uintptr list \<Rightarrow> host \<times> vx_status" where
  "add_graph_refs graph h status [] = (h, status)"
| "add_graph_refs graph h status (n # ns) =
     (case add_node_refs graph n h status [0..<unat (ownNodeGetNumParameters h n)] of
        (h1, st) \<Rightarrow> add_graph_refs graph h1 st ns)"

definition ownGraphFindAndAddDataReferences :: "host \<Rightarrow> uintptr \<Rightarrow> host \<times> vx_status" where
  "ownGraphFindAndAddDataReferences h graph =
     add_graph_refs graph (upd_graph graph (\<lambda>x. x\<lparr>gr_num_data_ref := 0\<rparr>) h) VX_SUCCESS
       (nodes_of_graph (ho_graphs h graph))"

text \<open>The entry that a reference matches first.\<close>

definition data_ref_index :: "host \<Rightarrow> uintptr \<Rightarrow> uintptr \<Rightarrow> nat option" where
  "data_ref_index h graph ref =
     (let g = ho_graphs h graph in
      first_index (\<lambda>r. ownGraphCheckIsRefMatch h graph r ref)
        (take (min (unat (gr_num_data_ref g)) TIVX_GRAPH_MAX_DATA_REF) (gr_data_ref g)))"

definition ownGraphGetNumInNodes :: "host \<Rightarrow> uintptr \<Rightarrow> uintptr \<Rightarrow> nat \<Rightarrow> uint32" where
  "ownGraphGetNumInNodes h graph node node_prm_idx =
     (let ref = ownNodeGetParameterRef h node node_prm_idx in
      if ref \<noteq> 0 then
        (case data_ref_index h graph ref of
           Some i \<Rightarrow> ucast (gr_data_ref_num_in_nodes (ho_graphs h graph) ! i)
         | None \<Rightarrow> 0)
      else 0)"

section \<open>The number of buffers\<close>

definition ownGraphGetOptimalNumBuf :: "host \<Rightarrow> uintptr \<Rightarrow> uintptr \<Rightarrow> uint32" where
  "ownGraphGetOptimalNumBuf h graph ref =
     (let num_bufs = (case data_ref_index h graph ref of
                        Some i \<Rightarrow> 1 + ucast (gr_data_ref_num_in_nodes (ho_graphs h graph) ! i)
                      | None \<Rightarrow> 1)
      in if num_bufs \<ge> TIVX_OBJ_DESC_QUEUE_MAX_DEPTH then TIVX_OBJ_DESC_QUEUE_MAX_DEPTH - 1 else num_bufs)"

text \<open>The search for a leaf looks at the first eight of the sixteen entries, whether they are in use or
  not.\<close>

definition isLeafNode :: "host \<Rightarrow> uintptr \<Rightarrow> uintptr \<Rightarrow> bool" where
  "isLeafNode h graph node \<longleftrightarrow> node \<in> set (take TIVX_GRAPH_MAX_HEAD_NODES (gr_leaf_nodes (ho_graphs h graph)))"

definition graph_params :: "vx_graph_t \<Rightarrow> tivx_parameters_t list" where
  "graph_params g = take (unat (gr_num_params g)) (gr_parameters g)"

definition detect_param :: "uintptr \<Rightarrow> uintptr \<Rightarrow> host \<Rightarrow> nat \<Rightarrow> host" where
  "detect_param graph node h prm_idx =
     (let ref = ownNodeGetParameterRef h node prm_idx in
      if ref \<noteq> 0 \<and> ownNodeGetParameterDir h node prm_idx \<noteq> VX_INPUT
         \<and> \<not> list_ex (\<lambda>gp. ref = gp_refs_list gp ! 0) (graph_params (ho_graphs h graph))
         \<and> vn_parameter_index_num_buf (ho_nodes h node) ! prm_idx = 0
      then upd_vnode node (\<lambda>v. v\<lparr>vn_parameter_index_num_buf :=
             (vn_parameter_index_num_buf v)[prm_idx := ownGraphGetOptimalNumBuf h graph ref]\<rparr>) h
      else h)"

definition ownGraphDetectAndSetNumBuf :: "host \<Rightarrow> uintptr \<Rightarrow> host" where
  "ownGraphDetectAndSetNumBuf h graph =
     (if gr_is_pipelining_enabled (ho_graphs h graph) then
        foldl (\<lambda>h node. if isLeafNode h graph node then h
                        else foldl (detect_param graph node) h [0..<unat (ownNodeGetNumParameters h node)])
          h (nodes_of_graph (ho_graphs h graph))
      else h)"

definition ownNodeGetParameterNumBuf :: "host \<Rightarrow> uintptr \<Rightarrow> uint32 \<Rightarrow> uint32" where
  "ownNodeGetParameterNumBuf h node idx =
     (if node \<noteq> 0 \<and> idx < ownNodeGetNumParameters h node
         \<and> ownNodeGetParameterDir h node (unat idx) \<noteq> VX_INPUT
      then (let num_buf = vn_parameter_index_num_buf (ho_nodes h node) ! unat idx;
                krn = ho_kernels h (vn_kernel (ho_nodes h node));
                sink_bufs = krn_connected_sink_bufs krn - 1;
                num_pipeup_bufs = krn_num_pipeup_bufs krn + sink_bufs
            in if num_pipeup_bufs > num_buf then num_pipeup_bufs else num_buf)
      else 0)"

definition tivxSetNodeParameterNumBufByIndex ::
  "host \<Rightarrow> uintptr \<Rightarrow> uint32 \<Rightarrow> uint32 \<Rightarrow> host \<times> vx_status" where
  "tivxSetNodeParameterNumBufByIndex h node idx num_buf =
     (if ownIsValidSpecificReference h node VX_TYPE_NODE then
        (if gr_verified (ho_graphs h (vn_graph (ho_nodes h node))) then (h, VX_ERROR_NOT_SUPPORTED)
         else if idx < ownNodeGetNumParameters h node \<and> num_buf < TIVX_OBJ_DESC_QUEUE_MAX_DEPTH
                 \<and> ownNodeGetParameterDir h node (unat idx) \<noteq> VX_INPUT
         then (upd_vnode node (\<lambda>v. v\<lparr>vn_parameter_index_num_buf :=
                 (vn_parameter_index_num_buf v)[unat idx := num_buf]\<rparr>) h, VX_SUCCESS)
         else (h, VX_ERROR_INVALID_PARAMETERS))
      else (h, VX_ERROR_INVALID_PARAMETERS))"

definition tivxGetNodeParameterNumBufByIndex :: "host \<Rightarrow> uintptr \<Rightarrow> uint32 \<Rightarrow> uint32 option \<times> vx_status" where
  "tivxGetNodeParameterNumBufByIndex h node idx =
     (if ownIsValidSpecificReference h node VX_TYPE_NODE
         \<and> idx < ownNodeGetNumParameters h node \<and> ownNodeGetParameterDir h node (unat idx) = VX_OUTPUT
      then (Some (vn_parameter_index_num_buf (ho_nodes h node) ! unat idx), VX_SUCCESS)
      else (None, VX_ERROR_INVALID_PARAMETERS))"

definition ownGraphValidatePipelineParameters :: "host \<Rightarrow> uintptr \<Rightarrow> vx_status" where
  "ownGraphValidatePipelineParameters h graph =
     (if gr_is_pipelining_enabled (ho_graphs h graph)
         \<and> list_ex (\<lambda>gp. gp_num_buf gp \<noteq> 0
               \<and> vn_parameter_index_num_buf (ho_nodes h (gp_node gp)) ! unat (gp_index gp) \<noteq> 0)
             (graph_params (ho_graphs h graph))
      then VX_ERROR_INVALID_PARAMETERS else VX_SUCCESS)"

text \<open>A source whose buffers go to a sink that keeps some of them needs more buffers; the number is
  kept with the kernel.\<close>

definition connect_sink :: "uintptr \<Rightarrow> host \<Rightarrow> nat \<Rightarrow> host" where
  "connect_sink cur_node h out_node_idx =
     (let next_node = ownNodeGetNextNode h cur_node out_node_idx;
          krn = vn_kernel (ho_nodes h cur_node);
          sinks = krn_num_sink_bufs (ho_kernels h (vn_kernel (ho_nodes h next_node)))
      in if next_node \<noteq> 0 \<and> sinks > 1 \<and> sinks > krn_connected_sink_bufs (ho_kernels h krn)
         then h\<lparr>ho_kernels := (ho_kernels h)(krn := (ho_kernels h krn)\<lparr>krn_connected_sink_bufs := sinks\<rparr>)\<rparr>
         else h)"

definition ownGraphDetectSourceSink :: "host \<Rightarrow> uintptr \<Rightarrow> host \<times> vx_status" where
  "ownGraphDetectSourceSink h graph =
     (foldl (\<lambda>h n. if n \<noteq> 0 \<and> krn_num_pipeup_bufs (ho_kernels h (vn_kernel (ho_nodes h n))) > 1
                   then foldl (connect_sink n) h [0..<unat (ucast (ownNodeGetNumOutNodes h n) :: uint16)]
                   else h)
        h (nodes_of_graph (ho_graphs h graph)), VX_SUCCESS)"

section \<open>The depth of the pipeline\<close>

definition tivxSetGraphPipelineDepth :: "host \<Rightarrow> uintptr \<Rightarrow> uint32 \<Rightarrow> host \<times> vx_status" where
  "tivxSetGraphPipelineDepth h graph pipeline_depth =
     (if ownIsValidSpecificReference h graph VX_TYPE_GRAPH then
        (if gr_verified (ho_graphs h graph) then (h, VX_ERROR_NOT_SUPPORTED)
         else if pipeline_depth < TIVX_GRAPH_MAX_PIPELINE_DEPTH
         then (upd_graph graph (\<lambda>x. x\<lparr>gr_pipeline_depth := pipeline_depth,
                 gr_is_pipeline_depth_set := True\<rparr>) h, VX_SUCCESS)
         else (h, VX_ERROR_INVALID_VALUE))
      else (h, VX_ERROR_INVALID_REFERENCE))"

definition deepest :: "host \<Rightarrow> uintptr \<Rightarrow> uintptr list \<Rightarrow> uint32" where
  "deepest h graph ns = foldl (\<lambda>pipe_depth n.
     if isLeafNode h graph n \<and> pipe_depth \<le> vn_node_depth (ho_nodes h n)
     then vn_node_depth (ho_nodes h n) else pipe_depth) 1 ns"

definition ownGraphGetPipeDepth :: "host \<Rightarrow> uintptr \<Rightarrow> uint32" where
  "ownGraphGetPipeDepth h graph =
     (let pipe_depth = deepest h graph (nodes_of_graph (ho_graphs h graph)) in
      if pipe_depth \<ge> TIVX_GRAPH_MAX_PIPELINE_DEPTH \<and> \<not> gr_is_pipeline_depth_set (ho_graphs h graph)
      then TIVX_GRAPH_MAX_PIPELINE_DEPTH - 1 else pipe_depth)"

section \<open>The consumers are counted\<close>

text \<open>Matching depends on the references only, and so do the other things that the loops read.\<close>

definition same_params :: "host \<Rightarrow> host \<Rightarrow> bool" where
  "same_params h h' \<longleftrightarrow> ho_refs h' = ho_refs h \<and> ho_nodes h' = ho_nodes h \<and> ho_kernels h' = ho_kernels h"

lemma same_params_trans: "same_params h h1 \<Longrightarrow> same_params h1 h2 \<Longrightarrow> same_params h h2"
  by (simp add: same_params_def)

lemma same_params_fields:
  assumes "same_params h h'"
  shows "ownGraphCheckIsRefMatch h' = ownGraphCheckIsRefMatch h" "group_scope h' = group_scope h"
    "ownNodeGetParameterRef h' = ownNodeGetParameterRef h" "ownNodeGetParameterDir h' = ownNodeGetParameterDir h"
    "ownNodeGetNumParameters h' = ownNodeGetNumParameters h" "ho_refs h' = ho_refs h"
proof -
  note eq = assms [unfolded same_params_def]
  have "ownGraphIsRefMatch h' = ownGraphIsRefMatch h" using eq by (simp add: ownGraphIsRefMatch_def fun_eq_iff)
  then show "ownGraphCheckIsRefMatch h' = ownGraphCheckIsRefMatch h"
    using eq by (simp add: ownGraphCheckIsRefMatch_def fun_eq_iff)
  show "group_scope h' = group_scope h"
    using eq by (simp add: group_scope_def ownIsValidSpecificReference_def ownIsValidContext_def fun_eq_iff)
  show "ownNodeGetParameterRef h' = ownNodeGetParameterRef h" "ownNodeGetParameterDir h' = ownNodeGetParameterDir h"
    "ownNodeGetNumParameters h' = ownNodeGetNumParameters h" "ho_refs h' = ho_refs h"
    using eq by (simp_all add: ownNodeGetParameterRef_def ownNodeGetParameterDir_def ownNodeGetNumParameters_def fun_eq_iff)
qed

definition refs_of :: "host \<Rightarrow> uintptr \<Rightarrow> uintptr list" where
  "refs_of h g = take (unat (gr_num_data_ref (ho_graphs h g))) (gr_data_ref (ho_graphs h g))"

definition counts_of :: "host \<Rightarrow> uintptr \<Rightarrow> uint8 list" where
  "counts_of h g = take (unat (gr_num_data_ref (ho_graphs h g))) (gr_data_ref_num_in_nodes (ho_graphs h g))"

definition arrays_ok :: "host \<Rightarrow> uintptr \<Rightarrow> bool" where
  "arrays_ok h g \<longleftrightarrow> length (gr_data_ref (ho_graphs h g)) = TIVX_GRAPH_MAX_DATA_REF
     \<and> length (gr_data_ref_num_in_nodes (ho_graphs h g)) = TIVX_GRAPH_MAX_DATA_REF
     \<and> gr_num_data_ref (ho_graphs h g) \<le> TIVX_GRAPH_MAX_DATA_REF"

lemma arrays_len:
  assumes "arrays_ok h g"
  shows "length (refs_of h g) = unat (gr_num_data_ref (ho_graphs h g))" "length (counts_of h g) = length (refs_of h g)"
  using assms by (auto simp: arrays_ok_def refs_of_def counts_of_def word_le_nat_alt)

lemma add_single:
  fixes ref :: uintptr and check :: bool and dir :: vx_enum
  assumes ok: "arrays_ok h g" and room: "length (refs_of h g) < TIVX_GRAPH_MAX_DATA_REF"
  defines "hit \<equiv> first_index (\<lambda>r. check \<and> ownGraphCheckIsRefMatch h g r ref) (refs_of h g)"
    and "one \<equiv> (if dir \<noteq> VX_OUTPUT then 1 else 0 :: uint8)"
  obtains h' where "ownGraphAddSingleDataReference h g ref dir check = (h', VX_SUCCESS)"
    "same_params h h'" "arrays_ok h' g"
    "\<And>i. hit = Some i \<Longrightarrow> refs_of h' g = refs_of h g \<and> counts_of h' g = (counts_of h g)[i := counts_of h g ! i + one]"
    "hit = None \<Longrightarrow> refs_of h' g = refs_of h g @ [ref] \<and> counts_of h' g = counts_of h g @ [one]"
proof -
  let ?g = "ho_graphs h g" and ?n = "unat (gr_num_data_ref (ho_graphs h g))"
  note len = arrays_len [OF ok]
  have n: "?n < 512" "gr_num_data_ref ?g < 512" using room len by (simp_all add: word_less_nat_alt)
  have inc: "unat (gr_num_data_ref ?g + 1) = Suc ?n" using unat_inc_below [OF n(2)] by simp
  have lens: "length (gr_data_ref ?g) = 512" "length (gr_data_ref_num_in_nodes ?g) = 512"
    using ok by (simp_all add: arrays_ok_def)
  show thesis
  proof (cases hit)
    case (Some i)
    then have "i < length (refs_of h g)" by (simp add: hit_def first_index_some)
    then have i: "i < ?n" using len by simp
    define h' where "h' = (if dir \<noteq> VX_OUTPUT
            then upd_graph g (\<lambda>x. x\<lparr>gr_data_ref_num_in_nodes :=
                   (gr_data_ref_num_in_nodes x)[i := gr_data_ref_num_in_nodes x ! i + 1]\<rparr>) h
            else h)"
    have run: "ownGraphAddSingleDataReference h g ref dir check = (h', VX_SUCCESS)"
      using Some by (simp add: ownGraphAddSingleDataReference_def hit_def refs_of_def h'_def Let_def)
    have "refs_of h' g = refs_of h g" "counts_of h' g = (counts_of h g)[i := counts_of h g ! i + one]"
      using i by (auto simp: h'_def one_def refs_of_def counts_of_def upd_graph_def take_update_swap)
        (metis list_update_id take_update_swap)
    moreover have "same_params h h'" "arrays_ok h' g"
      using ok by (simp_all add: h'_def same_params_def arrays_ok_def upd_graph_def)
    ultimately show thesis using that run Some by simp
  next
    case None
    define h' where "h' = upd_graph g (\<lambda>x. x\<lparr>gr_data_ref := (gr_data_ref x)[?n := ref],
               gr_data_ref_num_in_nodes := (gr_data_ref_num_in_nodes x)[?n := one],
               gr_data_ref_num_out_nodes := (gr_data_ref_num_out_nodes x)
                 [?n := if dir \<noteq> VX_OUTPUT then 0 else 1],
               gr_num_data_ref := gr_num_data_ref x + 1\<rparr>) h"
    have run: "ownGraphAddSingleDataReference h g ref dir check = (h', VX_SUCCESS)"
      using None n(2) by (simp add: ownGraphAddSingleDataReference_def hit_def refs_of_def h'_def one_def Let_def)
    have "refs_of h' g = refs_of h g @ [ref]" "counts_of h' g = counts_of h g @ [one]"
      using n lens by (simp_all add: h'_def refs_of_def counts_of_def upd_graph_def inc take_Suc_conv_app_nth)
    moreover have "same_params h h'" "arrays_ok h' g"
      using lens n(1) by (simp_all add: h'_def same_params_def arrays_ok_def upd_graph_def word_le_nat_alt inc)
    ultimately show thesis using that run None by simp
  qed
qed

text \<open>The counts belong to classes of matching references: the entry that a reference matches first has
  the number of its consumers among the parameters that have been seen.\<close>

definition classes :: "('r \<Rightarrow> 'r \<Rightarrow> bool) \<Rightarrow> 'r set \<Rightarrow> bool" where
  "classes M R \<longleftrightarrow> (\<forall>a \<in> R. M a a) \<and> (\<forall>a \<in> R. \<forall>b \<in> R. M a b \<longrightarrow> M b a)
     \<and> (\<forall>a \<in> R. \<forall>b \<in> R. \<forall>c \<in> R. M a b \<longrightarrow> M b c \<longrightarrow> M a c)"

definition consumers :: "('r \<Rightarrow> 'r \<Rightarrow> bool) \<Rightarrow> ('r \<times> bool) list \<Rightarrow> 'r \<Rightarrow> nat" where
  "consumers M uses r = length (filter (\<lambda>(a, inp). inp \<and> M a r) uses)"

definition counted ::
  "('r \<Rightarrow> 'r \<Rightarrow> bool) \<Rightarrow> 'r set \<Rightarrow> ('r \<times> bool) list \<Rightarrow> 'r list \<Rightarrow> uint8 list \<Rightarrow> bool" where
  "counted M R uses refs cnts \<longleftrightarrow> length cnts = length refs \<and> set refs \<subseteq> R
     \<and> (\<forall>r \<in> R. case first_index (\<lambda>x. M x r) refs of
          None \<Rightarrow> \<forall>a \<in> fst ` set uses. \<not> M a r
        | Some i \<Rightarrow> unat (cnts ! i) = consumers M uses r)"

lemma first_index_append:
  "first_index P (xs @ ys) = (case first_index P xs of
     Some i \<Rightarrow> Some i | None \<Rightarrow> map_option ((+) (length xs)) (first_index P ys))"
  by (cases "first_index P ys"; induction xs) (auto split: option.splits)

lemma countedD:
  assumes "counted M R uses refs cnts" "r \<in> R"
  shows "first_index (\<lambda>x. M x r) refs = None \<Longrightarrow> a \<in> fst ` set uses \<Longrightarrow> \<not> M a r"
    "first_index (\<lambda>x. M x r) refs = Some i \<Longrightarrow> unat (cnts ! i) = consumers M uses r"
  using assms by (auto simp: counted_def split: option.splits)

lemma classes_first:
  assumes "classes M R" "a \<in> R" "r \<in> R" "M a r" "set refs \<subseteq> R"
  shows "first_index (\<lambda>x. M x r) refs = first_index (\<lambda>x. M x a) refs"
proof -
  have "M x r = M x a" if "x \<in> set refs" for x
    using that assms unfolding classes_def by (meson subsetD)
  then show ?thesis using assms(5) by (induction refs) auto
qed

lemma counted_hit:
  assumes cl: "classes M R" and c: "counted M R uses refs cnts" and a: "a \<in> R"
    and hit: "first_index (\<lambda>x. M x a) refs = Some i" and few: "length uses < 255"
  shows "counted M R (uses @ [(a, inp)]) refs (cnts[i := cnts ! i + (if inp then 1 else 0)])"
proof -
  have sub: "set refs \<subseteq> R" and len: "length cnts = length refs" using c by (simp_all add: counted_def)
  have i: "i < length refs" "M (refs ! i) a" using hit by (simp_all add: first_index_some)
  have cnt: "unat (cnts ! i) = consumers M uses a" by (rule countedD(2) [OF c a hit])
  have "consumers M uses a \<le> length uses" by (simp add: consumers_def)
  then have inc: "unat (cnts ! i + 1) = Suc (unat (cnts ! i))"
    using cnt few by (simp add: unat_word_ariths)
  have "case first_index (\<lambda>x. M x r) refs of
          None \<Rightarrow> \<forall>b \<in> fst ` set (uses @ [(a, inp)]). \<not> M b r
        | Some j \<Rightarrow> unat (cnts[i := cnts ! i + (if inp then 1 else 0)] ! j) = consumers M (uses @ [(a, inp)]) r"
    if r: "r \<in> R" for r
  proof (cases "M a r")
    case True
    have "first_index (\<lambda>x. M x r) refs = Some i" using classes_first [OF cl a r True sub] hit by simp
    moreover have "consumers M uses r = consumers M uses a"
      using countedD(2) [OF c r] countedD(2) [OF c a hit] calculation by simp
    ultimately show ?thesis using i len inc cnt True by (simp add: consumers_def)
  next
    case False
    have "first_index (\<lambda>x. M x r) refs \<noteq> Some i"
    proof
      assume "first_index (\<lambda>x. M x r) refs = Some i"
      then have "M (refs ! i) r" by (simp add: first_index_some)
      moreover have "refs ! i \<in> R" using i sub by auto
      ultimately show False using i(2) False cl a r unfolding classes_def by meson
    qed
    moreover have "case first_index (\<lambda>x. M x r) refs of None \<Rightarrow> \<forall>b \<in> fst ` set uses. \<not> M b r
        | Some j \<Rightarrow> unat (cnts ! j) = consumers M uses r"
      using c r by (simp add: counted_def)
    ultimately show ?thesis using False by (force simp: consumers_def split: option.split)
  qed
  then show ?thesis using sub len by (simp add: counted_def)
qed

lemma counted_miss:
  assumes cl: "classes M R" and c: "counted M R uses refs cnts" and a: "a \<in> R"
    and miss: "first_index (\<lambda>x. M x a) refs = None"
  shows "counted M R (uses @ [(a, inp)]) (refs @ [a]) (cnts @ [if inp then 1 else 0])"
proof -
  have sub: "set refs \<subseteq> R" and len: "length cnts = length refs" using c by (simp_all add: counted_def)
  have "case first_index (\<lambda>x. M x r) (refs @ [a]) of
          None \<Rightarrow> \<forall>b \<in> fst ` set (uses @ [(a, inp)]). \<not> M b r
        | Some j \<Rightarrow> unat ((cnts @ [if inp then 1 else 0]) ! j) = consumers M (uses @ [(a, inp)]) r"
    if r: "r \<in> R" for r
  proof -
    have old: "case first_index (\<lambda>x. M x r) refs of None \<Rightarrow> \<forall>b \<in> fst ` set uses. \<not> M b r
        | Some j \<Rightarrow> unat (cnts ! j) = consumers M uses r"
      using c r by (simp add: counted_def)
    show ?thesis
    proof (cases "M a r")
      case True
      have "first_index (\<lambda>x. M x r) refs = None" using classes_first [OF cl a r True sub] miss by simp
      moreover from this old have "consumers M uses r = 0" by (auto simp: consumers_def filter_empty_conv)
      ultimately show ?thesis using True by (auto simp: first_index_append consumers_def nth_append len)
    next
      case False
      have "j < length cnts" if "first_index (\<lambda>x. M x r) refs = Some j" for j
        using that len by (simp add: first_index_some)
      with False old show ?thesis
        by (force simp: first_index_append consumers_def nth_append split: option.split)
    qed
  qed
  then show ?thesis using sub len a by (simp add: counted_def)
qed

text \<open>The parent of a reference that has been seen matches it, so its entry is never found.\<close>

lemma counted_parent:
  assumes cl: "classes M R" and c: "counted M R uses refs cnts" and a: "a \<in> R" "a \<in> fst ` set uses"
    and p: "p \<in> R" "M p a"
  shows "counted M R uses (refs @ [p]) (cnts @ [k])"
proof -
  have sub: "set refs \<subseteq> R" and len: "length cnts = length refs" using c by (simp_all add: counted_def)
  have "case first_index (\<lambda>x. M x r) (refs @ [p]) of None \<Rightarrow> \<forall>b \<in> fst ` set uses. \<not> M b r
        | Some j \<Rightarrow> unat ((cnts @ [k]) ! j) = consumers M uses r"
    if r: "r \<in> R" for r
  proof -
    have old: "case first_index (\<lambda>x. M x r) refs of None \<Rightarrow> \<forall>b \<in> fst ` set uses. \<not> M b r
        | Some j \<Rightarrow> unat (cnts ! j) = consumers M uses r"
      using c r by (simp add: counted_def)
    show ?thesis
    proof (cases "first_index (\<lambda>x. M x r) refs")
      case None
      then have "\<not> M a r" using old a(2) by auto
      then have "\<not> M p r" using cl p a(1) r unfolding classes_def by meson
      then show ?thesis using None old by (simp add: first_index_append)
    next
      case (Some j)
      then have "j < length cnts" using len by (simp add: first_index_some)
      then show ?thesis using Some old by (simp add: first_index_append nth_append)
    qed
  qed
  then show ?thesis using sub len p by (simp add: counted_def)
qed

text \<open>The references that the list can hold: the parameters and the parents of those in a group.\<close>

definition param_refs :: "host \<Rightarrow> uintptr \<Rightarrow> uintptr set" where
  "param_refs h g = {a. a \<noteq> 0 \<and> (\<exists>(n, p) \<in> set (all_params h g). a = ownNodeGetParameterRef h (graph_node h g n) p)}"

definition data_refs :: "host \<Rightarrow> uintptr \<Rightarrow> uintptr set" where
  "data_refs h g = param_refs h g \<union> {rf_scope (ho_refs h a) | a. a \<in> param_refs h g \<and> group_scope h a}"

definition num_consumers :: "host \<Rightarrow> uintptr \<Rightarrow> uintptr \<Rightarrow> nat" where
  "num_consumers h g r = length (filter (\<lambda>(n, p).
     let a = ownNodeGetParameterRef h (graph_node h g n) p in
     a \<noteq> 0 \<and> ownNodeGetParameterDir h (graph_node h g n) p \<noteq> VX_OUTPUT \<and> ownGraphCheckIsRefMatch h g a r)
   (all_params h g))"

definition counting :: "host \<Rightarrow> uintptr \<Rightarrow> (uintptr \<times> bool) list \<Rightarrow> host \<Rightarrow> bool" where
  "counting h0 g uses h \<longleftrightarrow> same_params h0 h \<and> arrays_ok h g \<and> length (refs_of h g) \<le> 2 * length uses
     \<and> counted (ownGraphCheckIsRefMatch h0 g) (data_refs h0 g) uses (refs_of h g) (counts_of h g)"

definition countable :: "host \<Rightarrow> uintptr \<Rightarrow> bool" where
  "countable h g \<longleftrightarrow> classes (ownGraphCheckIsRefMatch h g) (data_refs h g)
     \<and> rf_type (ho_refs h g) = VX_TYPE_GRAPH
     \<and> unat (gr_num_nodes (ho_graphs h g)) \<le> length (gr_nodes (ho_graphs h g))
     \<and> length (gr_data_ref (ho_graphs h g)) = TIVX_GRAPH_MAX_DATA_REF
     \<and> length (gr_data_ref_num_in_nodes (ho_graphs h g)) = TIVX_GRAPH_MAX_DATA_REF
     \<and> length (all_params h g) < 256"

lemma parent_matches:
  assumes "group_scope h a" "a \<noteq> 0" "rf_type (ho_refs h g) = VX_TYPE_GRAPH"
  shows "ownGraphCheckIsRefMatch h g (rf_scope (ho_refs h a)) a"
proof -
  have "rf_scope (ho_refs h a) \<noteq> 0" "g \<noteq> rf_scope (ho_refs h a)"
    using assms(1,3) by (auto simp: group_scope_def ownIsValidSpecificReference_def)
  then show ?thesis using assms(2) by (simp add: ownGraphCheckIsRefMatch_def ownGraphIsRefMatch_def)
qed

lemma add_data_reference:
  assumes ok: "countable h0 g" and c: "counting h0 g uses h" and a: "a \<in> param_refs h0 g"
    and few: "length uses < 255"
  shows "\<exists>h'. ownGraphAddDataReference h g a dir True = (h', VX_SUCCESS)
    \<and> counting h0 g (uses @ [(a, dir \<noteq> VX_OUTPUT)]) h'"
proof -
  let ?M = "ownGraphCheckIsRefMatch h0 g" and ?R = "data_refs h0 g"
  let ?uses = "uses @ [(a, dir \<noteq> VX_OUTPUT)]"
  have cl: "classes ?M ?R" using ok by (simp add: countable_def)
  have sp: "same_params h0 h" and ao: "arrays_ok h g" and bound: "length (refs_of h g) \<le> 2 * length uses"
    and cnt: "counted ?M ?R uses (refs_of h g) (counts_of h g)" using c by (simp_all add: counting_def)
  have aR: "a \<in> ?R" using a by (simp add: data_refs_def)
  obtain h1 where h1: "ownGraphAddSingleDataReference h g a dir True = (h1, VX_SUCCESS)" "same_params h h1"
    "arrays_ok h1 g"
    "\<And>i. first_index (\<lambda>r. ?M r a) (refs_of h g) = Some i \<Longrightarrow> refs_of h1 g = refs_of h g
       \<and> counts_of h1 g = (counts_of h g)[i := counts_of h g ! i + (if dir \<noteq> VX_OUTPUT then 1 else 0)]"
    "first_index (\<lambda>r. ?M r a) (refs_of h g) = None \<Longrightarrow> refs_of h1 g = refs_of h g @ [a]
       \<and> counts_of h1 g = counts_of h g @ [if dir \<noteq> VX_OUTPUT then 1 else 0]"
    by (rule add_single [OF ao, where ref = a and check = True and dir = dir])
      (use bound few same_params_fields(1) [OF sp] in auto)
  have sp1: "same_params h0 h1" using same_params_trans [OF sp h1(2)] .
  have cnt1: "counted ?M ?R ?uses (refs_of h1 g) (counts_of h1 g)" "length (refs_of h1 g) \<le> Suc (2 * length uses)"
    using counted_hit [OF cl cnt aR _ few] counted_miss [OF cl cnt aR] h1(4,5) bound
    by (cases "first_index (\<lambda>r. ?M r a) (refs_of h g)"; simp)+
  show ?thesis
  proof (cases "group_scope h0 a")
    case False
    then show ?thesis using h1(1,3) sp1 cnt1 same_params_fields(2) [OF sp1]
      by (auto simp: ownGraphAddDataReference_def counting_def)
  next
    case True
    let ?p = "rf_scope (ho_refs h0 a)"
    have "?p \<in> ?R" using True a by (auto simp: data_refs_def)
    moreover have "a \<noteq> 0" "rf_type (ho_refs h0 g) = VX_TYPE_GRAPH"
      using a ok by (simp_all add: param_refs_def countable_def)
    ultimately have p: "?p \<in> ?R" "?M ?p a" using parent_matches [OF True] by simp_all
    obtain h2 where h2: "ownGraphAddSingleDataReference h1 g ?p dir False = (h2, VX_SUCCESS)"
      "same_params h1 h2" "arrays_ok h2 g" "refs_of h2 g = refs_of h1 g @ [?p]"
      "\<exists>k. counts_of h2 g = counts_of h1 g @ [k]"
      by (rule add_single [OF h1(3), where ref = ?p and check = False and dir = dir])
        (use cnt1(2) few in \<open>auto simp: first_index_none\<close>)
    have "counted ?M ?R ?uses (refs_of h2 g) (counts_of h2 g)"
      using counted_parent [OF cl cnt1(1) aR _ p] h2(4,5) by auto
    then show ?thesis
      using h1(1) h2 same_params_trans [OF sp1 h2(2)] cnt1(2) True same_params_fields(2,6) [OF sp1]
      by (auto simp: ownGraphAddDataReference_def counting_def)
  qed
qed

definition node_uses :: "host \<Rightarrow> uintptr \<Rightarrow> nat list \<Rightarrow> (uintptr \<times> bool) list" where
  "node_uses h n ps = map (\<lambda>p. (ownNodeGetParameterRef h n p, ownNodeGetParameterDir h n p \<noteq> VX_OUTPUT))
     (filter (\<lambda>p. ownNodeGetParameterRef h n p \<noteq> 0) ps)"

lemma add_node_refs_ok:
  assumes "countable h0 g" "counting h0 g uses h" "length (uses @ node_uses h0 n ps) < 256"
    and "fst ` set (node_uses h0 n ps) \<subseteq> param_refs h0 g"
  shows "\<exists>h'. add_node_refs g n h VX_SUCCESS ps = (h', VX_SUCCESS) \<and> counting h0 g (uses @ node_uses h0 n ps) h'"
  using assms
proof (induction ps arbitrary: h uses)
  case Nil
  then show ?case by (simp add: node_uses_def)
next
  case (Cons p ps)
  have eq: "ownNodeGetParameterRef h = ownNodeGetParameterRef h0" "ownNodeGetParameterDir h = ownNodeGetParameterDir h0"
    using Cons.prems(2) same_params_fields [of h0 h] by (simp_all add: counting_def)
  show ?case
  proof (cases "ownNodeGetParameterRef h0 n p = 0")
    case True
    then show ?thesis using Cons.IH [of uses h] Cons.prems eq by (simp add: node_uses_def)
  next
    case False
    let ?a = "ownNodeGetParameterRef h0 n p" and ?d = "ownNodeGetParameterDir h0 n p"
    have uses: "node_uses h0 n (p # ps) = (?a, ?d \<noteq> VX_OUTPUT) # node_uses h0 n ps"
      using False by (simp add: node_uses_def)
    have a: "?a \<in> param_refs h0 g" "length uses < 255" using Cons.prems(3,4) by (simp_all add: uses)
    obtain h1 where h1: "ownGraphAddDataReference h g ?a ?d True = (h1, VX_SUCCESS)"
      "counting h0 g (uses @ [(?a, ?d \<noteq> VX_OUTPUT)]) h1"
      using add_data_reference [OF Cons.prems(1,2) a] by blast
    show ?thesis using Cons.IH [OF Cons.prems(1) h1(2)] Cons.prems(3,4) h1(1) False eq by (simp add: uses)
  qed
qed

lemma add_graph_refs_ok:
  assumes "countable h0 g" "counting h0 g uses h"
    and "\<And>n. num n = unat (ownNodeGetNumParameters h0 n)"
    and "length (uses @ concat (map (\<lambda>n. node_uses h0 n [0..<num n]) ns)) < 256"
    and "fst ` set (concat (map (\<lambda>n. node_uses h0 n [0..<num n]) ns)) \<subseteq> param_refs h0 g"
  shows "\<exists>h'. add_graph_refs g h VX_SUCCESS ns = (h', VX_SUCCESS)
    \<and> counting h0 g (uses @ concat (map (\<lambda>n. node_uses h0 n [0..<num n]) ns)) h'"
  using assms
proof (induction ns arbitrary: h uses)
  case Nil
  then show ?case by simp
next
  case (Cons n ns)
  have eq: "ownNodeGetNumParameters h = ownNodeGetNumParameters h0"
    using Cons.prems(2) same_params_fields [of h0 h] by (simp add: counting_def)
  have "length (uses @ node_uses h0 n [0..<num n]) < 256" "fst ` set (node_uses h0 n [0..<num n]) \<subseteq> param_refs h0 g"
    using Cons.prems(4,5) by auto
  from add_node_refs_ok [OF Cons.prems(1,2) this] obtain h1 where
    h1: "add_node_refs g n h VX_SUCCESS [0..<num n] = (h1, VX_SUCCESS)"
      "counting h0 g (uses @ node_uses h0 n [0..<num n]) h1" by blast
  show ?case using Cons.IH [OF Cons.prems(1) h1(2) Cons.prems(3)] Cons.prems(4,5) h1(1) eq Cons.prems(3) by (simp add: image_Un)
qed

lemma graph_uses:
  assumes "countable h g"
  defines "ref \<equiv> \<lambda>(n, p). ownNodeGetParameterRef h (graph_node h g n) p"
    and "inp \<equiv> \<lambda>(n, p). ownNodeGetParameterDir h (graph_node h g n) p \<noteq> VX_OUTPUT"
  shows "concat (map (\<lambda>n. node_uses h n [0..<unat (ownNodeGetNumParameters h n)]) (nodes_of_graph (ho_graphs h g)))
    = map (\<lambda>x. (ref x, inp x)) (filter (\<lambda>x. ref x \<noteq> 0) (all_params h g))"
proof -
  have "nodes_of_graph (ho_graphs h g) = map (graph_node h g) [0..<unat (gr_num_nodes (ho_graphs h g))]"
    using assms(1) by (auto simp: countable_def nodes_of_graph_def intro!: nth_equalityI)
  then show ?thesis
    by (simp add: all_params_def node_uses_def filter_concat map_concat comp_def filter_map ref_def inp_def)
qed

text \<open>C13: for a graph with fewer than 256 parameters, on whose references matching is an equivalence, the
  list of data references is complete: \<open>ownGraphFindAndAddDataReferences\<close> succeeds, and for every parameter
  the number of nodes found for its reference is the number of input and bidirectional parameters of the
  graph that match it. The number of buffers proposed for it is one more, but at most 31.\<close>

theorem data_ref_consumers:
  assumes "countable h g" "ownGraphFindAndAddDataReferences h g = (h', status)"
  shows "status = VX_SUCCESS \<and> (\<forall>(n, p) \<in> set (all_params h g).
    let node = graph_node h g n; ref = ownNodeGetParameterRef h node p in ref \<noteq> 0 \<longrightarrow>
      ownGraphGetNumInNodes h' g node p = of_nat (num_consumers h g ref)
      \<and> ownGraphGetOptimalNumBuf h' g ref = of_nat (min (1 + num_consumers h g ref) 31))"
proof -
  let ?M = "ownGraphCheckIsRefMatch h g" and ?R = "data_refs h g"
  let ?ref = "\<lambda>(n, p). ownNodeGetParameterRef h (graph_node h g n) p"
  let ?inp = "\<lambda>(n, p). ownNodeGetParameterDir h (graph_node h g n) p \<noteq> VX_OUTPUT"
  let ?uses = "map (\<lambda>x. (?ref x, ?inp x)) (filter (\<lambda>x. ?ref x \<noteq> 0) (all_params h g))"
  define h0 where "h0 = upd_graph g (\<lambda>x. x\<lparr>gr_num_data_ref := 0\<rparr>) h"
  have start: "counting h g [] h0"
    using assms(1) by (simp add: counting_def same_params_def arrays_ok_def counted_def refs_of_def counts_of_def
        countable_def h0_def upd_graph_def)
  have few: "length ?uses < 256"
    using assms(1) by (auto simp: countable_def intro: le_less_trans [OF length_filter_le])
  have sub: "fst ` set ?uses \<subseteq> param_refs h g" by (fastforce simp: param_refs_def)
  have "\<exists>h'. add_graph_refs g h0 VX_SUCCESS (nodes_of_graph (ho_graphs h g)) = (h', VX_SUCCESS) \<and> counting h g ?uses h'"
    using add_graph_refs_ok [OF assms(1) start refl, of "nodes_of_graph (ho_graphs h g)"] few sub
    by (simp only: graph_uses [OF assms(1)] append_Nil)
  then have run: "status = VX_SUCCESS" "counting h g ?uses h'"
    using assms(2) by (auto simp: ownGraphFindAndAddDataReferences_def h0_def)
  have sp: "same_params h h'" and ao: "arrays_ok h' g"
    and cnt: "counted ?M ?R ?uses (refs_of h' g) (counts_of h' g)" using run(2) by (simp_all add: counting_def)
  have "ownGraphGetNumInNodes h' g (graph_node h g n) p = of_nat (num_consumers h g a)
      \<and> ownGraphGetOptimalNumBuf h' g a = of_nat (min (1 + num_consumers h g a) 31)"
    if np: "(n, p) \<in> set (all_params h g)" and a: "a = ownNodeGetParameterRef h (graph_node h g n) p" "a \<noteq> 0" for n p a
  proof -
    have aP: "a \<in> param_refs h g" using np a by (auto simp: param_refs_def)
    then have aR: "a \<in> ?R" by (simp add: data_refs_def)
    have "a \<in> fst ` set ?uses" using np a by force
    moreover have "?M a a" using assms(1) aR by (simp add: countable_def classes_def)
    ultimately have "first_index (\<lambda>x. ?M x a) (refs_of h' g) \<noteq> None" using countedD(1) [OF cnt aR] by blast
    then obtain i where i: "first_index (\<lambda>x. ?M x a) (refs_of h' g) = Some i" by blast
    have "unat (gr_num_data_ref (ho_graphs h' g)) \<le> 512" using ao by (simp add: arrays_ok_def word_le_nat_alt)
    then have idx: "data_ref_index h' g a = Some i"
      using i same_params_fields(1) [OF sp] by (simp add: data_ref_index_def refs_of_def Let_def min_absorb1)
    have il: "i < length (refs_of h' g)" using i by (simp add: first_index_some)
    then have "gr_data_ref_num_in_nodes (ho_graphs h' g) ! i = counts_of h' g ! i"
      using arrays_len [OF ao] by (simp add: counts_of_def refs_of_def)
    moreover have num: "consumers ?M ?uses a = num_consumers h g a"
      by (simp add: consumers_def num_consumers_def filter_map filter_filter comp_def case_prod_unfold Let_def
          conj_ac)
    ultimately have c: "unat (gr_data_ref_num_in_nodes (ho_graphs h' g) ! i) = num_consumers h g a"
      using countedD(2) [OF cnt aR i] by simp
    then have w: "(ucast (gr_data_ref_num_in_nodes (ho_graphs h' g) ! i) :: uint32) = of_nat (num_consumers h g a)"
      by (simp flip: c)
    have lt: "num_consumers h g a < 256" using c unsigned_less [of "gr_data_ref_num_in_nodes (ho_graphs h' g) ! i", where ?'a = nat] by simp
    show ?thesis
      using idx w lt a same_params_fields(3) [OF sp]
      by (auto simp: ownGraphGetNumInNodes_def ownGraphGetOptimalNumBuf_def Let_def word_le_nat_alt unat_of_nat
          min_def unat_word_ariths)
  qed
  with run(1) show ?thesis by (auto simp: Let_def)
qed

section \<open>The depth is that of the longest chain\<close>

text \<open>A chain of nodes, each of which feeds the next.\<close>

definition data_chain :: "host \<Rightarrow> uintptr \<Rightarrow> uintptr list \<Rightarrow> bool" where
  "data_chain h g c \<longleftrightarrow> c \<noteq> [] \<and> set c \<subseteq> set (graph_nodes h g)
     \<and> successively (\<lambda>a b. (a, b) \<in> data_flow h g) c"

definition levels :: "('n \<times> 'n) set \<Rightarrow> 'n set \<Rightarrow> ('n \<Rightarrow> nat) \<Rightarrow> bool" where
  "levels F N D \<longleftrightarrow> F \<subseteq> N \<times> N \<and> (\<forall>(p, n) \<in> F. D p < D n)
     \<and> (\<forall>n \<in> N. D n = 1 \<or> (\<exists>p. (p, n) \<in> F \<and> D n = Suc (D p)))"

lemma chain_to:
  assumes "levels F N D" "n \<in> N"
  shows "\<exists>c. c \<noteq> [] \<and> last c = n \<and> set c \<subseteq> N \<and> successively (\<lambda>a b. (a, b) \<in> F) c \<and> length c = D n"
  using assms(2)
proof (induction "D n" arbitrary: n rule: less_induct)
  case less
  show ?case
  proof (cases "D n = 1")
    case True
    then show ?thesis using less.prems by (intro exI [of _ "[n]"]) simp
  next
    case False
    then obtain p where p: "(p, n) \<in> F" "D n = Suc (D p)" "p \<in> N"
      using assms(1) less.prems by (fastforce simp: levels_def)
    with less.hyps [of p] obtain c where "c \<noteq> []" "last c = p" "set c \<subseteq> N"
      "successively (\<lambda>a b. (a, b) \<in> F) c" "length c = D p" by auto
    then show ?thesis using p less.prems by (intro exI [of _ "c @ [n]"]) (simp add: successively_append_iff)
  qed
qed

lemma chain_le:
  assumes lv: "levels F N D" and c: "c \<noteq> []" "set c \<subseteq> N" "successively (\<lambda>a b. (a, b) \<in> F) c"
  shows "length c \<le> D (last c)"
  using c
proof (induction c rule: rev_induct)
  case Nil
  then show ?case by simp
next
  case (snoc n c)
  show ?case
  proof (cases "c = []")
    case True
    have "D n = 1 \<or> (\<exists>p. (p, n) \<in> F \<and> D n = Suc (D p))" using lv snoc.prems(2) by (simp add: levels_def)
    then show ?thesis using True by auto
  next
    case False
    then have "length c \<le> D (last c)" "(last c, n) \<in> F"
      using snoc by (simp_all add: successively_append_iff)
    then show ?thesis using lv by (fastforce simp: levels_def)
  qed
qed

lemma level_of_sink:
  assumes lv: "levels F N D" and fin: "finite N" and n: "n \<in> N"
  shows "\<exists>m \<in> N. (\<forall>k. (m, k) \<notin> F) \<and> D n \<le> D m"
proof -
  let ?S = "{m \<in> N. D n \<le> D m}"
  have S: "finite (D ` ?S)" "D ` ?S \<noteq> {}" using fin n by auto
  obtain m where m: "m \<in> N" "D n \<le> D m" "D m = Max (D ` ?S)" using Max_in [OF S] by auto
  have "(m, k) \<notin> F" for k
  proof
    assume "(m, k) \<in> F"
    then have k: "k \<in> N" "D m < D k" using lv by (auto simp: levels_def)
    then have "D k \<in> D ` ?S" using m(2) by auto
    then show False using Max_ge [OF S(1)] k(2) m(3) by (simp add: not_le [symmetric])
  qed
  with m show ?thesis by blast
qed

text \<open>The depth that the loop finds: the greatest of those of the nodes that look like leaves.\<close>

lemma deepest_greatest:
  fixes f :: "'n \<Rightarrow> uint32" and P :: "'n \<Rightarrow> bool" and start :: uint32 and ns :: "'n list"
  defines "r \<equiv> foldl (\<lambda>d n. if P n \<and> d \<le> f n then f n else d) start ns"
  shows "start \<le> r" "\<And>n. n \<in> set ns \<Longrightarrow> P n \<Longrightarrow> f n \<le> r" "r = start \<or> (\<exists>n \<in> set ns. P n \<and> r = f n)"
proof -
  have "start \<le> r \<and> (\<forall>n \<in> set ns. P n \<longrightarrow> f n \<le> r) \<and> (r = start \<or> (\<exists>n \<in> set ns. P n \<and> r = f n))"
    unfolding r_def by (induction ns rule: rev_induct) (auto intro: order.trans order.strict_implies_order)
  then show "start \<le> r" "\<And>n. n \<in> set ns \<Longrightarrow> P n \<Longrightarrow> f n \<le> r" "r = start \<or> (\<exists>n \<in> set ns. P n \<and> r = f n)"
    by blast+
qed

lemma add_head_leaf_keep:
  "gr_nodes (fst (add_head n x)) = gr_nodes x" "gr_num_nodes (fst (add_head n x)) = gr_num_nodes x"
  "gr_is_pipeline_depth_set (fst (add_head n x)) = gr_is_pipeline_depth_set x"
  "gr_nodes (fst (add_leaf n x)) = gr_nodes x" "gr_num_nodes (fst (add_leaf n x)) = gr_num_nodes x"
  "gr_is_pipeline_depth_set (fst (add_leaf n x)) = gr_is_pipeline_depth_set x"
  "length (gr_leaf_nodes (fst (add_head n x))) = length (gr_leaf_nodes x)"
  "length (gr_leaf_nodes (fst (add_leaf n x))) = length (gr_leaf_nodes x)"
  by (simp_all add: add_head_def add_leaf_def)

lemma head_leaf_loop_keep:
  assumes "head_leaf_loop h ns x = (x', st)"
  shows "gr_nodes x' = gr_nodes x" "gr_num_nodes x' = gr_num_nodes x"
    "gr_is_pipeline_depth_set x' = gr_is_pipeline_depth_set x"
    "length (gr_leaf_nodes x') = length (gr_leaf_nodes x)"
proof -
  have "gr_nodes x' = gr_nodes x \<and> gr_num_nodes x' = gr_num_nodes x
    \<and> gr_is_pipeline_depth_set x' = gr_is_pipeline_depth_set x
    \<and> length (gr_leaf_nodes x') = length (gr_leaf_nodes x)"
    using assms
  proof (induction ns arbitrary: x)
    case Nil
    then show ?case by simp
  next
    case (Cons n ns)
    obtain x1 s1 where x1: "(if ownNodeGetNumInNodes h n = 0 then add_head n x else (x, VX_SUCCESS)) = (x1, s1)"
      by fastforce
    obtain x2 s2 where x2: "(if ownNodeGetNumOutNodes h n = 0 \<and> s1 = VX_SUCCESS then add_leaf n x1 else (x1, s1))
        = (x2, s2)" by fastforce
    have "gr_nodes x2 = gr_nodes x \<and> gr_num_nodes x2 = gr_num_nodes x
      \<and> gr_is_pipeline_depth_set x2 = gr_is_pipeline_depth_set x
      \<and> length (gr_leaf_nodes x2) = length (gr_leaf_nodes x)"
      using add_head_leaf_keep [of n x] add_head_leaf_keep [of n x1] x1 x2 by (auto split: if_splits)
    moreover have "head_leaf_loop h (n # ns) x = (if vn_super_node (ho_nodes h n) = 0
        then if s2 = VX_SUCCESS then head_leaf_loop h ns x2 else (x2, s2) else head_leaf_loop h ns x)"
      using x1 x2 by simp
    ultimately show ?case
      using Cons.IH [of x2] Cons.IH [of x] Cons.prems by (simp split: if_splits)
  qed
  then show "gr_nodes x' = gr_nodes x" "gr_num_nodes x' = gr_num_nodes x"
    "gr_is_pipeline_depth_set x' = gr_is_pipeline_depth_set x"
    "length (gr_leaf_nodes x') = length (gr_leaf_nodes x)" by blast+
qed

text \<open>After the computation of the leaves, every node without successors is found to be one.\<close>

lemma leaves_found:
  assumes run: "ownGraphCalcHeadAndLeafNodes h g = (h', VX_SUCCESS)"
    and len: "length (gr_head_nodes (ho_graphs h g)) = TIVX_GRAPH_MAX_HEAD_NODES"
      "length (gr_leaf_nodes (ho_graphs h g)) = TIVX_GRAPH_MAX_LEAF_NODES"
    and sup: "\<And>n. n \<in> set (graph_nodes h g) \<Longrightarrow> vn_super_node (ho_nodes h n) = 0"
    and few: "length (filter (\<lambda>n. succs h n = []) (graph_nodes h g)) \<le> 8"
    and n: "n \<in> set (graph_nodes h g)" "succs h n = []"
  shows "isLeafNode h' g n" "ho_nodes h' = ho_nodes h" "nodes_of_graph (ho_graphs h' g) = graph_nodes h g"
    "gr_is_pipeline_depth_set (ho_graphs h' g) = gr_is_pipeline_depth_set (ho_graphs h g)"
proof -
  define g0 where "g0 = (ho_graphs h g)\<lparr>gr_num_head_nodes := 0, gr_num_leaf_nodes := 0\<rparr>"
  have g0: "ends_ok g0" "leaves g0 = []"
    using len by (simp_all add: g0_def ends_ok_def leaves_def)
  obtain g1 where g1: "head_leaf_loop h (graph_nodes h g) g0 = (g1, VX_SUCCESS)" "h' = upd_graph g (\<lambda>_. g1) h"
    using run by (auto simp: ownGraphCalcHeadAndLeafNodes_def g0_def graph_nodes_def Let_def split: prod.splits)
  note keep = head_leaf_loop_keep [OF g1(1)]
  have out: "(ownNodeGetNumOutNodes h m = 0) = (succs h m = [])" for m by (simp add: succs_def unat_eq_0)
  have lv: "leaves g1 = filter (\<lambda>n. succs h n = []) (graph_nodes h g)"
    using head_leaf_loop_correct [OF g0(1), of "graph_nodes h g" h] sup g1(1) by (auto simp: g0(2) out split: if_splits)
  have "set (leaves g1) \<subseteq> set (take 8 (gr_leaf_nodes g1))"
  proof (cases "unat (gr_num_leaf_nodes g1) \<le> 8")
    case True
    then show ?thesis by (simp add: leaves_def set_take_subset_set_take)
  next
    case False
    then have "8 < length (leaves g1)" using keep(4) len(2) by (simp add: leaves_def g0_def)
    then show ?thesis using few lv by simp
  qed
  then show "isLeafNode h' g n" using n lv by (auto simp: isLeafNode_def g1(2) upd_graph_def)
  show "ho_nodes h' = ho_nodes h" "nodes_of_graph (ho_graphs h' g) = graph_nodes h g"
    "gr_is_pipeline_depth_set (ho_graphs h' g) = gr_is_pipeline_depth_set (ho_graphs h g)"
    using keep by (simp_all add: g1(2) upd_graph_def nodes_of_graph_def graph_nodes_def g0_def)
qed

lemma same_links_super:
  assumes "same_links h h'" shows "vn_super_node (ho_nodes h' n) = vn_super_node (ho_nodes h n)"
proof -
  obtain c d where "ho_nodes h' n = (ho_nodes h n)\<lparr>vn_incounter := c, vn_node_depth := d\<rparr>"
    using assms unfolding same_links_def by metis
  then show ?thesis by simp
qed

text \<open>The depths after the sort are the levels of the data flow.\<close>

lemma sort_levels:
  assumes un: "unlinked h g" and calc: "ownGraphCalcInAndOutNodes h g = (h1, VX_SUCCESS)"
    and num: "gr_num_nodes (ho_graphs h g) < TIVX_GRAPH_MAX_NODES" and mem: "sort_memory_ok h"
    and one: "\<forall>n \<in> set (graph_nodes h g). vn_node_depth (ho_nodes h n) = 1"
    and sort: "ownGraphTopologicalSort h1 (gr_nodes (ho_graphs h1 g)) (gr_num_nodes (ho_graphs h1 g)) False
      = Some (h2, nodes', False)"
  shows "levels (data_flow h g) (set (graph_nodes h g)) (\<lambda>n. unat (vn_node_depth (ho_nodes h2 n)))"
    "same_links h1 h2" "set (take (unat (gr_num_nodes (ho_graphs h g))) nodes') = set (graph_nodes h g)"
    "unat (gr_num_nodes (ho_graphs h g)) \<le> length nodes'"
proof -
  let ?ns = "graph_nodes h g" and ?g = "ho_graphs h g"
  note he = calc_links_holds [OF un calc]
  note f = only_sys_fields [OF he(1)]
  note lk = holds_edges_links [OF he(2)]
  have len: "length ?ns = unat (gr_num_nodes ?g)" "unat (gr_num_nodes ?g) \<le> length (gr_nodes ?g)"
    using un by (simp_all add: unlinked_def links_input_def graph_nodes_def)
  have mem': "sort_memory_ok h1" "\<forall>n \<in> set ?ns. unat (vn_node_depth (ho_nodes h1 n)) + 128 < 2 ^ 32"
    using mem one by (simp_all add: sort_memory_ok_def f)
  have sort': "ownGraphTopologicalSort h1 (gr_nodes ?g) (gr_num_nodes ?g) False = Some (h2, nodes', False)"
    using sort by (simp add: f)
  from graph_sort_facts [OF num len(2) graph_nodes_def lk(1) mem', of False] sort'
  obtain ns' where ns': "nodes' = ns' @ drop (unat (gr_num_nodes ?g)) (gr_nodes ?g)" "mset ns' = mset ?ns"
    and acyc: "acyclic (link_edges (preds h1) ?ns)" and same: "same_links h1 h2" by auto
  have "length ns' = length ?ns" using mset_eq_length [OF ns'(2)] .
  then show "set (take (unat (gr_num_nodes ?g)) nodes') = set ?ns" "unat (gr_num_nodes ?g) \<le> length nodes'"
    using ns' len mset_eq_setD [OF ns'(2)] by simp_all
  show "same_links h1 h2" by (rule same)
  have D: "(\<forall>p \<in> set (preds h1 n). vn_node_depth (ho_nodes h2 p) < vn_node_depth (ho_nodes h2 n))
      \<and> (vn_node_depth (ho_nodes h2 n) = 1
         \<or> (\<exists>p \<in> set (preds h1 n). vn_node_depth (ho_nodes h2 n) = vn_node_depth (ho_nodes h2 p) + 1))"
    if "n \<in> set ?ns" for n
    using graph_sort_depth [OF num len(2) graph_nodes_def lk(1) mem' acyc, of False] sort' that one by (auto simp: f)
  have F: "data_flow h g \<subseteq> set ?ns \<times> set ?ns" using he(2) by (simp add: holds_edges_def)
  have up: "unat (vn_node_depth (ho_nodes h2 p)) < unat (vn_node_depth (ho_nodes h2 n))"
    if "(p, n) \<in> data_flow h g" for p n
    using that F lk(3) [of n] D [of n] by (auto simp: word_less_nat_alt)
  moreover have "unat (vn_node_depth (ho_nodes h2 n)) = 1
      \<or> (\<exists>p. (p, n) \<in> data_flow h g
           \<and> unat (vn_node_depth (ho_nodes h2 n)) = Suc (unat (vn_node_depth (ho_nodes h2 p))))"
    if n: "n \<in> set ?ns" for n
  proof (cases "vn_node_depth (ho_nodes h2 n) = 1")
    case False
    then obtain p where p: "p \<in> set (preds h1 n)" "vn_node_depth (ho_nodes h2 n) = vn_node_depth (ho_nodes h2 p) + 1"
      using D [OF n] by blast
    then have "vn_node_depth (ho_nodes h2 p) < vn_node_depth (ho_nodes h2 p) + 1" using D [OF n] by metis
    then have "unat (vn_node_depth (ho_nodes h2 n)) = Suc (unat (vn_node_depth (ho_nodes h2 p)))"
      using unat_inc_below p(2) by simp
    with p(1) lk(3) [OF n] show ?thesis by blast
  qed simp
  ultimately show "levels (data_flow h g) (set ?ns) (\<lambda>n. unat (vn_node_depth (ho_nodes h2 n)))"
    using F unfolding levels_def by blast
qed

definition sinks :: "host \<Rightarrow> uintptr \<Rightarrow> uintptr set" where
  "sinks h g = {n \<in> set (graph_nodes h g). \<forall>m. (n, m) \<notin> data_flow h g}"


section \<open>Examples\<close>

text \<open>Node 2 writes 0x60, which node 1 reads, in a graph at 0x700.\<close>

definition two_refs :: host where
  "two_refs = two_nodes\<lparr>ho_refs := (\<lambda>r. if r = 0x700 then zero_ref\<lparr>rf_type := VX_TYPE_GRAPH\<rparr> else zero_ref)\<rparr>"

lemma two_refs_get:
  "all_params two_refs g = [(0, 0), (0, 1), (1, 0)]" "graph_node two_refs g 0 = 1" "graph_node two_refs g (Suc 0) = 2"
  "ownNodeGetParameterRef two_refs n p = ownNodeGetParameterRef two_nodes n p"
  "ownNodeGetParameterDir two_refs n p = ownNodeGetParameterDir two_nodes n p"
  "ho_graphs two_refs = ho_graphs two_nodes"
  "ownGraphCheckIsRefMatch two_refs g a b \<longleftrightarrow> a = b \<and> a \<noteq> 0"
proof -
  have num: "ownNodeGetNumParameters two_refs = ownNodeGetNumParameters two_nodes"
    by (simp add: fun_eq_iff two_refs_def ownNodeGetNumParameters_def)
  show gr: "ho_graphs two_refs = ho_graphs two_nodes" by (simp add: two_refs_def)
  show "all_params two_refs g = [(0, 0), (0, 1), (1, 0)]"
    using two_nodes_get(1) [of g] by (simp add: all_params_def num gr)
  show "graph_node two_refs g 0 = 1" "graph_node two_refs g (Suc 0) = 2" by (simp_all add: gr two_nodes_get)
  show "ownNodeGetParameterRef two_refs n p = ownNodeGetParameterRef two_nodes n p"
    "ownNodeGetParameterDir two_refs n p = ownNodeGetParameterDir two_nodes n p"
    by (simp_all add: two_refs_def ownNodeGetParameterRef_def ownNodeGetParameterDir_def)
  show "ownGraphCheckIsRefMatch two_refs g a b \<longleftrightarrow> a = b \<and> a \<noteq> 0"
    by (auto simp: ownGraphCheckIsRefMatch_def ownGraphIsRefMatch_def two_refs_def zero_ref_def)
qed

theorem data_ref_consumers_witness:
  "\<exists>h'. ownGraphFindAndAddDataReferences two_refs 0x700 = (h', VX_SUCCESS)
    \<and> ownGraphGetNumInNodes h' 0x700 2 0 = 1 \<and> ownGraphGetOptimalNumBuf h' 0x700 0x60 = 2"
proof -
  obtain h' st where run: "ownGraphFindAndAddDataReferences two_refs 0x700 = (h', st)" by fastforce
  have "countable two_refs 0x700"
    by (auto simp: countable_def classes_def two_refs_get two_nodes_fields zero_graph_def data_refs_def
        param_refs_def group_scope_def ownIsValidSpecificReference_def)
      (simp_all add: two_refs_def zero_ref_def two_nodes_get split: if_splits)
  moreover have "num_consumers two_refs 0x700 0x60 = 1"
    by (simp add: num_consumers_def two_refs_get two_nodes_get)
  ultimately show ?thesis
    using data_ref_consumers [OF _ run] run by (auto simp: two_refs_get two_nodes_get Let_def)
qed


end
