(* ===== verification/Node_Stages.thy ===== *)
theory Node_Stages
  imports Data_Refs
begin

text \<open>
  The stages of a pipeline, \<open>ownGraphNodePipeline\<close> of \<open>source/framework/vx_graph_verify.c\<close> with the
  functions of \<open>source/framework/vx_node.c\<close> that it calls: every node of a graph of depth \<open>d\<close> gets \<open>d\<close>
  descriptors, and the descriptors of stage \<open>p\<close> name each other as those of stage 0 do. Each stage is shown
  to be a copy of the graph: it has the links of the graph between its own descriptors, and every
  descriptor knows that of its node in the stage before.
\<close>

section \<open>Descriptors of nodes\<close>

definition upd_stage :: "nat \<Rightarrow> (tivx_obj_desc_node \<Rightarrow> tivx_obj_desc_node) \<Rightarrow> host \<Rightarrow> host" where
  "upd_stage i f h = h\<lparr>ho_sys := upd_node i f (ho_sys h)\<rparr>"

text \<open>The descriptor of a node in a stage: \<open>node->obj_desc[p]\<close>.\<close>

definition stage_idx :: "host \<Rightarrow> uintptr \<Rightarrow> nat \<Rightarrow> nat" where
  "stage_idx h n p = the (vn_obj_desc (ho_nodes h n) ! p)"

abbreviation (input) stage_of :: "host \<Rightarrow> uintptr \<Rightarrow> nat \<Rightarrow> tivx_obj_desc_node" where
  "stage_of h n p \<equiv> node_of (ho_sys h) (stage_idx h n p)"

abbreviation (input) stage_id :: "host \<Rightarrow> uintptr \<Rightarrow> nat \<Rightarrow> uint16" where
  "stage_id h n p \<equiv> od_obj_desc_id (sys_desc (ho_sys h) (stage_idx h n p))"

definition ownNodeGetObjDescId :: "host \<Rightarrow> uintptr \<Rightarrow> nat \<Rightarrow> uint16" where
  "ownNodeGetObjDescId h node pipeline_id =
     (if node \<noteq> 0 \<and> pipeline_id < unat (vn_pipeline_depth (ho_nodes h node))
         \<and> vn_obj_desc (ho_nodes h node) ! pipeline_id \<noteq> None
      then stage_id h node pipeline_id else TIVX_OBJ_DESC_INVALID)"

definition ownNodeSetObjDescParamDirection :: "host \<Rightarrow> uintptr \<Rightarrow> host" where
  "ownNodeSetObjDescParamDirection h node =
     (let prms = [0..<unat (ownNodeGetNumParameters h node)];
          mask = (\<lambda>dir. foldl (\<lambda>m i. if ownNodeGetParameterDir h node i = dir
                                   then tivxFlagBitSet m (push_bit i 1) else m) 0 prms)
      in upd_stage (stage_idx h node 0)
           (\<lambda>d. d\<lparr>nd_is_prm_input := mask VX_INPUT, nd_is_prm_bidi := mask VX_BIDIRECTIONAL\<rparr>) h)"

section \<open>Allocation\<close>

text \<open>A new descriptor gets what the first one holds; ids that belong to a stage come later.\<close>

definition copy_desc :: "tivx_obj_desc_node \<Rightarrow> nat \<Rightarrow> tivx_obj_desc_node \<Rightarrow> tivx_obj_desc_node" where
  "copy_desc d0 pipe_id d = d\<lparr>
     nd_flags := nd_flags d0, nd_kernel_id := nd_kernel_id d0,
     nd_kernel_name_obj_desc_id := nd_kernel_name_obj_desc_id d0, nd_target_id := nd_target_id d0,
     nd_node_complete_cmd_obj_desc_id := ucast TIVX_OBJ_DESC_INVALID,
     nd_exe_status := 0, nd_error_info := 0, nd_exe_time_beg := (0, 0), nd_exe_time_end := (0, 0),
     nd_num_params := nd_num_params d0, nd_num_out_nodes := nd_num_out_nodes d0,
     nd_num_in_nodes := nd_num_in_nodes d0,
     nd_border_mode := tivx_obj_desc_memcpy (nd_border_mode d) (nd_border_mode d0) 20,
     nd_is_prm_replicated := nd_is_prm_replicated d0, nd_num_of_replicas := nd_num_of_replicas d0,
     nd_debug_zonemask := nd_debug_zonemask d0,
     nd_data_id := nd_data_id d0, nd_data_ref_q_id := replicate 32 TIVX_OBJ_DESC_INVALID,
     nd_out_node_id := nd_out_node_id d0, nd_in_node_id := nd_in_node_id d0,
     nd_state := nd_state d0, nd_blocked_node_id := nd_blocked_node_id d0,
     nd_pipeline_id := of_nat pipe_id, nd_prev_pipe_node_id := TIVX_OBJ_DESC_INVALID,
     nd_is_prm_input := nd_is_prm_input d0, nd_is_prm_bidi := nd_is_prm_bidi d0,
     nd_is_prm_data_ref_q := 0, nd_is_prm_array_element := 0\<rparr>"

text \<open>The loop goes on after a failure; the status stays.\<close>

definition alloc_stage ::
  "platform_ids \<Rightarrow> uintptr \<Rightarrow> host \<times> vx_status \<Rightarrow> nat \<Rightarrow> host \<times> vx_status" where
  "alloc_stage pf node hs pipe_id =
     (case hs of (h, status) \<Rightarrow>
       (case ownObjDescAlloc pf (sys_tbl (ho_sys h)) TIVX_OBJ_DESC_NODE node of
          (t, od) \<Rightarrow>
            (let h1 = upd_vnode node (\<lambda>v. v\<lparr>vn_obj_desc := (vn_obj_desc v)[pipe_id := od]\<rparr>)
                        (h\<lparr>ho_sys := (ho_sys h)\<lparr>sys_tbl := t\<rparr>\<rparr>)
             in case od of
                  Some i \<Rightarrow> (upd_stage i (copy_desc (stage_of h1 node 0) pipe_id) h1, status)
                | None \<Rightarrow> (h1, VX_ERROR_NO_RESOURCES))))"

definition link_prev :: "uintptr \<Rightarrow> nat \<Rightarrow> host \<Rightarrow> nat \<Rightarrow> host" where
  "link_prev node depth h pipe_id =
     (let prev_pipe_id = (pipe_id + depth - 1) mod depth
      in upd_stage (stage_idx h node pipe_id)
           (\<lambda>d. d\<lparr>nd_prev_pipe_node_id := stage_id h node prev_pipe_id\<rparr>) h)"

text \<open>Nothing is done for a node that has a pipeline already. The array \<open>obj_desc\<close> has 16 elements;
  the code does not check the depth against it.\<close>

definition ownNodeAllocObjDescForPipeline ::
  "platform_ids \<Rightarrow> host \<Rightarrow> uintptr \<Rightarrow> uint32 \<Rightarrow> host \<times> vx_status" where
  "ownNodeAllocObjDescForPipeline pf h node pipeline_depth =
     (if vn_pipeline_depth (ho_nodes h node) = 1 \<and> pipeline_depth > 1 then
        (let d = unat pipeline_depth;
             h1 = upd_vnode node (\<lambda>v. v\<lparr>vn_pipeline_depth := pipeline_depth\<rparr>) h
         in case foldl (alloc_stage pf node) (h1, VX_SUCCESS) [1..<d] of
              (h2, status) \<Rightarrow>
                (if status = VX_SUCCESS then foldl (link_prev node d) h2 [0..<d] else h2, status))
      else (h, VX_SUCCESS))"

section \<open>Links within a stage\<close>

text \<open>The ids of one array, translated to the stage.\<close>

definition stage_links :: "host \<Rightarrow> nat \<Rightarrow> uint32 \<Rightarrow> uint16 list \<Rightarrow> uint16 list \<Rightarrow> uint16 list" where
  "stage_links h pipe_id num ids0 ids =
     foldl (\<lambda>l k. l[k := ownNodeGetObjDescId h (node_of_id h (ids0 ! k)) pipe_id]) ids [0..<unat num]"

definition link_stage :: "uintptr \<Rightarrow> host \<Rightarrow> nat \<Rightarrow> host" where
  "link_stage node h pipe_id =
     (let d0 = stage_of h node 0 in
      upd_stage (stage_idx h node pipe_id)
        (\<lambda>d. d\<lparr>nd_in_node_id := stage_links h pipe_id (nd_num_in_nodes d0) (nd_in_node_id d0) (nd_in_node_id d),
               nd_out_node_id := stage_links h pipe_id (nd_num_out_nodes d0) (nd_out_node_id d0)
                                   (nd_out_node_id d)\<rparr>) h)"

definition ownNodeLinkObjDescForPipeline :: "host \<Rightarrow> uintptr \<Rightarrow> host" where
  "ownNodeLinkObjDescForPipeline h node =
     foldl (link_stage node) h [1..<unat (vn_pipeline_depth (ho_nodes h node))]"

section \<open>Data reference queues and array elements\<close>

definition ownDataRefQueueGetObjDescId :: "host \<Rightarrow> uintptr \<Rightarrow> nat \<Rightarrow> uint16" where
  "ownDataRefQueueGetObjDescId h ref pipeline_id =
     (if ref \<noteq> 0 \<and> pipeline_id < unat (dq_pipeline_depth (ho_data_ref_queues h ref))
      then od_obj_desc_id (sys_desc (ho_sys h) (the (dq_obj_desc (ho_data_ref_queues h ref) ! pipeline_id)))
      else TIVX_OBJ_DESC_INVALID)"

definition ownNodeLinkDataRefQueue :: "host \<Rightarrow> uintptr \<Rightarrow> nat \<Rightarrow> uintptr \<Rightarrow> host" where
  "ownNodeLinkDataRefQueue h node prm_id data_ref_q =
     foldl (\<lambda>h pipe_id. upd_stage (stage_idx h node pipe_id)
         (\<lambda>d. d\<lparr>nd_is_prm_data_ref_q := tivxFlagBitSet (nd_is_prm_data_ref_q d) (push_bit prm_id 1),
                nd_data_ref_q_id := (nd_data_ref_q_id d)[prm_id := ownDataRefQueueGetObjDescId h data_ref_q pipe_id]\<rparr>) h)
       h [0..<unat (vn_pipeline_depth (ho_nodes h node))]"

definition ownNodeLinkArrayElement :: "host \<Rightarrow> uintptr \<Rightarrow> nat \<Rightarrow> host" where
  "ownNodeLinkArrayElement h node prm_id =
     foldl (\<lambda>h pipe_id. upd_stage (stage_idx h node pipe_id)
         (\<lambda>d. d\<lparr>nd_is_prm_array_element := tivxFlagBitSet (nd_is_prm_array_element d) (push_bit prm_id 1)\<rparr>) h)
       h [0..<unat (vn_pipeline_depth (ho_nodes h node))]"

definition ownGraphLinkArrayElements :: "host \<Rightarrow> uintptr \<Rightarrow> host" where
  "ownGraphLinkArrayElements h graph =
     foldl (\<lambda>h (n, p).
         let node = graph_node h graph n; ref = ownNodeGetParameterRef h node p in
         if ref \<noteq> 0 \<and> rf_is_array_element (ho_refs h ref) then ownNodeLinkArrayElement h node p else h)
       h (all_params h graph)"

text \<open>All parameters of the graph whose reference is that of parameter \<open>idx\<close> of \<open>node\<close>, or is its parent
  or its element.\<close>

definition ownGraphLinkDataReferenceQueuesToNodeIndex ::
  "host \<Rightarrow> uintptr \<Rightarrow> uintptr \<Rightarrow> uintptr \<Rightarrow> nat \<Rightarrow> host" where
  "ownGraphLinkDataReferenceQueuesToNodeIndex h graph data_ref_q node idx =
     (let node_prm_ref = ownNodeGetParameterRef h node idx in
      foldl (\<lambda>h (n, p).
          let node = graph_node h graph n; ref = ownNodeGetParameterRef h node p in
          if ref \<noteq> 0 \<and> node_prm_ref \<noteq> 0
             \<and> (ref = node_prm_ref \<or> node_prm_ref = rf_scope (ho_refs h ref)
                \<or> rf_scope (ho_refs h node_prm_ref) = ref)
          then ownNodeLinkDataRefQueue h node p data_ref_q else h)
        h (all_params h graph))"

definition ownNodeIsPrmReplicated :: "host \<Rightarrow> uintptr \<Rightarrow> nat \<Rightarrow> bool" where
  "ownNodeIsPrmReplicated h node prm_idx \<longleftrightarrow> node \<noteq> 0 \<and> obj_desc0 h node \<noteq> None
     \<and> tivxFlagIsBitSet (nd_flags (nd0 h node)) TIVX_NODE_FLAG_IS_REPLICATED
     \<and> vn_replicated_flags (ho_nodes h node) ! prm_idx"

abbreviation (input) TIVX_GRAPH_MAX_PARAMS :: "'a::numeral" where "TIVX_GRAPH_MAX_PARAMS \<equiv> 16"
abbreviation (input) TIVX_GRAPH_MAX_DATA_REF_QUEUE :: "'a::numeral" where "TIVX_GRAPH_MAX_DATA_REF_QUEUE \<equiv> 96"

definition upd_queue_entry ::
  "uintptr \<Rightarrow> (tivx_data_ref_q_list_t \<Rightarrow> tivx_data_ref_q_list_t) \<Rightarrow> host \<Rightarrow> host" where
  "upd_queue_entry graph f h = upd_graph graph (\<lambda>x. x\<lparr>gr_data_ref_q_list :=
     (gr_data_ref_q_list x)[unat (gr_num_data_ref_q x) := f (gr_data_ref_q_list x ! unat (gr_num_data_ref_q x))]\<rparr>) h"

text \<open>The additional buffers, made by \<open>tivxCreateReferenceFromExemplar\<close> (the argument \<open>create\<close>). For a
  replicated parameter a whole group is made and its first element is used.\<close>

fun create_bufs ::
  "(host \<Rightarrow> uintptr \<Rightarrow> host \<times> uintptr) \<Rightarrow> uintptr \<Rightarrow> bool \<Rightarrow> uintptr \<Rightarrow> host \<Rightarrow> vx_status \<Rightarrow> nat list \<Rightarrow>
   host \<times> vx_status" where
  "create_bufs create graph is_replicated exemplar h status [] = (h, status)"
| "create_bufs create graph is_replicated exemplar h status (buf_id # buf_ids) =
     (case create h exemplar of
        (h1, ref) \<Rightarrow>
          if ref = 0 then (h1, VX_ERROR_NO_RESOURCES)
          else if status \<noteq> VX_SUCCESS then (h1, status)
          else
           (let ok = (is_replicated \<longrightarrow> ownIsValidSpecificReference h1 ref VX_TYPE_PYRAMID
                        \<or> ownIsValidSpecificReference h1 ref VX_TYPE_OBJECT_ARRAY);
                buf = (if \<not> ok then 0 else if is_replicated then rf_items (ho_refs h1 ref) ! 0 else ref);
                h2 = upd_queue_entry graph (\<lambda>e. e\<lparr>qe_refs_list := (qe_refs_list e)[buf_id := buf]\<rparr>) h1
            in if ok then create_bufs create graph is_replicated exemplar h2 status buf_ids
               else (h2, VX_FAILURE)))"

definition needs_data_ref_q :: "host \<Rightarrow> uintptr \<Rightarrow> uintptr \<Rightarrow> nat \<Rightarrow> bool" where
  "needs_data_ref_q h graph node idx \<longleftrightarrow>
     (let ref = ownNodeGetParameterRef h node idx in
      ownNodeGetParameterDir h node idx \<noteq> VX_INPUT \<and> ref \<noteq> 0
    \<and> (ownGraphGetNumInNodes h graph node idx \<noteq> 0
       \<or> rf_delay (ho_refs h ref) \<noteq> 0 \<and> ownIsValidSpecificReference h (rf_delay (ho_refs h ref)) VX_TYPE_DELAY))"

definition queued_param :: "host \<Rightarrow> uintptr \<Rightarrow> uintptr \<Rightarrow> bool" where
  "queued_param h graph ref \<longleftrightarrow>
     list_ex (\<lambda>gp. ref = ownNodeGetParameterRef h (gp_node gp) (unat (gp_index gp)) \<and> gp_queue_enable gp)
       (take TIVX_GRAPH_MAX_PARAMS (graph_params (ho_graphs h graph)))"

definition ownGraphAddDataRefQ ::
  "(host \<Rightarrow> uintptr \<Rightarrow> host \<times> uintptr) \<Rightarrow> host \<Rightarrow> uintptr \<Rightarrow> uintptr \<Rightarrow> nat \<Rightarrow> host \<times> vx_status" where
  "ownGraphAddDataRefQ create h graph node idx =
     (let ref = ownNodeGetParameterRef h node idx in
      if needs_data_ref_q h graph node idx \<and> \<not> queued_param h graph ref then
       (let st0 = (if gr_num_params (ho_graphs h graph) > TIVX_GRAPH_MAX_PARAMS
                   then VX_ERROR_INVALID_VALUE else VX_SUCCESS) in
        if gr_num_data_ref_q (ho_graphs h graph) < TIVX_GRAPH_MAX_DATA_REF_QUEUE then
         (let h1 = upd_queue_entry graph (\<lambda>e. e\<lparr>qe_node := node, qe_index := of_nat idx, qe_num_buf := 1,
                       qe_data_ref_queue := 0, qe_refs_list := (qe_refs_list e)[0 := ref]\<rparr>) h;
              num_buf = ownNodeGetParameterNumBuf h1 node (of_nat idx);
              is_replicated = ownNodeIsPrmReplicated h1 node idx;
              exemplar = (if is_replicated then rf_scope (ho_refs h1 ref) else ref)
          in case (if num_buf > 0
                   then create_bufs create graph is_replicated exemplar h1 st0 [1..<unat num_buf]
                   else (h1, st0)) of
               (h2, status) \<Rightarrow>
                 if status = VX_SUCCESS then
                   (upd_graph graph (\<lambda>x. x\<lparr>gr_num_data_ref_q := gr_num_data_ref_q x + 1\<rparr>)
                      (if num_buf > 0 then upd_queue_entry graph (\<lambda>e. e\<lparr>qe_num_buf := num_buf\<rparr>) h2 else h2), status)
                 else (h2, status))
        else (h, VX_ERROR_NO_RESOURCES))
      else (h, VX_SUCCESS))"

section \<open>The graph\<close>

text \<open>The three parts of \<open>ownGraphNodePipeline\<close>: the depth, the descriptors and the data reference
  queues.\<close>

definition choose_depth :: "host \<Rightarrow> uintptr \<Rightarrow> host" where
  "choose_depth h graph =
     (let g = ho_graphs h graph;
          depth = (if gr_is_pipelining_enabled g \<and> \<not> gr_is_pipeline_depth_set g
                   then ownGraphGetPipeDepth h graph else gr_pipeline_depth g);
          bufs = (\<lambda>n. krn_num_pipeup_bufs (ho_kernels h (vn_kernel (ho_nodes h n))))
      in upd_graph graph (\<lambda>x. x\<lparr>gr_pipeline_depth :=
           foldl (\<lambda>d n. if bufs n \<ge> d then bufs n else d) depth (nodes_of_graph g)\<rparr>) h)"

fun alloc_nodes :: "platform_ids \<Rightarrow> uint32 \<Rightarrow> host \<Rightarrow> uintptr list \<Rightarrow> host \<times> vx_status" where
  "alloc_nodes pf depth h [] = (h, VX_SUCCESS)"
| "alloc_nodes pf depth h (n # ns) =
     (case ownNodeAllocObjDescForPipeline pf (ownNodeSetObjDescParamDirection h n) n depth of
        (h1, status) \<Rightarrow> if status = VX_SUCCESS then alloc_nodes pf depth h1 ns else (h1, status))"

definition make_stages :: "platform_ids \<Rightarrow> host \<Rightarrow> uintptr \<Rightarrow> host \<times> vx_status" where
  "make_stages pf h graph =
     (let ns = nodes_of_graph (ho_graphs h graph) in
      case alloc_nodes pf (gr_pipeline_depth (ho_graphs h graph)) h ns of
        (h1, status) \<Rightarrow> (if status = VX_SUCCESS then foldl ownNodeLinkObjDescForPipeline h1 ns else h1, status))"

fun add_queues ::
  "(host \<Rightarrow> uintptr \<Rightarrow> host \<times> uintptr) \<Rightarrow> uintptr \<Rightarrow> host \<Rightarrow> (nat \<times> nat) list \<Rightarrow> host \<times> vx_status" where
  "add_queues create graph h [] = (h, VX_SUCCESS)"
| "add_queues create graph h ((n, p) # prms) =
     (case ownGraphAddDataRefQ create h graph (graph_node h graph n) p of
        (h1, status) \<Rightarrow> if status = VX_SUCCESS then add_queues create graph h1 prms else (h1, status))"

definition ownGraphNodePipeline ::
  "platform_ids \<Rightarrow> (host \<Rightarrow> uintptr \<Rightarrow> host \<times> uintptr) \<Rightarrow> host \<Rightarrow> uintptr \<Rightarrow> host \<times> vx_status" where
  "ownGraphNodePipeline pf create h graph =
     (case make_stages pf (choose_depth h graph) graph of
        (h1, status) \<Rightarrow>
          if status = VX_SUCCESS \<and> (gr_schedule_mode (ho_graphs h1 graph)
                \<in> {VX_GRAPH_SCHEDULE_MODE_QUEUE_AUTO, VX_GRAPH_SCHEDULE_MODE_QUEUE_MANUAL}
              \<or> gr_pipeline_depth (ho_graphs h1 graph) > 1)
          then add_queues create graph h1 (all_params h1 graph) else (h1, status))"

section \<open>The debug zones of a node\<close>

abbreviation (input) VX_ZONE_MAX :: vx_enum where "VX_ZONE_MAX \<equiv> 3"

text \<open>The bound is checked after a cast to a signed type.\<close>

definition tivxSetNodeDebugZone :: "host \<Rightarrow> uintptr \<Rightarrow> uint32 \<Rightarrow> bool \<Rightarrow> host \<times> vx_status" where
  "tivxSetNodeDebugZone h node debug_zone enable =
     (if ownIsValidSpecificReference h node VX_TYPE_NODE then
        (if sint debug_zone \<ge> sint VX_ZONE_MAX then (h, VX_ERROR_INVALID_PARAMETERS)
         else (let bit = push_bit (unat debug_zone) 1;
                   ps = takeWhile (\<lambda>p. vn_obj_desc (ho_nodes h node) ! p \<noteq> None) [0..<TIVX_GRAPH_MAX_PIPELINE_DEPTH]
               in (foldl (\<lambda>h p. upd_stage (stage_idx h node p) (\<lambda>d. d\<lparr>nd_debug_zonemask :=
                           (if enable then nd_debug_zonemask d OR bit else nd_debug_zonemask d AND NOT bit)\<rparr>) h)
                     h ps, VX_SUCCESS)))
      else (h, VX_ERROR_INVALID_REFERENCE))"

definition tivxGetNodeDebugZonemask :: "host \<Rightarrow> uintptr \<Rightarrow> uint32" where
  "tivxGetNodeDebugZonemask h node =
     (if ownIsValidSpecificReference h node VX_TYPE_NODE then nd_debug_zonemask (stage_of h node 0) else 0)"

section \<open>What writing through a descriptor changes\<close>

text \<open>The shape of a state: which descriptors there are, of which type and of which node.\<close>

definition same_shape :: "host \<Rightarrow> host \<Rightarrow> bool" where
  "same_shape h h' \<longleftrightarrow> ho_nodes h' = ho_nodes h \<and> ho_refs h' = ho_refs h \<and> ho_kernels h' = ho_kernels h
     \<and> ho_graphs h' = ho_graphs h \<and> num_entries (sys_tbl (ho_sys h')) = num_entries (sys_tbl (ho_sys h))
     \<and> odt_last_alloc_index (sys_tbl (ho_sys h')) = odt_last_alloc_index (sys_tbl (ho_sys h))
     \<and> (\<forall>j. od_type (sys_desc (ho_sys h') j) = od_type (sys_desc (ho_sys h) j)
          \<and> od_obj_desc_id (sys_desc (ho_sys h') j) = od_obj_desc_id (sys_desc (ho_sys h) j)
          \<and> od_host_ref (sys_desc (ho_sys h') j) = od_host_ref (sys_desc (ho_sys h) j))"

lemma same_shape_refl [simp]: "same_shape h h"
  by (simp add: same_shape_def)

lemma same_shape_trans: "same_shape h h1 \<Longrightarrow> same_shape h1 h2 \<Longrightarrow> same_shape h h2"
  by (simp add: same_shape_def)

lemma upd_stage_shape [simp]: "same_shape h (upd_stage i f h)"
  by (simp add: same_shape_def upd_stage_def upd_node_def upd_desc_def nth_update)

lemma upd_stage_at:
  assumes "i < num_entries (sys_tbl (ho_sys h))"
  shows "sys_desc (ho_sys (upd_stage i f h)) j = (if i = j
      then (sys_desc (ho_sys h) i)\<lparr>od_body := B_Node (f (node_of (ho_sys h) i))\<rparr> else sys_desc (ho_sys h) j)"
  using assms by (simp add: upd_stage_def upd_node_def upd_desc_def nth_update)

lemma same_shape_fields:
  assumes "same_shape h h'"
  shows "stage_idx h' = stage_idx h" "node_of_id h' = node_of_id h" "stage_id h' n p = stage_id h n p"
    "ownNodeGetObjDescId h' = ownNodeGetObjDescId h"
proof -
  show idx: "stage_idx h' = stage_idx h" using assms by (simp add: same_shape_def stage_idx_def fun_eq_iff)
  show "node_of_id h' = node_of_id h"
    using assms by (simp add: same_shape_def node_of_id_def ownObjDescGet_def fun_eq_iff)
  show "stage_id h' n p = stage_id h n p" using assms idx by (simp add: same_shape_def)
  show "ownNodeGetObjDescId h' = ownNodeGetObjDescId h"
    using assms idx by (auto simp: same_shape_def ownNodeGetObjDescId_def fun_eq_iff)
qed

lemma upd_stage_wf:
  assumes "table_wf (sys_tbl (ho_sys h))" "i < num_entries (sys_tbl (ho_sys h))"
    and "od_type (sys_desc (ho_sys h) i) = TIVX_OBJ_DESC_NODE"
  shows "table_wf (sys_tbl (ho_sys (upd_stage i f h)))"
  using assms by (simp add: upd_stage_def upd_node_def) (rule table_wf_upd; simp add: table_wf_def body_ok_def)

section \<open>Stages of a node\<close>

text \<open>The descriptor of stage \<open>p\<close> exists, belongs to the node and knows its stage.\<close>

definition stage_desc :: "host \<Rightarrow> uintptr \<Rightarrow> nat \<Rightarrow> bool" where
  "stage_desc h n p \<longleftrightarrow> vn_obj_desc (ho_nodes h n) ! p \<noteq> None
     \<and> stage_idx h n p < num_entries (sys_tbl (ho_sys h))
     \<and> od_type (sys_desc (ho_sys h) (stage_idx h n p)) = TIVX_OBJ_DESC_NODE
     \<and> stage_id h n p = of_nat (stage_idx h n p)
     \<and> od_host_ref (sys_desc (ho_sys h) (stage_idx h n p)) = n
     \<and> nd_pipeline_id (stage_of h n p) = of_nat p"

definition links_of :: "tivx_obj_desc_node \<Rightarrow> uint32 \<times> uint16 list \<times> uint32 \<times> uint16 list" where
  "links_of d = (nd_num_out_nodes d, nd_out_node_id d, nd_num_in_nodes d, nd_in_node_id d)"

lemma stage_desc_upd:
  assumes "\<And>d. nd_pipeline_id (f d) = nd_pipeline_id d" "i < num_entries (sys_tbl (ho_sys h))"
  shows "stage_desc (upd_stage i f h) n p = stage_desc h n p"
  using same_shape_fields [OF upd_stage_shape [of h i f]] assms upd_stage_at [OF assms(2), of f]
  by (simp add: stage_desc_def same_shape_def) (simp add: upd_stage_def upd_node_def)

lemma stage_distinct:
  assumes "stage_desc h n p" "stage_desc h m q" "p < 16" "q < 16"
  shows "stage_idx h n p = stage_idx h m q \<longleftrightarrow> n = m \<and> p = q"
proof
  assume eq: "stage_idx h n p = stage_idx h m q"
  then have "n = m" "(of_nat p :: uint16) = of_nat q" using assms(1,2) by (auto simp: stage_desc_def)
  moreover have "unat (of_nat p :: uint16) = p" "unat (of_nat q :: uint16) = q"
    using assms(3,4) by (simp_all add: unat_of_nat)
  ultimately show "n = m \<and> p = q" by metis
qed simp

text \<open>What happens to one node leaves the descriptors of the others alone.\<close>

definition only_node :: "uintptr \<Rightarrow> host \<Rightarrow> host \<Rightarrow> bool" where
  "only_node n h h' \<longleftrightarrow> ho_refs h' = ho_refs h \<and> ho_kernels h' = ho_kernels h \<and> ho_graphs h' = ho_graphs h
     \<and> (\<forall>m. m \<noteq> n \<longrightarrow> ho_nodes h' m = ho_nodes h m)
     \<and> num_entries (sys_tbl (ho_sys h')) = num_entries (sys_tbl (ho_sys h))
     \<and> (\<forall>i < num_entries (sys_tbl (ho_sys h)). od_type (sys_desc (ho_sys h) i) \<noteq> TIVX_OBJ_DESC_INVALID
          \<and> od_host_ref (sys_desc (ho_sys h) i) \<noteq> n \<longrightarrow> sys_desc (ho_sys h') i = sys_desc (ho_sys h) i)"

lemma only_node_refl [simp]: "only_node n h h"
  by (simp add: only_node_def)

lemma only_node_trans: "only_node n h h1 \<Longrightarrow> only_node n h1 h2 \<Longrightarrow> only_node n h h2"
  by (simp add: only_node_def)

lemma only_node_upd:
  assumes "stage_desc h n p" shows "only_node n h (upd_stage (stage_idx h n p) f h)"
  using assms upd_stage_at [of "stage_idx h n p" h f] same_shape_fields [OF upd_stage_shape]
    upd_stage_shape [of h "stage_idx h n p" f]
  by (auto simp: only_node_def stage_desc_def same_shape_def)

lemma only_node_stage:
  assumes "only_node n h h'" "m \<noteq> n" "stage_desc h m p"
  shows "stage_desc h' m p" "stage_idx h' m p = stage_idx h m p" "stage_of h' m p = stage_of h m p"
    "stage_id h' m p = stage_id h m p"
proof -
  show idx: "stage_idx h' m p = stage_idx h m p" using assms(1,2) by (simp add: only_node_def stage_idx_def)
  have "sys_desc (ho_sys h') (stage_idx h m p) = sys_desc (ho_sys h) (stage_idx h m p)"
    using assms by (simp add: only_node_def stage_desc_def)
  then show "stage_desc h' m p" "stage_of h' m p = stage_of h m p" "stage_id h' m p = stage_id h m p"
    using assms idx by (simp_all add: stage_desc_def only_node_def)
qed

section \<open>Allocating the stages of a node\<close>

text \<open>The first \<open>k\<close> stages exist and have the links \<open>L\<close>.\<close>

definition made :: "host \<Rightarrow> uintptr \<Rightarrow> nat \<Rightarrow> _ \<Rightarrow> bool" where
  "made h n k L \<longleftrightarrow> table_wf (sys_tbl (ho_sys h)) \<and> length (vn_obj_desc (ho_nodes h n)) = 16
     \<and> (\<forall>p < k. stage_desc h n p \<and> links_of (stage_of h n p) = L)"

lemma alloc_stage_ok:
  assumes m: "made h n k L" and k: "0 < k" "k < 16" and run: "alloc_stage pf n (h, VX_SUCCESS) k = (h', VX_SUCCESS)"
  shows "made h' n (Suc k) L" "only_node n h h'" "stage_idx h' n 0 = stage_idx h n 0"
    "vn_pipeline_depth (ho_nodes h' n) = vn_pipeline_depth (ho_nodes h n)"
proof -
  let ?t = "sys_tbl (ho_sys h)" and ?d0 = "stage_of h n 0"
  have wf: "table_wf ?t" and len: "length (vn_obj_desc (ho_nodes h n)) = 16"
    and st: "\<And>p. p < k \<Longrightarrow> stage_desc h n p \<and> links_of (stage_of h n p) = L" using m by (simp_all add: made_def)
  obtain t od where al: "ownObjDescAlloc pf ?t TIVX_OBJ_DESC_NODE n = (t, od)" by fastforce
  define h1 where "h1 = upd_vnode n (\<lambda>v. v\<lparr>vn_obj_desc := (vn_obj_desc v)[k := od]\<rparr>)
      (h\<lparr>ho_sys := (ho_sys h)\<lparr>sys_tbl := t\<rparr>\<rparr>)"
  obtain i where i: "od = Some i" "h' = upd_stage i (copy_desc (stage_of h1 n 0) k) h1"
    using run by (auto simp: alloc_stage_def al h1_def Let_def split: option.splits)
  have t: "table_wf t" "i < num_entries ?t" "od_type (desc_at ?t i) = TIVX_OBJ_DESC_INVALID"
    "odt_table_base t = (odt_table_base ?t)[i := init_desc pf i TIVX_OBJ_DESC_NODE n]"
    using alloc_desc [OF wf _ al] i(1) by auto
  have old: "stage_idx h n p \<noteq> i" "stage_idx h1 n p = stage_idx h n p"
    "sys_desc (ho_sys h1) (stage_idx h n p) = sys_desc (ho_sys h) (stage_idx h n p)" if "p < k" for p
  proof -
    have "od_type (sys_desc (ho_sys h) (stage_idx h n p)) = TIVX_OBJ_DESC_NODE" using st [OF that] by (simp add: stage_desc_def)
    with t(3) show ne: "stage_idx h n p \<noteq> i" by auto
    show "stage_idx h1 n p = stage_idx h n p" using that by (simp add: h1_def stage_idx_def upd_vnode_def)
    show "sys_desc (ho_sys h1) (stage_idx h n p) = sys_desc (ho_sys h) (stage_idx h n p)"
      using ne by (simp add: h1_def upd_vnode_def t(4))
  qed
  have il: "i < num_entries (sys_tbl (ho_sys h1))" using t(2,4) by (simp add: h1_def upd_vnode_def)
  note sh = upd_stage_shape [of h1 i "copy_desc (stage_of h1 n 0) k", folded i(2), unfolded same_shape_def]
  have new: "stage_idx h' n k = i" using sh len k(2) by (simp add: stage_idx_def h1_def upd_vnode_def i(1))
  have at: "sys_desc (ho_sys h') j = (if j = i then (init_desc pf i TIVX_OBJ_DESC_NODE n)
        \<lparr>od_body := B_Node (copy_desc ?d0 k zero_node)\<rparr> else sys_desc (ho_sys h) j)" for j
    using upd_stage_at [OF il] old [OF k(1)] t(2) by (simp add: i(2) h1_def upd_vnode_def t(4) zero_body_def nth_update)
  have idx: "stage_idx h' n p = stage_idx h n p" if "p < k" for p
    using sh old(2) [OF that] by (simp add: stage_idx_def)
  show "stage_idx h' n 0 = stage_idx h n 0" using idx k(1) by simp
  have ent: "num_entries (sys_tbl (ho_sys h')) = num_entries ?t"
    using sh t(4) by (simp add: h1_def upd_vnode_def)
  show "vn_pipeline_depth (ho_nodes h' n) = vn_pipeline_depth (ho_nodes h n)"
    using sh by (simp add: h1_def upd_vnode_def)
  show "only_node n h h'" using sh at ent t(3) by (auto simp: only_node_def h1_def upd_vnode_def)
  have "stage_desc h' n p \<and> links_of (stage_of h' n p) = L" if "p < Suc k" for p
  proof (cases "p = k")
    case True
    have "links_of ?d0 = L" using st k(1) by simp
    then show ?thesis using True new at t(2) ent sh len k(2)
      by (simp add: stage_desc_def copy_desc_def links_of_def init_desc_def h1_def upd_vnode_def i(1))
  next
    case False
    then have p: "p < k" using that by simp
    have "vn_obj_desc (ho_nodes h' n) ! p = vn_obj_desc (ho_nodes h n) ! p"
      using sh False by (simp add: h1_def upd_vnode_def)
    then show ?thesis using st [OF p] idx [OF p] at old(1) [OF p] ent by (simp add: stage_desc_def)
  qed
  moreover have "table_wf (sys_tbl (ho_sys h'))"
    unfolding i(2) using t il by (intro upd_stage_wf) (simp_all add: h1_def upd_vnode_def)
  ultimately show "made h' n (Suc k) L" using len sh by (simp add: made_def h1_def upd_vnode_def)
qed

lemma alloc_stage_status:
  "snd (foldl (alloc_stage pf n) (h, st) ps) = VX_SUCCESS \<Longrightarrow> st = VX_SUCCESS"
proof (induction ps arbitrary: h st)
  case (Cons p ps)
  obtain h1 s1 where step: "alloc_stage pf n (h, st) p = (h1, s1)" by fastforce
  then have "s1 = VX_SUCCESS" using Cons by simp
  then show ?case using step by (auto simp: alloc_stage_def Let_def split: prod.splits option.splits)
qed simp

lemma alloc_stages_ok:
  assumes "made h n k L" "0 < k" "k + m \<le> 16"
    and "foldl (alloc_stage pf n) (h, VX_SUCCESS) [k..<k + m] = (h', VX_SUCCESS)"
  shows "made h' n (k + m) L" "only_node n h h'" "stage_idx h' n 0 = stage_idx h n 0"
    "vn_pipeline_depth (ho_nodes h' n) = vn_pipeline_depth (ho_nodes h n)"
proof -
  have "made h' n (k + m) L \<and> only_node n h h' \<and> stage_idx h' n 0 = stage_idx h n 0
    \<and> vn_pipeline_depth (ho_nodes h' n) = vn_pipeline_depth (ho_nodes h n)"
    using assms
  proof (induction m arbitrary: h k)
    case 0
    then show ?case by simp
  next
    case (Suc m)
    obtain h1 s1 where step: "alloc_stage pf n (h, VX_SUCCESS) k = (h1, s1)" by fastforce
    have "[k..<k + Suc m] = k # [Suc k..<Suc k + m]" by (simp add: upt_conv_Cons del: upt_Suc)
    then have run: "foldl (alloc_stage pf n) (h1, s1) [Suc k..<Suc k + m] = (h', VX_SUCCESS)"
      using Suc.prems(4) step by (simp del: upt_Suc)
    then have s1: "s1 = VX_SUCCESS" using alloc_stage_status [of pf n h1 s1 "[Suc k..<Suc k + m]"] by (simp del: upt_Suc)
    note one = alloc_stage_ok [OF Suc.prems(1,2) _ step [unfolded s1]]
    have "k < 16" using Suc.prems(3) by simp
    note one = one [OF this]
    have "made h' n (Suc k + m) L \<and> only_node n h1 h' \<and> stage_idx h' n 0 = stage_idx h1 n 0
      \<and> vn_pipeline_depth (ho_nodes h' n) = vn_pipeline_depth (ho_nodes h1 n)"
      using Suc.IH [OF one(1)] Suc.prems(3) run s1 by (simp del: upt_Suc)
    then show ?case using one only_node_trans [OF one(2)] by simp
  qed
  then show "made h' n (k + m) L" "only_node n h h'" "stage_idx h' n 0 = stage_idx h n 0"
    "vn_pipeline_depth (ho_nodes h' n) = vn_pipeline_depth (ho_nodes h n)" by blast+
qed

lemma stage_of_upd:
  assumes "stage_desc h n p" "stage_desc h m q" "p < 16" "q < 16"
  shows "stage_of (upd_stage (stage_idx h n p) f h) m q =
    (if m = n \<and> q = p then f (stage_of h m q) else stage_of h m q)"
proof -
  have "stage_idx (upd_stage (stage_idx h n p) f h) = stage_idx h" by (rule same_shape_fields) simp
  then show ?thesis
    using upd_stage_at [of "stage_idx h n p" h f] stage_distinct [OF assms] assms(1) by (auto simp: stage_desc_def)
qed

lemma made_upd:
  assumes m: "made h n d L" and p: "p < d" "d \<le> 16"
    and f: "\<And>x. nd_pipeline_id (f x) = nd_pipeline_id x" "\<And>x. links_of (f x) = links_of x"
  shows "made (upd_stage (stage_idx h n p) f h) n d L"
proof -
  let ?h = "upd_stage (stage_idx h n p) f h"
  have st: "stage_desc h n q" "links_of (stage_of h n q) = L" if "q < d" for q using m that by (simp_all add: made_def)
  have i: "stage_idx h n p < num_entries (sys_tbl (ho_sys h))"
    "od_type (sys_desc (ho_sys h) (stage_idx h n p)) = TIVX_OBJ_DESC_NODE"
    using st(1) [OF p(1)] by (simp_all add: stage_desc_def)
  have "stage_desc ?h n q \<and> links_of (stage_of ?h n q) = L" if q: "q < d" for q
    using stage_of_upd [OF st(1) [OF p(1)] st(1) [OF q], of f] p q st [OF q] f stage_desc_upd [of f, OF f(1) i(1)]
    by auto
  moreover have "ho_nodes ?h = ho_nodes h" using upd_stage_shape by (simp add: same_shape_def)
  ultimately show ?thesis using m upd_stage_wf [OF _ i] by (simp add: made_def)
qed

lemma link_prevs_ok:
  assumes m: "made h n d L" and d: "d \<le> 16" and k: "k \<le> d"
  defines "h' \<equiv> foldl (link_prev n d) h [0..<k]"
  shows "made h' n d L" "same_shape h h'" "only_node n h h'"
    "\<And>p. p < k \<Longrightarrow> nd_prev_pipe_node_id (stage_of h' n p) = stage_id h n ((p + d - 1) mod d)"
proof -
  have "made h' n d L \<and> same_shape h h' \<and> only_node n h h'
    \<and> (\<forall>p < k. nd_prev_pipe_node_id (stage_of h' n p) = stage_id h n ((p + d - 1) mod d))"
    using k unfolding h'_def
  proof (induction k)
    case 0
    then show ?case using m by simp
  next
    case (Suc k)
    define h1 where "h1 = foldl (link_prev n d) h [0..<k]"
    define f :: "tivx_obj_desc_node \<Rightarrow> tivx_obj_desc_node" where "f = (\<lambda>x. x\<lparr>nd_prev_pipe_node_id := stage_id h1 n ((k + d - 1) mod d)\<rparr>)"
    define h2 where "h2 = upd_stage (stage_idx h1 n k) f h1"
    have IH: "made h1 n d L" "same_shape h h1" "only_node n h h1"
      "\<And>p. p < k \<Longrightarrow> nd_prev_pipe_node_id (stage_of h1 n p) = stage_id h n ((p + d - 1) mod d)"
      using Suc by (simp_all add: h1_def)
    have f: "nd_pipeline_id (f x) = nd_pipeline_id x" "links_of (f x) = links_of x" for x
      by (simp_all add: f_def links_of_def)
    have run: "foldl (link_prev n d) h [0..<Suc k] = h2" by (simp add: h1_def [symmetric] h2_def f_def link_prev_def Let_def)
    have k: "k < d" using Suc.prems by simp
    have sd: "stage_desc h1 n p" if "p < d" for p using IH(1) that by (simp add: made_def)
    have "made h2 n d L" unfolding h2_def by (rule made_upd [OF IH(1) k d f])
    moreover have "same_shape h h2" unfolding h2_def by (rule same_shape_trans [OF IH(2) upd_stage_shape])
    moreover have "only_node n h h2" unfolding h2_def by (rule only_node_trans [OF IH(3) only_node_upd [OF sd [OF k]]])
    moreover have "nd_prev_pipe_node_id (stage_of h2 n p) = stage_id h n ((p + d - 1) mod d)" if p: "p < Suc k" for p
      using stage_of_upd [OF sd [OF k] sd [of p], of f, folded h2_def] IH(4) [of p] p k d
        same_shape_fields(3) [OF IH(2)] by (auto simp: f_def less_Suc_eq)
    ultimately show ?case unfolding run by blast
  qed
  then show "made h' n d L" "same_shape h h'" "only_node n h h'"
    "\<And>p. p < k \<Longrightarrow> nd_prev_pipe_node_id (stage_of h' n p) = stage_id h n ((p + d - 1) mod d)" by blast+
qed

text \<open>All stages of a node, each with a link to the stage before.\<close>

definition staged :: "host \<Rightarrow> uintptr \<Rightarrow> uint32 \<Rightarrow> _ \<Rightarrow> bool" where
  "staged h n d L \<longleftrightarrow> vn_pipeline_depth (ho_nodes h n) = d
     \<and> (\<forall>p < unat d. stage_desc h n p \<and> links_of (stage_of h n p) = L
          \<and> nd_prev_pipe_node_id (stage_of h n p) = stage_id h n ((p + unat d - 1) mod unat d))"

definition unstaged :: "host \<Rightarrow> uintptr \<Rightarrow> _ \<Rightarrow> bool" where
  "unstaged h n L \<longleftrightarrow> vn_pipeline_depth (ho_nodes h n) = 1 \<and> length (vn_obj_desc (ho_nodes h n)) = 16
     \<and> stage_desc h n 0 \<and> links_of (stage_of h n 0) = L"

lemma alloc_node_ok:
  assumes wf: "table_wf (sys_tbl (ho_sys h))" and u: "unstaged h n L" and d: "1 < d" "d \<le> 16"
    and run: "ownNodeAllocObjDescForPipeline pf (ownNodeSetObjDescParamDirection h n) n d = (h', VX_SUCCESS)"
  shows "table_wf (sys_tbl (ho_sys h'))" "staged h' n d L" "only_node n h h'" "stage_idx h' n 0 = stage_idx h n 0"
proof -
  define h1 where "h1 = ownNodeSetObjDescParamDirection h n"
  define h2 where "h2 = upd_vnode n (\<lambda>v. v\<lparr>vn_pipeline_depth := d\<rparr>) h1"
  have d': "1 < unat d" "unat d \<le> 16" using d by (simp_all add: word_less_nat_alt word_le_nat_alt)
  have sd: "stage_desc h n 0" using u by (simp add: unstaged_def)
  have m: "made h n 1 L" using wf u by (simp add: made_def unstaged_def)
  obtain A B where h1: "h1 = upd_stage (stage_idx h n 0)
      (\<lambda>x. x\<lparr>nd_is_prm_input := A, nd_is_prm_bidi := B\<rparr>) h"
    by (rule that) (unfold h1_def ownNodeSetObjDescParamDirection_def Let_def, rule refl)
  define f :: "tivx_obj_desc_node \<Rightarrow> tivx_obj_desc_node"
    where "f = (\<lambda>x. x\<lparr>nd_is_prm_input := A, nd_is_prm_bidi := B\<rparr>)"
  have f: "h1 = upd_stage (stage_idx h n 0) f h" "\<And>x. nd_pipeline_id (f x) = nd_pipeline_id x"
    "\<And>x. links_of (f x) = links_of x" by (simp_all add: h1 f_def links_of_def)
  have m1: "made h1 n 1 L" "only_node n h h1" "same_shape h h1"
    unfolding f(1) using made_upd [OF m _ _ f(2,3), of 0] only_node_upd [OF sd] by simp_all
  have idx1: "stage_idx h1 n 0 = stage_idx h n 0" using same_shape_fields(1) [OF m1(3)] by simp
  have idx2: "stage_idx h2 n p = stage_idx h1 n p" for p by (simp add: h2_def upd_vnode_def stage_idx_def)
  have m2: "made h2 n 1 L" "only_node n h1 h2"
    using m1(1) by (simp_all add: made_def stage_desc_def idx2 only_node_def) (simp_all add: h2_def upd_vnode_def)
  have one: "vn_pipeline_depth (ho_nodes h1 n) = 1" using u m1(3) by (simp add: unstaged_def same_shape_def)
  obtain h3 st where loop: "foldl (alloc_stage pf n) (h2, VX_SUCCESS) [1..<unat d] = (h3, st)" by fastforce
  have st: "st = VX_SUCCESS" "h' = foldl (link_prev n (unat d)) h3 [0..<unat d]"
    using run one d loop by (auto simp: ownNodeAllocObjDescForPipeline_def h1_def [symmetric] h2_def [symmetric] Let_def
        split: if_splits)
  have "1 + (unat d - 1) = unat d" using d' by simp
  then have loop': "foldl (alloc_stage pf n) (h2, VX_SUCCESS) [1..<1 + (unat d - 1)] = (h3, VX_SUCCESS)"
    using loop st(1) by simp
  have m3: "made h3 n (unat d) L" "only_node n h2 h3" "stage_idx h3 n 0 = stage_idx h2 n 0"
    "vn_pipeline_depth (ho_nodes h3 n) = vn_pipeline_depth (ho_nodes h2 n)"
    using alloc_stages_ok [OF m2(1) _ _ loop'] d' by simp_all
  note pr = link_prevs_ok [OF m3(1) d'(2) order.refl, folded st(2)]
  show "table_wf (sys_tbl (ho_sys h'))" using pr(1) by (simp add: made_def)
  have "vn_pipeline_depth (ho_nodes h' n) = d" using pr(2) m3(4) by (simp add: same_shape_def h2_def upd_vnode_def)
  then show "staged h' n d L"
    using pr(1,4) same_shape_fields(3) [OF pr(2)] by (simp add: staged_def made_def)
  show "only_node n h h'"
    by (rule only_node_trans [OF m1(2) only_node_trans [OF m2(2) only_node_trans [OF m3(2) pr(3)]]])
  show "stage_idx h' n 0 = stage_idx h n 0"
    using same_shape_fields(1) [OF pr(2)] m3(3) idx1 idx2 by simp
qed

lemma only_node_staged:
  assumes "only_node n h h'" "m \<noteq> n" "staged h m d L" "1 < d"
  shows "staged h' m d L" "stage_idx h' m 0 = stage_idx h m 0"
proof -
  have nodes: "ho_nodes h' m = ho_nodes h m" using assms(1,2) by (simp add: only_node_def)
  have d: "0 < unat d" using assms(4) by (simp add: word_less_nat_alt)
  have st: "stage_desc h m p" if "p < unat d" for p using assms(3) that by (simp add: staged_def)
  note eq = only_node_stage [OF assms(1,2) st]
  have "(p + unat d - 1) mod unat d < unat d" for p using d by simp
  then show "staged h' m d L" using assms(3) nodes eq unfolding staged_def by simp
  show "stage_idx h' m 0 = stage_idx h m 0" using eq(2) [OF d] .
qed

lemma only_node_unstaged:
  assumes "only_node n h h'" "m \<noteq> n" "unstaged h m L"
  shows "unstaged h' m L" "stage_idx h' m 0 = stage_idx h m 0"
  using only_node_stage [OF assms(1,2), of 0] assms by (simp_all add: unstaged_def only_node_def)

lemma alloc_nodes_ok:
  assumes "table_wf (sys_tbl (ho_sys h))" "distinct (ms @ ns)" "1 < d" "d \<le> 16"
    and "\<And>n. n \<in> set ms \<Longrightarrow> staged h n d (L n)" "\<And>n. n \<in> set ns \<Longrightarrow> unstaged h n (L n)"
    and "alloc_nodes pf d h ns = (h', VX_SUCCESS)"
  shows "table_wf (sys_tbl (ho_sys h')) \<and> ho_graphs h' = ho_graphs h
    \<and> num_entries (sys_tbl (ho_sys h')) = num_entries (sys_tbl (ho_sys h))
    \<and> (\<forall>n \<in> set (ms @ ns). staged h' n d (L n) \<and> stage_idx h' n 0 = stage_idx h n 0)"
  using assms
proof (induction ns arbitrary: h ms)
  case Nil
  then show ?case by simp
next
  case (Cons n ns)
  obtain h1 st where step: "ownNodeAllocObjDescForPipeline pf (ownNodeSetObjDescParamDirection h n) n d = (h1, st)"
    by fastforce
  have st: "st = VX_SUCCESS" "alloc_nodes pf d h1 ns = (h', VX_SUCCESS)"
    using Cons.prems(7) step by (auto split: if_splits)
  have un: "unstaged h n (L n)" using Cons.prems(6) by simp
  note one = alloc_node_ok [OF Cons.prems(1) un Cons.prems(3,4) step [unfolded st(1)]]
  have oth: "x \<noteq> n" if "x \<in> set ms \<union> set ns" for x using that Cons.prems(2) by auto
  have a: "staged h1 x d (L x) \<and> stage_idx h1 x 0 = stage_idx h x 0" if "x \<in> set (ms @ [n])" for x
    using that one(2,4) only_node_staged [OF one(3) oth Cons.prems(5) Cons.prems(3)] by auto
  have b: "unstaged h1 x (L x) \<and> stage_idx h1 x 0 = stage_idx h x 0" if "x \<in> set ns" for x
    using that only_node_unstaged [OF one(3) oth Cons.prems(6)] by simp
  have "table_wf (sys_tbl (ho_sys h')) \<and> ho_graphs h' = ho_graphs h1
    \<and> num_entries (sys_tbl (ho_sys h')) = num_entries (sys_tbl (ho_sys h1))
    \<and> (\<forall>x \<in> set ((ms @ [n]) @ ns). staged h' x d (L x) \<and> stage_idx h' x 0 = stage_idx h1 x 0)"
    using Cons.prems(2,3,4) a b st(2) by (intro Cons.IH [OF one(1)]) auto
  then show ?case using one(3) a b by (auto simp: only_node_def)
qed

section \<open>Linking the stages\<close>

lemma take_updates:
  "n \<le> length xs \<Longrightarrow> length (foldl (\<lambda>l k. l[k := g k]) xs [0..<n]) = length xs
     \<and> take n (foldl (\<lambda>l k. l[k := g k]) xs [0..<n]) = map g [0..<n]"
  by (induction n) (auto simp: take_Suc_conv_app_nth take_update_swap list_update_append)

lemma take_stage_links:
  assumes "unat num \<le> length ids" "unat num \<le> length ids0"
  shows "take (unat num) (stage_links h p num ids0 ids)
    = map (\<lambda>i. ownNodeGetObjDescId h (node_of_id h i) p) (take (unat num) ids0)"
  using take_updates [OF assms(1)] assms(2) by (auto simp: stage_links_def intro!: nth_equalityI)

definition link_fun :: "host \<Rightarrow> uintptr \<Rightarrow> nat \<Rightarrow> tivx_obj_desc_node \<Rightarrow> tivx_obj_desc_node" where
  "link_fun h n p x = (let d0 = stage_of h n 0 in
     x\<lparr>nd_in_node_id := stage_links h p (nd_num_in_nodes d0) (nd_in_node_id d0) (nd_in_node_id x),
       nd_out_node_id := stage_links h p (nd_num_out_nodes d0) (nd_out_node_id d0) (nd_out_node_id x)\<rparr>)"

definition all_staged :: "host \<Rightarrow> uintptr set \<Rightarrow> nat \<Rightarrow> bool" where
  "all_staged h N d \<longleftrightarrow> d \<le> 16 \<and> (\<forall>m \<in> N. \<forall>p < d. stage_desc h m p)"

lemma same_shape_links: "same_shape h h' \<Longrightarrow> stage_links h' = stage_links h"
  by (simp add: same_shape_fields stage_links_def fun_eq_iff)

text \<open>The stages \<open>P\<close> have been linked.\<close>

definition linked_stages :: "host \<Rightarrow> uintptr set \<Rightarrow> nat \<Rightarrow> (uintptr \<times> nat) set \<Rightarrow> host \<Rightarrow> bool" where
  "linked_stages h N d P h' \<longleftrightarrow> same_shape h h' \<and> all_staged h' N d
     \<and> (\<forall>m \<in> N. \<forall>p < d. stage_of h' m p
          = (if (m, p) \<in> P then link_fun h m p (stage_of h m p) else stage_of h m p))"

lemma link_stage_ok:
  assumes l: "linked_stages h N d P h1" and n: "n \<in> N" "0 < k" "k < d"
    and P: "(n, 0) \<notin> P" "(n, k) \<notin> P"
  shows "linked_stages h N d (insert (n, k) P) (link_stage n h1 k)"
proof -
  have sh: "same_shape h h1" and all: "all_staged h1 N d"
    and at: "\<And>m p. m \<in> N \<Longrightarrow> p < d \<Longrightarrow> stage_of h1 m p
      = (if (m, p) \<in> P then link_fun h m p (stage_of h m p) else stage_of h m p)"
    using l by (simp_all add: linked_stages_def)
  have d: "d \<le> 16" using all by (simp add: all_staged_def)
  have st: "stage_desc h1 m p" if "m \<in> N" "p < d" for m p using all that by (simp add: all_staged_def)
  have "stage_of h1 n 0 = stage_of h n 0" using at [OF n(1), of 0] P(1) n by simp
  then have "link_fun h1 n k = link_fun h n k"
    by (simp add: link_fun_def same_shape_links [OF sh] fun_eq_iff)
  then have run: "link_stage n h1 k = upd_stage (stage_idx h1 n k) (link_fun h n k) h1"
    by (simp add: link_stage_def link_fun_def [abs_def] Let_def)
  have f: "nd_pipeline_id (link_fun h n k x) = nd_pipeline_id x" for x by (simp add: link_fun_def Let_def)
  have "all_staged (link_stage n h1 k) N d"
    using st stage_desc_upd [of "link_fun h n k", OF f] st [OF n(1,3)] d unfolding run
    by (simp add: all_staged_def stage_desc_def)
  moreover have "stage_of (link_stage n h1 k) m p = (if (m, p) \<in> insert (n, k) P
      then link_fun h m p (stage_of h m p) else stage_of h m p)" if "m \<in> N" "p < d" for m p
    using stage_of_upd [OF st [OF n(1,3)] st [OF that], of "link_fun h n k"] at [OF that] that n d P
    unfolding run by auto
  moreover have "same_shape h (link_stage n h1 k)" unfolding run by (rule same_shape_trans [OF sh upd_stage_shape])
  ultimately show ?thesis by (simp add: linked_stages_def)
qed

lemma link_node_ok:
  assumes l: "linked_stages h N d P h1" and n: "n \<in> N" and depth: "unat (vn_pipeline_depth (ho_nodes h n)) = d"
    and P: "\<forall>p. (n, p) \<notin> P"
  shows "linked_stages h N d (P \<union> {n} \<times> {1..<d}) (ownNodeLinkObjDescForPipeline h1 n)"
proof -
  have "linked_stages h N d (P \<union> {n} \<times> {1..<k}) (foldl (link_stage n) h1 [1..<k])" if "k \<le> d" for k
    using that
  proof (induction k)
    case 0
    then show ?case using l by simp
  next
    case (Suc k)
    show ?case
    proof (cases "k = 0")
      case True
      then show ?thesis using l by simp
    next
      case False
      have "linked_stages h N d (insert (n, k) (P \<union> {n} \<times> {1..<k})) (link_stage n (foldl (link_stage n) h1 [1..<k]) k)"
        using Suc False P n by (intro link_stage_ok) auto
      moreover have "insert (n, k) (P \<union> {n} \<times> {1..<k}) = P \<union> {n} \<times> {1..<Suc k}" using False by auto
      ultimately show ?thesis using False by simp
    qed
  qed
  from this [of d] show ?thesis
    using depth l by (simp add: ownNodeLinkObjDescForPipeline_def linked_stages_def same_shape_def)
qed

lemma link_nodes_ok:
  assumes "linked_stages h N d P h1" "set ns \<subseteq> N" "distinct ns"
    and "\<And>n. n \<in> set ns \<Longrightarrow> unat (vn_pipeline_depth (ho_nodes h n)) = d" "\<And>n p. n \<in> set ns \<Longrightarrow> (n, p) \<notin> P"
  shows "linked_stages h N d (P \<union> set ns \<times> {1..<d}) (foldl ownNodeLinkObjDescForPipeline h1 ns)"
  using assms
proof (induction ns arbitrary: h1 P)
  case Nil
  then show ?case by simp
next
  case (Cons n ns)
  have "linked_stages h N d (P \<union> {n} \<times> {1..<d}) (ownNodeLinkObjDescForPipeline h1 n)"
    using Cons.prems by (intro link_node_ok) auto
  then have "linked_stages h N d ((P \<union> {n} \<times> {1..<d}) \<union> set ns \<times> {1..<d})
      (foldl ownNodeLinkObjDescForPipeline (ownNodeLinkObjDescForPipeline h1 n) ns)"
    using Cons.prems by (intro Cons.IH) auto
  moreover have "(P \<union> {n} \<times> {1..<d}) \<union> set ns \<times> {1..<d} = P \<union> set (n # ns) \<times> {1..<d}" by auto
  ultimately show ?case by simp
qed

section \<open>Every stage is a copy of the graph\<close>

lemma node_of_stage_id:
  assumes "stage_desc h m p" "table_wf (sys_tbl (ho_sys h))"
  shows "node_of_id h (stage_id h m p) = m"
proof -
  have "unat (of_nat (stage_idx h m p) :: uint16) = stage_idx h m p"
    using assms by (intro unat_index) (auto simp: stage_desc_def table_wf_def)
  then show ?thesis using assms(1) by (simp add: stage_desc_def node_of_id_def ownObjDescGet_def)
qed

definition stage_succs :: "host \<Rightarrow> uintptr \<Rightarrow> nat \<Rightarrow> uint16 list" where
  "stage_succs h n p = take (unat (nd_num_out_nodes (stage_of h n p))) (nd_out_node_id (stage_of h n p))"

definition stage_preds :: "host \<Rightarrow> uintptr \<Rightarrow> nat \<Rightarrow> uint16 list" where
  "stage_preds h n p = take (unat (nd_num_in_nodes (stage_of h n p))) (nd_in_node_id (stage_of h n p))"

text \<open>A graph before its pipeline is made: linked, one descriptor for each node.\<close>

definition stageable :: "host \<Rightarrow> uintptr \<Rightarrow> (uintptr \<times> uintptr) set \<Rightarrow> bool" where
  "stageable h g E \<longleftrightarrow> table_wf (sys_tbl (ho_sys h)) \<and> holds_edges h (graph_nodes h g) E
     \<and> 1 < gr_pipeline_depth (ho_graphs h g) \<and> gr_pipeline_depth (ho_graphs h g) \<le> TIVX_GRAPH_MAX_PIPELINE_DEPTH
     \<and> (\<forall>n \<in> set (graph_nodes h g). vn_pipeline_depth (ho_nodes h n) = 1
          \<and> length (vn_obj_desc (ho_nodes h n)) = TIVX_GRAPH_MAX_PIPELINE_DEPTH \<and> stage_desc h n 0)"

text \<open>The ids of one array, read in a stage.\<close>

lemma links_in_stage:
  assumes st: "\<And>m. m \<in> N \<Longrightarrow> staged h1 m d (L m)" and wf: "table_wf (sys_tbl (ho_sys h1))" and d: "1 < d" "d \<le> 16"
    and nz: "\<And>m. m \<in> N \<Longrightarrow> m \<noteq> 0"
    and ids: "set (take (unat num) ids0) \<subseteq> (\<lambda>m. stage_id h1 m 0) ` N"
    and len: "unat num \<le> length ids0" "unat num \<le> length ids" and p: "p < unat d"
  shows "take (unat num) (if p = 0 then ids0 else stage_links h1 p num ids0 ids)
    = map (\<lambda>m. stage_id h1 m p) (map (node_of_id h1) (take (unat num) ids0))"
proof -
  have d0: "0 < unat d" using d by (simp add: word_less_nat_alt)
  have sd: "stage_desc h1 m q" if "m \<in> N" "q < unat d" for m q using st that by (simp add: staged_def)
  have one: "\<exists>m \<in> N. i = stage_id h1 m 0 \<and> node_of_id h1 i = m" if "i \<in> set (take (unat num) ids0)" for i
    using ids that node_of_stage_id [OF sd wf, of _ 0] d0 by fastforce
  show ?thesis
  proof (cases "p = 0")
    case True
    have "map (\<lambda>i. stage_id h1 (node_of_id h1 i) 0) (take (unat num) ids0) = take (unat num) ids0"
      by (rule map_idI) (use one in metis)
    then show ?thesis using True by (simp add: comp_def)
  next
    case False
    have "ownNodeGetObjDescId h1 (node_of_id h1 i) p = stage_id h1 (node_of_id h1 i) p"
      if i: "i \<in> set (take (unat num) ids0)" for i
    proof -
      obtain m where m: "m \<in> N" "node_of_id h1 i = m" using one [OF i] by blast
      have "vn_pipeline_depth (ho_nodes h1 m) = d" "vn_obj_desc (ho_nodes h1 m) ! p \<noteq> None"
        using st [OF m(1)] p by (auto simp: staged_def stage_desc_def)
      then show ?thesis using nz [OF m(1)] p m(2) by (simp add: ownNodeGetObjDescId_def)
    qed
    then show ?thesis using False take_stage_links [OF len(2,1)] by (simp add: comp_def)
  qed
qed

text \<open>C12: when the stages of a graph of depth \<open>d\<close> have been made, every node has \<open>d\<close> descriptors, all
  distinct, each of which knows its stage and the descriptor of the node in the stage before, that of
  stage 0 being the last one; and in each stage the successors and predecessors of a descriptor are the
  descriptors of the same stage that belong to the successors and predecessors of its node.\<close>

theorem stages_copy_graph:
  assumes "stageable h g E" "make_stages pf h g = (h', VX_SUCCESS)"
  defines "d \<equiv> unat (gr_pipeline_depth (ho_graphs h g))"
  shows "(\<forall>n \<in> set (graph_nodes h g). \<forall>p < d. stage_desc h' n p
        \<and> nd_prev_pipe_node_id (stage_of h' n p) = stage_id h' n ((p + d - 1) mod d)
        \<and> stage_succs h' n p = map (\<lambda>m. stage_id h' m p) (succs h n)
        \<and> stage_preds h' n p = map (\<lambda>m. stage_id h' m p) (preds h n))
    \<and> inj_on (\<lambda>(n, p). stage_idx h' n p) (set (graph_nodes h g) \<times> {..<d})"
proof -
  let ?ns = "graph_nodes h g" and ?d = "gr_pipeline_depth (ho_graphs h g)"
  define L where "L = (\<lambda>n. links_of (stage_of h n 0))"
  have wf: "table_wf (sys_tbl (ho_sys h))" and he: "holds_edges h ?ns E" and d: "1 < ?d" "?d \<le> 16"
    and un: "\<And>n. n \<in> set ?ns \<Longrightarrow> unstaged h n (L n)"
    using assms(1) by (simp_all add: stageable_def unstaged_def L_def)
  have ok: "\<And>n. n \<in> set ?ns \<Longrightarrow> node_desc_ok h n" and dist: "distinct ?ns"
    using he by (simp_all add: holds_edges_def nodes_ok_def)
  have ns: "nodes_of_graph (ho_graphs h g) = ?ns" by (simp add: nodes_of_graph_def graph_nodes_def)
  obtain h1 st where al: "alloc_nodes pf ?d h ?ns = (h1, st)" by fastforce
  have st: "st = VX_SUCCESS" "h' = foldl ownNodeLinkObjDescForPipeline h1 ?ns"
    using assms(2) al by (auto simp: make_stages_def ns Let_def split: if_splits)
  note made = alloc_nodes_ok [OF wf _ d _ un al [unfolded st(1)], of "[]" , simplified, OF dist]
  have wf1: "table_wf (sys_tbl (ho_sys h1))" and sg: "\<And>n. n \<in> set ?ns \<Longrightarrow> staged h1 n ?d (L n)"
    and idx: "\<And>n. n \<in> set ?ns \<Longrightarrow> stage_idx h1 n 0 = stage_idx h n 0" using made by blast+
  have d': "d \<le> 16" "0 < d" using d by (simp_all add: d_def word_le_nat_alt word_less_nat_alt)
  have sd1: "stage_desc h1 n p" if "n \<in> set ?ns" "p < d" for n p using sg that by (simp add: staged_def d_def)
  have start: "linked_stages h1 (set ?ns) d {} h1"
    using sd1 d' by (simp add: linked_stages_def all_staged_def)
  have "linked_stages h1 (set ?ns) d ({} \<union> set ?ns \<times> {1..<d}) h'"
    unfolding st(2) using sg by (intro link_nodes_ok [OF start _ dist]) (simp_all add: staged_def d_def)
  then have sh: "same_shape h1 h'" and sd: "\<And>n p. n \<in> set ?ns \<Longrightarrow> p < d \<Longrightarrow> stage_desc h' n p"
    and at: "\<And>n p. n \<in> set ?ns \<Longrightarrow> p < d \<Longrightarrow> stage_of h' n p
      = (if p = 0 then stage_of h1 n p else link_fun h1 n p (stage_of h1 n p))"
    by (auto simp: linked_stages_def all_staged_def)
  have sid: "stage_id h' n p = stage_id h1 n p" for n p by (rule same_shape_fields(3) [OF sh])
  have id0: "stage_id h1 n 0 = id0 h n" if "n \<in> set ?ns" for n
    using sd1 [OF that d'(2)] idx [OF that] ok [OF that] by (simp add: stage_desc_def node_desc_ok_def stage_idx_def)
  have noi: "node_of_id h1 i = node_of_id h i" if "i \<in> id0 h ` set ?ns" for i
    using that node_of_stage_id [OF sd1 wf1 ] d'(2) id0 node_of_id_id0 [OF ok] by force
  have main: "nd_prev_pipe_node_id (stage_of h' n p) = stage_id h' n ((p + d - 1) mod d)
        \<and> stage_succs h' n p = map (\<lambda>m. stage_id h' m p) (succs h n)
        \<and> stage_preds h' n p = map (\<lambda>m. stage_id h' m p) (preds h n)"
    if n: "n \<in> set ?ns" and p: "p < d" for n p
  proof -
    have lk: "links_of (stage_of h1 n q) = links_of (nd0 h n)" if "q < d" for q
      using sg [OF n] that by (simp add: staged_def d_def L_def stage_idx_def)
    have lens: "length (nd_out_node_id (nd0 h n)) = 8" "length (nd_in_node_id (nd0 h n)) = 8"
      "unat (nd_num_out_nodes (nd0 h n)) \<le> 8" "unat (nd_num_in_nodes (nd0 h n)) \<le> 8"
      using ok [OF n] by (simp_all add: node_desc_ok_def word_le_nat_alt)
    have f: "nd_num_out_nodes (stage_of h1 n q) = nd_num_out_nodes (nd0 h n)"
      "nd_out_node_id (stage_of h1 n q) = nd_out_node_id (nd0 h n)"
      "nd_num_in_nodes (stage_of h1 n q) = nd_num_in_nodes (nd0 h n)"
      "nd_in_node_id (stage_of h1 n q) = nd_in_node_id (nd0 h n)" if "q < d" for q
      using lk [OF that] by (simp_all add: links_of_def)
    have sub: "set (out_ids h n) \<subseteq> id0 h ` set ?ns" "set (in_ids h n) \<subseteq> id0 h ` set ?ns"
      using he n by (auto simp: holds_edges_def)
    have sub1: "set (out_ids h n) \<subseteq> (\<lambda>m. stage_id h1 m 0) ` set ?ns" "set (in_ids h n) \<subseteq> (\<lambda>m. stage_id h1 m 0) ` set ?ns"
      using sub id0 by auto
    note ls = links_in_stage [OF sg wf1 d, of "set ?ns"]
    have nz: "m \<noteq> 0" if "m \<in> set ?ns" for m using ok [OF that] by (simp add: node_desc_ok_def)
    have succ: "map (node_of_id h1) (out_ids h n) = succs h n" "map (node_of_id h1) (in_ids h n) = preds h n"
      using sub noi by (auto simp: succs_out_ids [OF ok [OF n]] preds_in_ids [OF ok [OF n]])
    have "stage_succs h' n p = map (\<lambda>m. stage_id h1 m p) (map (node_of_id h1) (out_ids h n))"
      using ls [OF _ nz sub1(1) [unfolded out_ids_def], of "nd_out_node_id (nd0 h n)" p] lens p f [OF p] f [OF d'(2)] at [OF n p]
      by (simp add: stage_succs_def out_ids_def link_fun_def d_def Let_def split: if_splits)
    moreover have "stage_preds h' n p = map (\<lambda>m. stage_id h1 m p) (map (node_of_id h1) (in_ids h n))"
      using ls [OF _ nz sub1(2) [unfolded in_ids_def], of "nd_in_node_id (nd0 h n)" p] lens p f [OF p] f [OF d'(2)] at [OF n p]
      by (simp add: stage_preds_def in_ids_def link_fun_def d_def Let_def split: if_splits)
    moreover have "nd_prev_pipe_node_id (stage_of h1 n p) = stage_id h1 n ((p + d - 1) mod d)"
      using sg [OF n] p by (simp add: staged_def d_def)
    then have "nd_prev_pipe_node_id (stage_of h' n p) = stage_id h1 n ((p + d - 1) mod d)"
      using at [OF n p] by (cases "p = 0") (simp_all add: link_fun_def Let_def)
    ultimately show ?thesis by (simp add: sid succ)
  qed
  have "inj_on (\<lambda>(n, p). stage_idx h' n p) (set ?ns \<times> {..<d})"
    using stage_distinct [OF sd sd] d' by (auto simp: inj_on_def)
  with main sd show ?thesis by blast
qed

section \<open>Example\<close>

text \<open>Node 1 feeds node 2, in a graph of depth 2; two descriptors are free.\<close>

definition stage_host :: host where
  "stage_host =
     (let h = host_of_links [([], [1]), ([0], [])]
      in h\<lparr>ho_sys := (ho_sys h)\<lparr>sys_tbl := \<lparr>odt_table_base =
               odt_table_base (sys_tbl (ho_sys h)) @ [free_desc, free_desc], odt_last_alloc_index = 0\<rparr>\<rparr>,
           ho_nodes := (\<lambda>a. (ho_nodes h a)\<lparr>vn_obj_desc := Some (unat a - 1) # replicate 15 None\<rparr>),
           ho_graphs := (\<lambda>_. zero_graph\<lparr>gr_num_nodes := 2, gr_nodes := 1 # 2 # replicate 126 0,
               gr_pipeline_depth := 2\<rparr>)\<rparr>)"

lemma stage_host_run: "snd (make_stages sample_ids stage_host 0x700) = VX_SUCCESS"
  by code_simp

lemma stage_host_get:
  "graph_nodes stage_host g = [1, 2]" "gr_pipeline_depth (ho_graphs stage_host g) = 2"
  "odt_table_base (sys_tbl (ho_sys stage_host)) = [link_desc 0 ([], [1]), link_desc 1 ([0], []), free_desc, free_desc]"
  "odt_last_alloc_index (sys_tbl (ho_sys stage_host)) = 0"
  "vn_obj_desc (ho_nodes stage_host a) = Some (unat a - 1) # replicate 15 None"
  "\<not> vn_is_super_node (ho_nodes stage_host a)" "vn_pipeline_depth (ho_nodes stage_host a) = 1"
  by (simp_all add: stage_host_def host_of_links_def zero_vnode_def graph_nodes_def Let_def upt_rec)

lemma stage_host_nodes:
  assumes "n \<in> {1, 2}"
  shows "node_desc_ok stage_host n" "stage_desc stage_host n 0"
  using assms by (auto simp: node_desc_ok_def stage_desc_def stage_idx_def stage_host_get link_desc_def init_desc_def
      zero_node_def)

lemma stage_host_ok: "stageable stage_host 0x700 {(1, 2)}"
proof -
  have "table_wf (sys_tbl (ho_sys stage_host))"
    by (auto simp: table_wf_def stage_host_get less_Suc_eq link_desc_def free_desc_def body_ok_def
        init_desc_def)
  moreover have "out_ids stage_host 1 = [1]" "in_ids stage_host 1 = []" "out_ids stage_host 2 = []"
    "in_ids stage_host 2 = [0]" "id0 stage_host 1 = 0" "id0 stage_host 2 = 1"
    by (simp_all add: out_ids_def in_ids_def stage_host_get link_desc_def init_desc_def zero_node_def)
  then have "holds_edges stage_host [1, 2] {(1, 2)}"
    using stage_host_nodes by (auto simp: holds_edges_def nodes_ok_def stage_host_get)
  ultimately show ?thesis
    using stage_host_nodes by (auto simp: stageable_def stage_host_get)
qed

theorem stages_copy_graph_witness:
  "\<exists>h'. make_stages sample_ids stage_host 0x700 = (h', VX_SUCCESS)
    \<and> stage_succs h' 1 1 = [stage_id h' 2 1] \<and> stage_idx h' 2 1 \<noteq> stage_idx h' 2 0
    \<and> nd_prev_pipe_node_id (stage_of h' 1 0) = stage_id h' 1 1"
proof -
  obtain h' where run: "make_stages sample_ids stage_host 0x700 = (h', VX_SUCCESS)"
    using stage_host_run by (metis prod.collapse)
  have succs: "succs stage_host 1 = [2]" by code_simp
  note copy = stages_copy_graph [OF stage_host_ok run, unfolded stage_host_get]
  have two: "unat (2 :: uint32) = 2" by simp
  have sd: "stage_desc h' 2 0" "stage_desc h' 2 1" using copy by (simp_all add: two)
  have "stage_idx h' 2 1 \<noteq> stage_idx h' 2 0" using stage_distinct [OF sd] by simp
  moreover have "stage_succs h' 1 1 = [stage_id h' 2 1]"
    "nd_prev_pipe_node_id (stage_of h' 1 0) = stage_id h' 1 1"
    using copy succs by (simp_all add: two)
  ultimately show ?thesis using run by blast
qed

end
