(* ===== verification/Graph_Parameters.thy ===== *)
theory Graph_Parameters
  imports Node_Stages
begin

text \<open>
  The parameters of a graph in the queued modes, \<open>source/framework/vx_graph_pipeline.c\<close> with the
  accessors of \<open>source/framework/vx_data_ref_queue.c\<close>: the application hands references to the graph
  (enqueue) and takes them back when the nodes have finished with them (dequeue). A reference at an
  output is used exclusively: between its enqueue and its dequeue it carries a mark, and it is in
  exactly one place, waiting, lent to the nodes of one stage, or done.
\<close>

section \<open>The queues of a graph parameter\<close>

abbreviation (input) VX_ERROR_INVALID_DIMENSION :: vx_status where "VX_ERROR_INVALID_DIMENSION \<equiv> - 15"
abbreviation (input) VX_ERROR_INVALID_GRAPH :: vx_status where "VX_ERROR_INVALID_GRAPH \<equiv> - 18"

abbreviation (input) PARAM_ENQUEUED :: uint32 where "PARAM_ENQUEUED \<equiv> 0x10"

abbreviation (input) graph_param :: "host \<Rightarrow> uintptr \<Rightarrow> uint32 \<Rightarrow> tivx_parameters_t" where
  "graph_param h graph j \<equiv> gr_parameters (ho_graphs h graph) ! unat j"

definition ownGraphGetParameterDataRefQueue :: "host \<Rightarrow> uintptr \<Rightarrow> uint32 \<Rightarrow> uintptr" where
  "ownGraphGetParameterDataRefQueue h graph graph_parameter_index =
     (if graph \<noteq> 0 \<and> graph_parameter_index < gr_num_params (ho_graphs h graph)
      then gp_data_ref_queue (graph_param h graph graph_parameter_index) else 0)"

definition ownDataRefQueueGetDoneQueueCount :: "host \<Rightarrow> uintptr \<Rightarrow> uint32 option \<times> vx_status" where
  "ownDataRefQueueGetDoneQueueCount h data_ref_q =
     (if data_ref_q = 0 then (None, VX_ERROR_INVALID_PARAMETERS)
      else ownObjDescQueueGetCount (sys_tbl (ho_sys h)) (dq_done_q_obj_desc_id (ho_data_ref_queues h data_ref_q)))"

definition ownDataRefQueueGetReadyQueueCount :: "host \<Rightarrow> uintptr \<Rightarrow> uint32 option \<times> vx_status" where
  "ownDataRefQueueGetReadyQueueCount h data_ref_q =
     (if data_ref_q = 0 then (None, VX_ERROR_INVALID_PARAMETERS)
      else ownObjDescQueueGetCount (sys_tbl (ho_sys h)) (dq_ready_q_obj_desc_id (ho_data_ref_queues h data_ref_q)))"

definition upd_data_ref_queue :: "uintptr \<Rightarrow> (tivx_data_ref_queue_t \<Rightarrow> tivx_data_ref_queue_t) \<Rightarrow> host \<Rightarrow> host" where
  "upd_data_ref_queue q f h =
     h\<lparr>ho_data_ref_queues := (ho_data_ref_queues h)(q := f (ho_data_ref_queues h q))\<rparr>"

text \<open>As in \<open>vxWaitGraph\<close>, \<open>ws\<close> and \<open>others\<close> are what the other threads do to the event and to the rest
  while the caller sleeps.\<close>

definition ownDataRefQueueWaitDoneRef ::
  "posix_rc \<Rightarrow> event_env list \<Rightarrow> (host \<Rightarrow> host) \<Rightarrow> host \<Rightarrow> uintptr \<Rightarrow> uint32 \<Rightarrow> (host \<times> vx_status) option" where
  "ownDataRefQueueWaitDoneRef rc ws others h data_ref_q timeout =
     (if data_ref_q = 0 then Some (h, VX_ERROR_INVALID_PARAMETERS)
      else map_option (\<lambda>(e, status).
               (upd_data_ref_queue data_ref_q (\<lambda>q. q\<lparr>dq_wait_done_ref_available_event := e\<rparr>) (others h), status))
             (tivxEventWait rc ws (dq_wait_done_ref_available_event (ho_data_ref_queues h data_ref_q)) timeout))"

definition vxGraphParameterCheckDoneRef :: "host \<Rightarrow> uintptr \<Rightarrow> uint32 \<Rightarrow> uint32 option \<times> vx_status" where
  "vxGraphParameterCheckDoneRef h graph graph_parameter_index =
     (let data_ref_q = ownGraphGetParameterDataRefQueue h graph graph_parameter_index in
      if data_ref_q = 0 then (None, VX_ERROR_INVALID_PARAMETERS)
      else (case ownDataRefQueueGetDoneQueueCount h data_ref_q of
              (None, status) \<Rightarrow> (Some 0, status) | (Some n, status) \<Rightarrow> (Some n, status)))"

text \<open>The number of executions that the references waiting at the parameters allow.\<close>

definition ownGraphGetNumSchedule :: "host \<Rightarrow> uintptr \<Rightarrow> uint32" where
  "ownGraphGetNumSchedule h graph =
     (if graph \<noteq> 0 \<and> gr_schedule_mode (ho_graphs h graph) = VX_GRAPH_SCHEDULE_MODE_QUEUE_MANUAL then
        (let min_count = foldl (\<lambda>m gp.
               if gp_queue_enable gp then
                 (let count = (case fst (ownDataRefQueueGetReadyQueueCount h (gp_data_ref_queue gp)) of
                                 None \<Rightarrow> 0 | Some n \<Rightarrow> n)
                  in if count < m then count else m)
               else m) (- 1) (graph_params (ho_graphs h graph))
         in if min_count = - 1 then 0 else min_count)
      else 0)"

section \<open>The marks of a reference\<close>

abbreviation (input) ref_desc :: "host \<Rightarrow> uintptr \<Rightarrow> nat" where
  "ref_desc h r \<equiv> the (rf_obj_desc (ho_refs h r))"

definition upd_desc_of :: "nat \<Rightarrow> (tivx_obj_desc \<Rightarrow> tivx_obj_desc) \<Rightarrow> host \<Rightarrow> host" where
  "upd_desc_of i f h = h\<lparr>ho_sys := upd_base i f (ho_sys h)\<rparr>"

text \<open>The items of an object array or a pyramid, as many as its descriptor says.\<close>

definition container_items :: "host \<Rightarrow> uintptr \<Rightarrow> uintptr list option" where
  "container_items h r =
     (if ownIsValidSpecificReference h r VX_TYPE_OBJECT_ARRAY
      then Some (take (unat (oa_num_items (od_body (sys_desc (ho_sys h) (ref_desc h r))))) (rf_items (ho_refs h r)))
      else if ownIsValidSpecificReference h r VX_TYPE_PYRAMID
      then Some (take (unat (py_num_levels (od_body (sys_desc (ho_sys h) (ref_desc h r))))) (rf_items (ho_refs h r)))
      else None)"

definition clear_mark :: "tivx_obj_desc \<Rightarrow> tivx_obj_desc" where
  "clear_mark d = d\<lparr>od_flags := tivxFlagBitClear (od_flags d) PARAM_ENQUEUED\<rparr>"

definition count_down :: "tivx_obj_desc \<Rightarrow> tivx_obj_desc" where
  "count_down d = d\<lparr>od_num_enqueues := od_num_enqueues d - 1\<rparr>"

definition unmark_item :: "host \<Rightarrow> uintptr \<Rightarrow> host" where
  "unmark_item h r =
     (if od_num_enqueues (sys_desc (ho_sys h) (ref_desc h r)) > 0
      then upd_desc_of (ref_desc h r) (\<lambda>d. count_down (clear_mark d)) h else h)"

definition ownDecrementEnqueueCount :: "host \<Rightarrow> uintptr \<Rightarrow> host \<times> vx_status" where
  "ownDecrementEnqueueCount h ref =
     (let i = ref_desc h ref; h1 = upd_desc_of i clear_mark h in
      if od_num_enqueues (sys_desc (ho_sys h1) i) > 0 then
        (let h2 = upd_desc_of i count_down h1 in
         (case container_items h2 ref of None \<Rightarrow> h2 | Some items \<Rightarrow> foldl unmark_item h2 items, VX_SUCCESS))
      else if rf_delay (ho_refs h ref) = 0 then (h1, VX_FAILURE)
      else (h1, VX_SUCCESS))"

text \<open>A descriptor that is queued at an output or bidirectional parameter cannot be queued again, and one
  that is queued at all cannot be queued at an output.\<close>

definition queue_taken :: "bool \<Rightarrow> tivx_obj_desc \<Rightarrow> bool" where
  "queue_taken is_input d \<longleftrightarrow> tivxFlagIsBitSet (od_flags d) PARAM_ENQUEUED
     \<or> \<not> is_input \<and> od_num_enqueues d > 0"

definition mark :: "bool \<Rightarrow> tivx_obj_desc \<Rightarrow> tivx_obj_desc" where
  "mark is_input d = d\<lparr>od_num_enqueues := od_num_enqueues d + 1,
     od_flags := if is_input then od_flags d else od_flags d OR PARAM_ENQUEUED\<rparr>"

section \<open>Enqueue\<close>

abbreviation (input) param_replicated :: "host \<Rightarrow> uintptr \<Rightarrow> uint32 \<Rightarrow> bool" where
  "param_replicated h graph j \<equiv> prm_bit (nd_is_prm_replicated (nd0 h (gp_node (graph_param h graph j))))
     (unat (gp_index (graph_param h graph j)))"

abbreviation (input) param_input :: "host \<Rightarrow> uintptr \<Rightarrow> uint32 \<Rightarrow> bool" where
  "param_input h graph j \<equiv> prm_bit (nd_is_prm_input (nd0 h (gp_node (graph_param h graph j))))
     (unat (gp_index (graph_param h graph j)))"

abbreviation (input) param_refs_list :: "host \<Rightarrow> uintptr \<Rightarrow> uint32 \<Rightarrow> uintptr list" where
  "param_refs_list h graph j \<equiv> take (unat (gp_num_buf (graph_param h graph j))) (gp_refs_list (graph_param h graph j))"

text \<open>The descriptor that is marked for a reference, and the items that are marked with it: \<open>None\<close>
  when the parent of a replicated reference is neither an object array nor a pyramid.\<close>

definition marked_with :: "host \<Rightarrow> uintptr \<Rightarrow> uint32 \<Rightarrow> uintptr \<Rightarrow> (nat \<times> uintptr list) option" where
  "marked_with h graph j ref =
     (if param_replicated h graph j then
        (let scope = rf_scope (ho_refs h ref) in
         if group_scope h ref
         then Some (ref_desc h scope,
                    take (unat (nd_num_of_replicas (nd0 h (gp_node (graph_param h graph j))))) (rf_items (ho_refs h scope)))
         else None)
      else Some (ref_desc h ref, case container_items h ref of None \<Rightarrow> [] | Some items \<Rightarrow> items))"

definition can_be_queued :: "host \<Rightarrow> bool \<Rightarrow> nat \<Rightarrow> uintptr list \<Rightarrow> bool" where
  "can_be_queued h is_input objd items \<longleftrightarrow> \<not> queue_taken is_input (sys_desc (ho_sys h) objd)
     \<and> (\<forall>r \<in> set items. case rf_obj_desc (ho_refs h r) of
            None \<Rightarrow> False | Some i \<Rightarrow> \<not> queue_taken is_input (sys_desc (ho_sys h) i))"

text \<open>One turn of the loop: the reference is looked up in the list of the parameter, checked, put into
  the ready queue and marked under the lock; the nodes that were blocked on the queue are triggered.\<close>

definition enqueue_ref :: "platform \<Rightarrow> host \<Rightarrow> uintptr \<Rightarrow> uint32 \<Rightarrow> uintptr \<Rightarrow> uintptr \<Rightarrow> host \<times> vx_status" where
  "enqueue_ref pl h graph j data_ref_q ref =
     (if ref = 0 \<or> ref \<notin> set (param_refs_list h graph j) then (h, VX_FAILURE)
      else
       (let is_input = param_input h graph j in
        case marked_with h graph j ref of
          None \<Rightarrow> (h, VX_FAILURE)
        | Some (objd, items) \<Rightarrow>
           if \<not> can_be_queued h is_input objd items then (h, VX_FAILURE)
           else
            (let queue_id = dq_ready_q_obj_desc_id (ho_data_ref_queues h data_ref_q);
                 ref_id = od_obj_desc_id (sys_desc (ho_sys h) (ref_desc h ref))
             in case sys_enqueue (ho_sys h) queue_id ref_id of
                  (s1, status) \<Rightarrow>
                    if status = VX_SUCCESS then
                      (case sys_extract_blocked s1 queue_id no_blocked of
                         (s2, blocked_nodes) \<Rightarrow>
                          (let h1 = foldl (\<lambda>h r. upd_desc_of (ref_desc h r) (mark is_input) h)
                                      (upd_desc_of objd (mark is_input) (h\<lparr>ho_sys := s2\<rparr>)) items
                           in (h1\<lparr>ho_sys := foldl (ownTargetTriggerNode pl) (ho_sys h1) (bn_list blocked_nodes)\<rparr>,
                               VX_SUCCESS)))
                    else (h\<lparr>ho_sys := s1\<rparr>, status))))"

fun enqueue_refs ::
  "platform \<Rightarrow> uintptr \<Rightarrow> uint32 \<Rightarrow> uintptr \<Rightarrow> host \<Rightarrow> uint32 \<Rightarrow> uintptr list \<Rightarrow> host \<times> uint32 \<times> vx_status" where
  "enqueue_refs pl graph j data_ref_q h num_enqueue [] = (h, num_enqueue, VX_SUCCESS)"
| "enqueue_refs pl graph j data_ref_q h num_enqueue (r # rs) =
     (case enqueue_ref pl h graph j data_ref_q r of
        (h1, status) \<Rightarrow>
          if status = VX_SUCCESS then enqueue_refs pl graph j data_ref_q h1 (num_enqueue + 1) rs
          else (h1, num_enqueue, status))"

text \<open>What follows when all references have been enqueued: one pipe-up buffer less to come, or the graph
  is scheduled.\<close>

definition after_enqueue ::
  "posix_rc \<Rightarrow> platform \<Rightarrow> (nat \<Rightarrow> uint64) \<Rightarrow> host \<Rightarrow> uintptr \<Rightarrow> uint32 \<Rightarrow> uint32 \<Rightarrow> host \<times> vx_status" where
  "after_enqueue rc pl now h graph j num_enqueue =
     (let node = gp_node (graph_param h graph j) in
      if nd_pipeup_buf_idx (nd0 h node) > 1
      then (upd_nd0 node (\<lambda>d. d\<lparr>nd_pipeup_buf_idx := nd_pipeup_buf_idx d - 1\<rparr>) h, VX_SUCCESS)
      else if ownGraphDoScheduleGraphAfterEnqueue h graph j
      then ownGraphScheduleGraph rc pl now h graph num_enqueue
      else (h, VX_SUCCESS))"

definition ownGraphParameterEnqueueReadyRef ::
  "posix_rc \<Rightarrow> platform \<Rightarrow> (nat \<Rightarrow> uint64) \<Rightarrow> host \<Rightarrow> uintptr \<Rightarrow> uint32 \<Rightarrow> uintptr list \<Rightarrow> host \<times> vx_status" where
  "ownGraphParameterEnqueueReadyRef rc pl now h graph graph_parameter_index refs =
     (let data_ref_q = ownGraphGetParameterDataRefQueue h graph graph_parameter_index in
      if data_ref_q = 0 then (h, VX_ERROR_INVALID_PARAMETERS)
      else (case enqueue_refs pl graph graph_parameter_index data_ref_q h 0 refs of
              (h1, num_enqueue, status) \<Rightarrow>
                if status = VX_SUCCESS \<and> num_enqueue > 0
                then after_enqueue rc pl now h1 graph graph_parameter_index num_enqueue
                else (h1, status)))"

definition vxGraphParameterEnqueueReadyRef ::
  "posix_rc \<Rightarrow> platform \<Rightarrow> (nat \<Rightarrow> uint64) \<Rightarrow> host \<Rightarrow> uintptr \<Rightarrow> uint32 \<Rightarrow> uintptr list \<Rightarrow> host \<times> vx_status" where
  "vxGraphParameterEnqueueReadyRef rc pl now h graph graph_parameter_index refs =
     ownGraphParameterEnqueueReadyRef rc pl now h graph graph_parameter_index refs"

section \<open>Dequeue\<close>

text \<open>The reference of a dequeued descriptor: its marks are taken back. For a replicated parameter those
  of the whole container are, and the result is its first item.\<close>

definition dequeued_ref :: "host \<Rightarrow> uintptr \<Rightarrow> uint32 \<Rightarrow> uintptr \<Rightarrow> host \<times> uintptr \<times> vx_status" where
  "dequeued_ref h graph j ref =
     (if ref = 0 then (h, 0, VX_ERROR_INVALID_PARAMETERS)
      else if param_replicated h graph j then
        (let c = (if rf_type (ho_refs h ref) = gp_type (graph_param h graph j) then rf_scope (ho_refs h ref) else ref) in
         if ownIsValidSpecificReference h c VX_TYPE_OBJECT_ARRAY \<or> ownIsValidSpecificReference h c VX_TYPE_PYRAMID
         then (case ownDecrementEnqueueCount h c of (h1, status) \<Rightarrow> (h1, rf_items (ho_refs h c) ! 0, status))
         else (h, c, VX_FAILURE))
      else (case ownDecrementEnqueueCount h ref of (h1, status) \<Rightarrow> (h1, ref, status)))"

text \<open>The section under the lock. The second component is \<open>None\<close> when the done queue is empty.\<close>

definition dequeue_done ::
  "host \<Rightarrow> uintptr \<Rightarrow> uint32 \<Rightarrow> uintptr \<Rightarrow> host \<times> (uintptr \<times> vx_status) option" where
  "dequeue_done h graph j data_ref_q =
     (case sys_dequeue (ho_sys h) (dq_done_q_obj_desc_id (ho_data_ref_queues h data_ref_q)) of
        (s, ref_id, status) \<Rightarrow>
          (let h1 = h\<lparr>ho_sys := s\<rparr> in
           if status = VX_SUCCESS \<and> ref_id \<noteq> TIVX_OBJ_DESC_INVALID
           then (case dequeued_ref h1 graph j (ownReferenceGetHandleFromObjDescId h1 ref_id) of
                   (h2, ref, st) \<Rightarrow> (h2, Some (ref, st)))
           else (h1, None)))"

text \<open>The inner loop: it waits for a reference as long as the call has none yet. Each element of \<open>waits\<close>
  stands for one sleep, and \<open>None\<close> is a caller that sleeps for ever. \<open>num\<close> is the number of references
  that the call has got. The result has the rest of the waits.\<close>

type_synonym wait_env = "event_env list \<times> (host \<Rightarrow> host)"

fun dequeue_wait ::
  "posix_rc \<Rightarrow> uintptr \<Rightarrow> uint32 \<Rightarrow> uintptr \<Rightarrow> uint32 \<Rightarrow> wait_env list \<Rightarrow> host \<Rightarrow>
   (host \<times> wait_env list \<times> (uintptr \<times> vx_status) option \<times> vx_status) option" where
  "dequeue_wait rc graph j data_ref_q num waits h =
     (case dequeue_done h graph j data_ref_q of
        (h1, Some r) \<Rightarrow> Some (h1, waits, Some r, snd r)
      | (h1, None) \<Rightarrow>
          if num = 0 then
            (case waits of
               [] \<Rightarrow> None
             | (ws, others) # rest \<Rightarrow>
                (case ownDataRefQueueWaitDoneRef rc ws others h1 data_ref_q (gr_timeout_val (ho_graphs h1 graph)) of
                   None \<Rightarrow> None
                 | Some (h2, status) \<Rightarrow>
                    if status \<noteq> VX_SUCCESS then Some (h2, rest, None, status)
                    else dequeue_wait rc graph j data_ref_q num rest h2))
          else Some (h1, waits, None, VX_SUCCESS))"

declare dequeue_wait.simps [simp del]

text \<open>The loop over the caller's array; the list has what is written at each place, \<open>None\<close> for a place
  that is left alone. An empty attempt does not end the loop.\<close>

fun dequeue_refs ::
  "posix_rc \<Rightarrow> uintptr \<Rightarrow> uint32 \<Rightarrow> uintptr \<Rightarrow> nat \<Rightarrow> wait_env list \<Rightarrow> host \<Rightarrow> uintptr option list \<Rightarrow> uint32 \<Rightarrow> vx_status \<Rightarrow>
   (host \<times> uintptr option list \<times> uint32 \<times> vx_status) option" where
  "dequeue_refs rc graph j data_ref_q 0 waits h refs num status = Some (h, refs, num, status)"
| "dequeue_refs rc graph j data_ref_q (Suc k) waits h refs num status =
     (case dequeue_wait rc graph j data_ref_q num waits h of
        None \<Rightarrow> None
      | Some (h1, rest, None, st) \<Rightarrow>
          if st \<noteq> VX_SUCCESS then Some (h1, refs @ [None], num, st)
          else dequeue_refs rc graph j data_ref_q k rest h1 (refs @ [None]) num st
      | Some (h1, rest, Some (ref, _), st) \<Rightarrow>
          if st \<noteq> VX_SUCCESS then Some (h1, refs @ [None], num + 1, st)
          else if rf_type (ho_refs h1 ref) = gp_type (graph_param h1 graph j)
          then dequeue_refs rc graph j data_ref_q k rest h1 (refs @ [Some ref]) (num + 1) st
          else Some (h1, refs @ [None], num + 1, VX_ERROR_INVALID_PARAMETERS))"

definition vxGraphParameterDequeueDoneRef ::
  "posix_rc \<Rightarrow> wait_env list \<Rightarrow> host \<Rightarrow> uintptr \<Rightarrow> uint32 \<Rightarrow> uint32 \<Rightarrow>
   (host \<times> uintptr option list \<times> uint32 option \<times> vx_status) option" where
  "vxGraphParameterDequeueDoneRef rc waits h graph graph_parameter_index max_refs =
     (let data_ref_q = ownGraphGetParameterDataRefQueue h graph graph_parameter_index in
      if data_ref_q = 0 then Some (h, [], None, VX_ERROR_INVALID_PARAMETERS)
      else map_option (\<lambda>(h1, refs, num, status). (h1, refs, Some num, status))
             (dequeue_refs rc graph graph_parameter_index data_ref_q (unat max_refs) waits h [] 0 VX_SUCCESS))"

text \<open>The list of the references of a parameter. The loop runs over the caller's size, which may be
  greater than the number of references.\<close>

definition vxGetGraphParameterRefsList ::
  "posix_rc \<Rightarrow> host \<Rightarrow> uintptr \<Rightarrow> uint32 \<Rightarrow> uint32 \<Rightarrow> host \<times> uintptr list \<times> vx_status" where
  "vxGetGraphParameterRefsList rc h graph j refs_list_size =
     (if graph = 0 then (h, [], VX_ERROR_INVALID_REFERENCE)
      else if \<not> ownIsValidSpecificReference h graph VX_TYPE_GRAPH then (h, [], VX_ERROR_INVALID_TYPE)
      else if \<not> gr_verified (ho_graphs h graph) then (h, [], VX_ERROR_INVALID_GRAPH)
      else if gr_num_params (ho_graphs h graph) > j \<and> gp_num_buf (graph_param h graph j) \<le> refs_list_size then
        (let refs = map (\<lambda>i. gp_refs_list (graph_param h graph j) ! i) [0..<unat refs_list_size]
         in (foldl (\<lambda>h r. fst (ownIncrementReference rc h r VX_EXTERNAL)) h refs, refs, VX_SUCCESS))
      else (h, [], VX_ERROR_INVALID_DIMENSION))"

section \<open>Where the references are\<close>

text \<open>What a graph parameter promises: the references wait in order, are lent to at most one stage each,
  and come back in the order in which the stages finish. A reference that the graph has cannot be given
  to it a second time.\<close>

record cycle =
  cy_ready :: "uint16 list"
  cy_lent :: "uint16 option list"
  cy_done :: "uint16 list"

definition in_graph :: "cycle \<Rightarrow> uint16 list" where
  "in_graph c = cy_ready c @ somes (cy_lent c) @ cy_done c"

datatype outcome = Accepted uintptr | Refused uintptr | Returned uintptr | Nothing_Done | Silent

text \<open>The steps of that machine; \<open>ids\<close> gives the descriptor id of each reference of the parameter.\<close>

inductive cycle_step :: "(uintptr \<Rightarrow> uint16 option) \<Rightarrow> cycle \<Rightarrow> outcome \<Rightarrow> cycle \<Rightarrow> bool" for ids where
  accept: "ids r = Some i \<Longrightarrow> i \<notin> set (in_graph c) \<Longrightarrow>
    cycle_step ids c (Accepted r) (c\<lparr>cy_ready := cy_ready c @ [i]\<rparr>)"
| refuse: "ids r = None \<or> (\<exists>i. ids r = Some i \<and> i \<in> set (in_graph c)) \<Longrightarrow> cycle_step ids c (Refused r) c"
| lend: "cy_ready c = i # is \<Longrightarrow> k < length (cy_lent c) \<Longrightarrow> cy_lent c ! k = None \<Longrightarrow>
    cycle_step ids c Silent (c\<lparr>cy_ready := is, cy_lent := (cy_lent c)[k := Some i]\<rparr>)"
| give_back: "k < length (cy_lent c) \<Longrightarrow> cy_lent c ! k = Some i \<Longrightarrow>
    cycle_step ids c Silent (c\<lparr>cy_lent := (cy_lent c)[k := None], cy_done := cy_done c @ [i]\<rparr>)"
| return: "cy_done c = i # is \<Longrightarrow> ids r = Some i \<Longrightarrow> cycle_step ids c (Returned r) (c\<lparr>cy_done := is\<rparr>)"
| nothing: "cy_done c = [] \<Longrightarrow> cycle_step ids c Nothing_Done c"
| silent: "cycle_step ids c Silent c"

text \<open>A step changes what the graph has by what it accepts and returns, and nothing else.\<close>

lemma cycle_step_mset:
  assumes "cycle_step ids c out c'"
  shows "mset (in_graph c') = (case out of
      Accepted r \<Rightarrow> add_mset (the (ids r)) (mset (in_graph c))
    | Returned r \<Rightarrow> mset (in_graph c) - {#the (ids r)#}
    | _ \<Rightarrow> mset (in_graph c))"
  using assms
proof cases
  case (give_back k i)
  then show ?thesis using somes_take [OF give_back(3,4)] by (simp add: in_graph_def)
qed (auto simp: in_graph_def somes_put)

lemma cycle_step_distinct:
  assumes "cycle_step ids c out c'" "distinct (in_graph c)"
  shows "distinct (in_graph c')"
proof -
  note m = cycle_step_mset [OF assms(1)]
  have new: "the (ids r) \<notin> set (in_graph c)" if "out = Accepted r" for r
    using assms(1) that by cases auto
  show ?thesis
  proof (cases out)
    case (Accepted r)
    then have "mset (in_graph c') = mset (the (ids r) # in_graph c)" using m by simp
    then show ?thesis using new [OF Accepted] assms(2) by (metis distinct.simps(2) mset_eq_imp_distinct_iff)
  next
    case (Returned r)
    then have "mset (in_graph c') = mset (remove1 (the (ids r)) (in_graph c))" using m by simp
    then show ?thesis using assms(2) by (metis distinct_remove1 mset_eq_imp_distinct_iff)
  qed (use m assms(2) in \<open>auto dest: mset_eq_imp_distinct_iff\<close>)
qed

section \<open>Frames\<close>

text \<open>Between two states only the descriptors in \<open>K\<close> change their bodies and only those in \<open>M\<close> their
  marks; what kind of descriptor each is, its id and owner stay, and so do the masks of the nodes.\<close>

abbreviation (input) masks :: "tivx_obj_desc_node \<Rightarrow> uint32 \<times> uint32" where
  "masks k \<equiv> (nd_is_prm_input k, nd_is_prm_replicated k)"

abbreviation (input) marks :: "tivx_obj_desc \<Rightarrow> uint32 \<times> uint16" where
  "marks d \<equiv> (od_flags d, od_num_enqueues d)"

definition only :: "nat set \<Rightarrow> nat set \<Rightarrow> sys \<Rightarrow> sys \<Rightarrow> bool" where
  "only K M s s' \<longleftrightarrow> num_entries (sys_tbl s') = num_entries (sys_tbl s)
     \<and> (\<forall>i < num_entries (sys_tbl s). let d = sys_desc s i; d' = sys_desc s' i in
          od_type d' = od_type d \<and> od_obj_desc_id d' = od_obj_desc_id d \<and> od_host_ref d' = od_host_ref d
        \<and> (i \<notin> K \<longrightarrow> od_body d' = od_body d) \<and> (i \<notin> M \<longrightarrow> marks d' = marks d)
        \<and> (od_type d = TIVX_OBJ_DESC_NODE \<longrightarrow> (\<forall>k. od_body d = B_Node k \<longrightarrow>
             (\<exists>k'. od_body d' = B_Node k' \<and> masks k' = masks k))))"

lemma only_refl [simp]: "only K M s s"
  by (simp add: only_def Let_def)

lemma only_trans:
  assumes "only K M s s1" "only K M s1 s2"
  shows "only K M s s2"
  unfolding only_def Let_def
proof (intro conjI allI impI)
  note a = assms [unfolded only_def Let_def]
  show "num_entries (sys_tbl s2) = num_entries (sys_tbl s)" using a by simp
  fix i assume i: "i < num_entries (sys_tbl s)"
  show "od_type (sys_desc s2 i) = od_type (sys_desc s i)"
    "od_obj_desc_id (sys_desc s2 i) = od_obj_desc_id (sys_desc s i)"
    "od_host_ref (sys_desc s2 i) = od_host_ref (sys_desc s i)"
    using a i by simp_all
  show "od_body (sys_desc s2 i) = od_body (sys_desc s i)" if "i \<notin> K" using a i that by simp
  show "marks (sys_desc s2 i) = marks (sys_desc s i)" if "i \<notin> M" using a i that by simp
  fix k assume "od_type (sys_desc s i) = TIVX_OBJ_DESC_NODE" "od_body (sys_desc s i) = B_Node k"
  then show "\<exists>k'. od_body (sys_desc s2 i) = B_Node k' \<and> masks k' = masks k" using a i by fastforce
qed

lemma only_mono: "only K M s s' \<Longrightarrow> K \<subseteq> K' \<Longrightarrow> M \<subseteq> M' \<Longrightarrow> only K' M' s s'"
  unfolding only_def Let_def by blast

lemma only_tbl: "sys_tbl s' = sys_tbl s \<Longrightarrow> only K M s s'"
  by (simp add: only_def Let_def)

lemma only_foldl: "(\<And>s x. x \<in> set xs \<Longrightarrow> only K M s (f s x)) \<Longrightarrow> only K M s (foldl f s xs)"
  by (induction xs arbitrary: s) (auto intro: only_trans)

lemma only_upd:
  assumes "\<And>d. od_type (f d) = od_type d \<and> od_obj_desc_id (f d) = od_obj_desc_id d \<and> od_host_ref (f d) = od_host_ref d"
    and "i \<notin> K \<Longrightarrow> od_body (f (sys_desc s i)) = od_body (sys_desc s i)"
    and "i \<notin> M \<Longrightarrow> marks (f (sys_desc s i)) = marks (sys_desc s i)"
    and "\<And>k. od_type (sys_desc s i) = TIVX_OBJ_DESC_NODE \<Longrightarrow> od_body (sys_desc s i) = B_Node k \<Longrightarrow>
      \<exists>k'. od_body (f (sys_desc s i)) = B_Node k' \<and> masks k' = masks k"
  shows "only K M s (s\<lparr>sys_tbl := upd_desc i f (sys_tbl s)\<rparr>)"
  unfolding only_def Let_def
proof (intro conjI allI impI)
  fix j assume j: "j < num_entries (sys_tbl s)"
  let ?d' = "sys_desc (s\<lparr>sys_tbl := upd_desc i f (sys_tbl s)\<rparr>) j"
  have d: "?d' = (if i = j then f (sys_desc s j) else sys_desc s j)" using j by simp
  show "od_type ?d' = od_type (sys_desc s j)" "od_obj_desc_id ?d' = od_obj_desc_id (sys_desc s j)"
    "od_host_ref ?d' = od_host_ref (sys_desc s j)"
    using assms(1) unfolding d by auto
  show "od_body ?d' = od_body (sys_desc s j)" if "j \<notin> K" using assms(2) that unfolding d by auto
  show "marks ?d' = marks (sys_desc s j)" if "j \<notin> M" using assms(3) that unfolding d by auto
  fix k assume "od_type (sys_desc s j) = TIVX_OBJ_DESC_NODE" "od_body (sys_desc s j) = B_Node k"
  then show "\<exists>k'. od_body ?d' = B_Node k' \<and> masks k' = masks k"
    using assms(4) unfolding d by auto
qed simp

lemma only_node: "(\<And>k. masks (f k) = masks k) \<Longrightarrow> i \<in> K \<Longrightarrow> only K M s (upd_node i f s)"
  unfolding upd_node_def by (rule only_upd) auto

lemma only_drq:
  "od_type (sys_desc s i) = TIVX_OBJ_DESC_DATA_REF_Q \<Longrightarrow> i \<in> K \<Longrightarrow> only K M s (upd_drq i f s)"
  unfolding upd_drq_def by (rule only_upd) auto

lemma only_base:
  "(\<And>d. od_type (f d) = od_type d \<and> od_obj_desc_id (f d) = od_obj_desc_id d \<and> od_host_ref (f d) = od_host_ref d
      \<and> od_body (f d) = od_body d \<and> (i \<notin> M \<longrightarrow> marks (f d) = marks d)) \<Longrightarrow> only K M s (upd_base i f s)"
  unfolding upd_base_def by (rule only_upd) auto

lemma only_queue:
  "queue_at (sys_tbl s) q = Some i \<Longrightarrow> unat q \<in> K \<Longrightarrow> only K M s (s\<lparr>sys_tbl := upd_queue i f (sys_tbl s)\<rparr>)"
  unfolding upd_queue_def by (rule only_upd) (auto simp: queue_at_some)

lemma only_odq:
  assumes "unat q \<in> K"
  shows "only K M s (fst (sys_enqueue s q x))" "only K M s (fst (sys_dequeue s q))"
    "only K M s (fst (sys_add_blocked s q x))" "only K M s (fst (sys_extract_blocked s q bn))"
proof -
  note d = only_queue [of s q _ K M, OF _ assms]
  have t: "only K M s (s\<lparr>sys_tbl := sys_tbl s\<rparr>)" by (rule only_tbl) simp
  show "only K M s (fst (sys_enqueue s q x))"
    by (auto simp: sys_enqueue_def ownObjDescQueueEnqueue_def t d split: option.split prod.split if_splits)
  show "only K M s (fst (sys_dequeue s q))"
    by (auto simp: sys_dequeue_def ownObjDescQueueDequeue_def Let_def t d split: option.split prod.split if_splits)
  show "only K M s (fst (sys_add_blocked s q x))"
    by (auto simp: sys_add_blocked_def ownObjDescQueueAddBlockedNode_def t d split: option.split prod.split if_splits)
  show "only K M s (fst (sys_extract_blocked s q bn))"
    by (auto simp: sys_extract_blocked_def ownObjDescQueueExtractBlockedNodes_def Let_def t d
        split: option.split prod.split if_splits)
qed

lemma only_triggers: "only K M s (foldl (ownTargetTriggerNode pl) s ids)"
  by (rule only_foldl) (simp add: only_tbl)

text \<open>Queues and stages that are not in \<open>K\<close> are as before.\<close>

lemma only_odq_same:
  assumes "only K M s s'" "odq_inv q (sys_tbl s)" "unat q \<notin> K"
  shows "odq_inv q (sys_tbl s')" "odq_elems q (sys_tbl s') = odq_elems q (sys_tbl s)"
    "odq_blocked q (sys_tbl s') = odq_blocked q (sys_tbl s)"
proof -
  have i: "unat q < num_entries (sys_tbl s)" using assms(2) by (auto simp: odq_inv_def queue_at_some)
  have d: "od_body (sys_desc s' (unat q)) = od_body (sys_desc s (unat q))"
    "od_type (sys_desc s' (unat q)) = od_type (sys_desc s (unat q))"
    "num_entries (sys_tbl s') = num_entries (sys_tbl s)"
    using assms(1,3) i by (simp_all add: only_def Let_def)
  show "odq_inv q (sys_tbl s')" "odq_elems q (sys_tbl s') = odq_elems q (sys_tbl s)"
    "odq_blocked q (sys_tbl s') = odq_blocked q (sys_tbl s)"
    using assms(2) d i by (auto simp: odq_inv_def queue_at_some odq_elems_def odq_blocked_def)
qed

lemma only_acquire:
  assumes "od_type (sys_desc s d) = TIVX_OBJ_DESC_DATA_REF_Q" "{unat (acq_q s d), d, n} \<subseteq> K"
    and "d < num_entries (sys_tbl s)"
  shows "only K M s (fst (ownTargetNodeDescAcquireParameter s n d b pipeup))"
proof (cases "acquired s d")
  case True
  then show ?thesis by (simp add: acquire_held)
next
  case False
  let ?q = "acq_q s d"
  have K: "unat ?q \<in> K" "d \<in> K" "n \<in> K" using assms(2) by auto
  obtain s1 ref st where s1: "sys_dequeue s ?q = (s1, ref, st)" by (metis prod_cases3)
  have o1: "only K M s s1" using only_odq(2) [of ?q K M s] K(1) s1 by simp
  have t1: "od_type (sys_desc s1 d) = TIVX_OBJ_DESC_DATA_REF_Q"
    using o1 assms(1,3) by (simp add: only_def Let_def)
  obtain s2 st2 where s2: "sys_add_blocked s1 ?q (od_obj_desc_id (sys_desc s1 n)) = (s2, st2)" by fastforce
  have o2: "only K M s1 s2" using only_odq(3) [of ?q K M s1] K(1) s2 by (metis fst_conv)
  have blocked: "only K M s (upd_node n (\<lambda>k. k\<lparr>nd_state := TIVX_NODE_OBJ_DESC_STATE_BLOCKED\<rparr>) s2)"
    by (rule only_trans [OF only_trans [OF o1 o2] only_node]) (simp_all add: K)
  have lent: "only K M s (upd_drq d f s1)" for f
    using only_trans [OF o1 only_drq [OF t1 K(2)]] .
  have cnt: "only K M s3 (case ownObjDescGet (sys_tbl s3) ref of
      Some p \<Rightarrow> upd_base p (\<lambda>b. b\<lparr>od_in_node_done_cnt := 0\<rparr>) s3 | None \<Rightarrow> s3)" for s3
    by (auto intro: only_base split: option.split)
  show ?thesis
    using False s1 s2 only_trans [OF o1 o2] blocked o1 only_trans [OF lent cnt] only_trans [OF o1 cnt]
    by (simp add: ownTargetNodeDescAcquireParameter_def Let_def)
qed

lemma only_release_count:
  assumes "od_type (sys_desc s d) = TIVX_OBJ_DESC_DATA_REF_Q" "d \<in> K" "d < num_entries (sys_tbl s)"
  shows "only K M s (fst (release_count s d ref is_input))"
proof -
  have dr: "only K M s (upd_drq d f s)" for f by (rule only_drq) (simp_all add: assms)
  have b: "only K M s (upd_base p (\<lambda>b. b\<lparr>od_in_node_done_cnt := c b\<rparr>) (upd_drq d f s))" for p c f
    by (rule only_trans [OF dr only_base]) simp
  show ?thesis by (auto simp: release_count_def Let_def dr b split: option.split)
qed

lemma release_count_keeps:
  assumes "d < num_entries (sys_tbl s)" "\<exists>q. od_body (sys_desc s d) = B_Data_Ref_Q q" "release_count s d ref is_input = (s1, r, q)"
  shows "drq_flags (drq_of s1 d) = drq_flags (drq_of s d)" "rel_q s1 d = rel_q s d" "acq_q s1 d = acq_q s d"
    "\<exists>q. od_body (sys_desc s1 d) = B_Data_Ref_Q q"
    "drq_ref_obj_desc_id (drq_of s1 d) = (if \<not> is_input \<and> drq_num_in_nodes (drq_of s d) \<noteq> 0 then ref
      else drq_ref_obj_desc_id (drq_of s d))"
  using assms by (auto simp: release_count_def Let_def split: option.splits if_splits)

lemma only_release:
  assumes "od_type (sys_desc s d) = TIVX_OBJ_DESC_DATA_REF_Q" "{unat (rel_q s d), d} \<subseteq> K" "d \<notin> {unat (rel_q s d)}"
    and "d < num_entries (sys_tbl s)" "\<exists>q. od_body (sys_desc s d) = B_Data_Ref_Q q"
    and "\<not> tivxFlagIsBitSet (drq_flags (drq_of s d)) DATA_REF_Q_FLAG_IS_IN_DELAY"
  shows "only K M s (fst (ownTargetNodeDescReleaseParameter pl ho s n d ref is_input))"
proof -
  let ?q = "rel_q s d"
  have K: "unat ?q \<in> K" "d \<in> K" using assms(2) by auto
  obtain s1 r q where c: "release_count s d ref is_input = (s1, r, q)" by (metis prod_cases3)
  note k = release_count_keeps [OF assms(4,5) c]
  have o1: "only K M s s1" using only_release_count [OF assms(1) K(2) assms(4), of M ref is_input] c by simp
  obtain s2 bn where s2: "(if q then release_to_queue ho s1 d ref else (s1, no_blocked)) = (s2, bn)" by fastforce
  have o2: "only K M s1 s2"
  proof (cases q)
    case True
    obtain s3 st where e: "sys_enqueue s1 ?q ref = (s3, st)" by fastforce
    have o3: "only {unat ?q} M s1 s3" using only_odq(1) [of ?q "{unat ?q}" M s1 ref] e by simp
    obtain s4 bn4 where x: "(if st = VX_SUCCESS then sys_extract_blocked s3 ?q no_blocked else (s3, no_blocked)) = (s4, bn4)"
      by fastforce
    have o4: "only {unat ?q} M s3 s4"
      using only_odq(4) [of ?q "{unat ?q}" M s3 no_blocked] x by (auto split: if_splits)
    have "sys_desc s4 d = sys_desc s1 d \<or> od_body (sys_desc s4 d) = od_body (sys_desc s1 d)"
      using only_trans [OF o3 o4] o1 assms(3,4) by (simp add: only_def Let_def)
    then have "drq_flags (drq_of s4 d) = drq_flags (drq_of s d)" using k(1) by auto
    then have "release_to_queue ho s1 d ref = (s4, bn4)"
      using e x k(2) assms(6) by (simp add: release_to_queue_def Let_def)
    then show ?thesis using s2 True only_mono [OF only_trans [OF o3 o4]] K by auto
  qed (use s2 in auto)
  have o12: "only K M s s2" using only_trans [OF o1 o2] .
  then have t2: "od_type (sys_desc s2 d) = TIVX_OBJ_DESC_DATA_REF_Q" using assms(1,4) by (simp add: only_def Let_def)
  have "only K M s (if r then upd_drq d f s2 else s2)" for f
    using o12 only_trans [OF o12 only_drq [OF t2 K(2)]] by simp
  then show ?thesis
    using c s2 by (simp add: ownTargetNodeDescReleaseParameter_def Let_def only_trans [OF _ only_triggers])
qed

section \<open>The stages of one parameter\<close>

text \<open>The stages \<open>ds\<close> of a data reference queue share its ready and its done queue.\<close>

abbreviation (input) in_delay :: "sys \<Rightarrow> nat \<Rightarrow> bool" where
  "in_delay s d \<equiv> tivxFlagIsBitSet (drq_flags (drq_of s d)) DATA_REF_Q_FLAG_IS_IN_DELAY"

definition stage_ok :: "sys \<Rightarrow> uint16 \<Rightarrow> uint16 \<Rightarrow> nat \<Rightarrow> bool" where
  "stage_ok s rq dq d \<longleftrightarrow> d < num_entries (sys_tbl s) \<and> od_type (sys_desc s d) = TIVX_OBJ_DESC_DATA_REF_Q
     \<and> (\<exists>q. od_body (sys_desc s d) = B_Data_Ref_Q q) \<and> acq_q s d = rq \<and> rel_q s d = dq \<and> \<not> in_delay s d"

definition stages_ok :: "sys \<Rightarrow> uint16 \<Rightarrow> uint16 \<Rightarrow> nat list \<Rightarrow> bool" where
  "stages_ok s rq dq ds \<longleftrightarrow> odq_inv rq (sys_tbl s) \<and> odq_inv dq (sys_tbl s) \<and> rq \<noteq> dq \<and> distinct ds
     \<and> TIVX_OBJ_DESC_INVALID \<notin> set (odq_elems rq (sys_tbl s)) \<and> (\<forall>d \<in> set ds. stage_ok s rq dq d)"

definition lent_by :: "sys \<Rightarrow> nat \<Rightarrow> uint16 option" where
  "lent_by s d = (if acquired s d then Some (drq_ref_obj_desc_id (drq_of s d)) else None)"

definition cycle_of :: "sys \<Rightarrow> uint16 \<Rightarrow> uint16 \<Rightarrow> nat list \<Rightarrow> cycle" where
  "cycle_of s rq dq ds = \<lparr>cy_ready = odq_elems rq (sys_tbl s), cy_lent = map (lent_by s) ds,
     cy_done = odq_elems dq (sys_tbl s)\<rparr>"

lemma stages_drq_ok: "stages_ok s rq dq ds \<Longrightarrow> d \<in> set ds \<Longrightarrow> drq_ok s d"
  by (auto simp: stages_ok_def stage_ok_def drq_ok_def)

lemma stage_same:
  assumes "only K M s s'" "stage_ok s rq dq d" "d \<notin> K"
  shows "stage_ok s' rq dq d" "lent_by s' d = lent_by s d"
  using assms by (auto simp: only_def Let_def stage_ok_def lent_by_def)

lemma stage_not_queue: "stage_ok s rq dq d \<Longrightarrow> odq_inv q (sys_tbl s) \<Longrightarrow> d \<noteq> unat q"
  by (auto simp: stage_ok_def odq_inv_def queue_at_some)

text \<open>What happens to one stage \<open>d\<close> leaves the others as they are.\<close>

lemma one_stage:
  assumes "stages_ok s rq dq ds" "k < length ds" "d = ds ! k"
    and "only K M s s'" "\<And>d'. d' \<in> set ds \<Longrightarrow> d' \<in> K \<Longrightarrow> d' = d"
    and "stage_ok s' rq dq d" "odq_inv rq (sys_tbl s')" "odq_inv dq (sys_tbl s')"
    and "set (odq_elems rq (sys_tbl s')) \<subseteq> set (odq_elems rq (sys_tbl s))"
  shows "stages_ok s' rq dq ds" "map (lent_by s') ds = (map (lent_by s) ds)[k := lent_by s' d]"
proof -
  have other: "stage_ok s' rq dq d' \<and> lent_by s' d' = lent_by s d'" if "d' \<in> set ds" "d' \<noteq> d" for d'
  proof -
    have "d' \<notin> K" using assms(5) that by blast
    moreover have "stage_ok s rq dq d'" using assms(1) that by (simp add: stages_ok_def)
    ultimately show ?thesis using stage_same [OF assms(4)] by blast
  qed
  show "stages_ok s' rq dq ds" using assms other by (auto simp: stages_ok_def)
  have "distinct ds" using assms(1) by (simp add: stages_ok_def)
  then show "map (lent_by s') ds = (map (lent_by s) ds)[k := lent_by s' d]"
    using assms(2,3) other by (auto simp: nth_list_update nth_eq_iff_index_eq intro!: nth_equalityI)
qed

lemma acquire_empty_only:
  assumes "drq_ok s d" "\<not> acquired s d" "odq_elems (acq_q s d) (sys_tbl s) = []"
  shows "only {unat (acq_q s d), n} {} s (fst (ownTargetNodeDescAcquireParameter s n d b False))"
proof -
  let ?q = "acq_q s d"
  have deq: "sys_dequeue s ?q = (s, TIVX_OBJ_DESC_INVALID, VX_FAILURE)"
    using dequeue_none [OF drq_okD(4) [OF assms(1)] assms(3)] by (simp add: sys_dequeue_def)
  obtain s2 st2 where s2: "sys_add_blocked s ?q (od_obj_desc_id (sys_desc s n)) = (s2, st2)" by fastforce
  have o2: "only {unat ?q, n} {} s s2" using only_odq(3) [of ?q "{unat ?q, n}" "{}" s] s2 by (metis fst_conv insertI1)
  have "only {unat ?q, n} {} s (upd_node n (\<lambda>k. k\<lparr>nd_state := TIVX_NODE_OBJ_DESC_STATE_BLOCKED\<rparr>) s2)"
    by (rule only_trans [OF o2 only_node]) simp_all
  then show ?thesis
    using assms(2) deq s2 o2 by (simp add: ownTargetNodeDescAcquireParameter_def Let_def)
qed

lemma acquire_cycles:
  fixes b :: bool
  assumes "stages_ok s rq dq ds" "k < length ds" "node_ok s n"
  defines "s' \<equiv> fst (ownTargetNodeDescAcquireParameter s n (ds ! k) b False)"
  shows "stages_ok s' rq dq ds \<and> cycle_step ids (cycle_of s rq dq ds) Silent (cycle_of s' rq dq ds)"
    "only {unat rq, ds ! k, n} {} s s'"
proof -
  let ?d = "ds ! k"
  have d: "?d \<in> set ds" using assms(2) by simp
  note ok = stages_drq_ok [OF assms(1) d]
  have st: "stage_ok s rq dq ?d" using assms(1) d by (simp add: stages_ok_def)
  note D = drq_okD [OF ok]
  have q: "acq_q s ?d = rq" "rel_q s ?d = dq" "\<not> in_delay s ?d" using st by (simp_all add: stage_ok_def)
  have nd: "n \<noteq> ?d" using node_ok_not_queue(2) [OF assms(3) ok] .
  show only: "only {unat rq, ?d, n} {} s s'"
    unfolding s'_def by (rule only_acquire) (use D q in simp_all)
  have inK: "d' = ?d" if "d' \<in> set ds" "d' \<in> {unat rq, ?d, n}" for d'
    using that D(4) q(1) assms(1,3) stage_not_queue [of s rq dq d' rq] node_ok_not_queue(2) [OF assms(3) stages_drq_ok]
    by (auto simp: stages_ok_def)
  show "stages_ok s' rq dq ds \<and> cycle_step ids (cycle_of s rq dq ds) Silent (cycle_of s' rq dq ds)"
  proof (cases "acquired s ?d")
    case True
    then show ?thesis using assms(1) by (simp add: s'_def acquire_held silent)
  next
    case na: False
    show ?thesis
    proof (cases "odq_elems rq (sys_tbl s)")
      case Nil
      have abs: "drq_ok s' ?d \<and> drq_abs s' ?d = drq_abs s ?d"
        using acquire_empty [OF ok na assms(3), of b] Nil q(1) ok unfolding s'_def by (auto split: if_splits)
      have "only {unat rq, n} {} s s'"
        using acquire_empty_only [OF ok na, of n b] Nil q(1) by (simp add: s'_def)
      then have s: "stage_ok s' rq dq ?d" "lent_by s' ?d = lent_by s ?d"
        using stage_same [OF _ st, of "{unat rq, n}" "{}" s'] D(7) q(1) nd by auto
      then have e: "odq_elems rq (sys_tbl s') = odq_elems rq (sys_tbl s)"
        "odq_elems dq (sys_tbl s') = odq_elems dq (sys_tbl s)"
        using abs q by (simp_all add: drq_abs_def stage_ok_def)
      have i: "odq_inv rq (sys_tbl s')" "odq_inv dq (sys_tbl s')" using abs s(1) by (auto simp: drq_ok_def stage_ok_def)
      note one = one_stage [OF assms(1,2) refl only inK s(1) i, unfolded e(1), OF _ _ subset_refl]
      have "cycle_of s' rq dq ds = cycle_of s rq dq ds"
        using one(2) e s(2) assms(2) by (simp add: cycle_of_def list_update_same_conv)
      then show ?thesis using one(1) silent by simp
    next
      case (Cons x xs)
      have el: "odq_elems (acq_q s ?d) (sys_tbl s) = x # xs" using Cons q(1) by simp
      from acquire_first [OF ok na this, of n b]
      have a: "drq_ok s' ?d" "drq_abs s' ?d = (drq_abs s ?d)\<lparr>rq_acq := xs, rq_held := Some x, rq_done := 0\<rparr>"
        "acq_q s' ?d = rq" "rel_q s' ?d = dq" "\<not> in_delay s' ?d"
        unfolding s'_def using q by auto
      have s: "stage_ok s' rq dq ?d" using a drq_okD(1,2,3) [OF a(1)] by (auto simp: stage_ok_def)
      have e: "odq_elems rq (sys_tbl s') = xs" "odq_elems dq (sys_tbl s') = odq_elems dq (sys_tbl s)"
        "lent_by s' ?d = Some x"
        using a(2,3,4) q by (auto simp: drq_abs_def lent_by_def split: if_splits)
      have i: "odq_inv rq (sys_tbl s')" "odq_inv dq (sys_tbl s')" using a(1,3,4) by (auto simp: drq_ok_def)
      note one = one_stage [OF assms(1,2) refl only inK s i]
      have "cycle_of s' rq dq ds = (cycle_of s rq dq ds)\<lparr>cy_ready := xs,
          cy_lent := (cy_lent (cycle_of s rq dq ds))[k := Some x]\<rparr>"
        using one(2) e Cons by (simp add: cycle_of_def subset_insertI)
      moreover have "cy_lent (cycle_of s rq dq ds) ! k = None"
        using assms(2) na by (simp add: cycle_of_def lent_by_def)
      ultimately show ?thesis
        using one(1) e(1) Cons lend [of "cycle_of s rq dq ds" x xs k ids] assms(2)
        by (simp add: cycle_of_def subset_insertI)
    qed
  qed
qed

text \<open>The release of a lent buffer: either the stage keeps it, or it goes to the done queue.\<close>

lemma release_count_ok:
  assumes ok: "drq_ok s d" and "ownObjDescGet (sys_tbl s) ref \<noteq> None" "drq_ref_obj_desc_id (drq_of s d) = ref"
    and c: "release_count s d ref is_input = (s1, r, q)"
  shows "r = q" "drq_ok s1 d" "odq_elems (acq_q s d) (sys_tbl s1) = odq_elems (acq_q s d) (sys_tbl s)"
    "odq_elems (rel_q s d) (sys_tbl s1) = odq_elems (rel_q s d) (sys_tbl s)"
    "drq_ref_obj_desc_id (drq_of s1 d) = ref"
proof -
  note D = drq_okD [OF ok]
  have b: "\<exists>q. od_body (sys_desc s d) = B_Data_Ref_Q q" using D(3) by blast
  note k = release_count_keeps [OF D(1) b c]
  have dr: "drq_ok (upd_drq d f s) d \<and> odq_elems (acq_q s d) (sys_tbl (upd_drq d f s)) = odq_elems (acq_q s d) (sys_tbl s)
      \<and> odq_elems (rel_q s d) (sys_tbl (upd_drq d f s)) = odq_elems (rel_q s d) (sys_tbl s)"
    if "\<And>q. drq_acquire_q_obj_desc_id (f q) = drq_acquire_q_obj_desc_id q"
      "\<And>q. drq_release_q_obj_desc_id (f q) = drq_release_q_obj_desc_id q" for f
    using drq_update [OF ok that] by blast
  have ba: "drq_ok (upd_base p (\<lambda>b. b\<lparr>od_in_node_done_cnt := c b\<rparr>) (upd_drq d f s)) d
      \<and> odq_elems (acq_q s d) (sys_tbl (upd_base p (\<lambda>b. b\<lparr>od_in_node_done_cnt := c b\<rparr>) (upd_drq d f s)))
        = odq_elems (acq_q s d) (sys_tbl s)
      \<and> odq_elems (rel_q s d) (sys_tbl (upd_base p (\<lambda>b. b\<lparr>od_in_node_done_cnt := c b\<rparr>) (upd_drq d f s)))
        = odq_elems (rel_q s d) (sys_tbl s)"
    if f: "\<And>q. drq_acquire_q_obj_desc_id (f q) = drq_acquire_q_obj_desc_id q"
      "\<And>q. drq_release_q_obj_desc_id (f q) = drq_release_q_obj_desc_id q" for f c p
  proof -
    note u = dr [OF f]
    have of: "drq_of (upd_drq d f s) d = f (drq_of s d)" using D(1) by simp
    have i: "odq_inv (acq_q s d) (sys_tbl (upd_drq d f s))" "odq_inv (rel_q s d) (sys_tbl (upd_drq d f s))"
      using drq_okD(4,5) [OF u [THEN conjunct1]] unfolding of f by simp_all
    note fr = base_cnt_frame [where p = p and k = c and s = "upd_drq d f s"]
    show ?thesis using fr(8) [OF u [THEN conjunct1]] fr(2) [OF i(1)] fr(2) [OF i(2)] u by simp
  qed
  show "r = q" using c assms(2) by (auto simp: release_count_def Let_def split: option.splits if_splits)
  have s1: "(\<exists>f c p. (\<forall>q. drq_acquire_q_obj_desc_id (f q) = drq_acquire_q_obj_desc_id q)
       \<and> (\<forall>q. drq_release_q_obj_desc_id (f q) = drq_release_q_obj_desc_id q)
       \<and> s1 \<in> {s, upd_drq d f s, upd_base p (\<lambda>b. b\<lparr>od_in_node_done_cnt := c b\<rparr>) (upd_drq d f s)})"
  proof (cases is_input)
    case True
    let ?f = "\<lambda>q. q\<lparr>drq_in_node_done_cnt := drq_in_node_done_cnt q + 1\<rparr>"
    show ?thesis
      by (rule exI [of _ ?f], rule exI [of _ "\<lambda>b. if r then 0 else od_in_node_done_cnt b + 1"],
          rule exI [of _ "the (ownObjDescGet (sys_tbl s) ref)"])
        (use c True assms(2) in \<open>auto simp: release_count_def Let_def split: option.splits\<close>)
  next
    case False
    show ?thesis
      by (rule exI [of _ "\<lambda>q. q\<lparr>drq_ref_obj_desc_id := ref\<rparr>"])
        (use c False in \<open>auto simp: release_count_def Let_def split: if_splits\<close>)
  qed
  then show "drq_ok s1 d" "odq_elems (acq_q s d) (sys_tbl s1) = odq_elems (acq_q s d) (sys_tbl s)"
    "odq_elems (rel_q s d) (sys_tbl s1) = odq_elems (rel_q s d) (sys_tbl s)"
    using dr ba ok by auto
  show "drq_ref_obj_desc_id (drq_of s1 d) = ref" using k(5) assms(3) by simp
qed

lemma stage_release_ok:
  fixes pl :: platform and ho is_input :: bool and n :: nat
  assumes ok: "drq_ok s d" and "ownObjDescGet (sys_tbl s) ref \<noteq> None" "drq_ref_obj_desc_id (drq_of s d) = ref"
    and "acquired s d" "\<not> in_delay s d" "length (odq_elems (rel_q s d) (sys_tbl s)) < 32"
  defines "s' \<equiv> fst (ownTargetNodeDescReleaseParameter pl ho s n d ref is_input)"
  shows "drq_ok s' d" "acq_q s' d = acq_q s d" "rel_q s' d = rel_q s d" "\<not> in_delay s' d"
    "odq_elems (acq_q s d) (sys_tbl s') = odq_elems (acq_q s d) (sys_tbl s)"
    "(lent_by s' d = Some ref \<and> odq_elems (rel_q s d) (sys_tbl s') = odq_elems (rel_q s d) (sys_tbl s))
     \<or> (lent_by s' d = None \<and> odq_elems (rel_q s d) (sys_tbl s') = odq_elems (rel_q s d) (sys_tbl s) @ [ref])"
proof -
  note D = drq_okD [OF ok]
  have b: "\<exists>q. od_body (sys_desc s d) = B_Data_Ref_Q q" using D(3) by blast
  obtain s1 r q where c: "release_count s d ref is_input = (s1, r, q)" by (metis prod_cases3)
  note k = release_count_keeps [OF D(1) b c] and o1 = release_count_ok [OF ok assms(2,3) c]
  have all: "drq_ok s' d \<and> acq_q s' d = acq_q s d \<and> rel_q s' d = rel_q s d \<and> \<not> in_delay s' d
    \<and> odq_elems (acq_q s d) (sys_tbl s') = odq_elems (acq_q s d) (sys_tbl s)
    \<and> ((lent_by s' d = Some ref \<and> odq_elems (rel_q s d) (sys_tbl s') = odq_elems (rel_q s d) (sys_tbl s))
     \<or> (lent_by s' d = None \<and> odq_elems (rel_q s d) (sys_tbl s') = odq_elems (rel_q s d) (sys_tbl s) @ [ref]))"
  proof (cases q)
    case False
    then have "s' = s1" using c o1(1)
      by (simp add: s'_def ownTargetNodeDescReleaseParameter_def Let_def no_blocked_ok(2))
    then show ?thesis using o1 k assms(4,5) by (auto simp: lent_by_def)
  next
    case True
    obtain s2 bn where s2: "release_to_queue ho s1 d ref = (s2, bn)" "drq_ok s2 d" "drq_of s2 d = drq_of s1 d"
      "odq_elems (acq_q s1 d) (sys_tbl s2) = odq_elems (acq_q s1 d) (sys_tbl s1)"
      "odq_elems (rel_q s1 d) (sys_tbl s2) = odq_elems (rel_q s1 d) (sys_tbl s1) @ [ref]"
      using release_to_queue_room [of s1 d ho ref n, OF o1(2)] assms(5,6) o1(4) k by auto
    let ?f = "\<lambda>q. q\<lparr>drq_flags := tivxFlagBitClear (drq_flags (drq_of s d)) DATA_REF_Q_FLAG_IS_REF_ACQUIRED\<rparr>"
    note u = drq_update [OF s2(2), of ?f, simplified]
    have s': "sys_tbl s' = sys_tbl (upd_drq d ?f s2)"
      using c o1(1) True s2(1)
      by (simp add: s'_def ownTargetNodeDescReleaseParameter_def Let_def target_messenger.triggers_tbl
          del: upd_sys_simps)
    have "drq_of s' d = ?f (drq_of s1 d)" using s' drq_okD(1) [OF s2(2)] s2(3) by simp
    moreover have "drq_ok s' d" using u(1) s' drq_tbl_cong(1) by blast
    ultimately show ?thesis
      using u(3,4) s2(3,4,5) k o1(3,4) s' assms(5) release_flags [of "drq_flags (drq_of s d)"]
      by (simp add: lent_by_def)
  qed
  then show "drq_ok s' d" "acq_q s' d = acq_q s d" "rel_q s' d = rel_q s d" "\<not> in_delay s' d"
    "odq_elems (acq_q s d) (sys_tbl s') = odq_elems (acq_q s d) (sys_tbl s)"
    "(lent_by s' d = Some ref \<and> odq_elems (rel_q s d) (sys_tbl s') = odq_elems (rel_q s d) (sys_tbl s))
     \<or> (lent_by s' d = None \<and> odq_elems (rel_q s d) (sys_tbl s') = odq_elems (rel_q s d) (sys_tbl s) @ [ref])"
    by blast+
qed

lemma release_cycles:
  fixes pl :: platform and ho is_input :: bool and n :: nat
  assumes "stages_ok s rq dq ds" "k < length ds" "lent_by s (ds ! k) = Some ref"
    and "ownObjDescGet (sys_tbl s) ref \<noteq> None" "length (odq_elems dq (sys_tbl s)) < 32"
  defines "s' \<equiv> fst (ownTargetNodeDescReleaseParameter pl ho s n (ds ! k) ref is_input)"
  shows "stages_ok s' rq dq ds \<and> cycle_step ids (cycle_of s rq dq ds) Silent (cycle_of s' rq dq ds)"
    "only {unat dq, ds ! k} {} s s'"
proof -
  let ?d = "ds ! k" and ?c = "cycle_of s rq dq ds"
  have d: "?d \<in> set ds" using assms(2) by simp
  note ok = stages_drq_ok [OF assms(1) d]
  have st: "stage_ok s rq dq ?d" using assms(1) d by (simp add: stages_ok_def)
  note D = drq_okD [OF ok]
  have q: "acq_q s ?d = rq" "rel_q s ?d = dq" "\<not> in_delay s ?d" using st by (simp_all add: stage_ok_def)
  have lent: "acquired s ?d" "drq_ref_obj_desc_id (drq_of s ?d) = ref"
    using assms(3) by (simp_all add: lent_by_def split: if_splits)
  show only: "only {unat dq, ?d} {} s s'"
    unfolding s'_def by (rule only_release) (use D q st in \<open>auto simp: stage_ok_def\<close>)
  have inK: "d' = ?d" if "d' \<in> set ds" "d' \<in> {unat dq, ?d}" for d'
    using that D(5) q(2) assms(1) stage_not_queue [of s rq dq d' dq] by (auto simp: stages_ok_def)
  note r = stage_release_ok [OF ok assms(4) lent(2,1) q(3), of pl ho n is_input, folded s'_def, unfolded q, OF assms(5)]
  have s: "stage_ok s' rq dq ?d" using r drq_okD(1,2,3) [OF r(1)] by (auto simp: stage_ok_def)
  have i: "odq_inv rq (sys_tbl s')" "odq_inv dq (sys_tbl s')" using r(1,2,3) by (auto simp: drq_ok_def)
  note one = one_stage [OF assms(1,2) refl only inK s i, unfolded r(5), OF _ _ subset_refl]
  have "cycle_step ids ?c Silent (cycle_of s' rq dq ds)"
    using r(6)
  proof (elim disjE conjE)
    assume "lent_by s' ?d = Some ref" "odq_elems dq (sys_tbl s') = odq_elems dq (sys_tbl s)"
    then have "cycle_of s' rq dq ds = ?c"
      using one(2) r(5) assms(2,3) by (simp add: cycle_of_def list_update_same_conv)
    then show ?thesis using silent by simp
  next
    assume "lent_by s' ?d = None" "odq_elems dq (sys_tbl s') = odq_elems dq (sys_tbl s) @ [ref]"
    then have "cycle_of s' rq dq ds = ?c\<lparr>cy_lent := (cy_lent ?c)[k := None], cy_done := cy_done ?c @ [ref]\<rparr>"
      using one(2) r(5) by (simp add: cycle_of_def)
    then show ?thesis using give_back [of k ?c ref ids] assms(2,3) by (simp add: cycle_of_def)
  qed
  with one(1) show "stages_ok s' rq dq ds \<and> cycle_step ids ?c Silent (cycle_of s' rq dq ds)" by blast
qed

text \<open>Operations on the two queues from outside.\<close>

lemma stages_frame:
  assumes "stages_ok s rq dq ds" "only K M s s'" "K \<subseteq> {unat rq, unat dq}"
    and "odq_inv rq (sys_tbl s')" "odq_inv dq (sys_tbl s')" "TIVX_OBJ_DESC_INVALID \<notin> set (odq_elems rq (sys_tbl s'))"
  shows "stages_ok s' rq dq ds" "map (lent_by s') ds = map (lent_by s) ds"
proof -
  have "stage_ok s' rq dq d \<and> lent_by s' d = lent_by s d" if "d \<in> set ds" for d
    using assms(1,3) that stage_not_queue [of s rq dq d] stage_same [OF assms(2), of rq dq d]
    by (auto simp: stages_ok_def)
  then show "stages_ok s' rq dq ds" "map (lent_by s') ds = map (lent_by s) ds"
    using assms by (auto simp: stages_ok_def)
qed

lemma stages_untouched:
  assumes "stages_ok s rq dq ds" "only K M s s'" "unat rq \<notin> K" "unat dq \<notin> K" "set ds \<inter> K = {}"
  shows "stages_ok s' rq dq ds" "cycle_of s' rq dq ds = cycle_of s rq dq ds"
proof -
  have i: "odq_inv rq (sys_tbl s)" "odq_inv dq (sys_tbl s)" using assms(1) by (simp_all add: stages_ok_def)
  note r = only_odq_same [OF assms(2) i(1) assms(3)] and d = only_odq_same [OF assms(2) i(2) assms(4)]
  have "stage_ok s' rq dq x \<and> lent_by s' x = lent_by s x" if "x \<in> set ds" for x
    using stage_same [OF assms(2), of rq dq x] assms(1,5) that by (auto simp: stages_ok_def)
  then show "stages_ok s' rq dq ds" "cycle_of s' rq dq ds = cycle_of s rq dq ds"
    using assms(1) r d by (auto simp: stages_ok_def cycle_of_def)
qed

lemma enqueue_cycles:
  assumes "stages_ok s rq dq ds" "length (odq_elems rq (sys_tbl s)) < 32" "i \<noteq> TIVX_OBJ_DESC_INVALID"
  obtains s1 s2 bn where "sys_enqueue s rq i = (s1, VX_SUCCESS)" "sys_extract_blocked s1 rq no_blocked = (s2, bn)"
    "only {unat rq} {} s s2" "stages_ok s2 rq dq ds"
    "cycle_of s2 rq dq ds = (cycle_of s rq dq ds)\<lparr>cy_ready := odq_elems rq (sys_tbl s) @ [i]\<rparr>"
proof -
  have iv: "odq_inv rq (sys_tbl s)" "odq_inv dq (sys_tbl s)" "unat dq \<noteq> unat rq"
    using assms(1) by (auto simp: stages_ok_def word_unat_eq_iff [symmetric])
  note e = enqueue_room [OF iv(1) assms(2), of i]
  let ?s1 = "s\<lparr>sys_tbl := upd_queue (unat rq) (enqueue_elem i) (sys_tbl s)\<rparr>"
  have s1: "sys_enqueue s rq i = (?s1, VX_SUCCESS)" using e(1) by (simp add: sys_enqueue_def)
  obtain t2 bn where x: "ownObjDescQueueExtractBlockedNodes (sys_tbl ?s1) rq no_blocked = (t2, bn, VX_SUCCESS)"
    "odq_inv rq t2" "odq_elems rq t2 = odq_elems rq (sys_tbl ?s1)"
    using extract_blocked [OF e(2) no_blocked_ok(1)] no_blocked_ok(2) by auto
  let ?s2 = "?s1\<lparr>sys_tbl := t2\<rparr>"
  have s2: "sys_extract_blocked ?s1 rq no_blocked = (?s2, bn)" using x(1) by (simp add: sys_extract_blocked_def)
  have o: "only {unat rq} {} s ?s2"
    using only_trans [of "{unat rq}" "{}" s ?s1 ?s2] only_odq(1) [of rq "{unat rq}" "{}" s i]
      only_odq(4) [of rq "{unat rq}" "{}" ?s1 no_blocked] s1 s2 by simp
  have el: "odq_elems rq (sys_tbl ?s2) = odq_elems rq (sys_tbl s) @ [i]" using x(3) e(3) by simp
  have dq: "odq_inv dq (sys_tbl ?s2)" "odq_elems dq (sys_tbl ?s2) = odq_elems dq (sys_tbl s)"
    using only_odq_same [OF o iv(2)] iv(3) by auto
  have "TIVX_OBJ_DESC_INVALID \<notin> set (odq_elems rq (sys_tbl ?s2))"
    using el assms(1,3) by (simp add: stages_ok_def)
  then have "stages_ok ?s2 rq dq ds" "map (lent_by ?s2) ds = map (lent_by s) ds"
    using stages_frame [OF assms(1) o] x(2) dq(1) by auto
  then show thesis using that [OF s1 s2 o] el dq(2) by (simp add: cycle_of_def)
qed

lemma dequeue_cycles:
  assumes "stages_ok s rq dq ds" "odq_elems dq (sys_tbl s) = i # is"
  obtains s1 where "sys_dequeue s dq = (s1, i, VX_SUCCESS)" "only {unat dq} {} s s1" "stages_ok s1 rq dq ds"
    "cycle_of s1 rq dq ds = (cycle_of s rq dq ds)\<lparr>cy_done := is\<rparr>"
proof -
  have iv: "odq_inv rq (sys_tbl s)" "odq_inv dq (sys_tbl s)" "unat rq \<noteq> unat dq"
    using assms(1) by (auto simp: stages_ok_def word_unat_eq_iff [symmetric])
  note e = dequeue_some [OF iv(2) assms(2)]
  let ?s1 = "s\<lparr>sys_tbl := upd_queue (unat dq) dequeue_elem (sys_tbl s)\<rparr>"
  have s1: "sys_dequeue s dq = (?s1, i, VX_SUCCESS)" using e(1) by (simp add: sys_dequeue_def)
  have o: "only {unat dq} {} s ?s1" using only_odq(2) [of dq "{unat dq}" "{}" s] s1 by simp
  have rq: "odq_inv rq (sys_tbl ?s1)" "odq_elems rq (sys_tbl ?s1) = odq_elems rq (sys_tbl s)"
    using only_odq_same [OF o iv(1)] iv(3) by auto
  have "stages_ok ?s1 rq dq ds" "map (lent_by ?s1) ds = map (lent_by s) ds"
    using stages_frame [OF assms(1) o _ rq(1)] e(2) rq(2) assms(1) by (auto simp: stages_ok_def)
  then show thesis using that [OF s1 o] e(3) rq(2) by (simp add: cycle_of_def)
qed

section \<open>Scheduling leaves the queues alone\<close>

definition graph_shape :: "vx_graph_t \<Rightarrow> _" where
  "graph_shape g = (gr_parameters g, gr_num_params g, gr_obj_desc g, gr_pipeline_depth g, nodes_of_graph g)"

definition same_objects :: "host \<Rightarrow> host \<Rightarrow> bool" where
  "same_objects h h' \<longleftrightarrow> ho_refs h' = ho_refs h \<and> ho_contexts h' = ho_contexts h
     \<and> ho_data_ref_queues h' = ho_data_ref_queues h \<and> ho_kernels h' = ho_kernels h
     \<and> (\<forall>n. vn_obj_desc (ho_nodes h' n) = vn_obj_desc (ho_nodes h n))
     \<and> (\<forall>g. graph_shape (ho_graphs h' g) = graph_shape (ho_graphs h g))"

definition calm :: "nat set \<Rightarrow> nat set \<Rightarrow> host \<Rightarrow> host \<Rightarrow> bool" where
  "calm K M h h' \<longleftrightarrow> only K M (ho_sys h) (ho_sys h') \<and> same_objects h h'"

lemma calm_refl [simp]: "calm K M h h"
  by (simp add: calm_def same_objects_def)

lemma calm_trans: "calm K M h h1 \<Longrightarrow> calm K M h1 h2 \<Longrightarrow> calm K M h h2"
  unfolding calm_def same_objects_def using only_trans by simp blast

lemma calm_sys: "only K M (ho_sys h) s \<Longrightarrow> calm K M h (h\<lparr>ho_sys := s\<rparr>)"
  by (simp add: calm_def same_objects_def)

lemma calm_graph:
  "(\<And>x. graph_shape (f x) = graph_shape x) \<Longrightarrow> calm K M h (upd_graph g f h)"
  by (simp add: calm_def same_objects_def upd_graph_def)

lemma calm_foldl:
  assumes "\<And>h x. same_objects h0 h \<Longrightarrow> P h \<Longrightarrow> x \<in> set xs \<Longrightarrow> calm K M h (f h x) \<and> P (f h x)"
    and "same_objects h0 h" "P h"
  shows "calm K M h (foldl f h xs) \<and> P (foldl f h xs)"
  using assms
proof (induction xs arbitrary: h)
  case (Cons x xs)
  then have s: "calm K M h (f h x)" "P (f h x)" by auto
  have "same_objects h0 (f h x)"
    using Cons.prems(2) s(1) by (auto simp: calm_def same_objects_def)
  with Cons s have "calm K M (f h x) (foldl f (f h x) xs) \<and> P (foldl f (f h x) xs)" by simp
  then show ?case using calm_trans [OF s(1)] by simp
qed simp

text \<open>The descriptors that scheduling writes: those of the instances and of the nodes.\<close>

definition instance_descs :: "host \<Rightarrow> uintptr \<Rightarrow> nat set" where
  "instance_descs h g = {i. \<exists>p < unat (gr_pipeline_depth (ho_graphs h g)). gr_obj_desc (ho_graphs h g) ! p = Some i}"

definition node_descs :: "host \<Rightarrow> uintptr \<Rightarrow> nat set" where
  "node_descs h g = {i. \<exists>n \<in> set (nodes_of_graph (ho_graphs h g)). \<exists>p < 16. vn_obj_desc (ho_nodes h n) ! p = Some i}"

definition typed :: "host \<Rightarrow> uintptr \<Rightarrow> bool" where
  "typed h g \<longleftrightarrow> (\<forall>i \<in> instance_descs h g. od_type (sys_desc (ho_sys h) i) = TIVX_OBJ_DESC_GRAPH
       \<and> i < num_entries (sys_tbl (ho_sys h)))
     \<and> (\<forall>i \<in> node_descs h g. od_type (sys_desc (ho_sys h) i) = TIVX_OBJ_DESC_NODE \<and> i < num_entries (sys_tbl (ho_sys h)))"

abbreviation (input) sched_descs :: "host \<Rightarrow> uintptr \<Rightarrow> nat set" where
  "sched_descs h g \<equiv> instance_descs h g \<union> node_descs h g"

lemma same_objects_descs:
  assumes "same_objects h h'"
  shows "instance_descs h' g = instance_descs h g" "node_descs h' g = node_descs h g"
    "nodes_of_graph (ho_graphs h' g) = nodes_of_graph (ho_graphs h g)"
    "gr_parameters (ho_graphs h' g) = gr_parameters (ho_graphs h g)"
    "gr_num_params (ho_graphs h' g) = gr_num_params (ho_graphs h g)"
proof -
  have "graph_shape (ho_graphs h' g) = graph_shape (ho_graphs h g)" using assms by (simp add: same_objects_def)
  then have g: "gr_obj_desc (ho_graphs h' g) = gr_obj_desc (ho_graphs h g)"
    "gr_pipeline_depth (ho_graphs h' g) = gr_pipeline_depth (ho_graphs h g)"
    "nodes_of_graph (ho_graphs h' g) = nodes_of_graph (ho_graphs h g)"
    "gr_parameters (ho_graphs h' g) = gr_parameters (ho_graphs h g)"
    "gr_num_params (ho_graphs h' g) = gr_num_params (ho_graphs h g)"
    by (simp_all add: graph_shape_def)
  then show "instance_descs h' g = instance_descs h g" "node_descs h' g = node_descs h g"
    "nodes_of_graph (ho_graphs h' g) = nodes_of_graph (ho_graphs h g)"
    "gr_parameters (ho_graphs h' g) = gr_parameters (ho_graphs h g)"
    "gr_num_params (ho_graphs h' g) = gr_num_params (ho_graphs h g)"
    using assms by (simp_all add: instance_descs_def node_descs_def same_objects_def)
qed

lemma calm_typed:
  assumes "calm K M h h'" "typed h g"
  shows "typed h' g"
proof -
  note s = same_objects_descs [of h h' g]
  have "same_objects h h'" using assms(1) by (simp add: calm_def)
  then show ?thesis using assms s by (auto simp: typed_def calm_def only_def Let_def)
qed

lemma calm_gdesc:
  assumes "typed h g" "i \<in> instance_descs h g" "i \<in> K"
  shows "calm K M h (upd_gdesc i f h)"
proof -
  have "od_type (sys_desc (ho_sys h) i) = TIVX_OBJ_DESC_GRAPH" using assms by (simp add: typed_def)
  then show ?thesis
    unfolding upd_gdesc_def by (intro calm_sys only_upd) (use assms(3) in auto)
qed

lemma calm_dequeue_free:
  assumes "ownGraphDequeueFreeObjDesc rc h g = (h1, od)"
  shows "calm K M h h1" "od = Some i \<Longrightarrow> i \<in> instance_descs h g"
proof -
  show "calm K M h h1"
    using assms by (auto simp: ownGraphDequeueFreeObjDesc_def Let_def graph_shape_def nodes_of_graph_def
        split: if_splits prod.splits intro!: calm_graph)
  have u: "unat (ucast (w :: uint32) :: uintptr) = unat w" for w by (rule unat_ucast32)
  show "i \<in> instance_descs h g" if "od = Some i"
    using assms that by (auto simp: ownGraphDequeueFreeObjDesc_def Let_def instance_descs_def word_less_nat_alt u
        split: if_splits prod.splits)
qed

lemma calm_clear_state:
  assumes "node_descs h g \<subseteq> K"
  shows "calm K M h (ownGraphClearState h g pid)"
proof -
  have step: "calm K M h' (ownNodeClearExecuteState pid h' n) \<and> True"
    if "same_objects h h'" "n \<in> set (nodes_of_graph (ho_graphs h g))" for h' n
  proof -
    have "i \<in> K" if "vn_obj_desc (ho_nodes h' n) ! unat pid = Some i" "pid < 16" for i
      using assms that \<open>same_objects h h'\<close> \<open>n \<in> _\<close>
      by (auto simp: node_descs_def same_objects_def word_less_nat_alt)
    then show ?thesis
      by (auto simp: ownNodeClearExecuteState_def split: option.split intro!: calm_sys only_node)
  qed
  have "same_objects h h" by (simp add: same_objects_def)
  then show ?thesis
    unfolding ownGraphClearState_def
    using calm_foldl [where P = "\<lambda>_. True" and ?h0.0 = h and h = h and K = K and M = M
        and f = "ownNodeClearExecuteState pid" and xs = "nodes_of_graph (ho_graphs h g)"] step by blast
qed

lemma calm_schedule_heads: "calm K M h (fst (schedule_heads pl pid h ns status))"
proof (induction ns arbitrary: h status)
  case (Cons n ns)
  obtain h1 st where step: "ownNodeKernelSchedule pl h n pid = (h1, st)" by fastforce
  then have "calm K M h h1"
    by (auto simp: ownNodeKernelSchedule_def Let_def split: prod.splits intro!: calm_sys only_tbl)
      (metis fst_conv obj_desc_send_tbl)
  with Cons.IH [of h1] step show ?case using calm_trans by simp
qed simp

lemma calm_objects: "calm K M h h' \<Longrightarrow> same_objects h h'"
  by (simp add: calm_def)

lemma calm_schedule_instance:
  assumes "typed h g" "od \<in> instance_descs h g" "sched_descs h g \<subseteq> K"
    and "schedule_instance rc pl now h g od status = (h', st)"
  shows "calm K M h h'"
proof -
  let ?h1 = "upd_gdesc od (\<lambda>d. d\<lparr>gd_exe_time_beg := tivx_uint64_to_uint32 now\<rparr>) h"
  define pid where "pid = gd_pipeline_id (graph_of (ho_sys ?h1) od)"
  let ?h2 = "ownGraphClearState ?h1 g pid"
  let ?h3 = "upd_gdesc od (\<lambda>d. d\<lparr>gd_state := VX_GRAPH_STATE_RUNNING\<rparr>) ?h2"
  let ?h4 = "upd_graph g (\<lambda>x. x\<lparr>gr_state := VX_GRAPH_STATE_RUNNING,
      gr_all_graph_completed_event := fst (tivxEventClear rc (gr_all_graph_completed_event x)),
      gr_submitted_count := gr_submitted_count x + 1\<rparr>) ?h3"
  have K: "od \<in> K" using assms(2,3) by auto
  have c1: "calm K M h ?h1" by (rule calm_gdesc) (use assms K in auto)
  note s1 = same_objects_descs [OF calm_objects [OF c1]]
  have c2: "calm K M ?h1 ?h2" by (rule calm_clear_state) (use s1 assms(3) in auto)
  note t2 = calm_typed [OF calm_trans [OF c1 c2]] and s2 = same_objects_descs [OF calm_objects [OF calm_trans [OF c1 c2]]]
  have c3: "calm K M ?h2 ?h3" by (rule calm_gdesc) (use t2 s2 assms K in auto)
  have c4: "calm K M ?h3 ?h4" by (rule calm_graph) (simp add: graph_shape_def nodes_of_graph_def)
  have "h' = fst (schedule_heads pl pid ?h4 (take (unat (gr_num_head_nodes (ho_graphs ?h4 g))) (gr_head_nodes (ho_graphs ?h4 g))) status)"
    using assms(4) by (simp add: schedule_instance_def Let_def pid_def [symmetric])
  then have "calm K M ?h4 h'" using calm_schedule_heads by simp
  then show ?thesis using c1 c2 c3 c4 calm_trans by blast
qed

lemma calm_schedule_loop:
  assumes "typed h g" "sched_descs h g \<subseteq> K" "schedule_loop rc pl now g k h n status = (h', n', st)"
  shows "calm K M h h'"
  using assms
proof (induction k arbitrary: h n status)
  case 0
  then show ?case by simp
next
  case (Suc k)
  obtain h1 od where dq: "ownGraphDequeueFreeObjDesc rc h g = (h1, od)" by fastforce
  have c1: "calm K M h h1" using calm_dequeue_free(1) [OF dq] .
  note s1 = same_objects_descs [OF calm_objects [OF c1]]
  show ?case
  proof (cases od)
    case None
    then show ?thesis using Suc.prems(3) dq c1 by simp
  next
    case (Some i)
    obtain h2 st2 where si: "schedule_instance rc pl (now n) h1 g i status = (h2, st2)" by fastforce
    have i: "i \<in> instance_descs h g" using calm_dequeue_free(2) [OF dq Some] .
    have c2: "calm K M h1 h2"
      by (rule calm_schedule_instance [OF calm_typed [OF c1 Suc.prems(1)] _ _ si]) (use s1 i Suc.prems(2) in auto)
    have c: "calm K M h h2" using calm_trans [OF c1 c2] .
    have "schedule_loop rc pl now g k h2 (Suc n) st2 = (h', n', st)" using Suc.prems(3) dq Some si by simp
    with Suc.IH [of h2 "Suc n" st2] calm_typed [OF c Suc.prems(1)] same_objects_descs [OF calm_objects [OF c]]
      Suc.prems(2) have "calm K M h2 h'" by simp
    then show ?thesis using calm_trans [OF c] by simp
  qed
qed

lemma calm_schedule:
  assumes "typed h g" "sched_descs h g \<subseteq> K"
  shows "calm K M h (fst (ownGraphScheduleGraph rc pl now h g num))"
proof -
  let ?tot = "num + gr_schedule_pending_count (ho_graphs h g)"
  obtain h1 n st where l: "schedule_loop rc pl now g (unat ?tot) h 0 VX_SUCCESS = (h1, n, st)" by (metis prod_cases3)
  have c: "calm K M h h1" using calm_schedule_loop [OF assms l] .
  have "calm K M h1 (upd_graph g (\<lambda>x. x\<lparr>gr_schedule_pending_count := v\<rparr>) h1)" for v
    by (rule calm_graph) (simp add: graph_shape_def nodes_of_graph_def)
  then show ?thesis
    using l c calm_trans [OF c] by (simp add: ownGraphScheduleGraph_def Let_def)
qed

lemma calm_after_enqueue:
  assumes "typed h g" "sched_descs h g \<subseteq> K" "the (obj_desc0 h (gp_node (graph_param h g j))) \<in> K"
  shows "calm K M h (fst (after_enqueue rc pl now h g j num))"
proof -
  let ?n = "gp_node (graph_param h g j)"
  have "calm K M h (upd_nd0 ?n (\<lambda>d. d\<lparr>nd_pipeup_buf_idx := nd_pipeup_buf_idx d - 1\<rparr>) h)"
    unfolding upd_nd0_def by (intro calm_sys only_node) (use assms in auto)
  then show ?thesis
    using calm_schedule [OF assms(1,2), of M rc pl now num] by (simp add: after_enqueue_def Let_def)
qed

section \<open>A parameter with exclusive references\<close>

definition stages_of :: "host \<Rightarrow> uintptr \<Rightarrow> nat list" where
  "stages_of h q = map the (take (unat (dq_pipeline_depth (ho_data_ref_queues h q))) (dq_obj_desc (ho_data_ref_queues h q)))"

abbreviation (input) param_q :: "host \<Rightarrow> uintptr \<Rightarrow> uint32 \<Rightarrow> uintptr" where
  "param_q \<equiv> ownGraphGetParameterDataRefQueue"

abbreviation (input) ready_of :: "host \<Rightarrow> uintptr \<Rightarrow> uint32 \<Rightarrow> uint16" where
  "ready_of h g j \<equiv> dq_ready_q_obj_desc_id (ho_data_ref_queues h (param_q h g j))"

abbreviation (input) done_of :: "host \<Rightarrow> uintptr \<Rightarrow> uint32 \<Rightarrow> uint16" where
  "done_of h g j \<equiv> dq_done_q_obj_desc_id (ho_data_ref_queues h (param_q h g j))"

abbreviation (input) stages_at :: "host \<Rightarrow> uintptr \<Rightarrow> uint32 \<Rightarrow> nat list" where
  "stages_at h g j \<equiv> stages_of h (param_q h g j)"

definition param_cycle :: "host \<Rightarrow> uintptr \<Rightarrow> uint32 \<Rightarrow> cycle" where
  "param_cycle h g j = cycle_of (ho_sys h) (ready_of h g j) (done_of h g j) (stages_at h g j)"

definition ref_ids :: "host \<Rightarrow> uintptr \<Rightarrow> uint32 \<Rightarrow> uintptr \<Rightarrow> uint16 option" where
  "ref_ids h g j r = (if r \<noteq> 0 \<and> r \<in> set (param_refs_list h g j)
     then Some (od_obj_desc_id (sys_desc (ho_sys h) (ref_desc h r))) else None)"

text \<open>A reference that has a descriptor of its own and no items.\<close>

definition own_ref :: "host \<Rightarrow> uintptr \<Rightarrow> bool" where
  "own_ref h r \<longleftrightarrow> (\<exists>i. rf_obj_desc (ho_refs h r) = Some i \<and> i < num_entries (sys_tbl (ho_sys h))
     \<and> unat (od_obj_desc_id (sys_desc (ho_sys h) i)) = i \<and> od_obj_desc_id (sys_desc (ho_sys h) i) \<noteq> TIVX_OBJ_DESC_INVALID
     \<and> od_host_ref (sys_desc (ho_sys h) i) = r) \<and> container_items h r = None"

definition node_typed :: "host \<Rightarrow> bool" where
  "node_typed h \<longleftrightarrow> (\<forall>i < num_entries (sys_tbl (ho_sys h)). od_type (sys_desc (ho_sys h) i) = TIVX_OBJ_DESC_NODE \<longrightarrow>
     (\<exists>k. od_body (sys_desc (ho_sys h) i) = B_Node k))"

text \<open>An output parameter that is not replicated.\<close>

definition exclusive_param :: "host \<Rightarrow> uintptr \<Rightarrow> uint32 \<Rightarrow> bool" where
  "exclusive_param h g j \<longleftrightarrow> param_q h g j \<noteq> 0 \<and> \<not> param_input h g j \<and> \<not> param_replicated h g j
     \<and> the (obj_desc0 h (gp_node (graph_param h g j))) < num_entries (sys_tbl (ho_sys h))
     \<and> od_type (sys_desc (ho_sys h) (the (obj_desc0 h (gp_node (graph_param h g j))))) = TIVX_OBJ_DESC_NODE
     \<and> typed h g \<and> node_typed h \<and> length (param_refs_list h g j) < 32
     \<and> (\<forall>r \<in> set (param_refs_list h g j). r \<noteq> 0 \<longrightarrow> own_ref h r)"

definition marked_ok :: "host \<Rightarrow> uintptr \<Rightarrow> uint32 \<Rightarrow> bool" where
  "marked_ok h g j \<longleftrightarrow> (\<forall>r i. ref_ids h g j r = Some i \<longrightarrow>
     (let d = sys_desc (ho_sys h) (ref_desc h r) in
      tivxFlagIsBitSet (od_flags d) PARAM_ENQUEUED = (i \<in> set (in_graph (param_cycle h g j)))
      \<and> od_num_enqueues d = (if i \<in> set (in_graph (param_cycle h g j)) then 1 else 0)))"

definition cycling :: "host \<Rightarrow> uintptr \<Rightarrow> uint32 \<Rightarrow> bool" where
  "cycling h g j \<longleftrightarrow> exclusive_param h g j
     \<and> stages_ok (ho_sys h) (ready_of h g j) (done_of h g j) (stages_at h g j)
     \<and> distinct (in_graph (param_cycle h g j)) \<and> set (in_graph (param_cycle h g j)) \<subseteq> ran (ref_ids h g j)
     \<and> marked_ok h g j"

lemma calm_param:
  assumes "calm K M h h'"
  shows "graph_param h' g j = graph_param h g j" "param_q h' g j = param_q h g j"
    "ho_data_ref_queues h' = ho_data_ref_queues h" "stages_of h' = stages_of h"
    "ref_desc h' r = ref_desc h r" "obj_desc0 h' n = obj_desc0 h n"
proof -
  have o: "same_objects h h'" using assms by (simp add: calm_def)
  note s = same_objects_descs(4,5) [OF o]
  show p: "graph_param h' g j = graph_param h g j" by (simp add: s)
  show q: "param_q h' g j = param_q h g j" by (simp add: ownGraphGetParameterDataRefQueue_def s)
  show "ho_data_ref_queues h' = ho_data_ref_queues h" "stages_of h' = stages_of h"
    "ref_desc h' r = ref_desc h r" "obj_desc0 h' n = obj_desc0 h n"
    using o by (simp_all add: same_objects_def stages_of_def fun_eq_iff)
qed

lemma calm_own_ref:
  assumes "calm K M h h'" "own_ref h r"
  shows "own_ref h' r" "od_obj_desc_id (sys_desc (ho_sys h') (ref_desc h' r)) = od_obj_desc_id (sys_desc (ho_sys h) (ref_desc h r))"
    "r \<in> set (param_refs_list h g j) \<Longrightarrow> r \<noteq> 0 \<Longrightarrow> ref_desc h r \<notin> M \<Longrightarrow>
       marks (sys_desc (ho_sys h') (ref_desc h' r)) = marks (sys_desc (ho_sys h) (ref_desc h r))"
proof -
  have o: "same_objects h h'" "only K M (ho_sys h) (ho_sys h')" using assms(1) by (simp_all add: calm_def)
  have c: "container_items h' r = None \<longleftrightarrow> container_items h r = None"
    using o(1) by (simp add: container_items_def ownIsValidSpecificReference_def ownIsValidContext_def same_objects_def)
  show "own_ref h' r" "od_obj_desc_id (sys_desc (ho_sys h') (ref_desc h' r)) = od_obj_desc_id (sys_desc (ho_sys h) (ref_desc h r))"
    "ref_desc h r \<notin> M \<Longrightarrow> marks (sys_desc (ho_sys h') (ref_desc h' r)) = marks (sys_desc (ho_sys h) (ref_desc h r))"
    using assms(2) o c by (auto simp: own_ref_def only_def Let_def same_objects_def)
qed

lemma calm_exclusive:
  assumes "calm K M h h'" "exclusive_param h g j"
  shows "exclusive_param h' g j" "ref_ids h' g j = ref_ids h g j"
proof -
  note p = calm_param [OF assms(1)]
  have o: "only K M (ho_sys h) (ho_sys h')" using assms(1) by (simp add: calm_def)
  let ?n = "gp_node (graph_param h g j)"
  let ?i = "the (obj_desc0 h ?n)"
  have n: "?i < num_entries (sys_tbl (ho_sys h))" "od_type (sys_desc (ho_sys h) ?i) = TIVX_OBJ_DESC_NODE" "node_typed h"
    using assms(2) by (auto simp: exclusive_param_def)
  then obtain k where k: "od_body (sys_desc (ho_sys h) ?i) = B_Node k" by (auto simp: node_typed_def)
  obtain k' where k': "od_body (sys_desc (ho_sys h') ?i) = B_Node k'" "masks k' = masks k"
    using o n k unfolding only_def Let_def by blast
  have m: "masks (nd0 h' (gp_node (graph_param h' g j))) = masks (nd0 h ?n)"
    using k k' p by simp
  have nt: "node_typed h'" unfolding node_typed_def
  proof (intro allI impI)
    fix i assume i: "i < num_entries (sys_tbl (ho_sys h'))" "od_type (sys_desc (ho_sys h') i) = TIVX_OBJ_DESC_NODE"
    then have i': "i < num_entries (sys_tbl (ho_sys h))" "od_type (sys_desc (ho_sys h) i) = TIVX_OBJ_DESC_NODE"
      using o by (simp_all add: only_def Let_def)
    then obtain k where "od_body (sys_desc (ho_sys h) i) = B_Node k" using n(3) by (auto simp: node_typed_def)
    then show "\<exists>k. od_body (sys_desc (ho_sys h') i) = B_Node k" using o i' unfolding only_def Let_def by blast
  qed
  have t: "the (obj_desc0 h' (gp_node (graph_param h' g j))) = ?i" "num_entries (sys_tbl (ho_sys h')) = num_entries (sys_tbl (ho_sys h))"
    "od_type (sys_desc (ho_sys h') ?i) = TIVX_OBJ_DESC_NODE"
    using o n p by (simp_all add: only_def Let_def)
  have r: "own_ref h' r" if "r \<in> set (param_refs_list h g j)" "r \<noteq> 0" for r
    using calm_own_ref(1) [OF assms(1)] assms(2) that by (auto simp: exclusive_param_def)
  show "exclusive_param h' g j"
    using assms(2) m nt t r calm_typed [OF assms(1)] p unfolding exclusive_param_def by simp
  show "ref_ids h' g j = ref_ids h g j"
  proof
    fix r show "ref_ids h' g j r = ref_ids h g j r"
      using calm_own_ref(2) [OF assms(1), of r] assms(2) p by (simp add: ref_ids_def exclusive_param_def)
  qed
qed

section \<open>Steps of the application and of the targets\<close>

text \<open>One step is what a thread does under the platform lock: the application enqueues one reference,
  goes on after that (pipe-up or scheduling), or takes one reference back; a target acquires the
  parameter for a node in one of the stages, or releases it. Acquisition during pipe-up, which does not
  hold the buffer in the stage, is not among them.\<close>

datatype param_op =
    Enqueue uintptr
  | Go_On "nat \<Rightarrow> uint64" uint32
  | Acquire nat nat
  | Release nat nat bool
  | Dequeue

definition param_step ::
  "posix_rc \<Rightarrow> platform \<Rightarrow> bool \<Rightarrow> uintptr \<Rightarrow> uint32 \<Rightarrow> host \<Rightarrow> param_op \<Rightarrow> host \<times> outcome" where
  "param_step rc pl ho g j h op =
     (let q = ownGraphGetParameterDataRefQueue h g j; ds = stages_of h q; s = ho_sys h in
      case op of
        Enqueue r \<Rightarrow> (case enqueue_ref pl h g j q r of
            (h1, st) \<Rightarrow> (h1, if st = VX_SUCCESS then Accepted r else Refused r))
      | Go_On now num \<Rightarrow> (fst (after_enqueue rc pl now h g j num), Silent)
      | Acquire k n \<Rightarrow>
          (if k < length ds \<and> ownObjDescIsValidType (sys_tbl s) (Some n) TIVX_OBJ_DESC_NODE \<and> n < num_entries (sys_tbl s)
           then (h\<lparr>ho_sys := fst (ownTargetNodeDescAcquireParameter s n (ds ! k) False False)\<rparr>, Silent)
           else (h, Silent))
      | Release k n is_input \<Rightarrow>
          (if k < length ds
           then (case lent_by s (ds ! k) of
                   None \<Rightarrow> (h, Silent)
                 | Some ref \<Rightarrow> (h\<lparr>ho_sys := fst (ownTargetNodeDescReleaseParameter pl ho s n (ds ! k) ref is_input)\<rparr>, Silent))
           else (h, Silent))
      | Dequeue \<Rightarrow> (case dequeue_done h g j q of
            (h1, None) \<Rightarrow> (h1, Nothing_Done)
          | (h1, Some (r, st)) \<Rightarrow> (h1, Returned r)))"

fun param_run ::
  "posix_rc \<Rightarrow> platform \<Rightarrow> bool \<Rightarrow> uintptr \<Rightarrow> uint32 \<Rightarrow> host \<Rightarrow> param_op list \<Rightarrow> host \<times> outcome list" where
  "param_run rc pl ho g j h [] = (h, [])"
| "param_run rc pl ho g j h (op # ops) =
     (case param_step rc pl ho g j h op of
        (h1, out) \<Rightarrow> (case param_run rc pl ho g j h1 ops of (h2, outs) \<Rightarrow> (h2, out # outs)))"

inductive cycle_run :: "(uintptr \<Rightarrow> uint16 option) \<Rightarrow> cycle \<Rightarrow> outcome list \<Rightarrow> cycle \<Rightarrow> bool" for ids where
  stop: "cycle_run ids c [] c"
| go: "cycle_step ids c out c1 \<Longrightarrow> cycle_run ids c1 outs c2 \<Longrightarrow> cycle_run ids c (out # outs) c2"

lemma cycle_step_ran:
  assumes "cycle_step ids c out c'" "set (in_graph c) \<subseteq> ran ids"
  shows "set (in_graph c') \<subseteq> ran ids"
proof -
  have "set_mset (mset (in_graph c')) \<subseteq> ran ids"
    using cycle_step_mset [OF assms(1)] assms by (cases out) (auto elim!: cycle_step.cases intro: ranI dest!: in_diffD)
  then show ?thesis by simp
qed

text \<open>What remains to be shown for a step: the stages stay well formed, the step is one of the abstract
  machine, and the marks are right.\<close>

lemma cycling_step:
  assumes "cycling h g j" "calm K M h h'"
    and "stages_ok (ho_sys h') (ready_of h g j) (done_of h g j) (stages_at h g j)"
    and c': "c' = cycle_of (ho_sys h') (ready_of h g j) (done_of h g j) (stages_at h g j)"
    and "cycle_step (ref_ids h g j) (param_cycle h g j) out c'"
    and "\<And>r i. ref_ids h g j r = Some i \<Longrightarrow> own_ref h r \<Longrightarrow>
      tivxFlagIsBitSet (od_flags (sys_desc (ho_sys h') (ref_desc h r))) PARAM_ENQUEUED = (i \<in> set (in_graph c'))
      \<and> od_num_enqueues (sys_desc (ho_sys h') (ref_desc h r)) = (if i \<in> set (in_graph c') then 1 else 0)"
  shows "cycling h' g j" "ref_ids h' g j = ref_ids h g j"
    "cycle_step (ref_ids h g j) (param_cycle h g j) out (param_cycle h' g j)"
proof -
  note p = calm_param [OF assms(2)]
  have ex: "exclusive_param h g j" using assms(1) by (simp add: cycling_def)
  note e = calm_exclusive [OF assms(2) ex]
  have c: "param_cycle h' g j = c'" unfolding param_cycle_def c' p ..
  show "ref_ids h' g j = ref_ids h g j" by (rule e(2))
  show st: "cycle_step (ref_ids h g j) (param_cycle h g j) out (param_cycle h' g j)" using assms(5) c by simp
  have own: "own_ref h r" if "ref_ids h g j r = Some i" for r i
    using ex that by (auto simp: ref_ids_def exclusive_param_def split: if_splits)
  have "marked_ok h' g j"
    unfolding marked_ok_def e(2) c Let_def using assms(6) own p(5) by simp
  moreover have "distinct (in_graph c')" "set (in_graph c') \<subseteq> ran (ref_ids h g j)"
    using cycle_step_distinct [OF assms(5)] cycle_step_ran [OF assms(5)] assms(1) by (simp_all add: cycling_def)
  ultimately show "cycling h' g j"
    unfolding cycling_def c e(2) p using e(1) assms(3) by simp
qed

lemma cycling_silent:
  assumes "cycling h g j" "calm K {} h h'"
    and "stages_ok (ho_sys h') (ready_of h g j) (done_of h g j) (stages_at h g j)"
    and "cycle_step (ref_ids h g j) (param_cycle h g j) Silent
      (cycle_of (ho_sys h') (ready_of h g j) (done_of h g j) (stages_at h g j))"
  shows "cycling h' g j" "ref_ids h' g j = ref_ids h g j"
    "cycle_step (ref_ids h g j) (param_cycle h g j) Silent (param_cycle h' g j)"
proof -
  let ?c' = "cycle_of (ho_sys h') (ready_of h g j) (done_of h g j) (stages_at h g j)"
  have "mset (in_graph ?c') = mset (in_graph (param_cycle h g j))" using cycle_step_mset [OF assms(4)] by simp
  then have s: "set (in_graph ?c') = set (in_graph (param_cycle h g j))" by (metis set_mset_mset)
  have m: "tivxFlagIsBitSet (od_flags (sys_desc (ho_sys h') (ref_desc h r))) PARAM_ENQUEUED = (i \<in> set (in_graph ?c'))
      \<and> od_num_enqueues (sys_desc (ho_sys h') (ref_desc h r)) = (if i \<in> set (in_graph ?c') then 1 else 0)"
    if "ref_ids h g j r = Some i" "own_ref h r" for r i
  proof -
    have r: "r \<in> set (param_refs_list h g j)" "r \<noteq> 0" using that(1) by (auto simp: ref_ids_def split: if_splits)
    have "marks (sys_desc (ho_sys h') (ref_desc h r)) = marks (sys_desc (ho_sys h) (ref_desc h r))"
      using calm_own_ref(3) [OF assms(2) that(2) r] calm_param(5) [OF assms(2)] by simp
    then show ?thesis using assms(1) that(1) unfolding cycling_def marked_ok_def Let_def s by simp
  qed
  show "cycling h' g j" "ref_ids h' g j = ref_ids h g j"
    "cycle_step (ref_ids h g j) (param_cycle h g j) Silent (param_cycle h' g j)"
    using cycling_step [OF assms(1,2,3) refl assms(4) m] by simp_all
qed

lemma cyclingD:
  assumes "cycling h g j"
  shows "exclusive_param h g j" "stages_ok (ho_sys h) (ready_of h g j) (done_of h g j) (stages_at h g j)"
    "length (in_graph (param_cycle h g j)) < 32"
    "i \<in> set (in_graph (param_cycle h g j)) \<Longrightarrow> \<exists>r. ref_ids h g j r = Some i"
    "ref_ids h g j r = Some i \<Longrightarrow> own_ref h r \<and> r \<noteq> 0 \<and> r \<in> set (param_refs_list h g j)
       \<and> od_obj_desc_id (sys_desc (ho_sys h) (ref_desc h r)) = i"
proof -
  show ex: "exclusive_param h g j" and "stages_ok (ho_sys h) (ready_of h g j) (done_of h g j) (stages_at h g j)"
    using assms by (simp_all add: cycling_def)
  show "own_ref h r \<and> r \<noteq> 0 \<and> r \<in> set (param_refs_list h g j)
      \<and> od_obj_desc_id (sys_desc (ho_sys h) (ref_desc h r)) = i" if "ref_ids h g j r = Some i" for r i
    using that ex by (auto simp: ref_ids_def exclusive_param_def split: if_splits)
  have sub: "set (in_graph (param_cycle h g j)) \<subseteq> ran (ref_ids h g j)" using assms by (simp add: cycling_def)
  then show "\<exists>r. ref_ids h g j r = Some i" if "i \<in> set (in_graph (param_cycle h g j))" for i
    using that by (auto simp: ran_def)
  have "ran (ref_ids h g j) \<subseteq> (\<lambda>r. od_obj_desc_id (sys_desc (ho_sys h) (ref_desc h r))) ` set (param_refs_list h g j)"
    by (auto simp: ran_def ref_ids_def split: if_splits)
  then have "card (set (in_graph (param_cycle h g j))) \<le> length (param_refs_list h g j)"
    using sub by (meson List.finite_set card_image_le card_length card_mono finite_imageI order_trans)
  moreover have "distinct (in_graph (param_cycle h g j))" using assms by (simp add: cycling_def)
  moreover have "length (param_refs_list h g j) < 32" using ex by (simp add: exclusive_param_def)
  ultimately show "length (in_graph (param_cycle h g j)) < 32" by (simp only: distinct_card)
qed

lemma own_ref_get:
  assumes "own_ref h r" "od_obj_desc_id (sys_desc (ho_sys h) (ref_desc h r)) = i"
  shows "ownObjDescGet (sys_tbl (ho_sys h)) i = Some (ref_desc h r)" "i \<noteq> TIVX_OBJ_DESC_INVALID" "unat i = ref_desc h r"
    "od_host_ref (sys_desc (ho_sys h) (ref_desc h r)) = r" "ref_desc h r < num_entries (sys_tbl (ho_sys h))"
  using assms by (auto simp: own_ref_def ownObjDescGet_def)

lemma go_on_cycles:
  assumes "cycling h g j" "h' = fst (after_enqueue rc pl now h g j num)"
  shows "cycling h' g j" "ref_ids h' g j = ref_ids h g j"
    "cycle_step (ref_ids h g j) (param_cycle h g j) Silent (param_cycle h' g j)"
proof -
  note D = cyclingD(1,2) [OF assms(1)]
  let ?i = "the (obj_desc0 h (gp_node (graph_param h g j)))" and ?s = "ho_sys h"
  let ?K = "sched_descs h g \<union> {?i}"
  have ty: "typed h g" and ti: "od_type (sys_desc ?s ?i) = TIVX_OBJ_DESC_NODE"
    using D(1) by (simp_all add: exclusive_param_def)
  have c: "calm ?K {} h h'" unfolding assms(2) by (rule calm_after_enqueue [OF ty]) auto
  have K: "od_type (sys_desc ?s x) \<in> {TIVX_OBJ_DESC_GRAPH, TIVX_OBJ_DESC_NODE}" if "x \<in> ?K" for x
    using that ty ti by (auto simp: typed_def)
  have q: "od_type (sys_desc ?s (unat q)) = TIVX_OBJ_DESC_QUEUE" if "odq_inv q (sys_tbl ?s)" for q
    using that by (auto simp: odq_inv_def queue_at_some)
  have iv: "odq_inv (ready_of h g j) (sys_tbl ?s)" "odq_inv (done_of h g j) (sys_tbl ?s)"
    using D(2) by (simp_all add: stages_ok_def)
  have "unat (ready_of h g j) \<notin> ?K" using K [of "unat (ready_of h g j)"] q [OF iv(1)] by fastforce
  moreover have "unat (done_of h g j) \<notin> ?K" using K [of "unat (done_of h g j)"] q [OF iv(2)] by fastforce
  moreover have "x \<notin> ?K" if "x \<in> set (stages_at h g j)" for x
    using K [of x] D(2) that by (fastforce simp: stages_ok_def stage_ok_def)
  ultimately have out: "unat (ready_of h g j) \<notin> ?K" "unat (done_of h g j) \<notin> ?K" "set (stages_at h g j) \<inter> ?K = {}"
    by blast+
  have "only ?K {} (ho_sys h) (ho_sys h')" using c by (simp add: calm_def)
  note u = stages_untouched [OF D(2) this out]
  have "calm ?K {} h h'" by (rule c)
  then show "cycling h' g j" "ref_ids h' g j = ref_ids h g j"
    "cycle_step (ref_ids h g j) (param_cycle h g j) Silent (param_cycle h' g j)"
    using cycling_silent [OF assms(1) c u(1)] u(2) silent by (simp_all add: param_cycle_def)
qed

lemma acquire_step_cycles:
  assumes "cycling h g j" "k < length (stages_at h g j)" "od_type (sys_desc (ho_sys h) n) = TIVX_OBJ_DESC_NODE"
    and "n < num_entries (sys_tbl (ho_sys h))"
    and h': "h' = h\<lparr>ho_sys := fst (ownTargetNodeDescAcquireParameter (ho_sys h) n (stages_at h g j ! k) False False)\<rparr>"
  shows "cycling h' g j" "ref_ids h' g j = ref_ids h g j"
    "cycle_step (ref_ids h g j) (param_cycle h g j) Silent (param_cycle h' g j)"
proof -
  note D = cyclingD(1,2) [OF assms(1)]
  have n: "node_ok (ho_sys h) n" using D(1) assms(3,4) by (auto simp: exclusive_param_def node_typed_def node_ok_def)
  note a = acquire_cycles(1) [OF D(2) assms(2) n, where ids = "ref_ids h g j" and b = False]
    and only = acquire_cycles(2) [OF D(2) assms(2) n, of False]
  have c: "calm {unat (ready_of h g j), stages_at h g j ! k, n} {} h h'"
    unfolding h' by (rule calm_sys) (rule only)
  have "ho_sys h' = fst (ownTargetNodeDescAcquireParameter (ho_sys h) n (stages_at h g j ! k) False False)"
    by (simp add: h')
  then show "cycling h' g j" "ref_ids h' g j = ref_ids h g j"
    "cycle_step (ref_ids h g j) (param_cycle h g j) Silent (param_cycle h' g j)"
    using cycling_silent [OF assms(1) c] a by (simp_all add: param_cycle_def)
qed

lemma release_step_cycles:
  assumes "cycling h g j" "k < length (stages_at h g j)" "lent_by (ho_sys h) (stages_at h g j ! k) = Some ref"
    and h': "h' = h\<lparr>ho_sys := fst (ownTargetNodeDescReleaseParameter pl ho (ho_sys h) n (stages_at h g j ! k) ref is_input)\<rparr>"
  shows "cycling h' g j" "ref_ids h' g j = ref_ids h g j"
    "cycle_step (ref_ids h g j) (param_cycle h g j) Silent (param_cycle h' g j)"
proof -
  note D = cyclingD [OF assms(1)]
  have "Some ref \<in> set (cy_lent (param_cycle h g j))"
    using nth_mem [of k "map (lent_by (ho_sys h)) (stages_at h g j)"] assms(2,3)
    by (simp add: param_cycle_def cycle_of_def)
  then have "ref \<in> set (in_graph (param_cycle h g j))"
    by (force simp: in_graph_def somes_def)
  then obtain r where r: "ref_ids h g j r = Some ref" using D(4) by blast
  have get: "ownObjDescGet (sys_tbl (ho_sys h)) ref \<noteq> None"
    using own_ref_get(1) D(5) [OF r] by fastforce
  have room: "length (odq_elems (done_of h g j) (sys_tbl (ho_sys h))) < 32"
    using D(3) by (simp add: in_graph_def param_cycle_def cycle_of_def)
  note a = release_cycles(1) [OF D(2) assms(2,3) get room, where ids = "ref_ids h g j" and pl = pl and ho = ho
      and n = n and is_input = is_input]
    and only = release_cycles(2) [OF D(2) assms(2,3) get room, of pl ho n is_input]
  have c: "calm {unat (done_of h g j), stages_at h g j ! k} {} h h'"
    unfolding h' by (rule calm_sys) (rule only)
  have "ho_sys h' = fst (ownTargetNodeDescReleaseParameter pl ho (ho_sys h) n (stages_at h g j ! k) ref is_input)"
    by (simp add: h')
  then show "cycling h' g j" "ref_ids h' g j = ref_ids h g j"
    "cycle_step (ref_ids h g j) (param_cycle h g j) Silent (param_cycle h' g j)"
    using cycling_silent [OF assms(1) c] a by (simp_all add: param_cycle_def)
qed

text \<open>Marking and unmarking one descriptor.\<close>

lemma upd_desc_of_sys [simp]:
  "sys_tbl (ho_sys (upd_desc_of i f h)) = upd_desc i f (sys_tbl (ho_sys h))"
  by (simp add: upd_desc_of_def)

lemma calm_desc:
  "(\<And>d. od_type (f d) = od_type d \<and> od_obj_desc_id (f d) = od_obj_desc_id d \<and> od_host_ref (f d) = od_host_ref d
      \<and> od_body (f d) = od_body d) \<Longrightarrow> i \<in> M \<Longrightarrow> calm K M h (upd_desc_of i f h)"
  unfolding upd_desc_of_def by (intro calm_sys only_base) auto

lemma marked_ref:
  assumes "cycling h g j" "ref_ids h g j r = Some i"
  shows "queue_taken False (sys_desc (ho_sys h) (ref_desc h r)) \<longleftrightarrow> i \<in> set (in_graph (param_cycle h g j))"
    "i \<notin> set (in_graph (param_cycle h g j)) \<Longrightarrow> od_num_enqueues (sys_desc (ho_sys h) (ref_desc h r)) = 0"
    "i \<in> set (in_graph (param_cycle h g j)) \<Longrightarrow> od_num_enqueues (sys_desc (ho_sys h) (ref_desc h r)) = 1"
  using assms by (auto simp: cycling_def marked_ok_def Let_def queue_taken_def)

lemma ref_ids_inj:
  assumes "cycling h g j" "ref_ids h g j r = Some i" "ref_ids h g j r' = Some i'" "ref_desc h r = ref_desc h r'"
  shows "r = r'" "i = i'"
  using own_ref_get(4) cyclingD(5) [OF assms(1,2)] cyclingD(5) [OF assms(1,3)] assms(4) by metis+

lemma enqueue_step_cycles:
  assumes "cycling h g j" "enqueue_ref pl h g j (param_q h g j) r = (h', st)"
  defines "out \<equiv> if st = VX_SUCCESS then Accepted r else Refused r"
  shows "cycling h' g j \<and> ref_ids h' g j = ref_ids h g j
    \<and> cycle_step (ref_ids h g j) (param_cycle h g j) out (param_cycle h' g j)"
proof (cases "ref_ids h g j r")
  case None
  then have "h' = h \<and> st = VX_FAILURE"
    using assms(2) by (auto simp: enqueue_ref_def ref_ids_def split: if_splits)
  then show ?thesis using assms(1) refuse [of "ref_ids h g j" r] None by (simp add: out_def)
next
  case (Some i)
  note D = cyclingD [OF assms(1)] and R = cyclingD(5) [OF assms(1) Some]
  note M = marked_ref [OF assms(1) Some]
  let ?c = "param_cycle h g j" and ?i = "ref_desc h r" and ?rq = "ready_of h g j"
  have out: "param_input h g j = False" "marked_with h g j r = Some (?i, [])"
    using D(1) R by (auto simp: exclusive_param_def marked_with_def own_ref_def)
  show ?thesis
  proof (cases "i \<in> set (in_graph ?c)")
    case True
    then have "h' = h \<and> st = VX_FAILURE"
      using assms(2) out R M(1) by (simp add: enqueue_ref_def Let_def can_be_queued_def)
    then show ?thesis using assms(1) refuse [of "ref_ids h g j" r ?c] Some True by (simp add: out_def)
  next
    case False
    have room: "length (odq_elems ?rq (sys_tbl (ho_sys h))) < 32"
      using D(3) by (simp add: in_graph_def param_cycle_def cycle_of_def)
    have oid: "od_obj_desc_id (sys_desc (ho_sys h) ?i) = i" using R by simp
    note G = own_ref_get [OF conjunct1 [OF R] oid]
    obtain s1 s2 bn where q: "sys_enqueue (ho_sys h) ?rq i = (s1, VX_SUCCESS)"
      "sys_extract_blocked s1 ?rq no_blocked = (s2, bn)" "only {unat ?rq} {} (ho_sys h) s2"
      "stages_ok s2 ?rq (done_of h g j) (stages_at h g j)"
      "cycle_of s2 ?rq (done_of h g j) (stages_at h g j)
        = (cycle_of (ho_sys h) ?rq (done_of h g j) (stages_at h g j))\<lparr>cy_ready := odq_elems ?rq (sys_tbl (ho_sys h)) @ [i]\<rparr>"
      using enqueue_cycles [OF D(2) room G(2)] by metis
    let ?h1 = "upd_desc_of ?i (mark False) (h\<lparr>ho_sys := s2\<rparr>)"
    have run: "h' = ?h1\<lparr>ho_sys := foldl (ownTargetTriggerNode pl) (ho_sys ?h1) (bn_list bn)\<rparr>" "st = VX_SUCCESS"
      using assms(2) out R M(1) False q(1,2) oid by (simp_all add: enqueue_ref_def Let_def can_be_queued_def)
    have c2: "calm {unat ?rq} {?i} h (h\<lparr>ho_sys := s2\<rparr>)"
      by (rule calm_sys) (rule only_mono [OF q(3)], simp_all)
    have c1: "calm {} {?i} (h\<lparr>ho_sys := s2\<rparr>) ?h1" by (rule calm_desc) (simp_all add: mark_def)
    have c0: "calm {} {} ?h1 h'" unfolding run by (rule calm_sys) (rule only_triggers)
    have o: "only {} {?i} s2 (ho_sys h')"
      using only_trans [of "{}" "{?i}" s2 "ho_sys ?h1" "ho_sys h'"] c1 only_mono [of "{}" "{}" "ho_sys ?h1" "ho_sys h'" "{}" "{?i}"] c0
      by (simp add: calm_def)
    have c: "calm {unat ?rq} {?i} h h'"
      using calm_trans [OF c2, of h'] o only_mono [OF o, of "{unat ?rq}" "{?i}"] c0 c1
      by (simp add: calm_def same_objects_def)
    note u = stages_untouched [OF q(4) o]
    let ?c' = "cycle_of (ho_sys h') ?rq (done_of h g j) (stages_at h g j)"
    have c': "?c' = ?c\<lparr>cy_ready := cy_ready ?c @ [i]\<rparr>" using u(2) q(5) by (simp add: param_cycle_def cycle_of_def)
    then have ing: "set (in_graph ?c') = insert i (set (in_graph ?c))" by (auto simp: in_graph_def)
    have step: "cycle_step (ref_ids h g j) ?c out ?c'"
      using accept [of "ref_ids h g j" r i ?c, OF Some False] c' by (simp add: out_def run(2))
    have m: "tivxFlagIsBitSet (od_flags (sys_desc (ho_sys h') (ref_desc h r'))) PARAM_ENQUEUED = (i' \<in> set (in_graph ?c'))
        \<and> od_num_enqueues (sys_desc (ho_sys h') (ref_desc h r')) = (if i' \<in> set (in_graph ?c') then 1 else 0)"
      if r': "ref_ids h g j r' = Some i'" "own_ref h r'" for r' i'
    proof (cases "r' = r")
      case True
      have "sys_desc (ho_sys h') ?i = mark False (sys_desc s2 ?i)"
        using run(1) G(5) q(3) by (simp add: target_messenger.triggers_tbl only_def Let_def)
      moreover have "marks (sys_desc s2 ?i) = marks (sys_desc (ho_sys h) ?i)"
        using q(3) G(5) by (simp add: only_def Let_def)
      ultimately show ?thesis
        using True r'(1) Some M(2) [OF False] ing flag_set_same [of "od_flags (sys_desc (ho_sys h) ?i)" PARAM_ENQUEUED]
        by (simp add: mark_def tivxFlagBitSet_def)
    next
      case other: False
      have R': "r' \<in> set (param_refs_list h g j)" "r' \<noteq> 0" using r'(1) by (auto simp: ref_ids_def split: if_splits)
      have "ref_desc h r' \<notin> {?i}" using ref_ids_inj(1) [OF assms(1) r'(1) Some] other by auto
      then have "marks (sys_desc (ho_sys h') (ref_desc h r')) = marks (sys_desc (ho_sys h) (ref_desc h r'))"
        using calm_own_ref(3) [OF c r'(2) R'] calm_param(5) [OF c] by simp
      moreover have "i' \<noteq> i"
        using other own_ref_get(1,4) cyclingD(5) [OF assms(1) r'(1)] R by (metis option.inject)
      ultimately show ?thesis
        using assms(1) r'(1) ing by (simp add: cycling_def marked_ok_def Let_def)
    qed
    show ?thesis using cycling_step [OF assms(1) c u(1) refl step m] by simp
  qed
qed

lemma dequeue_step_cycles:
  assumes "cycling h g j" "dequeue_done h g j (param_q h g j) = (h', res)"
  defines "out \<equiv> case res of None \<Rightarrow> Nothing_Done | Some (r, st) \<Rightarrow> Returned r"
  shows "cycling h' g j \<and> ref_ids h' g j = ref_ids h g j
    \<and> cycle_step (ref_ids h g j) (param_cycle h g j) out (param_cycle h' g j)"
    "\<And>r st. res = Some (r, st) \<Longrightarrow> st = VX_SUCCESS"
proof -
  note D = cyclingD [OF assms(1)]
  let ?c = "param_cycle h g j" and ?dq = "done_of h g j"
  have "(cycling h' g j \<and> ref_ids h' g j = ref_ids h g j
    \<and> cycle_step (ref_ids h g j) ?c out (param_cycle h' g j)) \<and> (\<forall>r st. res = Some (r, st) \<longrightarrow> st = VX_SUCCESS)"
  proof (cases "odq_elems ?dq (sys_tbl (ho_sys h))")
    case Nil
    have "odq_inv ?dq (sys_tbl (ho_sys h))" using D(2) by (simp add: stages_ok_def)
    then have "h' = h \<and> res = None"
      using assms(2) dequeue_none [OF _ Nil] by (simp add: dequeue_done_def sys_dequeue_def)
    moreover have "cy_done ?c = []" using Nil by (simp add: param_cycle_def cycle_of_def)
    ultimately show ?thesis using assms(1) unfolding out_def by (auto intro: cycle_step.nothing)
  next
    case (Cons i "is")
    obtain s1 where q: "sys_dequeue (ho_sys h) ?dq = (s1, i, VX_SUCCESS)" "only {unat ?dq} {} (ho_sys h) s1"
      "stages_ok s1 (ready_of h g j) ?dq (stages_at h g j)"
      "cycle_of s1 (ready_of h g j) ?dq (stages_at h g j)
        = (cycle_of (ho_sys h) (ready_of h g j) ?dq (stages_at h g j))\<lparr>cy_done := is\<rparr>"
      using dequeue_cycles [OF D(2) Cons] by metis
    have "i \<in> set (cy_done ?c)" using Cons by (simp add: param_cycle_def cycle_of_def)
    then have iin: "i \<in> set (in_graph ?c)" by (simp add: in_graph_def)
    obtain r where r: "ref_ids h g j r = Some i" using D(4) [OF iin] by blast
    note R = cyclingD(5) [OF assms(1) r] and M = marked_ref [OF assms(1) r]
    have oid: "od_obj_desc_id (sys_desc (ho_sys h) (ref_desc h r)) = i" using R by simp
    note G = own_ref_get [OF conjunct1 [OF R] oid]
    let ?i = "ref_desc h r"
    let ?h1 = "h\<lparr>ho_sys := s1\<rparr>"
    let ?h2 = "upd_desc_of ?i clear_mark ?h1"
    let ?h3 = "upd_desc_of ?i count_down ?h2"
    have c1: "calm {unat ?dq} {?i} h ?h1" by (rule calm_sys) (rule only_mono [OF q(2)], simp_all)
    have c2: "calm {} {?i} ?h1 ?h2" by (rule calm_desc) (simp_all add: clear_mark_def)
    have c3: "calm {} {?i} ?h2 ?h3" by (rule calm_desc) (simp_all add: count_down_def)
    have c23: "calm {} {?i} ?h1 ?h3" using calm_trans [OF c2 c3] .
    have s1: "num_entries (sys_tbl s1) = num_entries (sys_tbl (ho_sys h))" "od_host_ref (sys_desc s1 ?i) = r"
      "marks (sys_desc s1 ?i) = marks (sys_desc (ho_sys h) ?i)"
      using q(2) G by (simp_all add: only_def Let_def)
    have hd: "ownReferenceGetHandleFromObjDescId ?h1 i = r"
      using G s1 by (simp add: ownReferenceGetHandleFromObjDescId_def ownObjDescGet_def)
    have "exclusive_param ?h1 g j" using calm_exclusive(1) [OF c1 D(1)] .
    then have rep: "\<not> param_replicated ?h1 g j" by (simp add: exclusive_param_def)
    have c13: "calm {unat ?dq} {?i} h ?h3"
      using calm_trans [OF c1, of ?h3] c23 only_mono [of "{}" "{?i}" "ho_sys ?h1" "ho_sys ?h3" "{unat ?dq}" "{?i}"]
      by (simp add: calm_def)
    have con: "container_items ?h3 r = None" using calm_own_ref(1) [OF c13] R by (simp add: own_ref_def)
    have num: "od_num_enqueues (sys_desc (ho_sys ?h2) ?i) = 1"
      using M(3) [OF iin] s1 G(5) by (simp add: clear_mark_def)
    have "ownDecrementEnqueueCount ?h1 r = (?h3, VX_SUCCESS)"
      using num con by (simp add: ownDecrementEnqueueCount_def Let_def del: upd_desc_of_sys)
    then have run: "h' = ?h3" "res = Some (r, VX_SUCCESS)"
      using assms(2) q(1) G(2) hd rep R by (simp_all add: dequeue_done_def dequeued_ref_def)
    have o: "only {} {?i} s1 (ho_sys h')" using c23 run(1) by (simp add: calm_def)
    note u = stages_untouched [OF q(3) o]
    let ?c' = "cycle_of (ho_sys h') (ready_of h g j) ?dq (stages_at h g j)"
    have c': "?c' = ?c\<lparr>cy_done := is\<rparr>" using u(2) q(4) by (simp add: param_cycle_def)
    have cd: "cy_done ?c = i # is" using Cons by (simp add: param_cycle_def cycle_of_def)
    have step: "cycle_step (ref_ids h g j) ?c out ?c'"
      using return [of ?c i "is" "ref_ids h g j" r, OF cd r] c' by (simp add: out_def run(2))
    have "distinct (in_graph ?c)" using assms(1) by (simp add: cycling_def)
    then have ing: "set (in_graph ?c') = set (in_graph ?c) - {i}" using c' cd by (auto simp: in_graph_def)
    have m: "tivxFlagIsBitSet (od_flags (sys_desc (ho_sys h') (ref_desc h r'))) PARAM_ENQUEUED = (i' \<in> set (in_graph ?c'))
        \<and> od_num_enqueues (sys_desc (ho_sys h') (ref_desc h r')) = (if i' \<in> set (in_graph ?c') then 1 else 0)"
      if r': "ref_ids h g j r' = Some i'" "own_ref h r'" for r' i'
    proof (cases "r' = r")
      case True
      have "sys_desc (ho_sys h') ?i = count_down (clear_mark (sys_desc s1 ?i))" using run(1) G(5) s1(1) by simp
      then show ?thesis
        using True r'(1) r M(3) [OF iin] ing s1(3) flag_clear_same [of "od_flags (sys_desc (ho_sys h) ?i)" PARAM_ENQUEUED]
        by (simp add: count_down_def clear_mark_def)
    next
      case other: False
      have R': "r' \<in> set (param_refs_list h g j)" "r' \<noteq> 0" using r'(1) by (auto simp: ref_ids_def split: if_splits)
      have "ref_desc h r' \<notin> {?i}" using ref_ids_inj(1) [OF assms(1) r'(1) r] other by auto
      then have "marks (sys_desc (ho_sys h') (ref_desc h r')) = marks (sys_desc (ho_sys h) (ref_desc h r'))"
        using calm_own_ref(3) [OF c13 r'(2) R'] calm_param(5) [OF c13] run(1) by simp
      moreover have "i' \<noteq> i"
        using other own_ref_get(1,4) cyclingD(5) [OF assms(1) r'(1)] R by (metis option.inject)
      ultimately show ?thesis
        using assms(1) r'(1) ing by (simp add: cycling_def marked_ok_def Let_def)
    qed
    show ?thesis using cycling_step [OF assms(1) c13 u(1) [unfolded run(1)] refl step [unfolded run(1)] m [unfolded run(1)]] run
      by simp
  qed
  then show "cycling h' g j \<and> ref_ids h' g j = ref_ids h g j
    \<and> cycle_step (ref_ids h g j) ?c out (param_cycle h' g j)"
    "\<And>r st. res = Some (r, st) \<Longrightarrow> st = VX_SUCCESS" by auto
qed

lemma param_step_cycles:
  assumes "cycling h g j" "param_step rc pl ho g j h op = (h', out)"
  shows "cycling h' g j \<and> ref_ids h' g j = ref_ids h g j
    \<and> cycle_step (ref_ids h g j) (param_cycle h g j) out (param_cycle h' g j)"
proof (cases op)
  case (Enqueue r)
  obtain h1 st where e: "enqueue_ref pl h g j (param_q h g j) r = (h1, st)" by fastforce
  with enqueue_step_cycles [OF assms(1) e] assms(2) Enqueue show ?thesis by (auto simp: param_step_def Let_def)
next
  case (Go_On now num)
  then show ?thesis using go_on_cycles [OF assms(1) refl, of rc pl now num] assms(2) by (auto simp: param_step_def Let_def)
next
  case (Acquire k n)
  then show ?thesis
    using assms acquire_step_cycles [OF assms(1) _ _ _ refl, of k n] silent
    by (auto simp: param_step_def Let_def ownObjDescIsValidType_def split: if_splits)
next
  case (Release k n b)
  then show ?thesis
    using assms release_step_cycles [OF assms(1) _ _ refl, of k _ pl ho n b] silent
    by (auto simp: param_step_def Let_def split: if_splits option.splits)
next
  case Dequeue
  obtain h1 res where e: "dequeue_done h g j (param_q h g j) = (h1, res)" by fastforce
  with dequeue_step_cycles(1) [OF assms(1) e] assms(2) Dequeue show ?thesis
    by (auto simp: param_step_def Let_def split: option.splits)
qed

text \<open>C8: in any sequence of enqueues, acquisitions, releases and dequeues at an output parameter of a
  graph, with scheduling in between, the references do what the cycle promises: each one is waiting,
  lent to one stage or done, never in two places; an enqueue is accepted exactly when the graph does not
  have the reference, a dequeue returns the reference that was done first, and the marks in the descriptors
  say which references the graph has.\<close>

theorem parameter_references_cycle:
  assumes "cycling h g j" "param_run rc pl ho g j h ops = (h', outs)"
  shows "cycle_run (ref_ids h g j) (param_cycle h g j) outs (param_cycle h' g j)
    \<and> distinct (in_graph (param_cycle h' g j)) \<and> marked_ok h' g j \<and> cycling h' g j"
proof -
  have "cycle_run (ref_ids h g j) (param_cycle h g j) outs (param_cycle h' g j) \<and> cycling h' g j"
    using assms
  proof (induction ops arbitrary: h outs)
    case Nil
    then show ?case by (simp add: cycle_run.stop)
  next
    case (Cons op ops)
    obtain h1 out where s: "param_step rc pl ho g j h op = (h1, out)" by fastforce
    obtain outs1 where r: "param_run rc pl ho g j h1 ops = (h', outs1)" "outs = out # outs1"
      using Cons.prems(2) s by (auto split: prod.splits)
    note c = param_step_cycles [OF Cons.prems(1) s]
    then show ?case using Cons.IH [OF _ r(1)] cycle_run.go r(2) by metis
  qed
  then show ?thesis by (simp add: cycling_def)
qed

text \<open>A graph with one output parameter and two references; stage 2 takes from queue 0 and gives to
  queue 1, and node 4 writes the buffers.\<close>

definition param_table :: "tivx_obj_desc list" where
  "param_table =
     [pipe_desc 0 TIVX_OBJ_DESC_QUEUE (B_Queue zero_queue), pipe_desc 1 TIVX_OBJ_DESC_QUEUE (B_Queue zero_queue),
      pipe_desc 2 TIVX_OBJ_DESC_DATA_REF_Q (B_Data_Ref_Q (pipe_drq\<lparr>drq_num_in_nodes := 0\<rparr>)),
      (pipe_desc 3 TIVX_OBJ_DESC_IMAGE (B_Image TIVX_OBJ_DESC_INVALID 0))\<lparr>od_host_ref := 0x51\<rparr>,
      pipe_desc 4 TIVX_OBJ_DESC_NODE (B_Node zero_node),
      (pipe_desc 5 TIVX_OBJ_DESC_IMAGE (B_Image TIVX_OBJ_DESC_INVALID 0))\<lparr>od_host_ref := 0x52\<rparr>]"

definition param_host :: host where
  "param_host = (host_of_links [])
     \<lparr>ho_sys := (sample_sys 0x100)\<lparr>sys_tbl := \<lparr>odt_table_base = param_table, odt_last_alloc_index = 0\<rparr>\<rparr>,
      ho_refs := (\<lambda>r. zero_ref\<lparr>rf_obj_desc := if r = 0x51 then Some 3 else if r = 0x52 then Some 5 else None\<rparr>),
      ho_nodes := (\<lambda>_. zero_vnode\<lparr>vn_obj_desc := Some 4 # replicate 15 None\<rparr>),
      ho_graphs := (\<lambda>_. zero_graph\<lparr>gr_num_nodes := 1, gr_nodes := 1 # replicate 127 0, gr_num_params := 1,
          gr_parameters := [\<lparr>gp_node = 1, gp_index = 0, gp_queue_enable = True, gp_num_buf = 2,
             gp_data_ref_queue = 0x90, gp_refs_list = [0x51, 0x52],
     gp_is_enable_send_ref_consumed_event = False, gp_is_enable_send_ref_consumed_graph_event = False, gp_type = 0\<rparr>]\<rparr>),
      ho_data_ref_queues := (\<lambda>_. zero_data_ref_queue\<lparr>dq_ready_q_obj_desc_id := 0, dq_done_q_obj_desc_id := 1,
          dq_obj_desc := Some 2 # replicate 15 None, dq_pipeline_depth := 1\<rparr>)\<rparr>"

lemma param_host_get:
  "odt_table_base (sys_tbl (ho_sys param_host)) = param_table" "param_q param_host 0x700 0 = 0x90"
  "gr_parameters (ho_graphs param_host g) = [\<lparr>gp_node = 1, gp_index = 0, gp_queue_enable = True, gp_num_buf = 2,
     gp_data_ref_queue = 0x90, gp_refs_list = [0x51, 0x52],
     gp_is_enable_send_ref_consumed_event = False, gp_is_enable_send_ref_consumed_graph_event = False, gp_type = 0\<rparr>]"
  "dq_ready_q_obj_desc_id (ho_data_ref_queues param_host q) = 0"
  "dq_done_q_obj_desc_id (ho_data_ref_queues param_host q) = 1" "stages_of param_host q = [2]"
  "nodes_of_graph (ho_graphs param_host g) = [1]" "vn_obj_desc (ho_nodes param_host n) = Some 4 # replicate 15 None"
  "gr_obj_desc (ho_graphs param_host g) = replicate 16 None" "gr_pipeline_depth (ho_graphs param_host g) = 1"
  "rf_obj_desc (ho_refs param_host r) = (if r = 0x51 then Some 3 else if r = 0x52 then Some 5 else None)"
  "rf_type (ho_refs param_host r) = 0"
  by (simp_all add: param_host_def ownGraphGetParameterDataRefQueue_def stages_of_def nodes_of_graph_def zero_ref_def
      zero_graph_def zero_vnode_def host_of_links_def)

lemma param_host_cycle:
  "param_cycle param_host 0x700 0 = \<lparr>cy_ready = [], cy_lent = [None], cy_done = []\<rparr>"
  by (simp add: param_cycle_def cycle_of_def param_host_get param_table_def odq_elems_def odq_list_def ring_list_def
      zero_queue_def lent_by_def pipe_drq_def zero_data_ref_q_def tivxFlagIsBitSet_def)

lemma param_host_cycling: "cycling param_host 0x700 0"
proof -
  have "exclusive_param param_host 0x700 0"
    using less_Suc_eq
    by (auto simp: exclusive_param_def param_host_get param_table_def zero_node_def prm_bit_def tivxFlagIsBitSet_def
        typed_def instance_descs_def node_descs_def node_typed_def own_ref_def container_items_def pipe_desc_def
        ownIsValidSpecificReference_def init_desc_def less_Suc_eq nth_Cons')
  moreover have "stages_ok (ho_sys param_host) 0 1 [2]"
    by (simp add: stages_ok_def stage_ok_def param_host_get param_table_def odq_inv_at queue_at_some odq_ok_def
        zero_queue_def odq_elems_def odq_list_def ring_list_def pipe_drq_def zero_data_ref_q_def tivxFlagIsBitSet_def)
  moreover have "marked_ok param_host 0x700 0"
    by (auto simp: marked_ok_def param_host_cycle in_graph_def ref_ids_def param_host_get param_table_def pipe_desc_def
        init_desc_def tivxFlagIsBitSet_def split: if_splits)
  ultimately show ?thesis
    by (simp add: cycling_def param_host_get param_host_cycle in_graph_def)
qed

theorem parameter_references_cycle_witness:
  "\<exists>h'. param_run posix_ok sample_platform False 0x700 0 param_host
      [Enqueue 0x51, Enqueue 0x51, Acquire 0 4, Enqueue 0x52, Release 0 4 False, Dequeue]
      = (h', [Accepted 0x51, Refused 0x51, Silent, Accepted 0x52, Silent, Returned 0x51])
    \<and> marked_ok h' 0x700 0 \<and> distinct (in_graph (param_cycle h' 0x700 0))"
proof -
  let ?ops = "[Enqueue 0x51, Enqueue 0x51, Acquire 0 4, Enqueue 0x52, Release 0 4 False, Dequeue]"
  obtain h' outs where run: "param_run posix_ok sample_platform False 0x700 0 param_host ?ops = (h', outs)" by fastforce
  have "snd (param_run posix_ok sample_platform False 0x700 0 param_host ?ops)
      = [Accepted 0x51, Refused 0x51, Silent, Accepted 0x52, Silent, Returned 0x51]"
    by code_simp
  then have "outs = [Accepted 0x51, Refused 0x51, Silent, Accepted 0x52, Silent, Returned 0x51]" using run by simp
  then show ?thesis using parameter_references_cycle [OF param_host_cycling run] run by simp
qed

end
