(* ===== verification/Data_Ref_Queues.thy ===== *)
theory Data_Ref_Queues
  imports Graph_Parameters
begin

text \<open>
  The life of data reference queues: \<open>source/framework/vx_data_ref_queue.c\<close> creates and deletes them.
  A creation takes descriptors, an event and a reference and either hands out a queue that is ready for
  its nodes or gives everything back; a deletion gives back what the creation took.
\<close>

section \<open>Deletion\<close>

abbreviation (input) drq_t :: "host \<Rightarrow> uintptr \<Rightarrow> tivx_data_ref_queue_t" where
  "drq_t h q \<equiv> ho_data_ref_queues h q"

abbreviation (input) set_tbl :: "tivx_obj_desc_table_info \<Rightarrow> host \<Rightarrow> host" where
  "set_tbl t h \<equiv> h\<lparr>ho_sys := (ho_sys h)\<lparr>sys_tbl := t\<rparr>\<rparr>"

abbreviation (input) tbl :: "host \<Rightarrow> tivx_obj_desc_table_info" where "tbl h \<equiv> sys_tbl (ho_sys h)"

text \<open>\<open>ownObjDescFree\<close> on an element of one of the two arrays.\<close>

definition free_stage :: "uintptr \<Rightarrow> nat \<Rightarrow> host \<Rightarrow> host \<times> vx_status" where
  "free_stage q i h =
     (case ownObjDescFree (tbl h) (dq_obj_desc (drq_t h q) ! i) of
        (t, p, status) \<Rightarrow>
          (upd_data_ref_queue q (\<lambda>d. d\<lparr>dq_obj_desc := (dq_obj_desc d)[i := p]\<rparr>) (set_tbl t h), status))"

definition free_cmd :: "uintptr \<Rightarrow> nat \<Rightarrow> host \<Rightarrow> host \<times> vx_status" where
  "free_cmd q i h =
     (case ownObjDescFree (tbl h) (dq_obj_desc_cmd (drq_t h q) ! i) of
        (t, p, status) \<Rightarrow>
          (upd_data_ref_queue q (\<lambda>d. d\<lparr>dq_obj_desc_cmd := (dq_obj_desc_cmd d)[i := p]\<rparr>) (set_tbl t h), status))"

fun free_stages :: "uintptr \<Rightarrow> host \<Rightarrow> nat list \<Rightarrow> host \<times> vx_status" where
  "free_stages q h [] = (h, VX_SUCCESS)"
| "free_stages q h (i # is) =
     (case (if dq_obj_desc (drq_t h q) ! i \<noteq> None then free_stage q i h else (h, VX_SUCCESS)) of
        (h1, st1) \<Rightarrow>
          (case (if st1 = VX_SUCCESS \<and> dq_obj_desc_cmd (drq_t h1 q) ! i \<noteq> None then free_cmd q i h1 else (h1, st1)) of
             (h2, status) \<Rightarrow> if status \<noteq> VX_SUCCESS then (h2, status) else free_stages q h2 is))"

definition delete_event :: "posix_rc \<Rightarrow> uintptr \<Rightarrow> host \<Rightarrow> host" where
  "delete_event rc q h =
     (case dq_wait_done_ref_available_event (drq_t h q) of
        None \<Rightarrow> h
      | Some e \<Rightarrow> (case tivxEventDelete rc (ho_posix h) (Some e) of
           (po, p, _) \<Rightarrow> upd_data_ref_queue q (\<lambda>d. d\<lparr>dq_wait_done_ref_available_event := p\<rparr>) (h\<lparr>ho_posix := po\<rparr>)))"

definition release_acquire_q :: "uintptr \<Rightarrow> host \<Rightarrow> host \<times> vx_status" where
  "release_acquire_q q h =
     (if dq_acquire_q_obj_desc_id (drq_t h q) \<noteq> TIVX_OBJ_DESC_INVALID
      then (case ownObjDescQueueRelease (tbl h) (dq_acquire_q_obj_desc_id (drq_t h q)) of
              (t, i, status) \<Rightarrow> (upd_data_ref_queue q (\<lambda>d. d\<lparr>dq_acquire_q_obj_desc_id := i\<rparr>) (set_tbl t h), status))
      else (h, VX_SUCCESS))"

definition release_release_q :: "uintptr \<Rightarrow> host \<Rightarrow> host \<times> vx_status" where
  "release_release_q q h =
     (if dq_release_q_obj_desc_id (drq_t h q) \<noteq> TIVX_OBJ_DESC_INVALID
      then (case ownObjDescQueueRelease (tbl h) (dq_release_q_obj_desc_id (drq_t h q)) of
              (t, i, status) \<Rightarrow> (upd_data_ref_queue q (\<lambda>d. d\<lparr>dq_release_q_obj_desc_id := i\<rparr>) (set_tbl t h), status))
      else (h, VX_SUCCESS))"

definition ownDataRefQueueDestruct :: "posix_rc \<Rightarrow> host \<Rightarrow> uintptr \<Rightarrow> host \<times> vx_status" where
  "ownDataRefQueueDestruct rc h ref =
     (if rf_type (ho_refs h ref) = TIVX_TYPE_DATA_REF_Q then
        (let h1 = delete_event rc ref h in
         case free_stages ref h1 [0..<unat (dq_pipeline_depth (drq_t h1 ref))] of
           (h2, st2) \<Rightarrow>
             if st2 = VX_SUCCESS then
               (case release_acquire_q ref h2 of
                  (h3, st3) \<Rightarrow> if st3 = VX_SUCCESS then release_release_q ref h3 else (h3, st3))
             else (h2, st2))
      else (h, VX_SUCCESS))"

text \<open>The addresses of the two functions that a creation puts into the reference, and the functions
  behind the pointers with the destructor at its address.\<close>

record code_addresses =
  fn_ownDataRefQueueDestruct :: uintptr
  fn_ownReleaseReferenceBufferGeneric :: uintptr

definition linked :: "posix_rc \<Rightarrow> code_addresses \<Rightarrow> ref_callbacks \<Rightarrow> ref_callbacks" where
  "linked rc ca cb = cb\<lparr>rcb_destructor := \<lambda>f h ref.
     if f = fn_ownDataRefQueueDestruct ca then ownDataRefQueueDestruct rc h ref else rcb_destructor cb f h ref\<rparr>"

definition ownDataRefQueueRelease ::
  "posix_rc \<Rightarrow> code_addresses \<Rightarrow> ref_callbacks \<Rightarrow> host \<Rightarrow> uintptr \<Rightarrow> host \<times> uintptr \<times> vx_status" where
  "ownDataRefQueueRelease rc ca cb h ref =
     ownReleaseReferenceInt rc (linked rc ca cb) h ref TIVX_TYPE_DATA_REF_Q VX_INTERNAL 0"

section \<open>Creation\<close>

record tivx_data_ref_queue_create_params_t =
  qp_pipeline_depth :: uint32
  qp_num_in_nodes :: uint32
  qp_enable_user_queueing :: bool
  qp_is_enable_send_ref_consumed_event :: bool
  qp_is_enable_send_ref_consumed_graph_event :: bool
  qp_graph_parameter_index :: uint32

abbreviation (input) TIVX_TARGET_HOST :: "uint8 list" where "TIVX_TARGET_HOST \<equiv> [0x48, 0x4F, 0x53, 0x54]"
abbreviation (input) TIVX_GRAPH_MAX_PIPELINE_DEPTH :: nat where "TIVX_GRAPH_MAX_PIPELINE_DEPTH \<equiv> 16"

definition init_queue_fields ::
  "uintptr \<Rightarrow> tivx_data_ref_queue_create_params_t \<Rightarrow> tivx_data_ref_queue_t \<Rightarrow> tivx_data_ref_queue_t" where
  "init_queue_fields graph prms d = d\<lparr>dq_pipeline_depth := qp_pipeline_depth prms,
     dq_ready_q_obj_desc_id := TIVX_OBJ_DESC_INVALID, dq_done_q_obj_desc_id := TIVX_OBJ_DESC_INVALID,
     dq_wait_done_ref_available_event := None,
     dq_obj_desc_cmd := replicate TIVX_GRAPH_MAX_PIPELINE_DEPTH None,
     dq_obj_desc := replicate TIVX_GRAPH_MAX_PIPELINE_DEPTH None,
     dq_acquire_q_obj_desc_id := TIVX_OBJ_DESC_INVALID, dq_release_q_obj_desc_id := TIVX_OBJ_DESC_INVALID,
     dq_is_enable_send_ref_consumed_event := qp_is_enable_send_ref_consumed_event prms,
     dq_is_enable_send_ref_consumed_graph_event := qp_is_enable_send_ref_consumed_graph_event prms,
     dq_enable_user_queueing := qp_enable_user_queueing prms, dq_graph := graph,
     dq_graph_parameter_index := qp_graph_parameter_index prms\<rparr>"

text \<open>The descriptors of one stage. A failure does not end the loop, but no commands are allocated after it.\<close>

definition alloc_queue_stage ::
  "platform_ids \<Rightarrow> uintptr \<Rightarrow> bool \<Rightarrow> host \<times> vx_status \<Rightarrow> nat \<Rightarrow> host \<times> vx_status" where
  "alloc_queue_stage pf q enable_user_queueing hs pipe_id =
     (case hs of (h, st) \<Rightarrow>
       (case ownObjDescAlloc pf (tbl h) TIVX_OBJ_DESC_DATA_REF_Q q of
          (t1, d) \<Rightarrow>
            (let h1 = upd_data_ref_queue q (\<lambda>x. x\<lparr>dq_obj_desc := (dq_obj_desc x)[pipe_id := d]\<rparr>) (set_tbl t1 h);
                 st1 = (if d = None then VX_ERROR_NO_RESOURCES else st)
             in if st1 = VX_SUCCESS \<and> enable_user_queueing then
                  (case ownObjDescAlloc pf (tbl h1) TIVX_OBJ_DESC_CMD 0 of
                     (t2, c) \<Rightarrow>
                       (upd_data_ref_queue q (\<lambda>x. x\<lparr>dq_obj_desc_cmd := (dq_obj_desc_cmd x)[pipe_id := c]\<rparr>) (set_tbl t2 h1),
                        if c = None then VX_ERROR_NO_RESOURCES else st1))
                else (h1, st1))))"

definition create_event :: "posix_rc \<Rightarrow> uintptr \<Rightarrow> host \<Rightarrow> host \<times> vx_status" where
  "create_event rc q h =
     (case tivxEventCreate rc (ho_posix h) of
        (po, e, status) \<Rightarrow>
          (upd_data_ref_queue q (\<lambda>d. d\<lparr>dq_wait_done_ref_available_event := e\<rparr>) (h\<lparr>ho_posix := po\<rparr>), status))"

definition create_acquire_q :: "platform_ids \<Rightarrow> uintptr \<Rightarrow> host \<Rightarrow> host \<times> vx_status" where
  "create_acquire_q pf q h =
     (case ownObjDescQueueCreate pf (tbl h) of
        (t, i, status) \<Rightarrow> (upd_data_ref_queue q (\<lambda>d. d\<lparr>dq_acquire_q_obj_desc_id := i\<rparr>) (set_tbl t h), status))"

definition create_release_q :: "platform_ids \<Rightarrow> uintptr \<Rightarrow> host \<Rightarrow> host \<times> vx_status" where
  "create_release_q pf q h =
     (case ownObjDescQueueCreate pf (tbl h) of
        (t, i, status) \<Rightarrow> (upd_data_ref_queue q (\<lambda>d. d\<lparr>dq_release_q_obj_desc_id := i\<rparr>) (set_tbl t h), status))"

definition and_then :: "host \<times> vx_status \<Rightarrow> (host \<Rightarrow> host \<times> vx_status) \<Rightarrow> host \<times> vx_status" where
  "and_then hs f = (case hs of (h, status) \<Rightarrow> if status = VX_SUCCESS then f h else (h, status))"

text \<open>What is written into the descriptors of a stage.\<close>

definition stage_fields ::
  "tivx_data_ref_queue_t \<Rightarrow> bool \<Rightarrow> uint32 \<Rightarrow> uint16 \<Rightarrow> tivx_obj_desc_data_ref_q \<Rightarrow> tivx_obj_desc_data_ref_q" where
  "stage_fields q user num_in_nodes cmd_id d =
     d\<lparr>drq_flags := (if user then tivxFlagBitSet 0 DATA_REF_Q_FLAG_IS_ENABLE_REF_CONSUMED_EVENT else 0),
       drq_ref_consumed_cmd_obj_desc_id := (if user then cmd_id else TIVX_OBJ_DESC_INVALID),
       drq_acquire_q_obj_desc_id := dq_acquire_q_obj_desc_id q,
       drq_release_q_obj_desc_id := (if user then dq_release_q_obj_desc_id q else dq_acquire_q_obj_desc_id q),
       drq_ref_obj_desc_id := TIVX_OBJ_DESC_INVALID, drq_in_node_done_cnt := 0,
       drq_num_in_nodes := ucast num_in_nodes, drq_next_obj_desc_id_in_delay := TIVX_OBJ_DESC_INVALID,
       drq_delay_slot_index := 0, drq_delay_slots := 0\<rparr>"

definition cmd_fields :: "vx_enum \<Rightarrow> uint16 \<Rightarrow> tivx_obj_desc_cmd \<Rightarrow> tivx_obj_desc_cmd" where
  "cmd_fields host_target_id sid k =
     k\<lparr>cmd_cmd_id := TIVX_CMD_DATA_REF_CONSUMED, cmd_flags := 0, cmd_dst_target_id := host_target_id,
       cmd_src_target_id := TIVX_TARGET_ID_INVALID, cmd_num_obj_desc := 1,
       cmd_obj_desc_id := (cmd_obj_desc_id k)[0 := sid]\<rparr>"

definition fill_stage ::
  "tivx_target_info list \<Rightarrow> uintptr \<Rightarrow> tivx_data_ref_queue_create_params_t \<Rightarrow> host \<Rightarrow> nat \<Rightarrow> host" where
  "fill_stage info q prms h pipe_id =
     (let user = qp_enable_user_queueing prms;
          d = the (dq_obj_desc (drq_t h q) ! pipe_id);
          c = the (dq_obj_desc_cmd (drq_t h q) ! pipe_id);
          s1 = upd_drq d (stage_fields (drq_t h q) user (qp_num_in_nodes prms) (od_obj_desc_id (sys_desc (ho_sys h) c)))
                 (ho_sys h)
      in h\<lparr>ho_sys := (if user
             then upd_cmd c (cmd_fields (ownPlatformGetTargetId info (Some TIVX_TARGET_HOST)) (od_obj_desc_id (sys_desc s1 d))) s1
             else s1)\<rparr>)"

definition fill_queue ::
  "tivx_target_info list \<Rightarrow> uintptr \<Rightarrow> tivx_data_ref_queue_create_params_t \<Rightarrow> host \<Rightarrow> host" where
  "fill_queue info q prms h =
     (let h1 = (if qp_enable_user_queueing prms
                then upd_data_ref_queue q (\<lambda>d. d\<lparr>dq_ready_q_obj_desc_id := dq_acquire_q_obj_desc_id d,
                       dq_done_q_obj_desc_id := dq_release_q_obj_desc_id d\<rparr>) h
                else h)
      in foldl (fill_stage info q prms) h1 [0..<unat (dq_pipeline_depth (drq_t h1 q))])"

text \<open>The resources, in the order of the code.\<close>

definition acquire_resources ::
  "posix_rc \<Rightarrow> platform_ids \<Rightarrow> uintptr \<Rightarrow> bool \<Rightarrow> host \<Rightarrow> host \<times> vx_status" where
  "acquire_resources rc pf q user h =
     and_then (and_then (and_then
       (foldl (alloc_queue_stage pf q user) (h, VX_SUCCESS) [0..<unat (dq_pipeline_depth (drq_t h q))])
       (\<lambda>h. if user then create_event rc q h else (h, VX_SUCCESS)))
       (create_acquire_q pf q))
       (\<lambda>h. if user then create_release_q pf q h else (h, VX_SUCCESS))"

text \<open>The array of stages has 16 elements; the code does not check the depth against it.\<close>

definition tivxDataRefQueueCreate ::
  "posix_rc \<Rightarrow> platform_ids \<Rightarrow> tivx_target_info list \<Rightarrow> code_addresses \<Rightarrow> ref_callbacks \<Rightarrow> host \<Rightarrow> uintptr \<Rightarrow>
   tivx_data_ref_queue_create_params_t \<Rightarrow> host \<times> uintptr" where
  "tivxDataRefQueueCreate rc pf info ca cb h graph prms =
     (if graph = 0 then (h, 0)
      else
       (case ownCreateReference rc h (rf_context (ho_refs h graph)) TIVX_TYPE_DATA_REF_Q VX_INTERNAL graph of
          (h1, ref) \<Rightarrow>
            if vxGetStatus h1 ref = VX_SUCCESS \<and> rf_type (ho_refs h1 ref) = TIVX_TYPE_DATA_REF_Q then
              (let h2 = upd_data_ref_queue ref (init_queue_fields graph prms)
                     (upd_ref ref (\<lambda>r. r\<lparr>rf_destructor_callback := fn_ownDataRefQueueDestruct ca,
                        rf_mem_alloc_callback := 0,
                        rf_release_callback := fn_ownReleaseReferenceBufferGeneric ca\<rparr>) h1)
               in case acquire_resources rc pf ref (qp_enable_user_queueing prms) h2 of
                    (h3, status) \<Rightarrow>
                      if status = VX_SUCCESS then (fill_queue info ref prms h3, ref)
                      else (fst (ownDataRefQueueRelease rc ca cb h3 ref), 0))
            else (h1, 0)))"


section \<open>The book of the descriptors\<close>

text \<open>The descriptors in use, and what taking some or giving some back means: all others stay as they are.\<close>

definition in_use :: "tivx_obj_desc_table_info \<Rightarrow> nat set" where
  "in_use t = {i. i < num_entries t \<and> od_type (desc_at t i) \<noteq> TIVX_OBJ_DESC_INVALID}"

definition taken :: "nat set \<Rightarrow> tivx_obj_desc_table_info \<Rightarrow> tivx_obj_desc_table_info \<Rightarrow> bool" where
  "taken D t t' \<longleftrightarrow> table_wf t' \<and> num_entries t' = num_entries t \<and> D \<inter> in_use t = {}
     \<and> in_use t' = in_use t \<union> D \<and> (\<forall>i \<in> in_use t. desc_at t' i = desc_at t i)"

definition given :: "nat set \<Rightarrow> tivx_obj_desc_table_info \<Rightarrow> tivx_obj_desc_table_info \<Rightarrow> bool" where
  "given D t t' \<longleftrightarrow> table_wf t' \<and> num_entries t' = num_entries t \<and> D \<subseteq> in_use t
     \<and> in_use t' = in_use t - D \<and> (\<forall>i \<in> in_use t'. desc_at t' i = desc_at t i)"

definition full :: "tivx_obj_desc_table_info \<Rightarrow> bool" where
  "full t \<longleftrightarrow> in_use t = {..<num_entries t}"

lemma taken_full: "taken D t t' \<Longrightarrow> full t \<Longrightarrow> full t'"
  unfolding taken_def full_def by (auto simp: in_use_def)

lemma taken_refl: "table_wf t \<Longrightarrow> taken {} t t"
  by (simp add: taken_def)

lemma taken_trans: "taken D t t1 \<Longrightarrow> taken E t1 t2 \<Longrightarrow> taken (D \<union> E) t t2"
  by (auto simp: taken_def)

lemma given_refl: "table_wf t \<Longrightarrow> given {} t t"
  by (simp add: given_def)

lemma given_trans: "given D t t1 \<Longrightarrow> given E t1 t2 \<Longrightarrow> given (D \<union> E) t t2"
  by (auto simp: given_def)

lemma taken_given:
  assumes "taken D t t1" "given D t1 t2"
  shows "taken {} t t2"
proof -
  have "in_use t2 = in_use t" using assms unfolding taken_def given_def by blast
  then show ?thesis using assms by (simp add: taken_def given_def)
qed

lemma taken_in_use: "taken D t t' \<Longrightarrow> i \<in> D \<Longrightarrow> i \<in> in_use t' \<and> i \<notin> in_use t"
  unfolding taken_def by blast

lemma taken_alloc:
  assumes "table_wf t" "ty \<noteq> TIVX_OBJ_DESC_INVALID" "ownObjDescAlloc pf t ty ref = (t', r)"
  shows "(\<exists>i. r = Some i \<and> taken {i} t t' \<and> desc_at t' i = init_desc pf i ty ref) \<or> r = None \<and> t' = t \<and> full t"
proof (cases r)
  case None
  then show ?thesis using alloc_desc [OF assms] by (auto simp: full_def in_use_def)
next
  case (Some i)
  then have a: "table_wf t'" "i < num_entries t" "od_type (desc_at t i) = TIVX_OBJ_DESC_INVALID"
    "odt_table_base t' = (odt_table_base t)[i := init_desc pf i ty ref]"
    using alloc_desc [OF assms] by auto
  have d: "desc_at t' j = (if j = i then init_desc pf i ty ref else desc_at t j)" for j
    using a(2,4) by (cases "j = i") simp_all
  have "od_type (init_desc pf i ty ref) = ty" by (simp add: init_desc_def)
  then have "taken {i} t t'" using a assms(2) by (auto simp: taken_def in_use_def nth_list_update split: if_splits)
  then show ?thesis using Some d by auto
qed

lemma taken_queue:
  assumes "table_wf t" "ownObjDescQueueCreate pf t = (t', q, st)"
  shows "st = VX_SUCCESS \<and> taken {unat q} t t' \<and> odq_inv q t' \<and> odq_elems q t' = [] \<and> odq_blocked q t' = []
      \<and> q \<noteq> TIVX_OBJ_DESC_INVALID
    \<or> st = VX_FAILURE \<and> t' = t \<and> q = TIVX_OBJ_DESC_INVALID \<and> full t"
  using queue_create [OF assms]
proof
  assume a: "st = VX_SUCCESS \<and> table_wf t' \<and> odq_inv q t' \<and> odq_elems q t' = [] \<and> odq_blocked q t' = []
      \<and> od_type (desc_at t (unat q)) = TIVX_OBJ_DESC_INVALID \<and> num_entries t' = num_entries t
      \<and> (\<forall>j < num_entries t. j \<noteq> unat q \<longrightarrow> desc_at t' j = desc_at t j)"
  then have q: "unat q < num_entries t'" "od_type (desc_at t' (unat q)) = TIVX_OBJ_DESC_QUEUE"
    by (auto simp: odq_inv_def queue_at_some)
  have "i \<in> in_use t' \<longleftrightarrow> i \<in> insert (unat q) (in_use t)" for i
    using a q by (cases "i = unat q") (auto simp: in_use_def)
  then have "taken {unat q} t t'"
    using a by (auto simp: taken_def in_use_def)
  moreover have "q \<noteq> TIVX_OBJ_DESC_INVALID" using q(1) a by (auto simp: table_wf_def)
  ultimately show ?thesis using a by blast
qed (auto simp: full_def in_use_def)

lemma given_free:
  assumes "table_wf t" "i \<in> in_use t"
  shows "\<exists>t'. ownObjDescFree t (Some i) = (t', None, VX_SUCCESS) \<and> given {i} t t'"
proof -
  have i: "i < num_entries t" "od_type (desc_at t i) \<noteq> TIVX_OBJ_DESC_INVALID" using assms(2) by (auto simp: in_use_def)
  let ?t = "upd_desc i (\<lambda>d. d\<lparr>od_type := TIVX_OBJ_DESC_INVALID\<rparr>) t"
  have "unat (od_obj_desc_id (desc_at t i)) < num_entries t"
    using unat_index [OF i(1)] assms(1) i by (simp add: table_wf_def)
  then have free: "ownObjDescFree t (Some i) = (?t, None, VX_SUCCESS)" by (simp add: ownObjDescFree_def)
  have "table_wf ?t" using assms(1) i by (intro table_wf_upd) auto
  then have "given {i} t ?t" using i by (auto simp: given_def in_use_def split: if_splits)
  then show ?thesis using free by blast
qed

lemma given_queue:
  assumes "table_wf t" "unat q \<in> in_use t" "od_type (desc_at t (unat q)) = TIVX_OBJ_DESC_QUEUE"
  shows "\<exists>t'. ownObjDescQueueRelease t q = (t', TIVX_OBJ_DESC_INVALID, VX_SUCCESS) \<and> given {unat q} t t'"
proof -
  have "q \<noteq> TIVX_OBJ_DESC_INVALID" using assms(1,2) by (auto simp: table_wf_def in_use_def)
  moreover have "queue_at t q = Some (unat q)" using assms(2,3) by (simp add: queue_at_some in_use_def)
  moreover obtain t' where "ownObjDescFree t (Some (unat q)) = (t', None, VX_SUCCESS)" "given {unat q} t t'"
    using given_free [OF assms(1,2)] by blast
  ultimately show ?thesis by (auto simp: ownObjDescQueueRelease_def)
qed

section \<open>What a queue owns\<close>

definition own_queues :: "tivx_data_ref_queue_t \<Rightarrow> nat list" where
  "own_queues d = map unat (filter (\<lambda>q. q \<noteq> TIVX_OBJ_DESC_INVALID) [dq_acquire_q_obj_desc_id d, dq_release_q_obj_desc_id d])"

definition own_list :: "tivx_data_ref_queue_t \<Rightarrow> nat list" where
  "own_list d = somes (dq_obj_desc d) @ somes (dq_obj_desc_cmd d) @ own_queues d"

definition owns :: "tivx_obj_desc_table_info \<Rightarrow> tivx_data_ref_queue_t \<Rightarrow> bool" where
  "owns t d \<longleftrightarrow> table_wf t \<and> distinct (own_list d) \<and> set (own_list d) \<subseteq> in_use t
     \<and> (\<forall>i \<in> set (own_queues d). od_type (desc_at t i) = TIVX_OBJ_DESC_QUEUE)
     \<and> length (dq_obj_desc d) = TIVX_GRAPH_MAX_PIPELINE_DEPTH \<and> length (dq_obj_desc_cmd d) = TIVX_GRAPH_MAX_PIPELINE_DEPTH"

lemma owns_given:
  assumes "owns t d" "given D t t'" "mset (own_list d) = mset (own_list d') + mset xs" "set xs = D"
    and "set (own_queues d') \<subseteq> set (own_queues d)"
    and "length (dq_obj_desc d') = length (dq_obj_desc d)" "length (dq_obj_desc_cmd d') = length (dq_obj_desc_cmd d)"
  shows "owns t' d'"
proof -
  have m: "mset (own_list d) = mset (own_list d' @ xs)" using assms(3) by simp
  then have "distinct (own_list d' @ xs)" "set (own_list d) = set (own_list d' @ xs)"
    using assms(1) mset_eq_imp_distinct_iff [OF m] mset_eq_setD [OF m] by (simp_all add: owns_def)
  then have d: "distinct (own_list d')" "set (own_list d') \<inter> D = {}" "set (own_list d') \<subseteq> set (own_list d)"
    using assms(4) by auto
  have u: "set (own_list d') \<subseteq> in_use t'" using d assms(1,2) unfolding owns_def given_def by blast
  have "od_type (desc_at t' i) = TIVX_OBJ_DESC_QUEUE" if "i \<in> set (own_queues d')" for i
  proof -
    have "i \<in> in_use t'" using that u by (auto simp: own_list_def)
    then show ?thesis using that assms(1,2,5) unfolding owns_def given_def by auto
  qed
  then show ?thesis using u d(1) assms(1,2,6,7) by (simp add: owns_def given_def)
qed

text \<open>How far a deletion has come.\<close>

abbreviation (input) put_queue :: "uintptr \<Rightarrow> tivx_data_ref_queue_t \<Rightarrow> tivx_obj_desc_table_info \<Rightarrow> host \<Rightarrow> host" where
  "put_queue q d t h \<equiv> upd_data_ref_queue q (\<lambda>_. d) (set_tbl t h)"

lemma put_queue_simps [simp]:
  "drq_t (upd_data_ref_queue q f h) q = f (drq_t h q)" "tbl (upd_data_ref_queue q f h) = tbl h"
  "put_queue q d t (put_queue q d2 t2 h) = put_queue q d t h" "upd_data_ref_queue q (\<lambda>_. drq_t h q) h = h"
  by (simp_all add: upd_data_ref_queue_def)

lemma free_stage_owned:
  assumes "owns (tbl h) (drq_t h q)" "i < TIVX_GRAPH_MAX_PIPELINE_DEPTH" "dq_obj_desc (drq_t h q) ! i = Some x"
  defines "d' \<equiv> (drq_t h q)\<lparr>dq_obj_desc := (dq_obj_desc (drq_t h q))[i := None]\<rparr>"
  shows "\<exists>t. free_stage q i h = (put_queue q d' t h, VX_SUCCESS) \<and> given {x} (tbl h) t \<and> owns t d'"
proof -
  have l: "i < length (dq_obj_desc (drq_t h q))" using assms(1,2) by (simp add: owns_def)
  have x: "x \<in> in_use (tbl h)"
    using assms(1) nth_mem [OF l] assms(3) by (auto simp: owns_def own_list_def set_somes)
  obtain t where t: "ownObjDescFree (tbl h) (Some x) = (t, None, VX_SUCCESS)" "given {x} (tbl h) t"
    using given_free [OF _ x] assms(1) by (auto simp: owns_def)
  have "mset (own_list (drq_t h q)) = mset (own_list d') + mset [x]"
    using somes_take [OF l assms(3)] by (simp add: own_list_def d'_def own_queues_def)
  from owns_given [OF assms(1) t(2) this] have "owns t d'" by (simp add: d'_def own_queues_def)
  then show ?thesis using t assms(3) by - (rule exI [of _ t], simp add: free_stage_def d'_def upd_data_ref_queue_def)
qed

lemma free_cmd_owned:
  assumes "owns (tbl h) (drq_t h q)" "i < TIVX_GRAPH_MAX_PIPELINE_DEPTH" "dq_obj_desc_cmd (drq_t h q) ! i = Some x"
  defines "d' \<equiv> (drq_t h q)\<lparr>dq_obj_desc_cmd := (dq_obj_desc_cmd (drq_t h q))[i := None]\<rparr>"
  shows "\<exists>t. free_cmd q i h = (put_queue q d' t h, VX_SUCCESS) \<and> given {x} (tbl h) t \<and> owns t d'"
proof -
  have l: "i < length (dq_obj_desc_cmd (drq_t h q))" using assms(1,2) by (simp add: owns_def)
  have x: "x \<in> in_use (tbl h)"
    using assms(1) nth_mem [OF l] assms(3) by (auto simp: owns_def own_list_def set_somes)
  obtain t where t: "ownObjDescFree (tbl h) (Some x) = (t, None, VX_SUCCESS)" "given {x} (tbl h) t"
    using given_free [OF _ x] assms(1) by (auto simp: owns_def)
  have "mset (own_list (drq_t h q)) = mset (own_list d') + mset [x]"
    using somes_take [OF l assms(3)] by (simp add: own_list_def d'_def own_queues_def)
  from owns_given [OF assms(1) t(2) this] have "owns t d'" by (simp add: d'_def own_queues_def)
  then show ?thesis using t assms(3) by - (rule exI [of _ t], simp add: free_cmd_def d'_def upd_data_ref_queue_def)
qed


lemma free_stages_owned:
  assumes "owns (tbl h) (drq_t h q)" "set is \<subseteq> {..<TIVX_GRAPH_MAX_PIPELINE_DEPTH}"
    and "\<forall>i < TIVX_GRAPH_MAX_PIPELINE_DEPTH. i \<notin> set is \<longrightarrow>
      dq_obj_desc (drq_t h q) ! i = None \<and> dq_obj_desc_cmd (drq_t h q) ! i = None"
  shows "\<exists>t d. free_stages q h is = (put_queue q d t h, VX_SUCCESS) \<and> owns t d \<and> own_list d = own_queues (drq_t h q)
    \<and> own_queues d = own_queues (drq_t h q) \<and> dq_acquire_q_obj_desc_id d = dq_acquire_q_obj_desc_id (drq_t h q)
    \<and> dq_release_q_obj_desc_id d = dq_release_q_obj_desc_id (drq_t h q)
    \<and> given (set (somes (dq_obj_desc (drq_t h q))) \<union> set (somes (dq_obj_desc_cmd (drq_t h q)))) (tbl h) t"
  using assms
proof (induction "is" arbitrary: h)
  case Nil
  then have "dq_obj_desc (drq_t h q) = replicate 16 None" "dq_obj_desc_cmd (drq_t h q) = replicate 16 None"
    by (auto simp: owns_def list_eq_iff_nth_eq)
  then show ?case using Nil.prems(1)
    by - (rule exI [of _ "tbl h"], rule exI [of _ "drq_t h q"], simp add: own_list_def owns_def given_refl)
next
  case (Cons i "is")
  have i: "i < TIVX_GRAPH_MAX_PIPELINE_DEPTH" using Cons.prems(2) by simp
  let ?d = "drq_t h q"
  let ?d1 = "?d\<lparr>dq_obj_desc := (dq_obj_desc ?d)[i := None]\<rparr>"
  let ?d2 = "?d1\<lparr>dq_obj_desc_cmd := (dq_obj_desc_cmd ?d1)[i := None]\<rparr>"
  have l: "length (dq_obj_desc ?d) = 16" "length (dq_obj_desc_cmd ?d) = 16" using Cons.prems(1) by (simp_all add: owns_def)
  obtain t1 where s1: "(if dq_obj_desc ?d ! i \<noteq> None then free_stage q i h else (h, VX_SUCCESS)) = (put_queue q ?d1 t1 h, VX_SUCCESS)"
    "owns t1 ?d1" "given (set_option (dq_obj_desc ?d ! i)) (tbl h) t1"
  proof (cases "dq_obj_desc ?d ! i")
    case None
    then have "(dq_obj_desc ?d)[i := None] = dq_obj_desc ?d" by (metis list_update_id)
    then have "?d1 = ?d" by simp
    then show ?thesis using None Cons.prems(1) that [of "tbl h"] by (simp add: owns_def given_refl)
  next
    case (Some x)
    then show ?thesis using free_stage_owned [OF Cons.prems(1) i Some] that by auto
  qed
  let ?h1 = "put_queue q ?d1 t1 h"
  have d1: "drq_t ?h1 q = ?d1" "tbl ?h1 = t1" by simp_all
  obtain t2 where s2: "(if dq_obj_desc_cmd ?d1 ! i \<noteq> None then free_cmd q i ?h1 else (?h1, VX_SUCCESS)) = (put_queue q ?d2 t2 h, VX_SUCCESS)"
    "owns t2 ?d2" "given (set_option (dq_obj_desc_cmd ?d ! i)) t1 t2"
  proof (cases "dq_obj_desc_cmd ?d ! i")
    case None
    then have "(dq_obj_desc_cmd ?d)[i := None] = dq_obj_desc_cmd ?d" by (metis list_update_id)
    then have "?d2 = ?d1" by simp
    then show ?thesis using None s1 that [of t1] by (simp add: owns_def given_refl)
  next
    case (Some x)
    then have x: "dq_obj_desc_cmd (drq_t ?h1 q) ! i = Some x" by simp
    have "owns (tbl ?h1) (drq_t ?h1 q)" using s1(2) by simp
    from free_cmd_owned [OF this i x] show ?thesis using that Some unfolding d1 by auto
  qed
  let ?h2 = "put_queue q ?d2 t2 h"
  have eq: "free_stages q h (i # is) = free_stages q ?h2 is"
    using s1(1) s2(1) by (simp add: d1)
  have o2: "owns (tbl ?h2) (drq_t ?h2 q)" using s2(2) by simp
  have n2: "\<forall>j < TIVX_GRAPH_MAX_PIPELINE_DEPTH. j \<notin> set is \<longrightarrow>
      dq_obj_desc (drq_t ?h2 q) ! j = None \<and> dq_obj_desc_cmd (drq_t ?h2 q) ! j = None"
  proof (intro allI impI)
    fix j assume "j < TIVX_GRAPH_MAX_PIPELINE_DEPTH" "j \<notin> set is"
    then show "dq_obj_desc (drq_t ?h2 q) ! j = None \<and> dq_obj_desc_cmd (drq_t ?h2 q) ! j = None"
      using Cons.prems(3) l by (cases "j = i") simp_all
  qed
  obtain t d where IH: "free_stages q ?h2 is = (put_queue q d t ?h2, VX_SUCCESS)" "owns t d" "own_list d = own_queues (drq_t ?h2 q)"
    "own_queues d = own_queues (drq_t ?h2 q)" "dq_acquire_q_obj_desc_id d = dq_acquire_q_obj_desc_id (drq_t ?h2 q)"
    "dq_release_q_obj_desc_id d = dq_release_q_obj_desc_id (drq_t ?h2 q)"
    "given (set (somes (dq_obj_desc (drq_t ?h2 q))) \<union> set (somes (dq_obj_desc_cmd (drq_t ?h2 q)))) (tbl ?h2) t"
    using Cons.IH [OF o2 _ n2] Cons.prems(2) by auto
  have q: "own_queues ?d2 = own_queues ?d" by (simp add: own_queues_def)
  have st: "set_option (l ! i) \<union> set (somes (l[i := None])) = set (somes l)" if "i < length l" for l :: "nat option list"
  proof (cases "l ! i")
    case None
    then show ?thesis using that by (metis list_update_id set_empty2 sup_bot.left_neutral option.set(1))
  next
    case (Some x)
    then show ?thesis using mset_eq_setD [of "somes l" "x # somes (l[i := None])"] somes_take [OF that Some] by simp
  qed
  have "given ((set_option (dq_obj_desc ?d ! i) \<union> set_option (dq_obj_desc_cmd ?d ! i))
      \<union> (set (somes ((dq_obj_desc ?d)[i := None])) \<union> set (somes ((dq_obj_desc_cmd ?d)[i := None])))) (tbl h) t"
    using given_trans [OF given_trans [OF s1(3) s2(3)]] IH(7) by simp
  moreover have "(set_option (dq_obj_desc ?d ! i) \<union> set_option (dq_obj_desc_cmd ?d ! i))
      \<union> (set (somes ((dq_obj_desc ?d)[i := None])) \<union> set (somes ((dq_obj_desc_cmd ?d)[i := None])))
      = set (somes (dq_obj_desc ?d)) \<union> set (somes (dq_obj_desc_cmd ?d))"
    using st [of "dq_obj_desc ?d"] st [of "dq_obj_desc_cmd ?d"] l i by auto
  ultimately show ?case using IH(1-6) eq q by - (rule exI [of _ t], rule exI [of _ d], simp)
qed

lemma release_acquire_owned:
  assumes "owns (tbl h) (drq_t h q)" "own_list (drq_t h q) = own_queues (drq_t h q)"
  shows "\<exists>t d. release_acquire_q q h = (put_queue q d t h, VX_SUCCESS) \<and> owns t d \<and> own_list d = own_queues d
    \<and> dq_acquire_q_obj_desc_id d = TIVX_OBJ_DESC_INVALID
    \<and> dq_release_q_obj_desc_id d = dq_release_q_obj_desc_id (drq_t h q)
    \<and> given (set (own_queues (drq_t h q)) - set (own_queues d)) (tbl h) t"
proof (cases "dq_acquire_q_obj_desc_id (drq_t h q) = TIVX_OBJ_DESC_INVALID")
  case True
  then show ?thesis using assms
    by - (rule exI [of _ "tbl h"], rule exI [of _ "drq_t h q"], simp add: release_acquire_q_def owns_def given_refl)
next
  case False
  let ?d = "drq_t h q"
  let ?a = "dq_acquire_q_obj_desc_id ?d" and ?d' = "?d\<lparr>dq_acquire_q_obj_desc_id := TIVX_OBJ_DESC_INVALID\<rparr>"
  have m: "own_queues ?d = unat ?a # own_queues ?d'" "own_list ?d' = own_queues ?d'"
    using False assms(2) by (simp_all add: own_queues_def own_list_def)
  obtain t where t: "ownObjDescQueueRelease (tbl h) ?a = (t, TIVX_OBJ_DESC_INVALID, VX_SUCCESS)" "given {unat ?a} (tbl h) t"
    using given_queue [of "tbl h" ?a] assms m(1) by (auto simp: owns_def)
  have o: "owns t ?d'" by (rule owns_given [OF assms(1) t(2), where xs = "[unat ?a]"]) (auto simp: assms(2) m)
  have "unat ?a \<notin> set (own_queues ?d')" using assms m(1) by (simp add: owns_def)
  then have "set (own_queues ?d) - set (own_queues ?d') = {unat ?a}" using m(1) by auto
  then show ?thesis using t o m(2) False
    by - (rule exI [of _ t], rule exI [of _ ?d'], simp add: release_acquire_q_def upd_data_ref_queue_def)
qed

lemma release_release_owned:
  assumes "owns (tbl h) (drq_t h q)" "own_list (drq_t h q) = own_queues (drq_t h q)"
    and "dq_acquire_q_obj_desc_id (drq_t h q) = TIVX_OBJ_DESC_INVALID"
  shows "\<exists>t d. release_release_q q h = (put_queue q d t h, VX_SUCCESS) \<and> given (set (own_queues (drq_t h q))) (tbl h) t"
proof (cases "dq_release_q_obj_desc_id (drq_t h q) = TIVX_OBJ_DESC_INVALID")
  case True
  then have "own_queues (drq_t h q) = []" using assms(3) by (simp add: own_queues_def)
  then show ?thesis using True assms
    by - (rule exI [of _ "tbl h"], rule exI [of _ "drq_t h q"], simp add: release_release_q_def owns_def given_refl)
next
  case False
  let ?a = "dq_release_q_obj_desc_id (drq_t h q)"
  have m: "own_queues (drq_t h q) = [unat ?a]" using False assms(3) by (simp add: own_queues_def)
  obtain t where t: "ownObjDescQueueRelease (tbl h) ?a = (t, TIVX_OBJ_DESC_INVALID, VX_SUCCESS)" "given {unat ?a} (tbl h) t"
    using given_queue [of "tbl h" ?a] assms m by (auto simp: owns_def)
  then show ?thesis using False m
    by - (rule exI [of _ t], rule exI, auto simp: release_release_q_def upd_data_ref_queue_def)
qed

text \<open>A deletion gives back what the queue owns.\<close>

definition event_freed :: "posix_rc \<Rightarrow> tivx_data_ref_queue_t \<Rightarrow> posix_objects \<Rightarrow> posix_objects" where
  "event_freed rc d po = (case dq_wait_done_ref_available_event d of None \<Rightarrow> po | Some e \<Rightarrow> fst (tivxEventDelete rc po (Some e)))"

definition empty_from :: "nat \<Rightarrow> tivx_data_ref_queue_t \<Rightarrow> bool" where
  "empty_from n d \<longleftrightarrow> (\<forall>i < TIVX_GRAPH_MAX_PIPELINE_DEPTH. n \<le> i \<longrightarrow> dq_obj_desc d ! i = None \<and> dq_obj_desc_cmd d ! i = None)"

lemma destruct_owned:
  assumes "rf_type (ho_refs h q) = TIVX_TYPE_DATA_REF_Q" "owns (tbl h) (drq_t h q)"
    and "unat (dq_pipeline_depth (drq_t h q)) \<le> TIVX_GRAPH_MAX_PIPELINE_DEPTH" "empty_from (unat (dq_pipeline_depth (drq_t h q))) (drq_t h q)"
  shows "\<exists>t d. ownDataRefQueueDestruct rc h q
      = ((put_queue q d t h)\<lparr>ho_posix := event_freed rc (drq_t h q) (ho_posix h)\<rparr>, VX_SUCCESS)
    \<and> given (set (own_list (drq_t h q))) (tbl h) t"
proof -
  let ?d = "drq_t h q" and ?po = "event_freed rc (drq_t h q) (ho_posix h)"
  let ?d1 = "?d\<lparr>dq_wait_done_ref_available_event := None\<rparr>"
  define h1 where "h1 = (put_queue q ?d1 (tbl h) h)\<lparr>ho_posix := ?po\<rparr>"
  have e: "delete_event rc q h = h1"
  proof (cases "dq_wait_done_ref_available_event ?d")
    case None
    then have "?d1 = ?d" by simp
    then show ?thesis using None by (simp only: delete_event_def h1_def event_freed_def) simp
  next
    case (Some e)
    then show ?thesis by (simp add: delete_event_def h1_def event_freed_def tivxEventDelete_def upd_data_ref_queue_def)
  qed
  have d1: "drq_t h1 q = ?d1" "tbl h1 = tbl h" by (simp_all add: h1_def upd_data_ref_queue_def)
  have l1: "own_list ?d1 = own_list ?d" "own_queues ?d1 = own_queues ?d" by (simp_all add: own_list_def own_queues_def)
  have o1: "owns (tbl h1) (drq_t h1 q)" using assms(2) l1 by (simp add: owns_def d1)
  let ?n = "unat (dq_pipeline_depth ?d)"
  have "set [0..<?n] \<subseteq> {..<TIVX_GRAPH_MAX_PIPELINE_DEPTH}" using assms(3) by auto
  from free_stages_owned [OF o1 this] assms(4)
  obtain t2 d2 where s2: "free_stages q h1 [0..<?n] = (put_queue q d2 t2 h1, VX_SUCCESS)" "owns t2 d2"
    "own_list d2 = own_queues d2" "own_queues d2 = own_queues ?d"
    "given (set (somes (dq_obj_desc ?d)) \<union> set (somes (dq_obj_desc_cmd ?d))) (tbl h) t2"
    by (auto simp: d1 l1 empty_from_def)
  let ?h2 = "put_queue q d2 t2 h1"
  have o2: "owns (tbl ?h2) (drq_t ?h2 q)" "own_list (drq_t ?h2 q) = own_queues (drq_t ?h2 q)" using s2 by simp_all
  obtain t3 d3 where s3: "release_acquire_q q ?h2 = (put_queue q d3 t3 ?h2, VX_SUCCESS)" "owns t3 d3" "own_list d3 = own_queues d3"
    "dq_acquire_q_obj_desc_id d3 = TIVX_OBJ_DESC_INVALID" "dq_release_q_obj_desc_id d3 = dq_release_q_obj_desc_id d2"
    "given (set (own_queues d2) - set (own_queues d3)) t2 t3"
    using release_acquire_owned [OF o2] by auto
  let ?h3 = "put_queue q d3 t3 ?h2"
  have o3: "owns (tbl ?h3) (drq_t ?h3 q)" "own_list (drq_t ?h3 q) = own_queues (drq_t ?h3 q)"
    "dq_acquire_q_obj_desc_id (drq_t ?h3 q) = TIVX_OBJ_DESC_INVALID" using s3 by simp_all
  obtain t4 d4 where s4: "release_release_q q ?h3 = (put_queue q d4 t4 ?h3, VX_SUCCESS)" "given (set (own_queues d3)) t3 t4"
    using release_release_owned [OF o3] by auto
  have "set (own_queues d3) \<subseteq> set (own_queues d2)" using s3(4,5) by (auto simp: own_queues_def)
  then have "set (somes (dq_obj_desc ?d)) \<union> set (somes (dq_obj_desc_cmd ?d)) \<union> (set (own_queues d2) - set (own_queues d3))
      \<union> set (own_queues d3) = set (own_list ?d)" using s2(4) by (auto simp: own_list_def)
  then have "given (set (own_list ?d)) (tbl h) t4"
    using given_trans [OF given_trans [OF s2(5) s3(6)] s4(2)] by (simp only:)
  moreover have "ownDataRefQueueDestruct rc h q = (put_queue q d4 t4 ?h3, VX_SUCCESS)"
    using assms(1) e s2(1) s3(1) s4(1) by (simp add: ownDataRefQueueDestruct_def Let_def d1)
  moreover have "put_queue q d4 t4 ?h3 = (put_queue q d4 t4 h)\<lparr>ho_posix := ?po\<rparr>"
    by (simp add: h1_def upd_data_ref_queue_def)
  ultimately show ?thesis by auto
qed


section \<open>What a creation has acquired\<close>

lemma owns_taken:
  assumes "owns t d" "taken {x} t t'" "mset (own_list d') = add_mset x (mset (own_list d))"
    and "\<forall>i \<in> set (own_queues d'). i \<in> set (own_queues d) \<or> od_type (desc_at t' i) = TIVX_OBJ_DESC_QUEUE"
    and "length (dq_obj_desc d') = length (dq_obj_desc d)" "length (dq_obj_desc_cmd d') = length (dq_obj_desc_cmd d)"
  shows "owns t' d'" "set (own_list d') = insert x (set (own_list d))"
proof -
  have m: "mset (own_list d') = mset (x # own_list d)" using assms(3) by simp
  then show s: "set (own_list d') = insert x (set (own_list d))" using mset_eq_setD [OF m] by simp
  have "x \<notin> set (own_list d)" using assms(1,2) by (auto simp: owns_def taken_def)
  then have d: "distinct (own_list d')" using assms(1) mset_eq_imp_distinct_iff [OF m] by (simp add: owns_def)
  have "set (own_list d) \<subseteq> in_use t" "in_use t' = in_use t \<union> {x}" using assms(1,2) by (auto simp: owns_def taken_def)
  then have u: "set (own_list d') \<subseteq> in_use t'" using s by auto
  have "od_type (desc_at t' i) = TIVX_OBJ_DESC_QUEUE" if i: "i \<in> set (own_queues d')" for i
  proof (cases "i \<in> set (own_queues d)")
    case True
    then have "i \<in> in_use t" using assms(1) by (auto simp: owns_def own_list_def)
    then show ?thesis using True assms(1,2) by (simp add: owns_def taken_def)
  qed (use i assms(4) in auto)
  then show "owns t' d'" using d u assms(1,2,5,6) by (simp add: owns_def taken_def)
qed

definition built ::
  "posix_rc \<Rightarrow> tivx_obj_desc_table_info \<Rightarrow> posix_objects \<Rightarrow> nat \<Rightarrow>
   tivx_data_ref_queue_t \<Rightarrow> tivx_obj_desc_table_info \<Rightarrow> posix_objects \<Rightarrow> bool" where
  "built rc t0 po0 n d t po \<longleftrightarrow> owns t d \<and> taken (set (own_list d)) t0 t \<and> event_freed rc d po = po0 \<and> empty_from n d"

definition staged :: "platform_ids \<Rightarrow> uintptr \<Rightarrow> bool \<Rightarrow> nat \<Rightarrow> tivx_data_ref_queue_t \<Rightarrow> tivx_obj_desc_table_info \<Rightarrow> bool" where
  "staged pf q user n d t \<longleftrightarrow> (\<forall>i < n.
     (\<exists>x. dq_obj_desc d ! i = Some x \<and> desc_at t x = init_desc pf x TIVX_OBJ_DESC_DATA_REF_Q q)
   \<and> (if user then \<exists>c. dq_obj_desc_cmd d ! i = Some c \<and> desc_at t c = init_desc pf c TIVX_OBJ_DESC_CMD 0
      else dq_obj_desc_cmd d ! i = None))"

text \<open>The host with the queue \<open>q\<close>, the table of descriptors and the pools of the operating system replaced.\<close>

definition at_queue ::
  "uintptr \<Rightarrow> tivx_data_ref_queue_t \<Rightarrow> tivx_obj_desc_table_info \<Rightarrow> posix_objects \<Rightarrow> host \<Rightarrow> host" where
  "at_queue q d t po h = (put_queue q d t h)\<lparr>ho_posix := po\<rparr>"

lemma at_queue_simps [simp]:
  "drq_t (at_queue q d t po h) q = d" "ho_sys (at_queue q d t po h) = (ho_sys h)\<lparr>sys_tbl := t\<rparr>"
  "ho_posix (at_queue q d t po h) = po" "same_refs h (at_queue q d t po h)"
  "upd_data_ref_queue q f (at_queue q d t po h) = at_queue q (f d) t po h"
  "(at_queue q d t po h)\<lparr>ho_sys := (ho_sys h)\<lparr>sys_tbl := t'\<rparr>\<rparr> = at_queue q d t' po h"
  "(at_queue q d t po h)\<lparr>ho_posix := po'\<rparr> = at_queue q d t po' h"
  by (simp_all add: at_queue_def upd_data_ref_queue_def same_refs_def)

lemma built_put:
  assumes "built rc t0 po0 n d t po" "taken {x} t t'" "mset (own_list d') = add_mset x (mset (own_list d))"
    and "\<forall>i \<in> set (own_queues d'). i \<in> set (own_queues d) \<or> od_type (desc_at t' i) = TIVX_OBJ_DESC_QUEUE"
    and "length (dq_obj_desc d') = length (dq_obj_desc d)" "length (dq_obj_desc_cmd d') = length (dq_obj_desc_cmd d)"
    and "dq_wait_done_ref_available_event d' = dq_wait_done_ref_available_event d" "empty_from m d'"
  shows "built rc t0 po0 m d' t' po"
proof -
  have o: "owns t d" "taken (set (own_list d)) t0 t" "event_freed rc d po = po0" using assms(1) by (simp_all add: built_def)
  note p = owns_taken [OF o(1) assms(2-6)]
  have "taken (set (own_list d')) t0 t'" using taken_trans [OF o(2) assms(2)] by (simp add: p(2))
  then show ?thesis using p(1) o(3) assms(7,8) by (simp add: built_def event_freed_def)
qed

text \<open>Whatever is allocated, what a stage had before stays.\<close>

lemma staged_taken:
  assumes "staged pf q user n d t" "owns t d" "taken D t t'" "n \<le> TIVX_GRAPH_MAX_PIPELINE_DEPTH"
    and "\<forall>i < n. dq_obj_desc d' ! i = dq_obj_desc d ! i \<and> dq_obj_desc_cmd d' ! i = dq_obj_desc_cmd d ! i"
  shows "staged pf q user n d' t'"
proof -
  have l: "length (dq_obj_desc d) = 16" "length (dq_obj_desc_cmd d) = 16" and s: "set (own_list d) \<subseteq> in_use t"
    using assms(2) by (simp_all add: owns_def)
  have "desc_at t' x = desc_at t x" if "i < n" "dq_obj_desc d ! i = Some x \<or> dq_obj_desc_cmd d ! i = Some x" for i x
  proof -
    have i: "i < length (dq_obj_desc d)" "i < length (dq_obj_desc_cmd d)" using that(1) assms(4) l by simp_all
    have "Some x \<in> set (dq_obj_desc d) \<or> Some x \<in> set (dq_obj_desc_cmd d)"
      using that(2) nth_mem [OF i(1)] nth_mem [OF i(2)] by auto
    then have "x \<in> in_use t" using s by (auto simp: own_list_def set_somes)
    then show ?thesis using assms(3) by (simp add: taken_def)
  qed
  then show ?thesis using assms(1,5) unfolding staged_def by (auto split: if_splits)
qed

lemma alloc_stage_built:
  assumes "built rc t0 po0 i d t po" "i < TIVX_GRAPH_MAX_PIPELINE_DEPTH"
    and "alloc_queue_stage pf q user (at_queue q d t po h, st) i = (h', st')"
  shows "\<exists>X Y t'. h' = at_queue q (d\<lparr>dq_obj_desc := X, dq_obj_desc_cmd := Y\<rparr>) t' po h
    \<and> built rc t0 po0 (Suc i) (d\<lparr>dq_obj_desc := X, dq_obj_desc_cmd := Y\<rparr>) t' po
    \<and> (st' = VX_SUCCESS \<longrightarrow> st = VX_SUCCESS \<and>
        (staged pf q user i d t \<longrightarrow> staged pf q user (Suc i) (d\<lparr>dq_obj_desc := X, dq_obj_desc_cmd := Y\<rparr>) t'))
    \<and> (st' \<noteq> VX_SUCCESS \<longrightarrow> st \<noteq> VX_SUCCESS \<or> full t' \<and> (X ! i = None \<or> user \<and> Y ! i = None))
    \<and> (full t \<longrightarrow> full t') \<and> (\<forall>j. j \<noteq> i \<longrightarrow> X ! j = dq_obj_desc d ! j \<and> Y ! j = dq_obj_desc_cmd d ! j)"
proof -
  have o: "owns t d" "empty_from i d" using assms(1) by (simp_all add: built_def)
  then have l: "length (dq_obj_desc d) = 16" "length (dq_obj_desc_cmd d) = 16" and wf: "table_wf t" by (simp_all add: owns_def)
  have n: "dq_obj_desc d ! i = None" "dq_obj_desc_cmd d ! i = None" using o(2) assms(2) by (auto simp: empty_from_def)
  obtain t1 r where a1: "ownObjDescAlloc pf t TIVX_OBJ_DESC_DATA_REF_Q q = (t1, r)" by fastforce
  let ?d1 = "d\<lparr>dq_obj_desc := (dq_obj_desc d)[i := r], dq_obj_desc_cmd := dq_obj_desc_cmd d\<rparr>"
  have e: "empty_from (Suc i) (d\<lparr>dq_obj_desc := (dq_obj_desc d)[i := x], dq_obj_desc_cmd := (dq_obj_desc_cmd d)[i := y]\<rparr>)" for x y
    using o(2) by (simp add: empty_from_def)
  have d1: "(dq_obj_desc_cmd d)[i := None] = dq_obj_desc_cmd d" using n(2) by (metis list_update_id)
  show ?thesis
  proof (cases r)
    case None
    have "(dq_obj_desc d)[i := None] = dq_obj_desc d" using n(1) by (metis list_update_id)
    then have "t1 = t" "?d1 = d" "full t" using taken_alloc [OF wf _ a1] None by simp_all
    then have "h' = at_queue q ?d1 t po h" "st' = VX_ERROR_NO_RESOURCES"
      using assms(3) a1 None by (simp_all add: alloc_queue_stage_def)
    moreover have "built rc t0 po0 (Suc i) d t po" using assms(1) by (auto simp: built_def empty_from_def)
    ultimately show ?thesis using \<open>?d1 = d\<close> \<open>full t\<close>
      by - (rule exI [of _ "(dq_obj_desc d)[i := r]"], rule exI [of _ "dq_obj_desc_cmd d"], rule exI [of _ t], simp only:, simp add: None n(1) l assms(2))
  next
    case (Some x)
    then have a: "taken {x} t t1" "desc_at t1 x = init_desc pf x TIVX_OBJ_DESC_DATA_REF_Q q"
      using taken_alloc [OF wf _ a1] by auto
    have m1: "mset (own_list ?d1) = add_mset x (mset (own_list d))"
      using somes_put [of i "dq_obj_desc d" x] n(1) l assms(2) Some by (simp add: own_list_def own_queues_def)
    have b1: "built rc t0 po0 (Suc i) ?d1 t1 po"
      by (rule built_put [OF assms(1) a(1) m1]) (use e [where x = r and y = None] d1 in \<open>simp_all add: own_queues_def\<close>)
    have s1: "staged pf q user i ?d1 t1" if "staged pf q user i d t"
      by (rule staged_taken [OF that o(1) a(1)]) (use assms(2) in auto)
    show ?thesis
    proof (cases "st = VX_SUCCESS \<and> user")
      case False
      then have "h' = at_queue q ?d1 t1 po h" "st' = st"
        using assms(3) a1 Some by (auto simp: alloc_queue_stage_def)
      moreover have "staged pf q user (Suc i) ?d1 t1" if "staged pf q user i d t" "st = VX_SUCCESS"
        using s1 [OF that(1)] that(2) False a(2) Some l n(2) assms(2) by (simp add: staged_def less_Suc_eq all_conj_distrib)
      ultimately show ?thesis using b1
        by - (rule exI [of _ "(dq_obj_desc d)[i := r]"], rule exI [of _ "dq_obj_desc_cmd d"], rule exI [of _ t1], simp only:, simp add: taken_full [OF a(1)])
    next
      case True
      obtain t2 r2 where a2: "ownObjDescAlloc pf t1 TIVX_OBJ_DESC_CMD 0 = (t2, r2)" by fastforce
      let ?d2 = "d\<lparr>dq_obj_desc := (dq_obj_desc d)[i := r], dq_obj_desc_cmd := (dq_obj_desc_cmd d)[i := r2]\<rparr>"
      have res: "h' = at_queue q ?d2 t2 po h" "st' = (if r2 = None then VX_ERROR_NO_RESOURCES else st)"
        using assms(3) a1 a2 Some True by (auto simp: alloc_queue_stage_def)
      have wf1: "table_wf t1" using a(1) by (simp add: taken_def)
      show ?thesis
      proof (cases r2)
        case None
        then have "t2 = t1" "full t1" using taken_alloc [OF wf1 _ a2] by auto
        then show ?thesis using res b1 None d1 n(2) True by - (rule exI [of _ "(dq_obj_desc d)[i := r]"], rule exI [of _ "dq_obj_desc_cmd d"], rule exI [of _ t1], simp)
      next
        case (Some c)
        then have a3: "taken {c} t1 t2" "desc_at t2 c = init_desc pf c TIVX_OBJ_DESC_CMD 0"
          using taken_alloc [OF wf1 _ a2] by auto
        have m2: "mset (own_list ?d2) = add_mset c (mset (own_list ?d1))"
          using somes_put [of i "dq_obj_desc_cmd d" c] n(2) l assms(2) Some by (simp add: own_list_def own_queues_def)
        have b2: "built rc t0 po0 (Suc i) ?d2 t2 po"
          by (rule built_put [OF b1 a3(1) m2]) (use e in \<open>simp_all add: own_queues_def\<close>)
        have o1: "owns t1 ?d1" using b1 by (simp add: built_def)
        have x: "x \<in> in_use t1" using a(1) by (auto simp: taken_def)
        have "staged pf q user (Suc i) ?d2 t2" if "staged pf q user i d t"
        proof -
          have "staged pf q user i ?d2 t2"
            by (rule staged_taken [OF s1 [OF that] o1 a3(1)]) (use assms(2) in auto)
          moreover have "desc_at t2 x = desc_at t1 x" using a3(1) x by (simp add: taken_def)
          ultimately show ?thesis using a(2) a3(2) True \<open>r = Some x\<close> Some l assms(2)
            by (simp add: staged_def less_Suc_eq all_conj_distrib)
        qed
        then show ?thesis using res b2 True Some
          by - (rule exI [of _ "(dq_obj_desc d)[i := r]"], rule exI [of _ "(dq_obj_desc_cmd d)[i := r2]"], rule exI [of _ t2], simp add: taken_full [OF a3(1) taken_full [OF a(1)]])
      qed
    qed
  qed
qed


lemma event_create_delete:
  assumes "rc_mutex_lock rc = 0" "tivxEventCreate rc po = (po', e, st)"
  shows "st = VX_SUCCESS \<and> e \<noteq> None \<and> fst (tivxEventDelete rc po' e) = po \<or> st \<noteq> VX_SUCCESS \<and> e = None \<and> po' = po"
proof (cases "objects_lock po")
  case None
  then have "ownPosixObjectAlloc rc po TYPE_EVENT = (po, None)" by (simp add: ownPosixObjectAlloc_def)
  then show ?thesis using assms(2) by (simp add: tivxEventCreate_def)
next
  case (Some m)
  obtain u r where a: "ownAllocPosixObject (isEventUse po) = (u, r)" by fastforce
  then have al: "ownPosixObjectAlloc rc po TYPE_EVENT = (po\<lparr>isEventUse := u\<rparr>, r)"
    using Some assms(1) by (simp add: ownPosixObjectAlloc_def)
  show ?thesis
  proof (cases r)
    case None
    then have "u = isEventUse po" using a by (cases "isEventUse po" rule: alloc_cases) simp_all
    then show ?thesis using assms(2) al None by (simp add: tivxEventCreate_def)
  next
    case r: (Some i)
    have fr: "fst (ownPosixObjectFree rc (po\<lparr>isEventUse := u\<rparr>) (Some i) TYPE_EVENT) = po"
      using alloc_free_pool [of "isEventUse po" u i] a r Some assms(1) by (simp add: ownPosixObjectFree_def)
    show ?thesis using assms(2) fr unfolding tivxEventCreate_def al r
      by (auto simp: Let_def tivxEventDelete_def split: if_splits)
  qed
qed

lemma create_event_built:
  assumes "built rc t0 po0 n d t po" "rc_mutex_lock rc = 0" "dq_wait_done_ref_available_event d = None"
    and "create_event rc q (at_queue q d t po h) = (h', st)"
  shows "\<exists>e po'. h' = at_queue q (d\<lparr>dq_wait_done_ref_available_event := e\<rparr>) t po' h
    \<and> built rc t0 po0 n (d\<lparr>dq_wait_done_ref_available_event := e\<rparr>) t po' \<and> (st = VX_SUCCESS \<longrightarrow> e \<noteq> None)
    \<and> (st \<noteq> VX_SUCCESS \<longrightarrow> snd (snd (tivxEventCreate rc po0)) \<noteq> VX_SUCCESS)"
proof -
  obtain po' e where c: "tivxEventCreate rc po = (po', e, st)" "h' = at_queue q (d\<lparr>dq_wait_done_ref_available_event := e\<rparr>) t po' h"
    using assms(4) by (auto simp: create_event_def split: prod.splits)
  have l: "own_list (d\<lparr>dq_wait_done_ref_available_event := e\<rparr>) = own_list d"
    "own_queues (d\<lparr>dq_wait_done_ref_available_event := e\<rparr>) = own_queues d" by (simp_all add: own_list_def own_queues_def)
  have "event_freed rc (d\<lparr>dq_wait_done_ref_available_event := e\<rparr>) po' = po"
    using event_create_delete [OF assms(2) c(1)] by (auto simp: event_freed_def split: option.split)
  moreover have "po0 = po" using assms(1,3) by (simp add: built_def event_freed_def)
  ultimately have "built rc t0 po0 n (d\<lparr>dq_wait_done_ref_available_event := e\<rparr>) t po'"
    using assms(1) by (simp add: built_def owns_def l empty_from_def)
  then show ?thesis using c event_create_delete [OF assms(2) c(1)] \<open>po0 = po\<close> by auto
qed

lemma odq_taken:
  assumes "taken D t t'" "odq_inv q t"
  shows "odq_inv q t'" "odq_elems q t' = odq_elems q t" "odq_blocked q t' = odq_blocked q t"
proof -
  have q: "unat q < num_entries t" "od_type (desc_at t (unat q)) = TIVX_OBJ_DESC_QUEUE"
    using assms(2) by (auto simp: odq_inv_def queue_at_some)
  then have "unat q \<in> in_use t" by (simp add: in_use_def)
  then have "desc_at t' (unat q) = desc_at t (unat q)" "num_entries t' = num_entries t" using assms(1) by (simp_all add: taken_def)
  then show "odq_inv q t'" "odq_elems q t' = odq_elems q t" "odq_blocked q t' = odq_blocked q t"
    using assms(2) q by (auto simp: odq_inv_def queue_at_some odq_elems_def odq_blocked_def)
qed

definition empty_queue :: "uint16 \<Rightarrow> tivx_obj_desc_table_info \<Rightarrow> bool" where
  "empty_queue q t \<longleftrightarrow> odq_inv q t \<and> odq_elems q t = [] \<and> odq_blocked q t = []"

lemma queue_built:
  assumes "built rc t0 po0 n d t po" "ownObjDescQueueCreate pf t = (t', i, st)"
    and "mset (own_queues d') = (if i = TIVX_OBJ_DESC_INVALID then {#} else {#unat i#}) + mset (own_queues d)"
    and "dq_obj_desc d' = dq_obj_desc d" "dq_obj_desc_cmd d' = dq_obj_desc_cmd d"
    and "dq_wait_done_ref_available_event d' = dq_wait_done_ref_available_event d"
  shows "built rc t0 po0 n d' t' po"
    "if st = VX_SUCCESS then taken {unat i} t t' \<and> empty_queue i t' \<and> i \<noteq> TIVX_OBJ_DESC_INVALID
     else full t' \<and> i = TIVX_OBJ_DESC_INVALID"
proof -
  have b: "owns t d" "taken (set (own_list d)) t0 t" "event_freed rc d po = po0" "empty_from n d" using assms(1) by (simp_all add: built_def)
  then have wf: "table_wf t" by (simp add: owns_def)
  have e: "empty_from n d'" using b(4) assms(4,5) by (simp add: empty_from_def)
  show "if st = VX_SUCCESS then taken {unat i} t t' \<and> empty_queue i t' \<and> i \<noteq> TIVX_OBJ_DESC_INVALID
     else full t' \<and> i = TIVX_OBJ_DESC_INVALID"
    using taken_queue [OF wf assms(2)] by (auto simp: empty_queue_def)
  show "built rc t0 po0 n d' t' po"
  proof (cases "i = TIVX_OBJ_DESC_INVALID")
    case True
    then have m: "mset (own_queues d') = mset (own_queues d)" "t' = t" using assms(3) taken_queue [OF wf assms(2)] by auto
    then have s: "set (own_queues d') = set (own_queues d)" by (metis mset_eq_setD)
    have "mset (own_list d') = mset (own_list d)" using m(1) assms(4,5) by (simp add: own_list_def)
    then have "distinct (own_list d') = distinct (own_list d)" "set (own_list d') = set (own_list d)"
      by (metis mset_eq_imp_distinct_iff, metis mset_eq_setD)
    then show ?thesis using b e m(2) s assms(4-6) by (simp add: built_def owns_def event_freed_def)
  next
    case False
    then have q: "taken {unat i} t t'" "odq_inv i t'" using taken_queue [OF wf assms(2)] by auto
    have m: "mset (own_queues d') = mset (unat i # own_queues d)" using assms(3) False by simp
    have "od_type (desc_at t' (unat i)) = TIVX_OBJ_DESC_QUEUE" using q(2) by (auto simp: odq_inv_def queue_at_some)
    moreover have "mset (own_list d') = add_mset (unat i) (mset (own_list d))" using m assms(4,5) by (simp add: own_list_def)
    moreover have "set (own_queues d') = insert (unat i) (set (own_queues d))" using mset_eq_setD [OF m] by simp
    ultimately show ?thesis by (intro built_put [OF assms(1) q(1)] e) (auto simp: assms(4-6))
  qed
qed

lemma create_acquire_built:
  assumes "built rc t0 po0 n d t po" "dq_acquire_q_obj_desc_id d = TIVX_OBJ_DESC_INVALID"
    and "create_acquire_q pf q (at_queue q d t po h) = (h', st)"
  shows "\<exists>i t'. h' = at_queue q (d\<lparr>dq_acquire_q_obj_desc_id := i\<rparr>) t' po h
    \<and> built rc t0 po0 n (d\<lparr>dq_acquire_q_obj_desc_id := i\<rparr>) t' po
    \<and> (if st = VX_SUCCESS then taken {unat i} t t' \<and> empty_queue i t' \<and> i \<noteq> TIVX_OBJ_DESC_INVALID
        else full t' \<and> i = TIVX_OBJ_DESC_INVALID)"
proof -
  obtain t' i where c: "ownObjDescQueueCreate pf t = (t', i, st)" "h' = at_queue q (d\<lparr>dq_acquire_q_obj_desc_id := i\<rparr>) t' po h"
    using assms(3) by (auto simp: create_acquire_q_def split: prod.splits)
  have "mset (own_queues (d\<lparr>dq_acquire_q_obj_desc_id := i\<rparr>)) = (if i = TIVX_OBJ_DESC_INVALID then {#} else {#unat i#}) + mset (own_queues d)"
    using assms(2) by (simp add: own_queues_def)
  from queue_built [OF assms(1) c(1) this] show ?thesis using c(2) by - (rule exI [of _ i], rule exI [of _ t'], simp)
qed

lemma create_release_built:
  assumes "built rc t0 po0 n d t po" "dq_release_q_obj_desc_id d = TIVX_OBJ_DESC_INVALID"
    and "create_release_q pf q (at_queue q d t po h) = (h', st)"
  shows "\<exists>i t'. h' = at_queue q (d\<lparr>dq_release_q_obj_desc_id := i\<rparr>) t' po h
    \<and> built rc t0 po0 n (d\<lparr>dq_release_q_obj_desc_id := i\<rparr>) t' po
    \<and> (if st = VX_SUCCESS then taken {unat i} t t' \<and> empty_queue i t' \<and> i \<noteq> TIVX_OBJ_DESC_INVALID
        else full t' \<and> i = TIVX_OBJ_DESC_INVALID)"
proof -
  obtain t' i where c: "ownObjDescQueueCreate pf t = (t', i, st)" "h' = at_queue q (d\<lparr>dq_release_q_obj_desc_id := i\<rparr>) t' po h"
    using assms(3) by (auto simp: create_release_q_def split: prod.splits)
  have "mset (own_queues (d\<lparr>dq_release_q_obj_desc_id := i\<rparr>)) = (if i = TIVX_OBJ_DESC_INVALID then {#} else {#unat i#}) + mset (own_queues d)"
    using assms(2) by (simp add: own_queues_def)
  from queue_built [OF assms(1) c(1) this] show ?thesis using c(2) by - (rule exI [of _ i], rule exI [of _ t'], simp)
qed

lemma alloc_stages_built:
  assumes "built rc t0 po0 0 d t po" "n \<le> TIVX_GRAPH_MAX_PIPELINE_DEPTH"
    and "foldl (alloc_queue_stage pf q user) (at_queue q d t po h, VX_SUCCESS) [0..<n] = (h', st)"
  shows "\<exists>X Y t'. h' = at_queue q (d\<lparr>dq_obj_desc := X, dq_obj_desc_cmd := Y\<rparr>) t' po h
    \<and> built rc t0 po0 n (d\<lparr>dq_obj_desc := X, dq_obj_desc_cmd := Y\<rparr>) t' po
    \<and> (if st = VX_SUCCESS then staged pf q user n (d\<lparr>dq_obj_desc := X, dq_obj_desc_cmd := Y\<rparr>) t'
        else full t' \<and> (\<exists>i < n. X ! i = None \<or> user \<and> Y ! i = None))"
  using assms(2,3)
proof (induction n arbitrary: h' st)
  case 0
  then show ?case using assms(1)
    by - (rule exI [of _ "dq_obj_desc d"], rule exI [of _ "dq_obj_desc_cmd d"], rule exI [of _ t], simp add: staged_def)
next
  case (Suc n)
  obtain h1 st1 where r: "foldl (alloc_queue_stage pf q user) (at_queue q d t po h, VX_SUCCESS) [0..<n] = (h1, st1)" by fastforce
  obtain X Y t1 where p: "h1 = at_queue q (d\<lparr>dq_obj_desc := X, dq_obj_desc_cmd := Y\<rparr>) t1 po h"
    "built rc t0 po0 n (d\<lparr>dq_obj_desc := X, dq_obj_desc_cmd := Y\<rparr>) t1 po"
    "if st1 = VX_SUCCESS then staged pf q user n (d\<lparr>dq_obj_desc := X, dq_obj_desc_cmd := Y\<rparr>) t1
     else full t1 \<and> (\<exists>i < n. X ! i = None \<or> user \<and> Y ! i = None)"
    using Suc.IH [OF _ r] Suc.prems(1) by auto
  have n: "n < TIVX_GRAPH_MAX_PIPELINE_DEPTH" using Suc.prems(1) by simp
  have s: "alloc_queue_stage pf q user (at_queue q (d\<lparr>dq_obj_desc := X, dq_obj_desc_cmd := Y\<rparr>) t1 po h, st1) n = (h', st)"
    using Suc.prems(2) r p(1) by simp
  obtain X' Y' t' where q: "h' = at_queue q (d\<lparr>dq_obj_desc := X', dq_obj_desc_cmd := Y'\<rparr>) t' po h"
    "built rc t0 po0 (Suc n) (d\<lparr>dq_obj_desc := X', dq_obj_desc_cmd := Y'\<rparr>) t' po"
    "st = VX_SUCCESS \<longrightarrow> st1 = VX_SUCCESS \<and> (staged pf q user n (d\<lparr>dq_obj_desc := X, dq_obj_desc_cmd := Y\<rparr>) t1
       \<longrightarrow> staged pf q user (Suc n) (d\<lparr>dq_obj_desc := X', dq_obj_desc_cmd := Y'\<rparr>) t')"
    "st \<noteq> VX_SUCCESS \<longrightarrow> st1 \<noteq> VX_SUCCESS \<or> full t' \<and> (X' ! n = None \<or> user \<and> Y' ! n = None)"
    "full t1 \<longrightarrow> full t'" "\<forall>j. j \<noteq> n \<longrightarrow> X' ! j = X ! j \<and> Y' ! j = Y ! j"
    using alloc_stage_built [OF p(2) n s] by auto
  have "full t' \<and> (\<exists>i < Suc n. X' ! i = None \<or> user \<and> Y' ! i = None)" if f: "st \<noteq> VX_SUCCESS"
  proof (cases "st1 = VX_SUCCESS")
    case False
    then obtain i where "full t1" "i < n" "X ! i = None \<or> user \<and> Y ! i = None" using p(3) by auto
    then show ?thesis using q(5,6) less_SucI by (metis less_irrefl)
  qed (use q(4) f in auto)
  then show ?case using q(1-3) p(3) by - (rule exI [of _ X'], rule exI [of _ Y'], rule exI [of _ t'], simp)
qed


text \<open>Something is missing; this happens only when the table is full.\<close>

definition short :: "bool \<Rightarrow> nat \<Rightarrow> tivx_data_ref_queue_t \<Rightarrow> bool" where
  "short user n d \<longleftrightarrow> (\<exists>i < n. dq_obj_desc d ! i = None \<or> user \<and> dq_obj_desc_cmd d ! i = None)
     \<or> dq_acquire_q_obj_desc_id d = TIVX_OBJ_DESC_INVALID \<or> user \<and> dq_release_q_obj_desc_id d = TIVX_OBJ_DESC_INVALID"

definition acquired_all :: "platform_ids \<Rightarrow> uintptr \<Rightarrow> bool \<Rightarrow> nat \<Rightarrow> tivx_data_ref_queue_t \<Rightarrow> tivx_obj_desc_table_info \<Rightarrow> bool" where
  "acquired_all pf q user n d t \<longleftrightarrow> staged pf q user n d t
     \<and> dq_acquire_q_obj_desc_id d \<noteq> TIVX_OBJ_DESC_INVALID \<and> empty_queue (dq_acquire_q_obj_desc_id d) t
     \<and> (if user then dq_release_q_obj_desc_id d \<noteq> TIVX_OBJ_DESC_INVALID \<and> empty_queue (dq_release_q_obj_desc_id d) t
            \<and> dq_wait_done_ref_available_event d \<noteq> None
        else dq_release_q_obj_desc_id d = TIVX_OBJ_DESC_INVALID \<and> dq_wait_done_ref_available_event d = None)"

text \<open>The fields that the acquisition leaves alone.\<close>

definition setup_of :: "tivx_data_ref_queue_t \<Rightarrow> tivx_data_ref_queue_t" where
  "setup_of d = d\<lparr>dq_obj_desc := [], dq_obj_desc_cmd := [], dq_wait_done_ref_available_event := None,
     dq_acquire_q_obj_desc_id := 0, dq_release_q_obj_desc_id := 0\<rparr>"

abbreviation (input) same_setup :: "tivx_data_ref_queue_t \<Rightarrow> tivx_data_ref_queue_t \<Rightarrow> bool" where
  "same_setup d d' \<equiv> setup_of d' = setup_of d"

lemma setup_fields: "dq_pipeline_depth (setup_of d) = dq_pipeline_depth d"
    "dq_enable_user_queueing (setup_of d) = dq_enable_user_queueing d" "dq_graph (setup_of d) = dq_graph d"
    "dq_graph_parameter_index (setup_of d) = dq_graph_parameter_index d"
    "dq_ready_q_obj_desc_id (setup_of d) = dq_ready_q_obj_desc_id d" "dq_done_q_obj_desc_id (setup_of d) = dq_done_q_obj_desc_id d"
  by (simp_all add: setup_of_def)

lemma same_setup_fields:
  assumes "same_setup d d'"
  shows "dq_pipeline_depth d' = dq_pipeline_depth d" "dq_enable_user_queueing d' = dq_enable_user_queueing d"
    "dq_graph d' = dq_graph d" "dq_graph_parameter_index d' = dq_graph_parameter_index d"
    "dq_ready_q_obj_desc_id d' = dq_ready_q_obj_desc_id d" "dq_done_q_obj_desc_id d' = dq_done_q_obj_desc_id d"
  using assms setup_fields by metis+

lemma empty_queue_taken: "taken D t t' \<Longrightarrow> empty_queue q t \<Longrightarrow> empty_queue q t'"
  using odq_taken by (simp add: empty_queue_def)

lemma and_then_success: "and_then (h, st) f = (if st = VX_SUCCESS then f h else (h, st))"
  by (simp add: and_then_def)

lemma acquire_resources_built:
  assumes "built rc t0 po0 0 d t po" "n = unat (dq_pipeline_depth d)" "n \<le> TIVX_GRAPH_MAX_PIPELINE_DEPTH" "rc_mutex_lock rc = 0"
    and "dq_acquire_q_obj_desc_id d = TIVX_OBJ_DESC_INVALID" "dq_release_q_obj_desc_id d = TIVX_OBJ_DESC_INVALID"
    and "dq_wait_done_ref_available_event d = None"
    and "acquire_resources rc pf q user (at_queue q d t po h) = (h', st)"
  shows "\<exists>d' t' po'. h' = at_queue q d' t' po' h \<and> built rc t0 po0 n d' t' po' \<and> same_setup d d'
    \<and> (if st = VX_SUCCESS then acquired_all pf q user n d' t'
        else full t' \<and> short user n d' \<or> user \<and> snd (snd (tivxEventCreate rc po0)) \<noteq> VX_SUCCESS)"
proof -
  note run = assms(8) [unfolded acquire_resources_def]
  obtain h1 st1 where r1: "foldl (alloc_queue_stage pf q user) (at_queue q d t po h, VX_SUCCESS) [0..<n] = (h1, st1)" by fastforce
  obtain X Y t1 where p1: "h1 = at_queue q (d\<lparr>dq_obj_desc := X, dq_obj_desc_cmd := Y\<rparr>) t1 po h"
    "built rc t0 po0 n (d\<lparr>dq_obj_desc := X, dq_obj_desc_cmd := Y\<rparr>) t1 po"
    "if st1 = VX_SUCCESS then staged pf q user n (d\<lparr>dq_obj_desc := X, dq_obj_desc_cmd := Y\<rparr>) t1
     else full t1 \<and> (\<exists>i < n. X ! i = None \<or> user \<and> Y ! i = None)"
    using alloc_stages_built [OF assms(1,3) r1] by auto
  define d1 where "d1 = d\<lparr>dq_obj_desc := X, dq_obj_desc_cmd := Y\<rparr>"
  have s1: "same_setup d d1" by (simp add: setup_of_def d1_def)
  note p1 = p1 [folded d1_def]
  show ?thesis
  proof (cases "st1 = VX_SUCCESS")
    case False
    then have "h' = h1" "st = st1" using run r1 assms(2) by (simp_all add: and_then_success)
    moreover have "full t1 \<and> short user n d1" using p1(3) False by (auto simp: short_def d1_def)
    ultimately show ?thesis using p1(1,2) s1 False by - (rule exI [of _ d1], rule exI [of _ t1], rule exI [of _ po], simp)
  next
    case t1: True
    obtain h2 st2 where r2: "(if user then create_event rc q h1 else (h1, VX_SUCCESS)) = (h2, st2)" by fastforce
    have e1: "dq_wait_done_ref_available_event d1 = None" using assms(7) by (simp add: d1_def)
    have "\<exists>e po2. h2 = at_queue q (d1\<lparr>dq_wait_done_ref_available_event := e\<rparr>) t1 po2 h
        \<and> built rc t0 po0 n (d1\<lparr>dq_wait_done_ref_available_event := e\<rparr>) t1 po2 \<and> (st2 = VX_SUCCESS \<longrightarrow> (e \<noteq> None) = user)
        \<and> (st2 \<noteq> VX_SUCCESS \<longrightarrow> user \<and> snd (snd (tivxEventCreate rc po0)) \<noteq> VX_SUCCESS)"
    proof (cases user)
      case True
      then have "create_event rc q (at_queue q d1 t1 po h) = (h2, st2)" using r2 p1(1) by simp
      from create_event_built [OF p1(2) assms(4) e1 this] show ?thesis using True by auto
    next
      case False
      have "d1\<lparr>dq_wait_done_ref_available_event := None\<rparr> = d1" using e1 by simp
      then show ?thesis using r2 p1 False by - (rule exI [of _ None], rule exI [of _ po], simp)
    qed
    then obtain e po2 where p2: "h2 = at_queue q (d1\<lparr>dq_wait_done_ref_available_event := e\<rparr>) t1 po2 h"
      "built rc t0 po0 n (d1\<lparr>dq_wait_done_ref_available_event := e\<rparr>) t1 po2" "st2 = VX_SUCCESS \<longrightarrow> (e \<noteq> None) = user"
      "st2 \<noteq> VX_SUCCESS \<longrightarrow> user \<and> snd (snd (tivxEventCreate rc po0)) \<noteq> VX_SUCCESS" by blast
    define d2 where "d2 = d1\<lparr>dq_wait_done_ref_available_event := e\<rparr>"
    have s2: "same_setup d d2"
      by (simp add: setup_of_def d1_def d2_def)
    note p2 = p2 [folded d2_def]
    have g2: "staged pf q user n d2 t1" using p1(3) t1 by (simp add: staged_def d2_def)
    show ?thesis
    proof (cases "st2 = VX_SUCCESS")
      case False
      then have "h' = h2" "st = st2" using run r1 t1 r2 assms(2) by (simp_all add: and_then_success)
      then show ?thesis using p2 s2 False by - (rule exI [of _ d2], rule exI [of _ t1], rule exI [of _ po2], simp)
    next
      case t2: True
      obtain h3 st3 where r3: "create_acquire_q pf q h2 = (h3, st3)" by fastforce
      have a2: "dq_acquire_q_obj_desc_id d2 = TIVX_OBJ_DESC_INVALID" using assms(5) by (simp add: d1_def d2_def)
      obtain a t3 where p3: "h3 = at_queue q (d2\<lparr>dq_acquire_q_obj_desc_id := a\<rparr>) t3 po2 h"
        "built rc t0 po0 n (d2\<lparr>dq_acquire_q_obj_desc_id := a\<rparr>) t3 po2"
        "if st3 = VX_SUCCESS then taken {unat a} t1 t3 \<and> empty_queue a t3 \<and> a \<noteq> TIVX_OBJ_DESC_INVALID
         else full t3 \<and> a = TIVX_OBJ_DESC_INVALID"
        using create_acquire_built [OF p2(2) a2 r3 [unfolded p2(1)]] by auto
      define d3 where "d3 = d2\<lparr>dq_acquire_q_obj_desc_id := a\<rparr>"
      have s3: "same_setup d d3"
        by (simp add: setup_of_def d1_def d2_def d3_def)
      note p3 = p3 [folded d3_def]
      show ?thesis
      proof (cases "st3 = VX_SUCCESS")
        case False
        then have "h' = h3" "st = st3" using run r1 t1 r2 t2 r3 assms(2) by (simp_all add: and_then_success)
        moreover have "full t3 \<and> short user n d3" using p3(3) False by (simp add: short_def d3_def)
        ultimately show ?thesis using p3(1,2) s3 False by - (rule exI [of _ d3], rule exI [of _ t3], rule exI [of _ po2], simp)
      next
        case t3: True
        then have q3: "taken {unat a} t1 t3" "empty_queue a t3" "a \<noteq> TIVX_OBJ_DESC_INVALID" using p3(3) by auto
        have o2: "owns t1 d2" using p2(2) by (simp add: built_def)
        have g3: "staged pf q user n d3 t3"
          by (rule staged_taken [OF g2 o2 q3(1) assms(3)]) (simp add: d3_def)
        have res: "(if user then create_release_q pf q h3 else (h3, VX_SUCCESS)) = (h', st)"
          using run r1 t1 r2 t2 r3 t3 assms(2) by (simp add: and_then_success)
        have r3: "dq_release_q_obj_desc_id d3 = TIVX_OBJ_DESC_INVALID" using assms(6) by (simp add: d1_def d2_def d3_def)
        have e3: "dq_wait_done_ref_available_event d3 = e" "(e \<noteq> None) = user" "dq_acquire_q_obj_desc_id d3 = a"
          using p2(3) t2 by (simp_all add: d2_def d3_def)
        show ?thesis
        proof (cases user)
          case False
          then have "h' = h3" "st = VX_SUCCESS" using res by simp_all
          moreover have "acquired_all pf q user n d3 t3" using g3 q3 e3 False r3 by (simp add: acquired_all_def)
          ultimately show ?thesis using p3(1,2) s3 by - (rule exI [of _ d3], rule exI [of _ t3], rule exI [of _ po2], simp)
        next
          case True
          then have "create_release_q pf q (at_queue q d3 t3 po2 h) = (h', st)" using res p3(1) by simp
          from create_release_built [OF p3(2) r3 this] obtain r t4 where
            p4: "h' = at_queue q (d3\<lparr>dq_release_q_obj_desc_id := r\<rparr>) t4 po2 h"
            "built rc t0 po0 n (d3\<lparr>dq_release_q_obj_desc_id := r\<rparr>) t4 po2"
            "if st = VX_SUCCESS then taken {unat r} t3 t4 \<and> empty_queue r t4 \<and> r \<noteq> TIVX_OBJ_DESC_INVALID
             else full t4 \<and> r = TIVX_OBJ_DESC_INVALID" by auto
          have s4: "same_setup d (d3\<lparr>dq_release_q_obj_desc_id := r\<rparr>)"
            by (simp add: setup_of_def d1_def d2_def d3_def)
          have o3: "owns t3 d3" using p3(2) by (simp add: built_def)
          have "acquired_all pf q user n (d3\<lparr>dq_release_q_obj_desc_id := r\<rparr>) t4" if "st = VX_SUCCESS"
          proof -
            have q4: "taken {unat r} t3 t4" "empty_queue r t4" "r \<noteq> TIVX_OBJ_DESC_INVALID" using p4(3) that by auto
            have "staged pf q user n (d3\<lparr>dq_release_q_obj_desc_id := r\<rparr>) t4"
              by (rule staged_taken [OF g3 o3 q4(1) assms(3)]) simp
            then show ?thesis
              using q4(2,3) e3 True q3(2,3) empty_queue_taken [OF q4(1)] by (simp add: acquired_all_def)
          qed
          moreover have "full t4 \<and> short user n (d3\<lparr>dq_release_q_obj_desc_id := r\<rparr>)" if "st \<noteq> VX_SUCCESS"
            using p4(3) that True by (simp add: short_def)
          ultimately show ?thesis using p4(1,2) s4
            by - (rule exI [of _ "d3\<lparr>dq_release_q_obj_desc_id := r\<rparr>"], rule exI [of _ t4], rule exI [of _ po2], simp)
        qed
      qed
    qed
  qed
qed

lemma somes_distinct:
  assumes "distinct (somes l)" "i < length l" "j < length l" "l ! i = Some x" "l ! j = Some x"
  shows "i = j"
  using assms
proof (induction l arbitrary: i j)
  case (Cons a l)
  have mem: "x \<in> set (somes l)" if "k < length l" "l ! k = Some x" for k
    using that nth_mem [OF that(1)] by (simp add: set_somes)
  show ?case
  proof (cases i; cases j)
    fix i' j' assume "i = Suc i'" "j = Suc j'"
    then show ?thesis using Cons by (cases a) auto
  qed (use Cons.prems mem in \<open>auto\<close>)
qed simp


section \<open>What is written into the descriptors\<close>

abbreviation (input) cmd_id_of :: "tivx_data_ref_queue_t \<Rightarrow> nat \<Rightarrow> uint16" where
  "cmd_id_of d i \<equiv> (case dq_obj_desc_cmd d ! i of None \<Rightarrow> 0 | Some c \<Rightarrow> of_nat c)"

definition ready_stage :: "platform_ids \<Rightarrow> uintptr \<Rightarrow> bool \<Rightarrow> uint32 \<Rightarrow> tivx_data_ref_queue_t \<Rightarrow> nat \<Rightarrow> nat \<Rightarrow> tivx_obj_desc" where
  "ready_stage pf q user num_in d i x = (init_desc pf x TIVX_OBJ_DESC_DATA_REF_Q q)
     \<lparr>od_body := B_Data_Ref_Q
        \<lparr>drq_flags = (if user then DATA_REF_Q_FLAG_IS_ENABLE_REF_CONSUMED_EVENT else 0),
         drq_ref_consumed_cmd_obj_desc_id = (if user then cmd_id_of d i else TIVX_OBJ_DESC_INVALID),
         drq_acquire_q_obj_desc_id = dq_acquire_q_obj_desc_id d,
         drq_release_q_obj_desc_id = (if user then dq_release_q_obj_desc_id d else dq_acquire_q_obj_desc_id d),
         drq_ref_obj_desc_id = TIVX_OBJ_DESC_INVALID, drq_in_node_done_cnt = 0, drq_num_in_nodes = ucast num_in,
         drq_next_obj_desc_id_in_delay = TIVX_OBJ_DESC_INVALID, drq_delay_slot_index = 0, drq_delay_slots = 0\<rparr>\<rparr>"

definition ready_cmd :: "platform_ids \<Rightarrow> vx_enum \<Rightarrow> nat \<Rightarrow> nat \<Rightarrow> tivx_obj_desc" where
  "ready_cmd pf tid x c = (init_desc pf c TIVX_OBJ_DESC_CMD 0)\<lparr>od_body := B_Cmd (zero_cmd
     \<lparr>cmd_cmd_id := TIVX_CMD_DATA_REF_CONSUMED, cmd_dst_target_id := tid, cmd_src_target_id := TIVX_TARGET_ID_INVALID,
      cmd_num_obj_desc := 1, cmd_obj_desc_id := of_nat x # replicate 15 0\<rparr>)\<rparr>"

definition filled ::
  "platform_ids \<Rightarrow> vx_enum \<Rightarrow> uintptr \<Rightarrow> bool \<Rightarrow> uint32 \<Rightarrow> tivx_data_ref_queue_t \<Rightarrow> tivx_obj_desc_table_info \<Rightarrow> nat \<Rightarrow> bool" where
  "filled pf tid q user num_in d t i \<longleftrightarrow> (\<exists>x. dq_obj_desc d ! i = Some x
     \<and> desc_at t x = ready_stage pf q user num_in d i x
     \<and> (if user then \<exists>c. dq_obj_desc_cmd d ! i = Some c \<and> desc_at t c = ready_cmd pf tid x c
        else dq_obj_desc_cmd d ! i = None))"

lemma own_stage:
  assumes "owns t d" "i < TIVX_GRAPH_MAX_PIPELINE_DEPTH"
  shows "dq_obj_desc d ! i = Some x \<Longrightarrow> x \<in> set (somes (dq_obj_desc d)) \<and> x \<in> in_use t"
    "dq_obj_desc_cmd d ! i = Some c \<Longrightarrow> c \<in> set (somes (dq_obj_desc_cmd d)) \<and> c \<in> in_use t"
proof -
  have "i < length (dq_obj_desc d)" "i < length (dq_obj_desc_cmd d)" using assms by (simp_all add: owns_def)
  then show "dq_obj_desc d ! i = Some x \<Longrightarrow> x \<in> set (somes (dq_obj_desc d)) \<and> x \<in> in_use t"
    "dq_obj_desc_cmd d ! i = Some c \<Longrightarrow> c \<in> set (somes (dq_obj_desc_cmd d)) \<and> c \<in> in_use t"
    using assms(1) nth_mem [of i "dq_obj_desc d"] nth_mem [of i "dq_obj_desc_cmd d"]
    by (auto simp: owns_def own_list_def set_somes)
qed

lemma own_apart:
  assumes "owns t d" "i < TIVX_GRAPH_MAX_PIPELINE_DEPTH" "j < TIVX_GRAPH_MAX_PIPELINE_DEPTH"
  shows "dq_obj_desc d ! i = Some x \<Longrightarrow> dq_obj_desc d ! j = Some x \<Longrightarrow> i = j"
    "dq_obj_desc_cmd d ! i = Some c \<Longrightarrow> dq_obj_desc_cmd d ! j = Some c \<Longrightarrow> i = j"
    "dq_obj_desc d ! i = Some x \<Longrightarrow> dq_obj_desc_cmd d ! j = Some c \<Longrightarrow> x \<noteq> c"
proof -
  have l: "length (dq_obj_desc d) = 16" "length (dq_obj_desc_cmd d) = 16" "distinct (own_list d)" using assms(1) by (simp_all add: owns_def)
  then show "dq_obj_desc d ! i = Some x \<Longrightarrow> dq_obj_desc d ! j = Some x \<Longrightarrow> i = j"
    "dq_obj_desc_cmd d ! i = Some c \<Longrightarrow> dq_obj_desc_cmd d ! j = Some c \<Longrightarrow> i = j"
    using somes_distinct [of "dq_obj_desc d" i j x] somes_distinct [of "dq_obj_desc_cmd d" i j c] assms(2,3)
    by (simp_all add: own_list_def)
  show "x \<noteq> c" if "dq_obj_desc d ! i = Some x" "dq_obj_desc_cmd d ! j = Some c"
    using own_stage(1) [OF assms(1,2) that(1)] own_stage(2) [OF assms(1,3) that(2)] l(3) by (auto simp: own_list_def)
qed

lemma fill_stage_eq:
  assumes "dq_obj_desc d ! i = Some x" "user \<Longrightarrow> dq_obj_desc_cmd d ! i = Some c" "\<not> user \<Longrightarrow> dq_obj_desc_cmd d ! i = None"
    and "x < num_entries t" "desc_at t x = init_desc pf x TIVX_OBJ_DESC_DATA_REF_Q q"
    and "user \<Longrightarrow> c < num_entries t \<and> c \<noteq> x \<and> desc_at t c = init_desc pf c TIVX_OBJ_DESC_CMD 0" "user = qp_enable_user_queueing prms"
  shows "\<exists>t'. fill_stage info q prms (at_queue q d t po h) i = at_queue q d t' po h \<and> num_entries t' = num_entries t
    \<and> odt_last_alloc_index t' = odt_last_alloc_index t
    \<and> desc_at t' x = ready_stage pf q user (qp_num_in_nodes prms) d i x
    \<and> (user \<longrightarrow> desc_at t' c = ready_cmd pf (ownPlatformGetTargetId info (Some TIVX_TARGET_HOST)) x c)
    \<and> (\<forall>j < num_entries t. j \<noteq> x \<and> (user \<longrightarrow> j \<noteq> c) \<longrightarrow> desc_at t' j = desc_at t j)"
proof -
  define F where "F = (\<lambda>e :: tivx_obj_desc. e\<lparr>od_body := B_Data_Ref_Q (stage_fields d user (qp_num_in_nodes prms)
      (od_obj_desc_id (desc_at t (the (dq_obj_desc_cmd d ! i)))) (the_data_ref_q (od_body e)))\<rparr>)"
  define G where "G = (\<lambda>e :: tivx_obj_desc. e\<lparr>od_body := B_Cmd (cmd_fields (ownPlatformGetTargetId info (Some TIVX_TARGET_HOST)) (of_nat x)
      (the_cmd (od_body e)))\<rparr>)"
  let ?t = "if user then upd_desc c G (upd_desc x F t) else upd_desc x F t"
  have "od_obj_desc_id (desc_at (upd_desc x (\<lambda>e. e\<lparr>od_body := b e\<rparr>) t) x) = of_nat x" for b
    using assms(4,5) by (simp add: init_desc_def)
  then have "fill_stage info q prms (at_queue q d t po h) i = at_queue q d ?t po h"
    using assms(1,2,7) by (simp add: fill_stage_def Let_def upd_drq_def upd_cmd_def F_def G_def)
  moreover have "desc_at ?t x = ready_stage pf q user (qp_num_in_nodes prms) d i x"
    using assms(2-6) by (auto simp: F_def ready_stage_def stage_fields_def zero_data_ref_q_def tivxFlagBitSet_def init_desc_def zero_body_def)
  moreover have "desc_at ?t c = ready_cmd pf (ownPlatformGetTargetId info (Some TIVX_TARGET_HOST)) x c" if user
    using assms(4-6) that by (simp add: G_def ready_cmd_def cmd_fields_def zero_cmd_def init_desc_def zero_body_def numeral_eq_Suc)
  ultimately show ?thesis by - (rule exI [of _ ?t], simp)
qed

lemma fill_stages_filled:
  assumes "owns t d" "staged pf q user n d t" "n \<le> TIVX_GRAPH_MAX_PIPELINE_DEPTH" "k \<le> n" "user = qp_enable_user_queueing prms"
  shows "\<exists>t'. foldl (fill_stage info q prms) (at_queue q d t po h) [0..<k] = at_queue q d t' po h
    \<and> num_entries t' = num_entries t \<and> odt_last_alloc_index t' = odt_last_alloc_index t
    \<and> (\<forall>i < k. filled pf (ownPlatformGetTargetId info (Some TIVX_TARGET_HOST)) q user (qp_num_in_nodes prms) d t' i)
    \<and> (\<forall>j < num_entries t. (\<forall>i < k. dq_obj_desc d ! i \<noteq> Some j \<and> dq_obj_desc_cmd d ! i \<noteq> Some j) \<longrightarrow> desc_at t' j = desc_at t j)"
  using assms(4)
proof (induction k)
  case 0
  then show ?case by auto
next
  case (Suc k)
  let ?tid = "ownPlatformGetTargetId info (Some TIVX_TARGET_HOST)"
  obtain t1 where IH: "foldl (fill_stage info q prms) (at_queue q d t po h) [0..<k] = at_queue q d t1 po h"
    "num_entries t1 = num_entries t" "odt_last_alloc_index t1 = odt_last_alloc_index t"
    "\<forall>i < k. filled pf ?tid q user (qp_num_in_nodes prms) d t1 i"
    "\<forall>j < num_entries t. (\<forall>i < k. dq_obj_desc d ! i \<noteq> Some j \<and> dq_obj_desc_cmd d ! i \<noteq> Some j) \<longrightarrow> desc_at t1 j = desc_at t j"
    using Suc by auto
  have k: "k < TIVX_GRAPH_MAX_PIPELINE_DEPTH" "k < n" using Suc.prems assms(3) by simp_all
  have lt: "i < k \<Longrightarrow> i < TIVX_GRAPH_MAX_PIPELINE_DEPTH" for i using k by simp
  obtain x where x: "dq_obj_desc d ! k = Some x" "desc_at t x = init_desc pf x TIVX_OBJ_DESC_DATA_REF_Q q"
    using assms(2) k(2) by (auto simp: staged_def)
  obtain c where c: "user \<Longrightarrow> dq_obj_desc_cmd d ! k = Some c \<and> desc_at t c = init_desc pf c TIVX_OBJ_DESC_CMD 0"
    "\<not> user \<Longrightarrow> dq_obj_desc_cmd d ! k = None"
    using assms(2) k(2) unfolding staged_def by (metis (no_types, lifting))
  have x2: "x < num_entries t" using own_stage(1) [OF assms(1) k(1) x(1)] by (simp add: in_use_def)
  have c2: "c < num_entries t" "c \<noteq> x" if user
    using own_stage(2) [OF assms(1) k(1)] own_apart(3) [OF assms(1) k(1) k(1) x(1)] c(1) [OF that] by (auto simp: in_use_def)
  have fresh: "dq_obj_desc d ! i \<noteq> Some x \<and> dq_obj_desc_cmd d ! i \<noteq> Some x" if "i < k" for i
    using own_apart [OF assms(1) k(1) lt [OF that]] x(1) that by (metis less_irrefl)
  have freshc: "dq_obj_desc d ! i \<noteq> Some c \<and> dq_obj_desc_cmd d ! i \<noteq> Some c" if "i < k" user for i
    using own_apart [OF assms(1) lt [OF that(1)] k(1)] c(1) [OF that(2)] that(1) by (metis less_irrefl)
  have "desc_at t1 x = init_desc pf x TIVX_OBJ_DESC_DATA_REF_Q q" using IH(5) x2 fresh x(2) by simp
  moreover have "desc_at t1 c = init_desc pf c TIVX_OBJ_DESC_CMD 0" if user using IH(5) c2(1) [OF that] freshc that c(1) by simp
  ultimately obtain t2 where t2: "fill_stage info q prms (at_queue q d t1 po h) k = at_queue q d t2 po h" "num_entries t2 = num_entries t1"
    "odt_last_alloc_index t2 = odt_last_alloc_index t1" "desc_at t2 x = ready_stage pf q user (qp_num_in_nodes prms) d k x"
    "user \<longrightarrow> desc_at t2 c = ready_cmd pf ?tid x c"
    "\<forall>j < num_entries t1. j \<noteq> x \<and> (user \<longrightarrow> j \<noteq> c) \<longrightarrow> desc_at t2 j = desc_at t1 j"
    using fill_stage_eq [where user = user and x = x and c = c and t = t1 and pf = pf and d = d and i = k and q = q and prms = prms,
        OF x(1) _ c(2), where info = info and po = po and h = h] c c2 x2 IH(2) assms(5) by auto
  have old: "desc_at t2 j = desc_at t1 j" if "i < k" "dq_obj_desc d ! i = Some j \<or> dq_obj_desc_cmd d ! i = Some j" for i j
  proof -
    have "j < num_entries t1" using own_stage [OF assms(1) lt [OF that(1)]] that(2) IH(2) by (auto simp: in_use_def)
    moreover have "j \<noteq> x \<and> (user \<longrightarrow> j \<noteq> c)" using fresh [OF that(1)] freshc [OF that(1)] that(2) by auto
    ultimately show ?thesis using t2(6) by blast
  qed
  have "filled pf ?tid q user (qp_num_in_nodes prms) d t2 i" if "i < Suc k" for i
  proof (cases "i = k")
    case True
    then show ?thesis using t2(4,5) x(1) c by (auto simp: filled_def)
  next
    case False
    then have "i < k" using that by simp
    then show ?thesis using IH(4) old unfolding filled_def by (metis (no_types, lifting))
  qed
  moreover have "desc_at t2 j = desc_at t j"
    if "j < num_entries t" "\<forall>i < Suc k. dq_obj_desc d ! i \<noteq> Some j \<and> dq_obj_desc_cmd d ! i \<noteq> Some j" for j
  proof -
    have "j \<noteq> x \<and> (user \<longrightarrow> j \<noteq> c)" using that(2) x(1) c(1) by auto
    then show ?thesis using t2(6) IH(2,5) that by simp
  qed
  ultimately show ?case using IH(1-3) t2(1-3) by - (rule exI [of _ t2], simp)
qed


text \<open>A queue as a creation hands it out.\<close>

definition queue_ready ::
  "platform_ids \<Rightarrow> vx_enum \<Rightarrow> uintptr \<Rightarrow> uintptr \<Rightarrow> tivx_data_ref_queue_create_params_t \<Rightarrow>
   tivx_data_ref_queue_t \<Rightarrow> tivx_obj_desc_table_info \<Rightarrow> bool" where
  "queue_ready pf tid q graph prms d t \<longleftrightarrow>
     (let user = qp_enable_user_queueing prms in
        dq_pipeline_depth d = qp_pipeline_depth prms \<and> dq_enable_user_queueing d = user \<and> dq_graph d = graph
      \<and> dq_graph_parameter_index d = qp_graph_parameter_index prms
      \<and> dq_acquire_q_obj_desc_id d \<noteq> TIVX_OBJ_DESC_INVALID \<and> empty_queue (dq_acquire_q_obj_desc_id d) t
      \<and> (if user then dq_release_q_obj_desc_id d \<noteq> TIVX_OBJ_DESC_INVALID \<and> empty_queue (dq_release_q_obj_desc_id d) t
             \<and> dq_wait_done_ref_available_event d \<noteq> None
             \<and> dq_ready_q_obj_desc_id d = dq_acquire_q_obj_desc_id d \<and> dq_done_q_obj_desc_id d = dq_release_q_obj_desc_id d
         else dq_release_q_obj_desc_id d = TIVX_OBJ_DESC_INVALID)
      \<and> (\<forall>i < unat (qp_pipeline_depth prms). filled pf tid q user (qp_num_in_nodes prms) d t i))"

text \<open>Descriptors that are only filled stay with their owner.\<close>

lemma taken_filled:
  assumes "taken D t0 t" "num_entries t' = num_entries t" "odt_last_alloc_index t' = odt_last_alloc_index t" "S \<subseteq> D"
    and "\<forall>j < num_entries t. j \<notin> S \<longrightarrow> desc_at t' j = desc_at t j"
    and "\<forall>j \<in> S. od_type (desc_at t' j) = od_type (desc_at t j) \<and> od_obj_desc_id (desc_at t' j) = of_nat j \<and> body_ok (desc_at t' j)"
  shows "taken D t0 t'" "in_use t' = in_use t"
proof -
  have a: "table_wf t" "num_entries t = num_entries t0" "in_use t = in_use t0 \<union> D" "D \<inter> in_use t0 = {}"
    "\<forall>i \<in> in_use t0. desc_at t i = desc_at t0 i" using assms(1) by (simp_all add: taken_def)
  have ty: "od_type (desc_at t' j) = od_type (desc_at t j)" if "j < num_entries t" for j
    using assms(5,6) that by (cases "j \<in> S") auto
  then show u: "in_use t' = in_use t" using assms(2) by (auto simp: in_use_def)
  have "od_obj_desc_id (desc_at t' j) = of_nat j \<and> body_ok (desc_at t' j)"
    if "j < num_entries t'" "od_type (desc_at t' j) \<noteq> TIVX_OBJ_DESC_INVALID" for j
    using that assms(2,5,6) a(1) ty by (cases "j \<in> S") (auto simp: table_wf_def)
  then have wf: "table_wf t'" using a(1) assms(2,3) by (simp add: table_wf_def)
  have "desc_at t' i = desc_at t0 i" if "i \<in> in_use t0" for i
  proof -
    have "i \<notin> S" "i < num_entries t" using that a assms(4) by (auto simp: in_use_def)
    then show ?thesis using assms(5) a(5) that by simp
  qed
  then show "taken D t0 t'" using wf u a(2-4) assms(2) by (simp add: taken_def)
qed

lemma empty_queue_same:
  assumes "empty_queue q t" "desc_at t' (unat q) = desc_at t (unat q)" "num_entries t' = num_entries t"
  shows "empty_queue q t'"
  using assms by (auto simp: empty_queue_def odq_inv_def queue_at_some odq_elems_def odq_blocked_def)

lemma filled_desc:
  assumes "filled pf tid q user nin d t i" "dq_obj_desc d ! i = Some j \<or> dq_obj_desc_cmd d ! i = Some j"
  shows "od_obj_desc_id (desc_at t j) = of_nat j \<and> body_ok (desc_at t j)
    \<and> od_type (desc_at t j) = (if dq_obj_desc d ! i = Some j then TIVX_OBJ_DESC_DATA_REF_Q else TIVX_OBJ_DESC_CMD)"
  using assms by (auto simp: filled_def ready_stage_def ready_cmd_def init_desc_def body_ok_def split: if_splits)

lemma fill_queue_ready:
  assumes "built rc t0 po0 n d t po" "acquired_all pf q user n d t" "n = unat (dq_pipeline_depth d)"
    and "n \<le> TIVX_GRAPH_MAX_PIPELINE_DEPTH" "user = qp_enable_user_queueing prms"
    and "same_setup (init_queue_fields graph prms d0) d"
  shows "\<exists>d' t'. fill_queue info q prms (at_queue q d t po h) = at_queue q d' t' po h \<and> built rc t0 po0 n d' t' po
    \<and> queue_ready pf (ownPlatformGetTargetId info (Some TIVX_TARGET_HOST)) q graph prms d' t'"
proof -
  let ?tid = "ownPlatformGetTargetId info (Some TIVX_TARGET_HOST)"
  let ?d = "if user then d\<lparr>dq_ready_q_obj_desc_id := dq_acquire_q_obj_desc_id d,
      dq_done_q_obj_desc_id := dq_release_q_obj_desc_id d\<rparr> else d"
  have l: "own_list ?d = own_list d" "own_queues ?d = own_queues d" by (simp_all add: own_list_def own_queues_def)
  have f: "dq_obj_desc ?d = dq_obj_desc d" "dq_obj_desc_cmd ?d = dq_obj_desc_cmd d"
    "dq_acquire_q_obj_desc_id ?d = dq_acquire_q_obj_desc_id d" "dq_release_q_obj_desc_id ?d = dq_release_q_obj_desc_id d"
    "dq_wait_done_ref_available_event ?d = dq_wait_done_ref_available_event d" "dq_pipeline_depth ?d = dq_pipeline_depth d"
    "dq_enable_user_queueing ?d = dq_enable_user_queueing d" "dq_graph ?d = dq_graph d"
    "dq_graph_parameter_index ?d = dq_graph_parameter_index d" by simp_all
  have b: "owns t d" "taken (set (own_list d)) t0 t" "event_freed rc d po = po0" "empty_from n d" using assms(1) by (simp_all add: built_def)
  have st: "staged pf q user n ?d t" "owns t ?d" using assms(2) b(1) l f by (simp_all add: acquired_all_def staged_def owns_def)
  obtain t' where t': "foldl (fill_stage info q prms) (at_queue q ?d t po h) [0..<n] = at_queue q ?d t' po h"
    "num_entries t' = num_entries t" "odt_last_alloc_index t' = odt_last_alloc_index t"
    "\<forall>i < n. filled pf ?tid q user (qp_num_in_nodes prms) ?d t' i"
    "\<forall>j < num_entries t. (\<forall>i < n. dq_obj_desc d ! i \<noteq> Some j \<and> dq_obj_desc_cmd d ! i \<noteq> Some j) \<longrightarrow> desc_at t' j = desc_at t j"
    using fill_stages_filled [OF st(2,1) assms(4) order_refl assms(5), where info = info and po = po and h = h] f by auto
  have run: "fill_queue info q prms (at_queue q d t po h) = at_queue q ?d t' po h"
    using t'(1) assms(3,5) by (cases user) (simp_all add: fill_queue_def Let_def)
  define S where "S = {j. \<exists>i < n. dq_obj_desc d ! i = Some j \<or> dq_obj_desc_cmd d ! i = Some j}"
  have lt: "i < n \<Longrightarrow> i < TIVX_GRAPH_MAX_PIPELINE_DEPTH" for i using assms(4) by simp
  have S: "S \<subseteq> set (somes (dq_obj_desc d)) \<union> set (somes (dq_obj_desc_cmd d))"
    using own_stage [OF b(1) lt] by (auto simp: S_def)
  have sub: "S \<subseteq> set (own_list d)" using S by (auto simp: own_list_def)
  have out: "\<forall>j < num_entries t. j \<notin> S \<longrightarrow> desc_at t' j = desc_at t j" using t'(5) by (auto simp: S_def)
  have ins: "od_type (desc_at t' j) = od_type (desc_at t j) \<and> od_obj_desc_id (desc_at t' j) = of_nat j \<and> body_ok (desc_at t' j)"
    if j: "j \<in> S" for j
  proof -
    obtain i where i: "i < n" "dq_obj_desc d ! i = Some j \<or> dq_obj_desc_cmd d ! i = Some j" using j by (auto simp: S_def)
    have "filled pf ?tid q user (qp_num_in_nodes prms) ?d t' i" using t'(4) i(1) by blast
    note fd = filled_desc [OF this, unfolded f, OF i(2)]
    have "od_type (desc_at t j) = (if dq_obj_desc d ! i = Some j then TIVX_OBJ_DESC_DATA_REF_Q else TIVX_OBJ_DESC_CMD)"
      using assms(2) i by (auto simp: acquired_all_def staged_def init_desc_def split: if_splits)
    then show ?thesis using fd by simp
  qed
  note tk = taken_filled [OF b(2) t'(2,3) sub out] 
  have tk: "taken (set (own_list d)) t0 t'" "in_use t' = in_use t" using tk ins by blast+
  have keep: "desc_at t' j = desc_at t j" if "j \<in> set (own_queues d)" for j
  proof -
    have "j \<notin> S" using that S b(1) by (auto simp: owns_def own_list_def)
    moreover have "j < num_entries t" using that b(1) by (auto simp: owns_def own_list_def in_use_def)
    ultimately show ?thesis using out by blast
  qed
  have "owns t' ?d" using b(1) tk l f(1,2) keep by (auto simp: owns_def taken_def)
  then have "built rc t0 po0 n ?d t' po" using b tk l f by (simp add: built_def event_freed_def empty_from_def)
  moreover have "queue_ready pf ?tid q graph prms ?d t'"
  proof -
    note a = assms(2) [unfolded acquired_all_def]
    note ss = same_setup_fields [OF assms(6), unfolded init_queue_fields_def, simplified]
    have "empty_queue (dq_acquire_q_obj_desc_id d) t'"
      by (rule empty_queue_same [OF _ keep t'(2)]) (use a in \<open>auto simp: own_queues_def\<close>)
    moreover have "empty_queue (dq_release_q_obj_desc_id d) t'" if user
      by (rule empty_queue_same [OF _ keep t'(2)]) (use a that in \<open>auto simp: own_queues_def\<close>)
    ultimately show ?thesis using a ss t'(4) assms(3,5) by (auto simp: queue_ready_def Let_def)
  qed
  ultimately show ?thesis using run by blast
qed


section \<open>The reference of a queue\<close>

definition same_rest :: "host \<Rightarrow> host \<Rightarrow> bool" where
  "same_rest h h' \<longleftrightarrow> ho_nodes h' = ho_nodes h \<and> ho_kernels h' = ho_kernels h \<and> ho_graphs h' = ho_graphs h
     \<and> ho_delays h' = ho_delays h \<and> (\<exists>t. ho_sys h' = (ho_sys h)\<lparr>sys_tbl := t\<rparr>)"

lemma same_sys: "\<exists>t. s = s\<lparr>sys_tbl := t\<rparr>"
  by - (rule exI [of _ "sys_tbl s"], simp)

lemma same_rest_refl [simp]: "same_rest h h"
  by (simp add: same_rest_def same_sys)

lemma same_rest_trans: "same_rest h h1 \<Longrightarrow> same_rest h1 h2 \<Longrightarrow> same_rest h h2"
  by (auto simp: same_rest_def)

lemma same_rest_simps [simp]:
  "same_rest h (upd_ref r f h)" "same_rest h (upd_context c g h)" "same_rest h (upd_data_ref_queue q k h)"
  "same_rest h (h\<lparr>ho_objects := ob\<rparr>)" "same_rest h (h\<lparr>ho_posix := po\<rparr>)" "same_rest h (at_queue q d t po h)"
  "drq_t (upd_ref r f h) q = drq_t h q" "drq_t (upd_context c g h) q = drq_t h q"
  "ho_sys (upd_ref r f h) = ho_sys h" "ho_sys (upd_context c g h) = ho_sys h"
  "ho_posix (upd_ref r f h) = ho_posix h" "ho_posix (upd_context c g h) = ho_posix h"
  "ho_data_ref_queues (upd_ref r f h) = ho_data_ref_queues h" "ho_data_ref_queues (upd_context c g h) = ho_data_ref_queues h"
  using same_sys by (auto simp: same_rest_def upd_ref_def upd_context_def upd_data_ref_queue_def at_queue_def)

text \<open>A creation of a reference other than a graph changes nothing but the object, the reference itself and
  the table of the context.\<close>

definition creation_frame :: "host \<Rightarrow> uintptr \<Rightarrow> host \<Rightarrow> bool" where
  "creation_frame h a h' \<longleftrightarrow> same_rest h h' \<and> ho_sys h' = ho_sys h \<and> ho_posix h' = ho_posix h
     \<and> ho_data_ref_queues h' = ho_data_ref_queues h \<and> (\<forall>x. x \<noteq> a \<longrightarrow> ho_refs h' x = ho_refs h x)"

lemma creation_frame_trans: "creation_frame h a h1 \<Longrightarrow> creation_frame h1 a h2 \<Longrightarrow> creation_frame h a h2"
  unfolding creation_frame_def using same_rest_trans by metis

lemma creation_frame_steps:
  "creation_frame h a (h\<lparr>ho_objects := ob\<rparr>)" "creation_frame h a (upd_ref a f h)"
  "creation_frame h a (upd_context c g h)" "creation_frame h a h"
  using same_sys by (auto simp: creation_frame_def upd_ref_def upd_context_def same_rest_def)

lemma create_frame:
  assumes "ty \<noteq> VX_TYPE_GRAPH" "ty \<noteq> VX_TYPE_CONTEXT" "ownCreateReference rc h c ty reftype scope = (h', r)"
  shows "creation_frame h (snd (ownObjectAlloc rc (ho_objects h) ty)) h'"
proof -
  obtain ob a where al: "ownObjectAlloc rc (ho_objects h) ty = (ob, a)" by fastforce
  let ?F = "creation_frame h a"
  note st = creation_frame_steps and tr = creation_frame_trans
  have ini: "creation_frame h0 a (fst (ownInitReference rc h0 a c ty scope))" for h0
    using assms(1,2) by (auto simp: ownInitReference_def ownReferenceSetScope_def ownCreateReferenceLock_def Let_def
        intro: st tr)
  have inc: "creation_frame h0 a (fst (ownIncrementReference rc h0 a reftype))" for h0
    by (simp add: ownIncrementReference_def Let_def st)
  have add: "creation_frame h0 a (fst (ownAddReferenceToContext rc h0 c a))" for h0
    by (auto simp: ownAddReferenceToContext_def vxSetReferenceName_def Let_def st split: option.split prod.split
        intro: st tr [OF st(3)] tr [OF tr [OF st(3) st(2)] st(3)] tr [OF st(3) st(3)] tr [OF st(3) st(2)])
  define h0 where "h0 = h\<lparr>ho_objects := ob\<rparr>"
  obtain h1 st1 where i: "ownInitReference rc h0 a c ty scope = (h1, st1)" by fastforce
  obtain h2 ad where ad: "ownAddReferenceToContext rc (fst (ownIncrementReference rc h1 a reftype)) c a = (h2, ad)" by fastforce
  have f0: "?F h0" by (simp add: h0_def st)
  have f1: "?F h1" using tr [OF f0 ini] i by (metis fst_conv)
  have f2: "?F h2" using tr [OF tr [OF f1 inc] add] ad by (metis fst_conv)
  have fo: "?F (x\<lparr>ho_objects := ob'\<rparr>)" if "?F x" for x ob' using tr [OF that st(1)] .
  have "h' = h0 \<or> (\<exists>ob'. h' = h1\<lparr>ho_objects := ob'\<rparr>) \<or> (\<exists>ob'. h' = h2\<lparr>ho_objects := ob'\<rparr>) \<or> h' = h1 \<or> h' = h2"
    using assms(3) al i ad by (auto simp: ownCreateReference_def Let_def h0_def split: if_splits)
  then show ?thesis using f0 f1 f2 fo al by auto
qed

lemma same_refs_ok:
  assumes "same_refs h h'"
  shows "reftable h' c = reftable h c" "refs_ok h' c = refs_ok h c" "holders h' c = holders h c"
    "vxGetStatus h' r = vxGetStatus h r"
proof -
  note s = assms [unfolded same_refs_def]
  show t: "reftable h' c = reftable h c" by (simp add: reftable_def s)
  have v: "ownIsValidContext h' c = ownIsValidContext h c" for c by (simp add: ownIsValidContext_def s)
  then show "refs_ok h' c = refs_ok h c" by (simp add: refs_ok_def t s)
  have "ownIsValidReference h' r = ownIsValidReference h r" by (simp add: ownIsValidReference_def v s)
  then show "vxGetStatus h' r = vxGetStatus h r" by (simp add: vxGetStatus_def v s)
  show "holders h' c = holders h c" by (simp add: holders_def t s fun_eq_iff)
qed

lemma destruct_same_refs: "same_refs h (fst (ownDataRefQueueDestruct rc h q))"
proof -
  have tr: "same_refs h h1 \<Longrightarrow> same_refs h1 h2 \<Longrightarrow> same_refs h h2" for h h1 h2 by (simp add: same_refs_def)
  have u: "same_refs h (upd_data_ref_queue q f (set_tbl t h))" "same_refs h (upd_data_ref_queue q f (h\<lparr>ho_posix := po\<rparr>))"
    for h f t po by (simp_all add: same_refs_def upd_data_ref_queue_def)
  have e: "same_refs h (delete_event rc q h)" for h
    by (auto simp: delete_event_def u split: option.split prod.split)
  have f: "same_refs h (fst (free_stage q i h))" "same_refs h (fst (free_cmd q i h))"
    "same_refs h (fst (release_acquire_q q h))" "same_refs h (fst (release_release_q q h))" for i h
    by (auto simp: free_stage_def free_cmd_def release_acquire_q_def release_release_q_def u split: prod.split)
  have l: "same_refs h (fst (free_stages q h is))" for h "is"
  proof (induction "is" arbitrary: h)
    case (Cons i "is")
    obtain h1 st1 where 1: "(if dq_obj_desc (drq_t h q) ! i \<noteq> None then free_stage q i h else (h, VX_SUCCESS)) = (h1, st1)" by fastforce
    obtain h2 st2 where 2: "(if st1 = VX_SUCCESS \<and> dq_obj_desc_cmd (drq_t h1 q) ! i \<noteq> None then free_cmd q i h1 else (h1, st1)) = (h2, st2)"
      by fastforce
    have "same_refs h h1" using 1 f(1) [where i = i and h = h] by (auto split: if_splits)
    moreover have "same_refs h1 h2" using 2 f(2) [where i = i and h = h1] by (auto split: if_splits)
    ultimately have "same_refs h h2" by (rule tr)
    moreover have "free_stages q h (i # is) = (if st2 \<noteq> VX_SUCCESS then (h2, st2) else free_stages q h2 is)"
      by (simp only: free_stages.simps 1 2 prod.case)
    ultimately show ?case using tr [OF _ Cons.IH] by (metis fst_conv)
  qed simp
  show ?thesis
    using tr [OF e l] tr [OF tr [OF e l] f(3)] tr [OF tr [OF tr [OF e l] f(3)] f(4)]
    by (auto simp: ownDataRefQueueDestruct_def Let_def split: prod.split) (metis fst_conv)+
qed

lemma linked_local: "callbacks_local cb \<Longrightarrow> callbacks_local (linked rc ca cb)"
  using destruct_same_refs by (simp add: callbacks_local_def linked_def)


text \<open>Releasing the only hold on a queue deletes it.\<close>

definition deletable :: "code_addresses \<Rightarrow> host \<Rightarrow> uintptr \<Rightarrow> uintptr \<Rightarrow> bool" where
  "deletable ca h c q \<longleftrightarrow> refs_ok h c \<and> q \<in> set (reftable h c) \<and> holders h c q = (0, 1)
     \<and> rf_type (ho_refs h q) = TIVX_TYPE_DATA_REF_Q \<and> rf_supplementary_data (ho_refs h q) = 0
     \<and> rf_destructor_callback (ho_refs h q) = fn_ownDataRefQueueDestruct ca \<and> fn_ownDataRefQueueDestruct ca \<noteq> 0
     \<and> owns (tbl h) (drq_t h q) \<and> unat (dq_pipeline_depth (drq_t h q)) \<le> TIVX_GRAPH_MAX_PIPELINE_DEPTH
     \<and> empty_from (unat (dq_pipeline_depth (drq_t h q))) (drq_t h q)"

lemma queue_release:
  assumes "deletable ca h c q" "rc_mutex_lock rc = 0" "callbacks_local cb"
    and "ownDataRefQueueRelease rc ca cb h q = (h', p, st)"
  shows "refs_ok h' c" "holders h' c = (holders h c)(q := (0, 0))" "p = 0" "st = VX_SUCCESS"
    "given (set (own_list (drq_t h q))) (tbl h) (tbl h')" "ho_posix h' = event_freed rc (drq_t h q) (ho_posix h)"
    "same_rest h h'" "\<forall>x. x \<noteq> q \<longrightarrow> ho_refs h' x = ho_refs h x \<and> drq_t h' x = drq_t h x"
proof -
  note d = assms(1) [unfolded deletable_def]
  have q: "refs_ok h c" "q \<in> set (reftable h c)" "rf_supplementary_data (ho_refs h q) = 0" using d by simp_all
  note g = refs_ok_good [OF q(1,2)]
  have run: "ownReleaseReferenceInt rc (linked rc ca cb) h q (rf_type (ho_refs h q)) VX_INTERNAL 0 = (h', p, st)"
    using assms(4) d by (simp add: ownDataRefQueueRelease_def)
  note r = release_ok [OF q(1,2) assms(2) linked_local [OF assms(3)] q(3) run]
  show "refs_ok h' c" "p = 0" using r(1,3) by simp_all
  show "holders h' c = (holders h c)(q := (0, 0))" using r(2) d by (simp add: drop_one_def)
  define h1 where "h1 = upd_ref q (dec_counts VX_INTERNAL) h"
  have cnt: "counts (ho_refs h1 q) = (0, 0)"
    using d by (auto simp: h1_def counts_dec drop_one_def holders_def)
  have dec: "ownDecrementReference rc h q VX_INTERNAL = (h1, 0)"
    using table_lock_ok [OF q(1,2) assms(2)] g(1) cnt counts_sum [of "ho_refs h1 q"]
    by (simp add: ownDecrementReference_def Let_def h1_def)
  have f1: "rf_type (ho_refs h1 q) = TIVX_TYPE_DATA_REF_Q" "rf_context (ho_refs h1 q) = c"
    "rf_supplementary_data (ho_refs h1 q) = 0" "rf_destructor_callback (ho_refs h1 q) = fn_ownDataRefQueueDestruct ca"
    using d g(3) by (simp_all add: h1_def good_ref_def)
  have "\<exists>h3. destroy_reference rc (linked rc ca cb) h1 q 0 = (h3, VX_SUCCESS) \<and> same_rest h h3
      \<and> given (set (own_list (drq_t h q))) (tbl h) (tbl h3) \<and> ho_posix h3 = event_freed rc (drq_t h q) (ho_posix h)
      \<and> (\<forall>x. x \<noteq> q \<longrightarrow> ho_refs h3 x = ho_refs h x \<and> drq_t h3 x = drq_t h x)"
  proof -
    have ok: "ownIsValidContext h c" "cx_lock (ho_contexts h c) \<noteq> None" using q(1) by (simp_all add: refs_ok_def)
    have t: "reftable h1 c = reftable h c" by (simp add: reftable_def h1_def)
    have vc: "ownIsValidContext h1 c" using ok(1) g(2) by (simp add: ownIsValidContext_def h1_def)
    have "cx_lock (ho_contexts h1 c) \<noteq> None" using ok(2) by (simp add: h1_def)
    from remove_reference [OF vc assms(2) this, of q] obtain ct where
      rem: "ownRemoveReferenceFromContext rc h1 c q = (upd_context c (\<lambda>_. ct) h1, True)" using q(2) t by auto
    let ?h = "upd_context c (\<lambda>_. ct) h1"
    have e: "drq_t ?h q = drq_t h q" "tbl ?h = tbl h" "ho_posix ?h = ho_posix h" "rf_type (ho_refs ?h q) = TIVX_TYPE_DATA_REF_Q"
      using f1(1) by (simp_all add: h1_def)
    obtain t' d' where ds: "ownDataRefQueueDestruct rc ?h q
        = ((put_queue q d' t' ?h)\<lparr>ho_posix := event_freed rc (drq_t h q) (ho_posix h)\<rparr>, VX_SUCCESS)"
      "given (set (own_list (drq_t h q))) (tbl h) t'"
      using destruct_owned [of ?h q rc] e d by auto
    define h2 where "h2 = (put_queue q d' t' ?h)\<lparr>ho_posix := event_freed rc (drq_t h q) (ho_posix h)\<rparr>"
    have s2: "same_rest h h2" by (auto simp: same_rest_def h1_def h2_def upd_ref_def upd_context_def upd_data_ref_queue_def)
    have p2: "tbl h2 = t'" "ho_posix h2 = event_freed rc (drq_t h q) (ho_posix h)" "rf_type (ho_refs h2 q) = TIVX_TYPE_DATA_REF_Q"
      "x \<noteq> q \<Longrightarrow> ho_refs h2 x = ho_refs h x" "x \<noteq> q \<Longrightarrow> drq_t h2 x = drq_t h x" for x
      using f1(1) by (simp_all add: h2_def h1_def upd_data_ref_queue_def)
    have dl: "ownDeleteReferenceLock rc h2 q = (h2, VX_SUCCESS)" using p2(3) g(1) by (simp add: ownDeleteReferenceLock_def)
    obtain ob where "destroy_reference rc (linked rc ca cb) h1 q 0
        = ((upd_ref q (\<lambda>r. r\<lparr>rf_magic := TIVX_BAD_MAGIC\<rparr>) h2)\<lparr>ho_objects := ob\<rparr>, VX_SUCCESS)"
      using rem f1(2,4) d ds(1) [folded h2_def] dl by (simp add: destroy_reference_def linked_def Let_def)
    moreover have "same_rest h ((upd_ref q f h2)\<lparr>ho_objects := ob\<rparr>)" for f
      using same_rest_trans [OF s2 same_rest_trans [OF same_rest_simps(1) same_rest_simps(4)]] .
    ultimately show ?thesis using ds(2) p2 by (intro exI conjI) (assumption | simp)+
  qed
  then obtain h3 where h3: "destroy_reference rc (linked rc ca cb) h1 q 0 = (h3, VX_SUCCESS)" "same_rest h h3"
    "given (set (own_list (drq_t h q))) (tbl h) (tbl h3)" "ho_posix h3 = event_freed rc (drq_t h q) (ho_posix h)"
    "\<forall>x. x \<noteq> q \<longrightarrow> ho_refs h3 x = ho_refs h x \<and> drq_t h3 x = drq_t h x" by blast
  have "release_supplementary (linked rc ca cb) h1 q = h1" using f1(3) by (simp add: release_supplementary_def)
  then have res: "h' = h3" "st = VX_SUCCESS" using run g(5) dec h3(1) by (simp_all add: ownReleaseReferenceInt_def)
  show "st = VX_SUCCESS" "given (set (own_list (drq_t h q))) (tbl h) (tbl h')"
    "ho_posix h' = event_freed rc (drq_t h q) (ho_posix h)" "same_rest h h'"
    "\<forall>x. x \<noteq> q \<longrightarrow> ho_refs h' x = ho_refs h x \<and> drq_t h' x = drq_t h x"
    using res h3 by simp_all
qed


section \<open>When a creation fails\<close>

lemma length_somes: "length (somes l) = card {i. i < length l \<and> l ! i \<noteq> None}"
proof -
  have "length (somes l) = length (filter (\<lambda>x. x \<noteq> None) l)"
    by (induction l) (auto simp: somes_def split: option.split)
  then show ?thesis by (simp add: length_filter_conv_card)
qed

lemma length_somes_bound:
  assumes "\<forall>i < length l. n \<le> i \<longrightarrow> l ! i = None"
  shows "length (somes l) \<le> n" "i < n \<Longrightarrow> l ! i = None \<Longrightarrow> length (somes l) < n"
proof -
  have s: "{i. i < length l \<and> l ! i \<noteq> None} \<subseteq> {..<n}" using assms by force
  then show "length (somes l) \<le> n" using card_mono [OF _ s] by (simp add: length_somes)
  assume "i < n" "l ! i = None"
  then have "i \<in> {..<n}" "i \<notin> {i. i < length l \<and> l ! i \<noteq> None}" by simp_all
  then have "{i. i < length l \<and> l ! i \<noteq> None} \<subset> {..<n}" using s by blast
  then show "length (somes l) < n" using psubset_card_mono [of "{..<n}"] by (simp add: length_somes)
qed

lemma own_list_short:
  assumes "owns t d" "empty_from n d" "short user n d"
  shows "length (own_list d) < 2 * n + 2"
proof -
  have e: "\<forall>i < length (dq_obj_desc d). n \<le> i \<longrightarrow> dq_obj_desc d ! i = None"
    "\<forall>i < length (dq_obj_desc_cmd d). n \<le> i \<longrightarrow> dq_obj_desc_cmd d ! i = None"
    using assms(1,2) by (simp_all add: owns_def empty_from_def)
  note b = length_somes_bound [OF e(1)] length_somes_bound [OF e(2)]
  have q: "length (own_queues d) \<le> 2" by (simp add: own_queues_def)
  have q1: "length (own_queues d) < 2" if "dq_acquire_q_obj_desc_id d = TIVX_OBJ_DESC_INVALID \<or> dq_release_q_obj_desc_id d = TIVX_OBJ_DESC_INVALID"
    using that by (auto simp: own_queues_def)
  consider i where "i < n" "dq_obj_desc d ! i = None" | i where "i < n" "dq_obj_desc_cmd d ! i = None"
    | "dq_acquire_q_obj_desc_id d = TIVX_OBJ_DESC_INVALID \<or> dq_release_q_obj_desc_id d = TIVX_OBJ_DESC_INVALID"
    using assms(3) by (auto simp: short_def)
  then show ?thesis
  proof cases
    case 1
    then show ?thesis using b(2) [OF 1] b(3) q by (simp add: own_list_def)
  next
    case 2
    then show ?thesis using b(4) [OF 2] b(1) q by (simp add: own_list_def)
  next
    case 3
    then show ?thesis using q1 [OF 3] b(1,3) by (simp add: own_list_def)
  qed
qed

text \<open>No object or no room in the context for the reference, fewer descriptors than two for each stage and
  two for the queues, or no event.\<close>

definition lacking :: "posix_rc \<Rightarrow> uintptr \<Rightarrow> host \<Rightarrow> tivx_data_ref_queue_create_params_t \<Rightarrow> bool" where
  "lacking rc c h prms \<longleftrightarrow> create_refused h c TIVX_TYPE_DATA_REF_Q
     \<or> num_entries (tbl h) < card (in_use (tbl h)) + 2 * unat (qp_pipeline_depth prms) + 2
     \<or> qp_enable_user_queueing prms \<and> snd (snd (tivxEventCreate rc (ho_posix h))) \<noteq> VX_SUCCESS"

lemma built_short:
  assumes "built rc t0 po0 n d t po" "full t" "short user n d"
  shows "num_entries t0 < card (in_use t0) + 2 * n + 2"
proof -
  have b: "owns t d" "taken (set (own_list d)) t0 t" "empty_from n d" using assms(1) by (simp_all add: built_def)
  have u: "in_use t0 \<union> set (own_list d) = {..<num_entries t0}" "in_use t0 \<inter> set (own_list d) = {}"
    using b(2) assms(2) by (auto simp: taken_def full_def)
  have f: "finite (in_use t0)" by (simp add: in_use_def)
  have "num_entries t0 = card (in_use t0) + card (set (own_list d))"
    using card_Un_disjoint [OF f _ u(2)] u(1) by simp
  moreover have "card (set (own_list d)) = length (own_list d)" using b(1) by (simp add: owns_def distinct_card)
  ultimately show ?thesis using own_list_short [OF b(1,3) assms(3)] by simp
qed

section \<open>Creation and deletion\<close>

text \<open>The host as it was, as far as anybody can tell who holds a reference or a descriptor.\<close>

definition restored :: "uintptr \<Rightarrow> host \<Rightarrow> host \<Rightarrow> bool" where
  "restored c h h' \<longleftrightarrow> refs_ok h' c \<and> holders h' c = holders h c \<and> taken {} (tbl h) (tbl h') \<and> ho_posix h' = ho_posix h
     \<and> same_rest h h' \<and> (\<forall>ty \<in> ref_types. live_objects (ho_objects h') ty = live_objects (ho_objects h) ty)
     \<and> (\<forall>x \<in> insert c (set (reftable h c)). ho_refs h' x = ho_refs h x \<and> drq_t h' x = drq_t h x)"

text \<open>A new queue beside what was there.\<close>

definition created :: "posix_rc \<Rightarrow> code_addresses \<Rightarrow> uintptr \<Rightarrow> host \<Rightarrow> host \<Rightarrow> uintptr \<Rightarrow> bool" where
  "created rc ca c h h' q \<longleftrightarrow> q \<noteq> 0 \<and> q \<notin> insert c (set (reftable h c)) \<and> deletable ca h' c q
     \<and> holders h' c = (holders h c)(q := (0, 1)) \<and> taken (set (own_list (drq_t h' q))) (tbl h) (tbl h')
     \<and> event_freed rc (drq_t h' q) (ho_posix h') = ho_posix h \<and> same_rest h h'
     \<and> (\<forall>x \<in> insert c (set (reftable h c)). ho_refs h' x = ho_refs h x \<and> drq_t h' x = drq_t h x)"

lemma reftable_holders: "refs_ok h c \<Longrightarrow> set (reftable h c) = {r. holders h c r \<noteq> (0, 0)}"
  using refs_ok_good(3) by (auto simp: holders_def good_ref_def)

lemma live_of_holders:
  assumes "refs_ok h c" "refs_ok h' c" "holders h' c = holders h c" "\<forall>x \<in> set (reftable h c). ho_refs h' x = ho_refs h x"
    and "ty \<in> ref_types"
  shows "live_objects (ho_objects h') ty = live_objects (ho_objects h) ty"
proof -
  have "set (reftable h' c) = set (reftable h c)" using assms(1-3) by (simp add: reftable_holders)
  then show ?thesis using assms by (auto simp: refs_ok_def)
qed

lemma created_release:
  assumes "created rc ca c h h1 q" "refs_ok h c" "rc_mutex_lock rc = 0" "callbacks_local cb"
    and "ownDataRefQueueRelease rc ca cb h1 q = (h2, p, st)"
  shows "p = 0" "st = VX_SUCCESS" "restored c h h2"
proof -
  note d = assms(1) [unfolded created_def]
  then have "deletable ca h1 c q" by simp
  note r = queue_release [OF this assms(3-5)]
  show "p = 0" "st = VX_SUCCESS" using r(3,4) .
  have "holders h c q = (0, 0)" using d by (simp add: holders_def)
  then have hs: "holders h2 c = holders h c" using r(2) d by (auto simp: fun_eq_iff)
  have "taken {} (tbl h) (tbl h2)" using taken_given [OF _ r(5)] d by blast
  moreover have same: "ho_refs h2 x = ho_refs h x \<and> drq_t h2 x = drq_t h x" if "x \<in> insert c (set (reftable h c))" for x
  proof -
    have "x \<noteq> q" using that d by auto
    then show ?thesis using r(8) d that by auto
  qed
  moreover have "same_rest h h2" using same_rest_trans [OF _ r(7)] d by blast
  ultimately show "restored c h h2"
    using r(1,6) d hs live_of_holders [OF assms(2) r(1) hs] by (simp add: restored_def)
qed

text \<open>The reference of the queue, with its pointers to functions.\<close>

lemma new_reference:
  assumes "refs_ok h c" "rc_mutex_lock rc = 0"
    and "ownCreateReference rc h c TIVX_TYPE_DATA_REF_Q VX_INTERNAL g = (h1, r)"
  shows "vxGetStatus h1 r = VX_SUCCESS \<and> rf_type (ho_refs h1 r) = TIVX_TYPE_DATA_REF_Q
      \<longleftrightarrow> r \<noteq> 0 \<and> rf_type (ho_refs h1 r) = TIVX_TYPE_DATA_REF_Q" (is ?valid)
    and "refs_ok h1 c" "same_rest h h1" "ho_sys h1 = ho_sys h" "ho_posix h1 = ho_posix h" "ho_data_ref_queues h1 = ho_data_ref_queues h"
    and "\<forall>x \<in> insert c (set (reftable h c)). ho_refs h1 x = ho_refs h x"
    and "(if r \<noteq> 0 \<and> rf_type (ho_refs h1 r) = TIVX_TYPE_DATA_REF_Q
          then r \<notin> insert c (set (reftable h c)) \<and> r \<in> set (reftable h1 c) \<and> rf_supplementary_data (ho_refs h1 r) = 0
            \<and> holders h1 c = (holders h c)(r := (0, 1))
          else holders h1 c = holders h c \<and> create_refused h c TIVX_TYPE_DATA_REF_Q)"
proof -
  have ty: "TIVX_TYPE_DATA_REF_Q \<in> ref_types" by (simp add: ref_types_def object_types_def)
  note cr = create_ok [OF assms(1,2) ty assms(3)]
  show "refs_ok h1 c" by (rule cr(1))
  obtain ob a where al: "ownObjectAlloc rc (ho_objects h) TIVX_TYPE_DATA_REF_Q = (ob, a)" by fastforce
  have "creation_frame h (snd (ownObjectAlloc rc (ho_objects h) TIVX_TYPE_DATA_REF_Q)) h1"
    by (rule create_frame [OF _ _ assms(3)]) simp_all
  then have fr: "creation_frame h a h1" using al by simp
  then show "same_rest h h1" "ho_sys h1 = ho_sys h" "ho_posix h1 = ho_posix h" "ho_data_ref_queues h1 = ho_data_ref_queues h"
    by (simp_all add: creation_frame_def)
  have ok: "objects_ok (ho_objects h)" "pools_apart (ho_objects h)" "c \<in> live_objects (ho_objects h) VX_TYPE_CONTEXT"
    using assms(1) by (simp_all add: refs_ok_def)
  have out: "a \<notin> insert c (set (reftable h c))"
  proof (cases "a = 0")
    case True
    then show ?thesis using refs_ok_good(1) [OF assms(1)] live_nonzero [OF ok(1,3)] by auto
  next
    case False
    note oa = object_alloc(3) [OF ok(1) assms(2) al False]
    have "pools_apart ob" using ok(2) slots_object_alloc [OF al] by (simp add: pools_apart_def)
    then have "t = TIVX_TYPE_DATA_REF_Q" if "a \<in> live_objects (ho_objects h) t" for t
      using that live_apart [of ob a t TIVX_TYPE_DATA_REF_Q] oa by (cases "t = TIVX_TYPE_DATA_REF_Q") auto
    then show ?thesis using oa ok(3) refs_ok_good(4) [OF assms(1)] by fastforce
  qed
  then show "\<forall>x \<in> insert c (set (reftable h c)). ho_refs h1 x = ho_refs h x"
    using fr by (auto simp: creation_frame_def)
  have err: "r = 0 \<or> rf_type (ho_refs h1 r) = VX_TYPE_ERROR" if "r = ownGetErrorObject rc h1 c VX_ERROR_NO_RESOURCES"
    using error_object [of rc h1 c VX_ERROR_NO_RESOURCES] that by simp
  have nc: "r \<noteq> c" if "r \<in> set (reftable h1 c)" using refs_ok_good(2) [OF cr(1) that] .
  show "(if r \<noteq> 0 \<and> rf_type (ho_refs h1 r) = TIVX_TYPE_DATA_REF_Q
          then r \<notin> insert c (set (reftable h c)) \<and> r \<in> set (reftable h1 c) \<and> rf_supplementary_data (ho_refs h1 r) = 0
            \<and> holders h1 c = (holders h c)(r := (0, 1))
          else holders h1 c = holders h c \<and> create_refused h c TIVX_TYPE_DATA_REF_Q)"
    using cr(2) err nc by (auto simp: bump_def)
  show ?valid
  proof
    assume r: "r \<noteq> 0 \<and> rf_type (ho_refs h1 r) = TIVX_TYPE_DATA_REF_Q"
    then have "r \<in> set (reftable h1 c)" using cr(2) err by auto
    then show "vxGetStatus h1 r = VX_SUCCESS \<and> rf_type (ho_refs h1 r) = TIVX_TYPE_DATA_REF_Q"
      using r refs_ok_good(6) [OF cr(1)] by (simp add: vxGetStatus_def)
  qed (auto simp: vxGetStatus_def)
qed

lemma create_queue:
  assumes "refs_ok h (rf_context (ho_refs h graph))" "graph \<noteq> 0" "table_wf (tbl h)" "rc_mutex_lock rc = 0" "callbacks_local cb"
    and "fn_ownDataRefQueueDestruct ca \<noteq> 0" "qp_pipeline_depth prms \<le> 16"
    and "tivxDataRefQueueCreate rc pf info ca cb h graph prms = (h', q)"
  shows "q = 0 \<and> restored (rf_context (ho_refs h graph)) h h' \<and> lacking rc (rf_context (ho_refs h graph)) h prms
    \<or> created rc ca (rf_context (ho_refs h graph)) h h' q
      \<and> queue_ready pf (ownPlatformGetTargetId info (Some TIVX_TARGET_HOST)) q graph prms (drq_t h' q) (tbl h')"
proof -
  let ?c = "rf_context (ho_refs h graph)" and ?user = "qp_enable_user_queueing prms" and ?n = "unat (qp_pipeline_depth prms)"
  obtain h1 r where cr: "ownCreateReference rc h ?c TIVX_TYPE_DATA_REF_Q VX_INTERNAL graph = (h1, r)" by fastforce
  note nr = new_reference [OF assms(1,4) cr]
  have n: "?n \<le> TIVX_GRAPH_MAX_PIPELINE_DEPTH" using assms(7) by (simp add: word_le_nat_alt)
  show ?thesis
  proof (cases "r \<noteq> 0 \<and> rf_type (ho_refs h1 r) = TIVX_TYPE_DATA_REF_Q")
    case False
    then have res: "h' = h1" "q = 0" using assms(2,8) cr nr(1) by (auto simp: tivxDataRefQueueCreate_def)
    moreover have hs: "holders h1 ?c = holders h ?c" "lacking rc ?c h prms"
      using nr(8) False by (simp_all add: lacking_def split: if_splits)
    moreover have "taken {} (tbl h) (tbl h1)" using nr(4) assms(3) by (simp add: taken_refl)
    ultimately show ?thesis
      using nr(2-7) live_of_holders [OF assms(1) nr(2) hs(1)] by (simp add: restored_def)
  next
    case True
    then have r: "r \<noteq> 0" "rf_type (ho_refs h1 r) = TIVX_TYPE_DATA_REF_Q" "r \<notin> insert ?c (set (reftable h ?c))"
      "r \<in> set (reftable h1 ?c)" "rf_supplementary_data (ho_refs h1 r) = 0" "holders h1 ?c = (holders h ?c)(r := (0, 1))"
      using nr(8) by simp_all
    define F where "F = (\<lambda>x :: vx_reference_t. x\<lparr>rf_destructor_callback := fn_ownDataRefQueueDestruct ca,
        rf_mem_alloc_callback := 0, rf_release_callback := fn_ownReleaseReferenceBufferGeneric ca\<rparr>)"
    define hb where "hb = upd_ref r F h1"
    have cF: "counts (F x) = counts x" "rf_type (F x) = rf_type x" "rf_supplementary_data (F x) = rf_supplementary_data x" for x
      by (simp_all add: F_def counts_def)
    have good: "good_ref ?c (F (ho_refs h1 r))"
      using refs_ok_good(3) [OF nr(2) r(4)] by (simp add: good_ref_def cF) (simp add: F_def)
    note rb = refs_ok_counts [where f = F, OF nr(2) r(4) good cF(2), folded hb_def]
    have hb: "refs_ok hb ?c" "holders hb ?c = holders h1 ?c" "reftable hb ?c = reftable h1 ?c"
      using rb r(4) by (auto simp: cF holders_def fun_eq_iff hb_def reftable_def)
    let ?d0 = "init_queue_fields graph prms (drq_t h r)"
    have h2: "upd_data_ref_queue r (init_queue_fields graph prms) hb = at_queue r ?d0 (tbl h) (ho_posix h) hb"
      using nr(4-6) by (simp add: at_queue_def hb_def upd_data_ref_queue_def)
    have d0: "own_list ?d0 = []" "own_queues ?d0 = []" by (simp_all add: own_list_def own_queues_def init_queue_fields_def)
    have b0: "built rc (tbl h) (ho_posix h) 0 ?d0 (tbl h) (ho_posix h)"
      using assms(3) d0 by (simp add: built_def owns_def taken_refl event_freed_def empty_from_def init_queue_fields_def)
    obtain h3 st where aq: "acquire_resources rc pf r ?user (at_queue r ?d0 (tbl h) (ho_posix h) hb) = (h3, st)" by fastforce
    obtain d t po where p: "h3 = at_queue r d t po hb" "built rc (tbl h) (ho_posix h) ?n d t po"
      "same_setup ?d0 d" "if st = VX_SUCCESS then acquired_all pf r ?user ?n d t
       else full t \<and> short ?user ?n d \<or> ?user \<and> snd (snd (tivxEventCreate rc (ho_posix h))) \<noteq> VX_SUCCESS"
      using acquire_resources_built [OF b0 _ _ assms(4) _ _ _ aq, where n = ?n] n
      by (auto simp: init_queue_fields_def)
    have dep: "dq_pipeline_depth d = qp_pipeline_depth prms"
      using same_setup_fields(1) [OF p(3)] by (simp add: init_queue_fields_def)
    text \<open>Whatever the queue has by now, it is deletable.\<close>
    have new: "created rc ca ?c h (at_queue r d' t' po' hb) r"
      if b: "built rc (tbl h) (ho_posix h) ?n d' t' po'" and dd: "dq_pipeline_depth d' = qp_pipeline_depth prms" for d' t' po'
    proof -
      have s: "same_refs hb (at_queue r d' t' po' hb)" by simp
      note so = same_refs_ok [OF s] and sr = s [unfolded same_refs_def]
      have "refs_ok (at_queue r d' t' po' hb) ?c" "r \<in> set (reftable (at_queue r d' t' po' hb) ?c)"
        "holders (at_queue r d' t' po' hb) ?c = (holders h ?c)(r := (0, 1))"
        using so hb r(4,6) by simp_all
      moreover have "rf_type (ho_refs (at_queue r d' t' po' hb) r) = TIVX_TYPE_DATA_REF_Q"
        "rf_supplementary_data (ho_refs (at_queue r d' t' po' hb) r) = 0"
        "rf_destructor_callback (ho_refs (at_queue r d' t' po' hb) r) = fn_ownDataRefQueueDestruct ca"
        using sr r(2,5) by (simp_all add: hb_def cF) (simp add: F_def)
      ultimately have "deletable ca (at_queue r d' t' po' hb) ?c r"
        using assms(6) b dd n by (simp add: deletable_def built_def)
      moreover have "same_rest h (at_queue r d' t' po' hb)"
        using same_rest_trans [OF same_rest_trans [OF nr(3) same_rest_simps(1)] same_rest_simps(6)] by (simp add: hb_def)
      moreover have "ho_refs (at_queue r d' t' po' hb) x = ho_refs h x \<and> drq_t (at_queue r d' t' po' hb) x = drq_t h x"
        if "x \<in> insert ?c (set (reftable h ?c))" for x
      proof -
        have "x \<noteq> r" using that r(3) by auto
        then show ?thesis using sr nr(6,7) that by (auto simp: hb_def at_queue_def upd_data_ref_queue_def)
      qed
      ultimately show ?thesis
        using b r(1,3) so(3) hb(2) r(6) by (simp add: created_def built_def)
    qed
    have run: "(h', q) = (if st = VX_SUCCESS then (fill_queue info r prms h3, r)
        else (fst (ownDataRefQueueRelease rc ca cb h3 r), 0))"
      using assms(2,8) cr nr(1) True aq h2 by (simp add: tivxDataRefQueueCreate_def Let_def F_def hb_def)
    show ?thesis
    proof (cases "st = VX_SUCCESS")
      case False
      obtain h4 p' st' where rel: "ownDataRefQueueRelease rc ca cb h3 r = (h4, p', st')" by (metis prod_cases3)
      have "created rc ca ?c h h3 r" using new [OF p(2) dep] p(1) by simp
      moreover have "lacking rc ?c h prms" using p(4) False built_short [OF p(2)] by (auto simp: lacking_def)
      ultimately show ?thesis using created_release(3) [OF _ assms(1,4,5) rel] run rel False by simp
    next
      case ok: True
      have aqd: "acquired_all pf r ?user ?n d t" using p(4) ok by simp
      obtain d' t' where f: "fill_queue info r prms (at_queue r d t po hb) = at_queue r d' t' po hb"
        "built rc (tbl h) (ho_posix h) ?n d' t' po"
        "queue_ready pf (ownPlatformGetTargetId info (Some TIVX_TARGET_HOST)) r graph prms d' t'"
        using fill_queue_ready [OF p(2) aqd _ n refl p(3), where info = info and h = hb] dep by auto
      have "dq_pipeline_depth d' = qp_pipeline_depth prms" using f(3) by (simp add: queue_ready_def Let_def)
      from new [OF f(2) this] show ?thesis using run ok p(1) f by simp
    qed
  qed
qed



text \<open>C10: the creation of a data reference queue either fails, only for want of an object, descriptors or
  an event, and leaves the references, the descriptors and the pools as they were; or it gives a queue whose
  stages name its own, empty queues, made of descriptors that were free, and the deletion of that queue
  succeeds and gives back exactly what the creation took.\<close>

theorem data_ref_queue_lifecycle:
  assumes "refs_ok h (rf_context (ho_refs h graph))" "graph \<noteq> 0" "table_wf (tbl h)" "rc_mutex_lock rc = 0" "callbacks_local cb"
    and "fn_ownDataRefQueueDestruct ca \<noteq> 0" "qp_pipeline_depth prms \<le> 16"
    and "tivxDataRefQueueCreate rc pf info ca cb h graph prms = (h1, q)"
  shows "if q = 0 then restored (rf_context (ho_refs h graph)) h h1 \<and> lacking rc (rf_context (ho_refs h graph)) h prms
    else q \<notin> set (reftable h (rf_context (ho_refs h graph)))
      \<and> queue_ready pf (ownPlatformGetTargetId info (Some TIVX_TARGET_HOST)) q graph prms (drq_t h1 q) (tbl h1)
      \<and> taken (set (own_list (drq_t h1 q))) (tbl h) (tbl h1)
      \<and> (\<forall>h2 p st. ownDataRefQueueRelease rc ca cb h1 q = (h2, p, st) \<longrightarrow>
            p = 0 \<and> st = VX_SUCCESS \<and> restored (rf_context (ho_refs h graph)) h h2)"
proof -
  note c = create_queue [OF assms]
  show ?thesis
  proof (cases "q = 0")
    case True
    then show ?thesis using c by (auto simp: created_def)
  next
    case False
    then have cr: "created rc ca (rf_context (ho_refs h graph)) h h1 q"
      and "queue_ready pf (ownPlatformGetTargetId info (Some TIVX_TARGET_HOST)) q graph prms (drq_t h1 q) (tbl h1)" using c by auto
    then show ?thesis using False created_release [OF cr assms(1,4,5)] by (auto simp: created_def)
  qed
qed

text \<open>A graph in a context with an empty table of references, and eight free descriptors.\<close>

definition queue_host :: host where
  "queue_host = ref_host
     \<lparr>ho_sys := (sample_sys 0x100)\<lparr>sys_tbl := \<lparr>odt_table_base = replicate 8 free_desc, odt_last_alloc_index = 0\<rparr>\<rparr>,
      ho_refs := (ho_refs ref_host)(0x700 := zero_ref\<lparr>rf_type := VX_TYPE_GRAPH, rf_context := ctx_addr\<rparr>)\<rparr>"

definition queue_prms :: tivx_data_ref_queue_create_params_t where
  "queue_prms = \<lparr>qp_pipeline_depth = 2, qp_num_in_nodes = 1, qp_enable_user_queueing = True,
     qp_is_enable_send_ref_consumed_event = False, qp_is_enable_send_ref_consumed_graph_event = False,
     qp_graph_parameter_index = 0\<rparr>"

definition sample_code :: code_addresses where
  "sample_code = \<lparr>fn_ownDataRefQueueDestruct = 0x10, fn_ownReleaseReferenceBufferGeneric = 0x20\<rparr>"

lemma queue_host_ok:
  "refs_ok queue_host ctx_addr" "table_wf (tbl queue_host)" "rf_context (ho_refs queue_host 0x700) = ctx_addr"
  "\<not> lacking posix_ok ctx_addr queue_host queue_prms"
proof -
  have ob: "objects_ok (ho_objects ref_host)" "pools_apart (ho_objects ref_host)" using ref_host_ok(1) by (simp_all add: refs_ok_def)
  show "refs_ok queue_host ctx_addr"
  proof (rule refs_ok_outside(1) [OF ref_host_ok(1)])
    show "(0x700 :: uintptr) \<notin> set (reftable ref_host ctx_addr)" using ref_host_ok(2) by simp
  qed (simp_all add: queue_host_def ctx_addr_def ob)
  show "table_wf (tbl queue_host)" by (simp add: queue_host_def table_wf_def free_desc_def)
  show "rf_context (ho_refs queue_host 0x700) = ctx_addr" by (simp add: queue_host_def)
  have "in_use (tbl queue_host) = {}" "num_entries (tbl queue_host) = 8"
    by (simp_all add: queue_host_def in_use_def free_desc_def)
  moreover have "snd (snd (tivxEventCreate posix_ok (ho_posix queue_host))) = VX_SUCCESS"
    by (simp add: queue_host_def ref_host_def host_of_links_def tivxEventCreate_def ownPosixObjectAlloc_def posix_ok_def
        sample_posix_objects_def ownAllocPosixObject_def Let_def)
  moreover have "\<not> create_refused queue_host ctx_addr TIVX_TYPE_DATA_REF_Q"
    by (simp add: create_refused_def queue_host_def ref_host_def host_of_links_def zero_context_def set_inUse_def
        sample_objects_def)
  ultimately show "\<not> lacking posix_ok ctx_addr queue_host queue_prms" by (simp add: lacking_def queue_prms_def)
qed

theorem data_ref_queue_lifecycle_witness:
  "\<exists>h1 q h2. tivxDataRefQueueCreate posix_ok sample_ids sample_info sample_code no_callbacks queue_host 0x700 queue_prms = (h1, q)
    \<and> q \<noteq> 0 \<and> ownDataRefQueueRelease posix_ok sample_code no_callbacks h1 q = (h2, 0, VX_SUCCESS)
    \<and> holders h2 ctx_addr = holders queue_host ctx_addr"
proof -
  obtain h1 q where c: "tivxDataRefQueueCreate posix_ok sample_ids sample_info sample_code no_callbacks queue_host 0x700 queue_prms
      = (h1, q)" by fastforce
  obtain h2 p st where r: "ownDataRefQueueRelease posix_ok sample_code no_callbacks h1 q = (h2, p, st)" by (metis prod_cases3)
  have ca: "fn_ownDataRefQueueDestruct sample_code \<noteq> 0" "qp_pipeline_depth queue_prms \<le> 16"
    by (simp_all add: sample_code_def queue_prms_def)
  have ok: "refs_ok queue_host (rf_context (ho_refs queue_host 0x700))" using queue_host_ok(1,3) by simp
  note t = data_ref_queue_lifecycle [OF ok _ queue_host_ok(2) posix_ok_lock(1) no_callbacks_local ca c]
  show ?thesis using t queue_host_ok(3,4) c r by (auto simp: restored_def split: if_splits)
qed

end
