(* ===== verification/Graph_Queues.thy ===== *)
theory Graph_Queues
  imports Data_Ref_Queues
begin

text \<open>
  The data reference queues of a graph: \<open>source/framework/vx_graph_verify.c\<close> makes one for every graph
  parameter that the application feeds, one for every other output that somebody reads, and one for every
  further slot of a delay that an output writes to; it fills them with their first references and links
  them to the parameters of the nodes. \<open>vx_data_ref_queue.c\<close> links the queues of a delay to a ring, and
  \<open>vx_graph.c\<close> releases all of them when the graph is deleted.
\<close>

section \<open>What the functions share\<close>

text \<open>The platform, the code behind the pointers to functions (\<open>ve_mem\<close> allocates the memory of a reference),
  and the value that a variable on the stack happens to have.\<close>

record verify_env =
  ve_rc :: posix_rc
  ve_pf :: platform_ids
  ve_info :: "tivx_target_info list"
  ve_ca :: code_addresses
  ve_cb :: ref_callbacks
  ve_mem :: "uintptr \<Rightarrow> host \<Rightarrow> uintptr \<Rightarrow> host \<times> vx_status"
  ve_uninit :: bool

text \<open>A loop that a failure ends.\<close>

fun for_each :: "('a \<Rightarrow> host \<Rightarrow> host \<times> vx_status) \<Rightarrow> 'a list \<Rightarrow> host \<Rightarrow> host \<times> vx_status" where
  "for_each f [] h = (h, VX_SUCCESS)"
| "for_each f (x # xs) h = and_then (f x h) (for_each f xs)"

abbreviation (input) create_drq ::
  "verify_env \<Rightarrow> uintptr \<Rightarrow> tivx_data_ref_queue_create_params_t \<Rightarrow> host \<Rightarrow> host \<times> uintptr" where
  "create_drq env graph prms h \<equiv>
     tivxDataRefQueueCreate (ve_rc env) (ve_pf env) (ve_info env) (ve_ca env) (ve_cb env) h graph prms"

section \<open>Memory\<close>

definition ownReferenceAllocMem :: "verify_env \<Rightarrow> host \<Rightarrow> uintptr \<Rightarrow> host \<times> vx_status" where
  "ownReferenceAllocMem env h ref =
     (if ownIsValidReference h ref
      then if rf_mem_alloc_callback (ho_refs h ref) \<noteq> 0
           then ve_mem env (rf_mem_alloc_callback (ho_refs h ref)) h ref else (h, VX_SUCCESS)
      else (h, VX_ERROR_INVALID_REFERENCE))"

definition ownGraphAllocateDataObject ::
  "verify_env \<Rightarrow> uintptr \<Rightarrow> nat \<Rightarrow> host \<Rightarrow> uintptr \<Rightarrow> host \<times> vx_status" where
  "ownGraphAllocateDataObject env node_cur prm_cur_idx h ref =
     (if ownNodeIsPrmReplicated h node_cur prm_cur_idx then ownReferenceAllocMem env h (rf_scope (ho_refs h ref))
      else if rf_delay (ho_refs h ref) \<noteq> 0 then ownReferenceAllocMem env h (rf_delay (ho_refs h ref))
      else ownReferenceAllocMem env h ref)"

definition ownGraphAllocateDataObjects :: "verify_env \<Rightarrow> host \<Rightarrow> uintptr \<Rightarrow> host \<times> vx_status" where
  "ownGraphAllocateDataObjects env h graph =
     for_each (\<lambda>(n, p) h.
         let node_cur = graph_node h graph n; ref = ownNodeGetParameterRef h node_cur p in
         if ref \<noteq> 0 then ownGraphAllocateDataObject env node_cur p h ref else (h, VX_SUCCESS))
       (all_params h graph) h"

text \<open>The references that can be put into a queue.\<close>

definition alloc_bufs :: "verify_env \<Rightarrow> uintptr \<Rightarrow> nat \<Rightarrow> uintptr list \<Rightarrow> host \<Rightarrow> host \<times> vx_status" where
  "alloc_bufs env node idx refs h =
     for_each (\<lambda>ref h. if ref \<noteq> 0 then ownGraphAllocateDataObject env node idx h ref
                        else (h, VX_ERROR_INVALID_PARAMETERS)) refs h"

section \<open>The queues of a delay\<close>

definition link_delay_stage ::
  "uintptr \<Rightarrow> uintptr \<Rightarrow> nat \<Rightarrow> uint32 \<Rightarrow> bool \<Rightarrow> host \<Rightarrow> nat \<Rightarrow> host" where
  "link_delay_stage cur nxt i delay_slots auto_age h pipe_id =
     (let d = the (dq_obj_desc (drq_t h cur) ! pipe_id);
          user = dq_enable_user_queueing (drq_t h nxt);
          next_id = od_obj_desc_id (sys_desc (ho_sys h) (the (dq_obj_desc (drq_t h nxt) ! pipe_id)));
          cmd_id = od_obj_desc_id (sys_desc (ho_sys h) (the (dq_obj_desc_cmd (drq_t h nxt) ! pipe_id)));
          consumed = DATA_REF_Q_FLAG_IS_ENABLE_REF_CONSUMED_EVENT
      in h\<lparr>ho_sys := upd_drq d (\<lambda>x.
           let f1 = tivxFlagBitSet (drq_flags x) DATA_REF_Q_FLAG_IS_IN_DELAY;
               f2 = (if auto_age then tivxFlagBitSet f1 DATA_REF_Q_FLAG_DELAY_SLOT_AUTO_AGE else f1)
           in x\<lparr>drq_flags := (if user then tivxFlagBitSet f2 consumed else tivxFlagBitClear f2 consumed),
                drq_next_obj_desc_id_in_delay := next_id, drq_delay_slot_index := of_nat i,
                drq_delay_slots := ucast delay_slots,
                drq_release_q_obj_desc_id :=
                  (if user then dq_done_q_obj_desc_id (drq_t h nxt) else dq_acquire_q_obj_desc_id (drq_t h nxt)),
                drq_ref_consumed_cmd_obj_desc_id := (if user then cmd_id else TIVX_OBJ_DESC_INVALID)\<rparr>)
         (ho_sys h)\<rparr>)"

definition link_delay_slot :: "(uintptr \<times> bool) list \<Rightarrow> uint32 \<Rightarrow> host \<Rightarrow> nat \<Rightarrow> host" where
  "link_delay_slot ring delay_slots h i =
     (let cur = fst (ring ! i); nxt = fst (ring ! (Suc i mod unat delay_slots));
          rel = (if dq_enable_user_queueing (drq_t h nxt) then dq_done_q_obj_desc_id (drq_t h nxt) else TIVX_OBJ_DESC_INVALID);
          h1 = upd_data_ref_queue cur (\<lambda>d. d\<lparr>dq_release_q_obj_desc_id := rel\<rparr>) h
      in foldl (link_delay_stage cur nxt i delay_slots (snd (ring ! i))) h1 [0..<unat (dq_pipeline_depth (drq_t h1 cur))])"

text \<open>The two arrays are one list of queues with their marks. It always succeeds.\<close>

definition ownDataRefQueueLinkDelayDataRefQueues :: "(uintptr \<times> bool) list \<Rightarrow> uint32 \<Rightarrow> host \<Rightarrow> host" where
  "ownDataRefQueueLinkDelayDataRefQueues ring delay_slots h =
     foldl (link_delay_slot ring delay_slots) h [0..<unat delay_slots]"


abbreviation (input) upd_delay_entry ::
  "uintptr \<Rightarrow> (tivx_delay_data_ref_q_list_t \<Rightarrow> tivx_delay_data_ref_q_list_t) \<Rightarrow> host \<Rightarrow> host" where
  "upd_delay_entry graph f \<equiv> upd_graph graph (\<lambda>g. g\<lparr>gr_delay_data_ref_q_list :=
     (gr_delay_data_ref_q_list g)[unat (gr_num_delay_data_ref_q g) :=
        f (gr_delay_data_ref_q_list g ! unat (gr_num_delay_data_ref_q g))]\<rparr>)"

text \<open>The parameter that is associated with a slot first.\<close>

definition slot_head :: "host \<Rightarrow> uintptr \<Rightarrow> nat \<Rightarrow> uintptr \<times> uint32" where
  "slot_head h delay slot = dl_set (ho_delays h delay) ! slot ! 0"

text \<open>A queue for a slot, with its entry in the list of the graph. A slot that no node reads ages by itself.\<close>

definition delay_queue_prms :: "host \<Rightarrow> uintptr \<Rightarrow> uintptr \<Rightarrow> uint32 \<Rightarrow> tivx_data_ref_queue_create_params_t" where
  "delay_queue_prms h graph node idx = \<lparr>qp_pipeline_depth = gr_pipeline_depth (ho_graphs h graph),
     qp_num_in_nodes = (if node \<noteq> 0 then ownGraphGetNumInNodes h graph node (unat idx) else 0),
     qp_enable_user_queueing = False, qp_is_enable_send_ref_consumed_event = False,
     qp_is_enable_send_ref_consumed_graph_event = False, qp_graph_parameter_index = - 1\<rparr>"

definition add_delay_queue :: "verify_env \<Rightarrow> uintptr \<Rightarrow> uintptr \<Rightarrow> host \<Rightarrow> nat \<Rightarrow> host \<times> uintptr \<times> vx_status" where
  "add_delay_queue env graph delay h slot =
     (if gr_num_delay_data_ref_q (ho_graphs h graph) < TIVX_GRAPH_MAX_DATA_REF_QUEUE then
       (case slot_head h delay slot of (node, idx) \<Rightarrow>
         (let h1 = upd_delay_entry graph (\<lambda>e. e\<lparr>de_node := node, de_index := idx, de_delay_ref := delay,
                     de_delay_slot_index := of_nat slot\<rparr>) h
          in case create_drq env graph (delay_queue_prms h1 graph node idx) h1 of
               (h2, q) \<Rightarrow>
                 (let h3 = upd_delay_entry graph (\<lambda>e. e\<lparr>de_data_ref_queue := q\<rparr>) h2
                  in if q = 0 then (h3, q, VX_ERROR_NO_RESOURCES)
                     else (upd_graph graph (\<lambda>g. g\<lparr>gr_num_delay_data_ref_q := gr_num_delay_data_ref_q g + 1\<rparr>) h3, q,
                           VX_SUCCESS))))
      else (h, 0, VX_ERROR_NO_RESOURCES))"

fun delay_ring ::
  "verify_env \<Rightarrow> uintptr \<Rightarrow> uintptr \<Rightarrow> uint32 \<Rightarrow> uintptr \<Rightarrow> uintptr \<Rightarrow> (uintptr \<times> bool) list \<Rightarrow> nat list \<Rightarrow> host \<Rightarrow>
   host \<times> (uintptr \<times> bool) list \<times> vx_status" where
  "delay_ring env graph node idx data_ref_q delay ring [] h = (h, ring, VX_SUCCESS)"
| "delay_ring env graph node idx data_ref_q delay ring (slot # rest) h =
     (if slot_head h delay slot = (node, idx)
      then delay_ring env graph node idx data_ref_q delay (ring @ [(data_ref_q, False)]) rest h
      else (case add_delay_queue env graph delay h slot of
              (h1, q, status) \<Rightarrow>
                if status = VX_SUCCESS
                then delay_ring env graph node idx data_ref_q delay (ring @ [(q, fst (slot_head h delay slot) = 0)]) rest h1
                else (h1, ring, status)))"

definition ownGraphCheckAndCreateDelayDataReferenceQueues ::
  "verify_env \<Rightarrow> uintptr \<Rightarrow> uintptr \<Rightarrow> uint32 \<Rightarrow> uintptr \<Rightarrow> host \<Rightarrow> host \<times> vx_status" where
  "ownGraphCheckAndCreateDelayDataReferenceQueues env graph node idx data_ref_q h =
     (let ref = ownNodeGetParameterRef h node (unat idx); delay = rf_delay (ho_refs h ref) in
      if ref \<noteq> 0 then
        if ownIsValidSpecificReference h delay VX_TYPE_DELAY then
          (case delay_ring env graph node idx data_ref_q delay [] [0..<unat (dl_count (ho_delays h delay))] h of
             (h1, ring, status) \<Rightarrow>
               (if status = VX_SUCCESS
                then ownDataRefQueueLinkDelayDataRefQueues ring (dl_count (ho_delays h1 delay)) h1 else h1, status))
        else (h, VX_SUCCESS)
      else (h, VX_ERROR_INVALID_PARAMETERS))"

section \<open>The queues between the nodes\<close>

abbreviation (input) upd_list_entry ::
  "uintptr \<Rightarrow> nat \<Rightarrow> (tivx_data_ref_q_list_t \<Rightarrow> tivx_data_ref_q_list_t) \<Rightarrow> host \<Rightarrow> host" where
  "upd_list_entry graph i f \<equiv> upd_graph graph (\<lambda>g. g\<lparr>gr_data_ref_q_list :=
     (gr_data_ref_q_list g)[i := f (gr_data_ref_q_list g ! i)]\<rparr>)"

text \<open>The code leaves the flag for the event of the graph uninitialised.\<close>

definition list_queue_prms :: "verify_env \<Rightarrow> host \<Rightarrow> uintptr \<Rightarrow> nat \<Rightarrow> tivx_data_ref_queue_create_params_t" where
  "list_queue_prms env h graph i =
     (let e = gr_data_ref_q_list (ho_graphs h graph) ! i in
      \<lparr>qp_pipeline_depth = gr_pipeline_depth (ho_graphs h graph),
       qp_num_in_nodes = ownGraphGetNumInNodes h graph (qe_node e) (unat (qe_index e)),
       qp_enable_user_queueing = False, qp_is_enable_send_ref_consumed_event = False,
       qp_is_enable_send_ref_consumed_graph_event = ve_uninit env, qp_graph_parameter_index = - 1\<rparr>)"

definition create_list_queue :: "verify_env \<Rightarrow> uintptr \<Rightarrow> nat \<Rightarrow> host \<Rightarrow> host \<times> vx_status" where
  "create_list_queue env graph i h =
     (case create_drq env graph (list_queue_prms env h graph i) h of
        (h1, q) \<Rightarrow>
          (let h2 = upd_list_entry graph i (\<lambda>e. e\<lparr>qe_data_ref_queue := q\<rparr>) h1;
               e = gr_data_ref_q_list (ho_graphs h2 graph) ! i
           in and_then (and_then (h2, if q = 0 then VX_ERROR_NO_RESOURCES else VX_SUCCESS)
                (ownGraphCheckAndCreateDelayDataReferenceQueues env graph (qe_node e) (qe_index e) q))
                (alloc_bufs env (qe_node e) (unat (qe_index e)) (take (unat (qe_num_buf e)) (qe_refs_list e)))))"

definition ownGraphCreateIntermediateDataReferenceQueues :: "verify_env \<Rightarrow> uintptr \<Rightarrow> host \<Rightarrow> host \<times> vx_status" where
  "ownGraphCreateIntermediateDataReferenceQueues env graph h =
     for_each (create_list_queue env graph) [0..<unat (gr_num_data_ref_q (ho_graphs h graph))] h"

section \<open>The queues of the graph parameters\<close>

abbreviation (input) upd_graph_param ::
  "uintptr \<Rightarrow> nat \<Rightarrow> (tivx_parameters_t \<Rightarrow> tivx_parameters_t) \<Rightarrow> host \<Rightarrow> host" where
  "upd_graph_param graph i f \<equiv> upd_graph graph (\<lambda>g. g\<lparr>gr_parameters := (gr_parameters g)[i := f (gr_parameters g ! i)]\<rparr>)"

definition param_queue_prms :: "host \<Rightarrow> uintptr \<Rightarrow> nat \<Rightarrow> tivx_data_ref_queue_create_params_t" where
  "param_queue_prms h graph i =
     (let gp = gr_parameters (ho_graphs h graph) ! i in
      \<lparr>qp_pipeline_depth = gr_pipeline_depth (ho_graphs h graph),
       qp_num_in_nodes = ownGraphGetNumInNodes h graph (gp_node gp) (unat (gp_index gp)),
       qp_enable_user_queueing = True,
       qp_is_enable_send_ref_consumed_event = gp_is_enable_send_ref_consumed_event gp,
       qp_is_enable_send_ref_consumed_graph_event = gp_is_enable_send_ref_consumed_graph_event gp,
       qp_graph_parameter_index = of_nat i\<rparr>)"

definition create_param_queue :: "verify_env \<Rightarrow> uintptr \<Rightarrow> nat \<Rightarrow> host \<Rightarrow> host \<times> vx_status" where
  "create_param_queue env graph i h =
     (if gp_queue_enable (gr_parameters (ho_graphs h graph) ! i) then
       (case create_drq env graph (param_queue_prms h graph i) h of
          (h1, q) \<Rightarrow>
            (let h2 = upd_graph_param graph i (\<lambda>p. p\<lparr>gp_data_ref_queue := q\<rparr>) h1;
                 gp = gr_parameters (ho_graphs h2 graph) ! i
             in and_then (and_then (h2, if q = 0 then VX_ERROR_NO_RESOURCES else VX_SUCCESS)
                  (ownGraphCheckAndCreateDelayDataReferenceQueues env graph (gp_node gp) (gp_index gp) q))
                  (alloc_bufs env (gp_node gp) (unat (gp_index gp)) (take (unat (gp_num_buf gp)) (gp_refs_list gp)))))
      else (h, VX_SUCCESS))"

definition ownGraphCreateGraphParameterDataReferenceQueues :: "verify_env \<Rightarrow> uintptr \<Rightarrow> host \<Rightarrow> host \<times> vx_status" where
  "ownGraphCreateGraphParameterDataReferenceQueues env graph h =
     for_each (create_param_queue env graph) [0..<unat (gr_num_params (ho_graphs h graph))] h"

section \<open>The first references\<close>

text \<open>A failure ends the loop over the references of one queue, not the loop over the queues.\<close>

definition prime_ref :: "uintptr \<Rightarrow> uintptr \<Rightarrow> host \<Rightarrow> host \<times> vx_status" where
  "prime_ref q ref h =
     (case (if ref \<noteq> 0 then rf_obj_desc (ho_refs h ref) else None) of
        None \<Rightarrow> (h, VX_FAILURE)
      | Some d \<Rightarrow>
          (case ownObjDescQueueEnqueue (tbl h) (dq_acquire_q_obj_desc_id (drq_t h q)) (od_obj_desc_id (sys_desc (ho_sys h) d)) of
             (t, status) \<Rightarrow> (set_tbl t h, status)))"

fun prime_refs :: "uintptr \<Rightarrow> uintptr list \<Rightarrow> host \<times> vx_status \<Rightarrow> host \<times> vx_status" where
  "prime_refs q [] hs = hs"
| "prime_refs q (ref # refs) hs =
     (case prime_ref q ref (fst hs) of
        (h1, status) \<Rightarrow> if status = VX_SUCCESS then prime_refs q refs (h1, status) else (h1, status))"

definition prime_list_queue :: "uintptr \<Rightarrow> host \<times> vx_status \<Rightarrow> nat \<Rightarrow> host \<times> vx_status" where
  "prime_list_queue graph hs i =
     (let e = gr_data_ref_q_list (ho_graphs (fst hs) graph) ! i
      in prime_refs (qe_data_ref_queue e) (take (unat (qe_num_buf e)) (qe_refs_list e)) hs)"

definition prime_delay_queue :: "uintptr \<Rightarrow> host \<times> vx_status \<Rightarrow> nat \<Rightarrow> host \<times> vx_status" where
  "prime_delay_queue graph hs i =
     (let h = fst hs; e = gr_delay_data_ref_q_list (ho_graphs h graph) ! i;
          ref = (if de_node e \<noteq> 0 then ownNodeGetParameterRef h (de_node e) (unat (de_index e))
                 else dl_refs (ho_delays h (de_delay_ref e)) ! unat (de_delay_slot_index e))
      in prime_ref (de_data_ref_queue e) ref h)"

definition ownGraphPrimeDataReferenceQueues :: "uintptr \<Rightarrow> host \<Rightarrow> host \<times> vx_status" where
  "ownGraphPrimeDataReferenceQueues graph h =
     (let g = ho_graphs h graph in
      foldl (prime_delay_queue graph)
        (foldl (prime_list_queue graph) (h, VX_SUCCESS) [0..<unat (gr_num_data_ref_q g)])
        [0..<unat (gr_num_delay_data_ref_q g)])"

section \<open>Linking to the nodes\<close>

definition ownGraphLinkDataReferenceQueues :: "uintptr \<Rightarrow> host \<Rightarrow> host" where
  "ownGraphLinkDataReferenceQueues graph h =
     (let g = ho_graphs h graph; link = (\<lambda>h q node idx.
            ownGraphLinkDataReferenceQueuesToNodeIndex h graph q node (unat idx));
          h1 = foldl (\<lambda>h p. if gp_queue_enable p then link h (gp_data_ref_queue p) (gp_node p) (gp_index p) else h)
                 h (take (unat (gr_num_params g)) (gr_parameters g));
          h2 = foldl (\<lambda>h e. link h (qe_data_ref_queue e) (qe_node e) (qe_index e))
                 h1 (take (unat (gr_num_data_ref_q g)) (gr_data_ref_q_list g))
      in foldl (\<lambda>h e. if de_node e \<noteq> 0 then link h (de_data_ref_queue e) (de_node e) (de_index e) else h)
           h2 (take (unat (gr_num_delay_data_ref_q g)) (gr_delay_data_ref_q_list g)))"

definition ownGraphCreateAndLinkDataReferenceQueues :: "verify_env \<Rightarrow> uintptr \<Rightarrow> host \<Rightarrow> host \<times> vx_status" where
  "ownGraphCreateAndLinkDataReferenceQueues env graph h =
     and_then (and_then (and_then
       (ownGraphCreateGraphParameterDataReferenceQueues env graph h)
       (ownGraphCreateIntermediateDataReferenceQueues env graph))
       (ownGraphPrimeDataReferenceQueues graph))
       (\<lambda>h. (ownGraphLinkDataReferenceQueues graph h, VX_SUCCESS))"

section \<open>Release\<close>

abbreviation (input) release_drq :: "verify_env \<Rightarrow> host \<Rightarrow> uintptr \<Rightarrow> host \<times> uintptr \<times> vx_status" where
  "release_drq env h q \<equiv> ownDataRefQueueRelease (ve_rc env) (ve_ca env) (ve_cb env) h q"

text \<open>The loops over the queues in \<open>ownDestructGraph\<close>. A failure is reported at the end and stops nothing.\<close>

definition release_param_queue :: "verify_env \<Rightarrow> uintptr \<Rightarrow> host \<times> vx_status \<Rightarrow> nat \<Rightarrow> host \<times> vx_status" where
  "release_param_queue env graph hs i =
     (case hs of (h, status) \<Rightarrow>
       (let gp = gr_parameters (ho_graphs h graph) ! i in
        if gp_queue_enable gp \<and> gp_data_ref_queue gp \<noteq> 0 then
         (case release_drq env h (gp_data_ref_queue gp) of
            (h1, p, st1) \<Rightarrow> (upd_graph_param graph i (\<lambda>g. g\<lparr>gp_data_ref_queue := p\<rparr>) h1,
                              if st1 \<noteq> VX_SUCCESS then st1 else status))
        else (h, status)))"

text \<open>The additional references that verification has made; of a replicated parameter it is the group.\<close>

definition release_extra_ref ::
  "verify_env \<Rightarrow> uintptr \<Rightarrow> nat \<Rightarrow> bool \<Rightarrow> host \<times> vx_status \<Rightarrow> nat \<Rightarrow> host \<times> vx_status" where
  "release_extra_ref env graph i is_replicated hs buf_id =
     (case hs of (h, status) \<Rightarrow>
       (let r = qe_refs_list (gr_data_ref_q_list (ho_graphs h graph) ! i) ! buf_id;
            data_ref = (if is_replicated then rf_scope (ho_refs h r) else r)
        in case vxReleaseReference (ve_cb env) h data_ref of
             (h1, _, st1) \<Rightarrow>
               (upd_list_entry graph i (\<lambda>e. e\<lparr>qe_refs_list := (qe_refs_list e)[buf_id := 0]\<rparr>) h1,
                if st1 \<noteq> VX_SUCCESS then st1 else status)))"

definition release_list_queue :: "verify_env \<Rightarrow> uintptr \<Rightarrow> host \<times> vx_status \<Rightarrow> nat \<Rightarrow> host \<times> vx_status" where
  "release_list_queue env graph hs i =
     (case hs of (h, status) \<Rightarrow>
       (let q = qe_data_ref_queue (gr_data_ref_q_list (ho_graphs h graph) ! i);
            hs1 = (if q \<noteq> 0 then
                    (case release_drq env h q of
                       (h1, p, st1) \<Rightarrow> (upd_list_entry graph i (\<lambda>e. e\<lparr>qe_data_ref_queue := p\<rparr>) h1,
                                         if st1 \<noteq> VX_SUCCESS then st1 else status))
                   else (h, status));
            e = gr_data_ref_q_list (ho_graphs (fst hs1) graph) ! i
        in if qe_num_buf e > 1 then
            (case foldl (release_extra_ref env graph i (ownNodeIsPrmReplicated (fst hs1) (qe_node e) (unat (qe_index e))))
                    hs1 [1..<unat (qe_num_buf e)] of
               (h2, st2) \<Rightarrow> (upd_list_entry graph i (\<lambda>e. e\<lparr>qe_node := 0, qe_index := 0\<rparr>) h2, st2))
           else hs1))"

definition release_delay_queue :: "verify_env \<Rightarrow> uintptr \<Rightarrow> host \<times> vx_status \<Rightarrow> nat \<Rightarrow> host \<times> vx_status" where
  "release_delay_queue env graph hs i =
     (case hs of (h, status) \<Rightarrow>
       (let q = de_data_ref_queue (gr_delay_data_ref_q_list (ho_graphs h graph) ! i) in
        if q \<noteq> 0 then
         (case release_drq env h q of
            (h1, p, st1) \<Rightarrow>
              (upd_graph graph (\<lambda>g. g\<lparr>gr_delay_data_ref_q_list := (gr_delay_data_ref_q_list g)[i :=
                 (gr_delay_data_ref_q_list g ! i)\<lparr>de_data_ref_queue := p\<rparr>]\<rparr>) h1,
               if st1 \<noteq> VX_SUCCESS then st1 else status))
        else (h, status)))"

definition release_queues :: "verify_env \<Rightarrow> uintptr \<Rightarrow> host \<times> vx_status \<Rightarrow> host \<times> vx_status" where
  "release_queues env graph hs =
     (let g = ho_graphs (fst hs) graph in
      foldl (release_delay_queue env graph)
        (foldl (release_list_queue env graph)
          (foldl (release_param_queue env graph) hs [0..<unat (gr_num_params g)])
          [0..<unat (gr_num_data_ref_q g)])
        [0..<unat (gr_num_delay_data_ref_q g)])"


section \<open>The ledger\<close>

text \<open>What the queues \<open>qs\<close>, created since \<open>h0\<close>, own together. Nothing else has been taken: neither a
  reference, nor a descriptor, nor an object of the operating system.\<close>

definition owned :: "host \<Rightarrow> uintptr list \<Rightarrow> nat list" where
  "owned h qs = concat (map (\<lambda>q. own_list (drq_t h q)) qs)"

definition events_freed :: "posix_rc \<Rightarrow> host \<Rightarrow> uintptr list \<Rightarrow> posix_objects" where
  "events_freed rc h qs = fold (\<lambda>q. event_freed rc (drq_t h q)) qs (ho_posix h)"

definition ledger :: "posix_rc \<Rightarrow> code_addresses \<Rightarrow> uintptr \<Rightarrow> host \<Rightarrow> host \<Rightarrow> uintptr list \<Rightarrow> bool" where
  "ledger rc ca c h0 h qs \<longleftrightarrow> refs_ok h0 c \<and> refs_ok h c \<and> table_wf (tbl h) \<and> distinct qs
     \<and> set qs \<inter> insert c (set (reftable h0 c)) = {}
     \<and> holders h c = (\<lambda>r. if r \<in> set qs then (0, 1) else holders h0 c r) \<and> (\<forall>q \<in> set qs. deletable ca h c q)
     \<and> distinct (owned h qs) \<and> set (owned h qs) \<inter> in_use (tbl h0) = {}
     \<and> num_entries (tbl h) = num_entries (tbl h0) \<and> in_use (tbl h) = in_use (tbl h0) \<union> set (owned h qs)
     \<and> (\<forall>i \<in> in_use (tbl h0). od_type (desc_at (tbl h) i) = od_type (desc_at (tbl h0) i))
     \<and> events_freed rc h qs = ho_posix h0 \<and> (\<forall>x \<in> insert c (set (reftable h0 c)). ho_refs h x = ho_refs h0 x)"

lemma event_freed_commute: "event_freed rc d (event_freed rc e po) = event_freed rc e (event_freed rc d po)"
proof -
  have "fst (ownPosixObjectFree rc (fst (ownPosixObjectFree rc po (Some i) TYPE_EVENT)) (Some j) TYPE_EVENT)
      = fst (ownPosixObjectFree rc (fst (ownPosixObjectFree rc po (Some j) TYPE_EVENT)) (Some i) TYPE_EVENT)" for i j
    by (cases "i = j")
      (auto simp: ownPosixObjectFree_def ownFreePosixObject_def Let_def nth_list_update list_update_swap split: if_splits)
  then show ?thesis by (auto simp: event_freed_def tivxEventDelete_def split: option.split)
qed

lemma owned_simps [simp]: "owned h [] = []" "owned h (q # qs) = own_list (drq_t h q) @ owned h qs"
  by (simp_all add: owned_def)

lemma mset_owned: "mset (owned h qs) = (\<Sum>q \<in># mset qs. mset (own_list (drq_t h q)))"
  by (induction qs) (simp_all add: owned_def)

lemma ledger_perm:
  assumes "ledger rc ca c h0 h qs" "mset qs' = mset qs"
  shows "ledger rc ca c h0 h qs'"
proof -
  have s: "set qs' = set qs" "distinct qs' = distinct qs"
    using assms(2) mset_eq_setD mset_eq_imp_distinct_iff by blast+
  have "mset (owned h qs') = mset (owned h qs)" by (simp add: mset_owned assms(2))
  then have o: "set (owned h qs') = set (owned h qs)" "distinct (owned h qs') = distinct (owned h qs)"
    using mset_eq_setD mset_eq_imp_distinct_iff by blast+
  have "fold (\<lambda>q. event_freed rc (drq_t h q)) qs' = fold (\<lambda>q. event_freed rc (drq_t h q)) qs"
    by (rule fold_multiset_equiv [OF _ assms(2)]) (simp add: fun_eq_iff event_freed_commute)
  then show ?thesis using assms(1) s o by (simp add: ledger_def events_freed_def)
qed

text \<open>The table of descriptors with other contents.\<close>

definition same_book :: "tivx_obj_desc_table_info \<Rightarrow> tivx_obj_desc_table_info \<Rightarrow> bool" where
  "same_book t t' \<longleftrightarrow> num_entries t' = num_entries t \<and> (table_wf t \<longrightarrow> table_wf t')
     \<and> (\<forall>i < num_entries t. od_type (desc_at t' i) = od_type (desc_at t i))"

lemma same_book_refl [simp]: "same_book t t"
  by (simp add: same_book_def)

lemma same_book_trans: "same_book t t1 \<Longrightarrow> same_book t1 t2 \<Longrightarrow> same_book t t2"
  by (simp add: same_book_def)

lemma same_book_in_use: "same_book t t' \<Longrightarrow> in_use t' = in_use t"
  by (auto simp: same_book_def in_use_def)

lemma same_book_owns:
  assumes "same_book t t'" "owns t d"
  shows "owns t' d"
proof -
  have "set (own_queues d) \<subseteq> in_use t" using assms(2) by (simp add: owns_def own_list_def)
  then have "od_type (desc_at t' i) = od_type (desc_at t i)" if "i \<in> set (own_queues d)" for i
    using that assms(1) by (auto simp: same_book_def in_use_def)
  then show ?thesis
    using assms same_book_in_use [OF assms(1)] by (simp add: owns_def same_book_def)
qed

lemma deletable_same:
  assumes "deletable ca h c q" "same_refs h h'" "owns (tbl h') (drq_t h' q)"
    and "dq_pipeline_depth (drq_t h' q) = dq_pipeline_depth (drq_t h q)" "dq_obj_desc (drq_t h' q) = dq_obj_desc (drq_t h q)"
    and "dq_obj_desc_cmd (drq_t h' q) = dq_obj_desc_cmd (drq_t h q)"
  shows "deletable ca h' c q"
  using assms same_refs_ok [OF assms(2)] by (simp add: deletable_def empty_from_def same_refs_def)

lemma holder_in_table: "holders h c q = (0, 1) \<Longrightarrow> q \<in> set (reftable h c)"
  by (simp add: holders_def split: if_splits)

lemma owns_after_taken:
  assumes "owns t d" "taken D t t'"
  shows "owns t' d"
proof -
  have s: "set (own_queues d) \<subseteq> set (own_list d)" by (auto simp: own_list_def)
  then have "desc_at t' i = desc_at t i" if "i \<in> set (own_queues d)" for i
    using that assms by (auto simp: owns_def taken_def)
  then show ?thesis using assms by (auto simp: owns_def taken_def)
qed

lemma owns_after_given:
  assumes "owns t d" "given D t t'" "set (own_list d) \<inter> D = {}"
  shows "owns t' d"
proof -
  have s: "set (own_queues d) \<subseteq> set (own_list d)" by (auto simp: own_list_def)
  have u: "set (own_list d) \<subseteq> in_use t'" using assms unfolding owns_def given_def by blast
  then have "desc_at t' i = desc_at t i" if "i \<in> set (own_queues d)" for i using s that assms(2) by (auto simp: given_def)
  then show ?thesis using assms u by (simp add: owns_def given_def)
qed

text \<open>Steps that leave the queues alone.\<close>

lemma ledger_keep:
  assumes "ledger rc ca c h0 h qs" "same_refs h h'" "same_book (tbl h) (tbl h')" "ho_posix h' = ho_posix h"
    and "ho_data_ref_queues h' = ho_data_ref_queues h"
  shows "ledger rc ca c h0 h' qs"
proof -
  note l = assms(1) [unfolded ledger_def] and s = same_refs_ok [OF assms(2)] and b = same_book_in_use [OF assms(3)]
  have "deletable ca h' c q" if "q \<in> set qs" for q
  proof -
    have d: "deletable ca h c q" using l that by simp
    then have "owns (tbl h) (drq_t h q)" by (simp add: deletable_def)
    then show ?thesis using deletable_same [OF d assms(2)] same_book_owns [OF assms(3)] assms(5) by simp
  qed
  moreover have "owned h' qs = owned h qs" "events_freed rc h' qs = events_freed rc h qs"
    by (simp_all add: owned_def events_freed_def assms)
  moreover have "od_type (desc_at (tbl h') i) = od_type (desc_at (tbl h0) i)" if "i \<in> in_use (tbl h0)" for i
    using that l assms(3) by (auto simp: same_book_def in_use_def)
  ultimately show ?thesis
    using l s b assms(3) assms(2) [unfolded same_refs_def] by (simp add: ledger_def same_book_def)
qed

lemma ledger_start:
  assumes "refs_ok h c" "table_wf (tbl h)"
  shows "ledger rc ca c h h []"
  using assms by (simp add: ledger_def owned_def events_freed_def)

lemma ledger_no_holders:
  assumes "ledger rc ca c h0 h qs" "q \<notin> insert c (set (reftable h0 c))"
  shows "holders h0 c q = (0, 0)"
  using assms by (simp add: holders_def)

text \<open>The table of the context holds the new queues besides what it held.\<close>

lemma ledger_table:
  assumes "ledger rc ca c h0 h qs"
  shows "set (reftable h c) = set (reftable h0 c) \<union> set qs"
proof -
  note l = assms [unfolded ledger_def]
  have "set (reftable h c) = {r. holders h c r \<noteq> (0, 0)}" "set (reftable h0 c) = {r. holders h0 c r \<noteq> (0, 0)}"
    using l reftable_holders by simp_all
  then show ?thesis using l by auto
qed

lemma ledger_created:
  assumes "ledger rc ca c h0 h qs" "created rc ca c h h' q"
  shows "ledger rc ca c h0 h' (q # qs)"
proof -
  note l = assms(1) [unfolded ledger_def] and cr = assms(2) [unfolded created_def]
  note ts = ledger_table [OF assms(1)]
  have q: "q \<notin> insert c (set (reftable h0 c))" "q \<notin> set qs" using cr ts by auto
  have drq: "drq_t h' x = drq_t h x" "ho_refs h' x = ho_refs h x" if "x \<in> set qs" for x using cr ts that by auto
  have ow: "owned h' qs = owned h qs" by (simp add: owned_def drq cong: map_cong)
  have del: "deletable ca h' c x" if x: "x \<in> set qs" for x
  proof -
    have d: "deletable ca h c x" using l x by simp
    have "holders h' c = (holders h c)(q := (0, 1))" using cr by simp
    then have "holders h' c x = (0, 1)" using l x q(2) by auto
    moreover have "x \<in> set (reftable h' c)" using holder_in_table calculation .
    moreover have "refs_ok h' c" using cr by (simp add: deletable_def)
    moreover have "owns (tbl h') (drq_t h x)" using owns_after_taken d cr by (auto simp: deletable_def)
    ultimately show ?thesis using d drq [OF x] by (simp add: deletable_def)
  qed
  have tk: "taken (set (own_list (drq_t h' q))) (tbl h) (tbl h')" using cr by simp
  have "distinct (own_list (drq_t h' q))" using cr by (simp add: deletable_def owns_def)
  moreover have "set (own_list (drq_t h' q)) \<inter> in_use (tbl h) = {}" using tk by (auto simp: taken_def)
  ultimately have dis: "distinct (owned h' (q # qs))" "set (owned h' (q # qs)) \<inter> in_use (tbl h0) = {}"
    using l ow by auto
  have use: "in_use (tbl h') = in_use (tbl h0) \<union> set (owned h' (q # qs))" "num_entries (tbl h') = num_entries (tbl h0)" "table_wf (tbl h')"
    using tk l ow by (auto simp: taken_def)
  have "events_freed rc h' (q # qs) = events_freed rc h qs"
    using cr drq by (simp add: events_freed_def cong: fold_cong)
  moreover have "holders h' c = (\<lambda>r. if r \<in> set (q # qs) then (0, 1) else holders h0 c r)" using cr l by auto
  moreover have "refs_ok h' c" "deletable ca h' c q" using cr by (simp_all add: deletable_def)
  moreover have "od_type (desc_at (tbl h') i) = od_type (desc_at (tbl h0) i)" if "i \<in> in_use (tbl h0)" for i
    using that l tk by (auto simp: taken_def)
  ultimately show ?thesis using l q del dis use cr ts by (auto simp: ledger_def)
qed

lemma ledger_restored:
  assumes "ledger rc ca c h0 h qs" "restored c h h'"
  shows "ledger rc ca c h0 h' qs"
proof -
  note l = assms(1) [unfolded ledger_def] and r = assms(2) [unfolded restored_def]
  note ts = ledger_table [OF assms(1)]
  have drq: "drq_t h' x = drq_t h x" "ho_refs h' x = ho_refs h x" if "x \<in> set qs" for x using r ts that by auto
  have ow: "owned h' qs = owned h qs" by (simp add: owned_def drq cong: map_cong)
  have tk: "taken {} (tbl h) (tbl h')" using r by simp
  have del: "deletable ca h' c x" if x: "x \<in> set qs" for x
  proof -
    have d: "deletable ca h c x" using l x by simp
    have h: "holders h' c x = (0, 1)" using r l x by simp
    then have "x \<in> set (reftable h' c)" by (rule holder_in_table)
    moreover have "owns (tbl h') (drq_t h x)" using owns_after_taken [OF _ tk] d by (simp add: deletable_def)
    ultimately show ?thesis using d r h drq [OF x] by (simp add: deletable_def)
  qed
  have "events_freed rc h' qs = events_freed rc h qs" using r drq by (simp add: events_freed_def cong: fold_cong)
  moreover have "in_use (tbl h') = in_use (tbl h)" "num_entries (tbl h') = num_entries (tbl h)" "table_wf (tbl h')"
    using tk by (simp_all add: taken_def)
  moreover have "od_type (desc_at (tbl h') i) = od_type (desc_at (tbl h0) i)" if "i \<in> in_use (tbl h0)" for i
    using that l tk by (auto simp: taken_def)
  ultimately show ?thesis using l r ow del ts by (auto simp: ledger_def)
qed

lemma ledger_release:
  assumes "ledger rc ca c h0 h (q # qs)" "rc_mutex_lock rc = 0" "callbacks_local cb"
    and "ownDataRefQueueRelease rc ca cb h q = (h', p, st)"
  shows "ledger rc ca c h0 h' qs" "p = 0" "st = VX_SUCCESS" "same_rest h h'"
proof -
  note l = assms(1) [unfolded ledger_def]
  have d: "deletable ca h c q" using l by simp
  note r = queue_release [OF d assms(2-4)]
  show "p = 0" "st = VX_SUCCESS" "same_rest h h'" using r by simp_all
  have q: "q \<notin> set qs" "holders h0 c q = (0, 0)" using l ledger_no_holders [OF assms(1)] by auto
  have drq: "drq_t h' x = drq_t h x" "ho_refs h' x = ho_refs h x" if "x \<in> set qs" for x using r(8) q(1) that by auto
  have ow: "owned h' qs = owned h qs" by (simp add: owned_def drq cong: map_cong)
  have dis: "set (own_list (drq_t h q)) \<inter> set (owned h qs) = {}" "distinct (owned h qs)"
    "set (own_list (drq_t h q)) \<inter> in_use (tbl h0) = {}" "set (owned h qs) \<inter> in_use (tbl h0) = {}"
    using l by auto
  have use: "in_use (tbl h') = in_use (tbl h) - set (own_list (drq_t h q))" "num_entries (tbl h') = num_entries (tbl h)" "table_wf (tbl h')"
    using r(5) by (simp_all add: given_def)
  have del: "deletable ca h' c x" if x: "x \<in> set qs" for x
  proof -
    have dx: "deletable ca h c x" using l x by simp
    have h: "holders h' c x = (0, 1)" using r(2) l x q(1) by auto
    then have "x \<in> set (reftable h' c)" by (rule holder_in_table)
    moreover have "set (own_list (drq_t h x)) \<inter> set (own_list (drq_t h q)) = {}" using dis(1) x by (auto simp: owned_def)
    then have "owns (tbl h') (drq_t h x)" using owns_after_given [OF _ r(5)] dx by (simp add: deletable_def)
    ultimately show ?thesis using dx r(1) h drq [OF x] by (simp add: deletable_def)
  qed
  have "fold (\<lambda>x. event_freed rc (drq_t h x)) qs (event_freed rc (drq_t h q) (ho_posix h)) = ho_posix h0"
    using l by (simp add: events_freed_def)
  then have "events_freed rc h' qs = ho_posix h0" using r(6) drq by (simp add: events_freed_def cong: fold_cong)
  moreover have "holders h' c = (\<lambda>x. if x \<in> set qs then (0, 1) else holders h0 c x)" using r(2) l q by auto
  moreover have "in_use (tbl h) = in_use (tbl h0) \<union> (set (own_list (drq_t h q)) \<union> set (owned h qs))" using l by simp
  then have "in_use (tbl h') = in_use (tbl h0) \<union> set (owned h' qs)" using use(1) dis ow by auto
  moreover have "ho_refs h' x = ho_refs h0 x" if "x \<in> insert c (set (reftable h0 c))" for x
  proof -
    have "x \<noteq> q" using that l by auto
    then show ?thesis using r(8) l that by auto
  qed
  moreover have "num_entries (tbl h') = num_entries (tbl h0)" "distinct qs" "set qs \<inter> insert c (set (reftable h0 c)) = {}"
    "refs_ok h0 c" using l use(2) by simp_all
  moreover have "od_type (desc_at (tbl h') i) = od_type (desc_at (tbl h0) i)" if "i \<in> in_use (tbl h0)" for i
  proof -
    have "i \<in> in_use (tbl h')" using that use(1) l dis(3) by auto
    then show ?thesis using that l r(5) by (simp add: given_def)
  qed
  ultimately show "ledger rc ca c h0 h' qs" using r(1) del use(3) dis(2,4) ow by (simp add: ledger_def)
qed


section \<open>The ring of a delay\<close>

text \<open>Queues may exchange their release queues, as long as each has one owner.\<close>

lemma ledger_swap:
  assumes "ledger rc ca c h0 h qs" "same_refs h h'" "same_book (tbl h) (tbl h')" "ho_posix h' = ho_posix h"
    and "mset (owned h' qs) = mset (owned h qs)"
    and sw: "\<And>q. q \<in> set qs \<Longrightarrow> \<exists>r. drq_t h' q = (drq_t h q)\<lparr>dq_release_q_obj_desc_id := r\<rparr>
      \<and> (r \<noteq> TIVX_OBJ_DESC_INVALID \<longrightarrow> (\<exists>x \<in> set qs. unat r \<in> set (own_queues (drq_t h x))))"
  shows "ledger rc ca c h0 h' qs"
proof -
  note l = assms(1) [unfolded ledger_def] and s = same_refs_ok [OF assms(2)] and b = same_book_in_use [OF assms(3)]
  have ow: "set (owned h' qs) = set (owned h qs)" "distinct (owned h' qs)"
    using assms(5) l mset_eq_setD mset_eq_imp_distinct_iff by blast+
  have ty: "od_type (desc_at (tbl h') i) = TIVX_OBJ_DESC_QUEUE" if "x \<in> set qs" "i \<in> set (own_queues (drq_t h x))" for x i
  proof -
    have "owns (tbl h) (drq_t h x)" using l that(1) by (simp add: deletable_def)
    then have "i \<in> in_use (tbl h)" "od_type (desc_at (tbl h) i) = TIVX_OBJ_DESC_QUEUE"
      using that(2) by (auto simp: owns_def own_list_def)
    then show ?thesis using assms(3) by (simp add: same_book_def in_use_def)
  qed
  have "deletable ca h' c q" if q: "q \<in> set qs" for q
  proof -
    have d: "deletable ca h c q" using l q by simp
    obtain r where r: "drq_t h' q = (drq_t h q)\<lparr>dq_release_q_obj_desc_id := r\<rparr>"
      "r \<noteq> TIVX_OBJ_DESC_INVALID \<longrightarrow> (\<exists>x \<in> set qs. unat r \<in> set (own_queues (drq_t h x)))" using sw [OF q] by blast
    have o: "owns (tbl h) (drq_t h q)" using d by (simp add: deletable_def)
    obtain ys zs where "qs = ys @ q # zs" using split_list [OF q] by blast
    then have "owned h' qs = owned h' ys @ own_list (drq_t h' q) @ owned h' zs" by (simp add: owned_def)
    then have "distinct (own_list (drq_t h' q))" "set (own_list (drq_t h' q)) \<subseteq> set (owned h' qs)"
      using ow(2) by auto
    moreover have "i \<in> set (own_queues (drq_t h q)) \<or> r \<noteq> TIVX_OBJ_DESC_INVALID \<and> i = unat r"
      if "i \<in> set (own_queues (drq_t h' q))" for i
      using that r(1) by (auto simp: own_queues_def split: if_splits)
    then have "od_type (desc_at (tbl h') i) = TIVX_OBJ_DESC_QUEUE" if "i \<in> set (own_queues (drq_t h' q))" for i
      using that ty q r(2) by blast
    ultimately have "owns (tbl h') (drq_t h' q)"
      using o r(1) ow(1) l b assms(3) by (auto simp: owns_def same_book_def)
    then show ?thesis using deletable_same [OF d assms(2)] r(1) by simp
  qed
  moreover have "events_freed rc h' qs = events_freed rc h qs"
  proof -
    have "event_freed rc (drq_t h' q) = event_freed rc (drq_t h q)" if "q \<in> set qs" for q
      using sw [OF that] by (auto simp: event_freed_def fun_eq_iff)
    then show ?thesis by (simp add: events_freed_def assms(4) cong: fold_cong)
  qed
  moreover have "od_type (desc_at (tbl h') i) = od_type (desc_at (tbl h0) i)" if "i \<in> in_use (tbl h0)" for i
    using that l assms(3) by (auto simp: same_book_def in_use_def)
  ultimately show ?thesis
    using l s b ow assms(3) assms(2) [unfolded same_refs_def] by (simp add: ledger_def same_book_def)
qed

text \<open>The loop over the stages writes descriptors of stages only.\<close>

lemma upd_drq_book:
  assumes "x < num_entries (sys_tbl s)" "od_type (sys_desc s x) = TIVX_OBJ_DESC_DATA_REF_Q"
  shows "same_book (sys_tbl s) (sys_tbl (upd_drq x f s))"
proof -
  have "table_wf (sys_tbl (upd_drq x f s))" if "table_wf (sys_tbl s)"
    using that assms by (simp add: upd_drq_def) (rule table_wf_upd; simp add: table_wf_def body_ok_def)
  then show ?thesis using assms(1) by (auto simp: same_book_def upd_drq_def)
qed

definition stages_typed :: "tivx_obj_desc_table_info \<Rightarrow> tivx_data_ref_queue_t \<Rightarrow> bool" where
  "stages_typed t d \<longleftrightarrow> (\<forall>p < unat (dq_pipeline_depth d). \<exists>x. dq_obj_desc d ! p = Some x \<and> x < num_entries t
     \<and> od_type (desc_at t x) = TIVX_OBJ_DESC_DATA_REF_Q)"

lemma stages_typed_book: "same_book t t' \<Longrightarrow> stages_typed t d \<Longrightarrow> stages_typed t' d"
  by (fastforce simp: same_book_def stages_typed_def)

lemma link_stages:
  assumes "stages_typed (tbl h) (drq_t h cur)" "m \<le> unat (dq_pipeline_depth (drq_t h cur))"
  shows "\<exists>t. foldl (link_delay_stage cur nxt i n auto_age) h [0..<m] = set_tbl t h \<and> same_book (tbl h) t"
  using assms(2)
proof (induction m)
  case 0
  show ?case by (rule exI [of _ "tbl h"]) simp
next
  case (Suc m)
  then obtain t where t: "foldl (link_delay_stage cur nxt i n auto_age) h [0..<m] = set_tbl t h" "same_book (tbl h) t" by auto
  obtain x where x: "dq_obj_desc (drq_t h cur) ! m = Some x" "x < num_entries (tbl h)"
    "od_type (desc_at (tbl h) x) = TIVX_OBJ_DESC_DATA_REF_Q"
    using assms(1) Suc_le_lessD [OF Suc.prems] unfolding stages_typed_def by blast
  define h1 where "h1 = set_tbl t h"
  have d: "drq_t h1 = drq_t h" "tbl h1 = t" by (simp_all add: h1_def)
  obtain f where f: "link_delay_stage cur nxt i n auto_age h1 m = h1\<lparr>ho_sys := upd_drq x f (ho_sys h1)\<rparr>"
    using x(1) d(1) by (auto simp: link_delay_stage_def Let_def)
  have "same_book (tbl h1) (sys_tbl (upd_drq x f (ho_sys h1)))"
    by (rule upd_drq_book) (use x t(2) d in \<open>simp_all add: same_book_def\<close>)
  then have "same_book (tbl h) (sys_tbl (upd_drq x f (ho_sys h1)))" using t(2) d same_book_trans by simp
  moreover have "h1\<lparr>ho_sys := upd_drq x f (ho_sys h1)\<rparr> = set_tbl (sys_tbl (upd_drq x f (ho_sys h1))) h"
    by (simp add: h1_def upd_drq_def)
  moreover have "foldl (link_delay_stage cur nxt i n auto_age) h [0..<Suc m] = link_delay_stage cur nxt i n auto_age h1 m"
    using t(1) by (simp add: h1_def)
  ultimately show ?case using f by - (rule exI [of _ "sys_tbl (upd_drq x f (ho_sys h1))"], simp)
qed

text \<open>What the queue of slot \<open>i\<close> releases to: the done queue of the next one, when the application serves it.\<close>

definition passed_on :: "tivx_data_ref_queue_t \<Rightarrow> uint16" where
  "passed_on d = (if dq_enable_user_queueing d then dq_done_q_obj_desc_id d else TIVX_OBJ_DESC_INVALID)"

lemma passed_on_release [simp]: "passed_on (d\<lparr>dq_release_q_obj_desc_id := r\<rparr>) = passed_on d"
  by (simp add: passed_on_def)

lemma link_slot:
  "link_delay_slot ring n h i = (let cur = fst (ring ! i); nxt = fst (ring ! (Suc i mod unat n));
     h1 = upd_data_ref_queue cur (\<lambda>d. d\<lparr>dq_release_q_obj_desc_id := passed_on (drq_t h nxt)\<rparr>) h
   in foldl (link_delay_stage cur nxt i n (snd (ring ! i))) h1 [0..<unat (dq_pipeline_depth (drq_t h1 cur))])"
  by (simp only: link_delay_slot_def passed_on_def Let_def)

lemma link_ring:
  assumes "distinct (map fst ring)" "length ring = unat n" "k \<le> length ring"
    and "\<forall>x \<in> set ring. stages_typed (tbl h) (drq_t h (fst x))"
  defines "nxt \<equiv> \<lambda>i. fst (ring ! (Suc i mod length ring))"
  shows "\<exists>t D. foldl (link_delay_slot ring n) h [0..<k] = (set_tbl t h)\<lparr>ho_data_ref_queues := D\<rparr> \<and> same_book (tbl h) t
    \<and> (\<forall>q. q \<notin> set (map fst (take k ring)) \<longrightarrow> D q = drq_t h q)
    \<and> (\<forall>i < k. D (fst (ring ! i)) = (drq_t h (fst (ring ! i)))\<lparr>dq_release_q_obj_desc_id := passed_on (drq_t h (nxt i))\<rparr>)"
  using assms(3)
proof (induction k)
  case 0
  show ?case by - (rule exI [of _ "tbl h"], rule exI [of _ "ho_data_ref_queues h"], simp)
next
  case (Suc k)
  then obtain t D where IH: "foldl (link_delay_slot ring n) h [0..<k] = (set_tbl t h)\<lparr>ho_data_ref_queues := D\<rparr>" "same_book (tbl h) t"
    "\<forall>q. q \<notin> set (map fst (take k ring)) \<longrightarrow> D q = drq_t h q"
    "\<forall>i < k. D (fst (ring ! i)) = (drq_t h (fst (ring ! i)))\<lparr>dq_release_q_obj_desc_id := passed_on (drq_t h (nxt i))\<rparr>" by auto
  define h1 where "h1 = (set_tbl t h)\<lparr>ho_data_ref_queues := D\<rparr>"
  let ?cur = "fst (ring ! k)"
  have k: "k < length ring" "Suc k mod length ring < length ring" using Suc.prems by (simp_all add: Suc_le_eq mod_less_divisor [OF le_less_trans [OF le0]])
  have out: "?cur \<notin> set (map fst (take k ring))"
  proof -
    have "?cur \<notin> set (take k (map fst ring))"
      using k(1) assms(1) by (auto simp: in_set_conv_nth distinct_conv_nth)
    then show ?thesis by (simp add: take_map)
  qed
  have cur: "D ?cur = drq_t h ?cur" using IH(3) out by blast
  have nx: "passed_on (D (nxt k)) = passed_on (drq_t h (nxt k))"
  proof (cases "nxt k \<in> set (map fst (take k ring))")
    case True
    then obtain j where "j < k" "nxt k = fst (ring ! j)" using k(1) by (auto simp: in_set_conv_nth)
    then show ?thesis using IH(4) by simp
  qed (use IH(3) in simp)
  define h2 where "h2 = upd_data_ref_queue ?cur (\<lambda>d. d\<lparr>dq_release_q_obj_desc_id := passed_on (drq_t h (nxt k))\<rparr>) h1"
  have t2: "tbl h2 = t" "drq_t h2 ?cur = (drq_t h ?cur)\<lparr>dq_release_q_obj_desc_id := passed_on (drq_t h (nxt k))\<rparr>"
    using cur by (simp_all add: h2_def h1_def upd_data_ref_queue_def)
  have "stages_typed (tbl h) (drq_t h ?cur)" using assms(4) k(1) by simp
  then have "stages_typed (tbl h2) (drq_t h2 ?cur)" using stages_typed_book [OF IH(2)] t2 by (simp add: stages_typed_def)
  from link_stages [OF this order_refl, of "nxt k" k n "snd (ring ! k)"] obtain t' where
    t': "foldl (link_delay_stage ?cur (nxt k) k n (snd (ring ! k))) h2 [0..<unat (dq_pipeline_depth (drq_t h2 ?cur))] = set_tbl t' h2"
      "same_book (tbl h2) t'" by blast
  have "drq_t h1 = D" by (simp add: h1_def)
  then have "link_delay_slot ring n h1 k = set_tbl t' h2"
    using t'(1) nx assms(2) by (simp only: link_slot Let_def nxt_def h2_def)
  moreover have "set_tbl t' h2 = (set_tbl t' h)\<lparr>ho_data_ref_queues := D(?cur := (D ?cur)\<lparr>dq_release_q_obj_desc_id := passed_on (drq_t h (nxt k))\<rparr>)\<rparr>"
    by (simp add: h2_def h1_def upd_data_ref_queue_def)
  ultimately have run: "foldl (link_delay_slot ring n) h [0..<Suc k]
      = (set_tbl t' h)\<lparr>ho_data_ref_queues := D(?cur := (D ?cur)\<lparr>dq_release_q_obj_desc_id := passed_on (drq_t h (nxt k))\<rparr>)\<rparr>"
    using IH(1) by (simp add: h1_def)
  define D' where "D' = D(?cur := (D ?cur)\<lparr>dq_release_q_obj_desc_id := passed_on (drq_t h (nxt k))\<rparr>)"
  have tk: "take (Suc k) ring = take k ring @ [ring ! k]" using k(1) by (simp add: take_Suc_conv_app_nth)
  have ne: "fst (ring ! i) \<noteq> ?cur" if "i < k" for i
    using that k(1) assms(1) nth_eq_iff_index_eq [OF assms(1), of i k] by simp
  have "same_book (tbl h) t'" using same_book_trans [OF IH(2)] t'(2) t2(1) by simp
  moreover have "\<forall>q. q \<notin> set (map fst (take (Suc k) ring)) \<longrightarrow> D' q = drq_t h q" using IH(3) tk by (simp add: D'_def)
  moreover have "\<forall>i < Suc k. D' (fst (ring ! i)) = (drq_t h (fst (ring ! i)))\<lparr>dq_release_q_obj_desc_id := passed_on (drq_t h (nxt i))\<rparr>"
    using IH(4) ne cur by (simp add: D'_def less_Suc_eq)
  ultimately show ?case using run [folded D'_def] by - (rule exI [of _ t'], rule exI [of _ D'], simp)
qed


lemma own_list_release:
  "mset (own_list d) = mset (own_list (d\<lparr>dq_release_q_obj_desc_id := TIVX_OBJ_DESC_INVALID\<rparr>))
     + (if dq_release_q_obj_desc_id d = TIVX_OBJ_DESC_INVALID then {#} else {#unat (dq_release_q_obj_desc_id d)#})"
  by (simp add: own_list_def own_queues_def)

text \<open>Round the ring, every release queue finds a new owner.\<close>

lemma sum_round:
  fixes f :: "'a \<Rightarrow> 'b::comm_monoid_add"
  assumes "\<And>i. i < length xs \<Longrightarrow> g (xs ! i) = f (xs ! (Suc i mod length xs))"
  shows "sum_list (map g xs) = sum_list (map f xs)"
proof -
  have "Suc i mod length xs < length xs" if "i < length xs" for i
    using that by (intro mod_less_divisor) auto
  then have "map g xs = rotate1 (map f xs)"
    using assms by (intro nth_equalityI) (simp_all add: nth_rotate1)
  moreover have "sum_list (rotate1 ys) = sum_list ys" for ys :: "'b list" by (cases ys) (simp_all add: add.commute)
  ultimately show ?thesis by simp
qed

lemma mset_ring:
  assumes "distinct qs" "distinct rs" "set rs \<subseteq> set qs"
  shows "mset qs = mset rs + mset (filter (\<lambda>q. q \<notin> set rs) qs)"
proof -
  have "set (filter (\<lambda>q. q \<in> set rs) qs) = set rs" using assms(3) by auto
  then have "mset (filter (\<lambda>q. q \<in> set rs) qs) = mset rs" using assms(1,2) by (metis distinct_filter set_eq_iff_mset_eq_distinct)
  then show ?thesis using multiset_partition [of "mset qs" "\<lambda>q. q \<in> set rs"] by simp
qed

definition plain_queue :: "tivx_data_ref_queue_t \<Rightarrow> bool" where
  "plain_queue d \<longleftrightarrow> dq_release_q_obj_desc_id d = passed_on d"

lemma ledger_ring:
  assumes "ledger rc ca c h0 h qs" "distinct (map fst ring)" "length ring = unat n" "set (map fst ring) \<subseteq> set qs"
    and "\<forall>x \<in> set ring. stages_typed (tbl h) (drq_t h (fst x)) \<and> plain_queue (drq_t h (fst x))"
  defines "h' \<equiv> ownDataRefQueueLinkDelayDataRefQueues ring n h"
  shows "ledger rc ca c h0 h' qs" "same_rest h h'" "same_refs h h'" "same_book (tbl h) (tbl h')"
proof -
  let ?nxt = "\<lambda>i. fst (ring ! (Suc i mod length ring))"
  have st: "\<forall>x \<in> set ring. stages_typed (tbl h) (drq_t h (fst x))" using assms(5) by blast
  from link_ring [OF assms(2,3) order_refl st] obtain t D where
    r: "h' = (set_tbl t h)\<lparr>ho_data_ref_queues := D\<rparr>" "same_book (tbl h) t"
      "\<forall>q. q \<notin> set (map fst ring) \<longrightarrow> D q = drq_t h q"
      "\<forall>i < length ring. D (fst (ring ! i)) = (drq_t h (fst (ring ! i)))\<lparr>dq_release_q_obj_desc_id := passed_on (drq_t h (?nxt i))\<rparr>"
    unfolding h'_def ownDataRefQueueLinkDelayDataRefQueues_def assms(3) [symmetric] by auto
  show s: "same_refs h h'" by (simp add: same_refs_def r(1))
  show b: "same_book (tbl h) (tbl h')" using r(1,2) by simp
  show "same_rest h h'" using same_sys by (auto simp: same_rest_def r(1))
  have D: "drq_t h' = D" "ho_posix h' = ho_posix h" by (simp_all add: r(1))
  note l = assms(1) [unfolded ledger_def]
  let ?rs = "map fst ring" and ?rest = "filter (\<lambda>q. q \<notin> fst ` set ring) qs"
  let ?rel = "\<lambda>r :: uint16. if r = TIVX_OBJ_DESC_INVALID then {#} else {#unat r#}"
  let ?base = "\<lambda>d. mset (own_list (d\<lparr>dq_release_q_obj_desc_id := TIVX_OBJ_DESC_INVALID\<rparr>))"
  have m: "mset qs = mset ?rs + mset ?rest" using mset_ring [OF _ assms(2,4)] l by simp
  have nx: "?nxt i \<in> set ?rs" "plain_queue (drq_t h (?nxt i))" "?rs ! (Suc i mod length ring) = ?nxt i" if "i < length ring" for i
  proof -
    have "Suc i mod length ring < length ring" using that by (intro mod_less_divisor) auto
    then show "?nxt i \<in> set ?rs" "plain_queue (drq_t h (?nxt i))" "?rs ! (Suc i mod length ring) = ?nxt i"
      using assms(5) by simp_all
  qed
  have base: "?base (D q) = ?base (drq_t h q)" for q
  proof (cases "q \<in> set ?rs")
    case True
    then obtain i where "i < length ring" "q = fst (ring ! i)" by (auto simp: in_set_conv_nth)
    then show ?thesis using r(4) by simp
  qed (use r(3) in simp)
  have "sum_list (map (\<lambda>q. ?rel (dq_release_q_obj_desc_id (D q))) ?rs)
      = sum_list (map (\<lambda>q. ?rel (dq_release_q_obj_desc_id (drq_t h q))) ?rs)"
    by (rule sum_round) (use r(4) nx in \<open>simp add: plain_queue_def nth_append\<close>)
  then have "(\<Sum>q \<in># mset qs. ?rel (dq_release_q_obj_desc_id (D q))) = (\<Sum>q \<in># mset qs. ?rel (dq_release_q_obj_desc_id (drq_t h q)))"
  proof -
    assume a: "sum_list (map (\<lambda>q. ?rel (dq_release_q_obj_desc_id (D q))) ?rs)
      = sum_list (map (\<lambda>q. ?rel (dq_release_q_obj_desc_id (drq_t h q))) ?rs)"
    have "D q = drq_t h q" if "q \<in># mset ?rest" for q using that r(3) by simp
    then have "(\<Sum>q \<in># mset ?rest. ?rel (dq_release_q_obj_desc_id (D q))) = (\<Sum>q \<in># mset ?rest. ?rel (dq_release_q_obj_desc_id (drq_t h q)))"
      by (intro arg_cong [where f = sum_mset] image_mset_cong) simp
    moreover have "(\<Sum>q \<in># mset ?rs. f q) = sum_list (map f ?rs)" for f :: "uintptr \<Rightarrow> nat multiset"
      by (simp flip: mset_map add: sum_mset_sum_list)
    ultimately show ?thesis using a by (simp only: m image_mset_union sum_mset.union)
  qed
  then have "mset (owned h' qs) = mset (owned h qs)"
    by (simp only: mset_owned D own_list_release [of "D _"] own_list_release [of "drq_t h _"] base sum_mset.distrib)
  moreover have "\<exists>r. drq_t h' q = (drq_t h q)\<lparr>dq_release_q_obj_desc_id := r\<rparr>
      \<and> (r \<noteq> TIVX_OBJ_DESC_INVALID \<longrightarrow> (\<exists>x \<in> set qs. unat r \<in> set (own_queues (drq_t h x))))" if q: "q \<in> set qs" for q
  proof (cases "q \<in> set ?rs")
    case True
    then obtain i where i: "i < length ring" "q = fst (ring ! i)" by (auto simp: in_set_conv_nth)
    then show ?thesis using r(4) nx [OF i(1)] assms(4) D
      by (intro exI [of _ "passed_on (drq_t h (?nxt i))"]) (force simp: plain_queue_def own_queues_def)
  next
    case False
    then show ?thesis using r(3) D q
      by (intro exI [of _ "dq_release_q_obj_desc_id (drq_t h q)"]) (force simp: own_queues_def)
  qed
  ultimately show "ledger rc ca c h0 h' qs" by (rule ledger_swap [OF assms(1) s b D(2)])
qed


section \<open>Creating the queues of a graph\<close>

text \<open>The code behind the pointers keeps to itself: the memory of a reference is not part of the state.\<close>

definition quiet :: "host \<Rightarrow> host \<Rightarrow> bool" where
  "quiet h h' \<longleftrightarrow> same_refs h h' \<and> same_rest h h' \<and> same_book (tbl h) (tbl h') \<and> ho_posix h' = ho_posix h
     \<and> ho_data_ref_queues h' = ho_data_ref_queues h"

lemma quiet_refl [simp]: "quiet h h"
  by (simp add: quiet_def)

lemma quiet_trans: "quiet h h1 \<Longrightarrow> quiet h1 h2 \<Longrightarrow> quiet h h2"
  using same_rest_trans same_book_trans by (auto simp: quiet_def same_refs_def)

definition env_ok :: "verify_env \<Rightarrow> bool" where
  "env_ok env \<longleftrightarrow> rc_mutex_lock (ve_rc env) = 0 \<and> callbacks_local (ve_cb env) \<and> fn_ownDataRefQueueDestruct (ve_ca env) \<noteq> 0
     \<and> (\<forall>f h r. quiet h (fst (ve_mem env f h r)))"

text \<open>A queue that no delay has been linked to yet.\<close>

definition fresh_queue :: "host \<Rightarrow> uintptr \<Rightarrow> bool" where
  "fresh_queue h q \<longleftrightarrow> stages_typed (tbl h) (drq_t h q) \<and> plain_queue (drq_t h q)"

abbreviation (input) books :: "verify_env \<Rightarrow> uintptr \<Rightarrow> host \<Rightarrow> host \<Rightarrow> uintptr list \<Rightarrow> bool" where
  "books env c h0 h qs \<equiv> ledger (ve_rc env) (ve_ca env) c h0 h qs"

lemma ready_fresh:
  assumes "queue_ready pf tid q graph prms (drq_t h q) (tbl h)" "deletable ca h c q"
  shows "fresh_queue h q"
proof -
  note r = assms(1) [unfolded queue_ready_def Let_def]
  have o: "owns (tbl h) (drq_t h q)" "unat (dq_pipeline_depth (drq_t h q)) \<le> 16" using assms(2) by (simp_all add: deletable_def)
  have "\<exists>x. dq_obj_desc (drq_t h q) ! p = Some x \<and> x < num_entries (tbl h) \<and> od_type (desc_at (tbl h) x) = TIVX_OBJ_DESC_DATA_REF_Q"
    if p: "p < unat (dq_pipeline_depth (drq_t h q))" for p
  proof -
    have "filled pf tid q (qp_enable_user_queueing prms) (qp_num_in_nodes prms) (drq_t h q) (tbl h) p" using r p by simp
    then obtain x where x: "dq_obj_desc (drq_t h q) ! p = Some x" "od_type (desc_at (tbl h) x) = TIVX_OBJ_DESC_DATA_REF_Q"
      by (auto simp: filled_def ready_stage_def init_desc_def)
    then have "x \<in> in_use (tbl h)" using own_stage(1) [OF o(1) _ x(1)] p o(2) by simp
    then show ?thesis using x by (auto simp: in_use_def)
  qed
  moreover have "plain_queue (drq_t h q)" using r by (simp add: plain_queue_def passed_on_def split: if_splits)
  ultimately show ?thesis by (simp add: fresh_queue_def stages_typed_def)
qed

lemma stages_typed_taken: "taken D t t' \<Longrightarrow> stages_typed t d \<Longrightarrow> stages_typed t' d"
  unfolding taken_def stages_typed_def by (fastforce simp: in_use_def)

lemma create_step:
  assumes "books env c h0 h qs" "c = rf_context (ho_refs h0 graph)" "graph \<in> set (reftable h0 c)" "env_ok env"
    and "qp_pipeline_depth prms \<le> 16" "create_drq env graph prms h = (h', q)"
  shows "books env c h0 h' (if q = 0 then qs else q # qs)" "same_rest h h'" "q \<noteq> 0 \<Longrightarrow> fresh_queue h' q"
    "q \<noteq> 0 \<Longrightarrow> q \<notin> set qs" "\<And>x. x \<in> set qs \<Longrightarrow> fresh_queue h x \<Longrightarrow> fresh_queue h' x"
proof -
  note l = assms(1) [unfolded ledger_def]
  have c: "rf_context (ho_refs h graph) = c" using l assms(2,3) by simp
  have "graph \<noteq> 0" using assms(3) by (auto simp: reftable_def)
  moreover have "refs_ok h (rf_context (ho_refs h graph))" "table_wf (tbl h)" using l c by simp_all
  ultimately have cr: "q = 0 \<and> restored c h h' \<and> lacking (ve_rc env) c h prms \<or> created (ve_rc env) (ve_ca env) c h h' q
      \<and> queue_ready (ve_pf env) (ownPlatformGetTargetId (ve_info env) (Some TIVX_TARGET_HOST)) q graph prms (drq_t h' q) (tbl h')"
    using create_queue [OF _ _ _ _ _ _ assms(5,6)] assms(4) c by (simp add: env_ok_def)
  show "books env c h0 h' (if q = 0 then qs else q # qs)"
    using cr ledger_restored [OF assms(1)] ledger_created [OF assms(1)] by (auto simp: created_def)
  show "same_rest h h'" using cr by (auto simp: created_def restored_def)
  show "fresh_queue h' q" if "q \<noteq> 0"
    using cr that ready_fresh by (auto simp: created_def)
  show "q \<notin> set qs" if "q \<noteq> 0"
    using cr that ledger_table [OF assms(1)] by (auto simp: created_def)
  show "fresh_queue h' x" if "x \<in> set qs" "fresh_queue h x" for x
  proof -
    have "drq_t h' x = drq_t h x" using cr that(1) ledger_table [OF assms(1)] by (auto simp: created_def restored_def)
    moreover have "\<exists>D. taken D (tbl h) (tbl h')" using cr by (auto simp: created_def restored_def)
    ultimately show ?thesis using that(2) stages_typed_taken by (auto simp: fresh_queue_def)
  qed
qed

text \<open>Writing the graph, and steps that leave the queues alone.\<close>

lemma upd_graph_frames [simp]:
  "same_refs h (upd_graph g f h)" "tbl (upd_graph g f h) = tbl h" "ho_posix (upd_graph g f h) = ho_posix h"
  "ho_data_ref_queues (upd_graph g f h) = ho_data_ref_queues h" "ho_nodes (upd_graph g f h) = ho_nodes h"
  "ho_kernels (upd_graph g f h) = ho_kernels h" "ho_delays (upd_graph g f h) = ho_delays h" "ho_sys (upd_graph g f h) = ho_sys h"
  "ho_graphs (upd_graph g f h) = (ho_graphs h)(g := f (ho_graphs h g))" "fresh_queue (upd_graph g f h) = fresh_queue h"
  by (simp_all add: upd_graph_def same_refs_def fresh_queue_def fun_eq_iff)

lemma books_graph: "books env c h0 h qs \<Longrightarrow> books env c h0 (upd_graph g f h) qs"
  by (rule ledger_keep) simp_all

lemma books_quiet: "books env c h0 h qs \<Longrightarrow> quiet h h' \<Longrightarrow> books env c h0 h' qs"
  by (rule ledger_keep) (simp_all add: quiet_def)

lemma quiet_fresh: "quiet h h' \<Longrightarrow> fresh_queue h q \<Longrightarrow> fresh_queue h' q"
  using stages_typed_book by (auto simp: quiet_def fresh_queue_def)

lemma alloc_quiet:
  assumes "env_ok env"
  shows "quiet h (fst (ownReferenceAllocMem env h ref))" "quiet h (fst (ownGraphAllocateDataObject env n p h ref))"
    "quiet h (fst (alloc_bufs env n p refs h))" "quiet h (fst (ownGraphAllocateDataObjects env h graph))"
proof -
  have each: "quiet h (fst (for_each f xs h))" if "\<And>x h. quiet h (fst (f x h))" for f :: "'b \<Rightarrow> _" and xs h
  proof (induction xs arbitrary: h)
    case (Cons x xs)
    then show ?case using that [of h x] quiet_trans by (auto simp: and_then_def split: prod.split)
  qed simp
  show a: "quiet h (fst (ownReferenceAllocMem env h ref))" for h ref using assms by (simp add: ownReferenceAllocMem_def env_ok_def)
  then show b: "quiet h (fst (ownGraphAllocateDataObject env n p h ref))" for h n p ref by (simp add: ownGraphAllocateDataObject_def)
  show "quiet h (fst (alloc_bufs env n p refs h))" unfolding alloc_bufs_def by (rule each) (simp add: b)
  show "quiet h (fst (ownGraphAllocateDataObjects env h graph))"
    unfolding ownGraphAllocateDataObjects_def by (rule each) (simp add: b Let_def split: prod.split)
qed


section \<open>The pointers of the graph\<close>

definition param_ptrs :: "vx_graph_t \<Rightarrow> uintptr list" where
  "param_ptrs g = map gp_data_ref_queue (filter gp_queue_enable (take (unat (gr_num_params g)) (gr_parameters g)))"

definition list_ptrs :: "vx_graph_t \<Rightarrow> uintptr list" where
  "list_ptrs g = map qe_data_ref_queue (take (unat (gr_num_data_ref_q g)) (gr_data_ref_q_list g))"

definition delay_ptrs :: "vx_graph_t \<Rightarrow> uintptr list" where
  "delay_ptrs g = map de_data_ref_queue (take (unat (gr_num_delay_data_ref_q g)) (gr_delay_data_ref_q_list g))"

abbreviation (input) nonnull :: "uintptr list \<Rightarrow> uintptr list" where "nonnull \<equiv> filter (\<lambda>q. q \<noteq> 0)"

definition queues_of :: "vx_graph_t \<Rightarrow> uintptr list" where
  "queues_of g = nonnull (param_ptrs g) @ nonnull (list_ptrs g) @ nonnull (delay_ptrs g)"

lemma put_pointer:
  assumes "i < n" "i < length xs" "sel y" "sel (xs ! i)" "ptr (xs ! i) = 0"
  shows "mset (nonnull (map ptr (filter sel (take n (xs[i := y])))))
    = (if ptr y = 0 then {#} else {#ptr y#}) + mset (nonnull (map ptr (filter sel (take n xs))))"
proof -
  have "i < length (take n xs)" using assms by simp
  then have s: "take n xs = take i (take n xs) @ xs ! i # drop (Suc i) (take n xs)"
    "take n (xs[i := y]) = take i (take n xs) @ y # drop (Suc i) (take n xs)"
    using id_take_nth_drop [of i "take n xs"] upd_conv_take_nth_drop [of i "take n xs" y] assms(1)
    by (simp_all add: take_update_swap)
  show ?thesis by (subst s(2), subst s(1)) (use assms(3-5) in simp)
qed

text \<open>What a graph keeps while its queues come and go.\<close>

definition graph_frame :: "vx_graph_t \<Rightarrow> vx_graph_t \<Rightarrow> bool" where
  "graph_frame g g' \<longleftrightarrow> gr_pipeline_depth g' = gr_pipeline_depth g \<and> gr_nodes g' = gr_nodes g \<and> gr_num_nodes g' = gr_num_nodes g
     \<and> gr_num_params g' = gr_num_params g \<and> gr_num_data_ref_q g' = gr_num_data_ref_q g
     \<and> map (\<lambda>p. (gp_node p, gp_index p, gp_queue_enable p)) (gr_parameters g')
       = map (\<lambda>p. (gp_node p, gp_index p, gp_queue_enable p)) (gr_parameters g)
     \<and> map (\<lambda>e. (qe_node e, qe_index e, qe_num_buf e)) (gr_data_ref_q_list g')
       = map (\<lambda>e. (qe_node e, qe_index e, qe_num_buf e)) (gr_data_ref_q_list g)
     \<and> length (gr_delay_data_ref_q_list g') = length (gr_delay_data_ref_q_list g)"

lemma graph_frame_refl [simp]: "graph_frame g g"
  by (simp add: graph_frame_def)

lemma graph_frame_trans: "graph_frame g g1 \<Longrightarrow> graph_frame g1 g2 \<Longrightarrow> graph_frame g g2"
  by (simp add: graph_frame_def)

lemma graph_frame_params:
  assumes "graph_frame g g'"
  shows "length (gr_parameters g') = length (gr_parameters g)" "length (gr_data_ref_q_list g') = length (gr_data_ref_q_list g)"
    "i < length (gr_parameters g) \<Longrightarrow> gp_node (gr_parameters g' ! i) = gp_node (gr_parameters g ! i)
      \<and> gp_index (gr_parameters g' ! i) = gp_index (gr_parameters g ! i)
      \<and> gp_queue_enable (gr_parameters g' ! i) = gp_queue_enable (gr_parameters g ! i)"
    "i < length (gr_data_ref_q_list g) \<Longrightarrow> qe_node (gr_data_ref_q_list g' ! i) = qe_node (gr_data_ref_q_list g ! i)
      \<and> qe_index (gr_data_ref_q_list g' ! i) = qe_index (gr_data_ref_q_list g ! i)
      \<and> qe_num_buf (gr_data_ref_q_list g' ! i) = qe_num_buf (gr_data_ref_q_list g ! i)"
proof -
  note f = assms [unfolded graph_frame_def]
  show len: "length (gr_parameters g') = length (gr_parameters g)" "length (gr_data_ref_q_list g') = length (gr_data_ref_q_list g)"
    using f map_eq_imp_length_eq by blast+
  have "map (\<lambda>p. (gp_node p, gp_index p, gp_queue_enable p)) (gr_parameters g') ! i
      = map (\<lambda>p. (gp_node p, gp_index p, gp_queue_enable p)) (gr_parameters g) ! i"
    "map (\<lambda>e. (qe_node e, qe_index e, qe_num_buf e)) (gr_data_ref_q_list g') ! i
      = map (\<lambda>e. (qe_node e, qe_index e, qe_num_buf e)) (gr_data_ref_q_list g) ! i" using f by simp_all
  then show "i < length (gr_parameters g) \<Longrightarrow> gp_node (gr_parameters g' ! i) = gp_node (gr_parameters g ! i)
      \<and> gp_index (gr_parameters g' ! i) = gp_index (gr_parameters g ! i)
      \<and> gp_queue_enable (gr_parameters g' ! i) = gp_queue_enable (gr_parameters g ! i)"
    "i < length (gr_data_ref_q_list g) \<Longrightarrow> qe_node (gr_data_ref_q_list g' ! i) = qe_node (gr_data_ref_q_list g ! i)
      \<and> qe_index (gr_data_ref_q_list g' ! i) = qe_index (gr_data_ref_q_list g ! i)
      \<and> qe_num_buf (gr_data_ref_q_list g' ! i) = qe_num_buf (gr_data_ref_q_list g ! i)" using len by simp_all
qed

text \<open>Changing a pointer.\<close>

lemma graph_frame_puts:
  "graph_frame g (g\<lparr>gr_parameters := (gr_parameters g)[i := (gr_parameters g ! i)\<lparr>gp_data_ref_queue := q\<rparr>]\<rparr>)"
  "graph_frame g (g\<lparr>gr_data_ref_q_list := (gr_data_ref_q_list g)[i := (gr_data_ref_q_list g ! i)\<lparr>qe_data_ref_queue := q\<rparr>]\<rparr>)"
  "graph_frame g (g\<lparr>gr_delay_data_ref_q_list := (gr_delay_data_ref_q_list g)[i := e]\<rparr>)"
  "graph_frame g (g\<lparr>gr_num_delay_data_ref_q := m\<rparr>)"
proof -
  have u: "(map f xs)[i := f (xs ! i)] = map f xs" for f :: "'c \<Rightarrow> 'd" and xs
    by (cases "i < length xs") (simp_all add: list_update_same_conv list_update_beyond)
  show "graph_frame g (g\<lparr>gr_parameters := (gr_parameters g)[i := (gr_parameters g ! i)\<lparr>gp_data_ref_queue := q\<rparr>]\<rparr>)"
    "graph_frame g (g\<lparr>gr_data_ref_q_list := (gr_data_ref_q_list g)[i := (gr_data_ref_q_list g ! i)\<lparr>qe_data_ref_queue := q\<rparr>]\<rparr>)"
    using u [of "\<lambda>p. (gp_node p, gp_index p, gp_queue_enable p)" "gr_parameters g"]
      u [of "\<lambda>e. (qe_node e, qe_index e, qe_num_buf e)" "gr_data_ref_q_list g"]
    by (simp_all add: graph_frame_def map_update)
qed (simp_all add: graph_frame_def)

text \<open>A parameter whose queue may belong to a ring: its reference is live, and it is associated with one
  slot of its delay at most.\<close>

definition queue_param_ok :: "host \<Rightarrow> uintptr \<Rightarrow> uintptr \<Rightarrow> uint32 \<Rightarrow> bool" where
  "queue_param_ok h c node idx \<longleftrightarrow> node \<noteq> 0
     \<and> (let ref = ownNodeGetParameterRef h node (unat idx); delay = rf_delay (ho_refs h ref) in
        ref \<noteq> 0 \<longrightarrow> ref \<in> set (reftable h c) \<and> (delay \<noteq> 0 \<longrightarrow>
          length (filter (\<lambda>s. slot_head h delay s = (node, idx)) [0..<unat (dl_count (ho_delays h delay))]) \<le> 1))"

text \<open>The graph before its queues are made. The pointers that are not null must not belong to the loops.\<close>

definition graph_fresh :: "host \<Rightarrow> uintptr \<Rightarrow> bool" where
  "graph_fresh h graph \<longleftrightarrow> (let c = rf_context (ho_refs h graph); g = ho_graphs h graph in
     refs_ok h c \<and> table_wf (tbl h) \<and> graph \<in> set (reftable h c) \<and> gr_pipeline_depth g \<le> 16
   \<and> unat (gr_num_params g) \<le> length (gr_parameters g) \<and> unat (gr_num_data_ref_q g) \<le> length (gr_data_ref_q_list g)
   \<and> length (gr_delay_data_ref_q_list g) = TIVX_GRAPH_MAX_DATA_REF_QUEUE \<and> queues_of g = []
   \<and> gr_num_delay_data_ref_q g = 0
   \<and> (\<forall>i < unat (gr_num_params g). gp_queue_enable (gr_parameters g ! i)
        \<longrightarrow> queue_param_ok h c (gp_node (gr_parameters g ! i)) (gp_index (gr_parameters g ! i)))
   \<and> (\<forall>i < unat (gr_num_data_ref_q g). queue_param_ok h c (qe_node (gr_data_ref_q_list g ! i)) (qe_index (gr_data_ref_q_list g ! i))))"

text \<open>While they are made: the pointers of the parameters outside \<open>A\<close> and of the entries outside \<open>B\<close> are null.\<close>

definition making :: "verify_env \<Rightarrow> uintptr \<Rightarrow> host \<Rightarrow> nat set \<Rightarrow> nat set \<Rightarrow> host \<Rightarrow> bool" where
  "making env graph h0 A B h \<longleftrightarrow> (let g = ho_graphs h graph in
     books env (rf_context (ho_refs h0 graph)) h0 h (queues_of g) \<and> ho_nodes h = ho_nodes h0 \<and> ho_delays h = ho_delays h0
   \<and> ho_kernels h = ho_kernels h0 \<and> graph_frame (ho_graphs h0 graph) g
   \<and> unat (gr_num_delay_data_ref_q g) \<le> TIVX_GRAPH_MAX_DATA_REF_QUEUE
   \<and> (\<forall>i < unat (gr_num_params g). i \<notin> A \<longrightarrow> gp_queue_enable (gr_parameters g ! i) \<longrightarrow> gp_data_ref_queue (gr_parameters g ! i) = 0)
   \<and> (\<forall>i < unat (gr_num_data_ref_q g). i \<notin> B \<longrightarrow> qe_data_ref_queue (gr_data_ref_q_list g ! i) = 0))"

lemma making_mono: "making env graph h0 A B h \<Longrightarrow> A \<subseteq> A' \<Longrightarrow> B \<subseteq> B' \<Longrightarrow> making env graph h0 A' B' h"
  by (auto simp: making_def Let_def)

lemma making_quiet:
  assumes "making env graph h0 A B h" "quiet h h'"
  shows "making env graph h0 A B h'"
proof -
  have "ho_graphs h' = ho_graphs h" "ho_nodes h' = ho_nodes h" "ho_delays h' = ho_delays h" "ho_kernels h' = ho_kernels h"
    using assms(2) by (simp_all add: quiet_def same_rest_def)
  then show ?thesis using assms(1) books_quiet [OF _ assms(2)] by (simp add: making_def Let_def)
qed

lemma making_start:
  assumes "graph_fresh h0 graph"
  shows "making env graph h0 {} {} h0"
proof -
  let ?g = "ho_graphs h0 graph"
  note f = assms [unfolded graph_fresh_def Let_def]
  have q: "queues_of ?g = []" using f by simp
  have n: "unat (gr_num_params ?g) \<le> length (gr_parameters ?g)" "unat (gr_num_data_ref_q ?g) \<le> length (gr_data_ref_q_list ?g)"
    using f by simp_all
  have "gp_data_ref_queue (gr_parameters ?g ! i) = 0" if "i < unat (gr_num_params ?g)" "gp_queue_enable (gr_parameters ?g ! i)" for i
  proof -
    have "gr_parameters ?g ! i \<in> set (take (unat (gr_num_params ?g)) (gr_parameters ?g))"
      using that(1) n(1) by (auto simp: in_set_conv_nth)
    then show ?thesis using q that(2) by (auto simp: queues_of_def param_ptrs_def filter_empty_conv)
  qed
  moreover have "qe_data_ref_queue (gr_data_ref_q_list ?g ! i) = 0" if "i < unat (gr_num_data_ref_q ?g)" for i
  proof -
    have "gr_data_ref_q_list ?g ! i \<in> set (take (unat (gr_num_data_ref_q ?g)) (gr_data_ref_q_list ?g))"
      using that(1) n(2) by (auto simp: in_set_conv_nth)
    then show ?thesis using q by (auto simp: queues_of_def list_ptrs_def filter_empty_conv)
  qed
  ultimately show ?thesis using f q by (simp add: making_def ledger_start)
qed


section \<open>One queue after the other\<close>

lemma making_put:
  assumes "books env (rf_context (ho_refs h0 graph)) h0 h qs" "ho_nodes h = ho_nodes h0" "ho_delays h = ho_delays h0"
    "ho_kernels h = ho_kernels h0" "graph_frame (ho_graphs h0 graph) (f (ho_graphs h graph))"
    "mset (queues_of (f (ho_graphs h graph))) = mset qs"
    "unat (gr_num_delay_data_ref_q (f (ho_graphs h graph))) \<le> TIVX_GRAPH_MAX_DATA_REF_QUEUE"
    "\<forall>i < unat (gr_num_params (f (ho_graphs h graph))). i \<notin> A \<longrightarrow> gp_queue_enable (gr_parameters (f (ho_graphs h graph)) ! i)
       \<longrightarrow> gp_data_ref_queue (gr_parameters (f (ho_graphs h graph)) ! i) = 0"
    "\<forall>i < unat (gr_num_data_ref_q (f (ho_graphs h graph))). i \<notin> B
       \<longrightarrow> qe_data_ref_queue (gr_data_ref_q_list (f (ho_graphs h graph)) ! i) = 0"
  shows "making env graph h0 A B (upd_graph graph f h)"
  using assms ledger_perm [OF books_graph [OF assms(1)] assms(6)] by (simp add: making_def)

text \<open>Writing to the entry after the last one of the list for delays.\<close>

lemma making_spare:
  assumes "making env graph h0 A B h"
  shows "making env graph h0 A B (upd_delay_entry graph f h)"
proof -
  note m = assms [unfolded making_def Let_def]
  show ?thesis
    by (rule making_put [where qs = "queues_of (ho_graphs h graph)"])
      (use m graph_frame_trans [OF _ graph_frame_puts(3)] in
        \<open>simp_all add: queues_of_def param_ptrs_def list_ptrs_def delay_ptrs_def take_update_cancel\<close>)
qed

lemma add_delay_queue_ok:
  assumes "making env graph h0 A B h" "env_ok env" "graph_fresh h0 graph" "add_delay_queue env graph delay h slot = (h', q, st)"
  shows "making env graph h0 A B h'" "set (queues_of (ho_graphs h graph)) \<subseteq> set (queues_of (ho_graphs h' graph))"
    "st = VX_SUCCESS \<Longrightarrow> q \<in> set (queues_of (ho_graphs h' graph)) - set (queues_of (ho_graphs h graph)) \<and> fresh_queue h' q"
    "x \<in> set (queues_of (ho_graphs h graph)) \<Longrightarrow> fresh_queue h x \<Longrightarrow> fresh_queue h' x"
proof -
  let ?c = "rf_context (ho_refs h0 graph)" and ?G = "\<lambda>h. ho_graphs h graph"
  have all: "making env graph h0 A B h' \<and> set (queues_of (?G h)) \<subseteq> set (queues_of (?G h'))
      \<and> (st = VX_SUCCESS \<longrightarrow> q \<in> set (queues_of (?G h')) - set (queues_of (?G h)) \<and> fresh_queue h' q)
      \<and> (\<forall>x \<in> set (queues_of (?G h)). fresh_queue h x \<longrightarrow> fresh_queue h' x)"
  proof (cases "gr_num_delay_data_ref_q (?G h) < TIVX_GRAPH_MAX_DATA_REF_QUEUE")
    case False
    then show ?thesis using assms(1,4) by (simp add: add_delay_queue_def)
  next
    case room: True
    obtain node idx where hd: "slot_head h delay slot = (node, idx)" by fastforce
    define h1 where "h1 = upd_delay_entry graph (\<lambda>e. e\<lparr>de_node := node, de_index := idx, de_delay_ref := delay,
                     de_delay_slot_index := of_nat slot\<rparr>) h"
    have m1: "making env graph h0 A B h1" unfolding h1_def by (rule making_spare [OF assms(1)])
    note mk = m1 [unfolded making_def Let_def]
    have g1: "queues_of (?G h1) = queues_of (?G h)" "fresh_queue h1 = fresh_queue h"
      "gr_num_delay_data_ref_q (?G h1) = gr_num_delay_data_ref_q (?G h)"
      by (simp_all add: h1_def queues_of_def param_ptrs_def list_ptrs_def delay_ptrs_def take_update_cancel)
    obtain h2 r where cr: "create_drq env graph (delay_queue_prms h1 graph node idx) h1 = (h2, r)" by fastforce
    note fr = assms(3) [unfolded graph_fresh_def Let_def]
    have depth: "qp_pipeline_depth (delay_queue_prms h1 graph node idx) \<le> 16"
      using mk fr by (simp add: delay_queue_prms_def graph_frame_def)
    note cs = create_step [OF conjunct1 [OF mk] refl _ assms(2) depth cr]
    have gl: "graph \<in> set (reftable h0 ?c)" using fr by simp
    note cs = cs [OF gl]
    have s2: "ho_graphs h2 = ho_graphs h1" "ho_nodes h2 = ho_nodes h1" "ho_delays h2 = ho_delays h1" "ho_kernels h2 = ho_kernels h1"
      using cs(2) by (simp_all add: same_rest_def)
    have m2: "making env graph h0 A B h2" if "r = 0"
      using cs(1) that mk s2 by (simp add: making_def Let_def)
    define h3 where "h3 = upd_delay_entry graph (\<lambda>e. e\<lparr>de_data_ref_queue := r\<rparr>) h2"
    show ?thesis
    proof (cases "r = 0")
      case True
      then have "h' = h3" "st \<noteq> VX_SUCCESS"
        using assms(4) room hd cr by (auto simp: add_delay_queue_def h1_def h3_def Let_def split: prod.splits)
      moreover have "making env graph h0 A B h3" unfolding h3_def by (rule making_spare [OF m2 [OF True]])
      moreover have "queues_of (?G h3) = queues_of (?G h)" "fresh_queue h3 = fresh_queue h2"
        using s2 g1 by (simp_all add: h3_def queues_of_def param_ptrs_def list_ptrs_def delay_ptrs_def take_update_cancel)
      ultimately show ?thesis using cs(5) g1 by auto
    next
      case False
      let ?n = "unat (gr_num_delay_data_ref_q (?G h))"
      define F where "F = (\<lambda>g :: vx_graph_t. g\<lparr>gr_delay_data_ref_q_list := (gr_delay_data_ref_q_list g)[unat (gr_num_delay_data_ref_q g) :=
           (gr_delay_data_ref_q_list g ! unat (gr_num_delay_data_ref_q g))\<lparr>de_data_ref_queue := r\<rparr>],
         gr_num_delay_data_ref_q := gr_num_delay_data_ref_q g + 1\<rparr>)"
      have h': "h' = upd_graph graph F h2" "q = r" "st = VX_SUCCESS"
        using assms(4) room hd cr False
        by (auto simp: add_delay_queue_def h1_def h3_def Let_def F_def upd_graph_def split: prod.splits)
      have n: "?n < TIVX_GRAPH_MAX_DATA_REF_QUEUE" using room by (simp add: word_less_nat_alt)
      then have n1: "unat (gr_num_delay_data_ref_q (?G h) + 1) = Suc ?n" by (subst unat_plus_simple [THEN iffD1]) (auto simp: word_le_nat_alt unat_word_ariths)
      have len: "length (gr_delay_data_ref_q_list (?G h1)) = TIVX_GRAPH_MAX_DATA_REF_QUEUE"
        using mk fr by (simp add: graph_frame_def)
      have "delay_ptrs (F (?G h2)) = delay_ptrs (?G h1) @ [r]"
        using n n1 g1(3) len s2 by (simp add: delay_ptrs_def F_def take_Suc_conv_app_nth take_update_cancel)
      then have qs: "queues_of (F (?G h2)) = queues_of (?G h) @ [r]"
        using False g1(1) s2(1) by (simp add: queues_of_def param_ptrs_def list_ptrs_def F_def)
      have "making env graph h0 A B h'"
        unfolding h'(1)
      proof (rule making_put [where qs = "r # queues_of (?G h1)"])
        show "books env ?c h0 h2 (r # queues_of (?G h1))" using cs(1) False by simp
        have "graph_frame (?G h2) (F (?G h2))"
          using graph_frame_trans [OF graph_frame_puts(3) graph_frame_puts(4)] by (simp add: F_def)
        then show "graph_frame (?G h0) (F (?G h2))" using mk s2 graph_frame_trans by metis
        show "mset (queues_of (F (?G h2))) = mset (r # queues_of (?G h1))" using qs g1(1) by simp
      qed (use mk s2 n n1 g1(3) in \<open>simp_all add: F_def\<close>)
      moreover have "?G h' = F (?G h2)" by (simp add: h'(1))
      ultimately show ?thesis using qs cs(3-5) False g1 h' by auto
    qed
  qed
  show "making env graph h0 A B h'" "set (queues_of (ho_graphs h graph)) \<subseteq> set (queues_of (ho_graphs h' graph))"
    "st = VX_SUCCESS \<Longrightarrow> q \<in> set (queues_of (ho_graphs h' graph)) - set (queues_of (ho_graphs h graph)) \<and> fresh_queue h' q"
    "x \<in> set (queues_of (ho_graphs h graph)) \<Longrightarrow> fresh_queue h x \<Longrightarrow> fresh_queue h' x"
    using all by auto
qed


lemma delay_ring_ok:
  assumes "making env graph h0 A B h" "env_ok env" "graph_fresh h0 graph"
    and "delay_ring env graph node idx q delay ring rest h = (h', ring', st)"
    and "q \<in> set (queues_of (ho_graphs h graph))" "fresh_queue h q"
    and "distinct (map fst ring)" "\<forall>x \<in> set ring. fst x \<in> set (queues_of (ho_graphs h graph)) \<and> fresh_queue h (fst x)"
    and "length (filter (\<lambda>s. slot_head h0 delay s = (node, idx)) rest) \<le> (if q \<in> fst ` set ring then 0 else 1)"
  shows "making env graph h0 A B h' \<and> (st = VX_SUCCESS \<longrightarrow> distinct (map fst ring') \<and> length ring' = length ring + length rest
    \<and> (\<forall>x \<in> set ring'. fst x \<in> set (queues_of (ho_graphs h' graph)) \<and> fresh_queue h' (fst x)))"
  using assms(1,4-)
proof (induction rest arbitrary: h ring)
  case Nil
  then show ?case by auto
next
  case (Cons slot rest)
  have hd: "slot_head h delay slot = slot_head h0 delay slot"
    using Cons.prems(1) by (simp add: making_def Let_def slot_head_def)
  show ?case
  proof (cases "slot_head h0 delay slot = (node, idx)")
    case True
    then have run: "delay_ring env graph node idx q delay (ring @ [(q, False)]) rest h = (h', ring', st)"
      using Cons.prems(2) hd by simp
    have out: "q \<notin> fst ` set ring" "filter (\<lambda>s. slot_head h0 delay s = (node, idx)) rest = []"
      using Cons.prems(7) True by (auto split: if_splits)
    have p: "distinct (map fst (ring @ [(q, False)]))" "\<forall>x \<in> set (ring @ [(q, False)]). fst x \<in> set (queues_of (ho_graphs h graph)) \<and> fresh_queue h (fst x)"
      "length (filter (\<lambda>s. slot_head h0 delay s = (node, idx)) rest) \<le> (if q \<in> fst ` set (ring @ [(q, False)]) then 0 else 1)"
      using Cons.prems(3-6) out by (auto simp: image_iff)
    show ?thesis using Cons.IH [OF Cons.prems(1) run Cons.prems(3,4) p] by simp
  next
    case False
    obtain h1 r st1 where ad: "add_delay_queue env graph delay h slot = (h1, r, st1)" by (metis prod_cases3)
    note a = add_delay_queue_ok [OF Cons.prems(1) assms(2,3) ad]
    show ?thesis
    proof (cases "st1 = VX_SUCCESS")
      case ok: True
      let ?e = "(r, fst (slot_head h delay slot) = 0)"
      have run: "delay_ring env graph node idx q delay (ring @ [?e]) rest h1 = (h', ring', st)"
        using Cons.prems(2) hd False ad ok by simp
      note r = a(3) [OF ok]
      have p: "q \<in> set (queues_of (ho_graphs h1 graph))" "fresh_queue h1 q" "distinct (map fst (ring @ [?e]))"
        "\<forall>x \<in> set (ring @ [?e]). fst x \<in> set (queues_of (ho_graphs h1 graph)) \<and> fresh_queue h1 (fst x)"
        using Cons.prems(3-6) a(2,4) r by auto
      have "q \<noteq> r" using r Cons.prems(3) by auto
      then have "length (filter (\<lambda>s. slot_head h0 delay s = (node, idx)) rest) \<le> (if q \<in> fst ` set (ring @ [?e]) then 0 else 1)"
        using Cons.prems(7) False by auto
      from Cons.IH [OF a(1) run p this] show ?thesis by simp
    next
      case bad: False
      then have "h' = h1" "st = st1" using Cons.prems(2) hd False ad by auto
      then show ?thesis using a(1) bad by simp
    qed
  qed
qed

lemma making_ring:
  assumes "making env graph h0 A B h" "distinct (map fst ring)" "length ring = unat n"
    and "\<forall>x \<in> set ring. fst x \<in> set (queues_of (ho_graphs h graph)) \<and> fresh_queue h (fst x)"
  shows "making env graph h0 A B (ownDataRefQueueLinkDelayDataRefQueues ring n h)"
proof -
  note m = assms(1) [unfolded making_def Let_def]
  have p: "set (map fst ring) \<subseteq> set (queues_of (ho_graphs h graph))"
    "\<forall>x \<in> set ring. stages_typed (tbl h) (drq_t h (fst x)) \<and> plain_queue (drq_t h (fst x))"
    using assms(4) by (auto simp: fresh_queue_def)
  note r = ledger_ring [OF conjunct1 [OF m] assms(2,3) p]
  show ?thesis using m r(1,2) by (simp add: making_def Let_def same_rest_def)
qed

lemma check_and_create_ok:
  assumes "making env graph h0 A B h" "env_ok env" "graph_fresh h0 graph"
    and "queue_param_ok h0 (rf_context (ho_refs h0 graph)) node idx"
    and "q \<in> set (queues_of (ho_graphs h graph))" "fresh_queue h q"
  shows "making env graph h0 A B (fst (ownGraphCheckAndCreateDelayDataReferenceQueues env graph node idx q h))"
proof -
  note m = assms(1) [unfolded making_def Let_def]
  let ?ref = "ownNodeGetParameterRef h node (unat idx)"
  let ?delay = "rf_delay (ho_refs h ?ref)"
  let ?run = "ownGraphCheckAndCreateDelayDataReferenceQueues env graph node idx q h"
  have ref: "?ref = ownNodeGetParameterRef h0 node (unat idx)" using m by (simp add: ownNodeGetParameterRef_def)
  show ?thesis
  proof (cases "?ref \<noteq> 0 \<and> ownIsValidSpecificReference h ?delay VX_TYPE_DELAY")
    case False
    then have "fst ?run = h" by (auto simp: ownGraphCheckAndCreateDelayDataReferenceQueues_def Let_def)
    then show ?thesis using assms(1) by simp
  next
    case True
    let ?n = "dl_count (ho_delays h ?delay)"
    have "?ref \<in> set (reftable h0 (rf_context (ho_refs h0 graph)))"
      using assms(4) True ref by (simp add: queue_param_ok_def Let_def)
    then have "ho_refs h ?ref = ho_refs h0 ?ref" using m by (simp add: ledger_def)
    moreover have "?delay \<noteq> 0" using True by (auto simp: ownIsValidSpecificReference_def)
    ultimately have one: "length (filter (\<lambda>s. slot_head h0 ?delay s = (node, idx)) [0..<unat ?n])
        \<le> (if q \<in> fst ` set ([] :: (uintptr \<times> bool) list) then 0 else 1)"
      using assms(4) True ref m by (simp add: queue_param_ok_def Let_def)
    obtain h1 ring st where run: "delay_ring env graph node idx q ?delay [] [0..<unat ?n] h = (h1, ring, st)" by (metis prod_cases3)
    note d = delay_ring_ok [OF assms(1-3) run assms(5,6) _ _ one, simplified]
    have "ho_delays h1 = ho_delays h" using d m by (simp add: making_def Let_def)
    moreover have "making env graph h0 A B (ownDataRefQueueLinkDelayDataRefQueues ring ?n h1)" if "st = VX_SUCCESS"
      using d that by (intro making_ring) simp_all
    ultimately show ?thesis
      using True run d by (simp add: ownGraphCheckAndCreateDelayDataReferenceQueues_def Let_def)
  qed
qed

text \<open>The rest of a step of the two loops, after the creation of the queue.\<close>

lemma queue_step:
  assumes "making env graph h0 A B h" "env_ok env" "graph_fresh h0 graph"
    and "queue_param_ok h0 (rf_context (ho_refs h0 graph)) node idx"
    and "q \<noteq> 0 \<longrightarrow> q \<in> set (queues_of (ho_graphs h graph)) \<and> fresh_queue h q"
  shows "making env graph h0 A B (fst (and_then (and_then (h, if q = 0 then VX_ERROR_NO_RESOURCES else VX_SUCCESS)
      (ownGraphCheckAndCreateDelayDataReferenceQueues env graph node idx q)) (alloc_bufs env n p refs)))"
proof -
  let ?cc = "ownGraphCheckAndCreateDelayDataReferenceQueues env graph node idx q h"
  have "making env graph h0 A B (fst ?cc)" if "q \<noteq> 0"
    using check_and_create_ok [OF assms(1-4)] assms(5) that by simp
  moreover have "making env graph h0 A B h1 \<Longrightarrow> making env graph h0 A B (fst (alloc_bufs env n p refs h1))" for h1
    by (rule making_quiet [OF _ alloc_quiet(3) [OF assms(2)]])
  ultimately show ?thesis using assms(1) by (cases ?cc) (simp add: and_then_def)
qed

lemma create_param_ok:
  assumes "making env graph h0 A B h" "env_ok env" "graph_fresh h0 graph" "i < unat (gr_num_params (ho_graphs h0 graph))" "i \<notin> A"
  shows "making env graph h0 (insert i A) B (fst (create_param_queue env graph i h))"
proof -
  let ?c = "rf_context (ho_refs h0 graph)" and ?G = "\<lambda>h. ho_graphs h graph"
  note m = assms(1) [unfolded making_def Let_def] and fr = assms(3) [unfolded graph_fresh_def Let_def]
  have gf: "graph_frame (?G h0) (?G h)" using m by simp
  have len: "i < length (gr_parameters (?G h0))" using assms(4) fr by simp
  have len': "i < length (gr_parameters (?G h))" and same: "gp_node (gr_parameters (?G h) ! i) = gp_node (gr_parameters (?G h0) ! i)"
    "gp_index (gr_parameters (?G h) ! i) = gp_index (gr_parameters (?G h0) ! i)"
    "gp_queue_enable (gr_parameters (?G h) ! i) = gp_queue_enable (gr_parameters (?G h0) ! i)"
    using graph_frame_params(1,3) [OF gf] len by auto
  have np: "gr_num_params (?G h) = gr_num_params (?G h0)" using gf by (simp add: graph_frame_def)
  show ?thesis
  proof (cases "gp_queue_enable (gr_parameters (?G h) ! i)")
    case False
    then show ?thesis using making_mono [OF assms(1) subset_insertI order_refl] by (simp add: create_param_queue_def)
  next
    case True
    obtain h1 q where cr: "create_drq env graph (param_queue_prms h graph i) h = (h1, q)" by fastforce
    have depth: "qp_pipeline_depth (param_queue_prms h graph i) \<le> 16" using gf fr by (simp add: param_queue_prms_def Let_def graph_frame_def)
    note cs = create_step [OF conjunct1 [OF m] refl conjunct1 [OF conjunct2 [OF conjunct2 [OF fr]]] assms(2) depth cr]
    have s1: "ho_graphs h1 = ho_graphs h" "ho_nodes h1 = ho_nodes h" "ho_delays h1 = ho_delays h" "ho_kernels h1 = ho_kernels h"
      using cs(2) by (simp_all add: same_rest_def)
    define F where "F = (\<lambda>g :: vx_graph_t. g\<lparr>gr_parameters := (gr_parameters g)[i := (gr_parameters g ! i)\<lparr>gp_data_ref_queue := q\<rparr>]\<rparr>)"
    have null: "gp_data_ref_queue (gr_parameters (?G h) ! i) = 0" using m assms(4,5) True np by simp
    have qs: "mset (queues_of (F (?G h))) = (if q = 0 then {#} else {#q#}) + mset (queues_of (?G h))"
      using put_pointer [where ptr = gp_data_ref_queue and sel = gp_queue_enable and xs = "gr_parameters (?G h)" and i = i
          and y = "(gr_parameters (?G h) ! i)\<lparr>gp_data_ref_queue := q\<rparr>" and n = "unat (gr_num_params (?G h))"] assms(4) len' True null np
      by (simp add: queues_of_def param_ptrs_def list_ptrs_def delay_ptrs_def F_def)
    have "making env graph h0 (insert i A) B (upd_graph graph F h1)"
    proof (rule making_put)
      show "books env ?c h0 h1 (if q = 0 then queues_of (?G h) else q # queues_of (?G h))" by (rule cs(1))
      show "graph_frame (?G h0) (F (?G h1))" using graph_frame_trans [OF gf graph_frame_puts(1)] s1 by (simp add: F_def)
      show "mset (queues_of (F (?G h1))) = mset (if q = 0 then queues_of (?G h) else q # queues_of (?G h))" using qs s1 by simp
    qed (use m s1 in \<open>auto simp: F_def nth_list_update\<close>)
    moreover have "q \<noteq> 0 \<longrightarrow> q \<in> set (queues_of (?G (upd_graph graph F h1))) \<and> fresh_queue (upd_graph graph F h1) q"
    proof
      assume "q \<noteq> 0"
      moreover have "set (queues_of (F (?G h))) = set_mset (mset (queues_of (F (?G h))))" by simp
      ultimately have "q \<in> set (queues_of (F (?G h)))" unfolding qs by simp
      then show "q \<in> set (queues_of (?G (upd_graph graph F h1))) \<and> fresh_queue (upd_graph graph F h1) q"
        using cs(3) \<open>q \<noteq> 0\<close> s1 by simp
    qed
    moreover have "queue_param_ok h0 ?c (gp_node (gr_parameters (?G h) ! i)) (gp_index (gr_parameters (?G h) ! i))"
      using fr assms(4) True same by auto
    ultimately show ?thesis
      using queue_step [OF _ assms(2,3)] True cr s1 len' by (simp add: create_param_queue_def Let_def F_def)
  qed
qed


lemma create_list_ok:
  assumes "making env graph h0 A B h" "env_ok env" "graph_fresh h0 graph" "i < unat (gr_num_data_ref_q (ho_graphs h0 graph))" "i \<notin> B"
  shows "making env graph h0 A (insert i B) (fst (create_list_queue env graph i h))"
proof -
  let ?c = "rf_context (ho_refs h0 graph)" and ?G = "\<lambda>h. ho_graphs h graph"
  note m = assms(1) [unfolded making_def Let_def] and fr = assms(3) [unfolded graph_fresh_def Let_def]
  have gf: "graph_frame (?G h0) (?G h)" using m by simp
  have len: "i < length (gr_data_ref_q_list (?G h0))" using assms(4) fr by simp
  have len': "i < length (gr_data_ref_q_list (?G h))" and same: "qe_node (gr_data_ref_q_list (?G h) ! i) = qe_node (gr_data_ref_q_list (?G h0) ! i)"
    "qe_index (gr_data_ref_q_list (?G h) ! i) = qe_index (gr_data_ref_q_list (?G h0) ! i)"
    using graph_frame_params(2,4) [OF gf] len by auto
  have nq: "gr_num_data_ref_q (?G h) = gr_num_data_ref_q (?G h0)" using gf by (simp add: graph_frame_def)
  obtain h1 q where cr: "create_drq env graph (list_queue_prms env h graph i) h = (h1, q)" by fastforce
  have depth: "qp_pipeline_depth (list_queue_prms env h graph i) \<le> 16" using gf fr by (simp add: list_queue_prms_def Let_def graph_frame_def)
  note cs = create_step [OF conjunct1 [OF m] refl conjunct1 [OF conjunct2 [OF conjunct2 [OF fr]]] assms(2) depth cr]
  have s1: "ho_graphs h1 = ho_graphs h" "ho_nodes h1 = ho_nodes h" "ho_delays h1 = ho_delays h" "ho_kernels h1 = ho_kernels h"
    using cs(2) by (simp_all add: same_rest_def)
  define F where "F = (\<lambda>g :: vx_graph_t. g\<lparr>gr_data_ref_q_list := (gr_data_ref_q_list g)[i := (gr_data_ref_q_list g ! i)\<lparr>qe_data_ref_queue := q\<rparr>]\<rparr>)"
  have null: "qe_data_ref_queue (gr_data_ref_q_list (?G h) ! i) = 0" using m assms(4,5) nq by simp
  have qs: "mset (queues_of (F (?G h))) = (if q = 0 then {#} else {#q#}) + mset (queues_of (?G h))"
    using put_pointer [where ptr = qe_data_ref_queue and sel = "\<lambda>_. True" and xs = "gr_data_ref_q_list (?G h)" and i = i
        and y = "(gr_data_ref_q_list (?G h) ! i)\<lparr>qe_data_ref_queue := q\<rparr>" and n = "unat (gr_num_data_ref_q (?G h))"] assms(4) len' null nq
    by (simp add: queues_of_def param_ptrs_def list_ptrs_def delay_ptrs_def F_def)
  have "making env graph h0 A (insert i B) (upd_graph graph F h1)"
  proof (rule making_put)
    show "books env ?c h0 h1 (if q = 0 then queues_of (?G h) else q # queues_of (?G h))" by (rule cs(1))
    show "graph_frame (?G h0) (F (?G h1))" using graph_frame_trans [OF gf graph_frame_puts(2)] s1 by (simp add: F_def)
    show "mset (queues_of (F (?G h1))) = mset (if q = 0 then queues_of (?G h) else q # queues_of (?G h))" using qs s1 by simp
  qed (use m s1 in \<open>auto simp: F_def nth_list_update\<close>)
  moreover have "q \<noteq> 0 \<longrightarrow> q \<in> set (queues_of (?G (upd_graph graph F h1))) \<and> fresh_queue (upd_graph graph F h1) q"
  proof
    assume "q \<noteq> 0"
    moreover have "set (queues_of (F (?G h))) = set_mset (mset (queues_of (F (?G h))))" by simp
    ultimately have "q \<in> set (queues_of (F (?G h)))" unfolding qs by simp
    then show "q \<in> set (queues_of (?G (upd_graph graph F h1))) \<and> fresh_queue (upd_graph graph F h1) q"
      using cs(3) \<open>q \<noteq> 0\<close> s1 by simp
  qed
  moreover have "queue_param_ok h0 ?c (qe_node (gr_data_ref_q_list (?G h) ! i)) (qe_index (gr_data_ref_q_list (?G h) ! i))"
    using fr assms(4) same by auto
  ultimately show ?thesis
    using queue_step [OF _ assms(2,3)] cr s1 len' by (simp add: create_list_queue_def Let_def F_def)
qed

text \<open>The loops.\<close>

lemma for_each_done:
  assumes "\<And>i A h. i \<in> set xs \<Longrightarrow> i \<notin> A \<Longrightarrow> P A h \<Longrightarrow> P (insert i A) (fst (f i h))" and "\<And>A h. P A h \<Longrightarrow> P UNIV h"
    and "distinct xs" "set xs \<inter> A = {}" "P A h"
  shows "P UNIV (fst (for_each f xs h))"
  using assms(1,3-5)
proof (induction xs arbitrary: A h)
  case Nil
  then show ?case using assms(2) by auto
next
  case (Cons i xs)
  have p: "P (insert i A) (fst (f i h))" using Cons.prems by auto
  obtain h1 st where run: "f i h = (h1, st)" by fastforce
  have "P UNIV (fst (for_each f xs h1))"
    by (rule Cons.IH [of "insert i A"]) (use Cons.prems p run in auto)
  then show ?case using run p assms(2) by (auto simp: and_then_def)
qed

lemma making_all: "making env graph h0 A B h \<Longrightarrow> making env graph h0 UNIV UNIV h"
  by (erule making_mono) simp_all

lemma create_queues_ok:
  assumes "env_ok env" "graph_fresh h0 graph"
  shows "making env graph h0 {} {} h \<Longrightarrow> making env graph h0 UNIV {} (fst (ownGraphCreateGraphParameterDataReferenceQueues env graph h))"
    and "making env graph h0 UNIV {} h \<Longrightarrow> making env graph h0 UNIV UNIV (fst (ownGraphCreateIntermediateDataReferenceQueues env graph h))"
proof -
  have n: "gr_num_params (ho_graphs h graph) = gr_num_params (ho_graphs h0 graph)"
    "gr_num_data_ref_q (ho_graphs h graph) = gr_num_data_ref_q (ho_graphs h0 graph)" if "making env graph h0 A B h" for A B
    using that by (simp_all add: making_def Let_def graph_frame_def)
  show "making env graph h0 UNIV {} (fst (ownGraphCreateGraphParameterDataReferenceQueues env graph h))" if m: "making env graph h0 {} {} h"
    unfolding ownGraphCreateGraphParameterDataReferenceQueues_def n(1) [OF m]
    by (rule for_each_done [where P = "\<lambda>A h. making env graph h0 A {} h"])
      (auto intro: create_param_ok [OF _ assms] m elim: making_mono)
  show "making env graph h0 UNIV UNIV (fst (ownGraphCreateIntermediateDataReferenceQueues env graph h))" if m: "making env graph h0 UNIV {} h"
    unfolding ownGraphCreateIntermediateDataReferenceQueues_def n(2) [OF m]
    by (rule for_each_done [where P = "\<lambda>B h. making env graph h0 UNIV B h"])
      (auto intro: create_list_ok [OF _ assms] m elim: making_mono)
qed

section \<open>Priming and linking\<close>

lemma set_tbl_quiet: "same_book (tbl h) t \<Longrightarrow> quiet h (set_tbl t h)"
  using same_sys by (auto simp: quiet_def same_refs_def same_rest_def)

lemma enqueue_book: "same_book t (fst (ownObjDescQueueEnqueue t q e))"
proof (cases "queue_at t q")
  case (Some i)
  then have i: "i < num_entries t" "od_type (desc_at t i) = TIVX_OBJ_DESC_QUEUE" by (auto simp: queue_at_some)
  have "table_wf (upd_queue i f t)" if "table_wf t" for f
    using that i by (simp add: upd_queue_def) (rule table_wf_upd; simp add: table_wf_def body_ok_def)
  then show ?thesis using Some by (auto simp: ownObjDescQueueEnqueue_def same_book_def upd_queue_def)
qed (simp add: ownObjDescQueueEnqueue_def)

lemma prime_quiet: "quiet h (fst (ownGraphPrimeDataReferenceQueues graph h))"
proof -
  have r: "quiet h (fst (prime_ref q ref h))" for q ref h
  proof -
    have "quiet h (set_tbl (fst (ownObjDescQueueEnqueue (tbl h) a b)) h)" for a b by (rule set_tbl_quiet [OF enqueue_book])
    then show ?thesis by (auto simp: prime_ref_def split: option.split prod.split) (metis fst_conv)+
  qed
  have rs: "quiet (fst hs) (fst (prime_refs q refs hs))" for q refs hs
  proof (induction refs arbitrary: hs)
    case (Cons ref refs)
    obtain h1 st where 1: "prime_ref q ref (fst hs) = (h1, st)" by fastforce
    then have "quiet (fst hs) h1" using r by (metis fst_conv)
    then show ?case using 1 Cons [of "(h1, VX_SUCCESS)"] quiet_trans by auto
  qed simp
  have fold: "quiet (fst hs) (fst (foldl f hs xs))" if "\<And>hs x. quiet (fst hs) (fst (f hs x))"
    for f :: "host \<times> vx_status \<Rightarrow> nat \<Rightarrow> host \<times> vx_status" and xs hs
  proof (induction xs arbitrary: hs)
    case (Cons x xs)
    then show ?case using that quiet_trans by (simp, blast)
  qed simp
  have "quiet (fst hs) (fst (prime_list_queue graph hs i))" "quiet (fst hs) (fst (prime_delay_queue graph hs i))" for hs i
    by (simp_all add: prime_list_queue_def prime_delay_queue_def rs r Let_def)
  then show ?thesis
    using quiet_trans [OF fold fold] by (fastforce simp: ownGraphPrimeDataReferenceQueues_def Let_def)
qed

text \<open>The stages of the nodes exist.\<close>

definition stages_exist :: "host \<Rightarrow> uintptr \<Rightarrow> bool" where
  "stages_exist h graph \<longleftrightarrow> (\<forall>(n, p) \<in> set (all_params h graph). let node = graph_node h graph n in
     \<forall>k < unat (vn_pipeline_depth (ho_nodes h node)). stage_idx h node k \<in> in_use (tbl h)
        \<and> od_type (desc_at (tbl h) (stage_idx h node k)) = TIVX_OBJ_DESC_NODE)"

lemma upd_stage_quiet:
  assumes "i < num_entries (tbl h)" "od_type (desc_at (tbl h) i) = TIVX_OBJ_DESC_NODE"
  shows "quiet h (upd_stage i f h)"
proof -
  have "same_book (tbl h) (tbl (upd_stage i f h))"
    using upd_stage_wf [of h i f] upd_stage_shape [of h i f] assms by (simp add: same_book_def same_shape_def)
  moreover have "upd_stage i f h = set_tbl (tbl (upd_stage i f h)) h" by (simp add: upd_stage_def upd_node_def)
  ultimately show ?thesis using set_tbl_quiet by metis
qed

lemma quiet_nodes:
  assumes "quiet h h'"
  shows "ho_nodes h' = ho_nodes h" "ho_kernels h' = ho_kernels h" "ho_graphs h' = ho_graphs h" "ho_refs h' = ho_refs h"
    "all_params h' graph = all_params h graph" "stage_idx h' = stage_idx h"
    "stages_exist h' graph = stages_exist h graph"
proof -
  show f: "ho_nodes h' = ho_nodes h" "ho_kernels h' = ho_kernels h" "ho_graphs h' = ho_graphs h" "ho_refs h' = ho_refs h"
    using assms by (simp_all add: quiet_def same_rest_def same_refs_def)
  then show a: "all_params h' graph = all_params h graph" "stage_idx h' = stage_idx h"
    by (simp_all add: all_params_def stage_idx_def ownNodeGetNumParameters_def fun_eq_iff)
  have "in_use (tbl h') = in_use (tbl h)" using assms same_book_in_use by (simp add: quiet_def)
  moreover have "od_type (desc_at (tbl h') i) = od_type (desc_at (tbl h) i)" if "i \<in> in_use (tbl h)" for i
    using assms that by (simp add: quiet_def same_book_def in_use_def)
  ultimately show "stages_exist h' graph = stages_exist h graph"
    unfolding stages_exist_def Let_def a f by fastforce
qed


lemma fold_quiet:
  assumes "\<And>h1 x. x \<in> set xs \<Longrightarrow> quiet h h1 \<Longrightarrow> quiet h1 (f h1 x)"
  shows "quiet h (foldl f h xs)"
  using assms
proof (induction xs rule: rev_induct)
  case (snoc x xs)
  have "quiet h (foldl f h xs)" using snoc by simp
  then show ?case using snoc.prems [of x "foldl f h xs"] quiet_trans by simp
qed simp

lemma stages_exist_at:
  assumes "stages_exist h graph" "(n, p) \<in> set (all_params h graph)" "k < unat (vn_pipeline_depth (ho_nodes h (graph_node h graph n)))"
  shows "stage_idx h (graph_node h graph n) k \<in> in_use (tbl h)"
    "od_type (desc_at (tbl h) (stage_idx h (graph_node h graph n) k)) = TIVX_OBJ_DESC_NODE"
  using bspec [OF assms(1) [unfolded stages_exist_def] assms(2)] assms(3) by (simp_all add: Let_def)

lemma link_node_quiet:
  assumes "stages_exist h graph" "(n, p') \<in> set (all_params h graph)"
  shows "quiet h (ownNodeLinkDataRefQueue h (graph_node h graph n) p q)"
  unfolding ownNodeLinkDataRefQueue_def
proof (rule fold_quiet)
  fix h1 k assume k: "k \<in> set [0..<unat (vn_pipeline_depth (ho_nodes h (graph_node h graph n)))]" and qu: "quiet h h1"
  note s = quiet_nodes [OF qu]
  have "stages_exist h1 graph" "(n, p') \<in> set (all_params h1 graph)" using s assms by simp_all
  from stages_exist_at [OF this, of k] have "stage_idx h1 (graph_node h graph n) k \<in> in_use (tbl h1)"
      "od_type (desc_at (tbl h1) (stage_idx h1 (graph_node h graph n) k)) = TIVX_OBJ_DESC_NODE"
    using k s(1,3) by simp_all
  then show "quiet h1 (upd_stage (stage_idx h1 (graph_node h graph n) k)
      (\<lambda>d. d\<lparr>nd_is_prm_data_ref_q := tivxFlagBitSet (nd_is_prm_data_ref_q d) (push_bit p 1),
             nd_data_ref_q_id := (nd_data_ref_q_id d)[p := ownDataRefQueueGetObjDescId h1 q k]\<rparr>) h1)"
    by (intro upd_stage_quiet) (simp_all add: in_use_def)
qed

lemma link_quiet:
  assumes "stages_exist h graph"
  shows "quiet h (ownGraphLinkDataReferenceQueues graph h)"
proof -
  have to_index: "quiet h1 (ownGraphLinkDataReferenceQueuesToNodeIndex h1 graph q node idx)" if "quiet h h1" for h1 q node idx
    unfolding ownGraphLinkDataReferenceQueuesToNodeIndex_def Let_def
  proof (rule fold_quiet)
    fix h2 x assume x: "x \<in> set (all_params h1 graph)" and qu: "quiet h1 h2"
    have q2: "quiet h h2" using that qu by (rule quiet_trans)
    obtain n p where np: "x = (n, p)" by fastforce
    have "quiet h2 (ownNodeLinkDataRefQueue h2 (graph_node h2 graph n) p q)"
      using link_node_quiet [of h2 graph n p] quiet_nodes(7) [OF q2] quiet_nodes(5) [OF qu] x np assms by simp
    then show "quiet h2 (case x of (n, p) \<Rightarrow>
        if ownNodeGetParameterRef h2 (graph_node h2 graph n) p \<noteq> 0 \<and> ownNodeGetParameterRef h1 node idx \<noteq> 0
           \<and> (ownNodeGetParameterRef h2 (graph_node h2 graph n) p = ownNodeGetParameterRef h1 node idx
              \<or> ownNodeGetParameterRef h1 node idx = rf_scope (ho_refs h2 (ownNodeGetParameterRef h2 (graph_node h2 graph n) p))
              \<or> rf_scope (ho_refs h2 (ownNodeGetParameterRef h1 node idx)) = ownNodeGetParameterRef h2 (graph_node h2 graph n) p)
        then ownNodeLinkDataRefQueue h2 (graph_node h2 graph n) p q else h2)"
      by (simp add: np)
  qed
  define g where "g = ho_graphs h graph"
  define h1 where "h1 = foldl (\<lambda>h p. if gp_queue_enable p then ownGraphLinkDataReferenceQueuesToNodeIndex h graph (gp_data_ref_queue p)
      (gp_node p) (unat (gp_index p)) else h) h (take (unat (gr_num_params g)) (gr_parameters g))"
  define h2 where "h2 = foldl (\<lambda>h e. ownGraphLinkDataReferenceQueuesToNodeIndex h graph (qe_data_ref_queue e)
      (qe_node e) (unat (qe_index e))) h1 (take (unat (gr_num_data_ref_q g)) (gr_data_ref_q_list g))"
  have q1: "quiet h h1" unfolding h1_def by (rule fold_quiet) (simp add: to_index)
  have "quiet h1 h2" unfolding h2_def by (rule fold_quiet) (use quiet_trans [OF q1] to_index in blast)
  then have q2: "quiet h h2" by (rule quiet_trans [OF q1])
  have "quiet h2 (ownGraphLinkDataReferenceQueues graph h)"
    unfolding ownGraphLinkDataReferenceQueues_def Let_def g_def [symmetric] h1_def [symmetric] h2_def [symmetric]
    by (rule fold_quiet) (use quiet_trans [OF q2] to_index in simp)
  then show ?thesis by (rule quiet_trans [OF q2])
qed

text \<open>Whatever happens, the books are right.\<close>

lemma stages_kept:
  assumes "making env graph h0 A B h" "stages_exist h0 graph"
  shows "stages_exist h graph"
proof -
  note m = assms(1) [unfolded making_def Let_def graph_frame_def]
  have a: "all_params h graph = all_params h0 graph" "stage_idx h = stage_idx h0"
    using m by (simp_all add: all_params_def stage_idx_def ownNodeGetNumParameters_def fun_eq_iff)
  have "i \<in> in_use (tbl h)" "od_type (desc_at (tbl h) i) = od_type (desc_at (tbl h0) i)" if "i \<in> in_use (tbl h0)" for i
    using m that by (auto simp: ledger_def)
  then show ?thesis using assms(2) m unfolding stages_exist_def Let_def a by fastforce
qed

lemma create_and_link_ok:
  assumes "env_ok env" "graph_fresh h graph" "stages_exist h graph"
  shows "making env graph h UNIV UNIV (fst (ownGraphCreateAndLinkDataReferenceQueues env graph h))"
proof -
  note cq = create_queues_ok [OF assms(1,2)]
  let ?M = "making env graph h"
  obtain h1 st1 where r1: "ownGraphCreateGraphParameterDataReferenceQueues env graph h = (h1, st1)" by fastforce
  obtain h2 st2 where r2: "ownGraphCreateIntermediateDataReferenceQueues env graph h1 = (h2, st2)" by fastforce
  obtain h3 st3 where r3: "ownGraphPrimeDataReferenceQueues graph h2 = (h3, st3)" by fastforce
  have m1: "?M UNIV {} h1" using cq(1) [OF making_start [OF assms(2)]] r1 by simp
  have m2: "?M UNIV UNIV h2" using cq(2) [OF m1] r2 by simp
  have m3: "?M UNIV UNIV h3" using making_quiet [OF m2 prime_quiet [of h2 graph]] r3 by simp
  have m4: "?M UNIV UNIV (ownGraphLinkDataReferenceQueues graph h3)"
    by (rule making_quiet [OF m3 link_quiet [OF stages_kept [OF m3 assms(3)]]])
  show ?thesis
    using r1 r2 r3 making_all [OF m1] m2 m3 m4 by (simp add: ownGraphCreateAndLinkDataReferenceQueues_def and_then_def)
qed


section \<open>Releasing the queues of a graph\<close>

text \<open>The pointers of the parameters in \<open>A\<close>, the entries in \<open>B\<close> and the entries for delays in \<open>D\<close> are null
  again. No entry has more than one buffer.\<close>

definition clearing :: "verify_env \<Rightarrow> uintptr \<Rightarrow> host \<Rightarrow> uint32 \<Rightarrow> nat set \<Rightarrow> nat set \<Rightarrow> nat set \<Rightarrow> host \<Rightarrow> bool" where
  "clearing env graph h0 nd A B D h \<longleftrightarrow> making env graph h0 UNIV UNIV h \<and> (let g = ho_graphs h graph in gr_num_delay_data_ref_q g = nd
   \<and> (\<forall>i \<in> A. i < unat (gr_num_params g) \<longrightarrow> gp_queue_enable (gr_parameters g ! i) \<longrightarrow> gp_data_ref_queue (gr_parameters g ! i) = 0)
   \<and> (\<forall>i \<in> B. i < unat (gr_num_data_ref_q g) \<longrightarrow> qe_data_ref_queue (gr_data_ref_q_list g ! i) = 0)
   \<and> (\<forall>i \<in> D. i < unat (gr_num_delay_data_ref_q g) \<longrightarrow> de_data_ref_queue (gr_delay_data_ref_q_list g ! i) = 0)
   \<and> (\<forall>i < unat (gr_num_data_ref_q g). qe_num_buf (gr_data_ref_q_list g ! i) \<le> 1))"

text \<open>One release and the clearing of its pointer.\<close>

lemma release_step:
  assumes "making env graph h0 UNIV UNIV h" "env_ok env" "mset (queues_of (ho_graphs h graph)) = {#q#} + mset (queues_of (F (ho_graphs h graph)))"
    and "release_drq env h q = (h1, p, st)" "graph_frame (ho_graphs h graph) (F (ho_graphs h graph))"
    and "gr_num_delay_data_ref_q (F (ho_graphs h graph)) = gr_num_delay_data_ref_q (ho_graphs h graph)"
  shows "p = 0" "st = VX_SUCCESS" "making env graph h0 UNIV UNIV (upd_graph graph F h1)"
    "ho_graphs h1 = ho_graphs h"
proof -
  note m = assms(1) [unfolded making_def Let_def]
  have b: "books env (rf_context (ho_refs h0 graph)) h0 h (q # queues_of (F (ho_graphs h graph)))"
    by (rule ledger_perm [OF conjunct1 [OF m]]) (simp add: assms(3))
  have e: "rc_mutex_lock (ve_rc env) = 0" "callbacks_local (ve_cb env)" using assms(2) by (simp_all add: env_ok_def)
  note r = ledger_release [OF b e assms(4)]
  show "p = 0" "st = VX_SUCCESS" by (rule r(2,3))+
  have s: "ho_graphs h1 = ho_graphs h" "ho_nodes h1 = ho_nodes h" "ho_delays h1 = ho_delays h" "ho_kernels h1 = ho_kernels h"
    using r(4) by (simp_all add: same_rest_def)
  show "making env graph h0 UNIV UNIV (upd_graph graph F h1)"
    by (rule making_put [where qs = "queues_of (F (ho_graphs h graph))"])
      (use m s r(1) assms(5,6) graph_frame_trans in auto)
  show "ho_graphs h1 = ho_graphs h" by (rule s(1))
qed

lemma clear_pointer:
  assumes "i < n" "i < length xs" "sel y" "sel (xs ! i)" "ptr y = 0" "ptr (xs ! i) \<noteq> 0"
  shows "mset (nonnull (map ptr (filter sel (take n xs))))
    = {#ptr (xs ! i)#} + mset (nonnull (map ptr (filter sel (take n (xs[i := y])))))"
  using put_pointer [of i n "xs[i := y]" sel "xs ! i" ptr] assms by simp

lemma release_param_ok:
  assumes "clearing env graph h0 nd A B D h" "env_ok env" "graph_fresh h0 graph" "i < unat (gr_num_params (ho_graphs h0 graph))"
  shows "\<exists>h'. release_param_queue env graph (h, VX_SUCCESS) i = (h', VX_SUCCESS) \<and> clearing env graph h0 nd (insert i A) B D h'"
proof -
  let ?g = "ho_graphs h graph" and ?q = "gp_data_ref_queue (gr_parameters (ho_graphs h graph) ! i)"
  note cl = assms(1) [unfolded clearing_def Let_def] and fr = assms(3) [unfolded graph_fresh_def Let_def]
  then have m: "making env graph h0 UNIV UNIV h" by blast
  then have gf: "graph_frame (ho_graphs h0 graph) ?g" by (simp add: making_def Let_def)
  have i: "i < length (gr_parameters ?g)" "i < unat (gr_num_params ?g)"
    using graph_frame_params(1) [OF gf] gf assms(4) fr by (simp_all add: graph_frame_def)
  show ?thesis
  proof (cases "gp_queue_enable (gr_parameters ?g ! i) \<and> ?q \<noteq> 0")
    case False
    then have "clearing env graph h0 nd (insert i A) B D h" using cl by (auto simp: clearing_def Let_def)
    then show ?thesis using False by (auto simp: release_param_queue_def Let_def)
  next
    case True
    define F where "F = (\<lambda>g :: vx_graph_t. g\<lparr>gr_parameters := (gr_parameters g)[i := (gr_parameters g ! i)\<lparr>gp_data_ref_queue := 0\<rparr>]\<rparr>)"
    have qs: "mset (queues_of ?g) = {#?q#} + mset (queues_of (F ?g))"
      using clear_pointer [where sel = gp_queue_enable and ptr = gp_data_ref_queue and xs = "gr_parameters ?g" and i = i
          and n = "unat (gr_num_params ?g)" and y = "(gr_parameters ?g ! i)\<lparr>gp_data_ref_queue := 0\<rparr>"] i True
      by (simp add: queues_of_def param_ptrs_def list_ptrs_def delay_ptrs_def F_def)
    obtain h1 p st where r: "release_drq env h ?q = (h1, p, st)" by (metis prod_cases3)
    have "graph_frame ?g (F ?g)" "gr_num_delay_data_ref_q (F ?g) = gr_num_delay_data_ref_q ?g"
      by (simp_all add: F_def graph_frame_puts)
    note rs = release_step [where F = F, OF m assms(2) qs r this]
    have "clearing env graph h0 nd (insert i A) B D (upd_graph graph F h1)"
      using cl rs i by (simp add: clearing_def Let_def) (auto simp: F_def nth_list_update)
    then show ?thesis using True r rs(1,2) by (simp add: release_param_queue_def Let_def F_def)
  qed
qed

lemma release_list_ok:
  assumes "clearing env graph h0 nd A B D h" "env_ok env" "graph_fresh h0 graph" "i < unat (gr_num_data_ref_q (ho_graphs h0 graph))"
  shows "\<exists>h'. release_list_queue env graph (h, VX_SUCCESS) i = (h', VX_SUCCESS) \<and> clearing env graph h0 nd A (insert i B) D h'"
proof -
  let ?g = "ho_graphs h graph" and ?q = "qe_data_ref_queue (gr_data_ref_q_list (ho_graphs h graph) ! i)"
  note cl = assms(1) [unfolded clearing_def Let_def] and fr = assms(3) [unfolded graph_fresh_def Let_def]
  then have m: "making env graph h0 UNIV UNIV h" by blast
  then have gf: "graph_frame (ho_graphs h0 graph) ?g" by (simp add: making_def Let_def)
  have i: "i < length (gr_data_ref_q_list ?g)" "i < unat (gr_num_data_ref_q ?g)"
    using graph_frame_params(2) [OF gf] gf assms(4) fr by (simp_all add: graph_frame_def)
  have nb: "\<not> qe_num_buf (gr_data_ref_q_list ?g ! i) > 1" using cl i(2) by (simp add: not_less)
  show ?thesis
  proof (cases "?q \<noteq> 0")
    case False
    then have "clearing env graph h0 nd A (insert i B) D h" using cl by (auto simp: clearing_def Let_def)
    then show ?thesis using False nb by (auto simp: release_list_queue_def Let_def)
  next
    case True
    define F where "F = (\<lambda>g :: vx_graph_t. g\<lparr>gr_data_ref_q_list := (gr_data_ref_q_list g)[i := (gr_data_ref_q_list g ! i)\<lparr>qe_data_ref_queue := 0\<rparr>]\<rparr>)"
    have qs: "mset (queues_of ?g) = {#?q#} + mset (queues_of (F ?g))"
      using clear_pointer [where sel = "\<lambda>_. True" and ptr = qe_data_ref_queue and xs = "gr_data_ref_q_list ?g" and i = i
          and n = "unat (gr_num_data_ref_q ?g)" and y = "(gr_data_ref_q_list ?g ! i)\<lparr>qe_data_ref_queue := 0\<rparr>"] i True
      by (simp add: queues_of_def param_ptrs_def list_ptrs_def delay_ptrs_def F_def)
    obtain h1 p st where r: "release_drq env h ?q = (h1, p, st)" by (metis prod_cases3)
    have "graph_frame ?g (F ?g)" "gr_num_delay_data_ref_q (F ?g) = gr_num_delay_data_ref_q ?g"
      by (simp_all add: F_def graph_frame_puts)
    note rs = release_step [where F = F, OF m assms(2) qs r this]
    have "clearing env graph h0 nd A (insert i B) D (upd_graph graph F h1)"
      using cl rs i by (simp add: clearing_def Let_def) (auto simp: F_def nth_list_update)
    then show ?thesis using True r rs(1,2,4) nb i(1) by (simp add: release_list_queue_def Let_def F_def)
  qed
qed


lemma release_delay_ok:
  assumes "clearing env graph h0 nd A B D h" "env_ok env" "graph_fresh h0 graph" "i < unat nd"
  shows "\<exists>h'. release_delay_queue env graph (h, VX_SUCCESS) i = (h', VX_SUCCESS) \<and> clearing env graph h0 nd A B (insert i D) h'"
proof -
  let ?g = "ho_graphs h graph" and ?q = "de_data_ref_queue (gr_delay_data_ref_q_list (ho_graphs h graph) ! i)"
  note cl = assms(1) [unfolded clearing_def Let_def] and fr = assms(3) [unfolded graph_fresh_def Let_def]
  then have m: "making env graph h0 UNIV UNIV h" by blast
  then have i: "i < length (gr_delay_data_ref_q_list ?g)" "i < unat (gr_num_delay_data_ref_q ?g)"
    using assms(4) fr cl by (simp_all add: making_def Let_def graph_frame_def)
  show ?thesis
  proof (cases "?q \<noteq> 0")
    case False
    then have "clearing env graph h0 nd A B (insert i D) h" using cl by (auto simp: clearing_def Let_def)
    then show ?thesis using False by (auto simp: release_delay_queue_def Let_def)
  next
    case True
    define F where "F = (\<lambda>g :: vx_graph_t. g\<lparr>gr_delay_data_ref_q_list := (gr_delay_data_ref_q_list g)[i :=
        (gr_delay_data_ref_q_list g ! i)\<lparr>de_data_ref_queue := 0\<rparr>]\<rparr>)"
    have qs: "mset (queues_of ?g) = {#?q#} + mset (queues_of (F ?g))"
      using clear_pointer [where sel = "\<lambda>_. True" and ptr = de_data_ref_queue and xs = "gr_delay_data_ref_q_list ?g" and i = i
          and n = "unat (gr_num_delay_data_ref_q ?g)" and y = "(gr_delay_data_ref_q_list ?g ! i)\<lparr>de_data_ref_queue := 0\<rparr>"]
        i True
      by (simp add: queues_of_def param_ptrs_def list_ptrs_def delay_ptrs_def F_def)
    obtain h1 p st where r: "release_drq env h ?q = (h1, p, st)" by (metis prod_cases3)
    have "graph_frame ?g (F ?g)" "gr_num_delay_data_ref_q (F ?g) = gr_num_delay_data_ref_q ?g"
      by (simp_all add: F_def graph_frame_puts)
    note rs = release_step [where F = F, OF m assms(2) qs r this]
    have "clearing env graph h0 nd A B (insert i D) (upd_graph graph F h1)"
      using cl rs i by (simp add: clearing_def Let_def) (auto simp: F_def nth_list_update)
    then show ?thesis using True r rs(1,2,4) by (simp add: release_delay_queue_def Let_def F_def)
  qed
qed

lemma release_loop:
  assumes "\<And>i A h. i \<in> set xs \<Longrightarrow> P A h \<Longrightarrow> \<exists>h'. f (h, VX_SUCCESS) i = (h', VX_SUCCESS) \<and> P (insert i A) h'" "P A h"
  shows "\<exists>h'. foldl f (h, VX_SUCCESS) xs = (h', VX_SUCCESS) \<and> P (A \<union> set xs) h'"
  using assms
proof (induction xs arbitrary: A h)
  case (Cons i xs)
  obtain h1 where 1: "f (h, VX_SUCCESS) i = (h1, VX_SUCCESS)" "P (insert i A) h1" using Cons.prems by (meson list.set_intros(1))
  obtain h' where "foldl f (h1, VX_SUCCESS) xs = (h', VX_SUCCESS) \<and> P (insert i A \<union> set xs) h'"
    using Cons.IH [OF Cons.prems(1) 1(2)] by auto
  then show ?case using 1(1) by auto
qed auto

lemma release_queues_ok:
  assumes "making env graph h0 UNIV UNIV h" "env_ok env" "graph_fresh h0 graph"
    and "\<forall>i < unat (gr_num_data_ref_q (ho_graphs h0 graph)). qe_num_buf (gr_data_ref_q_list (ho_graphs h0 graph) ! i) \<le> 1"
  shows "\<exists>h'. release_queues env graph (h, VX_SUCCESS) = (h', VX_SUCCESS) \<and> making env graph h0 UNIV UNIV h'
    \<and> queues_of (ho_graphs h' graph) = []"
proof -
  let ?g = "ho_graphs h graph" and ?start = "ho_graphs h0 graph"
  note fr = assms(3) [unfolded graph_fresh_def Let_def]
  have gf: "graph_frame ?start ?g" using assms(1) by (simp add: making_def Let_def)
  have n: "gr_num_params ?g = gr_num_params ?start" "gr_num_data_ref_q ?g = gr_num_data_ref_q ?start" using gf by (simp_all add: graph_frame_def)
  have "qe_num_buf (gr_data_ref_q_list ?g ! i) \<le> 1" if "i < unat (gr_num_data_ref_q ?g)" for i
    using graph_frame_params(4) [OF gf, of i] assms(4) that n fr by auto
  moreover define nd where "nd = gr_num_delay_data_ref_q ?g"
  ultimately have c0: "clearing env graph h0 nd {} {} {} h" using assms(1) by (simp add: clearing_def Let_def)
  have "\<exists>h1. foldl (release_param_queue env graph) (h, VX_SUCCESS) [0..<unat (gr_num_params ?g)] = (h1, VX_SUCCESS)
      \<and> clearing env graph h0 nd ({} \<union> set [0..<unat (gr_num_params ?g)]) {} {} h1"
    by (rule release_loop [where P = "\<lambda>A h. clearing env graph h0 nd A {} {} h", OF _ c0])
      (rule release_param_ok [OF _ assms(2,3)], simp_all add: n)
  then obtain h1 where h1: "foldl (release_param_queue env graph) (h, VX_SUCCESS) [0..<unat (gr_num_params ?g)] = (h1, VX_SUCCESS)"
    "clearing env graph h0 nd {0..<unat (gr_num_params ?g)} {} {} h1" by auto
  have "\<exists>h2. foldl (release_list_queue env graph) (h1, VX_SUCCESS) [0..<unat (gr_num_data_ref_q ?g)] = (h2, VX_SUCCESS)
      \<and> clearing env graph h0 nd {0..<unat (gr_num_params ?g)} ({} \<union> set [0..<unat (gr_num_data_ref_q ?g)]) {} h2"
    by (rule release_loop [where P = "\<lambda>B h. clearing env graph h0 nd {0..<unat (gr_num_params ?g)} B {} h", OF _ h1(2)])
      (rule release_list_ok [OF _ assms(2,3)], simp_all add: n)
  then obtain h2 where h2: "foldl (release_list_queue env graph) (h1, VX_SUCCESS) [0..<unat (gr_num_data_ref_q ?g)] = (h2, VX_SUCCESS)"
    "clearing env graph h0 nd {0..<unat (gr_num_params ?g)} {0..<unat (gr_num_data_ref_q ?g)} {} h2" by auto
  have "\<exists>h3. foldl (release_delay_queue env graph) (h2, VX_SUCCESS) [0..<unat nd] = (h3, VX_SUCCESS)
      \<and> clearing env graph h0 nd {0..<unat (gr_num_params ?g)} {0..<unat (gr_num_data_ref_q ?g)} ({} \<union> set [0..<unat nd]) h3"
    by (rule release_loop [where P = "clearing env graph h0 nd {0..<unat (gr_num_params ?g)} {0..<unat (gr_num_data_ref_q ?g)}", OF _ h2(2)])
      (rule release_delay_ok [OF _ assms(2,3)], simp_all)
  then obtain h3 where h3: "foldl (release_delay_queue env graph) (h2, VX_SUCCESS) [0..<unat nd] = (h3, VX_SUCCESS)"
    "clearing env graph h0 nd {0..<unat (gr_num_params ?g)} {0..<unat (gr_num_data_ref_q ?g)} {0..<unat nd} h3" by auto
  note c = h3(2) [unfolded clearing_def Let_def]
  have m: "making env graph h0 UNIV UNIV h3" using c by blast
  have n3: "gr_num_params (ho_graphs h3 graph) = gr_num_params ?g" "gr_num_data_ref_q (ho_graphs h3 graph) = gr_num_data_ref_q ?g"
    using m n by (simp_all add: making_def Let_def graph_frame_def)
  have "queues_of (ho_graphs h3 graph) = []"
    using c n3 by (auto simp: queues_of_def param_ptrs_def list_ptrs_def delay_ptrs_def filter_empty_conv in_set_conv_nth)
  moreover have "release_queues env graph (h, VX_SUCCESS) = (h3, VX_SUCCESS)"
    using h1(1) h2(1) h3(1) by (simp add: release_queues_def Let_def nd_def)
  ultimately show ?thesis using m by blast
qed


section \<open>Nothing is lost\<close>



text \<open>A context with a graph and a delay of two images; the node of the graph writes the first image, which is
  a parameter that the application serves.\<close>

definition open_host :: host where
  "open_host = upd_context ctx_addr (\<lambda>c. c\<lparr>cx_reftable := replicate 8 0\<rparr>) ref_host"

definition four_refs :: host where
  "four_refs = foldl (\<lambda>h ty. fst (ownCreateReference posix_ok h ctx_addr ty VX_EXTERNAL ctx_addr)) open_host
     [VX_TYPE_GRAPH, VX_TYPE_DELAY, VX_TYPE_IMAGE, VX_TYPE_IMAGE]"

definition ring_graph :: vx_graph_t where
  "ring_graph = zero_graph\<lparr>gr_nodes := 1 # replicate 127 0, gr_num_nodes := 1, gr_num_params := 1,
     gr_parameters := [\<lparr>gp_node = 1, gp_index = 0, gp_queue_enable = True, gp_num_buf = 1, gp_data_ref_queue = 0,
       gp_refs_list = [0x80F00000], gp_is_enable_send_ref_consumed_event = False,
       gp_is_enable_send_ref_consumed_graph_event = False, gp_type = VX_TYPE_IMAGE\<rparr>]\<rparr>"

definition ring_host :: host where
  "ring_host = (upd_ref 0x80F00100 (\<lambda>r. r\<lparr>rf_obj_desc := Some 1\<rparr>)
       (upd_ref 0x80F00000 (\<lambda>r. r\<lparr>rf_delay := 0x80600000\<rparr>) four_refs))
     \<lparr>ho_sys := (sample_sys 0x100)\<lparr>sys_tbl := \<lparr>odt_table_base = link_desc 0 ([], [])
          # init_desc sample_ids 1 TIVX_OBJ_DESC_IMAGE 0x80F00100 # replicate 8 free_desc, odt_last_alloc_index = 0\<rparr>\<rparr>,
      ho_kernels := (\<lambda>_. \<lparr>krn_enumeration = 0, krn_num_parameters = 1, krn_directions = [VX_OUTPUT], krn_types = [],
         krn_states = [], krn_num_pipeup_bufs = 1, krn_num_sink_bufs = 1, krn_connected_sink_bufs = 1\<rparr>),
      ho_nodes := (\<lambda>_. zero_vnode\<lparr>vn_obj_desc := [Some 0], vn_parameters := [0x80F00000]\<rparr>),
      ho_graphs := (\<lambda>_. ring_graph),
      ho_delays := (\<lambda>_. zero_delay\<lparr>dl_refs := [0x80F00000, 0x80F00100], dl_set := [[(1, 0)], [(0, 0)]], dl_count := 2\<rparr>)\<rparr>"

definition sample_env :: verify_env where
  "sample_env = \<lparr>ve_rc = posix_ok, ve_pf = sample_ids, ve_info = sample_info, ve_ca = sample_code, ve_cb = no_callbacks,
     ve_mem = (\<lambda>_ h _. (h, VX_SUCCESS)), ve_uninit = False\<rparr>"

lemma four_refs_table:
  "reftable four_refs ctx_addr = [0x80200000, 0x80600000, 0x80F00000, 0x80F00100]"
  "rf_context (ho_refs four_refs 0x80200000) = ctx_addr"
  by code_simp+

lemma ring_run:
  "case ownGraphCreateAndLinkDataReferenceQueues sample_env 0x80200000 ring_host of (h, st) \<Rightarrow>
     st = VX_SUCCESS \<and> length (queues_of (ho_graphs h 0x80200000)) = 2"
  by code_simp

lemma ring_host_ok:
  "env_ok sample_env" "graph_fresh ring_host 0x80200000" "stages_exist ring_host 0x80200000"
  "gr_num_data_ref_q (ho_graphs ring_host 0x80200000) = 0"
proof -
  let ?g = "0x80200000 :: uintptr" and ?i = "0x80F00000 :: uintptr" and ?j = "0x80F00100 :: uintptr"
  show "env_ok sample_env"
    by (simp add: env_ok_def sample_env_def no_callbacks_local sample_code_def)
  have "reftable open_host ctx_addr = []" by (simp add: reftable_def open_host_def)
  then have "refs_ok open_host ctx_addr" using ref_host_ok
    by (simp add: refs_ok_def) (simp add: open_host_def ownIsValidContext_def upd_context_def)
  moreover have "refs_ok (fst (ownCreateReference posix_ok h ctx_addr ty VX_EXTERNAL ctx_addr)) ctx_addr"
    if "refs_ok h ctx_addr" "ty \<in> ref_types" for h ty
    by (rule create_ok(1) [OF that(1) posix_ok_lock(1) that(2), where h' = "fst (ownCreateReference posix_ok h ctx_addr ty VX_EXTERNAL ctx_addr)"])
      (rule prod.collapse [symmetric])
  moreover have "VX_TYPE_GRAPH \<in> ref_types" "VX_TYPE_DELAY \<in> ref_types" "VX_TYPE_IMAGE \<in> ref_types"
    by (simp_all add: ref_types_def object_types_def)
  ultimately have ok: "refs_ok four_refs ctx_addr" by (simp only: four_refs_def foldl.simps)
  define h where "h = upd_ref ?j (\<lambda>r. r\<lparr>rf_obj_desc := Some 1\<rparr>) (upd_ref ?i (\<lambda>r. r\<lparr>rf_delay := 0x80600000\<rparr>) four_refs)"
  have mem: "?i \<in> set (reftable four_refs ctx_addr)" "?j \<in> set (reftable (upd_ref ?i f four_refs) ctx_addr)" for f
    using four_refs_table by (simp_all add: reftable_def)
  have "good_ref ctx_addr (r\<lparr>rf_delay := d\<rparr>) = good_ref ctx_addr r" "good_ref ctx_addr (r\<lparr>rf_obj_desc := x\<rparr>) = good_ref ctx_addr r"
    for r d x by (simp_all add: good_ref_def counts_def)
  note g = this
  have h1: "refs_ok (upd_ref ?i (\<lambda>r. r\<lparr>rf_delay := 0x80600000\<rparr>) four_refs) ctx_addr"
    by (rule refs_ok_counts(1) [OF ok mem(1)]) (simp_all add: g refs_ok_good(3) [OF ok mem(1)])
  have "refs_ok h ctx_addr"
    unfolding h_def
  proof (rule refs_ok_counts(1) [OF h1 mem(2)])
    have "?j \<in> set (reftable four_refs ctx_addr)" using four_refs_table by simp
    then show "good_ref ctx_addr ((ho_refs (upd_ref ?i (\<lambda>r. r\<lparr>rf_delay := 0x80600000\<rparr>) four_refs) ?j)\<lparr>rf_obj_desc := Some 1\<rparr>)"
      using refs_ok_good(3) [OF ok] by (simp add: g)
  qed simp
  moreover have s: "same_refs h ring_host" by (simp add: h_def ring_host_def same_refs_def)
  ultimately have rok: "refs_ok ring_host ctx_addr" using same_refs_ok(2) by simp
  have tb: "reftable ring_host ctx_addr = [?g, 0x80600000, ?i, ?j]"
    using same_refs_ok(1) [OF s] four_refs_table(1) by (simp add: h_def reftable_def)
  have cx: "rf_context (ho_refs ring_host ?g) = ctx_addr" using four_refs_table(2) by (simp add: ring_host_def)
  have wf: "table_wf (tbl ring_host)"
    by (auto simp: ring_host_def table_wf_def free_desc_def link_desc_def init_desc_def nth_Cons body_ok_def zero_body_def split: nat.split)
  show "graph_fresh ring_host ?g"
    using rok tb wf by (simp add: graph_fresh_def cx)
      (simp add: ring_host_def ring_graph_def zero_graph_def queues_of_def param_ptrs_def list_ptrs_def delay_ptrs_def
        queue_param_ok_def ownNodeGetParameterRef_def slot_head_def upt_rec)
  show "stages_exist ring_host ?g"
    by (simp add: stages_exist_def all_params_def ring_host_def ring_graph_def zero_graph_def ownNodeGetNumParameters_def
        zero_vnode_def stage_idx_def in_use_def link_desc_def init_desc_def)
  show "gr_num_data_ref_q (ho_graphs ring_host ?g) = 0" by (simp add: ring_host_def ring_graph_def zero_graph_def)
qed



text \<open>A failure to prime one queue is forgotten as soon as the next queue that has a reference is primed:
  what the loop returns does not depend on the status so far.\<close>

lemma prime_forgets_failure:
  assumes "qe_num_buf (gr_data_ref_q_list (ho_graphs h graph) ! i) > 0" "qe_refs_list (gr_data_ref_q_list (ho_graphs h graph) ! i) \<noteq> []"
  shows "prime_list_queue graph (h, VX_FAILURE) i = prime_list_queue graph (h, VX_SUCCESS) i"
proof -
  let ?e = "gr_data_ref_q_list (ho_graphs h graph) ! i"
  have "take (unat (qe_num_buf ?e)) (qe_refs_list ?e) \<noteq> []" using assms by (simp add: word_less_nat_alt)
  then obtain ref refs where "take (unat (qe_num_buf ?e)) (qe_refs_list ?e) = ref # refs" by (cases "take (unat (qe_num_buf ?e)) (qe_refs_list ?e)") auto
  then show ?thesis by (simp add: prime_list_queue_def Let_def)
qed

end
