(* ===== verification/Spec2Isabelle.thy ===== *)
theory Spec2Isabelle
  imports Event_Queue Target_Command Graph_Links References Delays Graph_Run Graph_Queues
begin

text \<open>
  Verification of the core of TIOVX, the Texas Instruments implementation of OpenVX: the run-time
  that executes a pipelined graph of nodes on a set of targets. The development follows the C code
  under \<open>source/framework\<close> and \<open>source/platform/common/os/posix\<close>.

  The program. A graph's nodes run on targets. A target is a task with a job queue, a message queue
  of the operating system. A job is the id of an object descriptor, a record in memory that all CPUs
  share. A node descriptor names the node's kernel, its parameters and its neighbours; a command
  descriptor asks for the creation, deletion or control of a node. Nodes of a pipelined graph do not
  name their buffers: they name a data reference queue, which hands out a buffer from an acquire
  queue, lends it to the nodes that use it and puts it into a release queue when all have finished.
  A node that finds the acquire queue empty is recorded there as blocked and is triggered again when
  a buffer comes back. Completions are reported to the application through event queues.

  The theories, in the order of import:

  \<^item> \<open>Tiovx_Prelude\<close>: machine types, status codes, flag bits, circular buffers and their lists.
  \<^item> \<open>Bounded_Fifo\<close>: the contract of a queue as a reference machine on lists and as the locale
    \<open>bounded_fifo\<close>, with first in, first out over any run of a client proved once.
  \<^item> \<open>Posix_Objects\<close>: the static pools of \<open>tivx_posix_objects.c\<close> and \<open>tivx_mutex.c\<close>.
  \<^item> \<open>Os_Queue\<close>: \<open>tivx_queue.c\<close>, with blocking calls as lists of what other threads do meanwhile.
    Interpretation \<open>osq\<close> of \<open>bounded_fifo\<close>.
  \<^item> \<open>Event_Queue\<close>: \<open>vx_event_queue.c\<close>, a pool of event slots between two such queues.
    Interpretation \<open>evq\<close>.
  \<^item> \<open>Obj_Desc\<close>: the descriptor records of \<open>tivx_obj_desc_priv.h\<close> and the table, payload and string
    operations of \<open>vx_obj_desc.c\<close>.
  \<^item> \<open>Obj_Desc_Queue\<close>: \<open>vx_obj_desc_queue.c\<close>, queues of descriptor ids in shared memory with their
    blocked nodes. Interpretation \<open>odq\<close>.
  \<^item> \<open>Target_Kernel\<close>: the kernel table and the kernel instances.
  \<^item> \<open>Target_Core\<close>: the state \<open>sys\<close> of one CPU, target look-up, job queues and the sending of
    descriptors. Locale \<open>messenger\<close>, interpreted as \<open>target_messenger\<close>: sending leaves the descriptor
    table alone.
  \<^item> \<open>Target_Params\<close>: \<open>vx_target_acquire_parameters.c\<close>, refined to an abstract loan of buffers.
  \<^item> \<open>Target_Node\<close>: the execution of a node in \<open>vx_target.c\<close>, from the trigger to the successors.
  \<^item> \<open>Target_Command\<close>: node creation, deletion and control, commands and acknowledgements, and the
    life of a target's task.
  \<^item> \<open>Object_Pools\<close>: the pools of API objects of \<open>vx_objects.c\<close>. Locale \<open>object_store\<close>, interpreted as
    \<open>pools\<close>: what is handed out is what is live.
  \<^item> \<open>Os_Event\<close>: \<open>tivx_event.c\<close>.
  \<^item> \<open>Host_Graph\<close>: the host side objects (references, nodes, kernels, graphs, delays, contexts) and the
    links between nodes of \<open>vx_node.c\<close>.
  \<^item> \<open>Graph_Sort\<close>: \<open>vx_graph_sort.c\<close>, the topological sort with cycle detection. Locale \<open>node_links\<close>,
    interpreted as \<open>links\<close>: the two directions of the links agree.
  \<^item> \<open>Graph_Links\<close>: how \<open>vx_graph_verify.c\<close> finds the links from the parameters, and the head and leaf
    nodes; its composition with the sort.
  \<^item> \<open>References\<close>: the life of a reference in \<open>vx_reference.c\<close>, \<open>vx_context.c\<close> and \<open>vx_error.c\<close>: counts,
    the table of the context, creation and release.
  \<^item> \<open>Delays\<close>: the rings of references of \<open>vx_delay.c\<close> and the setting of node parameters.
  \<^item> \<open>Graph_Schedule\<close>: the instances of a graph, scheduling and completion, from \<open>vx_graph_pipeline.c\<close>,
    \<open>vx_graph.c\<close> and \<open>vx_node.c\<close>, with what each operation leaves alone.
  \<^item> \<open>Graph_Run\<close>: the executions of a graph as the steps of the threads of the host, and their
    invariant.
  \<^item> \<open>Data_Refs\<close>: the data references of a graph and their consumers, the numbers of buffers and the
    depth of the pipeline, from \<open>vx_graph_verify.c\<close> and \<open>vx_graph_pipeline.c\<close>.
  \<^item> \<open>Node_Stages\<close>: the descriptors of the stages of a pipelined graph and the list of its data reference
    queues, \<open>ownGraphNodePipeline\<close> with what it calls in \<open>vx_node.c\<close>.
  \<^item> \<open>Graph_Parameters\<close>: the enqueue and dequeue of references at the parameters of a graph, from
    \<open>vx_graph_pipeline.c\<close> and \<open>vx_data_ref_queue.c\<close>, refined to an abstract cycle of references.
  \<^item> \<open>Data_Ref_Queues\<close>: the creation and deletion of data reference queues in \<open>vx_data_ref_queue.c\<close>, with
    a book of the descriptors that each step takes or gives back.
  \<^item> \<open>Graph_Queues\<close>: the data reference queues of a graph, from \<open>vx_graph_verify.c\<close>: those of its
    parameters, between its nodes and in the rings of its delays, their first references, their links to
    the nodes and their release in \<open>vx_graph.c\<close>, with a ledger of what all of them own together.

  Conventions. A pointer to a descriptor is its index in the table (\<open>None\<close> for the null pointer); C
  structures are records, unions datatypes, integers words of their width. Kernel functions, the
  platform's messages and the results of POSIX calls are arguments. A call made under the platform
  lock is one step. A wait carries the list of the steps that other threads take while it sleeps, so
  a call that would sleep for ever gives \<open>None\<close>; no other fuel is used: the loops run over lists, or
  over a counter that the code bounds (64 entries of a descriptor queue, 32 parameters and nodes, 8
  blocked nodes).

  What is shown. The queues are first in, first out and lose nothing; acquisition
  and release refine the abstract loan, wake blocked nodes and give every buffer back exactly once;
  a node that has been executed triggers exactly the successors that are ready; creation and deletion
  of nodes leave no instance behind; every command is acknowledged to its sender; kernels and
  instances are found where they were registered; pools and tables are not leaked on error paths. On
  the host side the links between nodes are exactly the data flow of their parameters, and the order
  of execution is a topological order of it unless a cycle is reported; a reference lives exactly as
  long as somebody holds it; the parameters that follow a delay are the references in its slots
  however often it ages; the consumers of every data reference are counted exactly, the depth of a
  pipeline is the length of the longest chain of nodes, and each of its stages is a copy of the graph;
  a reference at an output parameter is waiting, lent to one stage or done, and is accepted exactly when
  the graph does not have it; a data reference queue is created ready or not at all, and its deletion
  gives back all that its creation took, also for all the queues of a graph, wherever their creation fails;
  and no requested execution of a graph is lost, doubled or reported complete
  too early, in any interleaving of requests, completions and waits.

  Not modelled: builds with super nodes (BAM), the RTOS back ends (their operating system is not in
  the repository), the host side objects other than those above, the delays that a graph in the
  normal mode ages on completion (\<open>Graph_Run\<close> is about the queued modes), streaming, the data objects'
  accessors, logging, tracing and the vision kernels themselves.
\<close>

end
